(* ===== verification/Prelude.thy ===== *)
theory Prelude imports Main "HOL-Library.Word" begin

text \<open>
  Shared vocabulary of the development: machine words under their Rust names, the
  crate's \<open>Error\<close> enum and \<open>Result\<close> as a sum type, the little-endian byte conversions
  of the Rust standard library, checked arithmetic, and the generic facts about them
  that the component theories use.
\<close>

unbundle bit_operations_syntax

named_theorems wire_simps \<open>byte-level rewrite rules shared by the codecs\<close>

section \<open>Machine integers\<close>

type_synonym u8 = "8 word"
type_synonym u16 = "16 word"
type_synonym u32 = "32 word"
type_synonym u64 = "64 word"

text \<open>\<open>i64\<close> values are 64-bit words read in two's complement with \<open>sint\<close>.\<close>
type_synonym i64 = "64 word"

type_synonym bytes = "u8 list"

section \<open>Errors and results (src/error.rs)\<close>

text \<open>
  The constructors are the variants of \<open>crate::error::Error\<close>. A message keeps the
  constant text that identifies the branch; interpolated values and the name of the
  segment are dropped. \<open>Panic\<close> is not a variant of the source: it stands for an
  unwinding panic (an out-of-bounds index, \<open>unwrap\<close> on \<open>None\<close>).
\<close>

datatype error =
    Io string
  | Format string
  | Serde string
  | Integrity string
  | Signature
  | Compression_err string
  | Unsupported string
  | NotCalibrated string
  | SchemaMismatch string string
  | Busy string
  | Other string
  | Panic string

type_synonym 'a result = "error + 'a"

text \<open>The \<open>?\<close> operator.\<close>
definition rbind :: "'a result \<Rightarrow> ('a \<Rightarrow> 'b result) \<Rightarrow> 'b result" where
  "rbind r f = (case r of Inl e \<Rightarrow> Inl e | Inr v \<Rightarrow> f v)"

definition ensure :: "bool \<Rightarrow> error \<Rightarrow> unit result" where
  "ensure b e = (if b then Inr () else Inl e)"

text \<open>\<open>Option::ok_or_else\<close>.\<close>
definition ok_or :: "'a option \<Rightarrow> error \<Rightarrow> 'a result" where
  "ok_or r e = (case r of None \<Rightarrow> Inl e | Some v \<Rightarrow> Inr v)"

definition is_ok :: "'a result \<Rightarrow> bool" where
  "is_ok r = (case r of Inl _ \<Rightarrow> False | Inr _ \<Rightarrow> True)"

lemma rbind_simps [simp]:
  "rbind (Inr v) f = f v"
  "rbind (Inl e) f = Inl e"
  by (simp_all add: rbind_def)

lemma rbind_Inr_iff: "rbind r f = Inr w \<longleftrightarrow> (\<exists>v. r = Inr v \<and> f v = Inr w)"
  by (cases r) auto

lemma rbind_Inl_iff: "rbind r f = Inl e \<longleftrightarrow> r = Inl e \<or> (\<exists>v. r = Inr v \<and> f v = Inl e)"
  by (cases r) auto

lemma ensure_simps [simp]:
  "ensure True e = Inr ()"
  "ensure False e = Inl e"
  by (simp_all add: ensure_def)

lemma ensure_Inr_iff [simp]: "ensure b e = Inr u \<longleftrightarrow> b"
  by (simp add: ensure_def)

lemma ensure_Inl_iff [simp]: "ensure b e = Inl e' \<longleftrightarrow> \<not> b \<and> e' = e"
  by (auto simp: ensure_def)

lemma ok_or_simps [simp]:
  "ok_or (Some v) e = Inr v"
  "ok_or None e = Inl e"
  by (simp_all add: ok_or_def)

lemma ok_or_Inr_iff [simp]: "ok_or r e = Inr v \<longleftrightarrow> r = Some v"
  by (cases r) auto

text \<open>Guards: an \<open>if\<close> with an error in one arm.\<close>
lemma guard_Inr_iff:
  "(if c then Inl e else r) = Inr v \<longleftrightarrow> \<not> c \<and> r = Inr v"
  "(if c then r else Inl e) = Inr v \<longleftrightarrow> c \<and> r = Inr v"
  by simp_all

lemmas result_Inr_iff = rbind_Inr_iff guard_Inr_iff

lemma is_ok_simps [simp]: "is_ok (Inr v)" "\<not> is_ok (Inl e)"
  by (simp_all add: is_ok_def)

lemma is_ok_iff: "is_ok r \<longleftrightarrow> (\<exists>v. r = Inr v)"
  by (cases r) auto

text \<open>\<open>iter.map(f).collect::<Result<Vec<_>>>()\<close>: the first error wins.\<close>
fun map_result :: "('a \<Rightarrow> 'b result) \<Rightarrow> 'a list \<Rightarrow> 'b list result" where
  "map_result f [] = Inr []"
| "map_result f (x # xs) =
     rbind (f x) (\<lambda>y. rbind (map_result f xs) (\<lambda>ys. Inr (y # ys)))"

lemma map_result_Inr: "(\<And>x. x \<in> set xs \<Longrightarrow> f x = Inr (g x)) \<Longrightarrow> map_result f xs = Inr (map g xs)"
  by (induction xs) auto

lemma map_result_length: "map_result f xs = Inr ys \<Longrightarrow> length ys = length xs"
  by (induction xs arbitrary: ys) (auto simp: rbind_Inr_iff)

section \<open>Little-endian byte conversions\<close>

text \<open>
  \<open>to_le n x\<close> is the low \<open>n\<close> bytes of \<open>x\<close>, least significant first;
  \<open>from_le\<close> reads a byte string back. They model \<open>to_le_bytes\<close> and
  \<open>from_le_bytes\<close> of the standard library at every width.
\<close>

fun to_le :: "nat \<Rightarrow> nat \<Rightarrow> bytes" where
  "to_le 0 x = []"
| "to_le (Suc n) x = of_nat (x mod 256) # to_le n (x div 256)"

fun from_le :: "bytes \<Rightarrow> nat" where
  "from_le [] = 0"
| "from_le (b # bs) = unat b + 256 * from_le bs"

definition u16_le :: "u16 \<Rightarrow> bytes" where "u16_le w = to_le 2 (unat w)"
definition u32_le :: "u32 \<Rightarrow> bytes" where "u32_le w = to_le 4 (unat w)"
definition u64_le :: "u64 \<Rightarrow> bytes" where "u64_le w = to_le 8 (unat w)"

definition u16_of_le :: "bytes \<Rightarrow> u16" where "u16_of_le bs = of_nat (from_le bs)"
definition u32_of_le :: "bytes \<Rightarrow> u32" where "u32_of_le bs = of_nat (from_le bs)"
definition u64_of_le :: "bytes \<Rightarrow> u64" where "u64_of_le bs = of_nat (from_le bs)"

lemma unat_of_nat_eq: "n < 2 ^ LENGTH('a) \<Longrightarrow> unat (of_nat n :: 'a::len word) = n"
  by (simp add: unat_of_nat)

lemma unat_ucast_up_simp: "LENGTH('a) \<le> LENGTH('b) \<Longrightarrow> unat (ucast (w :: 'a::len word) :: 'b::len word) = unat w"
  by (simp add: unsigned_ucast_eq take_bit_nat_eq_self less_le_trans [OF unsigned_less])

lemma length_to_le [simp]: "length (to_le n x) = n"
  by (induction n arbitrary: x) auto

lemma unat_of_nat_byte: "unat (of_nat (x mod 256) :: u8) = x mod 256"
  by (simp add: unat_of_nat)

lemma from_le_to_le: "from_le (to_le n x) = x mod 256 ^ n"
proof (induction n arbitrary: x)
  case 0
  then show ?case by simp
next
  case (Suc n)
  have "x mod (256 * 256 ^ n) = 256 * (x div 256 mod 256 ^ n) + x mod 256"
    by (rule mod_mult2_eq)
  then show ?case using Suc by (simp add: unat_of_nat_byte)
qed

lemma from_le_less: "from_le bs < 256 ^ length bs"
proof (induction bs)
  case Nil
  then show ?case by simp
next
  case (Cons b bs)
  have "unat b < 256" using unsigned_less [where ?'a = nat, of b] by simp
  with Cons show ?case by simp
qed

lemma from_le_zeros [simp]: "from_le (replicate n 0) = 0"
  by (induction n) auto

lemma to_le_from_le: "length bs = n \<Longrightarrow> to_le n (from_le bs) = bs"
proof (induction bs arbitrary: n)
  case Nil
  then show ?case by simp
next
  case (Cons b bs)
  have b: "unat b < 256" using unsigned_less [where ?'a = nat, of b] by simp
  obtain m where n: "n = Suc m" and m: "length bs = m"
    using Cons.prems by auto
  have "(unat b + 256 * from_le bs) div 256 = from_le bs" using b by simp
  moreover have "(unat b + 256 * from_le bs) mod 256 = unat b" using b by simp
  ultimately show ?case using Cons.IH [OF m] n by simp
qed

lemma length_le [simp]:
  "length (u16_le a) = 2" "length (u32_le b) = 4" "length (u64_le c) = 8"
  by (simp_all add: u16_le_def u32_le_def u64_le_def)

lemma of_le_le [simp]:
  "u16_of_le (u16_le a) = a" "u32_of_le (u32_le b) = b" "u64_of_le (u64_le c) = c"
proof -
  have "unat a < 256 ^ 2" using unsigned_less [where ?'a = nat, of a] by simp
  then show "u16_of_le (u16_le a) = a"
    by (simp add: u16_of_le_def u16_le_def from_le_to_le)
  have "unat b < 256 ^ 4" using unsigned_less [where ?'a = nat, of b] by simp
  then show "u32_of_le (u32_le b) = b"
    by (simp add: u32_of_le_def u32_le_def from_le_to_le)
  have "unat c < 256 ^ 8" using unsigned_less [where ?'a = nat, of c] by simp
  then show "u64_of_le (u64_le c) = c"
    by (simp add: u64_of_le_def u64_le_def from_le_to_le)
qed

lemma le_of_le:
  "length bs = 2 \<Longrightarrow> u16_le (u16_of_le bs) = bs"
  "length bs = 4 \<Longrightarrow> u32_le (u32_of_le bs) = bs"
  "length bs = 8 \<Longrightarrow> u64_le (u64_of_le bs) = bs"
  using from_le_less [of bs]
  by (simp_all add: u16_le_def u16_of_le_def u32_le_def u32_of_le_def u64_le_def u64_of_le_def
      unat_of_nat_eq to_le_from_le)

lemma le_inject [simp]:
  "u16_le a = u16_le a' \<longleftrightarrow> a = a'"
  "u32_le b = u32_le b' \<longleftrightarrow> b = b'"
  "u64_le c = u64_le c' \<longleftrightarrow> c = c'"
  using of_le_le by metis+

section \<open>Checked arithmetic\<close>

text \<open>\<open>checked_add\<close>/\<open>checked_sub\<close> on unsigned integers.\<close>
definition checked_add :: "'a::len word \<Rightarrow> 'a word \<Rightarrow> 'a word option" where
  "checked_add a b = (if unat a + unat b < 2 ^ LENGTH('a) then Some (a + b) else None)"

definition checked_sub :: "'a::len word \<Rightarrow> 'a word \<Rightarrow> 'a word option" where
  "checked_sub a b = (if b \<le> a then Some (a - b) else None)"

text \<open>The same on \<open>i64\<close>.\<close>
definition in_i64 :: "int \<Rightarrow> bool" where
  "in_i64 x = (- (2 ^ 63) \<le> x \<and> x < 2 ^ 63)"

definition checked_add_i64 :: "i64 \<Rightarrow> i64 \<Rightarrow> i64 option" where
  "checked_add_i64 a b = (if in_i64 (sint a + sint b) then Some (a + b) else None)"

definition checked_sub_i64 :: "i64 \<Rightarrow> i64 \<Rightarrow> i64 option" where
  "checked_sub_i64 a b = (if in_i64 (sint a - sint b) then Some (a - b) else None)"

text \<open>\<open>u32::try_from(usize)\<close> and \<open>u32::try_from(u64)\<close>.\<close>
definition u32_try_from :: "nat \<Rightarrow> u32 option" where
  "u32_try_from n = (if n < 2 ^ 32 then Some (of_nat n) else None)"

lemma checked_add_Some_iff:
  "checked_add a b = Some c \<longleftrightarrow> unat a + unat b < 2 ^ LENGTH('a) \<and> c = a + b"
  for a b c :: "'a::len word"
  by (auto simp: checked_add_def)

lemma checked_add_unat: "checked_add a b = Some c \<Longrightarrow> unat c = unat a + unat b"
  for a b c :: "'a::len word"
  by (auto simp: checked_add_def unat_word_ariths split: if_splits)

lemma checked_add_diff [simp]: "a \<le> b \<Longrightarrow> checked_add a (b - a) = Some b"
  for a b :: "'a::len word"
  using unsigned_less [where ?'a = nat, of b]
  by (simp add: checked_add_def unat_sub word_le_nat_alt)

lemma in_i64_sint [simp]: "in_i64 (sint x)" for x :: i64
  using sint_ge [of x] sint_lt [of x] by (simp add: in_i64_def)

lemma sint_in_i64: "in_i64 (sint a + sint b) \<Longrightarrow> sint (a + b) = sint a + sint b"
  for a b :: i64
  by (simp add: in_i64_def sint_word_ariths signed_take_bit_int_eq_self)

lemma sint_sub_in_i64: "in_i64 (sint a - sint b) \<Longrightarrow> sint (a - b) = sint a - sint b"
  for a b :: i64
  by (simp add: in_i64_def sint_word_ariths signed_take_bit_int_eq_self)

text \<open>Undoing a checked difference with a checked sum, as the delta columns do.\<close>
lemma checked_add_sub_i64:
  "checked_sub_i64 a b = Some d \<Longrightarrow> checked_add_i64 b d = Some a"
  by (auto simp: checked_sub_i64_def checked_add_i64_def sint_sub_in_i64 split: if_splits)

lemma u32_try_from_Some_iff: "u32_try_from n = Some w \<longleftrightarrow> n < 2 ^ 32 \<and> w = of_nat n"
  by (auto simp: u32_try_from_def)

lemma u32_try_from_unat: "u32_try_from n = Some w \<Longrightarrow> unat w = n"
  by (auto simp: u32_try_from_def unat_of_nat_eq split: if_splits)

lemma u32_try_from_ucast [simp]: "u32_try_from (unat (ucast (w :: u32) :: u64)) = Some w"
proof -
  have "unat (ucast w :: u64) = unat w"
    by (simp add: unat_ucast_up_simp)
  then show ?thesis using unsigned_less [where ?'a = nat, of w] by (simp add: u32_try_from_def)
qed

section \<open>Lists\<close>

text \<open>\<open>buf[off..off+n]\<close> on a buffer known to be long enough.\<close>
definition slice :: "nat \<Rightarrow> nat \<Rightarrow> 'a list \<Rightarrow> 'a list" where
  "slice off n xs = take n (drop off xs)"

text \<open>\<open>buf[off..off+len].copy_from_slice(ys)\<close> inside the buffer.\<close>
definition patch :: "nat \<Rightarrow> 'a list \<Rightarrow> 'a list \<Rightarrow> 'a list" where
  "patch off ys xs = take off xs @ ys @ drop (off + length ys) xs"

lemma length_slice [simp]: "off + n \<le> length xs \<Longrightarrow> length (slice off n xs) = n"
  by (simp add: slice_def)

lemma slice_join: "slice off n xs @ slice (off + n) m xs = slice off (n + m) xs"
  by (simp add: slice_def take_add add.commute [of n off])

lemma length_patch [simp]: "off + length ys \<le> length xs \<Longrightarrow> length (patch off ys xs) = length xs"
  by (simp add: patch_def)

lemma slice_patch_same:
  "off + length ys \<le> length xs \<Longrightarrow> length ys = n \<Longrightarrow> slice off n (patch off ys xs) = ys"
  by (simp add: slice_def patch_def)

lemma slice_append1: "off + n \<le> length xs \<Longrightarrow> slice off n (xs @ ys) = slice off n xs"
  by (simp add: slice_def)

lemma slice_take: "off' + n \<le> off \<Longrightarrow> slice off' n (take off xs) = slice off' n xs"
  by (simp add: slice_def drop_take min_absorb1)

lemma slice_patch_before:
  "off' + n \<le> off \<Longrightarrow> off \<le> length xs \<Longrightarrow> slice off' n (patch off ys xs) = slice off' n xs"
  by (simp add: patch_def slice_append1 slice_take)

lemma slice_patch_after:
  assumes "off + length ys \<le> off'" and "off + length ys \<le> length xs"
  shows "slice off' n (patch off ys xs) = slice off' n xs"
proof -
  have "drop off' (patch off ys xs) = drop off' xs"
    using assms by (simp add: patch_def)
  then show ?thesis by (simp add: slice_def)
qed

text \<open>A buffer is the concatenation of its consecutive fields.\<close>
fun slices :: "nat \<Rightarrow> nat list \<Rightarrow> 'a list \<Rightarrow> 'a list list" where
  "slices off [] xs = []"
| "slices off (n # ns) xs = slice off n xs # slices (off + n) ns xs"

lemma concat_slices: "concat (slices off ns xs) = slice off (sum_list ns) xs"
  by (induction ns arbitrary: off) (auto simp: slice_def take_add add.commute)

lemma slices_eq:
  assumes "slices 0 ns xs = slices 0 ns ys" and "length xs = length ys" and "sum_list ns = length ys"
  shows "xs = ys"
proof -
  have "concat (slices 0 ns xs) = concat (slices 0 ns ys)" using assms(1) by simp
  then show ?thesis using assms(2,3) by (simp add: concat_slices slice_def)
qed

end
