(* ===== verification/Cursor.thy ===== *)
theory Cursor imports Prelude begin

text \<open>
  The byte cursor every segment codec of src/format declares privately
  (\<open>struct Cursor { bytes, pos }\<close> with \<open>read_array\<close>, \<open>read_u8\<close>, \<open>read_u16\<close>,
  \<open>read_u32\<close>, \<open>read_u64\<close>, \<open>read_i64\<close>, \<open>read_blob\<close>, \<open>is_empty\<close>), as a state-passing
  reader with errors, and the judgement \<open>parses p xs v\<close>: started in front of \<open>xs\<close>,
  whatever surrounds it, \<open>p\<close> consumes exactly \<open>xs\<close> and returns \<open>v\<close>. The interface
  \<open>wire_codec\<close> pairs an encoder with such a reader and derives the facts for arrays of
  encoded items and the unique decodability of the encoding.
\<close>

section \<open>The cursor\<close>

record cursor =
  cbytes :: bytes
  cpos :: nat

type_synonym 'a parser = "cursor \<Rightarrow> ('a \<times> cursor) result"

definition cursor_new :: "bytes \<Rightarrow> cursor" where
  "cursor_new bs = \<lparr>cbytes = bs, cpos = 0\<rparr>"

definition cursor_remaining :: "cursor \<Rightarrow> nat" where
  "cursor_remaining c = length (cbytes c) - cpos c"

definition cursor_is_empty :: "cursor \<Rightarrow> bool" where
  "cursor_is_empty c = (cpos c = length (cbytes c))"

text \<open>Sequencing with \<open>?\<close> on each step.\<close>
definition pbind :: "'a parser \<Rightarrow> ('a \<Rightarrow> 'b parser) \<Rightarrow> 'b parser" where
  "pbind p f = (\<lambda>c. case p c of Inl e \<Rightarrow> Inl e | Inr (v, c') \<Rightarrow> f v c')"

definition preturn :: "'a \<Rightarrow> 'a parser" where
  "preturn v = (\<lambda>c. Inr (v, c))"

definition perr :: "error \<Rightarrow> 'a parser" where
  "perr e = (\<lambda>c. Inl e)"

definition pensure :: "bool \<Rightarrow> error \<Rightarrow> unit parser" where
  "pensure b e = (if b then preturn () else perr e)"

text \<open>A pure \<open>Result\<close> in the middle of a reader.\<close>
definition plift :: "'a result \<Rightarrow> 'a parser" where
  "plift r = (case r of Inl e \<Rightarrow> perr e | Inr v \<Rightarrow> preturn v)"

text \<open>\<open>if !cur.is_empty() { return Err(trailing bytes) }\<close>.\<close>
definition peof :: "unit parser" where
  "peof = (\<lambda>c. if cursor_is_empty c then Inr ((), c) else Inl (Format ''trailing bytes''))"

definition run_parser :: "'a parser \<Rightarrow> bytes \<Rightarrow> 'a result" where
  "run_parser p bs = (case p (cursor_new bs) of Inl e \<Rightarrow> Inl e | Inr (v, c) \<Rightarrow> Inr v)"

definition read_array :: "nat \<Rightarrow> bytes parser" where
  "read_array n = (\<lambda>c.
     if length (cbytes c) < cpos c + n then Inl (Format ''truncated'')
     else Inr (slice (cpos c) n (cbytes c), c\<lparr>cpos := cpos c + n\<rparr>))"

definition read_u8 :: "u8 parser" where
  "read_u8 = pbind (read_array 1) (\<lambda>bs. preturn (hd bs))"

definition read_u16 :: "u16 parser" where
  "read_u16 = pbind (read_array 2) (\<lambda>bs. preturn (u16_of_le bs))"

definition read_u32 :: "u32 parser" where
  "read_u32 = pbind (read_array 4) (\<lambda>bs. preturn (u32_of_le bs))"

definition read_u64 :: "u64 parser" where
  "read_u64 = pbind (read_array 8) (\<lambda>bs. preturn (u64_of_le bs))"

definition read_i64 :: "i64 parser" where
  "read_i64 = read_u64"

definition read_blob :: "bytes parser" where
  "read_blob = pbind read_u32 (\<lambda>len c.
     if length (cbytes c) < cpos c + unat len then Inl (Format ''blob truncated'')
     else Inr (slice (cpos c) (unat len) (cbytes c), c\<lparr>cpos := cpos c + unat len\<rparr>))"

text \<open>\<open>for _ in 0..n { out.push(p(cur)?) }\<close>.\<close>
fun prepeat :: "nat \<Rightarrow> 'a parser \<Rightarrow> 'a list parser" where
  "prepeat 0 p = preturn []"
| "prepeat (Suc n) p = pbind p (\<lambda>x. pbind (prepeat n p) (\<lambda>xs. preturn (x # xs)))"

text \<open>\<open>write_blob\<close>: a \<open>u32\<close> length, then the bytes.\<close>
definition write_blob :: "bytes \<Rightarrow> bytes result" where
  "write_blob blob =
     rbind (ok_or (u32_try_from (length blob)) (Format ''blob too large''))
       (\<lambda>len. Inr (u32_le len @ blob))"

section \<open>What a reader consumes\<close>

definition parses :: "'a parser \<Rightarrow> bytes \<Rightarrow> 'a \<Rightarrow> bool" where
  "parses p xs v \<longleftrightarrow> (\<forall>pre rest.
     p \<lparr>cbytes = pre @ xs @ rest, cpos = length pre\<rparr> =
     Inr (v, \<lparr>cbytes = pre @ xs @ rest, cpos = length pre + length xs\<rparr>))"

text \<open>The same for a reader that looks at the end of the input.\<close>
definition parses_all :: "'a parser \<Rightarrow> bytes \<Rightarrow> 'a \<Rightarrow> bool" where
  "parses_all p xs v \<longleftrightarrow> (\<forall>pre. \<exists>c.
     p \<lparr>cbytes = pre @ xs, cpos = length pre\<rparr> = Inr (v, c))"

lemma parses_return [intro]: "parses (preturn v) [] v"
  by (simp add: parses_def preturn_def)

lemma parses_bind:
  assumes "parses p xs v" and "parses (f v) ys w"
  shows "parses (pbind p f) (xs @ ys) w"
proof -
  have "pbind p f \<lparr>cbytes = pre @ (xs @ ys) @ rest, cpos = length pre\<rparr> =
        f v \<lparr>cbytes = (pre @ xs) @ ys @ rest, cpos = length (pre @ xs)\<rparr>" for pre rest
    using assms(1)[unfolded parses_def, rule_format, of pre "ys @ rest"]
    by (simp add: pbind_def)
  then show ?thesis
    using assms(2)[unfolded parses_def, rule_format, of "pre @ xs" rest for pre rest]
    by (simp add: parses_def add.assoc)
qed

lemma parses_bind_end:
  assumes "parses p xs v" and "parses (f v) [] w"
  shows "parses (pbind p f) xs w"
  using parses_bind [where f = f, OF assms] by simp

lemma parses_bind_nil:
  assumes "parses p [] v" and "parses (f v) ys w"
  shows "parses (pbind p f) ys w"
  using parses_bind [where f = f, OF assms] by simp

lemma parses_ensure: "b \<Longrightarrow> parses (pensure b e) [] ()"
  by (simp add: pensure_def parses_return)

lemma parses_lift: "r = Inr v \<Longrightarrow> parses (plift r) [] v"
  by (simp add: plift_def parses_return)

lemma parses_bind_return: "parses p xs v \<Longrightarrow> w = g v \<Longrightarrow> parses (pbind p (\<lambda>v. preturn (g v))) xs w"
  by (rule parses_bind_end) (auto intro: parses_return)

lemma pbind_ensure_True [simp]: "pbind (pensure True e) f = f ()"
  by (simp add: pensure_def pbind_def preturn_def)

lemma pbind_return [simp]: "pbind (preturn v) f = f v"
  by (simp add: pbind_def preturn_def)

lemma pbind_lift_Inr [simp]: "pbind (plift (Inr v)) f = f v"
  by (simp add: plift_def)

lemma parses_all_bind:
  assumes "parses p xs v" and "parses_all (f v) ys w"
  shows "parses_all (pbind p f) (xs @ ys) w"
proof -
  have "pbind p f \<lparr>cbytes = pre @ xs @ ys, cpos = length pre\<rparr> =
        f v \<lparr>cbytes = (pre @ xs) @ ys, cpos = length (pre @ xs)\<rparr>" for pre
    using assms(1)[unfolded parses_def, rule_format, of pre ys] by (simp add: pbind_def)
  then show ?thesis using assms(2) unfolding parses_all_def by metis
qed

lemma parses_all_eof:
  assumes "parses_all (f ()) [] w"
  shows "parses_all (pbind peof f) [] w"
  using assms by (simp add: parses_all_def pbind_def peof_def cursor_is_empty_def)

lemma parses_all_return: "parses_all (preturn v) xs v"
  by (simp add: parses_all_def preturn_def)

lemma parses_imp_all: "parses p xs v \<Longrightarrow> parses_all p xs v"
proof -
  assume p: "parses p xs v"
  show ?thesis
    unfolding parses_all_def
  proof
    fix pre
    show "\<exists>c. p \<lparr>cbytes = pre @ xs, cpos = length pre\<rparr> = Inr (v, c)"
      using p [unfolded parses_def, rule_format, of pre "[]"] by auto
  qed
qed

lemma parses_all_end:
  assumes "parses p xs v" shows "parses_all (pbind p (\<lambda>v. pbind peof (\<lambda>_. preturn v))) xs v"
  using parses_all_bind [where ys = "[]" and w = v and f = "\<lambda>v. pbind peof (\<lambda>_. preturn v)", OF assms]
  by (simp add: parses_all_eof parses_all_return)

lemma run_parser_all: "parses_all p xs v \<Longrightarrow> run_parser p xs = Inr v"
  unfolding parses_all_def run_parser_def cursor_new_def
  by (drule spec [of _ "[]"]) auto

lemma run_parser_parses: "parses p xs v \<Longrightarrow> run_parser p (xs @ rest) = Inr v"
  unfolding parses_def run_parser_def cursor_new_def
  by (drule spec [of _ "[]"]) simp

text \<open>Inversion of a successful run.\<close>
lemma pbind_Inr:
  "pbind p f c = Inr (w, c'') \<longleftrightarrow> (\<exists>v c'. p c = Inr (v, c') \<and> f v c' = Inr (w, c''))"
  by (auto simp: pbind_def split: sum.splits)

lemma preturn_Inr [simp]: "preturn v c = Inr (w, c') \<longleftrightarrow> w = v \<and> c' = c"
  by (auto simp: preturn_def)

lemma perr_Inr [simp]: "perr e c \<noteq> Inr r"
  by (simp add: perr_def)

lemma pensure_Inr [simp]: "pensure b e c = Inr (u, c') \<longleftrightarrow> b \<and> c' = c"
  by (auto simp: pensure_def perr_def preturn_def)

lemma plift_Inr [simp]: "plift r c = Inr (w, c') \<longleftrightarrow> r = Inr w \<and> c' = c"
  by (cases r) (auto simp: plift_def perr_def)

lemma peof_Inr [simp]: "peof c = Inr (u, c') \<longleftrightarrow> cursor_is_empty c \<and> c' = c"
  by (auto simp: peof_def)

lemma run_parser_Inr: "run_parser p bs = Inr v \<longleftrightarrow> (\<exists>c. p (cursor_new bs) = Inr (v, c))"
  by (auto simp: run_parser_def split: sum.splits)

section \<open>The primitive reads\<close>

lemma parses_read_array: "length xs = n \<Longrightarrow> parses (read_array n) xs xs"
  by (simp add: parses_def read_array_def slice_def)

lemma parses_u8: "parses read_u8 [b] b"
  unfolding read_u8_def by (rule parses_bind_return [OF parses_read_array]) simp_all

lemma parses_u16: "parses read_u16 (u16_le w) w"
  unfolding read_u16_def by (rule parses_bind_return [OF parses_read_array]) simp_all

lemma parses_u32: "parses read_u32 (u32_le w) w"
  unfolding read_u32_def by (rule parses_bind_return [OF parses_read_array]) simp_all

lemma parses_u64: "parses read_u64 (u64_le w) w"
  unfolding read_u64_def by (rule parses_bind_return [OF parses_read_array]) simp_all

lemma parses_i64: "parses read_i64 (u64_le w) w"
  unfolding read_i64_def by (rule parses_u64)

lemma write_blob_Inr: "write_blob blob = Inr xs \<longleftrightarrow>
    length blob < 2 ^ 32 \<and> xs = u32_le (of_nat (length blob)) @ blob"
  by (auto simp: write_blob_def rbind_Inr_iff u32_try_from_Some_iff)

lemma parses_blob: "write_blob blob = Inr xs \<Longrightarrow> parses read_blob xs blob"
proof -
  assume "write_blob blob = Inr xs"
  then have len: "length blob < 2 ^ 32" and xs: "xs = u32_le (of_nat (length blob)) @ blob"
    by (auto simp: write_blob_Inr)
  have "unat (of_nat (length blob) :: u32) = length blob"
    using len by (simp add: unat_of_nat_eq)
  then show ?thesis
    unfolding read_blob_def xs
    by (intro parses_bind [OF parses_u32]) (simp add: parses_def slice_def)
qed

lemma parses_prepeat:
  "(\<And>x. x \<in> set xs \<Longrightarrow> parses p (enc x) x) \<Longrightarrow>
   parses (prepeat (length xs) p) (concat (map enc xs)) xs"
proof (induction xs)
  case Nil
  then show ?case by (simp add: parses_return)
next
  case (Cons x xs)
  have "parses (pbind (prepeat (length xs) p) (\<lambda>xs. preturn (x # xs))) (concat (map enc xs)) (x # xs)"
    by (rule parses_bind_return) (use Cons in auto)
  then show ?case
    using Cons.prems by (auto intro!: parses_bind)
qed

lemma prepeat_length: "prepeat n p c = Inr (xs, c') \<Longrightarrow> length xs = n"
  by (induction n arbitrary: c xs c') (auto simp: pbind_Inr)

section \<open>The codec interface\<close>

text \<open>
  An encoder with the reader that undoes it on well-formed values. Every item codec of
  the format is an instance; the lemmas are proved once, from the law.
\<close>

locale wire_codec =
  fixes enc :: "'a \<Rightarrow> bytes"
    and dec :: "'a parser"
    and wf :: "'a \<Rightarrow> bool"
  assumes dec_enc: "wf x \<Longrightarrow> parses dec (enc x) x"
begin

lemma dec_enc_list:
  "list_all wf xs \<Longrightarrow> parses (prepeat (length xs) dec) (concat (map enc xs)) xs"
  by (rule parses_prepeat) (auto simp: list_all_iff dec_enc)

lemma run_enc: "wf x \<Longrightarrow> run_parser dec (enc x @ rest) = Inr x"
  by (rule run_parser_parses) (rule dec_enc)

text \<open>No encoding is a proper prefix of another: concatenations decode uniquely.\<close>
lemma enc_prefix_free:
  assumes "wf x" and "wf y" and "enc x @ r = enc y @ s"
  shows "x = y \<and> r = s"
proof -
  have "run_parser dec (enc x @ r) = Inr x" by (rule run_enc) (rule assms)
  moreover have "run_parser dec (enc y @ s) = Inr y" by (rule run_enc) (rule assms)
  ultimately have "x = y" using assms(3) by simp
  with assms show ?thesis by simp
qed

end

interpretation u8_codec: wire_codec "\<lambda>b. [b]" read_u8 "\<lambda>_. True"
  by unfold_locales (rule parses_u8)

interpretation u16_codec: wire_codec u16_le read_u16 "\<lambda>_. True"
  by unfold_locales (rule parses_u16)

interpretation u32_codec: wire_codec u32_le read_u32 "\<lambda>_. True"
  by unfold_locales (rule parses_u32)

interpretation u64_codec: wire_codec u64_le read_u64 "\<lambda>_. True"
  by unfold_locales (rule parses_u64)

end
