(* ===== verification/Varint.thy ===== *)
theory Varint imports Cursor begin

text \<open>
  The variable-length integers of src/format: LEB128 for \<open>u64\<close>, written by
  \<open>write_varint_u64\<close> (postings, collection filters) and \<open>write_uvarint\<close> (doc stats,
  time index, frame catalog), read by \<open>read_varint_u64\<close> and by the cursors'
  \<open>read_uvarint\<close>; and the zigzag form \<open>write_ivarint\<close>/\<open>read_ivarint\<close> for \<open>i64\<close>.
  Both writers are proved equal, each reader undoes them on every 64-bit value, and a
  written varint is between 1 and 10 bytes long.
\<close>

section \<open>Unsigned LEB128\<close>

function write_varint_u64 :: "u64 \<Rightarrow> bytes" where
  "write_varint_u64 v =
     (if 0x80 \<le> v then (ucast v OR 0x80) # write_varint_u64 (drop_bit 7 v)
      else [ucast v])"
  by pat_completeness auto

lemma unat_drop_bit_7: "unat (drop_bit 7 v) = unat v div 128" for v :: u64
  by (simp add: unat_drop_bit_eq) (simp add: drop_bit_eq_div)

termination write_varint_u64
proof (relation "measure unat")
  fix v :: u64
  assume "0x80 \<le> v"
  then have "128 \<le> unat v" by (simp add: word_le_nat_alt)
  then show "(drop_bit 7 v, v) \<in> measure unat"
    by (simp add: unat_drop_bit_7)
qed simp

function write_uvarint :: "u64 \<Rightarrow> bytes" where
  "write_uvarint v =
     (if 0x80 \<le> v then ((ucast v AND 0x7F) OR 0x80) # write_uvarint (drop_bit 7 v)
      else [ucast v])"
  by pat_completeness auto
termination write_uvarint
proof (relation "measure unat")
  fix v :: u64
  assume "0x80 \<le> v"
  then have "128 \<le> unat v" by (simp add: word_le_nat_alt)
  then show "(drop_bit 7 v, v) \<in> measure unat"
    by (simp add: unat_drop_bit_7)
qed simp

declare write_varint_u64.simps [simp del] write_uvarint.simps [simp del]

function read_varint_loop :: "u64 \<Rightarrow> nat \<Rightarrow> u64 parser" where
  "read_varint_loop acc shift =
     (if 64 \<le> shift then perr (Format ''varint u64 exceeds 64 bits'')
      else pbind read_u8 (\<lambda>byte.
        let acc' = acc OR push_bit shift (ucast (byte AND 0x7F)) in
        if byte AND 0x80 = 0 then preturn acc'
        else read_varint_loop acc' (shift + 7)))"
  by pat_completeness auto
termination read_varint_loop
  by (relation "measure (\<lambda>(v, s). 64 - s)") auto

definition read_varint_u64 :: "u64 parser" where
  "read_varint_u64 = read_varint_loop 0 0"

text \<open>
  The cursors' own reader tests the shift after the byte; \<open>checked_shl\<close> fails only for
  shifts of 64 and more, so its error branch is the same test.
\<close>
function read_uvarint_loop :: "u64 \<Rightarrow> nat \<Rightarrow> u64 parser" where
  "read_uvarint_loop result shift =
     pbind read_u8 (\<lambda>b.
       if 64 \<le> shift then perr (Format ''varint overflow'')
       else
         let result' = result OR push_bit shift (ucast (b AND 0x7F)) in
         if b AND 0x80 = 0 then preturn result'
         else if 64 \<le> shift + 7 then perr (Format ''varint too long'')
         else read_uvarint_loop result' (shift + 7))"
  by pat_completeness auto
termination read_uvarint_loop
  by (relation "measure (\<lambda>(v, s). 64 - s)") auto

definition read_uvarint :: "u64 parser" where
  "read_uvarint = read_uvarint_loop 0 0"

declare read_varint_loop.simps [simp del] read_uvarint_loop.simps [simp del]

lemma write_uvarint_eq: "write_uvarint v = write_varint_u64 v"
proof (induction v rule: write_uvarint.induct)
  case (1 v)
  have "(ucast v AND 0x7F) OR 0x80 = (ucast v OR 0x80 :: u8)"
  proof (rule bit_eqI)
    fix n
    assume "possible_bit TYPE(u8) n"
    then have "n < 8" by simp
    then have "n \<in> {0, 1, 2, 3, 4, 5, 6, 7}" by auto
    then show "bit ((ucast v AND 0x7F) OR 0x80 :: u8) n = bit (ucast v OR 0x80 :: u8) n"
      by (auto simp: bit_simps bit_numeral_rec)
  qed
  with 1 show ?case
    by (simp add: write_uvarint.simps [of v] write_varint_u64.simps [of v])
qed

subsection \<open>One group of seven bits\<close>

lemma bit_0x80: "bit (0x80 :: u8) n \<longleftrightarrow> n = 7"
proof -
  have "(0x80 :: u8) = push_bit 7 1" by (simp add: push_bit_eq_mult)
  moreover have "bit (push_bit 7 1 :: u8) n \<longleftrightarrow> n = 7"
    by (simp only: bit_push_bit_iff bit_1_iff) auto
  ultimately show ?thesis by simp
qed

lemma mask7: "(0x7F :: u8) = mask 7"
  by (simp add: mask_eq_exp_minus_1)

lemma unat_take_bit7: "unat (take_bit 7 v) = unat v mod 128" for v :: u64
  by (simp add: unsigned_take_bit_eq) (simp add: take_bit_eq_mod)

lemma unat_take_bit7_self: "unat v < 128 \<Longrightarrow> take_bit 7 v = v" for v :: u64
  by (rule word_unat_eq_iff [THEN iffD2]) (simp only: unat_take_bit7 mod_less)

lemma low_seven_bits: "ucast ((ucast v :: u8) AND 0x7F) = take_bit 7 v" for v :: u64
  by (rule bit_eqI) (auto simp: bit_simps mask7)

lemma last_group:
  assumes "\<not> 0x80 \<le> (v :: u64)"
  shows "(ucast v :: u8) AND 0x80 = 0" and "ucast ((ucast v :: u8) AND 0x7F) = v"
proof -
  have v: "take_bit 7 v = v"
    using assms by (intro unat_take_bit7_self) (simp add: word_le_nat_alt)
  have 7: "\<not> bit v 7"
    by (subst v [symmetric]) (simp only: bit_take_bit_iff, simp)
  show "(ucast v :: u8) AND 0x80 = 0"
  proof (rule bit_eqI)
    fix n
    show "bit ((ucast v :: u8) AND 0x80) n = bit 0 n"
      using 7 by (auto simp: bit_and_iff bit_0x80 bit_unsigned_iff simp del: bit_numeral_word_iff)
  qed
  show "ucast ((ucast v :: u8) AND 0x7F) = v"
    by (simp only: low_seven_bits v)
qed

lemma more_group:
  "((ucast v :: u8) OR 0x80) AND 0x80 \<noteq> 0"
  "ucast (((ucast v :: u8) OR 0x80) AND 0x7F) = take_bit 7 (v :: u64)"
proof -
  have "bit (((ucast v :: u8) OR 0x80) AND 0x80) 7"
    by (simp add: bit_simps bit_0x80)
  then show "((ucast v :: u8) OR 0x80) AND 0x80 \<noteq> 0" by (metis bit_0_eq bot_apply bot_bool_def)
  show "ucast (((ucast v :: u8) OR 0x80) AND 0x7F) = take_bit 7 v"
  proof (rule bit_eqI)
    fix n
    show "bit (ucast (((ucast v :: u8) OR 0x80) AND 0x7F) :: u64) n = bit (take_bit 7 v) n"
      using bit_0x80 [of n] by (auto simp: bit_simps mask7)
  qed
qed

lemma group_recombine:
  "(acc OR push_bit s (take_bit 7 v)) OR push_bit (s + 7) (drop_bit 7 v) = acc OR push_bit s v"
  for v :: u64
proof (rule bit_eqI)
  fix n
  show "bit ((acc OR push_bit s (take_bit 7 v)) OR push_bit (s + 7) (drop_bit 7 v)) n =
      bit (acc OR push_bit s v) n"
  proof (cases "s + 7 \<le> n")
    case True
    then have "7 + (n - (s + 7)) = n - s" by simp
    with True show ?thesis by (auto simp: bit_simps)
  next
    case False
    then show ?thesis by (auto simp: bit_simps)
  qed
qed

subsection \<open>Readers undo writers\<close>

lemma varint_room:
  assumes "0x80 \<le> (v :: u64)" and "unat v < 2 ^ (64 - s)"
  shows "s + 7 < 64" and "unat (drop_bit 7 v) < 2 ^ (64 - (s + 7))"
proof -
  have ge: "2 ^ 7 \<le> unat v" using assms(1) by (simp add: word_le_nat_alt)
  with assms(2) have "(2::nat) ^ 7 < 2 ^ (64 - s)" by simp
  then have s7: "7 < 64 - s" by (rule power_less_imp_less_exp [rotated]) simp
  then show "s + 7 < 64" by simp
  from s7 have "64 - s = (64 - (s + 7)) + 7" by simp
  then have "(2::nat) ^ (64 - s) = 2 ^ (64 - (s + 7)) * 2 ^ 7"
    by (simp only: power_add [symmetric])
  with assms(2) show "unat (drop_bit 7 v) < 2 ^ (64 - (s + 7))"
    by (simp add: unat_drop_bit_7 less_mult_imp_div_less)
qed

lemma parses_varint_loop:
  "s < 64 \<Longrightarrow> unat v < 2 ^ (64 - s) \<Longrightarrow>
   parses (read_varint_loop acc s) (write_varint_u64 v) (acc OR push_bit s v)"
proof (induction v arbitrary: acc s rule: write_varint_u64.induct)
  case (1 v)
  show ?case
  proof (cases "0x80 \<le> v")
    case True
    have s64: "(64 \<le> s) = False" using "1.prems" by simp
    have s7: "s + 7 < 64" and "unat (drop_bit 7 v) < 2 ^ (64 - (s + 7))"
      using varint_room [OF True "1.prems"(2)] by auto
    then have IH: "parses (read_varint_loop (acc OR push_bit s (take_bit 7 v)) (s + 7))
        (write_varint_u64 (drop_bit 7 v)) (acc OR push_bit s v)"
      using "1.IH" [OF True, of "s + 7" "acc OR push_bit s (take_bit 7 v)"]
      by (simp add: group_recombine)
    have "parses (read_varint_loop acc s)
        ([ucast v OR 0x80] @ write_varint_u64 (drop_bit 7 v)) (acc OR push_bit s v)"
      unfolding read_varint_loop.simps [of acc s] s64
      by (simp only: if_False, intro parses_bind [OF parses_u8])
        (simp add: Let_def more_group IH)
    then show ?thesis using True by (simp add: write_varint_u64.simps [of v])
  next
    case False
    then show ?thesis
      unfolding read_varint_loop.simps [of acc s] write_varint_u64.simps [of v]
      using "1.prems"(1)
      by (auto intro!: parses_bind_end [OF parses_u8] parses_return simp: Let_def last_group)
  qed
qed

lemma parses_varint: "parses read_varint_u64 (write_varint_u64 v) v"
proof -
  have "unat v < 2 ^ (64 - 0)" using unsigned_less [where ?'a = nat, of v] by simp
  then show ?thesis
    using parses_varint_loop [of 0 v 0] by (simp add: read_varint_u64_def)
qed

text \<open>
  On what the writer produces, the cursors' reader takes the same steps, so its proof is
  the same induction; here it is reduced to the first reader's byte groups.
\<close>

lemma parses_uvarint_loop:
  "s < 64 \<Longrightarrow> unat v < 2 ^ (64 - s) \<Longrightarrow>
   parses (read_uvarint_loop acc s) (write_varint_u64 v) (acc OR push_bit s v)"
proof (induction v arbitrary: acc s rule: write_varint_u64.induct)
  case (1 v)
  have s64: "(64 \<le> s) = False" using "1.prems" by simp
  show ?case
  proof (cases "0x80 \<le> v")
    case True
    have s7: "s + 7 < 64" and small: "unat (drop_bit 7 v) < 2 ^ (64 - (s + 7))"
      using varint_room [OF True "1.prems"(2)] by auto
    then have IH: "parses (read_uvarint_loop (acc OR push_bit s (take_bit 7 v)) (s + 7))
        (write_varint_u64 (drop_bit 7 v)) (acc OR push_bit s v)"
      using "1.IH" [OF True, of "s + 7" "acc OR push_bit s (take_bit 7 v)"]
      by (simp add: group_recombine)
    have "parses (read_uvarint_loop acc s)
        ([ucast v OR 0x80] @ write_varint_u64 (drop_bit 7 v)) (acc OR push_bit s v)"
      unfolding read_uvarint_loop.simps [of acc s] s64
      by (simp only: if_False, intro parses_bind [OF parses_u8])
        (use s7 in \<open>simp add: Let_def more_group IH\<close>)
    then show ?thesis using True by (simp add: write_varint_u64.simps [of v])
  next
    case False
    then show ?thesis
      unfolding read_uvarint_loop.simps [of acc s] write_varint_u64.simps [of v]
      using "1.prems"(1)
      by (auto intro!: parses_bind_end [OF parses_u8] parses_return simp: Let_def last_group)
  qed
qed

lemma parses_uvarint: "parses read_uvarint (write_uvarint v) v"
proof -
  have "unat v < 2 ^ (64 - 0)" using unsigned_less [where ?'a = nat, of v] by simp
  then show ?thesis
    using parses_uvarint_loop [of 0 v 0] by (simp add: read_uvarint_def write_uvarint_eq)
qed

subsection \<open>Length\<close>

lemma varint_nonempty: "write_varint_u64 v \<noteq> []"
  by (subst write_varint_u64.simps) simp

lemma varint_length_le: "unat v < 2 ^ (7 * k) \<Longrightarrow> 0 < k \<Longrightarrow> length (write_varint_u64 v) \<le> k"
proof (induction v arbitrary: k rule: write_varint_u64.induct)
  case (1 v)
  show ?case
  proof (cases "0x80 \<le> v")
    case True
    obtain m where k: "k = Suc m" using "1.prems"(2) by (cases k) auto
    have ge: "2 ^ 7 \<le> unat v" using True by (simp add: word_le_nat_alt)
    then have "(2::nat) ^ 7 < 2 ^ (7 * k)" using "1.prems"(1) by simp
    then have "7 < 7 * k" by (rule power_less_imp_less_exp [rotated]) simp
    then have m: "0 < m" using k by simp
    have "unat (drop_bit 7 v) < 2 ^ (7 * m)"
      using "1.prems"(1) by (simp add: k unat_drop_bit_7 less_mult_imp_div_less power_add)
    then have "length (write_varint_u64 (drop_bit 7 v)) \<le> m" by (rule "1.IH" [OF True _ m])
    then show ?thesis using True k by (simp add: write_varint_u64.simps [of v])
  next
    case False
    then show ?thesis using "1.prems"(2) by (simp add: write_varint_u64.simps [of v])
  qed
qed

lemma varint_length: "1 \<le> length (write_varint_u64 v) \<and> length (write_varint_u64 v) \<le> 10"
proof -
  have "unat v < 2 ^ (7 * 10)"
    by (rule less_le_trans [OF unsigned_less]) simp
  then show ?thesis
    using varint_length_le [of v 10] varint_nonempty [of v] by (cases "write_varint_u64 v") auto
qed

section \<open>Zigzag\<close>

text \<open>\<open>((value << 1) ^ (value >> 63)) as u64\<close>; the right shift of an \<open>i64\<close> is arithmetic.\<close>
definition zigzag :: "i64 \<Rightarrow> u64" where
  "zigzag v = push_bit 1 v XOR signed_drop_bit 63 v"

text \<open>\<open>((zz >> 1) as i64) ^ -((zz & 1) as i64)\<close>.\<close>
definition unzigzag :: "u64 \<Rightarrow> i64" where
  "unzigzag zz = drop_bit 1 zz XOR - (zz AND 1)"

definition write_ivarint :: "i64 \<Rightarrow> bytes" where
  "write_ivarint v = write_uvarint (zigzag v)"

definition read_ivarint :: "i64 parser" where
  "read_ivarint = pbind read_uvarint (\<lambda>zz. preturn (unzigzag zz))"

lemma bit_zigzag: "bit (zigzag v) n \<longleftrightarrow> n < 64 \<and> ((0 < n \<and> bit v (n - 1)) \<noteq> bit v 63)"
proof (cases "n < 64")
  case True
  then have "bit (signed_drop_bit 63 v) n \<longleftrightarrow> bit v 63"
    by (cases "n = 0") (simp_all add: bit_signed_drop_bit_iff)
  moreover have "bit (push_bit 1 v) n \<longleftrightarrow> 0 < n \<and> bit v (n - 1)"
    using True by (simp only: bit_push_bit_iff) auto
  ultimately show ?thesis using True by (simp only: zigzag_def bit_xor_iff simp_thms)
next
  case False
  then show ?thesis using bit_imp_le_length [of "zigzag v" n] by auto
qed

lemma unzigzag_zigzag [simp]: "unzigzag (zigzag v) = v"
proof (rule bit_eqI)
  fix n
  assume "possible_bit TYPE(64 word) n"
  then have n: "n < 64" by simp
  have odd: "zigzag v AND 1 = (if bit v 63 then 1 else 0)"
  proof (rule bit_eqI)
    fix m
    show "bit (zigzag v AND 1) m = bit (if bit v 63 then 1 else 0 :: u64) m"
      by (auto simp: bit_and_iff bit_zigzag bit_1_iff)
  qed
  show "bit (unzigzag (zigzag v)) n = bit v n"
  proof (cases "bit v 63")
    case True
    then have "unzigzag (zigzag v) = drop_bit 1 (zigzag v) XOR - 1" by (simp add: unzigzag_def odd)
    with True n show ?thesis
      by (cases "n = 63") (auto simp: bit_not_iff bit_drop_bit_eq bit_zigzag)
  next
    case False
    then have "unzigzag (zigzag v) = drop_bit 1 (zigzag v)" by (simp add: unzigzag_def odd)
    with False n show ?thesis
      by (cases "n = 63") (auto simp: bit_drop_bit_eq bit_zigzag)
  qed
qed

lemma parses_ivarint: "parses read_ivarint (write_ivarint v) v"
  unfolding read_ivarint_def write_ivarint_def
  by (rule parses_bind_return [OF parses_uvarint]) simp

section \<open>Instances of the codec interface\<close>

interpretation varint_codec: wire_codec write_varint_u64 read_varint_u64 "\<lambda>_. True"
  by unfold_locales (rule parses_varint)

interpretation uvarint_codec: wire_codec write_uvarint read_uvarint "\<lambda>_. True"
  by unfold_locales (rule parses_uvarint)

interpretation ivarint_codec: wire_codec write_ivarint read_ivarint "\<lambda>_. True"
  by unfold_locales (rule parses_ivarint)

end
