(* ===== verification/Storage.thy ===== *)
theory Storage imports Prelude begin

text \<open>
  The database file as the code sees it through \<open>std::fs::File\<close>: a byte string that is
  read with \<open>seek\<close> + \<open>read_exact\<close>, written with \<open>seek\<close> + \<open>write_all\<close> and resized
  with \<open>set_len\<close>. A write past the end leaves a hole of zeros, as POSIX does. Device
  errors are not in these functions; the components that react to them carry an explicit
  outcome for each operation.
\<close>

type_synonym storage = bytes

definition read_exact_at :: "nat \<Rightarrow> nat \<Rightarrow> storage \<Rightarrow> bytes result" where
  "read_exact_at off n f =
     (if off + n \<le> length f then Inr (slice off n f)
      else Inl (Io ''failed to fill whole buffer''))"

definition write_all_at :: "nat \<Rightarrow> bytes \<Rightarrow> storage \<Rightarrow> storage" where
  "write_all_at off bs f =
     (if length f \<le> off then f @ replicate (off - length f) 0 @ bs
      else take off f @ bs @ drop (off + length bs) f)"

definition set_len :: "nat \<Rightarrow> storage \<Rightarrow> storage" where
  "set_len n f = take n f @ replicate (n - length f) 0"

lemma read_exact_at_Inr:
  "read_exact_at off n f = Inr bs \<longleftrightarrow> off + n \<le> length f \<and> bs = slice off n f"
  by (auto simp: read_exact_at_def)

lemma write_all_at_end [simp]: "write_all_at (length f) bs f = f @ bs"
  by (simp add: write_all_at_def)

lemma write_all_at_inside:
  "off + length bs \<le> length f \<Longrightarrow> write_all_at off bs f = patch off bs f"
  by (auto simp: write_all_at_def patch_def)

lemma length_write_all_at:
  "length (write_all_at off bs f) = (if bs = [] then max off (length f) else max (length f) (off + length bs))"
  by (auto simp: write_all_at_def max_def)

lemma length_set_len [simp]: "length (set_len n f) = n"
  by (simp add: set_len_def)

lemma set_len_shrink: "n \<le> length f \<Longrightarrow> set_len n f = take n f"
  by (simp add: set_len_def)

text \<open>What was just written is read back.\<close>
lemma read_write_same: "read_exact_at off (length bs) (write_all_at off bs f) = Inr bs"
  by (auto simp: read_exact_at_def write_all_at_def slice_def min_def)

text \<open>Reads in front of a write, and reads of the old bytes behind it, are unaffected.\<close>
lemma read_write_before:
  "off' + n \<le> off \<Longrightarrow> off' + n \<le> length f \<Longrightarrow>
   read_exact_at off' n (write_all_at off bs f) = read_exact_at off' n f"
  by (auto simp: read_exact_at_def write_all_at_def slice_append1 slice_take)

lemma read_write_after:
  assumes "off + length bs \<le> off'" and "off' + n \<le> length f"
  shows "read_exact_at off' n (write_all_at off bs f) = read_exact_at off' n f"
proof (cases "length f \<le> off")
  case True
  then have "n = 0" and "off' = off" and "length bs = 0" and "length f = off"
    using assms by linarith+
  then show ?thesis by (simp add: read_exact_at_def slice_def write_all_at_def)
next
  case False
  then have *: "write_all_at off bs f = patch off bs f"
    by (auto simp: write_all_at_def patch_def)
  then show ?thesis
    using assms by (simp add: read_exact_at_def slice_patch_after)
qed

lemma read_append [simp]:
  "off + n \<le> length f \<Longrightarrow> read_exact_at off n (f @ g) = read_exact_at off n f"
  by (simp add: read_exact_at_def slice_append1)

lemma read_exact_at_append: "read_exact_at off n f = Inr b \<Longrightarrow> read_exact_at off n (f @ g) = Inr b"
  by (simp add: read_exact_at_Inr slice_append1)

lemma read_at_end: "n = length g \<Longrightarrow> read_exact_at (length f) n (f @ g @ h) = Inr g"
  by (simp add: read_exact_at_def slice_def)

end
