(* ===== verification/Header.thy ===== *)
theory Header imports Storage begin

text \<open>
  The 4 KB file header (src/format/header.rs, constants of src/format.rs) and the
  coordination region embedded in it (src/concurrency/coordination.rs). The lemmas show
  that an encoded header decodes to itself, that decoding accepts only headers of this
  format version, and that the commit-time rewrite of the logical prefix changes the
  logical fields and nothing of the coordination region or of the create-contract digest.
\<close>

section \<open>Constants\<close>

definition FORMAT_MAJOR :: u16 where "FORMAT_MAJOR = 2"
definition FORMAT_MINOR :: u16 where "FORMAT_MINOR = 3"
definition HEADER_SIZE :: nat where "HEADER_SIZE = 4096"
definition COORD_REGION_OFFSET :: nat where "COORD_REGION_OFFSET = 128"
definition COORD_REGION_SIZE :: nat where "COORD_REGION_SIZE = 704"
definition COORD_WRITER_SLOT_OFFSET :: nat where "COORD_WRITER_SLOT_OFFSET = 64"
definition COORD_CHECKPOINTER_SLOT_OFFSET :: nat where "COORD_CHECKPOINTER_SLOT_OFFSET = 128"
definition COORD_READER_SLOTS_OFFSET :: nat where "COORD_READER_SLOTS_OFFSET = 192"
definition COORD_HEADER_SIZE :: nat where "COORD_HEADER_SIZE = 64"
definition COORD_READER_SLOT_SIZE :: nat where "COORD_READER_SLOT_SIZE = 64"
definition COORD_READER_SLOT_COUNT :: u32 where "COORD_READER_SLOT_COUNT = 8"

text \<open>\<open>*b"VLSCOORD"\<close> and \<open>*b"VLS\0"\<close>.\<close>
definition COORD_MAGIC :: bytes where
  "COORD_MAGIC = [0x56, 0x4C, 0x53, 0x43, 0x4F, 0x4F, 0x52, 0x44]"
definition COORD_VERSION :: u32 where "COORD_VERSION = 1"
definition MAGIC :: bytes where "MAGIC = [0x56, 0x4C, 0x53, 0x00]"

definition FEATURE_COORDINATION_REGION :: u64 where "FEATURE_COORDINATION_REGION = 0x40"
definition FEATURE_CREATE_CONTRACT :: u64 where "FEATURE_CREATE_CONTRACT = 0x80"
definition CREATE_CONTRACT_DIGEST_OFFSET :: nat where "CREATE_CONTRACT_DIGEST_OFFSET = 832"

lemmas header_constants =
  FORMAT_MAJOR_def FORMAT_MINOR_def HEADER_SIZE_def COORD_REGION_OFFSET_def
  COORD_REGION_SIZE_def COORD_WRITER_SLOT_OFFSET_def COORD_CHECKPOINTER_SLOT_OFFSET_def
  COORD_READER_SLOTS_OFFSET_def COORD_HEADER_SIZE_def COORD_READER_SLOT_SIZE_def
  COORD_READER_SLOT_COUNT_def COORD_VERSION_def FEATURE_COORDINATION_REGION_def
  FEATURE_CREATE_CONTRACT_def CREATE_CONTRACT_DIGEST_OFFSET_def

lemma length_magics [simp]: "length COORD_MAGIC = 8" "length MAGIC = 4"
  by (simp_all add: COORD_MAGIC_def MAGIC_def)

section \<open>The coordination region\<close>

text \<open>
  \<open>stamp_reader_slots\<close> is the loop over the reader slots: each gets the free sentinel
  \<open>u64::MAX\<close> as its pinned TOC offset.
\<close>
fun stamp_reader_slots :: "nat \<Rightarrow> bytes \<Rightarrow> bytes" where
  "stamp_reader_slots 0 region = region"
| "stamp_reader_slots (Suc n) region =
     patch (COORD_READER_SLOTS_OFFSET + n * COORD_READER_SLOT_SIZE) (u64_le (- 1))
       (stamp_reader_slots n region)"

definition initial_region :: bytes where
  "initial_region =
     stamp_reader_slots (unat COORD_READER_SLOT_COUNT)
       (patch 12 (u32_le COORD_READER_SLOT_COUNT)
         (patch 8 (u32_le COORD_VERSION)
           (patch 0 COORD_MAGIC (replicate COORD_REGION_SIZE 0))))"

definition stamp_initial :: "bytes \<Rightarrow> bytes" where
  "stamp_initial header_buf = patch COORD_REGION_OFFSET initial_region header_buf"

record coordination_header_view =
  cv_magic :: bytes
  cv_version :: u32
  cv_reader_slot_count :: u32
  cv_published_toc_offset :: u64
  cv_published_snapshot_generation :: u64

definition view_is_valid :: "coordination_header_view \<Rightarrow> bool" where
  "view_is_valid v = (cv_magic v = COORD_MAGIC \<and> cv_version v = COORD_VERSION)"

definition read_header_view :: "bytes \<Rightarrow> coordination_header_view option" where
  "read_header_view header_buf =
     (if length header_buf < COORD_REGION_OFFSET + COORD_HEADER_SIZE then None
      else let region = slice COORD_REGION_OFFSET COORD_HEADER_SIZE header_buf in
        Some \<lparr>cv_magic = slice 0 8 region,
              cv_version = u32_of_le (slice 8 4 region),
              cv_reader_slot_count = u32_of_le (slice 12 4 region),
              cv_published_toc_offset = u64_of_le (slice 16 8 region),
              cv_published_snapshot_generation = u64_of_le (slice 24 8 region)\<rparr>)"

definition region_slice :: "bytes \<Rightarrow> bytes option" where
  "region_slice mmap =
     (if length mmap < COORD_REGION_OFFSET + COORD_REGION_SIZE then None
      else Some (slice COORD_REGION_OFFSET COORD_REGION_SIZE mmap))"

definition is_active :: "bytes \<Rightarrow> bool" where
  "is_active region =
     (if length region < COORD_HEADER_SIZE then False
      else if slice 0 8 region \<noteq> COORD_MAGIC then False
      else u32_of_le (slice 8 4 region) = COORD_VERSION)"

text \<open>\<open>ReaderSlot::nth\<close>: the region-relative base of slot \<open>n\<close>.\<close>
definition reader_slot_nth :: "bytes \<Rightarrow> nat \<Rightarrow> nat option" where
  "reader_slot_nth region n =
     (let base = COORD_READER_SLOTS_OFFSET + n * COORD_READER_SLOT_SIZE in
      if length region < base + COORD_READER_SLOT_SIZE then None else Some base)"

definition pinned_toc_offset :: "bytes \<Rightarrow> nat \<Rightarrow> u64" where
  "pinned_toc_offset region base = u64_of_le (slice base 8 region)"

definition lock_byte_in_file :: "nat \<Rightarrow> nat" where
  "lock_byte_in_file slot_index =
     COORD_REGION_OFFSET + COORD_READER_SLOTS_OFFSET + slot_index * COORD_READER_SLOT_SIZE"

definition WRITER_LOCK_BYTE :: nat where
  "WRITER_LOCK_BYTE = COORD_REGION_OFFSET + COORD_WRITER_SLOT_OFFSET"

subsection \<open>Facts\<close>

lemma length_stamp_reader_slots:
  "COORD_READER_SLOTS_OFFSET + n * COORD_READER_SLOT_SIZE \<le> length region \<Longrightarrow>
   length (stamp_reader_slots n region) = length region"
  by (induction n) (simp_all add: COORD_READER_SLOT_SIZE_def)

lemma slice_stamp_reader_slots_header:
  "off + k \<le> COORD_READER_SLOTS_OFFSET \<Longrightarrow>
   COORD_READER_SLOTS_OFFSET + n * COORD_READER_SLOT_SIZE \<le> length region \<Longrightarrow>
   slice off k (stamp_reader_slots n region) = slice off k region"
  by (induction n) (simp_all add: slice_patch_before length_stamp_reader_slots COORD_READER_SLOT_SIZE_def)

lemma slice_stamp_reader_slot:
  assumes "i < n" and "COORD_READER_SLOTS_OFFSET + n * COORD_READER_SLOT_SIZE \<le> length region"
  shows "slice (COORD_READER_SLOTS_OFFSET + i * COORD_READER_SLOT_SIZE) 8
           (stamp_reader_slots n region) = u64_le (- 1)"
  using assms
proof (induction n)
  case 0
  then show ?case by simp
next
  case (Suc n)
  have len: "length (stamp_reader_slots n region) = length region"
    using Suc.prems by (intro length_stamp_reader_slots) simp
  show ?case
  proof (cases "i = n")
    case True
    then show ?thesis
      using Suc.prems len by (simp add: slice_patch_same COORD_READER_SLOT_SIZE_def)
  next
    case False
    with Suc.prems have i: "i < n" by simp
    then have "i * 64 + 8 \<le> n * 64" by simp
    then show ?thesis
      using Suc.IH [OF i] Suc.prems len
      by (simp add: slice_patch_before COORD_READER_SLOT_SIZE_def)
  qed
qed

lemma length_initial_region [simp]: "length initial_region = 704"
  by (simp add: initial_region_def length_stamp_reader_slots header_constants)

lemma length_stamp_initial [simp]: "832 \<le> length buf \<Longrightarrow> length (stamp_initial buf) = length buf"
  by (simp add: stamp_initial_def header_constants)

lemma slice_initial_region [simp]:
  "slice 0 8 initial_region = COORD_MAGIC"
  "slice 8 4 initial_region = u32_le COORD_VERSION"
  "slice 12 4 initial_region = u32_le COORD_READER_SLOT_COUNT"
  "slice 16 16 initial_region = replicate 16 0"
  by (simp_all add: initial_region_def slice_stamp_reader_slots_header header_constants
      slice_patch_before slice_patch_same slice_patch_after)
     (simp add: slice_def patch_def)

text \<open>A freshly stamped buffer is recognised, and its reader slots are all free.\<close>
lemma stamp_initial_view:
  assumes "832 \<le> length buf"
  shows "\<exists>v. read_header_view (stamp_initial buf) = Some v \<and> view_is_valid v \<and>
           cv_reader_slot_count v = COORD_READER_SLOT_COUNT"
proof -
  have r: "slice off k (slice 128 64 (stamp_initial buf)) = slice off k initial_region"
    if "off + k \<le> 64" for off k
    using assms that
    by (simp add: stamp_initial_def header_constants slice_def patch_def drop_take min_def)
  show ?thesis
    using assms by (simp add: read_header_view_def view_is_valid_def r header_constants)
qed

lemma region_slice_stamp_initial:
  "832 \<le> length buf \<Longrightarrow> region_slice (stamp_initial buf) = Some initial_region"
  by (simp add: region_slice_def stamp_initial_def header_constants slice_patch_same)

lemma initial_region_active: "is_active initial_region"
  by (simp add: is_active_def header_constants)

lemma initial_region_slots_free:
  assumes "n < 8"
  shows "\<exists>base. reader_slot_nth initial_region n = Some base \<and>
           pinned_toc_offset initial_region base = - 1"
proof -
  have "slice (COORD_READER_SLOTS_OFFSET + n * COORD_READER_SLOT_SIZE) 8 initial_region = u64_le (- 1)"
    unfolding initial_region_def
    by (rule slice_stamp_reader_slot) (simp_all add: assms header_constants)
  with assms show ?thesis
    by (simp add: reader_slot_nth_def pinned_toc_offset_def COORD_READER_SLOTS_OFFSET_def
        COORD_READER_SLOT_SIZE_def)
qed

text \<open>The lock bytes of the writer and of the reader slots are pairwise distinct header bytes.\<close>
lemma lock_bytes_distinct:
  "distinct (WRITER_LOCK_BYTE # map lock_byte_in_file [0..<8])"
  "set (WRITER_LOCK_BYTE # map lock_byte_in_file [0..<8]) \<subseteq>
     {COORD_REGION_OFFSET..<COORD_REGION_OFFSET + COORD_REGION_SIZE}"
  by (auto simp: WRITER_LOCK_BYTE_def lock_byte_in_file_def header_constants distinct_map inj_on_def)

section \<open>The logical header\<close>

record header =
  hd_format_major :: u16
  hd_format_minor :: u16
  hd_file_uuid :: bytes
  hd_flags :: u32
  hd_footer_offset :: u64
  hd_snapshot_generation :: u64
  hd_feature_bitmap :: u64
  hd_create_contract_digest :: bytes

definition header_new :: "bytes \<Rightarrow> header" where
  "header_new file_uuid =
     \<lparr>hd_format_major = FORMAT_MAJOR, hd_format_minor = FORMAT_MINOR, hd_file_uuid = file_uuid,
      hd_flags = 0, hd_footer_offset = 0, hd_snapshot_generation = 0,
      hd_feature_bitmap = FEATURE_COORDINATION_REGION OR FEATURE_CREATE_CONTRACT,
      hd_create_contract_digest = replicate 32 0\<rparr>"

definition header_validate :: "header \<Rightarrow> unit result" where
  "header_validate h =
     (if hd_format_major h \<noteq> FORMAT_MAJOR then Inl (Format ''unsupported format major version'')
      else if hd_format_minor h \<noteq> FORMAT_MINOR then Inl (Format ''unsupported format minor version'')
      else if hd_footer_offset h \<noteq> 0 \<and> unat (hd_footer_offset h) < HEADER_SIZE
        then Inl (Format ''footer offset points inside header region'')
      else Inr ())"

text \<open>\<open>put_u16\<close>/\<open>put_u32\<close>/\<open>put_u64\<close> and their readers.\<close>
definition put_u16 :: "nat \<Rightarrow> u16 \<Rightarrow> bytes \<Rightarrow> bytes" where
  "put_u16 off v buf = patch off (u16_le v) buf"
definition put_u32 :: "nat \<Rightarrow> u32 \<Rightarrow> bytes \<Rightarrow> bytes" where
  "put_u32 off v buf = patch off (u32_le v) buf"
definition put_u64 :: "nat \<Rightarrow> u64 \<Rightarrow> bytes \<Rightarrow> bytes" where
  "put_u64 off v buf = patch off (u64_le v) buf"

definition get_u16 :: "bytes \<Rightarrow> nat \<Rightarrow> u16 result" where
  "get_u16 bs off =
     (if off + 2 \<le> length bs then Inr (u16_of_le (slice off 2 bs))
      else Inl (Format ''header u16 field truncated''))"
definition get_u32 :: "bytes \<Rightarrow> nat \<Rightarrow> u32 result" where
  "get_u32 bs off =
     (if off + 4 \<le> length bs then Inr (u32_of_le (slice off 4 bs))
      else Inl (Format ''header u32 field truncated''))"
definition get_u64 :: "bytes \<Rightarrow> nat \<Rightarrow> u64 result" where
  "get_u64 bs off =
     (if off + 8 \<le> length bs then Inr (u64_of_le (slice off 8 bs))
      else Inl (Format ''header u64 field truncated''))"

text \<open>The buffer of \<open>HeaderCodec::encode\<close> before the two feature-gated regions.\<close>
definition header_logical :: "header \<Rightarrow> bytes" where
  "header_logical h =
     put_u64 112 (hd_feature_bitmap h)
       (put_u64 72 (hd_snapshot_generation h)
         (put_u64 32 (hd_footer_offset h)
           (put_u32 28 (hd_flags h)
             (patch 12 (hd_file_uuid h)
               (put_u32 8 (of_nat HEADER_SIZE)
                 (put_u16 6 (hd_format_minor h)
                   (put_u16 4 (hd_format_major h)
                     (patch 0 MAGIC (replicate HEADER_SIZE 0)))))))))"

definition header_encode :: "header \<Rightarrow> bytes result" where
  "header_encode h =
     rbind (header_validate h) (\<lambda>_.
       let buf = header_logical h;
           buf = (if hd_feature_bitmap h AND FEATURE_COORDINATION_REGION \<noteq> 0
                  then stamp_initial buf else buf);
           buf = (if hd_feature_bitmap h AND FEATURE_CREATE_CONTRACT \<noteq> 0
                  then patch CREATE_CONTRACT_DIGEST_OFFSET (hd_create_contract_digest h) buf
                  else buf)
       in Inr buf)"

definition header_decode :: "bytes \<Rightarrow> header result" where
  "header_decode bs =
     (if slice 0 4 bs \<noteq> MAGIC then Inl (Format ''header magic mismatch'')
      else rbind (get_u32 bs 8) (\<lambda>header_size.
        if header_size \<noteq> of_nat HEADER_SIZE then Inl (Format ''invalid header size'')
        else rbind (get_u64 bs 112) (\<lambda>feature_bitmap.
          rbind (get_u16 bs 4) (\<lambda>major.
          rbind (get_u16 bs 6) (\<lambda>minor.
          rbind (get_u32 bs 28) (\<lambda>flags.
          rbind (get_u64 bs 32) (\<lambda>footer_offset.
          rbind (get_u64 bs 72) (\<lambda>generation.
            let h = \<lparr>hd_format_major = major, hd_format_minor = minor,
                      hd_file_uuid = slice 12 16 bs, hd_flags = flags,
                      hd_footer_offset = footer_offset, hd_snapshot_generation = generation,
                      hd_feature_bitmap = feature_bitmap,
                      hd_create_contract_digest =
                        (if feature_bitmap AND FEATURE_CREATE_CONTRACT \<noteq> 0
                         then slice CREATE_CONTRACT_DIGEST_OFFSET 32 bs
                         else replicate 32 0)\<rparr>
            in rbind (header_validate h) (\<lambda>_. Inr h)))))))))"

text \<open>\<open>read\<close>, \<open>write_initial\<close> and \<open>write_logical_prefix\<close> on the file.\<close>
definition header_read :: "storage \<Rightarrow> header result" where
  "header_read f = rbind (read_exact_at 0 HEADER_SIZE f) header_decode"

definition write_initial :: "storage \<Rightarrow> header \<Rightarrow> storage result" where
  "write_initial f h = rbind (header_encode h) (\<lambda>buf. Inr (write_all_at 0 buf f))"

definition write_logical_prefix :: "storage \<Rightarrow> header \<Rightarrow> storage result" where
  "write_logical_prefix f h =
     rbind (header_encode h) (\<lambda>buf. Inr (write_all_at 0 (take 120 buf) f))"

subsection \<open>Facts\<close>

definition header_wf :: "header \<Rightarrow> bool" where
  "header_wf h = (length (hd_file_uuid h) = 16 \<and> length (hd_create_contract_digest h) = 32)"

lemmas put_defs = put_u16_def put_u32_def put_u64_def
lemmas get_defs = get_u16_def get_u32_def get_u64_def
lemmas slice_patch = slice_patch_before slice_patch_same slice_patch_after

lemma length_header_logical [simp]: "header_wf h \<Longrightarrow> length (header_logical h) = 4096"
  by (simp add: header_logical_def put_defs header_wf_def HEADER_SIZE_def)

lemma slice_header_logical:
  assumes "header_wf h"
  shows "slice 0 4 (header_logical h) = MAGIC"
    and "slice 4 2 (header_logical h) = u16_le (hd_format_major h)"
    and "slice 6 2 (header_logical h) = u16_le (hd_format_minor h)"
    and "slice 8 4 (header_logical h) = u32_le (of_nat HEADER_SIZE)"
    and "slice 12 16 (header_logical h) = hd_file_uuid h"
    and "slice 28 4 (header_logical h) = u32_le (hd_flags h)"
    and "slice 32 8 (header_logical h) = u64_le (hd_footer_offset h)"
    and "slice 72 8 (header_logical h) = u64_le (hd_snapshot_generation h)"
    and "slice 112 8 (header_logical h) = u64_le (hd_feature_bitmap h)"
  using assms
  by (simp_all add: header_logical_def put_defs header_wf_def HEADER_SIZE_def slice_patch)

lemma slice_by_prefix:
  "take m bs = take m cs \<Longrightarrow> off + n \<le> m \<Longrightarrow> slice off n bs = slice off n cs"
  by (metis slice_take)

text \<open>Decoding depends on the logical prefix and, through the feature bit, on the digest.\<close>
lemma header_decode_prefix:
  assumes len: "length bs = HEADER_SIZE" and wf: "header_wf h"
    and pre: "take 120 bs = take 120 (header_logical h)"
    and val: "header_validate h = Inr ()"
  shows "header_decode bs = Inr (h\<lparr>hd_create_contract_digest :=
      (if hd_feature_bitmap h AND FEATURE_CREATE_CONTRACT \<noteq> 0
       then slice CREATE_CONTRACT_DIGEST_OFFSET 32 bs else replicate 32 0)\<rparr>)"
proof -
  note eq = slice_by_prefix [OF pre]
  note sl = slice_header_logical [OF wf]
  have "header_validate (h\<lparr>hd_create_contract_digest := d\<rparr>) = Inr ()" for d
    using val by (simp add: header_validate_def split: if_splits)
  moreover have rebuild: "\<lparr>hd_format_major = hd_format_major h, hd_format_minor = hd_format_minor h,
      hd_file_uuid = hd_file_uuid h, hd_flags = hd_flags h, hd_footer_offset = hd_footer_offset h,
      hd_snapshot_generation = hd_snapshot_generation h, hd_feature_bitmap = hd_feature_bitmap h,
      hd_create_contract_digest = d\<rparr> = h\<lparr>hd_create_contract_digest := d\<rparr>" for d
    by simp
  ultimately show ?thesis
    using len by (simp add: header_decode_def get_defs eq sl Let_def rebuild HEADER_SIZE_def)
qed

lemma header_encode_Inr:
  assumes "header_encode h = Inr buf" and wf: "header_wf h"
  shows "header_validate h = Inr ()" and "length buf = HEADER_SIZE"
    and "take 120 buf = take 120 (header_logical h)"
    and "hd_feature_bitmap h AND FEATURE_CREATE_CONTRACT \<noteq> 0 \<Longrightarrow>
         slice CREATE_CONTRACT_DIGEST_OFFSET 32 buf = hd_create_contract_digest h"
proof -
  show "header_validate h = Inr ()"
    using assms(1) by (auto simp: header_encode_def rbind_Inr_iff)
  then have buf: "buf = (let buf = (if hd_feature_bitmap h AND FEATURE_COORDINATION_REGION \<noteq> 0
                  then stamp_initial (header_logical h) else header_logical h)
      in if hd_feature_bitmap h AND FEATURE_CREATE_CONTRACT \<noteq> 0
         then patch CREATE_CONTRACT_DIGEST_OFFSET (hd_create_contract_digest h) buf else buf)"
    using assms(1) by (simp add: header_encode_def Let_def)
  have d: "length (hd_create_contract_digest h) = 32" using wf by (simp add: header_wf_def)
  show "length buf = HEADER_SIZE"
    using wf d by (simp add: buf Let_def HEADER_SIZE_def CREATE_CONTRACT_DIGEST_OFFSET_def)
  have t: "take 120 (patch off ys xs) = take 120 xs" if "120 \<le> off" "off \<le> length xs" for off ys and xs :: bytes
    using that by (simp add: patch_def)
  show "take 120 buf = take 120 (header_logical h)"
    using wf by (simp add: buf Let_def t stamp_initial_def CREATE_CONTRACT_DIGEST_OFFSET_def COORD_REGION_OFFSET_def)
  show "slice CREATE_CONTRACT_DIGEST_OFFSET 32 buf = hd_create_contract_digest h"
    if "hd_feature_bitmap h AND FEATURE_CREATE_CONTRACT \<noteq> 0"
    using that wf d by (simp add: buf Let_def slice_patch_same CREATE_CONTRACT_DIGEST_OFFSET_def)
qed

text \<open>
  An encoded header occupies the 4096 bytes of the header region and decodes to the
  header it was made from (the digest is stored only when its feature bit is set).
\<close>
theorem header_roundtrip:
  assumes "header_encode h = Inr buf" and "header_wf h"
  shows "length buf = HEADER_SIZE \<and>
    header_decode buf = Inr (if hd_feature_bitmap h AND FEATURE_CREATE_CONTRACT \<noteq> 0 then h
                             else h\<lparr>hd_create_contract_digest := replicate 32 0\<rparr>)"
  using header_encode_Inr [OF assms] header_decode_prefix [OF _ assms(2), of buf]
  by auto

definition ex_new_header :: header where
  "ex_new_header = (header_new (replicate 16 7))\<lparr>hd_footer_offset := 8192, hd_snapshot_generation := 5,
     hd_create_contract_digest := replicate 32 9\<rparr>"

lemma ex_new_header_encode: "\<exists>buf. header_encode ex_new_header = Inr buf"
  by (simp add: header_encode_def header_validate_def ex_new_header_def header_new_def Let_def HEADER_SIZE_def)

theorem header_roundtrip_witness:
  "\<exists>buf. header_encode ex_new_header = Inr buf \<and> length buf = HEADER_SIZE \<and>
    header_decode buf = Inr ex_new_header"
proof -
  obtain buf where e: "header_encode ex_new_header = Inr buf" using ex_new_header_encode ..
  have "header_wf ex_new_header" by (simp add: header_wf_def ex_new_header_def header_new_def)
  moreover have "hd_feature_bitmap ex_new_header AND FEATURE_CREATE_CONTRACT \<noteq> 0"
    by (simp add: ex_new_header_def header_new_def FEATURE_CREATE_CONTRACT_def FEATURE_COORDINATION_REGION_def)
  ultimately show ?thesis using header_roundtrip [OF e] e by auto
qed

lemma header_decode_valid:
  "header_decode bs = Inr h \<Longrightarrow>
   slice 0 4 bs = MAGIC \<and> hd_format_major h = FORMAT_MAJOR \<and> hd_format_minor h = FORMAT_MINOR \<and>
   (hd_footer_offset h = 0 \<or> HEADER_SIZE \<le> unat (hd_footer_offset h))"
  by (auto simp: header_decode_def header_validate_def rbind_Inr_iff Let_def split: if_splits)

text \<open>
  The commit-time rewrite: the file keeps its length and every byte from 120 on, so the
  coordination region and the digest survive; reading the header back gives the new
  logical fields with the digest that was on disk.
\<close>
lemma write_logical_prefix_spec:
  assumes f: "HEADER_SIZE \<le> length f" and wf: "header_wf h"
    and w: "write_logical_prefix f h = Inr f'"
  shows "length f' = length f" and "drop 120 f' = drop 120 f"
    and "region_slice f' = region_slice f"
    and "header_read f' = Inr (h\<lparr>hd_create_contract_digest :=
      (if hd_feature_bitmap h AND FEATURE_CREATE_CONTRACT \<noteq> 0
       then slice CREATE_CONTRACT_DIGEST_OFFSET 32 f else replicate 32 0)\<rparr>)"
proof -
  from w obtain buf where enc: "header_encode h = Inr buf" and f': "f' = write_all_at 0 (take 120 buf) f"
    by (auto simp: write_logical_prefix_def rbind_Inr_iff)
  note e = header_encode_Inr [OF enc wf]
  have len120: "length (take 120 buf) = 120" using e(2) by (simp add: HEADER_SIZE_def)
  with f have f'': "f' = take 120 buf @ drop 120 f"
    by (auto simp: f' write_all_at_def HEADER_SIZE_def)
  show len: "length f' = length f" using f len120 by (simp add: f'' HEADER_SIZE_def)
  show drp: "drop 120 f' = drop 120 f" using len120 by (simp add: f'')
  have sl: "slice off n f' = slice off n f" if "120 \<le> off" for off n
  proof -
    have "drop off f' = drop (off - 120) (drop 120 f')" using that by simp
    also have "\<dots> = drop off f" using that by (simp add: drp)
    finally show ?thesis by (simp add: slice_def)
  qed
  show "region_slice f' = region_slice f"
    using len by (simp add: region_slice_def sl COORD_REGION_OFFSET_def)
  have r: "read_exact_at 0 HEADER_SIZE f' = Inr (take HEADER_SIZE f')"
    using f len by (simp add: read_exact_at_def slice_def)
  have t: "slice CREATE_CONTRACT_DIGEST_OFFSET 32 (take HEADER_SIZE f') = slice CREATE_CONTRACT_DIGEST_OFFSET 32 f"
    by (simp add: slice_take sl HEADER_SIZE_def CREATE_CONTRACT_DIGEST_OFFSET_def)
  have "take 120 (take HEADER_SIZE f') = take 120 (header_logical h)"
    using e wf by (simp add: f'' HEADER_SIZE_def)
  from header_decode_prefix [OF _ wf this e(1)]
  show "header_read f' = Inr (h\<lparr>hd_create_contract_digest :=
      (if hd_feature_bitmap h AND FEATURE_CREATE_CONTRACT \<noteq> 0
       then slice CREATE_CONTRACT_DIGEST_OFFSET 32 f else replicate 32 0)\<rparr>)"
    using f len t unfolding header_read_def r rbind_simps by (simp add: HEADER_SIZE_def)
qed

end
