(* ===== verification/Segment.thy ===== *)
theory Segment imports Header begin

text \<open>
  The append-only segment: types and compression codes, references, the 76-byte segment
  header with its codec and validation (src/format/segment.rs, src/format/payload.rs).
  The BLAKE3 hash of the crate \<open>blake3\<close> is a parameter \<open>h\<close> of every definition that
  uses it; the only thing asked of it, where a length matters, is that digests have 32
  bytes.
\<close>

type_synonym hash = "bytes \<Rightarrow> bytes"

text \<open>Documented behaviour of BLAKE3 in this crate: a digest is a \<open>[u8; 32]\<close>.\<close>
definition digest32 :: "hash \<Rightarrow> bool" where
  "digest32 h \<longleftrightarrow> (\<forall>bs. length (h bs) = 32)"

section \<open>Segment types and compression codes\<close>

datatype segment_type =
    Payload | FrameCatalog | CollectionCatalog | TextSpaceCatalog | AnalyzerCatalog
  | FieldSchemaCatalog | RetrievalProfileCatalog | EmbeddingSpaceCatalog | CodecCatalog
  | VectorCatalog | FusionProfileCatalog | TermDictionary | Postings | Positions | DocStats
  | TokenSet | MinHashSignature | ForwardIndex | RawText | RawTextDictionary | VectorData
  | CollectionFilter | CodecParams | TimeIndex | SegmentRegistry | Extension | Metadata

fun segment_type_code :: "segment_type \<Rightarrow> u16" where
  "segment_type_code Payload = 0x0001"
| "segment_type_code FrameCatalog = 0x0002"
| "segment_type_code CollectionCatalog = 0x0003"
| "segment_type_code TextSpaceCatalog = 0x0004"
| "segment_type_code AnalyzerCatalog = 0x0005"
| "segment_type_code FieldSchemaCatalog = 0x0006"
| "segment_type_code RetrievalProfileCatalog = 0x0007"
| "segment_type_code EmbeddingSpaceCatalog = 0x0008"
| "segment_type_code CodecCatalog = 0x0009"
| "segment_type_code VectorCatalog = 0x000A"
| "segment_type_code FusionProfileCatalog = 0x000C"
| "segment_type_code TermDictionary = 0x0010"
| "segment_type_code Postings = 0x0011"
| "segment_type_code Positions = 0x0012"
| "segment_type_code DocStats = 0x0013"
| "segment_type_code TokenSet = 0x0014"
| "segment_type_code MinHashSignature = 0x0015"
| "segment_type_code ForwardIndex = 0x0016"
| "segment_type_code RawText = 0x0017"
| "segment_type_code RawTextDictionary = 0x0018"
| "segment_type_code VectorData = 0x0020"
| "segment_type_code CollectionFilter = 0x0022"
| "segment_type_code CodecParams = 0x0023"
| "segment_type_code TimeIndex = 0x0030"
| "segment_type_code SegmentRegistry = 0x00FE"
| "segment_type_code Extension = 0x00FF"
| "segment_type_code Metadata = 0x0019"

definition segment_type_table :: "(u16 \<times> segment_type) list" where
  "segment_type_table =
     [(0x0001, Payload), (0x0002, FrameCatalog), (0x0003, CollectionCatalog),
      (0x0004, TextSpaceCatalog), (0x0005, AnalyzerCatalog), (0x0006, FieldSchemaCatalog),
      (0x0007, RetrievalProfileCatalog), (0x0008, EmbeddingSpaceCatalog),
      (0x0009, CodecCatalog), (0x000A, VectorCatalog), (0x000C, FusionProfileCatalog),
      (0x0010, TermDictionary), (0x0011, Postings), (0x0012, Positions), (0x0013, DocStats),
      (0x0014, TokenSet), (0x0015, MinHashSignature), (0x0016, ForwardIndex),
      (0x0017, RawText), (0x0018, RawTextDictionary), (0x0019, Metadata),
      (0x0020, VectorData), (0x0022, CollectionFilter), (0x0023, CodecParams),
      (0x0030, TimeIndex), (0x00FE, SegmentRegistry), (0x00FF, Extension)]"

text \<open>\<open>TryFrom<u16> for SegmentType\<close>: the match, arm by arm.\<close>
definition segment_type_try_from :: "u16 \<Rightarrow> segment_type result" where
  "segment_type_try_from v =
     ok_or (map_of segment_type_table v) (Format ''unknown segment type'')"

datatype compression = CNone | Zstd | Lz4

fun compression_code :: "compression \<Rightarrow> u16" where
  "compression_code CNone = 0"
| "compression_code Zstd = 1"
| "compression_code Lz4 = 2"

definition compression_try_from :: "u16 \<Rightarrow> compression result" where
  "compression_try_from v =
     (if v = 0 then Inr CNone else if v = 1 then Inr Zstd else if v = 2 then Inr Lz4
      else Inl (Format ''unknown compression code''))"

definition ensure_decodable :: "compression \<Rightarrow> unit result" where
  "ensure_decodable c =
     (case c of CNone \<Rightarrow> Inr () | Zstd \<Rightarrow> Inr ()
      | Lz4 \<Rightarrow> Inl (Unsupported ''segment is LZ4-compressed''))"

lemma segment_type_codes [simp]: "segment_type_try_from (segment_type_code t) = Inr t"
  by (cases t) (simp_all add: segment_type_try_from_def segment_type_table_def)

lemma compression_codes [simp]: "compression_try_from (compression_code c) = Inr c"
  by (cases c) (simp_all add: compression_try_from_def)

lemma segment_type_try_from_Inr: "segment_type_try_from v = Inr t \<Longrightarrow> v = segment_type_code t"
  by (auto simp: segment_type_try_from_def segment_type_table_def split: if_splits)

lemma compression_try_from_Inr: "compression_try_from v = Inr c \<Longrightarrow> v = compression_code c"
  by (auto simp: compression_try_from_def split: if_splits)

section \<open>References and headers\<close>

type_synonym segment_id = u64
type_synonym checksum = bytes

record segment_ref =
  sr_segment_id :: segment_id
  sr_offset :: u64
  sr_length :: u64
  sr_checksum :: checksum

record payload_ref =
  pr_segment_id :: segment_id
  pr_bytes_offset :: u64
  pr_bytes_length :: u64

definition SEGMENT_MAGIC :: bytes where "SEGMENT_MAGIC = [0x56, 0x4C, 0x53, 0x47]"
definition SEGMENT_HEADER_SIZE :: nat where "SEGMENT_HEADER_SIZE = 76"
definition SEGMENT_VERSION :: u16 where "SEGMENT_VERSION = 1"

record segment_header =
  sh_segment_version :: u16
  sh_segment_type :: segment_type
  sh_segment_id :: segment_id
  sh_flags :: u32
  sh_item_count :: u32
  sh_compression :: compression
  sh_uncompressed_length :: u64
  sh_payload_length :: u64
  sh_payload_checksum :: checksum

definition segment_header_new ::
  "hash \<Rightarrow> segment_type \<Rightarrow> segment_id \<Rightarrow> u32 \<Rightarrow> compression \<Rightarrow> u64 \<Rightarrow> bytes \<Rightarrow> segment_header" where
  "segment_header_new h ty sid item_count cmp ulen payload =
     \<lparr>sh_segment_version = SEGMENT_VERSION, sh_segment_type = ty, sh_segment_id = sid,
      sh_flags = 0, sh_item_count = item_count, sh_compression = cmp,
      sh_uncompressed_length = ulen, sh_payload_length = of_nat (length payload),
      sh_payload_checksum = h payload\<rparr>"

definition segment_validate_header :: "segment_header \<Rightarrow> unit result" where
  "segment_validate_header s =
     (if sh_compression s = CNone \<and> sh_uncompressed_length s \<noteq> sh_payload_length s
      then Inl (Format ''uncompressed length must equal payload length when compression is None'')
      else Inr ())"

definition segment_validate_payload :: "hash \<Rightarrow> segment_header \<Rightarrow> bytes \<Rightarrow> unit result" where
  "segment_validate_payload h s payload =
     rbind (segment_validate_header s) (\<lambda>_.
       if unat (sh_payload_length s) \<noteq> length payload
       then Inl (Integrity ''segment payload length mismatch'')
       else if sh_payload_checksum s \<noteq> h payload
       then Inl (Integrity ''segment payload checksum mismatch'')
       else Inr ())"

definition segment_header_encode :: "segment_header \<Rightarrow> bytes" where
  "segment_header_encode s =
     patch 44 (sh_payload_checksum s)
      (put_u64 36 (sh_payload_length s)
       (put_u64 28 (sh_uncompressed_length s)
        (put_u16 26 0
         (put_u16 24 (compression_code (sh_compression s))
          (put_u32 20 (sh_item_count s)
           (put_u32 16 (sh_flags s)
            (put_u64 8 (sh_segment_id s)
             (put_u16 6 (segment_type_code (sh_segment_type s))
              (put_u16 4 (sh_segment_version s)
               (patch 0 SEGMENT_MAGIC (replicate SEGMENT_HEADER_SIZE 0)))))))))))"

definition segment_header_decode :: "bytes \<Rightarrow> segment_header result" where
  "segment_header_decode bs =
     (if slice 0 4 bs \<noteq> SEGMENT_MAGIC then Inl (Format ''segment magic mismatch'')
      else if u16_of_le (slice 26 2 bs) \<noteq> 0
        then Inl (Format ''segment reserved field must be zero'')
      else let version = u16_of_le (slice 4 2 bs) in
        if version \<noteq> SEGMENT_VERSION then Inl (Format ''unsupported segment version'')
        else rbind (segment_type_try_from (u16_of_le (slice 6 2 bs))) (\<lambda>ty.
          rbind (compression_try_from (u16_of_le (slice 24 2 bs))) (\<lambda>cmp.
            let s = \<lparr>sh_segment_version = version, sh_segment_type = ty,
                     sh_segment_id = u64_of_le (slice 8 8 bs),
                     sh_flags = u32_of_le (slice 16 4 bs),
                     sh_item_count = u32_of_le (slice 20 4 bs),
                     sh_compression = cmp,
                     sh_uncompressed_length = u64_of_le (slice 28 8 bs),
                     sh_payload_length = u64_of_le (slice 36 8 bs),
                     sh_payload_checksum = slice 44 32 bs\<rparr>
            in rbind (segment_validate_header s) (\<lambda>_. Inr s))))"

subsection \<open>Facts\<close>

definition segment_header_wf :: "segment_header \<Rightarrow> bool" where
  "segment_header_wf s = (length (sh_payload_checksum s) = 32)"

lemma length_SEGMENT_MAGIC [simp]: "length SEGMENT_MAGIC = 4"
  by (simp add: SEGMENT_MAGIC_def)

lemma length_segment_header_encode [simp]:
  "segment_header_wf s \<Longrightarrow> length (segment_header_encode s) = SEGMENT_HEADER_SIZE"
  by (simp add: segment_header_encode_def put_defs segment_header_wf_def SEGMENT_HEADER_SIZE_def)

lemma slice_segment_header_encode:
  assumes "segment_header_wf s"
  shows "slice 0 4 (segment_header_encode s) = SEGMENT_MAGIC"
    and "slice 4 2 (segment_header_encode s) = u16_le (sh_segment_version s)"
    and "slice 6 2 (segment_header_encode s) = u16_le (segment_type_code (sh_segment_type s))"
    and "slice 8 8 (segment_header_encode s) = u64_le (sh_segment_id s)"
    and "slice 16 4 (segment_header_encode s) = u32_le (sh_flags s)"
    and "slice 20 4 (segment_header_encode s) = u32_le (sh_item_count s)"
    and "slice 24 2 (segment_header_encode s) = u16_le (compression_code (sh_compression s))"
    and "slice 26 2 (segment_header_encode s) = u16_le 0"
    and "slice 28 8 (segment_header_encode s) = u64_le (sh_uncompressed_length s)"
    and "slice 36 8 (segment_header_encode s) = u64_le (sh_payload_length s)"
    and "slice 44 32 (segment_header_encode s) = sh_payload_checksum s"
  using assms
  by (simp_all add: segment_header_encode_def put_defs segment_header_wf_def
      SEGMENT_HEADER_SIZE_def slice_patch)

lemma segment_header_roundtrip:
  assumes wf: "segment_header_wf s" and ver: "sh_segment_version s = SEGMENT_VERSION"
    and val: "segment_validate_header s = Inr ()"
  shows "segment_header_decode (segment_header_encode s) = Inr s"
proof -
  have rebuild: "\<lparr>sh_segment_version = SEGMENT_VERSION, sh_segment_type = sh_segment_type s,
      sh_segment_id = sh_segment_id s, sh_flags = sh_flags s,
      sh_item_count = sh_item_count s, sh_compression = sh_compression s,
      sh_uncompressed_length = sh_uncompressed_length s,
      sh_payload_length = sh_payload_length s,
      sh_payload_checksum = sh_payload_checksum s\<rparr> = s"
    using ver by simp
  with val show ?thesis
    by (simp add: segment_header_decode_def slice_segment_header_encode [OF wf] ver Let_def rebuild)
qed

text \<open>A decoded header is a valid one, and its fields are the bytes that were read.\<close>
lemma segment_header_decode_Inr:
  assumes "segment_header_decode bs = Inr s" and "length bs = SEGMENT_HEADER_SIZE"
  shows "segment_header_wf s" and "sh_segment_version s = SEGMENT_VERSION"
    and "segment_validate_header s = Inr ()"
    and "segment_header_encode s = bs"
proof -
  show wf: "segment_header_wf s" and "sh_segment_version s = SEGMENT_VERSION"
    and "segment_validate_header s = Inr ()"
    using assms
    by (auto simp: segment_header_decode_def segment_header_wf_def rbind_Inr_iff Let_def
        SEGMENT_HEADER_SIZE_def split: if_splits)
  from assms have magic: "slice 0 4 bs = SEGMENT_MAGIC"
    and res: "u16_of_le (slice 26 2 bs) = 0" and ver: "u16_of_le (slice 4 2 bs) = SEGMENT_VERSION"
    and ty: "u16_of_le (slice 6 2 bs) = segment_type_code (sh_segment_type s)"
    and comp: "u16_of_le (slice 24 2 bs) = compression_code (sh_compression s)"
    and s: "sh_segment_version s = SEGMENT_VERSION" "sh_segment_id s = u64_of_le (slice 8 8 bs)"
      "sh_flags s = u32_of_le (slice 16 4 bs)" "sh_item_count s = u32_of_le (slice 20 4 bs)"
      "sh_uncompressed_length s = u64_of_le (slice 28 8 bs)"
      "sh_payload_length s = u64_of_le (slice 36 8 bs)" "sh_payload_checksum s = slice 44 32 bs"
    by (auto simp: segment_header_decode_def rbind_Inr_iff Let_def segment_type_try_from_Inr
        compression_try_from_Inr split: if_splits)
  note sl = slice_segment_header_encode [OF wf]
  have len: "length bs = 76" "length (segment_header_encode s) = 76"
    using assms(2) wf by (simp_all add: SEGMENT_HEADER_SIZE_def)
  show "segment_header_encode s = bs"
  proof (rule slices_eq [where ns = "[4, 2, 2, 8, 4, 4, 2, 2, 8, 8, 32]"])
    show "sum_list [4, 2, 2, 8, 4, 4, 2, 2, 8, 8, 32] = length bs" using len by simp
    show "slices 0 [4, 2, 2, 8, 4, 4, 2, 2, 8, 8, 32] (segment_header_encode s) =
          slices 0 [4, 2, 2, 8, 4, 4, 2, 2, 8, 8, 32] bs"
      using len
      by (simp add: sl s magic le_of_le flip: ty comp ver res)
  qed (simp add: len)
qed

end
