(* ===== verification/SortedVec.thy ===== *)
theory SortedVec imports Prelude begin

text \<open>
  Vectors kept sorted by a key and updated through \<open>binary_search_by_key\<close>, the way the
  code keeps its segment registry and every catalog table. The search is the standard
  library's loop; the interface \<open>keyed_table\<close> names what the tables rely on (a key
  function) and derives that an upsert keeps the vector strictly sorted and acts as a
  finite-map update, and that a lookup reads that map.
\<close>

section \<open>Binary search\<close>

function bs_loop :: "('a \<Rightarrow> 'k::linorder) \<Rightarrow> 'k \<Rightarrow> 'a list \<Rightarrow> nat \<Rightarrow> nat \<Rightarrow> nat" where
  "bs_loop key k xs base sz =
     (if sz \<le> 1 then base
      else let half = sz div 2; mid = base + half in
        bs_loop key k xs (if k < key (xs ! mid) then base else mid) (sz - half))"
  by pat_completeness auto
termination by (relation "measure (\<lambda>(_, _, _, _, sz). sz)") auto

declare bs_loop.simps [simp del]

text \<open>\<open>Ok(i)\<close> is \<open>Inr i\<close>, \<open>Err(i)\<close> (the insertion point) is \<open>Inl i\<close>.\<close>
definition binary_search_by_key :: "('a \<Rightarrow> 'k::linorder) \<Rightarrow> 'k \<Rightarrow> 'a list \<Rightarrow> nat + nat" where
  "binary_search_by_key key k xs =
     (if xs = [] then Inl 0
      else let base = bs_loop key k xs 0 (length xs) in
        if key (xs ! base) = k then Inr base
        else Inl (base + (if key (xs ! base) < k then 1 else 0)))"

definition strict_by :: "('a \<Rightarrow> 'k::linorder) \<Rightarrow> 'a list \<Rightarrow> bool" where
  "strict_by key xs = sorted_wrt (<) (map key xs)"

lemma strict_by_nth: "strict_by key xs \<Longrightarrow> i < j \<Longrightarrow> j < length xs \<Longrightarrow> key (xs ! i) < key (xs ! j)"
  by (auto simp: strict_by_def sorted_wrt_iff_nth_less)

lemma bs_loop_spec:
  assumes "strict_by key xs" and "0 < sz" and "base + sz \<le> length xs"
    and "\<forall>i<base. key (xs ! i) < k"
    and "\<forall>i. base + sz \<le> i \<and> i < length xs \<longrightarrow> k < key (xs ! i)"
  shows "bs_loop key k xs base sz < length xs \<and>
    (\<forall>i<bs_loop key k xs base sz. key (xs ! i) < k) \<and>
    (\<forall>i. bs_loop key k xs base sz < i \<and> i < length xs \<longrightarrow> k < key (xs ! i))"
  using assms
proof (induction key k xs base sz rule: bs_loop.induct)
  case (1 key k xs base sz)
  show ?case
  proof (cases "sz \<le> 1")
    case True
    with "1.prems" have "sz = 1" by simp
    then have "bs_loop key k xs base sz = base" by (subst bs_loop.simps) simp
    then show ?thesis using "1.prems" \<open>sz = 1\<close> by (simp add: Suc_le_eq)
  next
    case False
    define half mid where "half = sz div 2" and "mid = base + half"
    have half: "0 < half" "half < sz" "mid \<le> base + (sz - half)" "mid < length xs"
      using False "1.prems"(3) by (auto simp: half_def mid_def)
    define base' where "base' = (if k < key (xs ! mid) then base else mid)"
    note lt = strict_by_nth [OF "1.prems"(1)]
    have step: "bs_loop key k xs base sz = bs_loop key k xs base' (sz - half)"
      using False by (simp add: bs_loop.simps [of _ _ _ _ sz] Let_def half_def mid_def base'_def)
    have low: "\<forall>i<base'. key (xs ! i) < k"
    proof (cases "k < key (xs ! mid)")
      case True
      then show ?thesis using "1.prems"(4) by (simp add: base'_def)
    next
      case False
      then have "key (xs ! mid) \<le> k" by simp
      then show ?thesis using False lt [OF _ half(4)] by (auto simp: base'_def intro: less_le_trans)
    qed
    have high: "\<forall>i. base' + (sz - half) \<le> i \<and> i < length xs \<longrightarrow> k < key (xs ! i)"
    proof (cases "k < key (xs ! mid)")
      case True
      have "k < key (xs ! i)" if "mid \<le> i" "i < length xs" for i
        using True lt [of mid i] that by (cases "i = mid") auto
      then show ?thesis using True half(3) by (simp add: base'_def)
    next
      case False
      have "mid + (sz - half) = base + sz" using half by (simp add: mid_def)
      then show ?thesis using False "1.prems"(5) by (simp add: base'_def)
    qed
    have "base' + (sz - half) \<le> length xs"
      using "1.prems"(3) half by (auto simp: base'_def mid_def)
    then show ?thesis
      unfolding step
      using "1.IH" [OF False half_def mid_def, folded base'_def] "1.prems"(1) half low high by simp
  qed
qed

lemma bs_loop_full:
  assumes "strict_by key xs" and "xs \<noteq> []" and "b = bs_loop key k xs 0 (length xs)"
  shows "b < length xs" and "\<And>i. i < b \<Longrightarrow> key (xs ! i) < k"
    and "\<And>i. b < i \<Longrightarrow> i < length xs \<Longrightarrow> k < key (xs ! i)"
proof -
  have "bs_loop key k xs 0 (length xs) < length xs \<and>
    (\<forall>i<bs_loop key k xs 0 (length xs). key (xs ! i) < k) \<and>
    (\<forall>i. bs_loop key k xs 0 (length xs) < i \<and> i < length xs \<longrightarrow> k < key (xs ! i))"
    by (rule bs_loop_spec [OF assms(1)]) (use assms(2) in auto)
  then show "b < length xs" and "\<And>i. i < b \<Longrightarrow> key (xs ! i) < k"
    and "\<And>i. b < i \<Longrightarrow> i < length xs \<Longrightarrow> k < key (xs ! i)"
    by (auto simp: assms(3))
qed

text \<open>The documented contract of \<open>binary_search_by_key\<close>, on a strictly sorted vector.\<close>
lemma binary_search_found:
  assumes "strict_by key xs" and "binary_search_by_key key k xs = Inr i"
  shows "i < length xs \<and> key (xs ! i) = k"
proof -
  have ne: "xs \<noteq> []" and i: "i = bs_loop key k xs 0 (length xs)" and "key (xs ! i) = k"
    using assms(2) by (auto simp: binary_search_by_key_def Let_def split: if_splits)
  with bs_loop_full(1) [OF assms(1) ne i] show ?thesis by simp
qed

lemma binary_search_insertion:
  assumes "strict_by key xs" and "binary_search_by_key key k xs = Inl i"
  shows "i \<le> length xs \<and> (\<forall>j<i. key (xs ! j) < k) \<and>
         (\<forall>j. i \<le> j \<and> j < length xs \<longrightarrow> k < key (xs ! j))"
proof (cases "xs = []")
  case True
  then show ?thesis using assms(2) by (simp add: binary_search_by_key_def)
next
  case False
  define b where "b = bs_loop key k xs 0 (length xs)"
  note full = bs_loop_full [OF assms(1) False b_def]
  have b: "key (xs ! b) \<noteq> k" "i = b + (if key (xs ! b) < k then 1 else 0)"
    using assms(2) False by (auto simp: binary_search_by_key_def Let_def b_def split: if_splits)
  show ?thesis
  proof (cases "key (xs ! b) < k")
    case True
    then show ?thesis using full b by (auto simp: less_Suc_eq Suc_le_eq)
  next
    case less: False
    with b have "k < key (xs ! b)" by simp
    then have "k < key (xs ! j)" if "b \<le> j" "j < length xs" for j
      using full(3) [of j] that by (cases "j = b") auto
    then show ?thesis using full(1,2) b less by simp
  qed
qed

lemma binary_search_absent:
  assumes "strict_by key xs" and "binary_search_by_key key k xs = Inl i"
  shows "k \<notin> key ` set xs"
proof
  assume "k \<in> key ` set xs"
  then obtain j where "j < length xs" "key (xs ! j) = k" by (auto simp: in_set_conv_nth)
  then show False using binary_search_insertion [OF assms] by (metis less_irrefl not_le)
qed

section \<open>Insertion into a vector\<close>

text \<open>\<open>Vec::insert\<close>.\<close>
definition vec_insert :: "nat \<Rightarrow> 'a \<Rightarrow> 'a list \<Rightarrow> 'a list" where
  "vec_insert i x xs = take i xs @ x # drop i xs"

text \<open>\<open>match xs.binary_search_by_key(..) { Ok(i) => xs[i] = x, Err(i) => xs.insert(i, x) }\<close>.\<close>
definition upsert :: "('a \<Rightarrow> 'k::linorder) \<Rightarrow> 'a \<Rightarrow> 'a list \<Rightarrow> 'a list" where
  "upsert key x xs =
     (case binary_search_by_key key (key x) xs of
        Inr i \<Rightarrow> xs[i := x]
      | Inl i \<Rightarrow> vec_insert i x xs)"

definition lookup_by :: "('a \<Rightarrow> 'k::linorder) \<Rightarrow> 'k \<Rightarrow> 'a list \<Rightarrow> 'a option" where
  "lookup_by key k xs =
     (case binary_search_by_key key k xs of Inr i \<Rightarrow> Some (xs ! i) | Inl _ \<Rightarrow> None)"

text \<open>The finite map a sorted vector represents.\<close>
definition table_map :: "('a \<Rightarrow> 'k) \<Rightarrow> 'a list \<Rightarrow> 'k \<rightharpoonup> 'a" where
  "table_map key xs = map_of (map (\<lambda>x. (key x, x)) xs)"

subsection \<open>Sorted vectors as finite maps\<close>

lemma strict_by_distinct: "strict_by key xs \<Longrightarrow> distinct (map key xs)"
  by (auto simp: strict_by_def strict_sorted_iff)

lemma strict_by_Nil [simp]: "strict_by key []"
  by (simp add: strict_by_def)

lemma strict_by_append:
  "strict_by key (xs @ ys) \<longleftrightarrow>
     strict_by key xs \<and> strict_by key ys \<and> (\<forall>x\<in>set xs. \<forall>y\<in>set ys. key x < key y)"
  by (auto simp: strict_by_def sorted_wrt_append)

lemma strict_by_Cons:
  "strict_by key (x # xs) \<longleftrightarrow> (\<forall>y\<in>set xs. key x < key y) \<and> strict_by key xs"
  by (auto simp: strict_by_def)

lemma table_map_Some:
  assumes "distinct (map key xs)"
  shows "table_map key xs k = Some x \<longleftrightarrow> x \<in> set xs \<and> key x = k"
  using assms
  by (auto simp: table_map_def map_of_eq_Some_iff comp_def)

lemma dom_table_map: "dom (table_map key xs) = key ` set xs"
  by (auto simp: table_map_def dom_map_of_conv_image_fst image_image)

lemma insertion_split:
  assumes "strict_by key xs" and "binary_search_by_key key k xs = Inl i"
  shows "\<forall>x\<in>set (take i xs). key x < k" and "\<forall>x\<in>set (drop i xs). k < key x"
  using binary_search_insertion [OF assms]
  by (auto simp: in_set_conv_nth)

lemma upsert_cases:
  assumes "strict_by key xs"
  obtains (update) i where "i < length xs" "key (xs ! i) = key x" "upsert key x xs = xs[i := x]"
  | (insert) us vs where "xs = us @ vs" "\<forall>u\<in>set us. key u < key x" "\<forall>v\<in>set vs. key x < key v"
      "upsert key x xs = us @ x # vs"
proof (cases "binary_search_by_key key (key x) xs")
  case (Inr i)
  then show ?thesis using binary_search_found [OF assms Inr] update [of i] by (simp add: upsert_def)
next
  case (Inl i)
  then show ?thesis
    using insertion_split [OF assms Inl] insert [of "take i xs" "drop i xs"]
    by (simp add: upsert_def vec_insert_def)
qed

lemma strict_by_upsert:
  assumes "strict_by key xs" shows "strict_by key (upsert key x xs)"
  using assms
proof (cases rule: upsert_cases [where x = x])
  case (update i)
  then have "map key (xs[i := x]) = map key xs"
    by (metis list_update_id map_update)
  with update assms show ?thesis by (simp add: strict_by_def)
next
  case (insert us vs)
  then show ?thesis using assms by (auto simp: strict_by_append strict_by_Cons)
qed

lemma set_list_update_insert:
  assumes "i < length xs"
  shows "set (xs[i := x]) = insert x {xs ! j | j. j < length xs \<and> j \<noteq> i}"
proof -
  have "set (xs[i := x]) = (\<lambda>j. xs[i := x] ! j) ` {j. j < length xs}"
    by (auto simp: set_conv_nth)
  also have "{j. j < length xs} = insert i {j. j < length xs \<and> j \<noteq> i}"
    using assms by auto
  finally show ?thesis using assms by auto
qed

lemma set_upsert:
  assumes "strict_by key xs"
  shows "set (upsert key x xs) = insert x {y \<in> set xs. key y \<noteq> key x}"
  using assms
proof (cases rule: upsert_cases [where x = x])
  case (update i)
  have "key (xs ! j) \<noteq> key x" if "j \<noteq> i" "j < length xs" for j
    using strict_by_nth [OF assms, of i j] strict_by_nth [OF assms, of j i] update that
    by (cases "i < j") auto
  then have "{y \<in> set xs. key y \<noteq> key x} = {xs ! j | j. j < length xs \<and> j \<noteq> i}"
    using update by (auto simp: in_set_conv_nth)
  moreover have "set (xs[i := x]) = insert x {xs ! j | j. j < length xs \<and> j \<noteq> i}"
    using update(1) by (rule set_list_update_insert)
  ultimately show ?thesis using update by simp
next
  case (insert us vs)
  then show ?thesis by auto
qed

text \<open>An upsert is the map update.\<close>
lemma table_map_upsert:
  assumes "strict_by key xs"
  shows "table_map key (upsert key x xs) = (table_map key xs)(key x \<mapsto> x)"
proof
  fix k
  have d: "distinct (map key (upsert key x xs))" "distinct (map key xs)"
    using assms by (auto intro: strict_by_distinct strict_by_upsert)
  have "table_map key (upsert key x xs) k = Some y \<longleftrightarrow> ((table_map key xs)(key x \<mapsto> x)) k = Some y" for y
    by (auto simp: table_map_Some [OF d(1)] table_map_Some [OF d(2)] set_upsert [OF assms])
  then show "table_map key (upsert key x xs) k = ((table_map key xs)(key x \<mapsto> x)) k"
    by (metis not_None_eq)
qed

lemma lookup_by_table_map:
  assumes "strict_by key xs" shows "lookup_by key k xs = table_map key xs k"
proof (cases "binary_search_by_key key k xs")
  case (Inr i)
  then have "i < length xs" "key (xs ! i) = k" using binary_search_found [OF assms] by auto
  then have "table_map key xs k = Some (xs ! i)"
    by (simp add: table_map_Some strict_by_distinct assms)
  with Inr show ?thesis by (simp add: lookup_by_def)
next
  case (Inl i)
  then have "k \<notin> dom (table_map key xs)"
    using binary_search_absent [OF assms] by (simp add: dom_table_map)
  then have "table_map key xs k = None" by (simp add: domIff)
  with Inl show ?thesis by (simp add: lookup_by_def)
qed

text \<open>A key above all others is appended, the case of a monotone allocator.\<close>
lemma upsert_append:
  assumes "strict_by key xs" and "\<forall>y\<in>set xs. key y < key x"
  shows "upsert key x xs = xs @ [x]"
  using assms(1)
proof (cases rule: upsert_cases [where x = x])
  case (update i)
  have "key (xs ! i) < key x" by (rule bspec [OF assms(2) nth_mem [OF update(1)]])
  with update(2) show ?thesis by simp
next
  case (insert us vs)
  then have "vs = []" using assms(2) by (cases vs) (auto dest: less_asym)
  with insert show ?thesis by simp
qed

section \<open>The table interface\<close>

text \<open>
  What the callers of a catalog table rely on: an insertion under a key replaces the
  entry of that key and nothing else, and keeps the table well formed.
\<close>

locale keyed_table =
  fixes key :: "'a \<Rightarrow> 'k"
    and empty :: 't
    and ins :: "'a \<Rightarrow> 't \<Rightarrow> 't"
    and find :: "'k \<Rightarrow> 't \<Rightarrow> 'a option"
    and wf :: "'t \<Rightarrow> bool"
  assumes wf_empty: "wf empty"
    and wf_ins: "wf t \<Longrightarrow> wf (ins x t)"
    and find_empty: "find k empty = None"
    and find_ins: "wf t \<Longrightarrow> find k (ins x t) = (if k = key x then Some x else find k t)"
begin

lemma wf_fold: "wf t \<Longrightarrow> wf (fold ins xs t)"
  by (induction xs arbitrary: t) (auto intro: wf_ins)

text \<open>After a run of insertions the last one under a key is found.\<close>
lemma find_fold:
  "wf t \<Longrightarrow> find k (fold ins xs t) =
     (case map_of (rev (map (\<lambda>x. (key x, x)) xs)) k of Some x \<Rightarrow> Some x | None \<Rightarrow> find k t)"
proof (induction xs arbitrary: t)
  case Nil
  then show ?case by simp
next
  case (Cons x xs)
  have "find k (fold ins xs (ins x t)) =
      (case map_of (rev (map (\<lambda>x. (key x, x)) xs)) k of Some y \<Rightarrow> Some y | None \<Rightarrow> find k (ins x t))"
    using Cons.prems by (intro Cons.IH wf_ins)
  then show ?case
    using Cons.prems by (auto simp: find_ins map_add_def split: option.splits)
qed

lemma find_fold_absent:
  "wf t \<Longrightarrow> k \<notin> key ` set xs \<Longrightarrow> find k (fold ins xs t) = find k t"
  by (induction xs arbitrary: t) (auto simp: wf_ins find_ins)

text \<open>Building a table from entries with distinct keys finds exactly those entries.\<close>
lemma find_build:
  assumes "distinct (map key xs)"
  shows "find k (fold ins xs empty) = Some x \<longleftrightarrow> x \<in> set xs \<and> key x = k"
proof -
  have "distinct (map fst (rev (map (\<lambda>x. (key x, x)) xs)))"
    using assms by (simp add: rev_map [symmetric] comp_def)
  moreover have "inj_on key (set xs)" using assms by (simp add: distinct_map)
  ultimately show ?thesis
    by (auto simp: find_fold wf_empty find_empty map_of_eq_Some_iff split: option.splits
        dest: inj_onD)
      (metis (no_types, lifting) image_eqI map_of_eq_None_iff option.distinct(1) image_image
        list.set_map set_rev fst_conv)
qed

end

lemma table_empty: "lookup_by key k [] = None"
  by (simp add: lookup_by_def binary_search_by_key_def)

lemma lookup_by_upsert:
  "strict_by key t \<Longrightarrow> lookup_by key k (upsert key x t) = (if k = key x then Some x else lookup_by key k t)"
  by (simp add: lookup_by_table_map strict_by_upsert table_map_upsert)

lemmas sorted_table_laws = strict_by_Nil strict_by_upsert table_empty lookup_by_upsert

end
