(* ===== verification/Registry.thy ===== *)
theory Registry imports Segment SortedVec begin

text \<open>
  The segment registry's entries with their validation, and the persistent id allocator
  (src/format/registry.rs). The interface \<open>id_source\<close> states what a client of the
  allocator relies on; its lemmas say that in any interleaving of allocations and
  observations the ids handed out are strictly increasing and above every id observed
  before, so that no id is ever handed out twice.
\<close>

section \<open>Catalog entries\<close>

datatype segment_catalog_status = Live | Superseded | Tombstoned_segment

record segment_catalog_entry =
  se_segment_id :: segment_id
  se_segment_type :: segment_type
  se_root :: segment_ref
  se_segment_version :: u16
  se_flags :: u32
  se_item_count :: u32
  se_compression :: compression
  se_uncompressed_length :: u64
  se_payload_length :: u64
  se_status :: segment_catalog_status

definition entry_validate :: "segment_catalog_entry \<Rightarrow> unit result" where
  "entry_validate e =
     (if se_segment_id e = 0 then Inl (Format ''segment id must be non-zero'')
      else if sr_segment_id (se_root e) \<noteq> se_segment_id e
        then Inl (Integrity ''segment catalog root id mismatch'')
      else rbind (ok_or (checked_add (of_nat SEGMENT_HEADER_SIZE) (se_payload_length e))
                   (Format ''segment catalog length overflow'')) (\<lambda>expected_len.
        if sr_length (se_root e) \<noteq> expected_len
          then Inl (Integrity ''segment catalog root length mismatch'')
        else if se_compression e = CNone \<and> se_uncompressed_length e \<noteq> se_payload_length e
          then Inl (Format ''uncompressed length must equal payload length when compression is None'')
        else Inr ()))"

definition entry_validate_header :: "segment_catalog_entry \<Rightarrow> segment_header \<Rightarrow> unit result" where
  "entry_validate_header e s =
     rbind (entry_validate e) (\<lambda>_.
       if se_segment_id e \<noteq> sh_segment_id s \<or> se_segment_type e \<noteq> sh_segment_type s
          \<or> se_segment_version e \<noteq> sh_segment_version s \<or> se_flags e \<noteq> sh_flags s
          \<or> se_item_count e \<noteq> sh_item_count s \<or> se_compression e \<noteq> sh_compression s
          \<or> se_uncompressed_length e \<noteq> sh_uncompressed_length s
          \<or> se_payload_length e \<noteq> sh_payload_length s
          \<or> sr_checksum (se_root e) \<noteq> sh_payload_checksum s
       then Inl (Integrity ''segment catalog entry/header mismatch'')
       else Inr ())"

definition entry_new ::
  "segment_ref \<Rightarrow> segment_header \<Rightarrow> segment_catalog_status \<Rightarrow> segment_catalog_entry result" where
  "entry_new root s status =
     (let e = \<lparr>se_segment_id = sh_segment_id s, se_segment_type = sh_segment_type s,
              se_root = root, se_segment_version = sh_segment_version s,
              se_flags = sh_flags s, se_item_count = sh_item_count s,
              se_compression = sh_compression s,
              se_uncompressed_length = sh_uncompressed_length s,
              se_payload_length = sh_payload_length s, se_status = status\<rparr>
      in rbind (entry_validate_header e s) (\<lambda>_. Inr e))"

definition entry_live :: "segment_ref \<Rightarrow> segment_header \<Rightarrow> segment_catalog_entry result" where
  "entry_live root s = entry_new root s Live"

lemma entry_validate_Inr:
  "entry_validate e = Inr () \<longleftrightarrow>
     se_segment_id e \<noteq> 0 \<and> sr_segment_id (se_root e) = se_segment_id e \<and>
     unat (sr_length (se_root e)) = SEGMENT_HEADER_SIZE + unat (se_payload_length e) \<and>
     (se_compression e = CNone \<longrightarrow> se_uncompressed_length e = se_payload_length e)"
proof -
  have 76: "unat (of_nat SEGMENT_HEADER_SIZE :: u64) = SEGMENT_HEADER_SIZE"
    by (simp add: SEGMENT_HEADER_SIZE_def)
  have len: "(\<exists>x. checked_add (of_nat SEGMENT_HEADER_SIZE) p = Some x \<and> l = x) \<longleftrightarrow>
      unat l = SEGMENT_HEADER_SIZE + unat p" for l p :: u64
  proof
    assume "unat l = SEGMENT_HEADER_SIZE + unat p"
    then have "unat (of_nat SEGMENT_HEADER_SIZE :: u64) + unat p < 2 ^ 64"
      using unsigned_less [where ?'a = nat, of l] 76 by simp
    moreover from this have "l = of_nat SEGMENT_HEADER_SIZE + p"
      using \<open>unat l = _\<close> 76 by (simp add: word_unat_eq_iff unat_add_lem [THEN iffD1])
    ultimately show "\<exists>x. checked_add (of_nat SEGMENT_HEADER_SIZE) p = Some x \<and> l = x"
      by (simp add: checked_add_Some_iff)
  qed (auto dest: checked_add_unat simp: 76)
  show ?thesis
    using len [of "se_payload_length e" "sr_length (se_root e)"]
    by (auto simp: entry_validate_def rbind_Inr_iff split: if_splits)
qed

section \<open>The id allocator\<close>

text \<open>\<open>take_u32\<close>/\<open>take_u64\<close> return the id and the advanced counter; \<open>observe_*\<close> the counter.\<close>

definition validate_next :: "'a::len word \<Rightarrow> unit result" where
  "validate_next n = (if n = 0 then Inl (Format ''next id must be non-zero'') else Inr ())"

definition next_id :: "'a::len word \<Rightarrow> 'a word result" where
  "next_id i = ok_or (checked_add i 1) (Format ''id space exhausted'')"

definition take_id :: "'a::len word \<Rightarrow> ('a word \<times> 'a word) result" where
  "take_id n = rbind (validate_next n) (\<lambda>_. rbind (next_id n) (\<lambda>n'. Inr (n, n')))"

definition observe_id :: "'a::len word \<Rightarrow> 'a word \<Rightarrow> 'a word result" where
  "observe_id n observed =
     (if observed = 0 then Inl (Format ''id must be non-zero'')
      else rbind (next_id observed) (\<lambda>required_next.
        Inr (if n < required_next then required_next else n)))"

record id_allocator =
  next_collection_id :: u32
  next_frame_id :: u64
  next_text_space_id :: u32
  next_analyzer_id :: u32
  next_field_schema_id :: u32
  next_retrieval_profile_id :: u32
  next_embedding_space_id :: u32
  next_codec_id :: u32
  next_vector_id :: u64
  next_segment_id :: u64
  next_fusion_profile_id :: u32

definition id_allocator_default :: id_allocator where
  "id_allocator_default =
     \<lparr>next_collection_id = 1, next_frame_id = 1, next_text_space_id = 1, next_analyzer_id = 1,
      next_field_schema_id = 1, next_retrieval_profile_id = 1, next_embedding_space_id = 1,
      next_codec_id = 1, next_vector_id = 1, next_segment_id = 1, next_fusion_profile_id = 1\<rparr>"

definition id_allocator_validate :: "id_allocator \<Rightarrow> unit result" where
  "id_allocator_validate a =
     rbind (validate_next (next_collection_id a)) (\<lambda>_.
     rbind (validate_next (next_frame_id a)) (\<lambda>_.
     rbind (validate_next (next_text_space_id a)) (\<lambda>_.
     rbind (validate_next (next_analyzer_id a)) (\<lambda>_.
     rbind (validate_next (next_field_schema_id a)) (\<lambda>_.
     rbind (validate_next (next_retrieval_profile_id a)) (\<lambda>_.
     rbind (validate_next (next_embedding_space_id a)) (\<lambda>_.
     rbind (validate_next (next_codec_id a)) (\<lambda>_.
     rbind (validate_next (next_vector_id a)) (\<lambda>_.
     rbind (validate_next (next_segment_id a)) (\<lambda>_.
     validate_next (next_fusion_profile_id a)))))))))))"

type_synonym 'i allocation = "id_allocator \<Rightarrow> ('i \<times> id_allocator) result"
type_synonym 'i observation = "id_allocator \<Rightarrow> 'i \<Rightarrow> id_allocator result"

definition allocate_collection_id :: "u32 allocation" where
  "allocate_collection_id a =
     rbind (take_id (next_collection_id a)) (\<lambda>(i, n). Inr (i, a\<lparr>next_collection_id := n\<rparr>))"
definition allocate_frame_id :: "u64 allocation" where
  "allocate_frame_id a =
     rbind (take_id (next_frame_id a)) (\<lambda>(i, n). Inr (i, a\<lparr>next_frame_id := n\<rparr>))"
definition allocate_segment_id :: "u64 allocation" where
  "allocate_segment_id a =
     rbind (take_id (next_segment_id a)) (\<lambda>(i, n). Inr (i, a\<lparr>next_segment_id := n\<rparr>))"
definition allocate_text_space_id :: "u32 allocation" where
  "allocate_text_space_id a =
     rbind (take_id (next_text_space_id a)) (\<lambda>(i, n). Inr (i, a\<lparr>next_text_space_id := n\<rparr>))"
definition allocate_analyzer_id :: "u32 allocation" where
  "allocate_analyzer_id a =
     rbind (take_id (next_analyzer_id a)) (\<lambda>(i, n). Inr (i, a\<lparr>next_analyzer_id := n\<rparr>))"
definition allocate_field_schema_id :: "u32 allocation" where
  "allocate_field_schema_id a =
     rbind (take_id (next_field_schema_id a)) (\<lambda>(i, n). Inr (i, a\<lparr>next_field_schema_id := n\<rparr>))"
definition allocate_retrieval_profile_id :: "u32 allocation" where
  "allocate_retrieval_profile_id a =
     rbind (take_id (next_retrieval_profile_id a)) (\<lambda>(i, n).
       Inr (i, a\<lparr>next_retrieval_profile_id := n\<rparr>))"
definition allocate_embedding_space_id :: "u32 allocation" where
  "allocate_embedding_space_id a =
     rbind (take_id (next_embedding_space_id a)) (\<lambda>(i, n).
       Inr (i, a\<lparr>next_embedding_space_id := n\<rparr>))"
definition allocate_codec_id :: "u32 allocation" where
  "allocate_codec_id a =
     rbind (take_id (next_codec_id a)) (\<lambda>(i, n). Inr (i, a\<lparr>next_codec_id := n\<rparr>))"
definition allocate_vector_id :: "u64 allocation" where
  "allocate_vector_id a =
     rbind (take_id (next_vector_id a)) (\<lambda>(i, n). Inr (i, a\<lparr>next_vector_id := n\<rparr>))"
definition allocate_fusion_profile_id :: "u32 allocation" where
  "allocate_fusion_profile_id a =
     rbind (take_id (next_fusion_profile_id a)) (\<lambda>(i, n).
       Inr (i, a\<lparr>next_fusion_profile_id := n\<rparr>))"

definition observe_collection_id :: "u32 observation" where
  "observe_collection_id a i =
     rbind (observe_id (next_collection_id a) i) (\<lambda>n. Inr (a\<lparr>next_collection_id := n\<rparr>))"
definition observe_frame_id :: "u64 observation" where
  "observe_frame_id a i =
     rbind (observe_id (next_frame_id a) i) (\<lambda>n. Inr (a\<lparr>next_frame_id := n\<rparr>))"
definition observe_segment_id :: "u64 observation" where
  "observe_segment_id a i =
     rbind (observe_id (next_segment_id a) i) (\<lambda>n. Inr (a\<lparr>next_segment_id := n\<rparr>))"
definition observe_text_space_id :: "u32 observation" where
  "observe_text_space_id a i =
     rbind (observe_id (next_text_space_id a) i) (\<lambda>n. Inr (a\<lparr>next_text_space_id := n\<rparr>))"
definition observe_analyzer_id :: "u32 observation" where
  "observe_analyzer_id a i =
     rbind (observe_id (next_analyzer_id a) i) (\<lambda>n. Inr (a\<lparr>next_analyzer_id := n\<rparr>))"
definition observe_field_schema_id :: "u32 observation" where
  "observe_field_schema_id a i =
     rbind (observe_id (next_field_schema_id a) i) (\<lambda>n. Inr (a\<lparr>next_field_schema_id := n\<rparr>))"
definition observe_retrieval_profile_id :: "u32 observation" where
  "observe_retrieval_profile_id a i =
     rbind (observe_id (next_retrieval_profile_id a) i) (\<lambda>n.
       Inr (a\<lparr>next_retrieval_profile_id := n\<rparr>))"
definition observe_embedding_space_id :: "u32 observation" where
  "observe_embedding_space_id a i =
     rbind (observe_id (next_embedding_space_id a) i) (\<lambda>n.
       Inr (a\<lparr>next_embedding_space_id := n\<rparr>))"
definition observe_codec_id :: "u32 observation" where
  "observe_codec_id a i =
     rbind (observe_id (next_codec_id a) i) (\<lambda>n. Inr (a\<lparr>next_codec_id := n\<rparr>))"
definition observe_vector_id :: "u64 observation" where
  "observe_vector_id a i =
     rbind (observe_id (next_vector_id a) i) (\<lambda>n. Inr (a\<lparr>next_vector_id := n\<rparr>))"
definition observe_fusion_profile_id :: "u32 observation" where
  "observe_fusion_profile_id a i =
     rbind (observe_id (next_fusion_profile_id a) i) (\<lambda>n.
       Inr (a\<lparr>next_fusion_profile_id := n\<rparr>))"

subsection \<open>Facts\<close>

lemma next_id_Inr: "next_id i = Inr n \<Longrightarrow> unat n = Suc (unat i)"
  by (auto simp: next_id_def dest: checked_add_unat)

lemma take_id_Inr: "take_id n = Inr (i, n') \<Longrightarrow> i = n \<and> 0 < unat n \<and> unat n' = Suc (unat i)"
  by (auto simp: take_id_def validate_next_def rbind_Inr_iff next_id_Inr unat_gt_0 split: if_splits)

lemma observe_id_Inr:
  "observe_id n i = Inr n' \<Longrightarrow> unat n' = max (unat n) (Suc (unat i)) \<and> 0 < unat i"
  by (auto simp: observe_id_def rbind_Inr_iff word_less_nat_alt next_id_Inr unat_gt_0 max_def
      split: if_splits)

text \<open>Exhaustion is an error, never a wrap-around.\<close>
lemma take_id_exhausted: "take_id (- 1 :: 'a::len word) = Inl (Format ''id space exhausted'')"
proof -
  have "\<not> unat (- 1 :: 'a word) + unat (1 :: 'a word) < 2 ^ LENGTH('a)"
    by (simp add: unsigned_minus_1_eq_mask mask_eq_exp_minus_1)
  then show ?thesis
    by (simp add: take_id_def validate_next_def next_id_def checked_add_def)
qed

subsection \<open>The interface of an id source\<close>

datatype 'i id_op = Take | Observe 'i

text \<open>A run of allocations and observations; the ids handed out, in order.\<close>
fun run_ids :: "('s \<Rightarrow> ('i \<times> 's) result) \<Rightarrow> ('s \<Rightarrow> 'i \<Rightarrow> 's result) \<Rightarrow> 'i id_op list \<Rightarrow> 's \<Rightarrow>
    ('i list \<times> 's) result" where
  "run_ids alloc obs [] s = Inr ([], s)"
| "run_ids alloc obs (Take # ops) s =
     rbind (alloc s) (\<lambda>(i, s'). rbind (run_ids alloc obs ops s') (\<lambda>(ids, s''). Inr (i # ids, s'')))"
| "run_ids alloc obs (Observe i # ops) s = rbind (obs s i) (run_ids alloc obs ops)"

locale id_source =
  fixes alloc :: "'s \<Rightarrow> ('a::len word \<times> 's) result"
    and obs :: "'s \<Rightarrow> 'a word \<Rightarrow> 's result"
    and nxt :: "'s \<Rightarrow> nat"
  assumes alloc_Inr: "alloc s = Inr (i, s') \<Longrightarrow> unat i = nxt s \<and> 0 < nxt s \<and> nxt s' = Suc (nxt s)"
    and obs_Inr: "obs s i = Inr s' \<Longrightarrow> nxt s' = max (nxt s) (Suc (unat i))"
begin

lemma run_ids_spec:
  "run_ids alloc obs ops s = Inr (ids, s') \<Longrightarrow>
   sorted_wrt (<) (map unat ids) \<and> (\<forall>i\<in>set ids. nxt s \<le> unat i \<and> unat i < nxt s') \<and> nxt s \<le> nxt s'"
proof (induction ops arbitrary: s ids)
  case Nil
  then show ?case by simp
next
  case (Cons op ops)
  show ?case
  proof (cases op)
    case Take
    with Cons.prems obtain i s1 js where a: "alloc s = Inr (i, s1)"
      and r: "run_ids alloc obs ops s1 = Inr (js, s')" and ids: "ids = i # js"
      by (auto simp: rbind_Inr_iff)
    from alloc_Inr [OF a] Cons.IH [OF r] show ?thesis by (auto simp: ids)
  next
    case (Observe j)
    with Cons.prems obtain s1 where o: "obs s j = Inr s1"
      and r: "run_ids alloc obs ops s1 = Inr (ids, s')"
      by (auto simp: rbind_Inr_iff)
    from obs_Inr [OF o] Cons.IH [OF r] show ?thesis by auto
  qed
qed

lemma run_ids_distinct: "run_ids alloc obs ops s = Inr (ids, s') \<Longrightarrow> distinct ids"
  using run_ids_spec [of ops s ids s'] by (auto simp: strict_sorted_iff distinct_map)

text \<open>An id seen on disk is never handed out afterwards.\<close>
lemma observed_not_taken:
  assumes "run_ids alloc obs (Observe j # ops) s = Inr (ids, s')"
  shows "j \<notin> set ids"
proof -
  from assms obtain s1 where "obs s j = Inr s1" and r: "run_ids alloc obs ops s1 = Inr (ids, s')"
    by (auto simp: rbind_Inr_iff)
  then have "Suc (unat j) \<le> nxt s1" using obs_Inr by simp
  then show ?thesis using run_ids_spec [OF r] by fastforce
qed

end

lemmas allocator_defs =
  allocate_collection_id_def observe_collection_id_def
  allocate_frame_id_def observe_frame_id_def
  allocate_text_space_id_def observe_text_space_id_def
  allocate_analyzer_id_def observe_analyzer_id_def
  allocate_field_schema_id_def observe_field_schema_id_def
  allocate_retrieval_profile_id_def observe_retrieval_profile_id_def
  allocate_embedding_space_id_def observe_embedding_space_id_def
  allocate_codec_id_def observe_codec_id_def
  allocate_vector_id_def observe_vector_id_def
  allocate_segment_id_def observe_segment_id_def
  allocate_fusion_profile_id_def observe_fusion_profile_id_def

interpretation collection_ids: id_source allocate_collection_id observe_collection_id "\<lambda>a. unat (next_collection_id a)"
  by unfold_locales (auto simp: allocator_defs rbind_Inr_iff dest!: take_id_Inr observe_id_Inr)

interpretation frame_ids: id_source allocate_frame_id observe_frame_id "\<lambda>a. unat (next_frame_id a)"
  by unfold_locales (auto simp: allocator_defs rbind_Inr_iff dest!: take_id_Inr observe_id_Inr)

interpretation text_space_ids: id_source allocate_text_space_id observe_text_space_id "\<lambda>a. unat (next_text_space_id a)"
  by unfold_locales (auto simp: allocator_defs rbind_Inr_iff dest!: take_id_Inr observe_id_Inr)

interpretation analyzer_ids: id_source allocate_analyzer_id observe_analyzer_id "\<lambda>a. unat (next_analyzer_id a)"
  by unfold_locales (auto simp: allocator_defs rbind_Inr_iff dest!: take_id_Inr observe_id_Inr)

interpretation field_schema_ids: id_source allocate_field_schema_id observe_field_schema_id "\<lambda>a. unat (next_field_schema_id a)"
  by unfold_locales (auto simp: allocator_defs rbind_Inr_iff dest!: take_id_Inr observe_id_Inr)

interpretation retrieval_profile_ids: id_source allocate_retrieval_profile_id observe_retrieval_profile_id "\<lambda>a. unat (next_retrieval_profile_id a)"
  by unfold_locales (auto simp: allocator_defs rbind_Inr_iff dest!: take_id_Inr observe_id_Inr)

interpretation embedding_space_ids: id_source allocate_embedding_space_id observe_embedding_space_id "\<lambda>a. unat (next_embedding_space_id a)"
  by unfold_locales (auto simp: allocator_defs rbind_Inr_iff dest!: take_id_Inr observe_id_Inr)

interpretation codec_ids: id_source allocate_codec_id observe_codec_id "\<lambda>a. unat (next_codec_id a)"
  by unfold_locales (auto simp: allocator_defs rbind_Inr_iff dest!: take_id_Inr observe_id_Inr)

interpretation vector_ids: id_source allocate_vector_id observe_vector_id "\<lambda>a. unat (next_vector_id a)"
  by unfold_locales (auto simp: allocator_defs rbind_Inr_iff dest!: take_id_Inr observe_id_Inr)

interpretation segment_ids: id_source allocate_segment_id observe_segment_id "\<lambda>a. unat (next_segment_id a)"
  by unfold_locales (auto simp: allocator_defs rbind_Inr_iff dest!: take_id_Inr observe_id_Inr)

interpretation fusion_profile_ids: id_source allocate_fusion_profile_id observe_fusion_profile_id "\<lambda>a. unat (next_fusion_profile_id a)"
  by unfold_locales (auto simp: allocator_defs rbind_Inr_iff dest!: take_id_Inr observe_id_Inr)

end
