(* ===== verification/SegmentIo.thy ===== *)
theory SegmentIo imports Registry begin

text \<open>
  Appending segments to the file, reading them back, and the in-memory segment registry
  (src/file/segment_io.rs). The zstd decoder of the crate \<open>zstd\<close> is a parameter.
  The lemmas: an appended segment reads back as its payload; appending never disturbs a
  segment that is already in the file; whatever a read returns hashes to the checksum of
  its reference; registration keeps the catalog sorted and in step with the id map.

  Lengths and file offsets are \<open>u64\<close> in the references; sums that the source leaves
  unchecked wrap as they do in a release build. An allocation of \<open>2^63\<close> bytes or more is
  the unwinding panic "capacity overflow" of the standard library.
\<close>

section \<open>Appending\<close>

definition segment_ref_at_end ::
  "hash \<Rightarrow> storage \<Rightarrow> segment_id \<Rightarrow> segment_type \<Rightarrow> u32 \<Rightarrow> bytes \<Rightarrow> segment_ref" where
  "segment_ref_at_end h f sid ty item_count payload =
     (let s = segment_header_new h ty sid item_count CNone (of_nat (length payload)) payload in
      \<lparr>sr_segment_id = sh_segment_id s, sr_offset = of_nat (length f),
       sr_length = of_nat SEGMENT_HEADER_SIZE + of_nat (length payload),
       sr_checksum = sh_payload_checksum s\<rparr>)"

definition append_segment_at_end ::
  "hash \<Rightarrow> storage \<Rightarrow> segment_id \<Rightarrow> segment_type \<Rightarrow> u32 \<Rightarrow> bytes \<Rightarrow> segment_ref \<times> storage" where
  "append_segment_at_end h f sid ty item_count payload =
     (let root = segment_ref_at_end h f sid ty item_count payload;
          s = segment_header_new h ty sid item_count CNone (of_nat (length payload)) payload;
          hdr = segment_header_encode s;
          f1 = write_all_at (unat (sr_offset root)) hdr f;
          f2 = write_all_at (unat (sr_offset root) + length hdr) payload f1
      in (root, f2))"

definition append_compressed_segment_at_end ::
  "hash \<Rightarrow> storage \<Rightarrow> segment_id \<Rightarrow> segment_type \<Rightarrow> u32 \<Rightarrow> bytes \<Rightarrow> u64 \<Rightarrow> compression \<Rightarrow>
     (segment_ref \<times> storage) result" where
  "append_compressed_segment_at_end h f sid ty item_count wire_payload ulen cmp =
     (if cmp = CNone
      then Inl (Format ''append_compressed_segment_at_end: compression must not be None'')
      else let offset = length f;
          s = segment_header_new h ty sid item_count cmp ulen wire_payload;
          hdr = segment_header_encode s;
          f1 = write_all_at offset hdr f;
          f2 = write_all_at (offset + length hdr) wire_payload f1
        in Inr (\<lparr>sr_segment_id = sh_segment_id s, sr_offset = of_nat offset,
                 sr_length = of_nat SEGMENT_HEADER_SIZE + of_nat (length wire_payload),
                 sr_checksum = sh_payload_checksum s\<rparr>, f2))"

text \<open>The catalog entry of a freshly written segment.\<close>
definition compressed_segment_catalog_entry ::
  "hash \<Rightarrow> segment_id \<Rightarrow> segment_type \<Rightarrow> u32 \<Rightarrow> bytes \<Rightarrow> u64 \<Rightarrow> compression \<Rightarrow> segment_ref \<Rightarrow>
     segment_catalog_entry result" where
  "compressed_segment_catalog_entry h sid ty item_count wire_payload ulen cmp root =
     rbind (ok_or (checked_sub (sr_length root) (of_nat SEGMENT_HEADER_SIZE))
              (Format ''segment root length is smaller than header'')) (\<lambda>payload_length.
       let checksum = (if wire_payload = [] then sr_checksum root else h wire_payload);
           e = \<lparr>se_segment_id = sid, se_segment_type = ty, se_root = root,
                se_segment_version = SEGMENT_VERSION, se_flags = 0, se_item_count = item_count,
                se_compression = cmp, se_uncompressed_length = ulen,
                se_payload_length = payload_length, se_status = Live\<rparr>
       in if sr_checksum (se_root e) \<noteq> checksum
          then Inl (Integrity ''compressed segment catalog checksum mismatch'')
          else rbind (entry_validate e) (\<lambda>_. Inr e))"

definition catalog_entry_of ::
  "hash \<Rightarrow> segment_id \<Rightarrow> segment_type \<Rightarrow> u32 \<Rightarrow> bytes \<Rightarrow> segment_ref \<Rightarrow>
     segment_catalog_entry result" where
  "catalog_entry_of h sid ty item_count payload root =
     rbind (ok_or (checked_sub (sr_length root) (of_nat SEGMENT_HEADER_SIZE))
              (Format ''segment root length is smaller than header'')) (\<lambda>payload_length.
       let checksum = (if payload = [] then sr_checksum root else h payload);
           e = \<lparr>se_segment_id = sid, se_segment_type = ty, se_root = root,
                se_segment_version = SEGMENT_VERSION, se_flags = 0, se_item_count = item_count,
                se_compression = CNone, se_uncompressed_length = payload_length,
                se_payload_length = payload_length, se_status = Live\<rparr>
       in if sr_checksum (se_root e) \<noteq> checksum
          then Inl (Integrity ''segment catalog checksum mismatch'')
          else rbind (entry_validate e) (\<lambda>_. Inr e))"

section \<open>The in-memory registry\<close>

record segment_registry =
  rg_catalog :: "segment_catalog_entry list"
  rg_by_id :: "segment_id \<rightharpoonup> segment_ref"
  rg_loaded :: bool

text \<open>The registry with the ids the next commit must write.\<close>
type_synonym segment_registry_mut = "segment_registry \<times> segment_id set"

definition register_segment ::
  "segment_registry_mut \<Rightarrow> segment_catalog_entry \<Rightarrow> segment_registry_mut" where
  "register_segment = (\<lambda>(reg, dirty_ids) e.
     (reg\<lparr>rg_catalog := upsert se_segment_id e (rg_catalog reg),
          rg_by_id := (rg_by_id reg)(se_segment_id e \<mapsto> se_root e)\<rparr>,
      insert (se_segment_id e) dirty_ids))"

definition build_segment_map :: "segment_catalog_entry list \<Rightarrow> segment_id \<rightharpoonup> segment_ref" where
  "build_segment_map catalog =
     foldl (\<lambda>m e. m(se_segment_id e \<mapsto> se_root e)) Map.empty catalog"

definition legacy_offset_segment_ref :: "segment_id \<Rightarrow> segment_ref" where
  "legacy_offset_segment_ref sid =
     \<lparr>sr_segment_id = sid, sr_offset = sid, sr_length = 0, sr_checksum = replicate 32 0\<rparr>"

definition append_registered_segment ::
  "hash \<Rightarrow> storage \<Rightarrow> id_allocator \<Rightarrow> segment_registry_mut \<Rightarrow> segment_type \<Rightarrow> u32 \<Rightarrow> bytes \<Rightarrow>
     (segment_ref \<times> storage \<times> id_allocator \<times> segment_registry_mut) result" where
  "append_registered_segment h f a segs ty item_count payload =
     rbind (allocate_segment_id a) (\<lambda>(sid, a').
       let (root, f') = append_segment_at_end h f sid ty item_count payload in
       rbind (catalog_entry_of h sid ty item_count payload root) (\<lambda>e.
         Inr (root, f', a', register_segment segs e)))"

section \<open>Reading\<close>

text \<open>\<open>zstd::decode_all\<close>; \<open>None\<close> is a decoding error.\<close>
type_synonym zstd_decode = "bytes \<Rightarrow> bytes option"

definition alloc_vec :: "u64 \<Rightarrow> unit result" where
  "alloc_vec n = (if unat n < 2 ^ 63 then Inr () else Inl (Panic ''capacity overflow''))"

definition read_segment ::
  "hash \<Rightarrow> zstd_decode \<Rightarrow> storage \<Rightarrow> segment_ref \<Rightarrow> segment_type option \<Rightarrow>
     (segment_header \<times> bytes) result" where
  "read_segment h unz f root expected =
     rbind (read_exact_at (unat (sr_offset root)) SEGMENT_HEADER_SIZE f) (\<lambda>header_bytes.
     rbind (segment_header_decode header_bytes) (\<lambda>s.
     if sh_segment_id s \<noteq> sr_segment_id root then Inl (Integrity ''segment id mismatch'')
     else if sh_payload_checksum s \<noteq> sr_checksum root
       then Inl (Integrity ''segment root checksum mismatch'')
     else if sr_length root \<noteq> of_nat SEGMENT_HEADER_SIZE + sh_payload_length s
       then Inl (Integrity ''segment root length mismatch'')
     else if (case expected of Some t \<Rightarrow> sh_segment_type s \<noteq> t | None \<Rightarrow> False)
       then Inl (Integrity ''segment type mismatch'')
     else rbind (alloc_vec (sh_payload_length s)) (\<lambda>_.
     rbind (read_exact_at (unat (sr_offset root) + SEGMENT_HEADER_SIZE)
              (unat (sh_payload_length s)) f) (\<lambda>payload.
     rbind (segment_validate_payload h s payload) (\<lambda>_.
     rbind (ensure_decodable (sh_compression s)) (\<lambda>_.
     if sh_compression s = Zstd then
       rbind (ok_or (unz payload) (Format ''zstd decode failed'')) (\<lambda>decompressed.
         if length decompressed \<noteq> unat (sh_uncompressed_length s)
         then Inl (Integrity ''zstd decompressed length does not match header.uncompressed_length'')
         else Inr (s, decompressed))
     else if sh_compression s \<noteq> CNone then Inl (Unsupported ''segment compression not supported'')
     else Inr (s, payload)))))))"

definition read_segment_payload ::
  "hash \<Rightarrow> zstd_decode \<Rightarrow> storage \<Rightarrow> segment_ref \<Rightarrow> bytes result" where
  "read_segment_payload h unz f root = rbind (read_segment h unz f root None) (\<lambda>(_, p). Inr p)"

definition read_segment_payload_typed ::
  "hash \<Rightarrow> zstd_decode \<Rightarrow> storage \<Rightarrow> segment_ref \<Rightarrow> segment_type \<Rightarrow> bytes result" where
  "read_segment_payload_typed h unz f root expected =
     rbind (read_segment h unz f root (Some expected)) (\<lambda>(_, p). Inr p)"

text \<open>\<open>verified\<close> is the set of segments whose wire bytes were hashed since open.\<close>
definition verify_payload_wire_bytes ::
  "hash \<Rightarrow> segment_id \<Rightarrow> checksum \<Rightarrow> bytes \<Rightarrow> segment_id set \<Rightarrow> segment_id set result" where
  "verify_payload_wire_bytes h sid expected wire verified =
     (if expected = replicate 32 0 then Inr verified
      else if sid \<in> verified then Inr verified
      else if h wire \<noteq> expected
        then Inl (Integrity ''payload segment wire bytes checksum mismatch'')
      else Inr (insert sid verified))"

definition read_payload_ref ::
  "hash \<Rightarrow> zstd_decode \<Rightarrow> storage \<Rightarrow> segment_ref \<Rightarrow> payload_ref \<Rightarrow> segment_id set \<Rightarrow>
     (bytes \<times> segment_id set) result" where
  "read_payload_ref h unz f segment pref verified =
     rbind (read_exact_at (unat (sr_offset segment)) SEGMENT_HEADER_SIZE f) (\<lambda>header_bytes.
     rbind (segment_header_decode header_bytes) (\<lambda>s.
     if sh_segment_id s \<noteq> pr_segment_id pref then Inl (Integrity ''payload segment id mismatch'')
     else if sh_segment_type s \<noteq> Payload
       then Inl (Integrity ''payload ref points to non-payload segment'')
     else if sr_checksum segment \<noteq> replicate 32 0 \<and> sr_checksum segment \<noteq> sh_payload_checksum s
       then Inl (Integrity ''payload segment checksum mismatch'')
     else rbind (if sr_length segment \<noteq> 0 then
            rbind (ok_or (checked_sub (sr_length segment) (of_nat SEGMENT_HEADER_SIZE))
                    (Integrity ''payload segment ref shorter than header'')) (\<lambda>expected.
              if sh_payload_length s \<noteq> expected
              then Inl (Integrity ''payload segment length disagrees with registry'')
              else Inr ())
          else Inr ()) (\<lambda>_.
     rbind (ok_or (Option.bind (checked_add (sr_offset segment) (of_nat SEGMENT_HEADER_SIZE))
                     (\<lambda>v. checked_add v (sh_payload_length s)))
              (Format ''payload segment extent overflow'')) (\<lambda>payload_end.
     if length f < unat payload_end
       then Inl (Integrity ''payload segment length exceeds file size'')
     else rbind (ensure_decodable (sh_compression s)) (\<lambda>_.
     rbind (ok_or (checked_add (pr_bytes_offset pref) (pr_bytes_length pref))
              (Format ''payload ref range overflow'')) (\<lambda>ref_end.
     if sh_compression s = Zstd then
       (if sh_uncompressed_length s < ref_end
        then Inl (Integrity ''payload ref exceeds segment uncompressed length'')
        else rbind (read_exact_at (unat (sr_offset segment) + SEGMENT_HEADER_SIZE)
                      (unat (sh_payload_length s)) f) (\<lambda>compressed.
          rbind (verify_payload_wire_bytes h (sh_segment_id s) (sh_payload_checksum s)
                   compressed verified) (\<lambda>verified'.
          rbind (ok_or (unz compressed) (Format ''zstd decode failed'')) (\<lambda>decompressed.
          if length decompressed \<noteq> unat (sh_uncompressed_length s)
          then Inl (Integrity ''zstd decompressed length does not match header.uncompressed_length'')
          else Inr (slice (unat (pr_bytes_offset pref)) (unat (pr_bytes_length pref)) decompressed,
                    verified')))))
     else if sh_compression s \<noteq> CNone
       then Inl (Unsupported ''payload segment compression not supported'')
     else if sh_payload_length s < ref_end
       then Inl (Integrity ''payload ref exceeds segment length'')
     else if sh_segment_id s \<notin> verified then
       rbind (read_exact_at (unat (sr_offset segment) + SEGMENT_HEADER_SIZE)
                (unat (sh_payload_length s)) f) (\<lambda>wire.
       rbind (verify_payload_wire_bytes h (sh_segment_id s) (sh_payload_checksum s) wire verified)
         (\<lambda>verified'. Inr (slice (unat (pr_bytes_offset pref)) (unat (pr_bytes_length pref)) wire,
                          verified')))
     else rbind (read_exact_at (unat (sr_offset segment) + SEGMENT_HEADER_SIZE +
                    unat (pr_bytes_offset pref)) (unat (pr_bytes_length pref)) f)
       (\<lambda>payload. Inr (payload, verified))))))))"

section \<open>Facts\<close>

lemma digest32D [simp]: "digest32 h \<Longrightarrow> length (h bs) = 32"
  by (simp add: digest32_def)

text \<open>Files and buffers stay below \<open>2^63\<close> bytes, the range of \<open>off_t\<close> and \<open>isize\<close>.\<close>
definition fits :: "nat \<Rightarrow> bool" where
  "fits n \<longleftrightarrow> n < 2 ^ 63"

lemma fits_u64 [simp]: "fits n \<Longrightarrow> unat (of_nat n :: u64) = n"
  by (simp add: fits_def unat_of_nat_eq)

lemma fits_mono: "fits n \<Longrightarrow> m \<le> n \<Longrightarrow> fits m"
  by (simp add: fits_def)

lemma alloc_vec_fits [simp]: "fits n \<Longrightarrow> alloc_vec (of_nat n) = Inr ()"
  by (simp add: alloc_vec_def) (simp add: fits_def)

lemma segment_header_new_wf [simp]:
  "digest32 h \<Longrightarrow> segment_header_wf (segment_header_new h ty sid n cmp ulen p)"
  by (simp add: segment_header_wf_def segment_header_new_def)

lemma segment_header_new_sel [simp]:
  "sh_segment_version (segment_header_new h ty sid n cmp ulen p) = SEGMENT_VERSION"
  "sh_segment_type (segment_header_new h ty sid n cmp ulen p) = ty"
  "sh_segment_id (segment_header_new h ty sid n cmp ulen p) = sid"
  "sh_compression (segment_header_new h ty sid n cmp ulen p) = cmp"
  "sh_uncompressed_length (segment_header_new h ty sid n cmp ulen p) = ulen"
  "sh_payload_length (segment_header_new h ty sid n cmp ulen p) = of_nat (length p)"
  "sh_payload_checksum (segment_header_new h ty sid n cmp ulen p) = h p"
  by (simp_all add: segment_header_new_def)

lemma append_segment_at_end_eq:
  assumes "digest32 h" and "fits (length f)"
  shows "append_segment_at_end h f sid ty n p =
    (segment_ref_at_end h f sid ty n p,
     f @ segment_header_encode (segment_header_new h ty sid n CNone (of_nat (length p)) p) @ p)"
proof -
  let ?hdr = "segment_header_encode (segment_header_new h ty sid n CNone (of_nat (length p)) p)"
  have "write_all_at (length f + length ?hdr) p (f @ ?hdr) = (f @ ?hdr) @ p"
    using write_all_at_end [of "f @ ?hdr" p] by simp
  then show ?thesis
    using assms by (simp add: append_segment_at_end_def segment_ref_at_end_def Let_def)
qed

text \<open>A well-formed segment in the file is read as its wire bytes, decompressed.\<close>
lemma read_segment_there:
  assumes h: "digest32 h" and s: "s = segment_header_new h ty sid n cmp ulen p"
    and f: "fits (length f)" and p: "fits (length p)"
    and root: "root = \<lparr>sr_segment_id = sid, sr_offset = of_nat (length f),
      sr_length = of_nat SEGMENT_HEADER_SIZE + of_nat (length p), sr_checksum = h p\<rparr>"
    and ex: "ex \<in> {None, Some ty}"
    and body: "cmp = CNone \<and> ulen = of_nat (length p) \<and> body = p \<or>
               cmp = Zstd \<and> unz p = Some body \<and> unat ulen = length body"
  shows "read_segment h unz (f @ segment_header_encode s @ p @ g) root ex = Inr (s, body)"
proof -
  let ?F = "f @ segment_header_encode s @ p @ g"
  have wf: "segment_header_wf s" by (simp add: s h)
  have val: "segment_validate_header s = Inr ()"
    using body by (auto simp: segment_validate_header_def s)
  have r1: "read_exact_at (length f) SEGMENT_HEADER_SIZE ?F = Inr (segment_header_encode s)"
    by (rule read_at_end) (simp add: wf)
  have r2: "read_exact_at (length f + SEGMENT_HEADER_SIZE) (length p) ?F = Inr p"
    using read_at_end [of "length p" p "f @ segment_header_encode s" g] by (simp add: wf)
  have pl: "segment_validate_payload h s p = Inr ()"
    using val p by (simp add: segment_validate_payload_def s)
  have rt: "segment_header_decode (segment_header_encode s) = Inr s"
    by (rule segment_header_roundtrip [OF wf _ val]) (simp add: s)
  have sel: "sh_segment_id s = sid" "sh_payload_checksum s = h p" "sh_segment_type s = ty"
    "sh_payload_length s = of_nat (length p)" "sh_compression s = cmp"
    "sh_uncompressed_length s = ulen"
    by (simp_all add: s)
  have ty: "(case ex of Some t \<Rightarrow> ty \<noteq> t | None \<Rightarrow> False) = False"
    using ex by auto
  have "read_segment h unz ?F root ex =
    rbind (ensure_decodable cmp) (\<lambda>_.
     if cmp = Zstd then
       rbind (ok_or (unz p) (Format ''zstd decode failed'')) (\<lambda>decompressed.
         if length decompressed \<noteq> unat ulen
         then Inl (Integrity ''zstd decompressed length does not match header.uncompressed_length'')
         else Inr (s, decompressed))
     else if cmp \<noteq> CNone then Inl (Unsupported ''segment compression not supported'')
     else Inr (s, p))"
    unfolding read_segment_def root
    using f p by (simp only: segment_ref.simps r1 r2 rt pl sel ty fits_u64 alloc_vec_fits rbind_simps
        simp_thms if_False)
  then show ?thesis using body by (auto simp: ensure_decodable_def)
qed

theorem read_append_segment:
  assumes "digest32 h" and "fits (length f)" and "fits (length p)"
    and "append_segment_at_end h f sid ty n p = (root, f')"
  shows "read_segment h unz f' root (Some ty) =
      Inr (segment_header_new h ty sid n CNone (of_nat (length p)) p, p)"
proof -
  have f': "f' = f @ segment_header_encode (segment_header_new h ty sid n CNone (of_nat (length p)) p) @ p @ []"
    and root: "root = segment_ref_at_end h f sid ty n p"
    using assms append_segment_at_end_eq by auto
  show ?thesis
    unfolding f'
    by (rule read_segment_there [OF assms(1) refl assms(2,3)])
      (simp_all add: root segment_ref_at_end_def Let_def)
qed

lemma read_segment_steps:
  assumes "read_segment h unz f root ex = Inr (s, body)"
  obtains hb s' w u1 u2 u3 where
    "read_exact_at (unat (sr_offset root)) SEGMENT_HEADER_SIZE f = Inr hb"
    "segment_header_decode hb = Inr s'"
    "\<not> sh_segment_id s' \<noteq> sr_segment_id root"
    "\<not> sh_payload_checksum s' \<noteq> sr_checksum root"
    "\<not> sr_length root \<noteq> of_nat SEGMENT_HEADER_SIZE + sh_payload_length s'"
    "\<not> (case ex of None \<Rightarrow> False | Some t \<Rightarrow> sh_segment_type s' \<noteq> t)"
    "alloc_vec (sh_payload_length s') = Inr u1"
    "read_exact_at (unat (sr_offset root) + SEGMENT_HEADER_SIZE) (unat (sh_payload_length s')) f = Inr w"
    "segment_validate_payload h s' w = Inr u2"
    "ensure_decodable (sh_compression s') = Inr u3"
    "(if sh_compression s' = Zstd then
       rbind (ok_or (unz w) (Format ''zstd decode failed'')) (\<lambda>decompressed.
         if length decompressed \<noteq> unat (sh_uncompressed_length s')
         then Inl (Integrity ''zstd decompressed length does not match header.uncompressed_length'')
         else Inr (s', decompressed))
     else if sh_compression s' \<noteq> CNone then Inl (Unsupported ''segment compression not supported'')
     else Inr (s', w)) = Inr (s, body)"
  using assms
  by (simp only: read_segment_def result_Inr_iff) (elim exE conjE, rule that, assumption+)

text \<open>A segment of the file stays readable, unchanged, whatever is appended.\<close>
lemma read_segment_append:
  assumes "read_segment h unz f root ex = Inr r"
  shows "read_segment h unz (f @ g) root ex = Inr r"
proof -
  obtain s body where r: "r = (s, body)" by (cases r)
  from assms show ?thesis
    unfolding r
    by (rule read_segment_steps)
      (simp only: read_segment_def read_exact_at_append rbind_simps if_False not_not simp_thms)
qed

lemma segment_validate_payload_Inr:
  "segment_validate_payload h s w = Inr () \<longleftrightarrow>
     segment_validate_header s = Inr () \<and> unat (sh_payload_length s) = length w \<and>
     sh_payload_checksum s = h w"
  by (auto simp: segment_validate_payload_def rbind_Inr_iff)

text \<open>What a read returns is backed by wire bytes that hash to the reference's checksum.\<close>
lemma read_segment_Inr:
  assumes "read_segment h unz f root ex = Inr (s, body)"
  shows "\<exists>wire. unat (sr_offset root) + SEGMENT_HEADER_SIZE + length wire \<le> length f \<and>
    wire = slice (unat (sr_offset root) + SEGMENT_HEADER_SIZE) (length wire) f \<and>
    h wire = sr_checksum root \<and> sh_segment_id s = sr_segment_id root \<and>
    (case sh_compression s of CNone \<Rightarrow> body = wire | Zstd \<Rightarrow> unz wire = Some body | Lz4 \<Rightarrow> False) \<and>
    (case ex of None \<Rightarrow> True | Some t \<Rightarrow> sh_segment_type s = t) \<and>
    length body = unat (sh_uncompressed_length s)"
  using assms
proof (rule read_segment_steps)
  fix s' w and u2 :: unit
  assume ids: "\<not> sh_segment_id s' \<noteq> sr_segment_id root"
    "\<not> sh_payload_checksum s' \<noteq> sr_checksum root"
    and ex: "\<not> (case ex of None \<Rightarrow> False | Some t \<Rightarrow> sh_segment_type s' \<noteq> t)"
    and w: "read_exact_at (unat (sr_offset root) + SEGMENT_HEADER_SIZE) (unat (sh_payload_length s')) f = Inr w"
    and v: "segment_validate_payload h s' w = Inr u2"
    and r: "(if sh_compression s' = Zstd then
       rbind (ok_or (unz w) (Format ''zstd decode failed'')) (\<lambda>decompressed.
         if length decompressed \<noteq> unat (sh_uncompressed_length s')
         then Inl (Integrity ''zstd decompressed length does not match header.uncompressed_length'')
         else Inr (s', decompressed))
     else if sh_compression s' \<noteq> CNone then Inl (Unsupported ''segment compression not supported'')
     else Inr (s', w)) = Inr (s, body)"
  have v': "segment_validate_header s' = Inr ()" "unat (sh_payload_length s') = length w"
    "sh_payload_checksum s' = h w"
    using v by (simp_all add: segment_validate_payload_Inr)
  have s: "s = s'" using r by (auto simp: result_Inr_iff split: if_splits)
  have "(case sh_compression s of CNone \<Rightarrow> body = w | Zstd \<Rightarrow> unz w = Some body | Lz4 \<Rightarrow> False) \<and>
      length body = unat (sh_uncompressed_length s)"
    using r v' by (cases "sh_compression s'") (auto simp: s result_Inr_iff segment_validate_header_def)
  moreover have "case ex of None \<Rightarrow> True | Some t \<Rightarrow> sh_segment_type s = t"
    using ex by (cases ex) (simp_all add: s)
  ultimately show ?thesis
    using w v' ids unfolding s read_exact_at_Inr by (intro exI [of _ w]) simp
qed

subsection \<open>The registry invariant\<close>

definition registry_ok :: "segment_registry \<Rightarrow> bool" where
  "registry_ok reg \<longleftrightarrow> strict_by se_segment_id (rg_catalog reg) \<and>
     (\<forall>k. rg_by_id reg k = map_option se_root (lookup_by se_segment_id k (rg_catalog reg)))"

text \<open>Every live entry is valid and its segment is in the file, with the registered type.\<close>
definition registry_backed :: "hash \<Rightarrow> zstd_decode \<Rightarrow> storage \<Rightarrow> segment_registry \<Rightarrow> bool" where
  "registry_backed h unz f reg \<longleftrightarrow> (\<forall>e\<in>set (rg_catalog reg).
     entry_validate e = Inr () \<and>
     is_ok (read_segment h unz f (se_root e) (Some (se_segment_type e))))"

interpretation registry_table: keyed_table se_segment_id "[]" "upsert se_segment_id"
    "lookup_by se_segment_id" "strict_by se_segment_id"
  by unfold_locales (auto simp: sorted_table_laws)

lemma register_segment_ok:
  assumes "registry_ok reg"
  shows "registry_ok (fst (register_segment (reg, dirty) e))"
    and "rg_by_id (fst (register_segment (reg, dirty) e)) =
           (rg_by_id reg)(se_segment_id e \<mapsto> se_root e)"
    and "snd (register_segment (reg, dirty) e) = insert (se_segment_id e) dirty"
  using assms
  by (auto simp: register_segment_def registry_ok_def strict_by_upsert lookup_by_upsert)

lemma build_segment_map_registered:
  "strict_by se_segment_id catalog \<Longrightarrow>
   build_segment_map catalog k = map_option se_root (lookup_by se_segment_id k catalog)"
proof (induction catalog rule: rev_induct)
  case Nil
  then show ?case by (simp add: build_segment_map_def table_empty)
next
  case (snoc e es)
  then have s: "strict_by se_segment_id es" and gt: "\<forall>x\<in>set es. se_segment_id x < se_segment_id e"
    by (auto simp: strict_by_append)
  have "build_segment_map (es @ [e]) = (build_segment_map es)(se_segment_id e \<mapsto> se_root e)"
    by (simp add: build_segment_map_def)
  then show ?case
    using snoc.IH [OF s] lookup_by_upsert [OF s, of k e] by (simp add: upsert_append [OF s gt])
qed

text \<open>Loading a catalog builds a registry in step with it, as at open.\<close>
lemma loaded_registry_ok:
  "strict_by se_segment_id catalog \<Longrightarrow>
   registry_ok \<lparr>rg_catalog = catalog, rg_by_id = build_segment_map catalog, rg_loaded = True\<rparr>"
  by (simp add: registry_ok_def build_segment_map_registered)

lemma set_upsert_subset: "strict_by key xs \<Longrightarrow> set (upsert key x xs) \<subseteq> insert x (set xs)"
  by (auto simp: set_upsert)

lemma registry_backed_append:
  "registry_backed h unz f reg \<Longrightarrow> registry_backed h unz (f @ g) reg"
  unfolding registry_backed_def is_ok_iff by (meson read_segment_append)

lemma catalog_entry_of_Inr:
  assumes "fits (SEGMENT_HEADER_SIZE + length p)" and "sid \<noteq> 0" and "digest32 h"
    and root: "root = segment_ref_at_end h f sid ty n p"
  shows "\<exists>e. catalog_entry_of h sid ty n p root = Inr e \<and> entry_validate e = Inr () \<and>
    se_segment_id e = sid \<and> se_root e = root \<and> se_segment_type e = ty"
proof -
  let ?n = "of_nat SEGMENT_HEADER_SIZE + of_nat (length p) :: u64"
  have n: "unat ?n = SEGMENT_HEADER_SIZE + length p"
    using fits_u64 [OF assms(1)] by simp
  have 76: "unat (of_nat SEGMENT_HEADER_SIZE :: u64) = SEGMENT_HEADER_SIZE"
    by (simp add: SEGMENT_HEADER_SIZE_def)
  then have le: "of_nat SEGMENT_HEADER_SIZE \<le> ?n" by (simp add: word_le_nat_alt n)
  have pl: "unat (of_nat (length p) :: u64) = length p"
    using assms(1) by (intro fits_u64) (erule fits_mono, simp)
  show ?thesis
    using assms(2) le
    by (auto simp: catalog_entry_of_def root segment_ref_at_end_def Let_def checked_sub_def
        entry_validate_Inr segment_header_new_def n pl result_Inr_iff)
qed

text \<open>
  Appending and registering a segment: the new reference reads back as the payload, every
  older segment is as before, and the registry stays sorted, in step with its map, backed
  by the file and below the allocator.
\<close>
lemma append_registered_segment_spec:
  assumes h: "digest32 h" and f: "fits (length f)" and p: "fits (SEGMENT_HEADER_SIZE + length p)"
    and ok: "registry_ok reg" and bk: "registry_backed h unz f reg"
    and lt: "\<forall>e\<in>set (rg_catalog reg). unat (se_segment_id e) < unat (next_segment_id a)"
    and app: "append_registered_segment h f a (reg, dirty) ty n p = Inr (root, f', a', reg', dirty')"
  shows "read_segment_payload_typed h unz f' root ty = Inr p"
    and "\<exists>tail. f' = f @ tail"
    and "registry_ok reg'" and "registry_backed h unz f' reg'"
    and "\<forall>e\<in>set (rg_catalog reg'). unat (se_segment_id e) < unat (next_segment_id a')"
    and "\<exists>e. rg_catalog reg' = rg_catalog reg @ [e] \<and> se_root e = root"
    and "rg_by_id reg' = (rg_by_id reg)(sr_segment_id root \<mapsto> root)"
    and "dirty' = insert (sr_segment_id root) dirty"
proof -
  have p': "fits (length p)" using p by (rule fits_mono) simp
  from app obtain sid a1 where al1: "allocate_segment_id a = Inr (sid, a1)"
    by (auto simp: append_registered_segment_def rbind_Inr_iff)
  obtain r f1 where ap1: "append_segment_at_end h f sid ty n p = (r, f1)" by fastforce
  have al: "allocate_segment_id a = Inr (sid, a')"
    and ap: "append_segment_at_end h f sid ty n p = (root, f')"
    using app by (auto simp: append_registered_segment_def rbind_Inr_iff al1 ap1)
  obtain e where ce: "catalog_entry_of h sid ty n p root = Inr e"
    and rs: "register_segment (reg, dirty) e = (reg', dirty')"
    using app by (auto simp: append_registered_segment_def rbind_Inr_iff al ap)
  have sid: "unat sid = unat (next_segment_id a)" "0 < unat sid"
      "unat (next_segment_id a') = Suc (unat sid)"
    using segment_ids.alloc_Inr [OF al] by auto
  then have sid0: "sid \<noteq> 0" by auto
  have root: "root = segment_ref_at_end h f sid ty n p"
    and f': "f' = f @ segment_header_encode (segment_header_new h ty sid n CNone (of_nat (length p)) p) @ p"
    using append_segment_at_end_eq [OF h f] ap by auto
  have e: "entry_validate e = Inr ()" "se_segment_id e = sid" "se_root e = root" "se_segment_type e = ty"
    using catalog_entry_of_Inr [OF p sid0 h root] ce by auto
  have rd: "read_segment h unz f' root (Some ty) =
      Inr (segment_header_new h ty sid n CNone (of_nat (length p)) p, p)"
    by (rule read_append_segment [OF h f p' ap])
  have cat: "strict_by se_segment_id (rg_catalog reg)" using ok by (simp add: registry_ok_def)
  have gt: "\<forall>x\<in>set (rg_catalog reg). se_segment_id x < se_segment_id e"
    using lt sid e by (simp add: word_less_nat_alt)
  have rg: "reg' = fst (register_segment (reg, dirty) e)" "dirty' = snd (register_segment (reg, dirty) e)"
    using rs by auto
  have cat': "rg_catalog reg' = rg_catalog reg @ [e]"
    by (simp add: rg register_segment_def upsert_append [OF cat gt])
  have sroot: "sr_segment_id root = sid" by (simp add: root segment_ref_at_end_def Let_def)
  show "read_segment_payload_typed h unz f' root ty = Inr p"
    by (simp add: read_segment_payload_typed_def rd)
  show "\<exists>tail. f' = f @ tail" by (simp add: f')
  show "registry_ok reg'" unfolding rg by (rule register_segment_ok [OF ok])
  have "registry_backed h unz f' reg" unfolding f' by (rule registry_backed_append [OF bk])
  then show "registry_backed h unz f' reg'"
    using e rd by (auto simp: registry_backed_def cat')
  show "\<forall>e\<in>set (rg_catalog reg'). unat (se_segment_id e) < unat (next_segment_id a')"
    using lt sid e by (auto simp: cat')
  show "\<exists>e. rg_catalog reg' = rg_catalog reg @ [e] \<and> se_root e = root"
    using cat' e by blast
  show "rg_by_id reg' = (rg_by_id reg)(sr_segment_id root \<mapsto> root)"
    unfolding rg register_segment_ok(2) [OF ok] by (simp add: e sroot)
  show "dirty' = insert (sr_segment_id root) dirty"
    unfolding rg register_segment_ok(3) [OF ok] by (simp add: e sroot)
qed

subsection \<open>Payload references\<close>

text \<open>
  A reference into an uncompressed payload segment of the file yields exactly the bytes it
  names, on the first read (which hashes the whole segment) and on every later one; a
  reference past the end of the segment is an error.
\<close>

lemma read_payload_ref_there:
  assumes h: "digest32 h" and s: "s = segment_header_new h Payload sid n CNone (of_nat (length p)) p"
    and F: "F = f @ segment_header_encode s @ p @ g" and fit: "fits (length F)"
    and root: "root = \<lparr>sr_segment_id = sid, sr_offset = of_nat (length f),
      sr_length = of_nat SEGMENT_HEADER_SIZE + of_nat (length p), sr_checksum = h p\<rparr>"
    and pref: "pr_segment_id pref = sid"
    and no_ovf: "unat (pr_bytes_offset pref) + unat (pr_bytes_length pref) < 2 ^ 64"
  shows "read_payload_ref h unz F root pref verified =
    (if unat (pr_bytes_offset pref) + unat (pr_bytes_length pref) \<le> length p
     then Inr (slice (unat (pr_bytes_offset pref)) (unat (pr_bytes_length pref)) p,
               if h p = replicate 32 0 then verified else insert sid verified)
     else Inl (Integrity ''payload ref exceeds segment length''))"
proof -
  let ?o = "pr_bytes_offset pref" and ?l = "pr_bytes_length pref"
  have wf: "segment_header_wf s" and val: "segment_validate_header s = Inr ()"
    by (simp_all add: s h segment_validate_header_def)
  have len: "length F = length f + SEGMENT_HEADER_SIZE + length p + length g"
    by (simp add: F wf)
  have fits: "fits (length f)" "fits (length p)" "fits (length f + SEGMENT_HEADER_SIZE + length p)"
    using fit by (auto simp: fits_def len)
  have 76: "unat (of_nat SEGMENT_HEADER_SIZE :: u64) = SEGMENT_HEADER_SIZE"
    by (simp add: SEGMENT_HEADER_SIZE_def)
  have rt: "segment_header_decode (segment_header_encode s) = Inr s"
    by (rule segment_header_roundtrip [OF wf _ val]) (simp add: s)
  have sel: "sh_segment_id s = sid" "sh_payload_checksum s = h p" "sh_segment_type s = Payload"
    "sh_payload_length s = of_nat (length p)" "sh_compression s = CNone"
    by (simp_all add: s)
  have r1: "read_exact_at (length f) SEGMENT_HEADER_SIZE F = Inr (segment_header_encode s)"
    unfolding F by (rule read_at_end) (simp add: wf)
  have r2: "read_exact_at (length f + SEGMENT_HEADER_SIZE) (length p) F = Inr p"
    using read_at_end [of "length p" p "f @ segment_header_encode s" g] by (simp add: wf F)
  have dr: "drop (length f + SEGMENT_HEADER_SIZE) F = p @ g"
    by (simp add: F wf)
  have r3: "read_exact_at (length f + SEGMENT_HEADER_SIZE + unat ?o) (unat ?l) F = Inr (slice (unat ?o) (unat ?l) p)"
    if "unat ?o + unat ?l \<le> length p"
  proof -
    have "drop (length f + SEGMENT_HEADER_SIZE + unat ?o) F = drop (unat ?o) (p @ g)"
      using dr by (metis add.commute drop_drop)
    then show ?thesis using that by (simp add: read_exact_at_def slice_def len)
  qed
  have c1: "checked_sub (of_nat SEGMENT_HEADER_SIZE + of_nat (length p)) (of_nat SEGMENT_HEADER_SIZE) =
      Some (of_nat (length p) :: u64)"
    using fits_u64 [OF fits_mono [OF fits(3)], of "SEGMENT_HEADER_SIZE + length p"]
    by (simp add: checked_sub_def word_le_nat_alt 76)
  let ?e = "of_nat (length f + SEGMENT_HEADER_SIZE + length p) :: u64"
  have e: "unat ?e = length f + SEGMENT_HEADER_SIZE + length p" by (rule fits_u64 [OF fits(3)])
  have c2: "Option.bind (checked_add (of_nat (length f)) (of_nat SEGMENT_HEADER_SIZE))
      (\<lambda>v. checked_add v (of_nat (length p))) = Some ?e"
  proof -
    have "fits (length f + SEGMENT_HEADER_SIZE)" using fits(3) by (rule fits_mono) simp
    then have "unat (of_nat (length f + SEGMENT_HEADER_SIZE) :: u64) = length f + SEGMENT_HEADER_SIZE"
      by (rule fits_u64)
    moreover have "length f + SEGMENT_HEADER_SIZE + length p < 2 ^ 64"
      using fits(3) by (simp add: fits_def)
    ultimately show ?thesis using fits by (simp add: checked_add_def 76)
  qed
  have le: "\<not> length F < unat ?e" unfolding e len by simp
  let ?fin = "?o + ?l"
  have c3: "checked_add ?o ?l = Some ?fin" and ref_end: "unat ?fin = unat ?o + unat ?l"
    using no_ovf by (simp_all add: checked_add_def unat_word_ariths)
  have cmp: "of_nat (length p) < ?fin \<longleftrightarrow> \<not> unat ?o + unat ?l \<le> length p"
    using fits by (simp add: word_less_nat_alt ref_end not_le)
  have "read_payload_ref h unz F root pref verified =
     (if of_nat (length p) < ?fin then Inl (Integrity ''payload ref exceeds segment length'')
      else if sid \<notin> verified then
       rbind (verify_payload_wire_bytes h sid (h p) p verified)
         (\<lambda>verified'. Inr (slice (unat ?o) (unat ?l) p, verified'))
     else rbind (read_exact_at (length f + SEGMENT_HEADER_SIZE + unat ?o) (unat ?l) F)
       (\<lambda>payload. Inr (payload, verified)))"
    unfolding read_payload_ref_def root
    using fits le
    by (simp only: segment_ref.simps r1 r2 rt sel pref c1 c2 c3 ensure_decodable_def fits_u64
        rbind_simps ok_or_simps simp_thms if_False if_cancel compression.simps compression.distinct)
  then show ?thesis
    by (auto simp: cmp verify_payload_wire_bytes_def r3)
qed

end
