(* ===== verification/Contract.thy ===== *)
theory Contract imports Segment begin

text \<open>
  Vector dtypes and dtype sets (src/format/dtype.rs) and the file-level create contract
  with its digest (src/format/create_contract.rs). The serde encoding of the crate
  \<open>bincode\<close> is a parameter: a record of its two entry points, with the documented round
  trip \<open>bincode_ok\<close> as the only thing asked of it.
\<close>

section \<open>Dtypes\<close>

datatype dtype = F32 | F16 | BF16 | F8E4M3 | F8E5M2

fun byte_width :: "dtype \<Rightarrow> nat" where
  "byte_width F32 = 4"
| "byte_width F16 = 2"
| "byte_width BF16 = 2"
| "byte_width F8E4M3 = 1"
| "byte_width F8E5M2 = 1"

fun is_f8 :: "dtype \<Rightarrow> bool" where
  "is_f8 F8E4M3 = True"
| "is_f8 F8E5M2 = True"
| "is_f8 _ = False"

type_synonym dtype_set = u8

fun as_set_bit :: "dtype \<Rightarrow> dtype_set" where
  "as_set_bit F32 = 0x01"
| "as_set_bit F16 = 0x02"
| "as_set_bit BF16 = 0x04"
| "as_set_bit F8E4M3 = 0x08"
| "as_set_bit F8E5M2 = 0x10"

definition DTYPE_ALL :: dtype_set where
  "DTYPE_ALL = as_set_bit F32 OR as_set_bit F16 OR as_set_bit BF16 OR as_set_bit F8E4M3 OR as_set_bit F8E5M2"

definition dtype_from_bits_truncate :: "u8 \<Rightarrow> dtype_set" where
  "dtype_from_bits_truncate bits = bits AND DTYPE_ALL"

definition dtype_from_bits :: "u8 \<Rightarrow> dtype_set option" where
  "dtype_from_bits bits = (if bits AND NOT DTYPE_ALL \<noteq> 0 then None else Some bits)"

definition dtype_set_contains :: "dtype_set \<Rightarrow> dtype_set \<Rightarrow> bool" where
  "dtype_set_contains a b = (a AND b = b)"

definition dtype_set_union :: "dtype_set \<Rightarrow> dtype_set \<Rightarrow> dtype_set" where
  "dtype_set_union a b = a OR b"

definition dtype_set_intersection :: "dtype_set \<Rightarrow> dtype_set \<Rightarrow> dtype_set" where
  "dtype_set_intersection a b = a AND b"

text \<open>The dtypes a set admits.\<close>
definition dtypes_of :: "dtype_set \<Rightarrow> dtype set" where
  "dtypes_of s = {d. dtype_set_contains s (as_set_bit d)}"

lemma DTYPE_ALL_eq: "DTYPE_ALL = 0x1F"
  by (simp add: DTYPE_ALL_def)

lemma as_set_bit_power: "\<exists>n<8. as_set_bit d = 2 ^ n"
  by (cases d) (auto intro: exI [of _ 0] exI [of _ 1] exI [of _ 2] exI [of _ 3] exI [of _ 4])

lemma as_set_bit_inj: "as_set_bit d = as_set_bit d' \<longleftrightarrow> d = d'"
  by (cases d; cases d') simp_all

lemma contains_power: "dtype_set_contains s (2 ^ n) \<longleftrightarrow> bit s n" if "n < 8" for s :: u8
proof -
  have "bit (s AND 2 ^ n) m \<longleftrightarrow> bit s n \<and> m = n" and "bit (2 ^ n :: u8) m \<longleftrightarrow> m = n" for m
    using that by (auto simp: bit_and_iff bit_exp_iff)
  then show ?thesis
    using that unfolding dtype_set_contains_def bit_eq_iff [of "s AND 2 ^ n"]
    by (simp add: possible_bit_def) blast
qed

text \<open>Union and intersection of the bit sets are those of the admitted dtypes.\<close>
lemma dtypes_of_union: "dtypes_of (dtype_set_union a b) = dtypes_of a \<union> dtypes_of b"
proof -
  have "dtype_set_contains (a OR b) (as_set_bit d) \<longleftrightarrow>
      dtype_set_contains a (as_set_bit d) \<or> dtype_set_contains b (as_set_bit d)" for d
    using as_set_bit_power [of d] by (auto simp: contains_power bit_or_iff)
  then show ?thesis by (auto simp: dtypes_of_def dtype_set_union_def)
qed

lemma dtypes_of_intersection: "dtypes_of (dtype_set_intersection a b) = dtypes_of a \<inter> dtypes_of b"
proof -
  have "dtype_set_contains (a AND b) (as_set_bit d) \<longleftrightarrow>
      dtype_set_contains a (as_set_bit d) \<and> dtype_set_contains b (as_set_bit d)" for d
    using as_set_bit_power [of d] by (auto simp: contains_power bit_and_iff)
  then show ?thesis by (auto simp: dtypes_of_def dtype_set_intersection_def)
qed

section \<open>Bincode\<close>

record 'a bincode =
  encode_to_vec :: "'a \<Rightarrow> bytes option"
  decode_from_slice :: "bytes \<Rightarrow> ('a \<times> nat) option"

text \<open>Documented: decoding what was encoded gives the value and the bytes it used.\<close>
definition bincode_ok :: "'a bincode \<Rightarrow> bool" where
  "bincode_ok c \<longleftrightarrow> (\<forall>x bs. encode_to_vec c x = Some bs \<longrightarrow>
     decode_from_slice c bs = Some (x, length bs))"

definition bincode_encode :: "'a bincode \<Rightarrow> 'a \<Rightarrow> bytes result" where
  "bincode_encode c x = ok_or (encode_to_vec c x) (Serde ''encode'')"

definition bincode_decode :: "'a bincode \<Rightarrow> bytes \<Rightarrow> ('a \<times> nat) result" where
  "bincode_decode c bs = ok_or (decode_from_slice c bs) (Serde ''decode'')"

lemma bincode_roundtrip:
  "bincode_ok c \<Longrightarrow> bincode_encode c x = Inr bs \<Longrightarrow> bincode_decode c bs = Inr (x, length bs)"
  by (simp add: bincode_ok_def bincode_encode_def bincode_decode_def)

section \<open>The create contract\<close>

record create_contract =
  cc_schema_version :: u16
  cc_text_enabled :: bool
  cc_max_dim :: u32
  cc_allowed_dtypes :: u8
  cc_auto_promote_non_f8 :: u64
  cc_auto_promote_f8 :: u64
  cc_reserved :: bytes

definition SCHEMA_VERSION :: u16 where "SCHEMA_VERSION = 1"

definition contract_default :: create_contract where
  "contract_default =
     \<lparr>cc_schema_version = SCHEMA_VERSION, cc_text_enabled = True, cc_max_dim = 4096,
      cc_allowed_dtypes = 0x1F, cc_auto_promote_non_f8 = 200000,
      cc_auto_promote_f8 = 500000, cc_reserved = replicate 16 0\<rparr>"

definition contract_validate_options :: "create_contract \<Rightarrow> unit result" where
  "contract_validate_options c =
     (if cc_schema_version c \<noteq> SCHEMA_VERSION then Inl (Format ''unsupported schema_version'')
      else if cc_max_dim c = 0 \<or> 65535 < cc_max_dim c then Inl (Format ''max_dim out of range'')
      else if dtype_from_bits (cc_allowed_dtypes c) = None
        then Inl (Format ''allowed_dtypes contains unknown bits'')
      else if cc_allowed_dtypes c = 0 then Inl (Format ''allowed_dtypes is empty'')
      else if cc_auto_promote_non_f8 c < 1024 then Inl (Format ''auto_promote_non_f8 must be at least 1024'')
      else if cc_auto_promote_f8 c < cc_auto_promote_non_f8 c
        then Inl (Format ''auto_promote_f8 must be at least auto_promote_non_f8'')
      else Inr ())"

definition contract_validate_decoded :: "create_contract \<Rightarrow> unit result" where
  "contract_validate_decoded c =
     (if cc_schema_version c \<noteq> SCHEMA_VERSION then Inl (Format ''unsupported schema_version'')
      else if dtype_from_bits (cc_allowed_dtypes c) = None
        then Inl (Format ''allowed_dtypes contains unknown bits'')
      else Inr ())"

definition contract_encode :: "create_contract bincode \<Rightarrow> create_contract \<Rightarrow> bytes result" where
  "contract_encode b c = bincode_encode b c"

definition contract_decode :: "create_contract bincode \<Rightarrow> bytes \<Rightarrow> create_contract result" where
  "contract_decode b bs =
     rbind (bincode_decode b bs) (\<lambda>(c, consumed).
       if consumed \<noteq> length bs then Inl (Format ''CreateContractV1 has trailing bytes after decode'')
       else rbind (contract_validate_decoded c) (\<lambda>_. Inr c))"

definition contract_digest :: "hash \<Rightarrow> create_contract bincode \<Rightarrow> create_contract \<Rightarrow> checksum result" where
  "contract_digest h b c = rbind (contract_encode b c) (\<lambda>bs. Inr (h bs))"

text \<open>\<open>CreateOptions::build_contract\<close> (src/file/api_types.rs), over the options' fields.\<close>
record create_options =
  co_text_enabled :: bool
  co_max_dim :: u32
  co_allowed_dtypes :: dtype_set
  co_non_f8_threshold :: u64
  co_f8_threshold :: u64

definition build_contract :: "create_options \<Rightarrow> create_contract result" where
  "build_contract opts =
     (let c = \<lparr>cc_schema_version = SCHEMA_VERSION, cc_text_enabled = co_text_enabled opts,
              cc_max_dim = co_max_dim opts, cc_allowed_dtypes = co_allowed_dtypes opts,
              cc_auto_promote_non_f8 = co_non_f8_threshold opts,
              cc_auto_promote_f8 = co_f8_threshold opts, cc_reserved = replicate 16 0\<rparr>
      in rbind (contract_validate_options c) (\<lambda>_. Inr c))"

subsection \<open>Facts\<close>

lemma validate_options_decoded:
  "contract_validate_options c = Inr () \<Longrightarrow> contract_validate_decoded c = Inr ()"
  by (auto simp: contract_validate_options_def contract_validate_decoded_def split: if_splits)

lemma contract_roundtrip:
  assumes "bincode_ok b" and "contract_encode b c = Inr bs"
    and "contract_validate_options c = Inr ()"
  shows "contract_decode b bs = Inr c"
  using bincode_roundtrip [OF assms(1), of c bs] assms(2) validate_options_decoded [OF assms(3)]
  by (simp add: contract_decode_def contract_encode_def)

lemma contract_digest_length: "digest32 h \<Longrightarrow> contract_digest h b c = Inr d \<Longrightarrow> length d = 32"
  by (auto simp: contract_digest_def rbind_Inr_iff digest32_def)

lemma dtypes_of_nonempty:
  assumes "dtype_from_bits a = Some a'" and "a \<noteq> 0"
  shows "dtypes_of a \<noteq> {}"
proof -
  from assms(2) obtain n where n: "bit a n" by (metis bit_eq_iff bit_0_eq bot_apply bot_bool_def)
  then have "n < 8" using bit_imp_le_length [of a n] by simp
  have "n < 5"
  proof (rule ccontr)
    assume "\<not> n < 5"
    then have "bit (NOT DTYPE_ALL) n"
    proof -
      have "n \<in> {5, 6, 7}" using \<open>n < 8\<close> \<open>\<not> n < 5\<close> by auto
      then show ?thesis by (auto simp: DTYPE_ALL_eq bit_not_iff bit_numeral_rec)
    qed
    with n have "bit (a AND NOT DTYPE_ALL) n" by (simp add: bit_and_iff)
    moreover have "a AND NOT DTYPE_ALL = 0" using assms(1) by (auto simp: dtype_from_bits_def split: if_splits)
    ultimately show False by simp
  qed
  then have "n \<in> {0, 1, 2, 3, 4}" by auto
  moreover have "dtype_set_contains a (2 ^ n)" using n \<open>n < 8\<close> by (simp add: contains_power)
  moreover have "as_set_bit F32 = 2 ^ 0" "as_set_bit F16 = 2 ^ 1"
    "as_set_bit BF16 = 2 ^ 2" "as_set_bit F8E4M3 = 2 ^ 3" "as_set_bit F8E5M2 = 2 ^ 4"
    by simp_all
  ultimately have "dtype_set_contains a (as_set_bit F32) \<or> dtype_set_contains a (as_set_bit F16) \<or>
      dtype_set_contains a (as_set_bit BF16) \<or> dtype_set_contains a (as_set_bit F8E4M3) \<or>
      dtype_set_contains a (as_set_bit F8E5M2)"
    by auto
  then obtain d where "dtype_set_contains a (as_set_bit d)" by blast
  then show ?thesis by (auto simp: dtypes_of_def)
qed

lemma build_contract_Inr:
  "build_contract opts = Inr c \<Longrightarrow>
   contract_validate_options c = Inr () \<and> dtypes_of (cc_allowed_dtypes c) \<noteq> {}"
proof -
  assume "build_contract opts = Inr c"
  then have v: "contract_validate_options c = Inr ()"
    by (auto simp: build_contract_def rbind_Inr_iff Let_def)
  then obtain a' where "dtype_from_bits (cc_allowed_dtypes c) = Some a'" "cc_allowed_dtypes c \<noteq> 0"
    by (auto simp: contract_validate_options_def split: if_splits)
  with v show ?thesis using dtypes_of_nonempty by blast
qed

end
