(* ===== verification/Toc.thy ===== *)
theory Toc imports Contract Registry begin

text \<open>
  The self-validating TOC footer: its body, the codec with the two embedded BLAKE3
  checksums (src/format/toc.rs), and reading and appending it (src/file/toc_io.rs). The
  lemmas: an encoded footer decodes to itself, whatever follows it; a decoded footer
  carries matching checksums; changing one byte of an encoded footer is rejected unless
  the change exhibits a collision of the hash on two explicit inputs.
\<close>

section \<open>The footer\<close>

type_synonym text_space_id = u32
type_synonym collection_id = u32

record text_index_root =
  tr_text_space_id :: text_space_id
  tr_term_dictionary_root :: "segment_ref option"
  tr_postings_root :: "segment_ref option"
  tr_positions_root :: "segment_ref option"
  tr_doc_stats_root :: "segment_ref option"
  tr_token_set_roots :: "segment_ref list"
  tr_minhash_signature_roots :: "segment_ref list"

record collection_filter_root =
  cf_collection_id :: collection_id
  cf_frame_filter_root :: "segment_ref option"
  cf_vector_filter_root :: "segment_ref option"

record time_index_root =
  ti_collection_id :: "collection_id option"
  ti_root :: segment_ref

record toc_footer_body =
  tb_snapshot_generation :: u64
  tb_id_allocator :: id_allocator
  tb_segment_catalog_root :: "segment_ref option"
  tb_collection_catalog_root :: "segment_ref option"
  tb_frame_catalog_root :: "segment_ref option"
  tb_text_space_catalog_root :: "segment_ref option"
  tb_analyzer_catalog_root :: "segment_ref option"
  tb_field_schema_catalog_root :: "segment_ref option"
  tb_retrieval_profile_catalog_root :: "segment_ref option"
  tb_embedding_space_catalog_root :: "segment_ref option"
  tb_codec_catalog_root :: "segment_ref option"
  tb_vector_catalog_root :: "segment_ref option"
  tb_fusion_profile_catalog_root :: "segment_ref option"
  tb_text_index_roots :: "text_index_root list"
  tb_collection_filter_roots :: "collection_filter_root list"
  tb_time_index_roots :: "time_index_root list"
  tb_create_contract :: create_contract

record toc_footer =
  tf_body :: toc_footer_body
  tf_checksum :: checksum

definition toc_body_empty :: "u64 \<Rightarrow> create_contract \<Rightarrow> toc_footer_body" where
  "toc_body_empty generation contract =
     \<lparr>tb_snapshot_generation = generation, tb_id_allocator = id_allocator_default,
      tb_segment_catalog_root = None, tb_collection_catalog_root = None,
      tb_frame_catalog_root = None, tb_text_space_catalog_root = None,
      tb_analyzer_catalog_root = None, tb_field_schema_catalog_root = None,
      tb_retrieval_profile_catalog_root = None, tb_embedding_space_catalog_root = None,
      tb_codec_catalog_root = None, tb_vector_catalog_root = None,
      tb_fusion_profile_catalog_root = None, tb_text_index_roots = [],
      tb_collection_filter_roots = [], tb_time_index_roots = [],
      tb_create_contract = contract\<rparr>"

definition TOC_MAGIC :: bytes where "TOC_MAGIC = [0x56, 0x4C, 0x54, 0x43]"
definition TOC_VERSION :: u16 where "TOC_VERSION = 1"
definition TOC_HEADER_LEN :: nat where "TOC_HEADER_LEN = 88"

lemma length_TOC_MAGIC [simp]: "length TOC_MAGIC = 4"
  by (simp add: TOC_MAGIC_def)

type_synonym toc_bincode = "toc_footer_body bincode"

section \<open>The codec\<close>

definition encode_body_bytes :: "toc_bincode \<Rightarrow> toc_footer_body \<Rightarrow> bytes result" where
  "encode_body_bytes b body = bincode_encode b body"

text \<open>The 56 bytes that are hashed in front of the body.\<close>
definition footer_prefix :: "hash \<Rightarrow> u64 \<Rightarrow> bytes \<Rightarrow> bytes" where
  "footer_prefix h generation body =
     patch 24 (h body)
      (put_u64 16 (of_nat (length body))
       (put_u64 8 generation
        (put_u16 6 (of_nat TOC_HEADER_LEN)
         (put_u16 4 TOC_VERSION
          (patch 0 TOC_MAGIC (replicate 56 0))))))"

definition footer_checksum :: "hash \<Rightarrow> u64 \<Rightarrow> bytes \<Rightarrow> checksum" where
  "footer_checksum h generation body = h (footer_prefix h generation body @ body)"

definition toc_encode_body :: "hash \<Rightarrow> toc_bincode \<Rightarrow> toc_footer_body \<Rightarrow> toc_footer result" where
  "toc_encode_body h b body =
     rbind (encode_body_bytes b body) (\<lambda>encoded.
       Inr \<lparr>tf_body = body,
            tf_checksum = footer_checksum h (tb_snapshot_generation body) encoded\<rparr>)"

definition toc_footer_empty :: "hash \<Rightarrow> toc_bincode \<Rightarrow> u64 \<Rightarrow> create_contract \<Rightarrow> toc_footer result" where
  "toc_footer_empty h b generation contract = toc_encode_body h b (toc_body_empty generation contract)"

definition toc_encode :: "hash \<Rightarrow> toc_bincode \<Rightarrow> toc_footer \<Rightarrow> bytes result" where
  "toc_encode h b footer =
     rbind (encode_body_bytes b (tf_body footer)) (\<lambda>body.
       let checksum = footer_checksum h (tb_snapshot_generation (tf_body footer)) body in
       if checksum \<noteq> tf_checksum footer then Inl (Integrity ''TOC footer checksum is stale'')
       else Inr
         (patch TOC_HEADER_LEN body
          (patch 56 checksum
           (patch 24 (h body)
            (put_u64 16 (of_nat (length body))
             (put_u64 8 (tb_snapshot_generation (tf_body footer))
              (put_u16 6 (of_nat TOC_HEADER_LEN)
               (put_u16 4 TOC_VERSION
                (patch 0 TOC_MAGIC (replicate (TOC_HEADER_LEN + length body) 0))))))))))"

text \<open>The checks shared by \<open>decode\<close> and \<open>encoded_len_from_header\<close>; the total length.\<close>
definition toc_total_len :: "bytes \<Rightarrow> nat result" where
  "toc_total_len bs =
     (if slice 0 4 bs \<noteq> TOC_MAGIC then Inl (Format ''TOC footer magic mismatch'')
      else if u16_of_le (slice 4 2 bs) \<noteq> TOC_VERSION then Inl (Format ''unsupported TOC version'')
      else if unat (u16_of_le (slice 6 2 bs)) \<noteq> TOC_HEADER_LEN
        then Inl (Format ''invalid TOC header length'')
      else let body_len = unat (u64_of_le (slice 16 8 bs)) in
        if TOC_HEADER_LEN + body_len < 2 ^ 64 then Inr (TOC_HEADER_LEN + body_len)
        else Inl (Format ''TOC footer length overflow''))"

definition encoded_len_from_header :: "bytes \<Rightarrow> nat result" where
  "encoded_len_from_header bs = toc_total_len bs"

definition toc_decode :: "hash \<Rightarrow> toc_bincode \<Rightarrow> bytes \<Rightarrow> (toc_footer \<times> nat) result" where
  "toc_decode h b bs =
     (if length bs < TOC_HEADER_LEN then Inl (Format ''TOC footer truncated'')
      else rbind (toc_total_len bs) (\<lambda>total_len.
        let generation = u64_of_le (slice 8 8 bs); body_len = total_len - TOC_HEADER_LEN in
        if length bs < total_len then Inl (Format ''TOC footer body truncated'')
        else let body = slice TOC_HEADER_LEN body_len bs in
          if slice 24 32 bs \<noteq> h body then Inl (Integrity ''TOC body checksum mismatch'')
          else if slice 56 32 bs \<noteq> footer_checksum h generation body
            then Inl (Integrity ''TOC footer checksum mismatch'')
          else rbind (bincode_decode b body) (\<lambda>(fb, consumed).
            if consumed \<noteq> body_len then Inl (Format ''TOC body has trailing bytes'')
            else if tb_snapshot_generation fb \<noteq> generation
              then Inl (Integrity ''TOC snapshot generation mismatch'')
            else Inr (\<lparr>tf_body = fb, tf_checksum = slice 56 32 bs\<rparr>, total_len))))"

section \<open>Footer I/O\<close>

definition alloc_len :: "nat \<Rightarrow> unit result" where
  "alloc_len n = (if n < 2 ^ 63 then Inr () else Inl (Panic ''capacity overflow''))"

text \<open>The sum \<open>offset + footer_len\<close> is not checked in the source; it wraps.\<close>
definition read_toc_footer :: "hash \<Rightarrow> toc_bincode \<Rightarrow> storage \<Rightarrow> u64 \<Rightarrow> toc_footer result" where
  "read_toc_footer h b f offset =
     (if offset = 0 then Inl (Format ''header does not point to a TOC footer'')
      else if length f \<le> unat offset then Inl (Format ''TOC footer offset is past EOF'')
      else rbind (read_exact_at (unat offset) TOC_HEADER_LEN f) (\<lambda>header.
        rbind (encoded_len_from_header header) (\<lambda>footer_len.
        if length f < unat (offset + of_nat footer_len)
        then Inl (Format ''TOC footer body is past EOF'')
        else rbind (alloc_len footer_len) (\<lambda>_.
          rbind (read_exact_at (unat offset + TOC_HEADER_LEN) (footer_len - TOC_HEADER_LEN) f) (\<lambda>rest.
          rbind (toc_decode h b (header @ rest)) (\<lambda>(footer, _). Inr footer))))))"

definition write_toc_footer_at_end :: "hash \<Rightarrow> toc_bincode \<Rightarrow> storage \<Rightarrow> toc_footer \<Rightarrow> storage result" where
  "write_toc_footer_at_end h b f footer =
     rbind (toc_encode h b footer) (\<lambda>bs. Inr (write_all_at (length f) bs f))"

section \<open>Facts\<close>

lemma toc_total_len_append [simp]: "24 \<le> length bs \<Longrightarrow> toc_total_len (bs @ r) = toc_total_len bs"
  by (simp add: toc_total_len_def slice_append1)

lemma toc_encode_Inr:
  assumes "toc_encode h b footer = Inr bs" and h: "digest32 h"
  obtains body where "encode_body_bytes b (tf_body footer) = Inr body"
    "length bs = TOC_HEADER_LEN + length body"
    "slice 0 4 bs = TOC_MAGIC" "slice 4 2 bs = u16_le TOC_VERSION"
    "slice 6 2 bs = u16_le (of_nat TOC_HEADER_LEN)"
    "slice 8 8 bs = u64_le (tb_snapshot_generation (tf_body footer))"
    "slice 16 8 bs = u64_le (of_nat (length body))"
    "slice 24 32 bs = h body" "slice 56 32 bs = tf_checksum footer"
    "slice TOC_HEADER_LEN (length body) bs = body"
    "tf_checksum footer = footer_checksum h (tb_snapshot_generation (tf_body footer)) body"
proof -
  from assms obtain body where body: "encode_body_bytes b (tf_body footer) = Inr body"
    and cs: "footer_checksum h (tb_snapshot_generation (tf_body footer)) body = tf_checksum footer"
    and bs: "bs = patch TOC_HEADER_LEN body
          (patch 56 (tf_checksum footer)
           (patch 24 (h body)
            (put_u64 16 (of_nat (length body))
             (put_u64 8 (tb_snapshot_generation (tf_body footer))
              (put_u16 6 (of_nat TOC_HEADER_LEN)
               (put_u16 4 TOC_VERSION
                (patch 0 TOC_MAGIC (replicate (TOC_HEADER_LEN + length body) 0))))))))"
    by (auto simp: toc_encode_def rbind_Inr_iff Let_def split: if_splits)
  have l: "length (tf_checksum footer) = 32" using cs h by (metis digest32_def footer_checksum_def)
  have l': "length (h body) = 32" using h by (simp add: digest32_def)
  show ?thesis
    by (rule that [OF body])
      (simp_all add: bs put_defs l l' TOC_HEADER_LEN_def slice_patch cs)
qed

lemma toc_roundtrip:
  assumes h: "digest32 h" and b: "bincode_ok b" and enc: "toc_encode h b footer = Inr bs"
    and len: "length bs < 2 ^ 63"
  shows "toc_decode h b (bs @ rest) = Inr (footer, length bs)" and "toc_total_len bs = Inr (length bs)"
proof -
  from toc_encode_Inr [OF enc h] obtain body where e: "encode_body_bytes b (tf_body footer) = Inr body"
    and l: "length bs = TOC_HEADER_LEN + length body"
    and sl: "slice 0 4 bs = TOC_MAGIC" "slice 4 2 bs = u16_le TOC_VERSION"
    "slice 6 2 bs = u16_le (of_nat TOC_HEADER_LEN)"
    "slice 8 8 bs = u64_le (tb_snapshot_generation (tf_body footer))"
    "slice 16 8 bs = u64_le (of_nat (length body))"
    "slice 24 32 bs = h body" "slice 56 32 bs = tf_checksum footer"
    "slice TOC_HEADER_LEN (length body) bs = body"
    and cs: "tf_checksum footer = footer_checksum h (tb_snapshot_generation (tf_body footer)) body"
    by metis
  have n: "unat (of_nat (length body) :: u64) = length body"
    using len l by (simp add: unat_of_nat_eq)
  show t: "toc_total_len bs = Inr (length bs)"
    using len l by (simp add: toc_total_len_def sl n) (simp add: TOC_HEADER_LEN_def)
  have d: "bincode_decode b body = Inr (tf_body footer, length body)"
    using bincode_roundtrip [OF b] e by (simp add: encode_body_bytes_def)
  show "toc_decode h b (bs @ rest) = Inr (footer, length bs)"
    using l by (simp add: toc_decode_def t slice_append1 sl(1-7) sl(8) [unfolded TOC_HEADER_LEN_def]
        d cs Let_def TOC_HEADER_LEN_def)
qed

text \<open>The body bytes and the hashed bytes of a footer, as they lie in the buffer.\<close>
definition toc_body_of :: "bytes \<Rightarrow> bytes" where
  "toc_body_of bs = slice TOC_HEADER_LEN (unat (u64_of_le (slice 16 8 bs))) bs"

definition toc_signed_of :: "hash \<Rightarrow> bytes \<Rightarrow> bytes" where
  "toc_signed_of h bs = footer_prefix h (u64_of_le (slice 8 8 bs)) (toc_body_of bs) @ toc_body_of bs"

lemma toc_total_len_Inr:
  "toc_total_len bs = Inr n \<longleftrightarrow>
     slice 0 4 bs = TOC_MAGIC \<and> u16_of_le (slice 4 2 bs) = TOC_VERSION \<and>
     unat (u16_of_le (slice 6 2 bs)) = TOC_HEADER_LEN \<and>
     n = TOC_HEADER_LEN + unat (u64_of_le (slice 16 8 bs)) \<and> n < 2 ^ 64"
  by (auto simp: toc_total_len_def Let_def)

lemma toc_decode_steps:
  assumes "toc_decode h b bs = Inr r"
  obtains n v where "\<not> length bs < TOC_HEADER_LEN" "toc_total_len bs = Inr n" "\<not> length bs < n"
    "\<not> slice 24 32 bs \<noteq> h (slice TOC_HEADER_LEN (n - TOC_HEADER_LEN) bs)"
    "\<not> slice 56 32 bs \<noteq> footer_checksum h (u64_of_le (slice 8 8 bs)) (slice TOC_HEADER_LEN (n - TOC_HEADER_LEN) bs)"
    "bincode_decode b (slice TOC_HEADER_LEN (n - TOC_HEADER_LEN) bs) = Inr v"
    "\<not> snd v \<noteq> n - TOC_HEADER_LEN"
    "\<not> tb_snapshot_generation (fst v) \<noteq> u64_of_le (slice 8 8 bs)"
    "r = (\<lparr>tf_body = fst v, tf_checksum = slice 56 32 bs\<rparr>, n)"
  using assms
  by (simp only: toc_decode_def result_Inr_iff Let_def case_prod_beta sum.inject)
     (elim exE conjE, rule that, assumption+, simp only: simp_thms)

text \<open>What a successful decode certifies.\<close>
lemma toc_decode_Inr:
  assumes "toc_decode h b bs = Inr (footer, n)"
  shows "n \<le> length bs" and "toc_total_len bs = Inr n"
    and "slice 24 32 bs = h (toc_body_of bs)" and "slice 56 32 bs = h (toc_signed_of h bs)"
    and "bincode_decode b (toc_body_of bs) = Inr (tf_body footer, length (toc_body_of bs))"
    and "tb_snapshot_generation (tf_body footer) = u64_of_le (slice 8 8 bs)"
    and "tf_checksum footer = slice 56 32 bs"
proof -
  from assms obtain v where t: "toc_total_len bs = Inr n" and n: "n \<le> length bs"
    and c: "slice 24 32 bs = h (slice TOC_HEADER_LEN (n - TOC_HEADER_LEN) bs)"
      "slice 56 32 bs = footer_checksum h (u64_of_le (slice 8 8 bs)) (slice TOC_HEADER_LEN (n - TOC_HEADER_LEN) bs)"
    and d: "bincode_decode b (slice TOC_HEADER_LEN (n - TOC_HEADER_LEN) bs) = Inr v"
      "snd v = n - TOC_HEADER_LEN" "tb_snapshot_generation (fst v) = u64_of_le (slice 8 8 bs)"
    and f: "footer = \<lparr>tf_body = fst v, tf_checksum = slice 56 32 bs\<rparr>"
    by (rule toc_decode_steps) (simp only: prod.inject not_less not_not)
  have b: "toc_body_of bs = slice TOC_HEADER_LEN (n - TOC_HEADER_LEN) bs"
    and l: "length (toc_body_of bs) = n - TOC_HEADER_LEN"
    using t n by (simp_all add: toc_body_of_def toc_total_len_Inr)
  show "n \<le> length bs" "toc_total_len bs = Inr n" by fact+
  show "slice 24 32 bs = h (toc_body_of bs)" "slice 56 32 bs = h (toc_signed_of h bs)"
    using c by (simp_all only: b toc_signed_of_def footer_checksum_def)
  show "bincode_decode b (toc_body_of bs) = Inr (tf_body footer, length (toc_body_of bs))"
    using d(1,2) l by (cases v) (simp add: b f)
  show "tb_snapshot_generation (tf_body footer) = u64_of_le (slice 8 8 bs)"
    "tf_checksum footer = slice 56 32 bs"
    using d(3) by (simp_all add: f)
qed

lemma slice_update_other: "i < off \<or> off + n \<le> i \<Longrightarrow> slice off n (xs[i := x]) = slice off n xs"
  by (auto simp: slice_def drop_update_swap take_update_cancel)

lemma slice_update_changed:
  assumes "off \<le> i" "i < off + n" "off + n \<le> length xs" "x \<noteq> xs ! i"
  shows "slice off n (xs[i := x]) \<noteq> slice off n xs"
proof
  assume "slice off n (xs[i := x]) = slice off n xs"
  then have "slice off n (xs[i := x]) ! (i - off) = slice off n xs ! (i - off)" by simp
  then show False using assms by (simp add: slice_def)
qed

lemma u64_of_le_slice_inj:
  "off + 8 \<le> length xs \<Longrightarrow> length ys = length xs \<Longrightarrow>
   u64_of_le (slice off 8 xs) = u64_of_le (slice off 8 ys) \<Longrightarrow> slice off 8 xs = slice off 8 ys"
  by (metis le_of_le(3) length_slice)

lemma u16_of_le_slice_inj:
  "off + 2 \<le> length xs \<Longrightarrow> length ys = length xs \<Longrightarrow>
   u16_of_le (slice off 2 xs) = u16_of_le (slice off 2 ys) \<Longrightarrow> slice off 2 xs = slice off 2 ys"
  by (metis le_of_le(1) length_slice)

lemma slice_signed_generation:
  assumes "digest32 h" "16 \<le> length bs"
  shows "slice 8 8 (toc_signed_of h bs) = slice 8 8 bs"
  using assms
  by (simp add: toc_signed_of_def footer_prefix_def put_defs digest32_def slice_append1 slice_patch le_of_le)

text \<open>
  C13: A footer is self-validating: changing any one byte of it, in the header fields, the
  checksums or the body, makes it undecodable, except when the change exhibits a
  collision of the hash, on the two bodies or on the two hashed byte strings.
\<close>
theorem toc_corruption:
  assumes h: "digest32 h" and d: "toc_decode h b bs = Inr (footer, length bs)"
    and i: "i < length bs" and x: "x \<noteq> bs ! i"
    and d': "toc_decode h b (bs[i := x]) = Inr r"
  shows "toc_body_of (bs[i := x]) \<noteq> toc_body_of bs \<and> h (toc_body_of (bs[i := x])) = h (toc_body_of bs) \<or>
    toc_signed_of h (bs[i := x]) \<noteq> toc_signed_of h bs \<and>
    h (toc_signed_of h (bs[i := x])) = h (toc_signed_of h bs)"
proof -
  let ?bs = "bs[i := x]"
  obtain footer' n where r: "r = (footer', n)" by (cases r)
  note c = toc_decode_Inr [OF d]
  note c' = toc_decode_Inr [OF d' [unfolded r]]
  from c(2) have t: "slice 0 4 bs = TOC_MAGIC" "u16_of_le (slice 4 2 bs) = TOC_VERSION"
     "unat (u16_of_le (slice 6 2 bs)) = TOC_HEADER_LEN"
     "length bs = TOC_HEADER_LEN + unat (u64_of_le (slice 16 8 bs))"
    by (simp_all only: toc_total_len_Inr)
  from c'(2) have t': "slice 0 4 ?bs = TOC_MAGIC" "u16_of_le (slice 4 2 ?bs) = TOC_VERSION"
     "unat (u16_of_le (slice 6 2 ?bs)) = TOC_HEADER_LEN"
     "n = TOC_HEADER_LEN + unat (u64_of_le (slice 16 8 ?bs))"
    by (simp_all only: toc_total_len_Inr)
  have L: "TOC_HEADER_LEN \<le> length bs" using t(4) by linarith
  then have L88: "88 \<le> length bs" by (simp only: TOC_HEADER_LEN_def)
  have other: "slice off n ?bs = slice off n bs" if "i < off \<or> off + n \<le> i" for off n
    using that by (rule slice_update_other)
  have chg: "slice off n ?bs \<noteq> slice off n bs" if "off \<le> i" "i < off + n" "off + n \<le> 88" for off n
    using slice_update_changed [OF that(1,2) _ x] that(3) L88 by simp
  consider "i < 4" | "4 \<le> i" "i < 6" | "6 \<le> i" "i < 8" | "8 \<le> i" "i < 16"
    | "16 \<le> i" "i < 24" | "24 \<le> i" "i < 56" | "56 \<le> i" "i < 88" | "88 \<le> i"
    by linarith
  then show ?thesis
  proof cases
    case 1
    then show ?thesis using chg [of 0 4] t(1) t'(1) by simp
  next
    case 2
    moreover have "slice 4 2 ?bs = slice 4 2 bs"
      by (rule u16_of_le_slice_inj) (use L88 t(2) t'(2) in simp_all)
    ultimately show ?thesis using chg [of 4 2] by simp
  next
    case 3
    moreover have "slice 6 2 ?bs = slice 6 2 bs"
      by (rule u16_of_le_slice_inj) (use L88 t(3) t'(3) in \<open>simp_all add: word_unat_eq_iff\<close>)
    ultimately show ?thesis using chg [of 6 2] by simp
  next
    case 4
    then have "slice 8 8 (toc_signed_of h ?bs) \<noteq> slice 8 8 (toc_signed_of h bs)"
      using chg [of 8 8] h L88 by (simp add: slice_signed_generation)
    then have "toc_signed_of h ?bs \<noteq> toc_signed_of h bs" by metis
    moreover have "slice 56 32 ?bs = slice 56 32 bs" using 4 by (intro other) simp
    ultimately show ?thesis using c(4) c'(4) by simp
  next
    case 5
    then have "u64_of_le (slice 16 8 ?bs) \<noteq> u64_of_le (slice 16 8 bs)"
      using chg [of 16 8] u64_of_le_slice_inj [of 16 ?bs bs] L88 by fastforce
    then have ne: "unat (u64_of_le (slice 16 8 ?bs)) \<noteq> unat (u64_of_le (slice 16 8 bs))"
      by (simp add: word_unat_eq_iff)
    have "length (toc_body_of ?bs) = unat (u64_of_le (slice 16 8 ?bs))"
      "length (toc_body_of bs) = unat (u64_of_le (slice 16 8 bs))"
      unfolding toc_body_of_def using c'(1) t(4) t'(4) by (intro length_slice, simp)+
    then have "toc_body_of ?bs \<noteq> toc_body_of bs" using ne by metis
    moreover have "slice 24 32 ?bs = slice 24 32 bs" using 5 by (intro other) simp
    ultimately show ?thesis using c(3) c'(3) by simp
  next
    case 6
    then have "toc_body_of ?bs = toc_body_of bs"
      by (simp add: toc_body_of_def other TOC_HEADER_LEN_def)
    then show ?thesis using chg [of 24 32] 6 c(3) c'(3) by simp
  next
    case 7
    then have "toc_signed_of h ?bs = toc_signed_of h bs"
      by (simp add: toc_signed_of_def toc_body_of_def other TOC_HEADER_LEN_def)
    then show ?thesis using chg [of 56 32] 7 c(4) c'(4) by simp
  next
    case 8
    then have "toc_body_of ?bs \<noteq> toc_body_of bs"
      using slice_update_changed [of TOC_HEADER_LEN i "unat (u64_of_le (slice 16 8 bs))" bs x] t(4) i x
      by (simp add: toc_body_of_def other TOC_HEADER_LEN_def)
    moreover have "slice 24 32 ?bs = slice 24 32 bs" using 8 by (intro other) simp
    ultimately show ?thesis using c(3) c'(3) by simp
  qed
qed

section \<open>Reading what was written\<close>

lemma read_toc_footer_steps:
  assumes "read_toc_footer h b f off = Inr footer"
  obtains hdr n u rest v where "\<not> off = 0" "\<not> length f \<le> unat off"
    "read_exact_at (unat off) TOC_HEADER_LEN f = Inr hdr"
    "encoded_len_from_header hdr = Inr n" "\<not> length f < unat (off + of_nat n)"
    "alloc_len n = Inr u"
    "read_exact_at (unat off + TOC_HEADER_LEN) (n - TOC_HEADER_LEN) f = Inr rest"
    "toc_decode h b (hdr @ rest) = Inr v" "footer = fst v"
  using assms
  by (simp only: read_toc_footer_def result_Inr_iff case_prod_beta sum.inject)
     (elim exE conjE, rule that, assumption+, simp only: simp_thms)

text \<open>A footer read from the file is the decoding of bytes that lie in the file.\<close>
lemma read_toc_footer_Inr:
  assumes "read_toc_footer h b f off = Inr footer"
  obtains bs where "off \<noteq> 0" "unat off + length bs \<le> length f"
    "bs = slice (unat off) (length bs) f" "toc_decode h b bs = Inr (footer, length bs)"
    "length bs < 2 ^ 63"
  using assms
proof (rule read_toc_footer_steps)
  fix hdr n rest v and u :: unit
  assume off: "\<not> off = 0" and r1: "read_exact_at (unat off) TOC_HEADER_LEN f = Inr hdr"
    and n: "encoded_len_from_header hdr = Inr n" and al: "alloc_len n = Inr u"
    and r2: "read_exact_at (unat off + TOC_HEADER_LEN) (n - TOC_HEADER_LEN) f = Inr rest"
    and d: "toc_decode h b (hdr @ rest) = Inr v" and v: "footer = fst v"
  have hdr: "hdr = slice (unat off) TOC_HEADER_LEN f" "length hdr = TOC_HEADER_LEN"
    using r1 by (auto simp: read_exact_at_Inr)
  have rest: "rest = slice (unat off + TOC_HEADER_LEN) (n - TOC_HEADER_LEN) f"
    "length rest = n - TOC_HEADER_LEN" "unat off + TOC_HEADER_LEN + (n - TOC_HEADER_LEN) \<le> length f"
    using r2 by (auto simp: read_exact_at_Inr)
  have ge: "TOC_HEADER_LEN \<le> n" using n by (auto simp: encoded_len_from_header_def toc_total_len_Inr)
  have l: "length (hdr @ rest) = n" using hdr rest ge by simp
  have sl: "hdr @ rest = slice (unat off) n f"
    using ge by (simp add: hdr(1) rest(1) slice_join)
  have t: "toc_total_len (hdr @ rest) = Inr n"
    using n hdr by (simp add: encoded_len_from_header_def TOC_HEADER_LEN_def)
  have "toc_total_len (hdr @ rest) = Inr (snd v)"
    using toc_decode_Inr(2) [of h b "hdr @ rest" "fst v" "snd v"] d by simp
  with t have "snd v = n" by simp
  with d v l have "toc_decode h b (hdr @ rest) = Inr (footer, length (hdr @ rest))"
    by (cases v) simp
  moreover have "n < 2 ^ 63" using al by (simp add: alloc_len_def split: if_splits)
  ultimately show ?thesis
    using that [of "hdr @ rest"] off l sl rest(3) ge by simp
qed

text \<open>And conversely: bytes of the file that decode are read as a footer.\<close>
lemma read_toc_footer_there:
  assumes d: "toc_decode h b bs = Inr (footer, length bs)" and off: "off \<noteq> 0"
    and fit: "unat off + length bs \<le> length f" and bs: "bs = slice (unat off) (length bs) f"
    and lf: "length f < 2 ^ 63"
  shows "read_toc_footer h b f off = Inr footer"
proof -
  let ?H = TOC_HEADER_LEN and ?n = "length bs"
  have t: "toc_total_len bs = Inr ?n" by (rule toc_decode_Inr(2) [OF d])
  then have ge: "?H \<le> ?n" by (simp add: toc_total_len_Inr)
  have r1: "read_exact_at (unat off) ?H f = Inr (take ?H bs)"
    using ge fit by (subst bs) (simp add: read_exact_at_def slice_def min_absorb1)
  have r2: "read_exact_at (unat off + ?H) (?n - ?H) f = Inr (drop ?H bs)"
    using ge fit by (subst (2) bs) (simp add: read_exact_at_def slice_def drop_take add.commute)
  have "toc_total_len (take ?H bs @ drop ?H bs) = toc_total_len (take ?H bs)"
    by (rule toc_total_len_append) (use ge in \<open>simp add: TOC_HEADER_LEN_def\<close>)
  then have n: "encoded_len_from_header (take ?H bs) = Inr ?n"
    by (simp add: encoded_len_from_header_def t)
  have "unat (off + of_nat ?n) = unat off + ?n"
    using fit lf by (simp add: unat_word_ariths unat_of_nat)
  then have eof: "\<not> length f < unat (off + of_nat ?n)" using fit by simp
  have "0 < ?n" using ge [unfolded TOC_HEADER_LEN_def] by linarith
  then have o: "\<not> length f \<le> unat off" using fit by linarith
  have al: "alloc_len ?n = Inr ()" using fit lf by (simp add: alloc_len_def)
  show ?thesis
    using off o eof
    by (simp only: read_toc_footer_def r1 n al r2 append_take_drop_id d rbind_simps if_False
        case_prod_conv simp_thms)
qed

lemma read_toc_footer_append:
  assumes "read_toc_footer h b f off = Inr footer" and "length (f @ g) < 2 ^ 63"
  shows "read_toc_footer h b (f @ g) off = Inr footer"
proof -
  from assms(1) obtain bs where "off \<noteq> 0" and l: "unat off + length bs \<le> length f"
    and bs: "bs = slice (unat off) (length bs) f" and "toc_decode h b bs = Inr (footer, length bs)"
    by (rule read_toc_footer_Inr)
  moreover have "bs = slice (unat off) (length bs) (f @ g)" using bs l by (simp add: slice_append1)
  ultimately show ?thesis using assms(2) by (intro read_toc_footer_there) simp_all
qed

lemma read_written_toc_footer:
  assumes h: "digest32 h" and b: "bincode_ok b" and w: "write_toc_footer_at_end h b f footer = Inr f'"
    and ne: "f \<noteq> []" and lf: "length f' < 2 ^ 63"
  shows "read_toc_footer h b f' (of_nat (length f)) = Inr footer" and "\<exists>bs. f' = f @ bs"
proof -
  from w obtain bs where enc: "toc_encode h b footer = Inr bs" and f': "f' = f @ bs"
    by (auto simp: write_toc_footer_at_end_def rbind_Inr_iff)
  have l: "length bs < 2 ^ 63" and o: "unat (of_nat (length f) :: u64) = length f"
    using lf by (simp_all add: f' unat_of_nat_eq)
  have "(of_nat (length f) :: u64) \<noteq> 0" using o ne by auto
  then show "read_toc_footer h b f' (of_nat (length f)) = Inr footer"
    using toc_roundtrip(1) [OF h b enc l, of "[]"] lf
    by (intro read_toc_footer_there [of h b bs]) (simp_all add: o f' slice_def)
  show "\<exists>bs. f' = f @ bs" using f' by blast
qed

end
