(* ===== verification/Instances.thy ===== *)
theory Instances imports SegmentIo Contract begin

text \<open>
  Concrete values for the parameters of the model, used by the examples that show the
  hypotheses of a property can hold: a hash with 32-byte digests, and fallible encoders
  with the round trip that \<open>bincode_ok\<close> asks for.
\<close>

definition ex_hash :: hash where "ex_hash bs = replicate 32 0"

definition ex_u64_bincode :: "u64 bincode" where
  "ex_u64_bincode =
     \<lparr>encode_to_vec = (\<lambda>x. Some (u64_le x)),
      decode_from_slice = (\<lambda>bs. if length bs < 8 then None else Some (u64_of_le (take 8 bs), 8))\<rparr>"

definition ex_ref_encode :: "segment_ref option \<Rightarrow> bytes option" where
  "ex_ref_encode r =
     (case r of
        None \<Rightarrow> Some [0]
      | Some r \<Rightarrow> if length (sr_checksum r) = 32
          then Some (1 # u64_le (sr_segment_id r) @ u64_le (sr_offset r) @ u64_le (sr_length r)
                     @ sr_checksum r)
          else None)"

definition ex_ref_decode :: "bytes \<Rightarrow> (segment_ref option \<times> nat) option" where
  "ex_ref_decode bs =
     (if bs = [] then None
      else if hd bs = 0 then Some (None, 1)
      else if length bs < 57 then None
      else Some (Some \<lparr>sr_segment_id = u64_of_le (slice 1 8 bs), sr_offset = u64_of_le (slice 9 8 bs),
                       sr_length = u64_of_le (slice 17 8 bs), sr_checksum = slice 25 32 bs\<rparr>, 57))"

definition ex_ref_bincode :: "segment_ref option bincode" where
  "ex_ref_bincode = \<lparr>encode_to_vec = ex_ref_encode, decode_from_slice = ex_ref_decode\<rparr>"

lemma ex_hash_ok: "digest32 ex_hash"
  by (simp add: digest32_def ex_hash_def)

lemma ex_u64_bincode_ok: "bincode_ok ex_u64_bincode"
  by (simp add: bincode_ok_def ex_u64_bincode_def)

lemma ex_ref_bincode_ok: "bincode_ok ex_ref_bincode"
proof -
  have "ex_ref_decode bs = Some (x, length bs)" if e: "ex_ref_encode x = Some bs" for x bs
  proof (cases x)
    case None
    with e show ?thesis by (auto simp: ex_ref_encode_def ex_ref_decode_def)
  next
    case (Some r)
    then have bs: "bs = [1] @ u64_le (sr_segment_id r) @ u64_le (sr_offset r) @ u64_le (sr_length r)
                     @ sr_checksum r" and l: "length (sr_checksum r) = 32"
      using e by (auto simp: ex_ref_encode_def split: if_splits)
    have "slice 1 8 bs = u64_le (sr_segment_id r)" "slice 9 8 bs = u64_le (sr_offset r)"
      "slice 17 8 bs = u64_le (sr_length r)" "slice 25 32 bs = sr_checksum r" "length bs = 57"
      using l by (simp_all add: bs slice_def)
    then show ?thesis by (simp add: ex_ref_decode_def Some) (simp add: bs)
  qed
  then show ?thesis by (simp add: bincode_ok_def ex_ref_bincode_def)
qed

text \<open>Appending a registered segment succeeds while ids last and sizes fit.\<close>
lemma append_registered_segment_total:
  assumes "digest32 h" and "fits (length f)" and "fits (SEGMENT_HEADER_SIZE + length p)"
    and "allocate_segment_id a = Inr (sid, a')"
  shows "\<exists>root f' segs'. append_registered_segment h f a segs ty n p = Inr (root, f', a', segs') \<and>
    length f' = length f + SEGMENT_HEADER_SIZE + length p"
proof -
  have "0 < unat sid" using segment_ids.alloc_Inr [OF assms(4)] by auto
  then have "sid \<noteq> 0" by auto
  then obtain e where "catalog_entry_of h sid ty n p (segment_ref_at_end h f sid ty n p) = Inr e"
    using catalog_entry_of_Inr [OF assms(3) _ assms(1) refl] by blast
  then show ?thesis
    using append_segment_at_end_eq [OF assms(1,2), of sid ty n p] assms(1,4)
    by (cases "register_segment segs e") (simp add: append_registered_segment_def)
qed

end
