(* ===== verification/Recovery.thy ===== *)
theory Recovery imports Toc Instances "HOL-Library.Product_Lexorder" begin

text \<open>
  Scan-back recovery: the chunked search for footers (\<open>scan_for_footer_candidates\<close> of
  src/file/toc_io.rs) and the choice of the footer that anchors an open
  (\<open>resolve_footer_state\<close>, \<open>recover_via_scan\<close>, \<open>check_footer_contract\<close>,
  \<open>footer_consensus_candidates\<close> of src/file/lifecycle.rs). The loader of the snapshot
  below a footer is an argument here.

  An unwinding panic inside a probe or a load is not an \<open>Err\<close> the callers can skip: it
  leaves the whole call, so it is propagated as the result.
\<close>

section \<open>The scan\<close>

record footer_candidate =
  fc_offset :: u64
  fc_footer :: toc_footer

text \<open>\<open>if let Ok(x) = r\<close>: errors are skipped, panics are not.\<close>
definition skip_err :: "'a result \<Rightarrow> 'a option result" where
  "skip_err r = (case r of Inr v \<Rightarrow> Inr (Some v) | Inl (Panic m) \<Rightarrow> Inl (Panic m) | Inl _ \<Rightarrow> Inr None)"

text \<open>\<open>iter().position(..)\<close>.\<close>
fun position :: "('a \<Rightarrow> bool) \<Rightarrow> 'a list \<Rightarrow> nat option" where
  "position p [] = None"
| "position p (x # xs) = (if p x then Some 0 else map_option Suc (position p xs))"

definition probe :: "(u64 \<Rightarrow> toc_footer result) \<Rightarrow> nat \<Rightarrow> footer_candidate list result" where
  "probe rd offset =
     rbind (skip_err (rd (of_nat offset))) (\<lambda>r.
       Inr (case r of Some footer \<Rightarrow> [\<lparr>fc_offset = of_nat offset, fc_footer = footer\<rparr>] | None \<Rightarrow> []))"

text \<open>The inner \<open>while\<close> over one buffer.\<close>
function scan_buf :: "(u64 \<Rightarrow> toc_footer result) \<Rightarrow> bytes \<Rightarrow> nat \<Rightarrow> nat \<Rightarrow> footer_candidate list result" where
  "scan_buf rd buf base i =
     (if length buf < i + length TOC_MAGIC then Inr []
      else case position (\<lambda>b. b = hd TOC_MAGIC) (drop i buf) of
        None \<Rightarrow> Inr []
      | Some rel \<Rightarrow>
          let at = i + rel in
          if length buf < at + length TOC_MAGIC then Inr []
          else rbind (if slice at (length TOC_MAGIC) buf = TOC_MAGIC then probe rd (base + at) else Inr [])
            (\<lambda>c. rbind (scan_buf rd buf base (at + 1)) (\<lambda>cs. Inr (c @ cs))))"
  by pat_completeness auto
termination
  by (relation "measure (\<lambda>(rd, buf, base, i). length buf - i)") (auto simp: TOC_MAGIC_def)

declare scan_buf.simps [simp del]

definition SCAN_CHUNK :: nat where "SCAN_CHUNK = 8 * 1024 * 1024"

text \<open>The outer \<open>while\<close> over the file, with the bytes carried over a chunk boundary.\<close>
function scan_loop ::
  "(u64 \<Rightarrow> toc_footer result) \<Rightarrow> storage \<Rightarrow> nat \<Rightarrow> bytes \<Rightarrow> footer_candidate list result" where
  "scan_loop rd f next_read carry =
     (if length f \<le> next_read then Inr []
      else
        let want = min SCAN_CHUNK (length f - next_read);
            base = next_read - length carry in
        rbind (read_exact_at next_read want f) (\<lambda>chunk.
          let buf = carry @ chunk; next_read' = next_read + want in
          rbind (scan_buf rd buf base 0) (\<lambda>cs.
            let carry' = (if next_read' < length f
                          then drop (length buf - min (length buf) (length TOC_MAGIC - 1)) buf
                          else carry) in
            rbind (scan_loop rd f next_read' carry') (\<lambda>cs'. Inr (cs @ cs')))))"
  by pat_completeness auto
termination
  by (relation "measure (\<lambda>(rd, f, next_read, carry). length f - next_read)")
    (auto simp: SCAN_CHUNK_def)

declare scan_loop.simps [simp del]

definition scan_for_footer_candidates ::
  "hash \<Rightarrow> toc_bincode \<Rightarrow> storage \<Rightarrow> footer_candidate list result" where
  "scan_for_footer_candidates h b f =
     (if length f \<le> HEADER_SIZE then Inr []
      else scan_loop (read_toc_footer h b f) f HEADER_SIZE [])"

section \<open>What the scan computes\<close>

text \<open>Probing a list of offsets in order.\<close>
fun collect :: "(u64 \<Rightarrow> toc_footer result) \<Rightarrow> nat list \<Rightarrow> footer_candidate list result" where
  "collect rd [] = Inr []"
| "collect rd (off # offs) = rbind (probe rd off) (\<lambda>c. rbind (collect rd offs) (\<lambda>cs. Inr (c @ cs)))"

lemma collect_append:
  "collect rd (xs @ ys) = rbind (collect rd xs) (\<lambda>cs. rbind (collect rd ys) (\<lambda>cs'. Inr (cs @ cs')))"
proof (induction xs)
  case Nil
  then show ?case by (cases "collect rd ys") simp_all
next
  case (Cons x xs)
  then show ?case
    by (cases "probe rd x"; cases "collect rd xs"; cases "collect rd ys") simp_all
qed

text \<open>The offsets of a buffer where the magic stands.\<close>
definition magic_at :: "bytes \<Rightarrow> nat \<Rightarrow> bool" where
  "magic_at buf i \<longleftrightarrow> i + 4 \<le> length buf \<and> slice i 4 buf = TOC_MAGIC"

lemma position_None: "position p xs = None \<longleftrightarrow> (\<forall>x\<in>set xs. \<not> p x)"
  by (induction xs) auto

lemma position_Some: "position p xs = Some k \<Longrightarrow> k < length xs \<and> p (xs ! k) \<and> (\<forall>j<k. \<not> p (xs ! j))"
  by (induction xs arbitrary: k) (auto simp: less_Suc_eq_0_disj split: if_splits)

lemma magic_at_hd: "magic_at buf i \<Longrightarrow> buf ! i = hd TOC_MAGIC"
proof -
  assume m: "magic_at buf i"
  then have "slice i 4 buf ! 0 = TOC_MAGIC ! 0" by (simp add: magic_at_def)
  then show ?thesis using m by (simp add: magic_at_def slice_def TOC_MAGIC_def)
qed

lemma filter_upt_skip:
  assumes "i \<le> m" and "\<And>j. i \<le> j \<Longrightarrow> j < m \<Longrightarrow> \<not> P j"
  shows "filter P [i..<n] = filter P [m..<n]"
proof (cases "m \<le> n")
  case True
  then have "[i..<n] = [i..<m] @ [m..<n]" using assms(1) by (metis le_add_diff_inverse upt_add_eq_append)
  then show ?thesis using assms(2) by simp
next
  case False
  then show ?thesis using assms by (auto simp: filter_empty_conv)
qed

lemma scan_buf_collect:
  "scan_buf rd buf base i = collect rd (map (\<lambda>j. base + j) (filter (magic_at buf) [i..<length buf]))"
proof (induction rd buf base i rule: scan_buf.induct)
  case (1 rd buf base i)
  let ?p = "\<lambda>b. b = hd TOC_MAGIC"
  show ?case
  proof (cases "length buf < i + 4")
    case True
    then have "filter (magic_at buf) [i..<length buf] = []"
      by (auto simp: filter_empty_conv magic_at_def)
    with True show ?thesis by (simp add: scan_buf.simps [of _ _ _ i])
  next
    case False
    show ?thesis
    proof (cases "position ?p (drop i buf)")
      case None
      then have "\<not> magic_at buf j" if "i \<le> j" "j < length buf" for j
      proof -
        have "drop i buf ! (j - i) \<in> set (drop i buf)" using that by (intro nth_mem) simp
        then show ?thesis using None that magic_at_hd [of buf j] by (auto simp: position_None)
      qed
      then have "filter (magic_at buf) [i..<length buf] = []"
        by (auto simp: filter_empty_conv)
      with None False show ?thesis by (simp add: scan_buf.simps [of _ _ _ i])
    next
      case (Some rel)
      define at where "at = i + rel"
      note pos = position_Some [OF Some]
      have skip: "filter (magic_at buf) [i..<length buf] = filter (magic_at buf) [at..<length buf]"
      proof (rule filter_upt_skip)
        fix j assume j: "i \<le> j" "j < at"
        then have "\<not> ?p (drop i buf ! (j - i))" using pos by (auto simp: at_def)
        moreover have "drop i buf ! (j - i) = buf ! j" using j False by (simp add: nth_drop)
        ultimately have "buf ! j \<noteq> hd TOC_MAGIC" by simp
        then show "\<not> magic_at buf j" using magic_at_hd by blast
      qed (simp add: at_def)
      show ?thesis
      proof (cases "length buf < at + 4")
        case True
        then have "filter (magic_at buf) [at..<length buf] = []"
          by (auto simp: filter_empty_conv magic_at_def)
        with True Some False show ?thesis
          by (simp add: scan_buf.simps [of _ _ _ i] at_def [symmetric] Let_def skip)
      next
        case room: False
        then have split: "[at..<length buf] = at # [at + 1..<length buf]"
          by (simp add: upt_conv_Cons)
        have IH: "scan_buf rd buf base (at + 1) =
            collect rd (map (\<lambda>j. base + j) (filter (magic_at buf) [at + 1..<length buf]))"
          using "1.IH" [OF _ Some refl] False room by (simp add: at_def)
        have step: "scan_buf rd buf base i =
            rbind (if slice at 4 buf = TOC_MAGIC then probe rd (base + at) else Inr [])
              (\<lambda>c. rbind (scan_buf rd buf base (at + 1)) (\<lambda>cs. Inr (c @ cs)))"
          using False Some room by (simp add: scan_buf.simps [of _ _ _ i] at_def Let_def)
        have m: "magic_at buf at \<longleftrightarrow> slice at 4 buf = TOC_MAGIC" using room by (simp add: magic_at_def)
        show ?thesis
          unfolding step IH skip split
          by (cases "collect rd (map (\<lambda>j. base + j) (filter (magic_at buf) [at + 1..<length buf]))")
            (simp_all add: m)
      qed
    qed
  qed
qed

lemma magic_at_slice:
  assumes "base + n \<le> length f" and "j < n"
  shows "magic_at (slice base n f) j \<longleftrightarrow> magic_at f (base + j) \<and> base + j + 4 \<le> base + n"
proof -
  have "slice j 4 (slice base n f) = slice (base + j) 4 f" if "j + 4 \<le> n"
    using that by (simp add: slice_def drop_take min_def add.commute)
  then show ?thesis using assms by (auto simp: magic_at_def)
qed

lemma filter_magic_window:
  assumes "base + n \<le> length f"
  shows "map (\<lambda>j. base + j) (filter (magic_at (slice base n f)) [0..<n]) =
    filter (\<lambda>off. magic_at f off \<and> off + 4 \<le> base + n) [base..<base + n]"
proof -
  have "filter (magic_at (slice base n f)) [0..<n] =
      filter (\<lambda>j. magic_at f (base + j) \<and> base + j + 4 \<le> base + n) [0..<n]"
    by (rule filter_cong) (auto simp: magic_at_slice [OF assms])
  moreover have "[base..<base + n] = map (\<lambda>j. base + j) [0..<n]"
    by (simp add: map_add_upt add.commute [of base])
  ultimately show ?thesis by (simp add: filter_map comp_def)
qed

lemma scan_loop_collect:
  assumes "nr \<le> length f" and "length carry \<le> nr"
    and "carry = slice (nr - length carry) (length carry) f"
  shows "scan_loop rd f nr carry =
    (if nr = length f then Inr [] else collect rd (filter (magic_at f) [nr - length carry..<length f]))"
  using assms
proof (induction "length f - nr" arbitrary: nr carry rule: less_induct)
  case less
  note prems = less.prems
  show ?case
  proof (cases "nr = length f")
    case True
    then show ?thesis by (subst scan_loop.simps) simp
  next
    case False
    with prems have lt: "nr < length f" by simp
    define want base where "want = min SCAN_CHUNK (length f - nr)" and "base = nr - length carry"
    define nr' n where "nr' = nr + want" and "n = length carry + want"
    define buf where "buf = slice base n f"
    define carry' where "carry' = (if nr' < length f
        then drop (length buf - min (length buf) (length TOC_MAGIC - 1)) buf else carry)"
    have want: "0 < want" "nr' \<le> length f" using lt by (auto simp: want_def nr'_def SCAN_CHUNK_def)
    have bn: "base + n = nr'" using prems(2) by (simp add: base_def n_def nr'_def)
    have lbuf: "length buf = n" using bn want by (simp add: buf_def)
    have chunk: "read_exact_at nr want f = Inr (slice nr want f)"
      using want by (simp add: read_exact_at_def nr'_def)
    have buf: "carry @ slice nr want f = buf"
    proof -
      have "base + length carry = nr" using prems(2) by (simp add: base_def)
      then have "carry @ slice nr want f = slice base (length carry) f @ slice (base + length carry) want f"
        using prems(3) by (simp add: base_def)
      then show ?thesis by (simp add: slice_join buf_def n_def)
    qed
    have here: "scan_buf rd buf base 0 =
        collect rd (filter (\<lambda>off. magic_at f off \<and> off + 4 \<le> nr') [base..<nr'])"
      using filter_magic_window [of base n f] bn want
      by (simp add: scan_buf_collect lbuf) (simp add: buf_def)
    have step: "scan_loop rd f nr carry = rbind (scan_buf rd buf base 0) (\<lambda>cs.
        rbind (scan_loop rd f nr' carry') (\<lambda>cs'. Inr (cs @ cs')))"
      using lt
      by (simp add: scan_loop.simps [of _ _ nr carry] Let_def chunk buf carry'_def nr'_def
          flip: want_def base_def)
    show ?thesis
    proof (cases "nr' = length f")
      case True
      then have "scan_loop rd f nr' carry' = Inr []" by (subst scan_loop.simps) simp
      moreover have "filter (\<lambda>off. magic_at f off \<and> off + 4 \<le> nr') [base..<nr'] =
          filter (magic_at f) [base..<length f]"
        using True by (intro filter_cong) (auto simp: magic_at_def)
      then have "scan_buf rd buf base 0 = collect rd (filter (magic_at f) [base..<length f])"
        using here by simp
      ultimately show ?thesis
        using False unfolding step
        by (cases "collect rd (filter (magic_at f) [base..<length f])") (simp_all add: base_def)
    next
      case more: False
      with want have lt': "nr' < length f" by simp
      then have "want = SCAN_CHUNK" by (auto simp: want_def nr'_def min_def split: if_splits)
      then have n3: "3 \<le> n" by (simp add: n_def SCAN_CHUNK_def)
      have c': "carry' = slice (nr' - 3) 3 f" and lc': "length carry' = 3"
      proof -
        have "carry' = drop (n - 3) (slice base n f)"
          using lt' n3 by (simp add: carry'_def lbuf min_def) (simp add: buf_def)
        also have "\<dots> = slice (base + (n - 3)) 3 f"
          using n3 by (simp add: slice_def drop_take add.commute)
        also have "base + (n - 3) = nr' - 3" using n3 bn by simp
        finally show "carry' = slice (nr' - 3) 3 f" .
        then show "length carry' = 3" using n3 bn want by simp
      qed
      have IH: "scan_loop rd f nr' carry' = collect rd (filter (magic_at f) [nr' - 3..<length f])"
        using less.hyps [of nr' carry'] lt lt' more n3 bn c' lc' want by (simp add: nr'_def)
      have here': "filter (\<lambda>off. magic_at f off \<and> off + 4 \<le> nr') [base..<nr'] =
          filter (magic_at f) [base..<nr' - 3]"
      proof -
        have "[base..<nr'] = [base..<nr' - 3] @ [nr' - 3..<nr']"
          using upt_add_eq_append [of base "nr' - 3" 3] n3 bn by simp
        moreover have "filter (\<lambda>off. magic_at f off \<and> off + 4 \<le> nr') [nr' - 3..<nr'] = []"
          by (auto simp: filter_empty_conv)
        moreover have "filter (\<lambda>off. magic_at f off \<and> off + 4 \<le> nr') [base..<nr' - 3] =
            filter (magic_at f) [base..<nr' - 3]"
          by (intro filter_cong) auto
        ultimately show ?thesis by simp
      qed
      have "[base..<length f] = [base..<nr' - 3] @ [nr' - 3..<length f]"
        using upt_add_eq_append [of base "nr' - 3" "length f - (nr' - 3)"] n3 bn lt' by simp
      then have "filter (magic_at f) [nr - length carry..<length f] =
          filter (magic_at f) [base..<nr' - 3] @ filter (magic_at f) [nr' - 3..<length f]"
        by (simp add: base_def)
      then show ?thesis
        using False by (simp add: step here here' IH collect_append)
    qed
  qed
qed

text \<open>
  The chunked scan finds the magic at every offset behind the header and at no other,
  chunk boundaries included, and probes the offsets in file order.
\<close>
lemma scan_for_footer_candidates_eq:
  "scan_for_footer_candidates h b f =
     collect (read_toc_footer h b f) (filter (magic_at f) [HEADER_SIZE..<length f])"
  using scan_loop_collect [of HEADER_SIZE f "[]" "read_toc_footer h b f"]
  by (auto simp: scan_for_footer_candidates_def slice_def)

section \<open>Choosing the anchor\<close>

type_synonym 'st loader = "storage \<Rightarrow> toc_footer \<Rightarrow> 'st result"

abbreviation footer_generation :: "toc_footer \<Rightarrow> u64" where
  "footer_generation footer \<equiv> tb_snapshot_generation (tf_body footer)"

definition footer_digest :: "hash \<Rightarrow> create_contract bincode \<Rightarrow> toc_footer \<Rightarrow> checksum result" where
  "footer_digest h cb footer = contract_digest h cb (tb_create_contract (tf_body footer))"

definition check_footer_contract ::
  "hash \<Rightarrow> create_contract bincode \<Rightarrow> toc_footer \<Rightarrow> header \<Rightarrow> unit result" where
  "check_footer_contract h cb footer hdr =
     rbind (footer_digest h cb footer) (\<lambda>d.
       if d \<noteq> hd_create_contract_digest hdr then Inl (Integrity ''create-contract digest mismatch'')
       else Inr ())"

text \<open>
  \<open>groups\<close> as an association list in order of first vote. The source's \<open>HashMap\<close> has no
  order, which does not matter: two groups never share their lowest offset, so the
  maximum is unique.
\<close>
type_synonym vote_group = "checksum \<times> nat \<times> nat"

fun add_vote :: "checksum \<Rightarrow> nat \<Rightarrow> vote_group list \<Rightarrow> vote_group list" where
  "add_vote d off [] = [(d, 1, min (2 ^ 64 - 1) off)]"
| "add_vote d off ((d', votes, lowest) # gs) =
     (if d = d' then (d', votes + 1, min lowest off) # gs
      else (d', votes, lowest) # add_vote d off gs)"

definition group_greater :: "vote_group \<Rightarrow> vote_group \<Rightarrow> bool" where
  "group_greater a b = (case (a, b) of ((_, va, la), (_, vb, lb)) \<Rightarrow> vb < va \<or> (va = vb \<and> la < lb))"

text \<open>\<open>max_by\<close>: a later element replaces the current one unless that is greater.\<close>
definition max_group :: "vote_group list \<Rightarrow> vote_group option" where
  "max_group gs = fold (\<lambda>g acc. case acc of None \<Rightarrow> Some g
      | Some m \<Rightarrow> Some (if group_greater m g then m else g)) gs None"

definition digestible :: "hash \<Rightarrow> create_contract bincode \<Rightarrow> footer_candidate list \<Rightarrow>
    (checksum \<times> footer_candidate) list" where
  "digestible h cb cs = concat (map (\<lambda>c. case footer_digest h cb (fc_footer c) of
      Inr d \<Rightarrow> [(d, c)] | Inl _ \<Rightarrow> []) cs)"

definition footer_consensus_candidates ::
  "hash \<Rightarrow> create_contract bincode \<Rightarrow> footer_candidate list \<Rightarrow> footer_candidate list" where
  "footer_consensus_candidates h cb candidates =
     (let ds = digestible h cb candidates in
      if length ds = 1 then [snd (hd ds)]
      else
        let groups = fold (\<lambda>(d, c). add_vote d (unat (fc_offset c))) ds [] in
        (case max_group groups of
           Some (digest, votes, _) \<Rightarrow>
             if 2 \<le> votes then map snd (filter (\<lambda>(d, c). d = digest) ds) else []
         | None \<Rightarrow> []))"

text \<open>Highest generation first, later offset first on a tie (a stable sort).\<close>
definition candidate_key :: "footer_candidate \<Rightarrow> nat \<times> nat" where
  "candidate_key c = (2 ^ 64 - unat (footer_generation (fc_footer c)), 2 ^ 64 - unat (fc_offset c))"

fun try_candidates :: "'st loader \<Rightarrow> storage \<Rightarrow> footer_candidate list \<Rightarrow>
    (u64 \<times> toc_footer \<times> 'st) result" where
  "try_candidates load f [] = Inl (Integrity ''open: scan-back found no recoverable snapshot'')"
| "try_candidates load f (c # cs) =
     rbind (skip_err (load f (fc_footer c))) (\<lambda>r. case r of
       Some st \<Rightarrow> Inr (fc_offset c, fc_footer c, st)
     | None \<Rightarrow> try_candidates load f cs)"

definition eligible_candidates ::
  "hash \<Rightarrow> create_contract bincode \<Rightarrow> header \<Rightarrow> footer_candidate list \<Rightarrow> footer_candidate list" where
  "eligible_candidates h cb hdr scanned =
     (let anchored = filter (\<lambda>c. is_ok (check_footer_contract h cb (fc_footer c) hdr)) scanned;
          unanchored = filter (\<lambda>c. \<not> is_ok (check_footer_contract h cb (fc_footer c) hdr)) scanned
      in if anchored = [] \<and> unanchored \<noteq> [] then footer_consensus_candidates h cb unanchored
         else anchored)"

definition recover_via_scan ::
  "hash \<Rightarrow> toc_bincode \<Rightarrow> create_contract bincode \<Rightarrow> 'st loader \<Rightarrow> storage \<Rightarrow> header \<Rightarrow>
     (u64 \<times> toc_footer \<times> 'st) result" where
  "recover_via_scan h b cb load f hdr =
     rbind (scan_for_footer_candidates h b f) (\<lambda>scanned.
       try_candidates load f (sort_key candidate_key (eligible_candidates h cb hdr scanned)))"

definition resolve_footer_state ::
  "hash \<Rightarrow> toc_bincode \<Rightarrow> create_contract bincode \<Rightarrow> 'st loader \<Rightarrow> storage \<Rightarrow> header \<Rightarrow>
     (u64 \<times> toc_footer \<times> 'st) result" where
  "resolve_footer_state h b cb load f hdr =
     rbind (skip_err (rbind (read_toc_footer h b f (hd_footer_offset hdr)) (\<lambda>footer.
              rbind (check_footer_contract h cb footer hdr) (\<lambda>_. Inr footer)))) (\<lambda>primary.
       case primary of
         None \<Rightarrow> recover_via_scan h b cb load f hdr
       | Some footer \<Rightarrow>
           if footer_generation footer = hd_snapshot_generation hdr then
             rbind (skip_err (load f footer)) (\<lambda>r. case r of
               Some st \<Rightarrow> Inr (hd_footer_offset hdr, footer, st)
             | None \<Rightarrow> recover_via_scan h b cb load f hdr)
           else recover_via_scan h b cb load f hdr)"

section \<open>Facts about recovery\<close>

lemma skip_err_Inr:
  "skip_err r = Inr (Some v) \<longleftrightarrow> r = Inr v"
  "skip_err r = Inr None \<longleftrightarrow> (\<exists>e. r = Inl e \<and> (\<forall>m. e \<noteq> Panic m))"
  by (auto simp: skip_err_def split: sum.splits error.splits)

lemma skip_err_ok [simp]: "skip_err (Inr v) = Inr (Some v)"
  by (simp add: skip_err_def)

lemma skip_err_panic [simp]: "skip_err (Inl (Panic m)) = Inl (Panic m)"
  by (simp add: skip_err_def)

definition panics :: "'a result \<Rightarrow> bool" where
  "panics r \<longleftrightarrow> (\<exists>m. r = Inl (Panic m))"

lemma skip_err_no_panic: "\<not> panics r \<Longrightarrow> \<exists>v. skip_err r = Inr v"
  by (auto simp: panics_def skip_err_def split: sum.splits error.splits)

lemma probe_Inr:
  "probe rd off = Inr cs \<Longrightarrow>
   set cs = {c. fc_offset c = of_nat off \<and> rd (of_nat off) = Inr (fc_footer c)}"
proof -
  assume "probe rd off = Inr cs"
  then obtain r where r: "skip_err (rd (of_nat off)) = Inr r"
    and cs: "cs = (case r of Some footer \<Rightarrow> [\<lparr>fc_offset = of_nat off, fc_footer = footer\<rparr>] | None \<Rightarrow> [])"
    by (auto simp: probe_def rbind_Inr_iff)
  show ?thesis
  proof (cases r)
    case None
    then show ?thesis using r cs by (auto simp: skip_err_Inr)
  next
    case (Some footer)
    then have "rd (of_nat off) = Inr footer" using r by (simp add: skip_err_Inr)
    then show ?thesis using cs Some by auto
  qed
qed

lemma collect_Inr:
  "collect rd offs = Inr cs \<Longrightarrow>
   set cs = {c. \<exists>off\<in>set offs. fc_offset c = of_nat off \<and> rd (of_nat off) = Inr (fc_footer c)}"
proof (induction offs arbitrary: cs)
  case Nil
  then show ?case by simp
next
  case (Cons off offs)
  then obtain c cs' where p: "probe rd off = Inr c" and r: "collect rd offs = Inr cs'" and cs: "cs = c @ cs'"
    by (auto simp: rbind_Inr_iff)
  show ?case unfolding cs set_append probe_Inr [OF p] Cons.IH [OF r] by auto
qed

lemma collect_ok: "(\<And>off. off \<in> set offs \<Longrightarrow> \<not> panics (rd (of_nat off))) \<Longrightarrow> \<exists>cs. collect rd offs = Inr cs"
proof (induction offs)
  case Nil
  then show ?case by simp
next
  case (Cons off offs)
  then obtain v cs where "skip_err (rd (of_nat off)) = Inr v" "collect rd offs = Inr cs"
    using skip_err_no_panic [of "rd (of_nat off)"] by auto
  then show ?case by (simp add: probe_def)
qed

text \<open>A readable footer carries the magic.\<close>
lemma read_toc_footer_magic:
  assumes "read_toc_footer h b f off = Inr footer"
  shows "magic_at f (unat off)" and "unat off < length f"
proof -
  from assms obtain bs where l: "unat off + length bs \<le> length f"
    and bs: "bs = slice (unat off) (length bs) f" and d: "toc_decode h b bs = Inr (footer, length bs)"
    by (rule read_toc_footer_Inr)
  from toc_decode_Inr(2) [OF d] have m: "slice 0 4 bs = TOC_MAGIC"
    and n: "TOC_HEADER_LEN \<le> length bs"
    by (auto simp: toc_total_len_Inr)
  then have 4: "88 \<le> length bs" by (simp add: TOC_HEADER_LEN_def)
  have "slice 0 4 bs = slice (unat off) 4 f"
    using 4 by (subst bs) (simp add: slice_def)
  then show "magic_at f (unat off)" using m l 4 by (simp add: magic_at_def)
  show "unat off < length f" using l 4 by simp
qed

text \<open>The scan returns exactly the readable footers behind the header.\<close>
lemma scan_candidates:
  assumes "scan_for_footer_candidates h b f = Inr cs" and lf: "length f < 2 ^ 63"
  shows "c \<in> set cs \<longleftrightarrow>
    HEADER_SIZE \<le> unat (fc_offset c) \<and> read_toc_footer h b f (fc_offset c) = Inr (fc_footer c)"
proof -
  have cs: "set cs = {c. \<exists>off\<in>set (filter (magic_at f) [HEADER_SIZE..<length f]).
      fc_offset c = of_nat off \<and> read_toc_footer h b f (of_nat off) = Inr (fc_footer c)}"
    using assms(1) by (intro collect_Inr) (simp add: scan_for_footer_candidates_eq)
  show ?thesis
  proof
    assume "c \<in> set cs"
    then obtain off where "HEADER_SIZE \<le> off" "off < length f" "fc_offset c = of_nat off"
      "read_toc_footer h b f (of_nat off) = Inr (fc_footer c)"
      by (auto simp: cs)
    then show "HEADER_SIZE \<le> unat (fc_offset c) \<and> read_toc_footer h b f (fc_offset c) = Inr (fc_footer c)"
      using lf by (simp add: unat_of_nat_eq)
  next
    assume c: "HEADER_SIZE \<le> unat (fc_offset c) \<and> read_toc_footer h b f (fc_offset c) = Inr (fc_footer c)"
    with read_toc_footer_magic [of h b f "fc_offset c" "fc_footer c"]
    have "unat (fc_offset c) \<in> set (filter (magic_at f) [HEADER_SIZE..<length f])" by simp
    then show "c \<in> set cs"
      unfolding cs using c by (intro CollectI bexI [of _ "unat (fc_offset c)"]) simp_all
  qed
qed

lemma try_candidates_Inr:
  "try_candidates load f cs = Inr (off, footer, st) \<Longrightarrow>
   \<exists>pre c post. cs = pre @ c # post \<and> off = fc_offset c \<and> footer = fc_footer c \<and>
     load f footer = Inr st \<and> (\<forall>p\<in>set pre. \<not> is_ok (load f (fc_footer p)))"
proof (induction cs)
  case Nil
  then show ?case by simp
next
  case (Cons c cs)
  then obtain r where r: "skip_err (load f (fc_footer c)) = Inr r"
    and rest: "(case r of Some st \<Rightarrow> Inr (fc_offset c, fc_footer c, st) | None \<Rightarrow> try_candidates load f cs) =
      Inr (off, footer, st)"
    by (auto simp: rbind_Inr_iff)
  show ?case
  proof (cases r)
    case (Some st')
    then have "c # cs = [] @ c # cs \<and> off = fc_offset c \<and> footer = fc_footer c \<and> load f footer = Inr st"
      using r rest by (auto simp: skip_err_Inr)
    then show ?thesis by (metis empty_iff list.set(1))
  next
    case None
    then obtain pre d post where "cs = pre @ d # post" "off = fc_offset d" "footer = fc_footer d"
      "load f footer = Inr st" "\<forall>p\<in>set pre. \<not> is_ok (load f (fc_footer p))"
      using Cons.IH rest by auto
    moreover have "\<not> is_ok (load f (fc_footer c))" using r None by (auto simp: skip_err_Inr)
    ultimately show ?thesis by (intro exI [of _ "c # pre"]) auto
  qed
qed

text \<open>Only the candidates in front of a loadable one matter.\<close>
lemma try_candidates_front:
  "load f (fc_footer c) = Inr st \<Longrightarrow> (\<And>d. d \<in> set pre \<Longrightarrow> \<not> panics (load f (fc_footer d))) \<Longrightarrow>
   \<exists>r. try_candidates load f (pre @ c # post) = Inr r"
proof (induction pre)
  case (Cons d pre)
  then obtain r where "skip_err (load f (fc_footer d)) = Inr r"
    using skip_err_no_panic [of "load f (fc_footer d)"] by auto
  then show ?case using Cons by (cases r) auto
qed simp

text \<open>The list is walked from the highest generation down.\<close>
lemma candidate_key_le:
  "candidate_key c \<le> candidate_key d \<longleftrightarrow>
     unat (footer_generation (fc_footer d)) < unat (footer_generation (fc_footer c)) \<or>
     footer_generation (fc_footer d) = footer_generation (fc_footer c) \<and> fc_offset d \<le> fc_offset c"
proof -
  have b: "unat x < 2 ^ 64" for x :: u64 using unsigned_less [where ?'a = nat, of x] by simp
  have lt: "2 ^ 64 - unat x < 2 ^ 64 - unat y \<longleftrightarrow> unat y < unat x" for x y :: u64
    using b [of x] b [of y] by linarith
  have le: "2 ^ 64 - unat x \<le> 2 ^ 64 - unat y \<longleftrightarrow> unat y \<le> unat x" for x y :: u64
    using b [of x] b [of y] by linarith
  have eq: "2 ^ 64 - unat x = 2 ^ 64 - unat y \<longleftrightarrow> x = y" for x y :: u64
    using b [of x] b [of y] by (auto simp: word_unat_eq_iff)
  show ?thesis
    unfolding candidate_key_def less_eq_prod_simp lt le eq word_le_nat_alt
    by (auto simp: word_unat_eq_iff)
qed

lemma recover_via_scan_Inr:
  assumes "recover_via_scan h b cb load f hdr = Inr (off, footer, st)"
  obtains scanned c where "scan_for_footer_candidates h b f = Inr scanned"
    "c \<in> set (eligible_candidates h cb hdr scanned)" "off = fc_offset c" "footer = fc_footer c"
    "load f footer = Inr st"
    "\<And>d. d \<in> set (eligible_candidates h cb hdr scanned) \<Longrightarrow> is_ok (load f (fc_footer d)) \<Longrightarrow>
       candidate_key c \<le> candidate_key d"
proof -
  from assms obtain scanned where sc: "scan_for_footer_candidates h b f = Inr scanned"
    and t: "try_candidates load f (sort_key candidate_key (eligible_candidates h cb hdr scanned)) =
      Inr (off, footer, st)"
    by (auto simp: recover_via_scan_def rbind_Inr_iff)
  let ?e = "eligible_candidates h cb hdr scanned"
  from try_candidates_Inr [OF t] obtain pre c post where e: "sort_key candidate_key ?e = pre @ c # post"
    and c: "off = fc_offset c" "footer = fc_footer c" "load f footer = Inr st"
    and pre: "\<forall>p\<in>set pre. \<not> is_ok (load f (fc_footer p))"
    by blast
  have s: "set ?e = set (pre @ c # post)" using arg_cong [OF e, of set] by simp
  have "sorted (map candidate_key (pre @ c # post))" using sorted_sort_key [of candidate_key ?e] e by simp
  then have "candidate_key c \<le> candidate_key d" if "d \<in> set ?e" "is_ok (load f (fc_footer d))" for d
    using that pre s by (auto simp: sorted_append)
  then show ?thesis using that [OF sc _ c] s by auto
qed

lemma eligible_subset: "set (eligible_candidates h cb hdr scanned) \<subseteq> set scanned"
proof -
  have "set (footer_consensus_candidates h cb cs) \<subseteq> set cs" for cs
  proof -
    have d: "snd ` set (digestible h cb cs) \<subseteq> set cs"
      by (auto simp: digestible_def split: sum.splits)
    show ?thesis
    proof (cases "length (digestible h cb cs) = 1")
      case True
      then have "hd (digestible h cb cs) \<in> set (digestible h cb cs)" by (intro hd_in_set) auto
      with True d show ?thesis by (auto simp: footer_consensus_candidates_def Let_def)
    next
      case False
      with d show ?thesis
        by (auto simp: footer_consensus_candidates_def Let_def split: option.splits if_splits)
    qed
  qed
  then show ?thesis
    unfolding eligible_candidates_def Let_def by (fastforce split: if_splits)
qed

lemma eligible_anchored:
  assumes "c \<in> set scanned" and "check_footer_contract h cb (fc_footer c) hdr = Inr ()"
  shows "eligible_candidates h cb hdr scanned =
    filter (\<lambda>c. is_ok (check_footer_contract h cb (fc_footer c) hdr)) scanned"
proof -
  have "filter (\<lambda>c. is_ok (check_footer_contract h cb (fc_footer c) hdr)) scanned \<noteq> []"
    using assms is_ok_simps(1) [of "()"] by (metis filter_empty_conv)
  then show ?thesis by (simp add: eligible_candidates_def Let_def)
qed

lemma resolve_cases:
  assumes "resolve_footer_state h b cb load f hdr = Inr (off, footer, st)"
  shows "(off = hd_footer_offset hdr \<and> read_toc_footer h b f off = Inr footer \<and>
      check_footer_contract h cb footer hdr = Inr () \<and>
      footer_generation footer = hd_snapshot_generation hdr \<and> load f footer = Inr st) \<or>
    recover_via_scan h b cb load f hdr = Inr (off, footer, st)"
  using assms
  by (auto simp: resolve_footer_state_def rbind_Inr_iff skip_err_Inr split: option.splits if_splits)

text \<open>
  C2: Opening a file never serves a snapshot that is not in it: whatever footer
  \<open>resolve_footer_state\<close> anchors the open on, on the fast path or after a scan, is
  the footer that decodes, with both checksums, at the returned offset of the file, and
  the returned state is what loading that footer's roots gave.
\<close>
theorem resolve_sound:
  assumes "resolve_footer_state h b cb load f hdr = Inr (off, footer, st)" and "length f < 2 ^ 63"
  shows "read_toc_footer h b f off = Inr footer \<and> load f footer = Inr st"
  using resolve_cases [OF assms(1)]
proof
  assume "recover_via_scan h b cb load f hdr = Inr (off, footer, st)"
  then obtain scanned c where sc: "scan_for_footer_candidates h b f = Inr scanned"
    and c: "c \<in> set (eligible_candidates h cb hdr scanned)" "off = fc_offset c" "footer = fc_footer c"
      "load f footer = Inr st"
    by (rule recover_via_scan_Inr)
  have "c \<in> set scanned" using c(1) eligible_subset by (rule subsetD [rotated])
  then show ?thesis using scan_candidates [OF sc assms(2), of c] c by simp
qed blast

text \<open>A footer found behind the header, with the contract of the header, that loads, anchors recovery.\<close>
lemma recover_newest_here:
  assumes "recover_via_scan h b cb load f hdr = Inr (off, footer, st)" and "length f < 2 ^ 63"
    and "HEADER_SIZE \<le> unat off'" and "read_toc_footer h b f off' = Inr footer'"
    and "check_footer_contract h cb footer' hdr = Inr ()" and "load f footer' = Inr st'"
  shows "HEADER_SIZE \<le> unat off" and "read_toc_footer h b f off = Inr footer"
    and "check_footer_contract h cb footer hdr = Inr ()" and "load f footer = Inr st"
    and "footer_generation footer' < footer_generation footer \<or>
      footer_generation footer' = footer_generation footer \<and> off' \<le> off"
proof -
  from assms(1) obtain scanned c where sc: "scan_for_footer_candidates h b f = Inr scanned"
    and e: "c \<in> set (eligible_candidates h cb hdr scanned)"
    and c: "off = fc_offset c" "footer = fc_footer c" and l: "load f footer = Inr st"
    and best: "\<And>d. d \<in> set (eligible_candidates h cb hdr scanned) \<Longrightarrow> is_ok (load f (fc_footer d)) \<Longrightarrow>
       candidate_key c \<le> candidate_key d"
    by (rule recover_via_scan_Inr) blast
  define d where "d = \<lparr>fc_offset = off', fc_footer = footer'\<rparr>"
  have d: "d \<in> set scanned" using scan_candidates [OF sc assms(2), of d] assms(3,4) by (simp add: d_def)
  have dc: "check_footer_contract h cb (fc_footer d) hdr = Inr ()" using assms(5) by (simp add: d_def)
  note el = eligible_anchored [OF d dc]
  have "d \<in> set (eligible_candidates h cb hdr scanned)" using d dc by (simp add: el)
  then have "candidate_key c \<le> candidate_key d" using assms(6) by (intro best) (simp_all add: d_def)
  then show "footer_generation footer' < footer_generation footer \<or>
      footer_generation footer' = footer_generation footer \<and> off' \<le> off"
    by (simp add: candidate_key_le c d_def word_less_nat_alt)
  have cs: "c \<in> set scanned" and ok: "is_ok (check_footer_contract h cb (fc_footer c) hdr)"
    using e by (auto simp: el)
  show "HEADER_SIZE \<le> unat off" "read_toc_footer h b f off = Inr footer"
    using scan_candidates [OF sc assms(2), of c] cs c by simp_all
  show "check_footer_contract h cb footer hdr = Inr ()" using ok c by (auto simp: is_ok_def split: sum.splits)
  show "load f footer = Inr st" by (rule l)
qed

text \<open>
  C3: Scan-back recovery picks the newest recoverable snapshot of this file: when some footer
  behind the header carries the header's contract digest and loads, the footer that recovery
  returns decodes at its offset, carries that contract digest as well (a footer copied in from
  another file is never served then) and loads, and no footer of the contract whose roots
  load has a higher generation, nor the same generation at a later offset.
\<close>
theorem recover_newest:
  assumes "recover_via_scan h b cb load f hdr = Inr (off, footer, st)" and "length f < 2 ^ 63"
    and "HEADER_SIZE \<le> unat off'" and "read_toc_footer h b f off' = Inr footer'"
    and "check_footer_contract h cb footer' hdr = Inr ()" and "load f footer' = Inr st'"
  shows "HEADER_SIZE \<le> unat off \<and> read_toc_footer h b f off = Inr footer \<and>
    check_footer_contract h cb footer hdr = Inr () \<and> load f footer = Inr st \<and>
    (footer_generation footer' < footer_generation footer \<or>
     footer_generation footer' = footer_generation footer \<and> off' \<le> off)"
  using recover_newest_here [OF assms] by blast

text \<open>
  Recovery reaches a loadable footer of the contract when no footer that it tries earlier
  makes the load panic.
\<close>
lemma recover_reaches:
  assumes "length f < 2 ^ 63"
    and "HEADER_SIZE \<le> unat off'" and "read_toc_footer h b f off' = Inr footer'"
    and "check_footer_contract h cb footer' hdr = Inr ()" and l: "load f footer' = Inr st'"
    and np: "\<forall>off. HEADER_SIZE \<le> unat off \<longrightarrow> \<not> panics (read_toc_footer h b f off)"
    and nl: "\<And>off x. HEADER_SIZE \<le> unat off \<Longrightarrow> read_toc_footer h b f off = Inr x \<Longrightarrow>
      check_footer_contract h cb x hdr = Inr () \<Longrightarrow>
      footer_generation footer' < footer_generation x \<or>
        footer_generation footer' = footer_generation x \<and> off' \<le> off \<Longrightarrow> \<not> panics (load f x)"
  shows "\<exists>r. recover_via_scan h b cb load f hdr = Inr r"
proof -
  have "\<exists>scanned. scan_for_footer_candidates h b f = Inr scanned"
    unfolding scan_for_footer_candidates_eq
    by (rule collect_ok) (use np assms(1) in \<open>auto simp: unat_of_nat_eq\<close>)
  then obtain scanned where sc: "scan_for_footer_candidates h b f = Inr scanned" ..
  define d where "d = \<lparr>fc_offset = off', fc_footer = footer'\<rparr>"
  let ?e = "eligible_candidates h cb hdr scanned"
  have d: "d \<in> set scanned" using scan_candidates [OF sc assms(1), of d] assms(2,3) by (simp add: d_def)
  have dc: "check_footer_contract h cb (fc_footer d) hdr = Inr ()" using assms(4) by (simp add: d_def)
  note el = eligible_anchored [OF d dc]
  have "d \<in> set (sort_key candidate_key ?e)" using d dc by (simp add: el)
  then obtain pre post where pp: "sort_key candidate_key ?e = pre @ d # post" by (meson split_list)
  have srt: "sorted (map candidate_key (pre @ d # post))" using sorted_sort_key [of candidate_key ?e] pp by simp
  have "\<not> panics (load f (fc_footer x))" if x: "x \<in> set pre" for x
  proof (rule nl)
    have "x \<in> set (sort_key candidate_key ?e)" using x by (simp add: pp)
    then have "x \<in> set scanned" and ok: "is_ok (check_footer_contract h cb (fc_footer x) hdr)"
      by (auto simp: el)
    then show "HEADER_SIZE \<le> unat (fc_offset x)" "read_toc_footer h b f (fc_offset x) = Inr (fc_footer x)"
      using scan_candidates [OF sc assms(1), of x] by simp_all
    show "check_footer_contract h cb (fc_footer x) hdr = Inr ()"
      using ok by (auto simp: is_ok_def split: sum.splits)
    have "candidate_key x \<le> candidate_key d" using srt x by (auto simp: sorted_append)
    then show "footer_generation footer' < footer_generation (fc_footer x) \<or>
        footer_generation footer' = footer_generation (fc_footer x) \<and> off' \<le> fc_offset x"
      by (simp add: candidate_key_le d_def word_less_nat_alt)
  qed
  then have "\<exists>r. try_candidates load f (pre @ d # post) = Inr r"
    using l by (intro try_candidates_front [where st = st']) (simp_all add: d_def)
  then show ?thesis by (simp add: recover_via_scan_def sc pp)
qed

lemma resolve_reaches:
  assumes rec: "\<exists>r. recover_via_scan h b cb load f hdr = Inr r"
    and "\<not> panics (read_toc_footer h b f (hd_footer_offset hdr))"
    and nl: "\<And>x. read_toc_footer h b f (hd_footer_offset hdr) = Inr x \<Longrightarrow>
      check_footer_contract h cb x hdr = Inr () \<Longrightarrow>
      footer_generation x = hd_snapshot_generation hdr \<Longrightarrow> \<not> panics (load f x)"
  shows "\<exists>off footer st. resolve_footer_state h b cb load f hdr = Inr (off, footer, st)"
proof -
  let ?p = "rbind (read_toc_footer h b f (hd_footer_offset hdr)) (\<lambda>footer.
              rbind (check_footer_contract h cb footer hdr) (\<lambda>_. Inr footer))"
  have "\<not> panics ?p"
    using assms(2) by (auto simp: panics_def rbind_Inl_iff check_footer_contract_def footer_digest_def
        contract_digest_def contract_encode_def bincode_encode_def ok_or_def split: if_splits option.splits)
  from skip_err_no_panic [OF this] obtain p where p: "skip_err ?p = Inr p" ..
  show ?thesis
  proof (cases p)
    case None
    then show ?thesis using p rec by (auto simp: resolve_footer_state_def)
  next
    case (Some footer)
    show ?thesis
    proof (cases "footer_generation footer = hd_snapshot_generation hdr")
      case True
      have "read_toc_footer h b f (hd_footer_offset hdr) = Inr footer"
        "check_footer_contract h cb footer hdr = Inr ()"
        using p Some by (auto simp: skip_err_Inr rbind_Inr_iff)
      then obtain r where r: "skip_err (load f footer) = Inr r" using skip_err_no_panic nl True by blast
      show ?thesis using p Some r rec True by (cases r) (auto simp: resolve_footer_state_def)
    next
      case False
      then show ?thesis using p Some rec by (auto simp: resolve_footer_state_def)
    qed
  qed
qed

lemma resolve_complete_here:
  assumes "length f < 2 ^ 63"
    and "HEADER_SIZE \<le> unat off'" and "read_toc_footer h b f off' = Inr footer'"
    and "check_footer_contract h cb footer' hdr = Inr ()" and "load f footer' = Inr st'"
    and np: "\<forall>off. HEADER_SIZE \<le> unat off \<or> off = hd_footer_offset hdr \<longrightarrow>
      \<not> panics (read_toc_footer h b f off)" and nl: "\<forall>footer. \<not> panics (load f footer)"
  shows "\<exists>off footer st. resolve_footer_state h b cb load f hdr = Inr (off, footer, st)"
proof (rule resolve_reaches)
  show "\<exists>r. recover_via_scan h b cb load f hdr = Inr r"
    by (rule recover_reaches [where load = load, OF assms(1-5)]) (use np nl in auto)
qed (use np nl in auto)

text \<open>
  C4: A recoverable snapshot is recovered: when some footer behind the header carries the
  header's contract digest and loads, and no probe or load panics, opening succeeds,
  whatever the header's footer offset and generation say.
\<close>
theorem resolve_complete:
  assumes "length f < 2 ^ 63"
    and "HEADER_SIZE \<le> unat off'" and "read_toc_footer h b f off' = Inr footer'"
    and "check_footer_contract h cb footer' hdr = Inr ()" and "load f footer' = Inr st'"
    and "\<forall>off. HEADER_SIZE \<le> unat off \<or> off = hd_footer_offset hdr \<longrightarrow>
      \<not> panics (read_toc_footer h b f off)" and "\<forall>footer. \<not> panics (load f footer)"
  shows "\<exists>off footer st. resolve_footer_state h b cb load f hdr = Inr (off, footer, st)"
  using assms by (rule resolve_complete_here)

section \<open>Footer consensus\<close>

text \<open>The footers among the candidates that carry the contract with digest \<open>d\<close>.\<close>
definition votes_for :: "hash \<Rightarrow> create_contract bincode \<Rightarrow> footer_candidate list \<Rightarrow> checksum \<Rightarrow> nat" where
  "votes_for h cb cs d = length (filter (\<lambda>c. footer_digest h cb (fc_footer c) = Inr d) cs)"

lemma set_digestible:
  "(d, c) \<in> set (digestible h cb cs) \<longleftrightarrow> c \<in> set cs \<and> footer_digest h cb (fc_footer c) = Inr d"
  by (auto simp: digestible_def split: sum.splits)

lemma digestible_simps:
  "digestible h cb [] = []"
  "digestible h cb (c # cs) = (case footer_digest h cb (fc_footer c) of
      Inr d \<Rightarrow> [(d, c)] | Inl _ \<Rightarrow> []) @ digestible h cb cs"
  by (simp_all add: digestible_def)

lemma votes_digestible:
  "length (filter (\<lambda>(d', c). d' = d) (digestible h cb cs)) = votes_for h cb cs d"
  by (induction cs) (auto simp: digestible_simps votes_for_def split: sum.splits)

lemma add_vote_fst: "fst ` set (add_vote d off gs) = insert d (fst ` set gs)"
  by (induction d off gs rule: add_vote.induct) auto

lemma add_vote_distinct: "distinct (map fst gs) \<Longrightarrow> distinct (map fst (add_vote d off gs))"
proof (induction d off gs rule: add_vote.induct)
  case (2 d off d' v l gs)
  then show ?case using add_vote_fst [of d off gs] by (auto simp: image_iff)
qed simp

lemma map_of_add_vote:
  "map_of (add_vote d off gs) e =
    (if e = d then Some (case map_of gs d of None \<Rightarrow> (1, min (2 ^ 64 - 1) off)
                         | Some (v, l) \<Rightarrow> (v + 1, min l off))
     else map_of gs e)"
  by (induction d off gs rule: add_vote.induct) auto

text \<open>The groups after the loop: the count and the least offset of each digest.\<close>
definition voters :: "checksum \<Rightarrow> (checksum \<times> footer_candidate) list \<Rightarrow> nat list" where
  "voters e ds = map (\<lambda>(d, c). unat (fc_offset c)) (filter (\<lambda>(d, c). d = e) ds)"

lemma voters_simps:
  "voters e [] = []"
  "voters e ((d, c) # ds) = (if d = e then [unat (fc_offset c)] else []) @ voters e ds"
  "voters e (ds @ ds') = voters e ds @ voters e ds'"
  by (simp_all add: voters_def)

lemma voters_Nil: "voters e ds = [] \<longleftrightarrow> (\<forall>x\<in>set ds. fst x \<noteq> e)"
  by (auto simp: voters_def filter_empty_conv)

abbreviation count_votes :: "(checksum \<times> footer_candidate) list \<Rightarrow> vote_group list" where
  "count_votes ds \<equiv> fold (\<lambda>(d, c). add_vote d (unat (fc_offset c))) ds []"

lemma groups_voters:
  "map_of (count_votes ds) e =
    (if voters e ds = [] then None else Some (length (voters e ds), Min (set (voters e ds))))"
proof (induction ds rule: rev_induct)
  case Nil
  then show ?case by (simp add: voters_def)
next
  case (snoc x ds)
  obtain d c where x: "x = (d, c)" by (cases x)
  have le: "unat (fc_offset c) \<le> 2 ^ 64 - 1"
    using unsigned_less [of "fc_offset c", where ?'a = nat] by simp
  note v = voters_simps
  show ?case
  proof (cases "e = d")
    case False
    then show ?thesis using snoc by (simp add: v x map_of_add_vote)
  next
    case True
    show ?thesis
    proof (cases "voters d ds = []")
      case empty: True
      then show ?thesis using snoc le True by (simp add: v x map_of_add_vote)
    next
      case False
      then have "Min (insert (unat (fc_offset c)) (set (voters d ds))) =
          min (unat (fc_offset c)) (Min (set (voters d ds)))" by (intro Min_insert) auto
      then show ?thesis using snoc False True by (simp add: v x map_of_add_vote min.commute)
    qed
  qed
qed

lemma groups_distinct: "distinct (map fst (count_votes ds))"
  by (induction ds rule: rev_induct) (auto simp: add_vote_distinct)

text \<open>\<open>max_by\<close> returns a group that no other group beats.\<close>
definition group_le :: "vote_group \<Rightarrow> vote_group \<Rightarrow> bool" where
  "group_le a b \<longleftrightarrow> fst (snd a) < fst (snd b) \<or> fst (snd a) = fst (snd b) \<and> snd (snd b) \<le> snd (snd a)"

lemma group_le_trans: "group_le a b \<Longrightarrow> group_le b c \<Longrightarrow> group_le a c"
  by (auto simp: group_le_def)

lemma group_greater_le: "\<not> group_greater a b \<longleftrightarrow> group_le a b" "group_greater a b \<Longrightarrow> group_le b a"
  by (cases a; cases b; auto simp: group_greater_def group_le_def)+

lemma max_group_spec:
  assumes "max_group gs = Some m"
  shows "m \<in> set gs" and "\<And>g. g \<in> set gs \<Longrightarrow> group_le g m"
proof -
  let ?f = "\<lambda>g acc. case acc of None \<Rightarrow> Some g | Some m \<Rightarrow> Some (if group_greater m g then m else g)"
  have "fold ?f gs acc = Some m \<Longrightarrow>
      (m \<in> set gs \<or> acc = Some m) \<and> (\<forall>g\<in>set gs. group_le g m) \<and> (\<forall>a. acc = Some a \<longrightarrow> group_le a m)" for acc
  proof (induction gs arbitrary: acc)
    case Nil
    then show ?case by (simp add: group_le_def)
  next
    case (Cons g gs)
    obtain a where a: "?f g acc = Some a" by (cases acc) auto
    have ga: "group_le g a" "\<forall>x. acc = Some x \<longrightarrow> group_le x a" "a = g \<or> acc = Some a"
      using a group_greater_le
      by (auto simp: group_le_def split: option.splits if_splits)
    have "fold ?f gs (Some a) = Some m" using Cons.prems a by simp
    from Cons.IH [OF this] ga show ?case by (auto intro: group_le_trans)
  qed
  from this [of None] assms show "m \<in> set gs" "\<And>g. g \<in> set gs \<Longrightarrow> group_le g m"
    by (auto simp: max_group_def)
qed

lemma max_group_None: "max_group gs = None \<longleftrightarrow> gs = []"
proof -
  let ?f = "\<lambda>g acc. case acc of None \<Rightarrow> Some g | Some m \<Rightarrow> Some (if group_greater m g then m else g)"
  have "fold ?f xs (Some m) \<noteq> None" for m xs
    by (induction xs arbitrary: m) (auto split: option.splits)
  then show ?thesis by (cases gs) (simp_all add: max_group_def)
qed

text \<open>
  The contract that consensus admits: the one with the most footers, the one of the oldest
  footer among equals, and that only with two footers or without a competitor.
\<close>
definition lowest_offset ::
  "hash \<Rightarrow> create_contract bincode \<Rightarrow> footer_candidate list \<Rightarrow> checksum \<Rightarrow> nat" where
  "lowest_offset h cb cs d =
     Min ((\<lambda>c. unat (fc_offset c)) ` {c \<in> set cs. footer_digest h cb (fc_footer c) = Inr d})"

definition admitted ::
  "hash \<Rightarrow> create_contract bincode \<Rightarrow> footer_candidate list \<Rightarrow> checksum \<Rightarrow> bool" where
  "admitted h cb cs d \<longleftrightarrow> 0 < votes_for h cb cs d \<and>
     (\<forall>d'. d' \<noteq> d \<longrightarrow> votes_for h cb cs d' < votes_for h cb cs d \<or>
        votes_for h cb cs d' = votes_for h cb cs d \<and> lowest_offset h cb cs d < lowest_offset h cb cs d') \<and>
     (2 \<le> votes_for h cb cs d \<or> (\<forall>d'. d' \<noteq> d \<longrightarrow> votes_for h cb cs d' = 0))"

lemma filter_digestible:
  "filter (\<lambda>c. \<exists>d. footer_digest h cb (fc_footer c) = Inr d \<and> P d) cs =
   map snd (filter (\<lambda>(d, c). P d) (digestible h cb cs))"
  by (induction cs) (auto simp: digestible_simps split: sum.splits)

lemma voters_votes: "length (voters e (digestible h cb cs)) = votes_for h cb cs e"
  by (simp add: voters_def votes_digestible)

lemma voters_lowest: "Min (set (voters e (digestible h cb cs))) = lowest_offset h cb cs e"
proof -
  have "set (voters e (digestible h cb cs)) =
      (\<lambda>c. unat (fc_offset c)) ` {c \<in> set cs. footer_digest h cb (fc_footer c) = Inr e}"
    by (force simp: voters_def set_digestible)
  then show ?thesis by (simp add: lowest_offset_def)
qed

text \<open>Two digests never share their lowest offset.\<close>
lemma lowest_offset_inj:
  assumes dist: "distinct (map fc_offset cs)" and "0 < votes_for h cb cs d" "0 < votes_for h cb cs d'"
    and eq: "lowest_offset h cb cs d = lowest_offset h cb cs d'"
  shows "d = d'"
proof -
  have ex: "\<exists>c\<in>set cs. footer_digest h cb (fc_footer c) = Inr e \<and> unat (fc_offset c) = lowest_offset h cb cs e"
    if "0 < votes_for h cb cs e" for e
  proof -
    let ?S = "(\<lambda>c. unat (fc_offset c)) ` {c \<in> set cs. footer_digest h cb (fc_footer c) = Inr e}"
    have "?S \<noteq> {}" using that by (auto simp: votes_for_def filter_empty_conv)
    then have "Min ?S \<in> ?S" by (intro Min_in) auto
    then show ?thesis by (auto simp: lowest_offset_def)
  qed
  obtain c c' where c: "c \<in> set cs" "footer_digest h cb (fc_footer c) = Inr d"
      "unat (fc_offset c) = lowest_offset h cb cs d"
    and c': "c' \<in> set cs" "footer_digest h cb (fc_footer c') = Inr d'"
      "unat (fc_offset c') = lowest_offset h cb cs d'"
    using ex assms(2,3) by blast
  have "fc_offset c = fc_offset c'" using c(3) c'(3) eq by (simp add: word_unat_eq_iff)
  then have "c = c'" using dist c(1) c'(1) by (auto simp: distinct_map dest: inj_onD)
  then show ?thesis using c(2) c'(2) by simp
qed

lemma single_digestible:
  assumes "digestible h cb cs = [(d, c)]"
  shows "admitted h cb cs d" and "votes_for h cb cs e \<le> 1"
proof -
  have "votes_for h cb cs e = (if e = d then 1 else 0)" for e
    using voters_votes [of e h cb cs] by (cases "e = d") (simp_all add: assms voters_simps)
  then show "admitted h cb cs d" "votes_for h cb cs e \<le> 1" by (simp_all add: admitted_def)
qed

text \<open>With several votes, the group that \<open>max_by\<close> picks is the one admitted, if it has two.\<close>
lemma max_group_admitted:
  assumes dist: "distinct (map fc_offset cs)" and several: "length (digestible h cb cs) \<noteq> 1"
    and mx: "max_group (count_votes (digestible h cb cs)) = Some (d, v, l)"
  shows "votes_for h cb cs d = v" and "0 < v" and "votes_for h cb cs e \<le> v"
    and "admitted h cb cs e \<longleftrightarrow> e = d \<and> 2 \<le> v"
proof -
  let ?ds = "digestible h cb cs"
  have look: "map_of (count_votes ?ds) e =
      (if votes_for h cb cs e = 0 then None else Some (votes_for h cb cs e, lowest_offset h cb cs e))" for e
    using groups_voters [of ?ds e] voters_votes [of e h cb cs, symmetric] by (simp add: voters_lowest)
  have "map_of (count_votes ?ds) d = Some (v, l)"
    using max_group_spec(1) [OF mx] groups_distinct by (rule map_of_is_SomeI [rotated])
  then have d: "votes_for h cb cs d = v" "lowest_offset h cb cs d = l" "0 < v"
    using look [of d] by (auto split: if_splits)
  then show "votes_for h cb cs d = v" "0 < v" by simp_all
  have other: "votes_for h cb cs e < v \<or> votes_for h cb cs e = v \<and> l \<le> lowest_offset h cb cs e" for e
  proof (cases "votes_for h cb cs e = 0")
    case False
    then have "(e, votes_for h cb cs e, lowest_offset h cb cs e) \<in> set (count_votes ?ds)"
      using look [of e] by (intro map_of_SomeD) simp
    from max_group_spec(2) [OF mx this] show ?thesis by (simp add: group_le_def)
  qed (use d in simp)
  show "votes_for h cb cs e \<le> v" using other [of e] by auto
  have strict: "votes_for h cb cs e < v \<or> votes_for h cb cs e = v \<and> l < lowest_offset h cb cs e"
    if "e \<noteq> d" for e
    using other [of e] lowest_offset_inj [OF dist, of h cb d e] that d by fastforce
  show "admitted h cb cs e \<longleftrightarrow> e = d \<and> 2 \<le> v"
  proof (cases "e = d")
    case False
    then show ?thesis using strict [OF False] d by (auto simp: admitted_def dest!: spec [of _ d])
  next
    case True
    have "2 \<le> v" if none: "\<forall>e. e \<noteq> d \<longrightarrow> votes_for h cb cs e = 0"
    proof -
      have "x \<in> set ?ds \<Longrightarrow> fst x = d" for x
      proof (rule ccontr)
        assume x: "x \<in> set ?ds" and "fst x \<noteq> d"
        then have "voters (fst x) ?ds = []" using none voters_votes [of "fst x" h cb cs] by simp
        then show False using x by (auto simp: voters_Nil)
      qed
      then have "filter (\<lambda>(d', c). d' = d) ?ds = ?ds" by (intro filter_True) auto
      then have "length ?ds = v" using votes_digestible [of d h cb cs] d(1) by simp
      then show ?thesis using several d(3) by linarith
    qed
    then show ?thesis using True d strict by (auto simp: admitted_def)
  qed
qed

text \<open>
  C12: When the header's digest matches no footer, consensus over the footers of the file
  decides, and it decides exactly: the candidates it returns are, in file order, those of the
  admitted contract, which is the one that most footers carry, the one of the oldest footer
  when several have the same number, and which must be carried by two footers or be the
  only contract there is. Whenever two footers agree, the result is not empty.
\<close>
theorem consensus_majority:
  assumes "distinct (map fc_offset cs)"
  shows "footer_consensus_candidates h cb cs =
      filter (\<lambda>c. \<exists>d. footer_digest h cb (fc_footer c) = Inr d \<and> admitted h cb cs d) cs \<and>
    ((\<exists>d. 2 \<le> votes_for h cb cs d) \<longrightarrow> footer_consensus_candidates h cb cs \<noteq> [])"
proof (cases "length (digestible h cb cs) = 1")
  case True
  then obtain d c where ds: "digestible h cb cs = [(d, c)]" by (auto simp: length_Suc_conv)
  then show ?thesis
    using single_digestible [OF ds]
    by (auto simp: filter_digestible footer_consensus_candidates_def dest!: le_antisym intro: ccontr)
next
  case False
  let ?ds = "digestible h cb cs"
  have eq: "footer_consensus_candidates h cb cs = (case max_group (count_votes ?ds) of
      Some (digest, votes, _) \<Rightarrow> if 2 \<le> votes then map snd (filter (\<lambda>(d, c). d = digest) ?ds) else []
    | None \<Rightarrow> [])"
    using False unfolding footer_consensus_candidates_def Let_def by simp
  show ?thesis
  proof (cases "max_group (count_votes ?ds)")
    case None
    have "voters (fst x) ?ds = []" for x
      using groups_voters [of ?ds "fst x"] None by (auto simp: max_group_None split: if_splits)
    then have "?ds = []" by (metis voters_Nil list.set_intros(1) list.exhaust)
    then show ?thesis
      using votes_digestible [of _ h cb cs] by (simp add: eq filter_digestible max_group_def)
  next
    case (Some g)
    then obtain d v l where mx: "max_group (count_votes ?ds) = Some (d, v, l)" by (cases g) auto
    note m = max_group_admitted [OF assms False mx]
    have "filter (\<lambda>(d', c). d' = d) ?ds \<noteq> []"
      using m(1,2) votes_digestible [of d h cb cs] by auto
    moreover have "2 \<le> v" if "2 \<le> votes_for h cb cs e" for e using m(3) [of e] that by simp
    moreover have "footer_consensus_candidates h cb cs =
        (if 2 \<le> v then map snd (filter (\<lambda>(d', c). d' = d) ?ds) else [])"
      by (simp add: eq mx)
    moreover have "filter (\<lambda>c. \<exists>d. footer_digest h cb (fc_footer c) = Inr d \<and> admitted h cb cs d) cs =
        map snd (filter (\<lambda>(d', c). d' = d \<and> 2 \<le> v) ?ds)"
      by (simp only: filter_digestible m(4))
    ultimately show ?thesis by (cases "2 \<le> v") auto
  qed
qed

section \<open>A decoy that recovery cannot skip\<close>

lemma collect_Inl: "collect rd offs = Inl e \<Longrightarrow> \<exists>m. e = Panic m"
  by (induction offs) (auto simp: rbind_Inl_iff probe_def skip_err_def split: sum.splits error.splits)

lemma collect_panics:
  assumes "off \<in> set offs" and "panics (rd (of_nat off))"
  shows "panics (collect rd offs)"
proof (cases "collect rd offs")
  case (Inl e)
  then show ?thesis using collect_Inl [OF Inl] by (auto simp: panics_def)
next
  case (Inr cs)
  have "collect rd offs \<noteq> Inr cs" for cs
    using assms
    by (induction offs arbitrary: cs) (auto simp: rbind_Inr_iff probe_def panics_def)
  with Inr show ?thesis by simp
qed

lemma decoy_probe_panics:
  assumes lf: "length f < 2 ^ 63" and at: "0 < at" "at + TOC_HEADER_LEN \<le> length f"
    and hdr: "slice at 4 f = TOC_MAGIC" "slice (at + 4) 2 f = u16_le TOC_VERSION"
      "slice (at + 6) 2 f = u16_le (of_nat TOC_HEADER_LEN)"
      "slice (at + 16) 8 f = u64_le (of_nat (2 ^ 64 - 1 - TOC_HEADER_LEN))"
  shows "panics (read_toc_footer h b f (of_nat at))"
proof -
  let ?n = "2 ^ 64 - 1 :: nat" and ?H = TOC_HEADER_LEN
  have o: "unat (of_nat at :: u64) = at" using lf at by (simp add: unat_of_nat_eq)
  have o0: "(of_nat at :: u64) \<noteq> 0" using o at by auto
  have "0 < ?H" by (simp add: TOC_HEADER_LEN_def)
  with at have o1: "\<not> length f \<le> at" by linarith
  have r: "read_exact_at at ?H f = Inr (slice at ?H f)" using at by (simp add: read_exact_at_def)
  have sl: "slice k m (slice at ?H f) = slice (at + k) m f" if "k + m \<le> 88" for k m
    using that by (simp add: slice_def TOC_HEADER_LEN_def drop_take add.commute)
  have "unat (of_nat (2 ^ 64 - 1 - ?H) :: u64) = 2 ^ 64 - 1 - ?H"
    by (rule unat_of_nat_eq) (simp add: TOC_HEADER_LEN_def)
  then have len: "encoded_len_from_header (slice at ?H f) = Inr ?n"
    using hdr by (simp add: encoded_len_from_header_def toc_total_len_def sl)
      (simp add: TOC_HEADER_LEN_def)
  have m1: "(of_nat ?n :: u64) = - 1" 
    by (rule word_unat_eq_iff [THEN iffD2]) (simp add: unsigned_minus_1_eq_mask mask_eq_exp_minus_1)
  have "(of_nat at + of_nat ?n :: u64) = of_nat (at - 1)"
    unfolding m1 using at(1) by (simp add: of_nat_diff Suc_leI)
  moreover have "unat (of_nat (at - 1) :: u64) = at - 1"
    using lf at by (intro unat_of_nat_eq) simp
  ultimately have "unat (of_nat at + of_nat ?n :: u64) = at - 1" by metis
  then have eof: "\<not> length f < unat (of_nat at + of_nat ?n :: u64)" using o1 by simp
  show ?thesis
    using o0 o1 eof
    by (simp only: read_toc_footer_def o r len rbind_simps if_False simp_thms)
      (simp add: alloc_len_def panics_def)
qed

text \<open>
  C14: A decoy can stop recovery. The scan means to skip bytes that look like a footer but
  are none; 88 bytes of payload with the footer's magic, version and header length and a
  body length of \<open>2^64 - 89\<close> pass the unchecked bound \<open>offset + footer_len\<close>, which
  wraps, and the allocation of the body panics, so that the whole recovery unwinds
  instead of going on to the valid footers of the file.
\<close>
theorem decoy_aborts_recovery:
  assumes "length f < 2 ^ 63" and "HEADER_SIZE \<le> at" and "at + TOC_HEADER_LEN \<le> length f"
    and "slice at 4 f = TOC_MAGIC" and "slice (at + 4) 2 f = u16_le TOC_VERSION"
    and "slice (at + 6) 2 f = u16_le (of_nat TOC_HEADER_LEN)"
    and "slice (at + 16) 8 f = u64_le (of_nat (2 ^ 64 - 1 - TOC_HEADER_LEN))"
  shows "panics (recover_via_scan h b cb load f hdr)"
proof -
  have at: "0 < at" "at \<in> set (filter (magic_at f) [HEADER_SIZE..<length f])"
    using assms(2,3,4) by (auto simp: magic_at_def TOC_HEADER_LEN_def HEADER_SIZE_def)
  have "panics (scan_for_footer_candidates h b f)"
    unfolding scan_for_footer_candidates_eq
    by (rule collect_panics [OF at(2)], rule decoy_probe_panics [OF assms(1) at(1) assms(3-)])
  then show ?thesis by (auto simp: panics_def recover_via_scan_def)
qed

section \<open>A concrete file\<close>

text \<open>
  A hash, two codecs and a file with one footer, on which the statements about recovery
  are instantiated: the codecs know one or two values, which they encode as at most one byte.
\<close>

definition ex_body :: toc_footer_body where "ex_body = toc_body_empty 1 contract_default"

definition ex_body2 :: toc_footer_body where "ex_body2 = toc_body_empty 2 contract_default"

definition ex_toc_bincode :: toc_bincode where
  "ex_toc_bincode =
     \<lparr>encode_to_vec = (\<lambda>x. if x = ex_body then Some [] else if x = ex_body2 then Some [1] else None),
      decode_from_slice = (\<lambda>bs. if bs = [] then Some (ex_body, 0) else Some (ex_body2, 1))\<rparr>"

definition ex_contract_bincode :: "create_contract bincode" where
  "ex_contract_bincode =
     \<lparr>encode_to_vec = (\<lambda>x. if x = contract_default then Some [] else None),
      decode_from_slice = (\<lambda>bs. Some (contract_default, 0))\<rparr>"

definition ex_footer :: toc_footer where
  "ex_footer = \<lparr>tf_body = ex_body, tf_checksum = replicate 32 0\<rparr>"

definition ex_footer_bytes :: bytes where
  "ex_footer_bytes = TOC_MAGIC @ [1, 0, 88, 0, 1] @ replicate 79 0"

definition ex_file :: storage where
  "ex_file = replicate 4096 0 @ ex_footer_bytes"

definition ex_header :: header where
  "ex_header = (header_new (replicate 16 0))\<lparr>hd_footer_offset := 4096, hd_snapshot_generation := 1\<rparr>"

definition ex_load :: "unit loader" where "ex_load f footer = Inr ()"

lemma ex_toc_bincode_ok: "bincode_ok ex_toc_bincode"
  by (simp add: bincode_ok_def ex_toc_bincode_def)

lemma ex_contract_bincode_ok: "bincode_ok ex_contract_bincode"
  by (simp add: bincode_ok_def ex_contract_bincode_def)

lemma ex_file_length: "length ex_file = 4184" "length ex_footer_bytes = 88"
  by (simp_all add: ex_file_def ex_footer_bytes_def)

lemma ex_slice: "slice (4096 + k) n ex_file = slice k n ex_footer_bytes"
  by (simp add: slice_def ex_file_def)

lemma ex_bytes:
  "slice 0 4 ex_footer_bytes = TOC_MAGIC" "slice 4 2 ex_footer_bytes = [1, 0]"
  "slice 6 2 ex_footer_bytes = [88, 0]" "slice 8 8 ex_footer_bytes = 1 # replicate 7 0"
  "slice 16 8 ex_footer_bytes = replicate 8 0" "slice 24 32 ex_footer_bytes = replicate 32 0"
  "slice 56 32 ex_footer_bytes = replicate 32 0"
  by (simp_all add: ex_footer_bytes_def TOC_MAGIC_def slice_def numeral_eq_Suc)

lemma ex_of_le:
  "u16_of_le [1, 0] = 1" "unat (u16_of_le [88, 0]) = 88" "u64_of_le (1 # replicate 7 0) = 1"
  "u64_of_le (replicate 8 0) = 0"
  by (simp_all add: u16_of_le_def u64_of_le_def)

lemma ex_decode: "toc_decode ex_hash ex_toc_bincode ex_footer_bytes = Inr (ex_footer, 88)"
proof -
  have t: "toc_total_len ex_footer_bytes = Inr 88"
    by (simp add: toc_total_len_def ex_bytes ex_of_le TOC_VERSION_def TOC_HEADER_LEN_def)
  have z: "slice 88 0 ex_footer_bytes = []" by (simp add: slice_def)
  show ?thesis
    by (simp add: toc_decode_def t ex_bytes ex_of_le ex_file_length TOC_HEADER_LEN_def Let_def
        ex_hash_def footer_checksum_def bincode_decode_def ex_toc_bincode_def ex_footer_def
        ex_body_def toc_body_empty_def z)
qed

lemma ex_read: "read_toc_footer ex_hash ex_toc_bincode ex_file 4096 = Inr ex_footer"
  by (rule read_toc_footer_there [of _ _ ex_footer_bytes])
    (use ex_slice [of 0 88] in \<open>simp_all add: ex_decode ex_file_length\<close>,
     simp add: slice_def ex_file_length)

lemma ex_contract: "check_footer_contract ex_hash ex_contract_bincode ex_footer ex_header = Inr ()"
  by (simp add: check_footer_contract_def footer_digest_def contract_digest_def contract_encode_def
      bincode_encode_def ex_contract_bincode_def ex_footer_def ex_body_def toc_body_empty_def
      ex_hash_def ex_header_def header_new_def)

lemma ex_resolve:
  "resolve_footer_state ex_hash ex_toc_bincode ex_contract_bincode ex_load ex_file ex_header =
   Inr (4096, ex_footer, ())"
proof -
  have "hd_footer_offset ex_header = 4096" "footer_generation ex_footer = hd_snapshot_generation ex_header"
    by (simp_all add: ex_header_def ex_footer_def ex_body_def toc_body_empty_def)
  then show ?thesis by (simp add: resolve_footer_state_def ex_read ex_contract ex_load_def)
qed

lemma ex_footer_no_magic: "0 < j \<Longrightarrow> j < 88 \<Longrightarrow> ex_footer_bytes ! j \<noteq> hd TOC_MAGIC"
proof
  assume j: "0 < j" "j < 88" and "ex_footer_bytes ! j = hd TOC_MAGIC"
  then have "hd TOC_MAGIC \<in> set (tl ex_footer_bytes)"
    using nth_mem [of "j - 1" "tl ex_footer_bytes"] by (simp add: nth_tl ex_file_length)
  then show False by (simp add: ex_footer_bytes_def TOC_MAGIC_def)
qed

text \<open>Behind the header, the example files carry the magic of one footer.\<close>
lemma ex_magic_at:
  assumes "drop 4096 f = ex_footer_bytes @ tail" and "4096 \<le> i" and "i < 4184"
  shows "magic_at f i \<longleftrightarrow> i = 4096"
proof
  have nth: "f ! (4096 + j) = ex_footer_bytes ! j" if "j < 88" for j
  proof -
    have "length f - 4096 = 88 + length tail" using arg_cong [OF assms(1), of length] by (simp add: ex_file_length)
    then have "drop 4096 f ! j = f ! (4096 + j)" by (intro nth_drop) simp
    then show ?thesis using that by (simp add: assms(1) nth_append ex_file_length)
  qed
  assume "magic_at f i"
  then have "ex_footer_bytes ! (i - 4096) = hd TOC_MAGIC"
    using magic_at_hd [of f i] nth [of "i - 4096"] assms(2,3) by simp
  then show "i = 4096" using ex_footer_no_magic [of "i - 4096"] assms(2,3) by fastforce
next
  have "slice 4096 4 f = slice 0 4 (drop 4096 f)" by (simp add: slice_def)
  also have "\<dots> = TOC_MAGIC" using ex_bytes(1) by (simp add: assms(1) slice_append1 ex_file_length)
  finally show "magic_at f i" if "i = 4096"
    using that arg_cong [OF assms(1), of length] by (simp add: magic_at_def ex_file_length)
qed

lemma ex_magic: "filter (magic_at ex_file) [HEADER_SIZE..<length ex_file] = [4096]"
proof -
  have m: "magic_at ex_file i \<longleftrightarrow> i = 4096" if "4096 \<le> i" "i < 4184" for i
    by (rule ex_magic_at [of _ "[]"]) (use that in \<open>simp_all add: ex_file_def\<close>)
  have "[HEADER_SIZE..<length ex_file] = 4096 # [4097..<4184]"
    by (simp add: HEADER_SIZE_def ex_file_length upt_conv_Cons)
  then show ?thesis using m by (auto simp: filter_empty_conv)
qed

lemma ex_recover:
  "recover_via_scan ex_hash ex_toc_bincode ex_contract_bincode ex_load ex_file ex_header =
   Inr (4096, ex_footer, ())"
proof -
  have "scan_for_footer_candidates ex_hash ex_toc_bincode ex_file =
      Inr [\<lparr>fc_offset = 4096, fc_footer = ex_footer\<rparr>]"
    by (simp add: scan_for_footer_candidates_eq ex_magic probe_def ex_read)
  then show ?thesis
    by (simp add: recover_via_scan_def eligible_candidates_def ex_contract ex_load_def)
qed

theorem resolve_sound_witness:
  "read_toc_footer ex_hash ex_toc_bincode ex_file 4096 = Inr ex_footer \<and> ex_load ex_file ex_footer = Inr ()"
  by (rule resolve_sound [OF ex_resolve]) (simp add: ex_file_length)

theorem recover_newest_witness:
  "HEADER_SIZE \<le> unat (4096 :: u64) \<and>
   read_toc_footer ex_hash ex_toc_bincode ex_file 4096 = Inr ex_footer \<and>
   check_footer_contract ex_hash ex_contract_bincode ex_footer ex_header = Inr () \<and>
   ex_load ex_file ex_footer = Inr () \<and>
   (footer_generation ex_footer < footer_generation ex_footer \<or>
    footer_generation ex_footer = footer_generation ex_footer \<and> (4096 :: u64) \<le> 4096)"
  by (rule recover_newest [OF ex_recover _ _ ex_read ex_contract])
    (simp_all add: ex_file_length HEADER_SIZE_def ex_load_def)

definition decoy :: bytes where
  "decoy = TOC_MAGIC @ [1, 0, 88, 0] @ replicate 8 0 @ u64_le (of_nat (2 ^ 64 - 1 - TOC_HEADER_LEN)) @
     replicate 64 0"

lemma u16_le_small: "u16_le 1 = [1, 0]" "u16_le (of_nat TOC_HEADER_LEN) = [88, 0]"
proof -
  have "unat (of_nat TOC_HEADER_LEN :: u16) = 88" by (simp add: TOC_HEADER_LEN_def)
  moreover have "to_le 2 88 = [88, 0]" "to_le 2 1 = [1, 0]" by (simp_all add: numeral_2_eq_2)
  ultimately show "u16_le 1 = [1, 0]" "u16_le (of_nat TOC_HEADER_LEN) = [88, 0]"
    by (simp_all add: u16_le_def)
qed

lemma decoy_slices:
  "slice 0 4 decoy = TOC_MAGIC" "slice 4 2 decoy = [1, 0]" "slice 6 2 decoy = [88, 0]"
  "slice 16 8 decoy = u64_le (of_nat (2 ^ 64 - 1 - TOC_HEADER_LEN))"
  unfolding decoy_def slice_def by (simp_all del: of_nat_diff)

lemma slice_behind: "slice (length f + k) n (f @ g) = slice k n g"
  by (simp add: slice_def)

theorem decoy_aborts_recovery_witness:
  "panics (recover_via_scan ex_hash ex_toc_bincode ex_contract_bincode ex_load
     (ex_file @ decoy) ex_header)"
proof (rule decoy_aborts_recovery [of _ "length ex_file"])
  show "slice (length ex_file) 4 (ex_file @ decoy) = TOC_MAGIC"
    using slice_behind [of ex_file 0] decoy_slices by simp
  show "slice (length ex_file + 4) 2 (ex_file @ decoy) = u16_le TOC_VERSION"
    "slice (length ex_file + 6) 2 (ex_file @ decoy) = u16_le (of_nat TOC_HEADER_LEN)"
    "slice (length ex_file + 16) 8 (ex_file @ decoy) = u64_le (of_nat (2 ^ 64 - 1 - TOC_HEADER_LEN))"
    by (simp_all only: slice_behind decoy_slices u16_le_small TOC_VERSION_def)
  have l: "length (ex_file @ decoy) = 4184 + 88" by (simp add: ex_file_length decoy_def)
  show "length (ex_file @ decoy) < 2 ^ 63" "length ex_file + TOC_HEADER_LEN \<le> length (ex_file @ decoy)"
    unfolding l by (simp_all add: ex_file_length TOC_HEADER_LEN_def)
qed (simp add: ex_file_length HEADER_SIZE_def)

text \<open>Two agreeing footers whose contract is not the header's.\<close>
definition ex_candidates :: "footer_candidate list" where
  "ex_candidates = [\<lparr>fc_offset = 4096, fc_footer = ex_footer\<rparr>, \<lparr>fc_offset = 8192, fc_footer = ex_footer\<rparr>]"

lemma ex_footer_digest: "footer_digest ex_hash ex_contract_bincode ex_footer = Inr (replicate 32 0)"
  by (simp add: footer_digest_def contract_digest_def contract_encode_def bincode_encode_def
      ex_contract_bincode_def ex_footer_def ex_body_def toc_body_empty_def ex_hash_def)

lemma ex_consensus:
  "footer_consensus_candidates ex_hash ex_contract_bincode ex_candidates = ex_candidates"
  by (simp add: footer_consensus_candidates_def digestible_def ex_candidates_def ex_footer_digest Let_def
      max_group_def)

theorem consensus_majority_witness:
  "footer_consensus_candidates ex_hash ex_contract_bincode ex_candidates =
     filter (\<lambda>c. \<exists>d. footer_digest ex_hash ex_contract_bincode (fc_footer c) = Inr d \<and>
       admitted ex_hash ex_contract_bincode ex_candidates d) ex_candidates \<and>
   footer_consensus_candidates ex_hash ex_contract_bincode ex_candidates \<noteq> []"
proof -
  have d: "distinct (map fc_offset ex_candidates)" by (simp add: ex_candidates_def)
  have "2 \<le> votes_for ex_hash ex_contract_bincode ex_candidates (replicate 32 0)"
    by (simp add: votes_for_def ex_candidates_def ex_footer_digest)
  with consensus_majority [OF d] show ?thesis by blast
qed

lemma not_magic_no_panic: "\<not> magic_at f (unat off) \<Longrightarrow> \<not> panics (read_toc_footer h b f off)"
proof -
  assume nm: "\<not> magic_at f (unat off)"
  show ?thesis
  proof (cases "unat off + TOC_HEADER_LEN \<le> length f")
    case True
    then have "slice 0 4 (slice (unat off) TOC_HEADER_LEN f) = slice (unat off) 4 f"
      by (simp add: slice_def TOC_HEADER_LEN_def)
    moreover have "slice (unat off) 4 f \<noteq> TOC_MAGIC"
      using nm True by (auto simp: magic_at_def TOC_HEADER_LEN_def)
    ultimately show ?thesis
      using True by (simp add: read_toc_footer_def read_exact_at_def encoded_len_from_header_def
          toc_total_len_def panics_def)
  next
    case False
    then show ?thesis by (simp add: read_toc_footer_def read_exact_at_def panics_def)
  qed
qed

lemma ex_no_panic: "\<not> panics (read_toc_footer ex_hash ex_toc_bincode ex_file off)"
proof (cases "off = 4096")
  case True
  then show ?thesis by (simp add: ex_read panics_def)
next
  case False
  then have ne: "unat off \<noteq> 4096" by (auto simp: word_unat_eq_iff)
  have "\<not> magic_at ex_file (unat off)"
  proof (cases "HEADER_SIZE \<le> unat off")
    case True
    show ?thesis
    proof
      assume m: "magic_at ex_file (unat off)"
      then have "unat off < length ex_file" by (simp add: magic_at_def)
      then have "unat off \<in> set (filter (magic_at ex_file) [HEADER_SIZE..<length ex_file])"
        using m True by simp
      then show False using ne by (simp add: ex_magic)
    qed
  next
    case False
    then have "ex_file ! unat off = 0" by (simp add: ex_file_def nth_append HEADER_SIZE_def)
    then show ?thesis using magic_at_hd [of ex_file "unat off"] by (auto simp: TOC_MAGIC_def)
  qed
  then show ?thesis by (rule not_magic_no_panic)
qed

theorem resolve_complete_witness:
  "\<exists>off footer st. resolve_footer_state ex_hash ex_toc_bincode ex_contract_bincode ex_load ex_file
     (ex_header\<lparr>hd_footer_offset := 17\<rparr>) = Inr (off, footer, st)"
proof (rule resolve_complete [OF _ _ ex_read])
  show "check_footer_contract ex_hash ex_contract_bincode ex_footer (ex_header\<lparr>hd_footer_offset := 17\<rparr>) = Inr ()"
    using ex_contract by (simp add: check_footer_contract_def)
  show "\<forall>off. HEADER_SIZE \<le> unat off \<or> off = hd_footer_offset (ex_header\<lparr>hd_footer_offset := 17\<rparr>) \<longrightarrow>
      \<not> panics (read_toc_footer ex_hash ex_toc_bincode ex_file off)" by (simp add: ex_no_panic)
qed (simp_all add: ex_file_length HEADER_SIZE_def ex_load_def panics_def)

text \<open>A footer with one body byte under a codec that ignores it.\<close>
definition ex_lax_bincode :: toc_bincode where
  "ex_lax_bincode =
     \<lparr>encode_to_vec = (\<lambda>x. if x = ex_body then Some [0] else None),
      decode_from_slice = (\<lambda>bs. Some (ex_body, length bs))\<rparr>"

definition ex_one_byte :: "u8 \<Rightarrow> bytes" where
  "ex_one_byte x = TOC_MAGIC @ [1, 0, 88, 0, 1] @ replicate 7 0 @ [1] @ replicate 71 0 @ [x]"

lemma ex_one_byte_decode: "toc_decode ex_hash ex_lax_bincode (ex_one_byte x) = Inr (ex_footer, 89)"
proof -
  have sl: "slice 0 4 (ex_one_byte x) = TOC_MAGIC" "slice 4 2 (ex_one_byte x) = [1, 0]"
    "slice 6 2 (ex_one_byte x) = [88, 0]" "slice 8 8 (ex_one_byte x) = 1 # replicate 7 0"
    "slice 16 8 (ex_one_byte x) = 1 # replicate 7 0" "slice 24 32 (ex_one_byte x) = replicate 32 0"
    "slice 56 32 (ex_one_byte x) = replicate 32 0" "slice 88 1 (ex_one_byte x) = [x]"
    by (simp_all add: ex_one_byte_def TOC_MAGIC_def slice_def numeral_eq_Suc)
  have t: "toc_total_len (ex_one_byte x) = Inr 89"
    by (simp add: toc_total_len_def sl ex_of_le TOC_VERSION_def TOC_HEADER_LEN_def)
  have l: "length (ex_one_byte x) = 89" by (simp add: ex_one_byte_def)
  show ?thesis
    by (simp add: toc_decode_def t sl ex_of_le l TOC_HEADER_LEN_def Let_def
        ex_hash_def footer_checksum_def bincode_decode_def ex_lax_bincode_def ex_footer_def
        ex_body_def toc_body_empty_def)
qed

theorem toc_corruption_witness:
  "toc_body_of (ex_one_byte 1) \<noteq> toc_body_of (ex_one_byte 0) \<and>
     ex_hash (toc_body_of (ex_one_byte 1)) = ex_hash (toc_body_of (ex_one_byte 0)) \<or>
   toc_signed_of ex_hash (ex_one_byte 1) \<noteq> toc_signed_of ex_hash (ex_one_byte 0) \<and>
     ex_hash (toc_signed_of ex_hash (ex_one_byte 1)) = ex_hash (toc_signed_of ex_hash (ex_one_byte 0))"
proof -
  have l: "length (ex_one_byte x) = 89" for x by (simp add: ex_one_byte_def)
  have u: "(ex_one_byte 0)[88 := 1] = ex_one_byte 1"
    by (simp add: ex_one_byte_def TOC_MAGIC_def list_update_append)
  have n: "ex_one_byte 0 ! 88 = 0"
    by (simp add: ex_one_byte_def TOC_MAGIC_def nth_append)
  have d: "toc_decode ex_hash ex_lax_bincode (ex_one_byte 0) = Inr (ex_footer, length (ex_one_byte 0))"
    by (simp add: l ex_one_byte_decode)
  show ?thesis
    using toc_corruption [OF ex_hash_ok d, of 88 1] ex_one_byte_decode [of 1]
    by (simp add: l u n)
qed

end
