(* ===== verification/CatalogCodec.thy ===== *)
theory CatalogCodec imports Contract begin

text \<open>
  The versioned encoding of catalog segments (src/format/catalog_codec.rs): a header, a
  run of length-prefixed bincode records, and, for a delta, the root of the previous
  segment of the chain. The lemmas: records, record runs and deltas round trip, and the
  two readers of a delta (the full one, and the one that skips the records to find the
  previous root) agree on every input both accept.
\<close>

section \<open>Table kinds and headers\<close>

definition CATALOG_MAGIC :: bytes where "CATALOG_MAGIC = [0x56, 0x4C, 0x43, 0x43]"
definition CATALOG_RECORD_VERSION :: u16 where "CATALOG_RECORD_VERSION = 1"
definition CATALOG_HEADER_LEN :: nat where "CATALOG_HEADER_LEN = 12"
definition CATALOG_RECORD_HEADER_LEN :: nat where "CATALOG_RECORD_HEADER_LEN = 8"

datatype catalog_table_kind =
    Kind_segment | Kind_collection | Kind_frame | Kind_text_space | Kind_analyzer
  | Kind_field_schema | Kind_retrieval_profile | Kind_embedding_space | Kind_codec
  | Kind_vector | Kind_id_allocator | Kind_fusion_profile

fun table_kind_code :: "catalog_table_kind \<Rightarrow> u16" where
  "table_kind_code Kind_segment = 0"
| "table_kind_code Kind_collection = 1"
| "table_kind_code Kind_frame = 2"
| "table_kind_code Kind_text_space = 3"
| "table_kind_code Kind_analyzer = 4"
| "table_kind_code Kind_field_schema = 5"
| "table_kind_code Kind_retrieval_profile = 6"
| "table_kind_code Kind_embedding_space = 7"
| "table_kind_code Kind_codec = 8"
| "table_kind_code Kind_vector = 9"
| "table_kind_code Kind_id_allocator = 10"
| "table_kind_code Kind_fusion_profile = 12"

definition table_kind_table :: "(u16 \<times> catalog_table_kind) list" where
  "table_kind_table =
     [(0, Kind_segment), (1, Kind_collection), (2, Kind_frame), (3, Kind_text_space),
      (4, Kind_analyzer), (5, Kind_field_schema), (6, Kind_retrieval_profile),
      (7, Kind_embedding_space), (8, Kind_codec), (9, Kind_vector),
      (10, Kind_id_allocator), (12, Kind_fusion_profile)]"

definition table_kind_try_from :: "u16 \<Rightarrow> catalog_table_kind result" where
  "table_kind_try_from v =
     ok_or (map_of table_kind_table v) (Format ''unknown catalog table kind'')"

record catalog_record_header =
  crh_version :: u16
  crh_table :: catalog_table_kind
  crh_payload_len :: u32

definition cat_read_u16 :: "bytes \<Rightarrow> nat \<Rightarrow> u16 result" where
  "cat_read_u16 bs offset =
     (if length bs < offset + 2 then Inl (Format ''catalog u16 field truncated'')
      else Inr (u16_of_le (slice offset 2 bs)))"

definition cat_read_u32 :: "bytes \<Rightarrow> nat \<Rightarrow> u32 result" where
  "cat_read_u32 bs offset =
     (if length bs < offset + 4 then Inl (Format ''catalog u32 field truncated'')
      else Inr (u32_of_le (slice offset 4 bs)))"

definition catalog_record_header_new :: "catalog_table_kind \<Rightarrow> nat \<Rightarrow> catalog_record_header result" where
  "catalog_record_header_new table payload_len =
     rbind (ok_or (u32_try_from payload_len) (Format ''catalog record too large'')) (\<lambda>n.
       Inr \<lparr>crh_version = CATALOG_RECORD_VERSION, crh_table = table, crh_payload_len = n\<rparr>)"

definition catalog_record_header_encode :: "catalog_record_header \<Rightarrow> bytes" where
  "catalog_record_header_encode r =
     patch 4 (u32_le (crh_payload_len r))
       (patch 2 (u16_le (table_kind_code (crh_table r)))
         (patch 0 (u16_le (crh_version r)) (replicate CATALOG_RECORD_HEADER_LEN 0)))"

definition catalog_record_header_decode :: "bytes \<Rightarrow> catalog_record_header result" where
  "catalog_record_header_decode bs =
     rbind (cat_read_u16 bs 0) (\<lambda>version.
     if version \<noteq> CATALOG_RECORD_VERSION then Inl (Format ''unsupported catalog record version'')
     else rbind (cat_read_u16 bs 2) (\<lambda>code.
          rbind (table_kind_try_from code) (\<lambda>table.
          rbind (cat_read_u32 bs 4) (\<lambda>n.
          Inr \<lparr>crh_version = version, crh_table = table, crh_payload_len = n\<rparr>))))"

section \<open>Records\<close>

definition encode_catalog_record ::
  "'a bincode \<Rightarrow> catalog_table_kind \<Rightarrow> 'a \<Rightarrow> bytes result" where
  "encode_catalog_record b table x =
     rbind (bincode_encode b x) (\<lambda>payload.
     rbind (catalog_record_header_new table (length payload)) (\<lambda>r.
     Inr (catalog_record_header_encode r @ payload)))"

text \<open>The envelope's header and payload, and the bytes it takes.\<close>
definition decode_catalog_record_envelope ::
  "bytes \<Rightarrow> ((catalog_record_header \<times> bytes) \<times> nat) result" where
  "decode_catalog_record_envelope bs =
     (if length bs < CATALOG_RECORD_HEADER_LEN
      then Inl (Format ''catalog record header truncated'')
      else rbind (catalog_record_header_decode (slice 0 CATALOG_RECORD_HEADER_LEN bs)) (\<lambda>r.
        let payload_len = unat (crh_payload_len r);
            stop = CATALOG_RECORD_HEADER_LEN + payload_len
        in if length bs < stop then Inl (Format ''catalog record truncated'')
           else Inr ((r, slice CATALOG_RECORD_HEADER_LEN payload_len bs), stop)))"

definition decode_catalog_record ::
  "'a bincode \<Rightarrow> catalog_table_kind \<Rightarrow> bytes \<Rightarrow> ('a \<times> nat) result" where
  "decode_catalog_record b expected_table bs =
     rbind (decode_catalog_record_envelope bs) (\<lambda>((r, payload), consumed).
     if crh_table r \<noteq> expected_table then Inl (Format ''catalog record table mismatch'')
     else rbind (bincode_decode b payload) (\<lambda>(x, record_consumed).
       if record_consumed \<noteq> length payload
       then Inl (Format ''catalog record has trailing bytes'')
       else Inr (x, consumed)))"

section \<open>Record runs\<close>

definition encode_catalog_records ::
  "'a bincode \<Rightarrow> catalog_table_kind \<Rightarrow> 'a list \<Rightarrow> bytes result" where
  "encode_catalog_records b table records =
     rbind (ok_or (u32_try_from (length records)) (Format ''too many catalog records'')) (\<lambda>count.
     rbind (map_result (encode_catalog_record b table) records) (\<lambda>parts.
     Inr (CATALOG_MAGIC @ u16_le (table_kind_code table) @ u16_le CATALOG_RECORD_VERSION
          @ u32_le count @ concat parts)))"

fun decode_records_loop ::
  "'a bincode \<Rightarrow> catalog_table_kind \<Rightarrow> nat \<Rightarrow> nat \<Rightarrow> bytes \<Rightarrow> ('a list \<times> nat) result" where
  "decode_records_loop b table 0 offset bs = Inr ([], offset)"
| "decode_records_loop b table (Suc n) offset bs =
     rbind (decode_catalog_record b table (drop offset bs)) (\<lambda>(x, consumed).
     rbind (decode_records_loop b table n (offset + consumed) bs) (\<lambda>(xs, final).
     Inr (x # xs, final)))"

text \<open>The checks that open every catalog reader; the count of records.\<close>
definition catalog_prologue :: "catalog_table_kind \<Rightarrow> bytes \<Rightarrow> unit result" where
  "catalog_prologue expected_table bs =
     (if length bs < CATALOG_HEADER_LEN then Inl (Format ''catalog segment truncated'')
      else if slice 0 4 bs \<noteq> CATALOG_MAGIC then Inl (Format ''catalog magic mismatch'')
      else rbind (cat_read_u16 bs 4) (\<lambda>code. rbind (table_kind_try_from code) (\<lambda>table.
        if table \<noteq> expected_table then Inl (Format ''catalog table mismatch'') else Inr ())))"

definition decode_catalog_records_prefix ::
  "'a bincode \<Rightarrow> catalog_table_kind \<Rightarrow> bytes \<Rightarrow> ('a list \<times> nat) result" where
  "decode_catalog_records_prefix b expected_table bs =
     rbind (catalog_prologue expected_table bs) (\<lambda>_.
     rbind (cat_read_u16 bs 6) (\<lambda>version.
     if version \<noteq> CATALOG_RECORD_VERSION then Inl (Format ''unsupported catalog record version'')
     else rbind (cat_read_u32 bs 8) (\<lambda>count.
       decode_records_loop b expected_table (unat count) CATALOG_HEADER_LEN bs)))"

definition decode_catalog_records ::
  "'a bincode \<Rightarrow> catalog_table_kind \<Rightarrow> bytes \<Rightarrow> 'a list result" where
  "decode_catalog_records b expected_table bs =
     rbind (catalog_prologue expected_table bs) (\<lambda>_.
     rbind (cat_read_u16 bs 6) (\<lambda>version.
     if version \<noteq> CATALOG_RECORD_VERSION then Inl (Format ''unsupported catalog record version'')
     else rbind (cat_read_u32 bs 8) (\<lambda>count.
       rbind (decode_records_loop b expected_table (unat count) CATALOG_HEADER_LEN bs)
         (\<lambda>(xs, offset).
         if offset \<noteq> length bs then Inl (Format ''catalog segment has trailing bytes'')
         else Inr xs))))"

fun skip_records_loop :: "nat \<Rightarrow> nat \<Rightarrow> bytes \<Rightarrow> nat result" where
  "skip_records_loop 0 offset bs = Inr offset"
| "skip_records_loop (Suc n) offset bs =
     rbind (decode_catalog_record_envelope (drop offset bs)) (\<lambda>(envelope, consumed).
     skip_records_loop n (offset + consumed) bs)"

text \<open>This reader does not look at the version of the segment header.\<close>
definition catalog_records_end_offset :: "catalog_table_kind \<Rightarrow> bytes \<Rightarrow> nat result" where
  "catalog_records_end_offset expected_table bs =
     rbind (catalog_prologue expected_table bs) (\<lambda>_.
     rbind (cat_read_u32 bs 8) (\<lambda>count.
       skip_records_loop (unat count) CATALOG_HEADER_LEN bs))"

section \<open>Deltas\<close>

record 'a catalog_delta =
  cdl_previous_root :: "segment_ref option"
  cdl_records :: "'a list"

definition encode_catalog_delta ::
  "'a bincode \<Rightarrow> segment_ref option bincode \<Rightarrow> catalog_table_kind \<Rightarrow> segment_ref option \<Rightarrow>
     'a list \<Rightarrow> bytes result" where
  "encode_catalog_delta b rb table previous_root records =
     rbind (encode_catalog_records b table records) (\<lambda>out.
     rbind (bincode_encode rb previous_root) (\<lambda>previous.
     rbind (ok_or (u32_try_from (length previous)) (Format ''catalog previous root too large''))
       (\<lambda>previous_len. Inr (out @ u32_le previous_len @ previous))))"

definition decode_previous_root_suffix ::
  "segment_ref option bincode \<Rightarrow> bytes \<Rightarrow> nat \<Rightarrow> segment_ref option result" where
  "decode_previous_root_suffix rb bs offset0 =
     (if offset0 = length bs then Inr None
      else rbind (cat_read_u32 bs offset0) (\<lambda>n.
        let previous_len = unat n; offset = offset0 + 4; stop = offset + previous_len
        in if length bs < stop then Inl (Format ''catalog previous root truncated'')
           else let previous_bytes = slice offset previous_len bs in
             rbind (bincode_decode rb previous_bytes) (\<lambda>(previous_root, consumed).
             if consumed \<noteq> length previous_bytes
             then Inl (Format ''catalog previous root has trailing bytes'')
             else if stop \<noteq> length bs then Inl (Format ''catalog segment has trailing bytes'')
             else Inr previous_root)))"

definition decode_catalog_delta ::
  "'a bincode \<Rightarrow> segment_ref option bincode \<Rightarrow> catalog_table_kind \<Rightarrow> bytes \<Rightarrow>
     'a catalog_delta result" where
  "decode_catalog_delta b rb expected_table bs =
     rbind (decode_catalog_records_prefix b expected_table bs) (\<lambda>(records, offset).
     rbind (decode_previous_root_suffix rb bs offset) (\<lambda>previous_root.
     Inr \<lparr>cdl_previous_root = previous_root, cdl_records = records\<rparr>))"

definition decode_catalog_previous_root ::
  "segment_ref option bincode \<Rightarrow> catalog_table_kind \<Rightarrow> bytes \<Rightarrow> segment_ref option result" where
  "decode_catalog_previous_root rb expected_table bs =
     rbind (catalog_records_end_offset expected_table bs) (\<lambda>offset.
     decode_previous_root_suffix rb bs offset)"

section \<open>Round trips\<close>

lemma table_kind_codes [simp]: "table_kind_try_from (table_kind_code t) = Inr t"
  by (cases t) (simp_all add: table_kind_try_from_def table_kind_table_def)

lemma cat_reads:
  "cat_read_u16 (pre @ u16_le w @ rest) (length pre) = Inr w"
  "cat_read_u32 (pre @ u32_le v @ rest) (length pre) = Inr v"
  by (simp_all add: cat_read_u16_def cat_read_u32_def slice_def)

lemma catalog_record_header_encode_eq:
  "catalog_record_header_encode r =
     u16_le (crh_version r) @ u16_le (table_kind_code (crh_table r)) @ u32_le (crh_payload_len r)"
  by (simp add: catalog_record_header_encode_def patch_def CATALOG_RECORD_HEADER_LEN_def)

lemma length_catalog_record_header [simp]:
  "length (catalog_record_header_encode r) = CATALOG_RECORD_HEADER_LEN"
  by (simp add: catalog_record_header_encode_eq CATALOG_RECORD_HEADER_LEN_def)

lemma catalog_record_header_roundtrip:
  assumes "crh_version r = CATALOG_RECORD_VERSION"
  shows "catalog_record_header_decode (catalog_record_header_encode r) = Inr r"
proof -
  let ?v = "u16_le (crh_version r)" and ?t = "u16_le (table_kind_code (crh_table r))"
    and ?n = "u32_le (crh_payload_len r)"
  have "cat_read_u16 (?v @ ?t @ ?n) 0 = Inr (crh_version r)"
    using cat_reads(1) [of "[]"] by simp
  moreover have "cat_read_u16 (?v @ ?t @ ?n) 2 = Inr (table_kind_code (crh_table r))"
    using cat_reads(1) [of ?v] by simp
  moreover have "cat_read_u32 (?v @ ?t @ ?n) 4 = Inr (crh_payload_len r)"
    using cat_reads(2) [of "?v @ ?t" _ "[]"] by simp
  ultimately show ?thesis
    using assms by (simp add: catalog_record_header_decode_def catalog_record_header_encode_eq)
qed

lemma envelope_roundtrip:
  assumes "catalog_record_header_new table (length payload) = Inr r"
  shows "decode_catalog_record_envelope (catalog_record_header_encode r @ payload @ rest) =
    Inr ((r, payload), CATALOG_RECORD_HEADER_LEN + length payload)"
proof -
  have v: "crh_version r = CATALOG_RECORD_VERSION" and n: "unat (crh_payload_len r) = length payload"
    using assms by (auto simp: catalog_record_header_new_def rbind_Inr_iff u32_try_from_unat)
  have "slice 0 CATALOG_RECORD_HEADER_LEN (catalog_record_header_encode r @ payload @ rest) =
      catalog_record_header_encode r"
    by (simp add: slice_def)
  moreover have "slice CATALOG_RECORD_HEADER_LEN (length payload)
      (catalog_record_header_encode r @ payload @ rest) = payload"
    by (simp add: slice_def)
  ultimately show ?thesis
    by (simp add: decode_catalog_record_envelope_def catalog_record_header_roundtrip v n Let_def)
qed

lemma catalog_record_roundtrip:
  assumes "bincode_ok b" and "encode_catalog_record b table x = Inr bs"
  shows "decode_catalog_record b table (bs @ rest) = Inr (x, length bs)"
    and "\<exists>e. decode_catalog_record_envelope (bs @ rest) = Inr (e, length bs)"
proof -
  obtain payload r where p: "bincode_encode b x = Inr payload"
    and r: "catalog_record_header_new table (length payload) = Inr r"
    and bs: "bs = catalog_record_header_encode r @ payload"
    using assms(2) by (auto simp: encode_catalog_record_def rbind_Inr_iff)
  have t: "crh_table r = table" using r by (auto simp: catalog_record_header_new_def rbind_Inr_iff)
  note e = envelope_roundtrip [OF r, of rest]
  show "\<exists>e. decode_catalog_record_envelope (bs @ rest) = Inr (e, length bs)"
    using e by (simp add: bs)
  show "decode_catalog_record b table (bs @ rest) = Inr (x, length bs)"
    using e bincode_roundtrip [OF assms(1) p] by (simp add: decode_catalog_record_def bs t)
qed

lemma records_loop_roundtrip:
  assumes "bincode_ok b" and "map_result (encode_catalog_record b table) xs = Inr parts"
  shows "decode_records_loop b table (length xs) (length pre) (pre @ concat parts @ rest) =
           Inr (xs, length pre + length (concat parts))"
    and "skip_records_loop (length xs) (length pre) (pre @ concat parts @ rest) =
           Inr (length pre + length (concat parts))"
  using assms(2)
proof (induction xs arbitrary: pre parts)
  case (Cons x xs)
  { case 1
    then obtain bs ps where bs: "encode_catalog_record b table x = Inr bs"
      and ps: "map_result (encode_catalog_record b table) xs = Inr ps" and parts: "parts = bs # ps"
      by (auto simp: rbind_Inr_iff)
    then show ?case
      using catalog_record_roundtrip(1) [OF assms(1) bs] Cons.IH(1) [OF ps, of "pre @ bs"] by simp }
  { case 2
    then obtain bs ps where bs: "encode_catalog_record b table x = Inr bs"
      and ps: "map_result (encode_catalog_record b table) xs = Inr ps" and parts: "parts = bs # ps"
      by (auto simp: rbind_Inr_iff)
    obtain e where "decode_catalog_record_envelope (bs @ concat ps @ rest) = Inr (e, length bs)"
      using catalog_record_roundtrip(2) [OF assms(1) bs] by blast
    then show ?case using Cons.IH(2) [OF ps, of "pre @ bs"] by (simp add: parts) }
qed auto

lemma length_CATALOG_MAGIC [simp]: "length CATALOG_MAGIC = 4"
  by (simp add: CATALOG_MAGIC_def)

text \<open>The fields of the segment header that the encoder wrote.\<close>
lemma catalog_header_fields:
  fixes count :: u32 and rest :: bytes and table :: catalog_table_kind
  defines "bs \<equiv> CATALOG_MAGIC @ u16_le (table_kind_code table) @ u16_le CATALOG_RECORD_VERSION
                 @ u32_le count @ rest"
  shows "catalog_prologue table bs = Inr ()"
    and "cat_read_u16 bs 6 = Inr CATALOG_RECORD_VERSION"
    and "cat_read_u32 bs 8 = Inr count"
proof -
  let ?k = "u16_le (table_kind_code table)"
  have "cat_read_u16 bs 4 = Inr (table_kind_code table)"
    using cat_reads(1) [of CATALOG_MAGIC] by (simp add: bs_def)
  then show "catalog_prologue table bs = Inr ()"
    by (simp add: catalog_prologue_def bs_def CATALOG_HEADER_LEN_def slice_def)
  show "cat_read_u16 bs 6 = Inr CATALOG_RECORD_VERSION"
    using cat_reads(1) [of "CATALOG_MAGIC @ ?k"] by (simp add: bs_def)
  show "cat_read_u32 bs 8 = Inr count"
    using cat_reads(2) [of "CATALOG_MAGIC @ ?k @ u16_le CATALOG_RECORD_VERSION"] by (simp add: bs_def)
qed

lemma catalog_records_roundtrip:
  assumes "bincode_ok b" and "encode_catalog_records b table xs = Inr bs"
  shows "decode_catalog_records_prefix b table (bs @ rest) = Inr (xs, length bs)"
    and "catalog_records_end_offset table (bs @ rest) = Inr (length bs)"
    and "decode_catalog_records b table bs = Inr xs"
proof -
  obtain count parts where c: "u32_try_from (length xs) = Some count"
    and parts: "map_result (encode_catalog_record b table) xs = Inr parts"
    and bs: "bs = CATALOG_MAGIC @ u16_le (table_kind_code table) @ u16_le CATALOG_RECORD_VERSION
          @ u32_le count @ concat parts"
    using assms(2) by (auto simp: encode_catalog_records_def rbind_Inr_iff)
  let ?pre = "CATALOG_MAGIC @ u16_le (table_kind_code table) @ u16_le CATALOG_RECORD_VERSION @ u32_le count"
  note n = u32_try_from_unat [OF c]
  have pre: "length ?pre = CATALOG_HEADER_LEN" by (simp add: CATALOG_HEADER_LEN_def)
  note loop = records_loop_roundtrip [OF assms(1) parts, of ?pre, unfolded pre]
  note fields = catalog_header_fields [where table = table and count = count]
  have f: "catalog_prologue table (bs @ r) = Inr ()" "cat_read_u32 (bs @ r) 8 = Inr count"
    "cat_read_u16 (bs @ r) 6 = Inr CATALOG_RECORD_VERSION"
    "decode_records_loop b table (unat count) CATALOG_HEADER_LEN (bs @ r) = Inr (xs, length bs)"
    "skip_records_loop (unat count) CATALOG_HEADER_LEN (bs @ r) = Inr (length bs)" for r
    using fields [of "concat parts @ r"] loop [of r]
    by (simp_all add: bs n CATALOG_HEADER_LEN_def)
  show "decode_catalog_records_prefix b table (bs @ rest) = Inr (xs, length bs)"
    and "catalog_records_end_offset table (bs @ rest) = Inr (length bs)"
    by (simp_all add: decode_catalog_records_prefix_def catalog_records_end_offset_def f)
  show "decode_catalog_records b table bs = Inr xs"
    using f [of "[]"] by (simp add: decode_catalog_records_def)
qed

lemma previous_root_suffix_roundtrip:
  assumes "bincode_ok rb" and "bincode_encode rb root = Inr previous"
    and "u32_try_from (length previous) = Some n"
  shows "decode_previous_root_suffix rb (out @ u32_le n @ previous) (length out) = Inr root"
proof -
  have "cat_read_u32 (out @ u32_le n @ previous) (length out) = Inr n"
    by (rule cat_reads)
  then show ?thesis
    using bincode_roundtrip [OF assms(1,2)] u32_try_from_unat [OF assms(3)]
    by (simp add: decode_previous_root_suffix_def Let_def slice_def)
qed

lemma catalog_delta_rt:
  assumes "bincode_ok b" and "bincode_ok rb"
    and "encode_catalog_delta b rb table root xs = Inr bs"
  shows "decode_catalog_delta b rb table bs = Inr \<lparr>cdl_previous_root = root, cdl_records = xs\<rparr>"
    and "decode_catalog_previous_root rb table bs = Inr root"
proof -
  obtain out previous n where out: "encode_catalog_records b table xs = Inr out"
    and p: "bincode_encode rb root = Inr previous" "u32_try_from (length previous) = Some n"
    and bs: "bs = out @ u32_le n @ previous"
    using assms(3) by (auto simp: encode_catalog_delta_def rbind_Inr_iff)
  note r = catalog_records_roundtrip [OF assms(1) out]
  note s = previous_root_suffix_roundtrip [OF assms(2) p, of out]
  show "decode_catalog_delta b rb table bs = Inr \<lparr>cdl_previous_root = root, cdl_records = xs\<rparr>"
    and "decode_catalog_previous_root rb table bs = Inr root"
    by (simp_all add: decode_catalog_delta_def decode_catalog_previous_root_def bs r s)
qed

section \<open>The two readers agree\<close>

lemma decode_record_envelope:
  "decode_catalog_record b table bs = Inr (x, n) \<Longrightarrow>
   \<exists>e. decode_catalog_record_envelope bs = Inr (e, n)"
  by (auto simp: decode_catalog_record_def rbind_Inr_iff split: if_splits)

lemma decode_loop_skips:
  "decode_records_loop b table n offset bs = Inr (xs, final) \<Longrightarrow>
   skip_records_loop n offset bs = Inr final"
proof (induction n arbitrary: offset xs)
  case (Suc n)
  then obtain x consumed ys where "decode_catalog_record b table (drop offset bs) = Inr (x, consumed)"
    and "decode_records_loop b table n (offset + consumed) bs = Inr (ys, final)"
    by (auto simp: rbind_Inr_iff)
  with Suc.IH [of "offset + consumed"] show ?case
    using decode_record_envelope [of b table "drop offset bs" x consumed] by auto
qed simp

lemma delta_previous_root:
  assumes "decode_catalog_delta b rb table bs = Inr d"
  shows "decode_catalog_previous_root rb table bs = Inr (cdl_previous_root d)"
proof -
  obtain offset where pre: "decode_catalog_records_prefix b table bs = Inr (cdl_records d, offset)"
    and suf: "decode_previous_root_suffix rb bs offset = Inr (cdl_previous_root d)"
    using assms by (auto simp: decode_catalog_delta_def rbind_Inr_iff)
  from pre have "catalog_records_end_offset table bs = Inr offset"
    by (auto simp: decode_catalog_records_prefix_def catalog_records_end_offset_def rbind_Inr_iff
        dest: decode_loop_skips split: if_splits)
  with suf show ?thesis by (simp add: decode_catalog_previous_root_def)
qed

end
