(* ===== verification/Catalog.thy ===== *)
theory Catalog imports Registry Contract begin

text \<open>
  The catalog descriptors and the in-memory snapshot (src/format/catalog.rs) with the
  operations that keep each of its tables sorted by id (\<open>upsert_*\<close> and \<open>dirty_records\<close> of
  src/file/catalog_io.rs). Every table is an instance of the interface \<open>keyed_table\<close>.
  The lemmas: the tables stay strictly sorted, the slim frame index stays in step with
  the frame table, and the dirty subset of a table is what a commit has to write.
  Floating-point weights are carried as their bit patterns; no arithmetic is done on them
  here.
\<close>

section \<open>Descriptors\<close>

type_synonym f32_bits = u32

record metadata_ref =
  md_segment_id :: segment_id
  md_bytes_offset :: u64
  md_bytes_length :: u64
  md_checksum :: checksum

record collection_desc =
  col_collection_id :: u32
  col_name :: string
  col_created_at :: i64
  col_default_text_space_id :: "u32 option"
  col_default_embedding_space_id :: "u32 option"
  col_flags :: u32
  col_metadata_ref :: "metadata_ref option"

datatype frame_role = Document | Chunk | Tombstone_role

datatype frame_status = Frame_active | Frame_tombstoned

datatype payload_encoding = Enc_raw | Enc_zstd | Enc_lz4

record frame_desc =
  fd_frame_id :: u64
  fd_collection_id :: u32
  fd_role :: frame_role
  fd_created_at :: i64
  fd_updated_at :: i64
  fd_uri_ref :: "metadata_ref option"
  fd_title_ref :: "metadata_ref option"
  fd_payload_ref :: "payload_ref option"
  fd_payload_encoding :: payload_encoding
  fd_search_text_ref :: "metadata_ref option"
  fd_parent_frame_id :: "u64 option"
  fd_chunk_index :: "u32 option"
  fd_chunk_count :: "u32 option"
  fd_metadata_ref :: "metadata_ref option"
  fd_status :: frame_status

record text_space_desc =
  ts_text_space_id :: u32
  ts_name :: string
  ts_analyzer_id :: u32
  ts_field_schema_id :: u32
  ts_default_profile_id :: u32
  ts_flags :: u32
  ts_enabled_retrievers :: u32

datatype unicode_normalization = Norm_none | Nfc | Nfkc

datatype tokenizer = UnicodeWords | Whitespace | CharNgram | TokenShingle

datatype stemming = Stem_none | Porter2English

datatype stopwords_policy = Stop_none | EnglishLucene

datatype punctuation_policy = Punct_drop | Punct_keep

record analyzer_desc =
  an_analyzer_id :: u32
  an_unicode_normalization :: unicode_normalization
  an_case_fold :: bool
  an_accent_fold :: bool
  an_tokenizer :: tokenizer
  an_stemming :: stemming
  an_stopword_set_ref :: "metadata_ref option"
  an_stopword_query_only :: bool
  an_stopwords :: stopwords_policy
  an_english_possessive_strip :: bool
  an_min_token_len :: u16
  an_max_token_len :: u16
  an_shingle_size :: u8
  an_ngram_min :: "u8 option"
  an_ngram_max :: "u8 option"
  an_punctuation_policy :: punctuation_policy

datatype field_source = SearchText | Title | Uri | Tags | MetadataPath string

record field_desc =
  fi_field_id :: u16
  fi_name :: string
  fi_source :: field_source
  fi_store_positions :: bool
  fi_store_term_freq :: bool
  fi_store_set_membership :: bool
  fi_weight :: f32_bits

record field_schema_desc =
  fs_field_schema_id :: u32
  fs_fields :: "field_desc list"

datatype retrieval_profile_type = Bm25_type | Tfidf_type | JaccardExact_type | JaccardWeighted_type

datatype idf_variant = RobertsonSparckJones

datatype tf_mode = Tf_raw | Tf_log

datatype idf_mode = Idf_smooth

datatype norm_mode = Normalize_none | Normalize_l2

datatype token_source = Terms | Shingles

datatype weight_source = TermFrequency | Tfidf_weight

datatype retrieval_profile_params =
    Bm25 f32_bits f32_bits idf_variant
  | Tfidf tf_mode idf_mode norm_mode
  | JaccardExact token_source
  | JaccardWeighted weight_source token_source

record retrieval_profile_desc =
  rp_profile_id :: u32
  rp_profile_type :: retrieval_profile_type
  rp_params :: retrieval_profile_params

datatype vector_metric = Cosine | InnerProduct | Metric_l2

record embedding_space_desc =
  es_embedding_space_id :: u32
  es_provider :: string
  es_model :: string
  es_dimension :: u32
  es_metric :: vector_metric
  es_normalized :: bool
  es_dtype :: dtype
  es_primary_codec_id :: "u32 option"
  es_secondary_codec_id :: "u32 option"
  es_flags :: u32

datatype codec_family = LegacyInt4PcaZero | QamLloydMax | Upq

record codec_desc =
  cd_codec_id :: u32
  cd_family :: codec_family
  cd_version :: u16
  cd_params_ref :: segment_ref
  cd_deterministic_id :: checksum

definition codec_desc_validate :: "codec_desc \<Rightarrow> unit result" where
  "codec_desc_validate d =
     (if sr_length (cd_params_ref d) = 0
      then Inl (Format ''CodecDesc.params_ref.length must be non-zero (CodecParamsSegment is mandatory)'')
      else if sr_checksum (cd_params_ref d) = replicate 32 0
      then Inl (Format ''CodecDesc.params_ref.checksum must be set'')
      else Inr ())"

datatype vector_status = Vector_active | Vector_tombstoned

record vector_desc =
  vd_vector_id :: u64
  vd_owner_frame_id :: u64
  vd_collection_id :: u32
  vd_embedding_space_id :: u32
  vd_data_segment_id :: segment_id
  vd_ordinal_in_segment :: u32
  vd_status :: vector_status

datatype fusion_normalization = Fusion_none | ZScore | MinMax | Rrf u32

record fusion_profile_desc =
  fp_fusion_profile_id :: u32
  fp_bm25_weight :: f32_bits
  fp_tfidf_weight :: f32_bits
  fp_jaccard_weight :: f32_bits
  fp_vector_weight :: f32_bits
  fp_normalization :: fusion_normalization

record frame_stub =
  st_frame_id :: u64
  st_status :: frame_status

record catalog_snapshot =
  cs_collections :: "collection_desc list"
  cs_frames :: "frame_desc list"
  cs_frame_stubs :: "frame_stub list"
  cs_text_spaces :: "text_space_desc list"
  cs_analyzers :: "analyzer_desc list"
  cs_field_schemas :: "field_schema_desc list"
  cs_retrieval_profiles :: "retrieval_profile_desc list"
  cs_embedding_spaces :: "embedding_space_desc list"
  cs_codecs :: "codec_desc list"
  cs_vectors :: "vector_desc list"
  cs_fusion_profiles :: "fusion_profile_desc list"

definition catalog_snapshot_default :: catalog_snapshot where
  "catalog_snapshot_default =
     \<lparr>cs_collections = [], cs_frames = [], cs_frame_stubs = [], cs_text_spaces = [],
      cs_analyzers = [], cs_field_schemas = [], cs_retrieval_profiles = [],
      cs_embedding_spaces = [], cs_codecs = [], cs_vectors = [], cs_fusion_profiles = []\<rparr>"

section \<open>Upserts\<close>

definition upsert_collection :: "collection_desc \<Rightarrow> catalog_snapshot \<Rightarrow> catalog_snapshot" where
  "upsert_collection x c = c\<lparr>cs_collections := upsert col_collection_id x (cs_collections c)\<rparr>"

definition upsert_frame :: "frame_desc \<Rightarrow> catalog_snapshot \<Rightarrow> catalog_snapshot" where
  "upsert_frame x c =
     (let stub = \<lparr>st_frame_id = fd_frame_id x, st_status = fd_status x\<rparr>;
          c1 = c\<lparr>cs_frames := upsert fd_frame_id x (cs_frames c)\<rparr>
      in c1\<lparr>cs_frame_stubs := upsert st_frame_id stub (cs_frame_stubs c1)\<rparr>)"

definition upsert_embedding_space :: "embedding_space_desc \<Rightarrow> catalog_snapshot \<Rightarrow> catalog_snapshot" where
  "upsert_embedding_space x c = c\<lparr>cs_embedding_spaces := upsert es_embedding_space_id x (cs_embedding_spaces c)\<rparr>"

definition upsert_codec :: "codec_desc \<Rightarrow> catalog_snapshot \<Rightarrow> catalog_snapshot" where
  "upsert_codec x c = c\<lparr>cs_codecs := upsert cd_codec_id x (cs_codecs c)\<rparr>"

definition upsert_vector :: "vector_desc \<Rightarrow> catalog_snapshot \<Rightarrow> catalog_snapshot" where
  "upsert_vector x c = c\<lparr>cs_vectors := upsert vd_vector_id x (cs_vectors c)\<rparr>"

definition upsert_text_space :: "text_space_desc \<Rightarrow> catalog_snapshot \<Rightarrow> catalog_snapshot" where
  "upsert_text_space x c = c\<lparr>cs_text_spaces := upsert ts_text_space_id x (cs_text_spaces c)\<rparr>"

definition upsert_analyzer :: "analyzer_desc \<Rightarrow> catalog_snapshot \<Rightarrow> catalog_snapshot" where
  "upsert_analyzer x c = c\<lparr>cs_analyzers := upsert an_analyzer_id x (cs_analyzers c)\<rparr>"

definition upsert_field_schema :: "field_schema_desc \<Rightarrow> catalog_snapshot \<Rightarrow> catalog_snapshot" where
  "upsert_field_schema x c = c\<lparr>cs_field_schemas := upsert fs_field_schema_id x (cs_field_schemas c)\<rparr>"

definition upsert_retrieval_profile :: "retrieval_profile_desc \<Rightarrow> catalog_snapshot \<Rightarrow> catalog_snapshot" where
  "upsert_retrieval_profile x c = c\<lparr>cs_retrieval_profiles := upsert rp_profile_id x (cs_retrieval_profiles c)\<rparr>"

definition upsert_fusion_profile :: "fusion_profile_desc \<Rightarrow> catalog_snapshot \<Rightarrow> catalog_snapshot" where
  "upsert_fusion_profile x c = c\<lparr>cs_fusion_profiles := upsert fp_fusion_profile_id x (cs_fusion_profiles c)\<rparr>"

section \<open>The dirty subset\<close>

text \<open>
  \<open>dirty_ids\<close> is a hash set; its ids are collected into a vector and sorted.
\<close>
definition dirty_records :: "('a \<Rightarrow> 'k::linorder) \<Rightarrow> 'a list \<Rightarrow> 'k set \<Rightarrow> 'a list" where
  "dirty_records key records dirty_ids =
     (if dirty_ids = {} then []
      else concat (map (\<lambda>k. case binary_search_by_key key k records of
                               Inr i \<Rightarrow> [records ! i] | Inl _ \<Rightarrow> [])
                       (sorted_list_of_set dirty_ids)))"

section \<open>Invariant\<close>

definition stub_of :: "frame_desc \<Rightarrow> frame_stub" where
  "stub_of x = \<lparr>st_frame_id = fd_frame_id x, st_status = fd_status x\<rparr>"

text \<open>
  Every table is strictly sorted by its id, and the slim index agrees with every frame
  whose full descriptor is in memory (the others are still on disk).
\<close>
definition catalog_ok :: "catalog_snapshot \<Rightarrow> bool" where
  "catalog_ok c \<longleftrightarrow>
     strict_by col_collection_id (cs_collections c) \<and> strict_by fd_frame_id (cs_frames c) \<and>
     strict_by st_frame_id (cs_frame_stubs c) \<and> strict_by ts_text_space_id (cs_text_spaces c) \<and>
     strict_by an_analyzer_id (cs_analyzers c) \<and>
     strict_by fs_field_schema_id (cs_field_schemas c) \<and>
     strict_by rp_profile_id (cs_retrieval_profiles c) \<and>
     strict_by es_embedding_space_id (cs_embedding_spaces c) \<and>
     strict_by cd_codec_id (cs_codecs c) \<and> strict_by vd_vector_id (cs_vectors c) \<and>
     strict_by fp_fusion_profile_id (cs_fusion_profiles c) \<and>
     stub_of ` set (cs_frames c) \<subseteq> set (cs_frame_stubs c)"

interpretation collection_table: keyed_table col_collection_id "[]" "upsert col_collection_id" "lookup_by col_collection_id" "strict_by col_collection_id"
  by unfold_locales (rule sorted_table_laws, (assumption)?)+

interpretation embedding_space_table: keyed_table es_embedding_space_id "[]" "upsert es_embedding_space_id" "lookup_by es_embedding_space_id" "strict_by es_embedding_space_id"
  by unfold_locales (rule sorted_table_laws, (assumption)?)+

interpretation codec_table: keyed_table cd_codec_id "[]" "upsert cd_codec_id" "lookup_by cd_codec_id" "strict_by cd_codec_id"
  by unfold_locales (rule sorted_table_laws, (assumption)?)+

interpretation vector_table: keyed_table vd_vector_id "[]" "upsert vd_vector_id" "lookup_by vd_vector_id" "strict_by vd_vector_id"
  by unfold_locales (rule sorted_table_laws, (assumption)?)+

interpretation text_space_table: keyed_table ts_text_space_id "[]" "upsert ts_text_space_id" "lookup_by ts_text_space_id" "strict_by ts_text_space_id"
  by unfold_locales (rule sorted_table_laws, (assumption)?)+

interpretation analyzer_table: keyed_table an_analyzer_id "[]" "upsert an_analyzer_id" "lookup_by an_analyzer_id" "strict_by an_analyzer_id"
  by unfold_locales (rule sorted_table_laws, (assumption)?)+

interpretation field_schema_table: keyed_table fs_field_schema_id "[]" "upsert fs_field_schema_id" "lookup_by fs_field_schema_id" "strict_by fs_field_schema_id"
  by unfold_locales (rule sorted_table_laws, (assumption)?)+

interpretation retrieval_profile_table: keyed_table rp_profile_id "[]" "upsert rp_profile_id" "lookup_by rp_profile_id" "strict_by rp_profile_id"
  by unfold_locales (rule sorted_table_laws, (assumption)?)+

interpretation fusion_profile_table: keyed_table fp_fusion_profile_id "[]" "upsert fp_fusion_profile_id" "lookup_by fp_fusion_profile_id" "strict_by fp_fusion_profile_id"
  by unfold_locales (rule sorted_table_laws, (assumption)?)+

interpretation frame_table: keyed_table fd_frame_id "[]" "upsert fd_frame_id" "lookup_by fd_frame_id" "strict_by fd_frame_id"
  by unfold_locales (rule sorted_table_laws, (assumption)?)+

interpretation stub_table: keyed_table st_frame_id "[]" "upsert st_frame_id" "lookup_by st_frame_id" "strict_by st_frame_id"
  by unfold_locales (rule sorted_table_laws, (assumption)?)+

lemma catalog_ok_default: "catalog_ok catalog_snapshot_default"
  by (simp add: catalog_ok_def catalog_snapshot_default_def)

lemma catalog_ok_upsert:
  assumes "catalog_ok c"
  shows "catalog_ok (upsert_collection y0 c)"
    and "catalog_ok (upsert_embedding_space y1 c)"
    and "catalog_ok (upsert_codec y2 c)"
    and "catalog_ok (upsert_vector y3 c)"
    and "catalog_ok (upsert_text_space y4 c)"
    and "catalog_ok (upsert_analyzer y5 c)"
    and "catalog_ok (upsert_field_schema y6 c)"
    and "catalog_ok (upsert_retrieval_profile y7 c)"
    and "catalog_ok (upsert_fusion_profile y8 c)"
  using assms
  by (simp_all add: catalog_ok_def strict_by_upsert upsert_collection_def upsert_embedding_space_def upsert_codec_def upsert_vector_def upsert_text_space_def upsert_analyzer_def upsert_field_schema_def upsert_retrieval_profile_def upsert_fusion_profile_def)

lemma stub_of_sel [simp]: "st_frame_id (stub_of x) = fd_frame_id x" "st_status (stub_of x) = fd_status x"
  by (simp_all add: stub_of_def)

lemma upsert_frame_eq:
  "upsert_frame x c = c\<lparr>cs_frames := upsert fd_frame_id x (cs_frames c),
                        cs_frame_stubs := upsert st_frame_id (stub_of x) (cs_frame_stubs c)\<rparr>"
  by (simp add: upsert_frame_def stub_of_def)

lemma catalog_ok_upsert_frame:
  assumes "catalog_ok c" shows "catalog_ok (upsert_frame x c)"
proof -
  have "strict_by fd_frame_id (cs_frames c)" "strict_by st_frame_id (cs_frame_stubs c)"
    and "stub_of ` set (cs_frames c) \<subseteq> set (cs_frame_stubs c)"
    using assms by (simp_all add: catalog_ok_def)
  then have "stub_of ` set (cs_frames (upsert_frame x c)) \<subseteq> set (cs_frame_stubs (upsert_frame x c))"
    by (auto simp: upsert_frame_eq set_upsert)
  then show ?thesis using assms by (simp add: catalog_ok_def upsert_frame_eq strict_by_upsert)
qed

lemma lookup_upsert_frame:
  assumes "catalog_ok c"
  shows "lookup_by fd_frame_id k (cs_frames (upsert_frame x c)) =
           (if k = fd_frame_id x then Some x else lookup_by fd_frame_id k (cs_frames c))"
    and "lookup_by st_frame_id k (cs_frame_stubs (upsert_frame x c)) =
           (if k = fd_frame_id x then Some (stub_of x)
            else lookup_by st_frame_id k (cs_frame_stubs c))"
  using assms by (simp_all add: catalog_ok_def upsert_frame_eq lookup_by_upsert)

text \<open>The slim index answers the status of every frame in memory.\<close>
lemma stub_status:
  assumes "catalog_ok c" and "lookup_by fd_frame_id k (cs_frames c) = Some x"
  shows "lookup_by st_frame_id k (cs_frame_stubs c) = Some (stub_of x)"
proof -
  have s: "strict_by fd_frame_id (cs_frames c)" "strict_by st_frame_id (cs_frame_stubs c)"
    and sub: "stub_of ` set (cs_frames c) \<subseteq> set (cs_frame_stubs c)"
    using assms(1) by (simp_all add: catalog_ok_def)
  have "x \<in> set (cs_frames c)" "fd_frame_id x = k"
    using assms(2) by (simp_all add: lookup_by_table_map s table_map_Some strict_by_distinct)
  then show ?thesis
    using sub by (auto simp: lookup_by_table_map s table_map_Some strict_by_distinct)
qed

section \<open>The dirty subset of a sorted table\<close>

lemma dirty_records_lookup:
  "dirty_records key records D =
     concat (map (\<lambda>k. case lookup_by key k records of Some x \<Rightarrow> [x] | None \<Rightarrow> [])
                 (sorted_list_of_set D))"
proof -
  have "(case binary_search_by_key key k records of Inr i \<Rightarrow> [records ! i] | Inl _ \<Rightarrow> []) =
      (case lookup_by key k records of Some x \<Rightarrow> [x] | None \<Rightarrow> [])" for k
    by (simp add: lookup_by_def split: sum.split)
  then show ?thesis by (simp add: dirty_records_def)
qed

lemma strict_by_concat_lookup:
  assumes "strict_by key records" and "sorted_wrt (<) ks"
  shows "strict_by key
           (concat (map (\<lambda>k. case lookup_by key k records of Some x \<Rightarrow> [x] | None \<Rightarrow> []) ks))"
  using assms(2)
proof (induction ks)
  case Nil
  then show ?case by simp
next
  case (Cons k ks)
  have "key x = k'" if "lookup_by key k' records = Some x" for x k'
    using that assms(1) by (simp add: lookup_by_table_map table_map_Some strict_by_distinct)
  with Cons show ?case
    by (auto simp: strict_by_append strict_by_Cons split: option.splits)
qed

lemma set_dirty_records:
  assumes "strict_by key records" and "finite D"
  shows "set (dirty_records key records D) = {x \<in> set records. key x \<in> D}"
proof -
  have l: "lookup_by key k records = Some x \<longleftrightarrow> x \<in> set records \<and> key x = k" for k x
    using assms(1) by (simp add: lookup_by_table_map table_map_Some strict_by_distinct)
  have "x \<in> set (dirty_records key records D) \<longleftrightarrow> (\<exists>k\<in>D. lookup_by key k records = Some x)" for x
    using assms(2) by (auto simp: dirty_records_lookup split: option.splits) (metis option.inject)+
  then show ?thesis by (auto simp: l)
qed

lemma strict_dirty_records:
  assumes "strict_by key records" shows "strict_by key (dirty_records key records D)"
  unfolding dirty_records_lookup using assms
  by (rule strict_by_concat_lookup) simp

lemma table_map_dirty_records:
  assumes "strict_by key records" and "finite D"
  shows "table_map key (dirty_records key records D) k =
           (if k \<in> D then table_map key records k else None)"
proof -
  have d: "distinct (map key records)" "distinct (map key (dirty_records key records D))"
    using assms by (auto intro: strict_by_distinct strict_dirty_records)
  have "table_map key (dirty_records key records D) k = Some x \<longleftrightarrow>
      k \<in> D \<and> table_map key records k = Some x" for x
    by (auto simp: table_map_Some d set_dirty_records assms)
  then show ?thesis by (metis not_None_eq)
qed

text \<open>A strictly sorted table is determined by its map.\<close>
lemma strict_by_unique:
  assumes "strict_by key xs" and "strict_by key ys" and "table_map key xs = table_map key ys"
  shows "xs = ys"
proof -
  have "x \<in> set xs \<longleftrightarrow> x \<in> set ys" for x
    using assms(3) table_map_Some [OF strict_by_distinct [OF assms(1)], of "key x" x]
      table_map_Some [OF strict_by_distinct [OF assms(2)], of "key x" x] by simp
  then have s: "set xs = set ys" by auto
  have k: "map key xs = map key ys"
  proof (rule sorted_distinct_set_unique)
    show "sorted (map key xs)" "distinct (map key xs)" "sorted (map key ys)" "distinct (map key ys)"
      using assms by (auto simp: strict_by_def strict_sorted_iff)
    show "set (map key xs) = set (map key ys)" using s by simp
  qed
  show ?thesis
  proof (rule nth_equalityI)
    show l: "length xs = length ys" using arg_cong [OF k, of length] by simp
    fix i assume i: "i < length xs"
    have kk: "key (xs ! i) = key (ys ! i)" using arg_cong [OF k, of "\<lambda>l. l ! i"] i l by simp
    have m: "xs ! i \<in> set ys" using i s nth_mem [of i xs] by simp
    have m': "ys ! i \<in> set ys" using i l by simp
    have "inj_on key (set ys)"
      using strict_by_distinct [OF assms(2)] by (simp add: distinct_map)
    then show "xs ! i = ys ! i" using kk m m' by (rule inj_onD)
  qed
qed

end
