(* ===== verification/CatalogIo.thy ===== *)
theory CatalogIo imports Instances CatalogCodec Catalog "HOL-Library.AList" begin

text \<open>
  Catalog chains on disk (src/file/catalog_io.rs, \<open>flush_catalog_table\<close> of
  src/file/internals.rs): a table is the union, newest record first, of a chain of delta
  segments linked by previous roots; a commit appends the dirty records as one more delta.
  The walk along the chain may not end on a cyclic chain, so it is an option-valued partial
  function and \<open>None\<close> is the value of a walk that runs forever; the lemmas show that it
  returns on every chain, and that a table written by a commit reads back as the table in
  memory.
\<close>

section \<open>Walking a chain\<close>

text \<open>
  \<open>while let Some(root) = next { .. roots.push(root); next = previous }\<close>, then \<open>reverse\<close>.
\<close>
partial_function (option) chain_walk ::
  "(segment_ref \<Rightarrow> segment_ref option result) \<Rightarrow> segment_ref option \<Rightarrow> segment_ref list \<Rightarrow>
     segment_ref list result option" where
  "chain_walk previous cur roots_newest_first =
     (case cur of
        None \<Rightarrow> Some (Inr (rev roots_newest_first))
      | Some root \<Rightarrow>
          (case previous root of
             Inl e \<Rightarrow> Some (Inl e)
           | Inr previous_root \<Rightarrow> chain_walk previous previous_root (roots_newest_first @ [root])))"

definition catalog_chain_roots ::
  "hash \<Rightarrow> zstd_decode \<Rightarrow> segment_ref option bincode \<Rightarrow> storage \<Rightarrow> segment_ref option \<Rightarrow>
     catalog_table_kind \<Rightarrow> segment_ref list result option" where
  "catalog_chain_roots h unz rb f latest_root table =
     chain_walk (\<lambda>root. rbind (read_segment_payload h unz f root)
                           (decode_catalog_previous_root rb table)) latest_root []"

definition segment_registry_chain_roots ::
  "hash \<Rightarrow> zstd_decode \<Rightarrow> segment_ref option bincode \<Rightarrow> storage \<Rightarrow> segment_ref option \<Rightarrow>
     segment_ref list result option" where
  "segment_registry_chain_roots h unz rb f latest_root =
     chain_walk (\<lambda>root. rbind (read_segment_payload_typed h unz f root SegmentRegistry)
                           (decode_catalog_previous_root rb Kind_segment)) latest_root []"

definition read_catalog_root ::
  "hash \<Rightarrow> zstd_decode \<Rightarrow> 'a bincode \<Rightarrow> segment_ref option bincode \<Rightarrow> storage \<Rightarrow>
     segment_ref option \<Rightarrow> catalog_table_kind \<Rightarrow> 'a list result" where
  "read_catalog_root h unz b rb f root table =
     (case root of
        None \<Rightarrow> Inr []
      | Some root \<Rightarrow> rbind (read_segment_payload h unz f root) (\<lambda>payload.
          rbind (decode_catalog_delta b rb table payload) (\<lambda>d. Inr (cdl_records d))))"

text \<open>A \<open>HashMap\<close> filled by \<open>insert\<close> in order, then its pairs sorted by key.\<close>
definition hash_collect :: "('a \<Rightarrow> 'k::linorder) \<Rightarrow> 'a list \<Rightarrow> 'a list" where
  "hash_collect id_of records =
     map snd (sort_key fst (foldl (\<lambda>by_id r. AList.update (id_of r) r by_id) [] records))"

definition read_catalog_chain_dedup ::
  "hash \<Rightarrow> zstd_decode \<Rightarrow> 'a bincode \<Rightarrow> segment_ref option bincode \<Rightarrow> storage \<Rightarrow>
     segment_ref option \<Rightarrow> catalog_table_kind \<Rightarrow> ('a \<Rightarrow> u64) \<Rightarrow> 'a list result option" where
  "read_catalog_chain_dedup h unz b rb f latest_root table id_of =
     map_option (\<lambda>walked. rbind walked (\<lambda>roots.
       if length roots = 1
       then rbind (read_catalog_root h unz b rb f (Some (roots ! 0)) table)
              (\<lambda>out. Inr (sort_key id_of out))
       else rbind (map_result (\<lambda>root. read_catalog_root h unz b rb f (Some root) table) roots)
              (\<lambda>records. Inr (hash_collect id_of (concat records)))))
       (catalog_chain_roots h unz rb f latest_root table)"

definition read_segment_catalog ::
  "hash \<Rightarrow> zstd_decode \<Rightarrow> segment_catalog_entry bincode \<Rightarrow> segment_ref option bincode \<Rightarrow>
     storage \<Rightarrow> segment_ref option \<Rightarrow> segment_catalog_entry list result option" where
  "read_segment_catalog h unz b rb f segment_catalog_root =
     map_option (\<lambda>walked. rbind walked (\<lambda>roots.
       rbind (map_result (\<lambda>root.
           rbind (read_segment_payload_typed h unz f root SegmentRegistry) (\<lambda>payload.
           rbind (decode_catalog_delta b rb Kind_segment payload) (\<lambda>d. Inr (cdl_records d)))) roots)
         (\<lambda>records. Inr (hash_collect se_segment_id (concat records)))))
       (segment_registry_chain_roots h unz rb f segment_catalog_root)"

definition read_collection_catalog ::
  "hash \<Rightarrow> zstd_decode \<Rightarrow> collection_desc bincode \<Rightarrow> segment_ref option bincode \<Rightarrow>
     storage \<Rightarrow> segment_ref option \<Rightarrow> collection_desc list result option" where
  "read_collection_catalog h unz b rb f collection_catalog_root =
     map_option (\<lambda>walked. rbind walked (\<lambda>roots.
       rbind (map_result (\<lambda>root. read_catalog_root h unz b rb f (Some root) Kind_collection) roots)
         (\<lambda>records. Inr (cs_collections
            (fold upsert_collection (concat records) catalog_snapshot_default)))))
       (catalog_chain_roots h unz rb f collection_catalog_root Kind_collection)"

section \<open>Appending a delta\<close>

definition flush_catalog_table ::
  "hash \<Rightarrow> 'a bincode \<Rightarrow> segment_ref option bincode \<Rightarrow> storage \<Rightarrow> id_allocator \<Rightarrow>
     segment_registry_mut \<Rightarrow> segment_ref option \<Rightarrow> 'k::linorder set \<Rightarrow> 'a list \<Rightarrow>
     catalog_table_kind \<Rightarrow> segment_type \<Rightarrow> ('a \<Rightarrow> 'k) \<Rightarrow>
     (segment_ref option \<times> storage \<times> id_allocator \<times> segment_registry_mut) result" where
  "flush_catalog_table h b rb f a segs body_root dirty_ids catalog table ty id_of =
     (if dirty_ids = {} then Inr (body_root, f, a, segs)
      else let records = dirty_records id_of catalog dirty_ids in
        rbind (encode_catalog_delta b rb table body_root records) (\<lambda>payload.
        rbind (append_registered_segment h f a segs ty (of_nat (length records)) payload)
          (\<lambda>(root, f', a', segs'). Inr (Some root, f', a', segs'))))"

section \<open>Reading a map out of a chain\<close>

text \<open>The map left by inserting records in order: the last one under a key.\<close>
definition last_map :: "('a \<Rightarrow> 'k) \<Rightarrow> 'a list \<Rightarrow> 'k \<rightharpoonup> 'a" where
  "last_map key rs = map_of (rev (map (\<lambda>r. (key r, r)) rs))"

lemma last_map_simps [simp]:
  "last_map key [] = Map.empty"
  "last_map key (rs @ [r]) = (last_map key rs)(key r \<mapsto> r)"
  by (simp_all add: last_map_def)

lemma last_map_append: "last_map key (rs @ rs') = last_map key rs ++ last_map key rs'"
  by (simp add: last_map_def)

lemma last_map_key: "last_map key rs k = Some x \<Longrightarrow> key x = k"
  by (auto simp: last_map_def dest!: map_of_SomeD)

lemma last_map_table: "distinct (map key rs) \<Longrightarrow> last_map key rs = table_map key rs"
  unfolding last_map_def table_map_def
  by (rule map_of_inject_set [THEN iffD2]) (simp_all add: rev_map [symmetric] comp_def)

lemma hash_fold_distinct:
  "distinct (map fst al) \<Longrightarrow>
   distinct (map fst (foldl (\<lambda>m r. AList.update (id_of r) r m) al rs))"
  by (induction rs arbitrary: al) (simp_all add: distinct_update)

lemma hash_fold_map:
  "map_of (foldl (\<lambda>m r. AList.update (id_of r) r m) [] rs) = last_map id_of rs"
  by (induction rs rule: rev_induct) (simp_all add: update_conv')

lemma strict_by_sort:
  assumes "distinct (map fst al)" and "\<forall>(k, x)\<in>set al. key x = k"
  shows "strict_by key (map snd (sort_key fst al))"
proof -
  have "map key (map snd (sort_key fst al)) = map fst (sort_key fst al)"
    using assms(2) by auto
  moreover have "sorted (map fst (sort_key fst al))" "distinct (map fst (sort_key fst al))"
    using assms(1) by (simp_all add: distinct_map)
  ultimately show ?thesis by (simp add: strict_by_def strict_sorted_iff del: map_map)
qed

lemma hash_collect_spec:
  "strict_by id_of (hash_collect id_of rs)"
  "table_map id_of (hash_collect id_of rs) = last_map id_of rs"
proof -
  define al where "al = foldl (\<lambda>m r. AList.update (id_of r) r m) [] rs"
  have d: "distinct (map fst al)" unfolding al_def by (rule hash_fold_distinct) simp
  have m: "map_of al = last_map id_of rs" unfolding al_def by (rule hash_fold_map)
  have keyed: "id_of x = k" if "(k, x) \<in> set al" for k x
    using that d m last_map_key by (metis map_of_is_SomeI)
  have hc: "hash_collect id_of rs = map snd (sort_key fst al)"
    by (simp add: hash_collect_def al_def)
  show s: "strict_by id_of (hash_collect id_of rs)"
    unfolding hc by (rule strict_by_sort [OF d]) (auto dest: keyed)
  have "table_map id_of (hash_collect id_of rs) k = Some x \<longleftrightarrow> map_of al k = Some x" for k x
  proof -
    have "table_map id_of (hash_collect id_of rs) k = Some x \<longleftrightarrow> x \<in> snd ` set al \<and> id_of x = k"
      unfolding table_map_Some [OF strict_by_distinct [OF s]] by (simp add: hc)
    also have "\<dots> \<longleftrightarrow> (k, x) \<in> set al" using keyed by force
    finally show ?thesis using d by simp
  qed
  then have "table_map id_of (hash_collect id_of rs) k = map_of al k" for k
    by (metis not_None_eq)
  then show "table_map id_of (hash_collect id_of rs) = last_map id_of rs"
    unfolding m by (rule ext)
qed

section \<open>Chains\<close>

text \<open>
  \<open>chain\<close>: from \<open>latest\<close>, the segments of the chain, newest first, with the records each holds.
\<close>
fun chain :: "(segment_ref \<Rightarrow> bytes result) \<Rightarrow> 'a bincode \<Rightarrow> segment_ref option bincode \<Rightarrow>
    catalog_table_kind \<Rightarrow> segment_ref option \<Rightarrow> (segment_ref \<times> 'a list) list \<Rightarrow> bool" where
  "chain rd b rb table latest [] \<longleftrightarrow> latest = None"
| "chain rd b rb table latest ((root, records) # older) \<longleftrightarrow>
     latest = Some root \<and> (\<exists>payload previous. rd root = Inr payload \<and>
       decode_catalog_delta b rb table payload =
         Inr \<lparr>cdl_previous_root = previous, cdl_records = records\<rparr> \<and>
       chain rd b rb table previous older)"

text \<open>The table a chain stands for: the newest record of each key.\<close>
fun chain_map :: "('a \<Rightarrow> 'k) \<Rightarrow> (segment_ref \<times> 'a list) list \<Rightarrow> 'k \<rightharpoonup> 'a" where
  "chain_map key [] = Map.empty"
| "chain_map key ((root, records) # older) = chain_map key older ++ table_map key records"

lemma chain_walk_chain:
  assumes "chain rd b rb table latest segs"
  shows "chain_walk (\<lambda>root. rbind (rd root) (decode_catalog_previous_root rb table)) latest acc =
    Some (Inr (rev (map fst segs) @ rev acc))"
  using assms
proof (induction segs arbitrary: latest acc)
  case Nil
  then show ?case by (simp add: chain_walk.simps)
next
  case (Cons s older)
  obtain root records where s: "s = (root, records)" by (cases s)
  from Cons.prems obtain payload previous where l: "latest = Some root"
    and rd: "rd root = Inr payload"
    and d: "decode_catalog_delta b rb table payload =
      Inr \<lparr>cdl_previous_root = previous, cdl_records = records\<rparr>"
    and older: "chain rd b rb table previous older"
    by (auto simp: s)
  have "decode_catalog_previous_root rb table payload = Inr previous"
    using delta_previous_root [OF d] by simp
  then show ?case
    using Cons.IH [OF older, of "acc @ [root]"] by (simp add: chain_walk.simps l rd s)
qed

lemma map_result_map: "map_result f (map g xs) = map_result (\<lambda>x. f (g x)) xs"
  by (induction xs) simp_all

lemma chain_records:
  assumes "chain rd b rb table latest segs"
  shows "map_result (\<lambda>root. rbind (rd root) (\<lambda>payload.
      rbind (decode_catalog_delta b rb table payload) (\<lambda>d. Inr (cdl_records d))))
      (rev (map fst segs)) = Inr (rev (map snd segs))"
proof -
  have "\<And>s. s \<in> set segs \<Longrightarrow> rbind (rd (fst s)) (\<lambda>payload.
      rbind (decode_catalog_delta b rb table payload) (\<lambda>d. Inr (cdl_records d))) = Inr (snd s)"
    using assms by (induction rd b rb table latest segs rule: chain.induct) auto
  then show ?thesis
    unfolding rev_map map_result_map by (intro map_result_Inr) simp
qed

lemma chain_map_last:
  assumes "\<forall>s\<in>set segs. distinct (map key (snd s))"
  shows "last_map key (concat (rev (map snd segs))) = chain_map key segs"
  using assms
proof (induction segs)
  case (Cons s older)
  then show ?case by (cases s) (simp add: last_map_append last_map_table)
qed simp

lemma chain_append:
  assumes "\<And>root p. rd root = Inr p \<Longrightarrow> rd' root = Inr p"
  shows "chain rd b rb table latest segs \<Longrightarrow> chain rd' b rb table latest segs"
proof (induction segs arbitrary: latest)
  case (Cons s older)
  then show ?case using assms by (cases s) auto
qed simp

section \<open>Reading a chain back\<close>

lemma read_segment_untyped:
  assumes "read_segment h unz f root ex = Inr r"
  shows "read_segment h unz f root None = Inr r"
proof -
  obtain s body where r: "r = (s, body)" by (cases r)
  from assms show ?thesis
    unfolding r
    by (rule read_segment_steps)
      (simp only: read_segment_def option.case rbind_simps if_False not_not simp_thms)
qed

lemma read_segment_payload_typed_untyped:
  "read_segment_payload_typed h unz f root ty = Inr p \<Longrightarrow> read_segment_payload h unz f root = Inr p"
  by (auto simp: read_segment_payload_typed_def read_segment_payload_def rbind_Inr_iff
      dest: read_segment_untyped)

lemma read_segment_payload_append:
  "read_segment_payload h unz f root = Inr p \<Longrightarrow> read_segment_payload h unz (f @ g) root = Inr p"
  by (auto simp: read_segment_payload_def rbind_Inr_iff dest: read_segment_append)

lemma read_segment_payload_typed_append:
  "read_segment_payload_typed h unz f root ty = Inr p \<Longrightarrow>
   read_segment_payload_typed h unz (f @ g) root ty = Inr p"
  by (auto simp: read_segment_payload_typed_def rbind_Inr_iff dest: read_segment_append)

text \<open>The reader's \<open>u64\<close> key orders records as the table's own key does.\<close>
definition same_order :: "('a \<Rightarrow> 'k::linorder) \<Rightarrow> ('a \<Rightarrow> 'l::linorder) \<Rightarrow> bool" where
  "same_order key id_of \<longleftrightarrow> (\<forall>x y. id_of x < id_of y \<longleftrightarrow> key x < key y)"

lemma same_order_eq: "same_order key id_of \<Longrightarrow> id_of x = id_of y \<longleftrightarrow> key x = key y"
  by (metis same_order_def less_irrefl linorder_cases)

lemma same_order_refl: "same_order key key"
  by (simp add: same_order_def)

lemma same_order_ucast:
  fixes key :: "'a \<Rightarrow> u32"
  shows "same_order key (\<lambda>x. ucast (key x) :: u64)"
  by (simp add: same_order_def word_less_nat_alt unat_ucast_up_simp)

lemma same_order_strict: "same_order key id_of \<Longrightarrow> strict_by id_of xs \<longleftrightarrow> strict_by key xs"
  by (induction xs) (simp_all add: strict_by_Cons same_order_def)

lemma read_catalog_chain:
  assumes c: "chain (read_segment_payload h unz f) b rb table latest segs"
    and d: "\<forall>s\<in>set segs. strict_by id_of (snd s)"
  shows "\<exists>out. read_catalog_chain_dedup h unz b rb f latest table id_of = Some (Inr out) \<and>
    strict_by id_of out \<and> table_map id_of out = chain_map id_of segs"
proof -
  have roots: "catalog_chain_roots h unz rb f latest table = Some (Inr (rev (map fst segs)))"
    using chain_walk_chain [OF c, of "[]"] by (simp add: catalog_chain_roots_def)
  have recs: "map_result (\<lambda>root. read_catalog_root h unz b rb f (Some root) table) (rev (map fst segs)) =
      Inr (rev (map snd segs))"
    using chain_records [OF c] by (simp add: read_catalog_root_def)
  show ?thesis
  proof (cases "length segs = 1")
    case True
    then obtain root records where segs: "segs = [(root, records)]"
      by (cases segs) auto
    have "sort_key id_of records = records"
      using d by (intro sort_key_id_if_sorted) (auto simp: segs strict_by_def strict_sorted_iff)
    then show ?thesis
      using recs d
      by (auto simp: read_catalog_chain_dedup_def roots segs rbind_Inr_iff)
  next
    case False
    have "\<forall>s\<in>set segs. distinct (map id_of (snd s))" using d strict_by_distinct by blast
    then show ?thesis
      using recs False hash_collect_spec [of id_of "concat (rev (map snd segs))"]
      by (simp add: read_catalog_chain_dedup_def roots chain_map_last)
  qed
qed

section \<open>A committed table reads back\<close>

text \<open>
  What a handle knows of a table between commits: the chain on disk differs from the table
  in memory at most at the dirty keys, and no record was removed.
\<close>
definition table_synced :: "('a \<Rightarrow> 'k::linorder) \<Rightarrow> 'k set \<Rightarrow> 'a list \<Rightarrow> ('k \<rightharpoonup> 'a) \<Rightarrow> bool" where
  "table_synced key dirty t disk \<longleftrightarrow> finite dirty \<and> strict_by key t \<and>
     (\<forall>k. k \<notin> dirty \<longrightarrow> table_map key t k = disk k) \<and> dom disk \<subseteq> dom (table_map key t)"

text \<open>An upsert that marks its key keeps the table in sync, as every mutation does.\<close>
lemma table_synced_upsert:
  "table_synced key dirty t disk \<Longrightarrow> table_synced key (insert (key x) dirty) (upsert key x t) disk"
  by (auto simp: table_synced_def strict_by_upsert table_map_upsert)

lemma table_synced_delta:
  assumes "table_synced key dirty t disk"
  shows "disk ++ table_map key (dirty_records key t dirty) = table_map key t"
proof
  fix k
  have "strict_by key t" "finite dirty" and clean: "k \<notin> dirty \<Longrightarrow> table_map key t k = disk k"
    and dom: "table_map key t k = None \<Longrightarrow> disk k = None"
    using assms by (auto simp: table_synced_def)
  then show "(disk ++ table_map key (dirty_records key t dirty)) k = table_map key t k"
    by (auto simp: map_add_def table_map_dirty_records split: option.split)
qed

lemma chain_map_same_order:
  assumes so: "same_order key id_of" and "table_map key t = chain_map key segs"
    and s: "strict_by key t" and d: "\<forall>s\<in>set segs. strict_by key (snd s)"
  shows "table_map id_of t = chain_map id_of segs"
proof -
  have tm: "table_map id_of xs (id_of x) = table_map key xs (key x)" if "strict_by key xs" for xs x
  proof -
    have "table_map id_of xs (id_of x) = Some y \<longleftrightarrow> table_map key xs (key x) = Some y" for y
      using that same_order_strict [OF so, of xs]
      by (simp add: table_map_Some strict_by_distinct same_order_eq [OF so])
    then show ?thesis by (metis not_None_eq)
  qed
  have cm: "chain_map id_of segs (id_of x) = chain_map key segs (key x)" for x
    using d
  proof (induction segs)
    case (Cons s older)
    obtain root rs where s: "s = (root, rs)" by (cases s)
    with Cons.prems have "strict_by key rs" "\<forall>s\<in>set older. strict_by key (snd s)" by auto
    with Cons.IH tm [of rs x] show ?case by (simp add: s map_add_def split: option.split)
  qed simp
  have dom: "table_map id_of xs k = None" if "k \<notin> range id_of" for xs k
    using that by (auto simp: table_map_def map_of_eq_None_iff)
  have cdom: "chain_map id_of segs k = None" if "k \<notin> range id_of" for k
    using that
  proof (induction segs)
    case (Cons s older)
    then show ?case by (cases s) (simp add: map_add_def dom)
  qed simp
  show ?thesis
  proof
    fix k show "table_map id_of t k = chain_map id_of segs k"
    proof (cases "k \<in> range id_of")
      case True
      then obtain x where "k = id_of x" by blast
      then show ?thesis using tm [OF s, of x] cm [of x] assms(2) by simp
    qed (simp add: dom cdom)
  qed
qed

lemma append_registered_segment_length:
  assumes "digest32 h" and "fits (length f)"
    and "append_registered_segment h f a segs ty n p = Inr (root, f', a', segs')"
  shows "SEGMENT_HEADER_SIZE + length p \<le> length f'"
proof -
  obtain sid a1 r f1 where al: "allocate_segment_id a = Inr (sid, a1)"
    and ap: "append_segment_at_end h f sid ty n p = (r, f1)"
    using assms(3) by (auto simp: append_registered_segment_def rbind_Inr_iff) (metis surj_pair)
  then have "f1 = f'" using assms(3) by (auto simp: append_registered_segment_def rbind_Inr_iff)
  then show ?thesis
    using append_segment_at_end_eq [OF assms(1,2), of sid ty n p] ap assms(1)
    by simp
qed

lemma append_registered_extends:
  assumes h: "digest32 h" and f: "fits (length f)"
    and app: "append_registered_segment h f a segs ty n p = Inr (root, f', a', segs')"
  shows "\<exists>tail. f' = f @ tail" and "length (sr_checksum root) = 32"
    and "fits (length f') \<Longrightarrow> read_segment_payload_typed h unz f' root ty = Inr p"
proof -
  obtain sid a1 where al: "allocate_segment_id a = Inr (sid, a1)"
    using app by (auto simp: append_registered_segment_def rbind_Inr_iff)
  obtain r f1 where ap: "append_segment_at_end h f sid ty n p = (r, f1)" by fastforce
  have eq: "append_segment_at_end h f sid ty n p = (root, f')"
    using app by (auto simp: append_registered_segment_def rbind_Inr_iff al ap)
  then show "\<exists>tail. f' = f @ tail" and "length (sr_checksum root) = 32"
    using h by (auto simp: append_segment_at_end_eq [OF h f] segment_ref_at_end_def Let_def)
  assume f': "fits (length f')"
  have "fits (length p)"
    using append_registered_segment_length [OF h f app] by (intro fits_mono [OF f']) simp
  from read_append_segment [OF h f this eq] show "read_segment_payload_typed h unz f' root ty = Inr p"
    by (simp add: read_segment_payload_typed_def)
qed

lemma flush_catalog_table_chain:
  assumes h: "digest32 h" and fit: "fits (length f')" and b: "bincode_ok b" "bincode_ok rb"
    and ok: "registry_ok reg" and bk: "registry_backed h unz f reg"
    and lt: "\<forall>e\<in>set (rg_catalog reg). unat (se_segment_id e) < unat (next_segment_id a)"
    and c: "chain (read_segment_payload h unz f) b rb table latest segs"
    and d: "\<forall>s\<in>set segs. strict_by key (snd s)"
    and sync: "table_synced key dirty t (chain_map key segs)"
    and fl: "flush_catalog_table h b rb f a (reg, dsegs) latest dirty t table ty key =
      Inr (latest', f', a', reg', dsegs')"
  shows "\<exists>segs'. chain (read_segment_payload h unz f') b rb table latest' segs' \<and>
      (\<forall>s\<in>set segs'. strict_by key (snd s)) \<and> chain_map key segs' = table_map key t"
    and "\<exists>tail. f' = f @ tail"
    and "registry_ok reg'" and "registry_backed h unz f' reg'"
    and "\<forall>e\<in>set (rg_catalog reg'). unat (se_segment_id e) < unat (next_segment_id a')"
proof -
  have "(\<exists>segs'. chain (read_segment_payload h unz f') b rb table latest' segs' \<and>
      (\<forall>s\<in>set segs'. strict_by key (snd s)) \<and> chain_map key segs' = table_map key t) \<and>
    (\<exists>tail. f' = f @ tail) \<and> registry_ok reg' \<and> registry_backed h unz f' reg' \<and>
    (\<forall>e\<in>set (rg_catalog reg'). unat (se_segment_id e) < unat (next_segment_id a'))"
  proof (cases "dirty = {}")
    case True
    have "chain_map key segs = table_map key t"
      using sync True by (auto simp: table_synced_def)
    then show ?thesis
      using fl True c d ok bk lt by (auto simp: flush_catalog_table_def)
  next
    case False
    let ?rs = "dirty_records key t dirty"
    obtain payload root where pl: "encode_catalog_delta b rb table latest ?rs = Inr payload"
      and app: "append_registered_segment h f a (reg, dsegs) ty (of_nat (length ?rs)) payload =
        Inr (root, f', a', reg', dsegs')"
      and latest': "latest' = Some root"
      using fl False by (auto simp: flush_catalog_table_def Let_def rbind_Inr_iff)
    have tail: "length f \<le> length f'"
      using app by (auto simp: append_registered_segment_def append_segment_at_end_def Let_def
          rbind_Inr_iff write_all_at_def split: prod.splits)
    have ff: "fits (length f)" using fit tail by (rule fits_mono)
    have pf: "fits (SEGMENT_HEADER_SIZE + length payload)"
      using fit append_registered_segment_length [OF h ff app] by (rule fits_mono)
    note spec = append_registered_segment_spec [OF h ff pf ok bk lt app]
    obtain tl where f': "f' = f @ tl" using spec(2) by blast
    have rd: "read_segment_payload h unz f' root = Inr payload"
      by (rule read_segment_payload_typed_untyped [OF spec(1)])
    have c': "chain (read_segment_payload h unz f') b rb table latest segs"
      unfolding f' by (rule chain_append [OF read_segment_payload_append c])
    have st: "strict_by key t" using sync by (simp add: table_synced_def)
    have "chain (read_segment_payload h unz f') b rb table latest' ((root, ?rs) # segs)"
      using c' rd catalog_delta_rt(1) [OF b pl] by (auto simp: latest')
    moreover have "chain_map key ((root, ?rs) # segs) = table_map key t"
      using table_synced_delta [OF sync] by simp
    moreover have "\<forall>s\<in>set ((root, ?rs) # segs). strict_by key (snd s)"
      using d strict_dirty_records [OF st] by simp
    ultimately show ?thesis using spec by blast
  qed
  then show "\<exists>segs'. chain (read_segment_payload h unz f') b rb table latest' segs' \<and>
      (\<forall>s\<in>set segs'. strict_by key (snd s)) \<and> chain_map key segs' = table_map key t"
    and "\<exists>tail. f' = f @ tail"
    and "registry_ok reg'" and "registry_backed h unz f' reg'"
    and "\<forall>e\<in>set (rg_catalog reg'). unat (se_segment_id e) < unat (next_segment_id a')"
    by blast+
qed

text \<open>A chain that stands for a table reads back as that table.\<close>
lemma chain_reads_table:
  assumes c: "chain (read_segment_payload h unz f) b rb table latest segs"
    and d: "\<forall>s\<in>set segs. strict_by key (snd s)" and m: "chain_map key segs = table_map key t"
    and t: "strict_by key t" and so: "same_order key id_of"
  shows "read_catalog_chain_dedup h unz b rb (f @ g) latest table id_of = Some (Inr t)"
proof -
  have c': "chain (read_segment_payload h unz (f @ g)) b rb table latest segs"
    by (rule chain_append [OF read_segment_payload_append c])
  have d': "\<forall>s\<in>set segs. strict_by id_of (snd s)" using d same_order_strict [OF so] by simp
  obtain out where out: "read_catalog_chain_dedup h unz b rb (f @ g) latest table id_of = Some (Inr out)"
    and so': "strict_by id_of out" and mo: "table_map id_of out = chain_map id_of segs"
    using read_catalog_chain [OF c' d'] by blast
  have "table_map id_of t = chain_map id_of segs"
    by (rule chain_map_same_order [OF so m [symmetric] t d])
  then have "out = t"
    using strict_by_unique [OF so'] same_order_strict [OF so] t mo by metis
  with out show ?thesis by simp
qed

text \<open>
  The table \<open>m\<close> that the chain rooted at \<open>latest\<close> holds on disk.
\<close>
definition table_on_disk ::
  "hash \<Rightarrow> zstd_decode \<Rightarrow> 'a bincode \<Rightarrow> segment_ref option bincode \<Rightarrow> storage \<Rightarrow>
     catalog_table_kind \<Rightarrow> ('a \<Rightarrow> 'k::linorder) \<Rightarrow> segment_ref option \<Rightarrow> ('k \<rightharpoonup> 'a) \<Rightarrow> bool" where
  "table_on_disk h unz b rb f table key latest m \<longleftrightarrow>
     (\<exists>segs. chain (read_segment_payload h unz f) b rb table latest segs \<and>
        (\<forall>s\<in>set segs. strict_by key (snd s)) \<and> chain_map key segs = m)"

lemma table_on_disk_empty: "table_on_disk h unz b rb f table key None Map.empty"
  unfolding table_on_disk_def by (rule exI [of _ "[]"]) simp

lemma chain_storage_append:
  "chain (read_segment_payload h unz f) b rb table latest segs \<Longrightarrow>
   chain (read_segment_payload h unz (f @ g)) b rb table latest segs"
  by (rule chain_append [OF read_segment_payload_append])

lemma table_on_disk_append:
  "table_on_disk h unz b rb f table key latest m \<Longrightarrow> table_on_disk h unz b rb (f @ g) table key latest m"
  unfolding table_on_disk_def using chain_storage_append by blast

lemma table_on_disk_reads:
  assumes "table_on_disk h unz b rb f table key latest (table_map key t)" and "strict_by key t"
    and "same_order key id_of"
  shows "read_catalog_chain_dedup h unz b rb (f @ g) latest table id_of = Some (Inr t)"
  using assms chain_reads_table unfolding table_on_disk_def by blast

lemma flush_table_on_disk:
  assumes "digest32 h" and "fits (length f')" and "bincode_ok b" "bincode_ok rb"
    and "registry_ok reg" and "registry_backed h unz f reg"
    and "\<forall>e\<in>set (rg_catalog reg). unat (se_segment_id e) < unat (next_segment_id a)"
    and "table_on_disk h unz b rb f table key latest m" and "table_synced key dirty t m"
    and "flush_catalog_table h b rb f a (reg, dsegs) latest dirty t table ty key =
      Inr (latest', f', a', reg', dsegs')"
  shows "table_on_disk h unz b rb f' table key latest' (table_map key t)"
proof -
  obtain segs where c: "chain (read_segment_payload h unz f) b rb table latest segs"
    and d: "\<forall>s\<in>set segs. strict_by key (snd s)" and m: "chain_map key segs = m"
    using assms(8) unfolding table_on_disk_def by blast
  show ?thesis
    using flush_catalog_table_chain(1) [OF assms(1-7) c d _ assms(10)] assms(9)
    unfolding table_on_disk_def m by blast
qed

section \<open>Properties\<close>

text \<open>
  C10: A catalog table that a commit flushed reads back, after any further appends, as
  exactly the table in memory, although the commit wrote only its dirty records: if the
  chain on disk holds the table up to the dirty keys, then after \<open>flush_catalog_table\<close> the
  chain walk returns, and the newest-wins union of its deltas is the table.
\<close>
theorem committed_table_rereads:
  fixes key :: "'a \<Rightarrow> 'k::linorder" and id_of :: "'a \<Rightarrow> u64"
  assumes "digest32 h" and "fits (length f')" and "bincode_ok b" and "bincode_ok rb"
    and "registry_ok reg" and "registry_backed h unz f reg"
    and "\<forall>e\<in>set (rg_catalog reg). unat (se_segment_id e) < unat (next_segment_id a)"
    and "table_on_disk h unz b rb f table key latest m" and "table_synced key dirty t m"
    and "same_order key id_of"
    and "flush_catalog_table h b rb f a (reg, dsegs) latest dirty t table ty key =
      Inr (latest', f', a', reg', dsegs')"
  shows "read_catalog_chain_dedup h unz b rb (f' @ g) latest' table id_of = Some (Inr t)"
  using flush_table_on_disk [OF assms(1-9,11)] assms(9,10)
  by (intro table_on_disk_reads) (simp_all add: table_synced_def)

lemma ex_flush:
  "\<exists>latest f' a' reg' d'.
     flush_catalog_table ex_hash ex_u64_bincode ex_ref_bincode [] id_allocator_default
       (\<lparr>rg_catalog = [], rg_by_id = Map.empty, rg_loaded = True\<rparr>, {}) None {3, 5} [3, 5]
       Kind_codec CodecCatalog (\<lambda>x. x) = Inr (latest, f', a', reg', d') \<and> fits (length f')"
proof -
  have d: "dirty_records (\<lambda>x. x) [3, 5] {3, 5 :: u64} = [3, 5]"
  proof (rule strict_by_unique [where key = "\<lambda>x. x"])
    have s: "strict_by (\<lambda>x :: u64. x) [3, 5]" by (simp add: strict_by_def)
    show "strict_by (\<lambda>x. x) (dirty_records (\<lambda>x. x) [3, 5] {3, 5 :: u64})"
      by (rule strict_dirty_records [OF s])
    show "strict_by (\<lambda>x :: u64. x) [3, 5]" by (rule s)
    show "table_map (\<lambda>x. x) (dirty_records (\<lambda>x. x) [3, 5] {3, 5 :: u64}) = table_map (\<lambda>x. x) [3, 5]"
      by (rule ext) (simp add: table_map_dirty_records [OF s], simp add: table_map_def)
  qed
  obtain payload where p: "encode_catalog_delta ex_u64_bincode ex_ref_bincode Kind_codec None [3, 5] = Inr payload"
    and l: "length payload < 1000"
    by (simp add: encode_catalog_delta_def encode_catalog_records_def encode_catalog_record_def
        bincode_encode_def ex_u64_bincode_def ex_ref_bincode_def ex_ref_encode_def
        catalog_record_header_new_def u32_try_from_def CATALOG_RECORD_HEADER_LEN_def)
  obtain sid a' where a: "allocate_segment_id id_allocator_default = Inr (sid, a')"
    by (simp add: allocate_segment_id_def take_id_def validate_next_def next_id_def checked_add_def
        id_allocator_default_def)
  have "fits (SEGMENT_HEADER_SIZE + length payload)"
    using l by (simp add: fits_def SEGMENT_HEADER_SIZE_def)
  then have "\<exists>root f' segs'. append_registered_segment ex_hash [] id_allocator_default
      (\<lparr>rg_catalog = [], rg_by_id = Map.empty, rg_loaded = True\<rparr>, {}) CodecCatalog 2 payload =
      Inr (root, f', a', segs') \<and> length f' = length ([] :: storage) + SEGMENT_HEADER_SIZE + length payload"
    by (intro append_registered_segment_total [OF ex_hash_ok _ _ a]) (simp_all add: fits_def)
  then obtain root f' segs' where app: "append_registered_segment ex_hash [] id_allocator_default
      (\<lparr>rg_catalog = [], rg_by_id = Map.empty, rg_loaded = True\<rparr>, {}) CodecCatalog 2 payload =
      Inr (root, f', a', segs')" and len: "length f' = SEGMENT_HEADER_SIZE + length payload"
    by auto
  have "fits (length f')" using l by (simp add: len fits_def SEGMENT_HEADER_SIZE_def)
  then show ?thesis
    by (cases segs') (simp add: flush_catalog_table_def d Let_def p app)
qed

lemma committed_table_rereads_witness:
  "\<exists>latest f'. read_catalog_chain_dedup ex_hash (\<lambda>_. None) ex_u64_bincode ex_ref_bincode (f' @ [7])
      latest Kind_codec (\<lambda>x. x) = Some (Inr [3, 5])"
proof -
  obtain latest f' a' reg' d' where
    fl: "flush_catalog_table ex_hash ex_u64_bincode ex_ref_bincode [] id_allocator_default
       (\<lparr>rg_catalog = [], rg_by_id = Map.empty, rg_loaded = True\<rparr>, {}) None {3, 5} [3, 5]
       Kind_codec CodecCatalog (\<lambda>x. x) = Inr (latest, f', a', reg', d')" and fit: "fits (length f')"
    using ex_flush by blast
  have sync: "table_synced (\<lambda>x :: u64. x) {3, 5} [3, 5] Map.empty"
    by (auto simp: table_synced_def strict_by_def table_map_def)
  show ?thesis
    by (intro exI, rule committed_table_rereads [OF ex_hash_ok fit ex_u64_bincode_ok ex_ref_bincode_ok
          _ _ _ table_on_disk_empty sync same_order_refl fl])
      (simp_all add: registry_ok_def registry_backed_def table_empty)
qed

text \<open>
  A catalog delta segment decodes to the records and the previous root it was encoded
  from, and the reader that only follows the chain finds the same previous root.
\<close>
theorem catalog_delta_roundtrip:
  assumes "bincode_ok b" and "bincode_ok rb" and "encode_catalog_delta b rb table root xs = Inr bs"
  shows "decode_catalog_delta b rb table bs = Inr \<lparr>cdl_previous_root = root, cdl_records = xs\<rparr> \<and>
    decode_catalog_previous_root rb table bs = Inr root"
  using catalog_delta_rt [OF assms] by simp

lemma catalog_delta_roundtrip_witness:
  "\<exists>bs. decode_catalog_delta ex_u64_bincode ex_ref_bincode Kind_vector bs =
     Inr \<lparr>cdl_previous_root = None, cdl_records = [4, 9]\<rparr>"
proof -
  obtain bs where "encode_catalog_delta ex_u64_bincode ex_ref_bincode Kind_vector None [4, 9] = Inr bs"
    by (simp add: encode_catalog_delta_def encode_catalog_records_def encode_catalog_record_def
        bincode_encode_def ex_u64_bincode_def ex_ref_bincode_def ex_ref_encode_def
        catalog_record_header_new_def u32_try_from_def)
  from catalog_delta_roundtrip [OF ex_u64_bincode_ok ex_ref_bincode_ok this] show ?thesis by blast
qed

end
