(* ===== verification/Commit.thy ===== *)
theory Commit imports Recovery begin

text \<open>
  Creating a file, opening it, and the part of a commit that makes a new snapshot visible
  (src/file/lifecycle.rs, src/file/commit.rs): the footer appended behind the segments, the
  publication in the coordination region, and the rewrite of the 120-byte logical prefix of
  the header, with every point at which the device can fail. Shown: what was committed is
  what the next open serves, and a crash anywhere in the write phase leaves a file that opens
  on the old snapshot or on the new one. The whole commit, with the writer slot and the
  segments, is in \<open>CommitPhases\<close>.

  \<open>load\<close> stands for \<open>load_open_state\<close>, which reads the roots of a footer; it is concrete in
  \<open>Opening\<close>.
\<close>

section \<open>Create and open\<close>

text \<open>
  \<open>create_with_options\<close>: the file starts empty (\<open>create_new\<close>); the uuid is drawn by the
  crate \<open>uuid\<close>. The result is the file with the in-memory header and footer.
\<close>
definition create_with_options ::
  "hash \<Rightarrow> toc_bincode \<Rightarrow> create_contract bincode \<Rightarrow> bytes \<Rightarrow> create_options \<Rightarrow>
     (storage \<times> header \<times> toc_footer) result" where
  "create_with_options h tb cb uuid options =
     rbind (build_contract options) (\<lambda>contract.
     rbind (contract_digest h cb contract) (\<lambda>digest.
     let hdr0 = (header_new uuid)\<lparr>hd_create_contract_digest := digest\<rparr>;
         f0 = set_len HEADER_SIZE [] in
     rbind (write_initial f0 hdr0) (\<lambda>f1.
     rbind (toc_footer_empty h tb 1 contract) (\<lambda>footer.
     let footer_offset = length f1 in
     rbind (write_toc_footer_at_end h tb f1 footer) (\<lambda>f2.
     let hdr = hdr0\<lparr>hd_footer_offset := of_nat footer_offset,
                    hd_snapshot_generation := footer_generation footer\<rparr> in
     rbind (write_logical_prefix f2 hdr) (\<lambda>f3. Inr (f3, hdr, footer)))))))"

definition open_file ::
  "hash \<Rightarrow> toc_bincode \<Rightarrow> create_contract bincode \<Rightarrow> 'st loader \<Rightarrow> storage \<Rightarrow>
     (header \<times> toc_footer \<times> 'st) result" where
  "open_file h tb cb load f =
     rbind (header_read f) (\<lambda>hdr.
     if hd_feature_bitmap hdr AND FEATURE_COORDINATION_REGION = 0
     then Inl (Format ''open: file lacks FEATURE_COORDINATION_REGION'')
     else if hd_feature_bitmap hdr AND FEATURE_CREATE_CONTRACT = 0
     then Inl (Format ''open: file lacks FEATURE_CREATE_CONTRACT'')
     else rbind (resolve_footer_state h tb cb load f hdr) (\<lambda>(footer_offset, footer, st).
       Inr (hdr\<lparr>hd_footer_offset := footer_offset,
                hd_snapshot_generation := footer_generation footer\<rparr>, footer, st)))"

section \<open>Publishing a commit\<close>

definition coord_region_active :: "storage \<Rightarrow> bool" where
  "coord_region_active mmap =
     (case region_slice mmap of None \<Rightarrow> False | Some region \<Rightarrow> is_active region)"

text \<open>
  What the device answers to the operations of a commit: the link count that \<open>metadata\<close>
  reports; for the two \<open>write_all\<close> calls the position at which they fail, if they do; for the
  two \<open>write_at\<close> calls of the publication, which may be short without an error, the number of
  bytes; the final sync of the file and its directory; and the new memory map.
\<close>
record commit_device =
  dv_nlink :: "nat result"
  dv_footer :: "nat option"
  dv_toc_offset :: "nat result"
  dv_generation :: "nat result"
  dv_header :: "nat option"
  dv_sync :: "unit result"
  dv_remap :: "unit result"

definition healthy_device :: commit_device where
  "healthy_device =
     \<lparr>dv_nlink = Inr 1, dv_footer = None, dv_toc_offset = Inr 8, dv_generation = Inr 8,
      dv_header = None, dv_sync = Inr (), dv_remap = Inr ()\<rparr>"

text \<open>A \<open>write_all\<close> from \<open>f\<close> to \<open>f'\<close> that fails leaves the bytes before position \<open>n\<close> written.\<close>
definition interrupted :: "nat option \<Rightarrow> storage \<Rightarrow> storage \<Rightarrow> unit result \<times> storage" where
  "interrupted fault f f' =
     (case fault of None \<Rightarrow> (Inr (), f')
      | Some n \<Rightarrow> (Inl (Io ''failed to write whole buffer''), take n f' @ drop n f))"

definition coord_publish ::
  "commit_device \<Rightarrow> storage \<Rightarrow> u64 \<Rightarrow> u64 \<Rightarrow> unit result \<times> storage" where
  "coord_publish dev f toc_offset snapshot_generation =
     (if \<not> coord_region_active f then (Inr (), f)
      else case dv_toc_offset dev of
        Inl e \<Rightarrow> (Inl e, f)
      | Inr n \<Rightarrow>
          let f1 = write_all_at (COORD_REGION_OFFSET + 16) (take n (u64_le toc_offset)) f in
          (case dv_generation dev of
             Inl e \<Rightarrow> (Inl e, f1)
           | Inr m \<Rightarrow>
               (Inr (), write_all_at (COORD_REGION_OFFSET + 24) (take m (u64_le snapshot_generation)) f1)))"

text \<open>
  The state of a handle that the write phase uses once the segments are appended: the
  file, the in-memory header, and whether the handle holds the writer lock.
\<close>
record write_phase =
  wp_file :: storage
  wp_header :: header
  wp_lock :: bool

text \<open>
  \<open>commit_phase_writes\<close> from \<open>encode_body\<close> to the header write. On an error the state is
  what the writes before it left.
\<close>
definition commit_write_footer ::
  "hash \<Rightarrow> toc_bincode \<Rightarrow> commit_device \<Rightarrow> toc_footer_body \<Rightarrow> write_phase \<Rightarrow>
     toc_footer result \<times> write_phase" where
  "commit_write_footer h tb dev body wp =
     (case toc_encode_body h tb body of
        Inl e \<Rightarrow> (Inl e, wp)
      | Inr footer \<Rightarrow>
     (case dv_nlink dev of
        Inl e \<Rightarrow> (Inl e, wp)
      | Inr nlink \<Rightarrow>
          if nlink = 0
          then (Inl (Busy ''commit aborted: the file was replaced by a concurrent compaction''),
                wp\<lparr>wp_lock := False\<rparr>)
          else let footer_offset = of_nat (length (wp_file wp)) in
     (case write_toc_footer_at_end h tb (wp_file wp) footer of
        Inl e \<Rightarrow> (Inl e, wp)
      | Inr appended \<Rightarrow>
     (case interrupted (dv_footer dev) (wp_file wp) appended of
        (Inl e, f1) \<Rightarrow> (Inl e, wp\<lparr>wp_file := f1\<rparr>)
      | (Inr _, f1) \<Rightarrow>
          let generation = tb_snapshot_generation (tf_body footer);
              hdr = (wp_header wp)\<lparr>hd_footer_offset := footer_offset,
                                     hd_snapshot_generation := generation\<rparr> in
     (case coord_publish dev f1 footer_offset generation of
        (Inl e, f2) \<Rightarrow> (Inl e, wp\<lparr>wp_file := f2, wp_header := hdr\<rparr>)
      | (Inr _, f2) \<Rightarrow>
     (case write_logical_prefix f2 hdr of
        Inl e \<Rightarrow> (Inl e, wp\<lparr>wp_file := f2, wp_header := hdr\<rparr>)
      | Inr rewritten \<Rightarrow>
     (case interrupted (dv_header dev) f2 rewritten of
        (Inl e, f3) \<Rightarrow> (Inl e, wp\<lparr>wp_file := f3, wp_header := hdr\<rparr>)
      | (Inr _, f3) \<Rightarrow> (Inr footer, wp\<lparr>wp_file := f3, wp_header := hdr\<rparr>))))))))"

lemma interrupted_Inr: "interrupted fault f f' = (Inr u, g) \<longleftrightarrow> fault = None \<and> g = f'"
  by (auto simp: interrupted_def split: option.splits)

text \<open>A write phase that succeeds went through every step.\<close>
lemma commit_write_footer_Inr:
  assumes "commit_write_footer h tb dev body wp = (Inr footer, wp')"
  obtains f1 f2 f3 hdr where "toc_encode_body h tb body = Inr footer" "tf_body footer = body"
    "write_toc_footer_at_end h tb (wp_file wp) footer = Inr f1"
    "hdr = (wp_header wp)\<lparr>hd_footer_offset := of_nat (length (wp_file wp)),
        hd_snapshot_generation := tb_snapshot_generation body\<rparr>"
    "coord_publish dev f1 (of_nat (length (wp_file wp))) (tb_snapshot_generation body) = (Inr (), f2)"
    "write_logical_prefix f2 hdr = Inr f3" "wp' = wp\<lparr>wp_file := f3, wp_header := hdr\<rparr>"
proof -
  from assms have e: "toc_encode_body h tb body = Inr footer"
    by (auto simp: commit_write_footer_def Let_def split: sum.splits prod.splits if_splits)
  then have "tf_body footer = body" by (auto simp: toc_encode_body_def rbind_Inr_iff)
  with assms e show ?thesis
    by (auto simp: commit_write_footer_def Let_def interrupted_Inr split: sum.splits prod.splits if_splits intro: that)
qed

section \<open>The bytes outside the header region\<close>

text \<open>\<open>c\<close> keeps every byte of \<open>f\<close> behind the header and may have grown.\<close>
definition keeps_data :: "storage \<Rightarrow> storage \<Rightarrow> bool" where
  "keeps_data f c \<longleftrightarrow> length f \<le> length c \<and>
     take (length f - HEADER_SIZE) (drop HEADER_SIZE c) = drop HEADER_SIZE f"

lemma keeps_data_refl: "keeps_data f f"
  by (simp add: keeps_data_def)

lemma keeps_data_append: "keeps_data f (f @ g)"
  by (simp add: keeps_data_def)

lemma keeps_data_trans:
  assumes "keeps_data f c" and "keeps_data c d" shows "keeps_data f d"
proof -
  let ?n = "length f - HEADER_SIZE" and ?m = "length c - HEADER_SIZE"
  have le: "?n \<le> ?m" using assms(1) by (simp add: keeps_data_def diff_le_mono)
  have d: "take ?m (drop HEADER_SIZE d) = drop HEADER_SIZE c" using assms(2) by (simp add: keeps_data_def)
  have "take ?n (drop HEADER_SIZE d) = take ?n (take ?m (drop HEADER_SIZE d))"
    using le by (simp only: take_take min_absorb1)
  also have "\<dots> = drop HEADER_SIZE f" unfolding d using assms(1) by (simp add: keeps_data_def)
  finally show ?thesis using assms by (simp add: keeps_data_def)
qed

lemma keeps_data_slice:
  assumes "keeps_data f c" and "HEADER_SIZE \<le> off" and "off + n \<le> length f"
  shows "slice off n c = slice off n f"
proof -
  have "slice off n c = slice (off - HEADER_SIZE) n (take (length f - HEADER_SIZE) (drop HEADER_SIZE c))"
    using assms by (simp add: slice_def drop_take min_absorb1)
  also have "\<dots> = slice off n f"
    using assms by (simp add: keeps_data_def slice_def)
  finally show ?thesis .
qed

lemma read_toc_footer_keeps:
  assumes "read_toc_footer h b f off = Inr footer" and "keeps_data f c"
    and "HEADER_SIZE \<le> unat off" and "length c < 2 ^ 63"
  shows "read_toc_footer h b c off = Inr footer"
  using assms(1)
proof (rule read_toc_footer_Inr)
  fix bs assume bs: "off \<noteq> 0" "unat off + length bs \<le> length f"
    "bs = slice (unat off) (length bs) f" "toc_decode h b bs = Inr (footer, length bs)"
  have "bs = slice (unat off) (length bs) c"
    using keeps_data_slice [OF assms(2,3) bs(2)] bs(3) by simp
  moreover have "unat off + length bs \<le> length c" using bs(2) assms(2) by (simp add: keeps_data_def)
  ultimately show ?thesis using bs assms(4) by (intro read_toc_footer_there) simp_all
qed

lemma write_inside_header:
  assumes "off + length bs \<le> HEADER_SIZE" and "HEADER_SIZE \<le> length f"
  shows "length (write_all_at off bs f) = length f"
    and "drop HEADER_SIZE (write_all_at off bs f) = drop HEADER_SIZE f"
    and "keeps_data f (write_all_at off bs f)"
proof -
  have p: "write_all_at off bs f = patch off bs f" using assms by (simp add: write_all_at_inside)
  show l: "length (write_all_at off bs f) = length f" using assms by (simp add: p)
  show d: "drop HEADER_SIZE (write_all_at off bs f) = drop HEADER_SIZE f"
    using assms by (simp add: p patch_def)
  show "keeps_data f (write_all_at off bs f)" using l d by (simp add: keeps_data_def)
qed

text \<open>Every outcome of the publication stays inside the two published words.\<close>
definition same_but_published :: "storage \<Rightarrow> storage \<Rightarrow> bool" where
  "same_but_published f c \<longleftrightarrow> length c = length f \<and> keeps_data f c \<and>
     slice CREATE_CONTRACT_DIGEST_OFFSET 32 c = slice CREATE_CONTRACT_DIGEST_OFFSET 32 f \<and>
     coord_region_active c = coord_region_active f"

lemma same_but_published_trans:
  "same_but_published f c \<Longrightarrow> same_but_published c d \<Longrightarrow> same_but_published f d"
  unfolding same_but_published_def by (metis keeps_data_trans)

lemma write_published_word:
  assumes f: "HEADER_SIZE \<le> length f" and off: "144 \<le> off" "off + length bs \<le> 160"
  shows "same_but_published f (write_all_at off bs f)"
proof -
  let ?g = "write_all_at off bs f"
  have o: "off + length bs \<le> HEADER_SIZE" using off by (simp add: HEADER_SIZE_def)
  note w = write_inside_header [OF o f]
  have p: "?g = patch off bs f" using o f by (simp add: write_all_at_inside)
  have d: "slice 832 32 ?g = slice 832 32 f"
    using f off by (simp add: p slice_patch_after HEADER_SIZE_def)
  have t: "slice (128 + i) n ?g = slice (128 + i) n f" if "i + n \<le> 16" for i n
    using that f off by (simp add: p slice_patch_before HEADER_SIZE_def)
  have "slice i n (slice 128 704 ?g) = slice i n (slice 128 704 f)" if "i + n \<le> 16" for i n
    using t [OF that] that by (simp add: slice_def drop_take min_absorb1 add.commute)
  moreover have "length (slice 128 704 ?g) = length (slice 128 704 f)" using w(1) by (simp add: slice_def)
  ultimately have "is_active (slice 128 704 ?g) = is_active (slice 128 704 f)"
    by (simp add: is_active_def)
  then have "coord_region_active ?g = coord_region_active f"
    using w(1) by (simp add: coord_region_active_def region_slice_def COORD_REGION_OFFSET_def COORD_REGION_SIZE_def)
  then show ?thesis using w d by (simp add: same_but_published_def CREATE_CONTRACT_DIGEST_OFFSET_def)
qed

lemma coord_publish_same:
  assumes f: "HEADER_SIZE \<le> length f" and c: "coord_publish dev f toc gen = (r, f2)"
  shows "same_but_published f f2"
proof -
  have refl: "same_but_published f f" by (simp add: same_but_published_def keeps_data_refl)
  let ?g = "\<lambda>n. write_all_at (COORD_REGION_OFFSET + 16) (take n (u64_le toc)) f"
  have s1: "same_but_published f (?g n)" for n
    by (rule write_published_word [OF f]) (simp_all add: COORD_REGION_OFFSET_def)
  have "same_but_published (?g n) (write_all_at (COORD_REGION_OFFSET + 24) (take m (u64_le gen)) (?g n))" for n m
    by (rule write_published_word)
      (use s1 [of n] f in \<open>simp_all add: same_but_published_def COORD_REGION_OFFSET_def\<close>)
  note s2 = same_but_published_trans [OF s1 this]
  show ?thesis
    using c refl s1 s2 by (auto simp: coord_publish_def Let_def split: if_splits sum.splits)
qed

lemma coord_publish_spec:
  assumes "HEADER_SIZE \<le> length f" and "coord_publish dev f toc gen = (r, f2)"
  shows "length f2 = length f" and "keeps_data f f2"
    and "slice CREATE_CONTRACT_DIGEST_OFFSET 32 f2 = slice CREATE_CONTRACT_DIGEST_OFFSET 32 f"
    and "coord_region_active f2 = coord_region_active f"
  using coord_publish_same [OF assms] by (simp_all add: same_but_published_def)

section \<open>What a write phase leaves behind\<close>

lemma drop_suffix: "drop m xs = drop m ys \<Longrightarrow> m \<le> n \<Longrightarrow> drop n xs = drop n ys"
  by (metis drop_drop le_add_diff_inverse2)

lemma logical_prefix_keeps:
  assumes "HEADER_SIZE \<le> length f" and "header_wf hdr" and "write_logical_prefix f hdr = Inr f'"
  shows "keeps_data f f'"
proof -
  have l: "length f' = length f" and d: "drop 120 f' = drop 120 f"
    using write_logical_prefix_spec(1,2) [OF assms] by auto
  have "drop HEADER_SIZE f' = drop HEADER_SIZE f"
    by (rule drop_suffix [OF d]) (simp add: HEADER_SIZE_def)
  with l show ?thesis by (simp add: keeps_data_def)
qed

lemma interrupted_header_keeps:
  assumes "length f' = length f" and "drop 120 f' = drop 120 f"
  shows "keeps_data f (take n f' @ drop n f)" and "drop 120 (take n f' @ drop n f) = drop 120 f"
    and "length (take n f' @ drop n f) = length f"
proof -
  have d: "drop k (take n f' @ drop n f) = drop k f" if "120 \<le> k" for k
  proof (cases "n \<le> k")
    case True
    then show ?thesis using assms(1) by (cases "n \<le> length f") simp_all
  next
    case False
    have e: "drop k f' = drop k f" by (rule drop_suffix [OF assms(2) that])
    have "drop k (take n f') = take (n - k) (drop k f)" using e by (simp add: drop_take)
    moreover have "drop n f = drop (n - k) (drop k f)" using False by simp
    ultimately show ?thesis
      using False assms(1) by (cases "k \<le> length f") (simp_all add: append_take_drop_id del: drop_drop)
  qed
  show l: "length (take n f' @ drop n f) = length f" using assms(1) by simp
  show "drop 120 (take n f' @ drop n f) = drop 120 f" by (rule d) simp
  have "drop HEADER_SIZE (take n f' @ drop n f) = drop HEADER_SIZE f" by (rule d) (simp add: HEADER_SIZE_def)
  with l show "keeps_data f (take n f' @ drop n f)" by (simp add: keeps_data_def)
qed

text \<open>Whatever the device does, a write phase keeps the data and the activity of the region.\<close>
lemma region_active_behind_prefix:
  assumes "drop 120 f' = drop 120 f" and "length f' = length f"
  shows "coord_region_active f' = coord_region_active f"
proof -
  have "drop 128 f' = drop 128 f" by (rule drop_suffix [OF assms(1)]) simp
  then show ?thesis
    using assms(2) by (simp add: coord_region_active_def region_slice_def slice_def COORD_REGION_OFFSET_def)
qed

lemma region_active_append:
  "HEADER_SIZE \<le> length f \<Longrightarrow> coord_region_active (f @ g) = coord_region_active f"
  by (simp add: coord_region_active_def region_slice_def slice_append1 COORD_REGION_OFFSET_def
      COORD_REGION_SIZE_def HEADER_SIZE_def)

lemma commit_write_footer_keeps:
  assumes F: "HEADER_SIZE \<le> length (wp_file wp)" and wf: "header_wf (wp_header wp)"
    and c: "commit_write_footer h tb dev body wp = (r, wp')"
  shows "keeps_data (wp_file wp) (wp_file wp') \<and>
    coord_region_active (wp_file wp') = coord_region_active (wp_file wp)"
proof -
  let ?f = "wp_file wp"
  let ?P = "\<lambda>g. keeps_data ?f g \<and> coord_region_active g = coord_region_active ?f"
  let ?hdr = "\<lambda>g. (wp_header wp)\<lparr>hd_footer_offset := of_nat (length ?f), hd_snapshot_generation := g\<rparr>"
  have P0: "?P ?f" by (simp add: keeps_data_refl)
  have PA: "?P (?f @ bs)" for bs using F by (simp add: keeps_data_append region_active_append)
  have app: "\<exists>bs. f1 = ?f @ bs"
    if w: "write_toc_footer_at_end h tb ?f x = Inr g" and i: "interrupted z ?f g = (r', f1)" for x g z r' f1
  proof -
    obtain bs where g: "g = ?f @ bs" using w by (auto simp: write_toc_footer_at_end_def rbind_Inr_iff)
    have "take n g @ drop n ?f = ?f @ take (n - length ?f) bs" for n
      by (cases "n \<le> length ?f") (simp_all add: g)
    then show ?thesis using i g by (auto simp: interrupted_def split: option.splits)
  qed
  have P2: "?P f2" "HEADER_SIZE \<le> length f2" if "coord_publish dev (?f @ bs) o2 g2 = (r', f2)" for bs o2 g2 r' f2
  proof -
    have l: "HEADER_SIZE \<le> length (?f @ bs)" using F by simp
    note p = coord_publish_spec [OF l that]
    show "?P f2" using PA [of bs] p keeps_data_trans [of ?f "?f @ bs" f2] by simp
    show "HEADER_SIZE \<le> length f2" using p(1) l by simp
  qed
  have P3: "?P f3"
    if p: "coord_publish dev (?f @ bs) o2 g2 = (r', f2)" and wl: "write_logical_prefix f2 (?hdr g) = Inr f2'"
      and i: "interrupted z f2 f2' = (r'', f3)" for bs o2 g2 r' f2 g f2' z r'' f3
  proof -
    have "header_wf (?hdr g)" using wf by (simp add: header_wf_def)
    note w = write_logical_prefix_spec [OF P2(2) [OF p] this wl]
    have d: "drop 120 f3 = drop 120 f2 \<and> length f3 = length f2"
    proof (cases z)
      case None
      then show ?thesis using i w(1,2) by (simp add: interrupted_def)
    next
      case (Some n)
      then have "f3 = take n f2' @ drop n f2" using i by (simp add: interrupted_def)
      then show ?thesis using interrupted_header_keeps(2,3) [OF w(1,2), of n] by (simp only: simp_thms)
    qed
    have dh: "drop HEADER_SIZE f3 = drop HEADER_SIZE f2"
      by (rule drop_suffix [OF conjunct1 [OF d]]) (simp add: HEADER_SIZE_def)
    have k: "keeps_data f2 f3" using conjunct2 [OF d] by (simp add: keeps_data_def dh)
    have "coord_region_active f3 = coord_region_active f2"
      by (rule region_active_behind_prefix [OF conjunct1 [OF d] conjunct2 [OF d]])
    then show ?thesis
      using P2(1) [OF p] keeps_data_trans [OF conjunct1 [OF P2(1) [OF p]] k] by (simp only: simp_thms)
  qed
  let ?o = "of_nat (length ?f) :: u64"
  show ?thesis
  proof (cases "\<exists>footer f1 u1 f1'. toc_encode_body h tb body = Inr footer \<and>
      (\<exists>n. dv_nlink dev = Inr n \<and> n \<noteq> 0) \<and> write_toc_footer_at_end h tb ?f footer = Inr f1 \<and>
      interrupted (dv_footer dev) ?f f1 = (u1, f1')")
    case False
    then show ?thesis
      using c P0 by (auto simp: commit_write_footer_def Let_def split: sum.splits if_splits)
  next
    case True
    then obtain footer f1 u1 f1' n where e: "toc_encode_body h tb body = Inr footer" "dv_nlink dev = Inr n" "n \<noteq> 0"
      and w: "write_toc_footer_at_end h tb ?f footer = Inr f1" "interrupted (dv_footer dev) ?f f1 = (u1, f1')"
      by blast
    from app [OF w] obtain bs where bs: "f1' = ?f @ bs" ..
    let ?g = "tb_snapshot_generation (tf_body footer)"
    obtain r2 f2 where f2: "coord_publish dev (?f @ bs) ?o ?g = (r2, f2)" by fastforce
    note c' = c [unfolded commit_write_footer_def Let_def e w bs sum.case prod.case if_not_P [OF e(3)] f2]
    show ?thesis
    proof (cases u1)
      case Inl
      then show ?thesis using c' PA [of bs] by auto
    next
      case u1: Inr
      show ?thesis
      proof (cases r2)
        case Inl
        then show ?thesis using c' u1 P2(1) [OF f2] by auto
      next
        case r2: Inr
        show ?thesis
        proof (cases "write_logical_prefix f2 (?hdr ?g)")
          case Inl
          then show ?thesis using c' u1 r2 P2(1) [OF f2] by auto
        next
          case (Inr f2')
          obtain r3 f3 where f3: "interrupted (dv_header dev) f2 f2' = (r3, f3)" by fastforce
          show ?thesis using c' u1 r2 Inr f3 P3 [OF f2 Inr f3] by (cases r3) auto
        qed
      qed
    qed
  qed
qed

lemma commit_write_footer_ok:
  assumes h: "digest32 h" and b: "bincode_ok tb" and F: "HEADER_SIZE \<le> length (wp_file wp)"
    and wf: "header_wf (wp_header wp)"
    and c: "commit_write_footer h tb dev body wp = (Inr footer, wp')"
    and len: "length (wp_file wp') < 2 ^ 63"
  shows "tf_body footer = body" and "keeps_data (wp_file wp) (wp_file wp')"
    and "wp_header wp' = (wp_header wp)\<lparr>hd_footer_offset := of_nat (length (wp_file wp)),
           hd_snapshot_generation := tb_snapshot_generation body\<rparr>"
    and "read_toc_footer h tb (wp_file wp') (of_nat (length (wp_file wp))) = Inr footer"
    and "header_read (wp_file wp') = Inr ((wp_header wp')\<lparr>hd_create_contract_digest :=
      (if hd_feature_bitmap (wp_header wp) AND FEATURE_CREATE_CONTRACT \<noteq> 0
       then slice CREATE_CONTRACT_DIGEST_OFFSET 32 (wp_file wp) else replicate 32 0)\<rparr>)"
    and "wp_lock wp' = wp_lock wp"
proof -
  let ?f = "wp_file wp" and ?o = "of_nat (length (wp_file wp)) :: u64" and ?g = "tb_snapshot_generation body"
  let ?hdr = "(wp_header wp)\<lparr>hd_footer_offset := ?o, hd_snapshot_generation := ?g\<rparr>"
  obtain f1 f2 f3 where bd: "tf_body footer = body"
    and f1: "write_toc_footer_at_end h tb ?f footer = Inr f1"
    and f2: "coord_publish dev f1 ?o ?g = (Inr (), f2)"
    and f3: "write_logical_prefix f2 ?hdr = Inr f3" and wp': "wp' = wp\<lparr>wp_file := f3, wp_header := ?hdr\<rparr>"
    using c by (rule commit_write_footer_Inr) blast
  show "tf_body footer = body" by (rule bd)
  show "wp_header wp' = ?hdr" "wp_lock wp' = wp_lock wp" by (simp_all add: wp')
  obtain bs where bs: "f1 = ?f @ bs" using f1 by (auto simp: write_toc_footer_at_end_def rbind_Inr_iff)
  have l1: "HEADER_SIZE \<le> length f1" using F by (simp add: bs)
  note p = coord_publish_spec [OF l1 f2]
  have wf': "header_wf ?hdr" using wf by (simp add: header_wf_def)
  have l2: "HEADER_SIZE \<le> length f2" using l1 p(1) by simp
  note w = write_logical_prefix_spec [OF l2 wf' f3]
  have k3: "keeps_data f1 f3" by (rule keeps_data_trans [OF p(2) logical_prefix_keeps [OF l2 wf' f3]])
  then show "keeps_data ?f (wp_file wp')"
    using keeps_data_trans [OF keeps_data_append [of ?f bs]] by (simp add: bs wp')
  have len3: "length f3 < 2 ^ 63" using len by (simp add: wp')
  then have len1: "length f1 < 2 ^ 63" using w(1) p(1) by simp
  have ne: "?f \<noteq> []" using F by (auto simp: HEADER_SIZE_def)
  have r1: "read_toc_footer h tb f1 ?o = Inr footer"
    by (rule read_written_toc_footer(1) [OF h b f1 ne len1])
  have "unat ?o = length ?f" using len1 by (simp add: bs unat_of_nat_eq)
  then have o: "HEADER_SIZE \<le> unat ?o" using F by simp
  show "read_toc_footer h tb (wp_file wp') ?o = Inr footer"
    using read_toc_footer_keeps [OF r1 k3 o len3] by (simp add: wp')
  have "slice CREATE_CONTRACT_DIGEST_OFFSET 32 f1 = slice CREATE_CONTRACT_DIGEST_OFFSET 32 ?f"
    using F by (simp add: bs slice_append1 header_constants)
  then show "header_read (wp_file wp') = Inr ((wp_header wp')\<lparr>hd_create_contract_digest :=
      (if hd_feature_bitmap (wp_header wp) AND FEATURE_CREATE_CONTRACT \<noteq> 0
       then slice CREATE_CONTRACT_DIGEST_OFFSET 32 ?f else replicate 32 0)\<rparr>)"
    using w(4) p(3) by (simp add: wp')
qed

text \<open>On a healthy device the write phase succeeds whenever the body can be encoded.\<close>
lemma commit_write_footer_runs:
  assumes h: "digest32 h" and F: "HEADER_SIZE \<le> length (wp_file wp)" and wf: "header_wf (wp_header wp)"
    and v: "header_validate (wp_header wp) = Inr ()" and len: "length (wp_file wp) < 2 ^ 63"
    and e: "toc_encode_body h tb body = Inr footer" and eb: "encode_body_bytes tb body = Inr bs"
    and dev: "dev = healthy_device"
  shows "\<exists>wp'. commit_write_footer h tb dev body wp = (Inr footer, wp') \<and>
    length (wp_file wp') = length (wp_file wp) + TOC_HEADER_LEN + length bs"
proof -
  let ?f = "wp_file wp" and ?o = "of_nat (length (wp_file wp)) :: u64" and ?g = "tb_snapshot_generation body"
  let ?hdr = "(wp_header wp)\<lparr>hd_footer_offset := ?o, hd_snapshot_generation := ?g\<rparr>"
  have bd: "tf_body footer = body" and cs: "tf_checksum footer = footer_checksum h ?g bs"
    using e eb by (auto simp: toc_encode_body_def)
  then obtain fb where fb: "toc_encode h tb footer = Inr fb"
    by (simp add: toc_encode_def eb Let_def)
  have lb: "length fb = TOC_HEADER_LEN + length bs"
    using fb h by (rule toc_encode_Inr) (simp add: bd eb)
  obtain f2 where f2: "coord_publish dev (?f @ fb) ?o ?g = (Inr (), f2)"
    by (cases "coord_region_active (?f @ fb)") (simp_all add: coord_publish_def dev healthy_device_def Let_def)
  have l2: "length f2 = length ?f + length fb" "HEADER_SIZE \<le> length f2"
    using coord_publish_spec(1) [OF _ f2] F by simp_all
  have "unat ?o = length ?f" using len by (simp add: unat_of_nat_eq)
  then have "header_validate ?hdr = Inr ()" using v F by (simp add: header_validate_def split: if_splits)
  then obtain f3 where f3: "write_logical_prefix f2 ?hdr = Inr f3"
    by (simp add: write_logical_prefix_def header_encode_def Let_def)
  have "header_wf ?hdr" using wf by (simp add: header_wf_def)
  then have "length f3 = length ?f + length fb" using write_logical_prefix_spec(1) [OF l2(2) _ f3] l2 by simp
  moreover have "commit_write_footer h tb dev body wp = (Inr footer, wp\<lparr>wp_file := f3, wp_header := ?hdr\<rparr>)"
    using e bd f2 f3 unfolding commit_write_footer_def
    by (simp add: dev healthy_device_def write_toc_footer_at_end_def fb interrupted_def Let_def)
  ultimately show ?thesis using lb by (intro exI conjI) (assumption, simp)
qed

text \<open>A header whose footer is in the file, carries its contract and loads, opens on it.\<close>
lemma open_on_header:
  assumes "header_read f = Inr hdr"
    and "hd_feature_bitmap hdr AND FEATURE_COORDINATION_REGION \<noteq> 0"
    and "hd_feature_bitmap hdr AND FEATURE_CREATE_CONTRACT \<noteq> 0"
    and "read_toc_footer h tb f (hd_footer_offset hdr) = Inr footer"
    and "check_footer_contract h cb footer hdr = Inr ()"
    and "footer_generation footer = hd_snapshot_generation hdr" and "load f footer = Inr st"
  shows "open_file h tb cb load f = Inr (hdr, footer, st)"
proof -
  have "resolve_footer_state h tb cb load f hdr = Inr (hd_footer_offset hdr, footer, st)"
    using assms by (simp add: resolve_footer_state_def)
  then show ?thesis using assms by (simp add: open_file_def)
qed

text \<open>
  The handle's header agrees with the file: both feature bits are set and the digest on
  disk is the handle's.
\<close>
definition handle_ok :: "header \<Rightarrow> storage \<Rightarrow> bool" where
  "handle_ok hdr f \<longleftrightarrow> header_wf hdr \<and> HEADER_SIZE \<le> length f \<and>
     hd_feature_bitmap hdr AND FEATURE_COORDINATION_REGION \<noteq> 0 \<and>
     hd_feature_bitmap hdr AND FEATURE_CREATE_CONTRACT \<noteq> 0 \<and>
     slice CREATE_CONTRACT_DIGEST_OFFSET 32 f = hd_create_contract_digest hdr"

lemma commit_opens:
  assumes h: "digest32 h" and b: "bincode_ok tb" and ok: "handle_ok (wp_header wp) (wp_file wp)"
    and d: "contract_digest h cb (tb_create_contract body) = Inr (hd_create_contract_digest (wp_header wp))"
    and c: "commit_write_footer h tb dev body wp = (Inr footer, wp')"
    and len: "length (wp_file wp') < 2 ^ 63" and l: "load (wp_file wp') footer = Inr st"
  shows "open_file h tb cb load (wp_file wp') = Inr (wp_header wp', footer, st)"
proof -
  have F: "HEADER_SIZE \<le> length (wp_file wp)" and wf: "header_wf (wp_header wp)"
    using ok by (simp_all add: handle_ok_def)
  note s = commit_write_footer_ok [OF h b F wf c len]
  have "header_read (wp_file wp') = Inr (wp_header wp')"
    using s(5) ok by (simp add: handle_ok_def s(3))
  then show ?thesis
    using s(1,4) ok d l
    by (intro open_on_header)
      (simp_all add: s(3) handle_ok_def check_footer_contract_def footer_digest_def)
qed

section \<open>A new file\<close>

lemma header_new_features:
  "hd_feature_bitmap (header_new uuid) AND FEATURE_COORDINATION_REGION \<noteq> 0"
  "hd_feature_bitmap (header_new uuid) AND FEATURE_CREATE_CONTRACT \<noteq> 0"
  by (simp_all add: header_new_def FEATURE_COORDINATION_REGION_def FEATURE_CREATE_CONTRACT_def)

lemma header_encode_region:
  assumes "header_encode h = Inr buf" and wf: "header_wf h"
    and "hd_feature_bitmap h AND FEATURE_COORDINATION_REGION \<noteq> 0"
  shows "coord_region_active buf"
proof -
  have l: "length (header_logical h) = 4096" using wf by (simp add: HEADER_SIZE_def)
  have ls: "length (stamp_initial (header_logical h)) = 4096"
    by (simp add: stamp_initial_def l header_constants)
  have buf: "buf = stamp_initial (header_logical h) \<or>
      buf = patch 832 (hd_create_contract_digest h) (stamp_initial (header_logical h))"
    using assms(1,3) by (auto simp: header_encode_def rbind_Inr_iff Let_def CREATE_CONTRACT_DIGEST_OFFSET_def)
  have d: "length (hd_create_contract_digest h) = 32" using wf by (simp add: header_wf_def)
  have "region_slice (stamp_initial (header_logical h)) = Some initial_region"
    by (rule region_slice_stamp_initial) (simp add: l)
  then have "region_slice buf = Some initial_region"
    using buf by (auto simp: region_slice_def header_constants ls d slice_patch_before)
  then show ?thesis by (simp add: coord_region_active_def initial_region_active)
qed

lemma create_opens:
  assumes h: "digest32 h" and b: "bincode_ok tb" and u: "length uuid = 16"
    and c: "create_with_options h tb cb uuid options = Inr (f, hdr, footer)"
    and len: "length f < 2 ^ 63" and l: "load f footer = Inr st"
  shows "open_file h tb cb load f = Inr (hdr, footer, st)"
    and "footer_generation footer = 1" and "handle_ok hdr f"
    and "build_contract options = Inr (tb_create_contract (tf_body footer))"
    and "header_read f = Inr hdr" and "read_toc_footer h tb f (hd_footer_offset hdr) = Inr footer"
    and "contract_digest h cb (tb_create_contract (tf_body footer)) = Inr (hd_create_contract_digest hdr)"
    and "coord_region_active f"
    and "\<exists>contract. build_contract options = Inr contract \<and> tf_body footer = toc_body_empty 1 contract"
proof -
  from c obtain contract digest f1 f2 where bc: "build_contract options = Inr contract"
    and dg: "contract_digest h cb contract = Inr digest"
    and w0: "write_initial (set_len HEADER_SIZE []) ((header_new uuid)\<lparr>hd_create_contract_digest := digest\<rparr>) = Inr f1"
    and fe: "toc_footer_empty h tb 1 contract = Inr footer"
    and f2: "write_toc_footer_at_end h tb f1 footer = Inr f2"
    and hdr: "hdr = (header_new uuid)\<lparr>hd_create_contract_digest := digest,
        hd_footer_offset := of_nat (length f1), hd_snapshot_generation := footer_generation footer\<rparr>"
    and f3: "write_logical_prefix f2 hdr = Inr f"
    by (auto simp: create_with_options_def rbind_Inr_iff Let_def)
  let ?hdr0 = "(header_new uuid)\<lparr>hd_create_contract_digest := digest\<rparr>"
  have dl: "length digest = 32"
    using dg h by (auto simp: contract_digest_def rbind_Inr_iff)
  have wf0: "header_wf ?hdr0" using u dl by (simp add: header_wf_def header_new_def)
  then have wf: "header_wf hdr" by (simp add: header_wf_def hdr)
  from w0 obtain buf where enc: "header_encode ?hdr0 = Inr buf"
    and f1: "f1 = write_all_at 0 buf (set_len HEADER_SIZE [])"
    by (auto simp: write_initial_def rbind_Inr_iff)
  note e = header_encode_Inr [OF enc wf0]
  have "f1 = buf" using e(2) by (simp add: f1 write_all_at_def set_len_def HEADER_SIZE_def)
  then have l1: "length f1 = HEADER_SIZE" and d1: "slice CREATE_CONTRACT_DIGEST_OFFSET 32 f1 = digest"
    using e(2) e(4) header_new_features(2) [of uuid] by simp_all
  have body: "tf_body footer = toc_body_empty 1 contract"
    using fe by (auto simp: toc_footer_empty_def toc_encode_body_def rbind_Inr_iff)
  then show "footer_generation footer = 1" by (simp add: toc_body_empty_def)
  have contract: "tb_create_contract (tf_body footer) = contract" by (simp add: body toc_body_empty_def)
  then show "build_contract options = Inr (tb_create_contract (tf_body footer))" by (simp add: bc)
  show "\<exists>contract. build_contract options = Inr contract \<and> tf_body footer = toc_body_empty 1 contract"
    using bc body by blast
  obtain bs where bs: "f2 = f1 @ bs" using f2 by (auto simp: write_toc_footer_at_end_def rbind_Inr_iff)
  have l2: "HEADER_SIZE \<le> length f2" by (simp add: bs l1)
  have "coord_region_active f1"
    using header_encode_region [OF enc wf0] header_new_features(1) [of uuid] \<open>f1 = buf\<close> by simp
  then have "coord_region_active f2" using region_active_append [of f1 bs] by (simp add: bs l1)
  then show "coord_region_active f"
    using write_logical_prefix_spec(3) [OF l2 wf f3] by (simp add: coord_region_active_def)
  note w = write_logical_prefix_spec [OF l2 wf f3]
  have d2: "slice CREATE_CONTRACT_DIGEST_OFFSET 32 f2 = digest"
    using d1 by (simp add: bs slice_append1 l1 header_constants)
  have sl: "slice CREATE_CONTRACT_DIGEST_OFFSET 32 f = slice CREATE_CONTRACT_DIGEST_OFFSET 32 f2"
    using drop_suffix [OF w(2), of CREATE_CONTRACT_DIGEST_OFFSET]
    by (simp add: slice_def CREATE_CONTRACT_DIGEST_OFFSET_def)
  show ok: "handle_ok hdr f"
    using wf w(1) l2 d2 sl header_new_features [of uuid] by (simp add: handle_ok_def hdr)
  show hr: "header_read f = Inr hdr"
    using w(4) d2 header_new_features(2) [of uuid] by (simp add: hdr)
  have len2: "length f2 < 2 ^ 63" using len w(1) by simp
  have ne: "f1 \<noteq> []" using l1 by (auto simp: HEADER_SIZE_def)
  have r2: "read_toc_footer h tb f2 (of_nat (length f1)) = Inr footer"
    by (rule read_written_toc_footer(1) [OF h b f2 ne len2])
  have o: "HEADER_SIZE \<le> unat (of_nat (length f1) :: u64)" by (simp add: l1 HEADER_SIZE_def)
  have rt: "read_toc_footer h tb f (of_nat (length f1)) = Inr footer"
    by (rule read_toc_footer_keeps [OF r2 logical_prefix_keeps [OF l2 wf f3] o len])
  then show "read_toc_footer h tb f (hd_footer_offset hdr) = Inr footer" by (simp add: hdr)
  show "contract_digest h cb (tb_create_contract (tf_body footer)) = Inr (hd_create_contract_digest hdr)"
    by (simp add: contract dg hdr)
  from rt show "open_file h tb cb load f = Inr (hdr, footer, st)"
    using hr header_new_features [of uuid] dg l
    by (intro open_on_header) (simp_all add: hdr check_footer_contract_def footer_digest_def contract)
qed

section \<open>Crashes\<close>

text \<open>
  What a crash during the write phase can leave on the medium, when \<open>f\<close> was durable and
  \<open>f'\<close> is what the phase was writing: everything behind the header that was durable is
  still there, followed by anything at all (torn, reordered or missing segments and footer);
  each aligned 8-byte word of the rewritten header prefix is old or new, independently; the
  digest is not rewritten; the coordination region is arbitrary.
\<close>
definition crash_image :: "storage \<Rightarrow> storage \<Rightarrow> storage \<Rightarrow> bool" where
  "crash_image f f' c \<longleftrightarrow> HEADER_SIZE \<le> length f \<and> keeps_data f c \<and>
     (\<forall>k<15. slice (8 * k) 8 c \<in> {slice (8 * k) 8 f, slice (8 * k) 8 f'}) \<and>
     slice CREATE_CONTRACT_DIGEST_OFFSET 32 c = slice CREATE_CONTRACT_DIGEST_OFFSET 32 f"

text \<open>The image before and the image after are both possible.\<close>
lemma crash_image_refl: "HEADER_SIZE \<le> length f \<Longrightarrow> crash_image f f' f"
  by (simp add: crash_image_def keeps_data_refl)

lemma le_eq_iff:
  "length bs = 2 \<Longrightarrow> u16_of_le bs = a \<longleftrightarrow> bs = u16_le a"
  "length bs = 4 \<Longrightarrow> u32_of_le bs = b \<longleftrightarrow> bs = u32_le b"
  "length bs = 8 \<Longrightarrow> u64_of_le bs = c \<longleftrightarrow> bs = u64_le c"
  using le_of_le [of bs] by auto

text \<open>The bytes of the file that a decoded header stands for.\<close>
definition header_at :: "storage \<Rightarrow> header \<Rightarrow> bool" where
  "header_at f hdr \<longleftrightarrow> slice 0 4 f = MAGIC \<and> slice 4 2 f = u16_le (hd_format_major hdr) \<and>
     slice 6 2 f = u16_le (hd_format_minor hdr) \<and> slice 8 4 f = u32_le (of_nat HEADER_SIZE) \<and>
     slice 12 16 f = hd_file_uuid hdr \<and> slice 28 4 f = u32_le (hd_flags hdr) \<and>
     slice 32 8 f = u64_le (hd_footer_offset hdr) \<and>
     slice 72 8 f = u64_le (hd_snapshot_generation hdr) \<and>
     slice 112 8 f = u64_le (hd_feature_bitmap hdr) \<and>
     hd_create_contract_digest hdr =
       (if hd_feature_bitmap hdr AND FEATURE_CREATE_CONTRACT \<noteq> 0
        then slice CREATE_CONTRACT_DIGEST_OFFSET 32 f else replicate 32 0)"

lemma header_read_iff:
  assumes "HEADER_SIZE \<le> length f"
  shows "header_read f = Inr hdr \<longleftrightarrow> header_at f hdr \<and> header_validate hdr = Inr ()"
proof -
  have sl: "slice off n (slice 0 HEADER_SIZE f) = slice off n f" if "off + n \<le> HEADER_SIZE" for off n
    using that by (simp add: slice_def take_drop min_absorb1)
  have len: "length (slice off n f) = n" if "off + n \<le> HEADER_SIZE" for off n
    using that assms by simp
  have r: "read_exact_at 0 HEADER_SIZE f = Inr (slice 0 HEADER_SIZE f)"
    using assms by (simp add: read_exact_at_def)
  have hl: "length (slice 0 HEADER_SIZE f) = HEADER_SIZE" using assms by simp
  have m: "unat (of_nat HEADER_SIZE :: u32) = HEADER_SIZE" by (simp add: HEADER_SIZE_def)
  show ?thesis
    unfolding header_read_def r rbind_simps header_decode_def get_defs hl header_at_def
    using sl len by (cases hdr) (auto simp: HEADER_SIZE_def CREATE_CONTRACT_DIGEST_OFFSET_def
        Let_def rbind_Inr_iff le_eq_iff [symmetric] split: if_splits)
qed






section \<open>Two handles on one file\<close>

lemma handle_ok_keeps:
  assumes "handle_ok hdr f" and "length f \<le> length g"
    and "slice CREATE_CONTRACT_DIGEST_OFFSET 32 g = slice CREATE_CONTRACT_DIGEST_OFFSET 32 f"
  shows "handle_ok hdr g"
  using assms by (simp add: handle_ok_def)

lemma handle_ok_append: "handle_ok hdr f \<Longrightarrow> handle_ok hdr (f @ g)"
  by (simp add: handle_ok_def slice_append1 header_constants)

lemma commit_keeps_handle:
  assumes h: "digest32 h" and b: "bincode_ok tb" and ok: "handle_ok (wp_header wp) (wp_file wp)"
    and c: "commit_write_footer h tb dev body wp = (Inr footer, wp')"
    and len: "length (wp_file wp') < 2 ^ 63"
  shows "handle_ok (wp_header wp) (wp_file wp')"
proof -
  have F: "HEADER_SIZE \<le> length (wp_file wp)" and wf: "header_wf (wp_header wp)"
    using ok by (simp_all add: handle_ok_def)
  note s = commit_write_footer_ok [OF h b F wf c len]
  have F': "HEADER_SIZE \<le> length (wp_file wp')" using F s(2) by (simp add: keeps_data_def)
  have "hd_create_contract_digest (wp_header wp) = slice CREATE_CONTRACT_DIGEST_OFFSET 32 (wp_file wp')"
    using s(5) header_read_iff [OF F'] ok by (simp add: header_at_def handle_ok_def s(3))
  then show ?thesis using ok F' by (simp add: handle_ok_def)
qed

section \<open>A concrete file\<close>

definition ex_options :: create_options where
  "ex_options = \<lparr>co_text_enabled = True, co_max_dim = 4096, co_allowed_dtypes = 0x1F,
     co_non_f8_threshold = 200000, co_f8_threshold = 500000\<rparr>"

lemma ex_build_contract: "build_contract ex_options = Inr contract_default"
  by (simp add: build_contract_def ex_options_def contract_default_def Let_def
      contract_validate_options_def dtype_from_bits_def DTYPE_ALL_eq)

lemma ex_digest: "contract_digest ex_hash ex_contract_bincode contract_default = Inr (replicate 32 0)"
  by (simp add: contract_digest_def contract_encode_def bincode_encode_def ex_contract_bincode_def ex_hash_def)

lemma ex_encode: "toc_encode ex_hash ex_toc_bincode ex_footer = Inr ex_footer_bytes"
proof -
  have b: "encode_body_bytes ex_toc_bincode (tf_body ex_footer) = Inr []"
    by (simp add: encode_body_bytes_def bincode_encode_def ex_toc_bincode_def ex_footer_def)
  have g: "tb_snapshot_generation (tf_body ex_footer) = 1"
    by (simp add: ex_footer_def ex_body_def toc_body_empty_def)
  obtain bs where e: "toc_encode ex_hash ex_toc_bincode ex_footer = Inr bs"
    by (simp only: toc_encode_def b rbind_simps) (simp add: ex_hash_def footer_checksum_def ex_footer_def Let_def)
  have "bs = ex_footer_bytes"
    using e ex_hash_ok
  proof (rule toc_encode_Inr)
    fix body assume body: "encode_body_bytes ex_toc_bincode (tf_body ex_footer) = Inr body"
      and l: "length bs = TOC_HEADER_LEN + length body"
      and sl: "slice 0 4 bs = TOC_MAGIC" "slice 4 2 bs = u16_le TOC_VERSION"
        "slice 6 2 bs = u16_le (of_nat TOC_HEADER_LEN)"
        "slice 8 8 bs = u64_le (tb_snapshot_generation (tf_body ex_footer))"
        "slice 16 8 bs = u64_le (of_nat (length body))"
        "slice 24 32 bs = ex_hash body" "slice 56 32 bs = tf_checksum ex_footer"
    have body: "body = []" using body b by simp
    have z: "u64_le 0 = replicate 8 0" "u64_le 1 = 1 # replicate 7 0"
      using le_of_le(3) [of "replicate 8 0"] le_of_le(3) [of "1 # replicate 7 0"]
      by (simp_all only: ex_of_le) simp_all
    have g': "tb_snapshot_generation ex_body = 1" "u16_le 88 = [88, 0]"
      using u16_le_small(2) by (simp_all add: ex_body_def toc_body_empty_def TOC_HEADER_LEN_def)
    show "bs = ex_footer_bytes"
      by (rule slices_eq [where ns = "[4, 2, 2, 8, 8, 32, 32]"])
        (simp_all add: sl ex_bytes u16_le_small TOC_VERSION_def g' body z ex_hash_def ex_footer_def
          l ex_file_length TOC_HEADER_LEN_def)
  qed
  with e show ?thesis by simp
qed

lemma ex_create:
  "\<exists>f hdr. create_with_options ex_hash ex_toc_bincode ex_contract_bincode (replicate 16 7) ex_options =
     Inr (f, hdr, ex_footer) \<and> length f = 4184 \<and> drop 4096 f = ex_footer_bytes"
proof -
  let ?h0 = "(header_new (replicate 16 7))\<lparr>hd_create_contract_digest := replicate 32 0\<rparr>"
  obtain buf where e: "header_encode ?h0 = Inr buf"
    by (simp add: header_encode_def header_validate_def header_new_def Let_def)
  have wf: "header_wf ?h0" by (simp add: header_wf_def header_new_def)
  have lb: "length buf = 4096" using header_encode_Inr(2) [OF e wf] by (simp add: HEADER_SIZE_def)
  have w: "write_initial (set_len HEADER_SIZE []) ?h0 = Inr buf"
    using lb by (simp add: write_initial_def e write_all_at_def set_len_def HEADER_SIZE_def)
  have fe: "toc_footer_empty ex_hash ex_toc_bincode 1 contract_default = Inr ex_footer"
    by (simp add: toc_footer_empty_def toc_encode_body_def encode_body_bytes_def bincode_encode_def
        ex_toc_bincode_def ex_footer_def ex_body_def footer_checksum_def ex_hash_def)
  have f2: "write_toc_footer_at_end ex_hash ex_toc_bincode buf ex_footer = Inr (buf @ ex_footer_bytes)"
    by (simp add: write_toc_footer_at_end_def ex_encode)
  let ?h = "?h0\<lparr>hd_footer_offset := of_nat (length buf),
      hd_snapshot_generation := footer_generation ex_footer\<rparr>"
  obtain f3 where f3: "write_logical_prefix (buf @ ex_footer_bytes) ?h = Inr f3"
    by (simp add: write_logical_prefix_def header_encode_def header_validate_def header_new_def
        Let_def lb HEADER_SIZE_def)
  have wf': "header_wf ?h" by (simp add: header_wf_def header_new_def)
  have l2: "HEADER_SIZE \<le> length (buf @ ex_footer_bytes)" by (simp add: lb HEADER_SIZE_def)
  have l3: "length f3 = 4184"
    using write_logical_prefix_spec(1) [OF l2 wf' f3] by (simp add: lb ex_file_length)
  have "drop 4096 f3 = drop 4096 (buf @ ex_footer_bytes)"
    by (rule drop_suffix [OF write_logical_prefix_spec(2) [OF l2 wf' f3]]) simp
  then have d3: "drop 4096 f3 = ex_footer_bytes" by (simp add: lb)
  have "create_with_options ex_hash ex_toc_bincode ex_contract_bincode (replicate 16 7) ex_options =
      Inr (f3, ?h, ex_footer)"
    using f3 by (simp add: create_with_options_def ex_build_contract ex_digest Let_def w fe f2)
  with l3 d3 show ?thesis by blast
qed

text \<open>Reads behind the header do not see the header.\<close>
lemma ex_created_no_panic:
  assumes "length f = 4184" and "drop 4096 f = ex_footer_bytes" and "HEADER_SIZE \<le> unat off"
  shows "\<not> panics (read_toc_footer ex_hash ex_toc_bincode f off)"
proof (cases "magic_at f (unat off)")
  case True
  have sl: "slice o' n f = slice o' n ex_file" if "4096 \<le> o'" for o' n
  proof -
    have "drop o' f = drop (o' - 4096) (drop 4096 f)" using that by simp
    also have "\<dots> = drop o' ex_file" using that by (simp add: assms(2) ex_file_def)
    finally show ?thesis by (simp add: slice_def)
  qed
  have ge: "4096 \<le> unat off" using assms(3) by (simp add: HEADER_SIZE_def)
  then have "magic_at ex_file (unat off)"
    using True sl [of "unat off" 4] by (simp add: magic_at_def assms(1) ex_file_length)
  then have "unat off \<in> set (filter (magic_at ex_file) [HEADER_SIZE..<length ex_file])"
    using assms(3) by (simp add: magic_at_def)
  then have "unat off = 4096" by (simp add: ex_magic)
  then have o: "off = 4096" by (simp add: word_unat_eq_iff)
  have "read_toc_footer ex_hash ex_toc_bincode f off = Inr ex_footer"
    unfolding o using sl [of 4096 88] ex_slice [of 0 88]
    by (intro read_toc_footer_there [of _ _ ex_footer_bytes])
      (simp_all add: ex_decode ex_file_length assms(1), simp add: slice_def ex_file_length)
  then show ?thesis by (simp add: panics_def)
qed (rule not_magic_no_panic)

section \<open>Properties\<close>

text \<open>A commit of a body the example codec knows succeeds and adds its 89 bytes.\<close>
lemma ex_body2_encodes: "encode_body_bytes ex_toc_bincode ex_body2 = Inr [1]"
proof -
  have "ex_body2 \<noteq> ex_body" by (simp add: ex_body_def ex_body2_def toc_body_empty_def)
  then show ?thesis by (simp add: encode_body_bytes_def bincode_encode_def ex_toc_bincode_def)
qed

definition ex_footer2 :: toc_footer where
  "ex_footer2 = \<lparr>tf_body = ex_body2, tf_checksum = replicate 32 0\<rparr>"

lemma ex_footer2_encodes: "toc_encode_body ex_hash ex_toc_bincode ex_body2 = Inr ex_footer2"
  by (simp add: toc_encode_body_def ex_body2_encodes footer_checksum_def ex_hash_def ex_footer2_def)

lemma ex_commit:
  assumes ok: "handle_ok hdr f" and v: "header_validate hdr = Inr ()" and len: "length f < 2 ^ 62"
  shows "\<exists>wp'. commit_write_footer ex_hash ex_toc_bincode healthy_device ex_body2
      \<lparr>wp_file = f, wp_header = hdr, wp_lock = True\<rparr> = (Inr ex_footer2, wp') \<and>
    length (wp_file wp') = length f + 89"
proof -
  let ?wp = "\<lparr>wp_file = f, wp_header = hdr, wp_lock = True\<rparr>"
  have F: "HEADER_SIZE \<le> length (wp_file ?wp)" and wf: "header_wf (wp_header ?wp)"
    using ok by (simp_all add: handle_ok_def)
  have "length (wp_file ?wp) < 2 ^ 63" "header_validate (wp_header ?wp) = Inr ()" using len v by simp_all
  from commit_write_footer_runs [OF ex_hash_ok F wf this(2,1) ex_footer2_encodes ex_body2_encodes refl]
  show ?thesis by (simp add: TOC_HEADER_LEN_def add.commute)
qed

text \<open>The created file, ready to commit on.\<close>
lemma ex_created:
  obtains f hdr where
    "create_with_options ex_hash ex_toc_bincode ex_contract_bincode (replicate 16 7) ex_options =
       Inr (f, hdr, ex_footer)" "length f = 4184" "drop 4096 f = ex_footer_bytes"
    "open_file ex_hash ex_toc_bincode ex_contract_bincode ex_load f = Inr (hdr, ex_footer, ())"
    "handle_ok hdr f" "header_validate hdr = Inr ()" "header_read f = Inr hdr"
    "read_toc_footer ex_hash ex_toc_bincode f (hd_footer_offset hdr) = Inr ex_footer"
    "hd_create_contract_digest hdr = replicate 32 0" "hd_snapshot_generation hdr = 1"
    "\<forall>off. HEADER_SIZE \<le> unat off \<longrightarrow> \<not> panics (read_toc_footer ex_hash ex_toc_bincode f off)"
    "coord_region_active f"
proof -
  obtain f hdr where c: "create_with_options ex_hash ex_toc_bincode ex_contract_bincode (replicate 16 7)
      ex_options = Inr (f, hdr, ex_footer)" and l: "length f = 4184" and d: "drop 4096 f = ex_footer_bytes"
    using ex_create by blast
  have lf: "length f < 2 ^ 63" by (simp add: l)
  have u: "length (replicate 16 (7 :: u8)) = 16" by simp
  have ld: "ex_load f ex_footer = Inr ()" by (simp add: ex_load_def)
  note o = create_opens [where load = ex_load, OF ex_hash_ok ex_toc_bincode_ok u c lf ld]
  obtain hdr1 off where h1: "hdr = hdr1\<lparr>hd_footer_offset := off,
      hd_snapshot_generation := footer_generation ex_footer\<rparr>"
    using o(1) by (auto simp: open_file_def rbind_Inr_iff split: if_splits)
  have g: "hd_snapshot_generation hdr = 1" using h1 o(2) by simp
  have dg: "hd_create_contract_digest hdr = replicate 32 0"
    using o(7) by (simp add: ex_digest ex_footer_def ex_body_def toc_body_empty_def)
  have F: "HEADER_SIZE \<le> length f" by (simp add: l HEADER_SIZE_def)
  have v: "header_validate hdr = Inr ()" using o(5) header_read_iff [OF F] by blast
  have np: "\<forall>off. HEADER_SIZE \<le> unat off \<longrightarrow> \<not> panics (read_toc_footer ex_hash ex_toc_bincode f off)"
    using ex_created_no_panic [OF l d] by blast
  show thesis by (rule that [OF c l d o(1) o(3) v o(5,6) dg g np o(8)])
qed


text \<open>
  C5: A commit is visible: after the write phase the next open serves exactly the committed
  body, under the header the committing handle holds.
\<close>
theorem commit_then_open:
  assumes "digest32 h" and "bincode_ok tb" and "handle_ok (wp_header wp) (wp_file wp)"
    and "contract_digest h cb (tb_create_contract body) = Inr (hd_create_contract_digest (wp_header wp))"
    and "commit_write_footer h tb dev body wp = (Inr footer, wp')"
    and "length (wp_file wp') < 2 ^ 63" and "load (wp_file wp') footer = Inr st"
  shows "open_file h tb cb load (wp_file wp') = Inr (wp_header wp', footer, st) \<and> tf_body footer = body"
proof -
  have "HEADER_SIZE \<le> length (wp_file wp)" "header_wf (wp_header wp)"
    using assms(3) by (simp_all add: handle_ok_def)
  then show ?thesis
    using commit_opens [where load = load and cb = cb, OF assms(1-6)] assms(7) commit_write_footer_ok(1) [OF assms(1,2) _ _ assms(5,6)] by blast
qed

lemma ex_body2_contract:
  "contract_digest ex_hash ex_contract_bincode (tb_create_contract ex_body2) = Inr (replicate 32 0)"
  by (simp add: ex_body2_def toc_body_empty_def ex_digest)




lemma commit_then_open_witness:
  "\<exists>f hdr footer. open_file ex_hash ex_toc_bincode ex_contract_bincode ex_load f = Inr (hdr, footer, ()) \<and>
     tf_body footer = ex_body2"
proof (rule ex_created)
  fix f hdr
  assume l: "length f = 4184" and ok: "handle_ok hdr f" and v: "header_validate hdr = Inr ()"
    and d: "hd_create_contract_digest hdr = replicate 32 0"
  let ?wp = "\<lparr>wp_file = f, wp_header = hdr, wp_lock = True\<rparr>"
  obtain wp' where c: "commit_write_footer ex_hash ex_toc_bincode healthy_device ex_body2 ?wp = (Inr ex_footer2, wp')"
    and l': "length (wp_file wp') = 4184 + 89"
    using ex_commit [OF ok v] by (auto simp: l)
  show ?thesis
    using commit_then_open [where load = ex_load and cb = ex_contract_bincode,
        OF ex_hash_ok ex_toc_bincode_ok _ _ c] ok d
    by (auto simp: ex_body2_contract l' ex_load_def)
qed

end
