(* ===== verification/Columns.thy ===== *)
theory Columns imports Varint Segment begin

text \<open>
  What the columnar segment codecs of src/format share: the optional reference to the
  previous segment of a chain, consecutive pairs (\<open>windows(2)\<close>), ascending ids stored as
  varint differences, and run-length encoded columns. Each writer is proved undone by its
  reader.
\<close>

section \<open>Optional segment references\<close>

definition write_optional_segment_ref :: "segment_ref option \<Rightarrow> bytes" where
  "write_optional_segment_ref maybe_ref =
     (case maybe_ref of
        Some r \<Rightarrow> 1 # u64_le (sr_segment_id r) @ u64_le (sr_offset r) @ u64_le (sr_length r)
                    @ sr_checksum r
      | None \<Rightarrow> [0])"

definition read_optional_segment_ref :: "segment_ref option parser" where
  "read_optional_segment_ref =
     pbind read_u8 (\<lambda>flag.
       if flag = 0 then preturn None
       else if flag = 1 then
         pbind read_u64 (\<lambda>sid. pbind read_u64 (\<lambda>offset. pbind read_u64 (\<lambda>len.
         pbind (read_array 32) (\<lambda>checksum.
           preturn (Some \<lparr>sr_segment_id = sid, sr_offset = offset, sr_length = len,
                          sr_checksum = checksum\<rparr>)))))
       else perr (Format ''previous_root flag must be 0 or 1''))"

text \<open>The checksum of a reference is a \<open>[u8; 32]\<close>.\<close>
definition ref_wf :: "segment_ref option \<Rightarrow> bool" where
  "ref_wf maybe_ref = (case maybe_ref of Some r \<Rightarrow> length (sr_checksum r) = 32 | None \<Rightarrow> True)"

lemma parses_optional_segment_ref:
  assumes "ref_wf r"
  shows "parses read_optional_segment_ref (write_optional_segment_ref r) r"
proof (cases r)
  case None
  then show ?thesis
    by (simp add: read_optional_segment_ref_def write_optional_segment_ref_def)
      (rule parses_bind_end [OF parses_u8], simp add: parses_return)
next
  case (Some s)
  then have l: "length (sr_checksum s) = 32" using assms by (simp add: ref_wf_def)
  have eq: "write_optional_segment_ref r =
      [1] @ u64_le (sr_segment_id s) @ u64_le (sr_offset s) @ u64_le (sr_length s) @ sr_checksum s"
    by (simp add: write_optional_segment_ref_def Some)
  show ?thesis
    unfolding eq read_optional_segment_ref_def
    by (rule parses_bind [OF parses_u8], simp,
        rule parses_bind [OF parses_u64], rule parses_bind [OF parses_u64],
        rule parses_bind [OF parses_u64],
        rule parses_bind_return [OF parses_read_array [OF l]])
      (simp add: Some)
qed

interpretation ref_codec: wire_codec write_optional_segment_ref read_optional_segment_ref ref_wf
  by unfold_locales (rule parses_optional_segment_ref)

lemma varint_small: "v < 0x80 \<Longrightarrow> write_varint_u64 v = [ucast v]"
  by (subst write_varint_u64.simps) (simp only: not_le [symmetric] if_False)

section \<open>Consecutive pairs\<close>

text \<open>\<open>xs.windows(2)\<close>.\<close>
definition windows2 :: "'a list \<Rightarrow> ('a \<times> 'a) list" where
  "windows2 xs = zip xs (tl xs)"

lemma windows2_Cons [simp]:
  "windows2 [] = []" "windows2 [x] = []" "windows2 (x # y # xs) = (x, y) # windows2 (y # xs)"
  by (simp_all add: windows2_def)

text \<open>A transitive relation that holds of neighbours holds of every two positions.\<close>
lemma windows2_sorted:
  assumes "\<And>x y z. P x y \<Longrightarrow> P y z \<Longrightarrow> P x z"
  shows "list_all (\<lambda>(x, y). P x y) (windows2 xs) \<longleftrightarrow> sorted_wrt P xs"
proof (induction xs)
  case Nil
  then show ?case by simp
next
  case (Cons x xs)
  then show ?case
    using assms by (cases xs) auto
qed

section \<open>Ascending ids as differences\<close>

text \<open>
  The first id is stored in full elsewhere; each following one as the varint of its
  distance to the one before, which must not be negative.
\<close>
fun write_id_deltas :: "error \<Rightarrow> u64 \<Rightarrow> u64 list \<Rightarrow> bytes result" where
  "write_id_deltas e prev [] = Inr []"
| "write_id_deltas e prev (cur # ids) =
     (if cur < prev then Inl e
      else rbind (write_id_deltas e cur ids) (\<lambda>bs. Inr (write_uvarint (cur - prev) @ bs)))"

fun read_id_deltas :: "error \<Rightarrow> nat \<Rightarrow> u64 \<Rightarrow> u64 list parser" where
  "read_id_deltas e 0 prev = preturn []"
| "read_id_deltas e (Suc n) prev =
     pbind read_uvarint (\<lambda>delta.
     pbind (plift (ok_or (checked_add prev delta) e)) (\<lambda>cur.
     pbind (read_id_deltas e n cur) (\<lambda>ids. preturn (cur # ids))))"

lemma write_id_deltas_Inr:
  "is_ok (write_id_deltas e prev ids) \<longleftrightarrow> sorted_wrt (\<le>) (prev # ids)"
proof (induction ids arbitrary: prev)
  case Nil
  then show ?case by simp
next
  case (Cons cur ids)
  have "is_ok (write_id_deltas e prev (cur # ids)) \<longleftrightarrow> prev \<le> cur \<and> is_ok (write_id_deltas e cur ids)"
    by (cases "write_id_deltas e cur ids") auto
  also have "\<dots> \<longleftrightarrow> prev \<le> cur \<and> sorted_wrt (\<le>) (cur # ids)" by (simp only: Cons.IH)
  also have "\<dots> \<longleftrightarrow> sorted_wrt (\<le>) (prev # cur # ids)" by (auto intro: order_trans)
  finally show ?case .
qed

lemma write_id_deltas_Inl: "write_id_deltas e prev ids = Inl e' \<Longrightarrow> e' = e"
  by (induction ids arbitrary: prev) (auto simp: rbind_Inl_iff split: if_splits)

lemma parses_id_deltas:
  "write_id_deltas e prev ids = Inr bs \<Longrightarrow> parses (read_id_deltas e' (length ids) prev) bs ids"
proof (induction ids arbitrary: prev bs)
  case Nil
  then show ?case by (simp add: parses_return)
next
  case (Cons cur ids)
  then obtain bs' where le: "prev \<le> cur" and w: "write_id_deltas e cur ids = Inr bs'"
    and bs: "bs = write_uvarint (cur - prev) @ bs'"
    by (auto simp: rbind_Inr_iff split: if_splits)
  show ?case
    unfolding bs read_id_deltas.simps list.size add_Suc_right add_0_right
    by (rule parses_bind [OF parses_uvarint])
      (simp add: le, rule parses_bind_return [OF Cons.IH [OF w]], rule refl)
qed

section \<open>Timestamps\<close>

text \<open>
  Deltas of deltas, with \<open>prev_value\<close> and \<open>prev_delta\<close> as in the loops; the subtractions and
  additions are checked, each with its own error.
\<close>
fun write_dods :: "error \<Rightarrow> error \<Rightarrow> i64 \<Rightarrow> i64 \<Rightarrow> i64 list \<Rightarrow> bytes result" where
  "write_dods e1 e2 prev_value prev_delta [] = Inr []"
| "write_dods e1 e2 prev_value prev_delta (c # cs) =
     rbind (ok_or (checked_sub_i64 c prev_value) e1) (\<lambda>delta.
     rbind (ok_or (checked_sub_i64 delta prev_delta) e2) (\<lambda>dod.
     rbind (write_dods e1 e2 c delta cs) (\<lambda>bs. Inr (write_ivarint dod @ bs))))"

fun read_dods :: "error \<Rightarrow> error \<Rightarrow> nat \<Rightarrow> i64 \<Rightarrow> i64 \<Rightarrow> i64 list parser" where
  "read_dods e1 e2 0 prev_value prev_delta = preturn []"
| "read_dods e1 e2 (Suc n) prev_value prev_delta =
     pbind read_ivarint (\<lambda>dod.
     pbind (plift (ok_or (checked_add_i64 prev_delta dod) e1)) (\<lambda>delta.
     pbind (plift (ok_or (checked_add_i64 prev_value delta) e2)) (\<lambda>val.
     pbind (read_dods e1 e2 n val delta) (\<lambda>cs. preturn (val # cs)))))"

lemma parses_dods:
  "write_dods e1 e2 pv pd cs = Inr bs \<Longrightarrow> parses (read_dods e3 e4 (length cs) pv pd) bs cs"
proof (induction cs arbitrary: pv pd bs)
  case Nil
  then show ?case by (simp add: parses_return)
next
  case (Cons c cs)
  then obtain delta dod bs' where delta: "checked_sub_i64 c pv = Some delta"
    and dod: "checked_sub_i64 delta pd = Some dod" and w: "write_dods e1 e2 c delta cs = Inr bs'"
    and bs: "bs = write_ivarint dod @ bs'"
    by (auto simp: rbind_Inr_iff)
  have "checked_add_i64 pd dod = Some delta" "checked_add_i64 pv delta = Some c"
    using delta dod by (auto dest: checked_add_sub_i64)
  then show ?case
    unfolding bs read_dods.simps list.size add_Suc_right add_0_right
    by (intro parses_bind [OF parses_ivarint])
      (simp, rule parses_bind_return [OF Cons.IH [OF w]], rule refl)
qed

text \<open>A second timestamp as its distance to the first.\<close>
fun write_offsets :: "error \<Rightarrow> (i64 \<times> i64) list \<Rightarrow> bytes result" where
  "write_offsets e [] = Inr []"
| "write_offsets e ((c, u) # es) =
     rbind (ok_or (checked_sub_i64 u c) e) (\<lambda>offset.
     rbind (write_offsets e es) (\<lambda>bs. Inr (write_ivarint offset @ bs)))"

fun read_offsets :: "error \<Rightarrow> i64 list \<Rightarrow> i64 list parser" where
  "read_offsets e [] = preturn []"
| "read_offsets e (c # cs) =
     pbind read_ivarint (\<lambda>offset.
     pbind (plift (ok_or (checked_add_i64 c offset) e))
       (\<lambda>val. pbind (read_offsets e cs) (\<lambda>us. preturn (val # us))))"

lemma parses_offsets:
  "write_offsets e es = Inr bs \<Longrightarrow> parses (read_offsets e' (map fst es)) bs (map snd es)"
proof (induction es arbitrary: bs)
  case Nil
  then show ?case by (simp add: parses_return)
next
  case (Cons x es)
  obtain c u where x: "x = (c, u)" by (cases x)
  with Cons.prems obtain d bs' where d: "checked_sub_i64 u c = Some d"
    and w: "write_offsets e es = Inr bs'" and bs: "bs = write_ivarint d @ bs'"
    by (auto simp: rbind_Inr_iff)
  have "checked_add_i64 c d = Some u"
    using d by (rule checked_add_sub_i64)
  then show ?case
    unfolding bs x read_offsets.simps list.map fst_conv snd_conv
    by (intro parses_bind [OF parses_ivarint])
      (simp, rule parses_bind_return [OF Cons.IH [OF w]], rule refl)
qed

section \<open>Run lengths\<close>

text \<open>
  \<open>cur\<close> and \<open>run_len\<close> are the loop variables of the encoder; a finished run is pushed when
  the value changes and at the end.
\<close>
fun rle_runs :: "error \<Rightarrow> 'a \<Rightarrow> u32 \<Rightarrow> 'a list \<Rightarrow> ('a \<times> u32) list result" where
  "rle_runs e cur run_len [] = Inr [(cur, run_len)]"
| "rle_runs e cur run_len (x # xs) =
     (if x = cur
      then rbind (ok_or (checked_add run_len 1) e) (\<lambda>run_len'. rle_runs e cur run_len' xs)
      else rbind (rle_runs e x 1 xs) (\<lambda>runs. Inr ((cur, run_len) # runs)))"

definition rle_expand :: "('a \<times> u32) list \<Rightarrow> 'a list" where
  "rle_expand runs = concat (map (\<lambda>(x, n). replicate (unat n) x) runs)"

lemma rle_runs_expand:
  "rle_runs e cur run_len xs = Inr runs \<Longrightarrow> rle_expand runs = replicate (unat run_len) cur @ xs"
proof (induction xs arbitrary: cur run_len runs)
  case Nil
  then show ?case by (auto simp: rle_expand_def)
next
  case (Cons x xs)
  show ?case
  proof (cases "x = cur")
    case True
    with Cons.prems obtain r where r: "checked_add run_len 1 = Some r"
      and runs: "rle_runs e cur r xs = Inr runs"
      by (auto simp: rbind_Inr_iff)
    have "unat r = Suc (unat run_len)" using checked_add_unat [OF r] by simp
    then show ?thesis
      using Cons.IH [OF runs] True by (simp add: replicate_append_same [symmetric])
  next
    case False
    with Cons.prems obtain runs' where "rle_runs e x 1 xs = Inr runs'"
      and runs: "runs = (cur, run_len) # runs'"
      by (auto simp: rbind_Inr_iff)
    then have "rle_expand runs' = x # xs" using Cons.IH by fastforce
    then show ?thesis by (simp add: runs rle_expand_def)
  qed
qed

lemma sum_runs: "rle_expand runs = xs \<Longrightarrow> sum_list (map (\<lambda>(x, n). unat n) runs) = length xs"
  by (auto simp: rle_expand_def length_concat comp_def split_def)

lemma rle_runs_total:
  "unat run_len + length xs < 2 ^ 32 \<Longrightarrow> is_ok (rle_runs e cur run_len xs)"
proof (induction xs arbitrary: cur run_len)
  case Nil
  then show ?case by simp
next
  case (Cons x xs)
  have 1: "checked_add run_len 1 = Some (run_len + 1)" and u: "unat (run_len + 1) = Suc (unat run_len)"
    using Cons.prems by (auto simp: checked_add_def unat_word_ariths)
  have "is_ok (rle_runs e cur (run_len + 1) xs)" using Cons.prems by (intro Cons.IH) (simp add: u)
  moreover have "is_ok (rle_runs e x 1 xs)" using Cons.prems by (intro Cons.IH) simp
  ultimately show ?case by (auto simp: 1 is_ok_iff)
qed

section \<open>Run-length encoded collection ids\<close>

text \<open>
  A column of ids as \<open>(id, run length)\<close> pairs behind their number. The reader expands the runs
  and compares their total with the number of rows afterwards.
\<close>
definition write_run_column :: "error \<Rightarrow> error \<Rightarrow> u32 list \<Rightarrow> bytes result" where
  "write_run_column too_long too_many xs =
     (case xs of
        [] \<Rightarrow> Inr (u32_le 0)
      | x # xs' \<Rightarrow>
          rbind (rle_runs too_long x 1 xs') (\<lambda>runs.
          rbind (ok_or (u32_try_from (length runs)) too_many) (\<lambda>run_count.
            Inr (u32_le run_count @
               concat (map (\<lambda>(cid, run_len). u32_le cid @ write_uvarint (ucast run_len)) runs)))))"

fun read_run_items :: "error \<Rightarrow> nat \<Rightarrow> u64 \<Rightarrow> u32 list \<Rightarrow> (u64 \<times> u32 list) parser" where
  "read_run_items e 0 tot collections = preturn (tot, collections)"
| "read_run_items e (Suc n) tot collections =
     pbind read_u32 (\<lambda>cid. pbind read_uvarint (\<lambda>run_len.
     pbind (plift (ok_or (checked_add tot run_len) e)) (\<lambda>tot'.
       read_run_items e n tot' (collections @ replicate (unat run_len) cid))))"

definition read_run_column :: "error \<Rightarrow> error \<Rightarrow> nat \<Rightarrow> u32 list parser" where
  "read_run_column overflow uncovered count =
     pbind read_u32 (\<lambda>run_count.
     pbind (read_run_items overflow (unat run_count) 0 []) (\<lambda>(tot, collections).
     pbind (pensure (unat tot = count) uncovered) (\<lambda>_.
     pbind peof (\<lambda>_. preturn collections))))"

lemma parses_run_items:
  "unat tot + length (rle_expand runs) < 2 ^ 64 \<Longrightarrow>
   parses (read_run_items e (length runs) tot acc)
     (concat (map (\<lambda>(cid, run_len). u32_le cid @ write_uvarint (ucast run_len)) runs))
     (tot + of_nat (length (rle_expand runs)), acc @ rle_expand runs)"
proof (induction runs arbitrary: tot acc)
  case Nil
  then show ?case by (simp add: parses_return rle_expand_def)
next
  case (Cons r runs)
  obtain cid n where r: "r = (cid, n)" by (cases r)
  have n: "unat (ucast n :: u64) = unat n" by (simp add: unat_ucast_up_simp)
  have len: "length (rle_expand (r # runs)) = unat n + length (rle_expand runs)"
    by (simp add: rle_expand_def r)
  have ca: "checked_add tot (ucast n) = Some (tot + ucast n)"
    using Cons.prems by (simp add: checked_add_def n len)
  have tot: "unat (tot + ucast n) = unat tot + unat n" using checked_add_unat [OF ca] by (simp add: n)
  have "tot + ucast n + of_nat (length (rle_expand runs)) =
      tot + of_nat (length (rle_expand (r # runs)))"
    by (simp add: len add.assoc)
  moreover have "(acc @ replicate (unat n) cid) @ rle_expand runs = acc @ rle_expand (r # runs)"
    by (simp add: rle_expand_def r)
  ultimately have IH: "parses (read_run_items e (length runs) (tot + ucast n)
        (acc @ replicate (unat n) cid))
      (concat (map (\<lambda>(cid, run_len). u32_le cid @ write_uvarint (ucast run_len)) runs))
      (tot + of_nat (length (rle_expand (r # runs))), acc @ rle_expand (r # runs))"
    using Cons.IH [of "tot + ucast n" "acc @ replicate (unat n) cid"] Cons.prems
    by (simp add: len tot add.assoc)
  have eq: "concat (map (\<lambda>(cid, run_len). u32_le cid @ write_uvarint (ucast run_len)) (r # runs)) =
      u32_le cid @ write_uvarint (ucast n) @
      concat (map (\<lambda>(cid, run_len). u32_le cid @ write_uvarint (ucast run_len)) runs)"
    by (simp add: r)
  show ?case
    unfolding eq read_run_items.simps list.size add_Suc_right add_0_right
    by (rule parses_bind [OF parses_u32], rule parses_bind [OF parses_uvarint])
      (simp add: ca n IH)
qed


lemma parses_run_column:
  assumes w: "write_run_column e1 e2 xs = Inr bs" and ne: "xs \<noteq> []" and fit: "length xs < 2 ^ 32"
  shows "run_parser (read_run_column e3 e4 (length xs)) bs = Inr xs"
proof -
  obtain x xs' where xs: "xs = x # xs'" using ne by (cases xs) auto
  from w obtain runs n where runs: "rle_runs e1 x 1 xs' = Inr runs"
    and n: "u32_try_from (length runs) = Some n"
    and bs: "bs = u32_le n @ concat (map (\<lambda>(cid, run_len). u32_le cid @ write_uvarint (ucast run_len)) runs)"
    by (auto simp: write_run_column_def xs rbind_Inr_iff)
  have ex: "rle_expand runs = xs"
    using rle_runs_expand [OF runs] by (simp add: xs)
  have small: "length xs < 2 ^ 64" using fit by simp
  have tot: "unat (of_nat (length xs) :: u64) = length xs" using small by (intro unat_of_nat_eq) simp
  have "parses (read_run_items e3 (length runs) 0 [])
      (concat (map (\<lambda>(cid, run_len). u32_le cid @ write_uvarint (ucast run_len)) runs))
      (0 + of_nat (length (rle_expand runs)), [] @ rle_expand runs)"
    by (rule parses_run_items) (use small in \<open>simp add: ex\<close>)
  then have p: "parses (read_run_items e3 (unat n) 0 [])
      (concat (map (\<lambda>(cid, run_len). u32_le cid @ write_uvarint (ucast run_len)) runs))
      (0 + of_nat (length xs), xs)"
    by (simp add: u32_try_from_unat [OF n] ex)
  show ?thesis
    unfolding bs read_run_column_def
    by (intro run_parser_all parses_all_bind [OF parses_u32],
        rule parses_all_bind [where ys = "[]", OF p, simplified])
      (simp only: case_prod_conv tot pbind_ensure_True simp_thms, intro parses_all_eof parses_all_return)
qed

section \<open>A column of ascending ids\<close>

definition read_id_column :: "error \<Rightarrow> nat \<Rightarrow> u64 list parser" where
  "read_id_column e count =
     pbind read_u64 (\<lambda>first.
     pbind (read_id_deltas e (count - 1) first) (\<lambda>ids. pbind peof (\<lambda>_. preturn (first # ids))))"

lemma id_column:
  assumes "write_id_deltas e0 first ids = Inr deltas"
  shows "run_parser (read_id_column e (Suc (length ids))) (u64_le first @ deltas) = Inr (first # ids)"
  unfolding read_id_column_def
  by (intro run_parser_all parses_all_bind [OF parses_u64])
    (simp, rule parses_all_bind [where ys = "[]", OF parses_id_deltas [OF assms], simplified],
     intro parses_all_eof parses_all_return)

end
