(* ===== verification/TimeIndex.thy ===== *)
theory TimeIndex imports Columns CatalogIo Toc Instances "HOL-Library.Product_Lexorder" begin

text \<open>
  The time index (src/format/time_index_segment.rs, src/file/time_index_io.rs): the columnar
  segment with its encoder and decoder, the snapshot of the active frames a commit builds
  and appends, its load at open, and the range query. Shown: the codec round trip; a range
  query over a sorted cache is the filter by time and collection; what a commit wrote is
  what the next open loads; and a catalog with an active frame created earlier than an
  active frame of a smaller id has no time index, so that its commit fails.

  Allocations of the decoder are unbounded here: the code expands a run before it compares
  the total with the count.
\<close>

section \<open>The segment\<close>

record time_index_entry =
  te_frame_id :: u64
  te_collection_id :: collection_id
  te_created_at :: i64
  te_updated_at :: i64

record time_index_segment =
  tx_collection_id :: "collection_id option"
  tx_entries :: "time_index_entry list"
  tx_previous_root :: "segment_ref option"

definition TIME_INDEX_MAGIC :: bytes where "TIME_INDEX_MAGIC = [0x56, 0x4C, 0x54, 0x49]"
definition TIME_INDEX_VERSION :: u16 where "TIME_INDEX_VERSION = 2"

subsection \<open>Columns\<close>

definition write_created :: "i64 \<Rightarrow> i64 \<Rightarrow> i64 list \<Rightarrow> bytes result" where
  [simp]: "write_created =
     write_dods (Format ''TimeIndexSegment created_at delta overflow'')
       (Format ''TimeIndexSegment created_at delta-of-delta overflow'')"

definition read_created :: "nat \<Rightarrow> i64 \<Rightarrow> i64 \<Rightarrow> i64 list parser" where
  [simp]: "read_created =
     read_dods (Format ''TimeIndexSegment created delta overflow'')
       (Format ''TimeIndexSegment created value overflow'')"

definition write_updated :: "time_index_entry list \<Rightarrow> bytes result" where
  "write_updated es =
     write_offsets (Format ''TimeIndexSegment updated/created overflow'')
       (map (\<lambda>e. (te_created_at e, te_updated_at e)) es)"

definition read_updated :: "i64 list \<Rightarrow> i64 list parser" where
  [simp]: "read_updated = read_offsets (Format ''TimeIndexSegment updated overflow'')"

definition write_collections :: "time_index_entry list \<Rightarrow> bytes result" where
  "write_collections es =
     write_run_column (Format ''TimeIndexSegment RLE run too long'')
       (Format ''TimeIndexSegment run count overflow'') (map te_collection_id es)"

subsection \<open>Encode and decode\<close>

definition encode_time_partition :: "collection_id option \<Rightarrow> bytes" where
  "encode_time_partition collection_id =
     (case collection_id of None \<Rightarrow> 0 # replicate 4 0 | Some cid \<Rightarrow> 1 # u32_le cid)"

definition encode_time_index_segment :: "time_index_segment \<Rightarrow> bytes result" where
  "encode_time_index_segment seg =
     (if \<not> list_all (\<lambda>(a, b). sint (te_created_at a) \<le> sint (te_created_at b))
            (windows2 (tx_entries seg))
      then Inl (Format ''TimeIndexSegment entries must be sorted ascending by created_at'')
      else
        rbind (ok_or (u32_try_from (length (tx_entries seg)))
                 (Format ''TimeIndexSegment entry count overflow'')) (\<lambda>count.
        let buf = TIME_INDEX_MAGIC @ u16_le TIME_INDEX_VERSION
                  @ encode_time_partition (tx_collection_id seg) @ u32_le count
                  @ write_optional_segment_ref (tx_previous_root seg) in
        case tx_entries seg of
          [] \<Rightarrow> Inr buf
        | e # es \<Rightarrow>
            rbind (write_id_deltas
                     (Format ''TimeIndexSegment frame_ids must be monotone within the same created_at'')
                     (te_frame_id e) (map te_frame_id es)) (\<lambda>deltas.
            rbind (write_blob (u64_le (te_frame_id e) @ deltas)) (\<lambda>frame_blob.
            rbind (write_created (te_created_at e) 0 (map te_created_at es)) (\<lambda>dods.
            rbind (write_blob (u64_le (te_created_at e) @ dods)) (\<lambda>created_blob.
            rbind (write_updated (e # es)) (\<lambda>offsets.
            rbind (write_blob offsets) (\<lambda>updated_blob.
            rbind (write_collections (e # es)) (\<lambda>coll.
            rbind (write_blob coll) (\<lambda>coll_blob.
              Inr (buf @ frame_blob @ created_blob @ updated_blob @ coll_blob)))))))))))"

definition decode_frame_column :: "nat \<Rightarrow> u64 list parser" where
  "decode_frame_column = read_id_column (Format ''TimeIndexSegment frame_id delta overflow'')"

definition decode_created_column :: "nat \<Rightarrow> i64 list parser" where
  "decode_created_column count =
     pbind read_i64 (\<lambda>first_created.
     pbind (read_created (count - 1) first_created 0)
       (\<lambda>cs. pbind peof (\<lambda>_. preturn (first_created # cs))))"

definition decode_collection_column :: "nat \<Rightarrow> collection_id list parser" where
  "decode_collection_column =
     read_run_column (Format ''TimeIndexSegment collection RLE total overflow'')
       (Format ''TimeIndexSegment collection RLE does not cover count'')"

definition decode_time_partition :: "collection_id option parser" where
  "decode_time_partition =
     pbind read_u8 (\<lambda>partition_flag.
       if partition_flag = 0 then pbind (read_array 4) (\<lambda>_. preturn None)
       else if partition_flag = 1 then pbind read_u32 (\<lambda>cid. preturn (Some cid))
       else perr (Format ''TimeIndexSegment partition flag must be 0 or 1''))"

definition time_index_parser :: "time_index_segment parser" where
  "time_index_parser =
     pbind (read_array 4) (\<lambda>magic.
     pbind (pensure (magic = TIME_INDEX_MAGIC) (Format ''TimeIndexSegment magic mismatch'')) (\<lambda>_.
     pbind read_u16 (\<lambda>version.
     pbind (pensure (version = TIME_INDEX_VERSION) (Format ''TimeIndexSegment version mismatch'')) (\<lambda>_.
     pbind decode_time_partition (\<lambda>collection_id.
     pbind read_u32 (\<lambda>count32.
     let count = unat count32 in
     pbind read_optional_segment_ref (\<lambda>previous_root.
     if count = 0
     then pbind peof (\<lambda>_. preturn \<lparr>tx_collection_id = collection_id, tx_entries = [],
                                  tx_previous_root = previous_root\<rparr>)
     else
       pbind read_blob (\<lambda>frame_blob.
       pbind (plift (run_parser (decode_frame_column count) frame_blob)) (\<lambda>frame_ids.
       pbind read_blob (\<lambda>created_blob.
       pbind (plift (run_parser (decode_created_column count) created_blob)) (\<lambda>created.
       pbind read_blob (\<lambda>updated_blob.
       pbind (plift (run_parser (pbind (read_updated created) (\<lambda>us. pbind peof (\<lambda>_. preturn us)))
                       updated_blob)) (\<lambda>updated.
       pbind read_blob (\<lambda>coll_blob.
       pbind (plift (run_parser (decode_collection_column count) coll_blob)) (\<lambda>collections.
       pbind peof (\<lambda>_.
       preturn \<lparr>tx_collection_id = collection_id,
                tx_entries = map (\<lambda>i. \<lparr>te_frame_id = frame_ids ! i,
                   te_collection_id = collections ! i, te_created_at = created ! i,
                   te_updated_at = updated ! i\<rparr>) [0..<count],
                tx_previous_root = previous_root\<rparr>))))))))))))))))"

definition decode_time_index_segment :: "bytes \<Rightarrow> time_index_segment result" where
  "decode_time_index_segment bs = run_parser time_index_parser bs"

section \<open>Build, write and load\<close>

definition time_entry_of :: "frame_desc \<Rightarrow> time_index_entry" where
  "time_entry_of f = \<lparr>te_frame_id = fd_frame_id f, te_collection_id = fd_collection_id f,
     te_created_at = fd_created_at f, te_updated_at = fd_updated_at f\<rparr>"

text \<open>\<open>a.created_at.cmp(&b.created_at).then(a.frame_id.0.cmp(&b.frame_id.0))\<close>.\<close>
definition time_key :: "time_index_entry \<Rightarrow> int \<times> u64" where
  "time_key e = (sint (te_created_at e), te_frame_id e)"

definition build_time_index :: "catalog_snapshot \<Rightarrow> time_index_segment" where
  "build_time_index catalog =
     \<lparr>tx_collection_id = None,
      tx_entries = sort_key time_key
        (map time_entry_of (filter (\<lambda>f. fd_status f = Frame_active) (cs_frames catalog))),
      tx_previous_root = None\<rparr>"

text \<open>The first root with no collection, the global index.\<close>
definition global_time_root :: "time_index_root list \<Rightarrow> segment_ref option" where
  "global_time_root roots = map_option ti_root (List.find (\<lambda>r. ti_collection_id r = None) roots)"

fun set_global_time_root :: "segment_ref \<Rightarrow> time_index_root list \<Rightarrow> time_index_root list" where
  "set_global_time_root root [] = [\<lparr>ti_collection_id = None, ti_root = root\<rparr>]"
| "set_global_time_root root (r # rs) =
     (if ti_collection_id r = None then r\<lparr>ti_root := root\<rparr> # rs
      else r # set_global_time_root root rs)"

definition write_time_index_segment ::
  "hash \<Rightarrow> storage \<Rightarrow> id_allocator \<Rightarrow> segment_registry_mut \<Rightarrow> toc_footer_body \<Rightarrow> catalog_snapshot \<Rightarrow>
     (toc_footer_body \<times> storage \<times> id_allocator \<times> segment_registry_mut) result" where
  "write_time_index_segment h f a segs body catalog =
     (let snapshot = (build_time_index catalog)
            \<lparr>tx_previous_root := global_time_root (tb_time_index_roots body)\<rparr> in
      rbind (encode_time_index_segment snapshot) (\<lambda>payload.
      let item_count = (case u32_try_from (length (tx_entries snapshot)) of Some n \<Rightarrow> n | None \<Rightarrow> - 1) in
      rbind (append_registered_segment h f a segs TimeIndex item_count payload)
        (\<lambda>(root, f', a', segs').
           Inr (body\<lparr>tb_time_index_roots := set_global_time_root root (tb_time_index_roots body)\<rparr>,
                f', a', segs'))))"

definition load_time_index_cache ::
  "hash \<Rightarrow> zstd_decode \<Rightarrow> storage \<Rightarrow> toc_footer_body \<Rightarrow> time_index_entry list result" where
  "load_time_index_cache h unz f body =
     (case List.find (\<lambda>r. ti_collection_id r = None) (tb_time_index_roots body) of
        None \<Rightarrow> Inr []
      | Some r \<Rightarrow>
          rbind (read_segment_payload_typed h unz f (ti_root r) TimeIndex) (\<lambda>payload.
          rbind (decode_time_index_segment payload) (\<lambda>seg. Inr (tx_entries seg))))"

section \<open>Range queries\<close>

text \<open>\<open>slice::partition_point\<close>: a binary search whose comparison is never \<open>Equal\<close>.\<close>
definition partition_point :: "('a \<Rightarrow> bool) \<Rightarrow> 'a list \<Rightarrow> nat" where
  "partition_point pred xs =
     (case binary_search_by_key (\<lambda>x. if pred x then 0 else 2) (1 :: nat) xs of
        Inr i \<Rightarrow> i | Inl i \<Rightarrow> i)"

fun time_scan :: "i64 \<Rightarrow> collection_id option \<Rightarrow> time_index_entry list \<Rightarrow> u64 list" where
  "time_scan t_to collection [] = []"
| "time_scan t_to collection (e # es) =
     (if sint t_to < sint (te_created_at e) then []
      else if (case collection of Some cid \<Rightarrow> te_collection_id e \<noteq> cid | None \<Rightarrow> False)
        then time_scan t_to collection es
      else te_frame_id e # time_scan t_to collection es)"

definition time_range ::
  "time_index_entry list \<Rightarrow> i64 \<Rightarrow> i64 \<Rightarrow> collection_id option \<Rightarrow> u64 list" where
  "time_range cache t_from t_to collection =
     (if cache = [] \<or> sint t_to < sint t_from then []
      else let lo = partition_point (\<lambda>e. sint (te_created_at e) < sint t_from) cache in
        time_scan t_to collection (drop lo cache))"

section \<open>Round trip\<close>

lemma parses_created:
  "write_created pv pd cs = Inr bs \<Longrightarrow> parses (read_created (length cs) pv pd) bs cs"
  by (simp add: parses_dods)

lemma parses_updated:
  "write_updated es = Inr bs \<Longrightarrow>
   parses (read_updated (map te_created_at es)) bs (map te_updated_at es)"
  unfolding write_updated_def read_updated_def by (drule parses_offsets) (simp add: comp_def)

lemma parses_collection_column:
  assumes "write_collections es = Inr bs" and "es \<noteq> []" and "length es < 2 ^ 32"
  shows "run_parser (decode_collection_column (length es)) bs = Inr (map te_collection_id es)"
  using parses_run_column [OF assms(1) [unfolded write_collections_def]] assms(2,3)
  by (simp add: decode_collection_column_def)

lemma frame_column:
  assumes "write_id_deltas e0 first ids = Inr deltas"
  shows "run_parser (decode_frame_column (Suc (length ids))) (u64_le first @ deltas) = Inr (first # ids)"
  unfolding decode_frame_column_def by (rule id_column [OF assms])

lemma created_column:
  assumes "write_created first 0 cs = Inr dods"
  shows "run_parser (decode_created_column (Suc (length cs))) (u64_le first @ dods) = Inr (first # cs)"
  unfolding decode_created_column_def
  by (intro run_parser_all parses_all_bind [OF parses_i64])
    (simp, rule parses_all_bind [where ys = "[]", OF parses_created [OF assms], simplified],
     intro parses_all_eof parses_all_return)

lemma updated_column:
  assumes "write_updated es = Inr bs"
  shows "run_parser (pbind (read_updated (map te_created_at es)) (\<lambda>us. pbind peof (\<lambda>_. preturn us))) bs =
    Inr (map te_updated_at es)"
  by (rule run_parser_all, rule parses_all_end, rule parses_updated, rule assms)

text \<open>The entries are rebuilt from their columns.\<close>
lemma zip_columns:
  "map (\<lambda>i. \<lparr>te_frame_id = map te_frame_id es ! i, te_collection_id = map te_collection_id es ! i,
        te_created_at = map te_created_at es ! i, te_updated_at = map te_updated_at es ! i\<rparr>)
     [0..<length es] = es"
  by (rule nth_equalityI) simp_all

lemma sized_nonempty:
  assumes "u32_try_from (length es) = Some count" and "es \<noteq> []"
  shows "unat count = length es" and "length es < 2 ^ 32" and "unat count \<noteq> 0"
  using assms by (auto simp: u32_try_from_Some_iff u32_try_from_unat)

lemma encode_time_index_Inr:
  assumes "encode_time_index_segment seg = Inr bs"
  obtains count where "u32_try_from (length (tx_entries seg)) = Some count"
    and "tx_entries seg = []" and "bs = TIME_INDEX_MAGIC @ u16_le TIME_INDEX_VERSION @
        encode_time_partition (tx_collection_id seg) @
        u32_le count @ write_optional_segment_ref (tx_previous_root seg)"
  | count e es deltas b1 dods b2 offs b3 coll b4
  where "u32_try_from (length (tx_entries seg)) = Some count" and "tx_entries seg = e # es"
    and "write_id_deltas (Format ''TimeIndexSegment frame_ids must be monotone within the same created_at'')
           (te_frame_id e) (map te_frame_id es) = Inr deltas"
    and "write_blob (u64_le (te_frame_id e) @ deltas) = Inr b1"
    and "write_created (te_created_at e) 0 (map te_created_at es) = Inr dods"
    and "write_blob (u64_le (te_created_at e) @ dods) = Inr b2"
    and "write_updated (e # es) = Inr offs" and "write_blob offs = Inr b3"
    and "write_collections (e # es) = Inr coll" and "write_blob coll = Inr b4"
    and "bs = TIME_INDEX_MAGIC @ u16_le TIME_INDEX_VERSION @
        encode_time_partition (tx_collection_id seg) @
        u32_le count @ write_optional_segment_ref (tx_previous_root seg) @ b1 @ b2 @ b3 @ b4"
proof (cases "tx_entries seg")
  case Nil
  with assms that(1) show ?thesis
    by (auto simp: encode_time_index_segment_def rbind_Inr_iff Let_def split: if_splits)
next
  case (Cons e es)
  with assms that(2) show ?thesis
    by (auto simp: encode_time_index_segment_def rbind_Inr_iff Let_def
        split: if_splits)
qed

lemma parses_time_partition: "parses decode_time_partition (encode_time_partition cid) cid"
proof (cases cid)
  case None
  have "parses (pbind (read_array 4) (\<lambda>_. preturn None)) (replicate 4 0) None"
    by (rule parses_bind_return [OF parses_read_array]) simp_all
  then have "parses decode_time_partition ([0] @ replicate 4 0) None"
    unfolding decode_time_partition_def by (intro parses_bind [OF parses_u8]) simp
  then show ?thesis by (simp add: encode_time_partition_def None)
next
  case (Some c)
  have "parses (pbind read_u32 (\<lambda>cid. preturn (Some cid))) (u32_le c) (Some c)"
    by (rule parses_bind_return [OF parses_u32]) simp
  then have "parses decode_time_partition ([1] @ u32_le c) (Some c)"
    unfolding decode_time_partition_def by (intro parses_bind [OF parses_u8]) simp
  then show ?thesis by (simp add: encode_time_partition_def Some)
qed

lemma time_index_rt:
  assumes enc: "encode_time_index_segment seg = Inr bs" and wf: "ref_wf (tx_previous_root seg)"
  shows "decode_time_index_segment bs = Inr seg"
  using enc
proof (cases rule: encode_time_index_Inr)
  case (1 count)
  have c0: "count = 0" using 1(1,2) by (simp add: u32_try_from_Some_iff)
  have seg: "seg = \<lparr>tx_collection_id = tx_collection_id seg, tx_entries = [],
      tx_previous_root = tx_previous_root seg\<rparr>"
    using 1(2) by (cases seg) simp
  show ?thesis
    unfolding decode_time_index_segment_def time_index_parser_def 1(3)
    apply (rule run_parser_all)
    apply (rule parses_all_bind [OF parses_read_array], simp add: TIME_INDEX_MAGIC_def)
    apply (simp only: pbind_ensure_True simp_thms)
    apply (rule parses_all_bind [OF parses_u16], simp only: pbind_ensure_True simp_thms)
    apply (rule parses_all_bind [OF parses_time_partition], rule parses_all_bind [OF parses_u32])
    apply (simp only: c0 Let_def unsigned_0 if_True simp_thms)
    apply (rule parses_all_bind [where ys = "[]", OF parses_optional_segment_ref [OF wf], simplified])
    apply (rule parses_all_eof)
    apply (subst seg, rule parses_all_return)
    done
next
  case (2 count e es deltas b1 dods b2 offs b3 coll b4)
  have ne: "tx_entries seg \<noteq> []" using 2(2) by simp
  note sized = sized_nonempty [OF 2(1) ne]
  have n: "length (tx_entries seg) = Suc (length es)" by (simp add: 2(2))
  have f: "run_parser (decode_frame_column (unat count)) (u64_le (te_frame_id e) @ deltas) =
      Inr (map te_frame_id (tx_entries seg))"
    using frame_column [OF 2(3)] by (simp add: sized n 2(2))
  have c: "run_parser (decode_created_column (unat count)) (u64_le (te_created_at e) @ dods) =
      Inr (map te_created_at (tx_entries seg))"
    using created_column [OF 2(5)] by (simp add: sized n 2(2))
  have u: "run_parser (pbind (read_updated (map te_created_at (tx_entries seg)))
        (\<lambda>us. pbind peof (\<lambda>_. preturn us))) offs = Inr (map te_updated_at (tx_entries seg))"
    using updated_column [OF 2(7)] by (simp only: 2(2))
  have k: "run_parser (decode_collection_column (unat count)) coll =
      Inr (map te_collection_id (tx_entries seg))"
    using parses_collection_column [OF 2(9)] sized by (simp add: 2(2))
  have seg: "seg = \<lparr>tx_collection_id = tx_collection_id seg, tx_entries = tx_entries seg,
      tx_previous_root = tx_previous_root seg\<rparr>"
    by (cases seg) simp
  show ?thesis
    unfolding decode_time_index_segment_def time_index_parser_def 2(11)
    apply (rule run_parser_all)
    apply (rule parses_all_bind [OF parses_read_array], simp add: TIME_INDEX_MAGIC_def)
    apply (simp only: pbind_ensure_True simp_thms)
    apply (rule parses_all_bind [OF parses_u16], simp only: pbind_ensure_True simp_thms)
    apply (rule parses_all_bind [OF parses_time_partition], rule parses_all_bind [OF parses_u32])
    apply (simp only: Let_def sized(3) if_False)
    apply (rule parses_all_bind [OF parses_optional_segment_ref [OF wf]])
    apply (rule parses_all_bind [OF parses_blob [OF 2(4)]], simp only: f pbind_lift_Inr)
    apply (rule parses_all_bind [OF parses_blob [OF 2(6)]], simp only: c pbind_lift_Inr)
    apply (rule parses_all_bind [OF parses_blob [OF 2(8)]], simp only: u pbind_lift_Inr)
    apply (rule parses_all_bind [where ys = "[]", OF parses_blob [OF 2(10)], simplified])
    apply (simp only: k pbind_lift_Inr)
    apply (rule parses_all_eof)
    apply (simp only: sized(1) zip_columns)
    apply (subst seg, rule parses_all_return)
    done
qed

section \<open>The range query is a filter\<close>

definition border :: "('a \<Rightarrow> bool) \<Rightarrow> 'a list \<Rightarrow> nat \<Rightarrow> bool" where
  "border pred xs b \<longleftrightarrow> b < length xs \<and> (\<forall>i<b. pred (xs ! i)) \<and>
     (\<forall>i. b < i \<and> i < length xs \<longrightarrow> \<not> pred (xs ! i))"

text \<open>The binary search ends at the border between the true and the false positions.\<close>
lemma bs_loop_border:
  assumes mono: "sorted_wrt (\<lambda>x y. pred y \<longrightarrow> pred x) xs"
    and "0 < sz" and "base + sz \<le> length xs" and "\<And>i. i < base \<Longrightarrow> pred (xs ! i)"
    and "\<And>i. base + sz \<le> i \<Longrightarrow> i < length xs \<Longrightarrow> \<not> pred (xs ! i)"
  shows "border pred xs (bs_loop (\<lambda>x. if pred x then 0 else (2 :: nat)) 1 xs base sz)"
  using assms(2-)
proof (induction sz arbitrary: base rule: less_induct)
  case (less sz)
  note nth = sorted_wrt_nth_less [OF mono]
  let ?loop = "bs_loop (\<lambda>x. if pred x then 0 else (2 :: nat)) 1 xs"
  show ?case
  proof (cases "sz \<le> 1")
    case True
    with less.prems(1) have "sz = 1" by simp
    moreover from this have "?loop base sz = base" by (subst bs_loop.simps) simp
    ultimately show ?thesis using less.prems by (simp add: border_def Suc_le_eq)
  next
    case False
    define half where "half = sz div 2"
    define mid where "mid = base + half"
    have half: "0 < half" "half < sz" "mid < length xs" "mid + (sz - half) = base + sz"
      using False less.prems(2) by (auto simp: half_def mid_def)
    have step: "?loop base sz = ?loop (if pred (xs ! mid) then mid else base) (sz - half)"
      using False by (subst bs_loop.simps) (simp add: Let_def half_def mid_def)
    show ?thesis
    proof (cases "pred (xs ! mid)")
      case True
      have "border pred xs (?loop mid (sz - half))"
      proof (rule less.IH)
        show "pred (xs ! i)" if "i < mid" for i
          using nth [of i mid] that half True by simp
        show "\<not> pred (xs ! i)" if "mid + (sz - half) \<le> i" "i < length xs" for i
          using less.prems(4) [of i] that half by simp
      qed (use half less.prems in simp_all)
      then show ?thesis by (simp only: step True if_True)
    next
      case f: False
      have "border pred xs (?loop base (sz - half))"
      proof (rule less.IH)
        show "\<not> pred (xs ! i)" if "base + (sz - half) \<le> i" "i < length xs" for i
        proof -
          have "mid \<le> i" using that by (simp add: mid_def half_def)
          then show ?thesis using nth [of mid i] that f by (cases "i = mid") auto
        qed
      qed (use half less.prems in simp_all)
      then show ?thesis by (simp only: step f if_False)
    qed
  qed
qed

lemma partition_point_drop:
  assumes s: "sorted_wrt (\<lambda>x y. pred y \<longrightarrow> pred x) xs"
  shows "drop (partition_point pred xs) xs = filter (\<lambda>x. \<not> pred x) xs"
proof (cases "xs = []")
  case True
  then show ?thesis by simp
next
  case False
  define b where "b = bs_loop (\<lambda>x. if pred x then 0 else (2 :: nat)) 1 xs 0 (length xs)"
  have "border pred xs b"
    unfolding b_def by (rule bs_loop_border [OF s]) (use False in auto)
  then have b: "b < length xs" "\<And>i. i < b \<Longrightarrow> pred (xs ! i)"
      "\<And>i. b < i \<Longrightarrow> i < length xs \<Longrightarrow> \<not> pred (xs ! i)"
    by (auto simp: border_def)
  define p where "p = (if pred (xs ! b) then Suc b else b)"
  have pp: "partition_point pred xs = p"
    using False
    by (cases "pred (xs ! b)")
      (simp_all add: partition_point_def binary_search_by_key_def Let_def p_def b_def [symmetric, simplified])
  have early: "pred (xs ! i)" if "i < p" for i
    using that b(2) [of i] by (cases "i = b") (auto simp: p_def split: if_splits)
  have late: "\<not> pred (xs ! i)" if "p \<le> i" "i < length xs" for i
    using that b(3) [of i] by (cases "i = b") (auto simp: p_def split: if_splits)
  have "filter (\<lambda>x. \<not> pred x) (take p xs) = []"
    by (rule filter_False) (use early in \<open>auto simp: in_set_conv_nth\<close>)
  moreover have "filter (\<lambda>x. \<not> pred x) (drop p xs) = drop p xs"
    by (rule filter_True) (use late in \<open>auto simp: in_set_conv_nth\<close>)
  moreover have "filter (\<lambda>x. \<not> pred x) xs = filter (\<lambda>x. \<not> pred x) (take p xs @ drop p xs)"
    by simp
  ultimately show ?thesis by (simp only: pp filter_append append_Nil)
qed

definition in_range :: "i64 \<Rightarrow> i64 \<Rightarrow> collection_id option \<Rightarrow> time_index_entry \<Rightarrow> bool" where
  "in_range t_from t_to collection e \<longleftrightarrow>
     sint t_from \<le> sint (te_created_at e) \<and> sint (te_created_at e) \<le> sint t_to \<and>
     (case collection of Some cid \<Rightarrow> te_collection_id e = cid | None \<Rightarrow> True)"

definition by_time :: "time_index_entry list \<Rightarrow> bool" where
  "by_time es = sorted_wrt (\<lambda>a b. sint (te_created_at a) \<le> sint (te_created_at b)) es"

lemma time_scan_filter:
  "by_time es \<Longrightarrow> \<forall>e\<in>set es. sint t_from \<le> sint (te_created_at e) \<Longrightarrow>
   time_scan t_to collection es = map te_frame_id (filter (in_range t_from t_to collection) es)"
proof (induction es)
  case Nil
  then show ?case by simp
next
  case (Cons e es)
  show ?case
  proof (cases "sint t_to < sint (te_created_at e)")
    case True
    then have "\<forall>x\<in>set (e # es). \<not> in_range t_from t_to collection x"
      using Cons.prems(1) by (auto simp: by_time_def in_range_def)
    then show ?thesis using True by (simp add: filter_empty_conv)
  next
    case False
    then show ?thesis
      using Cons by (cases collection) (auto simp: by_time_def in_range_def)
  qed
qed

lemma time_range_filter:
  assumes "by_time cache"
  shows "time_range cache t_from t_to collection =
    map te_frame_id (filter (in_range t_from t_to collection) cache)"
proof (cases "cache = [] \<or> sint t_to < sint t_from")
  case True
  then show ?thesis by (auto simp: time_range_def in_range_def filter_empty_conv)
next
  case False
  let ?early = "\<lambda>e. sint (te_created_at e) < sint t_from"
  have mono: "sorted_wrt (\<lambda>x y. ?early y \<longrightarrow> ?early x) cache"
    using assms unfolding by_time_def by (rule sorted_wrt_mono_rel [rotated]) simp
  have drop: "drop (partition_point ?early cache) cache = filter (\<lambda>e. \<not> ?early e) cache"
    by (rule partition_point_drop [OF mono])
  have "by_time (filter (\<lambda>e. \<not> ?early e) cache)"
    using assms by (simp add: by_time_def sorted_wrt_filter)
  then have "time_scan t_to collection (filter (\<lambda>e. \<not> ?early e) cache) =
      map te_frame_id (filter (in_range t_from t_to collection) (filter (\<lambda>e. \<not> ?early e) cache))"
    by (intro time_scan_filter) auto
  also have "\<dots> = map te_frame_id (filter (in_range t_from t_to collection) cache)"
    by (simp add: filter_filter) (metis in_range_def not_le)
  finally show ?thesis using False by (simp add: time_range_def Let_def drop)
qed

section \<open>From the catalog to the query\<close>

lemma sort_key_map: "sort_key k (map g xs) = map g (sort_key (\<lambda>x. k (g x)) xs)"
proof -
  have insort: "insort_key k (g x) (map g ys) = map g (insort_key (\<lambda>x. k (g x)) x ys)" for x ys
    by (induction ys) auto
  show ?thesis by (induction xs) (auto simp: insort)
qed

lemma by_time_sorted: "by_time (sort_key time_key es)"
proof -
  have "sorted (map time_key (sort_key time_key es))" by simp
  then show ?thesis
    by (auto simp: by_time_def sorted_map time_key_def elim: sorted_wrt_mono_rel [rotated])
qed

lemma by_time_windows:
  "list_all (\<lambda>(a, b). sint (te_created_at a) \<le> sint (te_created_at b)) (windows2 es) \<longleftrightarrow> by_time es"
  unfolding by_time_def by (rule windows2_sorted) simp

lemma append_registered_reads:
  assumes h: "digest32 h" and f: "fits (length f)" and f': "fits (length f')"
    and app: "append_registered_segment h f a segs ty n p = Inr (root, f', a', segs')"
  shows "read_segment_payload_typed h unz f' root ty = Inr p"
proof -
  obtain sid a1 where al: "allocate_segment_id a = Inr (sid, a1)"
    using app by (auto simp: append_registered_segment_def rbind_Inr_iff)
  obtain r f1 where ap: "append_segment_at_end h f sid ty n p = (r, f1)" by fastforce
  have eq: "append_segment_at_end h f sid ty n p = (root, f')"
    using app by (auto simp: append_registered_segment_def rbind_Inr_iff al ap)
  have "fits (length p)"
    using append_registered_segment_length [OF h f app] by (intro fits_mono [OF f']) simp
  from read_append_segment [OF h f this eq] show ?thesis
    by (simp add: read_segment_payload_typed_def)
qed

lemma find_set_global:
  "List.find (\<lambda>r. ti_collection_id r = None) (set_global_time_root root roots) =
     Some \<lparr>ti_collection_id = None, ti_root = root\<rparr>"
  by (induction roots) auto

lemma global_time_root_wf:
  assumes "\<forall>r\<in>set roots. length (sr_checksum (ti_root r)) = 32"
  shows "ref_wf (global_time_root roots)"
  using assms
  by (auto simp: ref_wf_def global_time_root_def find_Some_iff split: option.split)

text \<open>What a commit wrote is what the next open loads.\<close>
lemma time_index_rereads:
  assumes h: "digest32 h" and f: "fits (length f)" "fits (length f')"
    and wf: "\<forall>r\<in>set (tb_time_index_roots body). length (sr_checksum (ti_root r)) = 32"
    and w: "write_time_index_segment h f a segs body catalog = Inr (body', f', a', segs')"
  shows "load_time_index_cache h unz f' body' = Inr (tx_entries (build_time_index catalog))"
proof -
  let ?snap = "(build_time_index catalog)\<lparr>tx_previous_root := global_time_root (tb_time_index_roots body)\<rparr>"
  obtain payload n root where enc: "encode_time_index_segment ?snap = Inr payload"
    and app: "append_registered_segment h f a segs TimeIndex n payload = Inr (root, f', a', segs')"
    and body': "body' = body\<lparr>tb_time_index_roots := set_global_time_root root (tb_time_index_roots body)\<rparr>"
    using w by (auto simp: write_time_index_segment_def Let_def rbind_Inr_iff)
  have "ref_wf (tx_previous_root ?snap)" using global_time_root_wf [OF wf] by simp
  then have dec: "decode_time_index_segment payload = Inr ?snap" by (rule time_index_rt [OF enc])
  have rd: "read_segment_payload_typed h unz f' root TimeIndex = Inr payload"
    by (rule append_registered_reads [OF h f app])
  show ?thesis
    by (simp add: load_time_index_cache_def body' find_set_global rd dec)
qed

text \<open>What a range query is to return: the active frames of the window, oldest first.\<close>
definition frames_between ::
  "catalog_snapshot \<Rightarrow> i64 \<Rightarrow> i64 \<Rightarrow> collection_id option \<Rightarrow> u64 list" where
  "frames_between catalog t_from t_to collection =
     map fd_frame_id (filter (\<lambda>f. fd_status f = Frame_active \<and>
         sint t_from \<le> sint (fd_created_at f) \<and> sint (fd_created_at f) \<le> sint t_to \<and>
         (case collection of Some cid \<Rightarrow> fd_collection_id f = cid | None \<Rightarrow> True))
       (sort_key (\<lambda>f. (sint (fd_created_at f), fd_frame_id f)) (cs_frames catalog)))"

lemma time_range_built:
  "time_range (tx_entries (build_time_index catalog)) t_from t_to collection =
   frames_between catalog t_from t_to collection"
proof -
  have "time_range (tx_entries (build_time_index catalog)) t_from t_to collection =
      map te_frame_id (filter (in_range t_from t_to collection) (tx_entries (build_time_index catalog)))"
    by (rule time_range_filter) (simp add: build_time_index_def by_time_sorted)
  moreover have "in_range t_from t_to collection (time_entry_of f) \<longleftrightarrow>
      sint t_from \<le> sint (fd_created_at f) \<and> sint (fd_created_at f) \<le> sint t_to \<and>
      (case collection of Some cid \<Rightarrow> fd_collection_id f = cid | None \<Rightarrow> True)" for f
    by (cases collection) (simp_all add: in_range_def time_entry_of_def)
  ultimately show ?thesis
    by (simp add: build_time_index_def sort_key_map frames_between_def filter_map comp_def
        time_key_def filter_sort filter_filter conj_ac)
      (simp add: time_entry_of_def)
qed

lemma backdated_frame:
  assumes fr: "f1 \<in> set (cs_frames catalog)" "f2 \<in> set (cs_frames catalog)"
    and act: "fd_status f1 = Frame_active" "fd_status f2 = Frame_active"
    and ids: "fd_frame_id f1 < fd_frame_id f2"
    and older: "sint (fd_created_at f2) < sint (fd_created_at f1)"
  shows "\<exists>m. write_time_index_segment h f a segs body catalog = Inl (Format m)"
proof -
  let ?es = "tx_entries (build_time_index catalog)"
  let ?snap = "(build_time_index catalog)\<lparr>tx_previous_root := global_time_root (tb_time_index_roots body)\<rparr>"
  let ?msg = "''TimeIndexSegment frame_ids must be monotone within the same created_at''"
  have srt: "sorted (map time_key ?es)" by (simp add: build_time_index_def)
  have "time_entry_of f1 \<in> set ?es" "time_entry_of f2 \<in> set ?es"
    using fr act by (auto simp: build_time_index_def)
  then obtain i j where i: "i < length ?es" "?es ! i = time_entry_of f2"
    and j: "j < length ?es" "?es ! j = time_entry_of f1"
    by (auto simp: in_set_conv_nth)
  have "i < j"
  proof (rule ccontr)
    assume "\<not> i < j"
    then have "time_key (?es ! j) \<le> time_key (?es ! i)"
      using sorted_nth_mono [OF srt, of j i] i j by simp
    then show False using older by (auto simp: i j time_key_def time_entry_of_def)
  qed
  then have unsorted: "\<not> sorted_wrt (\<le>) (map te_frame_id ?es)"
    using i j ids sorted_wrt_nth_less [of "(\<le>)" "map te_frame_id ?es" i j]
    by (auto simp: time_entry_of_def)
  obtain e es where es: "?es = e # es" using i by (cases ?es) auto
  have "\<not> is_ok (write_id_deltas (Format ?msg) (te_frame_id e) (map te_frame_id es))"
    using unsorted by (simp add: write_id_deltas_Inr es)
  then have "write_id_deltas (Format ?msg) (te_frame_id e) (map te_frame_id es) = Inl (Format ?msg)"
    using write_id_deltas_Inl [of "Format ?msg" "te_frame_id e" "map te_frame_id es"]
    by (cases "write_id_deltas (Format ?msg) (te_frame_id e) (map te_frame_id es)") auto
  moreover have "by_time ?es" by (simp add: build_time_index_def by_time_sorted)
  ultimately have "\<exists>m. encode_time_index_segment ?snap = Inl (Format m)"
    by (cases "u32_try_from (length ?es)")
      (auto simp: encode_time_index_segment_def by_time_windows es)
  then show ?thesis by (auto simp: write_time_index_segment_def Let_def)
qed

section \<open>Properties\<close>

text \<open>
  An encoded time-index segment decodes to the segment it was encoded from.
\<close>
theorem time_index_roundtrip:
  assumes "ref_wf (tx_previous_root seg)" and "encode_time_index_segment seg = Inr bs"
  shows "decode_time_index_segment bs = Inr seg"
  using assms by (intro time_index_rt)

definition ex_time_frame :: "u64 \<Rightarrow> i64 \<Rightarrow> frame_desc" where
  "ex_time_frame fid t =
     \<lparr>fd_frame_id = fid, fd_collection_id = 7, fd_role = Document, fd_created_at = t,
      fd_updated_at = t, fd_uri_ref = None, fd_title_ref = None, fd_payload_ref = None,
      fd_payload_encoding = Enc_raw, fd_search_text_ref = None, fd_parent_frame_id = None,
      fd_chunk_index = None, fd_chunk_count = None, fd_metadata_ref = None,
      fd_status = Frame_active\<rparr>"

definition ex_time_catalog :: "frame_desc list \<Rightarrow> catalog_snapshot" where
  "ex_time_catalog fs = catalog_snapshot_default\<lparr>cs_frames := fs\<rparr>"

lemma ex_time_encode:
  "\<exists>bs. encode_time_index_segment (build_time_index (ex_time_catalog [ex_time_frame 1 10, ex_time_frame 2 12]))
     = Inr bs \<and> length bs < 1000"
proof -
  have "tx_entries (build_time_index (ex_time_catalog [ex_time_frame 1 10, ex_time_frame 2 12])) =
      [time_entry_of (ex_time_frame 1 10), time_entry_of (ex_time_frame 2 12)]"
    by (simp add: build_time_index_def ex_time_catalog_def ex_time_frame_def time_key_def time_entry_of_def)
  moreover have "tx_collection_id (build_time_index c) = None" "tx_previous_root (build_time_index c) = None" for c
    by (simp_all add: build_time_index_def)
  ultimately show ?thesis
    by (simp add: encode_time_index_segment_def time_entry_of_def ex_time_frame_def write_blob_def
        write_updated_def write_collections_def write_run_column_def u32_try_from_def checked_sub_i64_def in_i64_def checked_add_def
        write_optional_segment_ref_def TIME_INDEX_MAGIC_def encode_time_partition_def
        write_uvarint.simps write_ivarint_def zigzag_def)
qed

lemma time_index_roundtrip_witness:
  "\<exists>bs. decode_time_index_segment bs =
     Inr (build_time_index (ex_time_catalog [ex_time_frame 1 10, ex_time_frame 2 12]))"
proof -
  have "ref_wf (tx_previous_root (build_time_index c))" for c
    by (simp add: ref_wf_def build_time_index_def)
  then show ?thesis using ex_time_encode time_index_roundtrip by blast
qed

text \<open>
  C35: After a commit wrote its time index, the next open loads a cache on which every range
  query returns exactly the active frames of the catalog created in the window (and in the
  collection, if one is given), ordered by creation time and then by id.
\<close>
theorem time_query_after_commit:
  assumes "digest32 h" and "fits (length f)" and "fits (length f')"
    and "\<forall>r\<in>set (tb_time_index_roots body). length (sr_checksum (ti_root r)) = 32"
    and "write_time_index_segment h f a segs body catalog = Inr (body', f', a', segs')"
  shows "\<exists>cache. load_time_index_cache h unz f' body' = Inr cache \<and>
    (\<forall>t_from t_to collection.
       time_range cache t_from t_to collection = frames_between catalog t_from t_to collection)"
  using time_index_rereads [OF assms] time_range_built by blast

lemma time_query_after_commit_witness:
  "\<exists>cache f' body'. load_time_index_cache ex_hash (\<lambda>_. None) f' body' = Inr cache \<and>
     time_range cache 11 20 (Some 7) = [2]"
proof -
  let ?cat = "ex_time_catalog [ex_time_frame 1 10, ex_time_frame 2 12]"
  let ?segs = "(\<lparr>rg_catalog = [], rg_by_id = Map.empty, rg_loaded = True\<rparr>, {}) :: segment_registry_mut"
  let ?body = "toc_body_empty 1 contract_default"
  obtain bs where enc: "encode_time_index_segment (build_time_index ?cat) = Inr bs" and l: "length bs < 1000"
    using ex_time_encode by blast
  have snap: "(build_time_index ?cat)\<lparr>tx_previous_root := global_time_root (tb_time_index_roots ?body)\<rparr> =
      build_time_index ?cat"
    by (simp add: build_time_index_def toc_body_empty_def global_time_root_def)
  obtain sid a' where a: "allocate_segment_id id_allocator_default = Inr (sid, a')"
    by (simp add: allocate_segment_id_def take_id_def validate_next_def next_id_def checked_add_def
        id_allocator_default_def)
  have "\<exists>root f' segs'. append_registered_segment ex_hash [] id_allocator_default ?segs TimeIndex n bs =
      Inr (root, f', a', segs') \<and> length f' = length ([] :: storage) + SEGMENT_HEADER_SIZE + length bs" for n
    using l by (intro append_registered_segment_total [OF ex_hash_ok _ _ a])
      (simp_all add: fits_def SEGMENT_HEADER_SIZE_def)
  then obtain root f' segs' where
    app: "append_registered_segment ex_hash [] id_allocator_default ?segs TimeIndex
        (case u32_try_from (length (tx_entries (build_time_index ?cat))) of Some n \<Rightarrow> n | None \<Rightarrow> - 1) bs =
      Inr (root, f', a', segs')"
    and len: "length f' = SEGMENT_HEADER_SIZE + length bs"
    by fastforce
  let ?body' = "?body\<lparr>tb_time_index_roots := set_global_time_root root (tb_time_index_roots ?body)\<rparr>"
  have w: "write_time_index_segment ex_hash [] id_allocator_default ?segs ?body ?cat =
      Inr (?body', f', a', segs')"
    unfolding write_time_index_segment_def Let_def snap enc rbind_simps app by simp
  have "fits (length f')" using l by (simp add: len fits_def SEGMENT_HEADER_SIZE_def)
  then obtain cache where "load_time_index_cache ex_hash (\<lambda>_. None) f' ?body' = Inr cache"
    and "time_range cache 11 20 (Some 7) = frames_between ?cat 11 20 (Some 7)"
    using time_query_after_commit [where unz = "\<lambda>_. None", OF ex_hash_ok _ _ _ w]
    by (auto simp: fits_def toc_body_empty_def)
  moreover have "frames_between ?cat 11 20 (Some 7) = [2]"
    by (simp add: frames_between_def ex_time_catalog_def ex_time_frame_def)
  ultimately show ?thesis by auto
qed

text \<open>
  C39: A catalog with an active frame that was created earlier than an active frame of a
  smaller id has no time index: the encoder demands ascending frame ids over the whole
  segment although its entries are ordered by time, so the commit of such a catalog fails.
\<close>
theorem backdated_frame_blocks_commit:
  assumes "f1 \<in> set (cs_frames catalog)" and "f2 \<in> set (cs_frames catalog)"
    and "fd_status f1 = Frame_active" and "fd_status f2 = Frame_active"
    and "fd_frame_id f1 < fd_frame_id f2" and "sint (fd_created_at f2) < sint (fd_created_at f1)"
  shows "\<exists>m. write_time_index_segment h f a segs body catalog = Inl (Format m)"
  using backdated_frame [OF assms] .

lemma backdated_frame_blocks_commit_witness:
  "\<exists>m. write_time_index_segment ex_hash [] id_allocator_default
     (\<lparr>rg_catalog = [], rg_by_id = Map.empty, rg_loaded = True\<rparr>, {}) (toc_body_empty 1 contract_default)
     (ex_time_catalog [ex_time_frame 1 10, ex_time_frame 2 5]) = Inl (Format m)"
  by (rule backdated_frame_blocks_commit [of "ex_time_frame 1 10" _ "ex_time_frame 2 5"])
    (simp_all add: ex_time_catalog_def ex_time_frame_def)

end
