(* ===== verification/FrameCatalog.thy ===== *)
theory FrameCatalog imports Columns TimeIndex begin

text \<open>
  The columnar frame catalog (src/format/frame_catalog_codec.rs): one \<open>VLF2\<close> segment
  holds a batch of frame descriptors as columns. Ids are differences, small columns run
  lengths, timestamps deltas of deltas, and the optional columns a list of the rows that
  have a value followed by the values. Shown: what the encoder writes decodes to the same
  delta; the reader that only follows the chain agrees with the full decoder on every
  input; whatever bytes decode, the frames are in ascending order with 32-byte checksums;
  and the two optional integer columns index the table before checking the row, so that
  a damaged row list aborts the process instead of being reported.

  Allocations are unbounded here: a run is expanded before its total is compared with the
  count. The total of a run-length column is a wrapping 64-bit sum, as in a release build.
\<close>

section \<open>The delta\<close>

record frame_catalog_delta =
  fc_previous_root :: "segment_ref option"
  fc_frames :: "frame_desc list"

definition FRAME_CATALOG_MAGIC :: bytes where "FRAME_CATALOG_MAGIC = [0x56, 0x4C, 0x46, 0x32]"
definition FRAME_CATALOG_VERSION :: u16 where "FRAME_CATALOG_VERSION = 2"

subsection \<open>Discriminants\<close>

fun role_disc :: "frame_role \<Rightarrow> u8" where
  "role_disc Document = 0"
| "role_disc Chunk = 1"
| "role_disc Tombstone_role = 2"

definition role_from_disc :: "u8 \<Rightarrow> frame_role result" where
  "role_from_disc d =
     (if d = 0 then Inr Document else if d = 1 then Inr Chunk else if d = 2 then Inr Tombstone_role
      else Inl (Format ''FrameCatalog unknown role disc''))"

fun status_disc :: "frame_status \<Rightarrow> u8" where
  "status_disc Frame_active = 0"
| "status_disc Frame_tombstoned = 1"

definition status_from_disc :: "u8 \<Rightarrow> frame_status result" where
  "status_from_disc d =
     (if d = 0 then Inr Frame_active else if d = 1 then Inr Frame_tombstoned
      else Inl (Format ''FrameCatalog unknown status disc''))"

fun payload_encoding_disc :: "payload_encoding \<Rightarrow> u8" where
  "payload_encoding_disc Enc_raw = 0"
| "payload_encoding_disc Enc_zstd = 1"
| "payload_encoding_disc Enc_lz4 = 2"

definition payload_encoding_from_disc :: "u8 \<Rightarrow> payload_encoding result" where
  "payload_encoding_from_disc d =
     (if d = 0 then Inr Enc_raw else if d = 1 then Inr Enc_zstd else if d = 2 then Inr Enc_lz4
      else Inl (Format ''FrameCatalog unknown payload_encoding disc''))"

subsection \<open>The previous root\<close>

text \<open>Unlike \<open>write_optional_segment_ref\<close>, with a padding byte after the flag.\<close>
definition write_previous_root :: "segment_ref option \<Rightarrow> bytes" where
  "write_previous_root maybe_ref =
     (case maybe_ref of
        Some r \<Rightarrow> [1, 0] @ u64_le (sr_segment_id r) @ u64_le (sr_offset r) @ u64_le (sr_length r)
                    @ sr_checksum r
      | None \<Rightarrow> [0, 0])"

definition read_previous_root :: "segment_ref option parser" where
  "read_previous_root =
     pbind read_u8 (\<lambda>flag. pbind read_u8 (\<lambda>_.
       if flag = 0 then preturn None
       else if flag = 1 then
         pbind read_u64 (\<lambda>sid. pbind read_u64 (\<lambda>offset. pbind read_u64 (\<lambda>len.
         pbind (read_array 32) (\<lambda>checksum.
           preturn (Some \<lparr>sr_segment_id = sid, sr_offset = offset, sr_length = len,
                          sr_checksum = checksum\<rparr>)))))
       else perr (Format ''FrameCatalog previous_root flag must be 0 or 1'')))"

subsection \<open>Run-length columns\<close>

definition encode_rle :: "('a \<Rightarrow> bytes) \<Rightarrow> error \<Rightarrow> 'a list \<Rightarrow> bytes result" where
  "encode_rle enc too_long values =
     rbind (case values of [] \<Rightarrow> Inr [] | v # vs \<Rightarrow> rle_runs too_long v 1 vs) (\<lambda>runs.
     rbind (ok_or (u32_try_from (length runs)) (Format ''FrameCatalog RLE run count overflow''))
       (\<lambda>run_count. Inr (u32_le run_count @
          concat (map (\<lambda>(v, len). enc v @ write_uvarint (ucast len)) runs))))"

definition encode_rle_u8 :: "u8 list \<Rightarrow> bytes result" where
  "encode_rle_u8 values = encode_rle (\<lambda>v. [v]) (Format ''FrameCatalog RLE u8 run too long'') values"

definition encode_rle_u32 :: "u32 list \<Rightarrow> bytes result" where
  "encode_rle_u32 values = encode_rle u32_le (Format ''FrameCatalog RLE u32 run too long'') values"

fun read_rle_runs :: "'a parser \<Rightarrow> nat \<Rightarrow> u64 \<Rightarrow> 'a list \<Rightarrow> (u64 \<times> 'a list) parser" where
  "read_rle_runs p 0 tot out = preturn (tot, out)"
| "read_rle_runs p (Suc n) tot out =
     pbind p (\<lambda>v. pbind read_uvarint (\<lambda>len.
       read_rle_runs p n (tot + len) (out @ replicate (unat len) v)))"

definition decode_rle :: "'a parser \<Rightarrow> bytes \<Rightarrow> nat \<Rightarrow> 'a list result" where
  "decode_rle p bs expected_count =
     run_parser
       (pbind read_u32 (\<lambda>run_count.
        pbind (read_rle_runs p (unat run_count) 0 []) (\<lambda>(tot, out).
        pbind (pensure (tot = of_nat expected_count) (Format ''FrameCatalog RLE does not cover count''))
          (\<lambda>_. pbind peof (\<lambda>_. preturn out))))) bs"

definition decode_rle_u8 :: "bytes \<Rightarrow> nat \<Rightarrow> u8 list result" where
  "decode_rle_u8 = decode_rle read_u8"

definition decode_rle_u32 :: "bytes \<Rightarrow> nat \<Rightarrow> u32 list result" where
  "decode_rle_u32 = decode_rle read_u32"

subsection \<open>Presence lists\<close>

fun presence_deltas :: "u32 \<Rightarrow> u32 list \<Rightarrow> bytes result" where
  "presence_deltas prev [] = Inr []"
| "presence_deltas prev (idx # indices) =
     (if idx < prev then Inl (Format ''FrameCatalog presence indices must be ascending'')
      else rbind (presence_deltas idx indices)
             (\<lambda>bs. Inr (write_uvarint (ucast (idx - prev)) @ bs)))"

definition encode_presence :: "u32 list \<Rightarrow> bytes result" where
  "encode_presence indices =
     rbind (ok_or (u32_try_from (length indices)) (Format ''FrameCatalog presence count overflow''))
       (\<lambda>count.
     rbind (case indices of [] \<Rightarrow> Inr []
            | idx # rest \<Rightarrow> rbind (presence_deltas idx rest)
                              (\<lambda>bs. Inr (write_uvarint (ucast idx) @ bs)))
       (\<lambda>bs. Inr (u32_le count @ bs)))"

definition read_presence_delta :: "u32 parser" where
  "read_presence_delta =
     pbind read_uvarint (\<lambda>v. plift (ok_or (u32_try_from (unat v))
                                     (Format ''FrameCatalog presence index overflow'')))"

fun read_presence_rows :: "nat \<Rightarrow> u32 \<Rightarrow> u32 list parser" where
  "read_presence_rows 0 prev = preturn []"
| "read_presence_rows (Suc n) prev =
     pbind read_presence_delta (\<lambda>delta.
     pbind (plift (ok_or (checked_add prev delta) (Format ''FrameCatalog presence index overflow'')))
       (\<lambda>idx. pbind (read_presence_rows n idx) (\<lambda>rest. preturn (idx # rest))))"

text \<open>The first index is not a difference.\<close>
definition decode_presence :: "bytes \<Rightarrow> u32 list result" where
  "decode_presence bs =
     run_parser
       (pbind read_u32 (\<lambda>count.
        pbind (case unat count of 0 \<Rightarrow> preturn []
               | Suc n \<Rightarrow> pbind read_presence_delta (\<lambda>idx.
                           pbind (read_presence_rows n idx) (\<lambda>rest. preturn (idx # rest))))
          (\<lambda>out. pbind peof (\<lambda>_. preturn out)))) bs"

text \<open>
  \<open>frames.iter().enumerate().filter_map(|(i, f)| get(f).map(|_| u32::try_from(i).unwrap()))\<close>.
\<close>
fun presence_rows :: "(frame_desc \<Rightarrow> 'b option) \<Rightarrow> nat \<Rightarrow> frame_desc list \<Rightarrow> u32 list result" where
  "presence_rows get i [] = Inr []"
| "presence_rows get i (f # fs) =
     (case get f of
        None \<Rightarrow> presence_rows get (Suc i) fs
      | Some _ \<Rightarrow> rbind (ok_or (u32_try_from i) (Panic ''row index fits in u32'')) (\<lambda>idx.
                  rbind (presence_rows get (Suc i) fs) (\<lambda>rest. Inr (idx # rest))))"

subsection \<open>Optional columns\<close>

text \<open>
  The presence list, then the values of the rows it names: the shape the three
  \<open>encode_optional_*_column\<close> functions share.
\<close>
definition encode_optional_column ::
  "('b \<Rightarrow> bytes) \<Rightarrow> frame_desc list \<Rightarrow> (frame_desc \<Rightarrow> 'b option) \<Rightarrow> bytes result" where
  "encode_optional_column enc frames get =
     rbind (presence_rows get 0 frames) (\<lambda>presence.
     rbind (encode_presence presence) (\<lambda>presence_bytes.
     rbind (write_blob presence_bytes) (\<lambda>presence_blob.
     rbind (write_blob (concat (map (\<lambda>idx. enc (the (get (frames ! unat idx)))) presence)))
       (\<lambda>values_blob. Inr (presence_blob @ values_blob)))))"

definition metadata_value :: "metadata_ref \<Rightarrow> bytes" where
  "metadata_value m = u64_le (md_segment_id m) @ write_uvarint (md_bytes_offset m)
     @ write_uvarint (md_bytes_length m) @ md_checksum m"

definition encode_optional_metadata_column ::
  "frame_desc list \<Rightarrow> (frame_desc \<Rightarrow> metadata_ref option) \<Rightarrow> bytes result" where
  "encode_optional_metadata_column = encode_optional_column metadata_value"

definition encode_optional_u64_column ::
  "frame_desc list \<Rightarrow> (frame_desc \<Rightarrow> u64 option) \<Rightarrow> bytes result" where
  "encode_optional_u64_column = encode_optional_column write_uvarint"

definition encode_optional_u32_column ::
  "frame_desc list \<Rightarrow> (frame_desc \<Rightarrow> u32 option) \<Rightarrow> bytes result" where
  "encode_optional_u32_column = encode_optional_column (\<lambda>v. write_uvarint (ucast v))"

text \<open>
  The decoding loop over the rows: read a value, then store it at its row. A row beyond the
  table is \<open>e\<close>: an error where the code tests the row first, a panic where it indexes.
\<close>
fun read_sparse :: "'b parser \<Rightarrow> error \<Rightarrow> u32 list \<Rightarrow> 'b option list \<Rightarrow> 'b option list parser" where
  "read_sparse p e [] out = preturn out"
| "read_sparse p e (idx # presence) out =
     pbind p (\<lambda>v.
     pbind (pensure (unat idx < length out) e) (\<lambda>_.
       read_sparse p e presence (out[unat idx := Some v])))"

definition decode_optional_column :: "'b parser \<Rightarrow> error \<Rightarrow> nat \<Rightarrow> 'b option list parser" where
  "decode_optional_column p e count =
     pbind read_blob (\<lambda>presence_blob.
     pbind (plift (decode_presence presence_blob)) (\<lambda>presence.
     pbind read_blob (\<lambda>values_blob.
       plift (run_parser (pbind (read_sparse p e presence (replicate count None))
                (\<lambda>out. pbind peof (\<lambda>_. preturn out))) values_blob))))"

definition read_metadata_value :: "metadata_ref parser" where
  "read_metadata_value =
     pbind read_u64 (\<lambda>sid. pbind read_uvarint (\<lambda>bytes_offset. pbind read_uvarint (\<lambda>bytes_length.
     pbind (read_array 32) (\<lambda>checksum.
       preturn \<lparr>md_segment_id = sid, md_bytes_offset = bytes_offset,
                md_bytes_length = bytes_length, md_checksum = checksum\<rparr>))))"

definition decode_optional_metadata_column :: "nat \<Rightarrow> metadata_ref option list parser" where
  "decode_optional_metadata_column =
     decode_optional_column read_metadata_value
       (Format ''FrameCatalog metadata presence index out of bounds'')"

definition decode_optional_u64_column :: "nat \<Rightarrow> u64 option list parser" where
  "decode_optional_u64_column =
     decode_optional_column read_uvarint (Panic ''index out of bounds'')"

definition decode_optional_u32_column :: "nat \<Rightarrow> u32 option list parser" where
  "decode_optional_u32_column =
     decode_optional_column
       (pbind read_uvarint (\<lambda>v. plift (ok_or (u32_try_from (unat v))
                                       (Format ''FrameCatalog optional u32 overflow''))))
       (Panic ''index out of bounds'')"

subsection \<open>The payload reference column\<close>

text \<open>\<open>i64::try_from\<close> of an \<open>i128\<close>.\<close>
definition i128_to_i64 :: "int \<Rightarrow> i64 result" where
  "i128_to_i64 v = (if in_i64 v then Inr (word_of_int v) else Inl (Format ''FrameCatalog delta out of i64 range''))"

text \<open>The values after the first, as differences to the previous reference.\<close>
fun payload_ref_deltas :: "payload_ref \<Rightarrow> payload_ref list \<Rightarrow> bytes result" where
  "payload_ref_deltas prev [] = Inr []"
| "payload_ref_deltas prev (pref # prefs) =
     rbind (i128_to_i64 (uint (pr_segment_id pref) - uint (pr_segment_id prev))) (\<lambda>seg_delta.
     rbind (i128_to_i64 (uint (pr_bytes_offset pref) - uint (pr_bytes_offset prev))) (\<lambda>off_delta.
     rbind (payload_ref_deltas pref prefs) (\<lambda>bs.
       Inr (write_ivarint seg_delta @ write_ivarint off_delta @ write_uvarint (pr_bytes_length pref)
            @ bs))))"

definition encode_payload_refs :: "payload_ref list \<Rightarrow> bytes result" where
  "encode_payload_refs prefs =
     (case prefs of
        [] \<Rightarrow> Inr []
      | pref # rest \<Rightarrow> rbind (payload_ref_deltas pref rest) (\<lambda>bs.
          Inr (u64_le (pr_segment_id pref) @ write_uvarint (pr_bytes_offset pref)
               @ write_uvarint (pr_bytes_length pref) @ bs)))"

definition encode_payload_ref_column :: "frame_desc list \<Rightarrow> bytes result" where
  "encode_payload_ref_column frames =
     rbind (presence_rows fd_payload_ref 0 frames) (\<lambda>presence.
     rbind (encode_presence presence) (\<lambda>presence_bytes.
     rbind (write_blob presence_bytes) (\<lambda>presence_blob.
     rbind (encode_payload_refs (map (\<lambda>idx. the (fd_payload_ref (frames ! unat idx))) presence))
       (\<lambda>values.
     rbind (write_blob values) (\<lambda>values_blob. Inr (presence_blob @ values_blob))))))"

text \<open>\<open>prev\<close> is \<open>None\<close> at the first row; \<open>(prev + delta as i128) as u64\<close> keeps the low 64 bits.\<close>
definition read_payload_ref_value :: "payload_ref option \<Rightarrow> payload_ref parser" where
  "read_payload_ref_value prev =
     (case prev of
        None \<Rightarrow>
          pbind read_u64 (\<lambda>seg_id. pbind read_uvarint (\<lambda>bytes_offset. pbind read_uvarint (\<lambda>bytes_length.
            preturn \<lparr>pr_segment_id = seg_id, pr_bytes_offset = bytes_offset,
                     pr_bytes_length = bytes_length\<rparr>)))
      | Some q \<Rightarrow>
          pbind read_ivarint (\<lambda>seg_delta. pbind read_ivarint (\<lambda>off_delta. pbind read_uvarint (\<lambda>bytes_length.
            preturn \<lparr>pr_segment_id = word_of_int (uint (pr_segment_id q) + sint seg_delta),
                     pr_bytes_offset = word_of_int (uint (pr_bytes_offset q) + sint off_delta),
                     pr_bytes_length = bytes_length\<rparr>))))"

fun read_payload_refs ::
  "payload_ref option \<Rightarrow> u32 list \<Rightarrow> payload_ref option list \<Rightarrow> payload_ref option list parser" where
  "read_payload_refs prev [] out = preturn out"
| "read_payload_refs prev (idx # presence) out =
     pbind (read_payload_ref_value prev) (\<lambda>pref.
     pbind (pensure (unat idx < length out)
              (Format ''FrameCatalog payload_ref presence index out of bounds'')) (\<lambda>_.
       read_payload_refs (Some pref) presence (out[unat idx := Some pref])))"

text \<open>No end check on the values of this column.\<close>
definition decode_payload_ref_column :: "nat \<Rightarrow> payload_ref option list parser" where
  "decode_payload_ref_column count =
     pbind read_blob (\<lambda>presence_blob.
     pbind (plift (decode_presence presence_blob)) (\<lambda>presence.
     pbind read_blob (\<lambda>values_blob.
       plift (run_parser (read_payload_refs None presence (replicate count None)) values_blob))))"

subsection \<open>Encode\<close>

definition encode_frame_id_column :: "frame_desc list \<Rightarrow> bytes result" where
  "encode_frame_id_column frames =
     (let first = fd_frame_id (frames ! 0) in
      rbind (write_id_deltas
               (Format ''FrameCatalog frame_ids must be monotone ascending in v2 columnar layout'')
               first (map fd_frame_id (drop 1 frames)))
        (\<lambda>bs. write_blob (u64_le first @ bs)))"

definition encode_created_column :: "frame_desc list \<Rightarrow> bytes result" where
  "encode_created_column frames =
     (let first_created = fd_created_at (frames ! 0) in
      rbind (write_dods (Format ''FrameCatalog created_at delta overflow'')
               (Format ''FrameCatalog created_at delta-of-delta overflow'')
               first_created 0 (map fd_created_at (drop 1 frames)))
        (\<lambda>bs. write_blob (u64_le first_created @ bs)))"

definition encode_updated_column :: "frame_desc list \<Rightarrow> bytes result" where
  "encode_updated_column frames =
     rbind (write_offsets (Format ''FrameCatalog updated_at offset overflow'')
              (map (\<lambda>f. (fd_created_at f, fd_updated_at f)) frames)) write_blob"

definition rle_u8_blob :: "u8 list \<Rightarrow> bytes result" where
  "rle_u8_blob values = rbind (encode_rle_u8 values) write_blob"

definition rle_u32_blob :: "u32 list \<Rightarrow> bytes result" where
  "rle_u32_blob values = rbind (encode_rle_u32 values) write_blob"

definition encode_frame_catalog :: "frame_catalog_delta \<Rightarrow> bytes result" where
  "encode_frame_catalog delta =
     (let frames = fc_frames delta in
      rbind (ok_or (u32_try_from (length frames)) (Format ''FrameCatalog frame count overflow''))
        (\<lambda>frame_count.
      let buf = FRAME_CATALOG_MAGIC @ u16_le FRAME_CATALOG_VERSION @ u32_le frame_count
                @ write_previous_root (fc_previous_root delta) in
      if frames = [] then Inr buf
      else
        rbind (encode_frame_id_column frames) (\<lambda>ids.
        rbind (rle_u32_blob (map fd_collection_id frames)) (\<lambda>colls.
        rbind (rle_u8_blob (map (\<lambda>f. role_disc (fd_role f)) frames)) (\<lambda>roles.
        rbind (rle_u8_blob (map (\<lambda>f. status_disc (fd_status f)) frames))
          (\<lambda>statuses.
        rbind (rle_u8_blob (map (\<lambda>f. payload_encoding_disc (fd_payload_encoding f)) frames))
          (\<lambda>encodings.
        rbind (encode_created_column frames) (\<lambda>created.
        rbind (encode_updated_column frames) (\<lambda>updated.
        rbind (encode_payload_ref_column frames) (\<lambda>payloads.
        rbind (encode_optional_metadata_column frames fd_uri_ref) (\<lambda>uris.
        rbind (encode_optional_metadata_column frames fd_title_ref) (\<lambda>titles.
        rbind (encode_optional_metadata_column frames fd_search_text_ref) (\<lambda>texts.
        rbind (encode_optional_metadata_column frames fd_metadata_ref) (\<lambda>metas.
        rbind (encode_optional_u64_column frames fd_parent_frame_id) (\<lambda>parents.
        rbind (encode_optional_u32_column frames fd_chunk_index) (\<lambda>indices.
        rbind (encode_optional_u32_column frames fd_chunk_count) (\<lambda>counts.
          Inr (buf @ ids @ colls @ roles @ statuses @ encodings @ created @ updated @ payloads
               @ uris @ titles @ texts @ metas @ parents @ indices @ counts))))))))))))))))))"

subsection \<open>Decode\<close>

text \<open>A column whose bytes are a blob; \<open>frame_id\<close>, \<open>created_at\<close> and \<open>updated_at\<close> have no end check.\<close>
definition blob_column :: "(bytes \<Rightarrow> 'a result) \<Rightarrow> 'a parser" where
  "blob_column dec = pbind read_blob (\<lambda>blob. plift (dec blob))"

definition decode_frame_id_column :: "nat \<Rightarrow> bytes \<Rightarrow> u64 list result" where
  "decode_frame_id_column count =
     run_parser
       (pbind read_u64 (\<lambda>first_frame.
        pbind (read_id_deltas (Format ''FrameCatalog frame_id delta overflow'') (count - 1) first_frame)
          (\<lambda>ids. preturn (first_frame # ids))))"

definition decode_catalog_created :: "nat \<Rightarrow> bytes \<Rightarrow> i64 list result" where
  "decode_catalog_created count =
     run_parser
       (pbind read_i64 (\<lambda>first_created.
        pbind (read_dods (Format ''FrameCatalog created delta overflow'')
                 (Format ''FrameCatalog created value overflow'') (count - 1) first_created 0)
          (\<lambda>cs. preturn (first_created # cs))))"

definition decode_catalog_updated :: "i64 list \<Rightarrow> bytes \<Rightarrow> i64 list result" where
  "decode_catalog_updated created =
     run_parser (read_offsets (Format ''FrameCatalog updated_at overflow'') created)"

definition frame_catalog_header :: "(u32 \<times> segment_ref option) parser" where
  "frame_catalog_header =
     pbind (read_array 4) (\<lambda>magic.
     pbind (pensure (magic = FRAME_CATALOG_MAGIC) (Format ''FrameCatalog magic mismatch'')) (\<lambda>_.
     pbind read_u16 (\<lambda>version.
     pbind (pensure (version = FRAME_CATALOG_VERSION) (Format ''FrameCatalog version mismatch'')) (\<lambda>_.
     pbind read_u32 (\<lambda>count.
     pbind read_previous_root (\<lambda>previous_root. preturn (count, previous_root)))))))"

definition frame_columns :: "nat \<Rightarrow> frame_desc list parser" where
  "frame_columns count =
     pbind (blob_column (decode_frame_id_column count)) (\<lambda>frame_ids.
     pbind (blob_column (\<lambda>b. decode_rle_u32 b count)) (\<lambda>collection_ids.
     pbind (blob_column (\<lambda>b. rbind (decode_rle_u8 b count) (map_result role_from_disc))) (\<lambda>roles.
     pbind (blob_column (\<lambda>b. rbind (decode_rle_u8 b count) (map_result status_from_disc))) (\<lambda>statuses.
     pbind (blob_column (\<lambda>b. rbind (decode_rle_u8 b count) (map_result payload_encoding_from_disc)))
       (\<lambda>encodings.
     pbind (blob_column (decode_catalog_created count)) (\<lambda>created.
     pbind (blob_column (decode_catalog_updated created)) (\<lambda>updated.
     pbind (decode_payload_ref_column count) (\<lambda>payload_refs.
     pbind (decode_optional_metadata_column count) (\<lambda>uri_refs.
     pbind (decode_optional_metadata_column count) (\<lambda>title_refs.
     pbind (decode_optional_metadata_column count) (\<lambda>search_text_refs.
     pbind (decode_optional_metadata_column count) (\<lambda>metadata_refs.
     pbind (decode_optional_u64_column count) (\<lambda>parent_frame_ids.
     pbind (decode_optional_u32_column count) (\<lambda>chunk_indices.
     pbind (decode_optional_u32_column count) (\<lambda>chunk_counts.
     preturn (map (\<lambda>i.
       \<lparr>fd_frame_id = frame_ids ! i, fd_collection_id = collection_ids ! i, fd_role = roles ! i,
        fd_created_at = created ! i, fd_updated_at = updated ! i, fd_uri_ref = uri_refs ! i,
        fd_title_ref = title_refs ! i, fd_payload_ref = payload_refs ! i,
        fd_payload_encoding = encodings ! i, fd_search_text_ref = search_text_refs ! i,
        fd_parent_frame_id = parent_frame_ids ! i, fd_chunk_index = chunk_indices ! i,
        fd_chunk_count = chunk_counts ! i, fd_metadata_ref = metadata_refs ! i,
        fd_status = statuses ! i\<rparr>) [0..<count]))))))))))))))))"

definition frame_catalog_parser :: "frame_catalog_delta parser" where
  "frame_catalog_parser =
     pbind frame_catalog_header (\<lambda>(count, previous_root).
       if count = 0 then preturn \<lparr>fc_previous_root = previous_root, fc_frames = []\<rparr>
       else pbind (frame_columns (unat count)) (\<lambda>frames.
         preturn \<lparr>fc_previous_root = previous_root, fc_frames = frames\<rparr>))"

definition decode_frame_catalog :: "bytes \<Rightarrow> frame_catalog_delta result" where
  "decode_frame_catalog = run_parser frame_catalog_parser"

definition decode_frame_catalog_previous_root :: "bytes \<Rightarrow> segment_ref option result" where
  "decode_frame_catalog_previous_root =
     run_parser (pbind frame_catalog_header (\<lambda>(count, previous_root). preturn previous_root))"

section \<open>Round trip\<close>

subsection \<open>Small columns\<close>

lemma role_from_disc [simp]: "role_from_disc (role_disc r) = Inr r"
  by (cases r) (simp_all add: role_from_disc_def)

lemma status_from_disc [simp]: "status_from_disc (status_disc r) = Inr r"
  by (cases r) (simp_all add: status_from_disc_def)

lemma payload_encoding_from_disc [simp]: "payload_encoding_from_disc (payload_encoding_disc r) = Inr r"
  by (cases r) (simp_all add: payload_encoding_from_disc_def)

lemma map_result_undo: "(\<And>x. g (f x) = Inr x) \<Longrightarrow> map_result g (map (\<lambda>y. f (k y)) xs) = Inr (map k xs)"
  by (induction xs) simp_all

lemma parses_previous_root:
  assumes "ref_wf r"
  shows "parses read_previous_root (write_previous_root r) r"
proof (cases r)
  case None
  have eq: "write_previous_root r = [0] @ [0]" by (simp add: write_previous_root_def None)
  show ?thesis
    unfolding eq read_previous_root_def
    by (rule parses_bind [OF parses_u8], rule parses_bind_end [OF parses_u8])
      (simp add: parses_return None)
next
  case (Some s)
  then have l: "length (sr_checksum s) = 32" using assms by (simp add: ref_wf_def)
  have eq: "write_previous_root r = [1] @ [0] @
      u64_le (sr_segment_id s) @ u64_le (sr_offset s) @ u64_le (sr_length s) @ sr_checksum s"
    by (simp add: write_previous_root_def Some)
  show ?thesis
    unfolding eq read_previous_root_def
    by (rule parses_bind [OF parses_u8], rule parses_bind [OF parses_u8], simp,
        rule parses_bind [OF parses_u64], rule parses_bind [OF parses_u64],
        rule parses_bind [OF parses_u64],
        rule parses_bind_return [OF parses_read_array [OF l]])
      (simp add: Some)
qed

interpretation previous_root_codec: wire_codec write_previous_root read_previous_root ref_wf
  by unfold_locales (rule parses_previous_root)

text \<open>A finished reader in front of the whole of its input.\<close>
lemma run_parser_exact: "parses p xs v \<Longrightarrow> run_parser p xs = Inr v"
  using run_parser_parses [where rest = "[]"] by simp

lemma parses_blob_column:
  assumes "write_blob bs = Inr out" and "dec bs = Inr v"
  shows "parses (blob_column dec) out v"
  unfolding blob_column_def
  by (rule parses_bind_end [OF parses_blob [OF assms(1)]], rule parses_lift, rule assms(2))

subsection \<open>Run lengths and presence lists\<close>

lemma parses_rle_runs:
  assumes p: "\<And>x. parses p (enc x) x"
  shows "parses (read_rle_runs p (length runs) tot acc)
     (concat (map (\<lambda>(v, len). enc v @ write_uvarint (ucast (len :: u32))) runs))
     (tot + of_nat (length (rle_expand runs)), acc @ rle_expand runs)"
proof (induction runs arbitrary: tot acc)
  case Nil
  then show ?case by (simp add: parses_return rle_expand_def)
next
  case (Cons r runs)
  obtain v n where r: "r = (v, n)" by (cases r)
  have n: "unat (ucast n :: u64) = unat n" by (simp add: unat_ucast_up_simp)
  have "tot + ucast n + of_nat (length (rle_expand runs)) =
      tot + of_nat (length (rle_expand (r # runs)))"
    by (simp add: rle_expand_def r add.assoc)
  moreover have "(acc @ replicate (unat n) v) @ rle_expand runs = acc @ rle_expand (r # runs)"
    by (simp add: rle_expand_def r)
  ultimately have IH: "parses (read_rle_runs p (length runs) (tot + ucast n) (acc @ replicate (unat n) v))
      (concat (map (\<lambda>(v, len). enc v @ write_uvarint (ucast len)) runs))
      (tot + of_nat (length (rle_expand (r # runs))), acc @ rle_expand (r # runs))"
    using Cons.IH [of "tot + ucast n" "acc @ replicate (unat n) v"] by metis
  have eq: "concat (map (\<lambda>(v, len). enc v @ write_uvarint (ucast len)) (r # runs)) =
      enc v @ write_uvarint (ucast n) @
      concat (map (\<lambda>(v, len). enc v @ write_uvarint (ucast len)) runs)"
    by (simp add: r)
  show ?case
    unfolding eq read_rle_runs.simps list.size add_Suc_right add_0_right
    by (rule parses_bind [OF p], rule parses_bind [OF parses_uvarint]) (simp add: n IH)
qed

lemma decode_encode_rle:
  assumes p: "\<And>x. parses p (enc x) x" and w: "encode_rle enc e vs = Inr bs"
  shows "decode_rle p bs (length vs) = Inr vs"
proof -
  obtain runs where runs: "(case vs of [] \<Rightarrow> Inr [] | v # vs \<Rightarrow> rle_runs e v 1 vs) = Inr runs"
    and n: "length runs < 2 ^ 32"
    and bs: "bs = u32_le (of_nat (length runs)) @
      concat (map (\<lambda>(v, len). enc v @ write_uvarint (ucast len)) runs)"
    using w by (auto simp: encode_rle_def rbind_Inr_iff u32_try_from_Some_iff)
  have ex: "rle_expand runs = vs"
    using runs by (cases vs) (auto simp: rle_expand_def [of "[]"] dest: rle_runs_expand)
  have u: "unat (of_nat (length runs) :: u32) = length runs" using n by (simp add: unat_of_nat_eq)
  show ?thesis
    unfolding decode_rle_def bs
  proof (rule run_parser_all, rule parses_all_bind [OF parses_u32], unfold u)
    have "parses (read_rle_runs p (length runs) 0 [])
        (concat (map (\<lambda>(v, len). enc v @ write_uvarint (ucast len)) runs)) (of_nat (length vs), vs)"
      using parses_rle_runs [where enc = enc and runs = runs and tot = 0 and acc = "[]", OF p] by (simp add: ex)
    moreover have "parses_all (case (of_nat (length vs), vs) of (tot, out) \<Rightarrow>
        pbind (pensure (tot = of_nat (length vs)) (Format ''FrameCatalog RLE does not cover count''))
          (\<lambda>_. pbind peof (\<lambda>_. preturn out))) [] vs"
      by (simp add: parses_all_eof parses_all_return)
    ultimately have "parses_all (pbind (read_rle_runs p (length runs) 0 []) (\<lambda>(tot, out).
        pbind (pensure (tot = of_nat (length vs)) (Format ''FrameCatalog RLE does not cover count''))
          (\<lambda>_. pbind peof (\<lambda>_. preturn out))))
        (concat (map (\<lambda>(v, len). enc v @ write_uvarint (ucast len)) runs) @ []) vs"
      by (rule parses_all_bind)
    then show "parses_all (pbind (read_rle_runs p (length runs) 0 []) (\<lambda>(tot, out).
        pbind (pensure (tot = of_nat (length vs)) (Format ''FrameCatalog RLE does not cover count''))
          (\<lambda>_. pbind peof (\<lambda>_. preturn out))))
        (concat (map (\<lambda>(v, len). enc v @ write_uvarint (ucast len)) runs)) vs"
      by simp
  qed
qed

lemma parses_presence_delta: "parses read_presence_delta (write_uvarint (ucast d)) d"
  unfolding read_presence_delta_def
  by (rule parses_bind_end [OF parses_uvarint]) (simp add: parses_lift)

lemma parses_presence_rows:
  "presence_deltas prev ids = Inr bs \<Longrightarrow> parses (read_presence_rows (length ids) prev) bs ids"
proof (induction ids arbitrary: prev bs)
  case Nil
  then show ?case by (simp add: parses_return)
next
  case (Cons idx ids)
  then obtain bs' where le: "prev \<le> idx" and w: "presence_deltas idx ids = Inr bs'"
    and bs: "bs = write_uvarint (ucast (idx - prev)) @ bs'"
    by (auto simp: rbind_Inr_iff split: if_splits)
  show ?case
    unfolding bs read_presence_rows.simps list.size add_Suc_right add_0_right
    by (rule parses_bind [OF parses_presence_delta])
      (simp add: le, rule parses_bind_return [OF Cons.IH [OF w]], rule refl)
qed

lemma decode_encode_presence:
  assumes "encode_presence ids = Inr bs" shows "decode_presence bs = Inr ids"
proof -
  obtain body where n: "length ids < 2 ^ 32" and bs: "bs = u32_le (of_nat (length ids)) @ body"
    and body: "(case ids of [] \<Rightarrow> Inr []
       | idx # rest \<Rightarrow> rbind (presence_deltas idx rest) (\<lambda>bs. Inr (write_uvarint (ucast idx) @ bs))) = Inr body"
    using assms by (auto simp: encode_presence_def rbind_Inr_iff u32_try_from_Some_iff)
  have u: "unat (of_nat (length ids) :: u32) = length ids" using n by (simp add: unat_of_nat_eq)
  have "parses (case length ids of 0 \<Rightarrow> preturn []
      | Suc n \<Rightarrow> pbind read_presence_delta (\<lambda>idx. pbind (read_presence_rows n idx) (\<lambda>rest. preturn (idx # rest))))
      body ids"
  proof (cases ids)
    case Nil
    with body show ?thesis by (simp add: parses_return)
  next
    case (Cons idx rest)
    with body obtain bs' where w: "presence_deltas idx rest = Inr bs'"
      and b: "body = write_uvarint (ucast idx) @ bs'"
      by (auto simp: rbind_Inr_iff)
    show ?thesis
      unfolding b Cons
      by (simp, rule parses_bind [OF parses_presence_delta],
          rule parses_bind_return [OF parses_presence_rows [OF w]], rule refl)
  qed
  from parses_all_end [OF this]
  show ?thesis
    unfolding decode_presence_def bs
    by (intro run_parser_all parses_all_bind [OF parses_u32]) (simp add: u)
qed

subsection \<open>Sparse columns\<close>

text \<open>
  The rows of a suffix of the table, read into the rows after its prefix: the values are
  written for the frames that have one and land where they came from.
\<close>
lemma parses_sparse:
  assumes p: "\<And>f v. f \<in> set fs \<Longrightarrow> get f = Some v \<Longrightarrow> parses p (enc v) v"
  shows "presence_rows get (length pre) fs = Inr rows \<Longrightarrow>
    parses (read_sparse p e rows (map get pre @ replicate (length fs) None))
      (concat (map (\<lambda>idx. enc (the (get ((pre @ fs) ! unat idx)))) rows)) (map get (pre @ fs))"
  using p
proof (induction fs arbitrary: pre rows)
  case Nil
  then show ?case by (simp add: parses_return)
next
  case (Cons f fs)
  show ?case
  proof (cases "get f")
    case None
    have "parses (read_sparse p e rows (map get (pre @ [f]) @ replicate (length fs) None))
      (concat (map (\<lambda>idx. enc (the (get (((pre @ [f]) @ fs) ! unat idx)))) rows)) (map get ((pre @ [f]) @ fs))"
      by (rule Cons.IH) (use Cons.prems None in auto)
    then show ?thesis by (simp add: None)
  next
    case (Some v)
    then obtain idx rest where idx: "u32_try_from (length pre) = Some idx"
      and rest: "presence_rows get (length (pre @ [f])) fs = Inr rest" and rows: "rows = idx # rest"
      using Cons.prems by (auto simp: rbind_Inr_iff)
    have u: "unat idx = length pre" using idx by (rule u32_try_from_unat)
    have "parses (read_sparse p e rest (map get (pre @ [f]) @ replicate (length fs) None))
      (concat (map (\<lambda>idx. enc (the (get (((pre @ [f]) @ fs) ! unat idx)))) rest)) (map get ((pre @ [f]) @ fs))"
      by (rule Cons.IH [OF rest]) (use Cons.prems in auto)
    then have "parses (read_sparse p e rest (map get (pre @ [f]) @ replicate (length fs) None))
      (concat (map (\<lambda>idx. enc (the (get ((pre @ f # fs) ! unat idx)))) rest)) (map get (pre @ f # fs))"
      by simp
    moreover have "parses p (enc v) v" using Cons.prems(2) [of f v] Some by simp
    ultimately show ?thesis
      unfolding rows read_sparse.simps list.map concat.simps u
      by (intro parses_bind) (simp_all add: Some list_update_append)
  qed
qed

lemma encode_optional_column_Inr:
  assumes "encode_optional_column enc frames get = Inr bs"
  obtains presence pb b1 b2 where "presence_rows get 0 frames = Inr presence"
    and "encode_presence presence = Inr pb" and "write_blob pb = Inr b1"
    and "write_blob (concat (map (\<lambda>idx. enc (the (get (frames ! unat idx)))) presence)) = Inr b2"
    and "bs = b1 @ b2"
  using assms by (auto simp: encode_optional_column_def rbind_Inr_iff)

lemma parses_optional_column:
  assumes w: "encode_optional_column enc frames get = Inr bs"
    and p: "\<And>f v. f \<in> set frames \<Longrightarrow> get f = Some v \<Longrightarrow> parses p (enc v) v"
  shows "parses (decode_optional_column p e (length frames)) bs (map get frames)"
proof -
  obtain presence pb b1 b2 where rows: "presence_rows get 0 frames = Inr presence"
    and pb: "encode_presence presence = Inr pb" and b1: "write_blob pb = Inr b1"
    and b2: "write_blob (concat (map (\<lambda>idx. enc (the (get (frames ! unat idx)))) presence)) = Inr b2"
    and bs: "bs = b1 @ b2"
    using w by (rule encode_optional_column_Inr)
  have "parses (read_sparse p e presence (replicate (length frames) None))
      (concat (map (\<lambda>idx. enc (the (get (frames ! unat idx)))) presence)) (map get frames)"
    using parses_sparse [where fs = frames and pre = "[]" and get = get and enc = enc, OF p] rows by simp
  then have "run_parser (pbind (read_sparse p e presence (replicate (length frames) None))
      (\<lambda>out. pbind peof (\<lambda>_. preturn out)))
      (concat (map (\<lambda>idx. enc (the (get (frames ! unat idx)))) presence)) = Inr (map get frames)"
    by (intro run_parser_all parses_all_end)
  then show ?thesis
    unfolding decode_optional_column_def bs
    by (intro parses_bind [OF parses_blob [OF b1]])
      (simp add: decode_encode_presence [OF pb],
       rule parses_bind_end [OF parses_blob [OF b2]], rule parses_lift)
qed

lemma parses_metadata_value:
  assumes "length (md_checksum m) = 32" shows "parses read_metadata_value (metadata_value m) m"
  unfolding read_metadata_value_def metadata_value_def
  by (rule parses_bind [OF parses_u64], rule parses_bind [OF parses_uvarint],
      rule parses_bind [OF parses_uvarint],
      rule parses_bind_return [OF parses_read_array [OF assms]]) simp

lemma parses_metadata_column:
  assumes "encode_optional_metadata_column frames get = Inr bs"
    and "\<And>f m. f \<in> set frames \<Longrightarrow> get f = Some m \<Longrightarrow> length (md_checksum m) = 32"
  shows "parses (decode_optional_metadata_column (length frames)) bs (map get frames)"
  using assms unfolding encode_optional_metadata_column_def decode_optional_metadata_column_def
  by (intro parses_optional_column [where enc = metadata_value] parses_metadata_value)

lemma parses_u64_column:
  assumes "encode_optional_u64_column frames get = Inr bs"
  shows "parses (decode_optional_u64_column (length frames)) bs (map get frames)"
  using assms unfolding encode_optional_u64_column_def decode_optional_u64_column_def
  by (intro parses_optional_column [where enc = write_uvarint] parses_uvarint)

lemma parses_u32_value:
  "parses (pbind read_uvarint (\<lambda>v. plift (ok_or (u32_try_from (unat v))
      (Format ''FrameCatalog optional u32 overflow'')))) (write_uvarint (ucast v)) (v :: u32)"
  by (rule parses_bind_end [OF parses_uvarint]) (simp add: parses_lift)

lemma parses_u32_column:
  assumes "encode_optional_u32_column frames get = Inr bs"
  shows "parses (decode_optional_u32_column (length frames)) bs (map get frames)"
  using assms unfolding encode_optional_u32_column_def decode_optional_u32_column_def
  by (intro parses_optional_column [where enc = "\<lambda>v. write_uvarint (ucast v)"] parses_u32_value)

subsection \<open>Payload references\<close>

lemma presence_rows_values:
  "presence_rows get (length pre) fs = Inr rows \<Longrightarrow>
   map (\<lambda>idx. the (get ((pre @ fs) ! unat idx))) rows = List.map_filter get fs"
proof (induction fs arbitrary: pre rows)
  case Nil
  then show ?case by (simp add: List.map_filter_def)
next
  case (Cons f fs)
  show ?case
  proof (cases "get f")
    case None
    with Cons.IH [of "pre @ [f]" rows] Cons.prems show ?thesis by (simp add: List.map_filter_def)
  next
    case (Some v)
    then obtain idx rest where idx: "u32_try_from (length pre) = Some idx"
      and rest: "presence_rows get (length (pre @ [f])) fs = Inr rest" and rows: "rows = idx # rest"
      using Cons.prems by (auto simp: rbind_Inr_iff)
    have "unat idx = length pre" using idx by (rule u32_try_from_unat)
    then show ?thesis using Cons.IH [OF rest] by (simp add: rows Some List.map_filter_def)
  qed
qed

text \<open>The writer as a loop with the reader's state.\<close>
definition payload_refs_from :: "payload_ref option \<Rightarrow> payload_ref list \<Rightarrow> bytes result" where
  "payload_refs_from prev prefs =
     (case prev of None \<Rightarrow> encode_payload_refs prefs | Some q \<Rightarrow> payload_ref_deltas q prefs)"

lemma payload_delta:
  fixes a b :: u64
  shows "word_of_int (uint a + sint (word_of_int (uint b - uint a) :: i64)) = b"
proof -
  have "(word_of_int (uint a + sint (word_of_int (uint b - uint a) :: i64)) :: u64) =
      word_of_int (uint a) + word_of_int (sint (word_of_int (uint b - uint a) :: i64))"
    by (simp only: of_int_add)
  also have "\<dots> = a + word_of_int (uint b - uint a)" by simp
  also have "\<dots> = b" by (simp only: of_int_diff word_of_int_uint) simp
  finally show ?thesis .
qed

lemma i128_to_i64_Inr: "i128_to_i64 v = Inr w \<Longrightarrow> w = word_of_int v"
  by (auto simp: i128_to_i64_def split: if_splits)

lemma payload_refs_step:
  assumes "payload_refs_from prev (v # vs) = Inr bs"
  obtains b1 b2 where "bs = b1 @ b2" and "parses (read_payload_ref_value prev) b1 v"
    and "payload_refs_from (Some v) vs = Inr b2"
proof (cases prev)
  case None
  with assms obtain b2 where b2: "payload_ref_deltas v vs = Inr b2"
    and bs: "bs = (u64_le (pr_segment_id v) @ write_uvarint (pr_bytes_offset v)
       @ write_uvarint (pr_bytes_length v)) @ b2"
    by (auto simp: payload_refs_from_def encode_payload_refs_def rbind_Inr_iff)
  have "parses (read_payload_ref_value None) (u64_le (pr_segment_id v) @ write_uvarint (pr_bytes_offset v)
      @ write_uvarint (pr_bytes_length v)) v"
    unfolding read_payload_ref_value_def option.case
    by (rule parses_bind [OF parses_u64], rule parses_bind [OF parses_uvarint],
        rule parses_bind_return [OF parses_uvarint]) simp
  with that [OF bs] b2 None show ?thesis by (simp add: payload_refs_from_def)
next
  case (Some q)
  with assms obtain d1 d2 b2 where
    d: "i128_to_i64 (uint (pr_segment_id v) - uint (pr_segment_id q)) = Inr d1"
      "i128_to_i64 (uint (pr_bytes_offset v) - uint (pr_bytes_offset q)) = Inr d2"
    and b2: "payload_ref_deltas v vs = Inr b2"
    and bs: "bs = (write_ivarint d1 @ write_ivarint d2 @ write_uvarint (pr_bytes_length v)) @ b2"
    by (auto simp: payload_refs_from_def rbind_Inr_iff)
  have "parses (read_payload_ref_value (Some q))
      (write_ivarint d1 @ write_ivarint d2 @ write_uvarint (pr_bytes_length v)) v"
    unfolding read_payload_ref_value_def option.case d [THEN i128_to_i64_Inr]
    by (rule parses_bind [OF parses_ivarint], rule parses_bind [OF parses_ivarint],
        rule parses_bind_return [OF parses_uvarint], simp only: payload_delta) simp
  with that [OF bs] b2 Some show ?thesis by (simp add: payload_refs_from_def)
qed

lemma parses_payload_refs:
  "presence_rows fd_payload_ref (length pre) fs = Inr rows \<Longrightarrow>
   payload_refs_from prev (List.map_filter fd_payload_ref fs) = Inr bs \<Longrightarrow>
   parses (read_payload_refs prev rows (map fd_payload_ref pre @ replicate (length fs) None))
     bs (map fd_payload_ref (pre @ fs))"
proof (induction fs arbitrary: pre rows prev bs)
  case Nil
  then have "bs = []"
    by (cases prev) (auto simp: payload_refs_from_def encode_payload_refs_def List.map_filter_def)
  with Nil show ?case by (simp add: parses_return)
next
  case (Cons f fs)
  show ?case
  proof (cases "fd_payload_ref f")
    case None
    with Cons.IH [of "pre @ [f]" rows prev bs] Cons.prems show ?thesis
      by (simp add: List.map_filter_def)
  next
    case (Some v)
    then obtain idx rest where idx: "u32_try_from (length pre) = Some idx"
      and rest: "presence_rows fd_payload_ref (length (pre @ [f])) fs = Inr rest" and rows: "rows = idx # rest"
      using Cons.prems by (auto simp: rbind_Inr_iff)
    have u: "unat idx = length pre" using idx by (rule u32_try_from_unat)
    have "payload_refs_from prev (v # List.map_filter fd_payload_ref fs) = Inr bs"
      using Cons.prems(2) by (simp add: Some List.map_filter_def)
    then obtain b1 b2 where bs: "bs = b1 @ b2" and v: "parses (read_payload_ref_value prev) b1 v"
      and b2: "payload_refs_from (Some v) (List.map_filter fd_payload_ref fs) = Inr b2"
      by (rule payload_refs_step)
    from Cons.IH [OF rest b2] show ?thesis
      unfolding rows read_payload_refs.simps u bs
      by (intro parses_bind [OF v]) (simp add: Some list_update_append)
  qed
qed

lemma parses_payload_ref_column:
  assumes "encode_payload_ref_column frames = Inr bs"
  shows "parses (decode_payload_ref_column (length frames)) bs (map fd_payload_ref frames)"
proof -
  obtain presence pb b1 vals b2 where rows: "presence_rows fd_payload_ref 0 frames = Inr presence"
    and pb: "encode_presence presence = Inr pb" and b1: "write_blob pb = Inr b1"
    and vals: "encode_payload_refs (map (\<lambda>idx. the (fd_payload_ref (frames ! unat idx))) presence) = Inr vals"
    and b2: "write_blob vals = Inr b2" and bs: "bs = b1 @ b2"
    using assms by (auto simp: encode_payload_ref_column_def rbind_Inr_iff)
  have "payload_refs_from None (List.map_filter fd_payload_ref frames) = Inr vals"
    using presence_rows_values [where pre = "[]" and get = fd_payload_ref and fs = frames and rows = presence]
      rows vals by (simp add: payload_refs_from_def)
  from parses_payload_refs [where pre = "[]", OF _ this] rows
  have "parses (read_payload_refs None presence (replicate (length frames) None)) vals
      (map fd_payload_ref frames)"
    by simp
  then show ?thesis
    unfolding decode_payload_ref_column_def bs
    by (intro parses_bind [OF parses_blob [OF b1]])
      (simp add: decode_encode_presence [OF pb],
       rule parses_bind_end [OF parses_blob [OF b2]], rule parses_lift, rule run_parser_exact)
qed

subsection \<open>The whole segment\<close>

definition frame_refs :: "frame_desc \<Rightarrow> metadata_ref option set" where
  "frame_refs f = {fd_uri_ref f, fd_title_ref f, fd_search_text_ref f, fd_metadata_ref f}"

text \<open>Checksums are \<open>[u8; 32]\<close>.\<close>
definition frame_wf :: "frame_desc \<Rightarrow> bool" where
  "frame_wf f \<longleftrightarrow> (\<forall>m. Some m \<in> frame_refs f \<longrightarrow> length (md_checksum m) = 32)"

definition frame_delta_wf :: "frame_catalog_delta \<Rightarrow> bool" where
  "frame_delta_wf d \<longleftrightarrow> ref_wf (fc_previous_root d) \<and> (\<forall>f\<in>set (fc_frames d). frame_wf f)"

lemma frame_id_column:
  assumes "encode_frame_id_column frames = Inr bs" and "frames \<noteq> []"
  shows "parses (blob_column (decode_frame_id_column (length frames))) bs (map fd_frame_id frames)"
proof -
  obtain f fs where fr: "frames = f # fs" using assms(2) by (cases frames) auto
  obtain ds where ds: "write_id_deltas (Format ''FrameCatalog frame_ids must be monotone ascending in v2 columnar layout'')
      (fd_frame_id f) (map fd_frame_id fs) = Inr ds"
    and bs: "write_blob (u64_le (fd_frame_id f) @ ds) = Inr bs"
    using assms(1) by (auto simp: encode_frame_id_column_def fr Let_def rbind_Inr_iff)
  have "parses (pbind read_u64 (\<lambda>first_frame.
        pbind (read_id_deltas (Format ''FrameCatalog frame_id delta overflow'') (length fs) first_frame)
          (\<lambda>ids. preturn (first_frame # ids)))) (u64_le (fd_frame_id f) @ ds) (map fd_frame_id frames)"
    using parses_id_deltas [OF ds]
    by (intro parses_bind [OF parses_u64] parses_bind_return [where v = "map fd_frame_id fs"])
      (simp_all add: fr)
  then show ?thesis
    by (intro parses_blob_column [OF bs])
      (simp add: decode_frame_id_column_def fr run_parser_exact)
qed

lemma catalog_created_column:
  assumes "encode_created_column frames = Inr bs" and "frames \<noteq> []"
  shows "parses (blob_column (decode_catalog_created (length frames))) bs (map fd_created_at frames)"
proof -
  obtain f fs where fr: "frames = f # fs" using assms(2) by (cases frames) auto
  obtain ds where ds: "write_dods (Format ''FrameCatalog created_at delta overflow'')
      (Format ''FrameCatalog created_at delta-of-delta overflow'')
      (fd_created_at f) 0 (map fd_created_at fs) = Inr ds"
    and bs: "write_blob (u64_le (fd_created_at f) @ ds) = Inr bs"
    using assms(1) by (auto simp: encode_created_column_def fr Let_def rbind_Inr_iff)
  have "parses (pbind read_i64 (\<lambda>first_created.
        pbind (read_dods (Format ''FrameCatalog created delta overflow'')
                 (Format ''FrameCatalog created value overflow'') (length fs) first_created 0)
          (\<lambda>cs. preturn (first_created # cs)))) (u64_le (fd_created_at f) @ ds) (map fd_created_at frames)"
    using parses_dods [OF ds]
    by (intro parses_bind [OF parses_i64] parses_bind_return [where v = "map fd_created_at fs"])
      (simp_all add: fr)
  then show ?thesis
    by (intro parses_blob_column [OF bs])
      (simp add: decode_catalog_created_def fr run_parser_exact)
qed

lemma catalog_updated_column:
  assumes "encode_updated_column frames = Inr bs"
  shows "parses (blob_column (decode_catalog_updated (map fd_created_at frames))) bs (map fd_updated_at frames)"
proof -
  obtain offs where w: "write_offsets (Format ''FrameCatalog updated_at offset overflow'')
      (map (\<lambda>f. (fd_created_at f, fd_updated_at f)) frames) = Inr offs" and bs: "write_blob offs = Inr bs"
    using assms by (auto simp: encode_updated_column_def rbind_Inr_iff)
  have "parses (read_offsets (Format ''FrameCatalog updated_at overflow'') (map fd_created_at frames))
      offs (map fd_updated_at frames)"
    using parses_offsets [OF w] by (simp add: comp_def)
  then show ?thesis
    by (intro parses_blob_column [OF bs]) (simp add: decode_catalog_updated_def run_parser_exact)
qed

lemma rle_u32_column:
  assumes "rle_u32_blob (map g frames) = Inr bs"
  shows "parses (blob_column (\<lambda>b. decode_rle_u32 b (length frames))) bs (map g frames)"
proof -
  obtain b where b: "encode_rle_u32 (map g frames) = Inr b" and bs: "write_blob b = Inr bs"
    using assms by (auto simp: rle_u32_blob_def rbind_Inr_iff)
  have "decode_rle_u32 b (length frames) = Inr (map g frames)"
    using decode_encode_rle [OF parses_u32 b [unfolded encode_rle_u32_def]] by (simp add: decode_rle_u32_def)
  then show ?thesis by (rule parses_blob_column [OF bs])
qed

lemma rle_u8_column:
  assumes "rle_u8_blob (map (\<lambda>f. disc (g f)) frames) = Inr bs"
    and undo: "\<And>x. from_disc (disc x) = Inr x"
  shows "parses (blob_column (\<lambda>b. rbind (decode_rle_u8 b (length frames)) (map_result from_disc))) bs (map g frames)"
proof -
  obtain b where b: "encode_rle_u8 (map (\<lambda>f. disc (g f)) frames) = Inr b" and bs: "write_blob b = Inr bs"
    using assms by (auto simp: rle_u8_blob_def rbind_Inr_iff)
  have "decode_rle_u8 b (length frames) = Inr (map (\<lambda>f. disc (g f)) frames)"
    using decode_encode_rle [OF parses_u8 b [unfolded encode_rle_u8_def]] by (simp add: decode_rle_u8_def)
  then have "rbind (decode_rle_u8 b (length frames)) (map_result from_disc) = Inr (map g frames)"
    using map_result_undo [where g = from_disc and f = disc and k = g, OF undo] by simp
  then show ?thesis by (rule parses_blob_column [OF bs])
qed

lemma frames_from_columns:
  "map (\<lambda>i. \<lparr>fd_frame_id = map fd_frame_id frames ! i, fd_collection_id = map fd_collection_id frames ! i,
     fd_role = map fd_role frames ! i, fd_created_at = map fd_created_at frames ! i,
     fd_updated_at = map fd_updated_at frames ! i, fd_uri_ref = map fd_uri_ref frames ! i,
     fd_title_ref = map fd_title_ref frames ! i, fd_payload_ref = map fd_payload_ref frames ! i,
     fd_payload_encoding = map fd_payload_encoding frames ! i,
     fd_search_text_ref = map fd_search_text_ref frames ! i,
     fd_parent_frame_id = map fd_parent_frame_id frames ! i, fd_chunk_index = map fd_chunk_index frames ! i,
     fd_chunk_count = map fd_chunk_count frames ! i, fd_metadata_ref = map fd_metadata_ref frames ! i,
     fd_status = map fd_status frames ! i\<rparr>) [0..<length frames] = frames"
  by (rule nth_equalityI) simp_all

text \<open>What the encoder wrote, column by column.\<close>
lemma encode_frame_catalog_columns:
  assumes "encode_frame_catalog d = Inr bs" and "fc_frames d = frames" and "frames \<noteq> []"
  obtains n c1 c2 c3 c4 c5 c6 c7 c8 c9 c10 c11 c12 c13 c14 c15 where "u32_try_from (length frames) = Some n"
    and "encode_frame_id_column frames = Inr c1"
    and "rle_u32_blob (map fd_collection_id frames) = Inr c2"
    and "rle_u8_blob (map (\<lambda>f. role_disc (fd_role f)) frames) = Inr c3"
    and "rle_u8_blob (map (\<lambda>f. status_disc (fd_status f)) frames) = Inr c4"
    and "rle_u8_blob (map (\<lambda>f. payload_encoding_disc (fd_payload_encoding f)) frames) = Inr c5"
    and "encode_created_column frames = Inr c6" and "encode_updated_column frames = Inr c7"
    and "encode_payload_ref_column frames = Inr c8"
    and "encode_optional_metadata_column frames fd_uri_ref = Inr c9"
    and "encode_optional_metadata_column frames fd_title_ref = Inr c10"
    and "encode_optional_metadata_column frames fd_search_text_ref = Inr c11"
    and "encode_optional_metadata_column frames fd_metadata_ref = Inr c12"
    and "encode_optional_u64_column frames fd_parent_frame_id = Inr c13"
    and "encode_optional_u32_column frames fd_chunk_index = Inr c14"
    and "encode_optional_u32_column frames fd_chunk_count = Inr c15"
    and "bs = (FRAME_CATALOG_MAGIC @ u16_le FRAME_CATALOG_VERSION @ u32_le n
           @ write_previous_root (fc_previous_root d)) @ c1 @ c2 @ c3 @ c4 @ c5 @ c6 @ c7 @ c8
           @ c9 @ c10 @ c11 @ c12 @ c13 @ c14 @ c15"
  using assms(1,3) unfolding encode_frame_catalog_def Let_def assms(2) if_not_P [OF assms(3)] rbind_Inr_iff
    ok_or_Inr_iff
  by (elim exE conjE) (rule that, assumption+, simp)

lemma parses_frame_columns:
  assumes ne: "frames \<noteq> []" and wf: "\<forall>f\<in>set frames. frame_wf f"
    and c: "encode_frame_id_column frames = Inr c1"
      "rle_u32_blob (map fd_collection_id frames) = Inr c2"
      "rle_u8_blob (map (\<lambda>f. role_disc (fd_role f)) frames) = Inr c3"
      "rle_u8_blob (map (\<lambda>f. status_disc (fd_status f)) frames) = Inr c4"
      "rle_u8_blob (map (\<lambda>f. payload_encoding_disc (fd_payload_encoding f)) frames) = Inr c5"
      "encode_created_column frames = Inr c6" "encode_updated_column frames = Inr c7"
      "encode_payload_ref_column frames = Inr c8"
      "encode_optional_metadata_column frames fd_uri_ref = Inr c9"
      "encode_optional_metadata_column frames fd_title_ref = Inr c10"
      "encode_optional_metadata_column frames fd_search_text_ref = Inr c11"
      "encode_optional_metadata_column frames fd_metadata_ref = Inr c12"
      "encode_optional_u64_column frames fd_parent_frame_id = Inr c13"
      "encode_optional_u32_column frames fd_chunk_index = Inr c14"
      "encode_optional_u32_column frames fd_chunk_count = Inr c15"
  shows "parses (frame_columns (length frames))
    (c1 @ c2 @ c3 @ c4 @ c5 @ c6 @ c7 @ c8 @ c9 @ c10 @ c11 @ c12 @ c13 @ c14 @ c15) frames"
proof -
  have m: "\<And>f m. f \<in> set frames \<Longrightarrow> fd_uri_ref f = Some m \<Longrightarrow> length (md_checksum m) = 32"
    "\<And>f m. f \<in> set frames \<Longrightarrow> fd_title_ref f = Some m \<Longrightarrow> length (md_checksum m) = 32"
    "\<And>f m. f \<in> set frames \<Longrightarrow> fd_search_text_ref f = Some m \<Longrightarrow> length (md_checksum m) = 32"
    "\<And>f m. f \<in> set frames \<Longrightarrow> fd_metadata_ref f = Some m \<Longrightarrow> length (md_checksum m) = 32"
    using wf by (fastforce simp: frame_wf_def frame_refs_def)+
  note [simp del] = upt_Suc map_eq_conv
  show ?thesis
    unfolding frame_columns_def
    by (rule parses_bind [OF frame_id_column [OF c(1) ne]], rule parses_bind [OF rle_u32_column [OF c(2)]],
        rule parses_bind [OF rle_u8_column [OF c(3) role_from_disc]],
        rule parses_bind [OF rle_u8_column [OF c(4) status_from_disc]],
        rule parses_bind [OF rle_u8_column [OF c(5) payload_encoding_from_disc]],
        rule parses_bind [OF catalog_created_column [OF c(6) ne]], rule parses_bind [OF catalog_updated_column [OF c(7)]],
        rule parses_bind [OF parses_payload_ref_column [OF c(8)]],
        rule parses_bind [OF parses_metadata_column [OF c(9) m(1)]], assumption, assumption,
        rule parses_bind [OF parses_metadata_column [OF c(10) m(2)]], assumption, assumption,
        rule parses_bind [OF parses_metadata_column [OF c(11) m(3)]], assumption, assumption,
        rule parses_bind [OF parses_metadata_column [OF c(12) m(4)]], assumption, assumption,
        rule parses_bind [OF parses_u64_column [OF c(13)]], rule parses_bind [OF parses_u32_column [OF c(14)]],
        rule parses_bind_return [OF parses_u32_column [OF c(15)]])
      (simp only: frames_from_columns)
qed

lemma parses_frame_catalog_header:
  assumes "ref_wf root"
  shows "parses frame_catalog_header
    (FRAME_CATALOG_MAGIC @ u16_le FRAME_CATALOG_VERSION @ u32_le n @ write_previous_root root) (n, root)"
proof -
  have l: "length FRAME_CATALOG_MAGIC = 4" by (simp add: FRAME_CATALOG_MAGIC_def)
  show ?thesis
    unfolding frame_catalog_header_def
    by (rule parses_bind [OF parses_read_array [OF l]], simp, rule parses_bind [OF parses_u16], simp,
        rule parses_bind [OF parses_u32], rule parses_bind_return [OF parses_previous_root [OF assms]], simp)
qed

lemma frame_catalog_decodes:
  assumes w: "encode_frame_catalog d = Inr bs" and wf: "frame_delta_wf d"
  shows "decode_frame_catalog (bs @ rest) = Inr d"
    and "decode_frame_catalog_previous_root (bs @ rest) = Inr (fc_previous_root d)"
proof -
  have root: "ref_wf (fc_previous_root d)" and fr: "\<forall>f\<in>set (fc_frames d). frame_wf f"
    using wf by (auto simp: frame_delta_wf_def)
  obtain n body where n: "u32_try_from (length (fc_frames d)) = Some n"
    and bs: "bs = (FRAME_CATALOG_MAGIC @ u16_le FRAME_CATALOG_VERSION @ u32_le n
           @ write_previous_root (fc_previous_root d)) @ body"
    and body: "if fc_frames d = [] then body = []
      else parses (frame_columns (length (fc_frames d))) body (fc_frames d)"
  proof (cases "fc_frames d = []")
    case True
    with w that show ?thesis by (auto simp: encode_frame_catalog_def Let_def rbind_Inr_iff)
  next
    case False
    show ?thesis
      by (rule encode_frame_catalog_columns [OF w refl False], rule that, assumption, assumption)
        (simp only: False if_False, rule parses_frame_columns [OF False fr], assumption+)
  qed
  note hdr = parses_frame_catalog_header [OF root, of n]
  have u: "unat n = length (fc_frames d)" using n by (rule u32_try_from_unat)
  then have z: "n = 0 \<longleftrightarrow> fc_frames d = []" by (metis length_0_conv unat_eq_zero)
  have "parses frame_catalog_parser bs d"
    unfolding frame_catalog_parser_def bs
  proof (rule parses_bind [OF hdr])
    show "parses (case (n, fc_previous_root d) of (count, previous_root) \<Rightarrow>
        if count = 0 then preturn \<lparr>fc_previous_root = previous_root, fc_frames = []\<rparr>
        else pbind (frame_columns (unat count)) (\<lambda>frames.
          preturn \<lparr>fc_previous_root = previous_root, fc_frames = frames\<rparr>)) body d"
    proof (cases "fc_frames d = []")
      case True
      with body show ?thesis by (cases d) (simp add: z parses_return)
    next
      case False
      then have "parses (frame_columns (unat n)) body (fc_frames d)" using body by (simp add: u)
      from parses_bind_return [OF this, of d "\<lambda>frames.
          \<lparr>fc_previous_root = fc_previous_root d, fc_frames = frames\<rparr>"] False
      show ?thesis by (simp add: z)
    qed
  qed
  then show "decode_frame_catalog (bs @ rest) = Inr d"
    unfolding decode_frame_catalog_def by (rule run_parser_parses)
  have "parses (pbind frame_catalog_header (\<lambda>(count, previous_root). preturn previous_root))
      (FRAME_CATALOG_MAGIC @ u16_le FRAME_CATALOG_VERSION @ u32_le n
           @ write_previous_root (fc_previous_root d)) (fc_previous_root d)"
    by (rule parses_bind_end [OF hdr]) (simp add: parses_return)
  from run_parser_parses [OF this, of "body @ rest"]
  show "decode_frame_catalog_previous_root (bs @ rest) = Inr (fc_previous_root d)"
    by (simp add: decode_frame_catalog_previous_root_def bs)
qed

section \<open>Whatever decodes\<close>

lemma read_array_length: "read_array n c = Inr (xs, c') \<Longrightarrow> length xs = n"
  by (auto simp: read_array_def slice_def split: if_splits)

lemma blob_column_Inr: "blob_column dec c = Inr (v, c') \<Longrightarrow> \<exists>b. dec b = Inr v"
  by (auto simp: blob_column_def pbind_Inr)

lemma read_id_deltas_sorted:
  "read_id_deltas e n prev c = Inr (ids, c') \<Longrightarrow> length ids = n \<and> sorted_wrt (\<le>) (prev # ids)"
proof (induction n arbitrary: prev c ids)
  case 0
  then show ?case by simp
next
  case (Suc n)
  then obtain delta cur ids' c1 where cur: "checked_add prev delta = Some cur"
    and r: "read_id_deltas e n cur c1 = Inr (ids', c')" and ids: "ids = cur # ids'"
    by (auto simp: pbind_Inr)
  have "prev \<le> cur" using checked_add_unat [OF cur] by (simp add: word_le_nat_alt)
  with Suc.IH [OF r] show ?case by (auto simp: ids)
qed

lemma frame_ids_sorted:
  "decode_frame_id_column n b = Inr ids \<Longrightarrow> 0 < n \<Longrightarrow> length ids = n \<and> sorted_wrt (\<le>) ids"
  by (auto simp: decode_frame_id_column_def run_parser_Inr pbind_Inr dest!: read_id_deltas_sorted)

lemma read_metadata_value_wf: "read_metadata_value c = Inr (m, c') \<Longrightarrow> length (md_checksum m) = 32"
  by (auto simp: read_metadata_value_def pbind_Inr dest: read_array_length)

lemma read_sparse_invariant:
  assumes "\<And>c v c'. p c = Inr (v, c') \<Longrightarrow> P v"
  shows "read_sparse p e rows out c = Inr (res, c') \<Longrightarrow> (\<forall>v. Some v \<in> set out \<longrightarrow> P v) \<Longrightarrow>
    length res = length out \<and> (\<forall>v. Some v \<in> set res \<longrightarrow> P v)"
proof (induction rows arbitrary: out c)
  case Nil
  then show ?case by auto
next
  case (Cons idx rows)
  then obtain v c1 where v: "p c = Inr (v, c1)"
    and r: "read_sparse p e rows (out[unat idx := Some v]) c1 = Inr (res, c')"
    by (auto simp: pbind_Inr)
  have "\<forall>w. Some w \<in> set (out[unat idx := Some v]) \<longrightarrow> P w"
    using Cons.prems(2) assms [OF v] set_update_subset_insert [of out "unat idx" "Some v"] by fastforce
  with Cons.IH [OF r] show ?case by simp
qed

lemma optional_column_length:
  assumes "\<And>c v c'. p c = Inr (v, c') \<Longrightarrow> P v"
    and "decode_optional_column p e n c = Inr (out, c')"
  shows "length out = n \<and> (\<forall>v. Some v \<in> set out \<longrightarrow> P v)"
proof -
  obtain rows c1 c2 where "read_sparse p e rows (replicate n None) c1 = Inr (out, c2)"
    using assms(2) by (auto simp: decode_optional_column_def pbind_Inr run_parser_Inr)
  from read_sparse_invariant [where P = P, OF assms(1) this] show ?thesis by simp
qed

lemma metadata_column_wf:
  "decode_optional_metadata_column n c = Inr (out, c') \<Longrightarrow>
   length out = n \<and> (\<forall>m. Some m \<in> set out \<longrightarrow> length (md_checksum m) = 32)"
  unfolding decode_optional_metadata_column_def
  by (rule optional_column_length [OF read_metadata_value_wf])

lemma read_previous_root_wf: "read_previous_root c = Inr (r, c') \<Longrightarrow> ref_wf r"
  by (auto simp: read_previous_root_def pbind_Inr ref_wf_def dest!: read_array_length split: if_splits)

lemma frame_columns_wf:
  assumes "frame_columns n c = Inr (frames, c')" and n: "0 < n"
  shows "length frames = n \<and> sorted_wrt (\<le>) (map fd_frame_id frames) \<and> (\<forall>f\<in>set frames. frame_wf f)"
proof -
  obtain ids c0 c1 uris c2 c3 titles c4 texts c5 metas c6 where
    ids: "blob_column (decode_frame_id_column n) c0 = Inr (ids, c1)"
    and u: "decode_optional_metadata_column n c2 = Inr (uris, c3)"
    and t: "decode_optional_metadata_column n c3 = Inr (titles, c4)"
    and x: "decode_optional_metadata_column n c4 = Inr (texts, c5)"
    and m: "decode_optional_metadata_column n c5 = Inr (metas, c6)"
    and len: "length frames = n"
    and ids': "\<And>i. i < n \<Longrightarrow> fd_frame_id (frames ! i) = ids ! i"
    and md: "\<And>i. i < n \<Longrightarrow> frame_refs (frames ! i) = {uris ! i, titles ! i, texts ! i, metas ! i}"
    using assms(1) unfolding frame_columns_def pbind_Inr preturn_Inr
    by (elim exE conjE) (rule that, assumption+, simp_all add: frame_refs_def)
  have li: "length ids = n" and s: "sorted_wrt (\<le>) ids"
    using blob_column_Inr [OF ids] frame_ids_sorted n by auto
  have "map fd_frame_id frames = ids"
    by (rule nth_equalityI) (simp_all add: li len ids')
  moreover have "frame_wf f" if f: "f \<in> set frames" for f
  proof -
    obtain i where i: "i < n" "f = frames ! i" using f len by (auto simp: in_set_conv_nth)
    have "uris ! i \<in> set uris" "titles ! i \<in> set titles" "texts ! i \<in> set texts" "metas ! i \<in> set metas"
      using i metadata_column_wf [OF u] metadata_column_wf [OF t] metadata_column_wf [OF x]
        metadata_column_wf [OF m] by auto
    then show ?thesis
      using metadata_column_wf [OF u] metadata_column_wf [OF t] metadata_column_wf [OF x]
        metadata_column_wf [OF m] by (auto simp: frame_wf_def i(2) md [OF i(1)])
  qed
  ultimately show ?thesis using len s by simp
qed

lemma frame_catalog_header_root: "frame_catalog_header c = Inr ((n, r), c') \<Longrightarrow> ref_wf r"
  by (auto simp: frame_catalog_header_def pbind_Inr dest: read_previous_root_wf)

lemma decode_frame_catalog_cases:
  assumes "decode_frame_catalog bs = Inr d"
  obtains n c c' where "frame_catalog_header (cursor_new bs) = Inr ((n, fc_previous_root d), c)"
    and "n = 0 \<Longrightarrow> fc_frames d = []"
    and "n \<noteq> 0 \<Longrightarrow> frame_columns (unat n) c = Inr (fc_frames d, c')"
proof -
  obtain c' where "frame_catalog_parser (cursor_new bs) = Inr (d, c')"
    using assms by (auto simp: decode_frame_catalog_def run_parser_Inr)
  then obtain n r c where h: "frame_catalog_header (cursor_new bs) = Inr ((n, r), c)"
    and k: "(if n = 0 then preturn \<lparr>fc_previous_root = r, fc_frames = []\<rparr>
       else pbind (frame_columns (unat n)) (\<lambda>frames.
         preturn \<lparr>fc_previous_root = r, fc_frames = frames\<rparr>)) c = Inr (d, c')"
    by (auto simp: frame_catalog_parser_def pbind_Inr)
  show ?thesis
  proof (cases "n = 0")
    case True
    then have "d = \<lparr>fc_previous_root = r, fc_frames = []\<rparr>" using k by auto
    with h True show ?thesis by (intro that [of n c c']) auto
  next
    case False
    then have "\<exists>fs. frame_columns (unat n) c = Inr (fs, c') \<and> d = \<lparr>fc_previous_root = r, fc_frames = fs\<rparr>"
      using k by (auto simp: pbind_Inr)
    with h False show ?thesis by (intro that [of n c c']) auto
  qed
qed

text \<open>The reader that follows the chain sees the root the full decoder sees.\<close>
lemma peek_previous_root:
  assumes "decode_frame_catalog bs = Inr d"
  shows "decode_frame_catalog_previous_root bs = Inr (fc_previous_root d)"
  using assms
proof (rule decode_frame_catalog_cases)
  fix n c c'
  assume "frame_catalog_header (cursor_new bs) = Inr ((n, fc_previous_root d), c)"
  then show ?thesis by (simp add: decode_frame_catalog_previous_root_def run_parser_def pbind_def preturn_def)
qed

section \<open>Damaged row lists\<close>

text \<open>\<open>rejects p xs e\<close>: in front of \<open>xs\<close>, whatever surrounds it, the reader stops with \<open>e\<close>.\<close>
definition rejects :: "'a parser \<Rightarrow> bytes \<Rightarrow> error \<Rightarrow> bool" where
  "rejects p xs e \<longleftrightarrow> (\<forall>pre rest. p \<lparr>cbytes = pre @ xs @ rest, cpos = length pre\<rparr> = Inl e)"

lemma rejects_bind: "rejects p xs e \<Longrightarrow> rejects (pbind p f) xs e"
  by (simp add: rejects_def pbind_def)

lemma parses_bind_rejects:
  assumes "parses p xs v" and "rejects (f v) ys e"
  shows "rejects (pbind p f) (xs @ ys) e"
proof -
  have "pbind p f \<lparr>cbytes = pre @ (xs @ ys) @ rest, cpos = length pre\<rparr> =
        f v \<lparr>cbytes = (pre @ xs) @ ys @ rest, cpos = length (pre @ xs)\<rparr>" for pre rest
    using assms(1)[unfolded parses_def, rule_format, of pre "ys @ rest"]
    by (simp add: pbind_def)
  then show ?thesis
    using assms(2)[unfolded rejects_def, rule_format, of "pre @ xs" rest for pre rest]
    by (simp add: rejects_def)
qed

lemma rejects_weaken: "rejects p xs e \<Longrightarrow> rejects p (xs @ ys) e"
  unfolding rejects_def
proof (intro allI)
  fix pre rest
  assume "\<forall>pre rest. p \<lparr>cbytes = pre @ xs @ rest, cpos = length pre\<rparr> = Inl e"
  from this [rule_format, of pre "ys @ rest"]
  show "p \<lparr>cbytes = pre @ (xs @ ys) @ rest, cpos = length pre\<rparr> = Inl e" by simp
qed

lemma run_parser_rejects: "rejects p xs e \<Longrightarrow> run_parser p (xs @ rest) = Inl e"
  unfolding rejects_def run_parser_def cursor_new_def
  by (drule spec [of _ "[]"]) simp

lemma rejects_lift: "r = Inl e \<Longrightarrow> rejects (plift r) [] e"
  by (simp add: rejects_def plift_def perr_def)

lemma sparse_rejects:
  assumes p: "\<And>v. v \<in> set vals \<Longrightarrow> parses p (enc v) v" and l: "length vals = length rows"
    and out: "\<exists>idx\<in>set rows. length out \<le> unat idx"
  shows "rejects (read_sparse p e rows out) (concat (map enc vals)) e"
  using assms
proof (induction rows arbitrary: vals out)
  case Nil
  then show ?case by simp
next
  case (Cons idx rows)
  then obtain v vs where vals: "vals = v # vs" by (cases vals) auto
  have v: "parses p (enc v) v" using Cons.prems(1) by (simp add: vals)
  show ?case
  proof (cases "unat idx < length out")
    case True
    have "rejects (read_sparse p e rows (out[unat idx := Some v])) (concat (map enc vs)) e"
      using Cons.prems True by (intro Cons.IH) (auto simp: vals)
    with v show ?thesis
      unfolding vals read_sparse.simps list.map concat.simps
      by (intro parses_bind_rejects) (simp_all add: True)
  next
    case False
    then have "rejects (pbind (pensure (unat idx < length out) e) f) bs e" for f bs
      by (simp add: rejects_def pbind_def pensure_def perr_def)
    with v show ?thesis
      unfolding vals read_sparse.simps list.map concat.simps by (intro parses_bind_rejects)
  qed
qed

lemma optional_column_rejects:
  assumes "encode_presence rows = Inr pb" and b1: "write_blob pb = Inr b1"
    and b2: "write_blob (concat (map enc vals)) = Inr b2"
    and "\<And>v. v \<in> set vals \<Longrightarrow> parses p (enc v) v" and "length vals = length rows"
    and "\<exists>idx\<in>set rows. count \<le> unat idx"
  shows "rejects (decode_optional_column p e count) (b1 @ b2) e"
proof -
  have "rejects (read_sparse p e rows (replicate count None)) (concat (map enc vals)) e"
    by (rule sparse_rejects) (use assms(4-6) in auto)
  from run_parser_rejects [OF rejects_bind [OF this], of "\<lambda>out. pbind peof (\<lambda>_. preturn out)" "[]"]
  have "rejects ((\<lambda>values_blob. plift (run_parser (pbind (read_sparse p e rows (replicate count None))
      (\<lambda>out. pbind peof (\<lambda>_. preturn out))) values_blob)) (concat (map enc vals))) [] e"
    by (intro rejects_lift) simp
  with parses_blob [OF b2] have "rejects (pbind read_blob (\<lambda>values_blob.
      plift (run_parser (pbind (read_sparse p e rows (replicate count None))
        (\<lambda>out. pbind peof (\<lambda>_. preturn out))) values_blob))) (b2 @ []) e"
    by (rule parses_bind_rejects)
  then show ?thesis
    unfolding decode_optional_column_def
    by (intro parses_bind_rejects [OF parses_blob [OF b1]]) (simp add: decode_encode_presence [OF assms(1)])
qed

section \<open>Properties\<close>

text \<open>
  C19: A batch of frame descriptors survives the columnar format: whatever
  \<open>encode_frame_catalog\<close> writes decodes, also with bytes after it, to the same frames in
  the same order with every optional field, and to the same previous root, which the
  reader that only follows the chain finds as well.
\<close>
theorem frame_catalog_roundtrip:
  assumes "encode_frame_catalog d = Inr bs" and "frame_delta_wf d"
  shows "decode_frame_catalog (bs @ rest) = Inr d \<and>
    decode_frame_catalog_previous_root (bs @ rest) = Inr (fc_previous_root d)"
  using frame_catalog_decodes [OF assms] by simp

definition ex_catalog_frame :: "u64 \<Rightarrow> frame_desc" where
  "ex_catalog_frame i = \<lparr>fd_frame_id = i, fd_collection_id = 7, fd_role = Chunk,
     fd_created_at = 10, fd_updated_at = 11,
     fd_uri_ref = (if i = 1 then None else Some \<lparr>md_segment_id = 4, md_bytes_offset = 0,
       md_bytes_length = 9, md_checksum = replicate 32 5\<rparr>),
     fd_title_ref = None, fd_payload_ref = Some \<lparr>pr_segment_id = 6 - i, pr_bytes_offset = i, pr_bytes_length = 2\<rparr>,
     fd_payload_encoding = Enc_lz4, fd_search_text_ref = None, fd_parent_frame_id = Some 1,
     fd_chunk_index = (if i = 1 then Some 3 else None), fd_chunk_count = None, fd_metadata_ref = None,
     fd_status = (if i = 1 then Frame_tombstoned else Frame_active)\<rparr>"

definition ex_catalog_delta :: frame_catalog_delta where
  "ex_catalog_delta = \<lparr>fc_previous_root = None, fc_frames = [ex_catalog_frame 1, ex_catalog_frame 2]\<rparr>"

lemma ex_catalog_encode: "\<exists>bs. encode_frame_catalog ex_catalog_delta = Inr bs"
  by (simp add: encode_frame_catalog_def ex_catalog_delta_def ex_catalog_frame_def Let_def u32_try_from_def
      encode_frame_id_column_def encode_created_column_def encode_updated_column_def
      encode_payload_ref_column_def encode_payload_refs_def i128_to_i64_def in_i64_def
      encode_optional_metadata_column_def encode_optional_u64_column_def encode_optional_u32_column_def
      encode_optional_column_def encode_presence_def write_blob_def rle_u8_blob_def rle_u32_blob_def
      encode_rle_u8_def encode_rle_u32_def encode_rle_def checked_add_def checked_sub_i64_def
      metadata_value_def write_uvarint.simps write_ivarint_def zigzag_def)

lemma frame_catalog_roundtrip_witness:
  "\<exists>bs. decode_frame_catalog (bs @ [1]) = Inr ex_catalog_delta"
proof -
  have "frame_delta_wf ex_catalog_delta"
    by (auto simp: frame_delta_wf_def ex_catalog_delta_def ex_catalog_frame_def ref_wf_def frame_wf_def
        frame_refs_def)
  then show ?thesis using ex_catalog_encode frame_catalog_roundtrip by blast
qed

text \<open>
  C20: Whatever bytes the frame catalog decoder accepts, the result is well formed: fewer
  than 2^32 frames in ascending order of their ids, every checksum in them 32 bytes long,
  and a previous root that the reader of the chain sees as well, so that damaged bytes
  cannot make the two readers walk different chains.
\<close>
theorem decoded_frames_well_formed:
  assumes "decode_frame_catalog bs = Inr d"
  shows "frame_delta_wf d \<and> sorted_wrt (\<le>) (map fd_frame_id (fc_frames d)) \<and>
    length (fc_frames d) < 2 ^ 32 \<and>
    decode_frame_catalog_previous_root bs = Inr (fc_previous_root d)"
  using assms
proof (rule decode_frame_catalog_cases)
  fix n c c'
  assume h: "frame_catalog_header (cursor_new bs) = Inr ((n, fc_previous_root d), c)"
    and z: "n = 0 \<Longrightarrow> fc_frames d = []"
    and nz: "n \<noteq> 0 \<Longrightarrow> frame_columns (unat n) c = Inr (fc_frames d, c')"
  show ?thesis
  proof (cases "n = 0")
    case True
    then show ?thesis
      using z peek_previous_root [OF assms] frame_catalog_header_root [OF h] by (simp add: frame_delta_wf_def)
  next
    case False
    then have "0 < unat n" by (simp add: unat_gt_0)
    with frame_columns_wf [OF nz [OF False]] show ?thesis
      using peek_previous_root [OF assms] frame_catalog_header_root [OF h] unsigned_less [of n]
      by (simp add: frame_delta_wf_def)
  qed
qed

lemma decoded_frames_well_formed_witness:
  "\<exists>bs. decode_frame_catalog_previous_root bs = Inr (fc_previous_root ex_catalog_delta)"
proof -
  have "frame_delta_wf ex_catalog_delta"
    by (auto simp: frame_delta_wf_def ex_catalog_delta_def ex_catalog_frame_def ref_wf_def frame_wf_def
        frame_refs_def)
  then obtain bs where "decode_frame_catalog (bs @ []) = Inr ex_catalog_delta"
    using ex_catalog_encode frame_catalog_decodes(1) by blast
  from decoded_frames_well_formed [OF this] show ?thesis by blast
qed

text \<open>
  C23: A row list that names a row beyond the table is reported as a format error in the
  metadata columns but aborts in the integer columns, 64-bit and 32-bit, which index the
  table without testing the row: with a value behind each row,
  \<open>decode_optional_u64_column\<close> and \<open>decode_optional_u32_column\<close> panic.
\<close>
theorem damaged_row_list_panics:
  assumes "encode_presence rows = Inr pb" and "write_blob pb = Inr b1"
    and "\<exists>idx\<in>set rows. count \<le> unat idx"
    and "length longs = length rows" and "write_blob (concat (map write_uvarint longs)) = Inr b2"
    and "length words = length rows"
    and "write_blob (concat (map (\<lambda>v :: u32. write_uvarint (ucast v)) words)) = Inr b3"
    and "length refs = length rows" and "\<forall>m\<in>set refs. length (md_checksum m) = 32"
    and "write_blob (concat (map metadata_value refs)) = Inr b4"
  shows "run_parser (decode_optional_u64_column count) (b1 @ b2 @ rest) =
      Inl (Panic ''index out of bounds'') \<and>
    run_parser (decode_optional_u32_column count) (b1 @ b3 @ rest) =
      Inl (Panic ''index out of bounds'') \<and>
    run_parser (decode_optional_metadata_column count) (b1 @ b4 @ rest) =
      Inl (Format ''FrameCatalog metadata presence index out of bounds'')"
proof (intro conjI)
  have "rejects (decode_optional_u64_column count) (b1 @ b2) (Panic ''index out of bounds'')"
    unfolding decode_optional_u64_column_def
    by (rule optional_column_rejects [OF assms(1,2,5) _ assms(4,3)]) (rule parses_uvarint)
  from run_parser_rejects [OF this, of rest]
  show "run_parser (decode_optional_u64_column count) (b1 @ b2 @ rest) =
      Inl (Panic ''index out of bounds'')" by simp
  have "rejects (decode_optional_u32_column count) (b1 @ b3) (Panic ''index out of bounds'')"
    unfolding decode_optional_u32_column_def
    by (rule optional_column_rejects [OF assms(1,2,7) _ assms(6,3)]) (rule parses_u32_value)
  from run_parser_rejects [OF this, of rest]
  show "run_parser (decode_optional_u32_column count) (b1 @ b3 @ rest) =
      Inl (Panic ''index out of bounds'')" by simp
  have "rejects (decode_optional_metadata_column count) (b1 @ b4)
      (Format ''FrameCatalog metadata presence index out of bounds'')"
    unfolding decode_optional_metadata_column_def
    by (rule optional_column_rejects [OF assms(1,2,10) _ assms(8,3)])
      (rule parses_metadata_value, use assms(9) in blast)
  from run_parser_rejects [OF this, of rest]
  show "run_parser (decode_optional_metadata_column count) (b1 @ b4 @ rest) =
      Inl (Format ''FrameCatalog metadata presence index out of bounds'')" by simp
qed

lemma damaged_row_list_panics_witness:
  "\<exists>rows long_column word_column metadata_column.
     run_parser (decode_optional_u64_column 2) (rows @ long_column) = Inl (Panic ''index out of bounds'') \<and>
     run_parser (decode_optional_u32_column 2) (rows @ word_column) = Inl (Panic ''index out of bounds'') \<and>
     run_parser (decode_optional_metadata_column 2) (rows @ metadata_column) =
       Inl (Format ''FrameCatalog metadata presence index out of bounds'')"
proof -
  let ?m = "\<lparr>md_segment_id = 4, md_bytes_offset = 0, md_bytes_length = 9, md_checksum = replicate 32 5\<rparr>"
  obtain pb where pb: "encode_presence [2] = Inr pb" and l: "length pb < 100"
    by (simp add: encode_presence_def u32_try_from_def write_uvarint.simps)
  obtain b1 where b1: "write_blob pb = Inr b1" using l by (simp add: write_blob_Inr)
  obtain b2 where b2: "write_blob (concat (map write_uvarint [8])) = Inr b2"
    by (simp add: write_blob_Inr write_uvarint.simps)
  obtain b3 where b3: "write_blob (concat (map (\<lambda>v :: u32. write_uvarint (ucast v)) [7])) = Inr b3"
    by (simp add: write_blob_Inr write_uvarint.simps)
  obtain b4 where b4: "write_blob (concat (map metadata_value [?m])) = Inr b4"
    by (simp add: write_blob_Inr metadata_value_def write_uvarint.simps)
  have "run_parser (decode_optional_u64_column 2) (b1 @ b2) = Inl (Panic ''index out of bounds'') \<and>
    run_parser (decode_optional_u32_column 2) (b1 @ b3) = Inl (Panic ''index out of bounds'') \<and>
    run_parser (decode_optional_metadata_column 2) (b1 @ b4) =
       Inl (Format ''FrameCatalog metadata presence index out of bounds'')"
    using damaged_row_list_panics [OF pb b1 _ _ b2 _ b3 _ _ b4, of 2 "[]"] by simp
  then show ?thesis by blast
qed

end
