(* ===== verification/CodecParams.thy ===== *)
theory CodecParams imports Cursor Catalog begin

text \<open>
  The persisted parameters of the two vector codecs: \<open>QamLloydMaxParams\<close>
  (src/format/qam_lloyd_max_params.rs) and \<open>UpqParams\<close> (src/format/upq_params.rs), and the
  dispatch over the family with what instantiating a codec checks (src/codec.rs,
  src/codec/qam_lloyd_max.rs, src/codec/upq.rs).

  Floating-point fields are their IEEE 754 bit patterns. The validators only classify them
  (finite, positive) and compare positive finite ones, which is exact on the bit patterns.
  The tables a codec derives from its parameters are floating-point numerics and are left
  out: an instantiated codec is its family and dimension, as the engine's bookkeeping uses it.
\<close>

section \<open>Bit patterns of \<open>f32\<close>\<close>

definition f32_is_finite :: "f32_bits \<Rightarrow> bool" where
  "f32_is_finite b = (b AND 0x7F800000 \<noteq> 0x7F800000)"

text \<open>\<open>x <= 0.0\<close> for a finite \<open>x\<close>: zero, or the sign bit is set.\<close>
definition f32_le_zero :: "f32_bits \<Rightarrow> bool" where
  "f32_le_zero b = (b = 0 \<or> bit b 31)"

text \<open>\<open>u32::is_power_of_two\<close>.\<close>
definition is_power_of_two :: "u32 \<Rightarrow> bool" where
  "is_power_of_two n = (n \<noteq> 0 \<and> n AND (n - 1) = 0)"

fun sigmas_ok :: "string \<Rightarrow> string \<Rightarrow> f32_bits list \<Rightarrow> unit result" where
  "sigmas_ok not_finite not_positive [] = Inr ()"
| "sigmas_ok not_finite not_positive (x # xs) =
     (if \<not> f32_is_finite x then Inl (Format not_finite)
      else if f32_le_zero x then Inl (Format not_positive)
      else sigmas_ok not_finite not_positive xs)"

section \<open>QAM Lloyd-Max\<close>

definition QAM_PARAMS_MAGIC :: bytes where "QAM_PARAMS_MAGIC = [0x56, 0x4C, 0x51, 0x4C]"
definition QAM_PARAMS_VERSION :: u16 where "QAM_PARAMS_VERSION = 1"
definition QAM_BITS_MIN :: u8 where "QAM_BITS_MIN = 1"
definition QAM_BITS_MAX :: u8 where "QAM_BITS_MAX = 8"

record qam_params =
  qp_dimension :: u32
  qp_num_pairs :: u32
  qp_block_size :: u32
  qp_rotation_seed :: u64
  qp_amp_bits :: u8
  qp_phase_bits :: u8
  qp_renormalize_at_decode :: bool
  qp_sigma_per_pair :: "f32_bits list"
  qp_calibration_id :: checksum

definition qam_validate :: "qam_params \<Rightarrow> unit result" where
  "qam_validate p =
     (if qp_dimension p = 0 then Inl (Format ''QamLloydMaxParams dimension must be > 0'')
      else if qp_dimension p mod 2 \<noteq> 0 then Inl (Format ''QamLloydMaxParams dimension must be even'')
      else if qp_num_pairs p \<noteq> qp_dimension p div 2
        then Inl (Format ''QamLloydMaxParams num_pairs must equal dimension/2'')
      else if qp_block_size p = 0 then Inl (Format ''QamLloydMaxParams block_size must be > 0'')
      else if \<not> is_power_of_two (qp_block_size p)
        then Inl (Format ''QamLloydMaxParams block_size must be a power of two'')
      else if qp_dimension p mod qp_block_size p \<noteq> 0
        then Inl (Format ''QamLloydMaxParams block_size must divide dimension'')
      else if \<not> (QAM_BITS_MIN \<le> qp_amp_bits p \<and> qp_amp_bits p \<le> QAM_BITS_MAX)
        then Inl (Format ''QamLloydMaxParams amp_bits out of range'')
      else if \<not> (QAM_BITS_MIN \<le> qp_phase_bits p \<and> qp_phase_bits p \<le> QAM_BITS_MAX)
        then Inl (Format ''QamLloydMaxParams phase_bits out of range'')
      else if length (qp_sigma_per_pair p) \<noteq> unat (qp_num_pairs p)
        then Inl (Format ''QamLloydMaxParams sigma_per_pair length must equal num_pairs'')
      else sigmas_ok ''QamLloydMaxParams sigma_per_pair is not finite''
             ''QamLloydMaxParams sigma_per_pair must be positive'' (qp_sigma_per_pair p))"

definition encode_qam_lloyd_max_params :: "qam_params \<Rightarrow> bytes result" where
  "encode_qam_lloyd_max_params p =
     rbind (qam_validate p) (\<lambda>_.
       Inr (QAM_PARAMS_MAGIC @ u16_le QAM_PARAMS_VERSION @ u32_le (qp_dimension p) @
            u32_le (qp_num_pairs p) @ u32_le (qp_block_size p) @ u64_le (qp_rotation_seed p) @
            [qp_amp_bits p] @ [qp_phase_bits p] @ [if qp_renormalize_at_decode p then 1 else 0] @ [0] @
            u32_le (of_nat (length (qp_sigma_per_pair p))) @
            concat (map u32_le (qp_sigma_per_pair p)) @ qp_calibration_id p))"

definition qam_params_parser :: "qam_params parser" where
  "qam_params_parser =
     pbind (read_array 4) (\<lambda>magic.
     pbind (pensure (magic = QAM_PARAMS_MAGIC) (Format ''QamLloydMaxParams magic mismatch'')) (\<lambda>_.
     pbind read_u16 (\<lambda>version.
     pbind (pensure (version = QAM_PARAMS_VERSION) (Format ''QamLloydMaxParams version mismatch'')) (\<lambda>_.
     pbind read_u32 (\<lambda>dimension.
     pbind read_u32 (\<lambda>num_pairs.
     pbind read_u32 (\<lambda>block_size.
     pbind read_u64 (\<lambda>rotation_seed.
     pbind read_u8 (\<lambda>amp_bits.
     pbind read_u8 (\<lambda>phase_bits.
     pbind read_u8 (\<lambda>renorm_byte.
     pbind (pensure (renorm_byte \<le> 1)
       (Format ''QamLloydMaxParams renormalize_at_decode must be 0 or 1'')) (\<lambda>_.
     pbind read_u8 (\<lambda>reserved.
     pbind (pensure (reserved = 0) (Format ''QamLloydMaxParams reserved byte must be 0'')) (\<lambda>_.
     pbind read_u32 (\<lambda>sigma_count.
     pbind (pensure (sigma_count = num_pairs)
       (Format ''QamLloydMaxParams sigma_count must equal num_pairs'')) (\<lambda>_.
     pbind (prepeat (unat sigma_count) read_u32) (\<lambda>sigma_per_pair.
     pbind (read_array 32) (\<lambda>calibration_id.
     pbind peof (\<lambda>_.
     let p = \<lparr>qp_dimension = dimension, qp_num_pairs = num_pairs, qp_block_size = block_size,
              qp_rotation_seed = rotation_seed, qp_amp_bits = amp_bits, qp_phase_bits = phase_bits,
              qp_renormalize_at_decode = (renorm_byte = 1), qp_sigma_per_pair = sigma_per_pair,
              qp_calibration_id = calibration_id\<rparr>
     in pbind (plift (qam_validate p)) (\<lambda>_. preturn p))))))))))))))))))))"

definition decode_qam_lloyd_max_params :: "bytes \<Rightarrow> qam_params result" where
  "decode_qam_lloyd_max_params bs = run_parser qam_params_parser bs"

section \<open>UPQ\<close>

definition UPQ_PARAMS_MAGIC :: bytes where "UPQ_PARAMS_MAGIC = [0x56, 0x4C, 0x55, 0x50]"
definition UPQ_PARAMS_VERSION :: u16 where "UPQ_PARAMS_VERSION = 1"
definition UPQ_CELLS_MIN :: u32 where "UPQ_CELLS_MIN = 8"
definition UPQ_CELLS_MAX :: u32 where "UPQ_CELLS_MAX = 65536"
definition UPQ_MIN_RING_PHASES :: u32 where "UPQ_MIN_RING_PHASES = 4"
definition HEAD_BYTES :: nat where "HEAD_BYTES = 4 + 2 + 4 + 4 + 4 + 8 + 4 + 2 + 1 + 1"

datatype upq_design_source = Empirical | Rayleigh

fun design_to_wire :: "upq_design_source \<Rightarrow> u8" where
  "design_to_wire Empirical = 0"
| "design_to_wire Rayleigh = 1"

definition design_from_wire :: "u8 \<Rightarrow> upq_design_source result" where
  "design_from_wire b =
     (if b = 0 then Inr Empirical else if b = 1 then Inr Rayleigh
      else Inl (Format ''UpqParams: invalid design_source byte''))"

record upq_params =
  up_dimension :: u32
  up_num_pairs :: u32
  up_block_size :: u32
  up_rotation_seed :: u64
  up_cells :: u32
  up_design_source :: upq_design_source
  up_renormalize_at_decode :: bool
  up_ring_radii :: "f32_bits list"
  up_ring_phases :: "u32 list"
  up_sigma_per_pair :: "f32_bits list"
  up_calibration_id :: checksum

text \<open>Positive finite floats compare as their bit patterns; \<open>prev\<close> starts at \<open>0.0\<close>.\<close>
fun radii_ok :: "f32_bits \<Rightarrow> f32_bits list \<Rightarrow> unit result" where
  "radii_ok prev [] = Inr ()"
| "radii_ok prev (r # rs) =
     (if \<not> f32_is_finite r \<or> f32_le_zero r
      then Inl (Format ''UpqParams: ring_radii must be finite and positive'')
      else if r \<le> prev then Inl (Format ''UpqParams: ring_radii must be strictly ascending'')
      else radii_ok r rs)"

text \<open>The running total is at most \<open>65535 * 65536\<close>, far below the range of \<open>u64\<close>.\<close>
fun phases_ok :: "u32 \<Rightarrow> nat \<Rightarrow> u32 list \<Rightarrow> nat result" where
  "phases_ok cells total_phases [] = Inr total_phases"
| "phases_ok cells total_phases (p # ps) =
     (if \<not> is_power_of_two p \<or> p < UPQ_MIN_RING_PHASES \<or> cells < p
      then Inl (Format ''UpqParams: ring_phases must be a power of two in [4, cells]'')
      else phases_ok cells (total_phases + unat p) ps)"

definition upq_validate :: "upq_params \<Rightarrow> unit result" where
  "upq_validate p =
     (if up_dimension p = 0 \<or> up_dimension p mod 2 \<noteq> 0
        then Inl (Format ''UpqParams: dimension must be positive and even'')
      else if up_num_pairs p \<noteq> up_dimension p div 2
        then Inl (Format ''UpqParams: num_pairs != dimension/2'')
      else if up_block_size p = 0 \<or> \<not> is_power_of_two (up_block_size p) \<or>
          up_dimension p mod up_block_size p \<noteq> 0
        then Inl (Format ''UpqParams: block_size must be a power of two dividing dimension'')
      else if \<not> is_power_of_two (up_cells p) \<or> up_cells p < UPQ_CELLS_MIN \<or> UPQ_CELLS_MAX < up_cells p
        then Inl (Format ''UpqParams: cells must be a power of two in range'')
      else if length (up_ring_radii p) < 2 \<or> 65535 < length (up_ring_radii p)
        then Inl (Format ''UpqParams: num_rings out of range'')
      else if length (up_ring_phases p) \<noteq> length (up_ring_radii p)
        then Inl (Format ''UpqParams: ring_phases len != ring_radii len'')
      else rbind (radii_ok 0 (up_ring_radii p)) (\<lambda>_.
        rbind (phases_ok (up_cells p) 0 (up_ring_phases p)) (\<lambda>total_phases.
        if unat (up_cells p) < total_phases
          then Inl (Format ''UpqParams: sum of ring_phases exceeds cells'')
        else if length (up_sigma_per_pair p) \<noteq> unat (up_num_pairs p)
          then Inl (Format ''UpqParams: sigma_per_pair len != num_pairs'')
        else rbind (sigmas_ok ''UpqParams: sigma_per_pair must be finite and positive''
               ''UpqParams: sigma_per_pair must be finite and positive'' (up_sigma_per_pair p)) (\<lambda>_.
          if up_calibration_id p = replicate 32 0
          then Inl (Format ''UpqParams: calibration_id must be non-zero'')
          else Inr ()))))"

definition upq_body :: "upq_params \<Rightarrow> bytes" where
  "upq_body p =
     UPQ_PARAMS_MAGIC @ u16_le UPQ_PARAMS_VERSION @ u32_le (up_dimension p) @
     u32_le (up_num_pairs p) @ u32_le (up_block_size p) @ u64_le (up_rotation_seed p) @
     u32_le (up_cells p) @ u16_le (of_nat (length (up_ring_radii p))) @
     [design_to_wire (up_design_source p)] @ [if up_renormalize_at_decode p then 1 else 0] @
     concat (map u32_le (up_ring_radii p)) @
     concat (map (\<lambda>ph. u16_le (ucast ph)) (up_ring_phases p)) @
     u32_le (of_nat (length (up_sigma_per_pair p))) @
     concat (map u32_le (up_sigma_per_pair p)) @ up_calibration_id p"

definition encode_upq_params :: "upq_params \<Rightarrow> bytes result" where
  "encode_upq_params p = rbind (upq_validate p) (\<lambda>_. Inr (upq_body p))"

definition upq_need :: "bytes \<Rightarrow> nat \<Rightarrow> nat \<Rightarrow> unit result" where
  "upq_need bs off n = (if length bs < off + n then Inl (Format ''UpqParams: truncated body'') else Inr ())"

definition rd_u32s :: "bytes \<Rightarrow> nat \<Rightarrow> nat \<Rightarrow> u32 list" where
  "rd_u32s bs off n = map (\<lambda>i. u32_of_le (slice (off + 4 * i) 4 bs)) [0..<n]"

definition rd_u16s :: "bytes \<Rightarrow> nat \<Rightarrow> nat \<Rightarrow> u32 list" where
  "rd_u16s bs off n = map (\<lambda>i. ucast (u16_of_le (slice (off + 2 * i) 2 bs))) [0..<n]"

definition decode_upq_params :: "bytes \<Rightarrow> upq_params result" where
  "decode_upq_params bs =
     (if length bs < HEAD_BYTES then Inl (Format ''UpqParams: truncated header'')
      else if slice 0 4 bs \<noteq> UPQ_PARAMS_MAGIC then Inl (Format ''UpqParams: bad magic (expected VLUP)'')
      else if u16_of_le (slice 4 2 bs) \<noteq> UPQ_PARAMS_VERSION
        then Inl (Format ''UpqParams: unsupported version'')
      else
        let dimension = u32_of_le (slice 6 4 bs);
            num_pairs = u32_of_le (slice 10 4 bs);
            block_size = u32_of_le (slice 14 4 bs);
            rotation_seed = u64_of_le (slice 18 8 bs);
            cells = u32_of_le (slice 26 4 bs);
            num_rings = unat (u16_of_le (slice 30 2 bs))
        in rbind (design_from_wire (bs ! 32)) (\<lambda>design_source.
        if bs ! 33 > 1 then Inl (Format ''UpqParams: invalid renormalize_at_decode byte'')
        else let off = HEAD_BYTES in
        rbind (upq_need bs off (4 * num_rings)) (\<lambda>_.
        let ring_radii = rd_u32s bs off num_rings; off = off + 4 * num_rings in
        rbind (upq_need bs off (2 * num_rings)) (\<lambda>_.
        let ring_phases = rd_u16s bs off num_rings; off = off + 2 * num_rings in
        rbind (upq_need bs off 4) (\<lambda>_.
        let sigma_count = unat (u32_of_le (slice off 4 bs)); off = off + 4 in
        if sigma_count \<noteq> unat num_pairs then Inl (Format ''UpqParams: sigma_count != num_pairs'')
        else rbind (upq_need bs off (4 * sigma_count)) (\<lambda>_.
        let sigma_per_pair = rd_u32s bs off sigma_count; off = off + 4 * sigma_count in
        rbind (upq_need bs off 32) (\<lambda>_.
        let calibration_id = slice off 32 bs; off = off + 32 in
        if off \<noteq> length bs then Inl (Format ''UpqParams: trailing bytes after params'')
        else let p = \<lparr>up_dimension = dimension, up_num_pairs = num_pairs, up_block_size = block_size,
               up_rotation_seed = rotation_seed, up_cells = cells, up_design_source = design_source,
               up_renormalize_at_decode = (bs ! 33 = 1), up_ring_radii = ring_radii,
               up_ring_phases = ring_phases, up_sigma_per_pair = sigma_per_pair,
               up_calibration_id = calibration_id\<rparr>
          in rbind (upq_validate p) (\<lambda>_. Inr p))))))))"

section \<open>Instantiation\<close>

text \<open>What the engine asks of a cached codec.\<close>
record cached_codec =
  cc_family :: codec_family
  cc_dimension :: u32

definition UPQ_WIRE_BITS :: nat where "UPQ_WIRE_BITS = 11"
definition UPQ_WIRE_MAX_CELLS :: u32 where "UPQ_WIRE_MAX_CELLS = push_bit UPQ_WIRE_BITS 1"

definition qam_from_params :: "qam_params \<Rightarrow> cached_codec result" where
  "qam_from_params p =
     (if unat (qp_num_pairs p) * 2 \<noteq> unat (qp_dimension p)
        then Inl (Format ''QamLloydMaxCodec: num_pairs * 2 must equal dim'')
      else if length (qp_sigma_per_pair p) \<noteq> unat (qp_num_pairs p)
        then Inl (Format ''QamLloydMaxCodec: sigma_per_pair length must equal num_pairs'')
      else rbind (sigmas_ok ''QamLloydMaxCodec: sigma_per_pair must be finite and positive''
             ''QamLloydMaxCodec: sigma_per_pair must be finite and positive'' (qp_sigma_per_pair p)) (\<lambda>_.
        Inr \<lparr>cc_family = QamLloydMax, cc_dimension = qp_dimension p\<rparr>))"

definition upq_validate_dims :: "u32 \<Rightarrow> u32 \<Rightarrow> u32 \<Rightarrow> unit result" where
  "upq_validate_dims dim block_size cells =
     (if dim = 0 \<or> dim mod 2 \<noteq> 0 then Inl (Format ''UpqCodec: dim must be positive and even'')
      else if block_size = 0 \<or> \<not> is_power_of_two block_size \<or> dim mod block_size \<noteq> 0
        then Inl (Format ''UpqCodec: block_size must be a power of two dividing dim'')
      else if UPQ_WIRE_MAX_CELLS < cells
        then Inl (Unsupported ''UpqCodec: cells exceeds the 11-bit wire packing'')
      else Inr ())"

text \<open>The first cell of each ring.\<close>
fun ring_bases :: "u32 \<Rightarrow> u32 list \<Rightarrow> u32 list" where
  "ring_bases acc [] = []"
| "ring_bases acc (p # ps) = acc # ring_bases (acc + p) ps"

definition upq_from_params :: "upq_params \<Rightarrow> cached_codec result" where
  "upq_from_params p =
     rbind (upq_validate p) (\<lambda>_.
     rbind (upq_validate_dims (up_dimension p) (up_block_size p) (up_cells p)) (\<lambda>_.
       Inr \<lparr>cc_family = Upq, cc_dimension = up_dimension p\<rparr>))"

section \<open>Dispatch over the family\<close>

datatype codec_params = QamLloydMaxP qam_params | UpqP upq_params

fun cp_family :: "codec_params \<Rightarrow> codec_family" where
  "cp_family (QamLloydMaxP p) = QamLloydMax"
| "cp_family (UpqP p) = Upq"

fun wire_version :: "codec_params \<Rightarrow> u16" where
  "wire_version (QamLloydMaxP p) = 1"
| "wire_version (UpqP p) = 1"

fun family_discriminant :: "codec_params \<Rightarrow> u32" where
  "family_discriminant (QamLloydMaxP p) = 1"
| "family_discriminant (UpqP p) = 2"

fun cp_dimension :: "codec_params \<Rightarrow> u32" where
  "cp_dimension (QamLloydMaxP p) = qp_dimension p"
| "cp_dimension (UpqP p) = up_dimension p"

fun cp_encode :: "codec_params \<Rightarrow> bytes result" where
  "cp_encode (QamLloydMaxP p) = encode_qam_lloyd_max_params p"
| "cp_encode (UpqP p) = encode_upq_params p"

fun cp_decode :: "codec_family \<Rightarrow> bytes \<Rightarrow> codec_params result" where
  "cp_decode QamLloydMax bs = rbind (decode_qam_lloyd_max_params bs) (\<lambda>p. Inr (QamLloydMaxP p))"
| "cp_decode Upq bs = rbind (decode_upq_params bs) (\<lambda>p. Inr (UpqP p))"
| "cp_decode LegacyInt4PcaZero bs =
     Inl (Unsupported ''CodecParams::decode: the Int4PcaZero family was removed in v2.2'')"

fun cp_instantiate :: "codec_params \<Rightarrow> cached_codec result" where
  "cp_instantiate (QamLloydMaxP p) = qam_from_params p"
| "cp_instantiate (UpqP p) = upq_from_params p"


section \<open>Round trips\<close>

lemma qam_decode_encode:
  assumes "encode_qam_lloyd_max_params p = Inr bs" and "length (qp_calibration_id p) = 32"
  shows "decode_qam_lloyd_max_params bs = Inr p"
proof -
  have v: "qam_validate p = Inr ()" and len: "length (qp_sigma_per_pair p) = unat (qp_num_pairs p)"
    and bs: "bs = QAM_PARAMS_MAGIC @ u16_le QAM_PARAMS_VERSION @ u32_le (qp_dimension p) @
            u32_le (qp_num_pairs p) @ u32_le (qp_block_size p) @ u64_le (qp_rotation_seed p) @
            [qp_amp_bits p] @ [qp_phase_bits p] @ [if qp_renormalize_at_decode p then 1 else 0] @ [0] @
            u32_le (of_nat (length (qp_sigma_per_pair p))) @
            concat (map u32_le (qp_sigma_per_pair p)) @ qp_calibration_id p"
    using assms(1) by (auto simp: encode_qam_lloyd_max_params_def rbind_Inr_iff qam_validate_def split: if_splits)
  let ?r = "if qp_renormalize_at_decode p then 1 else 0 :: u8"
  have r: "(?r \<le> 1) = True" "(?r = 1) = qp_renormalize_at_decode p" by auto
  have sc: "(of_nat (length (qp_sigma_per_pair p)) :: u32) = qp_num_pairs p" by (simp add: len)
  have rep: "parses (prepeat (unat (qp_num_pairs p)) read_u32) (concat (map u32_le (qp_sigma_per_pair p)))
      (qp_sigma_per_pair p)"
    unfolding len [symmetric] by (rule parses_prepeat) (rule parses_u32)
  have eta: "\<lparr>qp_dimension = qp_dimension p, qp_num_pairs = qp_num_pairs p, qp_block_size = qp_block_size p,
      qp_rotation_seed = qp_rotation_seed p, qp_amp_bits = qp_amp_bits p, qp_phase_bits = qp_phase_bits p,
      qp_renormalize_at_decode = qp_renormalize_at_decode p, qp_sigma_per_pair = qp_sigma_per_pair p,
      qp_calibration_id = qp_calibration_id p\<rparr> = p" by (cases p) simp
  show ?thesis
    unfolding decode_qam_lloyd_max_params_def bs qam_params_parser_def sc
    apply (rule run_parser_all)
    apply (rule parses_all_bind [OF parses_read_array], simp add: QAM_PARAMS_MAGIC_def, simp only: simp_thms pbind_ensure_True)
    apply (rule parses_all_bind [OF parses_u16], simp only: simp_thms pbind_ensure_True)
    apply (rule parses_all_bind [OF parses_u32])+
    apply (rule parses_all_bind [OF parses_u64])
    apply (rule parses_all_bind [OF parses_u8])+
    apply (simp only: r pbind_ensure_True)
    apply (rule parses_all_bind [OF parses_u8], simp only: simp_thms pbind_ensure_True)
    apply (rule parses_all_bind [OF parses_u32], simp only: simp_thms pbind_ensure_True)
    apply (rule parses_all_bind [OF rep])
    apply (rule parses_all_bind [where ys = "[]", OF parses_read_array [OF assms(2)], simplified])
    apply (rule parses_all_eof)
    apply (simp only: Let_def eta r v pbind_lift_Inr parses_all_return)
    done
qed

text \<open>Whatever decodes satisfies the validator.\<close>
lemma qam_decode_valid: "decode_qam_lloyd_max_params bs = Inr p \<Longrightarrow> qam_validate p = Inr ()"
  by (auto simp: decode_qam_lloyd_max_params_def run_parser_Inr qam_params_parser_def pbind_Inr Let_def)

lemma upq_decode_valid: "decode_upq_params bs = Inr p \<Longrightarrow> upq_validate p = Inr ()"
  by (auto simp: decode_upq_params_def rbind_Inr_iff Let_def split: if_splits)

subsection \<open>UPQ\<close>

lemma slice_at: "length pre = off \<Longrightarrow> length x = n \<Longrightarrow> slice off n (pre @ x @ rest) = x"
  by (simp add: slice_def)

lemma rd_u32s_at:
  assumes "length pre = off" and "n = length xs"
  shows "rd_u32s (pre @ concat (map u32_le xs) @ rest) off n = xs"
  using assms
proof (induction xs arbitrary: pre off n)
  case Nil
  then show ?case by (simp add: rd_u32s_def)
next
  case (Cons x xs)
  have "rd_u32s bs off (Suc m) = u32_of_le (slice off 4 bs) # rd_u32s bs (off + 4) m" for bs m
    unfolding rd_u32s_def upt_conv_Cons [OF zero_less_Suc] map_Suc_upt [symmetric]
    by (simp add: comp_def add.assoc)
  moreover have "slice off 4 (pre @ u32_le x @ concat (map u32_le xs) @ rest) = u32_le x"
    using Cons.prems by (intro slice_at) simp_all
  moreover have "rd_u32s ((pre @ u32_le x) @ concat (map u32_le xs) @ rest) (off + 4) (length xs) = xs"
    using Cons.prems by (intro Cons.IH) simp_all
  ultimately show ?case using Cons.prems by simp
qed

lemma rd_u16s_at:
  assumes "length pre = off" and "n = length xs" and "\<forall>x\<in>set xs. unat x < 65536"
  shows "rd_u16s (pre @ concat (map (\<lambda>ph. u16_le (ucast ph)) xs) @ rest) off n = xs"
  using assms
proof (induction xs arbitrary: pre off n)
  case Nil
  then show ?case by (simp add: rd_u16s_def)
next
  case (Cons x xs)
  have "rd_u16s bs off (Suc m) = ucast (u16_of_le (slice off 2 bs)) # rd_u16s bs (off + 2) m" for bs m
    unfolding rd_u16s_def upt_conv_Cons [OF zero_less_Suc] map_Suc_upt [symmetric]
    by (simp add: comp_def add.assoc)
  moreover have "slice off 2 (pre @ u16_le (ucast x) @ concat (map (\<lambda>ph. u16_le (ucast ph)) xs) @ rest) =
      u16_le (ucast x)"
    using Cons.prems by (intro slice_at) simp_all
  moreover have "ucast (ucast x :: u16) = x"
  proof -
    have "unat x < 2 ^ 16" using Cons.prems(3) by simp
    then have "unat (ucast (ucast x :: u16) :: u32) = unat x" by (simp add: unsigned_ucast_eq take_bit_eq_mod unat_mod)
    then show ?thesis by (simp add: word_unat_eq_iff)
  qed
  moreover have "rd_u16s ((pre @ u16_le (ucast x)) @ concat (map (\<lambda>ph. u16_le (ucast ph)) xs) @ rest)
      (off + 2) (length xs) = xs"
    using Cons.prems by (intro Cons.IH) simp_all
  ultimately show ?case using Cons.prems by simp
qed

lemma phases_ok_Inr:
  "phases_ok cells t ps = Inr t' \<Longrightarrow>
   t' = t + sum_list (map unat ps) \<and> (\<forall>p\<in>set ps. 4 \<le> unat p \<and> unat p \<le> unat cells)"
proof (induction ps arbitrary: t)
  case (Cons p ps)
  then have "phases_ok cells (t + unat p) ps = Inr t'" "4 \<le> unat p" "unat p \<le> unat cells"
    by (auto simp: UPQ_MIN_RING_PHASES_def word_less_nat_alt not_less split: if_splits)
  with Cons.IH [OF this(1)] show ?case by simp
qed simp

text \<open>
  Two rings of at least four phases within 65536 cells: no phase count reaches 65536, so the
  16-bit field of the wire format holds every valid count.
\<close>
lemma valid_phases_fit:
  assumes "upq_validate p = Inr ()" and "ph \<in> set (up_ring_phases p)"
  shows "unat ph < 65536"
proof -
  let ?ps = "up_ring_phases p"
  obtain t where t: "phases_ok (up_cells p) 0 ?ps = Inr t" and le: "t \<le> unat (up_cells p)"
    and two: "2 \<le> length ?ps" and cells: "up_cells p \<le> UPQ_CELLS_MAX"
    using assms(1) by (auto simp: upq_validate_def rbind_Inr_iff not_less split: if_splits)
  note ok = phases_ok_Inr [OF t]
  have "unat (up_cells p) \<le> 65536"
    using cells by (simp add: UPQ_CELLS_MAX_def word_le_nat_alt)
  moreover have "unat ph + 4 \<le> sum_list (map unat ?ps)"
  proof -
    obtain as bs where ps: "?ps = as @ ph # bs" using split_list [OF assms(2)] by blast
    have "as @ bs \<noteq> []" using two ps by auto
    then obtain q where q: "q \<in> set (as @ bs)" by (metis hd_in_set)
    then have "4 \<le> unat q" using ok ps by auto
    also have "unat q \<le> sum_list (map unat (as @ bs))" using q by (intro member_le_sum_list) auto
    finally show ?thesis by (simp add: ps)
  qed
  ultimately show ?thesis using ok le by simp
qed


lemma upq_body_length:
  assumes "length (up_calibration_id p) = 32"
  shows "length (upq_body p) = HEAD_BYTES + 4 * length (up_ring_radii p) + 2 * length (up_ring_phases p) +
    4 + 4 * length (up_sigma_per_pair p) + 32"
  using assms
  by (simp add: upq_body_def HEAD_BYTES_def UPQ_PARAMS_MAGIC_def length_concat comp_def sum_list_triv)

definition upq_head :: "upq_params \<Rightarrow> bytes" where
  "upq_head p =
     UPQ_PARAMS_MAGIC @ u16_le UPQ_PARAMS_VERSION @ u32_le (up_dimension p) @
     u32_le (up_num_pairs p) @ u32_le (up_block_size p) @ u64_le (up_rotation_seed p) @
     u32_le (up_cells p) @ u16_le (of_nat (length (up_ring_radii p))) @
     [design_to_wire (up_design_source p)] @ [if up_renormalize_at_decode p then 1 else 0]"

lemma length_UPQ_MAGIC [simp]: "length UPQ_PARAMS_MAGIC = 4"
  by (simp add: UPQ_PARAMS_MAGIC_def)

lemma length_upq_head [simp]: "length (upq_head p) = HEAD_BYTES"
  by (simp add: upq_head_def HEAD_BYTES_def)

lemma slice_upq_head:
  "slice 0 4 (upq_head p @ r) = UPQ_PARAMS_MAGIC" "slice 4 2 (upq_head p @ r) = u16_le UPQ_PARAMS_VERSION"
  "slice 6 4 (upq_head p @ r) = u32_le (up_dimension p)" "slice 10 4 (upq_head p @ r) = u32_le (up_num_pairs p)"
  "slice 14 4 (upq_head p @ r) = u32_le (up_block_size p)" "slice 18 8 (upq_head p @ r) = u64_le (up_rotation_seed p)"
  "slice 26 4 (upq_head p @ r) = u32_le (up_cells p)"
  "slice 30 2 (upq_head p @ r) = u16_le (of_nat (length (up_ring_radii p)))"
  by (simp_all add: upq_head_def slice_def)

lemma nth_upq_head:
  "(upq_head p @ r) ! 32 = design_to_wire (up_design_source p)"
  "(upq_head p @ r) ! 33 = (if up_renormalize_at_decode p then 1 else 0)"
  by (simp_all add: upq_head_def nth_append)

lemma upq_decode_encode:
  assumes "encode_upq_params p = Inr bs" and cal: "length (up_calibration_id p) = 32"
  shows "decode_upq_params bs = Inr p"
proof -
  have v: "upq_validate p = Inr ()" and bs: "bs = upq_body p"
    using assms(1) by (auto simp: encode_upq_params_def rbind_Inr_iff)
  let ?m = "length (up_ring_radii p)" and ?n = "length (up_sigma_per_pair p)"
  have m: "?m < 65536" and ph: "length (up_ring_phases p) = ?m" and n: "?n = unat (up_num_pairs p)"
    using v by (auto simp: upq_validate_def rbind_Inr_iff split: if_splits)
  have um: "unat (of_nat ?m :: u16) = ?m" using m by (simp add: unat_of_nat_eq)
  have un: "(of_nat ?n :: u32) = up_num_pairs p" by (simp add: n)
  define radii phases count sigmas where "radii = concat (map u32_le (up_ring_radii p))"
    and "phases = concat (map (\<lambda>ph. u16_le (ucast ph)) (up_ring_phases p))"
    and "count = u32_le (up_num_pairs p)" and "sigmas = concat (map u32_le (up_sigma_per_pair p))"
  have lens: "length radii = 4 * ?m" "length phases = 2 * ?m" "length count = 4" "length sigmas = 4 * ?n"
    by (simp_all add: radii_def phases_def count_def sigmas_def length_concat comp_def sum_list_triv ph)
  have body: "bs = upq_head p @ radii @ phases @ count @ sigmas @ up_calibration_id p"
    by (simp add: bs upq_body_def upq_head_def radii_def phases_def count_def sigmas_def un)
  have total_len: "length bs = HEAD_BYTES + 4 * ?m + 2 * ?m + 4 + 4 * ?n + 32"
    by (simp add: body lens cal)
  note hs = slice_upq_head [of p "radii @ phases @ count @ sigmas @ up_calibration_id p", folded body]
  note hb = nth_upq_head [of p "radii @ phases @ count @ sigmas @ up_calibration_id p", folded body]
  have dw: "design_from_wire (design_to_wire (up_design_source p)) = Inr (up_design_source p)"
    by (cases "up_design_source p") (simp_all add: design_from_wire_def)
  have s1: "rd_u32s bs HEAD_BYTES ?m = up_ring_radii p"
    unfolding body radii_def by (rule rd_u32s_at) (simp_all)
  have fit16: "\<forall>x\<in>set (up_ring_phases p). unat x < 65536" using valid_phases_fit [OF v] by blast
  have body2: "bs = (upq_head p @ radii) @ concat (map (\<lambda>ph. u16_le (ucast ph)) (up_ring_phases p)) @
      count @ sigmas @ up_calibration_id p"
    by (simp only: body phases_def append_assoc)
  have s2: "rd_u16s bs (HEAD_BYTES + 4 * ?m) ?m = up_ring_phases p"
    unfolding body2 by (rule rd_u16s_at [OF _ ph [symmetric] fit16]) (simp only: length_append length_upq_head lens)
  have s3: "slice (HEAD_BYTES + 4 * ?m + 2 * ?m) 4 bs = u32_le (up_num_pairs p)"
    using slice_at [of "upq_head p @ radii @ phases" "HEAD_BYTES + 4 * ?m + 2 * ?m" count 4 "sigmas @ up_calibration_id p"]
    by (simp add: body lens count_def)
  have s4: "rd_u32s bs (HEAD_BYTES + 4 * ?m + 2 * ?m + 4) ?n = up_sigma_per_pair p"
    using rd_u32s_at [of "upq_head p @ radii @ phases @ count" "HEAD_BYTES + 4 * ?m + 2 * ?m + 4" ?n "up_sigma_per_pair p"
        "up_calibration_id p"]
    by (simp add: body lens sigmas_def)
  have s5: "slice (HEAD_BYTES + 4 * ?m + 2 * ?m + 4 + 4 * ?n) 32 bs = up_calibration_id p"
    using slice_at [of "upq_head p @ radii @ phases @ count @ sigmas" "HEAD_BYTES + 4 * ?m + 2 * ?m + 4 + 4 * ?n"
        "up_calibration_id p" 32 "[]"]
    by (simp add: body lens cal)
  have needs: "upq_need bs HEAD_BYTES (4 * ?m) = Inr ()" "upq_need bs (HEAD_BYTES + 4 * ?m) (2 * ?m) = Inr ()"
    "upq_need bs (HEAD_BYTES + 4 * ?m + 2 * ?m) 4 = Inr ()"
    "upq_need bs (HEAD_BYTES + 4 * ?m + 2 * ?m + 4) (4 * ?n) = Inr ()"
    "upq_need bs (HEAD_BYTES + 4 * ?m + 2 * ?m + 4 + 4 * ?n) 32 = Inr ()"
    by (simp_all add: upq_need_def total_len)
  have rn: "(1 < (if up_renormalize_at_decode p then 1 else 0 :: u8)) = False"
    "((if up_renormalize_at_decode p then 1 else 0 :: u8) = 1) = up_renormalize_at_decode p" by auto
  have eta: "\<lparr>up_dimension = up_dimension p, up_num_pairs = up_num_pairs p, up_block_size = up_block_size p,
      up_rotation_seed = up_rotation_seed p, up_cells = up_cells p, up_design_source = up_design_source p,
      up_renormalize_at_decode = up_renormalize_at_decode p, up_ring_radii = up_ring_radii p,
      up_ring_phases = up_ring_phases p, up_sigma_per_pair = up_sigma_per_pair p,
      up_calibration_id = up_calibration_id p\<rparr> = p" by (cases p) simp
  have conds: "(length bs < HEAD_BYTES) = False" "(UPQ_PARAMS_MAGIC \<noteq> UPQ_PARAMS_MAGIC) = False"
    "(UPQ_PARAMS_VERSION \<noteq> UPQ_PARAMS_VERSION) = False"
    "((HEAD_BYTES + 4 * ?m + 2 * ?m + 4 + 4 * ?n + 32) \<noteq> length bs) = False" "(?n \<noteq> ?n) = False"
    by (simp_all add: total_len)
  show ?thesis
    unfolding decode_upq_params_def Let_def hs hb dw of_le_le um conds if_False rbind_simps rn needs s3
      n [symmetric] s1 s2 s4 s5 eta v ..
qed


section \<open>Instantiation of valid parameters\<close>

lemma sigmas_ok_Inr:
  "sigmas_ok a b xs = Inr () \<longleftrightarrow> (\<forall>x\<in>set xs. f32_is_finite x \<and> \<not> f32_le_zero x)"
  by (induction xs) auto

text \<open>Valid QAM parameters always instantiate.\<close>
lemma qam_instantiate:
  assumes "qam_validate p = Inr ()"
  shows "qam_from_params p = Inr \<lparr>cc_family = QamLloydMax, cc_dimension = qp_dimension p\<rparr>"
proof -
  have v: "qp_dimension p mod 2 = 0" "qp_num_pairs p = qp_dimension p div 2"
    "length (qp_sigma_per_pair p) = unat (qp_num_pairs p)"
    "\<forall>x\<in>set (qp_sigma_per_pair p). f32_is_finite x \<and> \<not> f32_le_zero x"
    using assms by (auto simp: qam_validate_def sigmas_ok_Inr split: if_splits)
  have "unat (qp_dimension p) mod 2 = 0"
    using v(1) unat_mod [of "qp_dimension p" 2] by simp
  then have "unat (qp_num_pairs p) * 2 = unat (qp_dimension p)"
    unfolding v(2) by (simp add: unat_div mod_0_imp_dvd dvd_div_mult_self)
  then show ?thesis
    using v by (auto simp: qam_from_params_def sigmas_ok_Inr [THEN iffD2])
qed

text \<open>
  Valid UPQ parameters instantiate up to 2048 cells, the packing of the search path; the
  validator of the file format accepts up to 65536.
\<close>
lemma upq_instantiate:
  assumes "upq_validate p = Inr ()"
  shows "upq_from_params p =
    (if UPQ_WIRE_MAX_CELLS < up_cells p
     then Inl (Unsupported ''UpqCodec: cells exceeds the 11-bit wire packing'')
     else Inr \<lparr>cc_family = Upq, cc_dimension = up_dimension p\<rparr>)"
  using assms
  by (auto simp: upq_from_params_def upq_validate_dims_def upq_validate_def rbind_Inr_iff split: if_splits)

lemma cp_instantiate_Inr:
  "cp_instantiate cp = Inr c \<Longrightarrow> cc_family c = cp_family cp \<and> cc_dimension c = cp_dimension cp"
  by (cases cp) (auto simp: qam_from_params_def upq_from_params_def rbind_Inr_iff split: if_splits)

text \<open>The fixed-size array of the source.\<close>
fun cp_wf :: "codec_params \<Rightarrow> bool" where
  "cp_wf (QamLloydMaxP p) = (length (qp_calibration_id p) = 32)"
| "cp_wf (UpqP p) = (length (up_calibration_id p) = 32)"

lemma cp_decode_encode: "cp_encode cp = Inr bs \<Longrightarrow> cp_wf cp \<Longrightarrow> cp_decode (cp_family cp) bs = Inr cp"
  by (cases cp) (simp_all add: qam_decode_encode upq_decode_encode)

text \<open>The magic keeps the families apart.\<close>
lemma cp_decode_family:
  assumes "cp_encode cp = Inr bs" and "cp_decode fam bs = Inr cp'"
  shows "fam = cp_family cp"
proof (cases cp)
  case (QamLloydMaxP p)
  then obtain r where "bs = QAM_PARAMS_MAGIC @ r"
    using assms(1) by (auto simp: encode_qam_lloyd_max_params_def rbind_Inr_iff)
  then have "slice 0 4 bs \<noteq> UPQ_PARAMS_MAGIC"
    by (simp add: slice_def QAM_PARAMS_MAGIC_def UPQ_PARAMS_MAGIC_def)
  then show ?thesis
    using assms(2) QamLloydMaxP by (cases fam) (auto simp: decode_upq_params_def rbind_Inr_iff split: if_splits)
next
  case (UpqP p)
  then obtain r where "bs = UPQ_PARAMS_MAGIC @ r"
    using assms(1) by (auto simp: encode_upq_params_def upq_body_def rbind_Inr_iff)
  then have "take 4 bs \<noteq> QAM_PARAMS_MAGIC"
    by (simp add: QAM_PARAMS_MAGIC_def UPQ_PARAMS_MAGIC_def)
  then show ?thesis
    using assms(2) UpqP by (cases fam)
      (auto simp: decode_qam_lloyd_max_params_def qam_params_parser_def run_parser_def pbind_def read_array_def
        pensure_def rbind_Inr_iff cursor_new_def slice_def split: if_splits sum.splits prod.splits)
qed

section \<open>Properties\<close>

text \<open>
  The parameter segment of a codec identifies it. Parameters that encode decode to
  themselves under their own family and to nothing under any other, for both families and
  every length of their tables; a UPQ ring phase never loses bits in its 16-bit field.
\<close>
theorem codec_params_roundtrip:
  assumes "cp_encode cp = Inr bs" and "cp_wf cp"
  shows "cp_decode fam bs = Inr cp' \<longleftrightarrow> fam = cp_family cp \<and> cp' = cp"
  using cp_decode_encode [OF assms] cp_decode_family [OF assms(1), of fam cp'] by auto

definition ex_qam_params :: qam_params where
  "ex_qam_params = \<lparr>qp_dimension = 2, qp_num_pairs = 1, qp_block_size = 2, qp_rotation_seed = 5, qp_amp_bits = 4,
     qp_phase_bits = 4, qp_renormalize_at_decode = True, qp_sigma_per_pair = [0x3F800000],
     qp_calibration_id = replicate 32 1\<rparr>"

lemma codec_params_roundtrip_witness:
  "\<exists>bs. cp_encode (QamLloydMaxP ex_qam_params) = Inr bs \<and>
    cp_decode QamLloydMax bs = Inr (QamLloydMaxP ex_qam_params) \<and> (\<forall>cp'. cp_decode Upq bs \<noteq> Inr cp')"
proof -
  have "qam_validate ex_qam_params = Inr ()"
    by (simp add: qam_validate_def ex_qam_params_def is_power_of_two_def QAM_BITS_MIN_def QAM_BITS_MAX_def
        f32_is_finite_def f32_le_zero_def)
  then obtain bs where "cp_encode (QamLloydMaxP ex_qam_params) = Inr bs"
    by (simp add: encode_qam_lloyd_max_params_def)
  moreover have "cp_wf (QamLloydMaxP ex_qam_params)" by (simp add: ex_qam_params_def)
  ultimately show ?thesis
    using codec_params_roundtrip [of "QamLloydMaxP ex_qam_params" bs]
    by (simp del: cp_encode.simps cp_decode.simps cp_wf.simps)
qed

end
