(* ===== verification/Handle.thy ===== *)
theory Handle imports CatalogIo CodecParams Toc Instances begin

text \<open>
  The open file handle (\<open>ValiseFile\<close> of src/file.rs): the state its frame and registration
  paths work on, the guards every mutation runs first (src/file/commit.rs), reads through
  the memory map (src/file/internals.rs), and the lookups of a frame's descriptor, metadata
  and payload (src/file/accessors.rs, src/file/vector_ops.rs).

  An operation is a state-passing function that keeps what it changed when it fails:
  \<open>None\<close> is an operation that does not return (the walk of a cyclic chain), otherwise the
  result and the new state. The memory map shares its pages with the file, so it is the
  length it covers; device errors and the profiling counters are left out. The vector
  batches, the text indexes and the published snapshot are fields of other paths and are
  not part of this state.
\<close>

section \<open>Parameters: code outside the repository\<close>

record env =
  en_hash :: hash
  en_zstd_encode :: "bytes \<Rightarrow> bytes option"
  en_zstd_decode :: zstd_decode
  en_entry_bincode :: "segment_catalog_entry bincode"
  en_ref_bincode :: "segment_ref option bincode"
  en_frame_bincode :: "frame_desc bincode"

section \<open>State\<close>

datatype open_mode = ReadOnly | ReadWrite

record frame_locator =
  fl_catalog_segment :: segment_ref
  fl_payload_offset :: nat
  fl_payload_len :: nat

record pending_payload_frame =
  pp_frame_id :: u64
  pp_bytes_offset :: u64
  pp_bytes_length :: u64

record pending_uri =
  pu_frame_id :: u64
  pu_bytes_offset :: u64
  pu_bytes_length :: u64

record analyzer =
  az_unicode_normalization :: unicode_normalization
  az_case_fold :: bool
  az_accent_fold :: bool
  az_tokenizer :: tokenizer
  az_min_token_len :: u16
  az_max_token_len :: u16
  az_stopwords :: stopwords_policy
  az_english_possessive_strip :: bool
  az_porter2 :: bool

record vfile =
  vf_file :: storage
  vf_mmap_len :: "nat option"
  vf_mode :: open_mode
  vf_footer :: toc_footer
  vf_create_contract :: create_contract
  vf_catalog :: catalog_snapshot
  vf_frame_locators :: "u64 \<rightharpoonup> frame_locator"
  vf_id_allocator :: id_allocator
  vf_segment_registry :: segment_registry
  vf_dirty_segment_ids :: "u64 set"
  vf_dirty_collection_ids :: "u32 set"
  vf_dirty_frame_ids :: "u64 set"
  vf_dirty_embedding_space_ids :: "u32 set"
  vf_dirty_codec_ids :: "u32 set"
  vf_dirty_text_space_ids :: "u32 set"
  vf_dirty_analyzer_ids :: "u32 set"
  vf_dirty_field_schema_ids :: "u32 set"
  vf_dirty_retrieval_profile_ids :: "u32 set"
  vf_dirty_fusion_profile_ids :: "u32 set"
  vf_codec_cache :: "u32 \<rightharpoonup> cached_codec"
  vf_pending_payload_buf :: bytes
  vf_pending_payload_frames :: "pending_payload_frame list"
  vf_pending_payload_by_frame :: "u64 \<rightharpoonup> nat"
  vf_pending_uri_buf :: bytes
  vf_pending_uris :: "pending_uri list"
  vf_tombstoned_frame_count :: nat
  vf_analyzer_cache :: "u32 \<rightharpoonup> analyzer"
  vf_text_space_states :: "u32 set"
  vf_verified_payload_segments :: "segment_id set"
  vf_dirty :: bool

text \<open>\<open>create_with_options\<close>: the handle of a file just created.\<close>
definition vfile_created :: "storage \<Rightarrow> toc_footer \<Rightarrow> create_contract \<Rightarrow> vfile" where
  "vfile_created f footer contract =
     \<lparr>vf_file = f, vf_mmap_len = (if f = [] then None else Some (length f)), vf_mode = ReadWrite,
      vf_footer = footer, vf_create_contract = contract,
      vf_catalog = catalog_snapshot_default, vf_frame_locators = Map.empty,
      vf_id_allocator = id_allocator_default,
      vf_segment_registry = \<lparr>rg_catalog = [], rg_by_id = Map.empty, rg_loaded = True\<rparr>,
      vf_dirty_segment_ids = {}, vf_dirty_collection_ids = {}, vf_dirty_frame_ids = {},
      vf_dirty_embedding_space_ids = {}, vf_dirty_codec_ids = {}, vf_dirty_text_space_ids = {},
      vf_dirty_analyzer_ids = {}, vf_dirty_field_schema_ids = {},
      vf_dirty_retrieval_profile_ids = {}, vf_dirty_fusion_profile_ids = {}, vf_codec_cache = Map.empty,
      vf_pending_payload_buf = [], vf_pending_payload_frames = [],
      vf_pending_payload_by_frame = Map.empty, vf_pending_uri_buf = [], vf_pending_uris = [],
      vf_tombstoned_frame_count = 0, vf_analyzer_cache = Map.empty, vf_text_space_states = {},
      vf_verified_payload_segments = {}, vf_dirty = False\<rparr>"

section \<open>Operations\<close>

type_synonym 'a op = "vfile \<Rightarrow> ('a result \<times> vfile) option"

definition oreturn :: "'a \<Rightarrow> 'a op" where
  "oreturn v s = Some (Inr v, s)"

definition olift :: "'a result \<Rightarrow> 'a op" where
  "olift r s = Some (r, s)"

definition obind :: "'a op \<Rightarrow> ('a \<Rightarrow> 'b op) \<Rightarrow> 'b op" where
  "obind m g s =
     (case m s of None \<Rightarrow> None | Some (Inl e, s') \<Rightarrow> Some (Inl e, s') | Some (Inr v, s') \<Rightarrow> g v s')"

text \<open>Read the state, change it.\<close>
definition ogets :: "(vfile \<Rightarrow> 'a) \<Rightarrow> 'a op" where
  "ogets g s = Some (Inr (g s), s)"

definition omodify :: "(vfile \<Rightarrow> vfile) \<Rightarrow> unit op" where
  "omodify g s = Some (Inr (), g s)"

definition oensure :: "bool \<Rightarrow> error \<Rightarrow> unit op" where
  "oensure b e = olift (ensure b e)"

lemma op_simps [simp]:
  "oreturn v s = Some (Inr v, s)" "ogets g s = Some (Inr (g s), s)" "omodify k s = Some (Inr (), k s)"
  "obind (oreturn v) c = c v"
  "obind (olift (Inr v)) c = c v" "obind (olift (Inl e)) c s = Some (Inl e, s)"
  "obind (ogets g) c s = c (g s) s" "obind (omodify k) c' s = c' () (k s)"
  by (simp_all add: oreturn_def ogets_def omodify_def obind_def olift_def fun_eq_iff)

lemma obind_Some:
  "m s = Some (Inr v, s') \<Longrightarrow> obind m g s = g v s'"
  "m s = Some (Inl e, s') \<Longrightarrow> obind m g s = Some (Inl e, s')"
  by (simp_all add: obind_def)

lemma obind_Inr_iff:
  "obind m g s = Some (Inr w, s'') \<longleftrightarrow> (\<exists>v s'. m s = Some (Inr v, s') \<and> g v s' = Some (Inr w, s''))"
  by (auto simp: obind_def split: option.splits sum.splits prod.splits)

lemma olift_Inr_iff [simp]: "olift r s = Some (Inr v, s') \<longleftrightarrow> r = Inr v \<and> s' = s"
  by (auto simp: olift_def)

lemma oensure_Inr_iff [simp]: "oensure b e s = Some (Inr u, s') \<longleftrightarrow> b \<and> s' = s"
  by (auto simp: oensure_def)

lemma oensure_True [simp]: "obind (oensure True e) c = c ()"
  by (simp add: oensure_def)

section \<open>Guards\<close>

definition ensure_segment_registry_loaded :: "env \<Rightarrow> unit op" where
  "ensure_segment_registry_loaded en s =
     (if rg_loaded (vf_segment_registry s) then Some (Inr (), s)
      else map_option (\<lambda>read.
          case read of
            Inl e \<Rightarrow> (Inl e, s)
          | Inr cat \<Rightarrow> (Inr (), s\<lparr>vf_segment_registry :=
              \<lparr>rg_catalog = cat, rg_by_id = build_segment_map cat, rg_loaded = True\<rparr>\<rparr>))
        (read_segment_catalog (en_hash en) (en_zstd_decode en) (en_entry_bincode en)
           (en_ref_bincode en) (vf_file s) (tb_segment_catalog_root (tf_body (vf_footer s)))))"

definition ensure_write :: "env \<Rightarrow> unit op" where
  "ensure_write en s =
     (if vf_mode s \<noteq> ReadWrite then Some (Inl (Unsupported ''file opened read-only''), s)
      else ensure_segment_registry_loaded en s)"

definition ensure_text_enabled :: "unit op" where
  "ensure_text_enabled s =
     (if \<not> cc_text_enabled (vf_create_contract s)
      then Some (Inl (Unsupported ''file was created with TextMode::Disabled''), s)
      else Some (Inr (), s))"

text \<open>Every handle is opened with its registry loaded: the slow path is not taken.\<close>
lemma ensure_write_loaded [simp]:
  "rg_loaded (vf_segment_registry s) \<Longrightarrow> vf_mode s = ReadWrite \<Longrightarrow> ensure_write en s = Some (Inr (), s)"
  by (simp add: ensure_write_def ensure_segment_registry_loaded_def)

end
