(* ===== verification/FrameChain.thy ===== *)
theory FrameChain imports FrameCatalog Handle begin

text \<open>
  The frame catalog on disk: the flush of the dirty frames as one more columnar segment
  (\<open>flush_frame_catalog_columnar\<close> of src/file/internals.rs) and the reader of both formats
  at open (\<open>read_frame_catalog_slim\<close> of src/file/catalog_io.rs), which walks a columnar
  chain with every field and a chain of the older row format with only id and status.
  Shown: a flushed frame catalog reads back as the table in memory; a handle that appends a
  columnar segment to a chain of the older format leaves a chain that this reader rejects; and
  on the older format the slim reader finds, for every frame, the status and the bytes of
  its record.

  As in the other chain walks, a walk along a cyclic chain is \<open>None\<close>.
\<close>

section \<open>The columnar chain\<close>

text \<open>\<open>by_id.insert\<close> for the newest segment, \<open>by_id.entry(id).or_insert\<close> for the older ones.\<close>
definition insert_frames :: "(u64 \<times> frame_desc) list \<Rightarrow> frame_desc list \<Rightarrow> (u64 \<times> frame_desc) list" where
  "insert_frames by_id frames = foldl (\<lambda>m f. AList.update (fd_frame_id f) f m) by_id frames"

definition or_insert_frames ::
  "(u64 \<times> frame_desc) list \<Rightarrow> frame_desc list \<Rightarrow> (u64 \<times> frame_desc) list" where
  "or_insert_frames by_id frames =
     foldl (\<lambda>m f. if map_of m (fd_frame_id f) = None then (fd_frame_id f, f) # m else m) by_id frames"

definition starts_with_vlf2 :: "bytes \<Rightarrow> bool" where
  "starts_with_vlf2 payload \<longleftrightarrow> take 4 payload = FRAME_CATALOG_MAGIC"

partial_function (option) frame_chain_loop ::
  "(segment_ref \<Rightarrow> bytes result) \<Rightarrow> segment_ref option \<Rightarrow> (u64 \<times> frame_desc) list \<Rightarrow>
     (u64 \<times> frame_desc) list result option" where
  "frame_chain_loop rd cur by_id =
     (case cur of
        None \<Rightarrow> Some (Inr by_id)
      | Some root \<Rightarrow>
          (case rbind (rd root) (\<lambda>payload.
                  if \<not> starts_with_vlf2 payload
                  then Inl (Format ''FrameCatalog chain mixes v2 and v1 wire formats; rebuild required'')
                  else rbind (decode_frame_catalog_previous_root payload) (\<lambda>prev_for_this.
                       rbind (decode_frame_catalog payload) (\<lambda>delta.
                         Inr (prev_for_this, or_insert_frames by_id (fc_frames delta))))) of
             Inl e \<Rightarrow> Some (Inl e)
           | Inr (prev_for_this, by_id') \<Rightarrow> frame_chain_loop rd prev_for_this by_id'))"

text \<open>
  The frames leave the hash map in any order and are sorted by id. The stub of a frame is
  \<open>stub_of\<close>.
\<close>
definition read_frame_catalog_v2_chain ::
  "hash \<Rightarrow> zstd_decode \<Rightarrow> storage \<Rightarrow> bytes \<Rightarrow> (frame_stub list \<times> frame_desc list) result option" where
  "read_frame_catalog_v2_chain h unz f head_payload =
     (case decode_frame_catalog head_payload of
        Inl e \<Rightarrow> Some (Inl e)
      | Inr head_delta \<Rightarrow>
          map_option (\<lambda>walked. rbind walked (\<lambda>by_id.
            let frames = sort_key fd_frame_id (map snd by_id) in Inr (map stub_of frames, frames)))
          (frame_chain_loop (\<lambda>root. read_segment_payload_typed h unz f root FrameCatalog)
             (fc_previous_root head_delta) (insert_frames [] (fc_frames head_delta))))"

section \<open>The row format\<close>

definition status_from_byte :: "u8 \<Rightarrow> frame_status result" where
  "status_from_byte b =
     (if b = 0 then Inr Frame_active else if b = 1 then Inr Frame_tombstoned
      else Inl (Format ''frame catalog: unknown FrameStatus discriminant''))"

text \<open>
  One record: the id is the first field of its bincode, the status its last byte. \<open>fid\<close> is
  the bincode of an id alone.
\<close>
definition slim_record ::
  "u64 bincode \<Rightarrow> segment_ref \<Rightarrow> bytes \<Rightarrow> nat \<Rightarrow> ((frame_stub \<times> frame_locator) \<times> nat) result" where
  "slim_record fid root payload offset =
     rbind (decode_catalog_record_envelope (drop offset payload)) (\<lambda>((r, rec), consumed).
     if rec = [] then Inl (Format ''frame catalog record empty'')
     else
     rbind (bincode_decode fid rec) (\<lambda>(id, _).
     rbind (status_from_byte (last rec)) (\<lambda>status.
       Inr ((\<lparr>st_frame_id = id, st_status = status\<rparr>,
             \<lparr>fl_catalog_segment = root, fl_payload_offset = offset + (consumed - length rec),
              fl_payload_len = length rec\<rparr>), consumed))))"

fun slim_records ::
  "u64 bincode \<Rightarrow> segment_ref \<Rightarrow> bytes \<Rightarrow> nat \<Rightarrow> nat \<Rightarrow> (frame_stub \<times> frame_locator) list result" where
  "slim_records fid root payload 0 offset = Inr []"
| "slim_records fid root payload (Suc n) offset =
     rbind (slim_record fid root payload offset) (\<lambda>(entry, consumed).
     rbind (slim_records fid root payload n (offset + consumed)) (\<lambda>rest. Inr (entry # rest)))"

definition slim_segment ::
  "hash \<Rightarrow> zstd_decode \<Rightarrow> u64 bincode \<Rightarrow> storage \<Rightarrow> segment_ref \<Rightarrow>
     (frame_stub \<times> frame_locator) list result" where
  "slim_segment h unz fid f root =
     rbind (read_segment_payload_typed h unz f root FrameCatalog) (\<lambda>payload.
     if length payload < CATALOG_HEADER_LEN then Inl (Format ''frame catalog truncated'')
     else slim_records fid root payload (unat (u32_of_le (slice 8 4 payload))) CATALOG_HEADER_LEN)"

definition locators_of :: "(frame_stub \<times> frame_locator) list \<Rightarrow> u64 \<rightharpoonup> frame_locator" where
  "locators_of entries = map_of (rev (map (\<lambda>(stub, loc). (st_frame_id stub, loc)) entries))"

text \<open>
  A chain of one segment keeps its records as they are; a longer one goes through a hash
  map in which the newest record of an id wins.
\<close>
definition read_frame_catalog_v1 ::
  "hash \<Rightarrow> zstd_decode \<Rightarrow> u64 bincode \<Rightarrow> segment_ref option bincode \<Rightarrow> storage \<Rightarrow> segment_ref option \<Rightarrow>
     (frame_stub list \<times> (u64 \<rightharpoonup> frame_locator)) result option" where
  "read_frame_catalog_v1 h unz fid rb f latest =
     map_option (\<lambda>walked. rbind walked (\<lambda>roots.
       if length roots = 1
       then rbind (slim_segment h unz fid f (roots ! 0)) (\<lambda>entries.
              Inr (map fst entries, locators_of entries))
       else rbind (map_result (slim_segment h unz fid f) roots) (\<lambda>segs.
              let sorted = hash_collect (\<lambda>(stub, loc). st_frame_id stub) (concat segs)
              in Inr (map fst sorted, locators_of sorted))))
     (catalog_chain_roots h unz rb f latest Kind_frame)"

text \<open>The format is that of the newest segment.\<close>
definition read_frame_catalog_slim ::
  "hash \<Rightarrow> zstd_decode \<Rightarrow> u64 bincode \<Rightarrow> segment_ref option bincode \<Rightarrow> storage \<Rightarrow> segment_ref option \<Rightarrow>
     (frame_stub list \<times> (u64 \<rightharpoonup> frame_locator) \<times> frame_desc list) result option" where
  "read_frame_catalog_slim h unz fid rb f frame_catalog_root =
     (let v1 = map_option (\<lambda>r. rbind r (\<lambda>(stubs, locators). Inr (stubs, locators, [])))
                 (read_frame_catalog_v1 h unz fid rb f frame_catalog_root) in
      case frame_catalog_root of
        None \<Rightarrow> v1
      | Some root \<Rightarrow>
          (case read_segment_payload_typed h unz f root FrameCatalog of
             Inl e \<Rightarrow> Some (Inl e)
           | Inr head_payload \<Rightarrow>
               if starts_with_vlf2 head_payload
               then map_option (\<lambda>r. rbind r (\<lambda>(stubs, frames). Inr (stubs, Map.empty, frames)))
                      (read_frame_catalog_v2_chain h unz f head_payload)
               else v1))"

section \<open>The flush\<close>

definition flush_frame_catalog_columnar ::
  "hash \<Rightarrow> storage \<Rightarrow> id_allocator \<Rightarrow> segment_registry_mut \<Rightarrow> segment_ref option \<Rightarrow> u64 set \<Rightarrow>
     frame_desc list \<Rightarrow>
     (segment_ref option \<times> storage \<times> id_allocator \<times> segment_registry_mut) result" where
  "flush_frame_catalog_columnar h f a segs body_root dirty_ids catalog =
     (if dirty_ids = {} then Inr (body_root, f, a, segs)
      else
        let delta = \<lparr>fc_previous_root = body_root,
                     fc_frames = dirty_records fd_frame_id catalog dirty_ids\<rparr> in
        rbind (encode_frame_catalog delta) (\<lambda>payload.
        rbind (ok_or (u32_try_from (length (fc_frames delta)))
                 (Format ''FrameCatalog delta count overflow'')) (\<lambda>item_count.
        rbind (append_registered_segment h f a segs FrameCatalog item_count payload)
          (\<lambda>(root, f', a', segs'). Inr (Some root, f', a', segs')))))"

section \<open>What the columnar walk collects\<close>

definition keyed :: "(u64 \<times> frame_desc) list \<Rightarrow> bool" where
  "keyed al \<longleftrightarrow> distinct (map fst al) \<and> (\<forall>(k, x)\<in>set al. fd_frame_id x = k)"

lemma keyed_insert: "keyed (insert_frames [] frames)"
  and map_insert: "map_of (insert_frames [] frames) = last_map fd_frame_id frames"
proof -
  show m: "map_of (insert_frames [] frames) = last_map fd_frame_id frames"
    unfolding insert_frames_def by (rule hash_fold_map)
  have d: "distinct (map fst (insert_frames [] frames))"
    unfolding insert_frames_def by (rule hash_fold_distinct) simp
  show "keyed (insert_frames [] frames)"
    unfolding keyed_def using d m last_map_key by (auto dest!: map_of_is_SomeI [OF d])
qed

lemma or_insert_frames:
  "keyed al \<Longrightarrow> keyed (or_insert_frames al frames) \<and>
     map_of (or_insert_frames al frames) = table_map fd_frame_id frames ++ map_of al"
proof (induction frames arbitrary: al)
  case Nil
  then show ?case by (simp add: or_insert_frames_def table_map_def)
next
  case (Cons f frames)
  have tm: "table_map fd_frame_id (f # frames) = (table_map fd_frame_id frames)(fd_frame_id f \<mapsto> f)"
    by (simp add: table_map_def)
  show ?case
  proof (cases "map_of al (fd_frame_id f)")
    case None
    then have "keyed ((fd_frame_id f, f) # al)"
      using Cons.prems by (auto simp: keyed_def map_of_eq_None_iff)
    from Cons.IH [OF this] None show ?thesis
      by (auto simp: or_insert_frames_def tm fun_eq_iff map_add_def split: option.split)
  next
    case (Some g)
    with Cons.IH [OF Cons.prems] show ?thesis
      by (auto simp: or_insert_frames_def tm fun_eq_iff map_add_def split: option.split)
  qed
qed

text \<open>\<open>frame_chain\<close>: from \<open>latest\<close>, the columnar segments, newest first, with their frames.\<close>
fun frame_chain :: "(segment_ref \<Rightarrow> bytes result) \<Rightarrow> segment_ref option \<Rightarrow>
    (segment_ref \<times> frame_desc list) list \<Rightarrow> bool" where
  "frame_chain rd latest [] \<longleftrightarrow> latest = None"
| "frame_chain rd latest ((root, frames) # older) \<longleftrightarrow>
     latest = Some root \<and> (\<exists>payload previous. rd root = Inr payload \<and>
       decode_frame_catalog payload = Inr \<lparr>fc_previous_root = previous, fc_frames = frames\<rparr> \<and>
       frame_chain rd previous older)"

lemma frame_chain_append:
  assumes "\<And>root p. rd root = Inr p \<Longrightarrow> rd' root = Inr p"
  shows "frame_chain rd latest segs \<Longrightarrow> frame_chain rd' latest segs"
proof (induction segs arbitrary: latest)
  case (Cons s older)
  then show ?case using assms by (cases s) auto
qed simp

lemma decoded_magic:
  assumes "decode_frame_catalog bs = Inr d" shows "starts_with_vlf2 bs"
  using assms
proof (rule decode_frame_catalog_cases)
  fix n c c'
  assume "frame_catalog_header (cursor_new bs) = Inr ((n, fc_previous_root d), c)"
  then show ?thesis
    by (auto simp: frame_catalog_header_def pbind_Inr read_array_def cursor_new_def slice_def
        starts_with_vlf2_def split: if_splits)
qed

lemma frame_chain_loop_chain:
  assumes "frame_chain rd latest segs" and "keyed al"
  shows "\<exists>al'. frame_chain_loop rd latest al = Some (Inr al') \<and> keyed al' \<and>
    map_of al' = chain_map fd_frame_id segs ++ map_of al"
  using assms
proof (induction segs arbitrary: latest al)
  case Nil
  then show ?case by (simp add: frame_chain_loop.simps)
next
  case (Cons s older)
  obtain root frames where s: "s = (root, frames)" by (cases s)
  from Cons.prems obtain payload previous where l: "latest = Some root"
    and rd: "rd root = Inr payload"
    and d: "decode_frame_catalog payload = Inr \<lparr>fc_previous_root = previous, fc_frames = frames\<rparr>"
    and older: "frame_chain rd previous older"
    by (auto simp: s)
  have "decode_frame_catalog_previous_root payload = Inr previous"
    using peek_previous_root [OF d] by simp
  moreover have "keyed (or_insert_frames al frames)"
    and m: "map_of (or_insert_frames al frames) = table_map fd_frame_id frames ++ map_of al"
    using or_insert_frames [OF Cons.prems(2)] by simp_all
  ultimately show ?case
    using Cons.IH [OF older, of "or_insert_frames al frames"] decoded_magic [OF d] d
    by (simp add: frame_chain_loop.simps [of rd "Some root"] l rd s)
qed

lemma sort_frames:
  assumes "keyed al"
  shows "strict_by fd_frame_id (sort_key fd_frame_id (map snd al))"
    and "table_map fd_frame_id (sort_key fd_frame_id (map snd al)) = map_of al"
proof -
  have k: "map fd_frame_id (map snd al) = map fst al" and d: "distinct (map fst al)"
    and key: "\<And>k x. (k, x) \<in> set al \<Longrightarrow> fd_frame_id x = k"
    using assms by (auto simp: keyed_def)
  have "distinct (map fd_frame_id (sort_key fd_frame_id (map snd al)))"
    using d by (simp add: distinct_map k [symmetric] del: map_map)
  then show s: "strict_by fd_frame_id (sort_key fd_frame_id (map snd al))"
    by (simp add: strict_by_def strict_sorted_iff)
  have "table_map fd_frame_id (sort_key fd_frame_id (map snd al)) i = Some x \<longleftrightarrow> map_of al i = Some x" for i x
  proof -
    have "table_map fd_frame_id (sort_key fd_frame_id (map snd al)) i = Some x \<longleftrightarrow>
        x \<in> snd ` set al \<and> fd_frame_id x = i"
      unfolding table_map_Some [OF strict_by_distinct [OF s]] by simp
    also have "\<dots> \<longleftrightarrow> (i, x) \<in> set al" using key by force
    finally show ?thesis using d by simp
  qed
  then have "table_map fd_frame_id (sort_key fd_frame_id (map snd al)) i = map_of al i" for i
    by (metis not_None_eq)
  then show "table_map fd_frame_id (sort_key fd_frame_id (map snd al)) = map_of al" by (rule ext)
qed

section \<open>A flushed frame catalog reads back\<close>

definition frames_on_disk ::
  "hash \<Rightarrow> zstd_decode \<Rightarrow> storage \<Rightarrow> segment_ref option \<Rightarrow> (u64 \<rightharpoonup> frame_desc) \<Rightarrow> bool" where
  "frames_on_disk h unz f latest m \<longleftrightarrow>
     (\<exists>segs. frame_chain (\<lambda>root. read_segment_payload_typed h unz f root FrameCatalog) latest segs \<and>
        (\<forall>s\<in>set segs. strict_by fd_frame_id (snd s)) \<and> chain_map fd_frame_id segs = m)"

lemma frames_on_disk_empty: "frames_on_disk h unz f None Map.empty"
  unfolding frames_on_disk_def by (rule exI [of _ "[]"]) simp

lemma frames_on_disk_append:
  "frames_on_disk h unz f latest m \<Longrightarrow> frames_on_disk h unz (f @ g) latest m"
  unfolding frames_on_disk_def
  using frame_chain_append [of "\<lambda>root. read_segment_payload_typed h unz f root FrameCatalog"
      "\<lambda>root. read_segment_payload_typed h unz (f @ g) root FrameCatalog"]
    read_segment_payload_typed_append by blast

lemma frames_on_disk_reads:
  assumes "frames_on_disk h unz f latest (table_map fd_frame_id t)" and t: "strict_by fd_frame_id t"
  shows "read_frame_catalog_slim h unz fid rb f latest = Some (Inr (map stub_of t, Map.empty, t))"
proof -
  obtain segs where c: "frame_chain (\<lambda>root. read_segment_payload_typed h unz f root FrameCatalog) latest segs"
    and d: "\<forall>s\<in>set segs. strict_by fd_frame_id (snd s)"
    and m: "chain_map fd_frame_id segs = table_map fd_frame_id t"
    using assms(1) by (auto simp: frames_on_disk_def)
  show ?thesis
  proof (cases segs)
    case Nil
    with c m have l: "latest = None" and "table_map fd_frame_id t = Map.empty" by simp_all
    then have "t = []" by (metis dom_empty dom_table_map image_is_empty set_empty)
    then show ?thesis
      by (simp add: read_frame_catalog_slim_def read_frame_catalog_v1_def catalog_chain_roots_def
          chain_walk.simps l hash_collect_def locators_of_def)
  next
    case (Cons s older)
    obtain root frames where s: "s = (root, frames)" by (cases s)
    from c obtain payload previous where l: "latest = Some root"
      and rd: "read_segment_payload_typed h unz f root FrameCatalog = Inr payload"
      and dec: "decode_frame_catalog payload = Inr \<lparr>fc_previous_root = previous, fc_frames = frames\<rparr>"
      and older: "frame_chain (\<lambda>root. read_segment_payload_typed h unz f root FrameCatalog) previous older"
      by (auto simp: Cons s)
    have "strict_by fd_frame_id frames" using d by (simp add: Cons s)
    then have lm: "last_map fd_frame_id frames = table_map fd_frame_id frames"
      by (intro last_map_table strict_by_distinct)
    obtain al where al: "frame_chain_loop (\<lambda>root. read_segment_payload_typed h unz f root FrameCatalog)
        previous (insert_frames [] frames) = Some (Inr al)" and k: "keyed al"
      and ma: "map_of al = chain_map fd_frame_id older ++ table_map fd_frame_id frames"
      using frame_chain_loop_chain [OF older keyed_insert [of frames]] by (auto simp: map_insert lm)
    have "table_map fd_frame_id (sort_key fd_frame_id (map snd al)) = table_map fd_frame_id t"
      using sort_frames(2) [OF k] ma m by (simp add: Cons s)
    then have "sort_key fd_frame_id (map snd al) = t"
      using strict_by_unique [OF sort_frames(1) [OF k] t] by simp
    then show ?thesis
      using decoded_magic [OF dec]
      by (simp add: read_frame_catalog_slim_def l rd read_frame_catalog_v2_chain_def dec al Let_def)
  qed
qed

lemma dirty_records_subset:
  "strict_by key t \<Longrightarrow> finite dirty \<Longrightarrow> set (dirty_records key t dirty) \<subseteq> set t"
  by (auto simp: set_dirty_records)

lemma flush_frames_on_disk:
  assumes h: "digest32 h" and fit: "fits (length f)" "fits (length f')"
    and disk: "frames_on_disk h unz f latest m" and sync: "table_synced fd_frame_id dirty t m"
    and wf: "\<forall>x\<in>set t. frame_wf x" and root: "ref_wf latest"
    and fl: "flush_frame_catalog_columnar h f a segs latest dirty t = Inr (latest', f', a', segs')"
  shows "\<exists>tail. f' = f @ tail" and "frames_on_disk h unz f' latest' (table_map fd_frame_id t)"
    and "ref_wf latest'"
proof -
  have st: "strict_by fd_frame_id t" using sync by (simp add: table_synced_def)
  have "(\<exists>tail. f' = f @ tail) \<and> frames_on_disk h unz f' latest' (table_map fd_frame_id t) \<and> ref_wf latest'"
  proof (cases "dirty = {}")
    case True
    have "m = table_map fd_frame_id t" using sync True by (auto simp: table_synced_def)
    then show ?thesis using fl True disk root by (auto simp: flush_frame_catalog_columnar_def)
  next
    case False
    let ?rs = "dirty_records fd_frame_id t dirty"
    let ?delta = "\<lparr>fc_previous_root = latest, fc_frames = ?rs\<rparr>"
    obtain payload n r where pl: "encode_frame_catalog ?delta = Inr payload"
      and app: "append_registered_segment h f a segs FrameCatalog n payload = Inr (r, f', a', segs')"
      and latest': "latest' = Some r"
      using fl False by (auto simp: flush_frame_catalog_columnar_def Let_def rbind_Inr_iff)
    note ext = append_registered_extends [OF h fit(1) app]
    obtain tail where tail: "f' = f @ tail" using ext(1) by blast
    obtain olds where c: "frame_chain (\<lambda>root. read_segment_payload_typed h unz f root FrameCatalog) latest olds"
      and d: "\<forall>s\<in>set olds. strict_by fd_frame_id (snd s)" and m: "chain_map fd_frame_id olds = m"
      using disk by (auto simp: frames_on_disk_def)
    have "frame_delta_wf ?delta"
      using root wf dirty_records_subset [OF st] sync by (auto simp: frame_delta_wf_def table_synced_def)
    then have dec: "decode_frame_catalog payload = Inr ?delta"
      using frame_catalog_decodes(1) [OF pl, of "[]"] by simp
    have "frame_chain (\<lambda>root. read_segment_payload_typed h unz f' root FrameCatalog) latest olds"
      unfolding tail by (rule frame_chain_append [OF read_segment_payload_typed_append c])
    then have "frame_chain (\<lambda>root. read_segment_payload_typed h unz f' root FrameCatalog) latest' ((r, ?rs) # olds)"
      using ext(3) [OF fit(2)] dec by (auto simp: latest')
    moreover have "chain_map fd_frame_id ((r, ?rs) # olds) = table_map fd_frame_id t"
      using table_synced_delta [OF sync] by (simp add: m)
    moreover have "\<forall>s\<in>set ((r, ?rs) # olds). strict_by fd_frame_id (snd s)"
      using d strict_dirty_records [OF st] by simp
    ultimately have "frames_on_disk h unz f' latest' (table_map fd_frame_id t)"
      unfolding frames_on_disk_def by blast
    then show ?thesis using tail ext(2) by (simp add: latest' ref_wf_def)
  qed
  then show "\<exists>tail. f' = f @ tail" and "frames_on_disk h unz f' latest' (table_map fd_frame_id t)"
    and "ref_wf latest'" by blast+
qed

section \<open>The slim view of the row format\<close>

fun status_byte :: "frame_status \<Rightarrow> u8" where
  "status_byte Frame_active = 0"
| "status_byte Frame_tombstoned = 1"

text \<open>
  What the slim reader relies on in the bincode of a frame: its id comes first, and its
  last byte is the variant of its status.
\<close>
definition slim_layout :: "frame_desc bincode \<Rightarrow> u64 bincode \<Rightarrow> bool" where
  "slim_layout b fid \<longleftrightarrow> (\<forall>d bs. encode_to_vec b d = Some bs \<longrightarrow>
     bs \<noteq> [] \<and> last bs = status_byte (fd_status d) \<and>
     (\<exists>n. decode_from_slice fid bs = Some (fd_frame_id d, n)))"

lemma status_from_byte [simp]: "status_from_byte (status_byte s) = Inr s"
  by (cases s) (simp_all add: status_from_byte_def)

text \<open>A locator names the bytes of a frame's record in its segment.\<close>
definition locates :: "frame_desc bincode \<Rightarrow> segment_ref \<Rightarrow> bytes \<Rightarrow> frame_desc \<Rightarrow> frame_locator \<Rightarrow> bool" where
  "locates b root payload d loc \<longleftrightarrow> fl_catalog_segment loc = root \<and>
     fl_payload_offset loc + fl_payload_len loc \<le> length payload \<and>
     encode_to_vec b d = Some (slice (fl_payload_offset loc) (fl_payload_len loc) payload)"

lemma slim_record_encoded:
  assumes lay: "slim_layout b fid" and enc: "encode_catalog_record b Kind_frame d = Inr bs"
    and pre: "length pre = offset" "payload = pre @ bs @ rest"
  obtains loc where "slim_record fid root payload offset = Inr ((stub_of d, loc), length bs)"
    and "locates b root payload d loc"
proof -
  obtain rec r where rec: "encode_to_vec b d = Some rec"
    and r: "catalog_record_header_new Kind_frame (length rec) = Inr r"
    and bs: "bs = catalog_record_header_encode r @ rec"
    using enc by (auto simp: encode_catalog_record_def bincode_encode_def rbind_Inr_iff)
  have ne: "rec \<noteq> []" and lst: "last rec = status_byte (fd_status d)"
    and fid: "\<exists>n. decode_from_slice fid rec = Some (fd_frame_id d, n)"
    using lay rec by (auto simp: slim_layout_def)
  have env: "decode_catalog_record_envelope (bs @ rest) = Inr ((r, rec), length bs)"
    using envelope_roundtrip [OF r, of rest] by (simp add: bs)
  have st: "stub_of d = \<lparr>st_frame_id = fd_frame_id d, st_status = fd_status d\<rparr>"
    by (simp add: stub_of_def)
  let ?loc = "\<lparr>fl_catalog_segment = root, fl_payload_offset = offset + (length bs - length rec),
    fl_payload_len = length rec\<rparr>"
  show thesis
  proof (rule that [of ?loc])
    show "slim_record fid root payload offset = Inr ((stub_of d, ?loc), length bs)"
      using fid by (auto simp: slim_record_def pre(2) pre(1) [symmetric] env ne lst st bincode_decode_def)
    have "slice (offset + CATALOG_RECORD_HEADER_LEN) (length rec)
        ((pre @ catalog_record_header_encode r) @ rec @ rest) = rec"
      by (simp add: slice_def pre(1) [symmetric])
    then show "locates b root payload d ?loc"
      using rec by (simp add: locates_def pre bs)
  qed
qed

lemma slim_records_encoded:
  assumes lay: "slim_layout b fid"
  shows "map_result (encode_catalog_record b Kind_frame) ds = Inr parts \<Longrightarrow> length pre = offset \<Longrightarrow>
    payload = pre @ concat parts @ rest \<Longrightarrow>
    \<exists>entries. slim_records fid root payload (length ds) offset = Inr entries \<and>
      list_all2 (\<lambda>d (stub, loc). stub = stub_of d \<and> locates b root payload d loc) ds entries"
proof (induction ds arbitrary: parts pre offset)
  case Nil
  then show ?case by simp
next
  case (Cons d ds)
  then obtain bs parts' where bs: "encode_catalog_record b Kind_frame d = Inr bs"
    and ps: "map_result (encode_catalog_record b Kind_frame) ds = Inr parts'" and parts: "parts = bs # parts'"
    by (auto simp: rbind_Inr_iff)
  have pay: "payload = pre @ bs @ (concat parts' @ rest)" using Cons.prems by (simp add: parts)
  obtain loc where r: "slim_record fid root payload offset = Inr ((stub_of d, loc), length bs)"
    and loc: "locates b root payload d loc"
    by (rule slim_record_encoded [OF lay bs Cons.prems(2) pay])
  have "length (pre @ bs) = offset + length bs" "payload = (pre @ bs) @ concat parts' @ rest"
    using Cons.prems(2) pay by simp_all
  from Cons.IH [OF ps this] obtain entries where
    "slim_records fid root payload (length ds) (offset + length bs) = Inr entries"
    "list_all2 (\<lambda>d (stub, loc). stub = stub_of d \<and> locates b root payload d loc) ds entries"
    by blast
  with r loc show ?case by simp
qed

lemma catalog_magic_not_vlf2: "\<not> starts_with_vlf2 (CATALOG_MAGIC @ bs)"
  by (simp add: starts_with_vlf2_def CATALOG_MAGIC_def FRAME_CATALOG_MAGIC_def)

lemma slim_segment_encoded:
  assumes lay: "slim_layout b fid" and enc: "encode_catalog_delta b rb Kind_frame prev ds = Inr p"
    and rd: "read_segment_payload_typed h unz f root FrameCatalog = Inr p"
  shows "\<not> starts_with_vlf2 p"
    and "\<exists>entries. slim_segment h unz fid f root = Inr entries \<and>
      list_all2 (\<lambda>d (stub, loc). stub = stub_of d \<and> locates b root p d loc) ds entries"
proof -
  obtain parts n previous pl where parts: "map_result (encode_catalog_record b Kind_frame) ds = Inr parts"
    and n: "u32_try_from (length ds) = Some n"
    and p: "p = (CATALOG_MAGIC @ u16_le (table_kind_code Kind_frame) @ u16_le CATALOG_RECORD_VERSION @ u32_le n)
      @ concat parts @ u32_le pl @ previous"
    using enc by (auto simp: encode_catalog_delta_def encode_catalog_records_def rbind_Inr_iff)
  show "\<not> starts_with_vlf2 p" unfolding p append_assoc by (rule catalog_magic_not_vlf2)
  have hl: "length (CATALOG_MAGIC @ u16_le (table_kind_code Kind_frame) @ u16_le CATALOG_RECORD_VERSION @ u32_le n)
      = CATALOG_HEADER_LEN"
    by (simp add: CATALOG_MAGIC_def CATALOG_HEADER_LEN_def)
  have "slice 8 4 ((CATALOG_MAGIC @ u16_le (table_kind_code Kind_frame) @ u16_le CATALOG_RECORD_VERSION) @
      u32_le n @ concat parts @ u32_le pl @ previous) = u32_le n"
    by (simp add: slice_def CATALOG_MAGIC_def)
  then have cnt: "unat (u32_of_le (slice 8 4 p)) = length ds"
    using u32_try_from_unat [OF n] by (simp add: p)
  have "CATALOG_HEADER_LEN \<le> length p" by (simp add: p CATALOG_MAGIC_def CATALOG_HEADER_LEN_def)
  then show "\<exists>entries. slim_segment h unz fid f root = Inr entries \<and>
      list_all2 (\<lambda>d (stub, loc). stub = stub_of d \<and> locates b root p d loc) ds entries"
    using slim_records_encoded [OF lay parts hl p] by (simp add: slim_segment_def rd cnt not_less [symmetric])
qed

lemma locators_of_distinct:
  assumes "list_all2 (\<lambda>d (stub, loc). stub = stub_of d \<and> P d loc) ds entries"
    and "distinct (map fd_frame_id ds)"
  shows "map fst entries = map stub_of ds" and "dom (locators_of entries) = fd_frame_id ` set ds"
    and "d \<in> set ds \<Longrightarrow> \<exists>loc. locators_of entries (fd_frame_id d) = Some loc \<and> P d loc"
proof -
  show m: "map fst entries = map stub_of ds"
    using assms(1) by (induction rule: list_all2_induct) auto
  have ids: "map (\<lambda>(stub, loc). st_frame_id stub) entries = map fd_frame_id ds"
    using assms(1) by (induction rule: list_all2_induct) (auto simp: stub_of_def)
  have keys: "map fst (map (\<lambda>(stub, loc). (st_frame_id stub, loc)) entries) = map fd_frame_id ds"
    using ids by (simp add: split_def comp_def)
  have lo: "locators_of entries = map_of (map (\<lambda>(stub, loc). (st_frame_id stub, loc)) entries)"
    unfolding locators_of_def
    by (rule map_of_inject_set [THEN iffD2])
      (use assms(2) keys in \<open>simp_all add: rev_map [symmetric] del: map_map\<close>)
  show "dom (locators_of entries) = fd_frame_id ` set ds"
    unfolding lo dom_map_of_conv_image_fst
    using arg_cong [OF keys, of set] by (simp only: set_map)
  assume d: "d \<in> set ds"
  then obtain i where i: "i < length ds" "d = ds ! i" by (auto simp: in_set_conv_nth)
  have l: "length entries = length ds" using assms(1) list_all2_lengthD by fastforce
  obtain stub loc where e: "entries ! i = (stub, loc)" by fastforce
  have P: "stub = stub_of d \<and> P d loc" using list_all2_nthD [OF assms(1) i(1)] i(2) e by simp
  have "(st_frame_id stub, loc) \<in> set (map (\<lambda>(stub, loc). (st_frame_id stub, loc)) entries)"
    using nth_mem [of i entries] i(1) l e by force
  then have "locators_of entries (st_frame_id stub) = Some loc"
    unfolding lo by (rule map_of_is_SomeI [rotated]) (use keys assms(2) in \<open>simp del: map_map\<close>)
  with P show "\<exists>loc. locators_of entries (fd_frame_id d) = Some loc \<and> P d loc"
    by (auto simp: stub_of_def)
qed

section \<open>Properties\<close>

text \<open>
  C21: On a file of the older row format the open reads only the id and the status of each
  frame, and that loses nothing: the stubs are those of the frames of the segment, exactly
  their ids have a locator, and the bytes a locator names are the record of that frame, so
  that the lookup that decodes them later gets the frame.
\<close>
theorem lazy_frames_found:
  assumes "slim_layout b fid" and "bincode_ok b" and "bincode_ok rb"
    and "encode_catalog_delta b rb Kind_frame None ds = Inr p"
    and "read_segment_payload_typed h unz f root FrameCatalog = Inr p"
    and "strict_by fd_frame_id ds"
  shows "\<exists>locators. read_frame_catalog_slim h unz fid rb f (Some root) =
      Some (Inr (map stub_of ds, locators, [])) \<and>
    dom locators = fd_frame_id ` set ds \<and>
    (\<forall>d\<in>set ds. \<exists>loc. locators (fd_frame_id d) = Some loc \<and> fl_catalog_segment loc = root \<and>
       fl_payload_offset loc + fl_payload_len loc \<le> length p \<and>
       decode_from_slice b (slice (fl_payload_offset loc) (fl_payload_len loc) p) =
         Some (d, fl_payload_len loc))"
proof -
  have rd: "read_segment_payload h unz f root = Inr p"
    by (rule read_segment_payload_typed_untyped [OF assms(5)])
  have roots: "catalog_chain_roots h unz rb f (Some root) Kind_frame = Some (Inr [root])"
    using catalog_delta_rt(2) [OF assms(2-4)]
    by (simp add: catalog_chain_roots_def chain_walk.simps rd)
  obtain entries where e: "slim_segment h unz fid f root = Inr entries"
    and l: "list_all2 (\<lambda>d (stub, loc). stub = stub_of d \<and> locates b root p d loc) ds entries"
    using slim_segment_encoded(2) [OF assms(1,4,5)] by blast
  note lo = locators_of_distinct [OF l strict_by_distinct [OF assms(6)]]
  have dec: "decode_from_slice b (slice (fl_payload_offset loc) (fl_payload_len loc) p) =
      Some (d, fl_payload_len loc)" if "locates b root p d loc" for d loc
  proof -
    have "encode_to_vec b d = Some (slice (fl_payload_offset loc) (fl_payload_len loc) p)"
      and l: "fl_payload_offset loc + fl_payload_len loc \<le> length p"
      using that by (simp_all add: locates_def)
    then have "decode_from_slice b (slice (fl_payload_offset loc) (fl_payload_len loc) p) =
        Some (d, length (slice (fl_payload_offset loc) (fl_payload_len loc) p))"
      using assms(2) unfolding bincode_ok_def by blast
    then show ?thesis unfolding length_slice [OF l] .
  qed
  have "\<forall>d\<in>set ds. \<exists>loc. locators_of entries (fd_frame_id d) = Some loc \<and> locates b root p d loc"
    using lo(3) by blast
  then have "\<forall>d\<in>set ds. \<exists>loc. locators_of entries (fd_frame_id d) = Some loc \<and>
      fl_catalog_segment loc = root \<and> fl_payload_offset loc + fl_payload_len loc \<le> length p \<and>
      decode_from_slice b (slice (fl_payload_offset loc) (fl_payload_len loc) p) =
         Some (d, fl_payload_len loc)"
    using dec by (fastforce simp: locates_def)
  moreover have "read_frame_catalog_slim h unz fid rb f (Some root) =
      Some (Inr (map stub_of ds, locators_of entries, []))"
    using slim_segment_encoded(1) [OF assms(1,4,5)]
    by (simp add: read_frame_catalog_slim_def read_frame_catalog_v1_def assms(5) roots e lo(1))
  ultimately show ?thesis using lo(2) by blast
qed

definition ex_row_bincode :: "frame_desc bincode" where
  "ex_row_bincode = \<lparr>encode_to_vec = (\<lambda>d. if d = ex_catalog_frame 2 then Some [2, 0] else None),
     decode_from_slice = (\<lambda>bs. if take 2 bs = [2, 0] then Some (ex_catalog_frame 2, 2) else None)\<rparr>"

definition ex_id_bincode :: "u64 bincode" where
  "ex_id_bincode = \<lparr>encode_to_vec = (\<lambda>i. Some [ucast i]),
     decode_from_slice = (\<lambda>bs. case bs of [] \<Rightarrow> None | b # _ \<Rightarrow> Some (ucast b, 1))\<rparr>"

lemma ex_row_layout: "slim_layout ex_row_bincode ex_id_bincode" "bincode_ok ex_row_bincode"
  by (auto simp: slim_layout_def bincode_ok_def ex_row_bincode_def ex_id_bincode_def ex_catalog_frame_def
      split: if_splits)

text \<open>A payload of the given type that was appended to an empty file.\<close>
lemma ex_appended:
  assumes "length payload < 1000"
  shows "\<exists>root f a segs. append_registered_segment ex_hash [] id_allocator_default
      (\<lparr>rg_catalog = [], rg_by_id = Map.empty, rg_loaded = True\<rparr>, {}) ty 1 payload = Inr (root, f, a, segs) \<and>
    fits (length f) \<and> length f < 2000 \<and> length (sr_checksum root) = 32 \<and>
    read_segment_payload_typed ex_hash unz f root ty = Inr payload"
proof -
  obtain sid a' where a: "allocate_segment_id id_allocator_default = Inr (sid, a')"
    by (simp add: allocate_segment_id_def take_id_def validate_next_def next_id_def checked_add_def
        id_allocator_default_def)
  have f0: "fits (length ([] :: storage))" by (simp add: fits_def)
  have "fits (SEGMENT_HEADER_SIZE + length payload)" using assms by (simp add: fits_def SEGMENT_HEADER_SIZE_def)
  then obtain root f segs where app: "append_registered_segment ex_hash [] id_allocator_default
      (\<lparr>rg_catalog = [], rg_by_id = Map.empty, rg_loaded = True\<rparr>, {}) ty 1 payload = Inr (root, f, a', segs)"
    and len: "length f = length ([] :: storage) + SEGMENT_HEADER_SIZE + length payload"
    using append_registered_segment_total [OF ex_hash_ok f0 _ a] by blast
  have "fits (length f)" "length f < 2000"
    using len assms by (simp_all add: fits_def SEGMENT_HEADER_SIZE_def)
  with app append_registered_extends [OF ex_hash_ok f0 app] show ?thesis by blast
qed

lemma ex_row_segment:
  "\<exists>p. encode_catalog_delta ex_row_bincode ex_ref_bincode Kind_frame None [ex_catalog_frame 2] = Inr p \<and>
     length p < 1000"
  by (simp add: encode_catalog_delta_def encode_catalog_records_def encode_catalog_record_def
      bincode_encode_def ex_row_bincode_def ex_ref_bincode_def ex_ref_encode_def
      catalog_record_header_new_def u32_try_from_def CATALOG_RECORD_HEADER_LEN_def CATALOG_MAGIC_def)

lemma lazy_frames_found_witness:
  "\<exists>f root locators. read_frame_catalog_slim ex_hash (\<lambda>_. None) ex_id_bincode ex_ref_bincode f (Some root) =
     Some (Inr ([stub_of (ex_catalog_frame 2)], locators, []))"
proof -
  obtain p where p: "encode_catalog_delta ex_row_bincode ex_ref_bincode Kind_frame None [ex_catalog_frame 2] = Inr p"
    and l: "length p < 1000"
    using ex_row_segment by blast
  obtain root f where rd: "read_segment_payload_typed ex_hash (\<lambda>_. None) f root FrameCatalog = Inr p"
    using ex_appended [OF l] by blast
  have "strict_by fd_frame_id [ex_catalog_frame 2]" by (simp add: strict_by_def)
  from lazy_frames_found [OF ex_row_layout ex_ref_bincode_ok p rd this] show ?thesis by auto
qed

text \<open>A chain whose head is columnar and whose next segment is in the row format is rejected.\<close>
lemma mixed_chain_rejected:
  assumes "read_segment_payload_typed h unz f r FrameCatalog = Inr payload"
    and "decode_frame_catalog payload = Inr \<lparr>fc_previous_root = Some row_root, fc_frames = frames\<rparr>"
    and "read_segment_payload_typed h unz f row_root FrameCatalog = Inr p" and "\<not> starts_with_vlf2 p"
  shows "read_frame_catalog_slim h unz fid rb f (Some r) =
    Some (Inl (Format ''FrameCatalog chain mixes v2 and v1 wire formats; rebuild required''))"
  using assms decoded_magic [OF assms(2)]
  by (simp add: read_frame_catalog_slim_def read_frame_catalog_v2_chain_def
      frame_chain_loop.simps [of _ "Some row_root"])

text \<open>What the flush of dirty frames appends, onto whatever chain.\<close>
lemma columnar_flush_appends:
  assumes "digest32 h" and "fits (length f)" and "fits (length f')"
    and "case root of None \<Rightarrow> True | Some r \<Rightarrow> length (sr_checksum r) = 32"
    and "strict_by fd_frame_id t" and "finite dirty" and "dirty \<noteq> {}" and "\<forall>x\<in>set t. frame_wf x"
    and "flush_frame_catalog_columnar h f a segs root dirty t = Inr (latest', f', a', segs')"
  obtains r payload tail where "latest' = Some r" and "f' = f @ tail"
    and "unat (sr_offset r) = length f"
    and "read_segment_payload_typed h unz f' r FrameCatalog = Inr payload"
    and "decode_frame_catalog payload =
      Inr \<lparr>fc_previous_root = root, fc_frames = dirty_records fd_frame_id t dirty\<rparr>"
proof -
  let ?delta = "\<lparr>fc_previous_root = root, fc_frames = dirty_records fd_frame_id t dirty\<rparr>"
  obtain payload n r where pl: "encode_frame_catalog ?delta = Inr payload"
    and app: "append_registered_segment h f a segs FrameCatalog n payload = Inr (r, f', a', segs')"
    and latest': "latest' = Some r"
    using assms(7,9) by (auto simp: flush_frame_catalog_columnar_def Let_def rbind_Inr_iff)
  note ext = append_registered_extends [OF assms(1,2) app]
  obtain tail where tail: "f' = f @ tail" using ext(1) by blast
  have "sr_offset r = of_nat (length f)"
    using app by (auto simp: append_registered_segment_def rbind_Inr_iff
        append_segment_at_end_eq [OF assms(1,2)] segment_ref_at_end_def Let_def)
  then have off: "unat (sr_offset r) = length f" using fits_u64 [OF assms(2)] by simp
  have "frame_delta_wf ?delta"
    using assms(4,8) dirty_records_subset [OF assms(5,6)]
    by (auto simp: frame_delta_wf_def ref_wf_def split: option.splits)
  then have "decode_frame_catalog payload = Inr ?delta"
    using frame_catalog_decodes(1) [OF pl, of "[]"] by simp
  from that [OF latest' tail off ext(3) [OF assms(3)] this] show thesis .
qed

lemma ex_single_encode:
  "length (sr_checksum root) = 32 \<Longrightarrow> \<exists>bs. encode_frame_catalog
     \<lparr>fc_previous_root = Some root, fc_frames = [ex_catalog_frame 2]\<rparr> = Inr bs \<and> length bs < 1000"
  by (simp add: encode_frame_catalog_def ex_catalog_frame_def Let_def u32_try_from_def
      encode_frame_id_column_def encode_created_column_def encode_updated_column_def
      encode_payload_ref_column_def encode_payload_refs_def
      encode_optional_metadata_column_def encode_optional_u64_column_def encode_optional_u32_column_def
      encode_optional_column_def encode_presence_def write_blob_def rle_u8_blob_def rle_u32_blob_def
      encode_rle_u8_def encode_rle_u32_def encode_rle_def checked_sub_i64_def in_i64_def
      metadata_value_def write_uvarint.simps write_ivarint_def zigzag_def write_previous_root_def
      FRAME_CATALOG_MAGIC_def)

end
