(* ===== verification/CollectionFilter.thy ===== *)
theory CollectionFilter imports Columns CatalogIo Toc Instances begin

text \<open>
  Collection filters (src/format/collection_filter.rs, src/file/filter_io.rs): for each
  collection a segment with the ids of its active frames and vectors, each side stored as
  differences or as runs, whichever is shorter; the collections a commit has to rewrite;
  and the load at open. Shown: the codec round trip whichever encodings were chosen; the
  collections not rewritten have unchanged members; and after the incremental rewrite the
  filters on disk are those of a full rebuild.
\<close>

section \<open>The segment\<close>

record filter_segment =
  cfs_collection_id :: collection_id
  cfs_frame_ids :: "u64 list"
  cfs_vector_ids :: "u64 list"
  cfs_previous_root :: "segment_ref option"

definition FILTER_MAGIC :: bytes where "FILTER_MAGIC = [0x56, 0x4C, 0x43, 0x46]"
definition FILTER_VERSION :: u16 where "FILTER_VERSION = 2"
definition ENCODING_SORTED_POSTINGS :: u8 where "ENCODING_SORTED_POSTINGS = 0"
definition ENCODING_RUNS :: u8 where "ENCODING_RUNS = 1"

definition is_strictly_sorted :: "u64 list \<Rightarrow> bool" where
  "is_strictly_sorted ids = list_all (\<lambda>(a, b). a < b) (windows2 ids)"

fun postings_from :: "u64 \<Rightarrow> u64 list \<Rightarrow> bytes" where
  "postings_from prev [] = []"
| "postings_from prev (i # ids) = write_varint_u64 (i - prev) @ postings_from i ids"

definition encode_sorted_postings :: "u64 list \<Rightarrow> bytes" where
  "encode_sorted_postings ids = postings_from 0 ids"

text \<open>\<open>start\<close> and \<open>len\<close> of the current run, \<open>cur\<close> its last id.\<close>
fun extend_run :: "u64 \<Rightarrow> u64 \<Rightarrow> u64 \<Rightarrow> u64 list \<Rightarrow> (u64 \<times> u64) list" where
  "extend_run start len cur [] = [(start, len)]"
| "extend_run start len cur (i # ids) =
     (if i = cur + 1 then extend_run start (len + 1) i ids
      else (start, len) # extend_run i 1 i ids)"

definition collect_runs :: "u64 list \<Rightarrow> (u64 \<times> u64) list" where
  "collect_runs ids = (case ids of [] \<Rightarrow> [] | i # ids' \<Rightarrow> extend_run i 1 i ids')"

fun write_runs :: "u64 \<Rightarrow> (u64 \<times> u64) list \<Rightarrow> bytes result" where
  "write_runs prev_end [] = Inr []"
| "write_runs prev_end ((start, len) # runs) =
     rbind (ok_or (checked_sub start prev_end) (Format ''CollectionFilterSegment runs not monotone''))
       (\<lambda>gap.
     rbind (ok_or (checked_add start len) (Format ''CollectionFilterSegment run end overflow''))
       (\<lambda>prev_end'.
     rbind (write_runs prev_end' runs) (\<lambda>bs.
       Inr (write_varint_u64 gap @ write_varint_u64 len @ bs))))"

definition encode_runs :: "u64 list \<Rightarrow> bytes result" where
  "encode_runs ids =
     (let runs = collect_runs ids in
      rbind (ok_or (u32_try_from (length runs)) (Format ''CollectionFilterSegment run count overflow''))
        (\<lambda>run_count. rbind (write_runs 0 runs) (\<lambda>bs. Inr (u32_le run_count @ bs))))"

text \<open>The shorter of the two bodies, with its flag.\<close>
definition encode_side :: "u64 list \<Rightarrow> (u8 \<times> bytes) result" where
  "encode_side ids =
     (let postings = encode_sorted_postings ids in
      rbind (encode_runs ids) (\<lambda>runs.
        if length runs < length postings then Inr (ENCODING_RUNS, runs)
        else Inr (ENCODING_SORTED_POSTINGS, postings)))"

definition encode_collection_filter_segment :: "filter_segment \<Rightarrow> bytes result" where
  "encode_collection_filter_segment seg =
     (if \<not> is_strictly_sorted (cfs_frame_ids seg)
      then Inl (Format ''CollectionFilterSegment frame_ids must be strictly sorted ascending'')
      else if \<not> is_strictly_sorted (cfs_vector_ids seg)
      then Inl (Format ''CollectionFilterSegment vector_ids must be strictly sorted ascending'')
      else
        rbind (encode_side (cfs_frame_ids seg)) (\<lambda>(frame_enc, frame_body).
        rbind (encode_side (cfs_vector_ids seg)) (\<lambda>(vector_enc, vector_body).
        rbind (ok_or (u32_try_from (length (cfs_frame_ids seg)))
                 (Format ''CollectionFilterSegment frame count overflow'')) (\<lambda>frame_count.
        rbind (ok_or (u32_try_from (length (cfs_vector_ids seg)))
                 (Format ''CollectionFilterSegment vector count overflow'')) (\<lambda>vector_count.
          Inr (FILTER_MAGIC @ u16_le FILTER_VERSION
               @ [(frame_enc AND 0x0F) OR push_bit 4 (vector_enc AND 0x0F), 0]
               @ u32_le (cfs_collection_id seg) @ u32_le frame_count @ u32_le vector_count
               @ write_optional_segment_ref (cfs_previous_root seg)
               @ frame_body @ vector_body))))))"

fun read_postings :: "nat \<Rightarrow> u64 \<Rightarrow> u64 list parser" where
  "read_postings 0 prev = preturn []"
| "read_postings (Suc n) prev =
     pbind read_varint_u64 (\<lambda>delta.
     pbind (plift (ok_or (checked_add prev delta) (Format ''CollectionFilterSegment id overflow''))) (\<lambda>i.
     pbind (read_postings n i) (\<lambda>ids. preturn (i # ids))))"

text \<open>\<open>for k in 0..len { ids.push(start.checked_add(k)?) }\<close>.\<close>
definition expand_run :: "u64 \<Rightarrow> u64 \<Rightarrow> u64 list result" where
  "expand_run start len =
     map_result (\<lambda>k. ok_or (checked_add start (of_nat k))
       (Format ''CollectionFilterSegment run id overflow'')) [0..<unat len]"

fun read_runs :: "nat \<Rightarrow> u64 \<Rightarrow> u64 list \<Rightarrow> u64 list parser" where
  "read_runs 0 prev_end ids = preturn ids"
| "read_runs (Suc n) prev_end ids =
     pbind read_varint_u64 (\<lambda>gap. pbind read_varint_u64 (\<lambda>len.
     pbind (plift (ok_or (checked_add prev_end gap)
                     (Format ''CollectionFilterSegment run start overflow''))) (\<lambda>start.
     pbind (plift (expand_run start len)) (\<lambda>run.
     pbind (plift (ok_or (checked_add start len)
                     (Format ''CollectionFilterSegment run end overflow''))) (\<lambda>prev_end'.
       read_runs n prev_end' (ids @ run))))))"

definition decode_id_block :: "nat \<Rightarrow> u8 \<Rightarrow> u64 list parser" where
  "decode_id_block count encoding =
     (if encoding = ENCODING_SORTED_POSTINGS then read_postings count 0
      else if encoding = ENCODING_RUNS then
        pbind read_u32 (\<lambda>run_count. pbind (read_runs (unat run_count) 0 []) (\<lambda>ids.
          if length ids \<noteq> count
          then perr (Format ''CollectionFilterSegment run total differs from declared count'')
          else preturn ids))
      else perr (Unsupported ''CollectionFilterSegment encoding not supported''))"

definition filter_parser :: "filter_segment parser" where
  "filter_parser =
     pbind (read_array 4) (\<lambda>magic.
     pbind (pensure (magic = FILTER_MAGIC) (Format ''CollectionFilterSegment magic mismatch'')) (\<lambda>_.
     pbind read_u16 (\<lambda>version.
     pbind (pensure (version = FILTER_VERSION) (Format ''CollectionFilterSegment version mismatch'')) (\<lambda>_.
     pbind read_u8 (\<lambda>encoding.
     let frame_enc = encoding AND 0x0F; vector_enc = drop_bit 4 encoding AND 0x0F in
     pbind read_u8 (\<lambda>_.
     pbind read_u32 (\<lambda>collection_id.
     pbind read_u32 (\<lambda>frame_count. pbind read_u32 (\<lambda>vector_count.
     pbind read_optional_segment_ref (\<lambda>previous_root.
     pbind (decode_id_block (unat frame_count) frame_enc) (\<lambda>frame_ids.
     pbind (decode_id_block (unat vector_count) vector_enc) (\<lambda>vector_ids.
     pbind peof (\<lambda>_.
     preturn \<lparr>cfs_collection_id = collection_id, cfs_frame_ids = frame_ids,
              cfs_vector_ids = vector_ids, cfs_previous_root = previous_root\<rparr>)))))))))))))"

definition decode_collection_filter_segment :: "bytes \<Rightarrow> filter_segment result" where
  "decode_collection_filter_segment bs = run_parser filter_parser bs"

section \<open>Membership\<close>

definition active_frame_ids :: "catalog_snapshot \<Rightarrow> collection_id \<Rightarrow> u64 list" where
  "active_frame_ids catalog cid =
     sort (map fd_frame_id (filter (\<lambda>f. fd_collection_id f = cid \<and> fd_status f = Frame_active)
                              (cs_frames catalog)))"

definition active_vector_ids :: "catalog_snapshot \<Rightarrow> collection_id \<Rightarrow> u64 list" where
  "active_vector_ids catalog cid =
     sort (map vd_vector_id (filter (\<lambda>v. vd_collection_id v = cid \<and> vd_status v = Vector_active)
                               (cs_vectors catalog)))"

definition build_filter :: "catalog_snapshot \<Rightarrow> collection_id \<Rightarrow> filter_segment" where
  "build_filter catalog cid =
     \<lparr>cfs_collection_id = cid, cfs_frame_ids = active_frame_ids catalog cid,
      cfs_vector_ids = active_vector_ids catalog cid, cfs_previous_root = None\<rparr>"

definition dirty_filter_collections ::
  "catalog_snapshot \<Rightarrow> u64 set \<Rightarrow> u64 set \<Rightarrow> collection_id list" where
  "dirty_filter_collections catalog dirty_frame_ids dirty_vector_ids =
     sorted_list_of_set
       (set (List.map_filter
          (\<lambda>fid. map_option fd_collection_id (lookup_by fd_frame_id fid (cs_frames catalog)))
          (sorted_list_of_set dirty_frame_ids)) \<union>
        set (List.map_filter
          (\<lambda>vid. map_option vd_collection_id (lookup_by vd_vector_id vid (cs_vectors catalog)))
          (sorted_list_of_set dirty_vector_ids)))"

fun set_filter_root ::
  "collection_id \<Rightarrow> segment_ref \<Rightarrow> collection_filter_root list \<Rightarrow> collection_filter_root list" where
  "set_filter_root cid root [] =
     [\<lparr>cf_collection_id = cid, cf_frame_filter_root = Some root, cf_vector_filter_root = Some root\<rparr>]"
| "set_filter_root cid root (r # rs) =
     (if cf_collection_id r = cid
      then r\<lparr>cf_frame_filter_root := Some root, cf_vector_filter_root := Some root\<rparr> # rs
      else r # set_filter_root cid root rs)"

definition prior_filter_root ::
  "collection_id \<Rightarrow> collection_filter_root list \<Rightarrow> segment_ref option" where
  "prior_filter_root cid roots =
     (case List.find (\<lambda>r. cf_collection_id r = cid) roots of
        None \<Rightarrow> None | Some r \<Rightarrow> cf_frame_filter_root r)"

definition write_collection_filter_segment ::
  "hash \<Rightarrow> storage \<Rightarrow> id_allocator \<Rightarrow> segment_registry_mut \<Rightarrow> toc_footer_body \<Rightarrow>
     catalog_snapshot \<Rightarrow> collection_id \<Rightarrow>
     (toc_footer_body \<times> storage \<times> id_allocator \<times> segment_registry_mut) result" where
  "write_collection_filter_segment h f a segs body catalog cid =
     (let snapshot = (build_filter catalog cid)
            \<lparr>cfs_previous_root := prior_filter_root cid (tb_collection_filter_roots body)\<rparr> in
      rbind (encode_collection_filter_segment snapshot) (\<lambda>payload.
      let item_count = of_nat (length (cfs_frame_ids snapshot) + length (cfs_vector_ids snapshot)) in
      rbind (append_registered_segment h f a segs CollectionFilter item_count payload)
        (\<lambda>(root, f', a', segs').
           Inr (body\<lparr>tb_collection_filter_roots :=
                  set_filter_root cid root (tb_collection_filter_roots body)\<rparr>, f', a', segs'))))"

type_synonym filter_cache = "collection_id \<rightharpoonup> u64 list \<times> u64 list"

fun load_filters ::
  "hash \<Rightarrow> zstd_decode \<Rightarrow> storage \<Rightarrow> collection_filter_root list \<Rightarrow> filter_cache \<Rightarrow>
     filter_cache result" where
  "load_filters h unz f [] out = Inr out"
| "load_filters h unz f (r # rs) out =
     (case cf_frame_filter_root r of
        None \<Rightarrow> load_filters h unz f rs out
      | Some root \<Rightarrow>
          rbind (read_segment_payload_typed h unz f root CollectionFilter) (\<lambda>payload.
          rbind (decode_collection_filter_segment payload) (\<lambda>seg.
            load_filters h unz f rs
              (out(cfs_collection_id seg \<mapsto> (cfs_frame_ids seg, cfs_vector_ids seg))))))"

definition load_collection_filter_cache ::
  "hash \<Rightarrow> zstd_decode \<Rightarrow> storage \<Rightarrow> toc_footer_body \<Rightarrow> filter_cache result" where
  "load_collection_filter_cache h unz f body =
     load_filters h unz f (tb_collection_filter_roots body) Map.empty"

text \<open>The loop of \<open>write_catalog_segments_profiled\<close> over the dirty collections.\<close>
fun write_filters ::
  "hash \<Rightarrow> catalog_snapshot \<Rightarrow> collection_id list \<Rightarrow>
     toc_footer_body \<times> storage \<times> id_allocator \<times> segment_registry_mut \<times> filter_cache \<Rightarrow>
     (toc_footer_body \<times> storage \<times> id_allocator \<times> segment_registry_mut \<times> filter_cache) result" where
  "write_filters h catalog [] st = Inr st"
| "write_filters h catalog (cid # cids) (body, f, a, segs, cache) =
     rbind (write_collection_filter_segment h f a segs body catalog cid) (\<lambda>(body', f', a', segs').
       write_filters h catalog cids
         (body', f', a', segs',
          cache(cid \<mapsto> (active_frame_ids catalog cid, active_vector_ids catalog cid))))"

text \<open>The accessors of the handle.\<close>
definition collection_member_frames :: "filter_cache \<Rightarrow> collection_id \<Rightarrow> u64 list" where
  "collection_member_frames cache cid =
     (case cache cid of Some (frames, _) \<Rightarrow> frames | None \<Rightarrow> [])"

definition collection_member_vectors :: "filter_cache \<Rightarrow> collection_id \<Rightarrow> u64 list" where
  "collection_member_vectors cache cid =
     (case cache cid of Some (_, vectors) \<Rightarrow> vectors | None \<Rightarrow> [])"

section \<open>Round trip\<close>

lemma strictly_sorted_iff: "is_strictly_sorted ids \<longleftrightarrow> sorted_wrt (<) ids"
  unfolding is_strictly_sorted_def by (rule windows2_sorted) simp

definition run_ids_of :: "u64 \<times> u64 \<Rightarrow> u64 list" where
  "run_ids_of r = map (\<lambda>k. fst r + of_nat k) [0..<unat (snd r)]"

definition runs_ids :: "(u64 \<times> u64) list \<Rightarrow> u64 list" where
  "runs_ids runs = concat (map run_ids_of runs)"

lemma runs_ids_simps [simp]:
  "runs_ids [] = []" "runs_ids (r # rs) = run_ids_of r @ runs_ids rs"
  by (simp_all add: runs_ids_def)

lemma runs_ids_extend:
  "sorted_wrt (<) (cur # ids) \<Longrightarrow> unat start + unat len = Suc (unat cur) \<Longrightarrow>
   unat len + length ids < 2 ^ 64 \<Longrightarrow>
   runs_ids (extend_run start len cur ids) = run_ids_of (start, len) @ ids"
proof (induction start len cur ids rule: extend_run.induct)
  case (1 start len cur)
  then show ?case by simp
next
  case (2 start len cur i ids)
  have lt: "cur < i" "sorted_wrt (<) (i # ids)" using "2.prems"(1) by auto
  have i64: "unat i < 2 ^ 64" using unsigned_less [where ?'a = nat, of i] by simp
  have c1: "unat (cur + 1) = Suc (unat cur)"
    using lt(1) i64 by (simp add: unat_word_ariths word_less_nat_alt)
  show ?case
  proof (cases "i = cur + 1")
    case True
    have l1: "unat (len + 1) = Suc (unat len)"
      using "2.prems"(3) by (simp add: unat_word_ariths)
    have "start + of_nat (unat len) = i"
    proof (rule word_unat_eq_iff [THEN iffD2])
      show "unat (start + of_nat (unat len)) = unat i"
        using "2.prems"(2) i64 by (simp add: True c1 unat_word_ariths)
    qed
    then have "run_ids_of (start, len + 1) = run_ids_of (start, len) @ [i]"
      by (simp add: run_ids_of_def l1)
    moreover have "runs_ids (extend_run start (len + 1) i ids) = run_ids_of (start, len + 1) @ ids"
      using "2.IH"(1) [OF True lt(2)] "2.prems"(2,3) by (simp add: l1 True c1)
    ultimately show ?thesis using True by simp
  next
    case False
    have "runs_ids (extend_run i 1 i ids) = run_ids_of (i, 1) @ ids"
      using "2.IH"(2) [OF False lt(2)] "2.prems"(3) by simp
    then show ?thesis using False by (simp add: run_ids_of_def)
  qed
qed

lemma runs_ids_collect: "sorted_wrt (<) ids \<Longrightarrow> length ids < 2 ^ 64 \<Longrightarrow> runs_ids (collect_runs ids) = ids"
  by (cases ids) (auto simp: collect_runs_def runs_ids_extend run_ids_of_def)

lemma expand_run_Inr:
  assumes "checked_add start len = Some e"
  shows "expand_run start len = Inr (run_ids_of (start, len))"
proof -
  have "unat start + unat len < 2 ^ 64" using assms by (simp add: checked_add_Some_iff)
  then have "checked_add start (of_nat k) = Some (start + of_nat k)" if "k < unat len" for k
  proof -
    have "unat (of_nat k :: u64) = k"
      using that unsigned_less [where ?'a = nat, of len] by (intro unat_of_nat_eq) simp
    then show ?thesis using \<open>unat start + unat len < 2 ^ 64\<close> that by (simp add: checked_add_def)
  qed
  then have "map_result (\<lambda>k. ok_or (checked_add start (of_nat k))
      (Format ''CollectionFilterSegment run id overflow'')) [0..<unat len] =
      Inr (map (\<lambda>k. start + of_nat k) [0..<unat len])"
    by (intro map_result_Inr) simp
  then show ?thesis by (simp add: expand_run_def run_ids_of_def)
qed

lemma parses_runs:
  "write_runs prev_end runs = Inr bs \<Longrightarrow>
   parses (read_runs (length runs) prev_end acc) bs (acc @ runs_ids runs)"
proof (induction prev_end runs arbitrary: bs acc rule: write_runs.induct)
  case (1 prev_end)
  then show ?case by (simp add: parses_return)
next
  case (2 prev_end start len runs)
  then obtain gap e bs' where gap: "checked_sub start prev_end = Some gap"
    and e: "checked_add start len = Some e" and w: "write_runs e runs = Inr bs'"
    and bs: "bs = write_varint_u64 gap @ write_varint_u64 len @ bs'"
    by (auto simp: rbind_Inr_iff)
  have "checked_add prev_end gap = Some start"
    using gap by (auto simp: checked_sub_def split: if_splits)
  moreover have "parses (read_runs (length runs) e (acc @ run_ids_of (start, len))) bs'
      (acc @ runs_ids ((start, len) # runs))"
    using "2.IH" [of e bs' "acc @ run_ids_of (start, len)"] w by simp
  ultimately show ?case
    unfolding bs read_runs.simps list.size add_Suc_right add_0_right
    by (intro parses_bind [OF parses_varint]) (simp add: expand_run_Inr [OF e] e)
qed

lemma parses_postings:
  "sorted_wrt (\<le>) (prev # ids) \<Longrightarrow> parses (read_postings (length ids) prev) (postings_from prev ids) ids"
proof (induction ids arbitrary: prev)
  case Nil
  then show ?case by (simp add: parses_return)
next
  case (Cons i ids)
  then have le: "prev \<le> i" and s: "sorted_wrt (\<le>) (i # ids)" by auto
  show ?case
    unfolding read_postings.simps postings_from.simps list.size add_Suc_right add_0_right
    by (rule parses_bind [OF parses_varint])
      (simp add: le, rule parses_bind_return [OF Cons.IH [OF s]], rule refl)
qed

text \<open>Either encoding of a side is undone by the block reader.\<close>
lemma parses_side:
  assumes enc: "encode_side ids = Inr (flag, body)" and s: "is_strictly_sorted ids"
    and small: "length ids < 2 ^ 32"
  shows "parses (decode_id_block (length ids) flag) body ids" and "flag \<in> {0, 1}"
proof -
  have srt: "sorted_wrt (<) ids" using s by (simp add: strictly_sorted_iff)
  obtain rbs where r: "encode_runs ids = Inr rbs"
    and fb: "(flag, body) = (if length rbs < length (encode_sorted_postings ids) then (ENCODING_RUNS, rbs)
        else (ENCODING_SORTED_POSTINGS, encode_sorted_postings ids))"
    using enc by (auto simp: encode_side_def Let_def rbind_Inr_iff split: if_splits)
  show "flag \<in> {0, 1}"
    using fb by (auto simp: ENCODING_RUNS_def ENCODING_SORTED_POSTINGS_def split: if_splits)
  show "parses (decode_id_block (length ids) flag) body ids"
  proof (cases "length rbs < length (encode_sorted_postings ids)")
    case True
    obtain n bs where n: "u32_try_from (length (collect_runs ids)) = Some n"
      and w: "write_runs 0 (collect_runs ids) = Inr bs" and rbs: "rbs = u32_le n @ bs"
      using r by (auto simp: encode_runs_def Let_def rbind_Inr_iff)
    have p: "parses (read_runs (unat n) 0 []) bs ids"
      using parses_runs [OF w, of "[]"] small by (simp add: runs_ids_collect [OF srt] u32_try_from_unat [OF n])
    have "parses (pbind read_u32 (\<lambda>run_count. pbind (read_runs (unat run_count) 0 []) (\<lambda>xs.
          if length xs \<noteq> length ids
          then perr (Format ''CollectionFilterSegment run total differs from declared count'')
          else preturn xs))) rbs ids"
      unfolding rbs by (rule parses_bind [OF parses_u32], rule parses_bind_end [OF p]) (simp add: parses_return)
    then show ?thesis
      using True fb by (simp add: decode_id_block_def ENCODING_RUNS_def ENCODING_SORTED_POSTINGS_def)
  next
    case False
    have "sorted_wrt (\<le>) (0 # ids)"
      using srt by (auto intro: sorted_wrt_mono_rel [rotated])
    from parses_postings [OF this] show ?thesis
      using False fb by (simp add: decode_id_block_def encode_sorted_postings_def)
  qed
qed

lemma nibbles:
  assumes "a \<in> {0, 1 :: u8}" and "b \<in> {0, 1}"
  shows "((a AND 0x0F) OR push_bit 4 (b AND 0x0F)) AND 0x0F = a"
    and "drop_bit 4 ((a AND 0x0F) OR push_bit 4 (b AND 0x0F)) AND 0x0F = b"
  using assms by auto

lemma filter_rt:
  assumes enc: "encode_collection_filter_segment seg = Inr bs" and wf: "ref_wf (cfs_previous_root seg)"
  shows "decode_collection_filter_segment bs = Inr seg"
proof -
  obtain fe fb ve vb fc vc where s: "is_strictly_sorted (cfs_frame_ids seg)" "is_strictly_sorted (cfs_vector_ids seg)"
    and f: "encode_side (cfs_frame_ids seg) = Inr (fe, fb)"
    and v: "encode_side (cfs_vector_ids seg) = Inr (ve, vb)"
    and fc: "u32_try_from (length (cfs_frame_ids seg)) = Some fc"
    and vc: "u32_try_from (length (cfs_vector_ids seg)) = Some vc"
    and bs: "bs = FILTER_MAGIC @ u16_le FILTER_VERSION
         @ [(fe AND 0x0F) OR push_bit 4 (ve AND 0x0F)] @ [0]
         @ u32_le (cfs_collection_id seg) @ u32_le fc @ u32_le vc
         @ write_optional_segment_ref (cfs_previous_root seg) @ fb @ vb"
    using enc by (auto simp: encode_collection_filter_segment_def rbind_Inr_iff split: if_splits)
  have small: "length (cfs_frame_ids seg) < 2 ^ 32" "length (cfs_vector_ids seg) < 2 ^ 32"
    using fc vc by (auto simp: u32_try_from_Some_iff)
  note F = parses_side [OF f s(1) small(1)] and V = parses_side [OF v s(2) small(2)]
  note nib = nibbles [OF F(2) V(2)]
  have pf: "parses (decode_id_block (unat fc) fe) fb (cfs_frame_ids seg)"
    using F(1) by (simp add: u32_try_from_unat [OF fc])
  have pv: "parses (decode_id_block (unat vc) ve) vb (cfs_vector_ids seg)"
    using V(1) by (simp add: u32_try_from_unat [OF vc])
  have seg: "seg = \<lparr>cfs_collection_id = cfs_collection_id seg, cfs_frame_ids = cfs_frame_ids seg,
      cfs_vector_ids = cfs_vector_ids seg, cfs_previous_root = cfs_previous_root seg\<rparr>"
    by (cases seg) simp
  show ?thesis
    unfolding decode_collection_filter_segment_def filter_parser_def bs
    apply (rule run_parser_all)
    apply (rule parses_all_bind [OF parses_read_array], simp add: FILTER_MAGIC_def)
    apply (simp only: pbind_ensure_True simp_thms)
    apply (rule parses_all_bind [OF parses_u16], simp only: pbind_ensure_True simp_thms)
    apply (rule parses_all_bind [OF parses_u8], simp only: Let_def nib)
    apply (rule parses_all_bind [OF parses_u8], rule parses_all_bind [OF parses_u32])
    apply (rule parses_all_bind [OF parses_u32], rule parses_all_bind [OF parses_u32])
    apply (rule parses_all_bind [OF parses_optional_segment_ref [OF wf]])
    apply (rule parses_all_bind [OF pf])
    apply (rule parses_all_bind [where ys = "[]", OF pv, simplified])
    apply (rule parses_all_eof, subst seg, rule parses_all_return)
    done
qed

section \<open>The filters on disk\<close>

definition filter_entry_ok ::
  "hash \<Rightarrow> zstd_decode \<Rightarrow> storage \<Rightarrow> filter_cache \<Rightarrow> collection_filter_root \<Rightarrow> bool" where
  "filter_entry_ok h unz f M r \<longleftrightarrow>
     (\<exists>root payload seg. cf_frame_filter_root r = Some root \<and> length (sr_checksum root) = 32 \<and>
        read_segment_payload_typed h unz f root CollectionFilter = Inr payload \<and>
        decode_collection_filter_segment payload = Inr seg \<and>
        cfs_collection_id seg = cf_collection_id r \<and>
        M (cf_collection_id r) = Some (cfs_frame_ids seg, cfs_vector_ids seg))"

text \<open>The roots of a footer and what they hold.\<close>
definition filters_reflect ::
  "hash \<Rightarrow> zstd_decode \<Rightarrow> storage \<Rightarrow> collection_filter_root list \<Rightarrow> filter_cache \<Rightarrow> bool" where
  "filters_reflect h unz f roots M \<longleftrightarrow>
     dom M = cf_collection_id ` set roots \<and> distinct (map cf_collection_id roots) \<and>
     (\<forall>r\<in>set roots. filter_entry_ok h unz f M r)"

lemma load_filters_reflect:
  "\<forall>r\<in>set roots. filter_entry_ok h unz f M r \<Longrightarrow>
   load_filters h unz f roots out =
     Inr (\<lambda>c. if c \<in> cf_collection_id ` set roots then M c else out c)"
proof (induction roots arbitrary: out)
  case Nil
  then show ?case by simp
next
  case (Cons r roots)
  then have "filter_entry_ok h unz f M r" by simp
  then obtain root payload seg where r: "cf_frame_filter_root r = Some root"
    "read_segment_payload_typed h unz f root CollectionFilter = Inr payload"
    "decode_collection_filter_segment payload = Inr seg" "cfs_collection_id seg = cf_collection_id r"
    "M (cf_collection_id r) = Some (cfs_frame_ids seg, cfs_vector_ids seg)"
    by (auto simp: filter_entry_ok_def)
  have "load_filters h unz f (r # roots) out =
      load_filters h unz f roots (out(cf_collection_id r := M (cf_collection_id r)))"
    by (simp add: r)
  also have "\<dots> = Inr (\<lambda>c. if c \<in> cf_collection_id ` set roots then M c
      else (out(cf_collection_id r := M (cf_collection_id r))) c)"
    using Cons by simp
  finally show ?case by (auto simp: fun_eq_iff)
qed

lemma load_collection_filters:
  "filters_reflect h unz f (tb_collection_filter_roots body) M \<Longrightarrow>
   load_collection_filter_cache h unz f body = Inr M"
  unfolding load_collection_filter_cache_def filters_reflect_def
  by (subst load_filters_reflect [where M = M]) (auto simp: fun_eq_iff, metis domIff)

lemma filter_entry_append:
  "filter_entry_ok h unz f M r \<Longrightarrow> filter_entry_ok h unz (f @ g) M r"
  using read_segment_payload_typed_append [of h unz f _ CollectionFilter]
  unfolding filter_entry_ok_def by blast

lemma set_filter_root_ids:
  "cf_collection_id ` set (set_filter_root cid root roots) = insert cid (cf_collection_id ` set roots)"
  "distinct (map cf_collection_id roots) \<Longrightarrow> distinct (map cf_collection_id (set_filter_root cid root roots))"
proof -
  show ids: "cf_collection_id ` set (set_filter_root cid root roots) = insert cid (cf_collection_id ` set roots)"
    for roots by (induction roots) auto
  show "distinct (map cf_collection_id roots) \<Longrightarrow> distinct (map cf_collection_id (set_filter_root cid root roots))"
  proof (induction roots)
    case Nil
    then show ?case by simp
  next
    case (Cons r roots)
    then show ?case using ids [of roots] by auto
  qed
qed

lemma set_filter_root_entries:
  assumes "distinct (map cf_collection_id roots)"
  shows "\<forall>r\<in>set (set_filter_root cid root roots).
    cf_collection_id r = cid \<and> cf_frame_filter_root r = Some root \<or>
    r \<in> set roots \<and> cf_collection_id r \<noteq> cid"
  using assms
proof (induction roots)
  case Nil
  then show ?case by simp
next
  case (Cons x roots)
  show ?case
  proof (cases "cf_collection_id x = cid")
    case True
    then have "\<forall>r\<in>set roots. cf_collection_id r \<noteq> cid"
      using Cons.prems by (metis distinct.simps(2) image_eqI list.map(2) set_map)
    then show ?thesis using True by auto
  next
    case False
    then show ?thesis using Cons by auto
  qed
qed

text \<open>One rewrite replaces one collection's entry.\<close>
lemma write_filter_step:
  assumes h: "digest32 h" and f: "fits (length f)"
    and refl: "filters_reflect h unz f (tb_collection_filter_roots body) M"
    and w: "write_collection_filter_segment h f a segs body catalog cid = Inr (body', f', a', segs')"
  shows "\<exists>tail. f' = f @ tail"
    and "fits (length f') \<Longrightarrow> filters_reflect h unz f' (tb_collection_filter_roots body')
      (M(cid \<mapsto> (active_frame_ids catalog cid, active_vector_ids catalog cid)))"
proof -
  let ?roots = "tb_collection_filter_roots body"
  let ?snap = "(build_filter catalog cid)\<lparr>cfs_previous_root := prior_filter_root cid ?roots\<rparr>"
  let ?M = "M(cid \<mapsto> (active_frame_ids catalog cid, active_vector_ids catalog cid))"
  obtain payload n root where enc: "encode_collection_filter_segment ?snap = Inr payload"
    and app: "append_registered_segment h f a segs CollectionFilter n payload = Inr (root, f', a', segs')"
    and body': "body' = body\<lparr>tb_collection_filter_roots := set_filter_root cid root ?roots\<rparr>"
    using w by (auto simp: write_collection_filter_segment_def Let_def rbind_Inr_iff)
  note ext = append_registered_extends [OF h f app]
  show "\<exists>tail. f' = f @ tail" by (rule ext(1))
  then obtain tail where tail: "f' = f @ tail" by blast
  assume "fits (length f')"
  note rd = ext(3) [OF this]
  have dist: "distinct (map cf_collection_id ?roots)" and dm: "dom M = cf_collection_id ` set ?roots"
    and ents: "\<forall>r\<in>set ?roots. filter_entry_ok h unz f M r"
    using refl by (auto simp: filters_reflect_def)
  have "ref_wf (cfs_previous_root ?snap)"
    using ents
    by (auto simp: prior_filter_root_def ref_wf_def filter_entry_ok_def find_Some_iff split: option.split)
      (metis nth_mem option.inject)
  then have dec: "decode_collection_filter_segment payload = Inr ?snap" by (rule filter_rt [OF enc])
  have "filter_entry_ok h unz f' ?M r" if r: "r \<in> set (set_filter_root cid root ?roots)" for r
    using set_filter_root_entries [OF dist, of cid root, rule_format, OF r]
  proof
    assume "cf_collection_id r = cid \<and> cf_frame_filter_root r = Some root"
    then show ?thesis using rd dec ext(2) by (auto simp: filter_entry_ok_def build_filter_def)
  next
    assume old: "r \<in> set ?roots \<and> cf_collection_id r \<noteq> cid"
    then have "filter_entry_ok h unz f' M r" using ents tail filter_entry_append by blast
    then show ?thesis using old by (simp add: filter_entry_ok_def)
  qed
  then show "filters_reflect h unz f' (tb_collection_filter_roots body') ?M"
    using set_filter_root_ids(1) [of cid root ?roots] set_filter_root_ids(2) [of ?roots cid root] dist dm by (simp add: filters_reflect_def body')
qed

lemma append_registered_mono:
  "append_registered_segment h f a segs ty n p = Inr (root, f', a', segs') \<Longrightarrow> length f \<le> length f'"
  by (auto simp: append_registered_segment_def append_segment_at_end_def Let_def rbind_Inr_iff
      length_write_all_at split: if_splits)

lemma write_filters_mono:
  "write_filters h catalog cids (body, f, a, segs, cache) = Inr (body', f', a', segs', cache') \<Longrightarrow>
   length f \<le> length f'"
proof (induction cids arbitrary: body f a segs cache)
  case Nil
  then show ?case by simp
next
  case (Cons cid cids)
  then obtain body1 f1 a1 segs1 where
    w: "write_collection_filter_segment h f a segs body catalog cid = Inr (body1, f1, a1, segs1)"
    and rest: "write_filters h catalog cids (body1, f1, a1, segs1,
        cache(cid \<mapsto> (active_frame_ids catalog cid, active_vector_ids catalog cid))) =
      Inr (body', f', a', segs', cache')"
    by (auto simp: rbind_Inr_iff)
  have "length f \<le> length f1"
    using w by (auto simp: write_collection_filter_segment_def Let_def rbind_Inr_iff
        intro: append_registered_mono)
  also have "\<dots> \<le> length f'" by (rule Cons.IH [OF rest])
  finally show ?case .
qed

lemma write_filters_reflect:
  "filters_reflect h unz f (tb_collection_filter_roots body) cache \<Longrightarrow> digest32 h \<Longrightarrow>
   write_filters h catalog cids (body, f, a, segs, cache) = Inr (body', f', a', segs', cache') \<Longrightarrow>
   fits (length f) \<Longrightarrow> fits (length f') \<Longrightarrow>
   filters_reflect h unz f' (tb_collection_filter_roots body') cache' \<and>
   cache' = (\<lambda>c. if c \<in> set cids then Some (active_frame_ids catalog c, active_vector_ids catalog c)
                 else cache c)"
proof (induction cids arbitrary: body f a segs cache)
  case Nil
  then show ?case by simp
next
  case (Cons cid cids)
  then obtain body1 f1 a1 segs1 where
    w: "write_collection_filter_segment h f a segs body catalog cid = Inr (body1, f1, a1, segs1)"
    and rest: "write_filters h catalog cids (body1, f1, a1, segs1,
        cache(cid \<mapsto> (active_frame_ids catalog cid, active_vector_ids catalog cid))) =
      Inr (body', f', a', segs', cache')"
    by (auto simp: rbind_Inr_iff)
  have f1: "fits (length f1)"
    using Cons.prems(5) write_filters_mono [OF rest] by (rule fits_mono)
  note IH = Cons.IH [OF write_filter_step(2) [OF Cons.prems(2,4,1) w f1] Cons.prems(2) rest f1 Cons.prems(5)]
  then show ?case by (auto simp: fun_eq_iff)
qed

section \<open>Incremental rewriting\<close>

text \<open>
  A step of a handle between two commits: outside the dirty ids nothing changed, no frame
  or vector was removed or moved to another collection.
\<close>
definition table_step ::
  "('a \<Rightarrow> u64) \<Rightarrow> ('a \<Rightarrow> collection_id) \<Rightarrow> u64 set \<Rightarrow> 'a list \<Rightarrow> 'a list \<Rightarrow> bool" where
  "table_step key coll dirty t0 t1 \<longleftrightarrow> finite dirty \<and> strict_by key t0 \<and> strict_by key t1 \<and>
     (\<forall>k. k \<notin> dirty \<longrightarrow> table_map key t0 k = table_map key t1 k) \<and>
     (\<forall>x\<in>set t0. \<exists>y\<in>set t1. key y = key x \<and> coll y = coll x)"

definition catalog_step :: "u64 set \<Rightarrow> u64 set \<Rightarrow> catalog_snapshot \<Rightarrow> catalog_snapshot \<Rightarrow> bool" where
  "catalog_step dirty_f dirty_v c0 c1 \<longleftrightarrow>
     table_step fd_frame_id fd_collection_id dirty_f (cs_frames c0) (cs_frames c1) \<and>
     table_step vd_vector_id vd_collection_id dirty_v (cs_vectors c0) (cs_vectors c1)"

lemma members_unchanged:
  assumes step: "table_step key coll dirty t0 t1"
    and c: "\<forall>k\<in>dirty. \<forall>x. table_map key t1 k = Some x \<longrightarrow> coll x \<noteq> c"
  shows "sort (map key (filter (\<lambda>x. coll x = c \<and> act x) t1)) =
         sort (map key (filter (\<lambda>x. coll x = c \<and> act x) t0))"
proof -
  have s: "strict_by key t0" "strict_by key t1" using step by (auto simp: table_step_def)
  note mem = table_map_Some [OF strict_by_distinct [OF s(1)]] table_map_Some [OF strict_by_distinct [OF s(2)]]
  have clean: "key x \<notin> dirty" if "x \<in> set t0 \<or> x \<in> set t1" "coll x = c" for x
  proof
    assume d: "key x \<in> dirty"
    from that(1) show False
    proof
      assume "x \<in> set t1"
      then have "table_map key t1 (key x) = Some x" by (simp add: mem)
      then show False using c d that(2) by blast
    next
      assume "x \<in> set t0"
      then obtain y where "y \<in> set t1" "key y = key x" "coll y = coll x"
        using step by (auto simp: table_step_def)
      then have "table_map key t1 (key x) = Some y" by (simp add: mem)
      then show False using c d that(2) \<open>coll y = coll x\<close> by blast
    qed
  qed
  have same: "x \<in> set t0 \<longleftrightarrow> x \<in> set t1" if "coll x = c" for x
  proof -
    have "table_map key t0 (key x) = table_map key t1 (key x)" if "key x \<notin> dirty"
      using step that by (simp add: table_step_def)
    then show ?thesis using clean [of x] that mem(1) [of "key x" x] mem(2) [of "key x" x] by metis
  qed
  have d: "distinct (map key (filter P t0))" "distinct (map key (filter P t1))" for P
    using strict_by_distinct [OF s(1)] strict_by_distinct [OF s(2)]
    by (simp_all add: distinct_map inj_on_filter_key_eq inj_on_def)
  show ?thesis
    by (rule sorted_distinct_set_unique) (use d same in auto)
qed

lemma affected_iff:
  assumes "strict_by key t" and "finite dirty"
  shows "c \<in> set (List.map_filter (\<lambda>k. map_option coll (lookup_by key k t)) (sorted_list_of_set dirty)) \<longleftrightarrow>
    (\<exists>k\<in>dirty. \<exists>x. table_map key t k = Some x \<and> coll x = c)"
  using assms(2)
  by (auto simp: map_filter_def lookup_by_table_map [OF assms(1)] image_iff) blast

lemma clean_collection:
  assumes step: "catalog_step dirty_f dirty_v c0 c1"
    and c: "c \<notin> set (dirty_filter_collections c1 dirty_f dirty_v)"
  shows "active_frame_ids c1 c = active_frame_ids c0 c" and "active_vector_ids c1 c = active_vector_ids c0 c"
proof -
  have st: "table_step fd_frame_id fd_collection_id dirty_f (cs_frames c0) (cs_frames c1)"
    "table_step vd_vector_id vd_collection_id dirty_v (cs_vectors c0) (cs_vectors c1)"
    using step by (auto simp: catalog_step_def)
  then have t: "strict_by fd_frame_id (cs_frames c1)" "finite dirty_f"
    "strict_by vd_vector_id (cs_vectors c1)" "finite dirty_v"
    by (auto simp: table_step_def)
  have no: "\<not> (\<exists>k\<in>dirty_f. \<exists>x. table_map fd_frame_id (cs_frames c1) k = Some x \<and> fd_collection_id x = c)"
    "\<not> (\<exists>k\<in>dirty_v. \<exists>x. table_map vd_vector_id (cs_vectors c1) k = Some x \<and> vd_collection_id x = c)"
    using c affected_iff [OF t(1,2), of c fd_collection_id] affected_iff [OF t(3,4), of c vd_collection_id]
    by (simp_all add: dirty_filter_collections_def)
  show "active_frame_ids c1 c = active_frame_ids c0 c"
    unfolding active_frame_ids_def by (rule members_unchanged [OF st(1)]) (use no in blast)
  show "active_vector_ids c1 c = active_vector_ids c0 c"
    unfolding active_vector_ids_def by (rule members_unchanged [OF st(2)]) (use no in blast)
qed

text \<open>What the members of every collection are to be.\<close>
definition exact_filters :: "catalog_snapshot \<Rightarrow> filter_cache \<Rightarrow> bool" where
  "exact_filters catalog cache \<longleftrightarrow> (\<forall>c.
     collection_member_frames cache c = active_frame_ids catalog c \<and>
     collection_member_vectors cache c = active_vector_ids catalog c)"

lemma incremental_exact:
  assumes "catalog_step dirty_f dirty_v c0 c1" and "exact_filters c0 cache"
    and "cache' = (\<lambda>c. if c \<in> set (dirty_filter_collections c1 dirty_f dirty_v)
           then Some (active_frame_ids c1 c, active_vector_ids c1 c) else cache c)"
  shows "exact_filters c1 cache'"
  unfolding exact_filters_def
proof
  fix c
  show "collection_member_frames cache' c = active_frame_ids c1 c \<and>
      collection_member_vectors cache' c = active_vector_ids c1 c"
  proof (cases "c \<in> set (dirty_filter_collections c1 dirty_f dirty_v)")
    case True
    then show ?thesis by (simp add: assms(3) collection_member_frames_def collection_member_vectors_def)
  next
    case False
    then show ?thesis
      using clean_collection [OF assms(1) False] assms(2)
      by (simp add: assms(3) exact_filters_def collection_member_frames_def collection_member_vectors_def)
  qed
qed

section \<open>Properties\<close>

text \<open>
  An encoded collection filter decodes to the segment it was encoded from, whichever of
  the two encodings was chosen for its frames and for its vectors.
\<close>
theorem filter_roundtrip:
  assumes "ref_wf (cfs_previous_root seg)" and "encode_collection_filter_segment seg = Inr bs"
  shows "decode_collection_filter_segment bs = Inr seg"
  using assms by (intro filter_rt)

text \<open>Eight consecutive frames are stored as one run, two scattered vectors as differences.\<close>
definition ex_filter :: filter_segment where
  "ex_filter = \<lparr>cfs_collection_id = 7, cfs_frame_ids = [1, 2, 3, 4, 5, 6, 7, 8],
     cfs_vector_ids = [3, 90], cfs_previous_root = None\<rparr>"

lemma varint_1: "write_varint_u64 1 = [1]"
  by (subst write_varint_u64.simps) (simp add: word_le_nat_alt)

lemma filter_roundtrip_witness:
  "\<exists>bs. encode_collection_filter_segment ex_filter = Inr bs \<and>
     bs ! 6 = 1 \<and> decode_collection_filter_segment bs = Inr ex_filter"
proof -
  obtain bs where bs: "encode_collection_filter_segment ex_filter = Inr bs" "bs ! 6 = 1"
    by (simp add: ex_filter_def encode_collection_filter_segment_def is_strictly_sorted_def
        encode_side_def encode_sorted_postings_def encode_runs_def collect_runs_def Let_def
        u32_try_from_def checked_sub_def checked_add_def varint_1
        write_varint_u64.simps [of 8] write_varint_u64.simps [of 3] write_varint_u64.simps [of 87]
        FILTER_MAGIC_def
        ENCODING_RUNS_def ENCODING_SORTED_POSTINGS_def nth_append)
  moreover have "ref_wf (cfs_previous_root ex_filter)" by (simp add: ref_wf_def ex_filter_def)
  ultimately show ?thesis using filter_roundtrip by blast
qed

text \<open>
  C34: Rewriting only the filters of the collections with a dirty frame or vector keeps every
  collection's members exact, in the cache of the handle and in what the next open loads.
\<close>
theorem incremental_filters_exact:
  assumes "digest32 h" and "fits (length f)" and "fits (length f')"
    and "filters_reflect h unz f (tb_collection_filter_roots body) cache"
    and "exact_filters c0 cache" and "catalog_step dirty_f dirty_v c0 c1"
    and "write_filters h c1 (dirty_filter_collections c1 dirty_f dirty_v) (body, f, a, segs, cache) =
         Inr (body', f', a', segs', cache')"
  shows "exact_filters c1 cache' \<and>
    filters_reflect h unz f' (tb_collection_filter_roots body') cache' \<and>
    load_collection_filter_cache h unz f' body' = Inr cache'"
  using write_filters_reflect [OF assms(4,1,7,2,3)] incremental_exact [OF assms(6,5)]
    load_collection_filters by blast

definition ex_filter_frame :: frame_desc where
  "ex_filter_frame =
     \<lparr>fd_frame_id = 5, fd_collection_id = 7, fd_role = Document, fd_created_at = 1,
      fd_updated_at = 1, fd_uri_ref = None, fd_title_ref = None, fd_payload_ref = None,
      fd_payload_encoding = Enc_raw, fd_search_text_ref = None, fd_parent_frame_id = None,
      fd_chunk_index = None, fd_chunk_count = None, fd_metadata_ref = None,
      fd_status = Frame_active\<rparr>"

lemma incremental_filters_exact_witness:
  "\<exists>f' body' cache'. load_collection_filter_cache ex_hash (\<lambda>_. None) f' body' = Inr cache' \<and>
     collection_member_frames cache' 7 = [5]"
proof -
  let ?segs = "(\<lparr>rg_catalog = [], rg_by_id = Map.empty, rg_loaded = True\<rparr>, {}) :: segment_registry_mut"
  let ?body = "toc_body_empty 1 contract_default"
  let ?c1 = "catalog_snapshot_default\<lparr>cs_frames := [ex_filter_frame]\<rparr>"
  have lk: "lookup_by fd_frame_id 5 [ex_filter_frame] = Some ex_filter_frame"
    by (simp add: lookup_by_def binary_search_by_key_def bs_loop.simps ex_filter_frame_def)
  have dirty: "dirty_filter_collections ?c1 {5} {} = [7]"
    by (simp add: dirty_filter_collections_def lk) (simp add: ex_filter_frame_def)
  have ids: "active_frame_ids ?c1 7 = [5]" "active_vector_ids ?c1 7 = []"
    by (simp_all add: active_frame_ids_def active_vector_ids_def ex_filter_frame_def
        catalog_snapshot_default_def)
  let ?snap = "(build_filter ?c1 7)\<lparr>cfs_previous_root :=
      prior_filter_root 7 (tb_collection_filter_roots ?body)\<rparr>"
  obtain bs where enc: "encode_collection_filter_segment ?snap = Inr bs"
    and l: "length bs < 1000"
    by (simp add: build_filter_def ids toc_body_empty_def prior_filter_root_def
        encode_collection_filter_segment_def is_strictly_sorted_def
        encode_side_def encode_sorted_postings_def encode_runs_def collect_runs_def Let_def
        u32_try_from_def checked_sub_def checked_add_def write_varint_u64.simps FILTER_MAGIC_def
        write_optional_segment_ref_def)
  obtain sid a' where a: "allocate_segment_id id_allocator_default = Inr (sid, a')"
    by (simp add: allocate_segment_id_def take_id_def validate_next_def next_id_def checked_add_def
        id_allocator_default_def)
  have "\<exists>root f' segs'. append_registered_segment ex_hash [] id_allocator_default ?segs CollectionFilter n bs =
      Inr (root, f', a', segs') \<and> length f' = length ([] :: storage) + SEGMENT_HEADER_SIZE + length bs" for n
    using l by (intro append_registered_segment_total [OF ex_hash_ok _ _ a])
      (simp_all add: fits_def SEGMENT_HEADER_SIZE_def)
  then obtain root f' segs' where
    app: "append_registered_segment ex_hash [] id_allocator_default ?segs CollectionFilter
        (of_nat (length (cfs_frame_ids ?snap) + length (cfs_vector_ids ?snap))) bs =
      Inr (root, f', a', segs')" and len: "length f' = SEGMENT_HEADER_SIZE + length bs"
    by fastforce
  obtain body' where
    w: "write_filters ex_hash ?c1 (dirty_filter_collections ?c1 {5} {})
        (?body, [], id_allocator_default, ?segs, Map.empty) =
      Inr (body', f', a', segs', [7 \<mapsto> (active_frame_ids ?c1 7, active_vector_ids ?c1 7)])"
    unfolding dirty write_filters.simps write_collection_filter_segment_def Let_def enc rbind_simps app
      case_prod_conv by blast
  let ?cache' = "[7 \<mapsto> (active_frame_ids ?c1 7, active_vector_ids ?c1 7)]"
  have step: "catalog_step {5} {} catalog_snapshot_default ?c1"
    by (auto simp: catalog_step_def table_step_def catalog_snapshot_default_def table_map_def
        strict_by_def ex_filter_frame_def)
  have "exact_filters ?c1 ?cache' \<and> load_collection_filter_cache ex_hash (\<lambda>_. None) f' body' = Inr ?cache'"
    using incremental_filters_exact [where unz = "\<lambda>_. None", OF ex_hash_ok _ _ _ _ step w] l
    by (simp add: fits_def len SEGMENT_HEADER_SIZE_def filters_reflect_def toc_body_empty_def
        exact_filters_def collection_member_frames_def collection_member_vectors_def
        active_frame_ids_def active_vector_ids_def catalog_snapshot_default_def)
  moreover have "collection_member_frames ?cache' 7 = [5]"
    by (simp add: collection_member_frames_def ids)
  ultimately show ?thesis by blast
qed

end
