(* ===== verification/CatalogTables.thy ===== *)
theory CatalogTables imports FrameChain TimeIndex CollectionFilter begin

text \<open>
  The catalog as a commit writes it and an open reads it: \<open>write_catalog_segments_profiled\<close>
  of src/file/commit_writers.rs after its text-index phase (the ten delta tables, the
  collection filters, the time index and the spine of the segment registry) and
  \<open>read_catalog_snapshot\<close> of src/file/catalog_io.rs. Shown: every phase only appends
  registered segments, and after the whole sequence an open reads back exactly the catalog,
  the registry and the range index the writer had in memory.

  A failing phase is its error: what it had appended stays in the file, but neither the
  footer nor the header name it.
\<close>

section \<open>Reading the catalog\<close>

text \<open>The bincode configurations of the descriptors.\<close>
record table_bincodes =
  tc_collection :: "collection_desc bincode"
  tc_frame_id :: "u64 bincode"
  tc_text_space :: "text_space_desc bincode"
  tc_analyzer :: "analyzer_desc bincode"
  tc_field_schema :: "field_schema_desc bincode"
  tc_retrieval_profile :: "retrieval_profile_desc bincode"
  tc_embedding_space :: "embedding_space_desc bincode"
  tc_codec :: "codec_desc bincode"
  tc_vector :: "vector_desc bincode"
  tc_fusion_profile :: "fusion_profile_desc bincode"

text \<open>\<open>?\<close> on a reader that may not return.\<close>
definition wbind :: "'a result option \<Rightarrow> ('a \<Rightarrow> 'b result option) \<Rightarrow> 'b result option" where
  "wbind m f = (case m of None \<Rightarrow> None | Some (Inl e) \<Rightarrow> Some (Inl e) | Some (Inr v) \<Rightarrow> f v)"

lemma wbind_simps [simp]: "wbind (Some (Inr v)) f = f v" "wbind (Some (Inl e)) f = Some (Inl e)"
  by (simp_all add: wbind_def)

definition read_catalog_snapshot ::
  "hash \<Rightarrow> zstd_decode \<Rightarrow> table_bincodes \<Rightarrow> segment_ref option bincode \<Rightarrow> storage \<Rightarrow>
     toc_footer_body \<Rightarrow> (catalog_snapshot \<times> (u64 \<rightharpoonup> frame_locator)) result option" where
  "read_catalog_snapshot h unz tc rb f body =
     wbind (read_collection_catalog h unz (tc_collection tc) rb f (tb_collection_catalog_root body))
       (\<lambda>collections.
     wbind (read_frame_catalog_slim h unz (tc_frame_id tc) rb f (tb_frame_catalog_root body))
       (\<lambda>(stubs, locators, frames).
     wbind (read_catalog_chain_dedup h unz (tc_text_space tc) rb f (tb_text_space_catalog_root body)
              Kind_text_space (\<lambda>t. ucast (ts_text_space_id t))) (\<lambda>text_spaces.
     wbind (read_catalog_chain_dedup h unz (tc_analyzer tc) rb f (tb_analyzer_catalog_root body)
              Kind_analyzer (\<lambda>a. ucast (an_analyzer_id a))) (\<lambda>analyzers.
     wbind (read_catalog_chain_dedup h unz (tc_field_schema tc) rb f (tb_field_schema_catalog_root body)
              Kind_field_schema (\<lambda>s. ucast (fs_field_schema_id s))) (\<lambda>field_schemas.
     wbind (read_catalog_chain_dedup h unz (tc_retrieval_profile tc) rb f
              (tb_retrieval_profile_catalog_root body) Kind_retrieval_profile
              (\<lambda>p. ucast (rp_profile_id p))) (\<lambda>retrieval_profiles.
     wbind (read_catalog_chain_dedup h unz (tc_embedding_space tc) rb f
              (tb_embedding_space_catalog_root body) Kind_embedding_space
              (\<lambda>s. ucast (es_embedding_space_id s))) (\<lambda>embedding_spaces.
     wbind (read_catalog_chain_dedup h unz (tc_codec tc) rb f (tb_codec_catalog_root body)
              Kind_codec (\<lambda>c. ucast (cd_codec_id c))) (\<lambda>codecs.
     wbind (read_catalog_chain_dedup h unz (tc_vector tc) rb f (tb_vector_catalog_root body)
              Kind_vector vd_vector_id) (\<lambda>vectors.
     wbind (read_catalog_chain_dedup h unz (tc_fusion_profile tc) rb f
              (tb_fusion_profile_catalog_root body) Kind_fusion_profile
              (\<lambda>p. ucast (fp_fusion_profile_id p))) (\<lambda>fusion_profiles.
     Some (Inr (\<lparr>cs_collections = collections, cs_frames = frames, cs_frame_stubs = stubs,
       cs_text_spaces = text_spaces, cs_analyzers = analyzers, cs_field_schemas = field_schemas,
       cs_retrieval_profiles = retrieval_profiles, cs_embedding_spaces = embedding_spaces,
       cs_codecs = codecs, cs_vectors = vectors, cs_fusion_profiles = fusion_profiles\<rparr>,
       locators))))))))))))"

section \<open>Writing the catalog\<close>

text \<open>The storage, the id allocator and the registry, which every phase threads.\<close>
type_synonym writer_state = "storage \<times> id_allocator \<times> segment_registry_mut"

definition flush_table ::
  "env \<Rightarrow> 'a bincode \<Rightarrow> catalog_table_kind \<Rightarrow> segment_type \<Rightarrow> ('a \<Rightarrow> 'k::linorder) \<Rightarrow> 'k set \<Rightarrow> 'a list \<Rightarrow>
     segment_ref option \<Rightarrow> writer_state \<Rightarrow> (segment_ref option \<times> writer_state) result" where
  "flush_table en b table ty key dirty t root = (\<lambda>(f, a, segs).
     flush_catalog_table (en_hash en) b (en_ref_bincode en) f a segs root dirty t table ty key)"

text \<open>The ten delta tables, in the order of the code.\<close>
definition flush_tables ::
  "env \<Rightarrow> table_bincodes \<Rightarrow> vfile \<Rightarrow> u64 set \<Rightarrow> toc_footer_body \<Rightarrow> writer_state \<Rightarrow>
     (toc_footer_body \<times> writer_state) result" where
  "flush_tables en tc s dirty_vector_ids body w0 =
     (let c = vf_catalog s in
      rbind (flush_table en (tc_collection tc) Kind_collection CollectionCatalog col_collection_id
               (vf_dirty_collection_ids s) (cs_collections c) (tb_collection_catalog_root body) w0)
        (\<lambda>(r1, w1).
      rbind (case w1 of (f, a, segs) \<Rightarrow>
               flush_frame_catalog_columnar (en_hash en) f a segs (tb_frame_catalog_root body)
                 (vf_dirty_frame_ids s) (cs_frames c)) (\<lambda>(r2, w2).
      rbind (flush_table en (tc_text_space tc) Kind_text_space TextSpaceCatalog ts_text_space_id
               (vf_dirty_text_space_ids s) (cs_text_spaces c) (tb_text_space_catalog_root body) w2)
        (\<lambda>(r3, w3).
      rbind (flush_table en (tc_analyzer tc) Kind_analyzer AnalyzerCatalog an_analyzer_id
               (vf_dirty_analyzer_ids s) (cs_analyzers c) (tb_analyzer_catalog_root body) w3)
        (\<lambda>(r4, w4).
      rbind (flush_table en (tc_field_schema tc) Kind_field_schema FieldSchemaCatalog fs_field_schema_id
               (vf_dirty_field_schema_ids s) (cs_field_schemas c) (tb_field_schema_catalog_root body) w4)
        (\<lambda>(r5, w5).
      rbind (flush_table en (tc_retrieval_profile tc) Kind_retrieval_profile RetrievalProfileCatalog
               rp_profile_id (vf_dirty_retrieval_profile_ids s) (cs_retrieval_profiles c)
               (tb_retrieval_profile_catalog_root body) w5) (\<lambda>(r6, w6).
      rbind (flush_table en (tc_embedding_space tc) Kind_embedding_space EmbeddingSpaceCatalog
               es_embedding_space_id (vf_dirty_embedding_space_ids s) (cs_embedding_spaces c)
               (tb_embedding_space_catalog_root body) w6) (\<lambda>(r7, w7).
      rbind (flush_table en (tc_codec tc) Kind_codec CodecCatalog cd_codec_id
               (vf_dirty_codec_ids s) (cs_codecs c) (tb_codec_catalog_root body) w7) (\<lambda>(r8, w8).
      rbind (flush_table en (tc_vector tc) Kind_vector VectorCatalog vd_vector_id
               dirty_vector_ids (cs_vectors c) (tb_vector_catalog_root body) w8) (\<lambda>(r9, w9).
      rbind (flush_table en (tc_fusion_profile tc) Kind_fusion_profile FusionProfileCatalog
               fp_fusion_profile_id (vf_dirty_fusion_profile_ids s) (cs_fusion_profiles c)
               (tb_fusion_profile_catalog_root body) w9) (\<lambda>(r10, w10).
      Inr (body\<lparr>tb_collection_catalog_root := r1, tb_frame_catalog_root := r2,
             tb_text_space_catalog_root := r3, tb_analyzer_catalog_root := r4,
             tb_field_schema_catalog_root := r5, tb_retrieval_profile_catalog_root := r6,
             tb_embedding_space_catalog_root := r7, tb_codec_catalog_root := r8,
             tb_vector_catalog_root := r9, tb_fusion_profile_catalog_root := r10\<rparr>, w10))))))))))))"

text \<open>
  The spine: a delta of the segment registry itself, which is not registered. Its id is
  taken after the payload is encoded.
\<close>
definition write_registry_spine ::
  "env \<Rightarrow> toc_footer_body \<Rightarrow> writer_state \<Rightarrow> (toc_footer_body \<times> writer_state) result" where
  "write_registry_spine en body = (\<lambda>(f, a, reg, dirty_segment_ids).
     if dirty_segment_ids = {} then Inr (body, f, a, reg, dirty_segment_ids)
     else
       let segments = dirty_records se_segment_id (rg_catalog reg) dirty_segment_ids in
       rbind (encode_catalog_delta (en_entry_bincode en) (en_ref_bincode en) Kind_segment
                (tb_segment_catalog_root body) segments) (\<lambda>payload.
       rbind (allocate_segment_id a) (\<lambda>(sid, a').
       let (root, f') = append_segment_at_end (en_hash en) f sid SegmentRegistry
                          (of_nat (length segments)) payload in
       Inr (body\<lparr>tb_segment_catalog_root := Some root\<rparr>, f', a', reg, dirty_segment_ids))))"

text \<open>What the phases after the text indexes leave: the body of the footer, and the caches.\<close>
definition write_catalog_segments ::
  "env \<Rightarrow> table_bincodes \<Rightarrow> vfile \<Rightarrow> u64 set \<Rightarrow> filter_cache \<Rightarrow> time_index_entry list \<Rightarrow>
     toc_footer_body \<Rightarrow> writer_state \<Rightarrow>
     (toc_footer_body \<times> writer_state \<times> filter_cache \<times> time_index_entry list) result" where
  "write_catalog_segments en tc s dirty_vector_ids filters time_cache body0 w0 =
     (let h = en_hash en; c = vf_catalog s in
      rbind (flush_tables en tc s dirty_vector_ids body0 w0) (\<lambda>(body1, f1, a1, segs1).
      rbind (write_filters h c
               (dirty_filter_collections c (vf_dirty_frame_ids s) dirty_vector_ids)
               (body1, f1, a1, segs1, filters)) (\<lambda>(body2, f2, a2, segs2, filters').
      rbind (if vf_dirty_frame_ids s = {} then Inr (body2, f2, a2, segs2)
             else write_time_index_segment h f2 a2 segs2 body2 c) (\<lambda>(body3, w3).
      rbind (write_registry_spine en body3 w3) (\<lambda>(body4, f4, a4, segs4).
      Inr (body4\<lparr>tb_id_allocator := a4\<rparr>, (f4, a4, segs4), filters',
           if vf_dirty_frame_ids s = {} then time_cache
           else sort_key time_key (map time_entry_of
                  (filter (\<lambda>f. fd_status f = Frame_active) (cs_frames c)))))))))"

section \<open>Phases append registered segments\<close>

inductive appends :: "hash \<Rightarrow> writer_state \<Rightarrow> writer_state \<Rightarrow> bool" for h where
  appends_refl: "appends h w w"
| appends_step: "appends h w (f, a, segs) \<Longrightarrow>
    append_registered_segment h f a segs ty n p = Inr (root, f', a', segs') \<Longrightarrow>
    appends h w (f', a', segs')"

lemma appends_trans: "appends h v w \<Longrightarrow> appends h u v \<Longrightarrow> appends h u w"
proof (induction rule: appends.induct)
  case (appends_step w f a segs ty n p root f' a' segs')
  then show ?case using appends.appends_step by blast
qed

lemma appends_one:
  "append_registered_segment h f a segs ty n p = Inr (root, f', a', segs') \<Longrightarrow>
   appends h (f, a, segs) (f', a', segs')"
  by (rule appends_step [OF appends_refl])

lemma append_registered_length:
  "append_registered_segment h f a segs ty n p = Inr (root, f', a', segs') \<Longrightarrow> length f \<le> length f'"
  by (auto simp: append_registered_segment_def append_segment_at_end_def Let_def
      rbind_Inr_iff write_all_at_def split: prod.splits)

lemma appends_length: "appends h w w' \<Longrightarrow> length (fst w) \<le> length (fst w')"
  by (induction rule: appends.induct) (auto dest: append_registered_length)

text \<open>Bytes once written stay.\<close>
definition extends :: "storage \<Rightarrow> storage \<Rightarrow> bool" where
  "extends f f' \<longleftrightarrow> (\<exists>tail. f' = f @ tail)"

lemma extends_refl: "extends f f"
  by (simp add: extends_def)

lemma extends_append: "extends f (f @ g)"
  by (auto simp: extends_def)

lemma extends_trans: "extends f g \<Longrightarrow> extends g k \<Longrightarrow> extends f k"
  by (auto simp: extends_def)

lemma extends_length: "extends f f' \<Longrightarrow> length f \<le> length f'"
  by (auto simp: extends_def)

lemma appends_extends:
  assumes "appends h w w'" and "digest32 h" and "fits (length (fst w'))"
  shows "extends (fst w) (fst w')"
  using assms
proof (induction rule: appends.induct)
  case (appends_refl w)
  then show ?case by (simp add: extends_refl)
next
  case (appends_step w f a segs ty n p root f' a' segs')
  have "length f \<le> length f'" using appends_step.hyps(2) by (rule append_registered_length)
  then have f: "fits (length f)" using appends_step.prems(2) by (auto intro: fits_mono)
  have "extends f f'"
    using append_registered_extends(1) [OF appends_step.prems(1) f appends_step.hyps(2)]
    by (simp add: extends_def)
  with appends_step.IH [OF appends_step.prems(1)] f show ?case by (auto intro: extends_trans)
qed

lemma flush_table_appends:
  assumes "flush_table en b table ty key dirty t root w = Inr (root', w')"
  shows "appends (en_hash en) w w'"
proof -
  obtain f a segs where w: "w = (f, a, segs)" by (cases w)
  show ?thesis
    using assms
    by (cases w') (auto simp: flush_table_def flush_catalog_table_def w Let_def rbind_Inr_iff
        split: if_splits intro: appends_refl appends_one)
qed

lemma flush_frames_appends:
  assumes "flush_frame_catalog_columnar h f a segs root dirty t = Inr (root', w')"
  shows "appends h (f, a, segs) w'"
  using assms
  by (cases w') (auto simp: flush_frame_catalog_columnar_def Let_def rbind_Inr_iff
      split: if_splits intro: appends_refl appends_one)

lemma write_filters_appends:
  "write_filters h c cids (body, f, a, segs, cache) = Inr (body', f', a', segs', cache') \<Longrightarrow>
   appends h (f, a, segs) (f', a', segs')"
proof (induction cids arbitrary: body f a segs cache)
  case Nil
  then show ?case by (simp add: appends_refl)
next
  case (Cons cid cids)
  then obtain body1 f1 a1 segs1 where
    w: "write_collection_filter_segment h f a segs body c cid = Inr (body1, f1, a1, segs1)"
    and r: "write_filters h c cids (body1, f1, a1, segs1,
          cache(cid \<mapsto> (active_frame_ids c cid, active_vector_ids c cid))) = Inr (body', f', a', segs', cache')"
    by (auto simp: rbind_Inr_iff)
  have "appends h (f, a, segs) (f1, a1, segs1)"
    using w by (auto simp: write_collection_filter_segment_def Let_def rbind_Inr_iff intro: appends_one)
  with Cons.IH [OF r] show ?case by (rule appends_trans)
qed

lemma write_time_appends:
  "write_time_index_segment h f a segs body c = Inr (body', f', a', segs') \<Longrightarrow>
   appends h (f, a, segs) (f', a', segs')"
  by (auto simp: write_time_index_segment_def Let_def rbind_Inr_iff intro: appends_one)

section \<open>The registry through the phases\<close>

text \<open>
  Ids, entries and segments agree, and the chain of the spine holds the registry up to the
  entries registered since.
\<close>
definition registry_inv :: "hash \<Rightarrow> zstd_decode \<Rightarrow> (segment_id \<rightharpoonup> segment_catalog_entry) \<Rightarrow> writer_state \<Rightarrow> bool" where
  "registry_inv h unz disk = (\<lambda>(f, a, reg, dirty).
     registry_ok reg \<and> registry_backed h unz f reg \<and>
     (\<forall>e\<in>set (rg_catalog reg). unat (se_segment_id e) < unat (next_segment_id a)) \<and>
     table_synced se_segment_id dirty (rg_catalog reg) disk)"

lemma registry_inv_append:
  assumes h: "digest32 h" and fit: "fits (length f')" and inv: "registry_inv h unz disk (f, a, segs)"
    and app: "append_registered_segment h f a segs ty n p = Inr (root, f', a', segs')"
  shows "registry_inv h unz disk (f', a', segs')"
proof -
  obtain reg dirty where segs: "segs = (reg, dirty)" by (cases segs)
  obtain reg' dirty' where segs': "segs' = (reg', dirty')" by (cases segs')
  have f: "fits (length f)" using append_registered_length [OF app] fit by (auto intro: fits_mono)
  have p: "fits (SEGMENT_HEADER_SIZE + length p)"
    using append_registered_segment_length [OF h f app] by (rule fits_mono [OF fit])
  have inv': "registry_ok reg" "registry_backed h unz f reg"
    "\<forall>e\<in>set (rg_catalog reg). unat (se_segment_id e) < unat (next_segment_id a)"
    and sync: "table_synced se_segment_id dirty (rg_catalog reg) disk"
    using inv by (auto simp: registry_inv_def segs)
  note app' = app [unfolded segs segs']
  have "table_synced se_segment_id dirty' (rg_catalog reg') disk"
  proof -
    obtain sid a1 where al: "allocate_segment_id a = Inr (sid, a1)"
      using app' by (auto simp: append_registered_segment_def rbind_Inr_iff)
    obtain r f1 where "append_segment_at_end h f sid ty n p = (r, f1)" by fastforce
    then obtain e where "register_segment (reg, dirty) e = (reg', dirty')"
      using app' by (auto simp: append_registered_segment_def al rbind_Inr_iff)
    then have "rg_catalog reg' = upsert se_segment_id e (rg_catalog reg)" "dirty' = insert (se_segment_id e) dirty"
      by (auto simp: register_segment_def)
    then show ?thesis using table_synced_upsert [OF sync] by simp
  qed
  with append_registered_segment_spec [OF h f p inv' app'] show ?thesis
    by (simp add: registry_inv_def segs')
qed

lemma appends_registry_inv:
  assumes "appends h w w'" and "digest32 h" and "fits (length (fst w'))" and "registry_inv h unz disk w"
  shows "registry_inv h unz disk w'"
  using assms
proof (induction rule: appends.induct)
  case (appends_step w f a segs ty n p root f' a' segs')
  have "fits (length f)"
    using append_registered_length [OF appends_step.hyps(2)] appends_step.prems(2) by (auto intro: fits_mono)
  with appends_step show ?case by (auto intro: registry_inv_append)
qed

section \<open>Tables\<close>

text \<open>A table whose chain on disk lacks at most its dirty records.\<close>
definition table_pending ::
  "hash \<Rightarrow> zstd_decode \<Rightarrow> 'a bincode \<Rightarrow> segment_ref option bincode \<Rightarrow> storage \<Rightarrow>
     catalog_table_kind \<Rightarrow> ('a \<Rightarrow> 'k::linorder) \<Rightarrow> segment_ref option \<Rightarrow> 'k set \<Rightarrow> 'a list \<Rightarrow> bool" where
  "table_pending h unz b rb f table key latest dirty t \<longleftrightarrow>
     (\<exists>m. table_on_disk h unz b rb f table key latest m \<and> table_synced key dirty t m)"

lemma table_pending_extends:
  "table_pending h unz b rb f table key latest dirty t \<Longrightarrow> extends f f' \<Longrightarrow>
   table_pending h unz b rb f' table key latest dirty t"
  unfolding table_pending_def extends_def using table_on_disk_append by blast

lemma flush_table_flushed:
  assumes h: "digest32 (en_hash en)" and b: "bincode_ok b" "bincode_ok (en_ref_bincode en)"
    and fit: "fits (length (fst w'))"
    and pend: "table_pending (en_hash en) unz b (en_ref_bincode en) (fst w) table key root dirty t"
    and fl: "flush_table en b table ty key dirty t root w = Inr (root', w')"
  shows "table_on_disk (en_hash en) unz b (en_ref_bincode en) (fst w') table key root' (table_map key t)"
proof -
  obtain f a segs where w: "w = (f, a, segs)" by (cases w)
  obtain f' a' segs' where w': "w' = (f', a', segs')" by (cases w')
  let ?rd = "\<lambda>f. read_segment_payload (en_hash en) unz f"
  obtain m olds where c: "chain (?rd f) b (en_ref_bincode en) table root olds"
    and d: "\<forall>s\<in>set olds. strict_by key (snd s)" and m: "chain_map key olds = m"
    and sync: "table_synced key dirty t m"
    using pend by (auto simp: table_pending_def table_on_disk_def w)
  show ?thesis
  proof (cases "dirty = {}")
    case True
    have "m = table_map key t" using sync True by (auto simp: table_synced_def)
    then show ?thesis
      using fl c d m by (auto simp: flush_table_def flush_catalog_table_def True w table_on_disk_def)
  next
    case False
    let ?rs = "dirty_records key t dirty"
    obtain payload n r where pl: "encode_catalog_delta b (en_ref_bincode en) table root ?rs = Inr payload"
      and app: "append_registered_segment (en_hash en) f a segs ty n payload = Inr (r, f', a', segs')"
      and root': "root' = Some r"
      using fl False by (auto simp: flush_table_def flush_catalog_table_def w w' Let_def rbind_Inr_iff)
    have f: "fits (length f)" using append_registered_length [OF app] fit by (auto simp: w' intro: fits_mono)
    note ext = append_registered_extends [OF h f app]
    obtain tail where tail: "f' = f @ tail" using ext(1) by blast
    have "?rd f' r = Inr payload"
      using ext(3) fit by (intro read_segment_payload_typed_untyped) (simp add: w')
    moreover have "chain (?rd f') b (en_ref_bincode en) table root olds"
      unfolding tail by (rule chain_append [OF read_segment_payload_append c])
    ultimately have "chain (?rd f') b (en_ref_bincode en) table root' ((r, ?rs) # olds)"
      using catalog_delta_rt(1) [OF b pl] by (auto simp: root')
    moreover have "chain_map key ((r, ?rs) # olds) = table_map key t"
      using table_synced_delta [OF sync] by (simp add: m)
    moreover have "\<forall>s\<in>set ((r, ?rs) # olds). strict_by key (snd s)"
      using d strict_dirty_records [of key t dirty] sync by (auto simp: table_synced_def)
    ultimately show ?thesis unfolding table_on_disk_def w' fst_conv by blast
  qed
qed

text \<open>From the state before its flush to any later file: the table reads back.\<close>
lemma flushed_table_reads:
  assumes h: "digest32 (en_hash en)" and b: "bincode_ok b" "bincode_ok (en_ref_bincode en)"
    and pend: "table_pending (en_hash en) unz b (en_ref_bincode en) f0 table key root dirty t"
    and ext: "extends f0 (fst w)" "extends (fst w') f" and fit: "fits (length f)"
    and fl: "flush_table en b table ty key dirty t root w = Inr (root', w')"
    and so: "same_order key id_of"
  shows "read_catalog_chain_dedup (en_hash en) unz b (en_ref_bincode en) f root' table id_of = Some (Inr t)"
proof -
  have "fits (length (fst w'))" using fit extends_length [OF ext(2)] by (rule fits_mono)
  from flush_table_flushed [OF h b this table_pending_extends [OF pend ext(1)] fl]
  have "table_on_disk (en_hash en) unz b (en_ref_bincode en) (fst w') table key root' (table_map key t)" .
  moreover have "strict_by key t" using pend by (auto simp: table_pending_def table_synced_def)
  ultimately show ?thesis
    using ext(2) table_on_disk_reads [OF _ _ so] unfolding extends_def by blast
qed

text \<open>The collection table is read through upserts.\<close>
lemma fold_upsert_collections:
  "strict_by col_collection_id (cs_collections c) \<Longrightarrow>
   strict_by col_collection_id (cs_collections (fold upsert_collection rs c)) \<and>
   table_map col_collection_id (cs_collections (fold upsert_collection rs c)) =
     table_map col_collection_id (cs_collections c) ++ last_map col_collection_id rs"
proof (induction rs rule: rev_induct)
  case Nil
  then show ?case by simp
next
  case (snoc r rs)
  then show ?case
    by (simp add: upsert_collection_def strict_by_upsert table_map_upsert)
      (simp add: fun_eq_iff map_add_def)
qed

lemma collections_read:
  assumes "table_on_disk h unz b rb f Kind_collection col_collection_id root (table_map col_collection_id t)"
    and t: "strict_by col_collection_id t"
  shows "read_collection_catalog h unz b rb f root = Some (Inr t)"
proof -
  obtain segs where c: "chain (read_segment_payload h unz f) b rb Kind_collection root segs"
    and d: "\<forall>s\<in>set segs. strict_by col_collection_id (snd s)"
    and m: "chain_map col_collection_id segs = table_map col_collection_id t"
    using assms(1) by (auto simp: table_on_disk_def)
  have roots: "catalog_chain_roots h unz rb f root Kind_collection = Some (Inr (rev (map fst segs)))"
    using chain_walk_chain [OF c, of "[]"] by (simp add: catalog_chain_roots_def)
  have recs: "map_result (\<lambda>root. read_catalog_root h unz b rb f (Some root) Kind_collection) (rev (map fst segs)) =
      Inr (rev (map snd segs))"
    using chain_records [OF c] by (simp add: read_catalog_root_def)
  let ?out = "cs_collections (fold upsert_collection (concat (rev (map snd segs))) catalog_snapshot_default)"
  have "\<forall>s\<in>set segs. distinct (map col_collection_id (snd s))" using d strict_by_distinct by blast
  then have "last_map col_collection_id (concat (rev (map snd segs))) = table_map col_collection_id t"
    using chain_map_last m by metis
  moreover have "table_map col_collection_id ([] :: collection_desc list) = Map.empty"
    by (simp add: table_map_def)
  ultimately have "strict_by col_collection_id ?out" "table_map col_collection_id ?out = table_map col_collection_id t"
    using fold_upsert_collections [of catalog_snapshot_default "concat (rev (map snd segs))"]
    by (simp_all add: catalog_snapshot_default_def)
  then have "?out = t" using strict_by_unique t by blast
  then show ?thesis by (simp add: read_collection_catalog_def roots recs)
qed

section \<open>The spine\<close>

definition spine_on_disk ::
  "env \<Rightarrow> zstd_decode \<Rightarrow> storage \<Rightarrow> segment_ref option \<Rightarrow> (segment_id \<rightharpoonup> segment_catalog_entry) \<Rightarrow> bool" where
  "spine_on_disk en unz f latest m \<longleftrightarrow>
     (\<exists>segs. chain (\<lambda>root. read_segment_payload_typed (en_hash en) unz f root SegmentRegistry)
               (en_entry_bincode en) (en_ref_bincode en) Kind_segment latest segs \<and>
        (\<forall>s\<in>set segs. strict_by se_segment_id (snd s)) \<and> chain_map se_segment_id segs = m)"

lemma spine_on_disk_extends:
  "spine_on_disk en unz f latest m \<Longrightarrow> extends f f' \<Longrightarrow> spine_on_disk en unz f' latest m"
  unfolding spine_on_disk_def extends_def
  using chain_append [where rd = "\<lambda>root. read_segment_payload_typed (en_hash en) unz f root SegmentRegistry"
      and rd' = "\<lambda>root. read_segment_payload_typed (en_hash en) unz f' root SegmentRegistry"]
    read_segment_payload_typed_append by blast

lemma spine_reads:
  assumes "spine_on_disk en unz f latest (table_map se_segment_id cat)" and cat: "strict_by se_segment_id cat"
  shows "read_segment_catalog (en_hash en) unz (en_entry_bincode en) (en_ref_bincode en) f latest =
    Some (Inr cat)"
proof -
  obtain segs where c: "chain (\<lambda>root. read_segment_payload_typed (en_hash en) unz f root SegmentRegistry)
      (en_entry_bincode en) (en_ref_bincode en) Kind_segment latest segs"
    and d: "\<forall>s\<in>set segs. strict_by se_segment_id (snd s)"
    and m: "chain_map se_segment_id segs = table_map se_segment_id cat"
    using assms(1) by (auto simp: spine_on_disk_def)
  have roots: "segment_registry_chain_roots (en_hash en) unz (en_ref_bincode en) f latest =
      Some (Inr (rev (map fst segs)))"
    using chain_walk_chain [OF c, of "[]"] by (simp add: segment_registry_chain_roots_def)
  have "\<forall>s\<in>set segs. distinct (map se_segment_id (snd s))" using d strict_by_distinct by blast
  then have "table_map se_segment_id (hash_collect se_segment_id (concat (rev (map snd segs)))) =
      table_map se_segment_id cat"
    by (simp add: hash_collect_spec(2) chain_map_last m)
  then have "hash_collect se_segment_id (concat (rev (map snd segs))) = cat"
    using strict_by_unique hash_collect_spec(1) cat by blast
  then show ?thesis using chain_records [OF c] by (simp add: read_segment_catalog_def roots)
qed

lemma write_registry_spine_flushed:
  assumes h: "digest32 (en_hash en)" and b: "bincode_ok (en_entry_bincode en)" "bincode_ok (en_ref_bincode en)"
    and fit: "fits (length f')"
    and disk: "spine_on_disk en unz f (tb_segment_catalog_root body) m"
    and sync: "table_synced se_segment_id dirty (rg_catalog reg) m"
    and w: "write_registry_spine en body (f, a, reg, dirty) = Inr (body', f', a', segs')"
  shows "extends f f'" and "segs' = (reg, dirty)"
    and "spine_on_disk en unz f' (tb_segment_catalog_root body') (table_map se_segment_id (rg_catalog reg))"
    and "\<exists>root. body' = body\<lparr>tb_segment_catalog_root := root\<rparr>"
proof -
  have "extends f f' \<and> segs' = (reg, dirty) \<and> (\<exists>root. body' = body\<lparr>tb_segment_catalog_root := root\<rparr>) \<and>
    spine_on_disk en unz f' (tb_segment_catalog_root body') (table_map se_segment_id (rg_catalog reg))"
  proof (cases "dirty = {}")
    case True
    then have "m = table_map se_segment_id (rg_catalog reg)"
      using sync by (auto simp: table_synced_def)
    moreover have "\<exists>root. body = body\<lparr>tb_segment_catalog_root := root\<rparr>"
      by (rule exI [of _ "tb_segment_catalog_root body"]) simp
    ultimately show ?thesis
      using w disk True by (auto simp: write_registry_spine_def extends_refl)
  next
    case False
    let ?rs = "dirty_records se_segment_id (rg_catalog reg) dirty"
    obtain payload sid a1 where pl: "encode_catalog_delta (en_entry_bincode en) (en_ref_bincode en)
        Kind_segment (tb_segment_catalog_root body) ?rs = Inr payload"
      and al: "allocate_segment_id a = Inr (sid, a1)"
      using w False by (auto simp: write_registry_spine_def Let_def rbind_Inr_iff)
    obtain root f1 where ap: "append_segment_at_end (en_hash en) f sid SegmentRegistry
        (of_nat (length ?rs)) payload = (root, f1)"
      by fastforce
    have f1: "f1 = f'" and body': "body' = body\<lparr>tb_segment_catalog_root := Some root\<rparr>"
      and segs': "segs' = (reg, dirty)"
      using w False by (auto simp: write_registry_spine_def Let_def pl al ap)
    note app = ap [unfolded f1]
    have "length f \<le> length f'"
      using app by (auto simp: append_segment_at_end_def Let_def write_all_at_def)
    then have f: "fits (length f)" by (rule fits_mono [OF fit])
    note eq = append_segment_at_end_eq [OF h f, of sid SegmentRegistry "of_nat (length ?rs)" payload]
    have ext: "extends f f'" using app eq by (auto simp: extends_def)
    have "length payload \<le> length f'" using app eq by auto
    then have "fits (length payload)" by (rule fits_mono [OF fit])
    from read_append_segment [OF h f this app]
    have rd: "read_segment_payload_typed (en_hash en) unz f' root SegmentRegistry = Inr payload"
      by (simp add: read_segment_payload_typed_def)
    obtain olds where c: "chain (\<lambda>root. read_segment_payload_typed (en_hash en) unz f' root SegmentRegistry)
        (en_entry_bincode en) (en_ref_bincode en) Kind_segment (tb_segment_catalog_root body) olds"
      and d: "\<forall>s\<in>set olds. strict_by se_segment_id (snd s)" and m: "chain_map se_segment_id olds = m"
      using spine_on_disk_extends [OF disk ext] by (auto simp: spine_on_disk_def)
    have "chain (\<lambda>root. read_segment_payload_typed (en_hash en) unz f' root SegmentRegistry)
        (en_entry_bincode en) (en_ref_bincode en) Kind_segment (Some root) ((root, ?rs) # olds)"
      using c rd catalog_delta_rt(1) [OF b pl] by auto
    moreover have "chain_map se_segment_id ((root, ?rs) # olds) = table_map se_segment_id (rg_catalog reg)"
      using table_synced_delta [OF sync] by (simp add: m)
    moreover have "\<forall>s\<in>set ((root, ?rs) # olds). strict_by se_segment_id (snd s)"
      using d strict_dirty_records [of se_segment_id "rg_catalog reg" dirty] sync
      by (auto simp: table_synced_def)
    ultimately have "spine_on_disk en unz f' (Some root) (table_map se_segment_id (rg_catalog reg))"
      unfolding spine_on_disk_def by blast
    with ext segs' show ?thesis by (auto simp: body')
  qed
  then show "extends f f'" and "segs' = (reg, dirty)"
    and "spine_on_disk en unz f' (tb_segment_catalog_root body') (table_map se_segment_id (rg_catalog reg))"
    and "\<exists>root. body' = body\<lparr>tb_segment_catalog_root := root\<rparr>" by blast+
qed

section \<open>A commit's catalog reads back\<close>

definition bincodes_ok :: "env \<Rightarrow> table_bincodes \<Rightarrow> bool" where
  "bincodes_ok en tc \<longleftrightarrow> bincode_ok (en_entry_bincode en) \<and> bincode_ok (en_ref_bincode en) \<and>
     bincode_ok (tc_collection tc) \<and> bincode_ok (tc_text_space tc) \<and> bincode_ok (tc_analyzer tc) \<and>
     bincode_ok (tc_field_schema tc) \<and> bincode_ok (tc_retrieval_profile tc) \<and>
     bincode_ok (tc_embedding_space tc) \<and> bincode_ok (tc_codec tc) \<and> bincode_ok (tc_vector tc) \<and>
     bincode_ok (tc_fusion_profile tc)"

definition frames_pending :: "hash \<Rightarrow> zstd_decode \<Rightarrow> storage \<Rightarrow> segment_ref option \<Rightarrow> u64 set \<Rightarrow> frame_desc list \<Rightarrow> bool" where
  "frames_pending h unz f latest dirty t \<longleftrightarrow>
     (\<exists>m. frames_on_disk h unz f latest m \<and> table_synced fd_frame_id dirty t m) \<and>
     (\<forall>x\<in>set t. frame_wf x) \<and> ref_wf latest"

text \<open>
  What a handle knows between commits: of every table, the chain the footer names lacks at
  most the dirty records.
\<close>
definition catalog_pending ::
  "env \<Rightarrow> zstd_decode \<Rightarrow> table_bincodes \<Rightarrow> vfile \<Rightarrow> u64 set \<Rightarrow> toc_footer_body \<Rightarrow> storage \<Rightarrow> bool" where
  "catalog_pending en unz tc s dirty_vector_ids body f \<longleftrightarrow>
     (let h = en_hash en; rb = en_ref_bincode en; c = vf_catalog s in
      table_pending h unz (tc_collection tc) rb f Kind_collection col_collection_id
        (tb_collection_catalog_root body) (vf_dirty_collection_ids s) (cs_collections c) \<and>
      frames_pending h unz f (tb_frame_catalog_root body) (vf_dirty_frame_ids s) (cs_frames c) \<and>
      table_pending h unz (tc_text_space tc) rb f Kind_text_space ts_text_space_id
        (tb_text_space_catalog_root body) (vf_dirty_text_space_ids s) (cs_text_spaces c) \<and>
      table_pending h unz (tc_analyzer tc) rb f Kind_analyzer an_analyzer_id
        (tb_analyzer_catalog_root body) (vf_dirty_analyzer_ids s) (cs_analyzers c) \<and>
      table_pending h unz (tc_field_schema tc) rb f Kind_field_schema fs_field_schema_id
        (tb_field_schema_catalog_root body) (vf_dirty_field_schema_ids s) (cs_field_schemas c) \<and>
      table_pending h unz (tc_retrieval_profile tc) rb f Kind_retrieval_profile rp_profile_id
        (tb_retrieval_profile_catalog_root body) (vf_dirty_retrieval_profile_ids s) (cs_retrieval_profiles c) \<and>
      table_pending h unz (tc_embedding_space tc) rb f Kind_embedding_space es_embedding_space_id
        (tb_embedding_space_catalog_root body) (vf_dirty_embedding_space_ids s) (cs_embedding_spaces c) \<and>
      table_pending h unz (tc_codec tc) rb f Kind_codec cd_codec_id
        (tb_codec_catalog_root body) (vf_dirty_codec_ids s) (cs_codecs c) \<and>
      table_pending h unz (tc_vector tc) rb f Kind_vector vd_vector_id
        (tb_vector_catalog_root body) dirty_vector_ids (cs_vectors c) \<and>
      table_pending h unz (tc_fusion_profile tc) rb f Kind_fusion_profile fp_fusion_profile_id
        (tb_fusion_profile_catalog_root body) (vf_dirty_fusion_profile_ids s) (cs_fusion_profiles c))"

lemma catalog_pendingD:
  assumes "catalog_pending en unz tc s dv body f"
  shows "table_pending (en_hash en) unz (tc_collection tc) (en_ref_bincode en) f Kind_collection col_collection_id
        (tb_collection_catalog_root body) (vf_dirty_collection_ids s) (cs_collections (vf_catalog s))"
    and "frames_pending (en_hash en) unz f (tb_frame_catalog_root body) (vf_dirty_frame_ids s) (cs_frames (vf_catalog s))"
    and "table_pending (en_hash en) unz (tc_text_space tc) (en_ref_bincode en) f Kind_text_space ts_text_space_id
        (tb_text_space_catalog_root body) (vf_dirty_text_space_ids s) (cs_text_spaces (vf_catalog s))"
    and "table_pending (en_hash en) unz (tc_analyzer tc) (en_ref_bincode en) f Kind_analyzer an_analyzer_id
        (tb_analyzer_catalog_root body) (vf_dirty_analyzer_ids s) (cs_analyzers (vf_catalog s))"
    and "table_pending (en_hash en) unz (tc_field_schema tc) (en_ref_bincode en) f Kind_field_schema fs_field_schema_id
        (tb_field_schema_catalog_root body) (vf_dirty_field_schema_ids s) (cs_field_schemas (vf_catalog s))"
    and "table_pending (en_hash en) unz (tc_retrieval_profile tc) (en_ref_bincode en) f Kind_retrieval_profile rp_profile_id
        (tb_retrieval_profile_catalog_root body) (vf_dirty_retrieval_profile_ids s) (cs_retrieval_profiles (vf_catalog s))"
    and "table_pending (en_hash en) unz (tc_embedding_space tc) (en_ref_bincode en) f Kind_embedding_space es_embedding_space_id
        (tb_embedding_space_catalog_root body) (vf_dirty_embedding_space_ids s) (cs_embedding_spaces (vf_catalog s))"
    and "table_pending (en_hash en) unz (tc_codec tc) (en_ref_bincode en) f Kind_codec cd_codec_id
        (tb_codec_catalog_root body) (vf_dirty_codec_ids s) (cs_codecs (vf_catalog s))"
    and "table_pending (en_hash en) unz (tc_vector tc) (en_ref_bincode en) f Kind_vector vd_vector_id
        (tb_vector_catalog_root body) dv (cs_vectors (vf_catalog s))"
    and "table_pending (en_hash en) unz (tc_fusion_profile tc) (en_ref_bincode en) f Kind_fusion_profile fp_fusion_profile_id
        (tb_fusion_profile_catalog_root body) (vf_dirty_fusion_profile_ids s) (cs_fusion_profiles (vf_catalog s))"
  using assms unfolding catalog_pending_def Let_def by blast+

lemma rbind_pair_Inr:
  "rbind m (case_prod k) = Inr x \<longleftrightarrow> (\<exists>r w. m = Inr (r, w) \<and> k r w = Inr x)"
  by (auto simp: rbind_Inr_iff)

lemma flush_tables_steps:
  assumes "flush_tables en tc s dv body w0 = Inr (body', w')"
  obtains r1 w1 r2 w2 r3 w3 r4 w4 r5 w5 r6 w6 r7 w7 r8 w8 r9 w9 r10 w10 where
    "flush_table en (tc_collection tc) Kind_collection CollectionCatalog col_collection_id
       (vf_dirty_collection_ids s) (cs_collections (vf_catalog s)) (tb_collection_catalog_root body) w0 = Inr (r1, w1)"
    and "(case w1 of (f, a, segs) \<Rightarrow> flush_frame_catalog_columnar (en_hash en) f a segs (tb_frame_catalog_root body)
       (vf_dirty_frame_ids s) (cs_frames (vf_catalog s))) = Inr (r2, w2)"
    and "flush_table en (tc_text_space tc) Kind_text_space TextSpaceCatalog ts_text_space_id
       (vf_dirty_text_space_ids s) (cs_text_spaces (vf_catalog s)) (tb_text_space_catalog_root body) w2 = Inr (r3, w3)"
    and "flush_table en (tc_analyzer tc) Kind_analyzer AnalyzerCatalog an_analyzer_id
       (vf_dirty_analyzer_ids s) (cs_analyzers (vf_catalog s)) (tb_analyzer_catalog_root body) w3 = Inr (r4, w4)"
    and "flush_table en (tc_field_schema tc) Kind_field_schema FieldSchemaCatalog fs_field_schema_id
       (vf_dirty_field_schema_ids s) (cs_field_schemas (vf_catalog s)) (tb_field_schema_catalog_root body) w4 = Inr (r5, w5)"
    and "flush_table en (tc_retrieval_profile tc) Kind_retrieval_profile RetrievalProfileCatalog rp_profile_id
       (vf_dirty_retrieval_profile_ids s) (cs_retrieval_profiles (vf_catalog s)) (tb_retrieval_profile_catalog_root body) w5 = Inr (r6, w6)"
    and "flush_table en (tc_embedding_space tc) Kind_embedding_space EmbeddingSpaceCatalog es_embedding_space_id
       (vf_dirty_embedding_space_ids s) (cs_embedding_spaces (vf_catalog s)) (tb_embedding_space_catalog_root body) w6 = Inr (r7, w7)"
    and "flush_table en (tc_codec tc) Kind_codec CodecCatalog cd_codec_id
       (vf_dirty_codec_ids s) (cs_codecs (vf_catalog s)) (tb_codec_catalog_root body) w7 = Inr (r8, w8)"
    and "flush_table en (tc_vector tc) Kind_vector VectorCatalog vd_vector_id
       dv (cs_vectors (vf_catalog s)) (tb_vector_catalog_root body) w8 = Inr (r9, w9)"
    and "flush_table en (tc_fusion_profile tc) Kind_fusion_profile FusionProfileCatalog fp_fusion_profile_id
       (vf_dirty_fusion_profile_ids s) (cs_fusion_profiles (vf_catalog s)) (tb_fusion_profile_catalog_root body) w9 = Inr (r10, w10)"
    and "body\<lparr>tb_collection_catalog_root := r1, tb_frame_catalog_root := r2,
             tb_text_space_catalog_root := r3, tb_analyzer_catalog_root := r4,
             tb_field_schema_catalog_root := r5, tb_retrieval_profile_catalog_root := r6,
             tb_embedding_space_catalog_root := r7, tb_codec_catalog_root := r8,
             tb_vector_catalog_root := r9, tb_fusion_profile_catalog_root := r10\<rparr> = body'" and "w10 = w'"
  using assms unfolding flush_tables_def Let_def rbind_pair_Inr sum.inject prod.inject
  by (elim exE conjE) (rule that, assumption+)

lemma frames_read:
  assumes h: "digest32 h" and pend: "frames_pending h unz f0 root dirty t"
    and ext: "extends f0 f1" "extends f' f" and fit: "fits (length f)"
    and fl: "flush_frame_catalog_columnar h f1 a segs root dirty t = Inr (root', f', a', segs')"
  shows "read_frame_catalog_slim h unz fid rb f root' = Some (Inr (map stub_of t, Map.empty, t))"
proof -
  obtain m where disk: "frames_on_disk h unz f0 root m" and sync: "table_synced fd_frame_id dirty t m"
    and wf: "\<forall>x\<in>set t. frame_wf x" and root: "ref_wf root"
    using pend by (auto simp: frames_pending_def)
  have f': "fits (length f')" using fit extends_length [OF ext(2)] by (rule fits_mono)
  have "length f1 \<le> length f'" using appends_length [OF flush_frames_appends [OF fl]] by simp
  then have f1: "fits (length f1)" by (rule fits_mono [OF f'])
  have "frames_on_disk h unz f1 root m"
    using ext(1) frames_on_disk_append [OF disk] by (auto simp: extends_def)
  from flush_frames_on_disk(2) [OF h f1 f' this sync wf root fl]
  have "frames_on_disk h unz f' root' (table_map fd_frame_id t)" .
  then have "frames_on_disk h unz f root' (table_map fd_frame_id t)"
    using ext(2) frames_on_disk_append by (auto simp: extends_def)
  then show ?thesis by (rule frames_on_disk_reads) (use sync in \<open>simp add: table_synced_def\<close>)
qed

lemma flush_tables_read:
  assumes h: "digest32 (en_hash en)" and b: "bincodes_ok en tc"
    and pend: "catalog_pending en unz tc s dv body (fst w0)"
    and fl: "flush_tables en tc s dv body w0 = Inr (body', w')"
    and ext: "extends (fst w') f" and fit: "fits (length f)"
  shows "appends (en_hash en) w0 w' \<and>
    read_catalog_snapshot (en_hash en) unz tc (en_ref_bincode en) f body' =
      Some (Inr ((vf_catalog s)\<lparr>cs_frame_stubs := map stub_of (cs_frames (vf_catalog s))\<rparr>, Map.empty)) \<and>
    tb_segment_catalog_root body' = tb_segment_catalog_root body \<and>
    tb_collection_filter_roots body' = tb_collection_filter_roots body \<and>
    tb_time_index_roots body' = tb_time_index_roots body"
  using fl
proof (rule flush_tables_steps)
  fix r1 w1 r2 w2 r3 w3 r4 w4 r5 w5 r6 w6 r7 w7 r8 w8 r9 w9 r10 w10
  assume 1: "flush_table en (tc_collection tc) Kind_collection CollectionCatalog col_collection_id
       (vf_dirty_collection_ids s) (cs_collections (vf_catalog s)) (tb_collection_catalog_root body) w0 = Inr (r1, w1)"
    and 2: "(case w1 of (f, a, segs) \<Rightarrow> flush_frame_catalog_columnar (en_hash en) f a segs (tb_frame_catalog_root body)
       (vf_dirty_frame_ids s) (cs_frames (vf_catalog s))) = Inr (r2, w2)"
    and 3: "flush_table en (tc_text_space tc) Kind_text_space TextSpaceCatalog ts_text_space_id
       (vf_dirty_text_space_ids s) (cs_text_spaces (vf_catalog s)) (tb_text_space_catalog_root body) w2 = Inr (r3, w3)"
    and 4: "flush_table en (tc_analyzer tc) Kind_analyzer AnalyzerCatalog an_analyzer_id
       (vf_dirty_analyzer_ids s) (cs_analyzers (vf_catalog s)) (tb_analyzer_catalog_root body) w3 = Inr (r4, w4)"
    and 5: "flush_table en (tc_field_schema tc) Kind_field_schema FieldSchemaCatalog fs_field_schema_id
       (vf_dirty_field_schema_ids s) (cs_field_schemas (vf_catalog s)) (tb_field_schema_catalog_root body) w4 = Inr (r5, w5)"
    and 6: "flush_table en (tc_retrieval_profile tc) Kind_retrieval_profile RetrievalProfileCatalog rp_profile_id
       (vf_dirty_retrieval_profile_ids s) (cs_retrieval_profiles (vf_catalog s)) (tb_retrieval_profile_catalog_root body) w5 = Inr (r6, w6)"
    and 7: "flush_table en (tc_embedding_space tc) Kind_embedding_space EmbeddingSpaceCatalog es_embedding_space_id
       (vf_dirty_embedding_space_ids s) (cs_embedding_spaces (vf_catalog s)) (tb_embedding_space_catalog_root body) w6 = Inr (r7, w7)"
    and 8: "flush_table en (tc_codec tc) Kind_codec CodecCatalog cd_codec_id
       (vf_dirty_codec_ids s) (cs_codecs (vf_catalog s)) (tb_codec_catalog_root body) w7 = Inr (r8, w8)"
    and 9: "flush_table en (tc_vector tc) Kind_vector VectorCatalog vd_vector_id
       dv (cs_vectors (vf_catalog s)) (tb_vector_catalog_root body) w8 = Inr (r9, w9)"
    and 10: "flush_table en (tc_fusion_profile tc) Kind_fusion_profile FusionProfileCatalog fp_fusion_profile_id
       (vf_dirty_fusion_profile_ids s) (cs_fusion_profiles (vf_catalog s)) (tb_fusion_profile_catalog_root body) w9 = Inr (r10, w10)"
    and body': "body\<lparr>tb_collection_catalog_root := r1, tb_frame_catalog_root := r2,
             tb_text_space_catalog_root := r3, tb_analyzer_catalog_root := r4,
             tb_field_schema_catalog_root := r5, tb_retrieval_profile_catalog_root := r6,
             tb_embedding_space_catalog_root := r7, tb_codec_catalog_root := r8,
             tb_vector_catalog_root := r9, tb_fusion_profile_catalog_root := r10\<rparr> = body'" and w': "w10 = w'"
  obtain f1 a1 segs1 where w1: "w1 = (f1, a1, segs1)" by (cases w1)
  obtain f2 a2 segs2 where w2: "w2 = (f2, a2, segs2)" by (cases w2)
  have 2: "flush_frame_catalog_columnar (en_hash en) f1 a1 segs1 (tb_frame_catalog_root body)
       (vf_dirty_frame_ids s) (cs_frames (vf_catalog s)) = Inr (r2, f2, a2, segs2)"
    using 2 by (simp add: w1 w2)
  have step2: "appends (en_hash en) w1 w2" using flush_frames_appends [OF 2] by (simp add: w1 w2)
  note st = flush_table_appends
  have u1: "appends (en_hash en) w0 w1" by (rule st [OF 1])
  have u2: "appends (en_hash en) w0 w2" by (rule appends_trans [OF step2 u1])
  have u3: "appends (en_hash en) w0 w3" by (rule appends_trans [OF st [OF 3] u2])
  have u4: "appends (en_hash en) w0 w4" by (rule appends_trans [OF st [OF 4] u3])
  have u5: "appends (en_hash en) w0 w5" by (rule appends_trans [OF st [OF 5] u4])
  have u6: "appends (en_hash en) w0 w6" by (rule appends_trans [OF st [OF 6] u5])
  have u7: "appends (en_hash en) w0 w7" by (rule appends_trans [OF st [OF 7] u6])
  have u8: "appends (en_hash en) w0 w8" by (rule appends_trans [OF st [OF 8] u7])
  have u9: "appends (en_hash en) w0 w9" by (rule appends_trans [OF st [OF 9] u8])
  have u10: "appends (en_hash en) w0 w'" using appends_trans [OF st [OF 10] u9] w' by simp
  have d9: "appends (en_hash en) w9 w'" using st [OF 10] w' by simp
  have d8: "appends (en_hash en) w8 w'" by (rule appends_trans [OF d9 st [OF 9]])
  have d7: "appends (en_hash en) w7 w'" by (rule appends_trans [OF d8 st [OF 8]])
  have d6: "appends (en_hash en) w6 w'" by (rule appends_trans [OF d7 st [OF 7]])
  have d5: "appends (en_hash en) w5 w'" by (rule appends_trans [OF d6 st [OF 6]])
  have d4: "appends (en_hash en) w4 w'" by (rule appends_trans [OF d5 st [OF 5]])
  have d3: "appends (en_hash en) w3 w'" by (rule appends_trans [OF d4 st [OF 4]])
  have d2: "appends (en_hash en) w2 w'" by (rule appends_trans [OF d3 st [OF 3]])
  have d1: "appends (en_hash en) w1 w'" by (rule appends_trans [OF d2 step2])
  have fits: "fits (length (fst w))" if "appends (en_hash en) w w'" for w
    using fits_mono [OF fits_mono [OF fit extends_length [OF ext]] appends_length [OF that]] .
  have lo: "extends (fst w0) (fst w)" if "appends (en_hash en) w0 w" "appends (en_hash en) w w'" for w
    by (rule appends_extends [OF that(1) h fits [OF that(2)]])
  have hi: "extends (fst w) f" if "appends (en_hash en) w w'" for w
    by (rule extends_trans [OF appends_extends [OF that h fits [OF appends_refl]] ext])
  have bs: "bincode_ok (en_ref_bincode en)" "bincode_ok (tc_collection tc)" "bincode_ok (tc_text_space tc)"
    "bincode_ok (tc_analyzer tc)" "bincode_ok (tc_field_schema tc)" "bincode_ok (tc_retrieval_profile tc)"
    "bincode_ok (tc_embedding_space tc)" "bincode_ok (tc_codec tc)" "bincode_ok (tc_vector tc)"
    "bincode_ok (tc_fusion_profile tc)"
    using b by (simp_all add: bincodes_ok_def)
  note P = catalog_pendingD [OF pend]
  have colls: "read_collection_catalog (en_hash en) unz (tc_collection tc) (en_ref_bincode en) f r1 =
      Some (Inr (cs_collections (vf_catalog s)))"
  proof (rule collections_read)
    have "table_on_disk (en_hash en) unz (tc_collection tc) (en_ref_bincode en) (fst w1) Kind_collection
        col_collection_id r1 (table_map col_collection_id (cs_collections (vf_catalog s)))"
      by (rule flush_table_flushed [OF h bs(2,1) fits [OF d1] P(1) 1])
    then show "table_on_disk (en_hash en) unz (tc_collection tc) (en_ref_bincode en) f Kind_collection
        col_collection_id r1 (table_map col_collection_id (cs_collections (vf_catalog s)))"
      using hi [OF d1] table_on_disk_append by (auto simp: extends_def)
    show "strict_by col_collection_id (cs_collections (vf_catalog s))"
      using P(1) by (auto simp: table_pending_def table_synced_def)
  qed
  have frames: "read_frame_catalog_slim (en_hash en) unz (tc_frame_id tc) (en_ref_bincode en) f r2 =
      Some (Inr (map stub_of (cs_frames (vf_catalog s)), Map.empty, cs_frames (vf_catalog s)))"
    using frames_read [OF h P(2) _ _ fit 2] lo [OF u1 d1] hi [OF d2] by (simp add: w1 w2)
  note R = flushed_table_reads [OF h _ bs(1) _ _ _ fit]
  have "read_catalog_snapshot (en_hash en) unz tc (en_ref_bincode en) f body' =
      Some (Inr ((vf_catalog s)\<lparr>cs_frame_stubs := map stub_of (cs_frames (vf_catalog s))\<rparr>, Map.empty))"
    unfolding body' [symmetric] read_catalog_snapshot_def
    using colls frames
      R [OF bs(3) P(3) lo [OF u2 d2] hi [OF d3] 3 same_order_ucast]
      R [OF bs(4) P(4) lo [OF u3 d3] hi [OF d4] 4 same_order_ucast]
      R [OF bs(5) P(5) lo [OF u4 d4] hi [OF d5] 5 same_order_ucast]
      R [OF bs(6) P(6) lo [OF u5 d5] hi [OF d6] 6 same_order_ucast]
      R [OF bs(7) P(7) lo [OF u6 d6] hi [OF d7] 7 same_order_ucast]
      R [OF bs(8) P(8) lo [OF u7 d7] hi [OF d8] 8 same_order_ucast]
      R [OF bs(9) P(9) lo [OF u8 d8] hi [OF d9] 9 same_order_refl]
      R [OF bs(10) P(10) lo [OF u9 d9] ext [folded w'] 10 same_order_ucast]
    by simp
  with u10 show ?thesis by (simp add: body' [symmetric])
qed

text \<open>The later phases touch only their own roots.\<close>
lemma write_filters_body:
  "write_filters h c cids (body, f, a, segs, cache) = Inr (body', f', a', segs', cache') \<Longrightarrow>
   \<exists>roots. body' = body\<lparr>tb_collection_filter_roots := roots\<rparr>"
proof (induction cids arbitrary: body f a segs cache)
  case Nil
  then show ?case by (auto intro: exI [of _ "tb_collection_filter_roots body"])
next
  case (Cons cid cids)
  then obtain body1 f1 a1 segs1 cache1 where
    w: "write_collection_filter_segment h f a segs body c cid = Inr (body1, f1, a1, segs1)"
    and r: "write_filters h c cids (body1, f1, a1, segs1, cache1) = Inr (body', f', a', segs', cache')"
    by (auto simp: rbind_Inr_iff)
  obtain r1 where "body1 = body\<lparr>tb_collection_filter_roots := r1\<rparr>"
    using w by (auto simp: write_collection_filter_segment_def Let_def rbind_Inr_iff)
  with Cons.IH [OF r] show ?case by auto
qed

lemma write_time_body:
  "write_time_index_segment h f a segs body c = Inr (body', f', a', segs') \<Longrightarrow>
   \<exists>roots. body' = body\<lparr>tb_time_index_roots := roots\<rparr>"
  by (auto simp: write_time_index_segment_def Let_def rbind_Inr_iff)

lemma read_snapshot_roots:
  "read_catalog_snapshot h unz tc rb f (body\<lparr>tb_collection_filter_roots := r\<rparr>) =
     read_catalog_snapshot h unz tc rb f body"
  "read_catalog_snapshot h unz tc rb f (body\<lparr>tb_time_index_roots := r'\<rparr>) =
     read_catalog_snapshot h unz tc rb f body"
  "read_catalog_snapshot h unz tc rb f (body\<lparr>tb_segment_catalog_root := r''\<rparr>) =
     read_catalog_snapshot h unz tc rb f body"
  "read_catalog_snapshot h unz tc rb f (body\<lparr>tb_id_allocator := a\<rparr>) =
     read_catalog_snapshot h unz tc rb f body"
  by (simp_all add: read_catalog_snapshot_def)

lemma filters_reflect_extends:
  "filters_reflect h unz f roots M \<Longrightarrow> extends f f' \<Longrightarrow> filters_reflect h unz f' roots M"
  unfolding filters_reflect_def extends_def using filter_entry_append by blast

lemma load_time_extends:
  "load_time_index_cache h unz f body = Inr cache \<Longrightarrow> extends f f' \<Longrightarrow>
   load_time_index_cache h unz f' body = Inr cache"
  by (auto simp: load_time_index_cache_def extends_def rbind_Inr_iff split: option.splits
      dest: read_segment_payload_typed_append)

lemma time_phase_body:
  assumes "(if p then Inr (body, f, a, segs) else write_time_index_segment h f a segs body c) =
    Inr (body', f', a', segs')"
  shows "\<exists>roots. body' = body\<lparr>tb_time_index_roots := roots\<rparr>"
proof (cases p)
  case True
  then have "body' = body\<lparr>tb_time_index_roots := tb_time_index_roots body\<rparr>" using assms by simp
  then show ?thesis by (rule exI)
next
  case False
  with assms show ?thesis by (auto dest: write_time_body)
qed

text \<open>What a successful run of the phases was.\<close>
lemma write_catalog_segments_steps:
  assumes "write_catalog_segments en tc s dv filters times0 body0 w0 = Inr (body', w', filters', times')"
  obtains body1 f1 a1 segs1 body2 f2 a2 segs2 body3 f3 a3 segs3 body4 f4 a4 segs4 where
    "flush_tables en tc s dv body0 w0 = Inr (body1, f1, a1, segs1)"
    and "write_filters (en_hash en) (vf_catalog s)
       (dirty_filter_collections (vf_catalog s) (vf_dirty_frame_ids s) dv)
       (body1, f1, a1, segs1, filters) = Inr (body2, f2, a2, segs2, filters')"
    and "(if vf_dirty_frame_ids s = {} then Inr (body2, f2, a2, segs2)
       else write_time_index_segment (en_hash en) f2 a2 segs2 body2 (vf_catalog s)) = Inr (body3, f3, a3, segs3)"
    and "write_registry_spine en body3 (f3, a3, segs3) = Inr (body4, f4, a4, segs4)"
    and "body' = body4\<lparr>tb_id_allocator := a4\<rparr>" and "w' = (f4, a4, segs4)"
    and "times' = (if vf_dirty_frame_ids s = {} then times0 else tx_entries (build_time_index (vf_catalog s)))"
proof -
  obtain v1 where v1: "flush_tables en tc s dv body0 w0 = Inr v1"
    using assms by (simp only: write_catalog_segments_def Let_def rbind_Inr_iff) (elim exE conjE, rule that)
  obtain body1 f1 a1 segs1 where 1: "flush_tables en tc s dv body0 w0 = Inr (body1, f1, a1, segs1)"
    using v1 by (cases v1) blast
  obtain v2 where v2: "write_filters (en_hash en) (vf_catalog s)
       (dirty_filter_collections (vf_catalog s) (vf_dirty_frame_ids s) dv)
       (body1, f1, a1, segs1, filters) = Inr v2"
    using assms
    by (simp only: write_catalog_segments_def Let_def 1 rbind_simps prod.case rbind_Inr_iff) (elim exE conjE, rule that)
  obtain body2 f2 a2 segs2 fl2 where 2: "write_filters (en_hash en) (vf_catalog s)
       (dirty_filter_collections (vf_catalog s) (vf_dirty_frame_ids s) dv)
       (body1, f1, a1, segs1, filters) = Inr (body2, f2, a2, segs2, fl2)"
    using v2 by (cases v2) blast
  obtain v3 where v3: "(if vf_dirty_frame_ids s = {} then Inr (body2, f2, a2, segs2)
       else write_time_index_segment (en_hash en) f2 a2 segs2 body2 (vf_catalog s)) = Inr v3"
    using assms
    by (simp only: write_catalog_segments_def Let_def 1 2 rbind_simps prod.case rbind_Inr_iff) (elim exE conjE, rule that)
  obtain body3 f3 a3 segs3 where 3: "(if vf_dirty_frame_ids s = {} then Inr (body2, f2, a2, segs2)
       else write_time_index_segment (en_hash en) f2 a2 segs2 body2 (vf_catalog s)) = Inr (body3, f3, a3, segs3)"
    using v3 by (cases v3) blast
  obtain v4 where v4: "write_registry_spine en body3 (f3, a3, segs3) = Inr v4"
    using assms
    by (simp only: write_catalog_segments_def Let_def 1 2 3 rbind_simps prod.case rbind_Inr_iff) (elim exE conjE, rule that)
  obtain body4 f4 a4 segs4 where 4: "write_registry_spine en body3 (f3, a3, segs3) = Inr (body4, f4, a4, segs4)"
    using v4 by (cases v4) blast
  have "body' = body4\<lparr>tb_id_allocator := a4\<rparr>" "w' = (f4, a4, segs4)" "filters' = fl2"
    "times' = (if vf_dirty_frame_ids s = {} then times0 else tx_entries (build_time_index (vf_catalog s)))"
    using assms
    by (simp_all only: write_catalog_segments_def Let_def 1 2 3 4 rbind_simps prod.case sum.inject prod.inject
        build_time_index_def time_index_segment.simps)
  with 1 2 3 4 that show thesis by blast
qed

section \<open>Properties\<close>

text \<open>
  C18: The catalog a commit wrote is the catalog the next open reads: if before the commit
  every chain on disk lacks at most the dirty records of its table, then after the ten table
  flushes, the filters, the time index and the registry spine, and whatever is appended
  later, \<open>read_catalog_snapshot\<close> returns the catalog of the handle (with the stubs of its
  frames), the spine reads back as the registry of the handle, the filters load as the
  cache of the handle, and, when frames changed, so does the time index.
\<close>
theorem committed_catalog_rereads:
  assumes "digest32 (en_hash en)" and "bincodes_ok en tc"
    and "catalog_pending en unz tc s dv body0 f0"
    and "registry_inv (en_hash en) unz spine (f0, a0, segs0)"
    and "spine_on_disk en unz f0 (tb_segment_catalog_root body0) spine"
    and "filters_reflect (en_hash en) unz f0 (tb_collection_filter_roots body0) filters"
    and "\<forall>r\<in>set (tb_time_index_roots body0). length (sr_checksum (ti_root r)) = 32"
    and "fits (length (f' @ g))"
    and "write_catalog_segments en tc s dv filters times0 body0 (f0, a0, segs0) =
      Inr (body', (f', a', reg', dirty'), filters', times')"
  shows "read_catalog_snapshot (en_hash en) unz tc (en_ref_bincode en) (f' @ g) body' =
      Some (Inr ((vf_catalog s)\<lparr>cs_frame_stubs := map stub_of (cs_frames (vf_catalog s))\<rparr>, Map.empty)) \<and>
    read_segment_catalog (en_hash en) unz (en_entry_bincode en) (en_ref_bincode en) (f' @ g)
      (tb_segment_catalog_root body') = Some (Inr (rg_catalog reg')) \<and>
    load_collection_filter_cache (en_hash en) unz (f' @ g) body' = Inr filters' \<and>
    (vf_dirty_frame_ids s = {} \<or> load_time_index_cache (en_hash en) unz (f' @ g) body' = Inr times')"
  using assms(9)
proof (rule write_catalog_segments_steps)
  let ?h = "en_hash en"
  fix body1 f1 a1 segs1 body2 f2 a2 segs2 body3 f3 a3 segs3 body4 f4 a4 segs4
  assume 1: "flush_tables en tc s dv body0 (f0, a0, segs0) = Inr (body1, f1, a1, segs1)"
    and 2: "write_filters ?h (vf_catalog s)
       (dirty_filter_collections (vf_catalog s) (vf_dirty_frame_ids s) dv)
       (body1, f1, a1, segs1, filters) = Inr (body2, f2, a2, segs2, filters')"
    and 3: "(if vf_dirty_frame_ids s = {} then Inr (body2, f2, a2, segs2)
       else write_time_index_segment ?h f2 a2 segs2 body2 (vf_catalog s)) = Inr (body3, f3, a3, segs3)"
    and 4: "write_registry_spine en body3 (f3, a3, segs3) = Inr (body4, f4, a4, segs4)"
    and body': "body' = body4\<lparr>tb_id_allocator := a4\<rparr>" and w': "(f', a', reg', dirty') = (f4, a4, segs4)"
    and times': "times' = (if vf_dirty_frame_ids s = {} then times0 else tx_entries (build_time_index (vf_catalog s)))"
  obtain reg3 dirty3 where segs3: "segs3 = (reg3, dirty3)" by (cases segs3)
  note b = assms(2) [unfolded bincodes_ok_def]
  have s3: "appends ?h (f2, a2, segs2) (f3, a3, segs3)"
    using 3 by (auto intro: appends_refl write_time_appends split: if_splits)
  have s2: "appends ?h (f1, a1, segs1) (f3, a3, segs3)" by (rule appends_trans [OF s3 write_filters_appends [OF 2]])
  have "length f3 \<le> length f'"
    using 4 w' by (auto simp: write_registry_spine_def segs3 Let_def rbind_Inr_iff append_segment_at_end_def
        write_all_at_def split: if_splits prod.splits)
  then have f3: "fits (length f3)" by (intro fits_mono [OF assms(8)]) simp
  have f1: "fits (length f1)" and f2: "fits (length f2)"
    using appends_length [OF s2] appends_length [OF s3] fits_mono [OF f3] by auto
  have e13: "extends f1 f3" and e23: "extends f2 f3"
    using appends_extends [OF s2 assms(1)] appends_extends [OF s3 assms(1)] f3 by simp_all
  have flush: "appends ?h (f0, a0, segs0) (f1, a1, segs1)"
    "read_catalog_snapshot ?h unz tc (en_ref_bincode en) f body1 =
      Some (Inr ((vf_catalog s)\<lparr>cs_frame_stubs := map stub_of (cs_frames (vf_catalog s))\<rparr>, Map.empty))"
    "tb_segment_catalog_root body1 = tb_segment_catalog_root body0"
    "tb_collection_filter_roots body1 = tb_collection_filter_roots body0"
    "tb_time_index_roots body1 = tb_time_index_roots body0" if "extends f1 f" "fits (length f)" for f
    using flush_tables_read [OF assms(1,2) _ 1, of unz f] assms(3) that by simp_all
  note flush' = flush [OF extends_refl f1]
  have s1: "appends ?h (f0, a0, segs0) (f3, a3, segs3)" by (rule appends_trans [OF s2 flush'(1)])
  have e01: "extends f0 f1" and e03: "extends f0 f3"
    using appends_extends [OF flush'(1) assms(1)] appends_extends [OF s1 assms(1)] f1 f3 by simp_all
  have inv3: "registry_inv ?h unz spine (f3, a3, segs3)"
    by (rule appends_registry_inv [OF s1 assms(1) _ assms(4)]) (simp add: f3)
  obtain fr where body2: "body2 = body1\<lparr>tb_collection_filter_roots := fr\<rparr>"
    using write_filters_body [OF 2] by blast
  obtain tr where body3: "body3 = body2\<lparr>tb_time_index_roots := tr\<rparr>"
    using time_phase_body [OF 3] by blast
  have spine3: "spine_on_disk en unz f3 (tb_segment_catalog_root body3) spine"
    using spine_on_disk_extends [OF assms(5) e03] flush'(3) by (simp add: body3 body2)
  have sync3: "table_synced se_segment_id dirty3 (rg_catalog reg3) spine"
    and cat3: "strict_by se_segment_id (rg_catalog reg3)"
    using inv3 by (auto simp: registry_inv_def segs3 registry_ok_def)
  have fit4: "fits (length f4)" using w' by (intro fits_mono [OF assms(8)]) simp
  note S = write_registry_spine_flushed [OF assms(1) _ _ fit4 spine3 sync3 4 [unfolded segs3]]
  have e34: "extends f3 f4" and segs4: "segs4 = (reg3, dirty3)"
    and spine4: "spine_on_disk en unz f4 (tb_segment_catalog_root body4) (table_map se_segment_id (rg_catalog reg3))"
    and "\<exists>root. body4 = body3\<lparr>tb_segment_catalog_root := root\<rparr>"
    using S b by simp_all
  then obtain sr where body4: "body4 = body3\<lparr>tb_segment_catalog_root := sr\<rparr>" by blast
  have f4: "f4 = f'" "reg' = reg3" using w' segs4 by simp_all
  have e4g: "extends f4 (f' @ g)" by (simp add: f4 extends_append)
  have e3g: "extends f3 (f' @ g)" by (rule extends_trans [OF e34 e4g])
  have snap: "read_catalog_snapshot ?h unz tc (en_ref_bincode en) (f' @ g) body' =
      Some (Inr ((vf_catalog s)\<lparr>cs_frame_stubs := map stub_of (cs_frames (vf_catalog s))\<rparr>, Map.empty))"
    using flush(2) [OF extends_trans [OF e13 e3g] assms(8)]
    by (simp only: body' body4 body3 body2 read_snapshot_roots)
  have reg: "read_segment_catalog ?h unz (en_entry_bincode en) (en_ref_bincode en) (f' @ g)
      (tb_segment_catalog_root body') = Some (Inr (rg_catalog reg'))"
    using spine_reads [OF spine_on_disk_extends [OF spine4 e4g] cat3] by (simp add: body' f4)
  have "filters_reflect ?h unz f1 (tb_collection_filter_roots body1) filters"
    using filters_reflect_extends [OF assms(6) e01] flush'(4) by simp
  from write_filters_reflect [OF this assms(1) 2 f1 f2]
  have "filters_reflect ?h unz f2 (tb_collection_filter_roots body2) filters'" by (rule conjunct1)
  then have "filters_reflect ?h unz (f' @ g) (tb_collection_filter_roots body') filters'"
    using filters_reflect_extends extends_trans [OF e23 e3g] by (simp add: body' body4 body3)
  then have filt: "load_collection_filter_cache ?h unz (f' @ g) body' = Inr filters'"
    by (rule load_collection_filters)
  have time: "load_time_index_cache ?h unz (f' @ g) body' = Inr times'" if "vf_dirty_frame_ids s \<noteq> {}"
  proof -
    have w: "write_time_index_segment ?h f2 a2 segs2 body2 (vf_catalog s) = Inr (body3, f3, a3, segs3)"
      using 3 that by simp
    have "\<forall>r\<in>set (tb_time_index_roots body2). length (sr_checksum (ti_root r)) = 32"
      using assms(7) flush'(5) by (simp add: body2)
    from load_time_extends [OF time_index_rereads [OF assms(1) f2 f3 this w] e3g] that
    show ?thesis by (simp add: times' body' body4 load_time_index_cache_def)
  qed
  show ?thesis using snap reg filt time by blast
qed

text \<open>A bincode that knows one value, and a handle with one new collection.\<close>
definition ex_one :: "'a \<Rightarrow> 'a bincode" where
  "ex_one x = \<lparr>encode_to_vec = (\<lambda>y. if y = x then Some [1] else None),
     decode_from_slice = (\<lambda>bs. if bs = [1] then Some (x, 1) else None)\<rparr>"

definition ex_none :: "'a bincode" where
  "ex_none = \<lparr>encode_to_vec = (\<lambda>_. None), decode_from_slice = (\<lambda>_. None)\<rparr>"

lemma ex_one_ok: "bincode_ok (ex_one x)" "bincode_ok ex_none"
  by (auto simp: bincode_ok_def ex_one_def ex_none_def split: if_splits)

definition ex_collection :: collection_desc where
  "ex_collection = \<lparr>col_collection_id = 3, col_name = ''notes'', col_created_at = 5,
     col_default_text_space_id = None, col_default_embedding_space_id = None, col_flags = 0,
     col_metadata_ref = None\<rparr>"

definition ex_bincodes :: table_bincodes where
  "ex_bincodes = \<lparr>tc_collection = ex_one ex_collection, tc_frame_id = ex_none, tc_text_space = ex_none,
     tc_analyzer = ex_none, tc_field_schema = ex_none, tc_retrieval_profile = ex_none,
     tc_embedding_space = ex_none, tc_codec = ex_none, tc_vector = ex_none, tc_fusion_profile = ex_none\<rparr>"

definition ex_writer :: vfile where
  "ex_writer = (vfile_created [] \<lparr>tf_body = toc_body_empty 1 contract_default, tf_checksum = replicate 32 0\<rparr>
     contract_default)\<lparr>vf_catalog := catalog_snapshot_default\<lparr>cs_collections := [ex_collection]\<rparr>,
       vf_dirty_collection_ids := {3}\<rparr>"

definition ex_writer_env :: "segment_catalog_entry \<Rightarrow> env" where
  "ex_writer_env e = \<lparr>en_hash = ex_hash, en_zstd_encode = Some, en_zstd_decode = Some,
     en_entry_bincode = ex_one e, en_ref_bincode = ex_ref_bincode, en_frame_bincode = ex_none\<rparr>"

lemma dirty_records_fresh:
  assumes "table_synced key dirty t Map.empty" shows "dirty_records key t dirty = t"
proof (rule strict_by_unique)
  have t: "strict_by key t" using assms by (simp add: table_synced_def)
  then show "strict_by key (dirty_records key t dirty)" "strict_by key t" by (simp_all add: strict_dirty_records)
  show "table_map key (dirty_records key t dirty) = table_map key t"
    using table_synced_delta [OF assms] by simp
qed

lemma ex_deltas:
  "\<exists>p. encode_catalog_delta (ex_one x) ex_ref_bincode table None [x] = Inr p \<and> length p < 1000"
  by (simp add: encode_catalog_delta_def encode_catalog_records_def encode_catalog_record_def
      bincode_encode_def ex_one_def ex_ref_bincode_def ex_ref_encode_def
      catalog_record_header_new_def u32_try_from_def CATALOG_RECORD_HEADER_LEN_def CATALOG_MAGIC_def)

lemma ex_allocations:
  "allocate_segment_id id_allocator_default = Inr (1, id_allocator_default\<lparr>next_segment_id := 2\<rparr>)"
  "\<exists>sid a. allocate_segment_id (id_allocator_default\<lparr>next_segment_id := 2\<rparr>) = Inr (sid, a)"
  by (simp_all add: allocate_segment_id_def take_id_def validate_next_def next_id_def checked_add_def
      id_allocator_default_def)

lemma ex_empty_pending: "table_pending h unz b rb f table key None {} []"
  unfolding table_pending_def
  by (rule exI [of _ Map.empty]) (simp add: table_on_disk_empty table_synced_def table_map_def)

lemma ex_pending:
  "catalog_pending (ex_writer_env e) unz ex_bincodes ex_writer {} (toc_body_empty 1 contract_default) []"
proof -
  have c: "table_pending h unz b rb f table col_collection_id None {3} [ex_collection]" for h b rb f table
    unfolding table_pending_def
    by (rule exI [of _ Map.empty])
      (simp add: table_on_disk_empty table_synced_def strict_by_def table_map_def ex_collection_def)
  have "frames_pending h unz f None {} []" for h f
    unfolding frames_pending_def
    by (auto intro!: exI [of _ Map.empty] simp: frames_on_disk_empty table_synced_def table_map_def ref_wf_def)
  then show ?thesis
    using c
    by (simp add: ex_empty_pending Let_def catalog_pending_def ex_writer_def vfile_created_def toc_body_empty_def
        catalog_snapshot_default_def)
qed

lemma committed_catalog_rereads_witness:
  "\<exists>f body. read_catalog_snapshot ex_hash (\<lambda>_. None) ex_bincodes ex_ref_bincode f body =
     Some (Inr (catalog_snapshot_default\<lparr>cs_collections := [ex_collection]\<rparr>, Map.empty))"
proof -
  let ?segs = "(\<lparr>rg_catalog = [], rg_by_id = Map.empty, rg_loaded = True\<rparr>, {}) :: segment_registry_mut"
  let ?body = "toc_body_empty 1 contract_default"
  let ?a1 = "id_allocator_default\<lparr>next_segment_id := 2\<rparr>"
  obtain p where p: "encode_catalog_delta (ex_one ex_collection) ex_ref_bincode Kind_collection None
      [ex_collection] = Inr p" and l: "length p < 1000"
    by (rule exE [OF ex_deltas [of ex_collection Kind_collection]]) blast
  have f0: "fits (length ([] :: storage))" and pf: "fits (SEGMENT_HEADER_SIZE + length p)"
    using l by (simp_all add: fits_def SEGMENT_HEADER_SIZE_def)
  obtain root f1 segs1 where app: "append_registered_segment ex_hash [] id_allocator_default ?segs
      CollectionCatalog 1 p = Inr (root, f1, ?a1, segs1)"
    and len: "length f1 = SEGMENT_HEADER_SIZE + length p"
    using append_registered_segment_total [OF ex_hash_ok f0 pf ex_allocations(1), of ?segs CollectionCatalog 1]
    by auto
  have f1: "fits (length f1)" using len pf by simp
  have inv0: "registry_inv ex_hash (\<lambda>_. None) Map.empty ([], id_allocator_default, ?segs)"
    by (simp add: registry_inv_def registry_ok_def registry_backed_def table_empty table_synced_def table_map_def)
  obtain reg d where segs1: "segs1 = (reg, d)" by (cases segs1)
  have "registry_inv ex_hash (\<lambda>_. None) Map.empty (f1, ?a1, segs1)"
    by (rule registry_inv_append [OF ex_hash_ok f1 inv0 app])
  then have sync: "table_synced se_segment_id d (rg_catalog reg) Map.empty"
    by (simp add: registry_inv_def segs1)
  obtain e where e: "rg_catalog reg = [e]" and d: "d = {sr_segment_id root}"
    using append_registered_segment_spec(6,8) [OF ex_hash_ok f0 pf _ _ _ app [unfolded segs1]]
    by (auto simp: registry_ok_def registry_backed_def table_empty)
  let ?en = "ex_writer_env e"
  obtain q where q: "encode_catalog_delta (ex_one e) ex_ref_bincode Kind_segment None [e] = Inr q"
    and lq: "length q < 1000"
    by (rule exE [OF ex_deltas [of e Kind_segment]]) blast
  obtain sid a2 where al: "allocate_segment_id ?a1 = Inr (sid, a2)" using ex_allocations(2) by blast
  obtain root2 f2 where ap: "append_segment_at_end ex_hash f1 sid SegmentRegistry 1 q = (root2, f2)" by fastforce
  have f2: "fits (length (f2 @ []))"
    using ex_hash_ok ap len l lq append_segment_at_end_eq [OF ex_hash_ok f1, of sid SegmentRegistry 1 q]
    by (auto simp: fits_def SEGMENT_HEADER_SIZE_def)
  have dr: "dirty_records se_segment_id [e] d = [e]" using dirty_records_fresh [OF sync] by (simp add: e)
  have dc: "dirty_records col_collection_id [ex_collection] {3} = [ex_collection]"
    by (rule dirty_records_fresh) (simp add: table_synced_def strict_by_def table_map_def ex_collection_def)
  have run: "\<exists>body'. write_catalog_segments ?en ex_bincodes ex_writer {} Map.empty [] ?body ([], id_allocator_default, ?segs) =
      Inr (body', (f2, a2, reg, d), Map.empty, [])"
    using p app q al ap dr dc
    by (simp add: write_catalog_segments_def flush_tables_def flush_table_def flush_catalog_table_def
        flush_frame_catalog_columnar_def ex_writer_def vfile_created_def ex_writer_env_def ex_bincodes_def
        toc_body_empty_def catalog_snapshot_default_def dirty_filter_collections_def
        write_registry_spine_def segs1 e d Let_def)
  then obtain body' where run: "write_catalog_segments ?en ex_bincodes ex_writer {} Map.empty [] ?body
      ([], id_allocator_default, ?segs) = Inr (body', (f2, a2, reg, d), Map.empty, [])" by blast
  have ok: "digest32 (en_hash ?en)" "bincodes_ok ?en ex_bincodes"
    by (simp_all add: ex_writer_env_def ex_hash_ok bincodes_ok_def ex_bincodes_def ex_one_ok ex_ref_bincode_ok)
  have spine: "spine_on_disk ?en (\<lambda>_. None) [] (tb_segment_catalog_root ?body) Map.empty"
    unfolding spine_on_disk_def by (rule exI [of _ "[]"]) (simp add: toc_body_empty_def)
  have inv: "registry_inv (en_hash ?en) (\<lambda>_. None) Map.empty ([], id_allocator_default, ?segs)"
    using inv0 by (simp add: ex_writer_env_def)
  have fl: "filters_reflect (en_hash ?en) (\<lambda>_. None) [] (tb_collection_filter_roots ?body) Map.empty"
    by (simp add: filters_reflect_def toc_body_empty_def)
  have ti: "\<forall>r\<in>set (tb_time_index_roots ?body). length (sr_checksum (ti_root r)) = 32"
    by (simp add: toc_body_empty_def)
  from committed_catalog_rereads [OF ok ex_pending inv spine fl ti f2 run]
  show ?thesis
    by (auto simp: ex_writer_env_def ex_writer_def vfile_created_def catalog_snapshot_default_def)
qed

end
