(* ===== verification/CommitPhases.thy ===== *)
theory CommitPhases imports Commit CatalogTables begin

text \<open>
  A whole commit of a handle and what other handles on the same file see of it (src/file/commit.rs:
  \<open>commit_with_profile\<close>, \<open>commit_phase_writes\<close>, \<open>commit_phase_publish\<close>, the writer slot; the
  bounded lock acquisition of src/concurrency/locks.rs). The segments of a commit are an
  interface: a phase that appends to the file and returns a body with the generation it was
  given; the catalog phase of the model is one. Shown: which errors leave the writer slot
  taken, and that two handles with the same header both commit.

  The handle is open for writing and its registry is loaded (\<open>ensure_write\<close>). What a handle
  sees of the coordination region through its memory map is what the file holds. Left out:
  timings; the backoff between the attempts; the vector pointers that phase B rebuilds (an
  error there leaves in the same way as one of the memory map) and the snapshot it publishes to
  readers of the same process; the dirty sets, for which the flag \<open>dirty\<close> stands.
\<close>

section \<open>The writer slot\<close>

text \<open>
  The byte lock of the writer slot belongs to an open file description, one per handle
  (\<open>F_OFD_SETLK\<close>): taking it again is granted to its owner. The attempts see the owner, or an
  error of \<open>fcntl\<close>, in a sequence \<open>seen\<close> that other handles determine.
\<close>
type_synonym handle_id = nat

type_synonym slot_owner = "handle_id option"

definition try_acquire_byte_lock :: "handle_id \<Rightarrow> slot_owner result \<Rightarrow> bool result" where
  "try_acquire_byte_lock me seen =
     (case seen of Inl e \<Rightarrow> Inl e | Inr owner \<Rightarrow> Inr (owner = None \<or> owner = Some me))"

definition release_byte_lock :: "handle_id \<Rightarrow> slot_owner \<Rightarrow> slot_owner" where
  "release_byte_lock me owner = (if owner = Some me then None else owner)"

fun acquire_exclusive_blocking ::
  "handle_id \<Rightarrow> (nat \<Rightarrow> slot_owner result) \<Rightarrow> nat \<Rightarrow> nat \<Rightarrow> nat result" where
  "acquire_exclusive_blocking me seen attempt 0 =
     Inl (Busy ''writer slot lock contended past max attempts'')"
| "acquire_exclusive_blocking me seen attempt (Suc left) =
     (case try_acquire_byte_lock me (seen attempt) of
        Inl e \<Rightarrow> Inl e
      | Inr got \<Rightarrow> if got then Inr (attempt + 1)
                  else acquire_exclusive_blocking me seen (attempt + 1) left)"

definition coord_acquire_writer_lock ::
  "handle_id \<Rightarrow> (nat \<Rightarrow> slot_owner result) \<Rightarrow> storage \<Rightarrow> bool result" where
  "coord_acquire_writer_lock me seen f =
     (if \<not> coord_region_active f then Inr False
      else rbind (acquire_exclusive_blocking me seen 0 1024) (\<lambda>_. Inr True))"

section \<open>The commit\<close>

text \<open>What the handles on one file share, and what a handle keeps.\<close>
record shared_file =
  sh_file :: storage
  sh_slot :: slot_owner

record commit_handle =
  ch_header :: header
  ch_footer :: toc_footer
  ch_dirty :: bool

record commit_outcome =
  out_snapshot_generation :: u64
  out_changed :: bool

record commit_phase_a_state =
  pa_footer :: toc_footer
  pa_captured_header :: header
  pa_writer_lock_acquired :: bool

datatype commit_write_phase_result = NoOp commit_outcome | Prepared commit_phase_a_state

text \<open>
  A phase that writes the segments of a commit of the given generation, and its body or its
  error: the payload batches, the vector batches, the text indexes and the catalog.
\<close>
type_synonym segment_writes = "u64 \<Rightarrow> storage \<Rightarrow> toc_footer_body result \<times> storage"

definition commit_phase_writes ::
  "hash \<Rightarrow> toc_bincode \<Rightarrow> commit_device \<Rightarrow> handle_id \<Rightarrow> (nat \<Rightarrow> slot_owner result) \<Rightarrow> segment_writes \<Rightarrow>
     commit_handle \<Rightarrow> shared_file \<Rightarrow> commit_write_phase_result result \<times> commit_handle \<times> shared_file" where
  "commit_phase_writes h tb dev me seen segs ch sh =
     (if \<not> ch_dirty ch
      then (Inr (NoOp \<lparr>out_snapshot_generation = hd_snapshot_generation (ch_header ch), out_changed = False\<rparr>),
            ch, sh)
      else case coord_acquire_writer_lock me seen (sh_file sh) of
        Inl e \<Rightarrow> (Inl e, ch, sh)
      | Inr acquired \<Rightarrow>
          let slot = (if acquired then Some me else sh_slot sh) in
     (case segs (hd_snapshot_generation (ch_header ch) + 1) (sh_file sh) of
        (Inl e, f1) \<Rightarrow> (Inl e, ch, \<lparr>sh_file = f1, sh_slot = slot\<rparr>)
      | (Inr body, f1) \<Rightarrow>
     (case commit_write_footer h tb dev body
             \<lparr>wp_file = f1, wp_header = ch_header ch, wp_lock = acquired\<rparr> of
        (r, wp) \<Rightarrow>
          let ch' = ch\<lparr>ch_header := wp_header wp\<rparr>;
              sh' = \<lparr>sh_file = wp_file wp,
                     sh_slot = (if wp_lock wp then slot else release_byte_lock me slot)\<rparr> in
          (case r of
             Inl e \<Rightarrow> (Inl e, ch', sh')
           | Inr footer \<Rightarrow>
               (Inr (Prepared \<lparr>pa_footer = footer, pa_captured_header = wp_header wp,
                              pa_writer_lock_acquired = acquired\<rparr>), ch', sh')))))"

definition commit_phase_publish ::
  "commit_device \<Rightarrow> handle_id \<Rightarrow> commit_phase_a_state \<Rightarrow> commit_handle \<Rightarrow> shared_file \<Rightarrow>
     commit_outcome result \<times> commit_handle \<times> shared_file" where
  "commit_phase_publish dev me prepared ch sh =
     (let ch' = ch\<lparr>ch_footer := pa_footer prepared, ch_dirty := False\<rparr> in
      case dv_remap dev of
        Inl e \<Rightarrow> (Inl e, ch', sh)
      | Inr _ \<Rightarrow>
          (Inr \<lparr>out_snapshot_generation = hd_snapshot_generation (pa_captured_header prepared),
                out_changed = True\<rparr>, ch',
           if pa_writer_lock_acquired prepared
           then sh\<lparr>sh_slot := release_byte_lock me (sh_slot sh)\<rparr> else sh))"

text \<open>\<open>commit\<close> is \<open>commit_with_profile\<close> without the timings.\<close>
definition commit ::
  "hash \<Rightarrow> toc_bincode \<Rightarrow> commit_device \<Rightarrow> handle_id \<Rightarrow> (nat \<Rightarrow> slot_owner result) \<Rightarrow> segment_writes \<Rightarrow>
     commit_handle \<Rightarrow> shared_file \<Rightarrow> commit_outcome result \<times> commit_handle \<times> shared_file" where
  "commit h tb dev me seen segs ch sh =
     (case commit_phase_writes h tb dev me seen segs ch sh of
        (Inl e, ch', sh') \<Rightarrow> (Inl e, ch', sh')
      | (Inr (NoOp outcome), ch', sh') \<Rightarrow> (Inr outcome, ch', sh')
      | (Inr (Prepared prepared), ch', sh') \<Rightarrow>
          (case dv_sync dev of
             Inl e \<Rightarrow> (Inl e, ch', sh')
           | Inr _ \<Rightarrow> commit_phase_publish dev me prepared ch' sh'))"

section \<open>The lock\<close>

lemma acquire_free:
  "seen attempt = Inr None \<Longrightarrow> 0 < left \<Longrightarrow> acquire_exclusive_blocking me seen attempt left = Inr (attempt + 1)"
  by (cases left) (simp_all add: try_acquire_byte_lock_def)

lemma acquire_taken:
  "\<forall>k. seen k = Inr (Some other) \<Longrightarrow> other \<noteq> me \<Longrightarrow>
   acquire_exclusive_blocking me seen attempt left = Inl (Busy ''writer slot lock contended past max attempts'')"
  by (induction left arbitrary: attempt) (simp_all add: try_acquire_byte_lock_def)

lemma coord_acquire_free: "seen 0 = Inr None \<Longrightarrow> coord_acquire_writer_lock me seen f = Inr (coord_region_active f)"
  by (simp add: coord_acquire_writer_lock_def acquire_free)

lemma coord_acquire_taken:
  "coord_region_active f \<Longrightarrow> \<forall>k. seen k = Inr (Some other) \<Longrightarrow> other \<noteq> me \<Longrightarrow>
   coord_acquire_writer_lock me seen f = Inl (Busy ''writer slot lock contended past max attempts'')"
  by (simp add: coord_acquire_writer_lock_def acquire_taken)

lemma coord_acquire_Inr: "coord_acquire_writer_lock me seen f = Inr b \<Longrightarrow> b = coord_region_active f"
  by (auto simp: coord_acquire_writer_lock_def rbind_Inr_iff split: if_splits)

text \<open>The write phase gives the lock back only when the file was replaced.\<close>
lemma commit_write_footer_lock:
  "commit_write_footer h tb dev body wp = (r, wp') \<Longrightarrow> dv_nlink dev \<noteq> Inr 0 \<Longrightarrow> wp_lock wp' = wp_lock wp"
  by (auto simp: commit_write_footer_def Let_def split: sum.splits prod.splits if_splits)

section \<open>Phases that write segments\<close>

locale segment_phase =
  fixes h :: hash and segs :: segment_writes
  assumes appends_only: "digest32 h \<Longrightarrow> segs g f = (r, f') \<Longrightarrow> fits (length f') \<Longrightarrow> \<exists>bs. f' = f @ bs"
    and generation_given: "segs g f = (Inr body, f') \<Longrightarrow> tb_snapshot_generation body = g"
begin

text \<open>Whatever happens in a write phase, the bytes behind the header stay.\<close>
lemma commit_phase_writes_keeps:
  assumes h: "digest32 h" and ok: "handle_ok (ch_header ch) (sh_file sh)"
    and c: "commit_phase_writes h tb dev me seen segs ch sh = (r, ch', sh')"
    and fit: "fits (length (sh_file sh'))"
  shows "keeps_data (sh_file sh) (sh_file sh') \<and>
    coord_region_active (sh_file sh') = coord_region_active (sh_file sh)"
proof -
  let ?f = "sh_file sh" and ?g = "hd_snapshot_generation (ch_header ch) + 1"
  have F: "HEADER_SIZE \<le> length ?f" and wf: "header_wf (ch_header ch)" using ok by (simp_all add: handle_ok_def)
  have here: ?thesis if "sh_file sh' = ?f" using that by (simp add: keeps_data_refl)
  obtain rs f1 where s: "segs ?g ?f = (rs, f1)" by fastforce
  show ?thesis
  proof (cases "ch_dirty ch")
    case False
    then show ?thesis using c here by (simp add: commit_phase_writes_def)
  next
    case d: True
    show ?thesis
    proof (cases "coord_acquire_writer_lock me seen ?f")
      case (Inl e)
      then show ?thesis using c d here by (simp add: commit_phase_writes_def)
    next
      case (Inr acquired)
      note c' = c [unfolded commit_phase_writes_def Let_def s Inr sum.case prod.case]
      have app: "keeps_data ?f f1 \<and> coord_region_active f1 = coord_region_active ?f" if "fits (length f1)"
        using appends_only [OF h s that] F by (auto simp: keeps_data_append region_active_append)
      show ?thesis
      proof (cases rs)
        case (Inl e)
        then have "sh_file sh' = f1" using c' d by auto
        then show ?thesis using app fit by simp
      next
        case (Inr body)
        let ?wp = "\<lparr>wp_file = f1, wp_header = ch_header ch, wp_lock = acquired\<rparr>"
        obtain r2 wp where w: "commit_write_footer h tb dev body ?wp = (r2, wp)" by fastforce
        have sh': "sh_file sh' = wp_file wp" using c' d Inr w by (auto split: sum.splits)
        have "length ?f \<le> length f1 \<or> \<not> fits (length f1)" using appends_only [OF h s] by auto
        show ?thesis
        proof (cases "HEADER_SIZE \<le> length f1")
          case True
          then have k: "keeps_data f1 (wp_file wp) \<and> coord_region_active (wp_file wp) = coord_region_active f1"
            using commit_write_footer_keeps [OF _ _ w] wf by simp
          then have "fits (length f1)"
            using fit sh' by (intro fits_mono [OF fit]) (simp add: keeps_data_def)
          then show ?thesis using app k sh' keeps_data_trans [of ?f f1] by simp
        next
          case False
          then have "fits (length f1)" by (simp add: fits_def HEADER_SIZE_def)
          then show ?thesis using app F False by (simp add: keeps_data_def)
        qed
      qed
    qed
  qed
qed

lemma commit_keeps:
  assumes h: "digest32 h" and ok: "handle_ok (ch_header ch) (sh_file sh)"
    and c: "commit h tb dev me seen segs ch sh = (r, ch', sh')" and fit: "fits (length (sh_file sh'))"
  shows "keeps_data (sh_file sh) (sh_file sh') \<and>
    coord_region_active (sh_file sh') = coord_region_active (sh_file sh)"
proof -
  obtain r1 ch1 sh1 where w: "commit_phase_writes h tb dev me seen segs ch sh = (r1, ch1, sh1)"
    by (cases "commit_phase_writes h tb dev me seen segs ch sh") auto
  have "sh_file sh' = sh_file sh1"
    using c w by (auto simp: commit_def commit_phase_publish_def Let_def
        split: sum.splits commit_write_phase_result.splits if_splits)
  then show ?thesis using commit_phase_writes_keeps [OF h ok w] fit by simp
qed

end

lemma commit_phase_writes_slot:
  assumes "ch_dirty ch" and "coord_acquire_writer_lock me seen (sh_file sh) = Inr True"
    and "dv_nlink dev \<noteq> Inr 0" and "commit_phase_writes h tb dev me seen segs ch sh = (r, ch', sh')"
  shows "sh_slot sh' = Some me" and "r = Inr (Prepared p) \<Longrightarrow> pa_writer_lock_acquired p"
    and "r \<noteq> Inr (NoOp out)"
proof -
  obtain rs f1 where s: "segs (hd_snapshot_generation (ch_header ch) + 1) (sh_file sh) = (rs, f1)" by fastforce
  have lock: "wp_lock wp" if "commit_write_footer h tb dev body
      \<lparr>wp_file = f1, wp_header = ch_header ch, wp_lock = True\<rparr> = (r2, wp)" for body r2 wp
    using commit_write_footer_lock [OF that assms(3)] by simp
  show "sh_slot sh' = Some me" "r = Inr (Prepared p) \<Longrightarrow> pa_writer_lock_acquired p" "r \<noteq> Inr (NoOp out)"
    using assms(4) by (auto simp: commit_phase_writes_def assms(1,2) s Let_def split: sum.splits prod.splits dest!: lock)
qed

text \<open>A commit that succeeds in changing the file ran every step.\<close>
lemma commit_Inr:
  assumes "commit h tb dev me seen segs ch sh = (Inr out, ch', sh')" and "ch_dirty ch"
  obtains acquired body f1 footer wp where
    "coord_acquire_writer_lock me seen (sh_file sh) = Inr acquired"
    "segs (hd_snapshot_generation (ch_header ch) + 1) (sh_file sh) = (Inr body, f1)"
    "commit_write_footer h tb dev body \<lparr>wp_file = f1, wp_header = ch_header ch, wp_lock = acquired\<rparr> = (Inr footer, wp)"
    "sh_file sh' = wp_file wp" "ch_header ch' = wp_header wp" "ch_footer ch' = footer"
    "out = \<lparr>out_snapshot_generation = hd_snapshot_generation (wp_header wp), out_changed = True\<rparr>"
    "sh_slot sh' = (if acquired then release_byte_lock me (Some me) else
       if wp_lock wp then sh_slot sh else release_byte_lock me (sh_slot sh))"
proof -
  obtain acquired where a: "coord_acquire_writer_lock me seen (sh_file sh) = Inr acquired"
    using assms by (auto simp: commit_def commit_phase_writes_def split: sum.splits)
  obtain rs f1 where s: "segs (hd_snapshot_generation (ch_header ch) + 1) (sh_file sh) = (rs, f1)" by fastforce
  note c = assms(1) [unfolded commit_def commit_phase_writes_def a s Let_def sum.case prod.case]
  obtain body where b: "rs = Inr body" using c assms(2) by (auto split: sum.splits)
  obtain r2 wp where w: "commit_write_footer h tb dev body
      \<lparr>wp_file = f1, wp_header = ch_header ch, wp_lock = acquired\<rparr> = (r2, wp)" by fastforce
  obtain footer where f: "r2 = Inr footer" using c assms(2) b w by (auto split: sum.splits)
  have lock: "wp_lock wp = acquired" using w unfolding f by (rule commit_write_footer_Inr) simp
  show ?thesis
    using c assms(2) b w f lock a s
    by (intro that [of acquired body f1 footer wp])
      (auto simp: commit_phase_publish_def Let_def release_byte_lock_def split: sum.splits if_splits)
qed

section \<open>The catalog phase\<close>

text \<open>
  The phase of \<open>write_catalog_segments_profiled\<close> for a handle whose batches and text indexes
  are flushed; what a failing table had already appended is \<open>torn\<close>.
\<close>
definition catalog_phase ::
  "env \<Rightarrow> table_bincodes \<Rightarrow> vfile \<Rightarrow> u64 set \<Rightarrow> filter_cache \<Rightarrow> time_index_entry list \<Rightarrow> (storage \<Rightarrow> bytes) \<Rightarrow>
     segment_writes" where
  "catalog_phase en tc s dirty_vector_ids filters time_cache torn generation f =
     (let body0 = (tf_body (vf_footer s))\<lparr>tb_snapshot_generation := generation,
                                          tb_id_allocator := vf_id_allocator s\<rparr> in
      case write_catalog_segments en tc s dirty_vector_ids filters time_cache body0
             (f, vf_id_allocator s, vf_segment_registry s, vf_dirty_segment_ids s) of
        Inl e \<Rightarrow> (Inl e, f @ torn f)
      | Inr (body, w, _, _) \<Rightarrow> (Inr body, fst w))"

lemma flush_tables_appends:
  assumes "flush_tables en tc s dv body0 w0 = Inr (body1, w1)"
  shows "appends (en_hash en) w0 w1" and "tb_snapshot_generation body1 = tb_snapshot_generation body0"
proof -
  from assms have "appends (en_hash en) w0 w1 \<and> tb_snapshot_generation body1 = tb_snapshot_generation body0"
  proof (rule flush_tables_steps, goal_cases)
    case (1 r1 v1 r2 v2 r3 v3 r4 v4 r5 v5 r6 v6 r7 v7 r8 v8 r9 v9 r10 v10)
    note t = flush_table_appends
    have "appends (en_hash en) v1 v2" using 1(2) flush_frames_appends by (cases v1) fastforce
    from appends_trans [OF this t [OF 1(1)]] have "appends (en_hash en) w0 v2" .
    from appends_trans [OF t [OF 1(3)] this] have "appends (en_hash en) w0 v3" .
    from appends_trans [OF t [OF 1(4)] this] have "appends (en_hash en) w0 v4" .
    from appends_trans [OF t [OF 1(5)] this] have "appends (en_hash en) w0 v5" .
    from appends_trans [OF t [OF 1(6)] this] have "appends (en_hash en) w0 v6" .
    from appends_trans [OF t [OF 1(7)] this] have "appends (en_hash en) w0 v7" .
    from appends_trans [OF t [OF 1(8)] this] have "appends (en_hash en) w0 v8" .
    from appends_trans [OF t [OF 1(9)] this] have "appends (en_hash en) w0 v9" .
    from appends_trans [OF t [OF 1(10)] this] have "appends (en_hash en) w0 v10" .
    then show ?case using 1(11,12) by auto
  qed
  then show "appends (en_hash en) w0 w1" "tb_snapshot_generation body1 = tb_snapshot_generation body0" by simp_all
qed

lemma write_registry_spine_Inr:
  assumes w: "write_registry_spine en body (f, a, reg, dirty) = Inr (body', f', w')" and d: "dirty \<noteq> {}"
  obtains sid n payload root where
    "append_segment_at_end (en_hash en) f sid SegmentRegistry n payload = (root, f')"
    "body' = body\<lparr>tb_segment_catalog_root := Some root\<rparr>"
proof -
  let ?rs = "dirty_records se_segment_id (rg_catalog reg) dirty"
  obtain payload sid a1 where pl: "encode_catalog_delta (en_entry_bincode en) (en_ref_bincode en)
      Kind_segment (tb_segment_catalog_root body) ?rs = Inr payload"
    and al: "allocate_segment_id a = Inr (sid, a1)"
    using w d by (auto simp: write_registry_spine_def Let_def rbind_Inr_iff)
  obtain root f1 where ap: "append_segment_at_end (en_hash en) f sid SegmentRegistry
      (of_nat (length ?rs)) payload = (root, f1)" by fastforce
  have "f1 = f'" "body' = body\<lparr>tb_segment_catalog_root := Some root\<rparr>"
    using w d by (auto simp: write_registry_spine_def Let_def pl al ap)
  with ap that show ?thesis by blast
qed

lemma write_registry_spine_extends:
  assumes h: "digest32 (en_hash en)" and fit: "fits (length f')"
    and w: "write_registry_spine en body (f, a, reg, dirty) = Inr (body', f', w')"
  shows "extends f f'"
proof (cases "dirty = {}")
  case True
  then show ?thesis using w by (auto simp: write_registry_spine_def extends_refl)
next
  case False
  with w obtain sid n payload root where
    ap: "append_segment_at_end (en_hash en) f sid SegmentRegistry n payload = (root, f')"
    by (rule write_registry_spine_Inr)
  then have "length f \<le> length f'" by (auto simp: append_segment_at_end_def Let_def write_all_at_def)
  then have "fits (length f)" by (rule fits_mono [OF fit])
  from append_segment_at_end_eq [OF h this] ap show ?thesis by (auto simp: extends_def)
qed

lemma write_registry_spine_body:
  assumes "write_registry_spine en body (f, a, reg, dirty) = Inr (body', f', w')"
  shows "tb_snapshot_generation body' = tb_snapshot_generation body"
proof (cases "dirty = {}")
  case True
  then show ?thesis using assms by (auto simp: write_registry_spine_def)
next
  case False
  with assms show ?thesis by (rule write_registry_spine_Inr) simp
qed

lemma write_catalog_segments_extends:
  assumes "write_catalog_segments en tc s dv filters times0 body0 w0 = Inr (body', w', filters', times')"
  shows "tb_snapshot_generation body' = tb_snapshot_generation body0"
    and "digest32 (en_hash en) \<Longrightarrow> fits (length (fst w')) \<Longrightarrow> extends (fst w0) (fst w')"
proof -
  have "tb_snapshot_generation body' = tb_snapshot_generation body0 \<and>
    (digest32 (en_hash en) \<longrightarrow> fits (length (fst w')) \<longrightarrow> extends (fst w0) (fst w'))"
    using assms
  proof (rule write_catalog_segments_steps, goal_cases)
    case (1 body1 f1 a1 segs1 body2 f2 a2 segs2 body3 f3 a3 segs3 body4 f4 a4 segs4)
    obtain reg3 dirty3 where segs3: "segs3 = (reg3, dirty3)" by (cases segs3)
    have s3: "appends (en_hash en) (f2, a2, segs2) (f3, a3, segs3)"
      using 1(3) by (auto intro: appends_refl write_time_appends split: if_splits)
    have s2: "appends (en_hash en) (f1, a1, segs1) (f3, a3, segs3)"
      by (rule appends_trans [OF s3 write_filters_appends [OF 1(2)]])
    have s1: "appends (en_hash en) w0 (f3, a3, segs3)"
      by (rule appends_trans [OF s2 flush_tables_appends(1) [OF 1(1)]])
    have "tb_snapshot_generation body' = tb_snapshot_generation body0"
      using 1(5) write_registry_spine_body [OF 1(4) [unfolded segs3]] flush_tables_appends(2) [OF 1(1)]
        write_filters_body [OF 1(2)] time_phase_body [OF 1(3)] by auto
    moreover have "extends (fst w0) f4" if h: "digest32 (en_hash en)" and fit: "fits (length f4)"
    proof -
      have e: "extends f3 f4" by (rule write_registry_spine_extends [OF h fit 1(4) [unfolded segs3]])
      then have "fits (length f3)" using extends_length by (intro fits_mono [OF fit])
      with appends_extends [OF s1 h] e show ?thesis by (auto intro: extends_trans)
    qed
    ultimately show ?case using 1(6) by simp
  qed
  then show "tb_snapshot_generation body' = tb_snapshot_generation body0"
    "digest32 (en_hash en) \<Longrightarrow> fits (length (fst w')) \<Longrightarrow> extends (fst w0) (fst w')" by simp_all
qed

interpretation catalog_writes: segment_phase "en_hash en" "catalog_phase en tc s dv filters time_cache torn"
  for en tc s dv filters time_cache torn
proof
  fix g f r f'
  assume h: "digest32 (en_hash en)" and c: "catalog_phase en tc s dv filters time_cache torn g f = (r, f')"
    and fit: "fits (length f')"
  show "\<exists>bs. f' = f @ bs"
    using c fit write_catalog_segments_extends(2) [OF _ h]
    by (auto simp: catalog_phase_def Let_def extends_def split: sum.splits prod.splits)
next
  fix g f body f'
  assume "catalog_phase en tc s dv filters time_cache torn g f = (Inr body, f')"
  then show "tb_snapshot_generation body = g"
    by (auto simp: catalog_phase_def Let_def split: sum.splits prod.splits
        dest!: write_catalog_segments_extends(1))
qed

section \<open>Two handles with one header\<close>

lemma publish_healthy:
  "dv_sync healthy_device = Inr ()"
  "commit_phase_publish healthy_device me p ch sh =
    (Inr \<lparr>out_snapshot_generation = hd_snapshot_generation (pa_captured_header p), out_changed = True\<rparr>,
     ch\<lparr>ch_footer := pa_footer p, ch_dirty := False\<rparr>,
     if pa_writer_lock_acquired p then sh\<lparr>sh_slot := release_byte_lock me (sh_slot sh)\<rparr> else sh)"
  by (simp_all add: healthy_device_def commit_phase_publish_def)

text \<open>A commit of a dirty handle on a healthy device succeeds when its body can be encoded.\<close>
lemma commit_runs:
  assumes h: "digest32 h" and "ch_dirty ch" and ok: "handle_ok (ch_header ch) f1"
    and v: "header_validate (ch_header ch) = Inr ()"
    and lock: "coord_acquire_writer_lock me seen (sh_file sh) = Inr acquired"
    and s: "segs (hd_snapshot_generation (ch_header ch) + 1) (sh_file sh) = (Inr body, f1)"
    and eb: "encode_body_bytes tb body = Inr bs" and len: "length f1 < 2 ^ 63"
  obtains footer wp sh' where "tf_body footer = body"
    "commit_write_footer h tb healthy_device body
       \<lparr>wp_file = f1, wp_header = ch_header ch, wp_lock = acquired\<rparr> = (Inr footer, wp)"
    "length (wp_file wp) = length f1 + TOC_HEADER_LEN + length bs"
    "commit h tb healthy_device me seen segs ch sh =
      (Inr \<lparr>out_snapshot_generation = hd_snapshot_generation (wp_header wp), out_changed = True\<rparr>,
       ch\<lparr>ch_header := wp_header wp, ch_footer := footer, ch_dirty := False\<rparr>, sh')"
    "sh_file sh' = wp_file wp"
proof -
  let ?wp = "\<lparr>wp_file = f1, wp_header = ch_header ch, wp_lock = acquired\<rparr>"
  obtain footer where e: "toc_encode_body h tb body = Inr footer" and tb: "tf_body footer = body"
    by (simp add: toc_encode_body_def eb)
  have F: "HEADER_SIZE \<le> length (wp_file ?wp)" and wf: "header_wf (wp_header ?wp)"
    using ok by (simp_all add: handle_ok_def)
  have v': "header_validate (wp_header ?wp) = Inr ()" and l': "length (wp_file ?wp) < 2 ^ 63"
    using v len by simp_all
  obtain wp where w: "commit_write_footer h tb healthy_device body ?wp = (Inr footer, wp)"
    and lw: "length (wp_file wp) = length f1 + TOC_HEADER_LEN + length bs"
    using commit_write_footer_runs [OF h F wf v' l' e eb refl] by auto
  have "\<exists>sh'. commit h tb healthy_device me seen segs ch sh =
      (Inr \<lparr>out_snapshot_generation = hd_snapshot_generation (wp_header wp), out_changed = True\<rparr>,
       ch\<lparr>ch_header := wp_header wp, ch_footer := footer, ch_dirty := False\<rparr>, sh') \<and> sh_file sh' = wp_file wp"
    using assms(2) by (simp add: commit_def commit_phase_writes_def lock s w Let_def publish_healthy)
  with that [OF tb w lw] show ?thesis by blast
qed

text \<open>What a successful commit leaves for the handles on the file.\<close>
lemma commit_leaves:
  assumes h: "digest32 h" and b: "bincode_ok tb" and seg: "segment_phase h segs"
    and ok: "handle_ok (ch_header ch) (sh_file sh)" and d: "ch_dirty ch"
    and c: "commit h tb dev me seen segs ch sh = (Inr out, ch', sh')" and len: "length (sh_file sh') < 2 ^ 63"
  shows "handle_ok (ch_header ch) (sh_file sh')"
    and "out = \<lparr>out_snapshot_generation = hd_snapshot_generation (ch_header ch) + 1, out_changed = True\<rparr>"
    and "read_toc_footer h tb (sh_file sh') (hd_footer_offset (ch_header ch')) = Inr (ch_footer ch')"
    and "HEADER_SIZE \<le> unat (hd_footer_offset (ch_header ch'))"
    and "unat (hd_footer_offset (ch_header ch')) < length (sh_file sh')"
    and "sh_slot sh = None \<Longrightarrow> sh_slot sh' = None"
proof -
  obtain acquired body f1 footer wp where
    s: "segs (hd_snapshot_generation (ch_header ch) + 1) (sh_file sh) = (Inr body, f1)"
    and w: "commit_write_footer h tb dev body \<lparr>wp_file = f1, wp_header = ch_header ch, wp_lock = acquired\<rparr> = (Inr footer, wp)"
    and e: "sh_file sh' = wp_file wp" "ch_header ch' = wp_header wp" "ch_footer ch' = footer"
      "out = \<lparr>out_snapshot_generation = hd_snapshot_generation (wp_header wp), out_changed = True\<rparr>"
    and slot: "sh_slot sh' = (if acquired then release_byte_lock me (Some me) else
       if wp_lock wp then sh_slot sh else release_byte_lock me (sh_slot sh))"
    using c d by (rule commit_Inr)
  let ?wp = "\<lparr>wp_file = f1, wp_header = ch_header ch, wp_lock = acquired\<rparr>"
  have F0: "HEADER_SIZE \<le> length (sh_file sh)" and wf: "header_wf (wp_header ?wp)"
    using ok by (simp_all add: handle_ok_def)
  have lw: "length (wp_file wp) < 2 ^ 63" using len by (simp add: e)
  have ge: "length f1 \<le> length (wp_file wp)" if "HEADER_SIZE \<le> length f1"
    using commit_write_footer_keeps [OF _ wf w] that by (simp add: keeps_data_def)
  have "fits (length f1)"
    using ge lw by (cases "HEADER_SIZE \<le> length f1") (simp_all add: fits_def HEADER_SIZE_def)
  then obtain bs where f1: "f1 = sh_file sh @ bs"
    using segment_phase.appends_only [OF seg h s] by blast
  have okw: "handle_ok (wp_header ?wp) (wp_file ?wp)" using ok by (simp add: f1 handle_ok_append)
  then have F: "HEADER_SIZE \<le> length (wp_file ?wp)" by (simp add: handle_ok_def)
  note k = commit_write_footer_ok [OF h b F wf w lw]
  show "handle_ok (ch_header ch) (sh_file sh')" using commit_keeps_handle [OF h b okw w lw] by (simp add: e)
  have "tb_snapshot_generation body = hd_snapshot_generation (ch_header ch) + 1"
    by (rule segment_phase.generation_given [OF seg s])
  then show "out = \<lparr>out_snapshot_generation = hd_snapshot_generation (ch_header ch) + 1, out_changed = True\<rparr>"
    using k(3) by (simp add: e)
  have "unat (of_nat (length f1) :: u64) = length f1" using ge F lw by (simp add: unat_of_nat_eq)
  then have o: "unat (hd_footer_offset (ch_header ch')) = length f1" using k(3) by (simp add: e)
  show r: "read_toc_footer h tb (sh_file sh') (hd_footer_offset (ch_header ch')) = Inr (ch_footer ch')"
    using k(3,4) by (simp add: e)
  show "HEADER_SIZE \<le> unat (hd_footer_offset (ch_header ch'))" using F by (simp add: o)
  show "unat (hd_footer_offset (ch_header ch')) < length (sh_file sh')" by (rule read_toc_footer_magic(2) [OF r])
  show "sh_slot sh' = None" if "sh_slot sh = None" using slot that by (simp add: release_byte_lock_def split: if_splits)
qed

section \<open>Properties\<close>

text \<open>
  C15: A second handle forks the history. Two handles were opened on the same snapshot, so that
  they hold the same header. The first commits. Then the second, still dirty, commits as well:
  once it gets the writer slot, on a healthy device, it succeeds whenever its body can be
  encoded, and reports the same generation as the first, because the generation comes from
  its own header and the published one is never looked at. The next open serves the second
  body, which was built without the first; the first footer is still in the file, but no
  header names it. Of the two segment phases it is assumed that they only append and that the
  body has the generation they were given (\<open>segment_phase\<close>).
\<close>
theorem stale_handle_forks:
  assumes "digest32 h" and "bincode_ok tb" and "segment_phase h segsA" and "segment_phase h segsB"
    and "header_read f = Inr hdr" and "handle_ok hdr f"
    and "commit h tb devA handleA seenA segsA \<lparr>ch_header = hdr, ch_footer = footer, ch_dirty = True\<rparr>
      \<lparr>sh_file = f, sh_slot = None\<rparr> = (Inr outA, chA, shA)"
    and "seenB 0 = Inr (sh_slot shA)"
    and "segsB (hd_snapshot_generation hdr + 1) (sh_file shA) = (Inr bodyB, fB)"
    and "encode_body_bytes tb bodyB = Inr bsB" and "length fB + TOC_HEADER_LEN + length bsB < 2 ^ 63"
    and "contract_digest h cb (tb_create_contract bodyB) = Inr (hd_create_contract_digest hdr)"
  shows "\<exists>chB shB. commit h tb healthy_device handleB seenB segsB
      \<lparr>ch_header = hdr, ch_footer = footer, ch_dirty = True\<rparr> shA = (Inr outA, chB, shB) \<and>
    out_snapshot_generation outA = hd_snapshot_generation hdr + 1 \<and>
    tf_body (ch_footer chB) = bodyB \<and>
    (\<forall>(load :: 'st loader) st. load (sh_file shB) (ch_footer chB) = Inr st \<longrightarrow>
       open_file h tb cb load (sh_file shB) = Inr (ch_header chB, ch_footer chB, st)) \<and>
    read_toc_footer h tb (sh_file shB) (hd_footer_offset (ch_header chA)) = Inr (ch_footer chA) \<and>
    hd_footer_offset (ch_header chA) < hd_footer_offset (ch_header chB)"
proof -
  let ?ch = "\<lparr>ch_header = hdr, ch_footer = footer, ch_dirty = True\<rparr>"
  have fB: "fits (length fB)" using assms(11) by (simp add: fits_def)
  obtain bs where bs: "fB = sh_file shA @ bs" using segment_phase.appends_only [OF assms(4,1,9) fB] by blast
  have lenA: "length (sh_file shA) < 2 ^ 63" using assms(11) by (simp add: bs)
  have ok: "handle_ok (ch_header ?ch) (sh_file \<lparr>sh_file = f, sh_slot = None\<rparr>)" using assms(6) by simp
  note A = commit_leaves [OF assms(1,2,3) ok _ assms(7) lenA]
  have okB: "handle_ok (ch_header ?ch) fB" using A(1) by (simp add: bs handle_ok_append)
  have "HEADER_SIZE \<le> length f" using assms(6) by (simp add: handle_ok_def)
  then have v: "header_validate (ch_header ?ch) = Inr ()" using assms(5) header_read_iff by simp
  have "seenB 0 = Inr None" using assms(8) A(6) by simp
  then have lock: "coord_acquire_writer_lock handleB seenB (sh_file shA) = Inr (coord_region_active (sh_file shA))"
    by (rule coord_acquire_free)
  have sB: "segsB (hd_snapshot_generation (ch_header ?ch) + 1) (sh_file shA) = (Inr bodyB, fB)" using assms(9) by simp
  have lB: "length fB < 2 ^ 63" using assms(11) by simp
  have dirty: "ch_dirty ?ch" by simp
  obtain footB wp shB where tb: "tf_body footB = bodyB"
    and w: "commit_write_footer h tb healthy_device bodyB
      \<lparr>wp_file = fB, wp_header = ch_header ?ch, wp_lock = coord_region_active (sh_file shA)\<rparr> = (Inr footB, wp)"
    and lw: "length (wp_file wp) = length fB + TOC_HEADER_LEN + length bsB"
    and cB: "commit h tb healthy_device handleB seenB segsB ?ch shA =
      (Inr \<lparr>out_snapshot_generation = hd_snapshot_generation (wp_header wp), out_changed = True\<rparr>,
       ?ch\<lparr>ch_header := wp_header wp, ch_footer := footB, ch_dirty := False\<rparr>, shB)"
    and fw: "sh_file shB = wp_file wp"
    by (rule commit_runs [where ch = ?ch and segs = segsB and seen = seenB and me = handleB and sh = shA,
        OF assms(1) dirty okB v lock sB assms(10) lB])
  let ?chB = "?ch\<lparr>ch_header := wp_header wp, ch_footer := footB, ch_dirty := False\<rparr>"
  have lw': "length (wp_file wp) < 2 ^ 63" using lw assms(11) by simp
  then have lenB: "length (sh_file shB) < 2 ^ 63" by (simp add: fw)
  have okA: "handle_ok (ch_header ?ch) (sh_file shA)" using A(1) by simp
  note B = commit_leaves [OF assms(1,2,4) okA dirty cB lenB]
  have gA: "out_snapshot_generation outA = hd_snapshot_generation hdr + 1" and same:
    "\<lparr>out_snapshot_generation = hd_snapshot_generation (wp_header wp), out_changed = True\<rparr> = outA"
    using A(2) B(2) by simp_all
  have ow: "handle_ok (wp_header \<lparr>wp_file = fB, wp_header = ch_header ?ch, wp_lock = coord_region_active (sh_file shA)\<rparr>)
      (wp_file \<lparr>wp_file = fB, wp_header = ch_header ?ch, wp_lock = coord_region_active (sh_file shA)\<rparr>)"
    using okB by simp
  have op: "open_file h tb cb load (sh_file shB) = Inr (wp_header wp, footB, st)"
    if "load (sh_file shB) footB = Inr st" for load :: "'st loader" and st
    using commit_opens [where load = load and cb = cb, OF assms(1,2) ow _ w lw'] that assms(12) by (simp add: fw)
  have FB: "HEADER_SIZE \<le> length fB" and wf: "header_wf hdr" using okB by (simp_all add: handle_ok_def)
  have "keeps_data fB (sh_file shB)"
    using commit_write_footer_keeps [OF _ _ w] FB wf by (simp add: fw)
  then have k: "keeps_data (sh_file shA) (sh_file shB)"
    using keeps_data_trans [OF keeps_data_append [of "sh_file shA" bs]] by (simp add: bs)
  have rA: "read_toc_footer h tb (sh_file shB) (hd_footer_offset (ch_header chA)) = Inr (ch_footer chA)"
    using A(3,4) by (intro read_toc_footer_keeps [OF _ k _ lenB]) simp_all
  have "wp_header wp = hdr\<lparr>hd_footer_offset := of_nat (length fB), hd_snapshot_generation := tb_snapshot_generation bodyB\<rparr>"
    using commit_write_footer_ok(3) [OF assms(1,2) _ _ w lw'] FB wf by simp
  then have "unat (hd_footer_offset (wp_header wp)) = length fB"
    using lB by (simp add: unat_of_nat_eq)
  then have lt: "hd_footer_offset (ch_header chA) < hd_footer_offset (wp_header wp)"
    using A(5) bs by (simp add: word_less_nat_alt)
  show ?thesis
    using cB [unfolded same] gA tb op rA lt by (intro exI [of _ ?chB] exI [of _ shB]) simp
qed

text \<open>
  C16: An error after the writer slot was taken strands it. Whichever step of a commit fails,
  in the segments, the link count, the footer, the publication, the header, the sync or the
  new memory map, the handle still owns the slot (the one exception, a file replaced by a
  compaction, is excluded by the link count), the bytes behind the header are
  unchanged, and every commit of another handle then spins through all its attempts and
  fails as busy, with nothing written, for as long as the first handle does not commit
  again or go away. The segment phase of the commit only appends (\<open>segment_phase\<close>).
\<close>
theorem failed_commit_strands_slot:
  assumes "digest32 h" and "segment_phase h segs" and "handle_ok (ch_header ch) (sh_file sh)"
    and "ch_dirty ch" and "coord_region_active (sh_file sh)"
    and "coord_acquire_writer_lock me seen (sh_file sh) = Inr True" and "dv_nlink dev \<noteq> Inr 0"
    and "commit h tb dev me seen segs ch sh = (Inl e, ch', sh')" and "length (sh_file sh') < 2 ^ 63"
    and "other \<noteq> me" and "ch_dirty ch2" and "\<forall>k. seen2 k = Inr (sh_slot sh')"
  shows "sh_slot sh' = Some me \<and> keeps_data (sh_file sh) (sh_file sh') \<and>
    commit h tb dev2 other seen2 segs2 ch2 sh' =
      (Inl (Busy ''writer slot lock contended past max attempts''), ch2, sh')"
proof -
  obtain r1 ch1 sh1 where w: "commit_phase_writes h tb dev me seen segs ch sh = (r1, ch1, sh1)"
    by (cases "commit_phase_writes h tb dev me seen segs ch sh") auto
  note slot1 = commit_phase_writes_slot [OF assms(4,6,7) w]
  have "sh' = sh1"
    using assms(8) slot1(3) by (auto simp: commit_def w commit_phase_publish_def Let_def
        split: sum.splits commit_write_phase_result.splits)
  then have slot: "sh_slot sh' = Some me" using slot1(1) by simp
  have fit: "fits (length (sh_file sh'))" using assms(9) by (simp add: fits_def)
  note k = segment_phase.commit_keeps [OF assms(2,1,3,8) fit]
  have "coord_acquire_writer_lock other seen2 (sh_file sh') =
      Inl (Busy ''writer slot lock contended past max attempts'')"
    using k assms(5,10,12) slot by (intro coord_acquire_taken [where other = me]) auto
  then have "commit h tb dev2 other seen2 segs2 ch2 sh' =
      (Inl (Busy ''writer slot lock contended past max attempts''), ch2, sh')"
    using assms(11) by (simp add: commit_def commit_phase_writes_def)
  with slot k show ?thesis by blast
qed

section \<open>A concrete file\<close>

text \<open>A phase that writes no segment and knows the body of generation 2.\<close>
definition ex_segs :: segment_writes where
  "ex_segs g f = (if g = 2 then Inr ex_body2 else Inl (Other ''no body''), f)"

lemma ex_segs_phase: "segment_phase ex_hash ex_segs"
  by unfold_locales (auto simp: ex_segs_def ex_body2_def toc_body_empty_def split: if_splits)

lemma stale_handle_forks_witness:
  "\<exists>f hdr outA chA shA chB shB.
     open_file ex_hash ex_toc_bincode ex_contract_bincode ex_load f = Inr (hdr, ex_footer, ()) \<and>
     commit ex_hash ex_toc_bincode healthy_device 0 (\<lambda>k. Inr None) ex_segs
       \<lparr>ch_header = hdr, ch_footer = ex_footer, ch_dirty = True\<rparr> \<lparr>sh_file = f, sh_slot = None\<rparr> = (Inr outA, chA, shA) \<and>
     commit ex_hash ex_toc_bincode healthy_device 1 (\<lambda>k. Inr None) ex_segs
       \<lparr>ch_header = hdr, ch_footer = ex_footer, ch_dirty = True\<rparr> shA = (Inr outA, chB, shB) \<and>
     out_snapshot_generation outA = 2 \<and>
     open_file ex_hash ex_toc_bincode ex_contract_bincode ex_load (sh_file shB) =
       Inr (ch_header chB, ch_footer chB, ()) \<and>
     read_toc_footer ex_hash ex_toc_bincode (sh_file shB) (hd_footer_offset (ch_header chA)) = Inr (ch_footer chA) \<and>
     hd_footer_offset (ch_header chA) < hd_footer_offset (ch_header chB)"
proof (rule ex_created)
  fix f hdr
  assume l: "length f = 4184" and ok: "handle_ok hdr f" and r: "header_read f = Inr hdr"
    and v: "header_validate hdr = Inr ()" and o: "open_file ex_hash ex_toc_bincode ex_contract_bincode ex_load f = Inr (hdr, ex_footer, ())"
    and d: "hd_create_contract_digest hdr = replicate 32 0" and g: "hd_snapshot_generation hdr = 1"
  let ?ch = "\<lparr>ch_header = hdr, ch_footer = ex_footer, ch_dirty = True\<rparr>" and ?sh = "\<lparr>sh_file = f, sh_slot = None\<rparr>"
  let ?free = "\<lambda>k :: nat. Inr None :: slot_owner result"
  have ok': "handle_ok (ch_header ?ch) f" and v': "header_validate (ch_header ?ch) = Inr ()"
    and dirty: "ch_dirty ?ch" and lf: "length f < 2 ^ 63" using ok v l by simp_all
  have lock: "coord_acquire_writer_lock 0 ?free (sh_file ?sh) = Inr (coord_region_active f)"
    using coord_acquire_free [of ?free 0 f] by simp
  have s: "ex_segs (hd_snapshot_generation (ch_header ?ch) + 1) (sh_file ?sh) = (Inr ex_body2, f)"
    by (simp add: ex_segs_def g)
  obtain chA outA shA wp where A: "commit ex_hash ex_toc_bincode healthy_device 0 ?free ex_segs ?ch ?sh = (Inr outA, chA, shA)"
    and lA: "length (sh_file shA) = 4273"
    by (rule commit_runs [where sh = ?sh and seen = ?free and me = 0 and segs = ex_segs and ch = ?ch,
          OF ex_hash_ok dirty ok' v' lock s ex_body2_encodes lf])
      (use that l in \<open>auto simp: TOC_HEADER_LEN_def\<close>)
  have lA': "length (sh_file shA) < 2 ^ 63" using lA by simp
  have slot: "?free 0 = Inr (sh_slot shA)"
    using commit_leaves(6) [OF ex_hash_ok ex_toc_bincode_ok ex_segs_phase _ dirty A lA'] ok by simp
  have sB: "ex_segs (hd_snapshot_generation hdr + 1) (sh_file shA) = (Inr ex_body2, sh_file shA)"
    by (simp add: ex_segs_def g)
  have "length (sh_file shA) + TOC_HEADER_LEN + length [1 :: u8] < 2 ^ 63"
    by (simp add: lA TOC_HEADER_LEN_def)
  from stale_handle_forks [where cb = ex_contract_bincode and handleB = 1 and 'st = unit,
      OF ex_hash_ok ex_toc_bincode_ok ex_segs_phase ex_segs_phase r ok A slot sB ex_body2_encodes this]
  obtain chB shB where "commit ex_hash ex_toc_bincode healthy_device 1 ?free ex_segs ?ch shA = (Inr outA, chB, shB)"
    "out_snapshot_generation outA = 2"
    "open_file ex_hash ex_toc_bincode ex_contract_bincode ex_load (sh_file shB) = Inr (ch_header chB, ch_footer chB, ())"
    "read_toc_footer ex_hash ex_toc_bincode (sh_file shB) (hd_footer_offset (ch_header chA)) = Inr (ch_footer chA)"
    "hd_footer_offset (ch_header chA) < hd_footer_offset (ch_header chB)"
    using d g by (auto simp: ex_body2_contract ex_load_def)
  with o A show ?thesis by blast
qed

lemma failed_commit_strands_slot_witness:
  "\<exists>f hdr ch' sh'.
     commit ex_hash ex_toc_bincode (healthy_device\<lparr>dv_footer := Some 4200\<rparr>) 0 (\<lambda>k. Inr None) ex_segs
       \<lparr>ch_header = hdr, ch_footer = ex_footer, ch_dirty = True\<rparr> \<lparr>sh_file = f, sh_slot = None\<rparr> =
       (Inl (Io ''failed to write whole buffer''), ch', sh') \<and>
     length f = 4184 \<and> length (sh_file sh') = 4200 \<and> sh_slot sh' = Some 0 \<and>
     commit ex_hash ex_toc_bincode healthy_device 1 (\<lambda>k. Inr (Some 0)) ex_segs
       \<lparr>ch_header = hdr, ch_footer = ex_footer, ch_dirty = True\<rparr> sh' =
       (Inl (Busy ''writer slot lock contended past max attempts''),
        \<lparr>ch_header = hdr, ch_footer = ex_footer, ch_dirty = True\<rparr>, sh')"
proof (rule ex_created)
  fix f hdr
  assume l: "length f = 4184" and ok: "handle_ok hdr f" and act: "coord_region_active f"
    and g: "hd_snapshot_generation hdr = 1"
  let ?ch = "\<lparr>ch_header = hdr, ch_footer = ex_footer, ch_dirty = True\<rparr>" and ?sh = "\<lparr>sh_file = f, sh_slot = None\<rparr>"
  let ?free = "\<lambda>k :: nat. Inr None :: slot_owner result" and ?dev = "healthy_device\<lparr>dv_footer := Some 4200\<rparr>"
  obtain bs where bs: "toc_encode ex_hash ex_toc_bincode ex_footer2 = Inr bs"
    by (simp add: toc_encode_def ex_footer2_def ex_body2_encodes footer_checksum_def ex_hash_def Let_def)
  have lb: "length bs = 89"
    using bs ex_hash_ok by (rule toc_encode_Inr) (simp add: ex_footer2_def ex_body2_encodes TOC_HEADER_LEN_def)
  have lock: "coord_acquire_writer_lock 0 ?free f = Inr True" using coord_acquire_free [of ?free 0 f] act by simp
  let ?sh' = "\<lparr>sh_file = f @ take 16 bs, sh_slot = Some 0\<rparr>"
  have c: "commit ex_hash ex_toc_bincode ?dev 0 ?free ex_segs ?ch ?sh =
      (Inl (Io ''failed to write whole buffer''), ?ch, ?sh')"
    by (simp add: commit_def commit_phase_writes_def lock ex_segs_def g commit_write_footer_def ex_footer2_encodes
        healthy_device_def write_toc_footer_at_end_def bs interrupted_def l)
  have "commit ex_hash ex_toc_bincode healthy_device 1 (\<lambda>k. Inr (Some 0)) ex_segs ?ch ?sh' =
      (Inl (Busy ''writer slot lock contended past max attempts''), ?ch, ?sh')"
    using failed_commit_strands_slot [OF ex_hash_ok ex_segs_phase _ _ _ _ _ c, of 1 ?ch "\<lambda>k. Inr (Some 0)"]
      ok act lock lb l by (simp add: healthy_device_def)
  with c l lb show ?thesis by (intro exI [of _ f] exI [of _ hdr] exI [of _ ?ch] exI [of _ ?sh']) simp
qed

end
