(* ===== verification/GroupFsync.thy ===== *)
theory GroupFsync imports Prelude begin

text \<open>
  The group-commit barrier (\<open>GroupFsync\<close> of src/concurrency/writer_pipeline.rs) as a step
  relation. A step is one critical section of the mutex, or the start or the end of the
  fsync that the leader runs outside it; any interleaving of any number of callers is a run.
  The kernel's promise is part of the model: an fsync that succeeds makes durable what had
  been written when it started, hence the writes of every caller that held a ticket then.
  Shown: a caller that returns \<open>Ok\<close> has its bytes durable; there is never more than one
  leader; a caller asleep on the condition variable is never forgotten; and the barrier
  always comes to rest with every caller returned.

  Tickets are natural numbers: the counter would wrap after \<open>2^64\<close> commits of one process.
\<close>

section \<open>State\<close>

record group_fsync =
  gf_next_ticket :: nat
  gf_last_fsynced :: nat
  gf_leader_active :: bool

definition group_fsync_new :: group_fsync where
  "group_fsync_new = \<lparr>gf_next_ticket = 1, gf_last_fsynced = 0, gf_leader_active = False\<rparr>"

text \<open>
  Where a caller of \<open>fsync\<close> is: not in it; at the top of the loop with its ticket; asleep
  in \<open>cv.wait\<close>; promoted to leader with its \<open>target\<close>; inside \<open>do_fsync\<close>, which started
  when tickets up to \<open>cover\<close> had been issued; back from \<open>do_fsync\<close> with its result; past the
  last critical section, about to \<open>notify_all\<close>; returned.
\<close>
datatype caller =
    Outside
  | Looping nat
  | Waiting nat
  | Leading nat nat
  | Syncing nat nat nat
  | Synced nat nat "unit result"
  | Notifying nat "unit result"
  | Returned nat "unit result"

record 'th barrier =
  br_state :: group_fsync
  br_caller :: "'th \<Rightarrow> caller"
  br_durable :: "nat set"

definition barrier_new :: "'th barrier" where
  "barrier_new = \<lparr>br_state = group_fsync_new, br_caller = (\<lambda>_. Outside), br_durable = {}\<rparr>"

section \<open>The critical sections\<close>

text \<open>The first block: take a ticket, with the fast path.\<close>
definition take_ticket :: "group_fsync \<Rightarrow> group_fsync \<times> caller" where
  "take_ticket s =
     (let t = gf_next_ticket s; s' = s\<lparr>gf_next_ticket := gf_next_ticket s + 1\<rparr>
      in if t \<le> gf_last_fsynced s' then (s', Returned t (Inr ())) else (s', Looping t))"

text \<open>The body of the loop up to \<open>drop(s)\<close>.\<close>
definition loop_top :: "nat \<Rightarrow> group_fsync \<Rightarrow> group_fsync \<times> caller" where
  "loop_top my_ticket s =
     (if my_ticket \<le> gf_last_fsynced s then (s, Returned my_ticket (Inr ()))
      else if gf_leader_active s then (s, Waiting my_ticket)
      else (s\<lparr>gf_leader_active := True\<rparr>, Leading my_ticket (gf_next_ticket s - 1)))"

text \<open>The block after \<open>do_fsync()\<close>.\<close>
definition finish :: "nat \<Rightarrow> unit result \<Rightarrow> group_fsync \<Rightarrow> group_fsync" where
  "finish target res s =
     (let s1 = s\<lparr>gf_leader_active := False\<rparr>
      in if is_ok res then s1\<lparr>gf_last_fsynced := max (gf_last_fsynced s1) target\<rparr> else s1)"

definition wake :: "caller \<Rightarrow> caller" where
  "wake c = (case c of Waiting t \<Rightarrow> Looping t | _ \<Rightarrow> c)"

section \<open>Steps\<close>

inductive arrive :: "'th barrier \<Rightarrow> 'th barrier \<Rightarrow> bool" where
  enter: "br_caller b i = Outside \<Longrightarrow> take_ticket (br_state b) = (s', c) \<Longrightarrow>
     arrive b (b\<lparr>br_state := s', br_caller := (br_caller b)(i := c)\<rparr>)"
| leave: "br_caller b i = Returned t r \<Longrightarrow>
     arrive b (b\<lparr>br_caller := (br_caller b)(i := Outside)\<rparr>)"
| spurious: "br_caller b i = Waiting t \<Longrightarrow>
     arrive b (b\<lparr>br_caller := (br_caller b)(i := Looping t)\<rparr>)"

inductive internal :: "'th barrier \<Rightarrow> 'th barrier \<Rightarrow> bool" where
  top: "br_caller b i = Looping t \<Longrightarrow> loop_top t (br_state b) = (s', c) \<Longrightarrow>
     internal b (b\<lparr>br_state := s', br_caller := (br_caller b)(i := c)\<rparr>)"
| start: "br_caller b i = Leading t target \<Longrightarrow>
     internal b (b\<lparr>br_caller := (br_caller b)
       (i := Syncing t target (gf_next_ticket (br_state b) - 1))\<rparr>)"
| sync_ok: "br_caller b i = Syncing t target cover \<Longrightarrow>
     internal b (b\<lparr>br_caller := (br_caller b)(i := Synced t target (Inr ())),
                   br_durable := br_durable b \<union> {..cover}\<rparr>)"
| sync_err: "br_caller b i = Syncing t target cover \<Longrightarrow>
     internal b (b\<lparr>br_caller := (br_caller b)(i := Synced t target (Inl e))\<rparr>)"
| unlead: "br_caller b i = Synced t target r \<Longrightarrow>
     internal b (b\<lparr>br_state := finish target r (br_state b),
                   br_caller := (br_caller b)(i := Notifying t r)\<rparr>)"
| notify: "br_caller b i = Notifying t r \<Longrightarrow>
     internal b (b\<lparr>br_caller := (\<lambda>j. wake (br_caller b j))(i := Returned t r)\<rparr>)"

inductive reach :: "'th barrier \<Rightarrow> bool" where
  init: "reach barrier_new"
| arrive: "reach b \<Longrightarrow> arrive b b' \<Longrightarrow> reach b'"
| internal: "reach b \<Longrightarrow> internal b b' \<Longrightarrow> reach b'"

inductive_cases arriveE: "arrive b b'"
inductive_cases internalE: "internal b b'"

section \<open>Invariant\<close>

fun leads :: "caller \<Rightarrow> bool" where
  "leads (Leading _ _) = True"
| "leads (Syncing _ _ _) = True"
| "leads (Synced _ _ _) = True"
| "leads _ = False"

fun will_notify :: "caller \<Rightarrow> bool" where
  "will_notify (Notifying _ _) = True"
| "will_notify c = leads c"

fun waits :: "caller \<Rightarrow> bool" where
  "waits (Waiting _) = True"
| "waits _ = False"

text \<open>What holds of one caller: tickets in range, and what its place says is durable.\<close>
fun caller_ok :: "nat \<Rightarrow> nat set \<Rightarrow> caller \<Rightarrow> bool" where
  "caller_ok n d Outside = True"
| "caller_ok n d (Looping t) = (0 < t \<and> t < n)"
| "caller_ok n d (Waiting t) = (0 < t \<and> t < n)"
| "caller_ok n d (Leading t target) = (t \<le> target \<and> target < n)"
| "caller_ok n d (Syncing t target cover) = (t \<le> target \<and> target \<le> cover \<and> cover < n)"
| "caller_ok n d (Synced t target r) = (t \<le> target \<and> target < n \<and> (is_ok r \<longrightarrow> {..target} \<subseteq> d))"
| "caller_ok n d (Notifying t r) = (t < n \<and> (is_ok r \<longrightarrow> t \<in> d))"
| "caller_ok n d (Returned t r) = (t < n \<and> (is_ok r \<longrightarrow> t \<in> d))"

definition barrier_ok :: "'th barrier \<Rightarrow> bool" where
  "barrier_ok b \<longleftrightarrow>
     (\<forall>i. caller_ok (gf_next_ticket (br_state b)) (br_durable b) (br_caller b i)) \<and>
     {1..gf_last_fsynced (br_state b)} \<subseteq> br_durable b \<and>
     gf_last_fsynced (br_state b) < gf_next_ticket (br_state b) \<and>
     (gf_leader_active (br_state b) \<longleftrightarrow> (\<exists>i. leads (br_caller b i))) \<and>
     (\<forall>i j. leads (br_caller b i) \<longrightarrow> leads (br_caller b j) \<longrightarrow> i = j) \<and>
     ((\<exists>i. waits (br_caller b i)) \<longrightarrow> (\<exists>j. will_notify (br_caller b j)))"

lemma caller_ok_mono:
  "caller_ok n d c \<Longrightarrow> n \<le> n' \<Longrightarrow> d \<subseteq> d' \<Longrightarrow> caller_ok n' d' c"
  by (cases c) auto

lemma caller_ok_wake: "caller_ok n d (wake c) = caller_ok n d c"
  by (cases c) (simp_all add: wake_def)

lemma wake_simps [simp]:
  "leads (wake c) = leads c" "will_notify (wake c) = will_notify c" "\<not> waits (wake c)"
  by (cases c; simp add: wake_def)+

lemma leads_notifies: "leads c \<Longrightarrow> will_notify c"
  by (cases c) simp_all

lemma barrier_ok_new: "barrier_ok barrier_new"
  by (simp add: barrier_ok_def barrier_new_def group_fsync_new_def)

text \<open>
  A step that moves one caller: its new place is right, the lock state follows whether it
  leads, and it may fall asleep only behind a leader or a notifier.
\<close>
lemma barrier_ok_move:
  assumes ok: "barrier_ok b"
    and n: "gf_next_ticket (br_state b) \<le> gf_next_ticket s'" and d: "br_durable b \<subseteq> d'"
    and last: "{1..gf_last_fsynced s'} \<subseteq> d'" "gf_last_fsynced s' < gf_next_ticket s'"
    and c: "caller_ok (gf_next_ticket s') d' c"
    and act: "gf_leader_active s' \<longleftrightarrow> leads c \<or> (gf_leader_active (br_state b) \<and> \<not> leads (br_caller b i))"
    and one: "leads c \<Longrightarrow> leads (br_caller b i) \<or> \<not> gf_leader_active (br_state b)"
    and wait: "waits c \<Longrightarrow> gf_leader_active (br_state b) \<and> \<not> leads (br_caller b i)"
    and notif: "will_notify (br_caller b i) \<Longrightarrow> will_notify c"
  shows "barrier_ok (b\<lparr>br_state := s', br_caller := (br_caller b)(i := c), br_durable := d'\<rparr>)"
proof -
  have ok1: "caller_ok (gf_next_ticket s') d' (br_caller b j)" for j
    using ok n d by (auto simp: barrier_ok_def intro: caller_ok_mono)
  have act0: "gf_leader_active (br_state b) \<longleftrightarrow> (\<exists>i. leads (br_caller b i))"
    and one0: "\<And>i j. leads (br_caller b i) \<Longrightarrow> leads (br_caller b j) \<Longrightarrow> i = j"
    and wait0: "\<And>i. waits (br_caller b i) \<Longrightarrow> \<exists>j. will_notify (br_caller b j)"
    using ok by (auto simp: barrier_ok_def)
  let ?f = "(br_caller b)(i := c)"
  have "(\<exists>j. leads (?f j)) \<longleftrightarrow> leads c \<or> (\<exists>j. j \<noteq> i \<and> leads (br_caller b j))" by auto
  also have "(\<exists>j. j \<noteq> i \<and> leads (br_caller b j)) \<longleftrightarrow>
      gf_leader_active (br_state b) \<and> \<not> leads (br_caller b i)"
    using act0 one0 by (cases "leads (br_caller b i)") (auto, metis)
  finally have 1: "gf_leader_active s' \<longleftrightarrow> (\<exists>j. leads (?f j))"
    using act by simp
  have 2: "j = k" if "leads (?f j)" "leads (?f k)" for j k
    using that one act0 one0 by (auto split: if_splits)
  have 3: "\<exists>k. will_notify (?f k)" if "waits (?f j)" for j
  proof (cases "j = i")
    case True
    then have "gf_leader_active (br_state b)" "\<not> leads (br_caller b i)" using that wait by auto
    then obtain k where "leads (br_caller b k)" "k \<noteq> i" using act0 by metis
    then show ?thesis by (intro exI [of _ k]) (simp add: leads_notifies)
  next
    case False
    then have "waits (br_caller b j)" using that by simp
    then obtain k where k: "will_notify (br_caller b k)" using wait0 by blast
    show ?thesis using k notif by (cases "k = i") (auto intro: exI [of _ i] exI [of _ k])
  qed
  have 0: "\<forall>j. caller_ok (gf_next_ticket s') d' (?f j)" using ok1 c by simp
  have 2: "\<forall>j k. leads (?f j) \<longrightarrow> leads (?f k) \<longrightarrow> j = k" using 2 by blast
  have 3: "(\<exists>j. waits (?f j)) \<longrightarrow> (\<exists>k. will_notify (?f k))" using 3 by blast
  show ?thesis
    unfolding barrier_ok_def using 0 last 1 2 3 by (simp del: fun_upd_apply)
qed

lemma barrier_ok_facts:
  assumes "barrier_ok b"
  shows "gf_last_fsynced (br_state b) < gf_next_ticket (br_state b)"
    and "{1..gf_last_fsynced (br_state b)} \<subseteq> br_durable b"
    and "caller_ok (gf_next_ticket (br_state b)) (br_durable b) (br_caller b i)"
    and "leads (br_caller b i) \<Longrightarrow> gf_leader_active (br_state b)"
    and "leads (br_caller b i) \<Longrightarrow> leads (br_caller b j) \<Longrightarrow> i = j"
    and "waits (br_caller b i) \<Longrightarrow> \<exists>j. will_notify (br_caller b j)"
  using assms by (auto simp: barrier_ok_def)

lemma barrier_ok_arrive:
  assumes "barrier_ok b" and "arrive b b'"
  shows "barrier_ok b'"
proof -
  note f = barrier_ok_facts [OF assms(1)]
  from assms(2) show ?thesis
  proof (cases rule: arrive.cases)
    case (enter i s' c)
    have s': "s' = (br_state b)\<lparr>gf_next_ticket := gf_next_ticket (br_state b) + 1\<rparr>"
      "c = Looping (gf_next_ticket (br_state b))"
      using enter(3) f(1) by (auto simp: take_ticket_def Let_def split: if_splits)
    show ?thesis
      using barrier_ok_move [OF assms(1), of s' "br_durable b" c i] f(1,2) enter(2)
      by (simp add: enter(1) s')
  next
    case (leave i t r)
    show ?thesis
      using barrier_ok_move [OF assms(1), of "br_state b" "br_durable b" Outside i] f(1,2) leave(2)
      by (simp add: leave(1))
  next
    case (spurious i t)
    then show ?thesis
      using barrier_ok_move [OF assms(1), of "br_state b" "br_durable b" "Looping t" i] f(1,2)
        f(3) [of i]
      by (simp add: spurious(1))
  qed
qed

lemma finish_sel [simp]:
  "gf_next_ticket (finish target r s) = gf_next_ticket s"
  "gf_leader_active (finish target r s) = False"
  "gf_last_fsynced (finish target r s) =
     (if is_ok r then max (gf_last_fsynced s) target else gf_last_fsynced s)"
  by (simp_all add: finish_def Let_def)

lemma barrier_ok_internal:
  assumes ok: "barrier_ok b" and "internal b b'"
  shows "barrier_ok b'"
proof -
  let ?s = "br_state b" and ?n = "gf_next_ticket (br_state b)" and ?d = "br_durable b"
  note l = barrier_ok_facts(1,2) [OF ok] and c = barrier_ok_facts(3) [OF ok]
    and act = barrier_ok_facts(4) [OF ok]
  from assms(2) show ?thesis
  proof (cases rule: internal.cases)
    case (top i t s' k)
    have t: "0 < t" "t < ?n" using c [of i] top(2) by auto
    then have d: "t \<in> ?d" if "t \<le> gf_last_fsynced ?s" using l(2) that by auto
    show ?thesis
      using barrier_ok_move [OF ok, of s' ?d k i] l t d top(2,3)
      by (auto simp: top(1) loop_top_def split: if_splits)
  next
    case (start i t target)
    have "t \<le> target" "target < ?n" "gf_leader_active ?s" using c [of i] act [of i] start(2) by auto
    then show ?thesis
      using barrier_ok_move [OF ok, of ?s ?d "Syncing t target (?n - 1)" i] l start(2)
      by (auto simp: start(1))
  next
    case (sync_ok i t target cover)
    have "t \<le> target" "target \<le> cover" "cover < ?n" "gf_leader_active ?s"
      using c [of i] act [of i] sync_ok(2) by auto
    moreover from this have "{..target} \<subseteq> ?d \<union> {..cover}" "{Suc 0..gf_last_fsynced ?s} \<subseteq> ?d \<union> {..cover}"
      using l(2) by auto
    ultimately show ?thesis
      using barrier_ok_move [OF ok, of ?s "?d \<union> {..cover}" "Synced t target (Inr ())" i] l sync_ok(2)
      by (auto simp: sync_ok(1))
  next
    case (sync_err i t target cover e)
    have "t \<le> target" "target \<le> cover" "cover < ?n" "gf_leader_active ?s"
      using c [of i] act [of i] sync_err(2) by auto
    then show ?thesis
      using barrier_ok_move [OF ok, of ?s ?d "Synced t target (Inl e)" i] l sync_err(2)
      by (auto simp: sync_err(1))
  next
    case (unlead i t target r)
    have "t \<le> target" "target < ?n" "is_ok r \<Longrightarrow> {..target} \<subseteq> ?d" "gf_leader_active ?s"
      using c [of i] act [of i] unlead(2) by auto
    moreover from this have "{1..max (gf_last_fsynced ?s) target} \<subseteq> ?d" if "is_ok r"
      using l(2) that by (auto simp: max_def)
    ultimately show ?thesis
      using barrier_ok_move [OF ok, of "finish target r ?s" ?d "Notifying t r" i] l unlead(2)
      by (cases "is_ok r") (auto simp: unlead(1))
  next
    case (notify i t r)
    have r: "caller_ok ?n ?d (Returned t r)" using c [of i] notify(2) by simp
    have nl: "\<not> leads (br_caller b i)" using notify(2) by simp
    show ?thesis
      using ok r nl
      by (auto simp: notify(1) barrier_ok_def caller_ok_wake split: if_splits)
  qed
qed

lemma reach_ok: "reach b \<Longrightarrow> barrier_ok b"
  by (induction rule: reach.induct) (auto intro: barrier_ok_new barrier_ok_arrive barrier_ok_internal)

section \<open>Progress\<close>

text \<open>
  Every internal step lowers \<open>work\<close>: waking the sleepers costs one per sleeper and is paid
  for by the notifier leaving.
\<close>
definition rank :: "nat \<Rightarrow> caller \<Rightarrow> nat" where
  "rank n c =
     (case c of Outside \<Rightarrow> 0 | Returned _ _ \<Rightarrow> 0 | Notifying _ _ \<Rightarrow> n + 1 | Synced _ _ _ \<Rightarrow> n + 2
      | Syncing _ _ _ \<Rightarrow> n + 3 | Leading _ _ \<Rightarrow> n + 4 | Waiting _ \<Rightarrow> n + 5 | Looping _ \<Rightarrow> n + 6)"

definition work :: "('th::finite) barrier \<Rightarrow> nat" where
  "work b = (\<Sum>i\<in>UNIV. rank (card (UNIV :: 'th set)) (br_caller b i))"

lemma work_move:
  fixes f :: "'th::finite \<Rightarrow> caller"
  assumes "rank n c < rank n (f i)"
  shows "(\<Sum>j\<in>UNIV. rank n ((f(i := c)) j)) < (\<Sum>j\<in>UNIV. rank n (f j))"
  by (rule sum_strict_mono_ex1) (use assms in \<open>auto intro: exI [of _ i]\<close>)

text \<open>Waking everybody adds at most one per caller.\<close>
lemma work_notify:
  fixes f :: "'th::finite \<Rightarrow> caller"
  assumes "f i = Notifying t r"
  shows "(\<Sum>j\<in>UNIV. rank (card (UNIV :: 'th set)) (((\<lambda>j. wake (f j))(i := Returned t r)) j))
    < (\<Sum>j\<in>UNIV. rank (card (UNIV :: 'th set)) (f j))"
proof -
  let ?n = "card (UNIV :: 'th set)" and ?g = "(\<lambda>j. wake (f j))(i := Returned t r)"
  have w: "rank ?n (wake c) \<le> rank ?n c + 1" for c by (cases c) (simp_all add: wake_def rank_def)
  have "(\<Sum>j\<in>UNIV. rank ?n (?g j)) = (\<Sum>j\<in>UNIV - {i}. rank ?n (wake (f j)))"
    by (subst sum.remove [of _ i]) (auto simp: rank_def intro!: sum.cong)
  also have "\<dots> \<le> (\<Sum>j\<in>UNIV - {i}. rank ?n (f j) + 1)"
    by (rule sum_mono) (rule w)
  also have "\<dots> = (\<Sum>j\<in>UNIV - {i}. rank ?n (f j)) + (?n - 1)"
    by (simp only: sum.distrib) (simp add: card_Diff_singleton)
  also have "\<dots> < (\<Sum>j\<in>UNIV - {i}. rank ?n (f j)) + rank ?n (f i)"
    by (simp add: assms rank_def)
  also have "\<dots> = (\<Sum>j\<in>UNIV. rank ?n (f j))"
    by (subst (2) sum.remove [of _ i]) simp_all
  finally show ?thesis .
qed

lemma internal_work: "internal b b' \<Longrightarrow> work b' < work b"
proof (induction rule: internal.induct)
  case (top b i t s' c)
  then have "rank (card (UNIV :: 'a set)) c < rank (card (UNIV :: 'a set)) (br_caller b i)"
    by (auto simp: loop_top_def rank_def split: if_splits)
  then show ?case by (simp add: work_def work_move del: fun_upd_apply)
next
  case (notify b i t r)
  then show ?case using work_notify [of "br_caller b" i t r] by (simp add: work_def)
qed (simp_all add: work_def work_move rank_def [of _ "Synced _ _ _"] rank_def [of _ "Syncing _ _ _"]
      rank_def [of _ "Leading _ _"] rank_def [of _ "Notifying _ _"] del: fun_upd_apply)

text \<open>A caller inside the barrier can always move, or waits for one that can.\<close>
fun pending :: "caller \<Rightarrow> bool" where
  "pending Outside = False"
| "pending (Returned _ _) = False"
| "pending _ = True"

lemma pending_moves:
  assumes "\<not> waits (br_caller b i)" and "pending (br_caller b i)"
  shows "\<exists>b'. internal b b'"
proof (cases "br_caller b i")
  case (Looping t)
  then show ?thesis using internal.top [of b i t] by (cases "loop_top t (br_state b)") blast
qed (use assms in \<open>auto intro: internal.intros\<close>)

lemma stuck_done:
  assumes "barrier_ok b" and "\<nexists>b'. internal b b'"
  shows "\<not> pending (br_caller b i)"
proof
  assume p: "pending (br_caller b i)"
  then have "waits (br_caller b i)" using pending_moves [of b i] assms(2) by metis
  then obtain j where "will_notify (br_caller b j)" using barrier_ok_facts(6) [OF assms(1), of i] by auto
  then have "\<not> waits (br_caller b j)" "pending (br_caller b j)"
    by (cases "br_caller b j"; simp)+
  then show False using pending_moves [of b j] assms(2) by metis
qed

section \<open>Properties\<close>

text \<open>
  C9: Durability of the group commit: in every reachable state, a caller that returned
  \<open>Ok\<close> has the writes it made before it entered covered by an fsync that completed
  successfully; and at no time do two callers lead.
\<close>
theorem group_fsync_durable:
  assumes "reach b" and "br_caller b i = Returned t (Inr ())"
  shows "t \<in> br_durable b \<and> (\<forall>j k. leads (br_caller b j) \<longrightarrow> leads (br_caller b k) \<longrightarrow> j = k)"
  using barrier_ok_facts(3,5) [OF reach_ok [OF assms(1)]] assms(2)
  by (metis caller_ok.simps(8) is_ok_simps(1))

text \<open>
  C11: No lost wakeup and no starvation: from every reachable state, when no further caller
  arrives, the barrier can only make finitely many steps, and when it can make none every
  caller has returned (or is outside): no caller stays asleep and no one leads forever.
\<close>
theorem group_fsync_progress:
  fixes b :: "('th::finite) barrier"
  assumes "reach b"
  shows "wfP (\<lambda>b' b :: 'th barrier. internal b b') \<and>
    ((\<nexists>b'. internal b b') \<longrightarrow> (\<forall>i. \<not> pending (br_caller b i)))"
proof
  have "wfp (\<lambda>b' b :: 'th barrier. work b' < work b)"
    by (rule wfp_if_convertible_to_nat [of _ work]) simp
  then show "wfP (\<lambda>b' b :: 'th barrier. internal b b')"
    by (rule wfp_subset) (auto dest: internal_work)
  show "(\<nexists>b'. internal b b') \<longrightarrow> (\<forall>i. \<not> pending (br_caller b i))"
    using stuck_done [OF reach_ok [OF assms]] by blast
qed

text \<open>One caller alone: it takes ticket 1, leads, syncs, and returns.\<close>
definition ex_barrier :: "caller \<Rightarrow> bool \<Rightarrow> nat \<Rightarrow> nat set \<Rightarrow> bool barrier" where
  "ex_barrier c active synced d =
     \<lparr>br_state = \<lparr>gf_next_ticket = 2, gf_last_fsynced = synced, gf_leader_active = active\<rparr>,
      br_caller = (\<lambda>_. Outside)(True := c), br_durable = d\<rparr>"

lemma ex_barrier_run: "reach (ex_barrier (Returned 1 (Inr ())) False 1 {..1})"
proof -
  have "arrive barrier_new (ex_barrier (Looping 1) False 0 {})"
    using arrive.enter [of barrier_new True "group_fsync_new\<lparr>gf_next_ticket := 2\<rparr>" "Looping 1"]
    by (simp add: barrier_new_def ex_barrier_def group_fsync_new_def take_ticket_def numeral_2_eq_2)
  moreover have "internal (ex_barrier (Looping 1) False 0 {}) (ex_barrier (Leading 1 1) True 0 {})"
    using internal.top [of "ex_barrier (Looping 1) False 0 {}" True 1]
    by (simp add: ex_barrier_def loop_top_def)
  moreover have "internal (ex_barrier (Leading 1 1) True 0 {}) (ex_barrier (Syncing 1 1 1) True 0 {})"
    using internal.start [of "ex_barrier (Leading 1 1) True 0 {}" True 1 1]
    by (simp add: ex_barrier_def)
  moreover have "internal (ex_barrier (Syncing 1 1 1) True 0 {}) (ex_barrier (Synced 1 1 (Inr ())) True 0 {..1})"
    using internal.sync_ok [of "ex_barrier (Syncing 1 1 1) True 0 {}" True 1 1 1]
    by (simp add: ex_barrier_def)
  moreover have "internal (ex_barrier (Synced 1 1 (Inr ())) True 0 {..1})
      (ex_barrier (Notifying 1 (Inr ())) False 1 {..1})"
    using internal.unlead [of "ex_barrier (Synced 1 1 (Inr ())) True 0 {..1}" True 1 1 "Inr ()"]
    by (simp add: ex_barrier_def finish_def Let_def)
  moreover have "internal (ex_barrier (Notifying 1 (Inr ())) False 1 {..1})
      (ex_barrier (Returned 1 (Inr ())) False 1 {..1})"
  proof -
    have "(\<lambda>j. wake (((\<lambda>_. Outside)(True := Notifying 1 (Inr ()))) j))(True := Returned 1 (Inr ())) =
        (\<lambda>_. Outside)(True := Returned 1 (Inr ()))"
      by (auto simp: wake_def)
    then show ?thesis
      using internal.notify [of "ex_barrier (Notifying 1 (Inr ())) False 1 {..1}" True 1 "Inr ()"]
      by (simp add: ex_barrier_def)
  qed
  ultimately show ?thesis by (meson reach.intros)
qed

lemma group_fsync_durable_witness: "1 \<in> br_durable (ex_barrier (Returned 1 (Inr ())) False 1 {..1})"
  using group_fsync_durable [OF ex_barrier_run, of True 1] by (simp add: ex_barrier_def)

lemma group_fsync_progress_witness:
  "wfP (\<lambda>b' b :: bool barrier. internal b b')"
  using group_fsync_progress [OF ex_barrier_run] by blast

end
