(* ===== verification/Frames.thy ===== *)
theory Frames imports Handle begin

text \<open>
  Collections and frames of an open file: creation of a collection, the buffered ingest of
  frames, the flush of the buffer into payload and metadata segments (src/file/frame_ops.rs),
  deletion and the reading of payloads (src/file/vector_ops.rs), of descriptors and of
  URIs (src/file/accessors.rs, src/file/internals.rs).

  The abstract specification is a finite map from frame ids to payloads and URIs. The
  invariant \<open>store_inv\<close> relates it to the three places a frame's bytes can be in: the pending
  buffer, an appended segment that the registry knows, the file behind the memory map.
\<close>

section \<open>Definitions\<close>

record put_frame_input =
  pf_collection_id :: u32
  pf_role :: frame_role
  pf_payload :: bytes
  pf_created_at :: "i64 option"
  pf_updated_at :: "i64 option"
  pf_parent_frame_id :: "u64 option"
  pf_chunk_index :: "u32 option"
  pf_chunk_count :: "u32 option"
  pf_uri :: "bytes option"

definition PAYLOAD_BATCH_FLUSH_BYTES :: nat where
  "PAYLOAD_BATCH_FLUSH_BYTES = 4 * 1024 * 1024"

text \<open>An allocation from the handle's id allocator, and the registration of a segment.\<close>
definition oalloc :: "'i allocation \<Rightarrow> 'i op" where
  "oalloc al s = (case al (vf_id_allocator s) of
     Inl e \<Rightarrow> Some (Inl e, s) | Inr (i, a) \<Rightarrow> Some (Inr i, s\<lparr>vf_id_allocator := a\<rparr>))"

definition oregister :: "segment_catalog_entry \<Rightarrow> unit op" where
  "oregister e = omodify (\<lambda>s.
     case register_segment (vf_segment_registry s, vf_dirty_segment_ids s) e of
       (reg, dirty_ids) \<Rightarrow> s\<lparr>vf_segment_registry := reg, vf_dirty_segment_ids := dirty_ids\<rparr>)"

text \<open>\<open>Vec::extend_from_slice\<close>; \<open>&buf[start..end]\<close> with the bounds a release build computes.\<close>
definition extend_from_slice :: "bytes \<Rightarrow> bytes \<Rightarrow> bytes result" where
  "extend_from_slice buf bs =
     (if length buf + length bs < 2 ^ 63 then Inr (buf @ bs) else Inl (Panic ''capacity overflow''))"

definition index_range :: "bytes \<Rightarrow> u64 \<Rightarrow> u64 \<Rightarrow> bytes result" where
  "index_range buf start len =
     (let stop = start + len in
      if stop < start then Inl (Panic ''slice index starts after its end'')
      else if length buf < unat stop then Inl (Panic ''range end index out of range'')
      else Inr (slice (unat start) (unat len) buf))"

definition create_collection_at :: "env \<Rightarrow> string \<Rightarrow> i64 \<Rightarrow> u32 op" where
  "create_collection_at en name created_at =
     obind (ensure_write en) (\<lambda>_.
     obind (ogets vf_catalog) (\<lambda>cat.
     if list_ex (\<lambda>c. col_name c = name \<and> col_flags c AND 1 = 0) (cs_collections cat)
     then olift (Inl (Format ''collection already exists''))
     else
     obind (oalloc allocate_collection_id) (\<lambda>cid.
     obind (omodify (\<lambda>s. s\<lparr>
        vf_catalog := upsert_collection
          \<lparr>col_collection_id = cid, col_name = name, col_created_at = created_at,
           col_default_text_space_id = None, col_default_embedding_space_id = None,
           col_flags = 0, col_metadata_ref = None\<rparr> (vf_catalog s),
        vf_dirty_collection_ids := insert cid (vf_dirty_collection_ids s),
        vf_dirty := True\<rparr>)) (\<lambda>_. oreturn cid))))"

text \<open>\<open>now\<close> is what \<open>current_unix_timestamp\<close> returns.\<close>
definition create_collection :: "env \<Rightarrow> i64 result \<Rightarrow> string \<Rightarrow> u32 op" where
  "create_collection en now name = obind (olift now) (create_collection_at en name)"

text \<open>The first half of \<open>flush_pending_payloads\<close>: the buffer becomes one zstd segment.\<close>
definition write_payload_batch :: "env \<Rightarrow> segment_id op" where
  "write_payload_batch en =
     obind (oalloc allocate_segment_id) (\<lambda>sid.
     obind (ogets vf_pending_payload_frames) (\<lambda>frames.
     obind (olift (ok_or (u32_try_from (length frames))
       (Format ''payload batch too large for u32 item_count''))) (\<lambda>item_count.
     obind (ogets vf_pending_payload_buf) (\<lambda>buf.
     obind (olift (ok_or (en_zstd_encode en buf) (Format ''zstd encode failed''))) (\<lambda>compressed.
     obind (ogets vf_file) (\<lambda>f.
     obind (olift (append_compressed_segment_at_end (en_hash en) f sid Payload item_count compressed
       (of_nat (length buf)) Zstd)) (\<lambda>(payload_segment, f').
     obind (omodify (\<lambda>s. s\<lparr>vf_file := f'\<rparr>)) (\<lambda>_.
     obind (olift (compressed_segment_catalog_entry (en_hash en) sid Payload item_count compressed
       (of_nat (length buf)) Zstd payload_segment)) (\<lambda>e.
     obind (oregister e) (\<lambda>_. oreturn sid))))))))))"

text \<open>Each buffered URI becomes a reference with its own checksum.\<close>
fun resolve_uris :: "env \<Rightarrow> segment_id \<Rightarrow> pending_uri list \<Rightarrow> (u64 \<rightharpoonup> metadata_ref) \<Rightarrow>
    (u64 \<rightharpoonup> metadata_ref) op" where
  "resolve_uris en sid [] m = oreturn m"
| "resolve_uris en sid (u # us) m =
     obind (ogets vf_pending_uri_buf) (\<lambda>buf.
     obind (olift (index_range buf (pu_bytes_offset u) (pu_bytes_length u))) (\<lambda>bytes.
     obind (omodify (\<lambda>s. s\<lparr>vf_dirty_frame_ids := insert (pu_frame_id u) (vf_dirty_frame_ids s)\<rparr>)) (\<lambda>_.
     resolve_uris en sid us (m(pu_frame_id u \<mapsto>
       \<lparr>md_segment_id = sid, md_bytes_offset = pu_bytes_offset u,
        md_bytes_length = pu_bytes_length u, md_checksum = en_hash en bytes\<rparr>)))))"

definition write_uri_batch :: "env \<Rightarrow> (u64 \<rightharpoonup> metadata_ref) op" where
  "write_uri_batch en =
     obind (ogets vf_pending_uris) (\<lambda>uris.
     if uris = [] then oreturn Map.empty
     else
     obind (oalloc allocate_segment_id) (\<lambda>sid.
     obind (olift (ok_or (u32_try_from (length uris))
       (Format ''uri batch too large for u32 item_count''))) (\<lambda>item_count.
     obind (ogets vf_pending_uri_buf) (\<lambda>buf.
     obind (ogets vf_file) (\<lambda>f.
     let (uri_segment, f') = append_segment_at_end (en_hash en) f sid Metadata item_count buf in
     obind (omodify (\<lambda>s. s\<lparr>vf_file := f'\<rparr>)) (\<lambda>_.
     obind (olift (catalog_entry_of (en_hash en) sid Metadata item_count buf uri_segment)) (\<lambda>e.
     obind (oregister e) (\<lambda>_.
     obind (omodify (\<lambda>s. s\<lparr>vf_pending_uris := []\<rparr>)) (\<lambda>_.
     resolve_uris en sid uris Map.empty)))))))))"

text \<open>The pass over the catalog that fills in the references.\<close>
definition refs_by_frame :: "pending_payload_frame list \<Rightarrow> u64 \<rightharpoonup> u64 \<times> u64" where
  "refs_by_frame pending =
     foldl (\<lambda>m p. m(pp_frame_id p \<mapsto> (pp_bytes_offset p, pp_bytes_length p))) Map.empty pending"

definition attach_refs ::
  "segment_id \<Rightarrow> (u64 \<rightharpoonup> u64 \<times> u64) \<Rightarrow> (u64 \<rightharpoonup> metadata_ref) \<Rightarrow> frame_desc \<Rightarrow> frame_desc" where
  "attach_refs sid refs uri_refs x =
     (let x1 = (case refs (fd_frame_id x) of
            Some (off, len) \<Rightarrow> x\<lparr>fd_payload_ref := Some \<lparr>pr_segment_id = sid, pr_bytes_offset = off,
              pr_bytes_length = len\<rparr>\<rparr>
          | None \<Rightarrow> x)
      in case uri_refs (fd_frame_id x) of Some u \<Rightarrow> x1\<lparr>fd_uri_ref := Some u\<rparr> | None \<Rightarrow> x1)"

definition settle_pending :: "segment_id \<Rightarrow> (u64 \<rightharpoonup> metadata_ref) \<Rightarrow> unit op" where
  "settle_pending sid uri_refs =
     obind (ogets vf_pending_payload_frames) (\<lambda>pending.
     let refs = refs_by_frame pending in
     obind (omodify (\<lambda>s. s\<lparr>vf_pending_payload_frames := [],
        vf_dirty_frame_ids := vf_dirty_frame_ids s \<union> set (map pp_frame_id pending)\<rparr>)) (\<lambda>_.
     obind (ogets vf_catalog) (\<lambda>cat.
     let matched = length (filter (\<lambda>x. refs (fd_frame_id x) \<noteq> None) (cs_frames cat)) in
     obind (omodify (\<lambda>s. s\<lparr>vf_catalog :=
        cat\<lparr>cs_frames := map (attach_refs sid refs uri_refs) (cs_frames cat)\<rparr>\<rparr>)) (\<lambda>_.
     if matched \<noteq> length (remdups (map pp_frame_id pending))
     then olift (Inl (Integrity ''flush_pending_payloads: matched pending frames in catalog''))
     else omodify (\<lambda>s. s\<lparr>vf_pending_payload_buf := [], vf_pending_payload_by_frame := Map.empty,
        vf_pending_uri_buf := []\<rparr>)))))"

definition flush_pending_payloads :: "env \<Rightarrow> unit op" where
  "flush_pending_payloads en =
     obind (ogets vf_pending_payload_frames) (\<lambda>frames.
     if frames = [] then oreturn ()
     else
     obind (write_payload_batch en) (\<lambda>sid.
     obind (write_uri_batch en) (\<lambda>uri_refs.
     settle_pending sid uri_refs)))"

definition new_frame :: "put_frame_input \<Rightarrow> u64 \<Rightarrow> i64 \<Rightarrow> frame_desc" where
  "new_frame input fid now =
     \<lparr>fd_frame_id = fid, fd_collection_id = pf_collection_id input, fd_role = pf_role input,
      fd_created_at = (case pf_created_at input of Some t \<Rightarrow> t | None \<Rightarrow> now),
      fd_updated_at = (case pf_updated_at input of Some t \<Rightarrow> t | None \<Rightarrow> now),
      fd_uri_ref = None, fd_title_ref = None, fd_payload_ref = None,
      fd_payload_encoding = Enc_raw, fd_search_text_ref = None,
      fd_parent_frame_id = pf_parent_frame_id input, fd_chunk_index = pf_chunk_index input,
      fd_chunk_count = pf_chunk_count input, fd_metadata_ref = None,
      fd_status = Frame_active\<rparr>"

definition buffer_payload :: "u64 \<Rightarrow> bytes \<Rightarrow> unit op" where
  "buffer_payload fid payload =
     obind (ogets vf_pending_payload_buf) (\<lambda>buf.
     obind (olift (extend_from_slice buf payload)) (\<lambda>buf'.
     omodify (\<lambda>s. s\<lparr>vf_pending_payload_buf := buf',
        vf_pending_payload_frames := vf_pending_payload_frames s @
          [\<lparr>pp_frame_id = fid, pp_bytes_offset = of_nat (length buf),
            pp_bytes_length = of_nat (length payload)\<rparr>],
        vf_pending_payload_by_frame := (vf_pending_payload_by_frame s)
          (fid \<mapsto> length (vf_pending_payload_frames s))\<rparr>)))"

definition buffer_uri :: "u64 \<Rightarrow> bytes option \<Rightarrow> unit op" where
  "buffer_uri fid uri =
     (case uri of
        None \<Rightarrow> oreturn ()
      | Some u \<Rightarrow>
          obind (ogets vf_pending_uri_buf) (\<lambda>buf.
          obind (olift (extend_from_slice buf u)) (\<lambda>buf'.
          omodify (\<lambda>s. s\<lparr>vf_pending_uri_buf := buf',
             vf_pending_uris := vf_pending_uris s @
               [\<lparr>pu_frame_id = fid, pu_bytes_offset = of_nat (length buf),
                 pu_bytes_length = of_nat (length u)\<rparr>]\<rparr>))))"

definition put_frame :: "env \<Rightarrow> i64 result \<Rightarrow> put_frame_input \<Rightarrow> u64 op" where
  "put_frame en now input =
     obind (ensure_write en) (\<lambda>_.
     obind (ensure_segment_registry_loaded en) (\<lambda>_.
     obind (ogets vf_catalog) (\<lambda>cat.
     if \<not> list_ex (\<lambda>c. col_collection_id c = pf_collection_id input) (cs_collections cat)
     then olift (Inl (Format ''unknown collection id''))
     else
     obind (olift now) (\<lambda>t.
     obind (oalloc allocate_frame_id) (\<lambda>fid.
     obind (buffer_payload fid (pf_payload input)) (\<lambda>_.
     obind (buffer_uri fid (pf_uri input)) (\<lambda>_.
     obind (omodify (\<lambda>s. s\<lparr>vf_catalog := upsert_frame (new_frame input fid t) (vf_catalog s),
        vf_dirty_frame_ids := insert fid (vf_dirty_frame_ids s), vf_dirty := True\<rparr>)) (\<lambda>_.
     obind (ogets vf_pending_payload_buf) (\<lambda>buf.
     obind (if PAYLOAD_BATCH_FLUSH_BYTES \<le> length buf then flush_pending_payloads en
            else oreturn ()) (\<lambda>_.
     oreturn fid))))))))))"

definition tombstone_frame :: "u64 \<Rightarrow> i64 \<Rightarrow> vfile \<Rightarrow> vfile" where
  "tombstone_frame fid t s =
     (let cat = vf_catalog s;
          frames = (case binary_search_by_key fd_frame_id fid (cs_frames cat) of
            Inr i \<Rightarrow> (cs_frames cat)[i := (cs_frames cat ! i)\<lparr>fd_status := Frame_tombstoned,
              fd_role := Tombstone_role, fd_updated_at := t\<rparr>]
          | Inl _ \<Rightarrow> cs_frames cat);
          s1 = (case binary_search_by_key st_frame_id fid (cs_frame_stubs cat) of
            Inr i \<Rightarrow> s\<lparr>vf_tombstoned_frame_count :=
                (if st_status (cs_frame_stubs cat ! i) \<noteq> Frame_tombstoned
                 then vf_tombstoned_frame_count s + 1 else vf_tombstoned_frame_count s),
              vf_catalog := cat\<lparr>cs_frames := frames, cs_frame_stubs := (cs_frame_stubs cat)
                [i := (cs_frame_stubs cat ! i)\<lparr>st_status := Frame_tombstoned\<rparr>]\<rparr>\<rparr>
          | Inl _ \<Rightarrow> s\<lparr>vf_catalog := cat\<lparr>cs_frames := frames\<rparr>\<rparr>)
      in s1\<lparr>vf_dirty_frame_ids := insert fid (vf_dirty_frame_ids s1), vf_dirty := True\<rparr>)"

definition delete_frame :: "env \<Rightarrow> i64 result \<Rightarrow> u64 \<Rightarrow> unit op" where
  "delete_frame en now fid =
     obind (ensure_write en) (\<lambda>_.
     obind (ogets vf_catalog) (\<lambda>cat.
     if \<not> (case binary_search_by_key fd_frame_id fid (cs_frames cat) of
              Inr i \<Rightarrow> fd_status (cs_frames cat ! i) = Frame_active | Inl _ \<Rightarrow> False)
     then olift (Inl (Format ''unknown active frame id''))
     else obind (olift now) (\<lambda>t. omodify (tombstone_frame fid t))))"

section \<open>Reading\<close>

text \<open>A segment sliced out of the memory map \<open>mm\<close>, without hashing its payload.\<close>
definition mmap_segment_payload :: "bytes \<Rightarrow> segment_ref \<Rightarrow> segment_type \<Rightarrow> bytes result" where
  "mmap_segment_payload mm seg expected_type =
     rbind (ok_or (checked_add (sr_offset seg) (sr_length seg)) (Format ''segment range overflow'')) (\<lambda>stop.
     if length mm < unat stop then Inl (Integrity ''mmap_segment_payload: segment past mmap end'')
     else if unat (sr_length seg) < SEGMENT_HEADER_SIZE
       then Inl (Format ''segment shorter than its header'')
     else let segment_bytes = slice (unat (sr_offset seg)) (unat (sr_length seg)) mm in
       rbind (segment_header_decode (take SEGMENT_HEADER_SIZE segment_bytes)) (\<lambda>hdr.
       if sh_segment_type hdr \<noteq> expected_type
         then Inl (Integrity ''mmap_segment_payload: segment type mismatch'')
       else if sh_segment_id hdr \<noteq> sr_segment_id seg then Inl (Integrity ''segment id mismatch'')
       else if sh_payload_checksum hdr \<noteq> sr_checksum seg
         then Inl (Integrity ''mmap_segment_payload: segment header checksum disagrees with registry'')
       else let payload = drop SEGMENT_HEADER_SIZE segment_bytes in
         if of_nat (length payload) \<noteq> sh_payload_length hdr
         then Inl (Integrity ''mmap_segment_payload: payload length mismatch'')
         else Inr payload))"

text \<open>The pages of the map, when it covers the segment.\<close>
definition file_mmap :: "vfile \<Rightarrow> bytes option" where
  "file_mmap s = map_option (\<lambda>n. take n (vf_file s)) (vf_mmap_len s)"

definition mmap_covers :: "vfile \<Rightarrow> segment_ref \<Rightarrow> bytes option" where
  "mmap_covers s seg =
     (case file_mmap s of
        Some mm \<Rightarrow> if unat (sr_offset seg + sr_length seg) \<le> length mm then Some mm else None
      | None \<Rightarrow> None)"

definition mapped_or_read :: "env \<Rightarrow> vfile \<Rightarrow> segment_ref \<Rightarrow> segment_type \<Rightarrow> bytes result" where
  "mapped_or_read en s seg ty =
     (case mmap_covers s seg of
        Some mm \<Rightarrow> mmap_segment_payload mm seg ty
      | None \<Rightarrow> read_segment_payload_typed (en_hash en) (en_zstd_decode en) (vf_file s) seg ty)"

definition frame_full :: "env \<Rightarrow> u64 \<Rightarrow> vfile \<Rightarrow> frame_desc result" where
  "frame_full en fid s =
     (case binary_search_by_key fd_frame_id fid (cs_frames (vf_catalog s)) of
        Inr i \<Rightarrow> Inr (cs_frames (vf_catalog s) ! i)
      | Inl _ \<Rightarrow>
        rbind (ok_or (vf_frame_locators s fid) (Format ''frame_full: unknown frame_id'')) (\<lambda>loc.
        rbind (mapped_or_read en s (fl_catalog_segment loc) FrameCatalog) (\<lambda>payload.
        if 2 ^ 64 \<le> fl_payload_offset loc + fl_payload_len loc
        then Inl (Integrity ''frame_full: locator offset overflow'')
        else if length payload < fl_payload_offset loc + fl_payload_len loc
        then Inl (Integrity ''frame_full: locator out of range'')
        else
        rbind (ok_or (decode_from_slice (en_frame_bincode en)
            (slice (fl_payload_offset loc) (fl_payload_len loc) payload)) (Serde ''frame'')) (\<lambda>(desc, _).
        if fd_frame_id desc \<noteq> fid
        then Inl (Integrity ''frame_full: locator pointed at frame_id'')
        else Inr desc))))"

definition frame_created_at :: "u64 \<Rightarrow> vfile \<Rightarrow> i64 result" where
  "frame_created_at fid s =
     (case binary_search_by_key fd_frame_id fid (cs_frames (vf_catalog s)) of
        Inr i \<Rightarrow> Inr (fd_created_at (cs_frames (vf_catalog s) ! i))
      | Inl _ \<Rightarrow> Inl (Format ''frame_created_at: unknown frame_id''))"

definition read_metadata_ref :: "env \<Rightarrow> metadata_ref \<Rightarrow> bytes op" where
  "read_metadata_ref en mref =
     obind (ensure_segment_registry_loaded en) (\<lambda>_.
     obind (ogets (\<lambda>s. rg_by_id (vf_segment_registry s) (md_segment_id mref))) (\<lambda>found.
     obind (olift (ok_or found (Integrity ''read_metadata_ref: segment missing from registry''))) (\<lambda>seg.
     obind (ogets (\<lambda>s. mapped_or_read en s seg Metadata)) (\<lambda>read.
     obind (olift read) (\<lambda>payload.
     obind (olift (ok_or (checked_add (md_bytes_offset mref) (md_bytes_length mref))
       (Integrity ''read_metadata_ref: range overflow''))) (\<lambda>stop.
     if length payload < unat stop
     then olift (Inl (Integrity ''read_metadata_ref: range out of segment payload''))
     else let bytes = slice (unat (md_bytes_offset mref)) (unat (md_bytes_length mref)) payload in
       if en_hash en bytes \<noteq> md_checksum mref
       then olift (Inl (Integrity ''read_metadata_ref: metadata checksum mismatch''))
       else oreturn bytes))))))"

definition read_frame_uri :: "env \<Rightarrow> u64 \<Rightarrow> bytes option op" where
  "read_frame_uri en fid =
     obind (ogets (frame_full en fid)) (\<lambda>found.
     obind (olift found) (\<lambda>x.
     case fd_uri_ref x of
       Some uri_ref \<Rightarrow> obind (read_metadata_ref en uri_ref) (\<lambda>bytes. oreturn (Some bytes))
     | None \<Rightarrow> oreturn None))"

text \<open>A hit in the pending buffer.\<close>
definition pending_payload :: "vfile \<Rightarrow> nat \<Rightarrow> bytes result" where
  "pending_payload s idx =
     (if length (vf_pending_payload_frames s) \<le> idx then Inl (Panic ''index out of bounds'')
      else let p = vf_pending_payload_frames s ! idx in
        index_range (vf_pending_payload_buf s) (pp_bytes_offset p) (pp_bytes_length p))"

text \<open>\<open>read_payload_ref\<close> keeps the set of verified segments of the handle.\<close>
definition oread_payload_ref :: "env \<Rightarrow> segment_ref \<Rightarrow> payload_ref \<Rightarrow> bytes op" where
  "oread_payload_ref en segment pref s =
     (case read_payload_ref (en_hash en) (en_zstd_decode en) (vf_file s) segment pref
        (vf_verified_payload_segments s) of
        Inl e \<Rightarrow> Some (Inl e, s)
      | Inr (bytes, verified) \<Rightarrow> Some (Inr bytes, s\<lparr>vf_verified_payload_segments := verified\<rparr>))"

definition mmap_payload_ref :: "env \<Rightarrow> bytes \<Rightarrow> segment_ref \<Rightarrow> payload_ref \<Rightarrow> bytes op" where
  "mmap_payload_ref en mm segment pref =
     obind (olift (mmap_segment_payload mm segment Payload)) (\<lambda>segment_payload.
     obind (ogets vf_verified_payload_segments) (\<lambda>verified.
     obind (olift (verify_payload_wire_bytes (en_hash en) (sr_segment_id segment)
       (sr_checksum segment) segment_payload verified)) (\<lambda>verified'.
     obind (omodify (\<lambda>s. s\<lparr>vf_verified_payload_segments := verified'\<rparr>)) (\<lambda>_.
     obind (olift (ok_or (checked_add (pr_bytes_offset pref) (pr_bytes_length pref))
       (Format ''payload ref range overflow''))) (\<lambda>stop.
     if length segment_payload < unat stop
     then olift (Inl (Integrity ''payload ref exceeds segment length''))
     else oreturn (slice (unat (pr_bytes_offset pref)) (unat (pr_bytes_length pref)) segment_payload))))))"

definition read_payload :: "env \<Rightarrow> u64 \<Rightarrow> bytes op" where
  "read_payload en fid =
     obind (ogets (\<lambda>s. vf_pending_payload_by_frame s fid)) (\<lambda>pending.
     case pending of
       Some idx \<Rightarrow> obind (ogets (\<lambda>s. pending_payload s idx)) olift
     | None \<Rightarrow>
       obind (ogets (frame_full en fid)) (\<lambda>found.
       obind (olift found) (\<lambda>x.
       if fd_payload_encoding x \<noteq> Enc_raw
       then olift (Inl (Unsupported ''compressed frame payloads are not implemented in v0.1-alpha''))
       else
       obind (olift (ok_or (fd_payload_ref x) (Format ''frame has no materialized payload''))) (\<lambda>pref.
       obind (ensure_segment_registry_loaded en) (\<lambda>_.
       obind (ogets vf_segment_registry) (\<lambda>reg.
       let segment = (case rg_by_id reg (pr_segment_id pref) of
              Some r \<Rightarrow> r | None \<Rightarrow> legacy_offset_segment_ref (pr_segment_id pref));
           cmp = (case lookup_by se_segment_id (pr_segment_id pref) (rg_catalog reg) of
              Some e \<Rightarrow> se_compression e | None \<Rightarrow> CNone)
       in if cmp = CNone then
            obind (ogets (\<lambda>s. mmap_covers s segment)) (\<lambda>covers.
            case covers of
              Some mm \<Rightarrow> mmap_payload_ref en mm segment pref
            | None \<Rightarrow> oread_payload_ref en segment pref)
          else oread_payload_ref en segment pref))))))"

end
