(* ===== verification/FrameStore.thy ===== *)
theory FrameStore imports Frames begin

text \<open>
  The frame store as a map from frame ids to payloads and URIs, and the invariant that ties
  the state of an open file to it. The lemmas about one operation compose into properties of
  any run of operations on a handle, with flushes wherever they happen.
\<close>

section \<open>A segment in the file\<close>

definition segment_there ::
  "hash \<Rightarrow> storage \<Rightarrow> segment_ref \<Rightarrow> segment_type \<Rightarrow> compression \<Rightarrow> u64 \<Rightarrow> bytes \<Rightarrow> bool" where
  "segment_there h f seg ty cmp ulen p \<longleftrightarrow> (\<exists>pre n post.
     f = pre @ segment_header_encode (segment_header_new h ty (sr_segment_id seg) n cmp ulen p) @ p @ post \<and>
     seg = \<lparr>sr_segment_id = sr_segment_id seg, sr_offset = of_nat (length pre),
       sr_length = of_nat SEGMENT_HEADER_SIZE + of_nat (length p), sr_checksum = h p\<rparr>)"

lemma segment_there_append:
  "segment_there h f seg ty cmp ulen p \<Longrightarrow> segment_there h (f @ g) seg ty cmp ulen p"
  unfolding segment_there_def by (metis append_assoc)

lemma read_zstd_payload_ref_there:
  assumes h: "digest32 h" and there: "segment_there h F seg Payload Zstd ulen p"
    and fit: "fits (length F)" and body: "unz p = Some body" "unat ulen = length body"
    and pref: "pr_segment_id pref = sr_segment_id seg"
    and le: "unat (pr_bytes_offset pref) + unat (pr_bytes_length pref) \<le> length body"
  shows "read_payload_ref h unz F seg pref verified =
    Inr (slice (unat (pr_bytes_offset pref)) (unat (pr_bytes_length pref)) body,
         if h p = replicate 32 0 then verified else insert (sr_segment_id seg) verified)"
proof -
  let ?o = "pr_bytes_offset pref" and ?l = "pr_bytes_length pref" and ?sid = "sr_segment_id seg"
  obtain f n g where F0: "F = f @ segment_header_encode (segment_header_new h Payload ?sid n Zstd ulen p) @ p @ g"
    and seg: "seg = \<lparr>sr_segment_id = ?sid, sr_offset = of_nat (length f),
       sr_length = of_nat SEGMENT_HEADER_SIZE + of_nat (length p), sr_checksum = h p\<rparr>"
    using there unfolding segment_there_def by blast
  define s where "s = segment_header_new h Payload ?sid n Zstd ulen p"
  note F = F0 [folded s_def]
  have wf: "segment_header_wf s" and val: "segment_validate_header s = Inr ()"
    by (simp_all add: s_def h segment_validate_header_def)
  have len: "length F = length f + SEGMENT_HEADER_SIZE + length p + length g"
    by (simp add: F wf)
  have fits: "fits (length f)" "fits (length p)" "fits (length f + SEGMENT_HEADER_SIZE + length p)"
    using fit by (auto simp: fits_def len)
  have 76: "unat (of_nat SEGMENT_HEADER_SIZE :: u64) = SEGMENT_HEADER_SIZE"
    by (simp add: SEGMENT_HEADER_SIZE_def)
  have rt: "segment_header_decode (segment_header_encode s) = Inr s"
    by (rule segment_header_roundtrip [OF wf _ val]) (simp add: s_def)
  have sel: "sh_segment_id s = ?sid" "sh_payload_checksum s = h p" "sh_segment_type s = Payload"
    "sh_payload_length s = of_nat (length p)" "sh_compression s = Zstd" "sh_uncompressed_length s = ulen"
    by (simp_all add: s_def)
  have sg: "sr_offset seg = of_nat (length f)" "sr_checksum seg = h p"
    "sr_length seg = of_nat SEGMENT_HEADER_SIZE + of_nat (length p)"
    by (subst seg, simp)+
  have r1: "read_exact_at (length f) SEGMENT_HEADER_SIZE F = Inr (segment_header_encode s)"
    unfolding F by (rule read_at_end) (simp add: wf)
  have r2: "read_exact_at (length f + SEGMENT_HEADER_SIZE) (length p) F = Inr p"
    using read_at_end [of "length p" p "f @ segment_header_encode s" g] by (simp add: wf F)
  have c1: "checked_sub (of_nat SEGMENT_HEADER_SIZE + of_nat (length p)) (of_nat SEGMENT_HEADER_SIZE) =
      Some (of_nat (length p) :: u64)"
    using fits_u64 [OF fits_mono [OF fits(3)], of "SEGMENT_HEADER_SIZE + length p"]
    by (simp add: checked_sub_def word_le_nat_alt 76)
  let ?e = "of_nat (length f + SEGMENT_HEADER_SIZE + length p) :: u64"
  have e: "unat ?e = length f + SEGMENT_HEADER_SIZE + length p" by (rule fits_u64 [OF fits(3)])
  have c2: "Option.bind (checked_add (of_nat (length f)) (of_nat SEGMENT_HEADER_SIZE))
      (\<lambda>v. checked_add v (of_nat (length p))) = Some ?e"
  proof -
    have "fits (length f + SEGMENT_HEADER_SIZE)" using fits(3) by (rule fits_mono) simp
    then have "unat (of_nat (length f + SEGMENT_HEADER_SIZE) :: u64) = length f + SEGMENT_HEADER_SIZE"
      by (rule fits_u64)
    moreover have "length f + SEGMENT_HEADER_SIZE + length p < 2 ^ 64"
      using fits(3) by (simp add: fits_def)
    ultimately show ?thesis using fits by (simp add: checked_add_def 76)
  qed
  have file_le: "\<not> length F < unat ?e" unfolding e len by simp
  let ?fin = "?o + ?l"
  have no_ovf: "unat ?o + unat ?l < 2 ^ 64"
    using le body(2) unsigned_less [where ?'a = nat, of ulen] by simp
  have c3: "checked_add ?o ?l = Some ?fin" and ref_end: "unat ?fin = unat ?o + unat ?l"
    using no_ovf by (simp_all add: checked_add_def unat_word_ariths)
  have within: "\<not> ulen < ?fin" using le body(2) by (simp add: word_less_nat_alt ref_end)
  have "read_payload_ref h unz F seg pref verified =
      rbind (verify_payload_wire_bytes h ?sid (h p) p verified) (\<lambda>verified'.
        Inr (slice (unat ?o) (unat ?l) body, verified'))"
    unfolding read_payload_ref_def sg
    using fits file_le within body
    by (simp only: r1 r2 rt sel pref c1 c2 c3 ensure_decodable_def fits_u64
        rbind_simps ok_or_simps simp_thms if_False if_True if_cancel compression.simps compression.distinct)
  then show ?thesis
    by (auto simp: verify_payload_wire_bytes_def)
qed

lemma read_typed_there:
  assumes h: "digest32 h" and there: "segment_there h F seg ty CNone (of_nat (length p)) p"
    and fit: "fits (length F)"
  shows "read_segment_payload_typed h unz F seg ty = Inr p"
proof -
  obtain f n g where F: "F = f @ segment_header_encode (segment_header_new h ty (sr_segment_id seg) n CNone
        (of_nat (length p)) p) @ p @ g"
    and seg: "seg = \<lparr>sr_segment_id = sr_segment_id seg, sr_offset = of_nat (length f),
       sr_length = of_nat SEGMENT_HEADER_SIZE + of_nat (length p), sr_checksum = h p\<rparr>"
    using there unfolding segment_there_def by blast
  have "fits (length f)" "fits (length p)" using fit by (auto simp: fits_def F)
  then show ?thesis
    unfolding read_segment_payload_typed_def F
    by (subst read_segment_there [OF h refl _ _ seg]) auto
qed

text \<open>The memory map is a prefix of the file: where it covers the segment, it has its payload.\<close>
lemma mapped_there:
  assumes h: "digest32 h" and there: "segment_there h F seg ty CNone (of_nat (length p)) p"
    and fit: "fits (length F)" and cov: "unat (sr_offset seg + sr_length seg) \<le> length (take k F)"
  shows "mmap_segment_payload (take k F) seg ty = Inr p"
proof -
  obtain f n g where F0: "F = f @ segment_header_encode (segment_header_new h ty (sr_segment_id seg) n CNone
        (of_nat (length p)) p) @ p @ g"
    and seg: "seg = \<lparr>sr_segment_id = sr_segment_id seg, sr_offset = of_nat (length f),
       sr_length = of_nat SEGMENT_HEADER_SIZE + of_nat (length p), sr_checksum = h p\<rparr>"
    using there unfolding segment_there_def by blast
  define s where "s = segment_header_new h ty (sr_segment_id seg) n CNone (of_nat (length p)) p"
  note F = F0 [folded s_def]
  have wf: "segment_header_wf s" and val: "segment_validate_header s = Inr ()"
    by (simp_all add: s_def h segment_validate_header_def)
  have rt: "segment_header_decode (segment_header_encode s) = Inr s"
    by (rule segment_header_roundtrip [OF wf _ val]) (simp add: s_def)
  have len: "length F = length f + (SEGMENT_HEADER_SIZE + length p) + length g"
    by (simp add: F wf)
  have fits: "fits (length f)" "fits (SEGMENT_HEADER_SIZE + length p)"
      "fits (length f + (SEGMENT_HEADER_SIZE + length p))"
    using fit by (auto simp: fits_def len)
  have sg: "sr_offset seg = of_nat (length f)" "sr_checksum seg = h p"
    "sr_length seg = of_nat (SEGMENT_HEADER_SIZE + length p)"
    by (subst seg, simp)+
  have o: "unat (of_nat (length f) :: u64) = length f"
    and l: "unat (of_nat (SEGMENT_HEADER_SIZE + length p) :: u64) = SEGMENT_HEADER_SIZE + length p"
    using fits by (blast intro: fits_u64)+
  have stop: "unat (sr_offset seg + sr_length seg) = length f + (SEGMENT_HEADER_SIZE + length p)"
    unfolding sg of_nat_add [symmetric] by (rule fits_u64 [OF fits(3)])
  have ca: "checked_add (sr_offset seg) (sr_length seg) = Some (sr_offset seg + sr_length seg)"
    using fits(3) unfolding checked_add_def sg o l by (simp add: fits_def)
  have sl: "slice (unat (sr_offset seg)) (unat (sr_length seg)) (take k F) = segment_header_encode s @ p"
  proof -
    have "slice (unat (sr_offset seg)) (unat (sr_length seg)) (take k F) =
        slice (length f) (SEGMENT_HEADER_SIZE + length p) F"
      unfolding sg o l using cov[unfolded stop] by (intro slice_take) simp
    then show ?thesis by (simp add: F slice_def wf)
  qed
  have pl: "(of_nat (length p) :: u64) \<noteq> sh_payload_length s \<longleftrightarrow> False" by (simp add: s_def)
  have sel: "sh_segment_id s = sr_segment_id seg" "sh_payload_checksum s = h p" "sh_segment_type s = ty"
    by (simp_all add: s_def)
  have tk: "take SEGMENT_HEADER_SIZE (segment_header_encode s @ p) = segment_header_encode s"
    "drop SEGMENT_HEADER_SIZE (segment_header_encode s @ p) = p" by (simp_all add: wf)
  have ul: "\<not> unat (sr_length seg) < SEGMENT_HEADER_SIZE" unfolding sg l by simp
  have cv: "\<not> length (take k F) < unat (sr_offset seg + sr_length seg)" using cov unfolding not_less .
  show ?thesis
    unfolding mmap_segment_payload_def ca
    using ul cv by (simp only: rbind_simps ok_or_simps if_False Let_def sl tk rt sel sg(2) pl simp_thms)
qed

lemma mapped_or_read_there:
  assumes "digest32 (en_hash en)" and "segment_there (en_hash en) (vf_file s) seg ty CNone (of_nat (length p)) p"
    and "fits (length (vf_file s))"
  shows "mapped_or_read en s seg ty = Inr p"
  using read_typed_there [OF assms] mapped_there [OF assms]
  by (auto simp: mapped_or_read_def mmap_covers_def file_mmap_def split: option.splits if_splits)

section \<open>The abstract store and the invariant\<close>

text \<open>The payload and the URI of every frame.\<close>
type_synonym store = "u64 \<rightharpoonup> bytes \<times> bytes option"

definition in_buf :: "bytes \<Rightarrow> u64 \<Rightarrow> u64 \<Rightarrow> bytes \<Rightarrow> bool" where
  "in_buf buf off len b \<longleftrightarrow>
     unat off + unat len \<le> length buf \<and> slice (unat off) (unat len) buf = b"

definition payload_stored ::
  "env \<Rightarrow> storage \<Rightarrow> segment_registry \<Rightarrow> payload_ref option \<Rightarrow> bytes \<Rightarrow> bool" where
  "payload_stored en f reg ref b \<longleftrightarrow> (\<exists>pref seg e ulen p body. ref = Some pref \<and>
     rg_by_id reg (pr_segment_id pref) = Some seg \<and> sr_segment_id seg = pr_segment_id pref \<and>
     lookup_by se_segment_id (pr_segment_id pref) (rg_catalog reg) = Some e \<and> se_compression e = Zstd \<and>
     segment_there (en_hash en) f seg Payload Zstd ulen p \<and> en_zstd_decode en p = Some body \<and>
     unat ulen = length body \<and> in_buf body (pr_bytes_offset pref) (pr_bytes_length pref) b)"

definition uri_stored ::
  "env \<Rightarrow> storage \<Rightarrow> segment_registry \<Rightarrow> metadata_ref option \<Rightarrow> bytes \<Rightarrow> bool" where
  "uri_stored en f reg ref b \<longleftrightarrow> (\<exists>mref seg p. ref = Some mref \<and>
     rg_by_id reg (md_segment_id mref) = Some seg \<and>
     segment_there (en_hash en) f seg Metadata CNone (of_nat (length p)) p \<and>
     in_buf p (md_bytes_offset mref) (md_bytes_length mref) b \<and> md_checksum mref = en_hash en b)"

definition payload_held :: "env \<Rightarrow> vfile \<Rightarrow> frame_desc \<Rightarrow> bytes \<Rightarrow> bool" where
  "payload_held en s x b \<longleftrightarrow>
     (case vf_pending_payload_by_frame s (fd_frame_id x) of
        Some i \<Rightarrow> in_buf (vf_pending_payload_buf s) (pp_bytes_offset (vf_pending_payload_frames s ! i))
                    (pp_bytes_length (vf_pending_payload_frames s ! i)) b
      | None \<Rightarrow> payload_stored en (vf_file s) (vf_segment_registry s) (fd_payload_ref x) b)"

definition uri_held :: "env \<Rightarrow> vfile \<Rightarrow> frame_desc \<Rightarrow> bytes option \<Rightarrow> bool" where
  "uri_held en s x u \<longleftrightarrow>
     (if fd_frame_id x \<in> pu_frame_id ` set (vf_pending_uris s)
      then fd_uri_ref x = None \<and> (\<exists>b. u = Some b \<and> (\<exists>p\<in>set (vf_pending_uris s).
        pu_frame_id p = fd_frame_id x \<and>
        in_buf (vf_pending_uri_buf s) (pu_bytes_offset p) (pu_bytes_length p) b))
      else case u of None \<Rightarrow> fd_uri_ref x = None
        | Some b \<Rightarrow> uri_stored en (vf_file s) (vf_segment_registry s) (fd_uri_ref x) b)"

abbreviation live_names :: "collection_desc list \<Rightarrow> string list" where
  "live_names cs \<equiv> map col_name (filter (\<lambda>c. col_flags c AND 1 = 0) cs)"

text \<open>Tables, registry and counters.\<close>
definition registry_below :: "segment_registry \<Rightarrow> id_allocator \<Rightarrow> bool" where
  "registry_below reg a \<longleftrightarrow> registry_ok reg \<and>
     (\<forall>e\<in>set (rg_catalog reg). unat (se_segment_id e) < unat (next_segment_id a))"

definition catalog_below :: "catalog_snapshot \<Rightarrow> id_allocator \<Rightarrow> bool" where
  "catalog_below c a \<longleftrightarrow> catalog_ok c \<and>
     (\<forall>x\<in>set (cs_frames c). unat (fd_frame_id x) < unat (next_frame_id a)) \<and>
     (\<forall>x\<in>set (cs_frame_stubs c). unat (st_frame_id x) < unat (next_frame_id a)) \<and>
     (\<forall>x\<in>set (cs_collections c). unat (col_collection_id x) < unat (next_collection_id a)) \<and>
     0 < unat (next_collection_id a) \<and> distinct (live_names (cs_collections c))"

definition handle_inv :: "vfile \<Rightarrow> bool" where
  "handle_inv s \<longleftrightarrow> vf_mode s = ReadWrite \<and> rg_loaded (vf_segment_registry s) \<and>
     registry_below (vf_segment_registry s) (vf_id_allocator s) \<and>
     catalog_below (vf_catalog s) (vf_id_allocator s) \<and>
     vf_tombstoned_frame_count s =
       length (filter (\<lambda>x. st_status x = Frame_tombstoned) (cs_frame_stubs (vf_catalog s)))"

definition frame_ids :: "vfile \<Rightarrow> u64 set" where
  "frame_ids s = fd_frame_id ` set (cs_frames (vf_catalog s))"

definition buffers_inv :: "vfile \<Rightarrow> bool" where
  "buffers_inv s \<longleftrightarrow>
     (\<forall>k i. vf_pending_payload_by_frame s k = Some i \<longleftrightarrow>
        i < length (vf_pending_payload_frames s) \<and> pp_frame_id (vf_pending_payload_frames s ! i) = k) \<and>
     pp_frame_id ` set (vf_pending_payload_frames s) \<subseteq> frame_ids s \<and>
     distinct (map pu_frame_id (vf_pending_uris s)) \<and>
     pu_frame_id ` set (vf_pending_uris s) \<subseteq> pp_frame_id ` set (vf_pending_payload_frames s) \<and>
     fits (length (vf_pending_payload_buf s)) \<and> fits (length (vf_pending_uri_buf s)) \<and>
     (\<forall>u\<in>set (vf_pending_uris s).
        unat (pu_bytes_offset u) + unat (pu_bytes_length u) \<le> length (vf_pending_uri_buf s))"

definition store_inv :: "env \<Rightarrow> vfile \<Rightarrow> store \<Rightarrow> bool" where
  "store_inv en s M \<longleftrightarrow> handle_inv s \<and> buffers_inv s \<and> dom M = frame_ids s \<and>
     (\<forall>x\<in>set (cs_frames (vf_catalog s)). fd_payload_encoding x = Enc_raw \<and>
        (\<forall>b u. M (fd_frame_id x) = Some (b, u) \<longrightarrow> payload_held en s x b \<and> uri_held en s x u))"

text \<open>What is asked of the hash and of zstd.\<close>
definition env_ok :: "env \<Rightarrow> bool" where
  "env_ok en \<longleftrightarrow> digest32 (en_hash en) \<and>
     (\<forall>b c. en_zstd_encode en b = Some c \<longrightarrow> en_zstd_decode en c = Some b)"

section \<open>Growth of the file and of the registry\<close>

definition registry_ext :: "segment_registry \<Rightarrow> segment_registry \<Rightarrow> bool" where
  "registry_ext reg reg' \<longleftrightarrow>
     (\<forall>k r. rg_by_id reg k = Some r \<longrightarrow> rg_by_id reg' k = Some r) \<and>
     (\<forall>k e. lookup_by se_segment_id k (rg_catalog reg) = Some e \<longrightarrow>
        lookup_by se_segment_id k (rg_catalog reg') = Some e)"

lemma registry_ext_refl [simp]: "registry_ext reg reg"
  by (simp add: registry_ext_def)

lemma registry_ext_trans: "registry_ext a b \<Longrightarrow> registry_ext b c \<Longrightarrow> registry_ext a c"
  by (simp add: registry_ext_def)

lemma payload_stored_ext:
  "payload_stored en f reg ref b \<Longrightarrow> registry_ext reg reg' \<Longrightarrow> payload_stored en (f @ g) reg' ref b"
  unfolding payload_stored_def registry_ext_def
  by (elim exE conjE) (intro exI conjI, assumption, (auto intro: segment_there_append))

lemma uri_stored_ext:
  "uri_stored en f reg ref b \<Longrightarrow> registry_ext reg reg' \<Longrightarrow> uri_stored en (f @ g) reg' ref b"
  unfolding uri_stored_def registry_ext_def
  by (elim exE conjE) (intro exI conjI, assumption, (auto intro: segment_there_append))

text \<open>A newly allocated segment extends the registry.\<close>
lemma register_new_segment:
  assumes "registry_below reg a" and "allocate_segment_id a = Inr (sid, a')" and "se_segment_id e = sid"
    and "register_segment (reg, dirty) e = (reg', dirty')"
  shows "registry_below reg' a'" and "registry_ext reg reg'"
    and "rg_by_id reg' sid = Some (se_root e)"
    and "lookup_by se_segment_id sid (rg_catalog reg') = Some e" and "rg_loaded reg' = rg_loaded reg"
proof -
  have sid: "unat sid = unat (next_segment_id a)" "unat (next_segment_id a') = Suc (unat sid)"
    using segment_ids.alloc_Inr [OF assms(2)] by auto
  have ok: "registry_ok reg" and lt: "\<forall>x\<in>set (rg_catalog reg). unat (se_segment_id x) < unat sid"
    using assms(1) sid by (auto simp: registry_below_def)
  have srt: "strict_by se_segment_id (rg_catalog reg)" using ok by (simp add: registry_ok_def)
  have reg': "reg' = fst (register_segment (reg, dirty) e)" using assms(4) by simp
  have cat': "rg_catalog reg' = upsert se_segment_id e (rg_catalog reg)"
    and by_id: "rg_by_id reg' = (rg_by_id reg)(sid \<mapsto> se_root e)"
    and "rg_loaded reg' = rg_loaded reg"
    by (simp_all add: reg' register_segment_def assms(3))
  have new: "lookup_by se_segment_id sid (rg_catalog reg) = None"
    using lt by (auto simp: lookup_by_table_map srt table_map_def map_of_eq_None_iff image_image)
  show "registry_below reg' a'"
    using register_segment_ok(1) [OF ok, of dirty e] lt sid set_upsert_subset [OF srt, of e]
    by (auto simp: registry_below_def reg' [symmetric] cat' assms(3) less_Suc_eq)
  have "rg_by_id reg sid = None" using ok new by (simp add: registry_ok_def)
  then show "registry_ext reg reg'"
    using new by (auto simp: registry_ext_def by_id cat' lookup_by_upsert srt assms(3))
  show "rg_by_id reg' sid = Some (se_root e)" by (simp add: by_id)
  show "lookup_by se_segment_id sid (rg_catalog reg') = Some e"
    by (simp add: cat' lookup_by_upsert srt assms(3))
  show "rg_loaded reg' = rg_loaded reg" by fact
qed

text \<open>A state that only grew in file, registry and ids satisfies the invariant of the old one.\<close>
definition grown :: "vfile \<Rightarrow> vfile \<Rightarrow> bool" where
  "grown s s' \<longleftrightarrow> (\<exists>g. vf_file s' = vf_file s @ g) \<and>
     registry_ext (vf_segment_registry s) (vf_segment_registry s') \<and>
     rg_loaded (vf_segment_registry s') = rg_loaded (vf_segment_registry s) \<and>
     registry_below (vf_segment_registry s') (vf_id_allocator s') \<and>
     next_frame_id (vf_id_allocator s') = next_frame_id (vf_id_allocator s) \<and>
     next_collection_id (vf_id_allocator s') = next_collection_id (vf_id_allocator s) \<and>
     vf_mode s' = vf_mode s \<and> vf_catalog s' = vf_catalog s \<and>
     vf_tombstoned_frame_count s' = vf_tombstoned_frame_count s \<and>
     vf_pending_payload_buf s' = vf_pending_payload_buf s \<and>
     vf_pending_payload_frames s' = vf_pending_payload_frames s \<and>
     vf_pending_payload_by_frame s' = vf_pending_payload_by_frame s \<and>
     vf_pending_uri_buf s' = vf_pending_uri_buf s"

lemma payload_held_grown: "payload_held en s x b \<Longrightarrow> grown s s' \<Longrightarrow> payload_held en s' x b"
  by (auto simp: payload_held_def grown_def split: option.splits intro: payload_stored_ext)

lemma uri_held_grown:
  "uri_held en s x u \<Longrightarrow> grown s s' \<Longrightarrow> vf_pending_uris s' = vf_pending_uris s \<Longrightarrow> uri_held en s' x u"
  by (auto simp: uri_held_def grown_def split: option.splits if_splits intro: uri_stored_ext)

lemma handle_inv_grown: "handle_inv s \<Longrightarrow> grown s s' \<Longrightarrow> handle_inv s'"
  by (simp add: handle_inv_def grown_def catalog_below_def)

lemma store_inv_grown:
  assumes "store_inv en s M" and "grown s s'" and "vf_pending_uris s' = vf_pending_uris s"
  shows "store_inv en s' M"
proof -
  have "vf_catalog s' = vf_catalog s" using assms(2) by (simp add: grown_def)
  moreover have "buffers_inv s'"
    using assms by (simp add: store_inv_def buffers_inv_def grown_def frame_ids_def)
  ultimately show ?thesis
    using assms handle_inv_grown [of s s']
    by (auto simp: store_inv_def frame_ids_def intro: payload_held_grown [OF _ assms(2)] uri_held_grown [OF _ assms(2,3)])
qed


section \<open>Flushing the buffers\<close>

lemma append_compressed_eq:
  assumes "cmp \<noteq> CNone"
  shows "append_compressed_segment_at_end h f sid ty n c ulen cmp =
    Inr (\<lparr>sr_segment_id = sid, sr_offset = of_nat (length f),
          sr_length = of_nat SEGMENT_HEADER_SIZE + of_nat (length c), sr_checksum = h c\<rparr>,
         f @ segment_header_encode (segment_header_new h ty sid n cmp ulen c) @ c)"
proof -
  let ?hdr = "segment_header_encode (segment_header_new h ty sid n cmp ulen c)"
  have "write_all_at (length f + length ?hdr) c (f @ ?hdr) = (f @ ?hdr) @ c"
    using write_all_at_end [of "f @ ?hdr" c] by simp
  then show ?thesis
    using assms by (simp add: append_compressed_segment_at_end_def Let_def)
qed

lemma allocated_segment_below:
  "allocate_segment_id a = Inr (sid, a') \<Longrightarrow> registry_below reg a \<Longrightarrow> registry_below reg a'"
  using segment_ids.alloc_Inr [of a sid a'] by (force simp: registry_below_def)

lemma allocate_segment_id_others:
  "allocate_segment_id a = Inr (sid, a') \<Longrightarrow>
   next_frame_id a' = next_frame_id a \<and> next_collection_id a' = next_collection_id a"
  by (auto simp: allocate_segment_id_def rbind_Inr_iff)

lemma grown_refl: "handle_inv s \<Longrightarrow> grown s s"
  by (auto simp: grown_def handle_inv_def)

text \<open>Whatever it returns, writing the batch leaves the store as it was.\<close>
lemma write_payload_batch_grown:
  assumes inv: "handle_inv s" and w: "write_payload_batch en s = Some (r, s')"
  shows "grown s s' \<and> vf_pending_uris s' = vf_pending_uris s"
proof (cases "allocate_segment_id (vf_id_allocator s)")
  case (Inl e)
  then show ?thesis
    using w grown_refl [OF inv] by (auto simp: write_payload_batch_def oalloc_def obind_def)
next
  case (Inr p)
  then obtain sid a where al: "allocate_segment_id (vf_id_allocator s) = Inr (sid, a)" by (cases p) auto
  have below: "registry_below (vf_segment_registry s) (vf_id_allocator s)"
    and ld: "rg_loaded (vf_segment_registry s)"
    using inv by (auto simp: handle_inv_def)
  note facts = below ld allocated_segment_below [OF al below] allocate_segment_id_others [OF al]
  have s1: "grown s (s\<lparr>vf_id_allocator := a\<rparr>)" using facts by (simp add: grown_def)
  show ?thesis
  proof (cases "u32_try_from (length (vf_pending_payload_frames s))")
    case None
    then show ?thesis
      using w s1 by (auto simp: write_payload_batch_def oalloc_def obind_def al olift_def)
  next
    case (Some n)
    show ?thesis
    proof (cases "en_zstd_encode en (vf_pending_payload_buf s)")
      case None
      then show ?thesis
        using w s1 Some by (auto simp: write_payload_batch_def oalloc_def obind_def al olift_def)
    next
      case c: (Some c)
      let ?seg = "\<lparr>sr_segment_id = sid, sr_offset = of_nat (length (vf_file s)),
          sr_length = of_nat SEGMENT_HEADER_SIZE + of_nat (length c), sr_checksum = en_hash en c\<rparr>"
      let ?f = "vf_file s @ segment_header_encode (segment_header_new (en_hash en) Payload sid n Zstd
          (of_nat (length (vf_pending_payload_buf s))) c) @ c"
      let ?entry = "compressed_segment_catalog_entry (en_hash en) sid Payload n c
          (of_nat (length (vf_pending_payload_buf s))) Zstd ?seg"
      show ?thesis
      proof (cases ?entry)
        case (Inl e)
        then show ?thesis
          using w facts Some c
          by (auto simp: write_payload_batch_def oalloc_def obind_def al olift_def append_compressed_eq grown_def)
      next
        case (Inr e)
        have e: "se_segment_id e = sid"
          using Inr by (auto simp: compressed_segment_catalog_entry_def Let_def result_Inr_iff split: if_splits)
        obtain reg' d' where rs: "register_segment (vf_segment_registry s, vf_dirty_segment_ids s) e = (reg', d')"
          by fastforce
        show ?thesis
          using w facts Some c Inr register_new_segment [OF below al e rs]
          by (auto simp: write_payload_batch_def oalloc_def obind_def al olift_def append_compressed_eq
              oregister_def omodify_def oreturn_def rs grown_def)
      qed
    qed
  qed
qed

text \<open>The segment that holds the whole buffer.\<close>
definition batch_in :: "env \<Rightarrow> vfile \<Rightarrow> segment_id \<Rightarrow> bytes \<Rightarrow> bool" where
  "batch_in en s sid buf \<longleftrightarrow> (\<forall>off len b. in_buf buf off len b \<longrightarrow>
     payload_stored en (vf_file s) (vf_segment_registry s)
       (Some \<lparr>pr_segment_id = sid, pr_bytes_offset = off, pr_bytes_length = len\<rparr>) b)"

lemma write_payload_batch_Inr:
  assumes env: "env_ok en" and inv: "handle_inv s" and fit: "fits (length (vf_pending_payload_buf s))"
    and w: "write_payload_batch en s = Some (Inr sid, s')"
  shows "batch_in en s' sid (vf_pending_payload_buf s)"
proof -
  let ?buf = "vf_pending_payload_buf s"
  obtain a n c f' seg e where al: "allocate_segment_id (vf_id_allocator s) = Inr (sid, a)"
    and c: "en_zstd_encode en ?buf = Some c"
    and app: "append_compressed_segment_at_end (en_hash en) (vf_file s) sid Payload n c
        (of_nat (length ?buf)) Zstd = Inr (seg, f')"
    and e: "compressed_segment_catalog_entry (en_hash en) sid Payload n c (of_nat (length ?buf)) Zstd seg = Inr e"
    and s': "Some (Inr (), s') = oregister e (s\<lparr>vf_id_allocator := a, vf_file := f'\<rparr>)"
    using w
    by (auto simp: write_payload_batch_def obind_Inr_iff oalloc_def ogets_def omodify_def oreturn_def
        split: sum.splits)
  have seg: "seg = \<lparr>sr_segment_id = sid, sr_offset = of_nat (length (vf_file s)),
          sr_length = of_nat SEGMENT_HEADER_SIZE + of_nat (length c), sr_checksum = en_hash en c\<rparr>"
    and f': "f' = vf_file s @ segment_header_encode (segment_header_new (en_hash en) Payload sid n Zstd
          (of_nat (length ?buf)) c) @ c"
    using app by (auto simp: append_compressed_eq)
  have es: "se_segment_id e = sid" "se_root e = seg" "se_compression e = Zstd"
    using e by (auto simp: compressed_segment_catalog_entry_def Let_def result_Inr_iff split: if_splits)
  obtain reg' d' where rs: "register_segment (vf_segment_registry s, vf_dirty_segment_ids s) e = (reg', d')"
    by fastforce
  have below: "registry_below (vf_segment_registry s) (vf_id_allocator s)" using inv by (simp add: handle_inv_def)
  note new = register_new_segment [OF below al es(1) rs]
  have fin: "vf_file s' = f'" "vf_segment_registry s' = reg'"
    using s' by (auto simp: oregister_def omodify_def rs)
  have dec: "en_zstd_decode en c = Some ?buf" using env c by (simp add: env_ok_def)
  have len: "unat (of_nat (length ?buf) :: u64) = length ?buf" by (rule fits_u64 [OF fit])
  have "segment_there (en_hash en) f' seg Payload Zstd (of_nat (length ?buf)) c"
    unfolding segment_there_def f' seg by (intro exI [of _ "vf_file s"] exI [of _ n] exI [of _ "[]"]) simp
  then show ?thesis
    using new dec len es
    by (auto simp: batch_in_def payload_stored_def fin seg)
qed


lemma foldl_update_absent:
  "k \<notin> key ` set xs \<Longrightarrow> foldl (\<lambda>m x. m(key x \<mapsto> val x)) m0 xs k = m0 k"
  by (induction xs arbitrary: m0) auto

lemma foldl_update_present:
  "distinct (map key xs) \<Longrightarrow> x \<in> set xs \<Longrightarrow>
   foldl (\<lambda>m x. m(key x \<mapsto> val x)) m0 xs (key x) = Some (val x)"
  by (induction xs arbitrary: m0) (auto simp: foldl_update_absent)

definition uri_ref_of :: "env \<Rightarrow> segment_id \<Rightarrow> bytes \<Rightarrow> pending_uri \<Rightarrow> metadata_ref" where
  "uri_ref_of en sid buf u =
     \<lparr>md_segment_id = sid, md_bytes_offset = pu_bytes_offset u, md_bytes_length = pu_bytes_length u,
      md_checksum = en_hash en (slice (unat (pu_bytes_offset u)) (unat (pu_bytes_length u)) buf)\<rparr>"

lemma index_range_in:
  assumes "unat off + unat len \<le> length buf" and "fits (length buf)"
  shows "index_range buf off len = Inr (slice (unat off) (unat len) buf)"
proof -
  have "unat off + unat len < 2 ^ 64" using assms by (simp add: fits_def)
  then have "unat (off + len) = unat off + unat len" by (simp add: unat_word_ariths)
  then show ?thesis using assms(1) by (simp add: index_range_def Let_def word_less_nat_alt)
qed

lemma resolve_uris_eq:
  assumes "\<forall>u\<in>set us. unat (pu_bytes_offset u) + unat (pu_bytes_length u) \<le> length (vf_pending_uri_buf s)"
    and "fits (length (vf_pending_uri_buf s))"
  shows "resolve_uris en sid us m s =
    Some (Inr (foldl (\<lambda>m u. m(pu_frame_id u \<mapsto> uri_ref_of en sid (vf_pending_uri_buf s) u)) m us),
          s\<lparr>vf_dirty_frame_ids := vf_dirty_frame_ids s \<union> pu_frame_id ` set us\<rparr>)"
  using assms
proof (induction us arbitrary: m s)
  case Nil
  then show ?case by simp
next
  case (Cons u us)
  let ?s = "s\<lparr>vf_dirty_frame_ids := insert (pu_frame_id u) (vf_dirty_frame_ids s)\<rparr>"
  have ir: "index_range (vf_pending_uri_buf s) (pu_bytes_offset u) (pu_bytes_length u) =
      Inr (slice (unat (pu_bytes_offset u)) (unat (pu_bytes_length u)) (vf_pending_uri_buf s))"
    using Cons.prems by (intro index_range_in) auto
  have "resolve_uris en sid (u # us) m s =
      resolve_uris en sid us (m(pu_frame_id u \<mapsto> uri_ref_of en sid (vf_pending_uri_buf s) u)) ?s"
    by (simp add: ir uri_ref_of_def)
  moreover have "insert (pu_frame_id u) (vf_dirty_frame_ids s) \<union> pu_frame_id ` set us =
      vf_dirty_frame_ids s \<union> pu_frame_id ` set (u # us)" by auto
  ultimately show ?case
    using Cons.IH [of ?s] Cons.prems by simp
qed

lemma length_write_mono: "length f \<le> length (write_all_at off bs f)"
  by (simp add: length_write_all_at)

lemma append_segment_length:
  "length f \<le> length (snd (append_segment_at_end h f sid ty n p))"
  unfolding append_segment_at_end_def Let_def snd_conv
  by (rule order_trans [OF length_write_mono length_write_mono])


text \<open>Each buffered URI is resolved to a reference that reads it, and no other frame is.\<close>
definition uris_resolved :: "env \<Rightarrow> vfile \<Rightarrow> vfile \<Rightarrow> (u64 \<rightharpoonup> metadata_ref) \<Rightarrow> bool" where
  "uris_resolved en s s' m \<longleftrightarrow>
     (\<forall>k. k \<notin> pu_frame_id ` set (vf_pending_uris s) \<longrightarrow> m k = None) \<and>
     (\<forall>u\<in>set (vf_pending_uris s). \<exists>mref. m (pu_frame_id u) = Some mref \<and>
        (\<forall>b. in_buf (vf_pending_uri_buf s) (pu_bytes_offset u) (pu_bytes_length u) b \<longrightarrow>
           uri_stored en (vf_file s') (vf_segment_registry s') (Some mref) b))"

definition uri_batch_post :: "env \<Rightarrow> vfile \<Rightarrow> (u64 \<rightharpoonup> metadata_ref) result \<Rightarrow> vfile \<Rightarrow> bool" where
  "uri_batch_post en s r s' \<longleftrightarrow> grown s s' \<and>
     (case r of Inl e \<Rightarrow> vf_pending_uris s' = vf_pending_uris s
      | Inr m \<Rightarrow> vf_pending_uris s' = [] \<and> uris_resolved en s s' m)"

lemma write_uri_batch_spec:
  assumes env: "env_ok en" and inv: "handle_inv s" and bufs: "buffers_inv s"
    and w: "write_uri_batch en s = Some (r, s')" and fit: "fits (length (vf_file s'))"
  shows "uri_batch_post en s r s'"
proof (cases "vf_pending_uris s = []")
  case True
  then show ?thesis
    using w grown_refl [OF inv]
    by (auto simp: write_uri_batch_def uri_batch_post_def uris_resolved_def)
next
  case False
  let ?uris = "vf_pending_uris s" and ?buf = "vf_pending_uri_buf s" and ?f = "vf_file s"
  have below: "registry_below (vf_segment_registry s) (vf_id_allocator s)"
    and ld: "rg_loaded (vf_segment_registry s)"
    using inv by (auto simp: handle_inv_def)
  have h: "digest32 (en_hash en)" using env by (simp add: env_ok_def)
  have fb: "fits (length ?buf)" and dist: "distinct (map pu_frame_id ?uris)"
    and rng: "\<forall>u\<in>set ?uris. unat (pu_bytes_offset u) + unat (pu_bytes_length u) \<le> length ?buf"
    using bufs by (auto simp: buffers_inv_def)
  show ?thesis
  proof (cases "allocate_segment_id (vf_id_allocator s)")
    case (Inl e)
    then show ?thesis
      using w False grown_refl [OF inv]
      by (auto simp: write_uri_batch_def uri_batch_post_def oalloc_def obind_def)
  next
    case (Inr p)
    then obtain sid a where al: "allocate_segment_id (vf_id_allocator s) = Inr (sid, a)" by (cases p) auto
    note facts = below ld allocated_segment_below [OF al below] allocate_segment_id_others [OF al]
    have s1: "grown s (s\<lparr>vf_id_allocator := a\<rparr>)" using facts by (simp add: grown_def)
    show ?thesis
    proof (cases "u32_try_from (length ?uris)")
      case None
      then show ?thesis
        using w s1 False by (auto simp: write_uri_batch_def uri_batch_post_def oalloc_def obind_def al olift_def)
    next
      case (Some n)
      obtain seg f' where app: "append_segment_at_end (en_hash en) ?f sid Metadata n ?buf = (seg, f')"
        by fastforce
      let ?entry = "catalog_entry_of (en_hash en) sid Metadata n ?buf seg"
      have file': "vf_file s' = f'"
      proof (cases ?entry)
        case (Inl e)
        then show ?thesis
          using w False Some by (auto simp: write_uri_batch_def oalloc_def obind_def al olift_def app)
      next
        case (Inr e)
        then show ?thesis
          using w False Some rng fb
          by (auto simp: write_uri_batch_def oalloc_def obind_def al olift_def app oregister_def omodify_def
              resolve_uris_eq split: prod.splits)
      qed
      have ff: "fits (length ?f)"
        using fit append_segment_length [of ?f "en_hash en" sid Metadata n ?buf]
        by (simp add: file' app fits_def)
      have seg: "seg = segment_ref_at_end (en_hash en) ?f sid Metadata n ?buf"
        and f': "f' = ?f @ segment_header_encode (segment_header_new (en_hash en) Metadata sid n CNone
            (of_nat (length ?buf)) ?buf) @ ?buf"
        using append_segment_at_end_eq [OF h ff, of sid Metadata n ?buf] app by auto
      show ?thesis
      proof (cases ?entry)
        case (Inl e)
        then show ?thesis
          using w facts Some False
          by (auto simp: write_uri_batch_def uri_batch_post_def oalloc_def obind_def al olift_def app grown_def f')
      next
        case (Inr e)
        have es: "se_segment_id e = sid" "se_root e = seg"
          using Inr by (auto simp: catalog_entry_of_def Let_def result_Inr_iff split: if_splits)
        obtain reg' d' where rs: "register_segment (vf_segment_registry s, vf_dirty_segment_ids s) e = (reg', d')"
          by fastforce
        note new = register_new_segment [OF below al es(1) rs]
        let ?m = "foldl (\<lambda>m u. m(pu_frame_id u \<mapsto> uri_ref_of en sid ?buf u)) Map.empty ?uris"
        have res: "r = Inr ?m" "s' = s\<lparr>vf_id_allocator := a, vf_file := f', vf_segment_registry := reg',
            vf_dirty_segment_ids := d', vf_pending_uris := [],
            vf_dirty_frame_ids := vf_dirty_frame_ids s \<union> pu_frame_id ` set ?uris\<rparr>"
          using w False Some Inr rng fb
          by (auto simp: write_uri_batch_def oalloc_def obind_def al olift_def app oregister_def omodify_def
              resolve_uris_eq rs)
        have there: "segment_there (en_hash en) f' seg Metadata CNone (of_nat (length ?buf)) ?buf"
          unfolding segment_there_def f' seg
          by (intro exI [of _ ?f] exI [of _ n] exI [of _ "[]"]) (simp add: segment_ref_at_end_def Let_def)
        have "uri_stored en f' reg' (Some (uri_ref_of en sid ?buf u)) b"
          if "in_buf ?buf (pu_bytes_offset u) (pu_bytes_length u) b" for u b
          using that there new(3) by (auto simp: uri_stored_def uri_ref_of_def es in_buf_def)
        then have "uris_resolved en s s' ?m"
          by (simp add: uris_resolved_def res foldl_update_absent foldl_update_present dist)
        moreover have "grown s s'"
          using facts new by (simp add: grown_def res f')
        ultimately show ?thesis by (simp add: uri_batch_post_def res)
      qed
    qed
  qed
qed


lemma attach_refs_sel [simp]:
  "fd_frame_id (attach_refs sid refs us x) = fd_frame_id x"
  "fd_status (attach_refs sid refs us x) = fd_status x"
  "fd_payload_encoding (attach_refs sid refs us x) = fd_payload_encoding x"
  "stub_of (attach_refs sid refs us x) = stub_of x"
  by (auto simp: attach_refs_def stub_of_def Let_def split: option.splits)

lemma attach_refs_refs:
  "fd_payload_ref (attach_refs sid refs us x) =
     (case refs (fd_frame_id x) of None \<Rightarrow> fd_payload_ref x
      | Some (off, len) \<Rightarrow> Some \<lparr>pr_segment_id = sid, pr_bytes_offset = off, pr_bytes_length = len\<rparr>)"
  "fd_uri_ref (attach_refs sid refs us x) =
     (case us (fd_frame_id x) of None \<Rightarrow> fd_uri_ref x | Some u \<Rightarrow> Some u)"
  by (auto simp: attach_refs_def Let_def split: option.splits)

lemma strict_by_map_same: "(\<And>x. key (g x) = key x) \<Longrightarrow> strict_by key (map g xs) = strict_by key xs"
  by (simp add: strict_by_def comp_def)

lemma catalog_below_attach:
  "catalog_below c a \<Longrightarrow> catalog_below (c\<lparr>cs_frames := map (attach_refs sid refs us) (cs_frames c)\<rparr>) a"
  by (auto simp: catalog_below_def catalog_ok_def strict_by_map_same image_image)

text \<open>Every pending frame is found once in the sorted frame table.\<close>
lemma matched_all:
  assumes "strict_by key xs" and "distinct ks" and "set ks \<subseteq> key ` set xs"
    and "\<And>k. refs k \<noteq> None \<longleftrightarrow> k \<in> set ks"
  shows "length (filter (\<lambda>x. refs (key x) \<noteq> None) xs) = length (remdups ks)"
proof -
  have d: "distinct (map key xs)" by (rule strict_by_distinct [OF assms(1)])
  have "length (filter (\<lambda>x. refs (key x) \<noteq> None) xs) = card {x \<in> set xs. key x \<in> set ks}"
    using d by (simp only: assms(4)) (simp add: distinct_length_filter distinct_map Int_def conj_commute)
  also have "\<dots> = card (key ` {x \<in> set xs. key x \<in> set ks})"
    using d by (intro card_image [symmetric]) (auto simp: distinct_map inj_on_def)
  also have "key ` {x \<in> set xs. key x \<in> set ks} = set ks" using assms(3) by auto
  finally show ?thesis using assms(2) by (simp add: distinct_card distinct_remdups_id)
qed

lemma pending_distinct:
  assumes "buffers_inv s" shows "distinct (map pp_frame_id (vf_pending_payload_frames s))"
proof -
  have *: "vf_pending_payload_by_frame s k = Some i \<longleftrightarrow>
      i < length (vf_pending_payload_frames s) \<and> pp_frame_id (vf_pending_payload_frames s ! i) = k" for k i
    using assms by (simp add: buffers_inv_def)
  show ?thesis
    unfolding distinct_conv_nth length_map
    by (intro allI impI) (metis * nth_map option.inject)
qed

lemma pending_index_cases:
  assumes "buffers_inv s"
  shows "vf_pending_payload_by_frame s k = None \<longleftrightarrow> k \<notin> pp_frame_id ` set (vf_pending_payload_frames s)"
    and "vf_pending_payload_by_frame s k = Some i \<Longrightarrow>
      i < length (vf_pending_payload_frames s) \<and> pp_frame_id (vf_pending_payload_frames s ! i) = k"
proof -
  have *: "vf_pending_payload_by_frame s k = Some i \<longleftrightarrow>
      i < length (vf_pending_payload_frames s) \<and> pp_frame_id (vf_pending_payload_frames s ! i) = k" for k i
    using assms by (simp add: buffers_inv_def)
  show "vf_pending_payload_by_frame s k = None \<longleftrightarrow> k \<notin> pp_frame_id ` set (vf_pending_payload_frames s)"
    by (auto simp: in_set_conv_nth) (metis * option.distinct(1), metis * not_None_eq nth_mem imageI)
  show "vf_pending_payload_by_frame s k = Some i \<Longrightarrow>
      i < length (vf_pending_payload_frames s) \<and> pp_frame_id (vf_pending_payload_frames s ! i) = k"
    by (simp add: *)
qed


lemma refs_by_frame_cases:
  assumes "distinct (map pp_frame_id ps)"
  shows "k \<notin> pp_frame_id ` set ps \<Longrightarrow> refs_by_frame ps k = None"
    and "p \<in> set ps \<Longrightarrow> refs_by_frame ps (pp_frame_id p) = Some (pp_bytes_offset p, pp_bytes_length p)"
  using foldl_update_present [OF assms, of p "\<lambda>p. (pp_bytes_offset p, pp_bytes_length p)"]
  by (simp_all add: refs_by_frame_def foldl_update_absent)

definition settled :: "segment_id \<Rightarrow> (u64 \<rightharpoonup> metadata_ref) \<Rightarrow> vfile \<Rightarrow> vfile" where
  "settled sid m s =
     s\<lparr>vf_pending_payload_frames := [],
       vf_dirty_frame_ids := vf_dirty_frame_ids s \<union> set (map pp_frame_id (vf_pending_payload_frames s)),
       vf_catalog := (vf_catalog s)\<lparr>cs_frames :=
         map (attach_refs sid (refs_by_frame (vf_pending_payload_frames s)) m) (cs_frames (vf_catalog s))\<rparr>,
       vf_pending_payload_buf := [], vf_pending_payload_by_frame := Map.empty, vf_pending_uri_buf := []\<rparr>"

lemma settle_pending_eq:
  assumes "buffers_inv s" and "catalog_below (vf_catalog s) a"
  shows "settle_pending sid m s = Some (Inr (), settled sid m s)"
proof -
  let ?ps = "vf_pending_payload_frames s"
  have d: "distinct (map pp_frame_id ?ps)" by (rule pending_distinct [OF assms(1)])
  have "length (filter (\<lambda>x. refs_by_frame ?ps (fd_frame_id x) \<noteq> None) (cs_frames (vf_catalog s))) =
      length (remdups (map pp_frame_id ?ps))"
  proof (rule matched_all [OF _ d])
    show "strict_by fd_frame_id (cs_frames (vf_catalog s))"
      using assms(2) by (simp add: catalog_below_def catalog_ok_def)
    show "set (map pp_frame_id ?ps) \<subseteq> fd_frame_id ` set (cs_frames (vf_catalog s))"
      using assms(1) by (simp add: buffers_inv_def frame_ids_def)
    show "refs_by_frame ?ps k \<noteq> None \<longleftrightarrow> k \<in> set (map pp_frame_id ?ps)" for k
      using refs_by_frame_cases [OF d] by (cases "k \<in> pp_frame_id ` set ?ps") auto
  qed
  then show ?thesis by (simp add: settle_pending_def settled_def Let_def)
qed

lemma settled_store:
  assumes inv: "store_inv en s1 M" and batch: "batch_in en s1 sid (vf_pending_payload_buf s1)"
    and uris: "uri_batch_post en s1 (Inr m) s2"
  shows "store_inv en (settled sid m s2) M"
proof -
  let ?s = "settled sid m s2" and ?ps = "vf_pending_payload_frames s1"
  have g: "grown s1 s2" and res: "uris_resolved en s1 s2 m" and none: "vf_pending_uris s2 = []"
    using uris by (simp_all add: uri_batch_post_def)
  have hi: "handle_inv s1" and bi: "buffers_inv s1" and dm: "dom M = frame_ids s1"
    using inv by (simp_all add: store_inv_def)
  have eqs: "vf_catalog s2 = vf_catalog s1" "vf_pending_payload_frames s2 = ?ps"
    "vf_pending_payload_buf s2 = vf_pending_payload_buf s1"
    using g by (simp_all add: grown_def)
  obtain tail where grow: "vf_file s2 = vf_file s1 @ tail"
    and reg: "registry_ext (vf_segment_registry s1) (vf_segment_registry s2)"
    using g by (auto simp: grown_def)
  have d: "distinct (map pp_frame_id ?ps)" by (rule pending_distinct [OF bi])
  note refs = refs_by_frame_cases [OF d]
  have h2: "handle_inv ?s"
    using handle_inv_grown [OF hi g] by (simp add: handle_inv_def settled_def catalog_below_attach)
  have b2: "buffers_inv ?s"
    by (simp add: buffers_inv_def settled_def none fits_def)
  have ids: "frame_ids ?s = frame_ids s1"
    by (simp add: frame_ids_def settled_def eqs image_image)
  have held: "fd_payload_encoding (attach_refs sid (refs_by_frame ?ps) m x) = Enc_raw \<and>
      payload_held en ?s (attach_refs sid (refs_by_frame ?ps) m x) b \<and>
      uri_held en ?s (attach_refs sid (refs_by_frame ?ps) m x) u"
    if x: "x \<in> set (cs_frames (vf_catalog s1))" and M: "M (fd_frame_id x) = Some (b, u)" for x b u
  proof (intro conjI)
    let ?x = "attach_refs sid (refs_by_frame ?ps) m x"
    have raw: "fd_payload_encoding x = Enc_raw" and ph: "payload_held en s1 x b" and uh: "uri_held en s1 x u"
      using inv x M by (auto simp: store_inv_def)
    show "fd_payload_encoding ?x = Enc_raw" by (simp add: raw)
    have "payload_stored en (vf_file s2) (vf_segment_registry s2) (fd_payload_ref ?x) b"
    proof (cases "vf_pending_payload_by_frame s1 (fd_frame_id x)")
      case (Some i)
      let ?p = "?ps ! i"
      have p: "?p \<in> set ?ps" "pp_frame_id ?p = fd_frame_id x"
        using pending_index_cases(2) [OF bi Some] by auto
      have "in_buf (vf_pending_payload_buf s1) (pp_bytes_offset ?p) (pp_bytes_length ?p) b"
        using ph Some by (simp add: payload_held_def)
      then have "payload_stored en (vf_file s1) (vf_segment_registry s1) (fd_payload_ref ?x) b"
        using batch refs(2) [OF p(1)] p(2) by (simp add: batch_in_def attach_refs_refs)
      then show ?thesis unfolding grow by (rule payload_stored_ext [OF _ reg])
    next
      case None
      then have "fd_payload_ref ?x = fd_payload_ref x"
        using refs(1) pending_index_cases(1) [OF bi] by (simp add: attach_refs_refs)
      then show ?thesis
        using ph None payload_stored_ext [OF _ reg] unfolding grow by (simp add: payload_held_def)
    qed
    then show "payload_held en ?s ?x b" by (simp add: payload_held_def settled_def)
    have "case u of None \<Rightarrow> fd_uri_ref ?x = None
        | Some c \<Rightarrow> uri_stored en (vf_file s2) (vf_segment_registry s2) (fd_uri_ref ?x) c"
    proof (cases "fd_frame_id x \<in> pu_frame_id ` set (vf_pending_uris s1)")
      case True
      then obtain c p where "u = Some c" and p: "p \<in> set (vf_pending_uris s1)" "pu_frame_id p = fd_frame_id x"
        "in_buf (vf_pending_uri_buf s1) (pu_bytes_offset p) (pu_bytes_length p) c"
        using uh by (auto simp: uri_held_def)
      with res show ?thesis by (force simp: uris_resolved_def attach_refs_refs)
    next
      case False
      then have "m (fd_frame_id x) = None" using res by (simp add: uris_resolved_def)
      then show ?thesis
        using uh False uri_stored_ext [OF _ reg] unfolding grow
        by (auto simp: uri_held_def attach_refs_refs split: option.splits)
    qed
    then show "uri_held en ?s ?x u" by (cases u) (simp_all add: uri_held_def settled_def none)
  qed
  have raw: "fd_payload_encoding x = Enc_raw" if "x \<in> set (cs_frames (vf_catalog s1))" for x
    using inv that by (auto simp: store_inv_def)
  have fr: "set (cs_frames (vf_catalog ?s)) = attach_refs sid (refs_by_frame ?ps) m ` set (cs_frames (vf_catalog s1))"
    by (simp add: settled_def eqs)
  show ?thesis
    unfolding store_inv_def fr using h2 b2 ids dm held raw by auto
qed

text \<open>
  A flush never loses a frame, whether it succeeds or fails on the way; a successful one
  leaves nothing pending.
\<close>
lemma flush_pending_payloads_store:
  assumes env: "env_ok en" and inv: "store_inv en s M"
    and w: "flush_pending_payloads en s = Some (r, s')" and fit: "fits (length (vf_file s'))"
  shows "store_inv en s' M" and "r = Inr () \<Longrightarrow> vf_pending_payload_frames s' = [] \<and> vf_pending_uris s' = []"
proof -
  have hi: "handle_inv s" and bi: "buffers_inv s" using inv by (simp_all add: store_inv_def)
  have "store_inv en s' M \<and> (r = Inr () \<longrightarrow> vf_pending_payload_frames s' = [] \<and> vf_pending_uris s' = [])"
  proof (cases "vf_pending_payload_frames s = []")
    case True
    then have "s' = s" "r = Inr ()" using w by (auto simp: flush_pending_payloads_def)
    then show ?thesis using inv bi True by (simp add: buffers_inv_def)
  next
    case False
    from w False obtain r1 s1 where w1: "write_payload_batch en s = Some (r1, s1)"
      by (auto simp: flush_pending_payloads_def obind_def split: option.splits)
    have g1: "grown s s1" and u1: "vf_pending_uris s1 = vf_pending_uris s"
      using write_payload_batch_grown [OF hi w1] by auto
    have inv1: "store_inv en s1 M" by (rule store_inv_grown [OF inv g1 u1])
    show ?thesis
    proof (cases r1)
      case (Inl e)
      then show ?thesis using w w1 False inv1 by (auto simp: flush_pending_payloads_def obind_Some)
    next
      case (Inr sid)
      note w1' = w1 [unfolded Inr]
      from w False obtain r2 s2 where w2: "write_uri_batch en s1 = Some (r2, s2)"
        by (auto simp: flush_pending_payloads_def obind_Some(1) [where m = "write_payload_batch en", OF w1']
            obind_def [of "write_uri_batch en"] split: option.splits)
      have hi1: "handle_inv s1" and bi1: "buffers_inv s1" using inv1 by (simp_all add: store_inv_def)
      have same: "vf_file s' = vf_file s2"
      proof (cases r2)
        case (Inl e)
        then show ?thesis using w w1' w2 False by (auto simp: flush_pending_payloads_def obind_Some)
      next
        case (Inr m)
        then have "settle_pending sid m s2 = Some (r, s')"
          using w w1' w2 False by (simp add: flush_pending_payloads_def obind_Some)
        then show ?thesis by (auto simp: settle_pending_def Let_def olift_def omodify_def split: if_splits)
      qed
      have post: "uri_batch_post en s1 r2 s2"
        using env hi1 bi1 w2 fit by (simp add: write_uri_batch_spec same)
      show ?thesis
      proof (cases r2)
        case (Inl e)
        then show ?thesis
          using w w1' w2 False inv1 post store_inv_grown [OF inv1, of s2]
          by (auto simp: flush_pending_payloads_def obind_Some uri_batch_post_def)
      next
        case (Inr m)
        have g2: "grown s1 s2" and n2: "vf_pending_uris s2 = []"
          using post Inr by (simp_all add: uri_batch_post_def)
        have bi2: "buffers_inv s2"
          using bi1 g2 n2 by (simp add: buffers_inv_def grown_def frame_ids_def)
        have "settle_pending sid m s2 = Some (Inr (), settled sid m s2)"
          using bi2 handle_inv_grown [OF hi1 g2] by (auto simp: handle_inv_def intro: settle_pending_eq)
        then have res: "r = Inr ()" "s' = settled sid m s2"
          using w w1' w2 Inr False by (auto simp: flush_pending_payloads_def obind_Some)
        have "batch_in en s1 sid (vf_pending_payload_buf s1)"
          using write_payload_batch_Inr [OF env hi _ w1'] bi g1 by (simp add: buffers_inv_def grown_def)
        then have "store_inv en s' M"
          unfolding res using inv1 post Inr by (intro settled_store) simp_all
        then show ?thesis by (simp add: res settled_def n2)
      qed
    qed
  qed
  then show "store_inv en s' M" and "r = Inr () \<Longrightarrow> vf_pending_payload_frames s' = [] \<and> vf_pending_uris s' = []"
    by auto
qed


section \<open>Putting a frame\<close>

definition buffered :: "put_frame_input \<Rightarrow> u64 \<Rightarrow> i64 \<Rightarrow> id_allocator \<Rightarrow> vfile \<Rightarrow> vfile" where
  "buffered input fid t a s =
     s\<lparr>vf_id_allocator := a,
       vf_pending_payload_buf := vf_pending_payload_buf s @ pf_payload input,
       vf_pending_payload_frames := vf_pending_payload_frames s @
         [\<lparr>pp_frame_id = fid, pp_bytes_offset = of_nat (length (vf_pending_payload_buf s)),
           pp_bytes_length = of_nat (length (pf_payload input))\<rparr>],
       vf_pending_payload_by_frame := (vf_pending_payload_by_frame s)
         (fid \<mapsto> length (vf_pending_payload_frames s)),
       vf_pending_uri_buf := vf_pending_uri_buf s @ (case pf_uri input of None \<Rightarrow> [] | Some u \<Rightarrow> u),
       vf_pending_uris := vf_pending_uris s @ (case pf_uri input of None \<Rightarrow> []
         | Some u \<Rightarrow> [\<lparr>pu_frame_id = fid, pu_bytes_offset = of_nat (length (vf_pending_uri_buf s)),
             pu_bytes_length = of_nat (length u)\<rparr>]),
       vf_catalog := upsert_frame (new_frame input fid t) (vf_catalog s),
       vf_dirty_frame_ids := insert fid (vf_dirty_frame_ids s), vf_dirty := True\<rparr>"

lemma in_buf_append: "in_buf buf off len b \<Longrightarrow> in_buf (buf @ rest) off len b"
  by (auto simp: in_buf_def slice_append1)

lemma in_buf_end:
  "fits (length buf) \<Longrightarrow> fits (length b) \<Longrightarrow> in_buf (buf @ b) (of_nat (length buf)) (of_nat (length b)) b"
  by (simp add: in_buf_def slice_def)

lemma new_frame_sel [simp]:
  "fd_frame_id (new_frame input fid t) = fid" "fd_status (new_frame input fid t) = Frame_active"
  "fd_payload_encoding (new_frame input fid t) = Enc_raw"
  "fd_uri_ref (new_frame input fid t) = None" "fd_payload_ref (new_frame input fid t) = None"
  by (simp_all add: new_frame_def)

text \<open>The tables after a frame with a fresh id.\<close>
lemma upsert_new_frame:
  assumes "catalog_below c a" and "allocate_frame_id a = Inr (fid, a')" and "fd_frame_id x = fid"
  shows "upsert_frame x c = c\<lparr>cs_frames := cs_frames c @ [x], cs_frame_stubs := cs_frame_stubs c @ [stub_of x]\<rparr>"
    and "catalog_below (upsert_frame x c) a'" and "fid \<notin> fd_frame_id ` set (cs_frames c)"
proof -
  have id: "unat fid = unat (next_frame_id a)" "unat (next_frame_id a') = Suc (unat fid)"
    using frame_ids.alloc_Inr [OF assms(2)] by auto
  have cok: "catalog_ok c" and lt: "\<forall>y\<in>set (cs_frames c). fd_frame_id y < fid"
    "\<forall>y\<in>set (cs_frame_stubs c). st_frame_id y < fid"
    using assms(1) id by (auto simp: catalog_below_def word_less_nat_alt)
  have s: "strict_by fd_frame_id (cs_frames c)" "strict_by st_frame_id (cs_frame_stubs c)"
    using cok by (simp_all add: catalog_ok_def)
  have a1: "upsert fd_frame_id x (cs_frames c) = cs_frames c @ [x]"
    using lt by (intro upsert_append s) (simp add: assms(3))
  have a2: "upsert st_frame_id (stub_of x) (cs_frame_stubs c) = cs_frame_stubs c @ [stub_of x]"
    using lt by (intro upsert_append s) (simp add: assms(3))
  show eq: "upsert_frame x c = c\<lparr>cs_frames := cs_frames c @ [x], cs_frame_stubs := cs_frame_stubs c @ [stub_of x]\<rparr>"
    by (simp add: upsert_frame_eq a1 a2)
  have col: "next_collection_id a' = next_collection_id a"
    using assms(2) by (auto simp: allocate_frame_id_def rbind_Inr_iff)
  show "catalog_below (upsert_frame x c) a'"
    using catalog_ok_upsert_frame [OF cok, of x] assms(1,3) id
    by (auto simp: catalog_below_def eq col)
  show "fid \<notin> fd_frame_id ` set (cs_frames c)" using lt by auto
qed

lemma allocate_frame_id_others:
  "allocate_frame_id a = Inr (fid, a') \<Longrightarrow> next_segment_id a' = next_segment_id a"
  by (auto simp: allocate_frame_id_def rbind_Inr_iff)

lemma buffered_sel [simp]:
  "vf_file (buffered input fid t a s) = vf_file s"
  "vf_segment_registry (buffered input fid t a s) = vf_segment_registry s"
  "vf_mode (buffered input fid t a s) = vf_mode s"
  "vf_id_allocator (buffered input fid t a s) = a"
  "vf_catalog (buffered input fid t a s) = upsert_frame (new_frame input fid t) (vf_catalog s)"
  "vf_tombstoned_frame_count (buffered input fid t a s) = vf_tombstoned_frame_count s"
  by (simp_all add: buffered_def)

lemma buffered_buffers:
  assumes bi: "buffers_inv s" and cb: "catalog_below (vf_catalog s) (vf_id_allocator s)"
    and al: "allocate_frame_id (vf_id_allocator s) = Inr (fid, a)"
    and room: "fits (length (vf_pending_payload_buf s) + length (pf_payload input))"
      "\<And>u. pf_uri input = Some u \<Longrightarrow> fits (length (vf_pending_uri_buf s) + length u)"
  shows "buffers_inv (buffered input fid t a s)"
proof -
  let ?s = "buffered input fid t a s" and ?n = "length (vf_pending_payload_frames s)"
  have fresh: "fid \<notin> frame_ids s"
    using upsert_new_frame(3) [OF cb al] by (simp add: frame_ids_def new_frame_def) (metis frame_desc.select_convs(1))
  have sub: "pp_frame_id ` set (vf_pending_payload_frames s) \<subseteq> frame_ids s"
    and usub: "pu_frame_id ` set (vf_pending_uris s) \<subseteq> pp_frame_id ` set (vf_pending_payload_frames s)"
    using bi by (auto simp: buffers_inv_def)
  have np: "fid \<notin> pp_frame_id ` set (vf_pending_payload_frames s)" "fid \<notin> pu_frame_id ` set (vf_pending_uris s)"
    using fresh sub subset_trans [OF usub sub] by auto
  have idx: "vf_pending_payload_by_frame s k = Some i \<longleftrightarrow>
      i < ?n \<and> pp_frame_id (vf_pending_payload_frames s ! i) = k" for k i
    using bi by (simp add: buffers_inv_def)
  have idx': "vf_pending_payload_by_frame ?s k = Some i \<longleftrightarrow>
      i < length (vf_pending_payload_frames ?s) \<and> pp_frame_id (vf_pending_payload_frames ?s ! i) = k" for k i
    using np(1) nth_mem [of i "vf_pending_payload_frames s"]
    by (auto simp: buffered_def idx nth_append less_Suc_eq)
  have ids: "frame_ids ?s = insert fid (frame_ids s)"
    by (simp add: frame_ids_def upsert_new_frame(1) [OF cb al])
  have ulen: "fits (length (vf_pending_uri_buf s))" using bi by (simp add: buffers_inv_def)
  have fu: "fits (length u)" if "pf_uri input = Some u" for u
    using room(2) [OF that] by (rule fits_mono) simp
  show ?thesis
    unfolding buffers_inv_def ids
    using idx' bi sub usub np room ulen fu
    by (auto simp: buffers_inv_def buffered_def split: option.splits)
qed

lemma buffered_store:
  assumes inv: "store_inv en s M"
    and al: "allocate_frame_id (vf_id_allocator s) = Inr (fid, a)"
    and room: "fits (length (vf_pending_payload_buf s) + length (pf_payload input))"
      "\<And>u. pf_uri input = Some u \<Longrightarrow> fits (length (vf_pending_uri_buf s) + length u)"
  shows "store_inv en (buffered input fid t a s) (M(fid \<mapsto> (pf_payload input, pf_uri input)))"
    and "fid \<notin> dom M"
proof -
  let ?s = "buffered input fid t a s" and ?n = "length (vf_pending_payload_frames s)"
    and ?x = "new_frame input fid t"
  have hi: "handle_inv s" and bi: "buffers_inv s" and dm: "dom M = frame_ids s"
    and fr: "\<forall>x\<in>set (cs_frames (vf_catalog s)). fd_payload_encoding x = Enc_raw \<and>
        (\<forall>b u. M (fd_frame_id x) = Some (b, u) \<longrightarrow> payload_held en s x b \<and> uri_held en s x u)"
    using inv by (simp_all add: store_inv_def)
  have cb: "catalog_below (vf_catalog s) (vf_id_allocator s)" using hi by (simp add: handle_inv_def)
  note up = upsert_new_frame [OF cb al, of ?x, simplified]
  show fresh: "fid \<notin> dom M" using up(3) by (simp add: dm frame_ids_def)
  have bi': "buffers_inv ?s" by (rule buffered_buffers [OF bi cb al room])
  have hi': "handle_inv ?s"
    using hi up(2) by (simp add: handle_inv_def up(1) allocate_frame_id_others [OF al] registry_below_def)
  have ids: "frame_ids ?s = insert fid (frame_ids s)"
    by (simp add: frame_ids_def up(1))
  have fl: "fits (length (vf_pending_payload_buf s))" "fits (length (vf_pending_uri_buf s))"
    "fits (length (pf_payload input))"
    using bi fits_mono [OF room(1), of "length (pf_payload input)"] by (simp_all add: buffers_inv_def)
  have fu: "fits (length u)" if "pf_uri input = Some u" for u
    using room(2) [OF that] by (rule fits_mono) simp
  have old: "payload_held en ?s x b \<and> uri_held en ?s x u"
    if x: "x \<in> set (cs_frames (vf_catalog s))" and M: "M (fd_frame_id x) = Some (b, u)" for x b u
  proof
    have ne: "fd_frame_id x \<noteq> fid" using fresh M by auto
    have ph: "payload_held en s x b" and uh: "uri_held en s x u" using fr x M by auto
    show "payload_held en ?s x b"
      using ph ne pending_index_cases(2) [OF bi]
      by (auto simp: payload_held_def buffered_def nth_append in_buf_append split: option.splits)
    show "uri_held en ?s x u"
      using uh ne
      by (auto simp: uri_held_def buffered_def split: option.splits if_splits) (metis in_buf_append)+
  qed
  have sub: "pu_frame_id ` set (vf_pending_uris s) \<subseteq> frame_ids s"
    using bi by (simp add: buffers_inv_def) (blast intro: subset_trans)
  have new: "payload_held en ?s ?x (pf_payload input) \<and> uri_held en ?s ?x (pf_uri input)"
  proof
    show "payload_held en ?s ?x (pf_payload input)"
      using in_buf_end [OF fl(1,3)] by (simp add: payload_held_def buffered_def)
    have "fid \<notin> pu_frame_id ` set (vf_pending_uris s)" using sub fresh dm by auto
    then show "uri_held en ?s ?x (pf_uri input)"
      using in_buf_end [OF fl(2) fu]
      by (cases "pf_uri input") (auto simp: uri_held_def buffered_def)
  qed
  have raw: "fd_payload_encoding x = Enc_raw" if "x \<in> set (cs_frames (vf_catalog s))" for x
    using fr that by auto
  have ne: "fd_frame_id x \<noteq> fid" if "x \<in> set (cs_frames (vf_catalog s))" for x
    using up(3) that by auto
  show "store_inv en ?s (M(fid \<mapsto> (pf_payload input, pf_uri input)))"
    unfolding store_inv_def
    using hi' bi' ids dm old new raw ne by (auto simp: up(1))
qed

text \<open>An accepted frame is buffered; what follows is the flush of a full buffer.\<close>
lemma put_frame_cases:
  assumes inv: "store_inv en s M" and w: "put_frame en now input s = Some (r, s')"
    and np: "\<And>m. r \<noteq> Inl (Panic m)"
  obtains (rejected) e where "s' = s" "r = Inl e"
  | (buffered) fid t a where "fid \<notin> dom M"
      "store_inv en (buffered input fid t a s) (M(fid \<mapsto> (pf_payload input, pf_uri input)))"
      "obind (if PAYLOAD_BATCH_FLUSH_BYTES \<le> length (vf_pending_payload_buf (buffered input fid t a s))
         then flush_pending_payloads en else oreturn ()) (\<lambda>_. oreturn fid) (buffered input fid t a s) = Some (r, s')"
proof -
  have ld: "rg_loaded (vf_segment_registry s)" "vf_mode s = ReadWrite"
    using inv by (simp_all add: store_inv_def handle_inv_def)
  note step = put_frame_def obind_def ensure_write_def ensure_segment_registry_loaded_def ld oalloc_def olift_def
  show thesis
  proof (cases "list_ex (\<lambda>c. col_collection_id c = pf_collection_id input) (cs_collections (vf_catalog s)) \<and>
      is_ok now \<and> is_ok (allocate_frame_id (vf_id_allocator s))")
    case False
    then have "s' = s \<and> (\<exists>e. r = Inl e)"
      using w by (cases now; cases "allocate_frame_id (vf_id_allocator s)") (auto simp: step split: if_splits)
    then show thesis using rejected by blast
  next
    case True
    then obtain t fid a where ok: "list_ex (\<lambda>c. col_collection_id c = pf_collection_id input) (cs_collections (vf_catalog s))"
        "now = Inr t" "allocate_frame_id (vf_id_allocator s) = Inr (fid, a)"
      by (auto simp: is_ok_iff)
    have room1: "fits (length (vf_pending_payload_buf s) + length (pf_payload input))"
      using w np by (auto simp: step ok buffer_payload_def extend_from_slice_def fits_def split: if_splits)
    have room2: "fits (length (vf_pending_uri_buf s) + length u)" if "pf_uri input = Some u" for u
      using w np room1 that
      by (auto simp: step ok buffer_payload_def buffer_uri_def extend_from_slice_def fits_def split: if_splits)
    have "obind (if PAYLOAD_BATCH_FLUSH_BYTES \<le> length (vf_pending_payload_buf (buffered input fid t a s))
         then flush_pending_payloads en else oreturn ()) (\<lambda>_. oreturn fid) (buffered input fid t a s) = Some (r, s')"
      using w room1 room2
      by (auto simp: step ok buffer_payload_def buffer_uri_def extend_from_slice_def fits_def
          buffered_def split: option.splits)
    with buffered_store [OF inv ok(3) room1 room2] show thesis by (intro buffered)
  qed
qed

lemma put_frame_store:
  assumes env: "env_ok en" and inv: "store_inv en s M"
    and w: "put_frame en now input s = Some (r, s')" and fit: "fits (length (vf_file s'))"
    and np: "\<And>m. r \<noteq> Inl (Panic m)"
  shows "\<exists>M'. store_inv en s' M' \<and> M \<subseteq>\<^sub>m M' \<and>
    (\<forall>fid. r = Inr fid \<longrightarrow> M fid = None \<and> M' fid = Some (pf_payload input, pf_uri input))"
  using inv w np
proof (cases rule: put_frame_cases)
  case (rejected e)
  then show ?thesis using inv by auto
next
  case (buffered fid t a)
  let ?M = "M(fid \<mapsto> (pf_payload input, pf_uri input))"
  have "store_inv en s' ?M \<and> (\<forall>f'. r = Inr f' \<longrightarrow> f' = fid)"
    using buffered flush_pending_payloads_store(1) [OF env buffered(2)] fit
    by (auto simp: obind_def split: if_splits option.splits sum.splits)
  then show ?thesis using buffered(1) by (intro exI [of _ ?M]) (auto simp: map_le_def)
qed

section \<open>Deleting a frame\<close>

definition tombstone :: "i64 \<Rightarrow> frame_desc \<Rightarrow> frame_desc" where
  "tombstone t x = x\<lparr>fd_status := Frame_tombstoned, fd_role := Tombstone_role, fd_updated_at := t\<rparr>"

lemma tombstone_sel [simp]:
  "fd_frame_id (tombstone t x) = fd_frame_id x" "fd_status (tombstone t x) = Frame_tombstoned"
  "fd_payload_ref (tombstone t x) = fd_payload_ref x" "fd_uri_ref (tombstone t x) = fd_uri_ref x"
  "fd_payload_encoding (tombstone t x) = fd_payload_encoding x"
  by (simp_all add: tombstone_def)

lemma upsert_found: "binary_search_by_key key (key x) xs = Inr i \<Longrightarrow> upsert key x xs = xs[i := x]"
  by (simp add: upsert_def)

lemma lookup_by_Some:
  assumes "strict_by key xs"
  shows "lookup_by key k xs = Some x \<longleftrightarrow> x \<in> set xs \<and> key x = k"
  using assms by (simp add: lookup_by_table_map table_map_Some strict_by_distinct)

text \<open>The two table updates of a deletion are one upsert of the tombstoned frame.\<close>
lemma tombstone_frame_eq:
  assumes cok: "catalog_ok (vf_catalog s)"
    and x: "lookup_by fd_frame_id fid (cs_frames (vf_catalog s)) = Some x" and act: "fd_status x = Frame_active"
  shows "tombstone_frame fid t s = s\<lparr>vf_catalog := upsert_frame (tombstone t x) (vf_catalog s),
      vf_tombstoned_frame_count := vf_tombstoned_frame_count s + 1,
      vf_dirty_frame_ids := insert fid (vf_dirty_frame_ids s), vf_dirty := True\<rparr>"
    and "fd_frame_id x = fid" and "x \<in> set (cs_frames (vf_catalog s))"
proof -
  let ?c = "vf_catalog s"
  have s: "strict_by fd_frame_id (cs_frames ?c)" "strict_by st_frame_id (cs_frame_stubs ?c)"
    using cok by (simp_all add: catalog_ok_def)
  show id: "fd_frame_id x = fid" and "x \<in> set (cs_frames ?c)"
    using x by (simp_all add: lookup_by_Some s)
  obtain i where i: "binary_search_by_key fd_frame_id fid (cs_frames ?c) = Inr i" "cs_frames ?c ! i = x"
    using x by (auto simp: lookup_by_def split: sum.splits)
  obtain j where j: "binary_search_by_key st_frame_id fid (cs_frame_stubs ?c) = Inr j" "cs_frame_stubs ?c ! j = stub_of x"
    using stub_status [OF cok x] by (auto simp: lookup_by_def split: sum.splits)
  have u1: "upsert fd_frame_id (tombstone t x) (cs_frames ?c) = (cs_frames ?c)[i := tombstone t x]"
    using i(1) id by (intro upsert_found) simp
  have u2: "upsert st_frame_id (stub_of (tombstone t x)) (cs_frame_stubs ?c) =
      (cs_frame_stubs ?c)[j := stub_of (tombstone t x)]"
    using j(1) id by (intro upsert_found) simp
  have st: "(stub_of x)\<lparr>st_status := Frame_tombstoned\<rparr> = stub_of (tombstone t x)"
    by (simp add: stub_of_def)
  show "tombstone_frame fid t s = s\<lparr>vf_catalog := upsert_frame (tombstone t x) ?c,
      vf_tombstoned_frame_count := vf_tombstoned_frame_count s + 1,
      vf_dirty_frame_ids := insert fid (vf_dirty_frame_ids s), vf_dirty := True\<rparr>"
    using act by (simp add: tombstone_frame_def Let_def i j upsert_frame_eq u1 u2 st tombstone_def [symmetric])
qed

lemma length_filter_update:
  assumes "j < length xs" and "\<not> P (xs ! j)" and "P y"
  shows "length (filter P (xs[j := y])) = Suc (length (filter P xs))"
proof -
  have "length (filter P (take j xs @ (xs ! j) # drop (Suc j) xs)) =
      length (filter P (take j xs)) + length (filter P (drop (Suc j) xs))"
    using assms(2) by simp
  then have "length (filter P xs) = length (filter P (take j xs)) + length (filter P (drop (Suc j) xs))"
    by (simp only: id_take_nth_drop [OF assms(1), symmetric])
  then show ?thesis using assms(3) by (simp add: upd_conv_take_nth_drop [OF assms(1)])
qed

lemma tombstoned_handle:
  assumes hi: "handle_inv s" and x: "lookup_by fd_frame_id fid (cs_frames (vf_catalog s)) = Some x"
    and act: "fd_status x = Frame_active"
  shows "handle_inv (tombstone_frame fid t s)"
proof -
  let ?c = "vf_catalog s"
  have cb: "catalog_below ?c (vf_id_allocator s)" using hi by (simp add: handle_inv_def)
  then have cok: "catalog_ok ?c" by (simp add: catalog_below_def)
  note eq = tombstone_frame_eq [OF cok x act]
  have s: "strict_by fd_frame_id (cs_frames ?c)" "strict_by st_frame_id (cs_frame_stubs ?c)"
    using cok by (simp_all add: catalog_ok_def)
  obtain j where j: "binary_search_by_key st_frame_id fid (cs_frame_stubs ?c) = Inr j" "cs_frame_stubs ?c ! j = stub_of x"
    using stub_status [OF cok x] by (auto simp: lookup_by_def split: sum.splits)
  have jl: "j < length (cs_frame_stubs ?c)" using binary_search_found [OF s(2) j(1)] by simp
  have u2: "upsert st_frame_id (stub_of (tombstone t x)) (cs_frame_stubs ?c) =
      (cs_frame_stubs ?c)[j := stub_of (tombstone t x)]"
    using j(1) eq(2) by (intro upsert_found) simp
  have cnt: "length (filter (\<lambda>x. st_status x = Frame_tombstoned) (cs_frame_stubs (upsert_frame (tombstone t x) ?c))) =
      Suc (length (filter (\<lambda>x. st_status x = Frame_tombstoned) (cs_frame_stubs ?c)))"
    using length_filter_update [OF jl, of "\<lambda>x. st_status x = Frame_tombstoned" "stub_of (tombstone t x)"]
    by (simp add: upsert_frame_eq u2 j(2) act)
  have "stub_of x \<in> set (cs_frame_stubs ?c)" using jl j(2) nth_mem by metis
  then have "unat fid < unat (next_frame_id (vf_id_allocator s))"
    using cb eq(2) by (force simp: catalog_below_def)
  then have "catalog_below (upsert_frame (tombstone t x) ?c) (vf_id_allocator s)"
    using cb catalog_ok_upsert_frame [OF cok, of "tombstone t x"] eq(2)
    by (auto simp: catalog_below_def upsert_frame_eq set_upsert s)
  then show ?thesis using hi cnt by (simp add: handle_inv_def eq(1))
qed

lemma tombstoned_store:
  assumes inv: "store_inv en s M" and x: "lookup_by fd_frame_id fid (cs_frames (vf_catalog s)) = Some x"
    and act: "fd_status x = Frame_active"
  shows "store_inv en (tombstone_frame fid t s) M"
proof -
  let ?c = "vf_catalog s" and ?s = "tombstone_frame fid t s"
  have hi: "handle_inv s" and bi: "buffers_inv s" and dm: "dom M = frame_ids s"
    and fr: "\<forall>x\<in>set (cs_frames ?c). fd_payload_encoding x = Enc_raw \<and>
        (\<forall>b u. M (fd_frame_id x) = Some (b, u) \<longrightarrow> payload_held en s x b \<and> uri_held en s x u)"
    using inv by (simp_all add: store_inv_def)
  have cok: "catalog_ok ?c" using hi by (simp add: handle_inv_def catalog_below_def)
  note eq = tombstone_frame_eq [OF cok x act]
  have frames: "set (cs_frames (vf_catalog ?s)) = insert (tombstone t x) {y \<in> set (cs_frames ?c). fd_frame_id y \<noteq> fid}"
    using cok eq(2) by (simp add: eq(1) upsert_frame_eq set_upsert catalog_ok_def)
  then have ids: "frame_ids ?s = frame_ids s"
    using eq(2,3) by (auto simp: frame_ids_def)
  have same: "payload_held en ?s y b = payload_held en s y b" "uri_held en ?s y u = uri_held en s y u"
    "payload_held en s (tombstone t x) b = payload_held en s x b"
    "uri_held en s (tombstone t x) u = uri_held en s x u" for y b u
    by (simp_all add: eq(1) payload_held_def uri_held_def cong: option.case_cong)
  have "buffers_inv ?s" using bi ids by (simp add: buffers_inv_def) (simp add: eq(1))
  then show ?thesis
    unfolding store_inv_def frames
    using tombstoned_handle [OF hi x act] dm ids fr eq(3) by (auto simp: same)
qed

lemma delete_frame_cases:
  assumes "handle_inv s"
  shows "delete_frame en now fid s =
    (case lookup_by fd_frame_id fid (cs_frames (vf_catalog s)) of
       Some x \<Rightarrow> if fd_status x = Frame_active
         then (case now of Inr t \<Rightarrow> Some (Inr (), tombstone_frame fid t s) | Inl e \<Rightarrow> Some (Inl e, s))
         else Some (Inl (Format ''unknown active frame id''), s)
     | None \<Rightarrow> Some (Inl (Format ''unknown active frame id''), s))"
  using assms
  by (auto simp: delete_frame_def handle_inv_def obind_def ensure_write_def ensure_segment_registry_loaded_def
      lookup_by_def olift_def omodify_def ogets_def split: sum.splits)

lemma delete_frame_store:
  assumes "store_inv en s M" and "delete_frame en now fid s = Some (r, s')"
  shows "store_inv en s' M \<and> vf_file s' = vf_file s"
proof -
  have hi: "handle_inv s" using assms(1) by (simp add: store_inv_def)
  then have cok: "catalog_ok (vf_catalog s)" by (simp add: handle_inv_def catalog_below_def)
  show ?thesis
    using assms(2) assms(1) tombstoned_store [OF assms(1)] tombstone_frame_eq(1) [OF cok]
    by (auto simp: delete_frame_cases [OF hi] split: option.splits if_splits sum.splits)
qed

section \<open>Creating a collection\<close>

lemma create_collection_store:
  assumes inv: "store_inv en s M" and w: "create_collection_at en name t s = Some (r, s')"
  shows "store_inv en s' M \<and> vf_file s' = vf_file s \<and>
    (case r of Inl e \<Rightarrow> vf_catalog s' = vf_catalog s
     | Inr cid \<Rightarrow> name \<notin> set (live_names (cs_collections (vf_catalog s))) \<and>
         name \<in> set (live_names (cs_collections (vf_catalog s'))) \<and>
         cid \<notin> col_collection_id ` set (cs_collections (vf_catalog s)))"
proof -
  have hi: "handle_inv s" using inv by (simp add: store_inv_def)
  then have ld: "rg_loaded (vf_segment_registry s)" "vf_mode s = ReadWrite"
    and cb: "catalog_below (vf_catalog s) (vf_id_allocator s)" by (simp_all add: handle_inv_def)
  let ?c = "vf_catalog s"
  have err: ?thesis if "s' = s" "r = Inl e" for e using that inv by simp
  show ?thesis
  proof (cases "list_ex (\<lambda>c. col_name c = name \<and> col_flags c AND 1 = 0) (cs_collections ?c)")
    case True
    then show ?thesis using w err by (auto simp: create_collection_at_def ld olift_def obind_def)
  next
    case new: False
    show ?thesis
    proof (cases "allocate_collection_id (vf_id_allocator s)")
      case (Inl e)
      then show ?thesis using w new err
        by (auto simp: create_collection_at_def ld obind_def oalloc_def split: if_splits)
    next
      case (Inr p)
      then obtain cid a where al: "allocate_collection_id (vf_id_allocator s) = Inr (cid, a)" by (cases p) auto
      let ?col = "\<lparr>col_collection_id = cid, col_name = name, col_created_at = t,
           col_default_text_space_id = None, col_default_embedding_space_id = None,
           col_flags = 0, col_metadata_ref = None\<rparr>"
      have res: "r = Inr cid" "s' = s\<lparr>vf_id_allocator := a, vf_catalog := upsert_collection ?col ?c,
          vf_dirty_collection_ids := insert cid (vf_dirty_collection_ids s), vf_dirty := True\<rparr>"
        using w new al by (auto simp: create_collection_at_def ld obind_def oalloc_def split: if_splits)
      have id: "unat cid = unat (next_collection_id (vf_id_allocator s))" "unat (next_collection_id a) = Suc (unat cid)"
        using collection_ids.alloc_Inr [OF al] by auto
      have others: "next_frame_id a = next_frame_id (vf_id_allocator s)"
          "next_segment_id a = next_segment_id (vf_id_allocator s)"
        using al by (auto simp: allocate_collection_id_def rbind_Inr_iff)
      have cok: "catalog_ok ?c" and lt: "\<forall>y\<in>set (cs_collections ?c). col_collection_id y < cid"
        using cb id by (auto simp: catalog_below_def word_less_nat_alt)
      have srt: "strict_by col_collection_id (cs_collections ?c)" using cok by (simp add: catalog_ok_def)
      have up: "upsert_collection ?col ?c = ?c\<lparr>cs_collections := cs_collections ?c @ [?col]\<rparr>"
        using lt by (simp add: upsert_collection_def upsert_append [OF srt])
      have name: "name \<notin> set (live_names (cs_collections ?c))" using new by (auto simp: list_ex_iff)
      have "catalog_below (upsert_collection ?col ?c) a"
        using cb catalog_ok_upsert(1) [OF cok, of ?col] id others name lt
        by (auto simp: catalog_below_def up)
      then have "handle_inv s'" using hi others by (simp add: handle_inv_def res registry_below_def up)
      moreover have "buffers_inv s'" using inv by (simp add: store_inv_def buffers_inv_def res frame_ids_def up)
      moreover have "payload_held en s' x b = payload_held en s x b" "uri_held en s' x u = uri_held en s x u" for x b u
        by (simp_all add: res payload_held_def uri_held_def cong: option.case_cong)
      ultimately have "store_inv en s' M"
        using inv by (simp add: store_inv_def) (simp add: res up frame_ids_def)
      then show ?thesis using name lt by (auto simp: res up)
    qed
  qed
qed


section \<open>Reading\<close>

lemma frame_full_there:
  assumes "store_inv en s M" and "M fid = Some v"
  shows "\<exists>x\<in>set (cs_frames (vf_catalog s)). frame_full en fid s = Inr x \<and> fd_frame_id x = fid"
proof -
  have "fid \<in> frame_ids s" using assms by (auto simp: store_inv_def)
  then obtain x where x: "x \<in> set (cs_frames (vf_catalog s))" "fd_frame_id x = fid"
    by (auto simp: frame_ids_def)
  have "strict_by fd_frame_id (cs_frames (vf_catalog s))"
    using assms by (simp add: store_inv_def handle_inv_def catalog_below_def catalog_ok_def)
  then have "lookup_by fd_frame_id fid (cs_frames (vf_catalog s)) = Some x"
    using x by (simp add: lookup_by_Some)
  then show ?thesis
    using x by (intro bexI [of _ x]) (auto simp: frame_full_def lookup_by_def split: sum.splits)
qed

lemma verified_same [simp]: "\<exists>v. s = s\<lparr>vf_verified_payload_segments := v\<rparr>"
  by (rule exI [of _ "vf_verified_payload_segments s"]) simp

lemma read_payload_held:
  assumes env: "env_ok en" and inv: "store_inv en s M" and fit: "fits (length (vf_file s))"
    and M: "M fid = Some (b, u)"
  shows "\<exists>v. read_payload en fid s = Some (Inr b, s\<lparr>vf_verified_payload_segments := v\<rparr>)"
proof -
  obtain x where x: "x \<in> set (cs_frames (vf_catalog s))" "frame_full en fid s = Inr x" "fd_frame_id x = fid"
    using frame_full_there [OF inv M] by blast
  have ph: "payload_held en s x b" and raw: "fd_payload_encoding x = Enc_raw"
    using inv x(1,3) M by (auto simp: store_inv_def)
  have bi: "buffers_inv s" and ld: "rg_loaded (vf_segment_registry s)"
    using inv by (simp_all add: store_inv_def handle_inv_def)
  show ?thesis
  proof (cases "vf_pending_payload_by_frame s fid")
    case (Some i)
    let ?p = "vf_pending_payload_frames s ! i"
    have i: "i < length (vf_pending_payload_frames s)" using pending_index_cases(2) [OF bi Some] by simp
    have "in_buf (vf_pending_payload_buf s) (pp_bytes_offset ?p) (pp_bytes_length ?p) b"
      using ph Some x(3) by (simp add: payload_held_def)
    then have "pending_payload s i = Inr b"
      using i bi by (simp add: pending_payload_def in_buf_def index_range_in buffers_inv_def)
    then have "read_payload en fid s = Some (Inr b, s)"
      using Some by (simp add: read_payload_def olift_def)
    then show ?thesis by (intro exI [of _ "vf_verified_payload_segments s"]) simp
  next
    case None
    then have "payload_stored en (vf_file s) (vf_segment_registry s) (fd_payload_ref x) b"
      using ph x(3) by (simp add: payload_held_def)
    then obtain pref seg e ulen p body where st: "fd_payload_ref x = Some pref"
      "rg_by_id (vf_segment_registry s) (pr_segment_id pref) = Some seg" "sr_segment_id seg = pr_segment_id pref"
      "lookup_by se_segment_id (pr_segment_id pref) (rg_catalog (vf_segment_registry s)) = Some e"
      "se_compression e = Zstd" "segment_there (en_hash en) (vf_file s) seg Payload Zstd ulen p"
      "en_zstd_decode en p = Some body" "unat ulen = length body"
      "in_buf body (pr_bytes_offset pref) (pr_bytes_length pref) b"
      by (auto simp: payload_stored_def)
    have h: "digest32 (en_hash en)" using env by (simp add: env_ok_def)
    have "read_payload_ref (en_hash en) (en_zstd_decode en) (vf_file s) seg pref v =
        Inr (b, if en_hash en p = replicate 32 0 then v else insert (sr_segment_id seg) v)" for v
      using read_zstd_payload_ref_there [where unz = "en_zstd_decode en", OF h st(6) fit st(7,8), of pref v] st(3,9) by (simp add: in_buf_def)
    then show ?thesis
      using None x(2) raw st ld
      by (simp add: read_payload_def oread_payload_ref_def Let_def ensure_segment_registry_loaded_def obind_def
          ogets_def olift_def)
        (intro conjI impI; (rule verified_same | (rule exI, rule refl)))
  qed
qed

text \<open>A URI is readable once it is no longer buffered.\<close>
lemma read_frame_uri_held:
  assumes env: "env_ok en" and inv: "store_inv en s M" and fit: "fits (length (vf_file s))"
    and M: "M fid = Some (b, u)" and flushed: "fid \<notin> pu_frame_id ` set (vf_pending_uris s)"
  shows "read_frame_uri en fid s = Some (Inr u, s)"
proof -
  obtain x where x: "x \<in> set (cs_frames (vf_catalog s))" "frame_full en fid s = Inr x" "fd_frame_id x = fid"
    using frame_full_there [OF inv M] by blast
  have uh: "uri_held en s x u" using inv x(1,3) M by (auto simp: store_inv_def)
  have ld: "rg_loaded (vf_segment_registry s)" using inv by (simp add: store_inv_def handle_inv_def)
  have h: "digest32 (en_hash en)" using env by (simp add: env_ok_def)
  show ?thesis
  proof (cases u)
    case None
    then show ?thesis using uh flushed x by (simp add: uri_held_def read_frame_uri_def)
  next
    case (Some c)
    then have "uri_stored en (vf_file s) (vf_segment_registry s) (fd_uri_ref x) c"
      using uh flushed x(3) by (simp add: uri_held_def)
    then obtain mref seg p where st: "fd_uri_ref x = Some mref"
      "rg_by_id (vf_segment_registry s) (md_segment_id mref) = Some seg"
      "segment_there (en_hash en) (vf_file s) seg Metadata CNone (of_nat (length p)) p"
      "in_buf p (md_bytes_offset mref) (md_bytes_length mref) c" "md_checksum mref = en_hash en c"
      by (auto simp: uri_stored_def)
    have mr: "mapped_or_read en s seg Metadata = Inr p" by (rule mapped_or_read_there [OF h st(3) fit])
    have "length p \<le> length (vf_file s)" using st(3) by (auto simp: segment_there_def)
    then have fp: "fits (length p)" by (rule fits_mono [OF fit])
    let ?o = "md_bytes_offset mref" and ?l = "md_bytes_length mref"
    have le: "unat ?o + unat ?l \<le> length p" and sl: "slice (unat ?o) (unat ?l) p = c"
      using st(4) by (simp_all add: in_buf_def)
    then have ov: "unat ?o + unat ?l < 2 ^ 64" using fp by (simp add: fits_def)
    then have "checked_add ?o ?l = Some (?o + ?l)" "unat (?o + ?l) = unat ?o + unat ?l"
      by (simp_all add: checked_add_def unat_word_ariths)
    then have "read_metadata_ref en mref s = Some (Inr c, s)"
      using st(2,5) mr le sl ld
      by (simp add: read_metadata_ref_def ensure_segment_registry_loaded_def obind_def ogets_def olift_def oreturn_def)
    then show ?thesis
      using x(2) st(1) Some by (simp add: read_frame_uri_def obind_def olift_def ogets_def oreturn_def)
  qed
qed

lemma read_metadata_ref_state:
  assumes "read_metadata_ref en mref s = Some (r, s')" and "rg_loaded (vf_segment_registry s)"
  shows "s' = s"
  using assms
  by (auto simp: read_metadata_ref_def ensure_segment_registry_loaded_def obind_def ogets_def olift_def
      oreturn_def Let_def split: sum.splits if_splits)

lemma read_frame_uri_state:
  assumes "read_frame_uri en fid s = Some (r, s')" and "rg_loaded (vf_segment_registry s)"
  shows "s' = s"
  using assms read_metadata_ref_state [OF _ assms(2)]
  by (auto simp: read_frame_uri_def obind_def ogets_def olift_def oreturn_def
      split: sum.splits option.splits)

lemma olift_Inl: "olift (Inl e) s = Some (Inl e, s)"
  by (simp add: olift_def)

lemma loaded_bind:
  "rg_loaded (vf_segment_registry s) \<Longrightarrow> obind (ensure_segment_registry_loaded en) c s = c () s"
  by (simp add: obind_def ensure_segment_registry_loaded_def)

lemma read_payload_state:
  assumes "read_payload en fid s = Some (r, s')" and ld: "rg_loaded (vf_segment_registry s)"
  shows "\<exists>v. s' = s\<lparr>vf_verified_payload_segments := v\<rparr>"
proof -
  have ref: "oread_payload_ref en seg pref s = Some (r, s') \<Longrightarrow> \<exists>v. s' = s\<lparr>vf_verified_payload_segments := v\<rparr>" for seg pref
    by (auto simp: oread_payload_ref_def split: sum.splits prod.splits)
  have map: "mmap_payload_ref en mm seg pref s = Some (r, s') \<Longrightarrow> \<exists>v. s' = s\<lparr>vf_verified_payload_segments := v\<rparr>" for mm seg pref
    by (auto simp: mmap_payload_ref_def obind_def ogets_def olift_def omodify_def oreturn_def
        split: sum.splits if_splits)
  show ?thesis
  proof (cases "vf_pending_payload_by_frame s fid")
    case (Some i)
    then show ?thesis using assms(1) by (simp add: read_payload_def olift_def)
  next
    case pend: None
    show ?thesis
    proof (cases "frame_full en fid s")
      case (Inl e)
      then show ?thesis using assms(1) pend by (auto simp: read_payload_def)
    next
      case x: (Inr x)
      show ?thesis
      proof (cases "fd_payload_encoding x = Enc_raw \<and> fd_payload_ref x \<noteq> None")
        case False
        then have "\<exists>e. read_payload en fid s = Some (Inl e, s)"
          by (cases "fd_payload_encoding x = Enc_raw")
            (simp_all add: read_payload_def pend x olift_Inl)
        then show ?thesis using assms(1) by auto
      next
        case True
        then obtain pref where pref: "fd_payload_encoding x = Enc_raw" "fd_payload_ref x = Some pref" by auto
        define seg where "seg = (case rg_by_id (vf_segment_registry s) (pr_segment_id pref) of
            Some r \<Rightarrow> r | None \<Rightarrow> legacy_offset_segment_ref (pr_segment_id pref))"
        define cmp where "cmp = (case lookup_by se_segment_id (pr_segment_id pref) (rg_catalog (vf_segment_registry s)) of
            Some e \<Rightarrow> se_compression e | None \<Rightarrow> CNone)"
        have "read_payload en fid s = (if cmp = CNone then
            (case mmap_covers s seg of Some mm \<Rightarrow> mmap_payload_ref en mm seg pref s
             | None \<Rightarrow> oread_payload_ref en seg pref s)
            else oread_payload_ref en seg pref s)"
          by (simp add: read_payload_def pend x pref loaded_bind ld Let_def seg_def [symmetric] cmp_def [symmetric]
              split: option.split)
        then show ?thesis
          using assms(1) ref map by (simp split: if_splits option.splits)
      qed
    qed
  qed
qed

lemma store_inv_verified: "store_inv en s M \<Longrightarrow> store_inv en (s\<lparr>vf_verified_payload_segments := v\<rparr>) M"
  by (simp add: store_inv_def handle_inv_def buffers_inv_def frame_ids_def payload_held_def uri_held_def
      cong: option.case_cong)


section \<open>Runs of operations on a handle\<close>

datatype handle_op =
    CreateCollection string i64
  | PutFrame "i64 result" put_frame_input
  | DeleteFrame "i64 result" u64
  | FlushPayloads
  | ReadPayload u64
  | ReadUri u64

datatype handle_out =
  OutCollection u32 | OutFrame u64 | OutUnit | OutBytes bytes | OutUri "bytes option"

definition omap :: "('a \<Rightarrow> 'b) \<Rightarrow> 'a op \<Rightarrow> 'b op" where
  "omap g m = obind m (\<lambda>v. oreturn (g v))"

fun handle_step :: "env \<Rightarrow> handle_op \<Rightarrow> handle_out op" where
  "handle_step en (CreateCollection name t) = omap OutCollection (create_collection_at en name t)"
| "handle_step en (PutFrame now input) = omap OutFrame (put_frame en now input)"
| "handle_step en (DeleteFrame now fid) = omap (\<lambda>_. OutUnit) (delete_frame en now fid)"
| "handle_step en FlushPayloads = omap (\<lambda>_. OutUnit) (flush_pending_payloads en)"
| "handle_step en (ReadPayload fid) = omap OutBytes (read_payload en fid)"
| "handle_step en (ReadUri fid) = omap OutUri (read_frame_uri en fid)"

fun is_panic :: "'a result \<Rightarrow> bool" where
  "is_panic (Inl (Panic m)) = True"
| "is_panic r = False"

text \<open>The results of a run, errors included; a panic unwinds through the handle and ends it.\<close>
fun run_handle :: "env \<Rightarrow> handle_op list \<Rightarrow> vfile \<Rightarrow> (handle_out result list \<times> vfile) option" where
  "run_handle en [] s = Some ([], s)"
| "run_handle en (c # cs) s =
     (case handle_step en c s of
        None \<Rightarrow> None
      | Some (r, s1) \<Rightarrow>
          if is_panic r then None
          else (case run_handle en cs s1 of None \<Rightarrow> None | Some (rs, s2) \<Rightarrow> Some (r # rs, s2)))"

lemma omap_Some: "omap g m s = Some (r, s') \<longleftrightarrow>
    (\<exists>r0. m s = Some (r0, s') \<and> r = (case r0 of Inl e \<Rightarrow> Inl e | Inr v \<Rightarrow> Inr (g v)))"
  by (auto simp: omap_def obind_def split: option.splits sum.splits prod.splits)

lemma not_panic: "\<not> is_panic (case r0 of Inl e \<Rightarrow> Inl e | Inr v \<Rightarrow> Inr (g v)) \<Longrightarrow> r0 \<noteq> Inl (Panic m)"
  by auto

subsection \<open>The file only grows\<close>

definition file_mono :: "'a op \<Rightarrow> bool" where
  "file_mono m \<longleftrightarrow> (\<forall>s r s'. m s = Some (r, s') \<longrightarrow> length (vf_file s) \<le> length (vf_file s'))"

lemma file_monoD: "file_mono m \<Longrightarrow> m s = Some (r, s') \<Longrightarrow> length (vf_file s) \<le> length (vf_file s')"
  by (simp add: file_mono_def)

lemma file_mono_basic [intro, simp]:
  "file_mono (oreturn v)" "file_mono (olift x)" "file_mono (ogets g)"
  "file_mono (oalloc al)" "file_mono (oregister e)"
  "(\<And>s. vf_file (k s) = vf_file s) \<Longrightarrow> file_mono (omodify k)"
  by (auto simp: file_mono_def olift_def ogets_def oalloc_def oregister_def omodify_def oreturn_def
      split: sum.splits prod.splits)

lemma file_mono_obind [intro]: "file_mono m \<Longrightarrow> (\<And>v. file_mono (g v)) \<Longrightarrow> file_mono (obind m g)"
  unfolding file_mono_def obind_def
  by (fastforce split: option.splits sum.splits prod.splits intro: order_trans)

lemma file_mono_if [intro]: "(b \<Longrightarrow> file_mono m) \<Longrightarrow> (\<not> b \<Longrightarrow> file_mono m') \<Longrightarrow> file_mono (if b then m else m')"
  by simp

lemma file_mono_option [intro]:
  "(\<And>x. file_mono (g x)) \<Longrightarrow> file_mono m \<Longrightarrow> file_mono (case z of None \<Rightarrow> m | Some x \<Rightarrow> g x)"
  by (simp split: option.split)

lemma file_mono_ensure [intro, simp]:
  "file_mono (ensure_write en)" "file_mono (ensure_segment_registry_loaded en)"
  by (auto simp: file_mono_def ensure_write_def ensure_segment_registry_loaded_def split: if_splits)
    (auto split: sum.split_asm)

lemma file_mono_resolve_uris [intro, simp]: "file_mono (resolve_uris en sid us m)"
  by (induction us arbitrary: m) (simp_all, (rule file_mono_obind, simp)+, simp)

lemma file_mono_payload_batch [intro, simp]: "file_mono (write_payload_batch en)"
  by (auto simp: file_mono_def write_payload_batch_def obind_def ogets_def olift_def omodify_def oalloc_def
      oregister_def oreturn_def append_compressed_eq split: option.splits sum.splits prod.splits)

lemma append_segment_grows:
  "append_segment_at_end h f sid ty n p = (seg, f') \<Longrightarrow> length f \<le> length f'"
  using append_segment_length [of f h sid ty n p] by simp

lemma file_mono_uri_batch [intro, simp]: "file_mono (write_uri_batch en)"
  by (auto simp: file_mono_def write_uri_batch_def obind_def ogets_def olift_def omodify_def oalloc_def
      oregister_def oreturn_def split: if_splits option.splits sum.splits prod.splits
      dest!: file_monoD [OF file_mono_resolve_uris] append_segment_grows)

lemma file_mono_settle [intro, simp]: "file_mono (settle_pending sid m)"
  by (auto simp: file_mono_def settle_pending_def Let_def olift_def omodify_def split: if_splits)

lemma file_mono_flush [intro, simp]: "file_mono (flush_pending_payloads en)"
  unfolding flush_pending_payloads_def by (intro file_mono_obind file_mono_if) simp_all

lemma file_mono_put_frame [intro, simp]: "file_mono (put_frame en now input)"
  unfolding put_frame_def buffer_payload_def buffer_uri_def
  by (intro file_mono_obind file_mono_if file_mono_option) auto

lemma file_mono_create_collection [intro, simp]: "file_mono (create_collection_at en name t)"
  unfolding create_collection_at_def by (intro file_mono_obind file_mono_if) auto

lemma file_mono_delete_frame [intro, simp]: "file_mono (delete_frame en now fid)"
proof -
  have "vf_file (tombstone_frame fid t s) = vf_file s" for t s
    by (simp add: tombstone_frame_def Let_def split: sum.split)
  then show ?thesis
    unfolding delete_frame_def by (intro file_mono_obind file_mono_if) auto
qed

lemma file_mono_reads [intro, simp]: "file_mono (read_payload en fid)" "file_mono (read_frame_uri en fid)"
proof -
  have "file_mono (oread_payload_ref en seg pref)" for seg pref
    by (auto simp: file_mono_def oread_payload_ref_def split: sum.splits)
  moreover have "file_mono (mmap_payload_ref en mm seg pref)" for mm seg pref
    unfolding mmap_payload_ref_def by (intro file_mono_obind file_mono_if) auto
  ultimately show "file_mono (read_payload en fid)"
    unfolding read_payload_def Let_def by (intro file_mono_obind file_mono_if file_mono_option) auto
  show "file_mono (read_frame_uri en fid)"
    unfolding read_frame_uri_def read_metadata_ref_def Let_def
    by (intro file_mono_obind file_mono_if file_mono_option) auto
qed

lemma file_mono_step: "file_mono (handle_step en c)"
  by (cases c) (auto simp: omap_def)

lemma run_handle_file: "run_handle en cs s = Some (rs, s') \<Longrightarrow> length (vf_file s) \<le> length (vf_file s')"
proof (induction cs arbitrary: s rs)
  case (Cons c cs)
  then obtain r s1 rs' where "handle_step en c s = Some (r, s1)" "run_handle en cs s1 = Some (rs', s')"
    by (auto split: option.splits if_splits)
  then show ?case using Cons.IH file_monoD [OF file_mono_step] by (blast intro: order_trans)
qed simp

subsection \<open>The invariant along a run\<close>

definition put_result :: "handle_op \<Rightarrow> handle_out result \<Rightarrow> (u64 \<times> bytes \<times> bytes option) option" where
  "put_result c r =
     (case (c, r) of
        (PutFrame now input, Inr (OutFrame fid)) \<Rightarrow> Some (fid, pf_payload input, pf_uri input)
      | _ \<Rightarrow> None)"

lemma put_result_other [simp]:
  "put_result (CreateCollection name t) r = None" "put_result (DeleteFrame now fid) r = None"
  "put_result FlushPayloads r = None" "put_result (ReadPayload fid) r = None" "put_result (ReadUri fid) r = None"
  by (simp_all add: put_result_def)

lemma handle_step_store:
  assumes env: "env_ok en" and inv: "store_inv en s M"
    and w: "handle_step en c s = Some (r, s')" and np: "\<not> is_panic r" and fit: "fits (length (vf_file s'))"
  shows "\<exists>M'. store_inv en s' M' \<and> M \<subseteq>\<^sub>m M' \<and>
    (\<forall>fid v. put_result c r = Some (fid, v) \<longrightarrow> M fid = None \<and> M' fid = Some v)"
proof -
  have ld: "rg_loaded (vf_segment_registry s)"
    using inv by (simp add: store_inv_def handle_inv_def)
  have keep: ?thesis if "store_inv en s' M" "put_result c r = None" using that by auto
  show ?thesis
  proof (cases c)
    case (PutFrame now input)
    then obtain r0 where w0: "put_frame en now input s = Some (r0, s')"
      and r: "r = (case r0 of Inl e \<Rightarrow> Inl e | Inr v \<Rightarrow> Inr (OutFrame v))"
      using w by (auto simp: omap_Some)
    have "r0 \<noteq> Inl (Panic m)" for m using np r by auto
    from put_frame_store [OF env inv w0 fit this] obtain M' where "store_inv en s' M'" "M \<subseteq>\<^sub>m M'"
      "\<And>fid. r0 = Inr fid \<Longrightarrow> M fid = None \<and> M' fid = Some (pf_payload input, pf_uri input)" by blast
    then show ?thesis
      by (intro exI [of _ M']) (auto simp: put_result_def PutFrame r split: sum.splits)
  next
    case (CreateCollection name t)
    then show ?thesis using w create_collection_store [OF inv] by (intro keep) (auto simp: omap_Some)
  next
    case (DeleteFrame now fid)
    then show ?thesis using w delete_frame_store [OF inv] by (intro keep) (auto simp: omap_Some)
  next
    case FlushPayloads
    then show ?thesis
      using w flush_pending_payloads_store(1) [OF env inv _ fit] by (intro keep) (auto simp: omap_Some)
  next
    case (ReadPayload fid)
    then obtain r0 where "read_payload en fid s = Some (r0, s')" using w by (auto simp: omap_Some)
    from read_payload_state [OF this ld] store_inv_verified [OF inv] show ?thesis
      by (intro keep) (auto simp: ReadPayload)
  next
    case (ReadUri fid)
    then obtain r0 where "read_frame_uri en fid s = Some (r0, s')" using w by (auto simp: omap_Some)
    from read_frame_uri_state [OF this ld] inv show ?thesis by (intro keep) (auto simp: ReadUri)
  qed
qed


definition put_results :: "handle_op list \<Rightarrow> handle_out result list \<Rightarrow> (u64 \<times> bytes \<times> bytes option) list" where
  "put_results cs rs = List.map_filter (\<lambda>(c, r). put_result c r) (zip cs rs)"

lemma put_results_Cons:
  "put_results (c # cs) (r # rs) =
     (case put_result c r of None \<Rightarrow> put_results cs rs | Some v \<Rightarrow> v # put_results cs rs)"
  by (simp add: put_results_def List.map_filter_simps split: option.split)

text \<open>Whatever a run does, the accepted frames are in the store, under distinct ids.\<close>
lemma run_handle_store:
  assumes env: "env_ok en"
  shows "store_inv en s M \<Longrightarrow> run_handle en cs s = Some (rs, s') \<Longrightarrow> fits (length (vf_file s')) \<Longrightarrow>
   \<exists>M'. store_inv en s' M' \<and> M \<subseteq>\<^sub>m M' \<and> distinct (map fst (put_results cs rs)) \<and>
     (\<forall>(fid, v)\<in>set (put_results cs rs). M fid = None \<and> M' fid = Some v)"
proof (induction cs arbitrary: s rs M)
  case Nil
  then show ?case by (auto simp: put_results_def List.map_filter_simps)
next
  case (Cons c cs)
  then obtain r s1 rs' where st: "handle_step en c s = Some (r, s1)" "\<not> is_panic r"
    and run: "run_handle en cs s1 = Some (rs', s')" and rs: "rs = r # rs'"
    by (auto split: option.splits if_splits)
  have "fits (length (vf_file s1))" using Cons.prems(3) run_handle_file [OF run] by (rule fits_mono)
  from handle_step_store [OF env Cons.prems(1) st this] obtain M1 where inv1: "store_inv en s1 M1"
    and le1: "M \<subseteq>\<^sub>m M1" and put: "\<And>fid v. put_result c r = Some (fid, v) \<Longrightarrow> M fid = None \<and> M1 fid = Some v"
    by blast
  from Cons.IH [OF inv1 run Cons.prems(3)] obtain M' where inv': "store_inv en s' M'" and le2: "M1 \<subseteq>\<^sub>m M'"
    and rest: "distinct (map fst (put_results cs rs'))"
      "\<And>fid v. (fid, v) \<in> set (put_results cs rs') \<Longrightarrow> M1 fid = None \<and> M' fid = Some v"
    by blast
  have none: "M fid = None" if "M1 fid = None" for fid
    using le1 that by (metis domIff map_le_def)
  have some: "M' fid = Some v" if "M1 fid = Some v" for fid v
    using le2 that by (metis domI map_le_def)
  show ?case
  proof (intro exI conjI)
    show "store_inv en s' M'" by fact
    show "M \<subseteq>\<^sub>m M'" using le1 le2 by (rule map_le_trans)
    show "distinct (map fst (put_results (c # cs) rs))"
      using rest put by (force simp: rs put_results_Cons split: option.split)
    show "\<forall>(fid, v)\<in>set (put_results (c # cs) rs). M fid = None \<and> M' fid = Some v"
      using rest(2) put none some by (auto simp: rs put_results_Cons split: option.splits)
  qed
qed

text \<open>A file just created has an empty store.\<close>
lemma created_store: "store_inv en (vfile_created f footer contract) Map.empty"
  by (auto simp: store_inv_def handle_inv_def buffers_inv_def vfile_created_def registry_below_def registry_ok_def
      catalog_below_def catalog_ok_default frame_ids_def catalog_snapshot_default_def fits_def table_empty
      catalog_ok_default [unfolded catalog_snapshot_default_def] id_allocator_default_def)


section \<open>Properties\<close>

lemma put_results_in:
  "(PutFrame now input, Inr (OutFrame fid)) \<in> set (zip cs rs) \<Longrightarrow>
   (fid, pf_payload input, pf_uri input) \<in> set (put_results cs rs)"
  by (force simp: put_results_def map_filter_def put_result_def)

text \<open>
  C24: Read your writes. Take any run of operations on a created file: collections created,
  frames put, deleted and read, buffers flushed, each operation succeeding or failing as the
  code decides. Then two accepted puts have different frame ids, and the payload of every
  accepted put is what \<open>read_payload\<close> returns at the end, wherever it is by then: in the
  pending buffer, or compressed in a segment of the file. No failing operation loses it.
\<close>
theorem accepted_frames_read_back:
  assumes "env_ok en" and "run_handle en cs (vfile_created f footer contract) = Some (rs, s)"
    and "fits (length (vf_file s))"
  shows "distinct (map fst (put_results cs rs)) \<and>
    (\<forall>now input fid. (PutFrame now input, Inr (OutFrame fid)) \<in> set (zip cs rs) \<longrightarrow>
       (\<exists>v. read_payload en fid s = Some (Inr (pf_payload input), s\<lparr>vf_verified_payload_segments := v\<rparr>)))"
proof -
  obtain M where "store_inv en s M" and "distinct (map fst (put_results cs rs))"
    "\<And>fid v. (fid, v) \<in> set (put_results cs rs) \<Longrightarrow> M fid = Some v"
    using run_handle_store [OF assms(1) created_store assms(2,3)] by blast
  then show ?thesis
    using read_payload_held [OF assms(1) _ assms(3)] by (blast dest: put_results_in)
qed

text \<open>An environment and a run for the examples.\<close>

definition ex_env :: env where
  "ex_env = \<lparr>en_hash = ex_hash, en_zstd_encode = Some, en_zstd_decode = Some,
     en_entry_bincode = \<lparr>encode_to_vec = (\<lambda>_. None), decode_from_slice = (\<lambda>_. None)\<rparr>,
     en_ref_bincode = ex_ref_bincode,
     en_frame_bincode = \<lparr>encode_to_vec = (\<lambda>_. None), decode_from_slice = (\<lambda>_. None)\<rparr>\<rparr>"

definition ex_input :: put_frame_input where
  "ex_input = \<lparr>pf_collection_id = 1, pf_role = Document, pf_payload = [7, 8, 9], pf_created_at = None,
     pf_updated_at = Some 4, pf_parent_frame_id = None, pf_chunk_index = None, pf_chunk_count = None,
     pf_uri = Some [1, 2]\<rparr>"

definition ex_ops :: "handle_op list" where
  "ex_ops = [CreateCollection ''c'' 0, PutFrame (Inr 5) ex_input]"

definition ex_created :: vfile where
  "ex_created = vfile_created [] \<lparr>tf_body = toc_body_empty 1 contract_default, tf_checksum = replicate 32 0\<rparr>
     contract_default"

lemma ex_env_ok: "env_ok ex_env"
  using ex_hash_ok by (simp add: env_ok_def ex_env_def)

lemma ex_run:
  "\<exists>s. run_handle ex_env ex_ops ex_created =
      Some ([Inr (OutCollection 1), Inr (OutFrame 1)], s) \<and> vf_file s = [] \<and>
      vf_pending_payload_frames s = [\<lparr>pp_frame_id = 1, pp_bytes_offset = 0, pp_bytes_length = 3\<rparr>] \<and>
      vf_pending_payload_buf s = [7, 8, 9] \<and>
      vf_pending_uris s = [\<lparr>pu_frame_id = 1, pu_bytes_offset = 0, pu_bytes_length = 2\<rparr>] \<and>
      vf_pending_uri_buf s = [1, 2] \<and> vf_mode s = ReadWrite \<and> rg_loaded (vf_segment_registry s) \<and>
      next_segment_id (vf_id_allocator s) = 1 \<and> cs_frames (vf_catalog s) = [new_frame ex_input 1 5]"
  by (simp add: ex_ops_def ex_created_def vfile_created_def omap_def create_collection_at_def put_frame_def oalloc_def
      allocate_collection_id_def allocate_frame_id_def id_allocator_default_def take_id_def validate_next_def
      next_id_def checked_add_def ensure_write_def ensure_segment_registry_loaded_def obind_def
      catalog_snapshot_default_def upsert_collection_def upsert_def binary_search_by_key_def vec_insert_def
      ex_input_def buffer_payload_def buffer_uri_def extend_from_slice_def PAYLOAD_BATCH_FLUSH_BYTES_def
      new_frame_def upsert_frame_def olift_def)

lemma accepted_frames_read_back_witness:
  "\<exists>s v. run_handle ex_env ex_ops ex_created =
      Some ([Inr (OutCollection 1), Inr (OutFrame 1)], s) \<and>
    read_payload ex_env 1 s = Some (Inr [7, 8, 9], s\<lparr>vf_verified_payload_segments := v\<rparr>)"
proof -
  obtain s where s: "run_handle ex_env ex_ops ex_created =
      Some ([Inr (OutCollection 1), Inr (OutFrame 1)], s)" "vf_file s = []" using ex_run by blast
  have i: "(PutFrame (Inr 5) ex_input, Inr (OutFrame 1)) \<in> set (zip ex_ops [Inr (OutCollection 1), Inr (OutFrame 1)])"
    by (simp add: ex_ops_def)
  have "fits (length (vf_file s))" by (simp add: s fits_def)
  from accepted_frames_read_back [OF ex_env_ok s(1) [unfolded ex_created_def] this] i
  obtain v where "read_payload ex_env 1 s = Some (Inr (pf_payload ex_input), s\<lparr>vf_verified_payload_segments := v\<rparr>)"
    by blast
  then show ?thesis using s(1) by (auto simp: ex_input_def)
qed


lemma ex_flush_run:
  assumes "vf_file s = []" and "vf_pending_payload_frames s = [\<lparr>pp_frame_id = 1, pp_bytes_offset = 0, pp_bytes_length = 3\<rparr>]"
    and "vf_pending_payload_buf s = [7, 8, 9]"
    and "vf_pending_uris s = [\<lparr>pu_frame_id = 1, pu_bytes_offset = 0, pu_bytes_length = 2\<rparr>]"
    and "vf_pending_uri_buf s = [1, 2]" and "next_segment_id (vf_id_allocator s) = 1"
    and "store_inv ex_env s M"
  shows "\<exists>s'. flush_pending_payloads ex_env s = Some (Inr (), s') \<and> fits (length (vf_file s'))"
proof -
  have h: "digest32 ex_hash" by (rule ex_hash_ok)
  have hi: "handle_inv s" using assms(7) by (simp add: store_inv_def)
  have env: "env_ok ex_env" by (rule ex_env_ok)
  let ?c = "[7, 8, 9] :: bytes"
  let ?seg = "\<lparr>sr_segment_id = 1, sr_offset = 0, sr_length = of_nat SEGMENT_HEADER_SIZE + of_nat (length ?c),
      sr_checksum = ex_hash ?c\<rparr>"
  have al: "allocate_segment_id (vf_id_allocator s) = Inr (1, (vf_id_allocator s)\<lparr>next_segment_id := 2\<rparr>)"
    by (simp add: allocate_segment_id_def take_id_def validate_next_def next_id_def checked_add_def assms(6))
  have al2: "allocate_segment_id ((vf_id_allocator s)\<lparr>next_segment_id := 2\<rparr>) = Inr (2, (vf_id_allocator s)\<lparr>next_segment_id := 3\<rparr>)"
    by (simp add: allocate_segment_id_def take_id_def validate_next_def next_id_def checked_add_def)
  obtain e where e: "compressed_segment_catalog_entry ex_hash 1 Payload 1 ?c 3 Zstd ?seg = Inr e"
    by (simp add: compressed_segment_catalog_entry_def checked_sub_def Let_def SEGMENT_HEADER_SIZE_def
        entry_validate_Inr rbind_def split: sum.split)
      (auto simp: entry_validate_def checked_add_def SEGMENT_HEADER_SIZE_def)
  let ?f = "segment_header_encode (segment_header_new ex_hash Payload 1 1 Zstd 3 ?c) @ ?c"
  obtain reg d where rs: "register_segment (vf_segment_registry s, vf_dirty_segment_ids s) e = (reg, d)" by fastforce
  let ?s1 = "s\<lparr>vf_id_allocator := (vf_id_allocator s)\<lparr>next_segment_id := 2\<rparr>, vf_file := ?f,
      vf_segment_registry := reg, vf_dirty_segment_ids := d\<rparr>"
  have n1: "u32_try_from (Suc 0) = Some 1" by (simp add: u32_try_from_def)
  have w1: "write_payload_batch ex_env s = Some (Inr 1, ?s1)"
    using e by (simp add: write_payload_batch_def obind_def oalloc_def al olift_def assms n1 ex_env_def
        append_compressed_eq oregister_def omodify_def rs)
  have f79: "length ?f = 79" using h by (simp add: segment_header_new_wf SEGMENT_HEADER_SIZE_def)
  have ff: "fits (length ?f)" unfolding f79 by (simp add: fits_def)
  let ?p = "[1, 2] :: bytes"
  let ?seg2 = "segment_ref_at_end ex_hash ?f 2 Metadata 1 ?p"
  let ?f2 = "?f @ segment_header_encode (segment_header_new ex_hash Metadata 2 1 CNone 2 ?p) @ ?p"
  have app: "append_segment_at_end ex_hash ?f 2 Metadata 1 ?p = (?seg2, ?f2)"
    using append_segment_at_end_eq [OF h ff, of 2 Metadata 1 ?p] by simp
  obtain e2 where e2: "catalog_entry_of ex_hash 2 Metadata 1 ?p ?seg2 = Inr e2"
    using catalog_entry_of_Inr [of ?p 2 ex_hash ?seg2 ?f Metadata 1] h by (auto simp: fits_def SEGMENT_HEADER_SIZE_def)
  obtain reg2 d2 where rs2: "register_segment (reg, d) e2 = (reg2, d2)" by fastforce
  have ir: "index_range [1, 2] 0 2 = Inr [1, 2]"
    by (simp add: index_range_def slice_def)
  obtain m s2 where w2: "write_uri_batch ex_env ?s1 = Some (Inr m, s2)" and f2: "vf_file s2 = ?f2"
    by (simp add: write_uri_batch_def obind_def oalloc_def al2 olift_def assms n1 ex_env_def app e2
        oregister_def omodify_def rs2 ir)
  have g1: "grown s ?s1" "vf_pending_uris ?s1 = vf_pending_uris s"
    using write_payload_batch_grown [OF hi w1] by auto
  have inv1: "store_inv ex_env ?s1 M" by (rule store_inv_grown [OF assms(7) g1])
  have len: "length ?f2 = 157" using h f79 by (simp add: segment_header_new_wf SEGMENT_HEADER_SIZE_def)
  then have fit2: "fits (length (vf_file s2))" unfolding f2 by (simp add: fits_def)
  have hi1: "handle_inv ?s1" and bi1: "buffers_inv ?s1" using inv1 by (simp_all add: store_inv_def)
  have post: "uri_batch_post ex_env ?s1 (Inr m) s2" by (rule write_uri_batch_spec [OF env hi1 bi1 w2 fit2])
  have g2: "grown ?s1 s2" and n2: "vf_pending_uris s2 = []" using post by (simp_all add: uri_batch_post_def)
  have bi2: "buffers_inv s2" using bi1 g2 n2 by (simp add: buffers_inv_def grown_def frame_ids_def)
  have "settle_pending 1 m s2 = Some (Inr (), settled 1 m s2)"
    using bi2 handle_inv_grown [OF hi1 g2] by (auto simp: handle_inv_def intro: settle_pending_eq)
  then have "flush_pending_payloads ex_env s = Some (Inr (), settled 1 m s2)"
    using w1 w2 assms(2) by (simp add: flush_pending_payloads_def obind_Some)
  moreover have "vf_file (settled 1 m s2) = vf_file s2" by (simp add: settled_def)
  ultimately show ?thesis using fit2 by simp
qed

text \<open>
  C31: The external identity keys survive the flush. After any run on a created file, a flush
  that succeeds leaves nothing pending, and every frame that was accepted during the run
  then reads back its payload and exactly the URI it was put with (none if there was none),
  from the metadata segment, through the memory map or the file.
\<close>
theorem flushed_uris_read_back:
  assumes "env_ok en" and "run_handle en cs (vfile_created f footer contract) = Some (rs, s)"
    and "flush_pending_payloads en s = Some (Inr (), s')" and "fits (length (vf_file s'))"
  shows "vf_pending_payload_frames s' = [] \<and> vf_pending_uris s' = [] \<and>
    (\<forall>now input fid. (PutFrame now input, Inr (OutFrame fid)) \<in> set (zip cs rs) \<longrightarrow>
       read_frame_uri en fid s' = Some (Inr (pf_uri input), s') \<and>
       (\<exists>v. read_payload en fid s' = Some (Inr (pf_payload input), s'\<lparr>vf_verified_payload_segments := v\<rparr>)))"
proof -
  have "fits (length (vf_file s))"
    using assms(4) file_monoD [OF file_mono_flush assms(3)] by (rule fits_mono)
  then obtain M where inv: "store_inv en s M" and M: "\<And>fid v. (fid, v) \<in> set (put_results cs rs) \<Longrightarrow> M fid = Some v"
    using run_handle_store [OF assms(1) created_store assms(2)] by blast
  note fl = flush_pending_payloads_store [OF assms(1) inv assms(3,4)]
  then have "vf_pending_payload_frames s' = [] \<and> vf_pending_uris s' = []" by simp
  then show ?thesis
    using read_payload_held [OF assms(1) fl(1) assms(4)] read_frame_uri_held [OF assms(1) fl(1) assms(4)] M
    by (simp add: put_results_in) (blast dest: put_results_in)
qed

lemma flushed_uris_read_back_witness:
  "\<exists>s s'. run_handle ex_env ex_ops ex_created = Some ([Inr (OutCollection 1), Inr (OutFrame 1)], s) \<and>
    flush_pending_payloads ex_env s = Some (Inr (), s') \<and>
    read_frame_uri ex_env 1 s' = Some (Inr (Some [1, 2]), s')"
proof -
  obtain s where s: "run_handle ex_env ex_ops ex_created = Some ([Inr (OutCollection 1), Inr (OutFrame 1)], s)"
    "vf_file s = []" "vf_pending_payload_frames s = [\<lparr>pp_frame_id = 1, pp_bytes_offset = 0, pp_bytes_length = 3\<rparr>]"
    "vf_pending_payload_buf s = [7, 8, 9]"
    "vf_pending_uris s = [\<lparr>pu_frame_id = 1, pu_bytes_offset = 0, pu_bytes_length = 2\<rparr>]"
    "vf_pending_uri_buf s = [1, 2]" "next_segment_id (vf_id_allocator s) = 1"
    using ex_run by blast
  have "fits (length (vf_file s))" by (simp add: s fits_def)
  then obtain M where "store_inv ex_env s M"
    using run_handle_store [OF ex_env_ok created_store s(1) [unfolded ex_created_def]] by blast
  then obtain s' where s': "flush_pending_payloads ex_env s = Some (Inr (), s')" "fits (length (vf_file s'))"
    using ex_flush_run s by blast
  have i: "(PutFrame (Inr 5) ex_input, Inr (OutFrame 1)) \<in> set (zip ex_ops [Inr (OutCollection 1), Inr (OutFrame 1)])"
    by (simp add: ex_ops_def)
  from flushed_uris_read_back [OF ex_env_ok s(1) [unfolded ex_created_def] s'] i
  have "read_frame_uri ex_env 1 s' = Some (Inr (pf_uri ex_input), s')" by blast
  then show ?thesis using s(1) s'(1) by (auto simp: ex_input_def)
qed

text \<open>
  C32: Deleting a frame. After any run on a created file, \<open>delete_frame\<close> succeeds exactly on an
  active frame (given a clock). It marks the frame tombstoned in the frame table and in the
  slim index the retrieval paths read, leaves every other frame as it was, keeps the number
  of tombstoned entries in the counter exact, and a second deletion of the same frame is an
  error that changes nothing. Everywhere else it is that error, and changes nothing.
\<close>
theorem delete_frame_tombstones:
  assumes "env_ok en" and "run_handle en cs (vfile_created f footer contract) = Some (rs, s)"
    and "fits (length (vf_file s))"
  defines "frames \<equiv> \<lambda>s k. lookup_by fd_frame_id k (cs_frames (vf_catalog s))"
    and "stubs \<equiv> \<lambda>s k. lookup_by st_frame_id k (cs_frame_stubs (vf_catalog s))"
    and "unknown \<equiv> Inl (Format ''unknown active frame id'')"
  shows "case frames s fid of
      Some x \<Rightarrow>
        if fd_status x = Frame_active
        then \<exists>s'. delete_frame en (Inr t) fid s = Some (Inr (), s') \<and>
          frames s' = (frames s)(fid \<mapsto> x\<lparr>fd_status := Frame_tombstoned, fd_role := Tombstone_role,
            fd_updated_at := t\<rparr>) \<and>
          stubs s' = (stubs s)(fid \<mapsto> \<lparr>st_frame_id = fid, st_status = Frame_tombstoned\<rparr>) \<and>
          vf_tombstoned_frame_count s' =
            length (filter (\<lambda>y. st_status y = Frame_tombstoned) (cs_frame_stubs (vf_catalog s'))) \<and>
          delete_frame en now fid s' = Some (unknown, s')
        else delete_frame en now fid s = Some (unknown, s)
    | None \<Rightarrow> delete_frame en now fid s = Some (unknown, s)"
proof -
  obtain M where inv: "store_inv en s M"
    using run_handle_store [OF assms(1) created_store assms(2,3)] by blast
  then have hi: "handle_inv s" by (simp add: store_inv_def)
  then have cok: "catalog_ok (vf_catalog s)" by (simp add: handle_inv_def catalog_below_def)
  show ?thesis
  proof (cases "\<exists>x. frames s fid = Some x \<and> fd_status x = Frame_active")
    case False
    then show ?thesis
      by (auto simp: frames_def unknown_def delete_frame_cases [OF hi] split: option.split)
  next
    case True
    then obtain x where x: "lookup_by fd_frame_id fid (cs_frames (vf_catalog s)) = Some x"
      and act: "fd_status x = Frame_active" by (auto simp: frames_def)
    let ?s = "tombstone_frame fid t s"
    note eq = tombstone_frame_eq [OF cok x act]
    have hi': "handle_inv ?s" by (rule tombstoned_handle [OF hi x act])
    have fr: "frames ?s = (frames s)(fid \<mapsto> tombstone t x)"
      and st: "stubs ?s = (stubs s)(fid \<mapsto> \<lparr>st_frame_id = fid, st_status = Frame_tombstoned\<rparr>)"
      using eq(2) by (auto simp: frames_def stubs_def eq(1) lookup_upsert_frame [OF cok] stub_of_def fun_eq_iff)
    have "delete_frame en (Inr t) fid s = Some (Inr (), ?s)"
      using x act by (simp add: delete_frame_cases [OF hi])
    moreover have "delete_frame en now fid ?s = Some (unknown, ?s)"
      using fun_cong [OF fr, of fid] by (simp add: delete_frame_cases [OF hi'] unknown_def frames_def)
    ultimately show ?thesis
      using x act fr st hi' by (auto simp: handle_inv_def tombstone_def frames_def)
  qed
qed

lemma delete_frame_tombstones_witness:
  "\<exists>s s'. run_handle ex_env ex_ops ex_created = Some ([Inr (OutCollection 1), Inr (OutFrame 1)], s) \<and>
    delete_frame ex_env (Inr 6) 1 s = Some (Inr (), s') \<and>
    delete_frame ex_env (Inr 7) 1 s' = Some (Inl (Format ''unknown active frame id''), s')"
proof -
  obtain s where s: "run_handle ex_env ex_ops ex_created = Some ([Inr (OutCollection 1), Inr (OutFrame 1)], s)"
    "vf_file s = []" "cs_frames (vf_catalog s) = [new_frame ex_input 1 5]" using ex_run by blast
  have "fits (length (vf_file s))" by (simp add: s fits_def)
  moreover have "lookup_by fd_frame_id 1 (cs_frames (vf_catalog s)) = Some (new_frame ex_input 1 5)"
    by (simp add: s(3) lookup_by_def binary_search_by_key_def bs_loop.simps)
  ultimately show ?thesis
    using delete_frame_tombstones [OF ex_env_ok s(1) [unfolded ex_created_def], where fid = 1 and t = 6 and now = "Inr 7"] s(1) by auto
qed

lemma take_id_Inl:
  fixes n :: "'a::len word"
  assumes "take_id n = Inl e" and "0 < unat n"
  shows "n = - 1"
proof -
  have le: "2 ^ LENGTH('a) \<le> unat n + 1"
    using assms by (auto simp: take_id_def validate_next_def next_id_def rbind_def ok_or_def checked_add_def
        split: if_splits option.splits)
  have "unat (- 1 :: 'a word) = 2 ^ LENGTH('a) - 1"
    by (simp add: unsigned_minus_1_eq_mask mask_eq_exp_minus_1)
  then have "unat n = unat (- 1 :: 'a word)"
    using le unsigned_less [where ?'a = nat, of n] by linarith
  then show ?thesis by (simp add: word_unat_eq_iff)
qed

text \<open>
  C33: Collection names. After any run on a created file no two live collections share a name,
  and \<open>create_collection_at\<close> either finds the name taken and changes no table, or adds it
  under an id that no collection had, or fails because the ids are exhausted.
\<close>
theorem collection_names_unique:
  assumes "env_ok en" and "run_handle en cs (vfile_created f footer contract) = Some (rs, s)"
    and "fits (length (vf_file s))"
  shows "distinct (live_names (cs_collections (vf_catalog s))) \<and>
    (\<exists>r s'. create_collection_at en name t s = Some (r, s') \<and>
      distinct (live_names (cs_collections (vf_catalog s'))) \<and>
      (case r of
         Inr cid \<Rightarrow> name \<notin> set (live_names (cs_collections (vf_catalog s))) \<and>
           cid \<notin> col_collection_id ` set (cs_collections (vf_catalog s)) \<and>
           name \<in> set (live_names (cs_collections (vf_catalog s')))
       | Inl e \<Rightarrow> vf_catalog s' = vf_catalog s \<and>
           (name \<in> set (live_names (cs_collections (vf_catalog s))) \<or>
            next_collection_id (vf_id_allocator s) = - 1)))"
proof -
  obtain M where inv: "store_inv en s M"
    using run_handle_store [OF assms(1) created_store assms(2,3)] by blast
  have uniq: "distinct (live_names (cs_collections (vf_catalog s)))" if "store_inv en s M" for s
    using that by (simp add: store_inv_def handle_inv_def catalog_below_def)
  have ld: "rg_loaded (vf_segment_registry s)" "vf_mode s = ReadWrite"
    using inv by (simp_all add: store_inv_def handle_inv_def)
  obtain r s' where w: "create_collection_at en name t s = Some (r, s')"
    by (cases "list_ex (\<lambda>c. col_name c = name \<and> col_flags c AND 1 = 0) (cs_collections (vf_catalog s))";
        cases "allocate_collection_id (vf_id_allocator s)")
      (auto simp: create_collection_at_def ld olift_Inl obind_def oalloc_def)
  have pos: "0 < unat (next_collection_id (vf_id_allocator s))"
    using inv by (simp add: store_inv_def handle_inv_def catalog_below_def)
  have "next_collection_id (vf_id_allocator s) = - 1" if "allocate_collection_id (vf_id_allocator s) = Inl e" for e
    using that pos by (auto simp: allocate_collection_id_def rbind_Inl_iff take_id_Inl)
  then have why: "name \<in> set (live_names (cs_collections (vf_catalog s))) \<or>
      next_collection_id (vf_id_allocator s) = - 1" if "r = Inl e" for e
    using w that by (auto simp: create_collection_at_def ld obind_def olift_def oalloc_def list_ex_iff
        split: if_splits sum.splits)
  note post = create_collection_store [OF inv w]
  show ?thesis
    using uniq [OF inv] uniq [of s'] w post why by (auto split: sum.splits)
qed

lemma collection_names_unique_witness:
  "\<exists>s r s'. run_handle ex_env ex_ops ex_created = Some ([Inr (OutCollection 1), Inr (OutFrame 1)], s) \<and>
    create_collection_at ex_env ''d'' 3 s = Some (r, s') \<and>
    distinct (live_names (cs_collections (vf_catalog s')))"
proof -
  obtain s where s: "run_handle ex_env ex_ops ex_created = Some ([Inr (OutCollection 1), Inr (OutFrame 1)], s)"
    "vf_file s = []" using ex_run by blast
  have "fits (length (vf_file s))" by (simp add: s fits_def)
  from collection_names_unique [OF ex_env_ok s(1) [unfolded ex_created_def] this, of "''d''" 3] s(1)
  show ?thesis by blast
qed

end
