(* ===== verification/Registration.thy ===== *)
theory Registration imports FrameStore CodecParams begin

text \<open>
  Registration of the schema objects of a file: analyzers, field schemas, retrieval and fusion
  profiles, text spaces, embedding spaces (src/file/registration.rs), vector codecs
  (src/file/codec_io.rs), the analyzers built for text spaces (src/text/analyzer.rs,
  src/file/internals.rs), and the caches and id counters rebuilt when a file is opened.

  The lemmas: references between the tables always resolve, the caches a handle maintains
  step by step are the ones the next open builds from the catalog, and what a failed codec
  registration leaves behind.
\<close>

section \<open>Analyzers\<close>

definition analyzer_from_desc :: "analyzer_desc \<Rightarrow> analyzer result" where
  "analyzer_from_desc d =
     (if an_tokenizer d \<noteq> UnicodeWords \<and> an_tokenizer d \<noteq> Whitespace
      then Inl (Unsupported ''Tokenizer is reserved for v2; v1 supports only UnicodeWords and Whitespace'')
      else Inr \<lparr>az_unicode_normalization = an_unicode_normalization d, az_case_fold = an_case_fold d,
        az_accent_fold = an_accent_fold d, az_tokenizer = an_tokenizer d,
        az_min_token_len = an_min_token_len d, az_max_token_len = an_max_token_len d,
        az_stopwords = an_stopwords d, az_english_possessive_strip = an_english_possessive_strip d,
        az_porter2 = (an_stemming d = Porter2English)\<rparr>)"

text \<open>\<open>iter().find(..)\<close> on a table.\<close>
definition find_by :: "('a \<Rightarrow> 'k) \<Rightarrow> 'k \<Rightarrow> 'a list \<Rightarrow> 'a option" where
  "find_by key k xs = List.find (\<lambda>x. key x = k) xs"

fun analyzers_of_spaces ::
  "analyzer_desc list \<Rightarrow> text_space_desc list \<Rightarrow> (u32 \<rightharpoonup> analyzer) \<Rightarrow> (u32 \<rightharpoonup> analyzer) result" where
  "analyzers_of_spaces analyzers [] cache = Inr cache"
| "analyzers_of_spaces analyzers (sp # sps) cache =
     rbind (ok_or (find_by an_analyzer_id (ts_analyzer_id sp) analyzers)
              (Integrity ''text_space references unknown analyzer_id'')) (\<lambda>d.
     rbind (analyzer_from_desc d) (\<lambda>az.
       analyzers_of_spaces analyzers sps (cache(ts_text_space_id sp \<mapsto> az))))"

definition build_analyzer_cache :: "catalog_snapshot \<Rightarrow> (u32 \<rightharpoonup> analyzer) result" where
  "build_analyzer_cache c = analyzers_of_spaces (cs_analyzers c) (cs_text_spaces c) Map.empty"

section \<open>Schema objects\<close>

definition register_analyzer :: "env \<Rightarrow> analyzer_desc \<Rightarrow> u32 op" where
  "register_analyzer en d =
     obind (ensure_write en) (\<lambda>_. obind ensure_text_enabled (\<lambda>_.
     obind (oalloc allocate_analyzer_id) (\<lambda>i.
     obind (omodify (\<lambda>s. s\<lparr>vf_catalog := upsert_analyzer (d\<lparr>an_analyzer_id := i\<rparr>) (vf_catalog s),
        vf_dirty_analyzer_ids := insert i (vf_dirty_analyzer_ids s), vf_dirty := True\<rparr>)) (\<lambda>_.
     oreturn i))))"

definition register_field_schema :: "env \<Rightarrow> field_schema_desc \<Rightarrow> u32 op" where
  "register_field_schema en d =
     obind (ensure_write en) (\<lambda>_. obind ensure_text_enabled (\<lambda>_.
     obind (oalloc allocate_field_schema_id) (\<lambda>i.
     obind (omodify (\<lambda>s. s\<lparr>vf_catalog := upsert_field_schema (d\<lparr>fs_field_schema_id := i\<rparr>) (vf_catalog s),
        vf_dirty_field_schema_ids := insert i (vf_dirty_field_schema_ids s), vf_dirty := True\<rparr>)) (\<lambda>_.
     oreturn i))))"

definition register_retrieval_profile :: "env \<Rightarrow> retrieval_profile_desc \<Rightarrow> u32 op" where
  "register_retrieval_profile en d =
     obind (ensure_write en) (\<lambda>_. obind ensure_text_enabled (\<lambda>_.
     obind (oalloc allocate_retrieval_profile_id) (\<lambda>i.
     obind (omodify (\<lambda>s. s\<lparr>vf_catalog := upsert_retrieval_profile (d\<lparr>rp_profile_id := i\<rparr>) (vf_catalog s),
        vf_dirty_retrieval_profile_ids := insert i (vf_dirty_retrieval_profile_ids s), vf_dirty := True\<rparr>)) (\<lambda>_.
     oreturn i))))"

text \<open>
  \<open>FusionProfileDesc::validate\<close>. The four weights are finite and not negative when their sum
  is tested; such a sum is \<open><= 0.0\<close> exactly when all of them are zeros.
\<close>
definition f32_is_zero :: "f32_bits \<Rightarrow> bool" where
  "f32_is_zero b = (b = 0 \<or> b = 0x80000000)"

fun fusion_weights_ok :: "f32_bits list \<Rightarrow> unit result" where
  "fusion_weights_ok [] = Inr ()"
| "fusion_weights_ok (w # ws) =
     (if \<not> f32_is_finite w then Inl (Format ''FusionProfileDesc weight must be finite'')
      else if bit w 31 \<and> \<not> f32_is_zero w then Inl (Format ''FusionProfileDesc weight must be non-negative'')
      else fusion_weights_ok ws)"

definition fusion_profile_validate :: "fusion_profile_desc \<Rightarrow> unit result" where
  "fusion_profile_validate d =
     (let ws = [fp_bm25_weight d, fp_tfidf_weight d, fp_jaccard_weight d, fp_vector_weight d] in
      rbind (fusion_weights_ok ws) (\<lambda>_.
      if list_all f32_is_zero ws
      then Inl (Format ''FusionProfileDesc requires at least one positive channel weight'')
      else if fp_normalization d = Rrf 0 then Inl (Format ''FusionProfileDesc RRF k must be >= 1'')
      else Inr ()))"

definition register_fusion_profile :: "env \<Rightarrow> fusion_profile_desc \<Rightarrow> u32 op" where
  "register_fusion_profile en d =
     obind (ensure_write en) (\<lambda>_. obind (olift (fusion_profile_validate d)) (\<lambda>_.
     obind (oalloc allocate_fusion_profile_id) (\<lambda>i.
     obind (omodify (\<lambda>s. s\<lparr>vf_catalog := upsert_fusion_profile (d\<lparr>fp_fusion_profile_id := i\<rparr>) (vf_catalog s),
        vf_dirty_fusion_profile_ids := insert i (vf_dirty_fusion_profile_ids s), vf_dirty := True\<rparr>)) (\<lambda>_.
     oreturn i))))"

definition register_text_space :: "env \<Rightarrow> text_space_desc \<Rightarrow> u32 op" where
  "register_text_space en d =
     obind (ensure_write en) (\<lambda>_. obind ensure_text_enabled (\<lambda>_.
     obind (ogets vf_catalog) (\<lambda>c.
     if \<not> list_ex (\<lambda>a. an_analyzer_id a = ts_analyzer_id d) (cs_analyzers c)
       then olift (Inl (Format ''register_text_space: unknown analyzer_id''))
     else if \<not> list_ex (\<lambda>f. fs_field_schema_id f = ts_field_schema_id d) (cs_field_schemas c)
       then olift (Inl (Format ''register_text_space: unknown field_schema_id''))
     else if \<not> list_ex (\<lambda>p. rp_profile_id p = ts_default_profile_id d) (cs_retrieval_profiles c)
       then olift (Inl (Format ''register_text_space: unknown default_profile_id''))
     else
     obind (oalloc allocate_text_space_id) (\<lambda>i.
     obind (olift (ok_or (find_by an_analyzer_id (ts_analyzer_id d) (cs_analyzers c))
       (Panic ''BUG: analyzer existence checked above''))) (\<lambda>adesc.
     obind (olift (analyzer_from_desc adesc)) (\<lambda>az.
     obind (omodify (\<lambda>s. s\<lparr>vf_catalog := upsert_text_space (d\<lparr>ts_text_space_id := i\<rparr>) (vf_catalog s),
        vf_dirty_text_space_ids := insert i (vf_dirty_text_space_ids s),
        vf_analyzer_cache := (vf_analyzer_cache s)(i \<mapsto> az),
        vf_text_space_states := insert i (vf_text_space_states s), vf_dirty := True\<rparr>)) (\<lambda>_.
     oreturn i)))))))"

section \<open>Embedding spaces\<close>

record embedding_space_spec =
  sp_provider :: string
  sp_model :: string
  sp_dimension :: u32
  sp_metric :: vector_metric
  sp_normalized :: bool
  sp_dtype :: dtype
  sp_primary_codec_id :: "u32 option"
  sp_secondary_codec_id :: "u32 option"

text \<open>The checks on the primary codec of a space that names one.\<close>
definition primary_codec_ok :: "embedding_space_spec \<Rightarrow> codec_desc list \<Rightarrow> (u32 \<rightharpoonup> cached_codec) \<Rightarrow> unit result" where
  "primary_codec_ok spec codecs cache =
     (case sp_primary_codec_id spec of
        None \<Rightarrow> Inr ()
      | Some pid \<Rightarrow>
          rbind (ok_or (find_by cd_codec_id pid codecs)
            (Format ''register_embedding_space: unknown primary_codec_id'')) (\<lambda>d.
          if cd_family d = LegacyInt4PcaZero
          then Inl (Unsupported ''register_embedding_space: Int4PcaZero codec family is no longer supported'')
          else rbind (ok_or (cache pid) (Integrity ''register_embedding_space: codec not in cache'')) (\<lambda>codec.
          if cc_dimension codec \<noteq> sp_dimension spec
          then Inl (Format ''register_embedding_space: primary codec dim != spec dim'')
          else Inr ())))"

definition embedding_space_desc_of :: "embedding_space_spec \<Rightarrow> u32 \<Rightarrow> embedding_space_desc" where
  "embedding_space_desc_of spec i =
     \<lparr>es_embedding_space_id = i, es_provider = sp_provider spec, es_model = sp_model spec,
      es_dimension = sp_dimension spec, es_metric = sp_metric spec, es_normalized = sp_normalized spec,
      es_dtype = sp_dtype spec, es_primary_codec_id = sp_primary_codec_id spec,
      es_secondary_codec_id = sp_secondary_codec_id spec, es_flags = 0\<rparr>"

definition register_embedding_space :: "env \<Rightarrow> embedding_space_spec \<Rightarrow> u32 op" where
  "register_embedding_space en spec =
     obind (ensure_write en) (\<lambda>_.
     obind (ogets vf_create_contract) (\<lambda>contract.
     if cc_max_dim contract < sp_dimension spec
       then olift (Inl (Unsupported ''register_embedding_space: dimension exceeds contract.max_dim''))
     else if \<not> dtype_set_contains (dtype_from_bits_truncate (cc_allowed_dtypes contract))
         (as_set_bit (sp_dtype spec))
       then olift (Inl (Unsupported ''register_embedding_space: dtype not in contract.allowed_dtypes''))
     else if is_f8 (sp_dtype spec) \<and> sp_primary_codec_id spec \<noteq> None
       then olift (Inl (Format ''register_embedding_space: f8 spaces must not register a primary codec''))
     else if \<not> is_f8 (sp_dtype spec) \<and> sp_primary_codec_id spec = None
       then olift (Inl (Format ''register_embedding_space: non-f8 spaces must register a primary codec''))
     else
     obind (ogets (\<lambda>s. primary_codec_ok spec (cs_codecs (vf_catalog s)) (vf_codec_cache s))) (\<lambda>checked.
     obind (olift checked) (\<lambda>_.
     if sp_secondary_codec_id spec \<noteq> None
       then olift (Inl (Unsupported ''register_embedding_space: secondary_codec_id is unused''))
     else
     obind (oalloc allocate_embedding_space_id) (\<lambda>i.
     obind (omodify (\<lambda>s. s\<lparr>
        vf_catalog := upsert_embedding_space (embedding_space_desc_of spec i) (vf_catalog s),
        vf_dirty_embedding_space_ids := insert i (vf_dirty_embedding_space_ids s), vf_dirty := True\<rparr>)) (\<lambda>_.
     oreturn i))))))"

section \<open>Codecs\<close>

definition compute_codec_deterministic_id :: "hash \<Rightarrow> codec_params \<Rightarrow> bytes \<Rightarrow> checksum" where
  "compute_codec_deterministic_id h cp payload =
     h (u32_le (family_discriminant cp) @ u16_le (wire_version cp) @ payload)"

definition register_codec :: "env \<Rightarrow> codec_params \<Rightarrow> u32 op" where
  "register_codec en cp =
     obind (ensure_write en) (\<lambda>_.
     obind (olift (cp_encode cp)) (\<lambda>params_bytes.
     obind (oalloc allocate_segment_id) (\<lambda>sid.
     obind (ogets (\<lambda>s. segment_ref_at_end (en_hash en) (vf_file s) sid CodecParams 1 params_bytes)) (\<lambda>params_segment.
     obind (oalloc allocate_codec_id) (\<lambda>cid.
     let desc = \<lparr>cd_codec_id = cid, cd_family = cp_family cp, cd_version = wire_version cp,
           cd_params_ref = params_segment,
           cd_deterministic_id = compute_codec_deterministic_id (en_hash en) cp params_bytes\<rparr> in
     obind (olift (codec_desc_validate desc)) (\<lambda>_.
     obind (omodify (\<lambda>s. s\<lparr>vf_file := snd (append_segment_at_end (en_hash en) (vf_file s) sid CodecParams 1
        params_bytes)\<rparr>)) (\<lambda>_.
     obind (olift (catalog_entry_of (en_hash en) sid CodecParams 1 params_bytes params_segment)) (\<lambda>e.
     obind (oregister e) (\<lambda>_.
     obind (omodify (\<lambda>s. s\<lparr>vf_catalog := upsert_codec desc (vf_catalog s),
        vf_dirty_codec_ids := insert cid (vf_dirty_codec_ids s), vf_dirty := True\<rparr>)) (\<lambda>_.
     obind (olift (cp_instantiate cp)) (\<lambda>codec.
     obind (omodify (\<lambda>s. s\<lparr>vf_codec_cache := (vf_codec_cache s)(cid \<mapsto> codec)\<rparr>)) (\<lambda>_.
     oreturn cid))))))))))))"

definition read_codec_params :: "env \<Rightarrow> u32 \<Rightarrow> vfile \<Rightarrow> codec_params result" where
  "read_codec_params en cid s =
     rbind (ok_or (find_by cd_codec_id cid (cs_codecs (vf_catalog s))) (Format ''codec_params: unknown codec'')) (\<lambda>d.
     rbind (read_segment_payload_typed (en_hash en) (en_zstd_decode en) (vf_file s) (cd_params_ref d) CodecParams)
       (\<lambda>bs. cp_decode (cd_family d) bs))"

text \<open>At open: every codec of the catalog is decoded and instantiated, or the open fails.\<close>
fun codecs_into_cache ::
  "hash \<Rightarrow> zstd_decode \<Rightarrow> storage \<Rightarrow> codec_desc list \<Rightarrow> (u32 \<rightharpoonup> cached_codec) \<Rightarrow> (u32 \<rightharpoonup> cached_codec) result" where
  "codecs_into_cache h unz f [] cache = Inr cache"
| "codecs_into_cache h unz f (d # ds) cache =
     rbind (codec_desc_validate d) (\<lambda>_.
     rbind (read_segment_payload_typed h unz f (cd_params_ref d) CodecParams) (\<lambda>bs.
     rbind (case cp_decode (cd_family d) bs of
              Inl (Panic m) \<Rightarrow> Inl (Panic m)
            | Inl e \<Rightarrow> Inl (Unsupported ''build_codec_cache: codec'')
            | Inr cp \<Rightarrow> Inr cp) (\<lambda>cp.
     rbind (cp_instantiate cp) (\<lambda>codec.
       codecs_into_cache h unz f ds (cache(cd_codec_id d \<mapsto> codec))))))"

definition build_codec_cache ::
  "hash \<Rightarrow> zstd_decode \<Rightarrow> storage \<Rightarrow> codec_desc list \<Rightarrow> (u32 \<rightharpoonup> cached_codec) result" where
  "build_codec_cache h unz f codecs = codecs_into_cache h unz f codecs Map.empty"

section \<open>Id counters at open\<close>

text \<open>A failing observation is the panic of its \<open>expect\<close>.\<close>
fun observe_all :: "'i observation \<Rightarrow> 'i list \<Rightarrow> id_allocator \<Rightarrow> id_allocator result" where
  "observe_all obs [] a = Inr a"
| "observe_all obs (i # ids) a =
     (case obs a i of
        Inl e \<Rightarrow> Inl (Panic ''BUG: valid ID from decoded catalog'')
      | Inr a' \<Rightarrow> observe_all obs ids a')"

definition observe_catalog_ids :: "catalog_snapshot \<Rightarrow> id_allocator \<Rightarrow> id_allocator result" where
  "observe_catalog_ids c a =
     rbind (observe_all observe_collection_id (map col_collection_id (cs_collections c)) a) (\<lambda>a.
     rbind (observe_all observe_frame_id (map fd_frame_id (cs_frames c)) a) (\<lambda>a.
     rbind (observe_all observe_embedding_space_id (map es_embedding_space_id (cs_embedding_spaces c)) a) (\<lambda>a.
     rbind (observe_all observe_codec_id (map cd_codec_id (cs_codecs c)) a) (\<lambda>a.
     rbind (observe_all observe_vector_id (map vd_vector_id (cs_vectors c)) a) (\<lambda>a.
     rbind (observe_all observe_text_space_id (map ts_text_space_id (cs_text_spaces c)) a) (\<lambda>a.
     rbind (observe_all observe_analyzer_id (map an_analyzer_id (cs_analyzers c)) a) (\<lambda>a.
     rbind (observe_all observe_field_schema_id (map fs_field_schema_id (cs_field_schemas c)) a) (\<lambda>a.
     rbind (observe_all observe_retrieval_profile_id (map rp_profile_id (cs_retrieval_profiles c)) a) (\<lambda>a.
     observe_all observe_fusion_profile_id (map fp_fusion_profile_id (cs_fusion_profiles c)) a)))))))))"


section \<open>The schema invariant\<close>

text \<open>A sorted table whose ids the counter has passed.\<close>
definition table_below :: "('a \<Rightarrow> 'w::len word) \<Rightarrow> 'a list \<Rightarrow> 'w word \<Rightarrow> bool" where
  "table_below key xs n \<longleftrightarrow> strict_by key xs \<and> (\<forall>x\<in>set xs. unat (key x) < unat n)"

lemma table_below_mono: "table_below key xs n \<Longrightarrow> unat n \<le> unat m \<Longrightarrow> table_below key xs m"
  by (auto simp: table_below_def)

text \<open>A fresh id goes to the end.\<close>
lemma upsert_fresh:
  assumes "table_below key xs n" and "unat (key x) = unat n" and "unat m = Suc (unat n)"
  shows "upsert key x xs = xs @ [x]" and "table_below key (upsert key x xs) m"
proof -
  have lt: "\<forall>y\<in>set xs. key y < key x" and srt: "strict_by key xs"
    using assms by (auto simp: table_below_def word_less_nat_alt)
  show "upsert key x xs = xs @ [x]" by (rule upsert_append [OF srt lt])
  then show "table_below key (upsert key x xs) m"
    using assms strict_by_upsert [OF srt, of x] by (auto simp: table_below_def)
qed

definition schema_below :: "catalog_snapshot \<Rightarrow> id_allocator \<Rightarrow> bool" where
  "schema_below c a \<longleftrightarrow>
     table_below an_analyzer_id (cs_analyzers c) (next_analyzer_id a) \<and>
     table_below fs_field_schema_id (cs_field_schemas c) (next_field_schema_id a) \<and>
     table_below rp_profile_id (cs_retrieval_profiles c) (next_retrieval_profile_id a) \<and>
     table_below ts_text_space_id (cs_text_spaces c) (next_text_space_id a) \<and>
     table_below es_embedding_space_id (cs_embedding_spaces c) (next_embedding_space_id a) \<and>
     table_below cd_codec_id (cs_codecs c) (next_codec_id a) \<and>
     table_below fp_fusion_profile_id (cs_fusion_profiles c) (next_fusion_profile_id a)"

definition text_space_ok :: "catalog_snapshot \<Rightarrow> text_space_desc \<Rightarrow> bool" where
  "text_space_ok c t \<longleftrightarrow> ts_analyzer_id t \<in> an_analyzer_id ` set (cs_analyzers c) \<and>
     ts_field_schema_id t \<in> fs_field_schema_id ` set (cs_field_schemas c) \<and>
     ts_default_profile_id t \<in> rp_profile_id ` set (cs_retrieval_profiles c)"

definition embedding_space_ok ::
  "create_contract \<Rightarrow> codec_desc list \<Rightarrow> (u32 \<rightharpoonup> cached_codec) \<Rightarrow> embedding_space_desc \<Rightarrow> bool" where
  "embedding_space_ok contract codecs cache e \<longleftrightarrow>
     unat (es_dimension e) \<le> unat (cc_max_dim contract) \<and>
     dtype_set_contains (dtype_from_bits_truncate (cc_allowed_dtypes contract)) (as_set_bit (es_dtype e)) \<and>
     (is_f8 (es_dtype e) \<longleftrightarrow> es_primary_codec_id e = None) \<and> es_secondary_codec_id e = None \<and>
     (\<forall>pid. es_primary_codec_id e = Some pid \<longrightarrow>
        (\<exists>d\<in>set codecs. cd_codec_id d = pid \<and> cd_family d \<noteq> LegacyInt4PcaZero) \<and>
        (\<exists>codec. cache pid = Some codec \<and> cc_dimension codec = es_dimension e))"

definition schema_inv :: "vfile \<Rightarrow> bool" where
  "schema_inv s \<longleftrightarrow> schema_below (vf_catalog s) (vf_id_allocator s) \<and>
     (\<forall>t\<in>set (cs_text_spaces (vf_catalog s)). text_space_ok (vf_catalog s) t) \<and>
     (\<forall>e\<in>set (cs_embedding_spaces (vf_catalog s)).
        embedding_space_ok (vf_create_contract s) (cs_codecs (vf_catalog s)) (vf_codec_cache s) e) \<and>
     build_analyzer_cache (vf_catalog s) = Inr (vf_analyzer_cache s) \<and>
     vf_text_space_states s = ts_text_space_id ` set (cs_text_spaces (vf_catalog s)) \<and>
     dom (vf_codec_cache s) \<subseteq> cd_codec_id ` set (cs_codecs (vf_catalog s))"

text \<open>A step that leaves the schema alone: ids may be spent and the file may grow.\<close>
definition beside :: "vfile \<Rightarrow> vfile \<Rightarrow> bool" where
  "beside s s' \<longleftrightarrow> (\<exists>g. vf_file s' = vf_file s @ g) \<and>
     vf_create_contract s' = vf_create_contract s \<and> vf_codec_cache s' = vf_codec_cache s \<and>
     vf_analyzer_cache s' = vf_analyzer_cache s \<and> vf_text_space_states s' = vf_text_space_states s \<and>
     cs_analyzers (vf_catalog s') = cs_analyzers (vf_catalog s) \<and>
     cs_field_schemas (vf_catalog s') = cs_field_schemas (vf_catalog s) \<and>
     cs_retrieval_profiles (vf_catalog s') = cs_retrieval_profiles (vf_catalog s) \<and>
     cs_text_spaces (vf_catalog s') = cs_text_spaces (vf_catalog s) \<and>
     cs_embedding_spaces (vf_catalog s') = cs_embedding_spaces (vf_catalog s) \<and>
     cs_codecs (vf_catalog s') = cs_codecs (vf_catalog s) \<and>
     cs_fusion_profiles (vf_catalog s') = cs_fusion_profiles (vf_catalog s) \<and>
     unat (next_analyzer_id (vf_id_allocator s)) \<le> unat (next_analyzer_id (vf_id_allocator s')) \<and>
     unat (next_field_schema_id (vf_id_allocator s)) \<le> unat (next_field_schema_id (vf_id_allocator s')) \<and>
     unat (next_retrieval_profile_id (vf_id_allocator s)) \<le> unat (next_retrieval_profile_id (vf_id_allocator s')) \<and>
     unat (next_text_space_id (vf_id_allocator s)) \<le> unat (next_text_space_id (vf_id_allocator s')) \<and>
     unat (next_embedding_space_id (vf_id_allocator s)) \<le> unat (next_embedding_space_id (vf_id_allocator s')) \<and>
     unat (next_codec_id (vf_id_allocator s)) \<le> unat (next_codec_id (vf_id_allocator s')) \<and>
     unat (next_fusion_profile_id (vf_id_allocator s)) \<le> unat (next_fusion_profile_id (vf_id_allocator s'))"

lemma beside_refl [simp]: "beside s s"
  by (simp add: beside_def)

lemma beside_trans: "beside s s1 \<Longrightarrow> beside s1 s2 \<Longrightarrow> beside s s2"
  by (auto simp: beside_def)

lemma schema_inv_beside: "schema_inv s \<Longrightarrow> beside s s' \<Longrightarrow> schema_inv s'"
  by (auto simp: schema_inv_def beside_def schema_below_def text_space_ok_def build_analyzer_cache_def
      elim: table_below_mono)

lemma schema_inv_created: "schema_inv (vfile_created f footer contract)"
  by (simp add: schema_inv_def vfile_created_def schema_below_def table_below_def catalog_snapshot_default_def
      build_analyzer_cache_def)

subsection \<open>The analyzer cache\<close>

lemma find_by_append: "find_by key k xs = Some x \<Longrightarrow> find_by key k (xs @ ys) = Some x"
  by (induction xs) (auto simp: find_by_def)

lemma find_by_None: "find_by key k xs = None \<longleftrightarrow> k \<notin> key ` set xs"
  by (auto simp: find_by_def find_None_iff)

lemma find_by_Some: "find_by key k xs = Some x \<Longrightarrow> x \<in> set xs \<and> key x = k"
  by (auto simp: find_by_def find_Some_iff)

lemma analyzers_of_spaces_more:
  "analyzers_of_spaces xs sps m = Inr r \<Longrightarrow> analyzers_of_spaces (xs @ ys) sps m = Inr r"
  by (induction sps arbitrary: m) (auto simp: rbind_Inr_iff find_by_append)

lemma analyzers_of_spaces_snoc:
  assumes "analyzers_of_spaces xs sps m = Inr r" and "find_by an_analyzer_id (ts_analyzer_id sp) xs = Some d"
    and "analyzer_from_desc d = Inr az"
  shows "analyzers_of_spaces xs (sps @ [sp]) m = Inr (r(ts_text_space_id sp \<mapsto> az))"
  using assms by (induction sps arbitrary: m) (auto simp: rbind_Inr_iff)

subsection \<open>One registration\<close>

text \<open>Analyzers, field schemas, profiles: the id is spent exactly when the object is in its table.\<close>
lemma register_analyzer_cases:
  assumes "rg_loaded (vf_segment_registry s)" and "vf_mode s = ReadWrite"
    and "register_analyzer en d s = Some (r, s')"
  obtains (failed) e where "r = Inl e" "s' = s"
  | (ok) i a where "r = Inr i" "allocate_analyzer_id (vf_id_allocator s) = Inr (i, a)"
      "s' = s\<lparr>vf_id_allocator := a, vf_catalog := upsert_analyzer (d\<lparr>an_analyzer_id := i\<rparr>) (vf_catalog s),
         vf_dirty_analyzer_ids := insert i (vf_dirty_analyzer_ids s), vf_dirty := True\<rparr>"
proof (cases "cc_text_enabled (vf_create_contract s)")
  case False
  then have "\<exists>e. r = Inl e \<and> s' = s"
    using assms by (auto simp: register_analyzer_def ensure_text_enabled_def obind_def [of "ensure_write en"] obind_def [of ensure_text_enabled])
  then show ?thesis using failed by blast
next
  case True
  show ?thesis
  proof (cases "allocate_analyzer_id (vf_id_allocator s)")
    case (Inl e)
    then have "r = Inl e \<and> s' = s"
      using assms True by (simp add: register_analyzer_def ensure_text_enabled_def obind_def [of "ensure_write en"] obind_def [of ensure_text_enabled] oalloc_def obind_def [of "oalloc z" for z])
    then show ?thesis using failed by blast
  next
    case (Inr p)
    then obtain i a where al: "allocate_analyzer_id (vf_id_allocator s) = Inr (i, a)" by (cases p) auto
    show ?thesis
      using assms True al ok [OF _ al]
      by (simp add: register_analyzer_def ensure_text_enabled_def obind_def [of "ensure_write en"] obind_def [of ensure_text_enabled] oalloc_def obind_def [of "oalloc z" for z])
  qed
qed

lemma register_field_schema_cases:
  assumes "rg_loaded (vf_segment_registry s)" and "vf_mode s = ReadWrite"
    and "register_field_schema en d s = Some (r, s')"
  obtains (failed) e where "r = Inl e" "s' = s"
  | (ok) i a where "r = Inr i" "allocate_field_schema_id (vf_id_allocator s) = Inr (i, a)"
      "s' = s\<lparr>vf_id_allocator := a, vf_catalog := upsert_field_schema (d\<lparr>fs_field_schema_id := i\<rparr>) (vf_catalog s),
         vf_dirty_field_schema_ids := insert i (vf_dirty_field_schema_ids s), vf_dirty := True\<rparr>"
proof (cases "cc_text_enabled (vf_create_contract s)")
  case False
  then have "\<exists>e. r = Inl e \<and> s' = s"
    using assms by (auto simp: register_field_schema_def ensure_text_enabled_def obind_def [of "ensure_write en"] obind_def [of ensure_text_enabled])
  then show ?thesis using failed by blast
next
  case True
  show ?thesis
  proof (cases "allocate_field_schema_id (vf_id_allocator s)")
    case (Inl e)
    then have "r = Inl e \<and> s' = s"
      using assms True by (simp add: register_field_schema_def ensure_text_enabled_def obind_def [of "ensure_write en"] obind_def [of ensure_text_enabled] oalloc_def obind_def [of "oalloc z" for z])
    then show ?thesis using failed by blast
  next
    case (Inr p)
    then obtain i a where al: "allocate_field_schema_id (vf_id_allocator s) = Inr (i, a)" by (cases p) auto
    show ?thesis
      using assms True al ok [OF _ al]
      by (simp add: register_field_schema_def ensure_text_enabled_def obind_def [of "ensure_write en"] obind_def [of ensure_text_enabled] oalloc_def obind_def [of "oalloc z" for z])
  qed
qed

lemma register_retrieval_profile_cases:
  assumes "rg_loaded (vf_segment_registry s)" and "vf_mode s = ReadWrite"
    and "register_retrieval_profile en d s = Some (r, s')"
  obtains (failed) e where "r = Inl e" "s' = s"
  | (ok) i a where "r = Inr i" "allocate_retrieval_profile_id (vf_id_allocator s) = Inr (i, a)"
      "s' = s\<lparr>vf_id_allocator := a, vf_catalog := upsert_retrieval_profile (d\<lparr>rp_profile_id := i\<rparr>) (vf_catalog s),
         vf_dirty_retrieval_profile_ids := insert i (vf_dirty_retrieval_profile_ids s), vf_dirty := True\<rparr>"
proof (cases "cc_text_enabled (vf_create_contract s)")
  case False
  then have "\<exists>e. r = Inl e \<and> s' = s"
    using assms by (auto simp: register_retrieval_profile_def ensure_text_enabled_def obind_def [of "ensure_write en"] obind_def [of ensure_text_enabled])
  then show ?thesis using failed by blast
next
  case True
  show ?thesis
  proof (cases "allocate_retrieval_profile_id (vf_id_allocator s)")
    case (Inl e)
    then have "r = Inl e \<and> s' = s"
      using assms True by (simp add: register_retrieval_profile_def ensure_text_enabled_def obind_def [of "ensure_write en"] obind_def [of ensure_text_enabled] oalloc_def obind_def [of "oalloc z" for z])
    then show ?thesis using failed by blast
  next
    case (Inr p)
    then obtain i a where al: "allocate_retrieval_profile_id (vf_id_allocator s) = Inr (i, a)" by (cases p) auto
    show ?thesis
      using assms True al ok [OF _ al]
      by (simp add: register_retrieval_profile_def ensure_text_enabled_def obind_def [of "ensure_write en"] obind_def [of ensure_text_enabled] oalloc_def obind_def [of "oalloc z" for z])
  qed
qed

lemma register_fusion_profile_cases:
  assumes "rg_loaded (vf_segment_registry s)" and "vf_mode s = ReadWrite"
    and "register_fusion_profile en d s = Some (r, s')"
  obtains (failed) e where "r = Inl e" "s' = s"
  | (ok) i a where "r = Inr i" "allocate_fusion_profile_id (vf_id_allocator s) = Inr (i, a)"
      "fusion_profile_validate d = Inr ()"
      "s' = s\<lparr>vf_id_allocator := a, vf_catalog := upsert_fusion_profile (d\<lparr>fp_fusion_profile_id := i\<rparr>) (vf_catalog s),
         vf_dirty_fusion_profile_ids := insert i (vf_dirty_fusion_profile_ids s), vf_dirty := True\<rparr>"
proof (cases "fusion_profile_validate d = Inr ()")
  case False
  then have "\<exists>e. r = Inl e \<and> s' = s"
    using assms by (cases "fusion_profile_validate d") (auto simp: register_fusion_profile_def obind_def [of "ensure_write en"] olift_Inl)
  then show ?thesis using failed by blast
next
  case True
  show ?thesis
  proof (cases "allocate_fusion_profile_id (vf_id_allocator s)")
    case (Inl e)
    then have "r = Inl e \<and> s' = s"
      using assms True by (simp add: register_fusion_profile_def obind_def [of "ensure_write en"] oalloc_def obind_def [of "oalloc z" for z])
    then show ?thesis using failed by blast
  next
    case (Inr p)
    then obtain i a where al: "allocate_fusion_profile_id (vf_id_allocator s) = Inr (i, a)" by (cases p) auto
    show ?thesis
      using assms True al ok [OF _ al]
      by (simp add: register_fusion_profile_def obind_def [of "ensure_write en"] oalloc_def obind_def [of "oalloc z" for z])
  qed
qed

lemma list_ex_key: "list_ex (\<lambda>x. key x = k) xs \<longleftrightarrow> k \<in> key ` set xs"
  by (auto simp: list_ex_iff)

text \<open>A text space refers to three objects of the catalog; the panic after the checks is never reached.\<close>
lemma register_text_space_cases:
  assumes ld: "rg_loaded (vf_segment_registry s)" "vf_mode s = ReadWrite"
    and w: "register_text_space en d s = Some (r, s')"
  obtains (failed) e where "r = Inl e" "s' = s"
  | (rejected) e i a where "r = Inl e" "\<And>m. e \<noteq> Panic m"
      "allocate_text_space_id (vf_id_allocator s) = Inr (i, a)" "s' = s\<lparr>vf_id_allocator := a\<rparr>"
  | (ok) i a x az where "r = Inr i" "allocate_text_space_id (vf_id_allocator s) = Inr (i, a)"
      "text_space_ok (vf_catalog s) d"
      "find_by an_analyzer_id (ts_analyzer_id d) (cs_analyzers (vf_catalog s)) = Some x"
      "analyzer_from_desc x = Inr az"
      "s' = s\<lparr>vf_id_allocator := a, vf_catalog := upsert_text_space (d\<lparr>ts_text_space_id := i\<rparr>) (vf_catalog s),
         vf_dirty_text_space_ids := insert i (vf_dirty_text_space_ids s),
         vf_analyzer_cache := (vf_analyzer_cache s)(i \<mapsto> az),
         vf_text_space_states := insert i (vf_text_space_states s), vf_dirty := True\<rparr>"
proof (cases "cc_text_enabled (vf_create_contract s) \<and> text_space_ok (vf_catalog s) d")
  case False
  then show ?thesis
    using ld w failed
    by (auto simp: register_text_space_def ensure_text_enabled_def text_space_ok_def list_ex_key obind_def
        olift_Inl split: if_splits)
next
  case True
  then obtain x where x: "find_by an_analyzer_id (ts_analyzer_id d) (cs_analyzers (vf_catalog s)) = Some x"
    using find_by_None [of an_analyzer_id "ts_analyzer_id d"] by (fastforce simp: text_space_ok_def)
  have np: "analyzer_from_desc x \<noteq> Inl (Panic m)" for m
    by (simp add: analyzer_from_desc_def)
  have body: "register_text_space en d s =
     obind (oalloc allocate_text_space_id) (\<lambda>i. obind (olift (analyzer_from_desc x)) (\<lambda>az.
     obind (omodify (\<lambda>s. s\<lparr>vf_catalog := upsert_text_space (d\<lparr>ts_text_space_id := i\<rparr>) (vf_catalog s),
        vf_dirty_text_space_ids := insert i (vf_dirty_text_space_ids s),
        vf_analyzer_cache := (vf_analyzer_cache s)(i \<mapsto> az),
        vf_text_space_states := insert i (vf_text_space_states s), vf_dirty := True\<rparr>)) (\<lambda>_. oreturn i))) s"
    using ld True by (simp add: register_text_space_def ensure_text_enabled_def text_space_ok_def list_ex_key x
        obind_def [of "ensure_write en"] obind_def [of ensure_text_enabled])
  show ?thesis
  proof (cases "allocate_text_space_id (vf_id_allocator s)")
    case (Inl e)
    then have "r = Inl e" "s' = s" using w [unfolded body] by (simp_all add: oalloc_def obind_def [of "oalloc z" for z])
    then show ?thesis by (rule failed)
  next
    case (Inr p)
    then obtain i a where al: "allocate_text_space_id (vf_id_allocator s) = Inr (i, a)" by (cases p) auto
    show ?thesis
    proof (cases "analyzer_from_desc x")
      case (Inl e)
      then have "r = Inl e" "s' = s\<lparr>vf_id_allocator := a\<rparr>"
        using w by (simp_all add: body oalloc_def obind_def [of "oalloc z" for z] al)
      moreover have "e \<noteq> Panic m" for m using np Inl by auto
      ultimately show ?thesis using rejected al by blast
    next
      case (Inr az)
      show ?thesis
        using w True by (intro ok [OF _ al _ x Inr]) (simp_all add: body oalloc_def obind_def [of "oalloc z" for z] al Inr)
    qed
  qed
qed

lemma primary_codec_ok_Inr:
  "primary_codec_ok spec codecs cache = Inr () \<longleftrightarrow>
     (\<forall>pid. sp_primary_codec_id spec = Some pid \<longrightarrow>
        (\<exists>d. find_by cd_codec_id pid codecs = Some d \<and> cd_family d \<noteq> LegacyInt4PcaZero) \<and>
        (\<exists>codec. cache pid = Some codec \<and> cc_dimension codec = sp_dimension spec))"
  by (auto simp: primary_codec_ok_def rbind_Inr_iff split: option.split if_splits)

lemma register_embedding_space_cases:
  assumes ld: "rg_loaded (vf_segment_registry s)" "vf_mode s = ReadWrite"
    and w: "register_embedding_space en spec s = Some (r, s')"
  obtains (failed) e where "r = Inl e" "s' = s"
  | (ok) i a where "r = Inr i" "allocate_embedding_space_id (vf_id_allocator s) = Inr (i, a)"
      "embedding_space_ok (vf_create_contract s) (cs_codecs (vf_catalog s)) (vf_codec_cache s)
         (embedding_space_desc_of spec i)"
      "s' = s\<lparr>vf_id_allocator := a,
         vf_catalog := upsert_embedding_space (embedding_space_desc_of spec i) (vf_catalog s),
         vf_dirty_embedding_space_ids := insert i (vf_dirty_embedding_space_ids s), vf_dirty := True\<rparr>"
proof -
  let ?contract = "vf_create_contract s"
  let ?b1 = "cc_max_dim ?contract < sp_dimension spec"
  let ?b2 = "dtype_set_contains (dtype_from_bits_truncate (cc_allowed_dtypes ?contract)) (as_set_bit (sp_dtype spec))"
  let ?b3 = "is_f8 (sp_dtype spec) \<longleftrightarrow> sp_primary_codec_id spec = None"
  let ?p = "primary_codec_ok spec (cs_codecs (vf_catalog s)) (vf_codec_cache s)"
  show ?thesis
  proof (cases "\<not> ?b1 \<and> ?b2 \<and> ?b3 \<and> ?p = Inr () \<and> sp_secondary_codec_id spec = None")
    case False
    then have "\<exists>e. r = Inl e \<and> s' = s"
      using ld w by (cases ?p) (auto simp: register_embedding_space_def obind_def [of "ensure_write en"] olift_Inl split: if_splits)
    then show ?thesis using failed by blast
  next
    case True
    have body: "register_embedding_space en spec s =
      obind (oalloc allocate_embedding_space_id) (\<lambda>i. obind (omodify (\<lambda>s. s\<lparr>
        vf_catalog := upsert_embedding_space (embedding_space_desc_of spec i) (vf_catalog s),
        vf_dirty_embedding_space_ids := insert i (vf_dirty_embedding_space_ids s), vf_dirty := True\<rparr>)) (\<lambda>_.
      oreturn i)) s"
      using True ld by (cases "sp_primary_codec_id spec")
        (simp_all add: register_embedding_space_def obind_def [of "ensure_write en"])
    note unf = body oalloc_def obind_def [of "oalloc z" for z]
    show ?thesis
    proof (cases "allocate_embedding_space_id (vf_id_allocator s)")
      case (Inl e)
      then have "r = Inl e" "s' = s" using w by (simp_all add: unf)
      then show ?thesis by (rule failed)
    next
      case (Inr p)
      then obtain i a where al: "allocate_embedding_space_id (vf_id_allocator s) = Inr (i, a)" by (cases p) auto
      have "embedding_space_ok ?contract (cs_codecs (vf_catalog s)) (vf_codec_cache s) (embedding_space_desc_of spec i)"
        using True primary_codec_ok_Inr [of spec]
        by (fastforce simp: embedding_space_ok_def embedding_space_desc_of_def word_less_nat_alt dest!: find_by_Some)
      then show ?thesis using w by (intro ok [OF _ al]) (simp_all add: unf al)
    qed
  qed
qed

text \<open>A codec is registered with its parameters in a segment of the file, before it is instantiated.\<close>
definition codec_added :: "codec_desc \<Rightarrow> vfile \<Rightarrow> vfile" where
  "codec_added d s = s\<lparr>vf_catalog := upsert_codec d (vf_catalog s),
     vf_dirty_codec_ids := insert (cd_codec_id d) (vf_dirty_codec_ids s), vf_dirty := True\<rparr>"

lemma file_mono_register_codec: "file_mono (register_codec en cp)"
proof -
  have "file_mono (omodify (\<lambda>s. s\<lparr>vf_file := snd (append_segment_at_end h (vf_file s) sid ty n p)\<rparr>))" for h sid ty n p
    by (auto simp: file_mono_def omodify_def append_segment_length)
  then show ?thesis
    unfolding register_codec_def Let_def by (intro file_mono_obind) auto
qed

lemma codec_id_taken:
  "allocate_codec_id a = Inr (i, a') \<Longrightarrow> unat i = unat (next_codec_id a) \<and> unat (next_codec_id a') = Suc (unat i) \<and>
   next_collection_id a' = next_collection_id a \<and> next_frame_id a' = next_frame_id a \<and> next_text_space_id a' = next_text_space_id a \<and>
   next_analyzer_id a' = next_analyzer_id a \<and> next_field_schema_id a' = next_field_schema_id a \<and> next_retrieval_profile_id a' = next_retrieval_profile_id a \<and>
   next_embedding_space_id a' = next_embedding_space_id a \<and> next_vector_id a' = next_vector_id a \<and> next_segment_id a' = next_segment_id a \<and>
   next_fusion_profile_id a' = next_fusion_profile_id a"
  by (auto simp: allocate_codec_id_def rbind_Inr_iff dest!: take_id_Inr)

lemma segment_id_taken:
  "allocate_segment_id a = Inr (i, a') \<Longrightarrow>
   next_collection_id a' = next_collection_id a \<and> next_frame_id a' = next_frame_id a \<and> next_text_space_id a' = next_text_space_id a \<and>
   next_analyzer_id a' = next_analyzer_id a \<and> next_field_schema_id a' = next_field_schema_id a \<and> next_retrieval_profile_id a' = next_retrieval_profile_id a \<and>
   next_embedding_space_id a' = next_embedding_space_id a \<and> next_codec_id a' = next_codec_id a \<and> next_vector_id a' = next_vector_id a \<and>
   next_fusion_profile_id a' = next_fusion_profile_id a"
  by (auto simp: allocate_segment_id_def rbind_Inr_iff)

lemma register_codec_cases:
  assumes env: "env_ok en" and inv: "handle_inv s" and w: "register_codec en cp s = Some (r, s')"
    and fit: "fits (length (vf_file s'))"
  obtains (failed) e where "r = Inl e" "grown s s'" "beside s s'" "vf_pending_uris s' = vf_pending_uris s"
  | (added) bs s1 d where "cp_encode cp = Inr bs" "grown s s1" "beside s s1" "vf_pending_uris s1 = vf_pending_uris s"
      "unat (cd_codec_id d) = unat (next_codec_id (vf_id_allocator s))"
      "unat (next_codec_id (vf_id_allocator s1)) = Suc (unat (next_codec_id (vf_id_allocator s)))"
      "segment_there (en_hash en) (vf_file s1) (cd_params_ref d) CodecParams CNone (of_nat (length bs)) bs"
      "codec_desc_validate d = Inr ()" "cd_family d = cp_family cp"
      "(case cp_instantiate cp of Inl e \<Rightarrow> r = Inl e \<and> s' = codec_added d s1
        | Inr codec \<Rightarrow> r = Inr (cd_codec_id d) \<and>
            s' = (codec_added d s1)\<lparr>vf_codec_cache := (vf_codec_cache s)(cd_codec_id d \<mapsto> codec)\<rparr>)"
proof -
  have ld: "rg_loaded (vf_segment_registry s)" "vf_mode s = ReadWrite"
    and below: "registry_below (vf_segment_registry s) (vf_id_allocator s)"
    using inv by (auto simp: handle_inv_def)
  have h: "digest32 (en_hash en)" using env by (simp add: env_ok_def)
  have ff: "fits (length (vf_file s))"
    using fit file_monoD [OF file_mono_register_codec w] by (rule fits_mono)
  note unf = register_codec_def obind_def [of "ensure_write en"] oalloc_def obind_def [of "oalloc z" for z]
    olift_Inl Let_def
  note stay = grown_refl [OF inv]
  show ?thesis
  proof (cases "cp_encode cp")
    case (Inl e)
    then show ?thesis using w ld stay by (intro failed [of e]) (auto simp: unf)
  next
    case enc: (Inr bs)
    show ?thesis
    proof (cases "allocate_segment_id (vf_id_allocator s)")
      case (Inl e)
      then show ?thesis using w ld stay enc by (intro failed [of e]) (auto simp: unf)
    next
      case (Inr p)
      then obtain sid a where al: "allocate_segment_id (vf_id_allocator s) = Inr (sid, a)" by (cases p) auto
      note seg_facts = segment_id_taken [OF al] allocated_segment_below [OF al below]
      show ?thesis
      proof (cases "allocate_codec_id a")
        case (Inl e)
        have "grown s (s\<lparr>vf_id_allocator := a\<rparr>)" "beside s (s\<lparr>vf_id_allocator := a\<rparr>)"
          using seg_facts ld by (simp_all add: grown_def beside_def)
        then show ?thesis using w ld enc al Inl by (intro failed [of e]) (auto simp: unf)
      next
        case (Inr q)
        then obtain cid a2 where al2: "allocate_codec_id a = Inr (cid, a2)" by (cases q) auto
        note facts = seg_facts codec_id_taken [OF al2]
        have below2: "registry_below (vf_segment_registry s) a2" using facts by (simp add: registry_below_def)
        let ?seg = "segment_ref_at_end (en_hash en) (vf_file s) sid CodecParams 1 bs"
        let ?d = "\<lparr>cd_codec_id = cid, cd_family = cp_family cp, cd_version = wire_version cp, cd_params_ref = ?seg,
           cd_deterministic_id = compute_codec_deterministic_id (en_hash en) cp bs\<rparr>"
        let ?g = "segment_header_encode (segment_header_new (en_hash en) CodecParams sid 1 CNone (of_nat (length bs)) bs) @ bs"
        have app: "snd (append_segment_at_end (en_hash en) (vf_file s) sid CodecParams 1 bs) = vf_file s @ ?g"
          by (simp add: append_segment_at_end_eq [OF h ff])
        show ?thesis
        proof (cases "codec_desc_validate ?d")
          case (Inl e)
          have "grown s (s\<lparr>vf_id_allocator := a2\<rparr>)" "beside s (s\<lparr>vf_id_allocator := a2\<rparr>)"
            using facts below2 ld by (simp_all add: grown_def beside_def)
          then show ?thesis using w ld enc al al2 Inl by (intro failed [of e]) (auto simp: unf)
        next
          case val: (Inr u)
          show ?thesis
          proof (cases "catalog_entry_of (en_hash en) sid CodecParams 1 bs ?seg")
            case (Inl e)
            have "grown s (s\<lparr>vf_id_allocator := a2, vf_file := vf_file s @ ?g\<rparr>)"
                "beside s (s\<lparr>vf_id_allocator := a2, vf_file := vf_file s @ ?g\<rparr>)"
              using facts below2 ld by (simp_all add: grown_def beside_def)
            then show ?thesis using w ld enc al al2 val Inl by (intro failed [of e]) (auto simp: unf app)
          next
            case (Inr e)
            have es: "se_segment_id e = sid"
              using Inr by (auto simp: catalog_entry_of_def Let_def result_Inr_iff split: if_splits)
            obtain reg' d' where rs: "register_segment (vf_segment_registry s, vf_dirty_segment_ids s) e = (reg', d')"
              by fastforce
            note new = register_new_segment [OF below al es rs]
            let ?s1 = "s\<lparr>vf_id_allocator := a2, vf_file := vf_file s @ ?g, vf_segment_registry := reg',
              vf_dirty_segment_ids := d'\<rparr>"
            have g: "grown s ?s1" and b: "beside s ?s1"
              using facts new ld by (simp_all add: grown_def beside_def registry_below_def)
            have there: "segment_there (en_hash en) (vf_file ?s1) ?seg CodecParams CNone (of_nat (length bs)) bs"
              unfolding segment_there_def
              by (intro exI [of _ "vf_file s"] exI [of _ 1] exI [of _ "[]"]) (simp add: segment_ref_at_end_def Let_def)
            show ?thesis
              using w ld enc al al2 val Inr facts there
              by (intro added [OF enc g b, of ?d])
                (auto simp: unf app oregister_def rs codec_added_def split: sum.splits)
          qed
        qed
      qed
    qed
  qed
qed

end
