(* ===== verification/Session.thy ===== *)
theory Session imports Registration begin

text \<open>
  Sessions on a handle: frames and schema objects together. The frame operations leave the
  schema alone and the registrations leave the frame store alone, so both invariants hold
  along any run. On top of them: references between the tables resolve, the caches kept by
  the handle are the ones an open builds from the catalog, a codec rejected after its
  registration makes every later open fail, and the id counters rebuilt at open are past
  every id of the catalog.
\<close>

section \<open>Operations\<close>

datatype schema_op =
    Analyzer_op analyzer_desc
  | Field_schema_op field_schema_desc
  | Retrieval_profile_op retrieval_profile_desc
  | Fusion_profile_op fusion_profile_desc
  | Text_space_op text_space_desc
  | Embedding_space_op embedding_space_spec
  | Codec_op codec_params

fun schema_step :: "env \<Rightarrow> schema_op \<Rightarrow> u32 op" where
  "schema_step en (Analyzer_op d) = register_analyzer en d"
| "schema_step en (Field_schema_op d) = register_field_schema en d"
| "schema_step en (Retrieval_profile_op d) = register_retrieval_profile en d"
| "schema_step en (Fusion_profile_op d) = register_fusion_profile en d"
| "schema_step en (Text_space_op d) = register_text_space en d"
| "schema_step en (Embedding_space_op spec) = register_embedding_space en spec"
| "schema_step en (Codec_op cp) = register_codec en cp"

datatype session_op = Frame_op handle_op | Schema_op schema_op

datatype session_out = Out_frame handle_out | Out_id u32

fun session_step :: "env \<Rightarrow> session_op \<Rightarrow> session_out op" where
  "session_step en (Frame_op c) = omap Out_frame (handle_step en c)"
| "session_step en (Schema_op c) = omap Out_id (schema_step en c)"

text \<open>The results of a run, errors included; a panic ends it.\<close>
fun run_session :: "env \<Rightarrow> session_op list \<Rightarrow> vfile \<Rightarrow> (session_out result list \<times> vfile) option" where
  "run_session en [] s = Some ([], s)"
| "run_session en (c # cs) s =
     (case session_step en c s of
        None \<Rightarrow> None
      | Some (r, s1) \<Rightarrow>
          if is_panic r then None
          else (case run_session en cs s1 of None \<Rightarrow> None | Some (rs, s2) \<Rightarrow> Some (r # rs, s2)))"

section \<open>Frame operations leave the schema alone\<close>

definition beside_op :: "'a op \<Rightarrow> bool" where
  "beside_op m \<longleftrightarrow> file_mono m \<and>
     (\<forall>s r s'. m s = Some (r, s') \<longrightarrow> fits (length (vf_file s')) \<longrightarrow> beside s s')"

lemma beside_opD: "beside_op m \<Longrightarrow> m s = Some (r, s') \<Longrightarrow> fits (length (vf_file s')) \<Longrightarrow> beside s s'"
  by (simp add: beside_op_def)

lemma beside_op_basic [intro, simp]:
  "beside_op (oreturn v)" "beside_op (olift x)" "beside_op (ogets g)" "beside_op (oregister e)"
  by (auto simp: beside_op_def olift_def ogets_def oreturn_def oregister_def omodify_def beside_def split: prod.splits)

lemma beside_op_modify [intro]: "(\<And>s. beside s (k s) \<and> vf_file (k s) = vf_file s) \<Longrightarrow> beside_op (omodify k)"
  by (auto simp: beside_op_def omodify_def)

lemma beside_op_alloc [intro, simp]:
  "beside_op (oalloc allocate_frame_id)" "beside_op (oalloc allocate_segment_id)" "beside_op (oalloc allocate_collection_id)"
  by (auto simp: beside_op_def beside_def oalloc_def allocator_defs rbind_Inr_iff split: sum.splits)

lemma beside_op_obind [intro]: "beside_op m \<Longrightarrow> (\<And>v. beside_op (g v)) \<Longrightarrow> beside_op (obind m g)"
proof -
  assume m: "beside_op m" and g: "\<And>v. beside_op (g v)"
  have "beside s s''" if w: "obind m g s = Some (r, s'')" and fit: "fits (length (vf_file s''))" for s r s''
  proof (cases "\<exists>v s'. m s = Some (Inr v, s')")
    case True
    then obtain v s' where ms: "m s = Some (Inr v, s')" by blast
    with w have gs: "g v s' = Some (r, s'')" by (simp add: obind_def)
    have "file_mono (g v)" using g by (simp add: beside_op_def)
    then have "fits (length (vf_file s'))" using fit file_monoD [where m = "g v", OF _ gs] by (blast intro: fits_mono)
    then show ?thesis using beside_opD [OF m ms] beside_opD [OF g gs fit] by (blast intro: beside_trans)
  next
    case False
    then obtain e where "m s = Some (Inl e, s'')"
      using w by (auto simp: obind_def split: option.splits sum.splits prod.splits)
    then show ?thesis using m fit by (blast intro: beside_opD)
  qed
  moreover have "file_mono (obind m g)" using m g by (intro file_mono_obind) (auto simp: beside_op_def)
  ultimately show ?thesis by (simp add: beside_op_def)
qed

lemma beside_op_if [intro]: "(b \<Longrightarrow> beside_op m) \<Longrightarrow> (\<not> b \<Longrightarrow> beside_op m') \<Longrightarrow> beside_op (if b then m else m')"
  by simp

lemma beside_op_option [intro]:
  "(\<And>x. beside_op (g x)) \<Longrightarrow> beside_op m \<Longrightarrow> beside_op (case z of None \<Rightarrow> m | Some x \<Rightarrow> g x)"
  by (simp split: option.split)

lemma beside_registry [simp]: "beside s (s\<lparr>vf_segment_registry := reg\<rparr>)"
  by (simp add: beside_def)

lemma beside_op_ensure [intro, simp]: "beside_op (ensure_write en)" "beside_op (ensure_segment_registry_loaded en)"
proof -
  have "beside s s'" if "ensure_segment_registry_loaded en s = Some (r, s')" for s s' and r :: "unit result"
    using that by (auto simp: ensure_segment_registry_loaded_def split: if_splits) (auto split: sum.split_asm)
  moreover from this have "beside s s'" if "ensure_write en s = Some (r, s')" for s s' and r :: "unit result"
    using that by (auto simp: ensure_write_def split: if_splits)
  ultimately show "beside_op (ensure_write en)" "beside_op (ensure_segment_registry_loaded en)"
    by (auto simp: beside_op_def)
qed

lemmas beside_intros = beside_op_obind beside_op_if beside_op_option beside_op_modify

lemma beside_op_resolve_uris [intro, simp]: "beside_op (resolve_uris en sid us m)"
  by (induction us arbitrary: m) (auto intro!: beside_intros simp: beside_def)

text \<open>Reading the file and writing it back longer.\<close>
lemma beside_op_append:
  assumes F: "\<And>f. length f \<le> length (F f)" "\<And>f. fits (length f) \<Longrightarrow> \<exists>g. F f = f @ g"
    and k: "\<And>f. beside_op (k f)"
  shows "beside_op (obind (ogets vf_file) (\<lambda>f. obind (omodify (\<lambda>s. s\<lparr>vf_file := F f\<rparr>)) (\<lambda>_. k f)))"
proof -
  let ?m = "obind (ogets vf_file) (\<lambda>f. obind (omodify (\<lambda>s. s\<lparr>vf_file := F f\<rparr>)) (\<lambda>_. k f))"
  have m: "?m s = k (vf_file s) (s\<lparr>vf_file := F (vf_file s)\<rparr>)" for s by simp
  have mono: "length (vf_file s) \<le> length (F (vf_file s)) \<and> length (F (vf_file s)) \<le> length (vf_file s')"
    if "?m s = Some (r, s')" for s r s'
    using file_monoD [of "k (vf_file s)" "s\<lparr>vf_file := F (vf_file s)\<rparr>" r s'] k [of "vf_file s"] F(1) that
    by (simp add: m beside_op_def)
  have "beside s s'" if w: "?m s = Some (r, s')" and fit: "fits (length (vf_file s'))" for s r s'
  proof -
    have "fits (length (vf_file s))" using fit mono [OF w] by (blast intro: fits_mono le_trans)
    then have "beside s (s\<lparr>vf_file := F (vf_file s)\<rparr>)" using F(2) by (simp add: beside_def)
    moreover have "beside (s\<lparr>vf_file := F (vf_file s)\<rparr>) s'"
      using w fit by (intro beside_opD [OF k]) (simp_all add: m)
    ultimately show ?thesis by (rule beside_trans)
  qed
  moreover have "file_mono ?m" unfolding file_mono_def using mono by (blast intro: le_trans)
  ultimately show ?thesis by (simp add: beside_op_def)
qed

lemma beside_op_payload_batch [intro, simp]: "beside_op (write_payload_batch en)"
  unfolding write_payload_batch_def append_compressed_eq [OF compression.distinct(2)] op_simps(5) prod.case
  by (intro beside_op_obind beside_op_append) simp_all

lemma beside_op_uri_batch [intro, simp]:
  assumes "digest32 (en_hash en)"
  shows "beside_op (write_uri_batch en)"
proof -
  have a: "\<exists>g. snd (append_segment_at_end (en_hash en) f sid ty n p) = f @ g" if "fits (length f)" for f sid ty n p
    by (simp add: append_segment_at_end_eq [OF assms that])
  show ?thesis
    unfolding write_uri_batch_def split_beta Let_def
    by (intro beside_op_obind beside_op_if beside_op_append)
      (auto intro!: beside_intros simp: append_segment_length a beside_def)
qed

lemma beside_op_settle [intro, simp]: "beside_op (settle_pending sid m)"
  by (auto simp: beside_op_def file_mono_def settle_pending_def Let_def olift_def omodify_def beside_def split: if_splits)

lemma beside_op_flush:
  assumes "digest32 (en_hash en)" shows "beside_op (flush_pending_payloads en)"
  unfolding flush_pending_payloads_def
  by (intro beside_intros) (auto intro!: beside_op_uri_batch assms)

lemma beside_op_put_frame:
  assumes "digest32 (en_hash en)" shows "beside_op (put_frame en now input)"
  unfolding put_frame_def buffer_payload_def buffer_uri_def
  by (intro beside_intros beside_op_flush assms) (auto simp: beside_def upsert_frame_eq)

lemma beside_op_create_collection: "beside_op (create_collection_at en name t)"
  unfolding create_collection_at_def by (intro beside_intros) (auto simp: beside_def upsert_collection_def)

lemma beside_op_delete_frame: "beside_op (delete_frame en now fid)"
proof -
  have "beside s (tombstone_frame fid t s) \<and> vf_file (tombstone_frame fid t s) = vf_file s" for t s
    by (simp add: tombstone_frame_def Let_def beside_def split: sum.split)
  then show ?thesis
    unfolding delete_frame_def by (intro beside_intros) auto
qed

lemma beside_op_reads: "beside_op (read_payload en fid)" "beside_op (read_frame_uri en fid)"
proof -
  have "beside_op (oread_payload_ref en seg pref)" for seg pref
    by (auto simp: beside_op_def file_mono_def oread_payload_ref_def beside_def split: sum.splits)
  moreover have "beside_op (mmap_payload_ref en mm seg pref)" for mm seg pref
    unfolding mmap_payload_ref_def by (intro beside_intros) (auto simp: beside_def)
  ultimately show "beside_op (read_payload en fid)"
    unfolding read_payload_def Let_def by (intro beside_intros) auto
  show "beside_op (read_frame_uri en fid)"
    unfolding read_frame_uri_def read_metadata_ref_def Let_def
    by (intro beside_intros) auto
qed

lemma beside_op_handle_step:
  assumes "digest32 (en_hash en)" shows "beside_op (handle_step en c)"
  by (cases c) (auto simp: omap_def intro: beside_op_flush [OF assms] beside_op_put_frame [OF assms]
      beside_op_create_collection beside_op_delete_frame beside_op_reads)

section \<open>Registrations leave the frame store alone\<close>

definition frames_same :: "vfile \<Rightarrow> vfile \<Rightarrow> bool" where
  "frames_same s s' \<longleftrightarrow> vf_file s' = vf_file s \<and> vf_mode s' = vf_mode s \<and>
     vf_segment_registry s' = vf_segment_registry s \<and>
     next_segment_id (vf_id_allocator s') = next_segment_id (vf_id_allocator s) \<and>
     next_frame_id (vf_id_allocator s') = next_frame_id (vf_id_allocator s) \<and>
     next_collection_id (vf_id_allocator s') = next_collection_id (vf_id_allocator s) \<and>
     cs_frames (vf_catalog s') = cs_frames (vf_catalog s) \<and>
     cs_frame_stubs (vf_catalog s') = cs_frame_stubs (vf_catalog s) \<and>
     cs_collections (vf_catalog s') = cs_collections (vf_catalog s) \<and>
     vf_tombstoned_frame_count s' = vf_tombstoned_frame_count s \<and>
     vf_pending_payload_buf s' = vf_pending_payload_buf s \<and>
     vf_pending_payload_frames s' = vf_pending_payload_frames s \<and>
     vf_pending_payload_by_frame s' = vf_pending_payload_by_frame s \<and>
     vf_pending_uri_buf s' = vf_pending_uri_buf s \<and> vf_pending_uris s' = vf_pending_uris s"

lemma store_inv_frames_same:
  assumes "store_inv en s M" and "frames_same s s'" and "catalog_ok (vf_catalog s')"
  shows "store_inv en s' M"
  using assms
  by (simp add: store_inv_def frames_same_def handle_inv_def buffers_inv_def frame_ids_def registry_below_def
      catalog_below_def payload_held_def uri_held_def cong: option.case_cong)

lemma handle_catalog_ok: "store_inv en s M \<Longrightarrow> catalog_ok (vf_catalog s)"
  by (simp add: store_inv_def handle_inv_def catalog_below_def)

lemmas upsert_table_defs =
  upsert_analyzer_def upsert_field_schema_def upsert_retrieval_profile_def upsert_fusion_profile_def
  upsert_text_space_def upsert_embedding_space_def upsert_codec_def

lemma schema_step_store:
  assumes env: "env_ok en" and inv: "store_inv en s M" and w: "schema_step en c s = Some (r, s')"
    and fit: "fits (length (vf_file s'))"
  shows "store_inv en s' M"
proof -
  have ld: "rg_loaded (vf_segment_registry s)" "vf_mode s = ReadWrite" and hinv: "handle_inv s"
    using inv by (simp_all add: store_inv_def handle_inv_def)
  note ok = handle_catalog_ok [OF inv]
  have by_same: ?thesis if "frames_same s s'" "catalog_ok (vf_catalog s')"
    using inv that by (rule store_inv_frames_same)
  show ?thesis
  proof (cases c)
    case (Analyzer_op d)
    from ld w [unfolded Analyzer_op schema_step.simps] show ?thesis
      by (cases rule: register_analyzer_cases)
        (use inv in simp, rule by_same, auto simp: frames_same_def upsert_table_defs allocator_defs rbind_Inr_iff
          intro: catalog_ok_upsert [OF ok, unfolded upsert_table_defs])
  next
    case (Field_schema_op d)
    from ld w [unfolded Field_schema_op schema_step.simps] show ?thesis
      by (cases rule: register_field_schema_cases)
        (use inv in simp, rule by_same, auto simp: frames_same_def upsert_table_defs allocator_defs rbind_Inr_iff
          intro: catalog_ok_upsert [OF ok, unfolded upsert_table_defs])
  next
    case (Retrieval_profile_op d)
    from ld w [unfolded Retrieval_profile_op schema_step.simps] show ?thesis
      by (cases rule: register_retrieval_profile_cases)
        (use inv in simp, rule by_same, auto simp: frames_same_def upsert_table_defs allocator_defs rbind_Inr_iff
          intro: catalog_ok_upsert [OF ok, unfolded upsert_table_defs])
  next
    case (Fusion_profile_op d)
    from ld w [unfolded Fusion_profile_op schema_step.simps] show ?thesis
      by (cases rule: register_fusion_profile_cases)
        (use inv in simp, rule by_same, auto simp: frames_same_def upsert_table_defs allocator_defs rbind_Inr_iff
          intro: catalog_ok_upsert [OF ok, unfolded upsert_table_defs])
  next
    case (Text_space_op d)
    from ld w [unfolded Text_space_op schema_step.simps] show ?thesis
    proof (cases rule: register_text_space_cases)
      case (failed e)
      then show ?thesis using inv by simp
    next
      case (rejected e i a)
      then show ?thesis
        by (intro by_same) (auto simp: frames_same_def allocator_defs rbind_Inr_iff ok)
    next
      case (ok i a x az)
      then show ?thesis
        by (intro by_same)
          (auto simp: frames_same_def upsert_table_defs allocator_defs rbind_Inr_iff
            intro: catalog_ok_upsert [OF handle_catalog_ok [OF inv], unfolded upsert_table_defs])
    qed
  next
    case (Embedding_space_op spec)
    from ld w [unfolded Embedding_space_op schema_step.simps] show ?thesis
      by (cases rule: register_embedding_space_cases)
        (use inv in simp, rule by_same, auto simp: frames_same_def upsert_table_defs allocator_defs rbind_Inr_iff
          intro: catalog_ok_upsert [OF ok, unfolded upsert_table_defs])
  next
    case (Codec_op cp)
    from env hinv w [unfolded Codec_op schema_step.simps] fit show ?thesis
    proof (cases rule: register_codec_cases)
      case (failed e)
      then show ?thesis using inv by (blast intro: store_inv_grown)
    next
      case (added bs s1 d)
      have inv1: "store_inv en s1 M" by (rule store_inv_grown [OF inv added(2,4)])
      have "frames_same s1 s'" "catalog_ok (vf_catalog s')"
        using added(10) catalog_ok_upsert(3) [OF handle_catalog_ok [OF inv1], of d]
        by (auto simp: frames_same_def codec_added_def upsert_codec_def split: sum.splits)
      then show ?thesis using inv1 by (blast intro: store_inv_frames_same)
    qed
  qed
qed

section \<open>The schema invariant along a run\<close>

lemma schema_step_inv:
  assumes env: "env_ok en" and inv: "store_inv en s M" and sinv: "schema_inv s"
    and w: "schema_step en c s = Some (r, s')" and fit: "fits (length (vf_file s'))"
  shows "schema_inv s'"
proof -
  let ?c = "vf_catalog s"
  have ld: "rg_loaded (vf_segment_registry s)" "vf_mode s = ReadWrite" and hinv: "handle_inv s"
    using inv by (simp_all add: store_inv_def handle_inv_def)
  have below: "schema_below ?c (vf_id_allocator s)" using sinv by (simp add: schema_inv_def)
  show ?thesis
  proof (cases c)
  case (Analyzer_op d)
  from ld w [unfolded Analyzer_op schema_step.simps] show ?thesis
  proof (cases rule: register_analyzer_cases)
    case (ok i a)
    obtain n where a: "a = (vf_id_allocator s)\<lparr>next_analyzer_id := n\<rparr>" "unat i = unat (next_analyzer_id (vf_id_allocator s))"
        "unat n = Suc (unat (next_analyzer_id (vf_id_allocator s)))"
      using ok by (auto simp: allocator_defs rbind_Inr_iff dest!: take_id_Inr)
    have up: "upsert an_analyzer_id (d\<lparr>an_analyzer_id := i\<rparr>) (cs_analyzers ?c) = cs_analyzers ?c @ [d\<lparr>an_analyzer_id := i\<rparr>]"
        "table_below an_analyzer_id (cs_analyzers ?c @ [d\<lparr>an_analyzer_id := i\<rparr>]) n"
      using upsert_fresh [of an_analyzer_id "cs_analyzers ?c" "next_analyzer_id (vf_id_allocator s)" "d\<lparr>an_analyzer_id := i\<rparr>" n]
        below a by (simp_all add: schema_below_def)
    show ?thesis
      using sinv below up a by (simp add: ok schema_inv_def schema_below_def upsert_table_defs text_space_ok_def
          build_analyzer_cache_def analyzers_of_spaces_more)
  qed (use sinv in simp)
next
  case (Field_schema_op d)
  from ld w [unfolded Field_schema_op schema_step.simps] show ?thesis
  proof (cases rule: register_field_schema_cases)
    case (ok i a)
    obtain n where a: "a = (vf_id_allocator s)\<lparr>next_field_schema_id := n\<rparr>" "unat i = unat (next_field_schema_id (vf_id_allocator s))"
        "unat n = Suc (unat (next_field_schema_id (vf_id_allocator s)))"
      using ok by (auto simp: allocator_defs rbind_Inr_iff dest!: take_id_Inr)
    have up: "upsert fs_field_schema_id (d\<lparr>fs_field_schema_id := i\<rparr>) (cs_field_schemas ?c) = cs_field_schemas ?c @ [d\<lparr>fs_field_schema_id := i\<rparr>]"
        "table_below fs_field_schema_id (cs_field_schemas ?c @ [d\<lparr>fs_field_schema_id := i\<rparr>]) n"
      using upsert_fresh [of fs_field_schema_id "cs_field_schemas ?c" "next_field_schema_id (vf_id_allocator s)" "d\<lparr>fs_field_schema_id := i\<rparr>" n]
        below a by (simp_all add: schema_below_def)
    show ?thesis
      using sinv below up a by (simp add: ok schema_inv_def schema_below_def upsert_table_defs text_space_ok_def
          build_analyzer_cache_def analyzers_of_spaces_more)
  qed (use sinv in simp)
next
  case (Retrieval_profile_op d)
  from ld w [unfolded Retrieval_profile_op schema_step.simps] show ?thesis
  proof (cases rule: register_retrieval_profile_cases)
    case (ok i a)
    obtain n where a: "a = (vf_id_allocator s)\<lparr>next_retrieval_profile_id := n\<rparr>" "unat i = unat (next_retrieval_profile_id (vf_id_allocator s))"
        "unat n = Suc (unat (next_retrieval_profile_id (vf_id_allocator s)))"
      using ok by (auto simp: allocator_defs rbind_Inr_iff dest!: take_id_Inr)
    have up: "upsert rp_profile_id (d\<lparr>rp_profile_id := i\<rparr>) (cs_retrieval_profiles ?c) = cs_retrieval_profiles ?c @ [d\<lparr>rp_profile_id := i\<rparr>]"
        "table_below rp_profile_id (cs_retrieval_profiles ?c @ [d\<lparr>rp_profile_id := i\<rparr>]) n"
      using upsert_fresh [of rp_profile_id "cs_retrieval_profiles ?c" "next_retrieval_profile_id (vf_id_allocator s)" "d\<lparr>rp_profile_id := i\<rparr>" n]
        below a by (simp_all add: schema_below_def)
    show ?thesis
      using sinv below up a by (simp add: ok schema_inv_def schema_below_def upsert_table_defs text_space_ok_def
          build_analyzer_cache_def analyzers_of_spaces_more)
  qed (use sinv in simp)
next
  case (Fusion_profile_op d)
  from ld w [unfolded Fusion_profile_op schema_step.simps] show ?thesis
  proof (cases rule: register_fusion_profile_cases)
    case (ok i a)
    obtain n where a: "a = (vf_id_allocator s)\<lparr>next_fusion_profile_id := n\<rparr>" "unat i = unat (next_fusion_profile_id (vf_id_allocator s))"
        "unat n = Suc (unat (next_fusion_profile_id (vf_id_allocator s)))"
      using ok by (auto simp: allocator_defs rbind_Inr_iff dest!: take_id_Inr)
    have up: "upsert fp_fusion_profile_id (d\<lparr>fp_fusion_profile_id := i\<rparr>) (cs_fusion_profiles ?c) = cs_fusion_profiles ?c @ [d\<lparr>fp_fusion_profile_id := i\<rparr>]"
        "table_below fp_fusion_profile_id (cs_fusion_profiles ?c @ [d\<lparr>fp_fusion_profile_id := i\<rparr>]) n"
      using upsert_fresh [of fp_fusion_profile_id "cs_fusion_profiles ?c" "next_fusion_profile_id (vf_id_allocator s)" "d\<lparr>fp_fusion_profile_id := i\<rparr>" n]
        below a by (simp_all add: schema_below_def)
    show ?thesis
      using sinv below up a by (simp add: ok schema_inv_def schema_below_def upsert_table_defs text_space_ok_def
          build_analyzer_cache_def analyzers_of_spaces_more)
  qed (use sinv in simp)
next
  case (Text_space_op d)
  from ld w [unfolded Text_space_op schema_step.simps] show ?thesis
  proof (cases rule: register_text_space_cases)
    case (ok i a x az)
    obtain n where a: "a = (vf_id_allocator s)\<lparr>next_text_space_id := n\<rparr>" "unat i = unat (next_text_space_id (vf_id_allocator s))"
        "unat n = Suc (unat (next_text_space_id (vf_id_allocator s)))"
      using ok by (auto simp: allocator_defs rbind_Inr_iff dest!: take_id_Inr)
    have up: "upsert ts_text_space_id (d\<lparr>ts_text_space_id := i\<rparr>) (cs_text_spaces ?c) = cs_text_spaces ?c @ [d\<lparr>ts_text_space_id := i\<rparr>]"
        "table_below ts_text_space_id (cs_text_spaces ?c @ [d\<lparr>ts_text_space_id := i\<rparr>]) n"
      using upsert_fresh [of ts_text_space_id "cs_text_spaces ?c" "next_text_space_id (vf_id_allocator s)" "d\<lparr>ts_text_space_id := i\<rparr>" n]
        below a by (simp_all add: schema_below_def)
    have "analyzers_of_spaces (cs_analyzers ?c) (cs_text_spaces ?c @ [d\<lparr>ts_text_space_id := i\<rparr>]) Map.empty =
        Inr ((vf_analyzer_cache s)(i \<mapsto> az))"
      using analyzers_of_spaces_snoc [of "cs_analyzers ?c" "cs_text_spaces ?c" Map.empty "vf_analyzer_cache s"
          "d\<lparr>ts_text_space_id := i\<rparr>" x az] ok sinv by (simp add: schema_inv_def build_analyzer_cache_def)
    then show ?thesis
      using sinv below up a ok(3) by (simp add: ok(6) schema_inv_def schema_below_def upsert_table_defs text_space_ok_def
          build_analyzer_cache_def analyzers_of_spaces_more)
  next
    case (rejected e i a)
    then have "beside s s'"
      by (auto simp: beside_def allocator_defs rbind_Inr_iff dest!: take_id_Inr)
    with sinv show ?thesis by (rule schema_inv_beside)
  qed (use sinv in simp)
next
  case (Embedding_space_op spec)
  from ld w [unfolded Embedding_space_op schema_step.simps] show ?thesis
  proof (cases rule: register_embedding_space_cases)
    case (ok i a)
    obtain n where a: "a = (vf_id_allocator s)\<lparr>next_embedding_space_id := n\<rparr>" "unat i = unat (next_embedding_space_id (vf_id_allocator s))"
        "unat n = Suc (unat (next_embedding_space_id (vf_id_allocator s)))"
      using ok by (auto simp: allocator_defs rbind_Inr_iff dest!: take_id_Inr)
    have up: "upsert es_embedding_space_id (embedding_space_desc_of spec i) (cs_embedding_spaces ?c) = cs_embedding_spaces ?c @ [embedding_space_desc_of spec i]"
        "table_below es_embedding_space_id (cs_embedding_spaces ?c @ [embedding_space_desc_of spec i]) n"
      using upsert_fresh [of es_embedding_space_id "cs_embedding_spaces ?c" "next_embedding_space_id (vf_id_allocator s)" "embedding_space_desc_of spec i" n]
        below a by (simp_all add: schema_below_def embedding_space_desc_of_def)
    show ?thesis
      using sinv below up a by (simp add: ok schema_inv_def schema_below_def upsert_table_defs text_space_ok_def
          build_analyzer_cache_def analyzers_of_spaces_more)
  qed (use sinv in simp)
next
  case (Codec_op cp)
  from env hinv w [unfolded Codec_op schema_step.simps] fit show ?thesis
  proof (cases rule: register_codec_cases)
    case (failed e)
    then show ?thesis using sinv by (blast intro: schema_inv_beside)
  next
    case (added bs s1 d)
    let ?c1 = "vf_catalog s1"
    have s1: "schema_inv s1" by (rule schema_inv_beside [OF sinv added(3)])
    have tabs: "cs_codecs ?c1 = cs_codecs ?c" "vf_codec_cache s1 = vf_codec_cache s"
      using added(3) by (auto simp: beside_def)
    have up: "upsert cd_codec_id d (cs_codecs ?c1) = cs_codecs ?c1 @ [d]"
        "table_below cd_codec_id (cs_codecs ?c1 @ [d]) (next_codec_id (vf_id_allocator s1))"
      using upsert_fresh [of cd_codec_id "cs_codecs ?c1" "next_codec_id (vf_id_allocator s)" d
          "next_codec_id (vf_id_allocator s1)"] below added(5,6) by (simp_all add: schema_below_def tabs)
    have fresh: "cd_codec_id d \<notin> cd_codec_id ` set (cs_codecs ?c)"
      using below added(5) by (auto simp: schema_below_def table_below_def)
    have old: "embedding_space_ok contract (cs_codecs ?c @ [d]) cache e"
      if "embedding_space_ok contract (cs_codecs ?c) (vf_codec_cache s) e" "vf_codec_cache s \<subseteq>\<^sub>m cache"
      for contract cache e
      using that by (fastforce simp: embedding_space_ok_def map_le_def dom_def)
    have le: "vf_codec_cache s \<subseteq>\<^sub>m (vf_codec_cache s)(cd_codec_id d \<mapsto> codec)" for codec
      using fresh sinv by (auto simp: map_le_def schema_inv_def)
    show ?thesis
    proof (cases "cp_instantiate cp")
      case (Inl e)
      then have s': "s' = codec_added d s1" using added(10) by simp
      show ?thesis
        using s1 up old by (auto simp: s' codec_added_def schema_inv_def schema_below_def upsert_codec_def
            text_space_ok_def build_analyzer_cache_def tabs)
    next
      case (Inr codec)
      then have s': "s' = (codec_added d s1)\<lparr>vf_codec_cache := (vf_codec_cache s)(cd_codec_id d \<mapsto> codec)\<rparr>"
        using added(10) by simp
      show ?thesis
        using s1 up old [OF _ le] by (auto simp: s' codec_added_def schema_inv_def schema_below_def upsert_codec_def
            text_space_ok_def build_analyzer_cache_def tabs)
    qed
  qed
qed
qed

section \<open>Codecs on disk and in the cache\<close>

text \<open>The parameters of every codec of the catalog, and the codecs that can be built from them.\<close>
type_synonym codec_map = "u32 \<rightharpoonup> codec_params"

definition codec_stored :: "env \<Rightarrow> storage \<Rightarrow> codec_params \<Rightarrow> codec_desc \<Rightarrow> bool" where
  "codec_stored en f cp d \<longleftrightarrow> codec_desc_validate d = Inr () \<and> cd_family d = cp_family cp \<and> cp_wf cp \<and>
     (\<exists>bs. cp_encode cp = Inr bs \<and>
        segment_there (en_hash en) f (cd_params_ref d) CodecParams CNone (of_nat (length bs)) bs)"

definition instantiated :: "codec_map \<Rightarrow> u32 \<rightharpoonup> cached_codec" where
  "instantiated P k = Option.bind (P k) (\<lambda>cp. case cp_instantiate cp of Inl e \<Rightarrow> None | Inr codec \<Rightarrow> Some codec)"

definition codecs_inv :: "env \<Rightarrow> vfile \<Rightarrow> codec_map \<Rightarrow> bool" where
  "codecs_inv en s P \<longleftrightarrow> dom P = cd_codec_id ` set (cs_codecs (vf_catalog s)) \<and>
     (\<forall>d\<in>set (cs_codecs (vf_catalog s)). \<forall>cp. P (cd_codec_id d) = Some cp \<longrightarrow> codec_stored en (vf_file s) cp d) \<and>
     vf_codec_cache s = instantiated P"

lemma codec_stored_append: "codec_stored en f cp d \<Longrightarrow> codec_stored en (f @ g) cp d"
  unfolding codec_stored_def by (blast intro: segment_there_append)

lemma codecs_inv_beside: "codecs_inv en s P \<Longrightarrow> beside s s' \<Longrightarrow> codecs_inv en s' P"
  unfolding codecs_inv_def beside_def by (fastforce intro: codec_stored_append)

lemma codec_stored_reads:
  assumes "env_ok en" and "codec_stored en f cp d" and "fits (length f)"
  obtains bs where "read_segment_payload_typed (en_hash en) unz f (cd_params_ref d) CodecParams = Inr bs"
    "cp_decode (cd_family d) bs = Inr cp"
  using assms read_typed_there [of "en_hash en" f "cd_params_ref d" CodecParams] cp_decode_encode [of cp]
  by (auto simp: codec_stored_def env_ok_def)

text \<open>What an open makes of the stored codecs: it fails on the first that cannot be built.\<close>
lemma codecs_into_cache_stored:
  assumes env: "env_ok en" and fit: "fits (length f)"
  shows "\<forall>d\<in>set ds. \<exists>cp. P (cd_codec_id d) = Some cp \<and> codec_stored en f cp d \<Longrightarrow>
    (if \<forall>d\<in>set ds. instantiated P (cd_codec_id d) \<noteq> None
     then codecs_into_cache (en_hash en) unz f ds m =
       Inr (\<lambda>k. if k \<in> cd_codec_id ` set ds then instantiated P k else m k)
     else \<exists>e. codecs_into_cache (en_hash en) unz f ds m = Inl e)"
proof (induction ds arbitrary: m)
  case Nil
  then show ?case by simp
next
  case (Cons d ds)
  obtain cp where P: "P (cd_codec_id d) = Some cp" and st: "codec_stored en f cp d" using Cons.prems by auto
  obtain bs where rd: "read_segment_payload_typed (en_hash en) unz f (cd_params_ref d) CodecParams = Inr bs"
    and dec: "cp_decode (cd_family d) bs = Inr cp" using codec_stored_reads [OF env st fit] by blast
  have val: "codec_desc_validate d = Inr ()" using st by (simp add: codec_stored_def)
  have step: "codecs_into_cache (en_hash en) unz f (d # ds) m =
      rbind (cp_instantiate cp) (\<lambda>codec. codecs_into_cache (en_hash en) unz f ds (m(cd_codec_id d \<mapsto> codec)))"
    by (simp add: val rd dec)
  show ?case
  proof (cases "cp_instantiate cp")
    case (Inl e)
    then have "instantiated P (cd_codec_id d) = None" by (simp add: instantiated_def P)
    then show ?thesis by (auto simp add: step Inl simp del: codecs_into_cache.simps)
  next
    case (Inr codec)
    then have i: "instantiated P (cd_codec_id d) = Some codec" by (simp add: instantiated_def P)
    have "\<forall>d\<in>set ds. \<exists>cp. P (cd_codec_id d) = Some cp \<and> codec_stored en f cp d" using Cons.prems by simp
    from Cons.IH [OF this, of "m(cd_codec_id d \<mapsto> codec)"] show ?thesis
      by (auto simp: step Inr i fun_eq_iff simp del: codecs_into_cache.simps split: if_splits)
  qed
qed

lemma build_codec_cache_stored:
  assumes env: "env_ok en" and inv: "codecs_inv en s P" and fit: "fits (length (vf_file s @ g))"
  shows "if \<forall>cp\<in>ran P. \<exists>codec. cp_instantiate cp = Inr codec
    then build_codec_cache (en_hash en) unz (vf_file s @ g) (cs_codecs (vf_catalog s)) = Inr (vf_codec_cache s)
    else \<exists>e. build_codec_cache (en_hash en) unz (vf_file s @ g) (cs_codecs (vf_catalog s)) = Inl e"
proof -
  let ?ds = "cs_codecs (vf_catalog s)"
  have dom: "dom P = cd_codec_id ` set ?ds" and cache: "vf_codec_cache s = instantiated P"
    and st: "\<And>d cp. d \<in> set ?ds \<Longrightarrow> P (cd_codec_id d) = Some cp \<Longrightarrow> codec_stored en (vf_file s) cp d"
    using inv by (auto simp: codecs_inv_def)
  have all: "\<forall>d\<in>set ?ds. \<exists>cp. P (cd_codec_id d) = Some cp \<and> codec_stored en (vf_file s @ g) cp d"
    using dom st by (fastforce intro: codec_stored_append)
  have iff: "(\<forall>d\<in>set ?ds. instantiated P (cd_codec_id d) \<noteq> None) \<longleftrightarrow>
      (\<forall>cp\<in>ran P. \<exists>codec. cp_instantiate cp = Inr codec)" (is "?l \<longleftrightarrow> ?r")
  proof -
    have "?l \<longleftrightarrow> (\<forall>k\<in>dom P. instantiated P k \<noteq> None)" by (simp add: dom)
    also have "\<dots> \<longleftrightarrow> ?r"
      by (auto simp: instantiated_def ran_def dom_def split: sum.splits bind_splits) (metis sum.exhaust)+
    finally show ?thesis .
  qed
  have eq: "(\<lambda>k. if k \<in> cd_codec_id ` set ?ds then instantiated P k else None) = instantiated P"
    by (auto simp: fun_eq_iff instantiated_def dom [symmetric] domIff)
  show ?thesis
    using codecs_into_cache_stored [OF env fit all, of unz Map.empty]
    unfolding build_codec_cache_def iff cache eq .
qed

section \<open>Runs\<close>

definition codec_result :: "session_op \<Rightarrow> session_out result \<Rightarrow> (u32 \<times> codec_params) option" where
  "codec_result c r =
     (case (c, r) of (Schema_op (Codec_op cp), Inr (Out_id i)) \<Rightarrow> Some (i, cp) | _ \<Rightarrow> None)"

text \<open>The calibration ids of the parameters are arrays of 32 bytes.\<close>
fun session_op_wf :: "session_op \<Rightarrow> bool" where
  "session_op_wf (Schema_op (Codec_op cp)) = cp_wf cp"
| "session_op_wf c = True"

text \<open>A registration whose parameters encode, of a codec that cannot be built.\<close>
fun rejected_codec :: "session_op \<Rightarrow> bool" where
  "rejected_codec (Schema_op (Codec_op cp)) = (\<exists>bs e. cp_encode cp = Inr bs \<and> cp_instantiate cp = Inl e)"
| "rejected_codec c = False"

definition session_inv :: "env \<Rightarrow> vfile \<Rightarrow> store \<Rightarrow> codec_map \<Rightarrow> bool" where
  "session_inv en s M P \<longleftrightarrow> store_inv en s M \<and> schema_inv s \<and> codecs_inv en s P"

lemma schema_step_codecs_other:
  assumes ld: "rg_loaded (vf_segment_registry s)" "vf_mode s = ReadWrite"
    and w: "schema_step en c s = Some (r, s')" and c: "\<And>cp. c \<noteq> Codec_op cp"
  shows "vf_file s' = vf_file s \<and> cs_codecs (vf_catalog s') = cs_codecs (vf_catalog s) \<and>
    vf_codec_cache s' = vf_codec_cache s"
proof (cases c)
  case (Analyzer_op d)
  from ld w [unfolded Analyzer_op schema_step.simps] show ?thesis
    by (cases rule: register_analyzer_cases) (simp_all add: upsert_analyzer_def)
next
  case (Field_schema_op d)
  from ld w [unfolded Field_schema_op schema_step.simps] show ?thesis
    by (cases rule: register_field_schema_cases) (simp_all add: upsert_field_schema_def)
next
  case (Retrieval_profile_op d)
  from ld w [unfolded Retrieval_profile_op schema_step.simps] show ?thesis
    by (cases rule: register_retrieval_profile_cases) (simp_all add: upsert_retrieval_profile_def)
next
  case (Fusion_profile_op d)
  from ld w [unfolded Fusion_profile_op schema_step.simps] show ?thesis
    by (cases rule: register_fusion_profile_cases) (simp_all add: upsert_fusion_profile_def)
next
  case (Text_space_op d)
  from ld w [unfolded Text_space_op schema_step.simps] show ?thesis
    by (cases rule: register_text_space_cases) (simp_all add: upsert_text_space_def)
next
  case (Embedding_space_op d)
  from ld w [unfolded Embedding_space_op schema_step.simps] show ?thesis
    by (cases rule: register_embedding_space_cases) (simp_all add: upsert_embedding_space_def)
next
  case (Codec_op cp)
  with c show ?thesis by blast
qed

lemma register_codec_codecs:
  assumes env: "env_ok en" and inv: "handle_inv s" and sinv: "schema_inv s" and P: "codecs_inv en s P"
    and w: "register_codec en cp s = Some (r, s')" and wf: "cp_wf cp" and fit: "fits (length (vf_file s'))"
  obtains (failed) e where "r = Inl e" "codecs_inv en s' P" "cs_codecs (vf_catalog s') = cs_codecs (vf_catalog s)"
  | (added) bs i where "cp_encode cp = Inr bs" "P i = None" "codecs_inv en s' (P(i \<mapsto> cp))"
      "case cp_instantiate cp of Inl e \<Rightarrow> r = Inl e | Inr codec \<Rightarrow> r = Inr i"
      "i \<in> vf_dirty_codec_ids s' \<and> vf_dirty s'"
  using env inv w fit
proof (cases rule: register_codec_cases)
  case (failed e)
  show ?thesis
    using failed(3) by (intro that(1) [OF failed(1) codecs_inv_beside [OF P failed(3)]]) (simp add: beside_def)
next
  case (added bs s1 d)
  let ?i = "cd_codec_id d"
  have P1: "codecs_inv en s1 P" by (rule codecs_inv_beside [OF P added(3)])
  have s1: "schema_inv s1" by (rule schema_inv_beside [OF sinv added(3)])
  have tabs: "cs_codecs (vf_catalog s1) = cs_codecs (vf_catalog s)" "vf_codec_cache s1 = vf_codec_cache s"
    using added(3) by (auto simp: beside_def)
  have below: "schema_below (vf_catalog s) (vf_id_allocator s)" using sinv by (simp add: schema_inv_def)
  have up: "upsert cd_codec_id d (cs_codecs (vf_catalog s1)) = cs_codecs (vf_catalog s) @ [d]"
    using upsert_fresh(1) [of cd_codec_id "cs_codecs (vf_catalog s)" "next_codec_id (vf_id_allocator s)" d
        "next_codec_id (vf_id_allocator s1)"] below added(5,6) by (simp add: schema_below_def tabs)
  have fresh: "?i \<notin> cd_codec_id ` set (cs_codecs (vf_catalog s))"
    using below added(5) by (auto simp: schema_below_def table_below_def)
  have dom: "dom P = cd_codec_id ` set (cs_codecs (vf_catalog s))" and cache: "vf_codec_cache s = instantiated P"
    and st1: "\<And>x cp. x \<in> set (cs_codecs (vf_catalog s)) \<Longrightarrow> P (cd_codec_id x) = Some cp \<Longrightarrow>
        codec_stored en (vf_file s1) cp x"
    using P1 by (auto simp: codecs_inv_def tabs)
  have none: "P ?i = None" using dom fresh by blast
  have st: "codec_stored en (vf_file s1) cp d"
    using added(1,7,8,9) wf by (auto simp: codec_stored_def)
  have store: "vf_file s' = vf_file s1" and codecs: "cs_codecs (vf_catalog s') = cs_codecs (vf_catalog s) @ [d]"
    and dirty: "?i \<in> vf_dirty_codec_ids s' \<and> vf_dirty s'"
    and cache': "vf_codec_cache s' = (case cp_instantiate cp of Inl e \<Rightarrow> vf_codec_cache s
        | Inr codec \<Rightarrow> (vf_codec_cache s)(?i \<mapsto> codec))"
    using added(10) up by (auto simp: codec_added_def upsert_codec_def tabs split: sum.splits)
  have "vf_codec_cache s' = instantiated (P(?i \<mapsto> cp))"
    using none by (auto simp: cache' cache instantiated_def fun_eq_iff split: sum.split)
  then have "codecs_inv en s' (P(?i \<mapsto> cp))"
    using st st1 dom fresh by (auto simp: codecs_inv_def codecs store rev_image_eqI)
  then show ?thesis using added(10) by (intro that(2) [OF added(1) none _ _ dirty]) (auto split: sum.splits)
qed

lemma session_step_file:
  assumes "session_step en c s = Some (r, s')"
  shows "length (vf_file s) \<le> length (vf_file s')"
proof (cases c)
  case (Frame_op x)
  then show ?thesis using assms file_monoD [OF file_mono_step] by (auto simp: omap_Some)
next
  case (Schema_op x)
  have "file_mono ensure_text_enabled" by (auto simp: file_mono_def ensure_text_enabled_def)
  then have "file_mono (schema_step en x)"
    by (cases x) (auto simp: register_analyzer_def register_field_schema_def register_retrieval_profile_def
        register_fusion_profile_def register_text_space_def register_embedding_space_def
        file_mono_register_codec intro!: file_mono_obind file_mono_if)
  then show ?thesis using assms file_monoD by (fastforce simp: Schema_op omap_Some)
qed

lemma run_session_file: "run_session en cs s = Some (rs, s') \<Longrightarrow> length (vf_file s) \<le> length (vf_file s')"
proof (induction cs arbitrary: s rs)
  case (Cons c cs)
  then obtain r s1 rs' where "session_step en c s = Some (r, s1)" "run_session en cs s1 = Some (rs', s')"
    by (auto split: option.splits if_splits)
  then show ?case using Cons.IH session_step_file by (blast intro: order_trans)
qed simp

lemma codecs_inv_same:
  "codecs_inv en s P \<Longrightarrow> vf_file s' = vf_file s \<and> cs_codecs (vf_catalog s') = cs_codecs (vf_catalog s) \<and>
    vf_codec_cache s' = vf_codec_cache s \<Longrightarrow> codecs_inv en s' P"
  by (simp add: codecs_inv_def)

lemma session_step_inv:
  assumes env: "env_ok en" and inv: "session_inv en s M P" and wf: "session_op_wf c"
    and w: "session_step en c s = Some (r, s')" and np: "\<not> is_panic r" and fit: "fits (length (vf_file s'))"
  shows "\<exists>M' P'. session_inv en s' M' P' \<and> P \<subseteq>\<^sub>m P' \<and>
    (\<forall>i cp. codec_result c r = Some (i, cp) \<longrightarrow> P' i = Some cp \<and> (\<exists>codec. cp_instantiate cp = Inr codec)) \<and>
    (\<not> rejected_codec c \<longrightarrow> (\<forall>cp\<in>ran P. \<exists>codec. cp_instantiate cp = Inr codec) \<longrightarrow>
       (\<forall>cp\<in>ran P'. \<exists>codec. cp_instantiate cp = Inr codec))"
proof -
  have st: "store_inv en s M" and sch: "schema_inv s" and cod: "codecs_inv en s P"
    using inv by (simp_all add: session_inv_def)
  have ld: "rg_loaded (vf_segment_registry s)" "vf_mode s = ReadWrite" and hinv: "handle_inv s"
    using st by (simp_all add: store_inv_def handle_inv_def)
  have h: "digest32 (en_hash en)" using env by (simp add: env_ok_def)
  show ?thesis
  proof (cases c)
    case (Frame_op x)
    then obtain r0 where w0: "handle_step en x s = Some (r0, s')"
      and r: "r = (case r0 of Inl e \<Rightarrow> Inl e | Inr v \<Rightarrow> Inr (Out_frame v))"
      using w by (auto simp: omap_Some)
    have np0: "\<not> is_panic r0" using np r by (cases r0 rule: is_panic.cases) auto
    obtain M' where "store_inv en s' M'"
      using handle_step_store [OF env st w0 np0 fit] by blast
    moreover have "beside s s'" by (rule beside_opD [OF beside_op_handle_step [OF h] w0 fit])
    ultimately have "session_inv en s' M' P"
      using sch cod by (simp add: session_inv_def schema_inv_beside codecs_inv_beside)
    then show ?thesis by (intro exI [of _ M'] exI [of _ P]) (auto simp: Frame_op codec_result_def)
  next
    case (Schema_op x)
    then obtain r0 where w0: "schema_step en x s = Some (r0, s')"
      and r: "r = (case r0 of Inl e \<Rightarrow> Inl e | Inr v \<Rightarrow> Inr (Out_id v))"
      using w by (auto simp: omap_Some)
    have keep: "session_inv en s' M P'" if "codecs_inv en s' P'" for P'
      using that schema_step_store [OF env st w0 fit] schema_step_inv [OF env st sch w0 fit]
      by (simp add: session_inv_def)
    show ?thesis
    proof (cases "\<exists>cp. x = Codec_op cp")
      case False
      then have "codecs_inv en s' P"
        using schema_step_codecs_other [OF ld w0] by (intro codecs_inv_same [OF cod]) auto
      then show ?thesis
        using False by (intro exI [of _ M] exI [of _ P]) (auto simp: Schema_op codec_result_def keep split: schema_op.split)
    next
      case True
      then obtain cp where x: "x = Codec_op cp" by blast
      have "cp_wf cp" using wf by (simp add: Schema_op x)
      with env hinv sch cod w0 [unfolded x schema_step.simps] show ?thesis using fit
      proof (cases rule: register_codec_codecs)
        case (failed e)
        then show ?thesis
          by (intro exI [of _ M] exI [of _ P]) (simp add: Schema_op x codec_result_def keep r)
      next
        case (added bs i)
        have "P \<subseteq>\<^sub>m P(i \<mapsto> cp)" using added(2) by (auto simp: map_le_def)
        then show ?thesis
          using added by (intro exI [of _ M] exI [of _ "P(i \<mapsto> cp)"])
            (auto simp: Schema_op x codec_result_def keep r split: sum.splits)
      qed
    qed
  qed
qed

definition codec_results :: "session_op list \<Rightarrow> session_out result list \<Rightarrow> (u32 \<times> codec_params) set" where
  "codec_results cs rs = {v. \<exists>(c, r)\<in>set (zip cs rs). codec_result c r = Some v}"

lemma run_session_inv:
  assumes env: "env_ok en"
  shows "session_inv en s M P \<Longrightarrow> list_all session_op_wf cs \<Longrightarrow> run_session en cs s = Some (rs, s') \<Longrightarrow>
   fits (length (vf_file s')) \<Longrightarrow>
   \<exists>M' P'. session_inv en s' M' P' \<and> P \<subseteq>\<^sub>m P' \<and>
     (\<forall>(i, cp)\<in>codec_results cs rs. P' i = Some cp \<and> (\<exists>codec. cp_instantiate cp = Inr codec)) \<and>
     (\<not> list_ex rejected_codec cs \<longrightarrow> (\<forall>cp\<in>ran P. \<exists>codec. cp_instantiate cp = Inr codec) \<longrightarrow>
        (\<forall>cp\<in>ran P'. \<exists>codec. cp_instantiate cp = Inr codec))"
proof (induction cs arbitrary: s rs M P)
  case Nil
  then show ?case by (intro exI [of _ M] exI [of _ P]) (auto simp: codec_results_def)
next
  case (Cons c cs)
  then obtain r s1 rs' where st: "session_step en c s = Some (r, s1)" "\<not> is_panic r"
    and run: "run_session en cs s1 = Some (rs', s')" and rs: "rs = r # rs'"
    by (auto split: option.splits if_splits)
  have "fits (length (vf_file s1))" using Cons.prems(4) run_session_file [OF run] by (rule fits_mono)
  with session_step_inv [OF env Cons.prems(1) _ st] Cons.prems(2) obtain M1 P1
    where i1: "session_inv en s1 M1 P1" "P \<subseteq>\<^sub>m P1"
      "\<And>i cp. codec_result c r = Some (i, cp) \<Longrightarrow> P1 i = Some cp \<and> (\<exists>codec. cp_instantiate cp = Inr codec)"
      "\<not> rejected_codec c \<Longrightarrow> (\<forall>cp\<in>ran P. \<exists>codec. cp_instantiate cp = Inr codec) \<Longrightarrow>
         (\<forall>cp\<in>ran P1. \<exists>codec. cp_instantiate cp = Inr codec)"
    by (simp only: list.pred_inject(2)) blast
  from Cons.IH [OF i1(1) _ run Cons.prems(4)] Cons.prems(2) obtain M' P'
    where i2: "session_inv en s' M' P'" "P1 \<subseteq>\<^sub>m P'"
      "\<And>i cp. (i, cp) \<in> codec_results cs rs' \<Longrightarrow> P' i = Some cp \<and> (\<exists>codec. cp_instantiate cp = Inr codec)"
      "\<not> list_ex rejected_codec cs \<Longrightarrow> (\<forall>cp\<in>ran P1. \<exists>codec. cp_instantiate cp = Inr codec) \<Longrightarrow>
         (\<forall>cp\<in>ran P'. \<exists>codec. cp_instantiate cp = Inr codec)"
    by (simp only: list.pred_inject(2)) blast
  have "codec_results (c # cs) rs \<subseteq> {v. codec_result c r = Some v} \<union> codec_results cs rs'"
    by (auto simp: codec_results_def rs)
  moreover have "P' i = Some cp" if "P1 i = Some cp" for i cp using i2(2) that by (metis domI map_le_def)
  ultimately show ?case
    using i1 i2 by (intro exI [of _ M'] exI [of _ P']) (auto intro: map_le_trans)
qed

lemma session_inv_created: "session_inv en (vfile_created f footer contract) Map.empty Map.empty"
  by (simp add: session_inv_def created_store schema_inv_created)
    (simp add: codecs_inv_def vfile_created_def catalog_snapshot_default_def instantiated_def fun_eq_iff)

end
