(* ===== verification/Reopen.thy ===== *)
theory Reopen imports Session begin

text \<open>
  What the next open makes of the schema a session registered: the caches it rebuilds, the
  codecs it rejects, and the id counters it starts from.
\<close>

section \<open>Reading codecs back\<close>

lemma read_codec_params_stored:
  assumes env: "env_ok en" and inv: "codecs_inv en s P" and strict: "strict_by cd_codec_id (cs_codecs (vf_catalog s))"
    and P: "P i = Some cp" and fit: "fits (length (vf_file s))"
  shows "read_codec_params en i s = Inr cp"
proof -
  have "i \<in> cd_codec_id ` set (cs_codecs (vf_catalog s))" using inv P by (auto simp: codecs_inv_def)
  then obtain d where d: "find_by cd_codec_id i (cs_codecs (vf_catalog s)) = Some d"
    using find_by_None [of cd_codec_id i] by fastforce
  then have "codec_stored en (vf_file s) cp d"
    using inv P find_by_Some [OF d] by (auto simp: codecs_inv_def)
  then obtain bs where "read_segment_payload_typed (en_hash en) (en_zstd_decode en) (vf_file s) (cd_params_ref d)
      CodecParams = Inr bs" "cp_decode (cd_family d) bs = Inr cp"
    by (rule codec_stored_reads [OF env _ fit])
  then show ?thesis by (simp add: read_codec_params_def d)
qed

text \<open>When ids and bytes are left, a registration ends with the instantiation.\<close>
lemma register_codec_reaches:
  assumes env: "env_ok en" and inv: "handle_inv s" and enc: "cp_encode cp = Inr bs"
    and al: "allocate_segment_id (vf_id_allocator s) = Inr (sid, a)" and al2: "allocate_codec_id a = Inr (cid, a2)"
    and hz: "en_hash en bs \<noteq> replicate 32 0" and fit: "fits (length (vf_file s) + SEGMENT_HEADER_SIZE + length bs)"
  obtains s' where "register_codec en cp s = Some (rbind (cp_instantiate cp) (\<lambda>_. Inr cid), s')"
    "length (vf_file s') = length (vf_file s) + SEGMENT_HEADER_SIZE + length bs"
    "cid \<in> cd_codec_id ` set (cs_codecs (vf_catalog s'))"
proof -
  have ld: "rg_loaded (vf_segment_registry s)" "vf_mode s = ReadWrite"
    and strict: "strict_by cd_codec_id (cs_codecs (vf_catalog s))"
    using inv by (auto simp: handle_inv_def catalog_below_def catalog_ok_def)
  have h: "digest32 (en_hash en)" using env by (simp add: env_ok_def)
  have ff: "fits (length (vf_file s))" "fits (SEGMENT_HEADER_SIZE + length bs)"
    using fit by (auto intro: fits_mono)
  let ?seg = "segment_ref_at_end (en_hash en) (vf_file s) sid CodecParams 1 bs"
  let ?d = "\<lparr>cd_codec_id = cid, cd_family = cp_family cp, cd_version = wire_version cp, cd_params_ref = ?seg,
     cd_deterministic_id = compute_codec_deterministic_id (en_hash en) cp bs\<rparr>"
  have "0 < unat sid" using segment_ids.alloc_Inr [OF al] by auto
  then have sid: "sid \<noteq> 0" by auto
  obtain e where e: "catalog_entry_of (en_hash en) sid CodecParams 1 bs ?seg = Inr e"
    using catalog_entry_of_Inr [OF ff(2) sid h refl] by blast
  have len: "unat (of_nat SEGMENT_HEADER_SIZE + of_nat (length bs) :: u64) = SEGMENT_HEADER_SIZE + length bs"
    using fits_u64 [OF ff(2)] by simp
  have "(of_nat SEGMENT_HEADER_SIZE + of_nat (length bs) :: u64) \<noteq> 0"
  proof
    assume "(of_nat SEGMENT_HEADER_SIZE + of_nat (length bs) :: u64) = 0"
    then show False using len by (simp add: SEGMENT_HEADER_SIZE_def)
  qed
  then have val: "codec_desc_validate ?d = Inr ()"
    using hz by (simp add: codec_desc_validate_def segment_ref_at_end_def Let_def)
  obtain reg' d' where rs: "register_segment (vf_segment_registry s, vf_dirty_segment_ids s) e = (reg', d')"
    by fastforce
  let ?f = "snd (append_segment_at_end (en_hash en) (vf_file s) sid CodecParams 1 bs)"
  let ?s1 = "codec_added ?d (s\<lparr>vf_id_allocator := a2, vf_file := ?f, vf_segment_registry := reg',
     vf_dirty_segment_ids := d'\<rparr>)"
  have run: "register_codec en cp s = obind (olift (cp_instantiate cp)) (\<lambda>codec.
     obind (omodify (\<lambda>s. s\<lparr>vf_codec_cache := (vf_codec_cache s)(cid \<mapsto> codec)\<rparr>)) (\<lambda>_. oreturn cid)) ?s1"
    using ld by (simp add: register_codec_def obind_def [of "ensure_write en"] oalloc_def obind_def [of "oalloc z" for z]
        enc al al2 val e oregister_def rs codec_added_def)
  have "length ?f = length (vf_file s) + SEGMENT_HEADER_SIZE + length bs"
    by (simp add: append_segment_at_end_eq [OF h ff(1)] h)
  moreover have "cid \<in> cd_codec_id ` set (upsert cd_codec_id ?d (cs_codecs (vf_catalog s)))"
    by (simp add: set_upsert [OF strict])
  ultimately show ?thesis
    using that by (cases "cp_instantiate cp") (auto simp: run olift_Inl codec_added_def upsert_codec_def)
qed

lemma schema_codecs_fresh:
  "schema_inv s \<Longrightarrow> unat i = unat (next_codec_id (vf_id_allocator s)) \<Longrightarrow>
   i \<notin> cd_codec_id ` set (cs_codecs (vf_catalog s))"
  by (auto simp: schema_inv_def schema_below_def table_below_def)

section \<open>Id counters at open\<close>

text \<open>No counter moves back.\<close>
definition ids_le :: "id_allocator \<Rightarrow> id_allocator \<Rightarrow> bool" where
  "ids_le a b \<longleftrightarrow> unat (next_collection_id a) \<le> unat (next_collection_id b) \<and>
     unat (next_frame_id a) \<le> unat (next_frame_id b) \<and>
     unat (next_text_space_id a) \<le> unat (next_text_space_id b) \<and>
     unat (next_analyzer_id a) \<le> unat (next_analyzer_id b) \<and>
     unat (next_field_schema_id a) \<le> unat (next_field_schema_id b) \<and>
     unat (next_retrieval_profile_id a) \<le> unat (next_retrieval_profile_id b) \<and>
     unat (next_embedding_space_id a) \<le> unat (next_embedding_space_id b) \<and>
     unat (next_codec_id a) \<le> unat (next_codec_id b) \<and> unat (next_vector_id a) \<le> unat (next_vector_id b) \<and>
     unat (next_segment_id a) \<le> unat (next_segment_id b) \<and>
     unat (next_fusion_profile_id a) \<le> unat (next_fusion_profile_id b)"

lemma ids_le_trans: "ids_le a b \<Longrightarrow> ids_le b c \<Longrightarrow> ids_le a c"
  unfolding ids_le_def by (meson le_trans)

lemma ids_le_refl [simp]: "ids_le a a"
  by (simp add: ids_le_def)

lemma observe_ids_le:
  "observe_collection_id a i = Inr b \<Longrightarrow> ids_le a b" "observe_frame_id a j = Inr b \<Longrightarrow> ids_le a b"
  "observe_text_space_id a i = Inr b \<Longrightarrow> ids_le a b" "observe_analyzer_id a i = Inr b \<Longrightarrow> ids_le a b"
  "observe_field_schema_id a i = Inr b \<Longrightarrow> ids_le a b" "observe_retrieval_profile_id a i = Inr b \<Longrightarrow> ids_le a b"
  "observe_embedding_space_id a i = Inr b \<Longrightarrow> ids_le a b" "observe_codec_id a i = Inr b \<Longrightarrow> ids_le a b"
  "observe_vector_id a j = Inr b \<Longrightarrow> ids_le a b" "observe_fusion_profile_id a i = Inr b \<Longrightarrow> ids_le a b"
  by (auto simp: allocator_defs ids_le_def rbind_Inr_iff dest!: observe_id_Inr)

lemma observe_all_le:
  assumes "\<And>a i b. obs a i = Inr b \<Longrightarrow> ids_le a b"
  shows "observe_all obs ids a = Inr b \<Longrightarrow> ids_le a b"
  by (induction ids arbitrary: a) (auto split: sum.splits intro: ids_le_trans assms)

context id_source
begin

lemma observe_each: "obs s i = Inr s' \<Longrightarrow> unat i < nxt s' \<and> nxt s \<le> nxt s'"
  using obs_Inr by fastforce

text \<open>Ids below the counter are never handed out again.\<close>
lemma below_not_taken:
  "run_ids alloc obs ops s = Inr (ids, s') \<Longrightarrow> (\<forall>j\<in>J. unat j < nxt s) \<Longrightarrow> set ids \<inter> J = {}"
  using run_ids_spec [of ops s ids s'] by fastforce

end

lemma observe_all_below:
  assumes "id_source al obs nxt" and "observe_all obs ids a = Inr b"
  shows "(\<forall>i\<in>set ids. unat i < nxt b) \<and> nxt a \<le> nxt b"
  using assms(2)
proof (induction ids arbitrary: a)
  case (Cons i ids)
  then obtain a1 where "obs a i = Inr a1" and r: "observe_all obs ids a1 = Inr b" by (auto split: sum.splits)
  then show ?case using Cons.IH [OF r] id_source.observe_each [OF assms(1)] by fastforce
qed simp

definition never_taken :: "'w::len word allocation \<Rightarrow> 'w word observation \<Rightarrow> 'w word set \<Rightarrow> id_allocator \<Rightarrow> bool" where
  "never_taken al obs I a \<longleftrightarrow> (\<forall>ops js a'. run_ids al obs ops a = Inr (js, a') \<longrightarrow> set js \<inter> I = {})"

lemma observed_never_taken:
  assumes src: "id_source al obs nxt" and "observe_all obs ids a = Inr b" and "ids_le b c"
    and mono: "\<And>a b. ids_le a b \<Longrightarrow> nxt a \<le> nxt b"
  shows "never_taken al obs (set ids) c"
proof -
  have "\<forall>i\<in>set ids. unat i < nxt c"
    using observe_all_below [OF src assms(2)] mono [OF assms(3)] by fastforce
  then show ?thesis
    using id_source.below_not_taken [OF src] by (auto simp: never_taken_def)
qed

lemma observe_catalog_never_taken:
  assumes "observe_catalog_ids c a = Inr a'"
  shows "never_taken allocate_collection_id observe_collection_id (col_collection_id ` set (cs_collections c)) a' \<and>
    never_taken allocate_frame_id observe_frame_id (fd_frame_id ` set (cs_frames c)) a' \<and>
    never_taken allocate_embedding_space_id observe_embedding_space_id (es_embedding_space_id ` set (cs_embedding_spaces c)) a' \<and>
    never_taken allocate_codec_id observe_codec_id (cd_codec_id ` set (cs_codecs c)) a' \<and>
    never_taken allocate_vector_id observe_vector_id (vd_vector_id ` set (cs_vectors c)) a' \<and>
    never_taken allocate_text_space_id observe_text_space_id (ts_text_space_id ` set (cs_text_spaces c)) a' \<and>
    never_taken allocate_analyzer_id observe_analyzer_id (an_analyzer_id ` set (cs_analyzers c)) a' \<and>
    never_taken allocate_field_schema_id observe_field_schema_id (fs_field_schema_id ` set (cs_field_schemas c)) a' \<and>
    never_taken allocate_retrieval_profile_id observe_retrieval_profile_id (rp_profile_id ` set (cs_retrieval_profiles c)) a' \<and>
    never_taken allocate_fusion_profile_id observe_fusion_profile_id (fp_fusion_profile_id ` set (cs_fusion_profiles c)) a'"
proof -
  obtain a1 a2 a3 a4 a5 a6 a7 a8 a9 where
      s0: "observe_all observe_collection_id (map col_collection_id (cs_collections c)) a = Inr a1"
      and s1: "observe_all observe_frame_id (map fd_frame_id (cs_frames c)) a1 = Inr a2"
      and s2: "observe_all observe_embedding_space_id (map es_embedding_space_id (cs_embedding_spaces c)) a2 = Inr a3"
      and s3: "observe_all observe_codec_id (map cd_codec_id (cs_codecs c)) a3 = Inr a4"
      and s4: "observe_all observe_vector_id (map vd_vector_id (cs_vectors c)) a4 = Inr a5"
      and s5: "observe_all observe_text_space_id (map ts_text_space_id (cs_text_spaces c)) a5 = Inr a6"
      and s6: "observe_all observe_analyzer_id (map an_analyzer_id (cs_analyzers c)) a6 = Inr a7"
      and s7: "observe_all observe_field_schema_id (map fs_field_schema_id (cs_field_schemas c)) a7 = Inr a8"
      and s8: "observe_all observe_retrieval_profile_id (map rp_profile_id (cs_retrieval_profiles c)) a8 = Inr a9"
      and s9: "observe_all observe_fusion_profile_id (map fp_fusion_profile_id (cs_fusion_profiles c)) a9 = Inr a'"
    using assms by (auto simp: observe_catalog_ids_def rbind_Inr_iff)
  have l10: "ids_le a' a'" by simp
  have l9: "ids_le a9 a'" by (rule ids_le_trans [OF observe_all_le [OF _ s9] l10]) (rule observe_ids_le)
  have l8: "ids_le a8 a'" by (rule ids_le_trans [OF observe_all_le [OF _ s8] l9]) (rule observe_ids_le)
  have l7: "ids_le a7 a'" by (rule ids_le_trans [OF observe_all_le [OF _ s7] l8]) (rule observe_ids_le)
  have l6: "ids_le a6 a'" by (rule ids_le_trans [OF observe_all_le [OF _ s6] l7]) (rule observe_ids_le)
  have l5: "ids_le a5 a'" by (rule ids_le_trans [OF observe_all_le [OF _ s5] l6]) (rule observe_ids_le)
  have l4: "ids_le a4 a'" by (rule ids_le_trans [OF observe_all_le [OF _ s4] l5]) (rule observe_ids_le)
  have l3: "ids_le a3 a'" by (rule ids_le_trans [OF observe_all_le [OF _ s3] l4]) (rule observe_ids_le)
  have l2: "ids_le a2 a'" by (rule ids_le_trans [OF observe_all_le [OF _ s2] l3]) (rule observe_ids_le)
  have l1: "ids_le a1 a'" by (rule ids_le_trans [OF observe_all_le [OF _ s1] l2]) (rule observe_ids_le)
  have n0: "never_taken allocate_collection_id observe_collection_id (col_collection_id ` set (cs_collections c)) a'"
    using observed_never_taken [OF collection_ids.id_source_axioms s0 l1] by (simp add: ids_le_def)
  have n1: "never_taken allocate_frame_id observe_frame_id (fd_frame_id ` set (cs_frames c)) a'"
    using observed_never_taken [OF frame_ids.id_source_axioms s1 l2] by (simp add: ids_le_def)
  have n2: "never_taken allocate_embedding_space_id observe_embedding_space_id (es_embedding_space_id ` set (cs_embedding_spaces c)) a'"
    using observed_never_taken [OF embedding_space_ids.id_source_axioms s2 l3] by (simp add: ids_le_def)
  have n3: "never_taken allocate_codec_id observe_codec_id (cd_codec_id ` set (cs_codecs c)) a'"
    using observed_never_taken [OF codec_ids.id_source_axioms s3 l4] by (simp add: ids_le_def)
  have n4: "never_taken allocate_vector_id observe_vector_id (vd_vector_id ` set (cs_vectors c)) a'"
    using observed_never_taken [OF vector_ids.id_source_axioms s4 l5] by (simp add: ids_le_def)
  have n5: "never_taken allocate_text_space_id observe_text_space_id (ts_text_space_id ` set (cs_text_spaces c)) a'"
    using observed_never_taken [OF text_space_ids.id_source_axioms s5 l6] by (simp add: ids_le_def)
  have n6: "never_taken allocate_analyzer_id observe_analyzer_id (an_analyzer_id ` set (cs_analyzers c)) a'"
    using observed_never_taken [OF analyzer_ids.id_source_axioms s6 l7] by (simp add: ids_le_def)
  have n7: "never_taken allocate_field_schema_id observe_field_schema_id (fs_field_schema_id ` set (cs_field_schemas c)) a'"
    using observed_never_taken [OF field_schema_ids.id_source_axioms s7 l8] by (simp add: ids_le_def)
  have n8: "never_taken allocate_retrieval_profile_id observe_retrieval_profile_id (rp_profile_id ` set (cs_retrieval_profiles c)) a'"
    using observed_never_taken [OF retrieval_profile_ids.id_source_axioms s8 l9] by (simp add: ids_le_def)
  have n9: "never_taken allocate_fusion_profile_id observe_fusion_profile_id (fp_fusion_profile_id ` set (cs_fusion_profiles c)) a'"
    using observed_never_taken [OF fusion_profile_ids.id_source_axioms s9 l10] by (simp add: ids_le_def)
  show ?thesis using n0 n1 n2 n3 n4 n5 n6 n7 n8 n9 by blast
qed

section \<open>Properties\<close>

text \<open>
  C26: References between the tables resolve. After any run of frame operations and
  registrations on a created file, whatever failed on the way, every text space names an
  analyzer, a field schema and a profile of the catalog, and every embedding space is within
  the contract of the file (dimension, element type), names a codec exactly when its elements
  are not f8, and that codec is in the catalog and in the cache with the dimension of the space.
\<close>
theorem schema_references_resolve:
  assumes "env_ok en" and "list_all session_op_wf cs"
    and "run_session en cs (vfile_created f footer contract) = Some (rs, s)" and "fits (length (vf_file s))"
  shows "(\<forall>t\<in>set (cs_text_spaces (vf_catalog s)). text_space_ok (vf_catalog s) t) \<and>
    (\<forall>e\<in>set (cs_embedding_spaces (vf_catalog s)).
       embedding_space_ok (vf_create_contract s) (cs_codecs (vf_catalog s)) (vf_codec_cache s) e)"
  using run_session_inv [OF assms(1) session_inv_created assms(2-4)]
  by (auto simp: session_inv_def schema_inv_def)

text \<open>
  C25: The caches of a handle are the ones the next open builds. After a run in which no codec
  was registered whose parameters encode but cannot be instantiated, rebuilding the codec cache
  from the catalog and the file, with whatever a commit has appended to it, gives the cache the
  handle kept step by step; the same holds of the analyzer cache; and each registered codec
  reads back its parameters.
\<close>
theorem reopen_rebuilds_caches:
  assumes "env_ok en" and "list_all session_op_wf cs"
    and "run_session en cs (vfile_created f footer contract) = Some (rs, s)" and "fits (length (vf_file s @ g))"
    and "\<not> list_ex rejected_codec cs"
  shows "build_codec_cache (en_hash en) unz (vf_file s @ g) (cs_codecs (vf_catalog s)) = Inr (vf_codec_cache s) \<and>
    build_analyzer_cache (vf_catalog s) = Inr (vf_analyzer_cache s) \<and>
    (\<forall>(i, cp)\<in>codec_results cs rs. read_codec_params en i s = Inr cp \<and>
       (\<exists>codec. cp_instantiate cp = Inr codec \<and> vf_codec_cache s i = Some codec))"
proof -
  have fit: "fits (length (vf_file s))" using assms(4) by (auto intro: fits_mono)
  obtain M P where inv: "session_inv en s M P"
    and res: "\<forall>(i, cp)\<in>codec_results cs rs. P i = Some cp \<and> (\<exists>codec. cp_instantiate cp = Inr codec)"
    and nrej: "\<not> list_ex rejected_codec cs \<longrightarrow> (\<forall>cp\<in>ran (Map.empty :: codec_map). \<exists>codec. cp_instantiate cp = Inr codec) \<longrightarrow>
        (\<forall>cp\<in>ran P. \<exists>codec. cp_instantiate cp = Inr codec)"
    using run_session_inv [OF assms(1) session_inv_created assms(2,3) fit] by (elim exE conjE) (rule that, assumption+)
  have all: "\<forall>cp\<in>ran P. \<exists>codec. cp_instantiate cp = Inr codec" using nrej assms(5) by simp
  have cod: "codecs_inv en s P" and sch: "schema_inv s" using inv by (simp_all add: session_inv_def)
  have strict: "strict_by cd_codec_id (cs_codecs (vf_catalog s))"
    using sch by (simp add: schema_inv_def schema_below_def table_below_def)
  show ?thesis
  proof (intro conjI ballI)
    show "build_codec_cache (en_hash en) unz (vf_file s @ g) (cs_codecs (vf_catalog s)) = Inr (vf_codec_cache s)"
      using build_codec_cache_stored [OF assms(1) cod assms(4)] all by simp
    show "build_analyzer_cache (vf_catalog s) = Inr (vf_analyzer_cache s)"
      using sch by (simp add: schema_inv_def)
    fix x assume "x \<in> codec_results cs rs"
    then show "case x of (i, cp) \<Rightarrow> read_codec_params en i s = Inr cp \<and>
        (\<exists>codec. cp_instantiate cp = Inr codec \<and> vf_codec_cache s i = Some codec)"
      using res read_codec_params_stored [OF assms(1) cod strict _ fit] cod
      by (cases x) (fastforce simp: codecs_inv_def instantiated_def)
  qed
qed

text \<open>
  C29: A rejected codec poisons the file. When the parameters of a codec encode but the codec
  cannot be built from them (UPQ parameters with more than 2048 cells), \<open>register_codec\<close>
  returns the error with the codec already in the catalog and marked dirty. From then on,
  whatever further operations run and whatever is appended, building the codec cache fails:
  the next commit persists the codec and every later attempt to load that snapshot fails.
\<close>
theorem rejected_codec_poisons_catalog:
  assumes "env_ok en" and "list_all session_op_wf cs"
    and "run_session en cs (vfile_created f footer contract) = Some (rs, s)"
    and "cp_encode cp = Inr bs" and "cp_instantiate cp = Inl e" and "cp_wf cp"
    and "allocate_segment_id (vf_id_allocator s) = Inr (sid, a)" and "allocate_codec_id a = Inr (cid, a2)"
    and "en_hash en bs \<noteq> replicate 32 0" and "fits (length (vf_file s) + SEGMENT_HEADER_SIZE + length bs)"
  shows "\<exists>s1. register_codec en cp s = Some (Inl e, s1) \<and> vf_dirty s1 \<and>
    (\<exists>d\<in>set (cs_codecs (vf_catalog s1)). cd_codec_id d = cid \<and> cid \<in> vf_dirty_codec_ids s1) \<and>
    (\<forall>cs' rs' s2 g unz. list_all session_op_wf cs' \<longrightarrow> run_session en cs' s1 = Some (rs', s2) \<longrightarrow>
       fits (length (vf_file s2 @ g)) \<longrightarrow>
       (\<exists>e'. build_codec_cache (en_hash en) unz (vf_file s2 @ g) (cs_codecs (vf_catalog s2)) = Inl e'))"
proof -
  have fit: "fits (length (vf_file s))" using assms(10) by (rule fits_mono) simp
  obtain M P where inv: "session_inv en s M P"
    using run_session_inv [OF assms(1) session_inv_created assms(2,3) fit] by blast
  then have st: "store_inv en s M" and sch: "schema_inv s" and cod: "codecs_inv en s P" and hinv: "handle_inv s"
    by (simp_all add: session_inv_def store_inv_def)
  obtain s1 where w0: "register_codec en cp s = Some (rbind (cp_instantiate cp) (\<lambda>_. Inr cid), s1)"
    and len: "length (vf_file s1) = length (vf_file s) + SEGMENT_HEADER_SIZE + length bs"
    and cid: "cid \<in> cd_codec_id ` set (cs_codecs (vf_catalog s1))"
    by (rule register_codec_reaches [OF assms(1) hinv assms(4,7-10)])
  have w: "register_codec en cp s = Some (Inl e, s1)" and fit1: "fits (length (vf_file s1))"
    using w0 len assms(5,10) by simp_all
  have "unat cid = unat (next_codec_id (vf_id_allocator s))"
    using codec_id_taken [OF assms(8)] segment_id_taken [OF assms(7)] by simp
  then have new: "cs_codecs (vf_catalog s1) \<noteq> cs_codecs (vf_catalog s)"
    using cid schema_codecs_fresh [OF sch, of cid] by metis
  obtain i where P1: "P i = None" "codecs_inv en s1 (P(i \<mapsto> cp))"
    and dirty: "i \<in> vf_dirty_codec_ids s1 \<and> vf_dirty s1"
    using assms(1) hinv sch cod w assms(6) fit1
    by (cases rule: register_codec_codecs) (use new in auto)
  have st1: "session_inv en s1 M (P(i \<mapsto> cp))"
    using schema_step_store [OF assms(1) st, of "Codec_op cp"] schema_step_inv [OF assms(1) st sch, of "Codec_op cp"]
      w fit1 P1(2) by (simp add: session_inv_def)
  have "i \<in> cd_codec_id ` set (cs_codecs (vf_catalog s1))" "cid \<in> dom (P(i \<mapsto> cp))" "cid \<notin> dom P"
    using P1(2) cid cod schema_codecs_fresh [OF sch \<open>unat cid = _\<close>] by (auto simp: codecs_inv_def)
  then have "i = cid" by auto
  have "\<exists>e'. build_codec_cache (en_hash en) unz (vf_file s2 @ g) (cs_codecs (vf_catalog s2)) = Inl e'"
    if wf': "list_all session_op_wf cs'" and run: "run_session en cs' s1 = Some (rs', s2)"
      and fit2: "fits (length (vf_file s2 @ g))" for cs' rs' s2 g unz
  proof -
    have "fits (length (vf_file s2))" using fit2 by (auto intro: fits_mono)
    from run_session_inv [OF assms(1) st1 wf' run this] obtain M' P'
      where inv2: "session_inv en s2 M' P'" and le: "P(i \<mapsto> cp) \<subseteq>\<^sub>m P'" by blast
    then have "cp \<in> ran P'" by (metis domI fun_upd_same map_le_def ranI)
    then show ?thesis
      using build_codec_cache_stored [OF assms(1) _ fit2, of P' unz] inv2 assms(5)
      by (auto simp: session_inv_def split: if_splits)
  qed
  then show ?thesis using w dirty cid \<open>i = cid\<close> by blast
qed

text \<open>
  C30: Ids are never reused. Once \<open>observe_catalog_ids\<close> has run over a decoded catalog, no
  sequence of allocations and observations on any of the ten tables ever hands out an id the
  catalog already holds.
\<close>
theorem reopened_ids_fresh:
  assumes "observe_catalog_ids c a = Inr a'"
  shows "never_taken allocate_collection_id observe_collection_id (col_collection_id ` set (cs_collections c)) a' \<and>
    never_taken allocate_frame_id observe_frame_id (fd_frame_id ` set (cs_frames c)) a' \<and>
    never_taken allocate_embedding_space_id observe_embedding_space_id (es_embedding_space_id ` set (cs_embedding_spaces c)) a' \<and>
    never_taken allocate_codec_id observe_codec_id (cd_codec_id ` set (cs_codecs c)) a' \<and>
    never_taken allocate_vector_id observe_vector_id (vd_vector_id ` set (cs_vectors c)) a' \<and>
    never_taken allocate_text_space_id observe_text_space_id (ts_text_space_id ` set (cs_text_spaces c)) a' \<and>
    never_taken allocate_analyzer_id observe_analyzer_id (an_analyzer_id ` set (cs_analyzers c)) a' \<and>
    never_taken allocate_field_schema_id observe_field_schema_id (fs_field_schema_id ` set (cs_field_schemas c)) a' \<and>
    never_taken allocate_retrieval_profile_id observe_retrieval_profile_id (rp_profile_id ` set (cs_retrieval_profiles c)) a' \<and>
    never_taken allocate_fusion_profile_id observe_fusion_profile_id (fp_fusion_profile_id ` set (cs_fusion_profiles c)) a'"
  by (rule observe_catalog_never_taken [OF assms])

section \<open>Examples\<close>

definition ex_env2 :: env where "ex_env2 = ex_env\<lparr>en_hash := (\<lambda>bs. replicate 32 1)\<rparr>"

lemma ex_env2_ok: "env_ok ex_env2"
  by (simp add: env_ok_def ex_env2_def ex_env_def digest32_def)

definition ex_schema_ops :: "session_op list" where
  "ex_schema_ops = map Schema_op
     [Analyzer_op \<lparr>an_analyzer_id = 0, an_unicode_normalization = Nfkc, an_case_fold = True, an_accent_fold = True,
        an_tokenizer = UnicodeWords, an_stemming = Stem_none, an_stopword_set_ref = None,
        an_stopword_query_only = False, an_stopwords = Stop_none, an_english_possessive_strip = True,
        an_min_token_len = 1, an_max_token_len = 64, an_shingle_size = 0, an_ngram_min = None, an_ngram_max = None,
        an_punctuation_policy = Punct_drop\<rparr>,
      Field_schema_op \<lparr>fs_field_schema_id = 0, fs_fields = []\<rparr>,
      Retrieval_profile_op \<lparr>rp_profile_id = 0, rp_profile_type = JaccardExact_type, rp_params = JaccardExact Terms\<rparr>,
      Text_space_op \<lparr>ts_text_space_id = 0, ts_name = ''t'', ts_analyzer_id = 1, ts_field_schema_id = 1,
        ts_default_profile_id = 1, ts_flags = 0, ts_enabled_retrievers = 1\<rparr>]"

lemma ex_schema_run:
  "\<exists>s. run_session ex_env2 ex_schema_ops ex_created =
      Some ([Inr (Out_id 1), Inr (Out_id 1), Inr (Out_id 1), Inr (Out_id 1)], s) \<and> vf_file s = [] \<and>
    length (cs_text_spaces (vf_catalog s)) = 1"
  by (simp add: ex_schema_ops_def ex_created_def vfile_created_def omap_def oalloc_def ensure_write_def
      ensure_segment_registry_loaded_def ensure_text_enabled_def obind_def olift_def contract_default_def
      register_analyzer_def register_field_schema_def register_retrieval_profile_def register_text_space_def
      allocate_analyzer_id_def allocate_field_schema_id_def allocate_retrieval_profile_id_def
      allocate_text_space_id_def id_allocator_default_def take_id_def validate_next_def next_id_def checked_add_def
      catalog_snapshot_default_def upsert_table_defs upsert_def binary_search_by_key_def vec_insert_def
      find_by_def analyzer_from_desc_def)

definition ex_upq :: "u32 \<Rightarrow> upq_params" where
  "ex_upq cells = \<lparr>up_dimension = 2, up_num_pairs = 1, up_block_size = 2, up_rotation_seed = 9, up_cells = cells,
     up_design_source = Rayleigh, up_renormalize_at_decode = True, up_ring_radii = [0x3F800000, 0x40000000],
     up_ring_phases = [4, 4], up_sigma_per_pair = [0x3F800000], up_calibration_id = replicate 32 1\<rparr>"

lemma ex_upq_valid: "upq_validate (ex_upq 8) = Inr ()" "upq_validate (ex_upq 4096) = Inr ()"
  by (simp_all add: upq_validate_def ex_upq_def is_power_of_two_def UPQ_CELLS_MIN_def UPQ_CELLS_MAX_def
      UPQ_MIN_RING_PHASES_def f32_is_finite_def f32_le_zero_def)

lemma ex_created_inv: "store_inv en ex_created Map.empty" "handle_inv ex_created"
  using created_store by (auto simp: ex_created_def store_inv_def)

lemma ex_ids:
  "allocate_segment_id (vf_id_allocator ex_created) = Inr (1, id_allocator_default\<lparr>next_segment_id := 2\<rparr>)"
  "allocate_codec_id (id_allocator_default\<lparr>next_segment_id := 2\<rparr>) =
     Inr (1, id_allocator_default\<lparr>next_segment_id := 2, next_codec_id := 2\<rparr>)"
  by (simp_all add: ex_created_def vfile_created_def allocate_segment_id_def allocate_codec_id_def
      id_allocator_default_def take_id_def validate_next_def next_id_def checked_add_def)

lemma ex_upq_bytes:
  assumes "upq_validate (ex_upq cells) = Inr ()"
  shows "cp_encode (UpqP (ex_upq cells)) = Inr (upq_body (ex_upq cells))" "length (upq_body (ex_upq cells)) = 86"
    "cp_wf (UpqP (ex_upq cells))"
  using assms upq_body_length [of "ex_upq cells"]
  by (simp_all add: encode_upq_params_def ex_upq_def HEAD_BYTES_def)

lemma schema_references_resolve_witness:
  "\<exists>rs s. run_session ex_env2 ex_schema_ops ex_created = Some (rs, s) \<and> cs_text_spaces (vf_catalog s) \<noteq> [] \<and>
    (\<forall>t\<in>set (cs_text_spaces (vf_catalog s)). text_space_ok (vf_catalog s) t)"
proof -
  obtain rs s where run: "run_session ex_env2 ex_schema_ops ex_created = Some (rs, s)" "vf_file s = []"
    "length (cs_text_spaces (vf_catalog s)) = 1" using ex_schema_run by blast
  have "list_all session_op_wf ex_schema_ops" by (simp add: ex_schema_ops_def)
  then show ?thesis
    using schema_references_resolve [OF ex_env2_ok _ run(1) [unfolded ex_created_def]] run by (auto simp: fits_def)
qed

lemma reopen_rebuilds_caches_witness:
  "\<exists>s. run_session ex_env2 [Schema_op (Codec_op (UpqP (ex_upq 8)))] ex_created = Some ([Inr (Out_id 1)], s) \<and>
    build_codec_cache (en_hash ex_env2) Some (vf_file s @ [0]) (cs_codecs (vf_catalog s)) = Inr (vf_codec_cache s) \<and>
    read_codec_params ex_env2 1 s = Inr (UpqP (ex_upq 8))"
proof -
  let ?cs = "[Schema_op (Codec_op (UpqP (ex_upq 8)))]"
  have inst: "cp_instantiate (UpqP (ex_upq 8)) = Inr \<lparr>cc_family = Upq, cc_dimension = 2\<rparr>"
    using upq_instantiate [OF ex_upq_valid(1)] by (simp add: ex_upq_def UPQ_WIRE_MAX_CELLS_def UPQ_WIRE_BITS_def)
  have hz: "en_hash ex_env2 (upq_body (ex_upq 8)) \<noteq> replicate 32 0" by (simp add: ex_env2_def)
  note bytes = ex_upq_bytes [OF ex_upq_valid(1)]
  have file0: "length (vf_file ex_created) = 0" by (simp add: ex_created_def vfile_created_def)
  obtain s where w: "register_codec ex_env2 (UpqP (ex_upq 8)) ex_created = Some (Inr 1, s)"
    and len: "length (vf_file s) = 162"
    using register_codec_reaches [OF ex_env2_ok ex_created_inv(2) bytes(1) ex_ids hz] inst bytes(2) file0
    by (auto simp: fits_def SEGMENT_HEADER_SIZE_def)
  have run: "run_session ex_env2 ?cs ex_created = Some ([Inr (Out_id 1)], s)"
    using w by (simp add: omap_def obind_def)
  have "(1, UpqP (ex_upq 8)) \<in> codec_results ?cs [Inr (Out_id 1)]"
    by (simp add: codec_results_def codec_result_def)
  moreover have "\<not> list_ex rejected_codec ?cs" using inst by simp
  ultimately show ?thesis
    using reopen_rebuilds_caches [OF ex_env2_ok _ run [unfolded ex_created_def], of "[0]" Some] run bytes(3) len
    by (auto simp: fits_def)
qed

lemma rejected_codec_poisons_catalog_witness:
  "\<exists>e s1 e'. register_codec ex_env2 (UpqP (ex_upq 4096)) ex_created = Some (Inl e, s1) \<and>
    build_codec_cache (en_hash ex_env2) Some (vf_file s1) (cs_codecs (vf_catalog s1)) = Inl e'"
proof -
  let ?e = "Unsupported ''UpqCodec: cells exceeds the 11-bit wire packing''"
  have inst: "cp_instantiate (UpqP (ex_upq 4096)) = Inl ?e"
    using upq_instantiate [OF ex_upq_valid(2)] by (simp add: ex_upq_def UPQ_WIRE_MAX_CELLS_def UPQ_WIRE_BITS_def)
  have hz: "en_hash ex_env2 (upq_body (ex_upq 4096)) \<noteq> replicate 32 0" by (simp add: ex_env2_def)
  note bytes = ex_upq_bytes [OF ex_upq_valid(2)]
  have file0: "length (vf_file ex_created) = 0" by (simp add: ex_created_def vfile_created_def)
  have run: "run_session ex_env2 [] ex_created = Some ([], ex_created)" by simp
  obtain s1 where s1: "register_codec ex_env2 (UpqP (ex_upq 4096)) ex_created = Some (Inl ?e, s1)"
    and len: "length (vf_file s1) = 162"
    using register_codec_reaches [OF ex_env2_ok ex_created_inv(2) bytes(1) ex_ids hz] inst bytes(2) file0
    by (auto simp: fits_def SEGMENT_HEADER_SIZE_def)
  have "fits (length (vf_file ex_created) + SEGMENT_HEADER_SIZE + length (upq_body (ex_upq 4096)))"
    by (simp add: file0 bytes(2) fits_def SEGMENT_HEADER_SIZE_def)
  from rejected_codec_poisons_catalog [OF ex_env2_ok _ run [unfolded ex_created_def] bytes(1) inst bytes(3)
      ex_ids [unfolded ex_created_def] hz this [unfolded ex_created_def]]
  obtain s1' where s1': "register_codec ex_env2 (UpqP (ex_upq 4096)) ex_created = Some (Inl ?e, s1')"
    and rest: "\<And>cs' rs' s2 g unz. list_all session_op_wf cs' \<Longrightarrow> run_session ex_env2 cs' s1' = Some (rs', s2) \<Longrightarrow>
       fits (length (vf_file s2 @ g)) \<Longrightarrow>
       \<exists>e'. build_codec_cache (en_hash ex_env2) unz (vf_file s2 @ g) (cs_codecs (vf_catalog s2)) = Inl e'"
    unfolding ex_created_def by (simp only: list.pred_inject) blast
  have "\<exists>e'. build_codec_cache (en_hash ex_env2) Some (vf_file s1 @ []) (cs_codecs (vf_catalog s1)) = Inl e'"
    using rest [of "[]" "[]" s1' "[]" Some] s1 s1' len by (simp add: fits_def)
  then show ?thesis using s1 by auto
qed

lemma reopened_ids_fresh_witness:
  "\<exists>a'. observe_catalog_ids (catalog_snapshot_default\<lparr>cs_collections := [\<lparr>col_collection_id = 7, col_name = ''c'',
      col_created_at = 0, col_default_text_space_id = None, col_default_embedding_space_id = None, col_flags = 0,
      col_metadata_ref = None\<rparr>]\<rparr>) id_allocator_default = Inr a' \<and>
    never_taken allocate_collection_id observe_collection_id {7} a'"
proof -
  let ?c = "catalog_snapshot_default\<lparr>cs_collections := [\<lparr>col_collection_id = 7, col_name = ''c'',
      col_created_at = 0, col_default_text_space_id = None, col_default_embedding_space_id = None, col_flags = 0,
      col_metadata_ref = None\<rparr>]\<rparr>"
  obtain a' where a: "observe_catalog_ids ?c id_allocator_default = Inr a'"
    by (simp add: observe_catalog_ids_def catalog_snapshot_default_def observe_collection_id_def observe_id_def
        next_id_def checked_add_def id_allocator_default_def)
  show ?thesis using reopened_ids_fresh [OF a] a by (simp add: catalog_snapshot_default_def)
qed

end
