(* ===== verification/Postings.thy ===== *)
theory Postings imports Columns begin

text \<open>
  \<open>format/postings.rs\<close>: the payload of a postings segment (magic \<open>VLTP\<close>, version 3). The
  posting lists of the terms are concatenated into one blob, each as a stream of frame-id
  gaps whose low bit says whether a term frequency follows in a separate exception stream,
  and a directory of fixed-size entries at the end points at them, so that an open decodes
  no list and a query decodes only its own. The decoder of a list is proved to undo the
  encoder, through the directory.
\<close>

section \<open>Data\<close>

definition VLTP_MAGIC :: bytes where "VLTP_MAGIC = [0x56, 0x4C, 0x54, 0x50]"
definition VLTP_VERSION :: u16 where "VLTP_VERSION = 3"

text \<open>\<open>u32::MAX\<close>: no list is dense.\<close>
definition DENSE_THRESHOLD :: u32 where "DENSE_THRESHOLD = - 1"

definition DENSE_FLAG :: u32 where "DENSE_FLAG = push_bit 31 1"

record positions_ref =
  pref_segment_id :: u64
  pref_ordinal :: u32

record posting =
  po_frame_id :: u64
  po_collection_id :: u32
  po_field_mask :: u32
  po_term_freq :: u32
  po_positions_ref :: "positions_ref option"

record posting_list =
  pl_term_id :: u32
  pl_df :: u32
  pl_postings :: "posting list"

record postings_segment =
  ps_text_space_id :: u32
  ps_previous_root :: "segment_ref option"
  ps_posting_lists :: "posting_list list"

record posting_list_decoded =
  pd_term_id :: u32
  pd_df :: u32
  pd_frame_ids :: "u64 list"
  pd_term_freqs :: "u32 list"
  pd_collection_ids :: "u32 list"
  pd_field_masks :: "u32 list"

record postings_directory_entry =
  pe_term_id :: u32
  pe_df :: u32
  pe_cf :: u64
  pe_blob_offset :: u32
  pe_blob_len :: u32
  pe_is_dense :: bool

record postings_segment_directory =
  pg_text_space_id :: u32
  pg_previous_root :: "segment_ref option"
  pg_entries :: "postings_directory_entry list"
  pg_blob :: bytes

section \<open>Encoding one list\<close>

text \<open>The first loop of \<open>encode_posting_blob\<close>; the flag says that \<open>i > 0\<close> does not hold yet.\<close>
fun encode_gaps :: "bool \<Rightarrow> u64 \<Rightarrow> posting list \<Rightarrow> bytes result" where
  "encode_gaps first prev [] = Inr []"
| "encode_gaps first prev (p # ps) =
     (if \<not> first \<and> po_frame_id p \<le> prev
      then Inl (Format ''postings within a list must be ascending by frame_id'')
      else let gap = po_frame_id p - prev in
        if drop_bit 63 gap \<noteq> 0 then Inl (Format ''gap exceeds 2^63'')
        else let tf_flag = (if 1 < po_term_freq p then 1 else 0) in
          rbind (encode_gaps False (po_frame_id p) ps) (\<lambda>rest.
            Inr (write_varint_u64 (push_bit 1 gap OR tf_flag) @ rest)))"

fun encode_tf_exceptions :: "posting list \<Rightarrow> bytes result" where
  "encode_tf_exceptions [] = Inr []"
| "encode_tf_exceptions (p # ps) =
     (if 1 < po_term_freq p
      then rbind (encode_tf_exceptions ps) (\<lambda>rest.
             Inr (write_varint_u64 (ucast (po_term_freq p)) @ rest))
      else if po_term_freq p = 0 then Inl (Format ''term_freq 0 is invalid'')
      else encode_tf_exceptions ps)"

definition encode_posting_blob :: "posting_list \<Rightarrow> bytes result" where
  "encode_posting_blob l =
     rbind (ok_or (u32_try_from (length (pl_postings l)))
       (Format ''PostingList posting count overflow'')) (\<lambda>posting_count.
     rbind (encode_gaps True 0 (pl_postings l)) (\<lambda>gaps.
     rbind (encode_tf_exceptions (pl_postings l)) (\<lambda>exceptions.
     if list_ex (\<lambda>p. po_positions_ref p \<noteq> None) (pl_postings l)
     then Inl (Unsupported ''positions_ref is reserved for a future format version'')
     else Inr (write_varint_u64 (ucast posting_count) @ gaps @ exceptions
            @ concat (map (\<lambda>p. write_varint_u64 (ucast (po_collection_id p))) (pl_postings l))
            @ concat (map (\<lambda>p. write_varint_u64 (ucast (po_field_mask p))) (pl_postings l))
            @ [0]))))"

text \<open>The dense form; the index of a word may lie outside the bitset of an unsorted list.\<close>
fun set_frame_bits :: "bool \<Rightarrow> u64 \<Rightarrow> posting list \<Rightarrow> u64 list \<Rightarrow> u64 list result" where
  "set_frame_bits first prev [] bitset = Inr bitset"
| "set_frame_bits first prev (p # ps) bitset =
     (if \<not> first \<and> po_frame_id p \<le> prev
      then Inl (Format ''dense list must be ascending by frame_id'')
      else let fid = po_frame_id p; word_idx = unat (fid div 64) in
        if length bitset \<le> word_idx then Inl (Panic ''index out of bounds'')
        else set_frame_bits False fid ps
               (bitset[word_idx := bitset ! word_idx OR push_bit (unat (fid mod 64)) 1]))"

definition encode_posting_blob_dense :: "posting_list \<Rightarrow> bytes result" where
  "encode_posting_blob_dense l =
     (if pl_postings l = [] then Inl (Format ''dense posting list cannot be empty'')
      else let max_frame = po_frame_id (List.last (pl_postings l));
               num_words = unat (max_frame div 64 + 1)
        in rbind (set_frame_bits True 0 (pl_postings l) (replicate num_words 0)) (\<lambda>bitset.
             Inr (concat (map u64_le bitset))))"

section \<open>Encoding a segment\<close>

text \<open>\<open>list.postings.iter().map(|p| u64::from(p.term_freq)).sum()\<close>.\<close>
definition collection_freq :: "posting list \<Rightarrow> u64" where
  "collection_freq ps = sum_list (map (\<lambda>p. ucast (po_term_freq p)) ps)"

definition write_dir_entry :: "u32 \<Rightarrow> u32 \<Rightarrow> u64 \<Rightarrow> u32 \<Rightarrow> u32 \<Rightarrow> bytes" where
  "write_dir_entry term_id df cf blob_offset blob_len_with_flag =
     u32_le term_id @ u32_le df @ u64_le cf @ u32_le blob_offset @ u32_le blob_len_with_flag"

fun encode_posting_lists :: "posting_list list \<Rightarrow> bytes \<Rightarrow> (bytes \<times> bytes) result" where
  "encode_posting_lists [] blob = Inr (blob, [])"
| "encode_posting_lists (l # ls) blob =
     rbind (ok_or (u32_try_from (length blob)) (Format ''blob offset exceeds u32'')) (\<lambda>blob_offset.
     let cf = collection_freq (pl_postings l); is_dense = DENSE_THRESHOLD < pl_df l in
     rbind (if is_dense then encode_posting_blob_dense l else encode_posting_blob l) (\<lambda>term_blob.
     rbind (ok_or (u32_try_from (length term_blob)) (Format ''term blob length exceeds u32''))
       (\<lambda>blob_byte_len.
     if blob_byte_len AND DENSE_FLAG \<noteq> 0
     then Inl (Format ''term blob length collides with dense flag bit'')
     else rbind (encode_posting_lists ls (blob @ term_blob)) (\<lambda>(blob', directory).
       Inr (blob', write_dir_entry (pl_term_id l) (pl_df l) cf blob_offset
                (if is_dense then blob_byte_len OR DENSE_FLAG else blob_byte_len) @ directory)))))"

definition encode_postings_segment :: "postings_segment \<Rightarrow> bytes result" where
  "encode_postings_segment seg =
     rbind (encode_posting_lists (ps_posting_lists seg) []) (\<lambda>(blob, directory).
     rbind (ok_or (u32_try_from (length blob)) (Format ''blob exceeds u32'')) (\<lambda>blob_len.
     rbind (ok_or (u32_try_from (length (ps_posting_lists seg))) (Format ''dir count exceeds u32''))
       (\<lambda>dir_count.
     Inr (VLTP_MAGIC @ u16_le VLTP_VERSION @ u32_le (ps_text_space_id seg)
          @ write_optional_segment_ref (ps_previous_root seg)
          @ u32_le blob_len @ blob @ u32_le dir_count @ directory))))"

section \<open>Decoding\<close>

text \<open>The gap loop; the second component collects the rows whose flag bit is set.\<close>
fun read_gaps :: "nat \<Rightarrow> nat \<Rightarrow> u64 \<Rightarrow> (u64 list \<times> u32 list) parser" where
  "read_gaps i 0 prev = preturn ([], [])"
| "read_gaps i (Suc n) prev =
     pbind read_varint_u64 (\<lambda>packed.
     let gap = drop_bit 1 packed; tf_flag = packed AND 1 in
     pbind (plift (ok_or (checked_add prev gap) (Format ''frame_id overflow''))) (\<lambda>frame_id.
     pbind (if tf_flag \<noteq> 0
            then plift (rbind (ok_or (u32_try_from i) (Format ''too many tf-exception rows''))
                   (\<lambda>row. Inr [row]))
            else preturn []) (\<lambda>row.
     pbind (read_gaps (Suc i) n frame_id) (\<lambda>(frame_ids, rows).
       preturn (frame_id # frame_ids, row @ rows)))))"

fun read_tf_exceptions :: "u32 list \<Rightarrow> u32 list \<Rightarrow> u32 list parser" where
  "read_tf_exceptions [] term_freqs = preturn term_freqs"
| "read_tf_exceptions (row # rows) term_freqs =
     pbind read_varint_u64 (\<lambda>v.
     pbind (plift (ok_or (u32_try_from (unat v)) (Format ''term_freq exception exceeds u32''))) (\<lambda>tf.
     if tf \<le> 1 then perr (Format ''tf-exception stream value must be >= 2'')
     else read_tf_exceptions rows (term_freqs[unat row := tf])))"

definition read_u32_varint :: "error \<Rightarrow> u32 parser" where
  "read_u32_varint e = pbind read_varint_u64 (\<lambda>v. plift (ok_or (u32_try_from (unat v)) e))"

text \<open>\<open>Vec::with_capacity(posting_count)\<close> for \<open>u64\<close> items panics when it exceeds \<open>isize::MAX\<close>
  bytes.\<close>
definition term_blob_parser :: "u32 \<Rightarrow> u32 \<Rightarrow> posting_list_decoded parser" where
  "term_blob_parser term_id df =
     pbind read_varint_u64 (\<lambda>posting_count.
     if 2 ^ 63 \<le> 8 * unat posting_count then perr (Panic ''capacity overflow'')
     else let n = unat posting_count in
     pbind (read_gaps 0 n 0) (\<lambda>(frame_ids, exception_rows).
     pbind (read_tf_exceptions exception_rows (replicate n 1)) (\<lambda>term_freqs.
     pbind (prepeat n (read_u32_varint (Format ''collection_id exceeds u32''))) (\<lambda>collection_ids.
     pbind (prepeat n (read_u32_varint (Format ''field_mask exceeds u32''))) (\<lambda>field_masks.
     pbind read_u8 (\<lambda>positions_present.
     if positions_present \<noteq> 0 then perr (Unsupported ''positions are reserved'')
     else pbind peof (\<lambda>_.
       preturn \<lparr>pd_term_id = term_id, pd_df = df, pd_frame_ids = frame_ids,
                pd_term_freqs = term_freqs, pd_collection_ids = collection_ids,
                pd_field_masks = field_masks\<rparr>)))))))"

definition decode_term_blob_into :: "u32 \<Rightarrow> u32 \<Rightarrow> bytes \<Rightarrow> posting_list_decoded result" where
  "decode_term_blob_into term_id df blob_slice = run_parser (term_blob_parser term_id df) blob_slice"

definition read_dir_entry :: "nat \<Rightarrow> postings_directory_entry parser" where
  "read_dir_entry blob_length =
     pbind read_u32 (\<lambda>term_id. pbind read_u32 (\<lambda>df. pbind read_u64 (\<lambda>cf.
     pbind read_u32 (\<lambda>blob_offset. pbind read_u32 (\<lambda>blob_len_with_flag.
     let is_dense = blob_len_with_flag AND DENSE_FLAG \<noteq> 0;
         blob_len_for_term = blob_len_with_flag AND NOT DENSE_FLAG
     in if blob_length < unat blob_offset + unat blob_len_for_term
        then perr (Format ''directory entry blob slice out of bounds'')
        else preturn \<lparr>pe_term_id = term_id, pe_df = df, pe_cf = cf, pe_blob_offset = blob_offset,
                      pe_blob_len = blob_len_for_term, pe_is_dense = is_dense\<rparr>)))))"

definition postings_directory_parser :: "postings_segment_directory parser" where
  "postings_directory_parser =
     pbind (read_array 4) (\<lambda>magic.
     if magic \<noteq> VLTP_MAGIC then perr (Format ''PostingsSegment magic mismatch'')
     else pbind read_u16 (\<lambda>version.
     if version \<noteq> VLTP_VERSION then perr (Format ''PostingsSegment version mismatch'')
     else pbind read_u32 (\<lambda>text_space_id.
     pbind read_optional_segment_ref (\<lambda>previous_root.
     pbind read_blob (\<lambda>blob.
     pbind read_u32 (\<lambda>dir_count.
     pbind (prepeat (unat dir_count) (read_dir_entry (length blob))) (\<lambda>entries.
     pbind peof (\<lambda>_.
       preturn \<lparr>pg_text_space_id = text_space_id, pg_previous_root = previous_root,
                pg_entries = entries, pg_blob = blob\<rparr>))))))))"

definition decode_postings_segment_directory :: "bytes \<Rightarrow> postings_segment_directory result" where
  "decode_postings_segment_directory bs = run_parser postings_directory_parser bs"

section \<open>A list decodes to itself\<close>

text \<open>The parallel arrays of a list.\<close>
definition soa_of :: "posting_list \<Rightarrow> posting_list_decoded" where
  "soa_of l = \<lparr>pd_term_id = pl_term_id l, pd_df = pl_df l,
     pd_frame_ids = map po_frame_id (pl_postings l), pd_term_freqs = map po_term_freq (pl_postings l),
     pd_collection_ids = map po_collection_id (pl_postings l),
     pd_field_masks = map po_field_mask (pl_postings l)\<rparr>"

text \<open>The rows from \<open>i\<close> on whose frequency is in the exception stream.\<close>
fun tf_rows :: "nat \<Rightarrow> posting list \<Rightarrow> u32 list" where
  "tf_rows i [] = []"
| "tf_rows i (p # ps) = (if 1 < po_term_freq p then [of_nat i] else []) @ tf_rows (Suc i) ps"

lemma packed_gap:
  assumes "drop_bit 63 (gap :: u64) = 0" and "f = 0 \<or> f = 1"
  shows "drop_bit 1 (push_bit 1 gap OR f) = gap" and "(push_bit 1 gap OR f) AND 1 = f"
proof -
  have "bit (drop_bit 63 gap) 0 = bit gap 63"
    by (simp only: bit_drop_bit_eq comp_apply add_0_right)
  then have top: "\<not> bit gap 63" unfolding assms(1) by simp
  have f: "bit f n \<longleftrightarrow> n = 0 \<and> f = 1" for n
    using assms(2) by (auto simp: bit_1_iff)
  have p: "bit (push_bit 1 gap) n \<longleftrightarrow> n < 64 \<and> 1 \<le> n \<and> bit gap (n - 1)" for n
    by (simp only: bit_push_bit_iff possible_bit_word) auto
  show "drop_bit 1 (push_bit 1 gap OR f) = gap"
  proof (rule bit_word_eqI)
    fix n assume "n < LENGTH(64)"
    then show "bit (drop_bit 1 (push_bit 1 gap OR f)) n \<longleftrightarrow> bit gap n"
      using top by (cases "n = 63") (simp_all only: bit_drop_bit_eq comp_apply bit_or_iff p f, auto)
  qed
  show "(push_bit 1 gap OR f) AND 1 = f"
    by (rule bit_word_eqI) (simp only: bit_and_iff bit_or_iff p bit_1_iff f, auto)
qed

lemma gap_sum: "first \<and> prev = 0 \<or> \<not> x \<le> prev \<Longrightarrow> checked_add prev (x - prev) = Some x" for x prev :: u64
  by (rule checked_add_diff) auto

lemma parses_gaps:
  "encode_gaps first prev ps = Inr bs \<Longrightarrow> (first \<longrightarrow> prev = 0) \<Longrightarrow> i + length ps \<le> 2 ^ 32 \<Longrightarrow>
   parses (read_gaps i (length ps) prev) bs (map po_frame_id ps, tf_rows i ps)"
proof (induction ps arbitrary: first prev bs i)
  case Nil
  then show ?case by (auto intro: parses_return)
next
  case (Cons p ps)
  let ?gap = "po_frame_id p - prev" and ?f = "if 1 < po_term_freq p then 1 else 0 :: u64"
  from Cons.prems(1) obtain rest where g: "drop_bit 63 ?gap = 0"
    and r: "encode_gaps False (po_frame_id p) ps = Inr rest"
    and bs: "bs = write_varint_u64 (push_bit 1 ?gap OR ?f) @ rest"
    and asc: "first \<or> \<not> po_frame_id p \<le> prev"
    by (simp only: encode_gaps.simps Let_def guard_Inr_iff rbind_Inr_iff sum.inject) blast
  have f: "?f = 0 \<or> ?f = 1" by simp
  have sum: "checked_add prev ?gap = Some (po_frame_id p)"
    using asc Cons.prems(2) by (intro gap_sum [of first]) auto
  have row: "parses (if ?f \<noteq> 0 then plift (rbind (ok_or (u32_try_from i) e) (\<lambda>row. Inr [row]))
      else preturn []) [] (if 1 < po_term_freq p then [of_nat i] else [])" for e
    using Cons.prems(3) by (auto intro!: parses_lift parses_return simp: u32_try_from_def)
  have ih: "parses (read_gaps (Suc i) (length ps) (po_frame_id p)) rest
      (map po_frame_id ps, tf_rows (Suc i) ps)"
    using Cons.prems(3) by (intro Cons.IH [OF r]) auto
  show ?case
    unfolding bs list.size add_0_right add_Suc_right read_gaps.simps
    apply (rule parses_bind [OF parses_varint])
    apply (simp only: packed_gap [OF g f] Let_def)
    apply (rule parses_bind_nil, rule parses_lift, simp only: sum ok_or_simps)
    apply (rule parses_bind_nil [OF row])
    apply (rule parses_bind_end [OF ih])
    apply (simp only: prod.case list.map tf_rows.simps)
    apply (rule parses_return)
    done
qed

lemma parses_tf_exceptions:
  "encode_tf_exceptions ps = Inr bs \<Longrightarrow> length pre + length ps \<le> 2 ^ 32 \<Longrightarrow>
   parses (read_tf_exceptions (tf_rows (length pre) ps) (pre @ replicate (length ps) 1)) bs
     (pre @ map po_term_freq ps)"
proof (induction ps arbitrary: pre bs)
  case Nil
  then show ?case by (auto intro: parses_return)
next
  case (Cons p ps)
  let ?tf = "po_term_freq p"
  have ih: "parses (read_tf_exceptions (tf_rows (Suc (length pre)) ps)
        ((pre @ [?tf]) @ replicate (length ps) 1)) rest (pre @ map po_term_freq (p # ps))"
    if "encode_tf_exceptions ps = Inr rest" for rest
    using Cons.IH [OF that, of "pre @ [?tf]"] Cons.prems(2) by simp
  show ?case
  proof (cases "1 < ?tf")
    case True
    with Cons.prems(1) obtain rest where r: "encode_tf_exceptions ps = Inr rest"
      and bs: "bs = write_varint_u64 (ucast ?tf) @ rest"
      by (auto simp: rbind_Inr_iff)
    have len: "unat (of_nat (length pre) :: u32) = length pre"
      using Cons.prems(2) by (intro unat_of_nat_eq) simp
    have upd: "(pre @ 1 # replicate (length ps) 1)[unat (of_nat (length pre) :: u32) := ?tf] =
        pre @ ?tf # replicate (length ps) 1"
      by (simp add: len list_update_append)
    show ?thesis
      unfolding bs
      by (simp add: True not_le)
        (rule parses_bind [OF parses_varint], rule parses_bind_nil, rule parses_lift,
          simp only: u32_try_from_ucast ok_or_simps, use True ih [OF r] in \<open>simp add: upd not_le [symmetric]\<close>)
  next
    case False
    with Cons.prems(1) have r: "encode_tf_exceptions ps = Inr bs" and "?tf \<noteq> 0"
      by (auto split: if_splits)
    with False have "?tf = 1"
      by (metis word_gt_0 word_le_less_eq not_less word_less_1)
    then show ?thesis using ih [OF r] by simp
  qed
qed

lemma parses_u32_varint: "parses (read_u32_varint e) (write_varint_u64 (ucast w)) w"
  unfolding read_u32_varint_def
  by (rule parses_bind_end [OF parses_varint]) (rule parses_lift, simp)

lemma parses_u32_varints:
  "parses (prepeat (length xs) (read_u32_varint e)) (concat (map (\<lambda>x. write_varint_u64 (ucast (f x))) xs))
     (map f xs)"
  using parses_prepeat [of "map f xs" "read_u32_varint e" "\<lambda>w. write_varint_u64 (ucast w)"]
  by (simp add: parses_u32_varint comp_def)

lemma posting_blob_roundtrip:
  assumes "encode_posting_blob l = Inr bs"
  shows "decode_term_blob_into (pl_term_id l) (pl_df l) bs = Inr (soa_of l)"
proof -
  let ?ps = "pl_postings l" and ?n = "of_nat (length (pl_postings l)) :: u32"
  from assms obtain gaps exs where len: "length ?ps < 2 ^ 32"
    and g: "encode_gaps True 0 ?ps = Inr gaps" and x: "encode_tf_exceptions ?ps = Inr exs"
    and bs: "bs = write_varint_u64 (ucast ?n) @ gaps @ exs
      @ concat (map (\<lambda>p. write_varint_u64 (ucast (po_collection_id p))) ?ps)
      @ concat (map (\<lambda>p. write_varint_u64 (ucast (po_field_mask p))) ?ps) @ [0]"
    by (auto simp: encode_posting_blob_def rbind_Inr_iff u32_try_from_Some_iff split: if_splits)
  have n: "unat (ucast ?n :: u64) = length ?ps"
    using len by (simp add: unat_ucast_up_simp unat_of_nat_eq)
  have "parses_all (term_blob_parser (pl_term_id l) (pl_df l)) bs (soa_of l)"
    unfolding bs term_blob_parser_def
  proof (rule parses_all_bind [OF parses_varint], simp only: n Let_def)
    have small: "\<not> 2 ^ 63 \<le> 8 * length ?ps" using len by simp
    have gaps: "parses (read_gaps 0 (length ?ps) 0) gaps (map po_frame_id ?ps, tf_rows 0 ?ps)"
      using len by (intro parses_gaps [OF g]) auto
    have exs: "parses (read_tf_exceptions (tf_rows 0 ?ps) (replicate (length ?ps) 1)) exs (map po_term_freq ?ps)"
      using parses_tf_exceptions [OF x, of "[]"] len by simp
    show "parses_all (if 2 ^ 63 \<le> 8 * length ?ps then perr (Panic ''capacity overflow'')
       else pbind (read_gaps 0 (length ?ps) 0) (\<lambda>(frame_ids, exception_rows).
         pbind (read_tf_exceptions exception_rows (replicate (length ?ps) 1)) (\<lambda>term_freqs.
         pbind (prepeat (length ?ps) (read_u32_varint (Format ''collection_id exceeds u32''))) (\<lambda>collection_ids.
         pbind (prepeat (length ?ps) (read_u32_varint (Format ''field_mask exceeds u32''))) (\<lambda>field_masks.
         pbind read_u8 (\<lambda>positions_present.
           if positions_present \<noteq> 0 then perr (Unsupported ''positions are reserved'')
           else pbind peof (\<lambda>_.
             preturn \<lparr>pd_term_id = pl_term_id l, pd_df = pl_df l, pd_frame_ids = frame_ids,
                pd_term_freqs = term_freqs, pd_collection_ids = collection_ids,
                pd_field_masks = field_masks\<rparr>)))))))
      (gaps @ exs @ concat (map (\<lambda>p. write_varint_u64 (ucast (po_collection_id p))) ?ps)
        @ concat (map (\<lambda>p. write_varint_u64 (ucast (po_field_mask p))) ?ps) @ [0]) (soa_of l)"
      unfolding if_not_P [OF small]
      by (rule parses_all_bind [OF gaps], unfold prod.case, rule parses_all_bind [OF exs],
          rule parses_all_bind [OF parses_u32_varints], rule parses_all_bind [OF parses_u32_varints],
          rule parses_all_bind [where ys = "[]", OF parses_u8, simplified], simp,
          rule parses_all_eof)
        (simp add: soa_of_def parses_all_return)
  qed
  then show ?thesis unfolding decode_term_blob_into_def by (rule run_parser_all)
qed

section \<open>A segment decodes to its directory\<close>

text \<open>What an entry of the directory must say of a list.\<close>
definition entry_for :: "bytes \<Rightarrow> posting_list \<Rightarrow> postings_directory_entry \<Rightarrow> bool" where
  "entry_for blob l e \<longleftrightarrow>
     pe_term_id e = pl_term_id l \<and> pe_df e = pl_df l \<and>
     pe_cf e = collection_freq (pl_postings l) \<and> \<not> pe_is_dense e \<and>
     unat (pe_blob_offset e) + unat (pe_blob_len e) \<le> length blob \<and>
     pe_blob_len e AND DENSE_FLAG = 0 \<and>
     decode_term_blob_into (pl_term_id l) (pl_df l)
       (slice (unat (pe_blob_offset e)) (unat (pe_blob_len e)) blob) = Inr (soa_of l)"

definition entry_bytes :: "postings_directory_entry \<Rightarrow> bytes" where
  "entry_bytes e = write_dir_entry (pe_term_id e) (pe_df e) (pe_cf e) (pe_blob_offset e) (pe_blob_len e)"

lemma not_dense [simp]: "\<not> DENSE_THRESHOLD < df"
  by (simp add: DENSE_THRESHOLD_def not_less)

lemma and_not_flag:
  fixes x f :: "'a::len word"
  assumes "x AND f = 0" shows "x AND NOT f = x"
proof (rule bit_word_eqI)
  fix n assume "n < LENGTH('a)"
  moreover have "bit (x AND f) n \<longleftrightarrow> False" using assms by simp
  ultimately show "bit (x AND NOT f) n \<longleftrightarrow> bit x n" by (auto simp: bit_and_iff bit_not_iff)
qed

lemma slice_middle: "slice (length xs) (length ys) (xs @ ys @ zs) = ys"
  by (simp add: slice_def)

lemma encode_posting_lists_entries:
  "encode_posting_lists ls blob = Inr (blob', dir) \<Longrightarrow>
   \<exists>more es. blob' = blob @ more \<and> dir = concat (map entry_bytes es) \<and> list_all2 (entry_for blob') ls es"
proof (induction ls arbitrary: blob blob' dir)
  case Nil
  then show ?case by auto
next
  case (Cons l ls)
  from Cons.prems obtain off tb len dir' where off: "u32_try_from (length blob) = Some off"
    and tb: "encode_posting_blob l = Inr tb" and len: "u32_try_from (length tb) = Some len"
    and flag: "len AND DENSE_FLAG = 0"
    and rest: "encode_posting_lists ls (blob @ tb) = Inr (blob', dir')"
    and dir: "dir = write_dir_entry (pl_term_id l) (pl_df l) (collection_freq (pl_postings l)) off len @ dir'"
    by (auto simp: Let_def rbind_Inr_iff split: if_splits prod.splits)
  from Cons.IH [OF rest] obtain more es where m: "blob' = (blob @ tb) @ more"
    and es: "dir' = concat (map entry_bytes es)" "list_all2 (entry_for blob') ls es" by blast
  note nat = u32_try_from_unat [OF off] u32_try_from_unat [OF len]
  define e where "e = \<lparr>pe_term_id = pl_term_id l, pe_df = pl_df l,
      pe_cf = collection_freq (pl_postings l), pe_blob_offset = off, pe_blob_len = len, pe_is_dense = False\<rparr>"
  have "entry_for blob' l e"
    using posting_blob_roundtrip [OF tb] flag
    by (simp add: entry_for_def e_def nat m slice_middle)
  moreover have "dir = entry_bytes e @ dir'" by (simp add: dir entry_bytes_def e_def)
  ultimately show ?case
    using m es by (intro exI [of _ "tb @ more"] exI [of _ "e # es"]) simp
qed

lemma parses_dir_entry:
  assumes "entry_for blob l e"
  shows "parses (read_dir_entry (length blob)) (entry_bytes e) e"
proof -
  have f: "pe_blob_len e AND NOT DENSE_FLAG = pe_blob_len e"
    using assms by (intro and_not_flag) (simp add: entry_for_def)
  show ?thesis
    unfolding read_dir_entry_def entry_bytes_def write_dir_entry_def
    by (rule parses_bind [OF parses_u32], rule parses_bind [OF parses_u32],
        rule parses_bind [OF parses_u64], rule parses_bind [OF parses_u32],
        rule parses_bind_end [OF parses_u32])
      (use assms f in \<open>cases e, simp add: Let_def entry_for_def not_less parses_return\<close>)
qed

lemma parses_dir_entries:
  "list_all2 (entry_for blob) ls es \<Longrightarrow>
   parses (prepeat (length ls) (read_dir_entry (length blob))) (concat (map entry_bytes es)) es"
  using parses_prepeat [of es "read_dir_entry (length blob)" entry_bytes]
  by (metis in_set_conv_nth list_all2_conv_all_nth parses_dir_entry)

lemma decode_encoded_postings:
  assumes "encode_postings_segment seg = Inr bs" and "ref_wf (ps_previous_root seg)"
  shows "\<exists>dir. decode_postings_segment_directory bs = Inr dir \<and>
    pg_text_space_id dir = ps_text_space_id seg \<and> pg_previous_root dir = ps_previous_root seg \<and>
    list_all2 (entry_for (pg_blob dir)) (ps_posting_lists seg) (pg_entries dir)"
proof -
  let ?ls = "ps_posting_lists seg" and ?ref = "write_optional_segment_ref (ps_previous_root seg)"
  from assms(1) obtain blob d n k where enc: "encode_posting_lists ?ls [] = Inr (blob, d)"
    and n: "u32_try_from (length blob) = Some n" and k: "u32_try_from (length ?ls) = Some k"
    and bs: "bs = VLTP_MAGIC @ u16_le VLTP_VERSION @ u32_le (ps_text_space_id seg) @ ?ref
        @ (u32_le n @ blob) @ u32_le k @ d"
    by (auto simp: encode_postings_segment_def rbind_Inr_iff)
  from encode_posting_lists_entries [OF enc] obtain es where d: "d = concat (map entry_bytes es)"
    and es: "list_all2 (entry_for blob) ?ls es" by auto
  have blob: "write_blob blob = Inr (u32_le n @ blob)"
    using n by (simp add: write_blob_def)
  have k': "unat k = length ?ls" by (rule u32_try_from_unat [OF k])
  let ?dir = "\<lparr>pg_text_space_id = ps_text_space_id seg, pg_previous_root = ps_previous_root seg,
      pg_entries = es, pg_blob = blob\<rparr>"
  have "parses_all postings_directory_parser bs ?dir"
    unfolding bs postings_directory_parser_def
    apply (rule parses_all_bind [OF parses_read_array])
     apply (simp add: VLTP_MAGIC_def)
    apply simp
    apply (rule parses_all_bind [OF parses_u16])
    apply simp
    apply (rule parses_all_bind [OF parses_u32])
    apply (rule parses_all_bind [OF parses_optional_segment_ref [OF assms(2)]])
    apply (rule parses_all_bind [OF parses_blob [OF blob], simplified])
    apply (rule parses_all_bind [OF parses_u32])
    apply (simp only: k' d)
    apply (rule parses_all_bind [where ys = "[]", OF parses_dir_entries [OF es], simplified])
    apply (rule parses_all_eof)
    apply (rule parses_all_return)
    done
  then have "decode_postings_segment_directory bs = Inr ?dir"
    unfolding decode_postings_segment_directory_def by (rule run_parser_all)
  then show ?thesis using es by (intro exI [of _ ?dir]) simp
qed

text \<open>C28: A postings segment reads back: for every segment the encoder accepts, the open-time
  decoder yields its text space, its previous root and one directory entry per posting list,
  in order, with the term, the document and the collection frequency of the list, and the
  slice of the blob the entry points at decodes to the frame ids, term frequencies,
  collections and field masks of exactly that list.\<close>
theorem postings_segment_roundtrip:
  assumes "encode_postings_segment seg = Inr bs" and "ref_wf (ps_previous_root seg)"
  shows "\<exists>dir. decode_postings_segment_directory bs = Inr dir \<and>
    pg_text_space_id dir = ps_text_space_id seg \<and> pg_previous_root dir = ps_previous_root seg \<and>
    list_all2 (\<lambda>l e. pe_term_id e = pl_term_id l \<and> pe_df e = pl_df l \<and>
        pe_cf e = collection_freq (pl_postings l) \<and>
        decode_term_blob_into (pe_term_id e) (pe_df e)
          (slice (unat (pe_blob_offset e)) (unat (pe_blob_len e)) (pg_blob dir)) = Inr (soa_of l))
      (ps_posting_lists seg) (pg_entries dir)"
  using decode_encoded_postings [OF assms] by (fastforce simp: entry_for_def elim: list_all2_mono)

lemma postings_segment_roundtrip_witness:
  "\<exists>bs dir. encode_postings_segment \<lparr>ps_text_space_id = 1, ps_previous_root = None, ps_posting_lists =
      [\<lparr>pl_term_id = 4, pl_df = 2, pl_postings =
         [\<lparr>po_frame_id = 7, po_collection_id = 1, po_field_mask = 1, po_term_freq = 1, po_positions_ref = None\<rparr>,
          \<lparr>po_frame_id = 9, po_collection_id = 2, po_field_mask = 1, po_term_freq = 5, po_positions_ref = None\<rparr>]\<rparr>]\<rparr>
      = Inr bs \<and> decode_postings_segment_directory bs = Inr dir \<and> length (pg_entries dir) = 1"
proof -
  let ?seg = "\<lparr>ps_text_space_id = 1, ps_previous_root = None, ps_posting_lists =
      [\<lparr>pl_term_id = 4, pl_df = 2, pl_postings =
         [\<lparr>po_frame_id = 7, po_collection_id = 1, po_field_mask = 1, po_term_freq = 1, po_positions_ref = None\<rparr>,
          \<lparr>po_frame_id = 9, po_collection_id = 2, po_field_mask = 1, po_term_freq = 5, po_positions_ref = None\<rparr>]\<rparr>]\<rparr>
    :: postings_segment"
  obtain bs where bs: "encode_postings_segment ?seg = Inr bs"
    by (simp add: encode_postings_segment_def encode_posting_blob_def u32_try_from_def DENSE_FLAG_def
        rbind_Inr_iff varint_small drop_bit_eq_div)
  from postings_segment_roundtrip [OF bs] show ?thesis
    using bs by (auto simp: ref_wf_def dest: list_all2_lengthD)
qed

text \<open>
  A list whose leading count is huge makes the decoder panic before it reads anything else:
  the allocation of the frame ids exceeds what a vector can hold.
\<close>
lemma huge_posting_count_panics:
  assumes "2 ^ 60 \<le> n"
  shows "decode_term_blob_into term_id df (write_varint_u64 n @ rest) = Inl (Panic ''capacity overflow'')"
proof -
  have "2 ^ 63 \<le> 8 * unat n" using assms by (simp add: word_le_nat_alt)
  moreover have "read_varint_u64 (cursor_new (write_varint_u64 n @ rest)) =
      Inr (n, \<lparr>cbytes = write_varint_u64 n @ rest, cpos = length (write_varint_u64 n)\<rparr>)"
    using parses_varint [of n, unfolded parses_def, rule_format, of "[]" rest] by (simp add: cursor_new_def)
  ultimately show ?thesis
    by (simp add: decode_term_blob_into_def run_parser_def term_blob_parser_def pbind_def perr_def)
qed

end
