(* ===== verification/DocStats.thy ===== *)
theory DocStats imports Columns begin

text \<open>
  \<open>format/doc_stats.rs\<close>: the payload of a document statistics segment (magic \<open>VLTS\<close>,
  version 2), one column per field: frame ids as differences, collections run-length encoded,
  field lengths packed at the smallest of three widths, term counts as varints. The decoder is
  proved to undo the encoder. The decoder's allocations are unbounded here.
\<close>

section \<open>Data\<close>

definition VLTS_MAGIC :: bytes where "VLTS_MAGIC = [0x56, 0x4C, 0x54, 0x53]"
definition VLTS_VERSION :: u16 where "VLTS_VERSION = 2"

record doc_stats_entry =
  ds_frame_id :: u64
  ds_collection_id :: u32
  ds_text_space_id :: u32
  ds_field_lengths :: "u32 list"
  ds_total_terms :: u32
  ds_unique_terms :: u32

record doc_stats_segment =
  dg_text_space_id :: u32
  dg_previous_root :: "segment_ref option"
  dg_records :: "doc_stats_entry list"

section \<open>Field lengths\<close>

text \<open>The width tag of a column: bytes per value.\<close>
definition field_width :: "u32 list \<Rightarrow> u8" where
  "field_width vs =
     (let mx = foldr max vs 0 in if mx \<le> 0xFF then 1 else if mx \<le> 0xFFFF then 2 else 4)"

definition write_field :: "u8 \<Rightarrow> u32 \<Rightarrow> bytes" where
  "write_field width v =
     (if width = 1 then [ucast v] else if width = 2 then u16_le (ucast v) else u32_le v)"

definition write_field_column :: "u32 list \<Rightarrow> bytes" where
  "write_field_column vs = field_width vs # concat (map (write_field (field_width vs)) vs)"

definition read_field :: "u8 \<Rightarrow> u32 parser" where
  "read_field width =
     (if width = 1 then pbind read_u8 (\<lambda>b. preturn (ucast b))
      else if width = 2 then pbind read_u16 (\<lambda>w. preturn (ucast w))
      else if width = 4 then read_u32
      else perr (Format ''DocStatsSegment field width must be 1, 2, or 4''))"

text \<open>The columns are read one after the other into the rows.\<close>
fun read_field_columns :: "nat \<Rightarrow> nat \<Rightarrow> u32 list list \<Rightarrow> u32 list list parser" where
  "read_field_columns 0 record_count row_vecs = preturn row_vecs"
| "read_field_columns (Suc n) record_count row_vecs =
     pbind read_u8 (\<lambda>width.
     pbind (prepeat record_count (read_field width)) (\<lambda>vs.
       read_field_columns n record_count (map2 (\<lambda>row v. row @ [v]) row_vecs vs)))"

definition nth_fields :: "doc_stats_entry list \<Rightarrow> nat \<Rightarrow> u32 list" where
  "nth_fields records f = map (\<lambda>r. ds_field_lengths r ! f) records"

section \<open>The segment\<close>

definition field_count_of :: "doc_stats_entry list \<Rightarrow> nat result" where
  "field_count_of records =
     (case records of
        [] \<Rightarrow> Inr 0
      | r # rs \<Rightarrow>
          if list_ex (\<lambda>e. length (ds_field_lengths e) \<noteq> length (ds_field_lengths r)) records
          then Inl (Format ''DocStatsSegment field_lengths width drift'')
          else Inr (length (ds_field_lengths r)))"

definition encode_doc_stats_segment :: "doc_stats_segment \<Rightarrow> bytes result" where
  "encode_doc_stats_segment seg =
     (let records = dg_records seg in
      if list_ex (\<lambda>e. ds_text_space_id e \<noteq> dg_text_space_id seg) records
      then Inl (Format ''DocStatsSegment entry text_space_id does not match header'')
      else
        rbind (field_count_of records) (\<lambda>field_count.
        rbind (ok_or (u32_try_from (length records)) (Format ''DocStatsSegment record count overflow''))
          (\<lambda>record_count.
        rbind (ok_or (u32_try_from field_count) (Format ''DocStatsSegment field_count overflow''))
          (\<lambda>field_count_u32.
        let buf = VLTS_MAGIC @ u16_le VLTS_VERSION @ u32_le (dg_text_space_id seg)
                  @ u32_le record_count @ u32_le field_count_u32
                  @ write_optional_segment_ref (dg_previous_root seg) in
        case records of
          [] \<Rightarrow> Inr buf
        | r # rs \<Rightarrow>
            rbind (write_id_deltas (Format ''DocStatsSegment frame_ids must be monotone ascending'')
                     (ds_frame_id r) (map ds_frame_id rs)) (\<lambda>deltas.
            rbind (write_blob (u64_le (ds_frame_id r) @ deltas)) (\<lambda>frame_blob.
            rbind (write_run_column (Format ''DocStatsSegment collection RLE run overflow'')
                     (Format ''DocStatsSegment collection run count overflow'')
                     (map ds_collection_id records)) (\<lambda>coll.
            rbind (write_blob coll) (\<lambda>coll_blob.
            rbind (write_blob (concat (map (\<lambda>f. write_field_column (nth_fields records f))
                     [0..<field_count]))) (\<lambda>field_blob.
            rbind (write_blob (concat (map (\<lambda>e. write_uvarint (ucast (ds_total_terms e))) records)))
              (\<lambda>total_blob.
            rbind (write_blob (concat (map (\<lambda>e. write_uvarint (ucast (ds_unique_terms e))) records)))
              (\<lambda>unique_blob.
              Inr (buf @ frame_blob @ coll_blob @ field_blob @ total_blob @ unique_blob))))))))))))"

definition read_term_counts :: "error \<Rightarrow> nat \<Rightarrow> u32 list parser" where
  "read_term_counts e n =
     pbind (prepeat n (pbind read_uvarint (\<lambda>v. plift (ok_or (u32_try_from (unat v)) e)))) (\<lambda>vs.
     pbind peof (\<lambda>_. preturn vs))"

definition read_field_blob :: "nat \<Rightarrow> nat \<Rightarrow> u32 list list parser" where
  "read_field_blob field_count record_count =
     pbind (read_field_columns field_count record_count (replicate record_count [])) (\<lambda>rows.
     pbind peof (\<lambda>_. preturn rows))"

fun doc_stats_rows ::
  "u32 \<Rightarrow> u64 list \<Rightarrow> u32 list \<Rightarrow> u32 list list \<Rightarrow> u32 list \<Rightarrow> u32 list \<Rightarrow> doc_stats_entry list" where
  "doc_stats_rows ts (f # fs) (c # cs) (l # ls) (t # tots) (u # us) =
     \<lparr>ds_frame_id = f, ds_collection_id = c, ds_text_space_id = ts, ds_field_lengths = l,
      ds_total_terms = t, ds_unique_terms = u\<rparr> # doc_stats_rows ts fs cs ls tots us"
| "doc_stats_rows ts _ _ _ _ _ = []"

definition doc_stats_parser :: "doc_stats_segment parser" where
  "doc_stats_parser =
     pbind (read_array 4) (\<lambda>magic.
     if magic \<noteq> VLTS_MAGIC then perr (Format ''DocStatsSegment magic mismatch'')
     else pbind read_u16 (\<lambda>version.
     if version \<noteq> VLTS_VERSION then perr (Format ''DocStatsSegment version mismatch'')
     else pbind read_u32 (\<lambda>text_space_id.
     pbind read_u32 (\<lambda>record_count_u32.
     pbind read_u32 (\<lambda>field_count.
     pbind read_optional_segment_ref (\<lambda>previous_root.
     let record_count = unat record_count_u32 in
     if record_count = 0
     then pbind peof (\<lambda>_. preturn \<lparr>dg_text_space_id = text_space_id,
            dg_previous_root = previous_root, dg_records = []\<rparr>)
     else
       pbind read_blob (\<lambda>frame_blob.
       pbind (plift (run_parser (read_id_column (Format ''DocStatsSegment frame_id delta overflow'')
                record_count) frame_blob)) (\<lambda>frame_ids.
       pbind read_blob (\<lambda>coll_blob.
       pbind (plift (run_parser (read_run_column
                (Format ''DocStatsSegment collection RLE total overflow'')
                (Format ''DocStatsSegment collection RLE does not cover count'')
                record_count) coll_blob)) (\<lambda>collections.
       pbind read_blob (\<lambda>field_blob.
       pbind (plift (run_parser (read_field_blob (unat field_count) record_count) field_blob)) (\<lambda>rows.
       pbind read_blob (\<lambda>total_blob.
       pbind (plift (run_parser (read_term_counts (Format ''DocStatsSegment total_terms exceeds u32'')
                record_count) total_blob)) (\<lambda>totals.
       pbind read_blob (\<lambda>unique_blob.
       pbind (plift (run_parser (read_term_counts (Format ''DocStatsSegment unique_terms exceeds u32'')
                record_count) unique_blob)) (\<lambda>uniques.
       pbind peof (\<lambda>_.
         preturn \<lparr>dg_text_space_id = text_space_id, dg_previous_root = previous_root,
            dg_records = doc_stats_rows text_space_id frame_ids collections rows totals uniques\<rparr>)))))))))))))))))"

definition decode_doc_stats_segment :: "bytes \<Rightarrow> doc_stats_segment result" where
  "decode_doc_stats_segment bs = run_parser doc_stats_parser bs"

section \<open>The columns decode\<close>

lemma foldr_max_bounds: "v \<in> set vs \<Longrightarrow> v \<le> foldr max vs m" for v m :: "'a::linorder"
  by (induction vs) (auto simp: le_max_iff_disj)

lemma narrow_u8: "unat (v :: u32) < 2 ^ 8 \<Longrightarrow> ucast (ucast v :: u8) = v"
  by (rule word_unat_eq_iff [THEN iffD2])
    (simp add: unsigned_ucast_eq unsigned_take_bit_eq take_bit_nat_eq_self)

lemma narrow_u16: "unat (v :: u32) < 2 ^ 16 \<Longrightarrow> ucast (ucast v :: u16) = v"
  by (rule word_unat_eq_iff [THEN iffD2])
    (simp add: unsigned_ucast_eq unsigned_take_bit_eq take_bit_nat_eq_self)

lemma parses_field:
  assumes "v \<in> set vs"
  shows "parses (read_field (field_width vs)) (write_field (field_width vs) v) v"
proof -
  have "v \<le> foldr max vs 0" using assms by (rule foldr_max_bounds)
  then have le: "unat v \<le> unat (foldr max vs 0)" by (simp add: word_le_nat_alt)
  consider "field_width vs = 1" "unat v < 2 ^ 8" | "field_width vs = 2" "unat v < 2 ^ 16"
    | "field_width vs = 4"
  proof -
    assume h: "field_width vs = 1 \<Longrightarrow> unat v < 2 ^ 8 \<Longrightarrow> thesis"
      "field_width vs = 2 \<Longrightarrow> unat v < 2 ^ 16 \<Longrightarrow> thesis" "field_width vs = 4 \<Longrightarrow> thesis"
    show thesis
    proof (cases "foldr max vs 0 \<le> 0xFF")
      case True
      then show ?thesis using le by (intro h(1)) (simp_all add: field_width_def word_le_nat_alt)
    next
      case False
      then show ?thesis
      proof (cases "foldr max vs 0 \<le> 0xFFFF")
        case True
        have "unat v < 2 ^ 16" using True le by (simp add: word_le_nat_alt)
        then show ?thesis using False True by (intro h(2)) (simp_all add: field_width_def)
      next
        case gt: False
        then show ?thesis using False by (intro h(3)) (simp add: field_width_def)
      qed
    qed
  qed
  then show ?thesis
  proof cases
    case 1
    then show ?thesis
      by (simp add: read_field_def write_field_def)
        (rule parses_bind_return [OF parses_u8], simp add: narrow_u8)
  next
    case 2
    then show ?thesis
      by (simp add: read_field_def write_field_def)
        (rule parses_bind_return [OF parses_u16], simp add: narrow_u16)
  next
    case 3
    then show ?thesis by (simp add: read_field_def write_field_def parses_u32)
  qed
qed

lemma parses_field_column:
  assumes "parses (k vs) rest w" and "n = length vs"
  shows "parses (pbind read_u8 (\<lambda>width. pbind (prepeat n (read_field width)) k))
    (write_field_column vs @ rest) w"
proof -
  have "parses (prepeat (length vs) (read_field (field_width vs)))
      (concat (map (write_field (field_width vs)) vs)) vs"
    by (rule parses_prepeat) (rule parses_field)
  then have "parses (pbind (prepeat n (read_field (field_width vs))) k)
      (concat (map (write_field (field_width vs)) vs) @ rest) w"
    unfolding assms(2) by (rule parses_bind) (rule assms(1))
  then show ?thesis
    using parses_bind [where f = "\<lambda>width. pbind (prepeat n (read_field width)) k", OF parses_u8]
    by (fastforce simp: write_field_column_def)
qed

lemma parses_field_columns:
  assumes "\<forall>r\<in>set records. k + n \<le> length (ds_field_lengths r)"
  shows "parses (read_field_columns n (length records) (map (\<lambda>r. take k (ds_field_lengths r)) records))
    (concat (map (\<lambda>f. write_field_column (nth_fields records f)) [k..<k + n]))
    (map (\<lambda>r. take (k + n) (ds_field_lengths r)) records)"
  using assms
proof (induction n arbitrary: k)
  case 0
  then show ?case by (simp add: parses_return)
next
  case (Suc n)
  have rows: "map2 (\<lambda>row v. row @ [v]) (map (\<lambda>r. take k (ds_field_lengths r)) records) (nth_fields records k)
      = map (\<lambda>r. take (Suc k) (ds_field_lengths r)) records"
    using Suc.prems
    by (auto simp: nth_fields_def map2_map_map take_Suc_conv_app_nth)
  have ih: "parses (read_field_columns n (length records) (map (\<lambda>r. take (Suc k) (ds_field_lengths r)) records))
      (concat (map (\<lambda>f. write_field_column (nth_fields records f)) [Suc k..<k + Suc n]))
      (map (\<lambda>r. take (k + Suc n) (ds_field_lengths r)) records)"
    using Suc.IH [of "Suc k"] Suc.prems by simp
  have split: "[k..<k + Suc n] = k # [Suc k..<k + Suc n]" by (simp add: upt_conv_Cons)
  show ?case
    unfolding split list.map concat.simps read_field_columns.simps
    by (rule parses_field_column [where vs = "nth_fields records k"])
      (unfold rows, rule ih, simp add: nth_fields_def)
qed

lemma field_blob:
  assumes "\<forall>r\<in>set records. length (ds_field_lengths r) = n"
  shows "run_parser (read_field_blob n (length records))
    (concat (map (\<lambda>f. write_field_column (nth_fields records f)) [0..<n])) =
    Inr (map ds_field_lengths records)"
proof -
  have "parses (read_field_columns n (length records) (replicate (length records) []))
      (concat (map (\<lambda>f. write_field_column (nth_fields records f)) [0..<n])) (map ds_field_lengths records)"
    using parses_field_columns [of records 0 n] assms
    by (simp add: map_replicate_const cong: map_cong)
  then show ?thesis
    unfolding read_field_blob_def by (intro run_parser_all parses_all_end)
qed

lemma term_counts:
  "run_parser (read_term_counts e (length records))
     (concat (map (\<lambda>r. write_uvarint (ucast (f r))) records)) = Inr (map f records)"
proof -
  have "parses (pbind read_uvarint (\<lambda>v. plift (ok_or (u32_try_from (unat v)) e))) (write_uvarint (ucast w)) w"
    for w by (rule parses_bind_end [OF parses_uvarint]) (rule parses_lift, simp)
  then have "parses (prepeat (length records) (pbind read_uvarint (\<lambda>v. plift (ok_or (u32_try_from (unat v)) e))))
      (concat (map (\<lambda>r. write_uvarint (ucast (f r))) records)) (map f records)"
    using parses_prepeat [of "map f records" _ "\<lambda>w. write_uvarint (ucast w)"] by (simp add: comp_def)
  then show ?thesis
    unfolding read_term_counts_def by (intro run_parser_all parses_all_end)
qed

lemma doc_stats_rows_map:
  "\<forall>r\<in>set records. ds_text_space_id r = ts \<Longrightarrow>
   doc_stats_rows ts (map ds_frame_id records) (map ds_collection_id records)
     (map ds_field_lengths records) (map ds_total_terms records) (map ds_unique_terms records) = records"
  by (induction records) auto

section \<open>Round trip\<close>

lemma field_count_uniform:
  "field_count_of records = Inr n \<Longrightarrow> \<forall>r\<in>set records. length (ds_field_lengths r) = n"
  by (auto simp: field_count_of_def list_ex_iff split: list.splits if_splits)

lemma decode_empty_stats:
  assumes "ref_wf r"
  shows "decode_doc_stats_segment (VLTS_MAGIC @ u16_le VLTS_VERSION @ u32_le ts @ u32_le 0 @ u32_le 0
    @ write_optional_segment_ref r) = Inr \<lparr>dg_text_space_id = ts, dg_previous_root = r, dg_records = []\<rparr>"
  unfolding decode_doc_stats_segment_def doc_stats_parser_def
  apply (rule run_parser_all)
  apply (rule parses_all_bind [OF parses_read_array])
   apply (simp add: VLTS_MAGIC_def)
  apply simp
  apply (rule parses_all_bind [OF parses_u16])
  apply simp
  apply (rule parses_all_bind [OF parses_u32])
  apply (rule parses_all_bind [OF parses_u32])
  apply (rule parses_all_bind [OF parses_u32])
  apply (rule parses_all_bind [where ys = "[]", OF parses_optional_segment_ref [OF assms], simplified])
  apply (simp add: parses_all_eof parses_all_return)
  done

lemma case_at: "xs = y # ys \<Longrightarrow> (case xs of [] \<Rightarrow> a | z # zs \<Rightarrow> f z zs) = f y ys"
  by simp

lemma doc_stats_roundtrip_here:
  assumes "encode_doc_stats_segment seg = Inr bs" and "ref_wf (dg_previous_root seg)"
  shows "decode_doc_stats_segment bs = Inr seg"
proof (cases "dg_records seg")
  case Nil
  then have "bs = VLTS_MAGIC @ u16_le VLTS_VERSION @ u32_le (dg_text_space_id seg) @ u32_le 0 @ u32_le 0
      @ write_optional_segment_ref (dg_previous_root seg)"
    using assms(1) by (simp add: encode_doc_stats_segment_def field_count_of_def u32_try_from_def)
  then show ?thesis using decode_empty_stats [OF assms(2)] Nil by simp
next
  case (Cons r rs)
  let ?rs = "dg_records seg" and ?ref = "write_optional_segment_ref (dg_previous_root seg)"
  from assms(1) have ts: "\<forall>e\<in>set ?rs. ds_text_space_id e = dg_text_space_id seg"
    by (auto simp: encode_doc_stats_segment_def Let_def list_ex_iff split: if_splits)
  then have nts: "\<not> list_ex (\<lambda>e. ds_text_space_id e \<noteq> dg_text_space_id seg) ?rs"
    by (auto simp: list_ex_iff)
  from assms(1) obtain n k w d b1 c b2 b3 b4 b5 where fc: "field_count_of ?rs = Inr n"
    and k: "u32_try_from (length ?rs) = Some k" and w: "u32_try_from n = Some w"
    and d: "write_id_deltas (Format ''DocStatsSegment frame_ids must be monotone ascending'')
       (ds_frame_id r) (map ds_frame_id rs) = Inr d"
    and b1: "write_blob (u64_le (ds_frame_id r) @ d) = Inr b1"
    and c: "write_run_column (Format ''DocStatsSegment collection RLE run overflow'')
       (Format ''DocStatsSegment collection run count overflow'') (map ds_collection_id ?rs) = Inr c"
    and b2: "write_blob c = Inr b2"
    and b3: "write_blob (concat (map (\<lambda>f. write_field_column (nth_fields ?rs f)) [0..<n])) = Inr b3"
    and b4: "write_blob (concat (map (\<lambda>e. write_uvarint (ucast (ds_total_terms e))) ?rs)) = Inr b4"
    and b5: "write_blob (concat (map (\<lambda>e. write_uvarint (ucast (ds_unique_terms e))) ?rs)) = Inr b5"
    and bs: "bs = VLTS_MAGIC @ u16_le VLTS_VERSION @ u32_le (dg_text_space_id seg)
                  @ u32_le k @ u32_le w @ ?ref @ b1 @ b2 @ b3 @ b4 @ b5"
    unfolding encode_doc_stats_segment_def Let_def if_not_P [OF nts]
    by (simp only: case_at [OF Cons] rbind_Inr_iff ok_or_Inr_iff sum.inject append_assoc)
      (elim exE conjE, rule that, assumption+, rule sym, assumption)
  have kn: "unat k = length ?rs" "unat w = n" and small: "length ?rs < 2 ^ 32"
    using k w u32_try_from_unat by (auto simp: u32_try_from_Some_iff)
  have ne: "length ?rs \<noteq> 0" using Cons by simp
  have "run_parser (read_id_column e (Suc (length (map ds_frame_id rs)))) (u64_le (ds_frame_id r) @ d)
      = Inr (ds_frame_id r # map ds_frame_id rs)" for e by (rule id_column [OF d])
  then have p1: "run_parser (read_id_column e (length ?rs)) (u64_le (ds_frame_id r) @ d)
      = Inr (map ds_frame_id ?rs)" for e using Cons by simp
  have p2: "run_parser (read_run_column e e' (length ?rs)) c = Inr (map ds_collection_id ?rs)" for e e'
    using parses_run_column [OF c] ne small by simp
  have p3: "run_parser (read_field_blob n (length ?rs))
      (concat (map (\<lambda>f. write_field_column (nth_fields ?rs f)) [0..<n])) = Inr (map ds_field_lengths ?rs)"
    by (rule field_blob [OF field_count_uniform [OF fc]])
  have seg: "\<lparr>dg_text_space_id = dg_text_space_id seg, dg_previous_root = dg_previous_root seg,
      dg_records = doc_stats_rows (dg_text_space_id seg) (map ds_frame_id ?rs) (map ds_collection_id ?rs)
        (map ds_field_lengths ?rs) (map ds_total_terms ?rs) (map ds_unique_terms ?rs)\<rparr> = seg"
    by (simp add: doc_stats_rows_map [OF ts])
  show ?thesis
    unfolding decode_doc_stats_segment_def doc_stats_parser_def bs
    apply (rule run_parser_all)
    apply (rule parses_all_bind [OF parses_read_array])
     apply (simp add: VLTS_MAGIC_def)
    apply (simp only: simp_thms if_False)
    apply (rule parses_all_bind [OF parses_u16])
    apply (simp only: simp_thms if_False)
    apply (rule parses_all_bind [OF parses_u32])
    apply (rule parses_all_bind [OF parses_u32])
    apply (rule parses_all_bind [OF parses_u32])
    apply (rule parses_all_bind [OF parses_optional_segment_ref [OF assms(2)]])
    apply (simp only: kn Let_def ne if_False)
    apply (rule parses_all_bind [OF parses_blob [OF b1]])
    apply (simp only: p1 pbind_lift_Inr)
    apply (rule parses_all_bind [OF parses_blob [OF b2]])
    apply (simp only: p2 pbind_lift_Inr)
    apply (rule parses_all_bind [OF parses_blob [OF b3]])
    apply (simp only: p3 pbind_lift_Inr)
    apply (rule parses_all_bind [OF parses_blob [OF b4]])
    apply (simp only: term_counts pbind_lift_Inr)
    apply (rule parses_all_bind [where ys = "[]", OF parses_blob [OF b5], simplified])
    apply (simp only: term_counts pbind_lift_Inr seg)
    apply (rule parses_all_eof)
    apply (rule parses_all_return)
    done
qed

text \<open>Document statistics round trip: every segment the encoder accepts decodes to itself,
  whichever of the three widths each field column was packed at.\<close>
theorem doc_stats_roundtrip:
  assumes "encode_doc_stats_segment seg = Inr bs" and "ref_wf (dg_previous_root seg)"
  shows "decode_doc_stats_segment bs = Inr seg"
  by (rule doc_stats_roundtrip_here [OF assms])

lemma doc_stats_roundtrip_witness:
  "\<exists>bs. encode_doc_stats_segment \<lparr>dg_text_space_id = 3, dg_previous_root = None, dg_records =
      [\<lparr>ds_frame_id = 5, ds_collection_id = 1, ds_text_space_id = 3, ds_field_lengths = [2, 300],
         ds_total_terms = 4, ds_unique_terms = 3\<rparr>]\<rparr> = Inr bs \<and>
    decode_doc_stats_segment bs = Inr \<lparr>dg_text_space_id = 3, dg_previous_root = None, dg_records =
      [\<lparr>ds_frame_id = 5, ds_collection_id = 1, ds_text_space_id = 3, ds_field_lengths = [2, 300],
         ds_total_terms = 4, ds_unique_terms = 3\<rparr>]\<rparr>"
proof -
  let ?seg = "\<lparr>dg_text_space_id = 3, dg_previous_root = None, dg_records =
      [\<lparr>ds_frame_id = 5, ds_collection_id = 1, ds_text_space_id = 3, ds_field_lengths = [2, 300],
         ds_total_terms = 4, ds_unique_terms = 3\<rparr>]\<rparr> :: doc_stats_segment"
  obtain bs where bs: "encode_doc_stats_segment ?seg = Inr bs"
    by (simp add: encode_doc_stats_segment_def field_count_of_def u32_try_from_def write_run_column_def
        write_blob_def nth_fields_def write_field_column_def field_width_def write_field_def
        write_uvarint_eq varint_small)
  show ?thesis using bs doc_stats_roundtrip [OF bs] by (simp add: ref_wf_def)
qed

end
