(* ===== verification/TermDictionary.thy ===== *)
theory TermDictionary imports Columns begin

text \<open>
  \<open>format/term_dictionary.rs\<close> and the reader of its segments in
  \<open>walk_term_dict_chain_lazy\<close> (\<open>file/text_indexing.rs\<close>): the dictionary payload (magic
  \<open>VLTD\<close>) is written record by record and read back as slices into the payload, without a
  copy of the terms. Shown: the slices of an encoded payload are the terms it was made of.
\<close>

section \<open>Encoder\<close>

definition VLTD_MAGIC :: bytes where "VLTD_MAGIC = [0x56, 0x4C, 0x54, 0x44]"
definition VLTD_VERSION :: u16 where "VLTD_VERSION = 1"

record term_dictionary_entry =
  td_term_id :: u32
  td_term_bytes :: bytes
  td_collection_freq :: u64
  td_doc_freq :: u32

record term_dictionary_segment =
  tg_text_space_id :: u32
  tg_previous_root :: "segment_ref option"
  tg_records :: "term_dictionary_entry list"

fun encode_term_records :: "term_dictionary_entry list \<Rightarrow> bytes result" where
  "encode_term_records [] = Inr []"
| "encode_term_records (e # es) =
     rbind (ok_or (u32_try_from (length (td_term_bytes e)))
       (Format ''TermDictionaryEntry term_bytes length exceeds u32'')) (\<lambda>term_bytes_len.
     rbind (encode_term_records es) (\<lambda>rest.
       Inr (u32_le (td_term_id e) @ u32_le term_bytes_len @ td_term_bytes e
            @ u64_le (td_collection_freq e) @ u32_le (td_doc_freq e) @ rest)))"

definition encode_term_dictionary_segment :: "term_dictionary_segment \<Rightarrow> bytes result" where
  "encode_term_dictionary_segment seg =
     rbind (ok_or (u32_try_from (length (tg_records seg)))
       (Format ''TermDictionarySegment record count overflow'')) (\<lambda>record_count.
     rbind (encode_term_records (tg_records seg)) (\<lambda>records.
       Inr (VLTD_MAGIC @ u16_le VLTD_VERSION @ u32_le (tg_text_space_id seg)
            @ u32_le record_count @ write_optional_segment_ref (tg_previous_root seg) @ records)))"

section \<open>Lazy reader\<close>

text \<open>Offsets and lengths are \<open>u32\<close>; \<open>pos as u32\<close> truncates.\<close>
record term_dict_raw_slice =
  rs_start :: u32
  rs_length :: u32
  rs_term_id :: u32

text \<open>\<open>if payload.len() < pos + n { return Err(..) }\<close>, the position, and \<open>pos += n\<close>.\<close>
definition pneed :: "nat \<Rightarrow> error \<Rightarrow> unit parser" where
  "pneed n e = (\<lambda>c. if length (cbytes c) < cpos c + n then Inl e else Inr ((), c))"

definition ppos :: "nat parser" where
  "ppos = (\<lambda>c. Inr (cpos c, c))"

definition pskip :: "nat \<Rightarrow> unit parser" where
  "pskip n = (\<lambda>c. Inr ((), c\<lparr>cpos := cpos c + n\<rparr>))"

fun read_term_slices :: "nat \<Rightarrow> term_dict_raw_slice list parser" where
  "read_term_slices 0 = preturn []"
| "read_term_slices (Suc n) =
     pbind (pneed 8 (Format ''TermDictionarySegment record header truncated'')) (\<lambda>_.
     pbind read_u32 (\<lambda>term_id. pbind read_u32 (\<lambda>term_bytes_len.
     pbind (pneed (unat term_bytes_len + 8 + 4)
              (Format ''TermDictionarySegment record body truncated'')) (\<lambda>_.
     pbind ppos (\<lambda>term_start.
     pbind (pskip (unat term_bytes_len + 8 + 4)) (\<lambda>_.
     pbind (read_term_slices n) (\<lambda>slices.
       preturn (\<lparr>rs_start = of_nat term_start, rs_length = term_bytes_len,
                 rs_term_id = term_id\<rparr> # slices))))))))"

definition read_dict_previous_root :: "segment_ref option parser" where
  "read_dict_previous_root =
     pbind read_u8 (\<lambda>prev_flag.
       if prev_flag = 0 then preturn None
       else if prev_flag = 1 then
         pbind (pneed (8 + 8 + 8 + 32) (Format ''TermDictionarySegment previous_root truncated'')) (\<lambda>_.
         pbind read_u64 (\<lambda>sid. pbind read_u64 (\<lambda>offset. pbind read_u64 (\<lambda>len.
         pbind (read_array 32) (\<lambda>checksum.
           preturn (Some \<lparr>sr_segment_id = sid, sr_offset = offset, sr_length = len,
                          sr_checksum = checksum\<rparr>))))))
       else perr (Format ''TermDictionarySegment previous_root flag must be 0 or 1''))"

definition term_dict_parser :: "(term_dict_raw_slice list \<times> segment_ref option) parser" where
  "term_dict_parser =
     pbind (pneed (14 + 1) (Format ''TermDictionarySegment truncated'')) (\<lambda>_.
     pbind (read_array 4) (\<lambda>magic.
     if magic \<noteq> VLTD_MAGIC then perr (Format ''TermDictionarySegment magic mismatch'')
     else pbind read_u16 (\<lambda>version.
     if version \<noteq> VLTD_VERSION then perr (Format ''TermDictionarySegment version mismatch'')
     else pbind read_u32 (\<lambda>text_space_id.
     pbind read_u32 (\<lambda>record_count.
     pbind read_dict_previous_root (\<lambda>previous_root.
     pbind (read_term_slices (unat record_count)) (\<lambda>slices.
     pbind peof (\<lambda>_. preturn (slices, previous_root)))))))))"

definition term_dict_slices :: "bytes \<Rightarrow> (term_dict_raw_slice list \<times> segment_ref option) result" where
  "term_dict_slices payload = run_parser term_dict_parser payload"

section \<open>The slices are the terms\<close>

text \<open>Where the encoder put the terms, when the first record starts at \<open>off\<close>.\<close>
fun slices_at :: "nat \<Rightarrow> term_dictionary_entry list \<Rightarrow> term_dict_raw_slice list" where
  "slices_at off [] = []"
| "slices_at off (e # es) =
     \<lparr>rs_start = of_nat (off + 8), rs_length = of_nat (length (td_term_bytes e)),
      rs_term_id = td_term_id e\<rparr> # slices_at (off + 8 + length (td_term_bytes e) + 12) es"

lemma read_step:
  assumes "parses p xs v"
  shows "pbind p f \<lparr>cbytes = pre @ xs @ rest, cpos = length pre\<rparr> =
    f v \<lparr>cbytes = (pre @ xs) @ rest, cpos = length (pre @ xs)\<rparr>"
  using assms by (simp add: parses_def pbind_def)

lemma need_step:
  "length xs \<ge> n \<Longrightarrow> pbind (pneed n e) f \<lparr>cbytes = pre @ xs, cpos = length pre\<rparr> =
     f () \<lparr>cbytes = pre @ xs, cpos = length pre\<rparr>"
  by (simp add: pbind_def pneed_def)

lemma pos_step: "pbind ppos f c = f (cpos c) c"
  by (simp add: pbind_def ppos_def)

lemma skip_step:
  "length xs = n \<Longrightarrow> pbind (pskip n) f \<lparr>cbytes = pre @ xs @ rest, cpos = length pre\<rparr> =
     f () \<lparr>cbytes = (pre @ xs) @ rest, cpos = length (pre @ xs)\<rparr>"
  by (simp add: pbind_def pskip_def)

lemma read_term_slices_encoded:
  "encode_term_records es = Inr bs \<Longrightarrow>
   read_term_slices (length es) \<lparr>cbytes = pre @ bs, cpos = length pre\<rparr> =
   Inr (slices_at (length pre) es, \<lparr>cbytes = pre @ bs, cpos = length (pre @ bs)\<rparr>)"
proof (induction es arbitrary: bs pre)
  case Nil
  then show ?case by (simp add: preturn_def)
next
  case (Cons e es)
  let ?t = "td_term_bytes e"
  from Cons.prems obtain k rest where k: "u32_try_from (length ?t) = Some k"
    and r: "encode_term_records es = Inr rest"
    and bs: "bs = u32_le (td_term_id e) @ u32_le k @ (?t @ u64_le (td_collection_freq e)
      @ u32_le (td_doc_freq e)) @ rest"
    by (auto simp: rbind_Inr_iff)
  have kn: "unat k = length ?t" by (rule u32_try_from_unat [OF k])
  have kw: "k = of_nat (length ?t)" using k by (simp add: u32_try_from_Some_iff)
  let ?body = "?t @ u64_le (td_collection_freq e) @ u32_le (td_doc_freq e)"
  have ih: "read_term_slices (length es) \<lparr>cbytes = (((pre @ u32_le (td_term_id e)) @ u32_le k) @ ?body) @ rest,
      cpos = length (((pre @ u32_le (td_term_id e)) @ u32_le k) @ ?body)\<rparr> =
    Inr (slices_at (length pre + 8 + length ?t + 12) es,
      \<lparr>cbytes = pre @ bs, cpos = length (pre @ bs)\<rparr>)"
    using Cons.IH [OF r, of "((pre @ u32_le (td_term_id e)) @ u32_le k) @ ?body"]
    by (simp add: bs add.commute add.left_commute)
  show ?case
    unfolding list.size add_0_right add_Suc_right read_term_slices.simps bs
    apply (subst need_step)
     apply simp
    apply (subst read_step [OF parses_u32])
    apply (subst read_step [OF parses_u32])
    apply (subst need_step)
     apply (simp add: kn)
    apply (subst pos_step)
    apply (subst skip_step)
     apply (simp add: kn)
    apply (simp only: pbind_def ih sum.case prod.case slices_at.simps preturn_def)
    apply (simp add: kw bs)
    done
qed

lemma parses_dict_previous_root:
  assumes "ref_wf r"
  shows "parses read_dict_previous_root (write_optional_segment_ref r) r"
proof (cases r)
  case None
  then show ?thesis
    by (simp add: read_dict_previous_root_def write_optional_segment_ref_def)
      (rule parses_bind_end [OF parses_u8], simp add: parses_return)
next
  case (Some s)
  let ?xs = "u64_le (sr_segment_id s) @ u64_le (sr_offset s) @ u64_le (sr_length s) @ sr_checksum s"
  have l: "length (sr_checksum s) = 32" using assms Some by (simp add: ref_wf_def)
  have eq: "write_optional_segment_ref r = [1] @ ?xs"
    by (simp add: write_optional_segment_ref_def Some)
  have need: "parses (pbind (pneed (8 + 8 + 8 + 32) e) (\<lambda>_. p)) ?xs v" if "parses p ?xs v" for e p v
    using that l by (simp add: parses_def pbind_def pneed_def)
  show ?thesis
    unfolding eq read_dict_previous_root_def
    by (rule parses_bind [OF parses_u8], simp, rule need [simplified],
        rule parses_bind [OF parses_u64], rule parses_bind [OF parses_u64],
        rule parses_bind [OF parses_u64],
        rule parses_bind_return [OF parses_read_array [OF l]])
      (simp add: Some)
qed

text \<open>The bytes a slice stands for.\<close>
definition slice_bytes :: "bytes \<Rightarrow> term_dict_raw_slice \<Rightarrow> bytes" where
  "slice_bytes blob s = slice (unat (rs_start s)) (unat (rs_length s)) blob"

lemma slices_at_bytes:
  "encode_term_records es = Inr bs \<Longrightarrow> length (pre @ bs) < 2 ^ 32 \<Longrightarrow>
   map (\<lambda>s. (rs_term_id s, slice_bytes (pre @ bs) s)) (slices_at (length pre) es) =
   map (\<lambda>e. (td_term_id e, td_term_bytes e)) es"
proof (induction es arbitrary: bs pre)
  case Nil
  then show ?case by simp
next
  case (Cons e es)
  let ?t = "td_term_bytes e"
  from Cons.prems(1) obtain k rest where r: "encode_term_records es = Inr rest"
    and bs: "bs = u32_le (td_term_id e) @ u32_le k @ ?t @ u64_le (td_collection_freq e)
      @ u32_le (td_doc_freq e) @ rest"
    by (auto simp: rbind_Inr_iff)
  let ?pre = "pre @ u32_le (td_term_id e) @ u32_le k @ ?t @ u64_le (td_collection_freq e) @ u32_le (td_doc_freq e)"
  have eq: "?pre @ rest = pre @ bs" by (simp add: bs)
  have "length pre + 8 < 2 ^ 32" "length ?t < 2 ^ 32" using Cons.prems(2) by (simp_all add: bs)
  then have n: "unat (of_nat (length pre + 8) :: u32) = length pre + 8"
    "unat (of_nat (length ?t) :: u32) = length ?t"
    by (intro unat_of_nat_eq, simp)+
  have "slice (length pre + 8) (length ?t) (pre @ bs) = ?t"
    by (simp add: bs slice_def)
  moreover have "map (\<lambda>s. (rs_term_id s, slice_bytes (pre @ bs) s)) (slices_at (length ?pre) es) =
      map (\<lambda>e. (td_term_id e, td_term_bytes e)) es"
    using Cons.IH [OF r, of ?pre] Cons.prems(2) unfolding eq by simp
  moreover have len: "length pre + 8 + length ?t + 12 = length ?pre" by simp
  ultimately show ?case
    unfolding slices_at.simps len list.map slice_bytes_def by (simp only: term_dict_raw_slice.simps n)
qed

lemma term_dictionary_slices:
  assumes "encode_term_dictionary_segment seg = Inr bs" and "ref_wf (tg_previous_root seg)"
    and "length bs < 2 ^ 32"
  shows "\<exists>slices. term_dict_slices bs = Inr (slices, tg_previous_root seg) \<and>
    map (\<lambda>s. (rs_term_id s, slice_bytes bs s)) slices =
    map (\<lambda>e. (td_term_id e, td_term_bytes e)) (tg_records seg)"
proof -
  let ?ref = "write_optional_segment_ref (tg_previous_root seg)"
  from assms(1) obtain k recs where k: "u32_try_from (length (tg_records seg)) = Some k"
    and r: "encode_term_records (tg_records seg) = Inr recs"
    and bs: "bs = VLTD_MAGIC @ u16_le VLTD_VERSION @ u32_le (tg_text_space_id seg) @ u32_le k @ ?ref @ recs"
    by (auto simp: encode_term_dictionary_segment_def rbind_Inr_iff)
  let ?pre = "(((([] @ VLTD_MAGIC) @ u16_le VLTD_VERSION) @ u32_le (tg_text_space_id seg)) @ u32_le k) @ ?ref"
  have kn: "unat k = length (tg_records seg)" by (rule u32_try_from_unat [OF k])
  have rl: "1 \<le> length ?ref" by (simp add: write_optional_segment_ref_def split: option.split)
  have m: "length VLTD_MAGIC = 4" by (simp add: VLTD_MAGIC_def)
  have start: "\<lparr>cbytes = bs, cpos = 0\<rparr> = \<lparr>cbytes = [] @ VLTD_MAGIC @ u16_le VLTD_VERSION @
      u32_le (tg_text_space_id seg) @ u32_le k @ ?ref @ recs, cpos = length ([] :: bytes)\<rparr>"
    by (simp add: bs)
  have eq: "?pre @ recs = bs" by (simp add: bs)
  have "term_dict_parser \<lparr>cbytes = bs, cpos = 0\<rparr> =
      Inr ((slices_at (length ?pre) (tg_records seg), tg_previous_root seg),
        \<lparr>cbytes = ?pre @ recs, cpos = length (?pre @ recs)\<rparr>)"
    unfolding start term_dict_parser_def
    apply (subst need_step)
    subgoal using rl m by simp
    apply (subst read_step [OF parses_read_array [OF m]])
    apply (simp only: simp_thms if_False)
    apply (subst read_step [OF parses_u16])
    apply (simp only: simp_thms if_False)
    apply (subst read_step [OF parses_u32])
    apply (subst read_step [OF parses_u32])
    apply (subst read_step [OF parses_dict_previous_root [OF assms(2)]])
    apply (simp only: kn)
    apply (subst pbind_def, subst read_term_slices_encoded [OF r])
    apply (simp add: pbind_def peof_def cursor_is_empty_def preturn_def)
    done
  then have "term_dict_slices bs = Inr (slices_at (length ?pre) (tg_records seg), tg_previous_root seg)"
    by (simp add: term_dict_slices_def run_parser_def cursor_new_def)
  moreover have "map (\<lambda>s. (rs_term_id s, slice_bytes (?pre @ recs) s)) (slices_at (length ?pre) (tg_records seg))
      = map (\<lambda>e. (td_term_id e, td_term_bytes e)) (tg_records seg)"
    using assms(3) by (intro slices_at_bytes [OF r]) (simp only: eq)
  ultimately show ?thesis unfolding eq by blast
qed

end
