(* ===== verification/VectorSegment.thy ===== *)
theory VectorSegment imports Cursor begin

text \<open>
  \<open>format/vector.rs\<close>: the payload of a vector data segment (magic \<open>VLVD\<close>). A fixed header
  of 34 bytes is followed by a block of vector ids and a block of codes, both of a fixed
  stride and indexed by the ordinal of a vector, so that a reader finds one vector by
  arithmetic. \<open>usize\<close> is a natural number; where the code multiplies and adds unchecked the
  result is reduced modulo \<open>2 ^ 64\<close>, as in a release build, and a slice that leaves the
  payload is a \<open>Panic\<close>.
\<close>

section \<open>The writer\<close>

abbreviation HEADER_BYTES :: nat where "HEADER_BYTES \<equiv> 34"
abbreviation VECTOR_ID_BYTES :: nat where "VECTOR_ID_BYTES \<equiv> 8"

definition VLVD_MAGIC :: bytes where
  "VLVD_MAGIC = [0x56, 0x4C, 0x56, 0x44]"

definition VLVD_VERSION :: u16 where
  "VLVD_VERSION = 1"

record vector_writer =
  vw_embedding_space_id :: u32
  vw_codec_id :: u32
  vw_base_bytes_per_vector :: nat
  vw_ids :: "u64 list"
  vw_base_block :: bytes

definition vector_writer_new :: "u32 \<Rightarrow> u32 \<Rightarrow> nat \<Rightarrow> vector_writer" where
  "vector_writer_new embedding_space_id codec_id base_bytes_per_vector =
     \<lparr>vw_embedding_space_id = embedding_space_id, vw_codec_id = codec_id,
      vw_base_bytes_per_vector = base_bytes_per_vector, vw_ids = [], vw_base_block = []\<rparr>"

text \<open>\<open>self.ids.len() as u32\<close> truncates.\<close>
definition item_count :: "vector_writer \<Rightarrow> u32" where
  "item_count w = of_nat (length (vw_ids w))"

definition append_vector :: "u64 \<Rightarrow> bytes \<Rightarrow> vector_writer \<Rightarrow> (u32 \<times> vector_writer) result" where
  "append_vector vector_id base w =
     (if length base \<noteq> vw_base_bytes_per_vector w
      then Inl (Format ''VectorDataSegment append: base length mismatch'')
      else rbind (ok_or (u32_try_from (length (vw_ids w)))
             (Format ''VectorDataSegment item_count overflow'')) (\<lambda>ordinal.
        Inr (ordinal, w\<lparr>vw_ids := vw_ids w @ [vector_id],
                        vw_base_block := vw_base_block w @ base\<rparr>)))"

text \<open>\<open>usize\<close> arithmetic without overflow checks.\<close>
definition usize_mul :: "nat \<Rightarrow> nat \<Rightarrow> nat" where
  "usize_mul a b = (a * b) mod 2 ^ 64"

definition usize_add :: "nat \<Rightarrow> nat \<Rightarrow> nat" where
  "usize_add a b = (a + b) mod 2 ^ 64"

definition vlvd_header :: "u32 \<Rightarrow> u32 \<Rightarrow> u32 \<Rightarrow> u32 \<Rightarrow> u32 \<Rightarrow> u32 \<Rightarrow> u32 \<Rightarrow> bytes" where
  "vlvd_header embedding_space_id codec_id count flags ids_block_offset base_block_offset
     residual_block_offset =
     VLVD_MAGIC @ u16_le VLVD_VERSION @ u32_le embedding_space_id @ u32_le codec_id
       @ u32_le count @ u32_le flags @ u32_le ids_block_offset @ u32_le base_block_offset
       @ u32_le residual_block_offset"

definition finish_vectors :: "vector_writer \<Rightarrow> bytes result" where
  "finish_vectors w =
     rbind (ok_or (u32_try_from (length (vw_ids w)))
       (Format ''VectorDataSegment item_count overflow'')) (\<lambda>count.
     let ids_block_offset = HEADER_BYTES;
         ids_block_len = usize_mul (unat count) VECTOR_ID_BYTES;
         base_block_offset = usize_add ids_block_offset ids_block_len;
         base_block_len = usize_mul (unat count) (vw_base_bytes_per_vector w);
         total_len = usize_add base_block_offset base_block_len
     in rbind (ok_or (u32_try_from ids_block_offset) (Format ''ids_block_offset overflow''))
          (\<lambda>ids_block_offset_u32.
        rbind (ok_or (u32_try_from base_block_offset) (Format ''base_block_offset overflow''))
          (\<lambda>base_block_offset_u32.
        if 2 ^ 63 \<le> total_len then Inl (Panic ''capacity overflow'')
        else Inr (vlvd_header (vw_embedding_space_id w) (vw_codec_id w) count 0
                    ids_block_offset_u32 base_block_offset_u32 0
                  @ concat (map u64_le (vw_ids w)) @ vw_base_block w))))"

section \<open>The reader\<close>

record vector_reader =
  vr_payload :: bytes
  vr_item_count :: u32
  vr_base_bytes_per_vector :: nat
  vr_ids_offset :: nat
  vr_base_offset :: nat

text \<open>\<open>payload[start..end]\<close>.\<close>
definition slice_range :: "nat \<Rightarrow> nat \<Rightarrow> bytes \<Rightarrow> bytes result" where
  "slice_range start stop xs =
     (if stop < start then Inl (Panic ''slice index starts after its end'')
      else if length xs < stop then Inl (Panic ''range end index out of range'')
      else Inr (slice start (stop - start) xs))"

definition open_vectors :: "bytes \<Rightarrow> nat \<Rightarrow> vector_reader result" where
  "open_vectors payload base_bytes_per_vector =
     (if length payload < HEADER_BYTES
      then Inl (Format ''VectorDataSegment payload truncated'')
      else if slice 0 4 payload \<noteq> VLVD_MAGIC
      then Inl (Format ''VectorDataSegment magic mismatch'')
      else if u16_of_le (slice 4 2 payload) \<noteq> VLVD_VERSION
      then Inl (Format ''VectorDataSegment version mismatch'')
      else
        let count = u32_of_le (slice 14 4 payload);
            flags = u32_of_le (slice 18 4 payload);
            ids_offset = unat (u32_of_le (slice 22 4 payload));
            base_offset = unat (u32_of_le (slice 26 4 payload));
            residual_offset = unat (u32_of_le (slice 30 4 payload))
        in if flags \<noteq> 0 then Inl (Format ''VectorDataSegment flags reserved (must be 0)'')
           else if residual_offset \<noteq> 0
           then Inl (Format ''VectorDataSegment residual_block_offset reserved (must be 0)'')
           else
             let n = unat count;
                 expected_ids_offset = HEADER_BYTES;
                 expected_base_offset = usize_add expected_ids_offset (usize_mul n VECTOR_ID_BYTES)
             in if ids_offset \<noteq> expected_ids_offset
                then Inl (Format ''VectorDataSegment ids_block_offset mismatch'')
                else if base_offset \<noteq> expected_base_offset
                then Inl (Format ''VectorDataSegment base_block_offset mismatch'')
                else
                  let total_expected =
                        usize_add expected_base_offset (usize_mul n base_bytes_per_vector)
                  in if length payload \<noteq> total_expected
                     then Inl (Format ''VectorDataSegment payload length mismatch'')
                     else Inr \<lparr>vr_payload = payload, vr_item_count = count,
                               vr_base_bytes_per_vector = base_bytes_per_vector,
                               vr_ids_offset = ids_offset, vr_base_offset = base_offset\<rparr>)"

definition check_ordinal :: "vector_reader \<Rightarrow> u32 \<Rightarrow> unit result" where
  "check_ordinal r ordinal =
     (if vr_item_count r \<le> ordinal
      then Inl (Format ''VectorDataSegment ordinal out of range'') else Inr ())"

definition vector_id_at :: "vector_reader \<Rightarrow> u32 \<Rightarrow> u64 result" where
  "vector_id_at r ordinal =
     rbind (check_ordinal r ordinal) (\<lambda>_.
       let offset = usize_add (vr_ids_offset r) (usize_mul (unat ordinal) VECTOR_ID_BYTES)
       in rbind (slice_range offset (usize_add offset 8) (vr_payload r)) (\<lambda>bs.
            if length bs \<noteq> 8 then Inl (Format ''vector id slice truncated'')
            else Inr (u64_of_le bs)))"

definition base_at :: "vector_reader \<Rightarrow> u32 \<Rightarrow> bytes result" where
  "base_at r ordinal =
     rbind (check_ordinal r ordinal) (\<lambda>_.
       let offset = usize_add (vr_base_offset r)
                      (usize_mul (unat ordinal) (vr_base_bytes_per_vector r))
       in slice_range offset (usize_add offset (vr_base_bytes_per_vector r)) (vr_payload r))"

section \<open>Bounds\<close>

text \<open>What holds of a reader that opened, over the naturals.\<close>
definition reader_wf :: "vector_reader \<Rightarrow> bool" where
  "reader_wf r \<longleftrightarrow>
     vr_ids_offset r = HEADER_BYTES \<and>
     vr_base_offset r = HEADER_BYTES + unat (vr_item_count r) * VECTOR_ID_BYTES \<and>
     length (vr_payload r) = vr_base_offset r + unat (vr_item_count r) * vr_base_bytes_per_vector r"

lemma usize_small [simp]:
  "a * b < 2 ^ 64 \<Longrightarrow> usize_mul a b = a * b"
  "a + b < 2 ^ 64 \<Longrightarrow> usize_add a b = a + b"
  by (simp_all add: usize_mul_def usize_add_def)

lemma u32_nat_less: "unat (x :: u32) < 2 ^ 32"
  using unsigned_less [where ?'a = nat, of x] by simp

text \<open>A stride under \<open>2 ^ 31\<close> keeps the offset of every ordinal in range of \<open>usize\<close>.\<close>
lemma stride_small:
  assumes "b < 2 ^ 31" shows "unat (n :: u32) * b < 2 ^ 63"
proof (cases "b = 0")
  case False
  then have "unat n * b < 2 ^ 32 * b" using u32_nat_less by simp
  also have "\<dots> \<le> 2 ^ 32 * 2 ^ 31" using assms by (intro mult_le_mono2) simp
  finally show ?thesis by simp
qed simp

lemma slice_range_inside: "start + n \<le> length xs \<Longrightarrow> slice_range start (start + n) xs = Inr (slice start n xs)"
  by (simp add: slice_range_def)

lemma entry_inside:
  assumes "i < n" shows "off + i * b + b \<le> off + n * (b :: nat)"
proof -
  have "i * b + b \<le> n * b" using assms mult_le_mono1 [of "Suc i" n b] by simp
  then show ?thesis by simp
qed

lemma open_vectors_Inr:
  assumes "open_vectors payload bpv = Inr r" and "bpv < 2 ^ 31"
  shows "reader_wf r" and "vr_base_bytes_per_vector r = bpv" and "vr_payload r = payload"
proof -
  have ids: "usize_add 34 (usize_mul (unat n) 8) = 34 + unat n * 8" for n :: u32
    using u32_nat_less [of n] by simp
  have tot: "usize_add (34 + unat n * 8) (usize_mul (unat n) bpv) = 34 + unat n * 8 + unat n * bpv"
    for n :: u32
    using u32_nat_less [of n] stride_small [OF assms(2), of n] by simp
  show "reader_wf r" "vr_base_bytes_per_vector r = bpv" "vr_payload r = payload"
    using assms(1)
    by (auto simp: open_vectors_def Let_def ids tot reader_wf_def simp del: usize_small
        split: if_splits)
qed

lemma vector_id_at_wf:
  assumes "reader_wf r" and "length (vr_payload r) < 2 ^ 64"
  shows "vector_id_at r i =
    (if i < vr_item_count r then Inr (u64_of_le (slice (34 + unat i * 8) 8 (vr_payload r)))
     else Inl (Format ''VectorDataSegment ordinal out of range''))"
proof (cases "i < vr_item_count r")
  case True
  then have i: "unat i < unat (vr_item_count r)" by (simp add: word_less_nat_alt)
  let ?off = "34 + unat i * 8"
  have room: "?off + 8 \<le> length (vr_payload r)"
    using entry_inside [OF i, of 34 8] assms(1) by (simp add: reader_wf_def)
  have "usize_mul (unat i) 8 = unat i * 8"
    using u32_nat_less [of i] by simp
  then have off: "usize_add (vr_ids_offset r) (usize_mul (unat i) 8) = ?off"
    using u32_nat_less [of i] assms(1) by (simp add: reader_wf_def)
  have "usize_add ?off 8 = ?off + 8" using u32_nat_less [of i] by simp
  then show ?thesis
    using True slice_range_inside [OF room] room
    by (simp add: vector_id_at_def check_ordinal_def off not_le)
next
  case False
  then show ?thesis by (simp add: vector_id_at_def check_ordinal_def not_less)
qed

lemma base_at_wf:
  assumes "reader_wf r" and "vr_base_bytes_per_vector r < 2 ^ 31"
  shows "base_at r i =
    (if i < vr_item_count r
     then Inr (slice (vr_base_offset r + unat i * vr_base_bytes_per_vector r)
                     (vr_base_bytes_per_vector r) (vr_payload r))
     else Inl (Format ''VectorDataSegment ordinal out of range''))"
proof (cases "i < vr_item_count r")
  case True
  let ?b = "vr_base_bytes_per_vector r" and ?n = "vr_item_count r"
  let ?off = "vr_base_offset r + unat i * ?b"
  from True have i: "unat i < unat ?n" by (simp add: word_less_nat_alt)
  have room: "?off + ?b \<le> length (vr_payload r)"
    using entry_inside [OF i, of "vr_base_offset r" ?b] assms(1) by (simp add: reader_wf_def)
  have len: "length (vr_payload r) < 2 ^ 64"
    using stride_small [OF assms(2), of ?n] u32_nat_less [of ?n] assms(1)
    by (simp add: reader_wf_def)
  have m: "usize_mul (unat i) ?b = unat i * ?b"
    using stride_small [OF assms(2), of i] by simp
  have off: "usize_add (vr_base_offset r) (usize_mul (unat i) ?b) = ?off"
    unfolding m using room len by simp
  have stop: "usize_add ?off ?b = ?off + ?b" using room len by simp
  show ?thesis
    using True slice_range_inside [OF room]
    by (simp add: base_at_def check_ordinal_def off stop not_le)
next
  case False
  then show ?thesis by (simp add: base_at_def check_ordinal_def not_less)
qed

text \<open>C40: A vector segment that opens is safe to read at every ordinal: whatever bytes the
  payload holds, for a stride under \<open>2 ^ 31\<close> the reader gives a vector id and a code of
  exactly the stride's length for each ordinal below the stored count, the error "out of
  range" for every other one, and no lookup slices outside the payload.\<close>
theorem open_vector_segment_in_bounds:
  assumes "open_vectors payload base_bytes_per_vector = Inr r" and "base_bytes_per_vector < 2 ^ 31"
  shows "if ordinal < vr_item_count r
    then (\<exists>v. vector_id_at r ordinal = Inr v) \<and>
         (\<exists>code. base_at r ordinal = Inr code \<and> length code = base_bytes_per_vector)
    else vector_id_at r ordinal = Inl (Format ''VectorDataSegment ordinal out of range'') \<and>
         base_at r ordinal = Inl (Format ''VectorDataSegment ordinal out of range'')"
proof -
  note wf = open_vectors_Inr [OF assms]
  let ?n = "vr_item_count r"
  have b: "vr_base_bytes_per_vector r < 2 ^ 31" using assms(2) wf(2) by simp
  have len: "length (vr_payload r) < 2 ^ 64"
    using stride_small [OF b, of ?n] u32_nat_less [of ?n] wf(1) by (simp add: reader_wf_def)
  have "vr_base_offset r + unat ordinal * base_bytes_per_vector + base_bytes_per_vector
      \<le> length (vr_payload r)" if "ordinal < ?n"
    using entry_inside [of "unat ordinal" "unat ?n" "vr_base_offset r" base_bytes_per_vector]
      that wf by (simp add: reader_wf_def word_less_nat_alt)
  then show ?thesis
    using vector_id_at_wf [OF wf(1) len, of ordinal] base_at_wf [OF wf(1) b, of ordinal] wf(2)
    by simp
qed

section \<open>Round trip\<close>

fun append_vectors :: "(u64 \<times> bytes) list \<Rightarrow> vector_writer \<Rightarrow> vector_writer result" where
  "append_vectors [] w = Inr w"
| "append_vectors ((v, code) # vs) w =
     rbind (append_vector v code w) (\<lambda>(ordinal, w'). append_vectors vs w')"

lemma append_vectors_Inr:
  assumes "append_vectors vs w = Inr w'"
  shows "w' = w\<lparr>vw_ids := vw_ids w @ map fst vs,
                vw_base_block := vw_base_block w @ concat (map snd vs)\<rparr> \<and>
    (\<forall>p\<in>set vs. length (snd p) = vw_base_bytes_per_vector w) \<and>
    length (vw_ids w) + length vs \<le> max (length (vw_ids w)) (2 ^ 32)"
  using assms
proof (induction vs arbitrary: w)
  case (Cons p vs)
  obtain v code where p: "p = (v, code)" by (cases p)
  from Cons.prems p obtain ord w1 where a: "append_vector v code w = Inr (ord, w1)"
    and t: "append_vectors vs w1 = Inr w'"
    by (auto simp: rbind_Inr_iff)
  from a have w1: "w1 = w\<lparr>vw_ids := vw_ids w @ [v], vw_base_block := vw_base_block w @ code\<rparr>"
    and l: "length code = vw_base_bytes_per_vector w" "length (vw_ids w) < 2 ^ 32"
    by (auto simp: append_vector_def rbind_Inr_iff u32_try_from_Some_iff split: if_splits)
  from Cons.IH [OF t] l p show ?case unfolding w1 by simp
qed simp

lemma slice_concat_fixed:
  assumes "\<forall>x\<in>set xs. length x = b" and "i < length xs"
  shows "slice (i * b) b (concat xs) = xs ! i"
  using assms
proof (induction xs arbitrary: i)
  case (Cons x xs)
  then show ?case by (cases i) (auto simp: slice_def)
qed simp

lemma length_concat_fixed: "\<forall>x\<in>set xs. length x = b \<Longrightarrow> length (concat xs) = length xs * b"
  by (induction xs) auto

lemma slice_skip: "slice (length xs + i) n (xs @ ys) = slice i n ys"
  by (simp add: slice_def)

lemma length_vlvd_header [simp]: "length (vlvd_header a b c d e f g) = 34"
  by (simp add: vlvd_header_def VLVD_MAGIC_def)

lemma vlvd_header_fields:
  "slice 0 4 (vlvd_header a b c d e f g @ rest) = VLVD_MAGIC"
  "slice 4 2 (vlvd_header a b c d e f g @ rest) = u16_le VLVD_VERSION"
  "slice 14 4 (vlvd_header a b c d e f g @ rest) = u32_le c"
  "slice 18 4 (vlvd_header a b c d e f g @ rest) = u32_le d"
  "slice 22 4 (vlvd_header a b c d e f g @ rest) = u32_le e"
  "slice 26 4 (vlvd_header a b c d e f g @ rest) = u32_le f"
  "slice 30 4 (vlvd_header a b c d e f g @ rest) = u32_le g"
  by (simp_all add: vlvd_header_def VLVD_MAGIC_def slice_def)

lemma vector_segment_roundtrip:
  assumes "append_vectors vs (vector_writer_new space codec bpv) = Inr w"
    and "finish_vectors w = Inr payload" and "bpv < 2 ^ 31"
  shows "\<exists>r. open_vectors payload bpv = Inr r \<and> unat (vr_item_count r) = length vs \<and>
    (\<forall>i. i < length vs \<longrightarrow>
       vector_id_at r (of_nat i) = Inr (fst (vs ! i)) \<and> base_at r (of_nat i) = Inr (snd (vs ! i)))"
proof -
  from append_vectors_Inr [OF assms(1)]
  have w: "w = (vector_writer_new space codec bpv)\<lparr>vw_ids := map fst vs,
      vw_base_block := concat (map snd vs)\<rparr>"
    and codes: "\<forall>x\<in>set (map snd vs). length x = bpv"
    by (auto simp: vector_writer_new_def)
  let ?ids = "concat (map u64_le (map fst vs))" and ?base = "concat (map snd vs)"
  define n :: u32 where "n = of_nat (length vs)"
  from assms(2) have small: "length vs < 2 ^ 32"
    unfolding w by (auto simp: finish_vectors_def vector_writer_new_def rbind_Inr_iff u32_try_from_Some_iff)
  then have n: "unat n = length vs" by (simp add: n_def unat_of_nat_eq)
  have ids: "usize_add 34 (usize_mul (length vs) 8) = 34 + length vs * 8"
    using small by simp
  have prod: "length vs * bpv < 2 ^ 63" using stride_small [OF assms(3), of n] n by simp
  have tot: "usize_add (34 + length vs * 8) (usize_mul (length vs) bpv) = 34 + length vs * 8 + length vs * bpv"
    using small prod by simp
  from assms(2) have off: "34 + length vs * 8 < 2 ^ 32"
    and p: "payload = vlvd_header space codec n 0 34 (of_nat (34 + length vs * 8)) 0 @ ?ids @ ?base"
    unfolding w
    by (auto simp: finish_vectors_def vector_writer_new_def rbind_Inr_iff u32_try_from_Some_iff
        Let_def n_def unat_of_nat_eq ids simp del: usize_small split: if_splits)
  have lids: "length ?ids = length vs * 8"
  proof -
    have "length ?ids = length (map u64_le (map fst vs)) * 8"
      by (rule length_concat_fixed) auto
    then show ?thesis by (simp only: length_map)
  qed
  have lbase: "length ?base = length vs * bpv" using length_concat_fixed [OF codes] by simp
  have unoff: "unat (of_nat (34 + length vs * 8) :: u32) = 34 + length vs * 8"
    using off by (intro unat_of_nat_eq) simp
  define r where "r = \<lparr>vr_payload = payload, vr_item_count = n, vr_base_bytes_per_vector = bpv,
     vr_ids_offset = 34, vr_base_offset = 34 + length vs * 8\<rparr>"
  have opened: "open_vectors payload bpv = Inr r"
    by (simp only: open_vectors_def Let_def p vlvd_header_fields of_le_le unoff n ids tot)
      (simp add: r_def p lids lbase del: map_map)
  have wf: "reader_wf r" by (rule open_vectors_Inr(1) [OF opened assms(3)])
  have len: "length (vr_payload r) < 2 ^ 64"
    using wf prod small by (simp add: reader_wf_def r_def n)
  have "vector_id_at r (of_nat i) = Inr (fst (vs ! i)) \<and> base_at r (of_nat i) = Inr (snd (vs ! i))"
    if i: "i < length vs" for i
  proof -
    have ui: "unat (of_nat i :: u32) = i" using i small by (intro unat_of_nat_eq) simp
    have lt: "of_nat i < n" using i by (simp add: word_less_nat_alt ui n)
    have "slice (34 + i * 8) 8 payload = slice (i * 8) 8 (?ids @ ?base)"
      unfolding p using slice_skip [of "vlvd_header space codec n 0 34 (of_nat (34 + length vs * 8)) 0"]
      by simp
    also have "\<dots> = slice (i * 8) 8 ?ids"
      using i lids entry_inside [OF i, of 0 8] by (intro slice_append1) simp
    also have "\<dots> = u64_le (fst (vs ! i))"
      using i by (subst slice_concat_fixed) auto
    finally have id: "slice (34 + i * 8) 8 payload = u64_le (fst (vs ! i))" .
    have "slice (34 + length vs * 8 + i * bpv) bpv payload = slice (i * bpv) bpv ?base"
      unfolding p using slice_skip [of "vlvd_header space codec n 0 34 (of_nat (34 + length vs * 8)) 0 @ ?ids"
          "i * bpv" bpv ?base] by (simp add: lids del: map_map)
    also have "\<dots> = snd (vs ! i)"
      using i codes by (subst slice_concat_fixed) auto
    finally have base: "slice (34 + length vs * 8 + i * bpv) bpv payload = snd (vs ! i)" .
    have "vector_id_at r (of_nat i) = Inr (fst (vs ! i))"
      using lt by (subst vector_id_at_wf [OF wf len]) (simp add: r_def ui id)
    moreover have "base_at r (of_nat i) = Inr (snd (vs ! i))"
      using lt assms(3) by (subst base_at_wf [OF wf]) (simp_all add: r_def ui base)
    ultimately show ?thesis ..
  qed
  then show ?thesis using opened n by (auto simp: r_def)
qed

text \<open>A segment with two vectors of three bytes.\<close>
lemma open_vector_segment_witness:
  "\<exists>w payload r.
     append_vectors [(7, [1, 2, 3]), (9, [4, 5, 6])] (vector_writer_new 1 1 3) = Inr w \<and>
     finish_vectors w = Inr payload \<and> open_vectors payload 3 = Inr r \<and>
     (\<exists>code. base_at r 1 = Inr code \<and> length code = 3) \<and>
     base_at r 2 = Inl (Format ''VectorDataSegment ordinal out of range'')"
proof -
  obtain w where w: "append_vectors [(7, [1, 2, 3]), (9, [4, 5, 6])] (vector_writer_new 1 1 3) = Inr w"
    by (simp add: append_vector_def vector_writer_new_def u32_try_from_def)
  have wi: "w = \<lparr>vw_embedding_space_id = 1, vw_codec_id = 1, vw_base_bytes_per_vector = 3,
      vw_ids = [7, 9], vw_base_block = [1, 2, 3, 4, 5, 6]\<rparr>"
    using append_vectors_Inr [OF w] by (simp add: vector_writer_new_def)
  obtain payload where p: "finish_vectors w = Inr payload"
    by (simp add: finish_vectors_def wi u32_try_from_def)
  obtain r where r: "open_vectors payload 3 = Inr r" and n: "unat (vr_item_count r) = 2"
    using vector_segment_roundtrip [OF w p] by auto
  have "(1 :: u32) < vr_item_count r" "\<not> (2 :: u32) < vr_item_count r"
    using n by (simp_all add: word_less_nat_alt)
  then show ?thesis
    using w p r open_vector_segment_in_bounds [OF r, of 1] open_vector_segment_in_bounds [OF r, of 2]
    by auto
qed

text \<open>
  Without the bound on the stride the length check is no guard: the product wraps to the
  length the payload has, the segment opens and the first code lies outside it.
\<close>
lemma huge_stride_wraps:
  "usize_add (usize_add HEADER_BYTES (usize_mul 2 VECTOR_ID_BYTES)) (usize_mul 2 (2 ^ 63))
   = HEADER_BYTES + 2 * VECTOR_ID_BYTES"
  by (simp add: usize_add_def usize_mul_def)

end
