(* ===== verification/TextIndex.thy ===== *)
theory TextIndex
  imports Postings DocStats TermDictionary VectorSegment SortedVec Recovery
    "HOL-Library.List_Lexorder" "HOL-Library.Product_Lexorder"
begin

text \<open>
  \<open>file/text_indexing.rs\<close>: the state of a text space in memory, the lookup of terms and
  posting lists in it, and the flush of the pending frames at a commit, which assigns term
  ids, inverts the frames into posting lists, updates the state and encodes the three delta
  segments. The read-time score caches are left out: nothing here reads them. A \<open>HashMap\<close> that
  the code iterates is an association list with distinct keys, and the order of its pairs does
  not matter where the code sorts what it collects.

  Shown: on a handle whose postings live in memory a flush is the newest-wins update of the
  abstract index (term, frame) to (frequency, collection); the merge of several segments is
  the frame-sorted union of their rows; and on a handle whose postings came from one segment
  the lookup of a term of that segment does not see what later commits of the handle indexed.
\<close>

section \<open>State\<close>

record posting_list_soa =
  so_frame_ids :: "u64 list"
  so_term_freqs :: "u32 list"
  so_collection_ids :: "u32 list"
  so_field_masks :: "u32 list"
  so_positions_refs :: "positions_ref list option"

definition posting_list_soa_default :: posting_list_soa where
  "posting_list_soa_default = \<lparr>so_frame_ids = [], so_term_freqs = [], so_collection_ids = [],
     so_field_masks = [], so_positions_refs = None\<rparr>"

record postings_locator =
  lo_segment_idx :: u32
  lo_entry_idx :: u32

record term_slice =
  sl_blob_idx :: u32
  sl_start :: u32
  sl_length :: u32
  sl_term_id :: u32

definition NO_POSTING_ENTRY :: u32 where "NO_POSTING_ENTRY = - 1"

datatype lazy_posting_list =
    Sparse posting_list_decoded
  | Dense u32 u32 bytes

record text_space_state =
  ts_term_id_by_bytes :: "bytes \<rightharpoonup> u32"
  ts_sorted_terms :: "term_slice list"
  ts_term_dict_blobs :: "bytes list"
  ts_df_by_term :: "u32 \<rightharpoonup> u32"
  ts_cf_by_term :: "u32 \<rightharpoonup> u64"
  ts_postings_by_term :: "u32 \<rightharpoonup> posting_list_soa"
  ts_postings_segments :: "postings_segment_directory list"
  ts_single_segment_dir_index :: "u32 list"
  ts_postings_locator :: "u32 \<rightharpoonup> postings_locator list"
  ts_doc_stats :: "u64 \<rightharpoonup> doc_stats_entry"
  ts_doc_lengths :: "u32 list"
  ts_doc_unique_terms :: "u32 list"
  ts_max_frame_id :: u64
  ts_next_term_id :: u32

definition text_space_state_default :: text_space_state where
  "text_space_state_default =
     \<lparr>ts_term_id_by_bytes = Map.empty, ts_sorted_terms = [], ts_term_dict_blobs = [],
      ts_df_by_term = Map.empty, ts_cf_by_term = Map.empty, ts_postings_by_term = Map.empty,
      ts_postings_segments = [], ts_single_segment_dir_index = [],
      ts_postings_locator = Map.empty, ts_doc_stats = Map.empty, ts_doc_lengths = [],
      ts_doc_unique_terms = [], ts_max_frame_id = 0, ts_next_term_id = 0\<rparr>"

section \<open>Operations on a posting list\<close>

definition positions_ref_default :: positions_ref where
  "positions_ref_default = \<lparr>pref_segment_id = 0, pref_ordinal = 0\<rparr>"

definition upsert_positions_ref ::
  "nat \<Rightarrow> positions_ref option \<Rightarrow> bool \<Rightarrow> nat \<Rightarrow> positions_ref list option \<Rightarrow> positions_ref list option" where
  "upsert_positions_ref idx new_ref replace_existing frames refs =
     (case refs of
        None \<Rightarrow> (case new_ref of None \<Rightarrow> None
                 | Some r \<Rightarrow> Some ((replicate frames positions_ref_default)[idx := r]))
      | Some rs \<Rightarrow>
          let r = (case new_ref of Some r \<Rightarrow> r | None \<Rightarrow> positions_ref_default)
          in Some (if replace_existing then rs[idx := r] else vec_insert idx r rs))"

definition soa_upsert :: "posting \<Rightarrow> posting_list_soa \<Rightarrow> posting_list_soa" where
  "soa_upsert p l =
     (case binary_search_by_key (\<lambda>x. x) (po_frame_id p) (so_frame_ids l) of
        Inr idx \<Rightarrow>
          l\<lparr>so_term_freqs := (so_term_freqs l)[idx := po_term_freq p],
            so_collection_ids := (so_collection_ids l)[idx := po_collection_id p],
            so_field_masks := (so_field_masks l)[idx := po_field_mask p],
            so_positions_refs := upsert_positions_ref idx (po_positions_ref p) True
              (length (so_frame_ids l)) (so_positions_refs l)\<rparr>
      | Inl idx \<Rightarrow>
          l\<lparr>so_frame_ids := vec_insert idx (po_frame_id p) (so_frame_ids l),
            so_term_freqs := vec_insert idx (po_term_freq p) (so_term_freqs l),
            so_collection_ids := vec_insert idx (po_collection_id p) (so_collection_ids l),
            so_field_masks := vec_insert idx (po_field_mask p) (so_field_masks l),
            so_positions_refs := upsert_positions_ref idx (po_positions_ref p) False
              (Suc (length (so_frame_ids l))) (so_positions_refs l)\<rparr>)"

section \<open>Document lengths\<close>

definition ensure_frame_capacity :: "u64 \<Rightarrow> text_space_state \<Rightarrow> text_space_state" where
  "ensure_frame_capacity fid st =
     (let needed = (if fid = - 1 then unat fid else unat fid + 1);
          grow = (\<lambda>xs. xs @ replicate (needed - length xs) 0);
          st1 = (if length (ts_doc_lengths st) < needed
                 then st\<lparr>ts_doc_lengths := grow (ts_doc_lengths st),
                         ts_doc_unique_terms := grow (ts_doc_unique_terms st)\<rparr> else st)
      in if ts_max_frame_id st1 < fid then st1\<lparr>ts_max_frame_id := fid\<rparr> else st1)"

definition record_doc_stats :: "doc_stats_entry \<Rightarrow> text_space_state \<Rightarrow> text_space_state" where
  "record_doc_stats e st =
     (let st1 = ensure_frame_capacity (ds_frame_id e) st; idx = unat (ds_frame_id e)
      in st1\<lparr>ts_doc_lengths := (ts_doc_lengths st1)[idx := ds_total_terms e],
             ts_doc_unique_terms := (ts_doc_unique_terms st1)[idx := ds_unique_terms e]\<rparr>)"

section \<open>Lookups\<close>

text \<open>The bytes of an indexed term. The chain walk has checked every slice against its payload.\<close>
definition term_key :: "bytes list \<Rightarrow> term_slice \<Rightarrow> bytes" where
  "term_key blobs s = slice (unat (sl_start s)) (unat (sl_length s)) (blobs ! unat (sl_blob_idx s))"

definition lookup_term :: "text_space_state \<Rightarrow> bytes \<Rightarrow> u32 option" where
  "lookup_term st bs =
     (case (if ts_sorted_terms st \<noteq> []
            then lookup_by (term_key (ts_term_dict_blobs st)) bs (ts_sorted_terms st) else None) of
        Some s \<Rightarrow> Some (sl_term_id s)
      | None \<Rightarrow> ts_term_id_by_bytes st bs)"

definition nth_or_panic :: "'a list \<Rightarrow> nat \<Rightarrow> 'a result" where
  "nth_or_panic xs i = (if i < length xs then Inr (xs ! i) else Inl (Panic ''index out of bounds''))"

text \<open>The entry the single-segment index holds for a term.\<close>
definition single_entry :: "text_space_state \<Rightarrow> u32 \<Rightarrow> u32 option" where
  "single_entry st term_id =
     (let ix = ts_single_segment_dir_index st in
      if ix \<noteq> [] \<and> unat term_id < length ix \<and> ix ! unat term_id \<noteq> NO_POSTING_ENTRY
      then Some (ix ! unat term_id) else None)"

definition df_for :: "text_space_state \<Rightarrow> u32 \<Rightarrow> u32 result" where
  "df_for st term_id =
     (case single_entry st term_id of
        Some entry_idx \<Rightarrow>
          rbind (nth_or_panic (ts_postings_segments st) 0) (\<lambda>seg.
          rbind (nth_or_panic (pg_entries seg) (unat entry_idx)) (\<lambda>e. Inr (pe_df e)))
      | None \<Rightarrow> Inr (case ts_df_by_term st term_id of Some df \<Rightarrow> df | None \<Rightarrow> 0))"

definition cf_for :: "text_space_state \<Rightarrow> u32 \<Rightarrow> u64 result" where
  "cf_for st term_id =
     (case single_entry st term_id of
        Some entry_idx \<Rightarrow>
          rbind (nth_or_panic (ts_postings_segments st) 0) (\<lambda>seg.
          rbind (nth_or_panic (pg_entries seg) (unat entry_idx)) (\<lambda>e. Inr (pe_cf e)))
      | None \<Rightarrow> Inr (case ts_cf_by_term st term_id of Some cf \<Rightarrow> cf | None \<Rightarrow> 0))"

definition entry_blob :: "postings_segment_directory \<Rightarrow> postings_directory_entry \<Rightarrow> bytes result" where
  "entry_blob seg e =
     slice_range (unat (pe_blob_offset e)) (unat (pe_blob_offset e) + unat (pe_blob_len e)) (pg_blob seg)"

definition entry_list ::
  "postings_segment_directory \<Rightarrow> postings_directory_entry \<Rightarrow> lazy_posting_list option result" where
  "entry_list seg e =
     rbind (entry_blob seg e) (\<lambda>blob_slice.
       if pe_is_dense e then Inr (Some (Dense (pe_term_id e) (pe_df e) blob_slice))
       else rbind (skip_err (decode_term_blob_into (pe_term_id e) (pe_df e) blob_slice)) (\<lambda>r.
              Inr (map_option Sparse r)))"

definition locate ::
  "postings_segment_directory list \<Rightarrow> postings_locator \<Rightarrow>
     (postings_segment_directory \<times> postings_directory_entry) result" where
  "locate segments loc =
     rbind (nth_or_panic segments (unat (lo_segment_idx loc))) (\<lambda>seg.
     rbind (nth_or_panic (pg_entries seg) (unat (lo_entry_idx loc))) (\<lambda>e. Inr (seg, e)))"

definition decode_locator ::
  "postings_segment_directory list \<Rightarrow> postings_locator \<Rightarrow> posting_list_decoded result" where
  "decode_locator segments loc =
     rbind (locate segments loc) (\<lambda>(seg, e).
     rbind (entry_blob seg e) (decode_term_blob_into (pe_term_id e) (pe_df e)))"

definition pd_append :: "posting_list_decoded \<Rightarrow> posting_list_decoded \<Rightarrow> posting_list_decoded" where
  "pd_append m d =
     m\<lparr>pd_frame_ids := pd_frame_ids m @ pd_frame_ids d,
       pd_term_freqs := pd_term_freqs m @ pd_term_freqs d,
       pd_collection_ids := pd_collection_ids m @ pd_collection_ids d,
       pd_field_masks := pd_field_masks m @ pd_field_masks d,
       pd_df := pd_df m + pd_df d\<rparr>"

fun merge_locators ::
  "postings_segment_directory list \<Rightarrow> posting_list_decoded option \<Rightarrow> postings_locator list \<Rightarrow>
     posting_list_decoded option result" where
  "merge_locators segments merged [] = Inr merged"
| "merge_locators segments merged (loc # locs) =
     rbind (decode_locator segments loc) (\<lambda>d.
       merge_locators segments (Some (case merged of None \<Rightarrow> d | Some m \<Rightarrow> pd_append m d)) locs)"

text \<open>\<open>idx.sort_by_key\<close> is stable; the arrays are rewritten when it moved anything.\<close>
definition sort_by_frame :: "posting_list_decoded \<Rightarrow> posting_list_decoded" where
  "sort_by_frame m =
     (let n = unat (of_nat (length (pd_frame_ids m)) :: u32);
          idx = sort_key (\<lambda>i. pd_frame_ids m ! i) [0..<n]
      in if idx = [0..<n] then m
         else m\<lparr>pd_frame_ids := map (\<lambda>i. pd_frame_ids m ! i) idx,
                pd_term_freqs := map (\<lambda>i. pd_term_freqs m ! i) idx,
                pd_collection_ids := map (\<lambda>i. pd_collection_ids m ! i) idx,
                pd_field_masks := map (\<lambda>i. pd_field_masks m ! i) idx\<rparr>)"

definition decode_term_locators ::
  "postings_segment_directory list \<Rightarrow> postings_locator list \<Rightarrow> posting_list_decoded option result" where
  "decode_term_locators segments locators =
     (case locators of
        [] \<Rightarrow> Inr None
      | [loc] \<Rightarrow> rbind (decode_locator segments loc) (\<lambda>d. Inr (Some d))
      | _ \<Rightarrow> rbind (merge_locators segments None locators) (\<lambda>merged.
               Inr (map_option sort_by_frame merged)))"

definition soa_decoded :: "u32 \<Rightarrow> posting_list_soa \<Rightarrow> posting_list_decoded" where
  "soa_decoded term_id p =
     \<lparr>pd_term_id = term_id, pd_df = of_nat (length (so_frame_ids p)), pd_frame_ids = so_frame_ids p,
      pd_term_freqs = so_term_freqs p, pd_collection_ids = so_collection_ids p,
      pd_field_masks = so_field_masks p\<rparr>"

definition lookup_postings :: "text_space_state \<Rightarrow> u32 \<Rightarrow> lazy_posting_list option result" where
  "lookup_postings st term_id =
     (case single_entry st term_id of
        Some entry_idx \<Rightarrow>
          rbind (nth_or_panic (ts_postings_segments st) 0) (\<lambda>seg.
          rbind (nth_or_panic (pg_entries seg) (unat entry_idx)) (entry_list seg))
      | None \<Rightarrow>
          (case ts_postings_locator st term_id of
             Some [loc] \<Rightarrow> rbind (locate (ts_postings_segments st) loc) (\<lambda>(seg, e). entry_list seg e)
           | Some locators \<Rightarrow>
               rbind (skip_err (decode_term_locators (ts_postings_segments st) locators)) (\<lambda>r.
                 Inr (case r of Some (Some d) \<Rightarrow> Some (Sparse d) | _ \<Rightarrow> None))
           | None \<Rightarrow>
               Inr (case ts_postings_by_term st term_id of
                      None \<Rightarrow> None
                    | Some p \<Rightarrow> if so_frame_ids p = [] then None
                               else Some (Sparse (soa_decoded term_id p)))))"

text \<open>The set bits of every word, in ascending order.\<close>
definition expand_bitset_to_sparse :: "u32 \<Rightarrow> u32 \<Rightarrow> bytes \<Rightarrow> posting_list_decoded" where
  "expand_bitset_to_sparse term_id df bitset =
     (let words = length bitset div 8 in
      \<lparr>pd_term_id = term_id, pd_df = df,
       pd_frame_ids = concat (map (\<lambda>w. map (\<lambda>b. of_nat w * 64 + of_nat b)
         (filter (bit (u64_of_le (slice (w * 8) 8 bitset))) [0..<64])) [0..<words]),
       pd_term_freqs = replicate (unat df) 1, pd_collection_ids = replicate (unat df) 1,
       pd_field_masks = replicate (unat df) 1\<rparr>)"

definition lookup_postings_sparse :: "text_space_state \<Rightarrow> u32 \<Rightarrow> posting_list_decoded option result" where
  "lookup_postings_sparse st term_id =
     rbind (lookup_postings st term_id) (\<lambda>r. Inr (case r of
       None \<Rightarrow> None
     | Some (Sparse p) \<Rightarrow> Some p
     | Some (Dense tid df bitset) \<Rightarrow> Some (expand_bitset_to_sparse tid df bitset)))"

text \<open>What \<open>iter_all_postings\<close> yields for a term; the order over terms is that of a hash map.\<close>
definition iter_all_postings :: "text_space_state \<Rightarrow> u32 \<Rightarrow> posting_list_decoded option result" where
  "iter_all_postings st term_id =
     (if ts_postings_by_term st \<noteq> Map.empty
      then Inr (case ts_postings_by_term st term_id of
                  None \<Rightarrow> None
                | Some p \<Rightarrow> if so_frame_ids p = [] then None else Some (soa_decoded term_id p))
      else if ts_single_segment_dir_index st \<noteq> [] \<and> ts_postings_segments st \<noteq> []
      then (if single_entry st term_id = None then Inr None else lookup_postings_sparse st term_id)
      else if ts_postings_locator st term_id = None then Inr None
      else lookup_postings_sparse st term_id)"

section \<open>Pending frames\<close>

record pending_frame_index =
  pf_collection_id :: u32
  pf_term_counts :: "(bytes \<times> u32) list"
  pf_total_terms :: u32

text \<open>\<open>*term_counts.entry(token).or_insert(0) += 1\<close>.\<close>
fun bump :: "bytes \<Rightarrow> (bytes \<times> u32) list \<Rightarrow> (bytes \<times> u32) list" where
  "bump token [] = [(token, 1)]"
| "bump token ((t, n) # counts) =
     (if t = token then (t, n + 1) # counts else (t, n) # bump token counts)"

definition from_tokens :: "u32 \<Rightarrow> bytes list \<Rightarrow> pending_frame_index" where
  "from_tokens collection_id tokens =
     \<lparr>pf_collection_id = collection_id, pf_term_counts = fold bump tokens [],
      pf_total_terms = of_nat (length tokens)\<rparr>"

section \<open>Flush\<close>

type_synonym pending_frames = "(u64 \<times> pending_frame_index) list"

text \<open>Steps 1 and 2: the tokens no lookup knows, in byte order, get the next ids.\<close>
definition new_terms :: "text_space_state \<Rightarrow> pending_frames \<Rightarrow> bytes list" where
  "new_terms st ordered_frames =
     sort (filter (\<lambda>t. lookup_term st t = None)
       (remdups (concat (map (\<lambda>(fid, frame). map fst (pf_term_counts frame)) ordered_frames))))"

fun assign_ids :: "bytes list \<Rightarrow> text_space_state \<Rightarrow> (u32 \<times> bytes) list result \<times> text_space_state" where
  "assign_ids [] st = (Inr [], st)"
| "assign_ids (t # ts) st =
     (let term_id = ts_next_term_id st in
      case checked_add term_id 1 of
        None \<Rightarrow> (Inl (Format ''text-space term_id space exhausted''), st)
      | Some n \<Rightarrow>
          (case assign_ids ts (st\<lparr>ts_next_term_id := n,
                  ts_term_id_by_bytes := (ts_term_id_by_bytes st)(t \<mapsto> term_id)\<rparr>) of
             (r, st') \<Rightarrow> (rbind r (\<lambda>recs. Inr ((term_id, t) # recs)), st')))"

text \<open>Step 3.\<close>
type_synonym flat_posting = "u32 \<times> u64 \<times> u32 \<times> u32"

definition flat_of :: "text_space_state \<Rightarrow> pending_frames \<Rightarrow> flat_posting list result" where
  "flat_of st ordered_frames =
     map_result (\<lambda>(fid, cid, t, tf).
         rbind (ok_or (lookup_term st t) (Panic ''BUG: term_id missing after assignment''))
           (\<lambda>term_id. Inr (term_id, fid, cid, tf)))
       (concat (map (\<lambda>(fid, frame). map (\<lambda>(t, tf). (fid, pf_collection_id frame, t, tf))
          (pf_term_counts frame)) ordered_frames))"

definition doc_stats_of :: "u32 \<Rightarrow> pending_frames \<Rightarrow> doc_stats_entry list" where
  "doc_stats_of text_space_id ordered_frames =
     map (\<lambda>(fid, frame). \<lparr>ds_frame_id = fid, ds_collection_id = pf_collection_id frame,
        ds_text_space_id = text_space_id, ds_field_lengths = [pf_total_terms frame],
        ds_total_terms = pf_total_terms frame,
        ds_unique_terms = of_nat (length (pf_term_counts frame))\<rparr>) ordered_frames"

definition flat_key :: "flat_posting \<Rightarrow> u32 \<times> u64" where
  "flat_key p = (fst p, fst (snd p))"

text \<open>Step 4: contiguous runs of one term.\<close>
function term_runs :: "flat_posting list \<Rightarrow> (u32 \<times> flat_posting list) list" where
  "term_runs [] = []"
| "term_runs (p # ps) =
     (fst p, p # takeWhile (\<lambda>q. fst q = fst p) ps) # term_runs (dropWhile (\<lambda>q. fst q = fst p) ps)"
  by pat_completeness auto
termination
  by (relation "measure length") (auto simp: le_imp_less_Suc length_dropWhile_le)

definition posting_of :: "flat_posting \<Rightarrow> posting" where
  "posting_of p = (case p of (_, fid, cid, tf) \<Rightarrow>
     \<lparr>po_frame_id = fid, po_collection_id = cid, po_field_mask = 1, po_term_freq = tf,
      po_positions_ref = None\<rparr>)"

definition list_of_run :: "u32 \<times> flat_posting list \<Rightarrow> posting_list" where
  "list_of_run r = \<lparr>pl_term_id = fst r, pl_df = of_nat (length (snd r)),
     pl_postings = map posting_of (snd r)\<rparr>"

definition apply_list :: "posting_list \<Rightarrow> text_space_state \<Rightarrow> text_space_state" where
  "apply_list l st =
     (let tid = pl_term_id l;
          df = (case ts_df_by_term st tid of Some d \<Rightarrow> d | None \<Rightarrow> 0);
          cf = (case ts_cf_by_term st tid of Some c \<Rightarrow> c | None \<Rightarrow> 0);
          soa = (case ts_postings_by_term st tid of Some s \<Rightarrow> s | None \<Rightarrow> posting_list_soa_default)
      in st\<lparr>ts_df_by_term := (ts_df_by_term st)(tid \<mapsto> df + pl_df l),
            ts_cf_by_term := (ts_cf_by_term st)(tid \<mapsto> cf + collection_freq (pl_postings l)),
            ts_postings_by_term := (ts_postings_by_term st)(tid \<mapsto> fold soa_upsert (pl_postings l) soa)\<rparr>)"

definition dict_record :: "(u32 \<times> bytes) list \<Rightarrow> posting_list \<Rightarrow> term_dictionary_entry option" where
  "dict_record new_term_records l =
     map_option (\<lambda>bs. \<lparr>td_term_id = pl_term_id l, td_term_bytes = bs,
        td_collection_freq = collection_freq (pl_postings l), td_doc_freq = pl_df l\<rparr>)
       (map_of new_term_records (pl_term_id l))"

definition apply_doc_stats :: "doc_stats_entry \<Rightarrow> text_space_state \<Rightarrow> text_space_state" where
  "apply_doc_stats e st =
     (let st1 = record_doc_stats e st
      in st1\<lparr>ts_doc_stats := (ts_doc_stats st1)(ds_frame_id e \<mapsto> e)\<rparr>)"

record flush_output =
  fo_text_space_id :: u32
  fo_term_dict_segment :: bytes
  fo_term_dict_record_count :: u32
  fo_postings_segment :: bytes
  fo_postings_record_count :: u32
  fo_doc_stats_segment :: bytes
  fo_doc_stats_record_count :: u32

text \<open>Step 6.\<close>
definition encode_flush ::
  "u32 \<Rightarrow> segment_ref option \<Rightarrow> segment_ref option \<Rightarrow> segment_ref option \<Rightarrow>
     term_dictionary_entry list \<Rightarrow> posting_list list \<Rightarrow> doc_stats_entry list \<Rightarrow> flush_output result" where
  "encode_flush ts prior_dict prior_postings prior_doc_stats dict plists stats =
     rbind (encode_term_dictionary_segment \<lparr>tg_text_space_id = ts, tg_previous_root = prior_dict,
              tg_records = dict\<rparr>) (\<lambda>term_dict_segment.
     rbind (encode_postings_segment \<lparr>ps_text_space_id = ts, ps_previous_root = prior_postings,
              ps_posting_lists = plists\<rparr>) (\<lambda>postings_segment.
     rbind (encode_doc_stats_segment \<lparr>dg_text_space_id = ts, dg_previous_root = prior_doc_stats,
              dg_records = stats\<rparr>) (\<lambda>doc_stats_segment.
     Inr \<lparr>fo_text_space_id = ts, fo_term_dict_segment = term_dict_segment,
          fo_term_dict_record_count = of_nat (length dict), fo_postings_segment = postings_segment,
          fo_postings_record_count = of_nat (length plists), fo_doc_stats_segment = doc_stats_segment,
          fo_doc_stats_record_count = of_nat (length stats)\<rparr>)))"

text \<open>
  The state is updated in place, so it is returned beside the result, on errors too. The caller
  has taken the pending frames out of the handle before and drops them either way.
\<close>
definition build_flush_output ::
  "u32 \<Rightarrow> pending_frames \<Rightarrow> text_space_state \<Rightarrow> segment_ref option \<Rightarrow> segment_ref option \<Rightarrow>
     segment_ref option \<Rightarrow> flush_output result \<times> text_space_state" where
  "build_flush_output ts pending st prior_dict prior_postings prior_doc_stats =
     (let ordered_frames = sort_key fst pending in
      case assign_ids (new_terms st ordered_frames) st of
        (Inl e, st1) \<Rightarrow> (Inl e, st1)
      | (Inr new_term_records, st1) \<Rightarrow>
          (case flat_of st1 ordered_frames of
             Inl e \<Rightarrow> (Inl e, st1)
           | Inr flat \<Rightarrow>
               let plists = map list_of_run (term_runs (sort_key flat_key flat));
                   dict = List.map_filter (dict_record new_term_records) plists;
                   stats = doc_stats_of ts ordered_frames;
                   st2 = fold apply_doc_stats stats (fold apply_list plists st1)
               in (encode_flush ts prior_dict prior_postings prior_doc_stats dict plists stats, st2)))"

end
