(* ===== verification/TextFlush.thy ===== *)
theory TextFlush imports TextIndex begin

text \<open>
  The flush of a text space against its abstract index: a map from a term and a frame to the
  frequency, the collection and the fields of the occurrence.
\<close>

section \<open>Rows of a posting list\<close>

text \<open>A list as rows \<open>(frame, (frequency, collection, fields))\<close>, and the row of a frame.\<close>
definition soa_rows :: "posting_list_soa \<Rightarrow> (u64 \<times> u32 \<times> u32 \<times> u32) list" where
  "soa_rows l = zip (so_frame_ids l) (zip (so_term_freqs l) (zip (so_collection_ids l) (so_field_masks l)))"

definition pd_rows :: "posting_list_decoded \<Rightarrow> (u64 \<times> u32 \<times> u32 \<times> u32) list" where
  "pd_rows d = zip (pd_frame_ids d) (zip (pd_term_freqs d) (zip (pd_collection_ids d) (pd_field_masks d)))"

definition posting_row :: "posting \<Rightarrow> u64 \<times> u32 \<times> u32 \<times> u32" where
  "posting_row p = (po_frame_id p, po_term_freq p, po_collection_id p, po_field_mask p)"

definition soa_wf :: "posting_list_soa \<Rightarrow> bool" where
  "soa_wf l \<longleftrightarrow> strict_by (\<lambda>x. x) (so_frame_ids l) \<and>
     length (so_term_freqs l) = length (so_frame_ids l) \<and>
     length (so_collection_ids l) = length (so_frame_ids l) \<and>
     length (so_field_masks l) = length (so_frame_ids l)"

lemma bs_loop_map:
  "0 < sz \<Longrightarrow> base + sz \<le> length xs \<Longrightarrow> bs_loop key k xs base sz = bs_loop (\<lambda>x. x) k (map key xs) base sz"
proof (induction key k xs base sz rule: bs_loop.induct)
  case (1 key k xs base sz)
  show ?case
  proof (cases "sz \<le> 1")
    case True
    then show ?thesis by (subst (1 2) bs_loop.simps) simp
  next
    case False
    define half mid where "half = sz div 2" and "mid = base + half"
    have h: "0 < half" "half < sz" "mid < length xs" "0 < sz - half" "base + (sz - half) \<le> length xs"
      "mid + (sz - half) \<le> length xs"
      using False "1.prems" by (auto simp: half_def mid_def)
    have "bs_loop key k xs (if k < key (xs ! mid) then base else mid) (sz - half) =
        bs_loop (\<lambda>x. x) k (map key xs) (if k < key (xs ! mid) then base else mid) (sz - half)"
      using "1.IH" [OF False half_def mid_def] h by simp
    then show ?thesis
      using False h(3) unfolding half_def mid_def by (subst (1 2) bs_loop.simps) (simp add: Let_def)
  qed
qed

lemma binary_search_map:
  assumes "strict_by key xs"
  shows "binary_search_by_key key k xs = binary_search_by_key (\<lambda>x. x) k (map key xs)"
proof (cases "xs = []")
  case False
  then have "bs_loop key k xs 0 (length xs) = bs_loop (\<lambda>x. x) k (map key xs) 0 (length xs)"
    by (intro bs_loop_map) auto
  then show ?thesis
    using False bs_loop_full(1) [OF assms False refl, of k] by (simp add: binary_search_by_key_def Let_def)
qed (simp add: binary_search_by_key_def)

lemma zip_update: "zip (xs[i := a]) (ys[i := b]) = (zip xs ys)[i := (a, b)]"
  by (simp add: update_zip)

lemma zip_insert:
  "length xs = length ys \<Longrightarrow> zip (vec_insert i a xs) (vec_insert i b ys) = vec_insert i (a, b) (zip xs ys)"
  by (simp add: vec_insert_def zip_append take_zip drop_zip)

lemma length_vec_insert [simp]: "length (vec_insert i a xs) = Suc (length xs)"
  by (simp add: vec_insert_def)

lemma rows_frames: "soa_wf l \<Longrightarrow> map fst (soa_rows l) = so_frame_ids l"
  by (simp add: soa_rows_def soa_wf_def)

lemma rows_strict: "soa_wf l \<Longrightarrow> strict_by fst (soa_rows l)"
  using rows_frames by (simp add: strict_by_def soa_wf_def)

text \<open>The four parallel arrays move together: an upsert of the list is an upsert of its rows.\<close>
lemma soa_rows_upsert:
  assumes "soa_wf l"
  shows "soa_rows (soa_upsert p l) = upsert fst (posting_row p) (soa_rows l)" and "soa_wf (soa_upsert p l)"
proof -
  let ?k = "po_frame_id p" and ?fs = "so_frame_ids l"
  note len = assms [unfolded soa_wf_def]
  have bs: "binary_search_by_key fst (fst (posting_row p)) (soa_rows l) = binary_search_by_key (\<lambda>x. x) ?k ?fs"
    using binary_search_map [OF rows_strict [OF assms]] rows_frames [OF assms] by (simp add: posting_row_def)
  have ups: "strict_by (\<lambda>x. x) (upsert (\<lambda>x. x) ?k ?fs)"
    by (rule strict_by_upsert) (use len in simp)
  show "soa_rows (soa_upsert p l) = upsert fst (posting_row p) (soa_rows l)"
  proof (cases "binary_search_by_key (\<lambda>x. x) ?k ?fs")
    case (Inr i)
    have "i < length ?fs" "?fs ! i = ?k" using binary_search_found [OF _ Inr] len by auto
    then have fs: "?fs[i := ?k] = ?fs" using list_update_id [of ?fs i] by simp
    have z: "zip ?fs (zs[i := r]) = (zip ?fs zs)[i := (?k, r)]" for zs and r :: 'b
      using zip_update [of ?fs i ?k zs r] by (simp add: fs)
    show ?thesis
      by (simp add: upsert_def bs Inr) (simp add: soa_rows_def soa_upsert_def Inr zip_update z posting_row_def)
  next
    case (Inl i)
    show ?thesis
      by (simp add: upsert_def bs Inl)
        (use len in \<open>simp add: soa_upsert_def Inl soa_rows_def zip_insert posting_row_def\<close>)
  qed
  show "soa_wf (soa_upsert p l)"
  proof (cases "binary_search_by_key (\<lambda>x. x) ?k ?fs")
    case (Inr i)
    then show ?thesis using len by (simp add: soa_wf_def soa_upsert_def)
  next
    case (Inl i)
    then show ?thesis using len ups by (simp add: soa_wf_def soa_upsert_def upsert_def)
  qed
qed

definition row_at :: "posting_list_soa \<Rightarrow> u64 \<Rightarrow> (u32 \<times> u32 \<times> u32) option" where
  "row_at l f = map_of (soa_rows l) f"

lemma map_of_table: "map_of xs k = map_option snd (table_map fst xs k)"
  by (induction xs) (auto simp: table_map_def)

lemma row_at_upsert:
  assumes "soa_wf l"
  shows "row_at (soa_upsert p l) = (row_at l)(po_frame_id p \<mapsto> snd (posting_row p))"
  using table_map_upsert [OF rows_strict [OF assms], of "posting_row p"]
  by (auto simp: fun_eq_iff row_at_def map_of_table soa_rows_upsert(1) [OF assms] posting_row_def)

lemma soa_default: "soa_wf posting_list_soa_default" "row_at posting_list_soa_default f = None"
  by (simp_all add: soa_wf_def posting_list_soa_default_def row_at_def soa_rows_def)

lemma fold_upsert:
  "soa_wf l \<Longrightarrow> distinct (map po_frame_id ps) \<Longrightarrow>
   soa_wf (fold soa_upsert ps l) \<and>
   row_at (fold soa_upsert ps l) f =
     (case map_of (map posting_row ps) f of Some r \<Rightarrow> Some r | None \<Rightarrow> row_at l f)"
proof (induction ps arbitrary: l)
  case (Cons p ps)
  let ?m = "map_of (map posting_row ps)"
  have none: "?m (po_frame_id p) = None"
    using Cons.prems(2) by (force simp: map_of_eq_None_iff posting_row_def)
  have ih: "soa_wf (fold soa_upsert ps (soa_upsert p l))"
    "row_at (fold soa_upsert ps (soa_upsert p l)) f =
      (case ?m f of Some r \<Rightarrow> Some r | None \<Rightarrow> row_at (soa_upsert p l) f)"
    using Cons.IH [OF soa_rows_upsert(2) [OF Cons.prems(1)], of p] Cons.prems by auto
  have "map_of (map posting_row (p # ps)) f = (if f = po_frame_id p then Some (snd (posting_row p)) else ?m f)"
    by (simp add: posting_row_def)
  then show ?case
    using ih none row_at_upsert [OF Cons.prems(1), of p]
    by (cases "f = po_frame_id p") (simp_all del: list.map split: option.split)
qed simp

section \<open>Runs\<close>

lemma same_first:
  "sorted (map fst (p # ps)) \<Longrightarrow>
   takeWhile (\<lambda>q. fst q = fst p) ps = filter (\<lambda>q. fst q = fst p) ps \<and>
   dropWhile (\<lambda>q. fst q = fst p) ps = filter (\<lambda>q. fst q \<noteq> fst p) ps"
proof (induction ps)
  case (Cons q ps)
  show ?case
  proof (cases "fst q = fst p")
    case True
    then show ?thesis using Cons by simp
  next
    case False
    then have "fst p < fst q" and "\<forall>r\<in>set ps. fst q \<le> fst r" using Cons.prems by auto
    then have "\<forall>r\<in>set (q # ps). fst r \<noteq> fst p" by auto
    then show ?thesis by (simp add: filter_id_conv filter_empty_conv False)
  qed
qed simp

lemma term_runs_spec:
  "sorted (map fst ps) \<Longrightarrow>
   distinct (map fst (term_runs ps)) \<and> fst ` set (term_runs ps) = fst ` set ps \<and>
   (\<forall>(t, r)\<in>set (term_runs ps). r = filter (\<lambda>q. fst q = t) ps)"
proof (induction ps rule: term_runs.induct)
  case (2 p ps)
  note sf = same_first [OF "2.prems"]
  define rest where "rest = filter (\<lambda>q. fst q \<noteq> fst p) ps"
  have eq: "term_runs (p # ps) = (fst p, filter (\<lambda>q. fst q = fst p) (p # ps)) # term_runs rest"
    using sf by (simp add: rest_def)
  have "sorted (map fst rest)" unfolding rest_def using "2.prems" by (simp add: sorted_filter)
  then have ih: "distinct (map fst (term_runs rest))" "fst ` set (term_runs rest) = fst ` set rest"
    "\<forall>(t, r)\<in>set (term_runs rest). r = filter (\<lambda>q. fst q = t) rest"
    using "2.IH" unfolding conjunct2 [OF sf] rest_def [symmetric] by blast+
  have "r = filter (\<lambda>q. fst q = t) (p # ps)" if m: "(t, r) \<in> set (term_runs rest)" for t r
  proof -
    have "t \<in> fst ` set rest" using ih(2) m by (metis fst_conv imageI)
    then have ne: "t \<noteq> fst p" by (auto simp: rest_def)
    have "r = filter (\<lambda>q. fst q = t) rest" using ih(3) m by blast
    also have "\<dots> = filter (\<lambda>q. fst q = t) ps"
      unfolding rest_def filter_filter using ne by (intro filter_cong) auto
    finally show ?thesis using ne by simp
  qed
  moreover have new: "fst p \<notin> fst ` set (term_runs rest)" unfolding ih(2) by (auto simp: rest_def)
  moreover have "fst ` set (p # ps) = insert (fst p) (fst ` set rest)" by (auto simp: rest_def)
  ultimately show ?case
    unfolding eq using ih(1,2) by (auto simp only: list.map distinct.simps set_map list.set
        image_insert fst_conv prod.case)
qed simp

section \<open>Term ids\<close>

definition terms_ok :: "text_space_state \<Rightarrow> bool" where
  "terms_ok st \<longleftrightarrow>
     inj_on (ts_term_id_by_bytes st) (dom (ts_term_id_by_bytes st)) \<and>
     (\<forall>t i. ts_term_id_by_bytes st t = Some i \<longrightarrow> i < ts_next_term_id st)"

lemma terms_ok_insert:
  assumes "terms_ok st" and "ts_term_id_by_bytes st t = None" and "checked_add (ts_next_term_id st) 1 = Some n"
  shows "terms_ok (st\<lparr>ts_next_term_id := n, ts_term_id_by_bytes := (ts_term_id_by_bytes st)(t \<mapsto> ts_next_term_id st)\<rparr>)"
    and "ts_next_term_id st < n"
proof -
  have "unat n = Suc (unat (ts_next_term_id st))" using checked_add_unat [OF assms(3)] by simp
  then show lt: "ts_next_term_id st < n" by (simp add: word_less_nat_alt)
  have "ts_term_id_by_bytes st u \<noteq> Some (ts_next_term_id st)" for u
    using assms(1) by (auto simp: terms_ok_def)
  then have "inj_on ((ts_term_id_by_bytes st)(t \<mapsto> ts_next_term_id st)) (insert t (dom (ts_term_id_by_bytes st)))"
    using assms(1,2) by (auto simp: terms_ok_def inj_on_def)
  then show "terms_ok (st\<lparr>ts_next_term_id := n, ts_term_id_by_bytes := (ts_term_id_by_bytes st)(t \<mapsto> ts_next_term_id st)\<rparr>)"
    using assms(1) lt by (auto simp: terms_ok_def intro: less_trans)
qed

lemma assign_ids_spec:
  "assign_ids ts st = (Inr recs, st') \<Longrightarrow> terms_ok st \<Longrightarrow> distinct ts \<Longrightarrow>
   \<forall>t\<in>set ts. ts_term_id_by_bytes st t = None \<Longrightarrow>
   terms_ok st' \<and> ts_next_term_id st \<le> ts_next_term_id st' \<and> map snd recs = ts \<and>
   (\<forall>t. t \<notin> set ts \<longrightarrow> ts_term_id_by_bytes st' t = ts_term_id_by_bytes st t) \<and>
   (\<forall>(i, t)\<in>set recs. ts_term_id_by_bytes st' t = Some i \<and> ts_next_term_id st \<le> i) \<and>
   st' = st\<lparr>ts_next_term_id := ts_next_term_id st', ts_term_id_by_bytes := ts_term_id_by_bytes st'\<rparr>"
proof (induction ts arbitrary: st recs)
  case Nil
  then show ?case by auto
next
  case (Cons t ts)
  let ?i = "ts_next_term_id st"
  from Cons.prems(1) obtain n recs' where n: "checked_add ?i 1 = Some n"
    and a: "assign_ids ts (st\<lparr>ts_next_term_id := n, ts_term_id_by_bytes := (ts_term_id_by_bytes st)(t \<mapsto> ?i)\<rparr>)
      = (Inr recs', st')" and recs: "recs = (?i, t) # recs'"
    by (auto simp: Let_def rbind_Inr_iff split: option.splits prod.splits)
  note ins = terms_ok_insert [OF Cons.prems(2) _ n, of t]
  have t: "ts_term_id_by_bytes st t = None" using Cons.prems(4) by simp
  have ih: "terms_ok st' \<and> n \<le> ts_next_term_id st' \<and> map snd recs' = ts \<and>
   (\<forall>u. u \<notin> set ts \<longrightarrow> ts_term_id_by_bytes st' u = ((ts_term_id_by_bytes st)(t \<mapsto> ?i)) u) \<and>
   (\<forall>(i, u)\<in>set recs'. ts_term_id_by_bytes st' u = Some i \<and> n \<le> i) \<and>
   st' = st\<lparr>ts_next_term_id := ts_next_term_id st', ts_term_id_by_bytes := ts_term_id_by_bytes st'\<rparr>"
  proof -
    have "\<forall>u\<in>set ts. ((ts_term_id_by_bytes st)(t \<mapsto> ?i)) u = None" using Cons.prems(3,4) by auto
    then show ?thesis using Cons.IH [OF a ins(1) [OF t]] Cons.prems(3) by simp
  qed
  have le: "?i \<le> n" using ins(2) [OF t] by (rule less_imp_le)
  show ?case
    using ih le Cons.prems(3) unfolding recs by (auto intro: order_trans)
qed

section \<open>The inverted postings\<close>

definition frame_items :: "pending_frames \<Rightarrow> (u64 \<times> u32 \<times> bytes \<times> u32) list" where
  "frame_items frames = concat (map (\<lambda>(fid, frame). map (\<lambda>(t, tf). (fid, pf_collection_id frame, t, tf))
     (pf_term_counts frame)) frames)"

definition pending_ok :: "pending_frames \<Rightarrow> bool" where
  "pending_ok frames \<longleftrightarrow> distinct (map fst frames) \<and>
     (\<forall>(f, frame)\<in>set frames. distinct (map fst (pf_term_counts frame)))"

lemma set_frame_items:
  "(f, c, t, tf) \<in> set (frame_items frames) \<longleftrightarrow>
   (\<exists>frame. (f, frame) \<in> set frames \<and> c = pf_collection_id frame \<and> (t, tf) \<in> set (pf_term_counts frame))"
  by (force simp: frame_items_def)

lemma distinct_items:
  "pending_ok frames \<Longrightarrow> distinct (map (\<lambda>(f, c, t, tf). (f, t)) (frame_items frames))"
proof (induction frames)
  case (Cons p frames)
  obtain f frame where p: "p = (f, frame)" by (cases p)
  have "pending_ok frames" and f: "f \<notin> fst ` set frames" and d: "distinct (map fst (pf_term_counts frame))"
    using Cons.prems by (auto simp: pending_ok_def p)
  then have ih: "distinct (map (\<lambda>(f, c, t, tf). (f, t)) (frame_items frames))" by (intro Cons.IH)
  have "map (\<lambda>(f, c, t, tf). (f, t)) (frame_items (p # frames)) =
      map (Pair f) (map fst (pf_term_counts frame)) @ map (\<lambda>(f, c, t, tf). (f, t)) (frame_items frames)"
    by (simp add: frame_items_def p comp_def split_def)
  moreover have "distinct (map (Pair f) (map fst (pf_term_counts frame)))"
    using d by (simp only: distinct_map) (simp add: inj_on_def)
  moreover have "(f, c, t, tf) \<notin> set (frame_items frames)" for c t tf
    using f by (force simp: set_frame_items)
  ultimately show ?case using ih by auto
qed (simp add: frame_items_def)

lemma map_result_all2: "map_result g xs = Inr ys \<Longrightarrow> list_all2 (\<lambda>x y. g x = Inr y) xs ys"
  by (induction xs arbitrary: ys) (auto simp: rbind_Inr_iff)

text \<open>What the inversion yields, when the terms have distinct ids.\<close>
lemma flat_of_spec:
  assumes "flat_of st frames = Inr flat" and "pending_ok frames"
    and "inj_on (lookup_term st) (dom (lookup_term st))"
  shows "(tid, f, c, tf) \<in> set flat \<longleftrightarrow>
      (\<exists>t. (f, c, t, tf) \<in> set (frame_items frames) \<and> lookup_term st t = Some tid)"
    and "distinct (map flat_key flat)"
proof -
  define R where "R = (\<lambda>x y. (case x of (f, c, t, tf) \<Rightarrow> \<exists>tid. lookup_term st t = Some tid \<and> y = (tid :: u32, f :: u64, c :: u32, tf :: u32)))"
  have R [simp]: "R (f, c, t, tf) y \<longleftrightarrow> (\<exists>tid. lookup_term st t = Some tid \<and> y = (tid, f, c, tf))" for f c t tf y
    by (simp add: R_def)
  have all: "list_all2 R (frame_items frames) flat"
    using map_result_all2 [OF assms(1) [unfolded flat_of_def], folded frame_items_def]
    by (rule list_all2_mono) (auto simp: rbind_Inr_iff)
  note nth = list_all2_nthD [OF all] and len = list_all2_lengthD [OF all]
  show "(tid, f, c, tf) \<in> set flat \<longleftrightarrow>
      (\<exists>t. (f, c, t, tf) \<in> set (frame_items frames) \<and> lookup_term st t = Some tid)"
  proof
    assume "(tid, f, c, tf) \<in> set flat"
    then obtain i where i: "i < length flat" "flat ! i = (tid, f, c, tf)" by (auto simp: in_set_conv_nth)
    then have r: "R (frame_items frames ! i) (tid, f, c, tf)" using nth [of i] len by simp
    obtain f' c' t' tf' where e: "frame_items frames ! i = (f', c', t', tf')" by (metis surj_pair)
    have "frame_items frames ! i \<in> set (frame_items frames)"
      using i(1) len by simp
    then show "\<exists>t. (f, c, t, tf) \<in> set (frame_items frames) \<and> lookup_term st t = Some tid"
      using r unfolding e by auto
  next
    assume "\<exists>t. (f, c, t, tf) \<in> set (frame_items frames) \<and> lookup_term st t = Some tid"
    then obtain t i where i: "i < length (frame_items frames)" "frame_items frames ! i = (f, c, t, tf)"
      and t: "lookup_term st t = Some tid" by (auto simp: in_set_conv_nth)
    then have "R (f, c, t, tf) (flat ! i)" using nth [of i] by simp
    moreover have "i < length flat" using i(1) len by simp
    ultimately show "(tid, f, c, tf) \<in> set flat" using t by (auto simp: in_set_conv_nth)
  qed
  have keys: "map flat_key flat = map (\<lambda>(f, t). (the (lookup_term st t), f)) (map (\<lambda>(f, c, t, tf). (f, t)) (frame_items frames))"
    using all by (induction rule: list_all2_induct) (auto simp: flat_key_def)
  have dom: "t \<in> dom (lookup_term st)" if "(f, c, t, tf) \<in> set (frame_items frames)" for f c t tf
  proof -
    obtain i where "i < length (frame_items frames)" "frame_items frames ! i = (f, c, t, tf)"
      using \<open>(f, c, t, tf) \<in> set (frame_items frames)\<close> by (auto simp: in_set_conv_nth)
    then have "R (f, c, t, tf) (flat ! i)" using nth [of i] by simp
    then show ?thesis by auto
  qed
  have "inj_on (\<lambda>(f, t). (the (lookup_term st t), f)) (set (map (\<lambda>(f, c, t, tf). (f, t)) (frame_items frames)))"
  proof (rule inj_onI)
    fix x y
    assume x: "x \<in> set (map (\<lambda>(f, c, t, tf). (f, t)) (frame_items frames))"
      and y: "y \<in> set (map (\<lambda>(f, c, t, tf). (f, t)) (frame_items frames))"
      and e: "(\<lambda>(f, t). (the (lookup_term st t), f)) x = (\<lambda>(f, t). (the (lookup_term st t), f)) y"
    obtain f t f' t' where xy: "x = (f, t)" "y = (f', t')" by (cases x, cases y)
    obtain c tf c' tf' where "(f, c, t, tf) \<in> set (frame_items frames)" "(f', c', t', tf') \<in> set (frame_items frames)"
      using x y unfolding xy by auto
    then have "t \<in> dom (lookup_term st)" "t' \<in> dom (lookup_term st)" using dom by blast+
    moreover have "the (lookup_term st t) = the (lookup_term st t')" "f = f'" using e xy by auto
    ultimately have "lookup_term st t = lookup_term st t'" by (metis domIff option.collapse)
    then have "t = t'" by (rule inj_onD [OF assms(3)]) fact+
    then show "x = y" using xy \<open>f = f'\<close> by simp
  qed
  then show "distinct (map flat_key flat)"
    unfolding keys using distinct_items [OF assms(2)] by (simp only: distinct_map)
qed

section \<open>The abstract index\<close>

text \<open>A handle that never loaded postings from the file: everything is in memory.\<close>
definition live_inv :: "text_space_state \<Rightarrow> bool" where
  "live_inv st \<longleftrightarrow> ts_sorted_terms st = [] \<and> ts_single_segment_dir_index st = [] \<and>
     ts_postings_locator st = Map.empty \<and> terms_ok st \<and>
     (\<forall>tid l. ts_postings_by_term st tid = Some l \<longrightarrow> soa_wf l \<and> tid < ts_next_term_id st)"

text \<open>What a query finds for a term and a frame.\<close>
definition found_row :: "text_space_state \<Rightarrow> bytes \<Rightarrow> u64 \<Rightarrow> (u32 \<times> u32 \<times> u32) option" where
  "found_row st t f =
     (case lookup_term st t of
        None \<Rightarrow> None
      | Some tid \<Rightarrow> (case lookup_postings st tid of
          Inr (Some (Sparse d)) \<Rightarrow> map_of (pd_rows d) f
        | _ \<Rightarrow> None))"

definition memory_row :: "text_space_state \<Rightarrow> u32 \<Rightarrow> u64 \<Rightarrow> (u32 \<times> u32 \<times> u32) option" where
  "memory_row st tid f = (case ts_postings_by_term st tid of None \<Rightarrow> None | Some l \<Rightarrow> row_at l f)"

lemma lookup_term_live: "ts_sorted_terms st = [] \<Longrightarrow> lookup_term st = ts_term_id_by_bytes st"
  by (simp add: lookup_term_def fun_eq_iff)

lemma lookup_postings_live:
  "ts_single_segment_dir_index st = [] \<Longrightarrow> ts_postings_locator st tid = None \<Longrightarrow>
   lookup_postings st tid = Inr (case ts_postings_by_term st tid of None \<Rightarrow> None
     | Some p \<Rightarrow> if so_frame_ids p = [] then None else Some (Sparse (soa_decoded tid p)))"
  by (simp add: lookup_postings_def single_entry_def)

lemma found_row_live:
  assumes "live_inv st"
  shows "found_row st t f = (case ts_term_id_by_bytes st t of None \<Rightarrow> None | Some tid \<Rightarrow> memory_row st tid f)"
  using assms
  by (auto simp: found_row_def live_inv_def lookup_term_live lookup_postings_live memory_row_def
      row_at_def soa_rows_def pd_rows_def soa_decoded_def split: option.splits)

lemma apply_list_simps [simp]:
  "ts_sorted_terms (apply_list l st) = ts_sorted_terms st"
  "ts_single_segment_dir_index (apply_list l st) = ts_single_segment_dir_index st"
  "ts_postings_locator (apply_list l st) = ts_postings_locator st"
  "ts_term_id_by_bytes (apply_list l st) = ts_term_id_by_bytes st"
  "ts_next_term_id (apply_list l st) = ts_next_term_id st"
  "ts_postings_segments (apply_list l st) = ts_postings_segments st"
  "ts_term_dict_blobs (apply_list l st) = ts_term_dict_blobs st"
  by (simp_all add: apply_list_def Let_def)

lemma apply_lists_simps [simp]:
  "ts_sorted_terms (fold apply_list ls st) = ts_sorted_terms st"
  "ts_single_segment_dir_index (fold apply_list ls st) = ts_single_segment_dir_index st"
  "ts_postings_locator (fold apply_list ls st) = ts_postings_locator st"
  "ts_term_id_by_bytes (fold apply_list ls st) = ts_term_id_by_bytes st"
  "ts_next_term_id (fold apply_list ls st) = ts_next_term_id st"
  "ts_postings_segments (fold apply_list ls st) = ts_postings_segments st"
  "ts_term_dict_blobs (fold apply_list ls st) = ts_term_dict_blobs st"
  by (induction ls arbitrary: st) simp_all

lemma apply_doc_stats_simps [simp]:
  "ts_sorted_terms (apply_doc_stats e st) = ts_sorted_terms st"
  "ts_single_segment_dir_index (apply_doc_stats e st) = ts_single_segment_dir_index st"
  "ts_postings_locator (apply_doc_stats e st) = ts_postings_locator st"
  "ts_term_id_by_bytes (apply_doc_stats e st) = ts_term_id_by_bytes st"
  "ts_next_term_id (apply_doc_stats e st) = ts_next_term_id st"
  "ts_postings_segments (apply_doc_stats e st) = ts_postings_segments st"
  "ts_term_dict_blobs (apply_doc_stats e st) = ts_term_dict_blobs st"
  "ts_postings_by_term (apply_doc_stats e st) = ts_postings_by_term st"
  by (simp_all add: apply_doc_stats_def record_doc_stats_def ensure_frame_capacity_def Let_def)

lemma apply_stats_simps [simp]:
  "ts_sorted_terms (fold apply_doc_stats es st) = ts_sorted_terms st"
  "ts_single_segment_dir_index (fold apply_doc_stats es st) = ts_single_segment_dir_index st"
  "ts_postings_locator (fold apply_doc_stats es st) = ts_postings_locator st"
  "ts_term_id_by_bytes (fold apply_doc_stats es st) = ts_term_id_by_bytes st"
  "ts_next_term_id (fold apply_doc_stats es st) = ts_next_term_id st"
  "ts_postings_segments (fold apply_doc_stats es st) = ts_postings_segments st"
  "ts_term_dict_blobs (fold apply_doc_stats es st) = ts_term_dict_blobs st"
  "ts_postings_by_term (fold apply_doc_stats es st) = ts_postings_by_term st"
  by (induction es arbitrary: st) simp_all

definition soa_at :: "text_space_state \<Rightarrow> u32 \<Rightarrow> posting_list_soa" where
  "soa_at st tid = (case ts_postings_by_term st tid of Some s \<Rightarrow> s | None \<Rightarrow> posting_list_soa_default)"

lemma apply_lists_postings:
  "distinct (map pl_term_id ls) \<Longrightarrow>
   ts_postings_by_term (fold apply_list ls st) tid =
     (case find (\<lambda>l. pl_term_id l = tid) ls of
        Some l \<Rightarrow> Some (fold soa_upsert (pl_postings l) (soa_at st tid))
      | None \<Rightarrow> ts_postings_by_term st tid)"
proof (induction ls arbitrary: st)
  case (Cons l ls)
  have "find (\<lambda>l. pl_term_id l = tid) ls = None" if "pl_term_id l = tid"
    using Cons.prems that by (auto simp: find_None_iff) (metis imageI)
  moreover have "soa_at (apply_list l st) tid = soa_at st tid" if "pl_term_id l \<noteq> tid"
    using that by (simp add: soa_at_def apply_list_def Let_def)
  ultimately show ?case
    using Cons by (auto simp: apply_list_def Let_def soa_at_def split: option.splits)
qed simp

text \<open>The lists a flush makes of the inverted postings.\<close>
definition lists_of :: "flat_posting list \<Rightarrow> posting_list list" where
  "lists_of flat = map list_of_run (term_runs (sort_key flat_key flat))"

lemma lists_of_spec:
  assumes "distinct (map flat_key flat)"
  shows "distinct (map pl_term_id (lists_of flat))"
    and "l \<in> set (lists_of flat) \<Longrightarrow> distinct (map po_frame_id (pl_postings l)) \<and>
      (\<forall>f c tf. (f, (tf, c, 1)) \<in> posting_row ` set (pl_postings l) \<longleftrightarrow> (pl_term_id l, f, c, tf) \<in> set flat) \<and>
      (\<forall>p\<in>set (pl_postings l). po_field_mask p = 1) \<and> sorted (map po_frame_id (pl_postings l))"
    and "(\<exists>l\<in>set (lists_of flat). pl_term_id l = tid) \<longleftrightarrow> tid \<in> fst ` set flat"
proof -
  let ?s = "sort_key flat_key flat"
  have sk: "sorted (map flat_key ?s)" by simp
  have "fst x \<le> fst y" if "flat_key x \<le> flat_key y" for x y
    using that by (auto simp: flat_key_def less_eq_prod_def)
  then have "sorted (map fst ?s)"
    using sk by (auto simp: sorted_map elim!: sorted_wrt_mono_rel [rotated])
  note runs = term_runs_spec [OF this]
  have ids: "map pl_term_id (lists_of flat) = map fst (term_runs ?s)"
    by (simp add: lists_of_def list_of_run_def)
  show "distinct (map pl_term_id (lists_of flat))" unfolding ids using runs by blast
  have "set (map pl_term_id (lists_of flat)) = fst ` set ?s" unfolding ids using runs by simp
  then show "(\<exists>l\<in>set (lists_of flat). pl_term_id l = tid) \<longleftrightarrow> tid \<in> fst ` set flat"
    by (simp only: set_map set_sort) (metis imageE imageI)
  assume "l \<in> set (lists_of flat)"
  then obtain t r where tr: "(t, r) \<in> set (term_runs ?s)" and l: "l = list_of_run (t, r)"
    by (auto simp: lists_of_def)
  have r: "r = filter (\<lambda>q. fst q = t) ?s" using runs tr by blast
  have d: "distinct (map flat_key ?s)" using assms by (simp add: distinct_map)
  have "distinct (map flat_key r)" unfolding r by (rule distinct_map_filter [OF d])
  moreover have "map flat_key r = map (Pair t) (map po_frame_id (map posting_of r))"
    unfolding r by (auto simp: flat_key_def posting_of_def split: prod.split)
  ultimately have fr: "distinct (map po_frame_id (map posting_of r))" and
    keys: "map flat_key r = map (Pair t) (map po_frame_id (map posting_of r))" by (simp_all only: distinct_map)
  have "sorted (map flat_key r)" unfolding r using sk by (rule sorted_filter)
  then have so: "sorted (map po_frame_id (map posting_of r))"
    unfolding keys by (auto simp: sorted_map less_eq_prod_def elim!: sorted_wrt_mono_rel [rotated])
  have "(f, (tf, c, 1)) \<in> posting_row ` set (map posting_of r) \<longleftrightarrow> (t, f, c, tf) \<in> set flat" for f c tf
    unfolding r by (force simp: posting_row_def posting_of_def split: prod.splits)
  moreover have "\<forall>p\<in>set (map posting_of r). po_field_mask p = 1"
    by (auto simp: posting_of_def split: prod.split)
  ultimately show "distinct (map po_frame_id (pl_postings l)) \<and>
      (\<forall>f c tf. (f, (tf, c, 1)) \<in> posting_row ` set (pl_postings l) \<longleftrightarrow> (pl_term_id l, f, c, tf) \<in> set flat) \<and>
      (\<forall>p\<in>set (pl_postings l). po_field_mask p = 1) \<and> sorted (map po_frame_id (pl_postings l))"
    using fr so by (simp add: l list_of_run_def)
qed

section \<open>A flush is the newest-wins update\<close>

lemma flush_steps:
  assumes "build_flush_output ts pending st r1 r2 r3 = (Inr out, st')"
  obtains recs st1 flat where "assign_ids (new_terms st (sort_key fst pending)) st = (Inr recs, st1)"
    and "flat_of st1 (sort_key fst pending) = Inr flat"
    and "st' = fold apply_doc_stats (doc_stats_of ts (sort_key fst pending)) (fold apply_list (lists_of flat) st1)"
    and "encode_flush ts r1 r2 r3 (List.map_filter (dict_record recs) (lists_of flat)) (lists_of flat)
      (doc_stats_of ts (sort_key fst pending)) = Inr out"
  using assms that by (auto simp: build_flush_output_def Let_def lists_of_def split: prod.splits sum.splits)

lemma pending_sorted: "pending_ok pending \<Longrightarrow> pending_ok (sort_key fst pending)"
  by (simp add: pending_ok_def distinct_map)

lemma new_terms_spec:
  "distinct (new_terms st frames)"
  "t \<in> set (new_terms st frames) \<longleftrightarrow> lookup_term st t = None \<and> (\<exists>f c tf. (f, c, t, tf) \<in> set (frame_items frames))"
  by (force simp: new_terms_def frame_items_def)+

text \<open>The row a frame of the batch has for a term.\<close>
definition pending_row :: "pending_frames \<Rightarrow> bytes \<Rightarrow> u64 \<Rightarrow> (u32 \<times> u32 \<times> u32) option" where
  "pending_row pending t f =
     (case map_of pending f of
        None \<Rightarrow> None
      | Some frame \<Rightarrow> map_option (\<lambda>tf. (tf, pf_collection_id frame, 1)) (map_of (pf_term_counts frame) t))"

lemma pending_row_items:
  assumes "pending_ok pending"
  shows "pending_row pending t f = Some r \<longleftrightarrow> (\<exists>c tf. r = (tf, c, 1) \<and> (f, c, t, tf) \<in> set (frame_items pending))"
proof -
  have d: "distinct (map fst pending)" and c: "(f, frame) \<in> set pending \<Longrightarrow> distinct (map fst (pf_term_counts frame))"
    for frame using assms by (auto simp: pending_ok_def)
  show ?thesis
  proof (cases "map_of pending f")
    case None
    then have "(f, frame) \<notin> set pending" for frame by (auto simp: map_of_eq_None_iff image_iff)
    then show ?thesis by (simp add: pending_row_def None set_frame_items)
  next
    case (Some frame)
    have m: "(f, fr) \<in> set pending \<longleftrightarrow> fr = frame" for fr
      unfolding map_of_eq_Some_iff [OF d, symmetric] using Some by auto
    have "map_of (pf_term_counts frame) t = Some tf \<longleftrightarrow> (t, tf) \<in> set (pf_term_counts frame)" for tf
      using c m by (intro map_of_eq_Some_iff) simp
    then show ?thesis by (auto simp: pending_row_def Some set_frame_items m)
  qed
qed

text \<open>What a successful flush of a live handle did.\<close>
lemma flush_facts:
  assumes inv: "live_inv st" and ok: "pending_ok pending"
    and fl: "build_flush_output ts pending st r1 r2 r3 = (Inr out, st')"
  obtains recs st1 flat where
    "st' = fold apply_doc_stats (doc_stats_of ts (sort_key fst pending)) (fold apply_list (lists_of flat) st1)"
    and "encode_flush ts r1 r2 r3 (List.map_filter (dict_record recs) (lists_of flat)) (lists_of flat)
      (doc_stats_of ts (sort_key fst pending)) = Inr out"
    and "terms_ok st1 \<and> ts_next_term_id st \<le> ts_next_term_id st1 \<and> map snd recs = new_terms st (sort_key fst pending) \<and>
     (\<forall>t. t \<notin> set (new_terms st (sort_key fst pending)) \<longrightarrow> ts_term_id_by_bytes st1 t = ts_term_id_by_bytes st t) \<and>
     (\<forall>(i, t)\<in>set recs. ts_term_id_by_bytes st1 t = Some i \<and> ts_next_term_id st \<le> i) \<and>
     st1 = st\<lparr>ts_next_term_id := ts_next_term_id st1, ts_term_id_by_bytes := ts_term_id_by_bytes st1\<rparr>"
    and "\<And>tid f c tf. (tid, f, c, tf) \<in> set flat \<longleftrightarrow>
      (\<exists>t. (f, c, t, tf) \<in> set (frame_items (sort_key fst pending)) \<and> ts_term_id_by_bytes st1 t = Some tid)"
    and "distinct (map flat_key flat)"
proof -
  let ?ord = "sort_key fst pending"
  from fl obtain recs st1 flat where a: "assign_ids (new_terms st ?ord) st = (Inr recs, st1)"
    and fo: "flat_of st1 ?ord = Inr flat"
    and st': "st' = fold apply_doc_stats (doc_stats_of ts ?ord) (fold apply_list (lists_of flat) st1)"
    and enc: "encode_flush ts r1 r2 r3 (List.map_filter (dict_record recs) (lists_of flat)) (lists_of flat)
      (doc_stats_of ts ?ord) = Inr out"
    by (rule flush_steps)
  have lk: "lookup_term st = ts_term_id_by_bytes st" using inv by (simp add: live_inv_def lookup_term_live)
  have as: "terms_ok st1 \<and> ts_next_term_id st \<le> ts_next_term_id st1 \<and> map snd recs = new_terms st ?ord \<and>
     (\<forall>t. t \<notin> set (new_terms st ?ord) \<longrightarrow> ts_term_id_by_bytes st1 t = ts_term_id_by_bytes st t) \<and>
     (\<forall>(i, t)\<in>set recs. ts_term_id_by_bytes st1 t = Some i \<and> ts_next_term_id st \<le> i) \<and>
     st1 = st\<lparr>ts_next_term_id := ts_next_term_id st1, ts_term_id_by_bytes := ts_term_id_by_bytes st1\<rparr>"
    using inv by (intro assign_ids_spec [OF a]) (auto simp: live_inv_def new_terms_spec lk)
  then have tok: "terms_ok st1" and e: "st1 = st\<lparr>ts_next_term_id := ts_next_term_id st1,
      ts_term_id_by_bytes := ts_term_id_by_bytes st1\<rparr>" by blast+
  have "ts_sorted_terms st1 = []" using inv arg_cong [OF e, of ts_sorted_terms] by (simp add: live_inv_def)
  then have lk1: "lookup_term st1 = ts_term_id_by_bytes st1" by (rule lookup_term_live)
  have inj: "inj_on (lookup_term st1) (dom (lookup_term st1))" using tok by (simp add: lk1 terms_ok_def)
  show ?thesis
    by (rule that [OF st' enc as flat_of_spec [OF fo pending_sorted [OF ok] inj, unfolded lk1]])
qed

lemma flush_live:
  assumes inv: "live_inv st" and ok: "pending_ok pending"
    and fl: "build_flush_output ts pending st r1 r2 r3 = (Inr out, st')"
  shows "live_inv st'" and "found_row st' t f =
    (case pending_row pending t f of Some r \<Rightarrow> Some r | None \<Rightarrow> found_row st t f)"
proof -
  let ?ord = "sort_key fst pending"
  obtain recs st1 flat where
    st': "st' = fold apply_doc_stats (doc_stats_of ts ?ord) (fold apply_list (lists_of flat) st1)"
    and "encode_flush ts r1 r2 r3 (List.map_filter (dict_record recs) (lists_of flat)) (lists_of flat)
      (doc_stats_of ts ?ord) = Inr out"
    and as: "terms_ok st1 \<and> ts_next_term_id st \<le> ts_next_term_id st1 \<and> map snd recs = new_terms st ?ord \<and>
     (\<forall>t. t \<notin> set (new_terms st ?ord) \<longrightarrow> ts_term_id_by_bytes st1 t = ts_term_id_by_bytes st t) \<and>
     (\<forall>(i, t)\<in>set recs. ts_term_id_by_bytes st1 t = Some i \<and> ts_next_term_id st \<le> i) \<and>
     st1 = st\<lparr>ts_next_term_id := ts_next_term_id st1, ts_term_id_by_bytes := ts_term_id_by_bytes st1\<rparr>"
    and flat: "\<And>tid f c tf. (tid, f, c, tf) \<in> set flat \<longleftrightarrow>
      (\<exists>t. (f, c, t, tf) \<in> set (frame_items ?ord) \<and> ts_term_id_by_bytes st1 t = Some tid)" "distinct (map flat_key flat)"
    by (rule flush_facts [OF inv ok fl], rule that) assumption+
  note oks = pending_sorted [OF ok]
  have lk: "lookup_term st = ts_term_id_by_bytes st" using inv by (simp add: live_inv_def lookup_term_live)
  from as have tok: "terms_ok st1" and e: "st1 = st\<lparr>ts_next_term_id := ts_next_term_id st1,
      ts_term_id_by_bytes := ts_term_id_by_bytes st1\<rparr>" by blast+
  have keep: "ts_sorted_terms st1 = []" "ts_single_segment_dir_index st1 = []"
    "ts_postings_locator st1 = Map.empty" "ts_postings_by_term st1 = ts_postings_by_term st"
    using inv arg_cong [OF e, of ts_sorted_terms] arg_cong [OF e, of ts_single_segment_dir_index]
      arg_cong [OF e, of ts_postings_locator] arg_cong [OF e, of ts_postings_by_term]
    by (simp_all add: live_inv_def)
  have inj: "inj_on (ts_term_id_by_bytes st1) (dom (ts_term_id_by_bytes st1))" using tok by (simp add: terms_ok_def)
  note ls = lists_of_spec [OF flat(2)]
  have post: "ts_postings_by_term st' tid = (case find (\<lambda>l. pl_term_id l = tid) (lists_of flat) of
      Some l \<Rightarrow> Some (fold soa_upsert (pl_postings l) (soa_at st tid)) | None \<Rightarrow> ts_postings_by_term st tid)" for tid
    by (simp add: st' apply_lists_postings [OF ls(1)] soa_at_def keep(4) cong: option.case_cong)
  have tid_new: "tid < ts_next_term_id st1" if "(tid, g, c, tf) \<in> set flat" for tid g c tf
    using that flat(1) tok by (auto simp: terms_ok_def)
  have "ts_next_term_id st \<le> ts_next_term_id st1" using as by blast
  then have old: "soa_wf (soa_at st tid) \<and> (ts_postings_by_term st tid \<noteq> None \<longrightarrow> tid < ts_next_term_id st1)" for tid
    using inv by (auto simp: live_inv_def soa_at_def soa_default split: option.splits)
      (meson less_le_trans)
  have wf: "soa_wf l \<and> tid < ts_next_term_id st1" if "ts_postings_by_term st' tid = Some l" for tid l
  proof (cases "find (\<lambda>l. pl_term_id l = tid) (lists_of flat)")
    case None
    then have "ts_postings_by_term st tid = Some l" using that by (simp add: post)
    then show ?thesis using old [of tid] by (simp add: soa_at_def)
  next
    case (Some m)
    then have m: "m \<in> set (lists_of flat)" "pl_term_id m = tid" by (auto simp: find_Some_iff)
    have "distinct (map po_frame_id (pl_postings m))" using ls(2) [OF m(1)] by blast
    then have "soa_wf l" using that fold_upsert old by (auto simp: post Some)
    moreover have "tid \<in> fst ` set flat" using ls(3) m by blast
    ultimately show ?thesis using tid_new by force
  qed
  show inv': "live_inv st'"
    using wf tok keep by (simp add: live_inv_def st' terms_ok_def)
  have base: "row_at (soa_at st tid) f = memory_row st tid f" for tid
    by (simp add: soa_at_def memory_row_def soa_default split: option.split)
  have recs: "\<exists>i. ts_term_id_by_bytes st1 t = Some i \<and> ts_next_term_id st \<le> i"
    if "t \<in> set (new_terms st ?ord)" for t
  proof -
    have "t \<in> snd ` set recs" using that as by (metis list.set_map)
    then obtain i where "(i, t) \<in> set recs" by auto
    then show ?thesis using as by blast
  qed
  have item: "\<exists>tid. ts_term_id_by_bytes st1 t = Some tid" if i: "(f, c, t, tf) \<in> set (frame_items ?ord)" for c tf
  proof (cases "ts_term_id_by_bytes st t")
    case None
    then have "t \<in> set (new_terms st ?ord)" using i by (auto simp: new_terms_spec lk)
    then show ?thesis using recs by blast
  next
    case (Some tid)
    then have "t \<notin> set (new_terms st ?ord)" by (simp add: new_terms_spec lk)
    then show ?thesis using as Some by simp
  qed
  have row: "memory_row st' tid f = (case pending_row ?ord t f of Some r \<Rightarrow> Some r | None \<Rightarrow> memory_row st tid f)"
    if t: "ts_term_id_by_bytes st1 t = Some tid" for tid
  proof -
    have same: "t' = t" if "ts_term_id_by_bytes st1 t' = Some tid" for t'
      using inj_onD [OF inj, of t' t] t that by (simp add: domI)
    have pr: "pending_row ?ord t f = Some r \<longleftrightarrow> (\<exists>c tf. r = (tf, c, 1) \<and> (tid, f, c, tf) \<in> set flat)" for r
      unfolding pending_row_items [OF oks] flat(1) using t same by blast
    show ?thesis
    proof (cases "find (\<lambda>l. pl_term_id l = tid) (lists_of flat)")
      case None
      then have "tid \<notin> fst ` set flat" using ls(3) [of tid] by (auto simp: find_None_iff)
      then have "pending_row ?ord t f \<noteq> Some r" for r unfolding pr by force
      then have "pending_row ?ord t f = None" by (cases "pending_row ?ord t f") auto
      then show ?thesis by (simp add: memory_row_def post None)
    next
      case (Some m)
      then have m: "m \<in> set (lists_of flat)" "pl_term_id m = tid" by (auto simp: find_Some_iff)
      note lm = ls(2) [OF m(1)]
      let ?ps = "pl_postings m"
      have d: "distinct (map fst (map posting_row ?ps))" using lm by (simp add: posting_row_def comp_def)
      have "map_of (map posting_row ?ps) f = Some r \<longleftrightarrow> pending_row ?ord t f = Some r" for r
      proof -
        obtain tf c k where r: "r = (tf, c, k)" by (cases r)
        have "map_of (map posting_row ?ps) f = Some r \<longleftrightarrow> (f, r) \<in> posting_row ` set ?ps"
          by (simp add: map_of_eq_Some_iff [OF d])
        also have "\<dots> \<longleftrightarrow> k = 1 \<and> (f, (tf, c, 1)) \<in> posting_row ` set ?ps"
          using lm unfolding r by (auto simp: posting_row_def)
        also have "\<dots> \<longleftrightarrow> k = 1 \<and> (tid, f, c, tf) \<in> set flat" using lm m(2) by simp
        also have "\<dots> \<longleftrightarrow> pending_row ?ord t f = Some r" unfolding pr r by auto
        finally show ?thesis .
      qed
      then have eq: "map_of (map posting_row ?ps) f = pending_row ?ord t f"
        by (metis not_None_eq)
      have "row_at (fold soa_upsert ?ps (soa_at st tid)) f =
          (case map_of (map posting_row ?ps) f of Some r \<Rightarrow> Some r | None \<Rightarrow> row_at (soa_at st tid) f)"
        using fold_upsert [of "soa_at st tid" ?ps f] old [of tid] lm by blast
      then show ?thesis by (simp add: memory_row_def [of st'] post Some eq base cong: option.case_cong)
    qed
  qed
  have tm: "ts_term_id_by_bytes st' = ts_term_id_by_bytes st1" by (simp add: st')
  have pend: "pending_row ?ord t f = pending_row pending t f"
  proof -
    have "map_of ?ord = map_of pending"
      using ok oks by (intro map_of_eqI) (auto simp: pending_ok_def map_of_eq_Some_iff)
    then show ?thesis by (simp add: pending_row_def)
  qed
  show "found_row st' t f = (case pending_row pending t f of Some r \<Rightarrow> Some r | None \<Rightarrow> found_row st t f)"
  proof (cases "ts_term_id_by_bytes st1 t")
    case None
    have "pending_row ?ord t f \<noteq> Some r" for r using item None by (auto simp: pending_row_items [OF oks])
    then have p: "pending_row pending t f = None" unfolding pend by (metis not_None_eq)
    have "ts_term_id_by_bytes st t = None"
      using as None recs [of t] by (cases "t \<in> set (new_terms st ?ord)") auto
    then show ?thesis
      using None p by (simp add: found_row_live [OF inv'] found_row_live [OF inv] tm)
  next
    case (Some tid)
    have "found_row st t f = memory_row st tid f"
    proof (cases "t \<in> set (new_terms st ?ord)")
      case True
      then have n: "ts_term_id_by_bytes st t = None" by (simp add: new_terms_spec lk)
      have "ts_next_term_id st \<le> tid" using recs [OF True] Some by simp
      then have "ts_postings_by_term st tid = None"
        using inv by (auto simp: live_inv_def) (meson leD not_None_eq)
      then show ?thesis by (simp add: found_row_live [OF inv] n memory_row_def)
    next
      case False
      then have "ts_term_id_by_bytes st t = Some tid" using as Some by simp
      then show ?thesis by (simp add: found_row_live [OF inv])
    qed
    then show ?thesis
      using row [OF Some] Some by (simp add: found_row_live [OF inv'] tm pend [symmetric] cong: option.case_cong)
  qed
qed

text \<open>C8: Text indexing is newest-wins: on a handle whose text index is in memory, after a
  successful flush a lookup finds for every term and every frame the row of the batch (the
  frequency the frame's tokens have, its collection) when the batch holds that frame with that
  term, and otherwise exactly what it found before; term ids stay unique and the lists sorted.\<close>
theorem flush_newest_wins:
  assumes "live_inv st" and "pending_ok pending"
    and "build_flush_output ts pending st prior_dict prior_postings prior_stats = (Inr out, st')"
  shows "live_inv st' \<and> (\<forall>t f. found_row st' t f =
    (case pending_row pending t f of Some r \<Rightarrow> Some r | None \<Rightarrow> found_row st t f))"
  using flush_live [OF assms] by blast

text \<open>The frames of a batch are built from tokens: distinct terms, counted.\<close>
lemma bump_spec:
  "distinct (map fst counts) \<Longrightarrow> distinct (map fst (bump t counts)) \<and>
   map_of (bump t counts) u =
     (if u = t then Some (case map_of counts t of None \<Rightarrow> 1 | Some n \<Rightarrow> n + 1) else map_of counts u) \<and>
   fst ` set (bump t counts) = insert t (fst ` set counts)"
  by (induction t counts rule: bump.induct) auto

lemma from_tokens_counts:
  "distinct (map fst (pf_term_counts (from_tokens cid tokens))) \<and>
   map_of (pf_term_counts (from_tokens cid tokens)) t =
     (if t \<in> set tokens then Some (of_nat (count_list tokens t)) else None)"
proof -
  have "distinct (map fst counts) \<Longrightarrow> distinct (map fst (fold bump tokens counts)) \<and>
    map_of (fold bump tokens counts) t = (case map_of counts t of
       None \<Rightarrow> if t \<in> set tokens then Some (of_nat (count_list tokens t)) else None
     | Some n \<Rightarrow> Some (n + of_nat (count_list tokens t)))" for counts
  proof (induction tokens arbitrary: counts)
    case (Cons u tokens)
    have d: "distinct (map fst (bump u counts))" using bump_spec [OF Cons.prems] by blast
    show ?case
      using Cons.IH [OF d] bump_spec [OF Cons.prems, of u t]
      by (auto split: option.splits simp: count_notin)
  qed (simp split: option.split)
  from this [of "[]"] show ?thesis by (simp add: from_tokens_def)
qed

section \<open>A concrete flush, and a reopened handle\<close>

definition ex_batch :: pending_frames where
  "ex_batch = [(5, from_tokens 1 [[97], [97]])]"

lemma ex_batch_frame: "from_tokens 1 [[97], [97]] = \<lparr>pf_collection_id = 1, pf_term_counts = [([97], 2)], pf_total_terms = 2\<rparr>"
  by (simp add: from_tokens_def)

definition ex_list :: posting_list where
  "ex_list = \<lparr>pl_term_id = 0, pl_df = 1, pl_postings =
     [\<lparr>po_frame_id = 5, po_collection_id = 1, po_field_mask = 1, po_term_freq = 2, po_positions_ref = None\<rparr>]\<rparr>"

definition ex_record :: term_dictionary_entry where
  "ex_record = \<lparr>td_term_id = 0, td_term_bytes = [97], td_collection_freq = 2, td_doc_freq = 1\<rparr>"

definition ex_stats :: doc_stats_entry where
  "ex_stats = \<lparr>ds_frame_id = 5, ds_collection_id = 1, ds_text_space_id = 7, ds_field_lengths = [2],
     ds_total_terms = 2, ds_unique_terms = 1\<rparr>"

lemma ex_batch_encodes:
  "\<exists>out. encode_flush 7 None None None [ex_record] [ex_list] [ex_stats] = Inr out"
  "\<exists>out. encode_flush 7 None None None [] [ex_list] [ex_stats] = Inr out"
proof -
  obtain d where "encode_term_dictionary_segment \<lparr>tg_text_space_id = 7, tg_previous_root = None, tg_records = [ex_record]\<rparr> = Inr d"
    by (simp add: encode_term_dictionary_segment_def ex_record_def u32_try_from_def)
  moreover obtain p where "encode_postings_segment \<lparr>ps_text_space_id = 7, ps_previous_root = None, ps_posting_lists = [ex_list]\<rparr> = Inr p"
    by (simp add: encode_postings_segment_def encode_posting_blob_def u32_try_from_def DENSE_FLAG_def
        rbind_Inr_iff varint_small drop_bit_eq_div ex_list_def DENSE_THRESHOLD_def)
  moreover obtain s where "encode_doc_stats_segment \<lparr>dg_text_space_id = 7, dg_previous_root = None, dg_records = [ex_stats]\<rparr> = Inr s"
    by (simp add: encode_doc_stats_segment_def field_count_of_def u32_try_from_def write_run_column_def
        write_blob_def nth_fields_def write_field_column_def field_width_def write_field_def
        write_uvarint_eq varint_small ex_stats_def)
  moreover obtain d' where "encode_term_dictionary_segment \<lparr>tg_text_space_id = 7, tg_previous_root = None, tg_records = []\<rparr> = Inr d'"
    by (simp add: encode_term_dictionary_segment_def u32_try_from_def)
  ultimately show "\<exists>out. encode_flush 7 None None None [ex_record] [ex_list] [ex_stats] = Inr out"
    "\<exists>out. encode_flush 7 None None None [] [ex_list] [ex_stats] = Inr out" by (simp_all add: encode_flush_def)
qed

lemma ex_batch_lists: "map list_of_run (term_runs (sort_key flat_key [(0, 5, 1, 2)])) = [ex_list]"
  by (simp add: list_of_run_def posting_of_def ex_list_def)

lemma ex_batch_stats: "doc_stats_of 7 (sort_key fst ex_batch) = [ex_stats]"
  by (simp add: ex_batch_def ex_batch_frame doc_stats_of_def ex_stats_def)

lemma ex_batch_ok: "pending_ok ex_batch" "pending_row ex_batch [97] 5 = Some (2, 1, 1)"
  by (simp_all add: pending_ok_def pending_row_def ex_batch_def ex_batch_frame)

lemma default_live: "live_inv text_space_state_default"
  by (simp add: live_inv_def text_space_state_default_def terms_ok_def)

lemma assign_ids_keeps:
  "assign_ids ts st = (r, st') \<Longrightarrow> t \<notin> set ts \<Longrightarrow>
   ts_term_id_by_bytes st' t = ts_term_id_by_bytes st t \<and> ts_sorted_terms st' = ts_sorted_terms st \<and>
   ts_single_segment_dir_index st' = ts_single_segment_dir_index st \<and>
   ts_term_dict_blobs st' = ts_term_dict_blobs st \<and> ts_postings_segments st' = ts_postings_segments st"
  by (induction ts st arbitrary: r st' rule: assign_ids.induct)
    (fastforce simp: Let_def split: option.splits prod.splits)+

lemma flush_keeps_disk:
  assumes "build_flush_output ts pending st r1 r2 r3 = (r, st')" and "lookup_term st t = Some tid"
  shows "lookup_term st' t = Some tid" "ts_single_segment_dir_index st' = ts_single_segment_dir_index st"
    "ts_postings_segments st' = ts_postings_segments st"
proof -
  obtain r1 st1 where a: "assign_ids (new_terms st (sort_key fst pending)) st = (r1, st1)" by fastforce
  have t: "t \<notin> set (new_terms st (sort_key fst pending))" using assms(2) by (simp add: new_terms_def)
  note k = assign_ids_keeps [OF a t]
  have "(\<exists>es ls. st' = fold apply_doc_stats es (fold apply_list ls st1)) \<or> st' = st1"
    using assms(1) a by (auto simp: build_flush_output_def Let_def split: sum.splits)
  then show "lookup_term st' t = Some tid" "ts_single_segment_dir_index st' = ts_single_segment_dir_index st"
    "ts_postings_segments st' = ts_postings_segments st"
    using k assms(2) by (auto simp: lookup_term_def split: option.splits)
qed

lemma ex_batch_first:
  "\<exists>st'. build_flush_output 7 ex_batch text_space_state_default r1 r2 r3 =
     (encode_flush 7 r1 r2 r3 [ex_record] [ex_list] [ex_stats], st') \<and> lookup_term st' [97] = Some 0"
proof -
  have o: "sort_key fst ex_batch = [(5, \<lparr>pf_collection_id = 1, pf_term_counts = [([97], 2)], pf_total_terms = 2\<rparr>)]"
    by (simp add: ex_batch_def ex_batch_frame)
  define st1 where "st1 = text_space_state_default\<lparr>ts_next_term_id := 1, ts_term_id_by_bytes := [[97] \<mapsto> 0]\<rparr>"
  have n: "new_terms text_space_state_default (sort_key fst ex_batch) = [[97]]"
    unfolding o by (simp add: new_terms_def lookup_term_def text_space_state_default_def)
  have a: "assign_ids [[97]] text_space_state_default = (Inr [(0, [97])], st1)"
    by (simp add: st1_def text_space_state_default_def checked_add_def)
  have f: "flat_of st1 (sort_key fst ex_batch) = Inr [(0, 5, 1, 2)]"
    unfolding o by (simp add: flat_of_def lookup_term_def st1_def text_space_state_default_def)
  have d: "List.map_filter (dict_record [(0, [97])]) [ex_list]
     = [ex_record]"
    by (simp add: List.map_filter_simps dict_record_def collection_freq_def ex_list_def ex_record_def)
  have "lookup_term (fold apply_doc_stats es (fold apply_list ls st1)) [97] = Some 0" for es ls
    by (simp add: lookup_term_def) (simp add: st1_def text_space_state_default_def)
  then show ?thesis
    by (simp only: build_flush_output_def Let_def n a f ex_batch_lists d ex_batch_stats prod.case sum.case) blast
qed

lemma ex_batch_again:
  assumes "lookup_term st [97] = Some 0"
  shows "\<exists>st'. build_flush_output 7 ex_batch st r1 r2 r3 =
     (encode_flush 7 r1 r2 r3 [] [ex_list] [ex_stats], st') \<and> lookup_term st' [97] = Some 0"
proof -
  have o: "sort_key fst ex_batch = [(5, \<lparr>pf_collection_id = 1, pf_term_counts = [([97], 2)], pf_total_terms = 2\<rparr>)]"
    by (simp add: ex_batch_def ex_batch_frame)
  have n: "new_terms st (sort_key fst ex_batch) = []"
    unfolding o by (simp add: new_terms_def assms)
  have f: "flat_of st (sort_key fst ex_batch) = Inr [(0, 5, 1, 2)]"
    unfolding o by (simp add: flat_of_def assms)
  have d: "List.map_filter (dict_record []) [ex_list] = []"
    by (simp add: List.map_filter_simps dict_record_def)
  obtain st' where fl: "build_flush_output 7 ex_batch st r1 r2 r3 = (encode_flush 7 r1 r2 r3 [] [ex_list] [ex_stats], st')"
    by (simp only: build_flush_output_def Let_def n f ex_batch_lists d ex_batch_stats assign_ids.simps prod.case sum.case)
  then show ?thesis using flush_keeps_disk(1) [OF fl assms] by blast
qed

lemma flush_newest_wins_witness:
  "\<exists>out st'. build_flush_output 7 ex_batch text_space_state_default None None None = (Inr out, st') \<and>
     live_inv st' \<and> found_row st' [97] 5 = Some (2, 1, 1)"
proof -
  obtain out st' where fl: "build_flush_output 7 ex_batch text_space_state_default None None None = (Inr out, st')"
    using ex_batch_first [of None None None] ex_batch_encodes(1) by auto
  show ?thesis using flush_newest_wins [OF default_live ex_batch_ok(1) fl] fl ex_batch_ok(2) by fastforce
qed

text \<open>C27: Text indexed after a reopen stays invisible on its handle: when the postings of a term came
  from the one segment of the reopened index, a flush of any batch leaves what a query finds for
  that term, and its document frequency, exactly as they were, whatever frames of the batch hold
  the term.\<close>
theorem reopened_term_stays_stale:
  assumes "lookup_term st t = Some tid" and "single_entry st tid = Some e"
    and "build_flush_output ts pending st prior_dict prior_postings prior_stats = (r, st')"
  shows "found_row st' t f = found_row st t f \<and> df_for st' tid = df_for st tid"
proof -
  note k = flush_keeps_disk [OF assms(3,1)]
  have "single_entry st' tid = Some e" using assms(2) by (simp add: single_entry_def k)
  then show ?thesis
    using assms(1,2) by (simp add: found_row_def lookup_postings_def df_for_def k)
qed

text \<open>A handle reopened on one segment: the term \<open>a\<close>, in frame 1.\<close>
definition ex_reopened :: text_space_state where
  "ex_reopened = text_space_state_default
     \<lparr>ts_sorted_terms := [\<lparr>sl_blob_idx = 0, sl_start = 0, sl_length = 1, sl_term_id = 0\<rparr>],
      ts_term_dict_blobs := [[97]], ts_next_term_id := 1, ts_single_segment_dir_index := [0],
      ts_postings_segments := [\<lparr>pg_text_space_id = 7, pg_previous_root = None,
        pg_entries = [\<lparr>pe_term_id = 0, pe_df = 1, pe_cf = 1, pe_blob_offset = 0, pe_blob_len = 5, pe_is_dense = False\<rparr>],
        pg_blob = [1, 2, 1, 1, 0]\<rparr>]\<rparr>"

lemma ex_blob: "encode_posting_blob \<lparr>pl_term_id = 0, pl_df = 1, pl_postings =
    [\<lparr>po_frame_id = 1, po_collection_id = 1, po_field_mask = 1, po_term_freq = 1, po_positions_ref = None\<rparr>]\<rparr> = Inr [1, 2, 1, 1, 0]"
  by (simp add: encode_posting_blob_def u32_try_from_def varint_small rbind_Inr_iff drop_bit_eq_div)

lemma ex_reopened_lookup:
  "lookup_term ex_reopened [97] = Some 0" "single_entry ex_reopened 0 = Some 0"
  by (simp_all add: ex_reopened_def text_space_state_default_def lookup_term_def single_entry_def lookup_by_def
      binary_search_by_key_def bs_loop.simps term_key_def slice_def NO_POSTING_ENTRY_def Let_def)

lemma ex_reopened_row: "found_row ex_reopened [97] f = (if f = 1 then Some (1, 1, 1) else None)"
proof -
  let ?l = "\<lparr>pl_term_id = 0, pl_df = 1, pl_postings =
    [\<lparr>po_frame_id = 1, po_collection_id = 1, po_field_mask = 1, po_term_freq = 1, po_positions_ref = None\<rparr>]\<rparr>"
  have d: "decode_term_blob_into 0 1 [1, 2, 1, 1, 0] = Inr (soa_of ?l)"
    using posting_blob_roundtrip [OF ex_blob] by simp
  have "lookup_postings ex_reopened 0 = Inr (Some (Sparse (soa_of ?l)))"
    using d by (simp add: lookup_postings_def ex_reopened_lookup)
      (simp add: ex_reopened_def text_space_state_default_def nth_or_panic_def entry_list_def entry_blob_def slice_range_def slice_def skip_err_def)
  then show ?thesis by (simp add: found_row_def ex_reopened_lookup pd_rows_def soa_of_def)
qed

lemma reopened_term_stays_stale_witness:
  "\<exists>out st'. build_flush_output 7 ex_batch ex_reopened None None None = (Inr out, st') \<and>
     pending_row ex_batch [97] 5 = Some (2, 1, 1) \<and> found_row st' [97] 5 = None \<and>
     found_row st' [97] 1 = Some (1, 1, 1)"
proof -
  obtain out st' where fl: "build_flush_output 7 ex_batch ex_reopened None None None = (Inr out, st')"
    using ex_batch_again [OF ex_reopened_lookup(1), of None None None] ex_batch_encodes(2) by auto
  show ?thesis
    using reopened_term_stays_stale [OF ex_reopened_lookup fl, of 5] reopened_term_stays_stale [OF ex_reopened_lookup fl, of 1]
      fl ex_batch_ok(2) by (simp add: ex_reopened_row)
qed

end
