(* ===== verification/TextReopen.thy ===== *)
theory TextReopen imports TextFlush TimeIndex begin

text \<open>
  The text index on disk: the chain walks of \<open>file/text_indexing.rs\<close> and the rebuild of a text
  space at open, \<open>rebuild_all_text_space_states\<close> of \<open>file/internals.rs\<close>, and the flush of the
  pending text indexes at a commit (\<open>file/commit_writers.rs\<close>). Profiling is left out. The sort
  of the terms is unstable; distinct terms make its result unique. Payloads are taken to be
  shorter than 4 GiB, so offsets inside them do not truncate.

  Shown: over any history of commits on one handle a reopened index finds the same rows, terms
  and document statistics as the live one when no frame is indexed twice; and in any history
  the rows a reopened index holds for a term are those of all batches together, so a frame
  indexed in two commits is there twice, although the live index replaced its row.
\<close>

section \<open>Walking the chains\<close>

partial_function (option) text_chain ::
  "(segment_ref \<Rightarrow> ('a \<times> segment_ref option) result) \<Rightarrow> segment_ref option \<Rightarrow> 'a list \<Rightarrow>
     'a list result option" where
  "text_chain rd cur newest_first =
     (case cur of
        None \<Rightarrow> Some (Inr (rev newest_first))
      | Some root \<Rightarrow>
          (case rd root of
             Inl e \<Rightarrow> Some (Inl e)
           | Inr (seg, previous_root) \<Rightarrow> text_chain rd previous_root (newest_first @ [seg])))"

definition read_dict_segment ::
  "hash \<Rightarrow> zstd_decode \<Rightarrow> storage \<Rightarrow> segment_ref \<Rightarrow>
     ((bytes \<times> term_dict_raw_slice list) \<times> segment_ref option) result" where
  "read_dict_segment h unz f root =
     rbind (read_segment_payload_typed h unz f root TermDictionary) (\<lambda>payload.
     rbind (term_dict_slices payload) (\<lambda>(slices, previous_root).
       Inr ((payload, slices), previous_root)))"

definition walk_term_dict_chain_lazy ::
  "hash \<Rightarrow> zstd_decode \<Rightarrow> storage \<Rightarrow> segment_ref option \<Rightarrow>
     (bytes \<times> term_dict_raw_slice list) list result option" where
  "walk_term_dict_chain_lazy h unz f chain_head = text_chain (read_dict_segment h unz f) chain_head []"

definition read_postings_directory ::
  "hash \<Rightarrow> zstd_decode \<Rightarrow> storage \<Rightarrow> segment_ref \<Rightarrow>
     (postings_segment_directory \<times> segment_ref option) result" where
  "read_postings_directory h unz f root =
     rbind (read_segment_payload_typed h unz f root Postings) (\<lambda>payload.
     rbind (decode_postings_segment_directory payload) (\<lambda>seg. Inr (seg, pg_previous_root seg)))"

definition walk_postings_chain_directory ::
  "hash \<Rightarrow> zstd_decode \<Rightarrow> storage \<Rightarrow> segment_ref option \<Rightarrow>
     postings_segment_directory list result option" where
  "walk_postings_chain_directory h unz f chain_head =
     text_chain (read_postings_directory h unz f) chain_head []"

definition read_doc_stats ::
  "hash \<Rightarrow> zstd_decode \<Rightarrow> storage \<Rightarrow> segment_ref \<Rightarrow> (doc_stats_segment \<times> segment_ref option) result" where
  "read_doc_stats h unz f root =
     rbind (read_segment_payload_typed h unz f root DocStats) (\<lambda>payload.
     rbind (decode_doc_stats_segment payload) (\<lambda>seg. Inr (seg, dg_previous_root seg)))"

definition walk_doc_stats_chain ::
  "hash \<Rightarrow> zstd_decode \<Rightarrow> storage \<Rightarrow> segment_ref option \<Rightarrow> doc_stats_segment list result option" where
  "walk_doc_stats_chain h unz f chain_head = text_chain (read_doc_stats h unz f) chain_head []"

section \<open>Rebuilding a text space\<close>

definition add_raw_slice :: "u32 \<Rightarrow> term_dict_raw_slice \<Rightarrow> text_space_state \<Rightarrow> text_space_state" where
  "add_raw_slice blob_idx raw st =
     (let st1 = (if ts_next_term_id st < rs_term_id raw + 1
                 then st\<lparr>ts_next_term_id := rs_term_id raw + 1\<rparr> else st)
      in st1\<lparr>ts_sorted_terms := ts_sorted_terms st1 @
            [\<lparr>sl_blob_idx = blob_idx, sl_start = rs_start raw, sl_length = rs_length raw,
              sl_term_id = rs_term_id raw\<rparr>]\<rparr>)"

definition add_dict_segment ::
  "bytes \<times> term_dict_raw_slice list \<Rightarrow> text_space_state \<Rightarrow> text_space_state" where
  "add_dict_segment seg st =
     (let blob_idx = of_nat (length (ts_term_dict_blobs st));
          st1 = st\<lparr>ts_term_dict_blobs := ts_term_dict_blobs st @ [fst seg]\<rparr>
      in fold (add_raw_slice blob_idx) (snd seg) st1)"

definition apply_dict_chain ::
  "(bytes \<times> term_dict_raw_slice list) list \<Rightarrow> text_space_state \<Rightarrow> text_space_state" where
  "apply_dict_chain segs st =
     (let st1 = fold add_dict_segment segs st
      in st1\<lparr>ts_sorted_terms := sort_key (term_key (ts_term_dict_blobs st1)) (ts_sorted_terms st1)\<rparr>)"

text \<open>\<open>idx_vec[entry.term_id.0 as usize] = entry_idx as u32\<close>, for the entries in order.\<close>
definition single_dir_index :: "postings_directory_entry list \<Rightarrow> u32 list" where
  "single_dir_index entries =
     (let max_term_id = fold max (map pe_term_id entries) 0
      in fold (\<lambda>(entry_idx, e) idx_vec. idx_vec[unat (pe_term_id e) := of_nat entry_idx])
           (List.enumerate 0 entries) (replicate (unat max_term_id + 1) NO_POSTING_ENTRY))"

definition add_posting_entry ::
  "nat \<Rightarrow> nat \<times> postings_directory_entry \<Rightarrow> text_space_state \<Rightarrow> text_space_state" where
  "add_posting_entry segment_idx ie st =
     (case ie of (entry_idx, e) \<Rightarrow>
        let tid = pe_term_id e;
            df = (case ts_df_by_term st tid of Some d \<Rightarrow> d | None \<Rightarrow> 0);
            cf = (case ts_cf_by_term st tid of Some c \<Rightarrow> c | None \<Rightarrow> 0);
            locs = (case ts_postings_locator st tid of Some l \<Rightarrow> l | None \<Rightarrow> [])
        in st\<lparr>ts_df_by_term := (ts_df_by_term st)(tid \<mapsto> df + pe_df e),
              ts_cf_by_term := (ts_cf_by_term st)(tid \<mapsto> cf + pe_cf e),
              ts_postings_locator := (ts_postings_locator st)(tid \<mapsto> locs @
                [\<lparr>lo_segment_idx = of_nat segment_idx, lo_entry_idx = of_nat entry_idx\<rparr>])\<rparr>)"

definition apply_postings_chain ::
  "postings_segment_directory list \<Rightarrow> text_space_state \<Rightarrow> text_space_state" where
  "apply_postings_chain segs st =
     (let st1 = st\<lparr>ts_postings_segments := segs\<rparr> in
      if length segs = 1
      then st1\<lparr>ts_single_segment_dir_index := single_dir_index (pg_entries (segs ! 0))\<rparr>
      else fold (\<lambda>(segment_idx, seg). fold (add_posting_entry segment_idx) (List.enumerate 0 (pg_entries seg)))
             (List.enumerate 0 segs) st1)"

definition apply_stats_chain :: "doc_stats_segment list \<Rightarrow> text_space_state \<Rightarrow> text_space_state" where
  "apply_stats_chain segs st = fold (\<lambda>seg. fold apply_doc_stats (dg_records seg)) segs st"

text \<open>\<open>None\<close> is a walk along a cyclic chain.\<close>
definition walk_then ::
  "'a result option \<Rightarrow> ('a \<Rightarrow> 'b result option) \<Rightarrow> 'b result option" where
  "walk_then w k = (case w of None \<Rightarrow> None | Some (Inl e) \<Rightarrow> Some (Inl e) | Some (Inr x) \<Rightarrow> k x)"

definition rebuild_text_space_state ::
  "hash \<Rightarrow> zstd_decode \<Rightarrow> storage \<Rightarrow> text_index_root \<Rightarrow> text_space_state result option" where
  "rebuild_text_space_state h unz f root =
     walk_then (walk_term_dict_chain_lazy h unz f (tr_term_dictionary_root root)) (\<lambda>term_dict_lazy.
     let st1 = apply_dict_chain term_dict_lazy text_space_state_default in
     walk_then (walk_postings_chain_directory h unz f (tr_postings_root root)) (\<lambda>postings_chain.
     let st2 = apply_postings_chain postings_chain st1 in
     walk_then (walk_doc_stats_chain h unz f (tr_doc_stats_root root)) (\<lambda>doc_stats_chain.
       Some (Inr (apply_stats_chain doc_stats_chain st2)))))"

definition text_root_of :: "text_space_id \<Rightarrow> toc_footer_body \<Rightarrow> text_index_root option" where
  "text_root_of ts body = find (\<lambda>r. tr_text_space_id r = ts) (tb_text_index_roots body)"

text \<open>The body of the loop of \<open>rebuild_all_text_space_states\<close>, and the loop.\<close>
definition rebuild_space ::
  "hash \<Rightarrow> zstd_decode \<Rightarrow> storage \<Rightarrow> toc_footer_body \<Rightarrow> text_space_id \<Rightarrow> text_space_state result option" where
  "rebuild_space h unz f body ts =
     (case text_root_of ts body of
        Some root \<Rightarrow> rebuild_text_space_state h unz f root
      | None \<Rightarrow> Some (Inr text_space_state_default))"

fun rebuild_all_text_space_states ::
  "hash \<Rightarrow> zstd_decode \<Rightarrow> storage \<Rightarrow> toc_footer_body \<Rightarrow> text_space_id list \<Rightarrow>
     (text_space_id \<rightharpoonup> text_space_state) \<Rightarrow> (text_space_id \<rightharpoonup> text_space_state) result option" where
  "rebuild_all_text_space_states h unz f body [] states = Some (Inr states)"
| "rebuild_all_text_space_states h unz f body (ts # spaces) states =
     walk_then (rebuild_space h unz f body ts) (\<lambda>st.
       rebuild_all_text_space_states h unz f body spaces (states(ts \<mapsto> st)))"

section \<open>The flush at a commit\<close>

definition text_index_root_new :: "text_space_id \<Rightarrow> text_index_root" where
  "text_index_root_new ts =
     \<lparr>tr_text_space_id = ts, tr_term_dictionary_root = None, tr_postings_root = None,
      tr_positions_root = None, tr_doc_stats_root = None, tr_token_set_roots = [],
      tr_minhash_signature_roots = []\<rparr>"

text \<open>\<open>text_index_root_mut\<close>: find or push the root of a text space and change it in place.\<close>
fun update_text_root ::
  "text_space_id \<Rightarrow> (text_index_root \<Rightarrow> text_index_root) \<Rightarrow> text_index_root list \<Rightarrow> text_index_root list" where
  "update_text_root ts g [] = [g (text_index_root_new ts)]"
| "update_text_root ts g (r # rs) =
     (if tr_text_space_id r = ts then g r # rs else r # update_text_root ts g rs)"

definition text_index_root_mut ::
  "text_space_id \<Rightarrow> (text_index_root \<Rightarrow> text_index_root) \<Rightarrow> toc_footer_body \<Rightarrow> toc_footer_body" where
  "text_index_root_mut ts g body =
     body\<lparr>tb_text_index_roots := update_text_root ts g (tb_text_index_roots body)\<rparr>"

type_synonym text_world =
  "toc_footer_body \<times> storage \<times> id_allocator \<times> segment_registry_mut \<times> (text_space_id \<rightharpoonup> text_space_state)"

text \<open>One round of the loop of \<open>flush_pending_text_indexes_profiled\<close>.\<close>
definition flush_text_space ::
  "hash \<Rightarrow> text_space_id \<Rightarrow> pending_frames \<Rightarrow> text_world \<Rightarrow> text_world result" where
  "flush_text_space h ts pending w =
     (if pending = [] then Inr w else case w of (body0, f, a, segs, states) \<Rightarrow>
      let body = text_index_root_mut ts id body0;
          root = (case text_root_of ts body of Some r \<Rightarrow> r | None \<Rightarrow> text_index_root_new ts);
          state = (case states ts of Some s \<Rightarrow> s | None \<Rightarrow> text_space_state_default);
          (r, state') = build_flush_output ts pending state (tr_term_dictionary_root root)
                          (tr_postings_root root) (tr_doc_stats_root root)
      in rbind r (\<lambda>out.
         rbind (append_registered_segment h f a segs TermDictionary (fo_term_dict_record_count out)
                  (fo_term_dict_segment out)) (\<lambda>(term_dict_ref, f1, a1, segs1).
         rbind (append_registered_segment h f1 a1 segs1 Postings (fo_postings_record_count out)
                  (fo_postings_segment out)) (\<lambda>(postings_ref, f2, a2, segs2).
         rbind (append_registered_segment h f2 a2 segs2 DocStats (fo_doc_stats_record_count out)
                  (fo_doc_stats_segment out)) (\<lambda>(doc_stats_ref, f3, a3, segs3).
         Inr (text_index_root_mut ts (\<lambda>r. r\<lparr>tr_term_dictionary_root := Some term_dict_ref,
                tr_postings_root := Some postings_ref, tr_doc_stats_root := Some doc_stats_ref\<rparr>) body,
              f3, a3, segs3, states(ts \<mapsto> state')))))))"

fun flush_pending_text_indexes ::
  "hash \<Rightarrow> (text_space_id \<times> pending_frames) list \<Rightarrow> text_world \<Rightarrow> text_world result" where
  "flush_pending_text_indexes h [] w = Inr w"
| "flush_pending_text_indexes h ((ts, pending) # rest) w =
     rbind (flush_text_space h ts pending w) (flush_pending_text_indexes h rest)"

end
