(* ===== verification/Opening.thy ===== *)
theory Opening imports CommitPhases Reopen TextReopen begin

text \<open>
  \<open>load_open_state\<close> of src/file/lifecycle.rs: everything an open reads through the roots of a
  footer, in the order of the code, and so the loader of the recovery and of the open made
  concrete. Shown: a created file opens with the state the creating handle holds, and the
  footer of a commit that appended columnar frames to a chain of the older row format is
  never served by an open.

  The timings of \<open>VALISE_OPEN_PROFILE\<close> are left out.
\<close>

section \<open>Loading a snapshot\<close>

record open_state =
  os_catalog :: catalog_snapshot
  os_frame_locators :: "u64 \<rightharpoonup> frame_locator"
  os_id_allocator :: id_allocator
  os_codec_cache :: "u32 \<rightharpoonup> cached_codec"
  os_analyzer_cache :: "u32 \<rightharpoonup> analyzer"
  os_text_space_states :: "text_space_id \<rightharpoonup> text_space_state"
  os_collection_filter_cache :: filter_cache
  os_time_index_cache :: "time_index_entry list"
  os_vector_by_id_cache :: "u64 \<rightharpoonup> vector_desc"
  os_segment_registry :: segment_registry

definition rebuild_vector_by_id_cache :: "catalog_snapshot \<Rightarrow> u64 \<rightharpoonup> vector_desc" where
  "rebuild_vector_by_id_cache c =
     foldl (\<lambda>m v. if vd_status v = Vector_active then m(vd_vector_id v \<mapsto> v) else m)
       Map.empty (cs_vectors c)"

text \<open>\<open>None\<close> is a walk along a cyclic chain, which does not return.\<close>
definition load_open_state ::
  "env \<Rightarrow> table_bincodes \<Rightarrow> storage \<Rightarrow> toc_footer \<Rightarrow> open_state result option" where
  "load_open_state en tc f footer =
     (let h = en_hash en; unz = en_zstd_decode en; body = tf_body footer in
      wbind (read_catalog_snapshot h unz tc (en_ref_bincode en) f body) (\<lambda>(catalog, frame_locators).
      wbind (Some (observe_catalog_ids catalog (tb_id_allocator body))) (\<lambda>id_allocator.
      wbind (Some (build_codec_cache h unz f (cs_codecs catalog))) (\<lambda>codec_cache.
      wbind (Some (build_analyzer_cache catalog)) (\<lambda>analyzer_cache.
      wbind (rebuild_all_text_space_states h unz f body (map ts_text_space_id (cs_text_spaces catalog))
               Map.empty) (\<lambda>text_space_states.
      wbind (Some (load_collection_filter_cache h unz f body)) (\<lambda>collection_filter_cache.
      wbind (Some (load_time_index_cache h unz f body)) (\<lambda>time_index_cache.
      let vector_by_id_cache = rebuild_vector_by_id_cache catalog in
      wbind (read_segment_catalog h unz (en_entry_bincode en) (en_ref_bincode en) f
               (tb_segment_catalog_root body)) (\<lambda>cat.
      Some (Inr \<lparr>os_catalog = catalog, os_frame_locators = frame_locators,
        os_id_allocator = id_allocator, os_codec_cache = codec_cache,
        os_analyzer_cache = analyzer_cache, os_text_space_states = text_space_states,
        os_collection_filter_cache = collection_filter_cache, os_time_index_cache = time_index_cache,
        os_vector_by_id_cache = vector_by_id_cache,
        os_segment_registry = \<lparr>rg_catalog = cat, rg_by_id = build_segment_map cat, rg_loaded = True\<rparr>\<rparr>))))))))))"

text \<open>
  The loader of \<open>resolve_footer_state\<close>. A load that does not return is a result that no
  fallback skips, so that the open does not return a snapshot either.
\<close>
definition open_loader :: "env \<Rightarrow> table_bincodes \<Rightarrow> open_state loader" where
  "open_loader en tc f footer =
     (case load_open_state en tc f footer of
        None \<Rightarrow> Inl (Panic ''the load does not return'')
      | Some r \<Rightarrow> r)"

text \<open>The loaded fields of the handle that \<open>create_with_options\<close> returns.\<close>
definition open_state_created :: open_state where
  "open_state_created =
     \<lparr>os_catalog = catalog_snapshot_default, os_frame_locators = Map.empty,
      os_id_allocator = id_allocator_default, os_codec_cache = Map.empty,
      os_analyzer_cache = Map.empty, os_text_space_states = Map.empty,
      os_collection_filter_cache = Map.empty, os_time_index_cache = [],
      os_vector_by_id_cache = Map.empty,
      os_segment_registry = \<lparr>rg_catalog = [], rg_by_id = Map.empty, rg_loaded = True\<rparr>\<rparr>"

section \<open>Facts\<close>

lemma wbind_Inr: "wbind m g = Some (Inr y) \<longleftrightarrow> (\<exists>x. m = Some (Inr x) \<and> g x = Some (Inr y))"
  by (simp add: wbind_def split: option.split sum.split)

text \<open>A table without a root is empty.\<close>
lemma empty_roots:
  "read_collection_catalog h unz b rb f None = Some (Inr [])"
  "read_catalog_chain_dedup h unz b' rb f None table id_of = Some (Inr [])"
  "read_frame_catalog_slim h unz fid rb f None = Some (Inr ([], Map.empty, []))"
  "read_segment_catalog h unz eb rb f None = Some (Inr [])"
  by (simp_all add: read_collection_catalog_def read_catalog_chain_dedup_def
      read_frame_catalog_slim_def read_frame_catalog_v1_def read_segment_catalog_def
      segment_registry_chain_roots_def catalog_chain_roots_def chain_walk.simps
      hash_collect_def locators_of_def catalog_snapshot_default_def)

lemma load_empty_body:
  assumes "tf_body footer = toc_body_empty g contract"
  shows "load_open_state en tc f footer = Some (Inr open_state_created)"
  unfolding open_state_created_def catalog_snapshot_default_def
  by (simp add: load_open_state_def assms read_catalog_snapshot_def toc_body_empty_def empty_roots
      observe_catalog_ids_def build_codec_cache_def
      build_analyzer_cache_def load_collection_filter_cache_def load_time_index_cache_def
      rebuild_vector_by_id_cache_def build_segment_map_def Let_def)

lemma load_reads_frames:
  assumes "load_open_state en tc f footer = Some (Inr st)"
  shows "\<exists>r. read_frame_catalog_slim (en_hash en) (en_zstd_decode en) (tc_frame_id tc)
    (en_ref_bincode en) f (tb_frame_catalog_root (tf_body footer)) = Some (Inr r)"
  using assms by (auto simp: load_open_state_def read_catalog_snapshot_def Let_def wbind_Inr)

lemma open_loader_Inr: "open_loader en tc f footer = Inr st \<longleftrightarrow> load_open_state en tc f footer = Some (Inr st)"
  by (simp add: open_loader_def split: option.split)

text \<open>What an open serves has loaded.\<close>
lemma open_file_loads:
  assumes "open_file h tb cb load f = Inr (hdr, footer, st)"
  shows "load f footer = Inr st"
proof -
  from assms obtain hdr0 off where "resolve_footer_state h tb cb load f hdr0 = Inr (off, footer, st)"
    by (auto simp: open_file_def rbind_Inr_iff split: if_splits)
  from resolve_cases [OF this] show ?thesis by (auto elim: recover_via_scan_Inr)
qed

text \<open>A segment behind the header stays readable as long as the bytes there are kept.\<close>
lemma read_segment_keeps:
  assumes "read_segment h unz f root ex = Inr r" and k: "keeps_data f img"
    and o: "HEADER_SIZE \<le> unat (sr_offset root)"
  shows "read_segment h unz img root ex = Inr r"
proof -
  have rd: "read_exact_at off n img = Inr bs" if "read_exact_at off n f = Inr bs" "HEADER_SIZE \<le> off" for off n bs
    using that keeps_data_slice [OF k that(2), of n] k by (auto simp: read_exact_at_Inr keeps_data_def)
  obtain s body where r: "r = (s, body)" by (cases r)
  have o2: "HEADER_SIZE \<le> unat (sr_offset root) + SEGMENT_HEADER_SIZE" using o by simp
  from assms(1) show ?thesis
    unfolding r
    by (rule read_segment_steps)
      (simp only: read_segment_def rd [OF _ o] rd [OF _ o2] rbind_simps if_False not_not simp_thms)
qed

lemma read_payload_typed_keeps:
  "read_segment_payload_typed h unz f root ty = Inr p \<Longrightarrow> keeps_data f img \<Longrightarrow>
   HEADER_SIZE \<le> unat (sr_offset root) \<Longrightarrow> read_segment_payload_typed h unz img root ty = Inr p"
  by (auto simp: read_segment_payload_typed_def rbind_Inr_iff dest: read_segment_keeps)

section \<open>Properties\<close>

text \<open>
  C17: A file that was created opens, and on nothing else than what the creating handle
  holds: its footer is the empty one, of generation 1, of the contract built from the
  options, all its roots load, and the open returns the header of the creating handle and
  the state that handle starts from.
\<close>
theorem create_then_open:
  assumes "digest32 (en_hash en)" and "bincode_ok tb" and "length uuid = 16"
    and "create_with_options (en_hash en) tb cb uuid options = Inr (f, hdr, footer)"
    and "length f < 2 ^ 63"
  shows "open_file (en_hash en) tb cb (open_loader en tc) f = Inr (hdr, footer, open_state_created) \<and>
    (\<exists>contract. build_contract options = Inr contract \<and> tf_body footer = toc_body_empty 1 contract)"
proof -
  obtain contract where c: "build_contract options = Inr contract" "tf_body footer = toc_body_empty 1 contract"
    using create_opens(9) [where load = "\<lambda>_ _. Inr ()", OF assms refl] by blast
  have "open_loader en tc f footer = Inr open_state_created"
    by (simp add: open_loader_def load_empty_body [OF c(2)])
  from create_opens(1) [where load = "open_loader en tc", OF assms this] c show ?thesis by blast
qed

text \<open>
  C22: A commit through the current writer strands a file of the older row format: the flush
  of dirty frames appends a columnar segment also onto a chain of row segments and succeeds,
  but on every file that still holds these bytes the reader fails on that chain with
  "FrameCatalog chain mixes v2 and v1 wire formats", and no open returns a footer that names
  the new root: it fails or falls back to another footer, so the commit is not seen again.
\<close>
theorem columnar_flush_strands_row_chain:
  assumes "digest32 (en_hash en)" and "HEADER_SIZE \<le> length f" and "fits (length f)" and "fits (length f')"
    and "read_segment_payload_typed (en_hash en) (en_zstd_decode en) f row_root FrameCatalog = Inr p"
    and "\<not> starts_with_vlf2 p" and "length (sr_checksum row_root) = 32"
    and "HEADER_SIZE \<le> unat (sr_offset row_root)"
    and "strict_by fd_frame_id t" and "finite dirty" and "dirty \<noteq> {}" and "\<forall>x\<in>set t. frame_wf x"
    and "flush_frame_catalog_columnar (en_hash en) f a segs (Some row_root) dirty t =
      Inr (latest', f', a', segs')"
    and "keeps_data f' img" and "tb_frame_catalog_root (tf_body footer) = latest'"
  shows "read_frame_catalog_slim (en_hash en) (en_zstd_decode en) (tc_frame_id tc) (en_ref_bincode en) img latest' =
      Some (Inl (Format ''FrameCatalog chain mixes v2 and v1 wire formats; rebuild required'')) \<and>
    open_file (en_hash en) tb cb (open_loader en tc) img \<noteq> Inr (hdr, footer, st)"
proof -
  let ?h = "en_hash en" and ?unz = "en_zstd_decode en"
  have "case Some row_root of None \<Rightarrow> True | Some r \<Rightarrow> length (sr_checksum r) = 32" using assms(7) by simp
  from columnar_flush_appends [where unz = ?unz, OF assms(1,3,4) this assms(9-13)]
  obtain r payload tail where r: "latest' = Some r" and f': "f' = f @ tail" and off: "unat (sr_offset r) = length f"
    and rd: "read_segment_payload_typed ?h ?unz f' r FrameCatalog = Inr payload"
    and dec: "decode_frame_catalog payload =
      Inr \<lparr>fc_previous_root = Some row_root, fc_frames = dirty_records fd_frame_id t dirty\<rparr>" .
  have new: "read_segment_payload_typed ?h ?unz img r FrameCatalog = Inr payload"
    using read_payload_typed_keeps [OF rd assms(14)] off assms(2) by simp
  have "read_segment_payload_typed ?h ?unz f' row_root FrameCatalog = Inr p"
    using read_segment_payload_typed_append [OF assms(5)] by (simp add: f')
  then have old: "read_segment_payload_typed ?h ?unz img row_root FrameCatalog = Inr p"
    by (rule read_payload_typed_keeps [OF _ assms(14,8)])
  have mixed: "read_frame_catalog_slim ?h ?unz (tc_frame_id tc) (en_ref_bincode en) img latest' =
      Some (Inl (Format ''FrameCatalog chain mixes v2 and v1 wire formats; rebuild required''))"
    unfolding r by (rule mixed_chain_rejected [OF new dec old assms(6)])
  moreover have "open_file ?h tb cb (open_loader en tc) img \<noteq> Inr (hdr, footer, st)"
  proof
    assume "open_file ?h tb cb (open_loader en tc) img = Inr (hdr, footer, st)"
    then have "load_open_state en tc img footer = Some (Inr st)"
      by (rule open_file_loads [THEN open_loader_Inr [THEN iffD1]])
    from load_reads_frames [OF this] mixed assms(15) show False by simp
  qed
  ultimately show ?thesis ..
qed

section \<open>Witnesses\<close>

lemma create_then_open_witness:
  "\<exists>f hdr. open_file ex_hash ex_toc_bincode ex_contract_bincode (open_loader ex_env ex_bincodes) f =
     Inr (hdr, ex_footer, open_state_created)"
proof (rule ex_created)
  fix f hdr
  assume c: "create_with_options ex_hash ex_toc_bincode ex_contract_bincode (replicate 16 7) ex_options =
       Inr (f, hdr, ex_footer)" and l: "length f = 4184"
  have h: "en_hash ex_env = ex_hash" by (simp add: ex_env_def)
  have "digest32 (en_hash ex_env)" "length (replicate 16 (7 :: u8)) = 16" "length f < 2 ^ 63"
    by (simp_all add: h ex_hash_ok l)
  from create_then_open [OF this(1) ex_toc_bincode_ok this(2) c [folded h] this(3), of ex_bincodes]
  show ?thesis unfolding h by blast
qed

text \<open>A created file with one segment of row frames behind its footer.\<close>
lemma ex_row_file:
  obtains f root p where "HEADER_SIZE \<le> length f" "length f < 6000"
    "length (sr_checksum root) = 32" "HEADER_SIZE \<le> unat (sr_offset root)"
    "read_segment_payload_typed ex_hash Some f root FrameCatalog = Inr p" "\<not> starts_with_vlf2 p"
proof (rule ex_created)
  fix f0 :: storage and hdr :: header
  assume l: "length f0 = 4184"
  let ?segs = "(\<lparr>rg_catalog = [], rg_by_id = Map.empty, rg_loaded = True\<rparr>, {}) :: segment_registry_mut"
  obtain p where p: "encode_catalog_delta ex_row_bincode ex_ref_bincode Kind_frame None [ex_catalog_frame 2] = Inr p"
    and lp: "length p < 1000"
    using ex_row_segment by blast
  have f0: "fits (length f0)" "fits (SEGMENT_HEADER_SIZE + length p)"
    using l lp by (simp_all add: fits_def SEGMENT_HEADER_SIZE_def)
  obtain root f segs where app: "append_registered_segment ex_hash f0 id_allocator_default ?segs FrameCatalog 1 p =
      Inr (root, f, id_allocator_default\<lparr>next_segment_id := 2\<rparr>, segs)"
    and len: "length f = length f0 + SEGMENT_HEADER_SIZE + length p"
    using append_registered_segment_total [OF ex_hash_ok f0 ex_allocations(1)] by blast
  note ext = append_registered_extends [OF ex_hash_ok f0(1) app]
  have "fits (length f)" using len l lp by (simp add: fits_def SEGMENT_HEADER_SIZE_def)
  note rd = ext(3) [OF this, of Some]
  have "sr_offset root = of_nat (length f0)"
    using app by (auto simp: append_registered_segment_def rbind_Inr_iff
        append_segment_at_end_eq [OF ex_hash_ok f0(1)] segment_ref_at_end_def Let_def)
  then have off: "HEADER_SIZE \<le> unat (sr_offset root)" by (simp add: l HEADER_SIZE_def)
  have "HEADER_SIZE \<le> length f" "length f < 6000"
    using len l lp by (simp_all add: HEADER_SIZE_def SEGMENT_HEADER_SIZE_def)
  from that [OF this ext(2) off rd slim_segment_encoded(1) [OF ex_row_layout(1) p rd]] show thesis .
qed

lemma columnar_flush_strands_row_chain_witness:
  "\<exists>f latest m. HEADER_SIZE \<le> length f \<and>
     read_frame_catalog_slim ex_hash Some ex_none ex_ref_bincode f latest = Some (Inl (Format m)) \<and>
     (\<forall>hdr footer st. tb_frame_catalog_root (tf_body footer) = latest \<longrightarrow>
        open_file ex_hash ex_toc_bincode ex_contract_bincode (open_loader ex_env ex_bincodes) f \<noteq>
          Inr (hdr, footer, st))"
proof (rule ex_row_file)
  fix f root p
  assume F: "HEADER_SIZE \<le> length f" "length f < 6000" and ck: "length (sr_checksum root) = 32"
    and off: "HEADER_SIZE \<le> unat (sr_offset root)"
    and rd: "read_segment_payload_typed ex_hash Some f root FrameCatalog = Inr p" and nv: "\<not> starts_with_vlf2 p"
  let ?segs = "(\<lparr>rg_catalog = [], rg_by_id = Map.empty, rg_loaded = True\<rparr>, {}) :: segment_registry_mut"
  have en: "en_hash ex_env = ex_hash" "en_zstd_decode ex_env = Some" "en_ref_bincode ex_env = ex_ref_bincode"
    "tc_frame_id ex_bincodes = ex_none"
    by (simp_all add: ex_env_def ex_bincodes_def)
  have st: "strict_by fd_frame_id [ex_catalog_frame 2]" by (simp add: strict_by_def)
  have dr: "dirty_records fd_frame_id [ex_catalog_frame 2] {2} = [ex_catalog_frame 2]"
    by (simp add: dirty_records_def binary_search_by_key_def bs_loop.simps Let_def ex_catalog_frame_def)
  have wf: "\<forall>x\<in>set [ex_catalog_frame 2]. frame_wf x"
    by (simp add: ex_catalog_frame_def frame_wf_def frame_refs_def)
  obtain payload where enc: "encode_frame_catalog
      \<lparr>fc_previous_root = Some root, fc_frames = [ex_catalog_frame 2]\<rparr> = Inr payload" and pl: "length payload < 1000"
    using ex_single_encode [OF ck] by blast
  have f: "fits (length f)" and pf: "fits (SEGMENT_HEADER_SIZE + length payload)"
    using F(2) pl by (simp_all add: fits_def SEGMENT_HEADER_SIZE_def)
  obtain root' f' segs' a where app: "append_registered_segment ex_hash f id_allocator_default ?segs FrameCatalog 1
      payload = Inr (root', f', a, segs')" and len: "length f' = length f + SEGMENT_HEADER_SIZE + length payload"
    using append_registered_segment_total [OF ex_hash_ok f pf ex_allocations(1)] by blast
  have f': "fits (length f')" using len F(2) pl by (simp add: fits_def SEGMENT_HEADER_SIZE_def)
  have fl: "flush_frame_catalog_columnar (en_hash ex_env) f id_allocator_default ?segs (Some root) {2}
      [ex_catalog_frame 2] = Inr (Some root', f', a, segs')"
    by (simp add: flush_frame_catalog_columnar_def dr enc app u32_try_from_def en)
  have h: "digest32 (en_hash ex_env)" by (simp add: en ex_hash_ok)
  have rd': "read_segment_payload_typed (en_hash ex_env) (en_zstd_decode ex_env) f root FrameCatalog = Inr p"
    using rd by (simp add: en)
  note strands = columnar_flush_strands_row_chain [OF h F(1) f f' rd' nv ck off st _ _ wf fl keeps_data_refl,
      where tc = ex_bincodes, unfolded en]
  let ?footer = "ex_footer\<lparr>tf_body := (tf_body ex_footer)\<lparr>tb_frame_catalog_root := Some root'\<rparr>\<rparr>"
  have "tb_frame_catalog_root (tf_body ?footer) = Some root'" by simp
  then have "\<exists>m. read_frame_catalog_slim ex_hash Some ex_none ex_ref_bincode f' (Some root') = Some (Inl (Format m))"
    using strands by blast
  moreover have "HEADER_SIZE \<le> length f'" using F(1) len by simp
  ultimately show ?thesis using strands by blast
qed

end
