(* ===== verification/CivilDate.thy ===== *)
theory CivilDate imports Prelude "HOL-Library.Signed_Division" begin

text \<open>
  Calendar arithmetic and the text of dates (src/db/partition.rs): days since 1970-01-01 to
  and from civil dates of the proleptic Gregorian calendar, and the formatting and parsing of
  decimal numbers and of the two date formats.

  The days are exact integers: no step before the final additions leaves \<open>i64\<close> for a year
  that a date string can hold, and additions and multiplications commute with the wrap-around
  taken at the end by the callers.
\<close>

section \<open>Definitions\<close>

definition days_from_civil :: "int \<Rightarrow> u32 \<Rightarrow> u32 \<Rightarrow> int" where
  "days_from_civil y m d =
     (let y = (if m \<le> 2 then y - 1 else y);
          era = (if 0 \<le> y then y else y - 399) sdiv 400;
          yoe = y - era * 400;
          m = int (unat m);
          doy = (153 * (if 2 < m then m - 3 else m + 9) + 2) div 5 + int (unat d) - 1;
          doe = yoe * 365 + yoe div 4 - yoe div 100 + doy
      in era * 146097 + doe - 719468)"

definition civil_from_days :: "int \<Rightarrow> int \<times> u32 \<times> u32" where
  "civil_from_days z =
     (let z = z + 719468;
          era = (if 0 \<le> z then z else z - 146096) sdiv 146097;
          doe = z - era * 146097;
          yoe = (doe - doe div 1460 + doe div 36524 - doe div 146096) div 365;
          y = yoe + era * 400;
          doy = doe - (365 * yoe + yoe div 4 - yoe div 100);
          mp = (5 * doy + 2) div 153;
          d = word_of_int (doy - (153 * mp + 2) div 5 + 1);
          m = word_of_int (if mp < 10 then mp + 3 else mp - 9)
      in (if m \<le> 2 then y + 1 else y, m, d))"

subsection \<open>Numbers as text\<close>

definition digit_char :: "nat \<Rightarrow> char" where
  "digit_char n = char_of (48 + n)"

fun show_nat :: "nat \<Rightarrow> string" where
  "show_nat n = (if n < 10 then [digit_char n] else show_nat (n div 10) @ [digit_char (n mod 10)])"

declare show_nat.simps [simp del]

text \<open>\<open>{:0w}\<close>: zeros between the sign and the digits.\<close>
definition pad0 :: "nat \<Rightarrow> string \<Rightarrow> string" where
  "pad0 w s = replicate (w - length s) CHR ''0'' @ s"

definition show_int0 :: "nat \<Rightarrow> int \<Rightarrow> string" where
  "show_int0 w y =
     (if y < 0 then CHR ''-'' # pad0 (w - 1) (show_nat (nat (- y))) else pad0 w (show_nat (nat y)))"

definition digit_val :: "char \<Rightarrow> nat option" where
  "digit_val c = (let n = of_char c in if 48 \<le> n \<and> n \<le> 57 then Some (n - 48) else None)"

fun digits_val :: "nat \<Rightarrow> string \<Rightarrow> nat option" where
  "digits_val acc [] = Some acc"
| "digits_val acc (c # cs) = (case digit_val c of None \<Rightarrow> None | Some v \<Rightarrow> digits_val (10 * acc + v) cs)"

text \<open>\<open>str::parse\<close> at \<open>i64\<close> and at \<open>u32\<close>: an optional sign, at least one digit, no overflow.\<close>
definition parse_nat :: "nat \<Rightarrow> string \<Rightarrow> nat option" where
  "parse_nat limit s =
     (if s = [] then None
      else case digits_val 0 s of None \<Rightarrow> None | Some v \<Rightarrow> if v < limit then Some v else None)"

fun parse_i64 :: "string \<Rightarrow> int option" where
  "parse_i64 [] = None"
| "parse_i64 (c # cs) =
     (if c = CHR ''-'' then map_option (\<lambda>v. - int v) (parse_nat (2 ^ 63 + 1) cs)
      else map_option int (parse_nat (2 ^ 63) (if c = CHR ''+'' then cs else c # cs)))"

fun parse_u32 :: "string \<Rightarrow> u32 option" where
  "parse_u32 [] = None"
| "parse_u32 (c # cs) = map_option of_nat (parse_nat (2 ^ 32) (if c = CHR ''+'' then cs else c # cs))"

fun split_on :: "char \<Rightarrow> string \<Rightarrow> string list" where
  "split_on c [] = [[]]"
| "split_on c (x # xs) =
     (if x = c then [] # split_on c xs
      else case split_on c xs of [] \<Rightarrow> [[x]] | y # ys \<Rightarrow> (x # y) # ys)"

definition parse_ymd :: "string \<Rightarrow> (int \<times> u32 \<times> u32) option" where
  "parse_ymd s =
     (case split_on CHR ''-'' s of
        [a, b, c] \<Rightarrow> Option.bind (parse_i64 a) (\<lambda>y. Option.bind (parse_u32 b) (\<lambda>m.
                       map_option (\<lambda>d. (y, m, d)) (parse_u32 c)))
      | _ \<Rightarrow> None)"

definition parse_ym :: "string \<Rightarrow> (int \<times> u32) option" where
  "parse_ym s =
     (case split_on CHR ''-'' s of
        [a, b] \<Rightarrow> Option.bind (parse_i64 a) (\<lambda>y. map_option (\<lambda>m. (y, m)) (parse_u32 b))
      | _ \<Rightarrow> None)"

section \<open>The calendar\<close>

text \<open>Days before the first of March of a year, in a calendar whose years start in March.\<close>
definition march :: "int \<Rightarrow> int" where
  "march y = 365 * y + y div 4 - y div 100 + y div 400"

definition month_start :: "int \<Rightarrow> int" where
  "month_start mp = (153 * mp + 2) div 5"

lemma floor_sdiv:
  fixes x n :: int
  assumes "0 < n" and "b = n - 1"
  shows "(if 0 \<le> x then x else x - b) sdiv n = x div n"
proof (cases "0 \<le> x")
  case True
  then show ?thesis using assms(1) by (auto simp: signed_divide_int_def sgn_if)
next
  case False
  have "(n - 1 - x) div n = - (x div n)"
  proof -
    have "(n - 1 - x) div n = (- x + (n - 1)) div n" by (simp add: algebra_simps)
    also have "\<dots> = - (x div n)"
    proof (rule int_div_pos_eq)
      show "- x + (n - 1) = n * - (x div n) + (n - 1 - x mod n)"
        using mult_div_mod_eq [of n x] by (simp add: algebra_simps)
      show "0 \<le> n - 1 - x mod n" "n - 1 - x mod n < n"
        using pos_mod_bound [OF assms(1), of x] pos_mod_sign [OF assms(1), of x] by auto
    qed
    finally show ?thesis .
  qed
  then show ?thesis using False assms by (simp add: signed_divide_int_def sgn_if)
qed

lemma march_era: "march y = (y div 400) * 146097 + (365 * (y mod 400) + (y mod 400) div 4 - (y mod 400) div 100)"
proof -
  define e k where "e = y div 400" and "k = y mod 400"
  have y: "y = 400 * e + k" and k: "0 \<le> k" "k < 400" by (simp_all add: e_def k_def)
  have "y div 4 = 100 * e + k div 4" "y div 100 = 4 * e + k div 100" "y div 400 = e"
    unfolding y using k by auto
  then show ?thesis unfolding march_def e_def [symmetric] k_def [symmetric] y by simp
qed

text \<open>The year within an era of 400 years.\<close>
lemma march_year:
  assumes "0 \<le> c" "c < 4" "0 \<le> q" "q < 25" "0 \<le> u" "u < 4"
  shows "march (100 * c + 4 * q + u) = 36524 * c + 1461 * q + 365 * u"
proof -
  have "(100 * c + 4 * q + u) div 4 = 25 * c + q" using assms by auto
  moreover have "(100 * c + 4 * q + u) div 100 = c" using assms by auto
  moreover have "(100 * c + 4 * q + u) div 400 = 0" using assms by auto
  ultimately show ?thesis by (simp add: march_def)
qed

lemma march_next_year:
  assumes "0 \<le> c" "c < 4" "0 \<le> q" "q < 25" "0 \<le> u" "u < 4"
  shows "march (100 * c + 4 * q + u + 1) =
    (if u < 3 then 36524 * c + 1461 * q + 365 * (u + 1)
     else if q < 24 then 36524 * c + 1461 * (q + 1) else if c < 3 then 36524 * (c + 1) else 146097)"
proof (cases "u < 3")
  case True
  then show ?thesis using march_year [of c q "u + 1"] assms by (simp add: add.assoc)
next
  case False
  then have u: "u = 3" using assms by simp
  show ?thesis
  proof (cases "q < 24")
    case True
    then show ?thesis using march_year [of c "q + 1" 0] assms by (simp add: u algebra_simps)
  next
    case False
    then have q: "q = 24" using assms by simp
    consider "c = 0" | "c = 1" | "c = 2" | "c = 3" using assms by linarith
    then show ?thesis by cases (simp_all add: u q march_def)
  qed
qed

text \<open>The year within an era of 400 years.\<close>
lemma year_of_era:
  fixes doe :: int
  assumes "0 \<le> doe" "doe < 146097"
  defines "yoe \<equiv> (doe - doe div 1460 + doe div 36524 - doe div 146096) div 365"
  shows "0 \<le> yoe \<and> yoe < 400 \<and> march yoe \<le> doe \<and> doe < march (yoe + 1)"
proof (cases "doe = 146096")
  case True
  then show ?thesis by (simp add: yoe_def march_def)
next
  case False
  define c r where "c = doe div 36524" and "r = doe mod 36524"
  define q s where "q = r div 1461" and "s = r mod 1461"
  define k where "k = (24 * c + q + s) div 1460"
  define u where "u = (s - k) div 365"
  have r: "0 \<le> r" "r < 36524" and doe: "doe = 36524 * c + r" and c: "0 \<le> c" "c < 4"
    using assms False by (auto simp: c_def r_def)
  have s: "0 \<le> s" "s < 1461" and rq: "r = 1461 * q + s" and q: "0 \<le> q" "q < 25"
    using r by (auto simp: q_def s_def)
  have k: "k = (if 24 * c + q + s < 1460 then 0 else 1)"
    using c q s by (auto simp: k_def div_pos_pos_trivial intro!: int_div_pos_eq [where r = "24 * c + q + s - 1460"])
  have "doe div 1460 = 25 * c + q + k"
  proof -
    have "doe = 1460 * (25 * c + q) + (24 * c + q + s)" by (simp add: doe rq)
    then show ?thesis by (simp add: k_def)
  qed
  moreover have "doe div 146096 = 0" using assms False by simp
  ultimately have yoe: "yoe = 100 * c + 4 * q + u"
  proof -
    assume a: "doe div 1460 = 25 * c + q + k" "doe div 146096 = 0"
    have "yoe = (365 * (100 * c + 4 * q) + (s - k)) div 365"
      by (simp add: yoe_def a c_def [symmetric]) (simp add: doe rq)
    then show ?thesis by (simp add: u_def)
  qed
  have u: "0 \<le> u" "u < 4" "365 * u \<le> s" "s < 365 * (u + 1) \<or> u = 3"
    using s k c q by (auto simp: u_def split: if_splits)
  show ?thesis
    using march_year [OF c q u(1,2)] march_next_year [OF c q u(1,2)] u c q s r assms(2)
    by (auto simp: yoe doe rq)
qed

lemma u32_of_int: "0 \<le> i \<Longrightarrow> i < 2 ^ 32 \<Longrightarrow> unat (word_of_int i :: u32) = nat i"
  by (simp add: unsigned_of_int take_bit_int_eq_self)

lemma march_shift: "march (400 * e + k) = 146097 * e + march k"
proof -
  have "(400 * e + k) div 4 = 100 * e + k div 4" "(400 * e + k) div 100 = 4 * e + k div 100"
    "(400 * e + k) div 400 = e + k div 400" by auto
  then show ?thesis by (simp add: march_def)
qed

lemma div_step:
  fixes x n :: int
  assumes "0 < n" shows "(x + 1) div n = x div n \<or> (x + 1) div n = x div n + 1"
proof -
  have "(x + n) div n = x div n + 1" using assms by (intro div_add_self2) simp
  then show ?thesis
    using zdiv_mono1 [of x "x + 1" n] zdiv_mono1 [of "x + 1" "x + n" n] assms by linarith
qed

lemma centuries: "y div 100 = y div 4 div 25" "y div 400 = y div 4 div 25 div 4" for y :: int
  using zdiv_zmult2_eq [of 25 y 4] zdiv_zmult2_eq [of 4 y 100] by simp_all

lemma march_step: "march y + 365 \<le> march (y + 1) \<and> march (y + 1) \<le> march y + 366"
proof -
  define a b c where "a = y div 4" and "b = a div 25" and "c = b div 4"
  have m: "march y = 365 * y + a - b + c" by (simp only: march_def centuries a_def b_def c_def)
  consider "(y + 1) div 4 = a" | "(y + 1) div 4 = a + 1" using div_step [of 4 y] by (auto simp: a_def)
  then show ?thesis
  proof cases
    case 1
    then have "march (y + 1) = 365 * (y + 1) + a - b + c"
      by (simp only: march_def centuries b_def c_def)
    then show ?thesis by (simp add: m)
  next
    case 2
    then have "march (y + 1) = 365 * (y + 1) + (a + 1) - (a + 1) div 25 + (a + 1) div 25 div 4"
      by (simp only: march_def centuries)
    moreover have "(a + 1) div 25 = b \<or> (a + 1) div 25 = b + 1" "(b + 1) div 4 = c \<or> (b + 1) div 4 = c + 1"
      using div_step [of 25 a] div_step [of 4 b] by (simp_all add: b_def c_def)
    ultimately show ?thesis by (auto simp: m c_def)
  qed
qed

lemma march_mono:
  assumes "y < y'"
  shows "march y + 365 \<le> march y'"
proof -
  have "march y + 365 \<le> march (y + 1 + int n)" for n
  proof (induction n)
    case 0
    then show ?case using march_step [of y] by simp
  next
    case (Suc n)
    then show ?case using march_step [of "y + 1 + int n"] by (simp add: algebra_simps)
  qed
  from this [of "nat (y' - y - 1)"] show ?thesis using assms by simp
qed

text \<open>Month numbers in the calendar that starts in March.\<close>
definition march_month :: "int \<Rightarrow> int" where
  "march_month m = (if 2 < m then m - 3 else m + 9)"

lemma days_from_civil_march:
  "days_from_civil y m d =
     march (if m \<le> 2 then y - 1 else y) + month_start (march_month (int (unat m))) + int (unat d) - 1 - 719468"
proof -
  define y' where "y' = (if m \<le> 2 then y - 1 else y)"
  have era: "(if 0 \<le> y' then y' else y' - 399) sdiv 400 = y' div 400"
    by (rule floor_sdiv) simp_all
  have yoe: "y' - y' div 400 * 400 = y' mod 400" by (simp add: minus_div_mult_eq_mod)
  show ?thesis
    unfolding days_from_civil_def Let_def y'_def [symmetric] era yoe march_era [of y'] month_start_def march_month_def
    by simp
qed

lemma civil_from_days_march:
  obtains y mp where "0 \<le> mp" "mp < 12" "march y + month_start mp \<le> z + 719468"
    "z + 719468 < march y + month_start (mp + 1)" "z + 719468 < march (y + 1)"
    "civil_from_days z = (if 10 \<le> mp then y + 1 else y, word_of_int (if mp < 10 then mp + 3 else mp - 9),
       word_of_int (z + 719468 - march y - month_start mp + 1))"
proof -
  define z' era doe where "z' = z + 719468" and "era = z' div 146097" and "doe = z' mod 146097"
  define yoe where "yoe = (doe - doe div 1460 + doe div 36524 - doe div 146096) div 365"
  define y where "y = yoe + era * 400"
  define doy where "doy = doe - (365 * yoe + yoe div 4 - yoe div 100)"
  define mp where "mp = (5 * doy + 2) div 153"
  have doe: "0 \<le> doe" "doe < 146097" "z' = 146097 * era + doe" by (simp_all add: doe_def era_def)
  note year = year_of_era [OF doe(1,2), folded yoe_def]
  have my: "march y = 146097 * era + march yoe" "march (y + 1) = 146097 * era + march (yoe + 1)"
    using march_shift [of era yoe] march_shift [of era "yoe + 1"] by (simp_all add: y_def algebra_simps)
  have "march yoe = 365 * yoe + yoe div 4 - yoe div 100" using year by (simp add: march_def)
  then have doy: "doy = z' - march y" by (simp add: doy_def my doe(3))
  then have d: "0 \<le> doy" "doy < 366" "z' < march (y + 1)" using year march_step [of y] by (auto simp: doy my doe(3))
  have mp: "0 \<le> mp" "mp < 12" using d by (auto simp: mp_def)
  have ms: "month_start mp \<le> doy" "doy < month_start (mp + 1)"
    using pos_mod_bound [of 153 "5 * doy + 2"] pos_mod_sign [of 153 "5 * doy + 2"]
      mult_div_mod_eq [of 153 "5 * doy + 2"] by (auto simp: month_start_def mp_def)
  have era: "(if 0 \<le> z' then z' else z' - 146096) sdiv 146097 = era"
    unfolding era_def by (rule floor_sdiv) simp_all
  have doe': "z' - era * 146097 = doe" using doe(3) by simp
  let ?m = "if mp < 10 then mp + 3 else mp - 9"
  have "unat (word_of_int ?m :: u32) = nat ?m" using mp by (intro u32_of_int) auto
  then have m2: "(word_of_int ?m :: u32) \<le> 2 \<longleftrightarrow> 10 \<le> mp" using mp by (auto simp: word_le_nat_alt)
  have eq: "civil_from_days z = (if 10 \<le> mp then y + 1 else y, word_of_int ?m, word_of_int (doy - month_start mp + 1))"
    unfolding civil_from_days_def Let_def z'_def [symmetric] era doe' yoe_def [symmetric] y_def [symmetric]
      doy_def [symmetric] mp_def [symmetric] month_start_def [symmetric] m2 ..
  show ?thesis
  proof (rule that [OF mp])
    show "march y + month_start mp \<le> z + 719468" "z + 719468 < march y + month_start (mp + 1)"
      "z + 719468 < march (y + 1)" using ms d(3) doy by (auto simp: z'_def)
    show "civil_from_days z = (if 10 \<le> mp then y + 1 else y, word_of_int ?m,
        word_of_int (z + 719468 - march y - month_start mp + 1))"
      using eq by (simp add: doy z'_def)
  qed
qed

definition leap_year :: "int \<Rightarrow> bool" where
  "leap_year y \<longleftrightarrow> y mod 4 = 0 \<and> (y mod 100 \<noteq> 0 \<or> y mod 400 = 0)"

definition days_in_month :: "int \<Rightarrow> u32 \<Rightarrow> nat" where
  "days_in_month y m =
     (if m = 2 then (if leap_year y then 29 else 28) else if m \<in> {4, 6, 9, 11} then 30 else 31)"

definition valid_date :: "int \<Rightarrow> u32 \<Rightarrow> u32 \<Rightarrow> bool" where
  "valid_date y m d \<longleftrightarrow> 1 \<le> m \<and> m \<le> 12 \<and> 1 \<le> d \<and> unat d \<le> days_in_month y m"

text \<open>The first day of the month after.\<close>
definition next_month_start :: "int \<Rightarrow> u32 \<Rightarrow> int" where
  "next_month_start y m = (if m = 12 then days_from_civil (y + 1) 1 1 else days_from_civil y (m + 1) 1)"

lemma month_cases:
  fixes m :: u32
  assumes "1 \<le> m" "m \<le> 12"
  shows "m \<in> set [1, 2, 3, 4, 5, 6, 7, 8, 9, 10, 11, 12]"
proof -
  have "unat m \<in> set [1..<13]" using assms by (simp add: word_le_nat_alt)
  then have "of_nat (unat m) \<in> (of_nat ` set [1..<13] :: u32 set)" by (rule imageI)
  also have "of_nat ` set [1..<13] = set [1, 2, 3, 4, 5, 6, 7, 8, 9, 10, 11, 12 :: u32]"
    by (simp add: upt_rec)
  finally show ?thesis by simp
qed

lemma leap_count:
  "(c \<Longrightarrow> b) \<Longrightarrow> (b \<Longrightarrow> a) \<Longrightarrow>
   (365::int) + (if a then 1 else 0) - (if b then 1 else 0) + (if c then 1 else 0) =
   (if a \<and> (\<not> b \<or> c) then 366 else 365)"
  by (cases a; cases b; cases c) simp_all

lemma leap_march: "march y - march (y - 1) = (if leap_year y then 366 else 365)"
proof -
  have d: "y div n - (y - 1) div n = (if y mod n = 0 then 1 else 0)" if "0 < n" for n :: int
  proof -
    define q r where "q = y div n" and "r = y mod n"
    have y: "y = n * q + r" and r: "0 \<le> r" "r < n" using that by (simp_all add: q_def r_def)
    have "(y - 1) div n = q - 1" if "r = 0"
      by (rule int_div_pos_eq [where r = "n - 1"]) (use y r that in \<open>simp_all add: right_diff_distrib\<close>)
    moreover have "(y - 1) div n = q" if "r \<noteq> 0"
      by (rule int_div_pos_eq [where r = "r - 1"]) (use y r that in linarith)+
    ultimately have "y div n - (y - 1) div n = (if r = 0 then 1 else 0)" by (simp add: q_def)
    then show ?thesis by (simp only: r_def)
  qed
  have "march y - march (y - 1) = 365 + (y div 4 - (y - 1) div 4) - (y div 100 - (y - 1) div 100) +
      (y div 400 - (y - 1) div 400)"
    by (simp only: march_def right_diff_distrib)
  also have "\<dots> = 365 + (if y mod 4 = 0 then 1 else 0) - (if y mod 100 = 0 then 1 else 0) +
      (if y mod 400 = 0 then 1 else 0)"
    by (simp only: d zero_less_numeral)
  also have "\<dots> = (if leap_year y then 366 else 365)"
    unfolding leap_year_def by (rule leap_count; presburger)
  finally show ?thesis .
qed

text \<open>A month is as long as the calendar says.\<close>
lemma month_length:
  assumes "1 \<le> m" "m \<le> 12"
  shows "next_month_start y m = days_from_civil y m 1 + int (days_in_month y m)"
proof -
  have "march y = march (y - 1) + (if leap_year y then 366 else 365)" using leap_march [of y] by simp
  then show ?thesis
    using month_cases [OF assms, unfolded list.set insert_iff empty_iff]
    by (elim disjE) (simp_all add: next_month_start_def days_from_civil_march days_in_month_def month_start_def march_month_def)
qed

lemma civil_in_month:
  assumes "civil_from_days z = (y, m, d)"
  shows "1 \<le> m \<and> m \<le> 12 \<and> 1 \<le> d \<and> days_from_civil y m 1 \<le> z \<and> z < next_month_start y m \<and>
    z = days_from_civil y m 1 + int (unat d) - 1"
proof -
  obtain Y mp where mp: "0 \<le> mp" "mp < 12" and lo: "march Y + month_start mp \<le> z + 719468"
    and hi: "z + 719468 < march Y + month_start (mp + 1)" "z + 719468 < march (Y + 1)"
    and civ: "civil_from_days z = (if 10 \<le> mp then Y + 1 else Y, word_of_int (if mp < 10 then mp + 3 else mp - 9),
       word_of_int (z + 719468 - march Y - month_start mp + 1))"
    by (rule civil_from_days_march)
  have y: "y = (if 10 \<le> mp then Y + 1 else Y)" and m: "m = word_of_int (if mp < 10 then mp + 3 else mp - 9)"
    and d: "d = word_of_int (z + 719468 - march Y - month_start mp + 1)"
    using assms civ by simp_all
  have "mp = 0 \<or> mp = 1 \<or> mp = 2 \<or> mp = 3 \<or> mp = 4 \<or> mp = 5 \<or> mp = 6 \<or> mp = 7 \<or> mp = 8 \<or> mp = 9 \<or> mp = 10 \<or> mp = 11"
    using mp by presburger
  then have mm: "1 \<le> m \<and> m \<le> 12 \<and> days_from_civil y m 1 = march Y + month_start mp - 719468 \<and>
      z < next_month_start y m \<and> month_start (mp + 1) - month_start mp \<le> 31"
    using hi by (elim disjE) (simp_all add: y m days_from_civil_march next_month_start_def month_start_def march_month_def)
  moreover have "unat d = nat (z + 719468 - march Y - month_start mp + 1)"
    unfolding d using lo hi mm by (intro u32_of_int) auto
  ultimately show ?thesis using lo by (auto simp: word_le_nat_alt)
qed

lemma civil_days_inverse: "civil_from_days z = (y, m, d) \<Longrightarrow> days_from_civil y m d = z"
  using civil_in_month [of z y m d] by (simp add: days_from_civil_march)

lemma civil_valid:
  assumes "civil_from_days z = (y, m, d)"
  shows "valid_date y m d"
proof -
  note c = civil_in_month [OF assms]
  then have "z < days_from_civil y m 1 + int (days_in_month y m)" using month_length [of m y] by simp
  then have "unat d \<le> days_in_month y m" using c by linarith
  then show ?thesis using c by (simp add: valid_date_def)
qed

text \<open>The months follow one another, so a day lies in one of them.\<close>
definition month_index :: "int \<Rightarrow> u32 \<Rightarrow> int" where
  "month_index y m = 12 * y + int (unat m) - 1"

lemma month_starts_step:
  assumes "1 \<le> m" "m \<le> 12"
  obtains y' m' where "month_index y' m' = month_index y m + 1" "days_from_civil y' m' 1 = next_month_start y m"
    "1 \<le> m'" "m' \<le> 12"
proof (cases "m = 12")
  case True
  then show ?thesis using that [of "y + 1" 1] by (simp add: month_index_def next_month_start_def)
next
  case False
  then show ?thesis using month_cases [OF assms, unfolded list.set insert_iff empty_iff] that [of y "m + 1"]
    by (elim disjE) (simp_all add: month_index_def next_month_start_def)
qed

lemma month_index_inject:
  assumes "month_index y m = month_index y' m'" "1 \<le> m" "m \<le> 12" "1 \<le> m'" "m' \<le> 12"
  shows "y = y' \<and> m = m'"
proof -
  define a b where "a = int (unat m)" and "b = int (unat m')"
  have "1 \<le> unat m" "unat m \<le> 12" "1 \<le> unat m'" "unat m' \<le> 12" using assms(2-5) by (simp_all add: word_le_nat_alt)
  then have "1 \<le> a" "a \<le> 12" "1 \<le> b" "b \<le> 12" unfolding a_def b_def by linarith+
  moreover have "12 * y + a = 12 * y' + b"
    using assms(1) unfolding month_index_def a_def b_def by linarith
  ultimately have "y = y'" "a = b" by presburger+
  then show ?thesis by (simp add: a_def b_def word_uint_eq_iff)
qed

lemma months_disjoint:
  assumes "month_index y m < month_index y' m'" "1 \<le> m" "m \<le> 12" "1 \<le> m'" "m' \<le> 12"
  shows "next_month_start y m \<le> days_from_civil y' m' 1"
  using assms(1-3)
proof (induction "nat (month_index y' m' - month_index y m)" arbitrary: y m)
  case (Suc n)
  obtain a b where ab: "month_index a b = month_index y m + 1" "days_from_civil a b 1 = next_month_start y m"
    "1 \<le> b" "b \<le> 12" by (rule month_starts_step [OF Suc.prems(2,3)])
  show ?case
  proof (cases "month_index a b = month_index y' m'")
    case True
    then show ?thesis using month_index_inject [OF True ab(3,4) assms(4,5)] ab(2) by simp
  next
    case False
    then have "next_month_start a b \<le> days_from_civil y' m' 1"
      using Suc.hyps Suc.prems ab by (intro Suc.hyps(1)) auto
    then show ?thesis using month_length [OF ab(3,4), of a] ab(2) by simp
  qed
qed simp

lemma civil_of_days:
  assumes "valid_date y m d"
  shows "civil_from_days (days_from_civil y m d) = (y, m, d)"
proof -
  obtain y' m' d' where c: "civil_from_days (days_from_civil y m d) = (y', m', d')" by (metis prod_cases3)
  note in_m = civil_in_month [OF c]
  have v: "1 \<le> m" "m \<le> 12" "1 \<le> d" "unat d \<le> days_in_month y m" using assms by (auto simp: valid_date_def)
  have z: "days_from_civil y m d = days_from_civil y m 1 + int (unat d) - 1"
    by (simp add: days_from_civil_march)
  have "days_from_civil y m d < next_month_start y m" "days_from_civil y m 1 \<le> days_from_civil y m d"
    using month_length [OF v(1,2), of y] v(3,4) z by (simp_all only: word_le_nat_alt unat_1)
  then have "\<not> month_index y m < month_index y' m'" "\<not> month_index y' m' < month_index y m"
    using months_disjoint [of y m y' m'] months_disjoint [of y' m' y m] v in_m by linarith+
  then have "month_index y m = month_index y' m'" by simp
  then have "y = y' \<and> m = m'" using v in_m by (intro month_index_inject) auto
  then have "y = y'" "m = m'" by simp_all
  moreover from this have "uint d = uint d'" using z in_m by simp
  then have "d = d'" by (simp add: word_uint_eq_iff)
  ultimately show ?thesis using c by simp
qed

section \<open>Numbers and dates as text\<close>

lemma digit_char_val: "n < 10 \<Longrightarrow> digit_val (digit_char n) = Some n"
  by (simp add: digit_val_def digit_char_def)

lemma digit_char_neq: "n < 10 \<Longrightarrow> digit_char n \<noteq> CHR ''-'' \<and> digit_char n \<noteq> CHR ''+''"
proof -
  assume "n < 10"
  then have "digit_val (digit_char n) = Some n" by (rule digit_char_val)
  moreover have "digit_val CHR ''-'' = None" "digit_val CHR ''+'' = None" by (simp_all add: digit_val_def)
  ultimately show ?thesis by auto
qed

lemma digits_val_append:
  "digits_val acc (xs @ ys) = Option.bind (digits_val acc xs) (\<lambda>v. digits_val v ys)"
  by (induction xs arbitrary: acc) (auto split: option.split)

lemma show_nat_val: "digits_val acc (show_nat n) = Some (acc * 10 ^ length (show_nat n) + n)"
proof (induction n arbitrary: acc rule: show_nat.induct)
  case (1 n)
  show ?case
  proof (cases "n < 10")
    case True
    then show ?thesis by (simp add: show_nat.simps [of n] digit_char_val)
  next
    case False
    then show ?thesis
      using 1 [OF False, of acc] by (simp add: show_nat.simps [of n] digits_val_append digit_char_val)
  qed
qed

lemma show_nat_chars: "c \<in> set (show_nat n) \<Longrightarrow> c \<noteq> CHR ''-'' \<and> c \<noteq> CHR ''+''"
proof (induction n rule: show_nat.induct)
  case (1 n)
  then show ?case
    by (cases "n < 10") (auto simp: show_nat.simps [of n] digit_char_neq)
qed

lemma show_nat_nonempty [simp]: "show_nat n \<noteq> []"
  by (simp add: show_nat.simps [of n])

lemma pad0_nonempty [simp]: "pad0 w (show_nat n) \<noteq> []"
  by (simp add: pad0_def)

lemma digits_val_zeros: "digits_val 0 (replicate k CHR ''0'' @ s) = digits_val 0 s"
  by (induction k) (simp_all add: digit_val_def)

lemma pad0_val: "digits_val 0 (pad0 w (show_nat n)) = Some n"
  by (simp add: pad0_def digits_val_zeros show_nat_val)

lemma pad0_chars: "c \<in> set (pad0 w (show_nat n)) \<Longrightarrow> c \<noteq> CHR ''-'' \<and> c \<noteq> CHR ''+''"
  by (auto simp: pad0_def dest: show_nat_chars split: if_splits)

lemma parse_u32_shown: "n < 2 ^ 32 \<Longrightarrow> parse_u32 (pad0 w (show_nat n)) = Some (of_nat n)"
proof -
  assume n: "n < 2 ^ 32"
  obtain c cs where s: "pad0 w (show_nat n) = c # cs" by (cases "pad0 w (show_nat n)") auto
  then have "c \<noteq> CHR ''+''" using pad0_chars [of c w n] by simp
  then show ?thesis using n pad0_val [of w n] by (simp add: s parse_nat_def)
qed

lemma parse_i64_shown:
  assumes "0 \<le> y" "y < 2 ^ 63" shows "parse_i64 (show_int0 w y) = Some y"
proof -
  obtain c cs where s: "pad0 w (show_nat (nat y)) = c # cs" by (cases "pad0 w (show_nat (nat y))") auto
  then have "c \<noteq> CHR ''+'' \<and> c \<noteq> CHR ''-''" using pad0_chars [of c w "nat y"] by simp
  moreover have "nat y < 2 ^ 63" using assms by (simp add: nat_less_iff)
  ultimately show ?thesis
    using assms pad0_val [of w "nat y"] by (simp add: show_int0_def s parse_nat_def)
qed

lemma split_on_none: "c \<notin> set xs \<Longrightarrow> split_on c xs = [xs]"
  by (induction xs) auto

lemma split_on_append: "c \<notin> set xs \<Longrightarrow> split_on c (xs @ c # ys) = xs # split_on c ys"
  by (induction xs) (auto split: list.split)

end
