(* ===== verification/Partition.thy ===== *)
theory Partition imports CivilDate begin

text \<open>
  Time partitions of a collection (src/db/partition.rs): the physical collection a record is
  routed to, the period parsed back from the name of a collection, the selection of the
  partitions of a window and of those a \<open>forget_before\<close> tombstones.

  The registry of collections is the list of its entries in iteration order; a record is known
  by its \<open>created_at\<close>, custom routers are functions of the record. Sums and products of \<open>i64\<close> wrap,
  as in a release build.
\<close>

section \<open>Definitions\<close>

datatype 'r partition = ByDay | ByMonth | Custom "'r \<Rightarrow> string"

fun is_time :: "'r partition \<Rightarrow> bool" where
  "is_time ByDay = True"
| "is_time ByMonth = True"
| "is_time (Custom f) = False"

datatype window = LastDays u32 | Range i64 i64 | Partitions "string list"

record 'r partitioned =
  pn_base :: string
  pn_by :: "'r partition"

type_synonym collections = "(string \<times> u32) list"

text \<open>\<open>rec.created_at().unwrap_or(now).div_euclid(86_400)\<close>.\<close>
definition record_day :: "i64 option \<Rightarrow> i64 \<Rightarrow> int" where
  "record_day created_at now = sint (case created_at of Some t \<Rightarrow> t | None \<Rightarrow> now) div 86400"

definition show_day :: "int \<times> u32 \<times> u32 \<Rightarrow> string" where
  "show_day c = (case c of (y, m, d) \<Rightarrow>
     show_int0 4 y @ CHR ''-'' # pad0 2 (show_nat (unat m)) @ CHR ''-'' # pad0 2 (show_nat (unat d)))"

definition show_month :: "int \<times> u32 \<times> u32 \<Rightarrow> string" where
  "show_month c = (case c of (y, m, d) \<Rightarrow> show_int0 4 y @ CHR ''-'' # pad0 2 (show_nat (unat m)))"

definition route :: "'r partitioned \<Rightarrow> 'r \<Rightarrow> i64 option \<Rightarrow> i64 \<Rightarrow> string" where
  "route p rec created_at now =
     (case pn_by p of
        ByDay \<Rightarrow> pn_base p @ CHR '':'' # show_day (civil_from_days (record_day created_at now))
      | ByMonth \<Rightarrow> pn_base p @ CHR '':'' # show_month (civil_from_days (record_day created_at now))
      | Custom f \<Rightarrow> pn_base p @ CHR '':'' # f rec)"

definition strip_prefix :: "string \<Rightarrow> string \<Rightarrow> string option" where
  "strip_prefix pre s = (if take (length pre) s = pre then Some (drop (length pre) s) else None)"

text \<open>The period \<open>[start, end)\<close>; \<open>y + 1\<close> and the products wrap.\<close>
definition period_of :: "'r partitioned \<Rightarrow> string \<Rightarrow> (i64 \<times> i64) option" where
  "period_of p full_name =
     Option.bind (strip_prefix (pn_base p) full_name) (\<lambda>rest.
     Option.bind (strip_prefix '':'' rest) (\<lambda>suffix.
     case pn_by p of
       ByDay \<Rightarrow> Option.bind (parse_ymd suffix) (\<lambda>(y, m, d).
         let start = word_of_int (days_from_civil y m d) * 86400 in Some (start, start + 86400))
     | ByMonth \<Rightarrow> Option.bind (parse_ym suffix) (\<lambda>(y, m).
         let start = word_of_int (days_from_civil y m 1) * 86400;
             (ny, nm) = (if m = 12 then (y + 1, 1) else (y, m + 1));
             stop = word_of_int (days_from_civil ny nm 1) * 86400
         in Some (start, stop))
     | Custom f \<Rightarrow> None))"

definition existing :: "'r partitioned \<Rightarrow> collections \<Rightarrow> collections" where
  "existing p cs = filter (\<lambda>(name, cid). strip_prefix (pn_base p @ '':'') name \<noteq> None) cs"

definition in_window :: "'r partitioned \<Rightarrow> collections \<Rightarrow> i64 \<Rightarrow> i64 \<Rightarrow> string list" where
  "in_window p cs lo hi =
     map fst (filter (\<lambda>(name, cid). case period_of p name of None \<Rightarrow> False
       | Some (start, stop) \<Rightarrow> lo <s stop \<and> start \<le>s hi) (existing p cs))"

definition view_as_of :: "'r partitioned \<Rightarrow> collections \<Rightarrow> window \<Rightarrow> i64 \<Rightarrow> string list" where
  "view_as_of p cs w now =
     (case w of
        Partitions suffixes \<Rightarrow> filter (\<lambda>n. n \<in> fst ` set cs) (map (\<lambda>s. pn_base p @ CHR '':'' # s) suffixes)
      | LastDays days \<Rightarrow> in_window p cs (now - ucast days * 86400) now
      | Range lo hi \<Rightarrow> in_window p cs lo hi)"

definition all_partitions :: "'r partitioned \<Rightarrow> collections \<Rightarrow> string list" where
  "all_partitions p cs = map fst (existing p cs)"

text \<open>The partitions \<open>forget_before\<close> tombstones.\<close>
definition expired_partitions :: "'r partitioned \<Rightarrow> collections \<Rightarrow> i64 \<Rightarrow> collections result" where
  "expired_partitions p cs cutoff =
     (if \<not> is_time (pn_by p)
      then Inl (Unsupported ''forget_before requires a time partition (ByDay/ByMonth)'')
      else Inr (filter (\<lambda>(name, cid). case period_of p name of None \<Rightarrow> False
        | Some (start, stop) \<Rightarrow> stop \<le>s cutoff) (existing p cs)))"

section \<open>Names and periods\<close>

lemma strip_prefix_append [simp]: "strip_prefix pre (pre @ s) = Some s"
  by (simp add: strip_prefix_def)

lemma strip_prefix_Cons [simp]: "strip_prefix [c] (c # s) = Some s"
  by (simp add: strip_prefix_def)

lemma parse_u32_word [simp]: "parse_u32 (pad0 w (show_nat (unat m))) = Some m"
  using parse_u32_shown [of "unat m" w] unsigned_less [where ?'a = nat, of m] by simp

lemma no_dash [simp]:
  "CHR ''-'' \<notin> set (pad0 w (show_nat n))" "0 \<le> y \<Longrightarrow> CHR ''-'' \<notin> set (show_int0 w y)"
  using pad0_chars by (auto simp: show_int0_def)

lemma parse_shown_day:
  "0 \<le> y \<Longrightarrow> y < 2 ^ 63 \<Longrightarrow> parse_ymd (show_day (y, m, d)) = Some (y, m, d)"
  by (simp add: parse_ymd_def show_day_def split_on_append split_on_none parse_i64_shown)

lemma parse_shown_month:
  "0 \<le> y \<Longrightarrow> y < 2 ^ 63 \<Longrightarrow> parse_ym (show_month (y, m, d)) = Some (y, m)"
  by (simp add: parse_ym_def show_month_def split_on_append split_on_none parse_i64_shown)

text \<open>A negative year leaves an empty piece before its sign.\<close>
lemma parse_negative_year:
  assumes "y < 0"
  shows "parse_ymd (show_day (y, m, d)) = None" "parse_ym (show_month (y, m, d)) = None"
  using assms
  by (auto simp: parse_ymd_def parse_ym_def show_day_def show_month_def show_int0_def split: list.split)

lemma year_nonneg:
  assumes "civil_from_days z = (y, m, d)"
  shows "0 \<le> y \<longleftrightarrow> - 719528 \<le> z"
proof -
  note c = civil_in_month [OF assms]
  have one: "days_from_civil 0 1 1 = - 719528"
    by (simp add: days_from_civil_march march_def month_start_def march_month_def)
  have m: "1 \<le> unat m" "unat m \<le> 12" using c by (simp_all add: word_le_nat_alt)
  have "month_index y m = 12 * y + int (unat m) - 1" "month_index 0 1 = 0"
    by (simp_all add: month_index_def)
  then have idx: "month_index y m < month_index 0 1 \<longleftrightarrow> y < 0" "0 \<le> y \<longrightarrow> month_index 0 1 \<le> month_index y m"
    using m by linarith+
  show ?thesis
  proof (cases "y < 0")
    case True
    then show ?thesis using months_disjoint [of y m 0 1] idx c one by auto
  next
    case False
    have "days_from_civil 0 1 1 \<le> days_from_civil y m 1"
    proof (cases "month_index 0 1 < month_index y m")
      case True
      then have "next_month_start 0 1 \<le> days_from_civil y m 1" using c by (intro months_disjoint) auto
      then show ?thesis using month_length [of 1 0] by simp
    next
      case False
      then have "month_index 0 1 = month_index y m" using idx \<open>\<not> y < 0\<close> by simp
      then have "0 = y \<and> 1 = m" using c by (intro month_index_inject) auto
      then show ?thesis by auto
    qed
    then show ?thesis using False c one by auto
  qed
qed

lemma year_below:
  assumes "civil_from_days z = (y, m, d)" and "0 \<le> y" and "z < 2 ^ 62"
  shows "y < 2 ^ 63"
proof -
  have "0 \<le> march (y - 1) - 365 * (y - 1) + 2"
  proof -
    have "(y - 1) div 100 \<le> (y - 1) div 4 + 1"
      using zdiv_mono2 [of "y - 1" 4 100] assms(2) by (cases "y = 0") simp_all
    moreover have "- 1 \<le> (y - 1) div 400" using assms(2) by auto
    ultimately show ?thesis by (simp add: march_def)
  qed
  moreover have "march (y - 1) \<le> march y" using march_mono [of "y - 1" y] by simp
  moreover have "0 \<le> month_start (march_month (int (unat m)))"
    by (auto simp: month_start_def march_month_def pos_imp_zdiv_nonneg_iff)
  ultimately have "365 * (y - 1) - 719470 \<le> days_from_civil y m 1"
    by (simp add: days_from_civil_march)
  then have "365 * (y - 1) - 719470 < 4611686018427387904" using civil_in_month [OF assms(1)] assms(3) by simp
  then show ?thesis by simp
qed

lemma sint_i64_of_int: "in_i64 k \<Longrightarrow> sint (word_of_int k :: i64) = k"
  by (simp add: in_i64_def signed_of_int signed_take_bit_int_eq_self)

lemma i64_product: "word_of_int a * 86400 = (word_of_int (a * 86400) :: i64)"
  by simp

section \<open>Routing and periods\<close>

definition record_time :: "i64 option \<Rightarrow> i64 \<Rightarrow> i64" where
  "record_time created_at now = (case created_at of Some t \<Rightarrow> t | None \<Rightarrow> now)"

text \<open>From the first of January of year 0, and far from the end of \<open>i64\<close>.\<close>
definition datable :: "i64 \<Rightarrow> bool" where
  "datable t \<longleftrightarrow> - 62167219200 \<le> sint t \<and> sint t < 2 ^ 62"

lemma routed_period:
  assumes "is_time (pn_by p)" and "datable (record_time created_at now)"
  obtains start stop where "period_of p (route p rec created_at now) = Some (start, stop)"
    "sint start \<le> sint (record_time created_at now)" "sint (record_time created_at now) < sint stop"
    "sint stop \<le> sint (record_time created_at now) + 31 * 86400"
proof -
  define t z where "t = sint (record_time created_at now)" and "z = t div 86400"
  have t: "- 62167219200 \<le> t" "t < 2 ^ 62" using assms(2) by (simp_all add: t_def datable_def)
  have zt: "86400 * z \<le> t" "t < 86400 * z + 86400" by (auto simp: z_def)
  have day: "record_day created_at now = z" by (simp add: record_day_def z_def t_def record_time_def)
  obtain y m d where c: "civil_from_days z = (y, m, d)" by (metis prod_cases3)
  note month = civil_in_month [OF c]
  have y: "0 \<le> y" "y < 2 ^ 63" using year_nonneg [OF c] year_below [OF c] zt t by auto
  have len: "next_month_start y m \<le> days_from_civil y m 1 + 31"
    using month_length [of m y] month by (auto simp: days_in_month_def)
  show ?thesis
  proof (cases "pn_by p")
    case ByDay
    let ?s = "word_of_int z * 86400 :: i64"
    have per: "period_of p (route p rec created_at now) = Some (?s, ?s + 86400)"
      by (simp add: period_of_def route_def ByDay day c parse_shown_day [OF y] civil_days_inverse [OF c] Let_def)
    have "in_i64 (z * 86400)" "in_i64 (z * 86400 + 86400)" using zt t by (auto simp: in_i64_def)
    then have s: "sint ?s = z * 86400" "sint (?s + 86400) = z * 86400 + 86400"
      using sint_i64_of_int [of "z * 86400"] sint_i64_of_int [of "z * 86400 + 86400"] by simp_all
    have "sint ?s \<le> t" "t < sint (?s + 86400)" "sint (?s + 86400) \<le> t + 31 * 86400"
      unfolding s using zt by linarith+
    then show ?thesis unfolding t_def by (rule that [OF per])
  next
    case ByMonth
    let ?a = "days_from_civil y m 1" and ?b = "next_month_start y m"
    have per: "period_of p (route p rec created_at now) = Some (word_of_int ?a * 86400, word_of_int ?b * 86400)"
      by (simp add: period_of_def route_def ByMonth day c parse_shown_month [OF y] next_month_start_def)
    have ab: "?a * 86400 \<le> t" "t < ?b * 86400" "?b * 86400 \<le> t + 31 * 86400" using month zt len by linarith+
    then have "in_i64 (?a * 86400)" "in_i64 (?b * 86400)" using t len by (auto simp: in_i64_def)
    then have s: "sint (word_of_int ?a * 86400 :: i64) = ?a * 86400" "sint (word_of_int ?b * 86400 :: i64) = ?b * 86400"
      using sint_i64_of_int [of "?a * 86400"] sint_i64_of_int [of "?b * 86400"] by simp_all
    show ?thesis using ab unfolding s [symmetric] t_def by (rule that [OF per])
  next
    case (Custom f)
    then show ?thesis using assms(1) by simp
  qed
qed

lemma routed_prefix: "strip_prefix (pn_base p @ '':'') (route p rec created_at now) \<noteq> None"
  by (cases "pn_by p") (simp_all add: route_def strip_prefix_def)

text \<open>The start of the last days, from a time of the epoch on.\<close>
lemma last_days_start:
  assumes "0 \<le> sint now'"
  shows "sint (now' - ucast days * 86400 :: i64) = sint now' - 86400 * int (unat (days :: u32))"
proof -
  define k where "k = 86400 * int (unat days)"
  have "uint days < 4294967296" using unsigned_less [where ?'a = int, of days] by simp
  then have k: "0 \<le> k" "k < 371085174374400" by (simp_all add: k_def)
  have "ucast days = (word_of_int (int (unat days)) :: i64)" by (simp add: unsigned_ucast_eq)
  then have u: "ucast days * 86400 = (word_of_int k :: i64)" by (simp add: k_def)
  have s: "sint (ucast days * 86400 :: i64) = k"
    unfolding u using k by (intro sint_i64_of_int) (simp add: in_i64_def)
  have "in_i64 (sint now' - sint (ucast days * 86400 :: i64))"
    using assms k in_i64_sint [of now'] unfolding s in_i64_def by simp
  then show ?thesis using s by (simp add: sint_sub_in_i64 k_def)
qed

section \<open>Properties\<close>

text \<open>
  C38: The calendar is exact. Converting days to a civil date and back is the identity for every
  day, negative ones included; the date is a valid one of the Gregorian calendar, leap years
  and all; and every valid date is the date of its day.
\<close>
theorem civil_dates_roundtrip:
  shows "(case civil_from_days z of (y, m, d) \<Rightarrow> days_from_civil y m d = z \<and> valid_date y m d) \<and>
    (valid_date y m d \<longrightarrow> civil_from_days (days_from_civil y m d) = (y, m, d))"
  using civil_days_inverse civil_valid civil_of_days by (auto split: prod.split)

lemma civil_dates_roundtrip_witness:
  "valid_date 2024 2 29 \<and> civil_from_days (days_from_civil 2024 2 29) = (2024, 2, 29)"
proof -
  have "valid_date 2024 2 29" by (simp add: valid_date_def days_in_month_def leap_year_def)
  then show ?thesis using civil_dates_roundtrip [of 0 2024 2 29] by simp
qed

text \<open>
  C36: \<open>forget_before\<close> never forgets too much and does not forget to forget. If a partition is
  among the expired ones for a cutoff, then no record routed to it has a time at or after the
  cutoff; and a partition of the registry that a record was routed to is among them once the
  cutoff is 31 days past the time of the record.
\<close>
theorem forget_spares_recent:
  assumes "expired_partitions p cs cutoff = Inr ex" and "datable (record_time created_at now)"
  shows "((route p rec created_at now, cid) \<in> set ex \<longrightarrow> record_time created_at now <s cutoff) \<and>
    ((route p rec created_at now, cid) \<in> set cs \<and> sint (record_time created_at now) + 31 * 86400 \<le> sint cutoff \<longrightarrow>
       (route p rec created_at now, cid) \<in> set ex)"
proof -
  have time: "is_time (pn_by p)" and ex: "ex = filter (\<lambda>(name, cid). case period_of p name of None \<Rightarrow> False
      | Some (start, stop) \<Rightarrow> stop \<le>s cutoff) (existing p cs)"
    using assms(1) by (auto simp: expired_partitions_def split: if_splits)
  obtain start stop where per: "period_of p (route p rec created_at now) = Some (start, stop)"
    "sint start \<le> sint (record_time created_at now)" "sint (record_time created_at now) < sint stop"
    "sint stop \<le> sint (record_time created_at now) + 31 * 86400"
    by (rule routed_period [OF time assms(2)])
  have "(route p rec created_at now, cid) \<in> set (existing p cs) \<longleftrightarrow> (route p rec created_at now, cid) \<in> set cs"
    using routed_prefix [of p rec created_at now] by (auto simp: existing_def)
  then show ?thesis using per by (auto simp: ex word_sless_alt word_sle_eq)
qed

text \<open>
  C37: A view misses nothing. A view over a range of times holds the partition of every record
  of the registry whose time lies in the range, for daily and monthly partitions; and so does
  the view of the last days, when its start does not leave \<open>i64\<close>.
\<close>
theorem view_covers_window:
  assumes "is_time (pn_by p)" and "datable (record_time created_at now)"
    and "(route p rec created_at now, cid) \<in> set cs"
  shows "(lo \<le>s record_time created_at now \<and> record_time created_at now \<le>s hi \<longrightarrow>
      route p rec created_at now \<in> set (view_as_of p cs (Range lo hi) now')) \<and>
    (0 \<le> sint now' \<and> sint now' - 86400 * int (unat days) \<le> sint (record_time created_at now) \<and>
        record_time created_at now \<le>s now' \<longrightarrow>
      route p rec created_at now \<in> set (view_as_of p cs (LastDays days) now'))"
proof -
  obtain start stop where per: "period_of p (route p rec created_at now) = Some (start, stop)"
    "sint start \<le> sint (record_time created_at now)" "sint (record_time created_at now) < sint stop"
    by (rule routed_period [OF assms(1,2)])
  have ex: "(route p rec created_at now, cid) \<in> set (existing p cs)"
    using routed_prefix [of p rec created_at now] assms(3) by (auto simp: existing_def)
  have cover: "route p rec created_at now \<in> set (in_window p cs lo hi)"
    if "lo \<le>s record_time created_at now" "record_time created_at now \<le>s hi" for lo hi
    using per ex that by (force simp: in_window_def word_sless_alt word_sle_eq)
  have "now' - ucast days * 86400 \<le>s record_time created_at now"
    if "0 \<le> sint now'" "sint now' - 86400 * int (unat days) \<le> sint (record_time created_at now)"
    using last_days_start [OF that(1), of days] that(2) by (simp add: word_sle_eq)
  then show ?thesis using cover by (simp add: view_as_of_def)
qed

text \<open>
  Records dated before year 0 are out of reach. The name of their partition has a sign that
  the parser does not read back, so the partition has no period: no window and no
  \<open>forget_before\<close> ever selects it.
\<close>
theorem undatable_partition_unreachable:
  assumes "sint (record_time created_at now) < - 62167219200"
  shows "period_of p (route p rec created_at now) = None \<and>
    route p rec created_at now \<notin> set (view_as_of p cs (Range lo hi) now') \<and>
    (\<forall>ex. expired_partitions p cs cutoff = Inr ex \<longrightarrow> (route p rec created_at now, cid) \<notin> set ex)"
proof -
  define z where "z = sint (record_time created_at now) div 86400"
  have day: "record_day created_at now = z" by (simp add: record_day_def z_def record_time_def)
  obtain y m d where c: "civil_from_days z = (y, m, d)" by (metis prod_cases3)
  have "z < - 719528" using assms by (simp add: z_def)
  then have "y < 0" using year_nonneg [OF c] by simp
  then have "period_of p (route p rec created_at now) = None"
    by (cases "pn_by p") (simp_all add: period_of_def route_def day c parse_negative_year)
  then show ?thesis
    by (auto simp: view_as_of_def in_window_def expired_partitions_def split: if_splits)
qed

section \<open>Examples\<close>

definition ex_daily :: "unit partitioned" where
  "ex_daily = \<lparr>pn_base = ''memory'', pn_by = ByDay\<rparr>"

definition ex_monthly :: "unit partitioned" where
  "ex_monthly = \<lparr>pn_base = ''memory'', pn_by = ByMonth\<rparr>"

lemma forget_spares_recent_witness:
  "\<exists>ex. expired_partitions ex_daily [(route ex_daily () (Some 1000) 0, 7)] 3000000 = Inr ex \<and>
    (route ex_daily () (Some 1000) 0, 7) \<in> set ex"
proof -
  let ?cs = "[(route ex_daily () (Some 1000) 0, 7)]"
  obtain ex where ex: "expired_partitions ex_daily ?cs 3000000 = Inr ex"
    by (simp add: expired_partitions_def ex_daily_def)
  have "datable (record_time (Some 1000) 0)" by (simp add: datable_def record_time_def)
  from forget_spares_recent [OF ex this, of "()" 7] ex show ?thesis by (auto simp: record_time_def)
qed

lemma view_covers_window_witness:
  "route ex_monthly () None 5000 \<in> set (view_as_of ex_monthly [(route ex_monthly () None 5000, 1)] (LastDays 2) 90000)"
proof -
  have "is_time (pn_by ex_monthly)" by (simp add: ex_monthly_def)
  moreover have "datable (record_time None 5000)" by (simp add: datable_def record_time_def)
  ultimately show ?thesis
    using view_covers_window [of ex_monthly None 5000 "()" 1 "[(route ex_monthly () None 5000, 1)]" 0 0 90000 2]
    by (simp add: record_time_def word_sle_eq)
qed

lemma undatable_partition_unreachable_witness:
  "period_of ex_daily (route ex_daily () (Some (- 62167219201)) 0) = None"
proof -
  have "sint (record_time (Some (- 62167219201)) 0) < - 62167219200" by (simp add: record_time_def)
  from undatable_partition_unreachable [OF this, of ex_daily "()" "[]" 0 0 0 0 0] show ?thesis by simp
qed

end
