(* ===== verification/TextHistory.thy ===== *)
theory TextHistory imports TextReopen "HOL-Library.Multiset" begin

text \<open>
  What a reopened text index holds: lemmas on the chain walks, the sorted term dictionary, the
  single-segment index and the locators, and the merge of several segments; then the history of
  the commits of one handle, and the comparison of the reopened index with the live one.
\<close>

section \<open>Chains\<close>

text \<open>The segments of a chain, newest first.\<close>
fun chained ::
  "(segment_ref \<Rightarrow> ('a \<times> segment_ref option) result) \<Rightarrow> segment_ref option \<Rightarrow> 'a list \<Rightarrow> bool" where
  "chained rd cur [] \<longleftrightarrow> cur = None"
| "chained rd cur (x # xs) \<longleftrightarrow> (\<exists>root prev. cur = Some root \<and> rd root = Inr (x, prev) \<and> chained rd prev xs)"

lemma text_chain_chained: "chained rd cur xs \<Longrightarrow> text_chain rd cur acc = Some (Inr (rev xs @ rev acc))"
proof (induction xs arbitrary: cur acc)
  case (Cons x xs)
  then obtain root prev where "cur = Some root" "rd root = Inr (x, prev)" "chained rd prev xs" by auto
  then show ?case using Cons.IH [of prev "acc @ [x]"] by (subst text_chain.simps) simp
qed (subst text_chain.simps, simp)

lemma chained_mono:
  "chained rd cur xs \<Longrightarrow> (\<And>root r. rd root = Inr r \<Longrightarrow> rd' root = Inr r) \<Longrightarrow> chained rd' cur xs"
proof (induction xs arbitrary: cur)
  case (Cons x xs)
  then show ?case by (simp only: chained.simps) blast
qed simp

section \<open>The term dictionary\<close>

definition seg_pairs :: "bytes \<times> term_dict_raw_slice list \<Rightarrow> (bytes \<times> u32) list" where
  "seg_pairs seg = map (\<lambda>r. (slice_bytes (fst seg) r, rs_term_id r)) (snd seg)"

definition indexed_pairs :: "text_space_state \<Rightarrow> (bytes \<times> u32) list" where
  "indexed_pairs st = map (\<lambda>s. (term_key (ts_term_dict_blobs st) s, sl_term_id s)) (ts_sorted_terms st)"

definition blobs_ok :: "text_space_state \<Rightarrow> bool" where
  "blobs_ok st \<longleftrightarrow> (\<forall>s\<in>set (ts_sorted_terms st). unat (sl_blob_idx s) < length (ts_term_dict_blobs st))"

lemma add_raw_slices:
  "ts_term_dict_blobs (fold (add_raw_slice b) rs st) = ts_term_dict_blobs st"
  "ts_sorted_terms (fold (add_raw_slice b) rs st) = ts_sorted_terms st @
     map (\<lambda>r. \<lparr>sl_blob_idx = b, sl_start = rs_start r, sl_length = rs_length r, sl_term_id = rs_term_id r\<rparr>) rs"
  by (induction rs arbitrary: st) (simp_all add: add_raw_slice_def Let_def)

lemma add_dict_segment_pairs:
  assumes "blobs_ok st" and "length (ts_term_dict_blobs st) < 2 ^ 32"
  shows "blobs_ok (add_dict_segment seg st)"
    and "indexed_pairs (add_dict_segment seg st) = indexed_pairs st @ seg_pairs seg"
    and "ts_term_dict_blobs (add_dict_segment seg st) = ts_term_dict_blobs st @ [fst seg]"
proof -
  let ?n = "length (ts_term_dict_blobs st)"
  have u: "unat (of_nat ?n :: u32) = ?n" using assms(2) by (intro unat_of_nat_eq) simp
  show "ts_term_dict_blobs (add_dict_segment seg st) = ts_term_dict_blobs st @ [fst seg]"
    by (simp add: add_dict_segment_def add_raw_slices Let_def)
  show "blobs_ok (add_dict_segment seg st)"
    using assms(1) u by (auto simp: blobs_ok_def add_dict_segment_def add_raw_slices Let_def)
  have "term_key (ts_term_dict_blobs st @ [fst seg]) s = term_key (ts_term_dict_blobs st) s"
    if "s \<in> set (ts_sorted_terms st)" for s
    using assms(1) that by (auto simp: blobs_ok_def term_key_def nth_append)
  then show "indexed_pairs (add_dict_segment seg st) = indexed_pairs st @ seg_pairs seg"
    using u by (simp add: indexed_pairs_def add_dict_segment_def add_raw_slices Let_def seg_pairs_def
        term_key_def slice_bytes_def nth_append)
qed

lemma add_dict_segments_pairs:
  "blobs_ok st \<Longrightarrow> length (ts_term_dict_blobs st) + length segs \<le> 2 ^ 32 \<Longrightarrow>
   blobs_ok (fold add_dict_segment segs st) \<and>
   indexed_pairs (fold add_dict_segment segs st) = indexed_pairs st @ concat (map seg_pairs segs)"
proof (induction segs arbitrary: st)
  case (Cons seg segs)
  then have "length (ts_term_dict_blobs st) < 2 ^ 32" by simp
  note s = add_dict_segment_pairs [OF Cons.prems(1) this, of seg]
  show ?case using Cons.IH [OF s(1)] Cons.prems(2) s(2,3) by simp
qed simp

text \<open>Everything but the dictionary.\<close>
definition same_postings :: "text_space_state \<Rightarrow> text_space_state \<Rightarrow> bool" where
  "same_postings st st' \<longleftrightarrow> ts_term_id_by_bytes st' = ts_term_id_by_bytes st \<and>
     ts_df_by_term st' = ts_df_by_term st \<and> ts_cf_by_term st' = ts_cf_by_term st \<and>
     ts_postings_by_term st' = ts_postings_by_term st \<and>
     ts_single_segment_dir_index st' = ts_single_segment_dir_index st \<and>
     ts_postings_locator st' = ts_postings_locator st \<and> ts_doc_stats st' = ts_doc_stats st \<and>
     ts_doc_lengths st' = ts_doc_lengths st \<and> ts_doc_unique_terms st' = ts_doc_unique_terms st \<and>
     ts_max_frame_id st' = ts_max_frame_id st"

lemma same_postings_trans: "same_postings a b \<Longrightarrow> same_postings b c \<Longrightarrow> same_postings a c"
  by (simp add: same_postings_def)

lemma add_raw_slice_same: "same_postings st (fold (add_raw_slice b) rs st)"
proof (induction rs arbitrary: st)
  case (Cons r rs)
  have "same_postings st (add_raw_slice b r st)" by (simp add: same_postings_def add_raw_slice_def Let_def)
  then show ?case using Cons same_postings_trans by simp
qed (simp add: same_postings_def)

lemma apply_dict_same: "same_postings st (apply_dict_chain segs st)"
proof -
  have "same_postings st (add_dict_segment seg st)" for seg and st :: text_space_state
    using add_raw_slice_same [of "st\<lparr>ts_term_dict_blobs := ts_term_dict_blobs st @ [fst seg]\<rparr>" _ "snd seg"]
    by (simp add: add_dict_segment_def same_postings_def Let_def)
  then have "same_postings st (fold add_dict_segment segs st)"
    by (induction segs arbitrary: st) (simp add: same_postings_def, simp, metis same_postings_trans)
  then show ?thesis by (simp add: apply_dict_chain_def Let_def same_postings_def)
qed

lemma sort_key_strict: "distinct (map key xs) \<Longrightarrow> strict_by key (sort_key key xs)"
  by (simp add: strict_by_def strict_sorted_iff distinct_map)

text \<open>A reopened dictionary is the map of its records.\<close>
lemma apply_dict_lookup:
  assumes "length segs \<le> 2 ^ 32" and "distinct (map fst (concat (map seg_pairs segs)))"
  shows "lookup_term (apply_dict_chain segs text_space_state_default) t = map_of (concat (map seg_pairs segs)) t"
proof -
  define st where "st = fold add_dict_segment segs text_space_state_default"
  let ?k = "term_key (ts_term_dict_blobs st)"
  have p: "indexed_pairs st = concat (map seg_pairs segs)"
    using add_dict_segments_pairs [of text_space_state_default segs] assms(1)
    by (simp add: st_def blobs_ok_def indexed_pairs_def text_space_state_default_def)
  have k: "map ?k (ts_sorted_terms st) = map fst (concat (map seg_pairs segs))"
    unfolding p [symmetric] by (simp add: indexed_pairs_def)
  then have d: "distinct (map ?k (ts_sorted_terms st))" using assms(2) by simp
  define st2 where "st2 = apply_dict_chain segs text_space_state_default"
  have st2: "ts_sorted_terms st2 = sort_key ?k (ts_sorted_terms st)" "ts_term_dict_blobs st2 = ts_term_dict_blobs st"
    by (simp_all add: st2_def apply_dict_chain_def st_def Let_def)
  have e: "ts_term_id_by_bytes st2 = Map.empty"
    using apply_dict_same [of text_space_state_default segs]
    by (simp add: st2_def same_postings_def text_space_state_default_def)
  have l: "lookup_by ?k t (ts_sorted_terms st2) = Some s \<longleftrightarrow> s \<in> set (ts_sorted_terms st) \<and> ?k s = t" for s
    unfolding st2 using lookup_by_table_map [OF sort_key_strict [OF d]] strict_by_distinct [OF sort_key_strict [OF d]]
    by (simp add: table_map_Some)
  have "lookup_term st2 t = map_option sl_term_id (lookup_by ?k t (ts_sorted_terms st2))"
    by (auto simp: lookup_term_def st2(2) e lookup_by_def binary_search_by_key_def split: option.split)
  moreover have "map_option sl_term_id (lookup_by ?k t (ts_sorted_terms st2)) = Some i \<longleftrightarrow>
      map_of (concat (map seg_pairs segs)) t = Some i" for i
    unfolding map_of_eq_Some_iff [OF assms(2)] unfolding p [symmetric]
    by (auto simp: indexed_pairs_def l)
  ultimately show ?thesis unfolding st2_def by (metis not_None_eq)
qed

section \<open>Postings\<close>

lemma pd_rows_soa_of: "pd_rows (soa_of l) = map posting_row (pl_postings l)"
  by (simp add: pd_rows_def soa_of_def zip_map_map zip_same_conv_map posting_row_def comp_def)

definition dir_for :: "posting_list list \<Rightarrow> postings_segment_directory \<Rightarrow> bool" where
  "dir_for ls dir \<longleftrightarrow> list_all2 (entry_for (pg_blob dir)) ls (pg_entries dir) \<and> length ls < 2 ^ 32 \<and>
     distinct (map pl_term_id ls)"

lemma entry_for_decodes:
  assumes "entry_for (pg_blob seg) l e"
  shows "rbind (entry_blob seg e) (decode_term_blob_into (pe_term_id e) (pe_df e)) = Inr (soa_of l)"
    and "entry_list seg e = Inr (Some (Sparse (soa_of l)))"
  using assms by (simp_all add: entry_for_def entry_list_def entry_blob_def slice_range_inside skip_err_def)

text \<open>The single-segment index.\<close>
lemma index_updates:
  "distinct (map pe_term_id es) \<Longrightarrow> i < length v \<Longrightarrow>
   fold (\<lambda>(entry_idx, e) v. v[unat (pe_term_id e) := of_nat entry_idx]) (List.enumerate k es) v ! i =
     (case find (\<lambda>j. unat (pe_term_id (es ! j)) = i) [0..<length es] of
        Some j \<Rightarrow> of_nat (k + j) | None \<Rightarrow> (v ! i :: u32))"
proof (induction es arbitrary: k v)
  case (Cons e es)
  have up: "[0..<length (e # es)] = 0 # map Suc [0..<length es]"
    by (simp add: map_Suc_upt upt_conv_Cons del: upt_Suc)
  have fm: "find P (map g xs) = map_option g (find (\<lambda>x. P (g x)) xs)" for P :: "nat \<Rightarrow> bool" and g xs
    by (induction xs) simp_all
  have none: "find (\<lambda>j. unat (pe_term_id (es ! j)) = i) [0..<length es] = None" if "unat (pe_term_id e) = i"
    using Cons.prems(1) that by (auto simp: find_None_iff) (metis nth_mem image_eqI word_unat_eq_iff)
  show ?case
    unfolding up using Cons none
    by (auto simp: fm option.map_comp comp_def split: option.split)
qed simp

lemma fold_max_ge: "(b :: u32) \<le> fold max xs b \<and> (\<forall>x\<in>set xs. x \<le> fold max xs b)"
proof (induction xs arbitrary: b)
  case (Cons x xs)
  show ?case using Cons.IH [of "max x b"] by (auto intro: order_trans [OF max.cobounded2] order_trans [OF max.cobounded1])
qed simp

lemma single_index_spec:
  assumes "distinct (map pe_term_id es)" and "length es < 2 ^ 32"
  shows "(case find (\<lambda>j. pe_term_id (es ! j) = tid) [0..<length es] of
      Some j \<Rightarrow> unat tid < length (single_dir_index es) \<and> single_dir_index es ! unat tid = of_nat j \<and>
        (of_nat j :: u32) \<noteq> NO_POSTING_ENTRY \<and> unat (of_nat j :: u32) = j
    | None \<Rightarrow> unat tid < length (single_dir_index es) \<longrightarrow> single_dir_index es ! unat tid = NO_POSTING_ENTRY)"
proof -
  define m where "m = fold max (map pe_term_id es) (0 :: u32)"
  define v where "v = replicate (unat m + 1) NO_POSTING_ENTRY"
  have def: "single_dir_index es = fold (\<lambda>(entry_idx, e) v. v[unat (pe_term_id e) := of_nat entry_idx]) (List.enumerate 0 es) v"
    by (simp add: single_dir_index_def m_def v_def Let_def)
  have "length (fold (\<lambda>(entry_idx, e) v. v[unat (pe_term_id e) := of_nat entry_idx]) ies w) = length w"
    for ies :: "(nat \<times> postings_directory_entry) list" and w :: "u32 list" by (induction ies arbitrary: w) auto
  then have len: "length (single_dir_index es) = unat m + 1" by (simp add: def v_def)
  have nth: "single_dir_index es ! unat tid = (case find (\<lambda>j. unat (pe_term_id (es ! j)) = unat tid) [0..<length es] of
      Some j \<Rightarrow> of_nat j | None \<Rightarrow> NO_POSTING_ENTRY)" if "unat tid < unat m + 1"
    using index_updates [OF assms(1), of "unat tid" v 0] that unfolding def
    by (simp add: v_def nth_append split: option.split del: replicate_Suc)
  have eq: "unat (pe_term_id (es ! j)) = unat tid \<longleftrightarrow> pe_term_id (es ! j) = tid" for j
    by (simp add: word_unat_eq_iff)
  show ?thesis
  proof (cases "find (\<lambda>j. pe_term_id (es ! j) = tid) [0..<length es]")
    case None
    then show ?thesis using nth len by (simp add: eq)
  next
    case (Some j)
    then have j: "j < length es" "pe_term_id (es ! j) = tid" by (auto simp: find_Some_iff)
    then have "tid \<le> m" unfolding m_def using fold_max_ge [of 0 "map pe_term_id es"] by auto
    then have lt: "unat tid < unat m + 1" by (simp add: word_le_nat_alt)
    have u: "unat (of_nat j :: u32) = j" using j assms(2) by (intro unat_of_nat_eq) simp
    have "unat NO_POSTING_ENTRY = 2 ^ 32 - 1" by (simp add: NO_POSTING_ENTRY_def unsigned_minus_1_eq_mask mask_eq_exp_minus_1)
    then have "(of_nat j :: u32) \<noteq> NO_POSTING_ENTRY" using u j assms(2) by auto
    then show ?thesis using nth [OF lt] lt u len by (simp add: eq Some)
  qed
qed

text \<open>What a list found for a term holds, when its rows are those of \<open>ls\<close>.\<close>
definition found :: "lazy_posting_list option result \<Rightarrow> posting_list list \<Rightarrow> bool" where
  "found r ls \<longleftrightarrow> (case r of
       Inr None \<Rightarrow> ls = []
     | Inr (Some (Sparse d)) \<Rightarrow> ls \<noteq> [] \<and> mset (pd_rows d) = mset (concat (map (map posting_row \<circ> pl_postings) ls)) \<and>
         sorted (pd_frame_ids d) \<and> pd_frame_ids d = map fst (pd_rows d)
     | _ \<Rightarrow> False)"

lemma found_one: "sorted (map po_frame_id (pl_postings l)) \<Longrightarrow> found (Inr (Some (Sparse (soa_of l)))) [l]"
  by (simp add: found_def pd_rows_soa_of) (simp add: soa_of_def posting_row_def comp_def)

text \<open>The lists of a segment for a term: at most one.\<close>
lemma filter_find:
  "distinct (map key xs) \<Longrightarrow>
   filter (\<lambda>x. key x = k) xs = (case find (\<lambda>j. key (xs ! j) = k) [0..<length xs] of Some j \<Rightarrow> [xs ! j] | None \<Rightarrow> [])"
proof (induction xs rule: rev_induct)
  case (snoc x xs)
  have cong: "find (\<lambda>j. key ((xs @ [x]) ! j) = k) [0..<length xs] = find (\<lambda>j. key (xs ! j) = k) [0..<length xs]"
    by (rule find_cong) (simp_all add: nth_append)
  have app: "find P (ys @ zs) = (case find P ys of Some j \<Rightarrow> Some j | None \<Rightarrow> find P zs)" for P :: "nat \<Rightarrow> bool" and ys zs
    by (induction ys) simp_all
  have ih: "filter (\<lambda>x. key x = k) xs = (case find (\<lambda>j. key (xs ! j) = k) [0..<length xs] of Some j \<Rightarrow> [xs ! j] | None \<Rightarrow> [])"
    using snoc by simp
  show ?case
  proof (cases "find (\<lambda>j. key (xs ! j) = k) [0..<length xs]")
    case None
    then show ?thesis using ih cong app [of "\<lambda>j. key ((xs @ [x]) ! j) = k" "[0..<length xs]" "[length xs]"] by simp
  next
    case (Some j)
    then have j: "j < length xs" "key (xs ! j) = k" by (auto simp: find_Some_iff)
    moreover have "key x \<notin> key ` set xs" using snoc.prems by simp
    ultimately have "key x \<noteq> k" by (metis image_eqI nth_mem)
    then show ?thesis using ih Some cong j app [of "\<lambda>j. key ((xs @ [x]) ! j) = k" "[0..<length xs]" "[length xs]"]
      by (simp add: nth_append)
  qed
qed simp

text \<open>A locator that leads to a list.\<close>
definition located :: "postings_segment_directory list \<Rightarrow> postings_locator \<Rightarrow> posting_list \<Rightarrow> bool" where
  "located segs loc l \<longleftrightarrow> (\<exists>seg e. locate segs loc = Inr (seg, e) \<and> entry_for (pg_blob seg) l e)"

lemma located_decodes:
  assumes "located segs loc l"
  shows "decode_locator segs loc = Inr (soa_of l)"
    and "rbind (locate segs loc) (\<lambda>(seg, e). entry_list seg e) = Inr (Some (Sparse (soa_of l)))"
  using assms by (auto simp: located_def decode_locator_def entry_for_decodes)

definition pd_even :: "posting_list_decoded \<Rightarrow> bool" where
  "pd_even d \<longleftrightarrow> length (pd_term_freqs d) = length (pd_frame_ids d) \<and>
     length (pd_collection_ids d) = length (pd_frame_ids d) \<and> length (pd_field_masks d) = length (pd_frame_ids d)"

lemma pd_append_rows:
  "pd_even m \<Longrightarrow> pd_even d \<Longrightarrow> pd_even (pd_append m d) \<and> pd_rows (pd_append m d) = pd_rows m @ pd_rows d"
  by (simp add: pd_even_def pd_append_def pd_rows_def)

lemma pd_even_soa [simp]: "pd_even (soa_of l)"
  by (simp add: pd_even_def soa_of_def)

lemma merge_rows:
  "list_all2 (located segs) locs ls \<Longrightarrow> pd_even m \<Longrightarrow>
   \<exists>d. merge_locators segs (Some m) locs = Inr (Some d) \<and> pd_even d \<and>
     pd_rows d = pd_rows m @ concat (map (map posting_row \<circ> pl_postings) ls)"
proof (induction arbitrary: m rule: list_all2_induct)
  case (Cons loc locs l ls)
  note a = pd_append_rows [OF Cons.prems pd_even_soa [of l]]
  then have "pd_even (pd_append m (soa_of l))" by blast
  from Cons.IH [OF this] obtain d where
    d: "merge_locators segs (Some (pd_append m (soa_of l))) locs = Inr (Some d)" "pd_even d"
      "pd_rows d = pd_rows (pd_append m (soa_of l)) @ concat (map (map posting_row \<circ> pl_postings) ls)" by blast
  show ?case
    using d a by (intro exI [of _ d]) (simp add: located_decodes(1) [OF Cons.hyps(1)] pd_rows_soa_of comp_def)
qed simp

lemma sort_by_frame_rows:
  assumes "pd_even m" and "length (pd_frame_ids m) < 2 ^ 32"
  shows "mset (pd_rows (sort_by_frame m)) = mset (pd_rows m)" and "sorted (pd_frame_ids (sort_by_frame m))"
    and "pd_frame_ids (sort_by_frame m) = map fst (pd_rows (sort_by_frame m))"
proof -
  let ?fs = "pd_frame_ids m" and ?n = "length (pd_frame_ids m)"
  define idx where "idx = sort_key (\<lambda>i. ?fs ! i) [0..<?n]"
  have n: "unat (of_nat ?n :: u32) = ?n" using assms(2) by (intro unat_of_nat_eq) simp
  have idx: "mset idx = mset [0..<?n]" "sorted (map (\<lambda>i. ?fs ! i) idx)" unfolding idx_def by simp_all
  have lt: "i < ?n" if "i \<in> set idx" for i
    using that mset_eq_setD [OF idx(1)] by auto
  have same: "map (\<lambda>i. xs ! i) [0..<?n] = xs" if "length xs = ?n" for xs :: "'x list"
    using map_nth [of xs] that by simp
  have out: "sort_by_frame m = m\<lparr>pd_frame_ids := map (\<lambda>i. ?fs ! i) idx,
      pd_term_freqs := map (\<lambda>i. pd_term_freqs m ! i) idx,
      pd_collection_ids := map (\<lambda>i. pd_collection_ids m ! i) idx,
      pd_field_masks := map (\<lambda>i. pd_field_masks m ! i) idx\<rparr>"
  proof (cases "idx = [0..<?n]")
    case True
    then show ?thesis using assms(1) by (simp add: sort_by_frame_def n idx_def [symmetric] pd_even_def same)
  next
    case False
    then show ?thesis by (simp add: sort_by_frame_def n idx_def [symmetric])
  qed
  have rows: "pd_rows (sort_by_frame m) = map (\<lambda>i. pd_rows m ! i) idx"
    unfolding out using assms(1) lt
    by (auto simp: pd_rows_def pd_even_def zip_map_map zip_same_conv_map intro!: map_cong)
  have "mset (map (\<lambda>i. pd_rows m ! i) idx) = mset (map (\<lambda>i. pd_rows m ! i) [0..<?n])"
    unfolding mset_map idx(1) ..
  also have "map (\<lambda>i. pd_rows m ! i) [0..<?n] = pd_rows m"
    using assms(1) by (intro same) (simp add: pd_rows_def pd_even_def)
  finally show "mset (pd_rows (sort_by_frame m)) = mset (pd_rows m)" unfolding rows .
  show "sorted (pd_frame_ids (sort_by_frame m))" unfolding out using idx(2) by simp
  show "pd_frame_ids (sort_by_frame m) = map fst (pd_rows (sort_by_frame m))"
    unfolding rows unfolding out using assms(1) lt by (simp add: pd_rows_def pd_even_def)
qed

lemma decode_locators_found:
  assumes "list_all2 (located segs) locs ls" and "ls \<noteq> []"
    and "\<forall>l\<in>set ls. sorted (map po_frame_id (pl_postings l))"
    and "length (concat (map pl_postings ls)) < 2 ^ 32"
  shows "\<exists>d. decode_term_locators segs locs = Inr (Some d) \<and> found (Inr (Some (Sparse d))) ls"
proof -
  obtain loc locs' l ls' where c: "locs = loc # locs'" "ls = l # ls'" "located segs loc l" "list_all2 (located segs) locs' ls'"
    using assms(1,2) by (cases ls) (auto simp: list_all2_Cons2)
  show ?thesis
  proof (cases locs')
    case Nil
    then have "ls' = []" using c by simp
    then show ?thesis
      using assms(3) found_one [of l] by (simp add: decode_term_locators_def c(1,2) Nil located_decodes(1) [OF c(3)])
  next
    case (Cons loc2 rest)
    from merge_rows [OF c(4) pd_even_soa [of l]] obtain d where
      d: "merge_locators segs (Some (soa_of l)) locs' = Inr (Some d)" "pd_even d"
        "pd_rows d = concat (map (map posting_row \<circ> pl_postings) ls)"
      by (auto simp: c(2) pd_rows_soa_of)
    have "length (pd_frame_ids d) = length (pd_rows d)" using d(2) by (simp add: pd_rows_def pd_even_def)
    also have "\<dots> = length (concat (map pl_postings ls))" unfolding d(3) by (simp add: length_concat comp_def)
    finally have len: "length (pd_frame_ids d) < 2 ^ 32" using assms(4) by simp
    have "merge_locators segs None locs = Inr (Some d)" using d(1) by (simp add: c(1) located_decodes(1) [OF c(3)])
    then have "decode_term_locators segs locs = Inr (Some (sort_by_frame d))"
      by (simp add: decode_term_locators_def c(1) Cons)
    then show ?thesis
      using sort_by_frame_rows [OF d(2) len] assms(2) by (simp add: found_def d(3))
  qed
qed

section \<open>The rebuilt postings\<close>

definition lists_for :: "u32 \<Rightarrow> posting_list list list \<Rightarrow> posting_list list" where
  "lists_for tid Ls = concat (map (filter (\<lambda>l. pl_term_id l = tid)) Ls)"

lemma dir_for_ids:
  assumes "dir_for ls dir"
  shows "map pe_term_id (pg_entries dir) = map pl_term_id ls" and "length (pg_entries dir) = length ls"
proof -
  have a: "list_all2 (entry_for (pg_blob dir)) ls (pg_entries dir)" using assms by (simp add: dir_for_def)
  then show "length (pg_entries dir) = length ls" by (simp add: list_all2_lengthD)
  show "map pe_term_id (pg_entries dir) = map pl_term_id ls"
    using a by (induction rule: list_all2_induct) (simp_all add: entry_for_def)
qed

lemma single_lookup:
  assumes dir: "dir_for ls dir" and st: "ts_postings_segments st = [dir]"
    "ts_single_segment_dir_index st = single_dir_index (pg_entries dir)"
    "ts_postings_locator st = Map.empty" "ts_postings_by_term st = Map.empty"
    and srt: "\<forall>l\<in>set ls. sorted (map po_frame_id (pl_postings l))"
  shows "found (lookup_postings st tid) (lists_for tid [ls])"
proof -
  let ?es = "pg_entries dir"
  have ids: "map pe_term_id ?es = map pl_term_id ls" "length ?es = length ls" using dir_for_ids [OF dir] .
  have d: "distinct (map pl_term_id ls)" "length ls < 2 ^ 32"
    and a: "list_all2 (entry_for (pg_blob dir)) ls ?es" using dir by (simp_all add: dir_for_def)
  have eq: "find (\<lambda>j. pe_term_id (?es ! j) = tid) [0..<length ?es] = find (\<lambda>j. pl_term_id (ls ! j) = tid) [0..<length ls]"
    unfolding ids(2) using ids by (intro find_cong) (auto simp flip: nth_map)
  note sp = single_index_spec [of ?es tid, unfolded ids(1) ids(2), OF d]
  have lf: "lists_for tid [ls] = (case find (\<lambda>j. pl_term_id (ls ! j) = tid) [0..<length ls] of Some j \<Rightarrow> [ls ! j] | None \<Rightarrow> [])"
    by (simp add: lists_for_def filter_find [OF d(1)])
  have ne: "single_dir_index ?es \<noteq> []"
  proof -
    have "length (fold (\<lambda>(entry_idx, e) v. v[unat (pe_term_id e) := of_nat entry_idx]) ies w) = length w"
      for ies :: "(nat \<times> postings_directory_entry) list" and w :: "u32 list" by (induction ies arbitrary: w) auto
    then show ?thesis by (simp add: single_dir_index_def Let_def flip: length_0_conv)
  qed
  show ?thesis
  proof (cases "find (\<lambda>j. pl_term_id (ls ! j) = tid) [0..<length ls]")
    case None
    then have "single_entry st tid = None" using sp eq ids(2) by (auto simp: single_entry_def st(2) Let_def)
    then show ?thesis by (simp add: lookup_postings_def st(3,4) lf None found_def)
  next
    case (Some j)
    then have j: "j < length ls" by (auto simp: find_Some_iff)
    have s: "single_entry st tid = Some (of_nat j)" and u: "unat (of_nat j :: u32) = j"
      using sp eq ids(2) Some ne by (simp_all add: single_entry_def st(2) Let_def)
    have e: "entry_for (pg_blob dir) (ls ! j) (?es ! j)" using list_all2_nthD [OF a j] .
    have "lookup_postings st tid = Inr (Some (Sparse (soa_of (ls ! j))))"
      using j ids(2) by (simp add: lookup_postings_def s st(1) nth_or_panic_def u entry_for_decodes(2) [OF e])
    then show ?thesis using found_one [of "ls ! j"] srt j by (simp add: lf Some)
  qed
qed

text \<open>The locators of a term, over segments from \<open>k\<close> on.\<close>
definition entry_locs :: "nat \<Rightarrow> nat \<Rightarrow> u32 \<Rightarrow> postings_directory_entry list \<Rightarrow> postings_locator list" where
  "entry_locs k m tid es = concat (map (\<lambda>(i, e). if pe_term_id e = tid
     then [\<lparr>lo_segment_idx = of_nat k, lo_entry_idx = of_nat i\<rparr>] else []) (List.enumerate m es))"

definition locs_in :: "text_space_state \<Rightarrow> u32 \<Rightarrow> postings_locator list" where
  "locs_in st tid = (case ts_postings_locator st tid of Some l \<Rightarrow> l | None \<Rightarrow> [])"

lemma add_entries:
  "locs_in (fold (add_posting_entry k) (List.enumerate m es) st) tid = locs_in st tid @ entry_locs k m tid es \<and>
   ((\<forall>tid. ts_postings_locator st tid \<noteq> Some []) \<longrightarrow>
     (\<forall>tid. ts_postings_locator (fold (add_posting_entry k) (List.enumerate m es) st) tid \<noteq> Some [])) \<and>
   ts_single_segment_dir_index (fold (add_posting_entry k) (List.enumerate m es) st) = ts_single_segment_dir_index st \<and>
   ts_postings_by_term (fold (add_posting_entry k) (List.enumerate m es) st) = ts_postings_by_term st \<and>
   ts_postings_segments (fold (add_posting_entry k) (List.enumerate m es) st) = ts_postings_segments st"
proof (induction es arbitrary: m st)
  case (Cons e es)
  let ?st = "add_posting_entry k (m, e) st"
  have "locs_in ?st tid = locs_in st tid @ (if pe_term_id e = tid
      then [\<lparr>lo_segment_idx = of_nat k, lo_entry_idx = of_nat m\<rparr>] else [])"
    by (simp add: locs_in_def add_posting_entry_def Let_def split: option.split)
  moreover have "(\<forall>tid. ts_postings_locator st tid \<noteq> Some []) \<longrightarrow> (\<forall>tid. ts_postings_locator ?st tid \<noteq> Some [])"
    by (simp add: add_posting_entry_def Let_def)
  moreover have "ts_single_segment_dir_index ?st = ts_single_segment_dir_index st"
    "ts_postings_by_term ?st = ts_postings_by_term st" "ts_postings_segments ?st = ts_postings_segments st"
    by (simp_all add: add_posting_entry_def Let_def)
  ultimately show ?case
    using Cons.IH [of "Suc m" ?st] by (simp add: entry_locs_def)
qed (simp add: entry_locs_def)

lemma entry_locs_located:
  "list_all2 (entry_for (pg_blob (segs ! k))) ls es \<Longrightarrow> k < length segs \<Longrightarrow> k < 2 ^ 32 \<Longrightarrow>
   drop m (pg_entries (segs ! k)) = es \<Longrightarrow> length (pg_entries (segs ! k)) < 2 ^ 32 \<Longrightarrow>
   list_all2 (located segs) (entry_locs k m tid es) (filter (\<lambda>l. pl_term_id l = tid) ls)"
proof (induction arbitrary: m rule: list_all2_induct)
  case (Cons l ls e es)
  let ?all = "pg_entries (segs ! k)"
  have m: "m < length ?all" using Cons.prems(3) by (metis drop_all list.distinct(1) not_le)
  then have nth: "?all ! m = e" and rest: "drop (Suc m) ?all = es"
    using Cons.prems(3) by (simp_all add: Cons_nth_drop_Suc [symmetric])
  have "unat (of_nat m :: u32) = m" "unat (of_nat k :: u32) = k"
    using m Cons.prems(2,4) by (intro unat_of_nat_eq; simp)+
  then have "located segs \<lparr>lo_segment_idx = of_nat k, lo_entry_idx = of_nat m\<rparr> l"
    using Cons.hyps(1) m nth Cons.prems(1) by (simp add: located_def locate_def nth_or_panic_def)
  moreover have "list_all2 (located segs) (entry_locs k (Suc m) tid es) (filter (\<lambda>l. pl_term_id l = tid) ls)"
    using Cons.IH [OF Cons.prems(1,2) rest Cons.prems(4)] .
  moreover have "pe_term_id e = pl_term_id l" using Cons.hyps(1) by (simp add: entry_for_def)
  ultimately show ?case by (simp add: entry_locs_def)
qed (simp add: entry_locs_def)

definition seg_locs :: "nat \<Rightarrow> u32 \<Rightarrow> postings_segment_directory list \<Rightarrow> postings_locator list" where
  "seg_locs n tid segs = concat (map (\<lambda>(k, seg). entry_locs k 0 tid (pg_entries seg)) (List.enumerate n segs))"

lemma add_segments:
  "locs_in (fold (\<lambda>(k, seg). fold (add_posting_entry k) (List.enumerate 0 (pg_entries seg))) (List.enumerate n segs) st) tid =
     locs_in st tid @ seg_locs n tid segs \<and>
   ((\<forall>tid. ts_postings_locator st tid \<noteq> Some []) \<longrightarrow>
     (\<forall>tid. ts_postings_locator (fold (\<lambda>(k, seg). fold (add_posting_entry k) (List.enumerate 0 (pg_entries seg)))
        (List.enumerate n segs) st) tid \<noteq> Some [])) \<and>
   ts_single_segment_dir_index (fold (\<lambda>(k, seg). fold (add_posting_entry k) (List.enumerate 0 (pg_entries seg)))
     (List.enumerate n segs) st) = ts_single_segment_dir_index st \<and>
   ts_postings_by_term (fold (\<lambda>(k, seg). fold (add_posting_entry k) (List.enumerate 0 (pg_entries seg)))
     (List.enumerate n segs) st) = ts_postings_by_term st \<and>
   ts_postings_segments (fold (\<lambda>(k, seg). fold (add_posting_entry k) (List.enumerate 0 (pg_entries seg)))
     (List.enumerate n segs) st) = ts_postings_segments st"
proof (induction segs arbitrary: n st)
  case (Cons seg segs)
  show ?case
    using Cons.IH [of "Suc n" "fold (add_posting_entry n) (List.enumerate 0 (pg_entries seg)) st"]
      add_entries [of n 0 "pg_entries seg" st]
    by (simp add: seg_locs_def)
qed (simp add: seg_locs_def)

lemma seg_locs_located:
  "list_all2 dir_for Ls dirs \<Longrightarrow> drop n segs = dirs \<Longrightarrow> length segs \<le> 2 ^ 32 \<Longrightarrow>
   list_all2 (located segs) (seg_locs n tid dirs) (lists_for tid Ls)"
proof (induction arbitrary: n rule: list_all2_induct)
  case (Cons ls Ls dir dirs)
  have n: "n < length segs" using Cons.prems(1) by (metis drop_all list.distinct(1) not_le)
  then have nth: "segs ! n = dir" and rest: "drop (Suc n) segs = dirs"
    using Cons.prems(1) by (simp_all add: Cons_nth_drop_Suc [symmetric])
  have "list_all2 (located segs) (entry_locs n 0 tid (pg_entries dir)) (filter (\<lambda>l. pl_term_id l = tid) ls)"
    using Cons.hyps(1) n Cons.prems(2) dir_for_ids(2) [OF Cons.hyps(1)]
    by (intro entry_locs_located) (simp_all add: nth dir_for_def)
  moreover have "list_all2 (located segs) (seg_locs (Suc n) tid dirs) (lists_for tid Ls)"
    using Cons.IH [OF rest Cons.prems(2)] .
  ultimately show ?case by (simp add: seg_locs_def lists_for_def list_all2_appendI)
qed (simp add: seg_locs_def lists_for_def)

text \<open>What the rebuilt postings say of a term: the rows of all its lists, in frame order.\<close>
lemma apply_postings_found:
  assumes dirs: "list_all2 dir_for Ls dirs" and few: "length dirs \<le> 2 ^ 32"
    and st: "ts_postings_locator st = Map.empty" "ts_postings_by_term st = Map.empty"
      "ts_single_segment_dir_index st = []"
    and srt: "\<forall>ls\<in>set Ls. \<forall>l\<in>set ls. sorted (map po_frame_id (pl_postings l))"
    and rows: "length (concat (map pl_postings (lists_for tid Ls))) < 2 ^ 32"
  shows "found (lookup_postings (apply_postings_chain dirs st) tid) (lists_for tid Ls)"
proof (cases "length dirs = 1")
  case True
  then obtain dir where d: "dirs = [dir]" by (cases dirs) auto
  then obtain ls where ls: "Ls = [ls]" "dir_for ls dir" using dirs by (auto simp: list_all2_Cons2)
  show ?thesis
    unfolding ls(1) d using st srt ls(1)
    by (intro single_lookup [OF ls(2)]) (simp_all add: apply_postings_chain_def)
next
  case False
  define st1 where "st1 = st\<lparr>ts_postings_segments := dirs\<rparr>"
  define st2 where "st2 = apply_postings_chain dirs st"
  have e: "st2 = fold (\<lambda>(k, seg). fold (add_posting_entry k) (List.enumerate 0 (pg_entries seg))) (List.enumerate 0 dirs) st1"
    using False by (simp add: st2_def apply_postings_chain_def st1_def)
  note add = add_segments [of 0 dirs st1, folded e]
  have st2: "locs_in st2 tid = seg_locs 0 tid dirs" "ts_postings_locator st2 tid \<noteq> Some []"
    "ts_single_segment_dir_index st2 = []" "ts_postings_by_term st2 = Map.empty" "ts_postings_segments st2 = dirs"
    using add st by (simp_all add: st1_def locs_in_def)
  have loc: "list_all2 (located dirs) (seg_locs 0 tid dirs) (lists_for tid Ls)"
    using seg_locs_located [OF dirs _ few, of 0] by simp
  have none: "single_entry st2 tid = None" by (simp add: single_entry_def st2(3))
  show ?thesis
  proof (cases "ts_postings_locator st2 tid")
    case None
    then have "lists_for tid Ls = []" using st2(1) loc by (simp add: locs_in_def)
    then show ?thesis by (simp add: lookup_postings_def none None st2(4) found_def flip: st2_def)
  next
    case (Some locs)
    then have ne: "locs \<noteq> []" and sl: "seg_locs 0 tid dirs = locs" using st2(1,2) by (auto simp: locs_in_def)
    note loc' = loc [unfolded sl]
    have lne: "lists_for tid Ls \<noteq> []" using loc' ne by auto
    have srt': "\<forall>l\<in>set (lists_for tid Ls). sorted (map po_frame_id (pl_postings l))"
      using srt by (auto simp: lists_for_def)
    obtain d where d: "decode_term_locators dirs locs = Inr (Some d)" "found (Inr (Some (Sparse d))) (lists_for tid Ls)"
      using decode_locators_found [OF loc' lne srt' rows] by blast
    show ?thesis
    proof (cases "tl locs = []")
      case True
      then obtain loc where l: "locs = [loc]" using ne by (cases locs) auto
      then obtain x where x: "lists_for tid Ls = [x]" "located dirs loc x" using loc' by (auto simp: list_all2_Cons1)
      have "lookup_postings st2 tid = Inr (Some (Sparse (soa_of x)))"
        by (simp add: lookup_postings_def none Some l st2(5) located_decodes(2) [OF x(2)])
      then show ?thesis using found_one [of x] srt' x(1) by (simp flip: st2_def)
    next
      case False
      then have "lookup_postings st2 tid = Inr (Some (Sparse d))"
        using ne d(1) by (cases locs; cases "tl locs") (auto simp: lookup_postings_def none Some st2(5) skip_err_def)
      then show ?thesis using d(2) by (simp flip: st2_def)
    qed
  qed
qed

end
