(* ===== verification/TextSession.thy ===== *)
theory TextSession imports TextHistory CatalogTables begin

text \<open>
  The commits of one handle as a history of deltas, and the comparison of the index a reopen
  rebuilds from the file with the one the handle has in memory.
\<close>

section \<open>The history on disk\<close>

text \<open>The records, lists and document statistics of one flush; a history has the newest first.\<close>
type_synonym delta = "term_dictionary_entry list \<times> posting_list list \<times> doc_stats_entry list"

definition dict_pairs :: "term_dictionary_entry list \<Rightarrow> (bytes \<times> u32) list" where
  "dict_pairs d = map (\<lambda>e. (td_term_bytes e, td_term_id e)) d"

definition dict_for :: "delta \<Rightarrow> bytes \<times> term_dict_raw_slice list \<Rightarrow> bool" where
  "dict_for d seg \<longleftrightarrow> seg_pairs seg = dict_pairs (fst d)"

definition on_disk ::
  "hash \<Rightarrow> zstd_decode \<Rightarrow> storage \<Rightarrow> text_index_root \<Rightarrow> delta list \<Rightarrow> bool" where
  "on_disk h unz f root hist \<longleftrightarrow>
     ref_wf (tr_term_dictionary_root root) \<and> ref_wf (tr_postings_root root) \<and> ref_wf (tr_doc_stats_root root) \<and>
     (\<exists>D P S. chained (read_dict_segment h unz f) (tr_term_dictionary_root root) D \<and> list_all2 dict_for hist D \<and>
       chained (read_postings_directory h unz f) (tr_postings_root root) P \<and>
       list_all2 (\<lambda>d. dir_for (fst (snd d))) hist P \<and>
       chained (read_doc_stats h unz f) (tr_doc_stats_root root) S \<and>
       list_all2 (\<lambda>d s. dg_records s = snd (snd d)) hist S)"

lemma reads_append:
  "read_dict_segment h unz f root = Inr x \<Longrightarrow> read_dict_segment h unz (f @ g) root = Inr x"
  "read_postings_directory h unz f root = Inr y \<Longrightarrow> read_postings_directory h unz (f @ g) root = Inr y"
  "read_doc_stats h unz f root = Inr z \<Longrightarrow> read_doc_stats h unz (f @ g) root = Inr z"
proof -
  show "read_dict_segment h unz f root = Inr x \<Longrightarrow> read_dict_segment h unz (f @ g) root = Inr x"
    unfolding read_dict_segment_def
    using read_segment_payload_typed_append [of h unz f root TermDictionary _ g] by (simp only: rbind_Inr_iff) blast
  show "read_postings_directory h unz f root = Inr y \<Longrightarrow> read_postings_directory h unz (f @ g) root = Inr y"
    unfolding read_postings_directory_def
    using read_segment_payload_typed_append [of h unz f root Postings _ g] by (simp only: rbind_Inr_iff) blast
  show "read_doc_stats h unz f root = Inr z \<Longrightarrow> read_doc_stats h unz (f @ g) root = Inr z"
    unfolding read_doc_stats_def
    using read_segment_payload_typed_append [of h unz f root DocStats _ g] by (simp only: rbind_Inr_iff) blast
qed

lemma on_disk_append:
  assumes "on_disk h unz f root hist" shows "on_disk h unz (f @ g) root hist"
proof -
  from assms obtain D P S where r: "ref_wf (tr_term_dictionary_root root)" "ref_wf (tr_postings_root root)"
      "ref_wf (tr_doc_stats_root root)"
    and d: "chained (read_dict_segment h unz f) (tr_term_dictionary_root root) D" "list_all2 dict_for hist D"
    and p: "chained (read_postings_directory h unz f) (tr_postings_root root) P"
      "list_all2 (\<lambda>d. dir_for (fst (snd d))) hist P"
    and s: "chained (read_doc_stats h unz f) (tr_doc_stats_root root) S"
      "list_all2 (\<lambda>d s. dg_records s = snd (snd d)) hist S"
    unfolding on_disk_def by blast
  have "chained (read_dict_segment h unz (f @ g)) (tr_term_dictionary_root root) D"
    by (rule chained_mono [OF d(1)]) (rule reads_append)
  moreover have "chained (read_postings_directory h unz (f @ g)) (tr_postings_root root) P"
    by (rule chained_mono [OF p(1)]) (rule reads_append)
  moreover have "chained (read_doc_stats h unz (f @ g)) (tr_doc_stats_root root) S"
    by (rule chained_mono [OF s(1)]) (rule reads_append)
  ultimately show ?thesis
    unfolding on_disk_def using r d(2) p(2) s(2) by blast
qed

text \<open>The fields of a state that hold document statistics.\<close>
definition docs :: "text_space_state \<Rightarrow> (u64 \<rightharpoonup> doc_stats_entry) \<times> u32 list \<times> u32 list \<times> u64" where
  "docs st = (ts_doc_stats st, ts_doc_lengths st, ts_doc_unique_terms st, ts_max_frame_id st)"

lemma docs_step: "docs st = docs st' \<Longrightarrow> docs (apply_doc_stats e st) = docs (apply_doc_stats e st')"
  by (simp add: docs_def apply_doc_stats_def record_doc_stats_def ensure_frame_capacity_def Let_def)

lemma docs_fold: "docs st = docs st' \<Longrightarrow> docs (fold apply_doc_stats es st) = docs (fold apply_doc_stats es st')"
proof (induction es arbitrary: st st')
  case (Cons e es)
  show ?case unfolding fold_simps by (rule Cons.IH [OF docs_step [OF Cons.prems]])
qed simp

lemma apply_stats_chain_fold: "apply_stats_chain segs st = fold apply_doc_stats (concat (map dg_records segs)) st"
  by (induction segs arbitrary: st) (simp_all add: apply_stats_chain_def)

lemma add_posting_entry_docs: "docs (add_posting_entry k ie st) = docs st"
  by (cases ie) (simp add: docs_def add_posting_entry_def Let_def)

lemma add_posting_entries_docs: "docs (fold (add_posting_entry k) ies st) = docs st"
  by (induction ies arbitrary: st) (simp_all add: add_posting_entry_docs)

lemma add_segments_docs:
  "docs (fold (\<lambda>(k, seg). fold (add_posting_entry k) (List.enumerate 0 (pg_entries seg))) ks st) = docs st"
proof (induction ks arbitrary: st)
  case (Cons ks1 ks)
  then show ?case by (cases ks1) (simp only: fold_simps prod.case add_posting_entries_docs)
qed simp

lemma apply_postings_docs: "docs (apply_postings_chain segs st) = docs st"
proof -
  have "docs (st\<lparr>ts_postings_segments := segs\<rparr>) = docs st"
    "docs (st\<lparr>ts_postings_segments := segs, ts_single_segment_dir_index := ix\<rparr>) = docs st" for ix
    by (simp_all add: docs_def)
  then show ?thesis by (simp only: apply_postings_chain_def Let_def add_segments_docs if_distrib [of docs] if_cancel)
qed

text \<open>The fields a term lookup reads.\<close>
definition dict_of :: "text_space_state \<Rightarrow> term_slice list \<times> bytes list \<times> (bytes \<rightharpoonup> u32)" where
  "dict_of st = (ts_sorted_terms st, ts_term_dict_blobs st, ts_term_id_by_bytes st)"

lemma lookup_term_dict: "dict_of st = dict_of st' \<Longrightarrow> lookup_term st = lookup_term st'"
  by (simp add: dict_of_def lookup_term_def fun_eq_iff cong: option.case_cong)

lemma add_posting_entry_dict: "dict_of (add_posting_entry k ie st) = dict_of st"
  by (cases ie) (simp add: dict_of_def add_posting_entry_def Let_def)

lemma add_posting_entries_dict: "dict_of (fold (add_posting_entry k) ies st) = dict_of st"
  by (induction ies arbitrary: st) (simp_all add: add_posting_entry_dict)

lemma apply_postings_terms: "lookup_term (apply_postings_chain segs st) = lookup_term st"
proof (rule lookup_term_dict)
  have "dict_of (fold (\<lambda>(k, seg). fold (add_posting_entry k) (List.enumerate 0 (pg_entries seg))) ks st) = dict_of st"
    for ks :: "(nat \<times> postings_segment_directory) list" and st :: text_space_state
    by (induction ks arbitrary: st) (auto simp: add_posting_entries_dict)
  then show "dict_of (apply_postings_chain segs st) = dict_of st"
    by (simp add: apply_postings_chain_def Let_def) (simp add: dict_of_def)
qed

lemma lookup_stats: "lookup_term (fold apply_doc_stats es st) = lookup_term st"
  "lookup_postings (fold apply_doc_stats es st) = lookup_postings st"
proof -
  show "lookup_term (fold apply_doc_stats es st) = lookup_term st"
    by (rule lookup_term_dict) (simp add: dict_of_def)
  show "lookup_postings (fold apply_doc_stats es st) = lookup_postings st"
    by (simp add: fun_eq_iff lookup_postings_def single_entry_def cong: option.case_cong list.case_cong)
qed

lemma map_of_mset:
  assumes "distinct (map fst xs)" and "mset xs = mset ys" shows "map_of xs = map_of ys"
proof
  fix k
  have "distinct (map fst ys)" using assms by (metis mset_eq_imp_distinct_iff mset_map)
  then have "map_of xs k = Some v \<longleftrightarrow> map_of ys k = Some v" for v
    using assms mset_eq_setD [OF assms(2)] by (simp add: map_of_eq_Some_iff)
  then show "map_of xs k = map_of ys k" by (metis not_None_eq)
qed

definition hist_pairs :: "delta list \<Rightarrow> (bytes \<times> u32) list" where
  "hist_pairs hist = concat (map (dict_pairs \<circ> fst) hist)"

definition hist_lists :: "delta list \<Rightarrow> posting_list list list" where
  "hist_lists hist = map (fst \<circ> snd) hist"

text \<open>What a rebuild makes of a history.\<close>
lemma rebuild_spec:
  assumes disk: "on_disk h unz f root hist" and few: "length hist \<le> 2 ^ 32"
    and d: "distinct (map fst (hist_pairs hist))"
    and srt: "\<forall>ls\<in>set (hist_lists hist). \<forall>l\<in>set ls. sorted (map po_frame_id (pl_postings l))"
  shows "\<exists>st. rebuild_text_space_state h unz f root = Some (Inr st) \<and>
    lookup_term st = map_of (hist_pairs hist) \<and>
    docs st = docs (fold apply_doc_stats (concat (rev (map (snd \<circ> snd) hist))) text_space_state_default) \<and>
    (\<forall>tid. length (concat (map pl_postings (lists_for tid (rev (hist_lists hist))))) < 2 ^ 32 \<longrightarrow>
       found (lookup_postings st tid) (lists_for tid (rev (hist_lists hist))))"
proof -
  from disk obtain D P S where
    D: "chained (read_dict_segment h unz f) (tr_term_dictionary_root root) D" "list_all2 dict_for hist D"
    and P: "chained (read_postings_directory h unz f) (tr_postings_root root) P"
      "list_all2 (\<lambda>d. dir_for (fst (snd d))) hist P"
    and S: "chained (read_doc_stats h unz f) (tr_doc_stats_root root) S"
      "list_all2 (\<lambda>d s. dg_records s = snd (snd d)) hist S"
    unfolding on_disk_def by blast
  define s1 where "s1 = apply_dict_chain (rev D) text_space_state_default"
  define s2 where "s2 = apply_postings_chain (rev P) s1"
  define s3 where "s3 = apply_stats_chain (rev S) s2"
  have walks: "walk_term_dict_chain_lazy h unz f (tr_term_dictionary_root root) = Some (Inr (rev D))"
    "walk_postings_chain_directory h unz f (tr_postings_root root) = Some (Inr (rev P))"
    "walk_doc_stats_chain h unz f (tr_doc_stats_root root) = Some (Inr (rev S))"
    using text_chain_chained [OF D(1), of "[]"] text_chain_chained [OF P(1), of "[]"] text_chain_chained [OF S(1), of "[]"]
    by (simp_all add: walk_term_dict_chain_lazy_def walk_postings_chain_directory_def walk_doc_stats_chain_def)
  then have r: "rebuild_text_space_state h unz f root = Some (Inr s3)"
    by (simp add: rebuild_text_space_state_def walk_then_def s1_def s2_def s3_def Let_def)
  have pairs: "map seg_pairs D = map (dict_pairs \<circ> fst) hist"
    using D(2) by (induction rule: list_all2_induct) (simp_all add: dict_for_def)
  have "distinct (map fst (concat (map seg_pairs (rev D))))"
  proof -
    have "mset (map fst (concat (map seg_pairs (rev D)))) = mset (map fst (hist_pairs hist))"
      unfolding hist_pairs_def pairs [symmetric] by (simp add: mset_concat rev_map [symmetric])
    then show ?thesis using d by (metis mset_eq_imp_distinct_iff)
  qed
  then have lk: "lookup_term s1 t = map_of (concat (map seg_pairs (rev D))) t" for t
    using few list_all2_lengthD [OF D(2)] unfolding s1_def by (intro apply_dict_lookup) simp_all
  have "map_of (concat (map seg_pairs (rev D))) = map_of (hist_pairs hist)"
    using \<open>distinct (map fst (concat (map seg_pairs (rev D))))\<close>
    by (rule map_of_mset) (simp add: hist_pairs_def pairs [symmetric] mset_concat rev_map [symmetric])
  then have terms: "lookup_term s3 = map_of (hist_pairs hist)"
    using lk by (simp add: s3_def apply_stats_chain_fold lookup_stats s2_def apply_postings_terms fun_eq_iff)
  have stats: "map dg_records S = map (snd \<circ> snd) hist"
    using S(2) by (induction rule: list_all2_induct) simp_all
  have "docs s1 = docs text_space_state_default"
    using apply_dict_same [of text_space_state_default "rev D"] by (simp add: s1_def docs_def same_postings_def)
  moreover have "docs s2 = docs s1" unfolding s2_def by (rule apply_postings_docs)
  ultimately have "docs s2 = docs text_space_state_default" by simp
  then have docs: "docs s3 = docs (fold apply_doc_stats (concat (rev (map (snd \<circ> snd) hist))) text_space_state_default)"
    unfolding s3_def apply_stats_chain_fold rev_map [symmetric] stats by (rule docs_fold)
  have dirs: "list_all2 dir_for (rev (hist_lists hist)) (rev P)"
    using P(2) unfolding hist_lists_def list_all2_rev by (simp add: list_all2_map1 comp_def)
  have s1: "ts_postings_locator s1 = Map.empty" "ts_postings_by_term s1 = Map.empty" "ts_single_segment_dir_index s1 = []"
    using apply_dict_same [of text_space_state_default "rev D"]
    by (simp_all add: s1_def same_postings_def text_space_state_default_def)
  have "found (lookup_postings s3 tid) (lists_for tid (rev (hist_lists hist)))"
    if "length (concat (map pl_postings (lists_for tid (rev (hist_lists hist))))) < 2 ^ 32" for tid
    unfolding s3_def apply_stats_chain_fold lookup_stats s2_def
    using few list_all2_lengthD [OF P(2)] srt that by (intro apply_postings_found [OF dirs _ s1]) simp_all
  then show ?thesis using r terms docs by blast
qed

section \<open>A flush puts a delta on disk\<close>

lemma encode_flush_parts:
  assumes "encode_flush ts r1 r2 r3 dict ls stats = Inr out"
  shows "encode_term_dictionary_segment \<lparr>tg_text_space_id = ts, tg_previous_root = r1, tg_records = dict\<rparr>
      = Inr (fo_term_dict_segment out)"
    and "encode_postings_segment \<lparr>ps_text_space_id = ts, ps_previous_root = r2, ps_posting_lists = ls\<rparr>
      = Inr (fo_postings_segment out)"
    and "encode_doc_stats_segment \<lparr>dg_text_space_id = ts, dg_previous_root = r3, dg_records = stats\<rparr>
      = Inr (fo_doc_stats_segment out)"
  using assms by (auto simp: encode_flush_def rbind_Inr_iff)

lemma postings_count: "encode_postings_segment seg = Inr bs \<Longrightarrow> length (ps_posting_lists seg) < 2 ^ 32"
  by (auto simp: encode_postings_segment_def rbind_Inr_iff u32_try_from_Some_iff)

lemma append_reads_later:
  assumes h: "digest32 h" and app: "append_registered_segment h f a segs ty n p = Inr (root, f', a', segs')"
    and short: "length (f' @ g) < 2 ^ 32"
  shows "\<exists>tail. f' = f @ tail" and "ref_wf (Some root)"
    and "read_segment_payload_typed h unz (f' @ g) root ty = Inr p" and "length p < 2 ^ 32"
proof -
  have le: "length f \<le> length f'" by (rule append_registered_length [OF app])
  then have f: "fits (length f)" "fits (length f')" using short by (simp_all add: fits_def)
  show "\<exists>tail. f' = f @ tail" and "ref_wf (Some root)"
    using append_registered_extends(1,2) [OF h f(1) app] by (simp_all add: ref_wf_def)
  show "read_segment_payload_typed h unz (f' @ g) root ty = Inr p"
    by (rule read_segment_payload_typed_append [OF append_registered_extends(3) [OF h f(1) app f(2)]])
  show "length p < 2 ^ 32" using append_registered_segment_length [OF h f(1) app] short by simp
qed

lemma delta_reads:
  assumes h: "digest32 h" and enc: "encode_flush ts r1 r2 r3 dict ls stats = Inr out"
    and wf: "ref_wf r1" "ref_wf r2" "ref_wf r3"
    and a1: "append_registered_segment h f a segs TermDictionary n1 (fo_term_dict_segment out) = Inr (d_ref, f1, a1, segs1)"
    and a2: "append_registered_segment h f1 a1 segs1 Postings n2 (fo_postings_segment out) = Inr (p_ref, f2, a2, segs2)"
    and a3: "append_registered_segment h f2 a2 segs2 DocStats n3 (fo_doc_stats_segment out) = Inr (s_ref, f3, a3, segs3)"
    and short: "length f3 < 2 ^ 32" and ids: "distinct (map pl_term_id ls)"
  shows "\<exists>tail. f3 = f @ tail" and "ref_wf (Some d_ref) \<and> ref_wf (Some p_ref) \<and> ref_wf (Some s_ref)"
    and "\<exists>seg. read_dict_segment h unz f3 d_ref = Inr (seg, r1) \<and> dict_for (dict, ls, stats) seg"
    and "\<exists>dir. read_postings_directory h unz f3 p_ref = Inr (dir, r2) \<and> dir_for ls dir"
    and "\<exists>seg. read_doc_stats h unz f3 s_ref = Inr (seg, r3) \<and> dg_records seg = stats"
proof -
  note e = encode_flush_parts [OF enc]
  have l3: "length (f3 @ []) < 2 ^ 32" using short by simp
  note A3 = append_reads_later [OF h a3 l3]
  then obtain g2 where g2: "f3 = f2 @ g2" by blast
  then have l2: "length (f2 @ g2) < 2 ^ 32" using short by simp
  note A2 = append_reads_later [OF h a2 l2]
  then obtain g1 where g1: "f2 = f1 @ g1" by blast
  then have l1: "length (f1 @ g1 @ g2) < 2 ^ 32" using l2 by simp
  note A1 = append_reads_later [OF h a1 l1]
  have f3: "f3 = f1 @ g1 @ g2" by (simp add: g1 g2)
  show "\<exists>tail. f3 = f @ tail" using A1(1) f3 by auto
  show "ref_wf (Some d_ref) \<and> ref_wf (Some p_ref) \<and> ref_wf (Some s_ref)" using A1(2) A2(2) A3(2) by blast
  have r1: "read_segment_payload_typed h unz f3 d_ref TermDictionary = Inr (fo_term_dict_segment out)"
    unfolding f3 by (rule A1(3))
  have r2: "read_segment_payload_typed h unz f3 p_ref Postings = Inr (fo_postings_segment out)"
    unfolding g2 by (rule A2(3))
  have r3: "read_segment_payload_typed h unz f3 s_ref DocStats = Inr (fo_doc_stats_segment out)"
    using A3(3) by simp
  from term_dictionary_slices [OF e(1) _ A1(4)] wf(1) obtain slices where
    sl: "term_dict_slices (fo_term_dict_segment out) = Inr (slices, r1)"
      "map (\<lambda>s. (rs_term_id s, slice_bytes (fo_term_dict_segment out) s)) slices = map (\<lambda>e. (td_term_id e, td_term_bytes e)) dict"
    by auto
  have "map (\<lambda>s. (slice_bytes (fo_term_dict_segment out) s, rs_term_id s)) slices = map (\<lambda>e. (td_term_bytes e, td_term_id e)) dict"
    using arg_cong [OF sl(2), of "map (\<lambda>(i, b). (b, i))"] by (simp add: comp_def)
  then show "\<exists>seg. read_dict_segment h unz f3 d_ref = Inr (seg, r1) \<and> dict_for (dict, ls, stats) seg"
    by (simp add: read_dict_segment_def r1 sl(1) dict_for_def seg_pairs_def dict_pairs_def)
  from decode_encoded_postings [OF e(2)] wf(2) obtain dir where
    dir: "decode_postings_segment_directory (fo_postings_segment out) = Inr dir" "pg_previous_root dir = r2"
      "list_all2 (entry_for (pg_blob dir)) ls (pg_entries dir)" by auto
  have "length ls < 2 ^ 32" using postings_count [OF e(2)] by simp
  then show "\<exists>dir. read_postings_directory h unz f3 p_ref = Inr (dir, r2) \<and> dir_for ls dir"
    using dir ids by (simp add: read_postings_directory_def r2 dir_for_def)
  show "\<exists>seg. read_doc_stats h unz f3 s_ref = Inr (seg, r3) \<and> dg_records seg = stats"
    using doc_stats_roundtrip_here [OF e(3)] wf(3) by (simp add: read_doc_stats_def r3)
qed

lemma on_disk_flush:
  assumes h: "digest32 h" and disk: "on_disk h unz f root hist"
    and enc: "encode_flush ts (tr_term_dictionary_root root) (tr_postings_root root) (tr_doc_stats_root root) dict ls stats = Inr out"
    and a1: "append_registered_segment h f a segs TermDictionary n1 (fo_term_dict_segment out) = Inr (d_ref, f1, a1, segs1)"
    and a2: "append_registered_segment h f1 a1 segs1 Postings n2 (fo_postings_segment out) = Inr (p_ref, f2, a2, segs2)"
    and a3: "append_registered_segment h f2 a2 segs2 DocStats n3 (fo_doc_stats_segment out) = Inr (s_ref, f3, a3, segs3)"
    and short: "length f3 < 2 ^ 32" and ids: "distinct (map pl_term_id ls)"
  shows "on_disk h unz f3 (root\<lparr>tr_term_dictionary_root := Some d_ref, tr_postings_root := Some p_ref,
      tr_doc_stats_root := Some s_ref\<rparr>) ((dict, ls, stats) # hist)"
proof -
  have wf: "ref_wf (tr_term_dictionary_root root)" "ref_wf (tr_postings_root root)" "ref_wf (tr_doc_stats_root root)"
    using disk by (simp_all add: on_disk_def)
  note r = delta_reads [OF h enc wf a1 a2 a3 short ids]
  from r(1) obtain tail where "f3 = f @ tail" by blast
  then have "on_disk h unz f3 root hist" using on_disk_append [OF disk] by simp
  then obtain D P S where
    D: "chained (read_dict_segment h unz f3) (tr_term_dictionary_root root) D" "list_all2 dict_for hist D"
    and P: "chained (read_postings_directory h unz f3) (tr_postings_root root) P"
      "list_all2 (\<lambda>d. dir_for (fst (snd d))) hist P"
    and S: "chained (read_doc_stats h unz f3) (tr_doc_stats_root root) S"
      "list_all2 (\<lambda>d s. dg_records s = snd (snd d)) hist S"
    unfolding on_disk_def by blast
  from r(3-5) [of unz] obtain seg dir st where
    seg: "read_dict_segment h unz f3 d_ref = Inr (seg, tr_term_dictionary_root root)" "dict_for (dict, ls, stats) seg"
    and dir: "read_postings_directory h unz f3 p_ref = Inr (dir, tr_postings_root root)" "dir_for ls dir"
    and st: "read_doc_stats h unz f3 s_ref = Inr (st, tr_doc_stats_root root)" "dg_records st = stats" by blast
  have "chained (read_dict_segment h unz f3) (Some d_ref) (seg # D)" "list_all2 dict_for ((dict, ls, stats) # hist) (seg # D)"
    using D seg by simp_all
  moreover have "chained (read_postings_directory h unz f3) (Some p_ref) (dir # P)"
    "list_all2 (\<lambda>d. dir_for (fst (snd d))) ((dict, ls, stats) # hist) (dir # P)"
    using P dir by simp_all
  moreover have "chained (read_doc_stats h unz f3) (Some s_ref) (st # S)"
    "list_all2 (\<lambda>d s. dg_records s = snd (snd d)) ((dict, ls, stats) # hist) (st # S)"
    using S st by simp_all
  moreover let ?root = "root\<lparr>tr_term_dictionary_root := Some d_ref, tr_postings_root := Some p_ref,
      tr_doc_stats_root := Some s_ref\<rparr>"
  have "tr_term_dictionary_root ?root = Some d_ref" "tr_postings_root ?root = Some p_ref"
    "tr_doc_stats_root ?root = Some s_ref" by simp_all
  note roots = this
  ultimately show ?thesis
    unfolding on_disk_def roots using r(2) by blast
qed

section \<open>The live index beside the history\<close>

text \<open>The rows the frames of a batch have for a term, and those of a delta for a term id.\<close>
definition batch_rows :: "pending_frames \<Rightarrow> bytes \<Rightarrow> (u64 \<times> u32 \<times> u32 \<times> u32) list" where
  "batch_rows b t = List.map_filter (\<lambda>(f, frame).
     map_option (\<lambda>tf. (f, tf, pf_collection_id frame, 1)) (map_of (pf_term_counts frame) t)) b"

definition delta_rows :: "posting_list list \<Rightarrow> u32 \<Rightarrow> (u64 \<times> u32 \<times> u32 \<times> u32) list" where
  "delta_rows ls i = concat (map (map posting_row \<circ> pl_postings) (filter (\<lambda>l. pl_term_id l = i) ls))"

lemma map_filter_fst:
  "set (map fst (batch_rows b t)) \<subseteq> set (map fst b)"
  by (auto simp: batch_rows_def List.map_filter_def image_iff split: option.splits) force

lemma batch_rows_distinct: "distinct (map fst b) \<Longrightarrow> distinct (map fst (batch_rows b t))"
proof (induction b)
  case (Cons p b)
  have "fst p \<notin> set (map fst (batch_rows b t))" using Cons.prems map_filter_fst [of b t] by auto
  then show ?case using Cons by (force simp: batch_rows_def List.map_filter_simps split: option.split prod.split)
qed (simp add: batch_rows_def List.map_filter_simps)

lemma batch_rows_set:
  assumes "pending_ok b"
  shows "(f, r) \<in> set (batch_rows b t) \<longleftrightarrow> pending_row b t f = Some r"
proof -
  have d: "distinct (map fst b)" using assms by (simp add: pending_ok_def)
  have "(f, r) \<in> set (batch_rows b t) \<longleftrightarrow>
      (\<exists>frame. (f, frame) \<in> set b \<and> map_option (\<lambda>tf. (tf, pf_collection_id frame, 1)) (map_of (pf_term_counts frame) t) = Some r)"
    by (force simp: batch_rows_def List.map_filter_def split: option.splits)
  then show ?thesis by (simp add: pending_row_def map_of_eq_Some_iff [OF d, symmetric] split: option.split)
qed

text \<open>The delta of a flush has the rows of the batch.\<close>
lemma lists_rows:
  assumes ok: "pending_ok pending" and inj: "inj_on ids (dom ids)"
    and flat: "\<And>tid f c tf. (tid, f, c, tf) \<in> set flat \<longleftrightarrow>
      (\<exists>t. (f, c, t, tf) \<in> set (frame_items (sort_key fst pending)) \<and> ids t = Some tid)"
    and d: "distinct (map flat_key flat)" and t: "ids t = Some i"
  shows "mset (delta_rows (lists_of flat) i) = mset (batch_rows pending t)"
proof -
  note ls = lists_of_spec [OF d]
  have items: "(f, c, t, tf) \<in> set (frame_items (sort_key fst pending)) \<longleftrightarrow> pending_row pending t f = Some (tf, c, 1)" for f c tf
    using pending_row_items [OF ok] by (auto simp: set_frame_items)
  have in_flat: "(i, f, c, tf) \<in> set flat \<longleftrightarrow> pending_row pending t f = Some (tf, c, 1)" for f c tf
    unfolding flat items [symmetric] using t inj by (auto simp: inj_on_def dom_def) metis
  have one: "\<exists>c tf. r = (tf, c, 1)" if "pending_row pending t f = Some r" for f r
    using that by (auto simp: pending_row_def split: option.splits)
  have row: "(f, r) \<in> set (delta_rows (lists_of flat) i) \<longleftrightarrow> pending_row pending t f = Some r" for f r
  proof
    assume "(f, r) \<in> set (delta_rows (lists_of flat) i)"
    then obtain l where l: "l \<in> set (lists_of flat)" "pl_term_id l = i" "(f, r) \<in> posting_row ` set (pl_postings l)"
      by (auto simp: delta_rows_def)
    then obtain c tf where "r = (tf, c, 1)" using ls(2) [OF l(1)] by (auto simp: posting_row_def)
    then show "pending_row pending t f = Some r" using ls(2) [OF l(1)] l(2,3) in_flat by auto
  next
    assume p: "pending_row pending t f = Some r"
    then obtain c tf where r: "r = (tf, c, 1)" using one by blast
    then have fl: "(i, f, c, tf) \<in> set flat" using p in_flat by simp
    then have "i \<in> fst ` set flat" by force
    then obtain l where l: "l \<in> set (lists_of flat)" "pl_term_id l = i" using ls(3) by blast
    then have "(f, r) \<in> posting_row ` set (pl_postings l)" using ls(2) [OF l(1)] fl r by auto
    then show "(f, r) \<in> set (delta_rows (lists_of flat) i)" using l by (auto simp: delta_rows_def)
  qed
  have "distinct (delta_rows (lists_of flat) i)"
  proof (cases "find (\<lambda>j. pl_term_id (lists_of flat ! j) = i) [0..<length (lists_of flat)]")
    case None
    then show ?thesis by (simp add: delta_rows_def filter_find [OF ls(1)])
  next
    case (Some j)
    then have "lists_of flat ! j \<in> set (lists_of flat)" by (auto simp: find_Some_iff)
    then have "distinct (map po_frame_id (pl_postings (lists_of flat ! j)))" using ls(2) by blast
    then have "distinct (map fst (map posting_row (pl_postings (lists_of flat ! j))))"
      by (simp add: posting_row_def comp_def)
    then have "distinct (map posting_row (pl_postings (lists_of flat ! j)))" by (simp only: distinct_map)
    then show ?thesis by (simp add: delta_rows_def filter_find [OF ls(1)] Some)
  qed
  moreover have "distinct (batch_rows pending t)"
    using batch_rows_distinct [of pending t] ok by (simp only: pending_ok_def distinct_map)
  moreover have "set (delta_rows (lists_of flat) i) = set (batch_rows pending t)"
    using row batch_rows_set [OF ok] by auto
  ultimately show ?thesis by (simp only: set_eq_iff_mset_eq_distinct)
qed

definition batch_ok :: "text_space_state \<Rightarrow> delta \<Rightarrow> pending_frames \<Rightarrow> bool" where
  "batch_ok st d b \<longleftrightarrow> pending_ok b \<and> b \<noteq> [] \<and>
     (\<forall>l\<in>set (fst (snd d)). sorted (map po_frame_id (pl_postings l)) \<and> pl_term_id l < ts_next_term_id st) \<and>
     (\<forall>t. mset (case ts_term_id_by_bytes st t of None \<Rightarrow> [] | Some i \<Rightarrow> delta_rows (fst (snd d)) i) = mset (batch_rows b t))"

definition live_hist :: "text_space_state \<Rightarrow> delta list \<Rightarrow> pending_frames list \<Rightarrow> bool" where
  "live_hist st hist bs \<longleftrightarrow> live_inv st \<and> distinct (map fst (hist_pairs hist)) \<and>
     ts_term_id_by_bytes st = map_of (hist_pairs hist) \<and> list_all2 (batch_ok st) hist bs \<and>
     docs st = docs (fold apply_doc_stats (concat (rev (map (snd \<circ> snd) hist))) text_space_state_default)"

lemma live_hist_start: "live_hist text_space_state_default [] []"
  using default_live by (simp add: live_hist_def hist_pairs_def) (simp add: text_space_state_default_def)

text \<open>An older batch keeps its rows: the terms a flush adds are in none of them.\<close>
lemma batch_ok_step:
  assumes "batch_ok st d b" and "ts_next_term_id st \<le> ts_next_term_id st'"
    and old: "\<And>t i. ts_term_id_by_bytes st t = Some i \<Longrightarrow> ts_term_id_by_bytes st' t = Some i"
    and new: "\<And>t i. ts_term_id_by_bytes st t = None \<Longrightarrow> ts_term_id_by_bytes st' t = Some i \<Longrightarrow> ts_next_term_id st \<le> i"
  shows "batch_ok st' d b"
proof -
  have rows: "mset (case ts_term_id_by_bytes st' t of None \<Rightarrow> [] | Some i \<Rightarrow> delta_rows (fst (snd d)) i) = mset (batch_rows b t)" for t
  proof (cases "ts_term_id_by_bytes st t")
    case (Some i)
    then show ?thesis using assms(1) old [OF Some] by (auto simp: batch_ok_def dest!: spec [of _ t])
  next
    case None
    then have e: "batch_rows b t = []" using assms(1) by (auto simp: batch_ok_def dest!: spec [of _ t])
    have "delta_rows (fst (snd d)) i = []" if "ts_next_term_id st \<le> i" for i
      using assms(1) that by (auto simp: delta_rows_def batch_ok_def filter_empty_conv)
    then show ?thesis using new [OF None] by (simp add: e split: option.split)
  qed
  show ?thesis using assms(1,2) rows by (auto simp: batch_ok_def intro: less_le_trans)
qed

lemma lists_docs: "docs (fold apply_list ls st) = docs st"
proof (induction ls arbitrary: st)
  case (Cons l ls)
  have "docs (apply_list l st) = docs st" by (simp add: docs_def apply_list_def Let_def)
  then show ?case using Cons by simp
qed simp

lemma map_filter_map: "List.map_filter g xs = map (the \<circ> g) (filter (\<lambda>x. g x \<noteq> None) xs)"
  by (induction xs) (auto simp: List.map_filter_simps split: option.split)

lemma set_map_filter: "y \<in> set (List.map_filter g xs) \<longleftrightarrow> (\<exists>x\<in>set xs. g x = Some y)"
  by (induction xs) (auto simp: List.map_filter_simps split: option.split)

lemma dict_pairs_set:
  "(t, i) \<in> set (dict_pairs (List.map_filter (dict_record recs) ls)) \<longleftrightarrow>
   (\<exists>l\<in>set ls. pl_term_id l = i \<and> map_of recs i = Some t)"
proof -
  have r: "dict_record recs l = Some e \<and> td_term_bytes e = t \<and> td_term_id e = i \<Longrightarrow>
      pl_term_id l = i \<and> map_of recs i = Some t" for l e
    by (auto simp: dict_record_def)
  have r': "pl_term_id l = i \<and> map_of recs i = Some t \<Longrightarrow>
      \<exists>e. dict_record recs l = Some e \<and> td_term_bytes e = t \<and> td_term_id e = i" for l
    by (auto simp: dict_record_def)
  have "(t, i) \<in> set (dict_pairs (List.map_filter (dict_record recs) ls)) \<longleftrightarrow>
      (\<exists>l\<in>set ls. \<exists>e. dict_record recs l = Some e \<and> td_term_bytes e = t \<and> td_term_id e = i)"
    by (simp only: dict_pairs_def set_map image_iff prod.inject Bex_def set_map_filter) blast
  then show ?thesis using r r' by blast
qed

lemma live_hist_flush:
  assumes live: "live_hist st hist bs" and ok: "pending_ok pending" "pending \<noteq> []"
    and fl: "build_flush_output ts pending st r1 r2 r3 = (Inr out, st')"
  obtains dict ls stats where "live_hist st' ((dict, ls, stats) # hist) (pending # bs)"
    and "encode_flush ts r1 r2 r3 dict ls stats = Inr out" and "distinct (map pl_term_id ls)"
proof -
  let ?ord = "sort_key fst pending"
  have inv: "live_inv st" using live by (simp add: live_hist_def)
  obtain recs st1 flat where
    st': "st' = fold apply_doc_stats (doc_stats_of ts ?ord) (fold apply_list (lists_of flat) st1)"
    and enc: "encode_flush ts r1 r2 r3 (List.map_filter (dict_record recs) (lists_of flat)) (lists_of flat)
      (doc_stats_of ts ?ord) = Inr out"
    and as: "terms_ok st1 \<and> ts_next_term_id st \<le> ts_next_term_id st1 \<and> map snd recs = new_terms st ?ord \<and>
     (\<forall>t. t \<notin> set (new_terms st ?ord) \<longrightarrow> ts_term_id_by_bytes st1 t = ts_term_id_by_bytes st t) \<and>
     (\<forall>(i, t)\<in>set recs. ts_term_id_by_bytes st1 t = Some i \<and> ts_next_term_id st \<le> i) \<and>
     st1 = st\<lparr>ts_next_term_id := ts_next_term_id st1, ts_term_id_by_bytes := ts_term_id_by_bytes st1\<rparr>"
    and flat: "\<And>tid f c tf. (tid, f, c, tf) \<in> set flat \<longleftrightarrow>
      (\<exists>t. (f, c, t, tf) \<in> set (frame_items ?ord) \<and> ts_term_id_by_bytes st1 t = Some tid)" "distinct (map flat_key flat)"
    by (rule flush_facts [OF inv ok(1) fl], rule that) assumption+
  from as have tok: "terms_ok st1" and le: "ts_next_term_id st \<le> ts_next_term_id st1"
    and rt: "map snd recs = new_terms st ?ord"
    and unchanged: "\<And>t. t \<notin> set (new_terms st ?ord) \<Longrightarrow> ts_term_id_by_bytes st1 t = ts_term_id_by_bytes st t"
    and rec_id: "\<And>i t. (i, t) \<in> set recs \<Longrightarrow> ts_term_id_by_bytes st1 t = Some i \<and> ts_next_term_id st \<le> i"
    by blast+
  note ls = lists_of_spec [OF flat(2)]
  define dict where "dict = List.map_filter (dict_record recs) (lists_of flat)"
  have inj: "inj_on (ts_term_id_by_bytes st1) (dom (ts_term_id_by_bytes st1))" using tok by (simp add: terms_ok_def)
  have fields: "ts_term_id_by_bytes st' = ts_term_id_by_bytes st1" "ts_next_term_id st' = ts_next_term_id st1"
    by (simp_all add: st')
  have lk: "lookup_term st = ts_term_id_by_bytes st" using inv by (simp add: live_inv_def lookup_term_live)
  have names: "snd ` set recs = set (new_terms st ?ord)" using arg_cong [OF rt, of set] by simp
  have new_rec: "\<exists>i. (i, t) \<in> set recs" if "t \<in> set (new_terms st ?ord)" for t
    using that unfolding names [symmetric] by force
  have recs: "(i, t) \<in> set recs \<longleftrightarrow> t \<in> set (new_terms st ?ord) \<and> ts_term_id_by_bytes st1 t = Some i" for i t
  proof
    assume r: "(i, t) \<in> set recs"
    then have "t \<in> snd ` set recs" by force
    then show "t \<in> set (new_terms st ?ord) \<and> ts_term_id_by_bytes st1 t = Some i" using rec_id [OF r] names by blast
  next
    assume a: "t \<in> set (new_terms st ?ord) \<and> ts_term_id_by_bytes st1 t = Some i"
    then obtain j where j: "(j, t) \<in> set recs" using new_rec by blast
    then show "(i, t) \<in> set recs" using a rec_id [OF j] by simp
  qed
  have dr: "distinct (map fst recs)"
  proof -
    have "distinct recs" using new_terms_spec(1) [of st ?ord] unfolding rt [symmetric] by (simp only: distinct_map)
    moreover have "inj_on fst (set recs)"
    proof (rule inj_onI)
      fix x y assume x: "x \<in> set recs" and y: "y \<in> set recs" and e: "fst x = fst y"
      obtain i t u where xy: "x = (i, t)" "y = (i, u)" using e by (cases x; cases y) auto
      have "ts_term_id_by_bytes st1 t = Some i" "ts_term_id_by_bytes st1 u = Some i" using x y xy recs by blast+
      then have "t = u" using inj_onD [OF inj, of t u] by (simp add: domI)
      then show "x = y" by (simp add: xy)
    qed
    ultimately show ?thesis by (simp add: distinct_map)
  qed
  have pair: "(t, i) \<in> set (dict_pairs dict) \<longleftrightarrow> t \<in> set (new_terms st ?ord) \<and> ts_term_id_by_bytes st1 t = Some i" for t i
  proof -
    have "(t, i) \<in> set (dict_pairs dict) \<longleftrightarrow> (\<exists>l\<in>set (lists_of flat). pl_term_id l = i \<and> map_of recs i = Some t)"
      unfolding dict_def by (rule dict_pairs_set)
    also have "\<dots> \<longleftrightarrow> i \<in> fst ` set flat \<and> (i, t) \<in> set recs"
      using ls(3) [of i] by (auto simp: map_of_eq_Some_iff [OF dr])
    also have "\<dots> \<longleftrightarrow> (i, t) \<in> set recs"
    proof -
      have "i \<in> fst ` set flat" if r: "(i, t) \<in> set recs"
      proof -
        obtain f c tf where "(f, c, t, tf) \<in> set (frame_items ?ord)" using r recs by (auto simp: new_terms_spec)
        then have "(i, f, c, tf) \<in> set flat" using flat(1) r recs by blast
        then show ?thesis by force
      qed
      then show ?thesis by blast
    qed
    finally show ?thesis using recs by blast
  qed
  have ids: "map snd (dict_pairs dict) = map pl_term_id (filter (\<lambda>l. map_of recs (pl_term_id l) \<noteq> None) (lists_of flat))"
    by (simp add: dict_pairs_def dict_def map_filter_map dict_record_def comp_def) auto
  have dd: "distinct (map fst (dict_pairs dict))"
  proof -
    have "distinct (map snd (dict_pairs dict))" unfolding ids using ls(1) by (rule distinct_map_filter)
    then have "distinct (dict_pairs dict)" by (simp only: distinct_map)
    moreover have "inj_on fst (set (dict_pairs dict))" using pair by (intro inj_onI) auto
    ultimately show ?thesis by (simp only: distinct_map)
  qed
  have hp: "hist_pairs ((dict, ls, stats) # hist) = dict_pairs dict @ hist_pairs hist" for ls stats
    by (simp add: hist_pairs_def)
  have old: "ts_term_id_by_bytes st = map_of (hist_pairs hist)" "distinct (map fst (hist_pairs hist))"
    using live by (simp_all add: live_hist_def)
  have new_none: "ts_term_id_by_bytes st t = None" if "t \<in> set (new_terms st ?ord)" for t
    using that by (simp add: new_terms_spec lk)
  have disj: "fst ` set (dict_pairs dict) \<inter> fst ` set (hist_pairs hist) = {}"
  proof -
    have "t \<notin> fst ` set (hist_pairs hist)" if t: "t \<in> fst ` set (dict_pairs dict)" for t
    proof -
      obtain i where "(t, i) \<in> set (dict_pairs dict)" using t by force
      then have "ts_term_id_by_bytes st t = None" using pair new_none by blast
      then show ?thesis by (simp only: old(1) map_of_eq_None_iff not_False_eq_True)
    qed
    then show ?thesis by blast
  qed
  have terms: "ts_term_id_by_bytes st1 = map_of (dict_pairs dict @ hist_pairs hist)"
  proof
    fix t
    show "ts_term_id_by_bytes st1 t = map_of (dict_pairs dict @ hist_pairs hist) t"
    proof (cases "t \<in> set (new_terms st ?ord)")
      case True
      then obtain i where "(i, t) \<in> set recs" using new_rec by blast
      then have "(t, i) \<in> set (dict_pairs dict)" "ts_term_id_by_bytes st1 t = Some i" using pair recs by blast+
      then show ?thesis using dd by (simp add: map_add_def)
    next
      case False
      then have "t \<notin> fst ` set (dict_pairs dict)" using pair by auto
      then have "map_of (dict_pairs dict) t = None" by (simp add: map_of_eq_None_iff)
      then show ?thesis using False unchanged old(1) by (simp add: map_add_def)
    qed
  qed
  have keep: "ts_term_id_by_bytes st' t = Some i" if "ts_term_id_by_bytes st t = Some i" for t i
    using that unchanged new_none [of t] by (cases "t \<in> set (new_terms st ?ord)") (simp_all add: fields)
  have fresh: "ts_next_term_id st \<le> i" if "ts_term_id_by_bytes st t = None" "ts_term_id_by_bytes st' t = Some i" for t i
  proof -
    have "t \<in> set (new_terms st ?ord)" using that unchanged by (cases "t \<in> set (new_terms st ?ord)") (simp_all add: fields)
    then have "(i, t) \<in> set recs" using that(2) recs by (simp add: fields)
    then show ?thesis using rec_id by blast
  qed
  have this_ok: "batch_ok st' (dict, lists_of flat, doc_stats_of ts ?ord) pending"
  proof -
    have lt: "pl_term_id l < ts_next_term_id st'" if "l \<in> set (lists_of flat)" for l
    proof -
      have "pl_term_id l \<in> fst ` set flat" using ls(3) that by blast
      then obtain f c tf where "(pl_term_id l, f, c, tf) \<in> set flat" by force
      then show ?thesis using flat(1) tok by (auto simp: terms_ok_def fields)
    qed
    have rows: "mset (case ts_term_id_by_bytes st' t of None \<Rightarrow> [] | Some i \<Rightarrow> delta_rows (lists_of flat) i) =
        mset (batch_rows pending t)" for t
    proof (cases "ts_term_id_by_bytes st1 t")
      case (Some i)
      then show ?thesis using lists_rows [OF ok(1) inj flat Some] by (simp add: fields)
    next
      case None
      have "(f, c, t, tf) \<notin> set (frame_items ?ord)" for f c tf
      proof
        assume m: "(f, c, t, tf) \<in> set (frame_items ?ord)"
        show False
        proof (cases "t \<in> set (new_terms st ?ord)")
          case True
          then obtain i where "(i, t) \<in> set recs" using new_rec by blast
          then show False using recs None by simp
        next
          case False
          then have "ts_term_id_by_bytes st t \<noteq> None" using m by (auto simp: new_terms_spec lk)
          then show False using False unchanged None by simp
        qed
      qed
      then have no_row: "pending_row pending t f \<noteq> Some r" for f r
        using pending_row_items [OF ok(1), of t f r] by (auto simp: set_frame_items)
      have "x \<notin> set (batch_rows pending t)" for x
        by (cases x) (simp only: batch_rows_set [OF ok(1)] no_row not_False_eq_True)
      then have "set (batch_rows pending t) = {}" by (intro equals0I) blast
      then show ?thesis by (simp add: fields None)
    qed
    show ?thesis unfolding batch_ok_def fst_conv snd_conv using ok lt rows ls(2) by blast
  qed
  have "list_all2 (batch_ok st') hist bs"
  proof (rule list_all2_mono)
    show "list_all2 (batch_ok st) hist bs" using live by (simp add: live_hist_def)
    show "batch_ok st' d b" if "batch_ok st d b" for d b
      using le by (intro batch_ok_step [OF that _ keep fresh]) (simp_all add: fields)
  qed
  moreover have "docs st' = docs (fold apply_doc_stats (doc_stats_of ts ?ord) st)"
  proof -
    have e: "st1 = st\<lparr>ts_next_term_id := ts_next_term_id st1, ts_term_id_by_bytes := ts_term_id_by_bytes st1\<rparr>"
      using as by blast
    have "docs (st\<lparr>ts_next_term_id := n, ts_term_id_by_bytes := m\<rparr>) = docs st" for n m by (simp add: docs_def)
    then have "docs st1 = docs st" using arg_cong [OF e, of docs] by (simp only:)
    then show ?thesis unfolding st' by (intro docs_fold) (simp add: lists_docs)
  qed
  moreover have "docs (fold apply_doc_stats (doc_stats_of ts ?ord) st) =
      docs (fold apply_doc_stats (doc_stats_of ts ?ord) (fold apply_doc_stats (concat (rev (map (snd \<circ> snd) hist))) text_space_state_default))"
    using live by (intro docs_fold) (simp add: live_hist_def)
  ultimately have "live_hist st' ((dict, lists_of flat, doc_stats_of ts ?ord) # hist) (pending # bs)"
    using flush_live(1) [OF inv ok(1) fl] this_ok dd disj old(2)
    by (simp add: live_hist_def hp fields terms)
  then show ?thesis using that enc ls(1) unfolding dict_def by blast
qed

section \<open>Sessions\<close>

lemma root_of_update:
  "(\<And>r. tr_text_space_id (g r) = tr_text_space_id r) \<Longrightarrow>
   find (\<lambda>r. tr_text_space_id r = ts) (update_text_root ts g rs) =
     Some (g (case find (\<lambda>r. tr_text_space_id r = ts) rs of Some r \<Rightarrow> r | None \<Rightarrow> text_index_root_new ts))"
  by (induction rs) (simp_all add: text_index_root_new_def)

lemma text_root_of_mut:
  assumes "\<And>r. tr_text_space_id (g r) = tr_text_space_id r"
  shows "text_root_of ts (text_index_root_mut ts g body) =
    Some (g (case text_root_of ts body of Some r \<Rightarrow> r | None \<Rightarrow> text_index_root_new ts))"
  using root_of_update [OF assms, where ts = ts] by (simp add: text_root_of_def text_index_root_mut_def)

text \<open>
  What one handle does to a text space: it starts without an index; commits of anything else
  append to the file and leave the root alone; a commit with pending frames flushes them. The
  last argument lists the batches, newest first.
\<close>
inductive text_session ::
  "hash \<Rightarrow> text_space_id \<Rightarrow> toc_footer_body \<Rightarrow> storage \<Rightarrow> text_space_state \<Rightarrow> pending_frames list \<Rightarrow> bool"
  for h ts where
  session_start: "text_root_of ts body = None \<Longrightarrow> text_session h ts body f text_space_state_default []"
| session_other: "text_session h ts body f st bs \<Longrightarrow> text_root_of ts body' = text_root_of ts body \<Longrightarrow>
    text_session h ts body' (f @ g) st bs"
| session_flush: "text_session h ts body f st bs \<Longrightarrow> pending_ok pending \<Longrightarrow> pending \<noteq> [] \<Longrightarrow>
    (case states ts of Some s \<Rightarrow> s | None \<Rightarrow> text_space_state_default) = st \<Longrightarrow>
    flush_text_space h ts pending (body, f, a, segs, states) = Inr (body', f', a', segs', states') \<Longrightarrow>
    states' ts = Some st' \<Longrightarrow> text_session h ts body' f' st' (pending # bs)"

lemma flush_text_space_parts:
  assumes "flush_text_space h ts pending (body, f, a, segs, states) = Inr (body', f', a', segs', states')"
    and "pending \<noteq> []"
  obtains root st st' out d_ref f1 a1 segs1 p_ref f2 a2 segs2 s_ref where
    "root = (case text_root_of ts body of Some r \<Rightarrow> r | None \<Rightarrow> text_index_root_new ts)"
    and "st = (case states ts of Some s \<Rightarrow> s | None \<Rightarrow> text_space_state_default)"
    and "build_flush_output ts pending st (tr_term_dictionary_root root) (tr_postings_root root)
      (tr_doc_stats_root root) = (Inr out, st')"
    and "append_registered_segment h f a segs TermDictionary (fo_term_dict_record_count out) (fo_term_dict_segment out)
      = Inr (d_ref, f1, a1, segs1)"
    and "append_registered_segment h f1 a1 segs1 Postings (fo_postings_record_count out) (fo_postings_segment out)
      = Inr (p_ref, f2, a2, segs2)"
    and "append_registered_segment h f2 a2 segs2 DocStats (fo_doc_stats_record_count out) (fo_doc_stats_segment out)
      = Inr (s_ref, f', a', segs')"
    and "text_root_of ts body' = Some (root\<lparr>tr_term_dictionary_root := Some d_ref,
      tr_postings_root := Some p_ref, tr_doc_stats_root := Some s_ref\<rparr>)"
    and "states' = states(ts \<mapsto> st')"
proof -
  define root where "root = (case text_root_of ts body of Some r \<Rightarrow> r | None \<Rightarrow> text_index_root_new ts)"
  define st where "st = (case states ts of Some s \<Rightarrow> s | None \<Rightarrow> text_space_state_default)"
  define upd where "upd d p s = (\<lambda>r :: text_index_root. r\<lparr>tr_term_dictionary_root := Some d,
      tr_postings_root := Some p, tr_doc_stats_root := Some s\<rparr>)" for d p s
  have mut: "text_root_of ts (text_index_root_mut ts id body) = Some root"
    using text_root_of_mut [of id ts body] by (simp add: root_def)
  have mut2: "text_root_of ts (text_index_root_mut ts (upd d p s) (text_index_root_mut ts id body)) = Some (upd d p s root)" for d p s
    using text_root_of_mut [of "upd d p s" ts "text_index_root_mut ts id body"] by (simp add: mut upd_def)
  obtain r st' where b: "build_flush_output ts pending st (tr_term_dictionary_root root) (tr_postings_root root)
      (tr_doc_stats_root root) = (r, st')" by fastforce
  have "flush_text_space h ts pending (body, f, a, segs, states) =
      rbind r (\<lambda>out.
         rbind (append_registered_segment h f a segs TermDictionary (fo_term_dict_record_count out)
                  (fo_term_dict_segment out)) (\<lambda>(term_dict_ref, f1, a1, segs1).
         rbind (append_registered_segment h f1 a1 segs1 Postings (fo_postings_record_count out)
                  (fo_postings_segment out)) (\<lambda>(postings_ref, f2, a2, segs2).
         rbind (append_registered_segment h f2 a2 segs2 DocStats (fo_doc_stats_record_count out)
                  (fo_doc_stats_segment out)) (\<lambda>(doc_stats_ref, f3, a3, segs3).
         Inr (text_index_root_mut ts (upd term_dict_ref postings_ref doc_stats_ref) (text_index_root_mut ts id body),
              f3, a3, segs3, states(ts \<mapsto> st'))))))"
    using assms(2) by (simp add: flush_text_space_def mut b upd_def flip: st_def)
  with assms(1) obtain out d_ref f1 a1 segs1 p_ref f2 a2 segs2 s_ref where r: "r = Inr out"
    and app: "append_registered_segment h f a segs TermDictionary (fo_term_dict_record_count out) (fo_term_dict_segment out)
      = Inr (d_ref, f1, a1, segs1)"
      "append_registered_segment h f1 a1 segs1 Postings (fo_postings_record_count out) (fo_postings_segment out)
      = Inr (p_ref, f2, a2, segs2)"
      "append_registered_segment h f2 a2 segs2 DocStats (fo_doc_stats_record_count out) (fo_doc_stats_segment out)
      = Inr (s_ref, f', a', segs')"
    and body': "body' = text_index_root_mut ts (upd d_ref p_ref s_ref) (text_index_root_mut ts id body)"
    and states': "states' = states(ts \<mapsto> st')"
    by (auto simp: rbind_Inr_iff)
  show ?thesis
    by (rule that [OF root_def st_def b [unfolded r] app _ states']) (simp add: body' mut2, simp add: upd_def)
qed

lemma flush_text_space_state:
  assumes "flush_text_space h ts pending (body, f, a, segs, states) = Inr (body', f', a', segs', states')"
    and "pending \<noteq> []"
  shows "\<exists>(root :: text_index_root) out st'. build_flush_output ts pending (case states ts of Some s \<Rightarrow> s | None \<Rightarrow> text_space_state_default)
      (tr_term_dictionary_root root) (tr_postings_root root) (tr_doc_stats_root root) = (Inr out, st') \<and>
    states' = states(ts \<mapsto> st')"
proof (rule flush_text_space_parts [OF assms])
  fix root :: text_index_root and st st' out
  assume "st = (case states ts of Some s \<Rightarrow> s | None \<Rightarrow> text_space_state_default)"
    and "build_flush_output ts pending st (tr_term_dictionary_root root) (tr_postings_root root)
      (tr_doc_stats_root root) = (Inr out, st')" and "states' = states(ts \<mapsto> st')"
  then show ?thesis by blast
qed

definition session_disk ::
  "hash \<Rightarrow> zstd_decode \<Rightarrow> text_space_id \<Rightarrow> toc_footer_body \<Rightarrow> storage \<Rightarrow> delta list \<Rightarrow> bool" where
  "session_disk h unz ts body f hist \<longleftrightarrow>
     (case text_root_of ts body of None \<Rightarrow> hist = [] | Some root \<Rightarrow> on_disk h unz f root hist)"

lemma on_disk_new: "on_disk h unz f (text_index_root_new ts) []"
  by (simp add: on_disk_def text_index_root_new_def ref_wf_def)

lemma session_disk_root:
  "session_disk h unz ts body f hist \<Longrightarrow>
   on_disk h unz f (case text_root_of ts body of Some r \<Rightarrow> r | None \<Rightarrow> text_index_root_new ts) hist"
  using on_disk_new by (auto simp: session_disk_def split: option.splits)

lemma session_history:
  assumes "text_session h ts body f st bs" and "digest32 h" and "length f < 2 ^ 32"
  shows "\<exists>hist. live_hist st hist bs \<and> session_disk h unz ts body f hist"
  using assms
proof (induction rule: text_session.induct)
  case (session_start body f)
  then show ?case using live_hist_start by (intro exI [of _ "[]"]) (simp add: session_disk_def)
next
  case (session_other body f st bs body' g)
  then have "length f < 2 ^ 32" by simp
  with session_other obtain hist where "live_hist st hist bs" "session_disk h unz ts body f hist" by blast
  then show ?case
    using session_other.hyps(2) on_disk_append by (intro exI [of _ hist]) (auto simp: session_disk_def split: option.splits)
next
  case (session_flush body f st bs pending states a segs body' f' a' segs' states' st')
  from session_flush.hyps obtain root st0 st1 out d_ref f1 a1 segs1 p_ref f2 a2 segs2 s_ref where
    root: "root = (case text_root_of ts body of Some r \<Rightarrow> r | None \<Rightarrow> text_index_root_new ts)"
    and st0: "st0 = (case states ts of Some s \<Rightarrow> s | None \<Rightarrow> text_space_state_default)"
    and fl: "build_flush_output ts pending st0 (tr_term_dictionary_root root) (tr_postings_root root)
      (tr_doc_stats_root root) = (Inr out, st1)"
    and a1: "append_registered_segment h f a segs TermDictionary (fo_term_dict_record_count out) (fo_term_dict_segment out)
      = Inr (d_ref, f1, a1, segs1)"
    and a2: "append_registered_segment h f1 a1 segs1 Postings (fo_postings_record_count out) (fo_postings_segment out)
      = Inr (p_ref, f2, a2, segs2)"
    and a3: "append_registered_segment h f2 a2 segs2 DocStats (fo_doc_stats_record_count out) (fo_doc_stats_segment out)
      = Inr (s_ref, f', a', segs')"
    and root': "text_root_of ts body' = Some (root\<lparr>tr_term_dictionary_root := Some d_ref,
      tr_postings_root := Some p_ref, tr_doc_stats_root := Some s_ref\<rparr>)"
    and states': "states' = states(ts \<mapsto> st1)"
    by (elim flush_text_space_parts) blast+
  have st: "st0 = st" "st1 = st'" using st0 session_flush.hyps(4,6) states' by simp_all
  have "length f \<le> length f'"
    using append_registered_length [OF a1] append_registered_length [OF a2] append_registered_length [OF a3] by simp
  then have "length f < 2 ^ 32" using session_flush.prems(2) by simp
  with session_flush.IH session_flush.prems(1) obtain hist where
    live: "live_hist st hist bs" and disk: "session_disk h unz ts body f hist" by blast
  have "on_disk h unz f root hist" unfolding root by (rule session_disk_root [OF disk])
  moreover obtain dict ls stats where "live_hist st' ((dict, ls, stats) # hist) (pending # bs)"
    and enc: "encode_flush ts (tr_term_dictionary_root root) (tr_postings_root root) (tr_doc_stats_root root) dict ls stats = Inr out"
    and d: "distinct (map pl_term_id ls)"
    by (rule live_hist_flush [OF live session_flush.hyps(2,3) fl [unfolded st]])
  ultimately show ?case
    using on_disk_flush [OF session_flush.prems(1) _ enc a1 a2 a3 session_flush.prems(2) d]
    by (intro exI [of _ "(dict, ls, stats) # hist"]) (simp add: session_disk_def root')
qed

section \<open>Reopening\<close>

text \<open>The rows an index holds for a term.\<close>
definition index_rows :: "text_space_state \<Rightarrow> bytes \<Rightarrow> (u64 \<times> u32 \<times> u32 \<times> u32) list result" where
  "index_rows st t =
     (case lookup_term st t of
        None \<Rightarrow> Inr []
      | Some tid \<Rightarrow> rbind (lookup_postings_sparse st tid) (\<lambda>r.
          Inr (case r of None \<Rightarrow> [] | Some d \<Rightarrow> pd_rows d)))"

lemma lists_for_rows:
  "concat (map (map posting_row \<circ> pl_postings) (lists_for i Ls)) = concat (map (\<lambda>ls. delta_rows ls i) Ls)"
  by (induction Ls) (simp_all add: lists_for_def delta_rows_def comp_def)

lemma batch_rows_length: "length (batch_rows b t) \<le> length b"
  by (simp add: batch_rows_def map_filter_map)

lemma batches_few:
  assumes "list_all2 (batch_ok st) hist bs"
  shows "length hist \<le> length (concat bs)" and "length (concat (map (\<lambda>b. batch_rows b t) bs)) \<le> length (concat bs)"
proof -
  show "length hist \<le> length (concat bs)"
    using assms
  proof (induction rule: list_all2_induct)
    case (Cons d ds b bs)
    then have "1 \<le> length b" by (simp add: batch_ok_def Suc_le_eq)
    from add_mono [OF this Cons.IH] show ?case by simp
  qed simp
  show "length (concat (map (\<lambda>b. batch_rows b t) bs)) \<le> length (concat bs)"
    using batch_rows_length [of _ t] by (induction bs) (simp_all add: add_mono)
qed

lemma history_rows:
  "list_all2 (batch_ok st) hist bs \<Longrightarrow>
   mset (case ts_term_id_by_bytes st t of None \<Rightarrow> []
     | Some i \<Rightarrow> concat (map (\<lambda>ls. delta_rows ls i) (rev (hist_lists hist)))) =
   mset (concat (map (\<lambda>b. batch_rows b t) bs))"
proof (induction rule: list_all2_induct)
  case (Cons d ds b bs)
  from Cons.hyps(1) have "mset (case ts_term_id_by_bytes st t of None \<Rightarrow> [] | Some i \<Rightarrow> delta_rows (fst (snd d)) i) =
      mset (batch_rows b t)"
    unfolding batch_ok_def by blast
  then show ?case
    using Cons.IH by (cases "ts_term_id_by_bytes st t") (simp_all add: hist_lists_def)
qed (simp add: hist_lists_def split: option.split)

lemma reopened:
  assumes ses: "text_session h ts body f st bs" and h: "digest32 h" and short: "length f < 2 ^ 32"
    and few: "length (concat bs) < 2 ^ 32"
  shows "\<exists>st2. rebuild_space h unz f body ts = Some (Inr st2) \<and> lookup_term st2 = lookup_term st \<and>
    docs st2 = docs st \<and> (\<forall>t. \<exists>rows. index_rows st2 t = Inr rows \<and> sorted (map fst rows) \<and>
      mset rows = mset (concat (map (\<lambda>b. batch_rows b t) bs)) \<and>
      (\<forall>f. found_row st2 t f = map_of rows f))"
proof -
  from session_history [OF ses h short] obtain hist where live: "live_hist st hist bs"
    and disk: "session_disk h unz ts body f hist" by blast
  from live have inv: "live_inv st" and d: "distinct (map fst (hist_pairs hist))"
    and ids: "ts_term_id_by_bytes st = map_of (hist_pairs hist)" and ok: "list_all2 (batch_ok st) hist bs"
    and dc: "docs st = docs (fold apply_doc_stats (concat (rev (map (snd \<circ> snd) hist))) text_space_state_default)"
    by (simp_all add: live_hist_def)
  have lk: "lookup_term st = map_of (hist_pairs hist)" using inv ids by (simp add: live_inv_def lookup_term_live)
  note rows = history_rows [OF ok]
  have srt: "\<forall>ls\<in>set (hist_lists hist). \<forall>l\<in>set ls. sorted (map po_frame_id (pl_postings l))"
    using ok by (induction rule: list_all2_induct) (auto simp: hist_lists_def batch_ok_def)
  have "\<exists>st2. rebuild_space h unz f body ts = Some (Inr st2) \<and> lookup_term st2 = lookup_term st \<and> docs st2 = docs st \<and>
    (\<forall>tid. length (concat (map pl_postings (lists_for tid (rev (hist_lists hist))))) < 2 ^ 32 \<longrightarrow>
       found (lookup_postings st2 tid) (lists_for tid (rev (hist_lists hist))))"
  proof (cases "text_root_of ts body")
    case None
    then have "hist = []" using disk by (simp add: session_disk_def)
    then show ?thesis
      using None dc lk
      by (intro exI [of _ text_space_state_default])
        (simp add: rebuild_space_def hist_pairs_def hist_lists_def lists_for_def found_def lookup_term_live
          lookup_postings_def single_entry_def text_space_state_default_def)
  next
    case (Some root)
    then have "on_disk h unz f root hist" using disk by (simp add: session_disk_def)
    moreover have "length hist \<le> 2 ^ 32" using batches_few(1) [OF ok] few by simp
    ultimately show ?thesis
      using rebuild_spec [OF _ _ d srt] lk dc by (simp add: rebuild_space_def Some)
  qed
  then obtain st2 where st2: "rebuild_space h unz f body ts = Some (Inr st2)" "lookup_term st2 = lookup_term st"
      "docs st2 = docs st"
    and fd: "length (concat (map pl_postings (lists_for tid (rev (hist_lists hist))))) < 2 ^ 32 \<Longrightarrow>
       found (lookup_postings st2 tid) (lists_for tid (rev (hist_lists hist)))" for tid by blast
  have "\<exists>rows. index_rows st2 t = Inr rows \<and> sorted (map fst rows) \<and>
      mset rows = mset (concat (map (\<lambda>b. batch_rows b t) bs)) \<and> (\<forall>f. found_row st2 t f = map_of rows f)" for t
  proof (cases "ts_term_id_by_bytes st t")
    case None
    then show ?thesis
      using rows [of t] by (intro exI [of _ "[]"]) (simp add: index_rows_def found_row_def st2(2) lk ids)
  next
    case (Some i)
    let ?ls = "lists_for i (rev (hist_lists hist))"
    have m: "mset (concat (map (map posting_row \<circ> pl_postings) ?ls)) = mset (concat (map (\<lambda>b. batch_rows b t) bs))"
      using rows [of t] by (simp only: Some option.case lists_for_rows)
    have "length (concat (map pl_postings ?ls)) = length (concat (map (map posting_row \<circ> pl_postings) ?ls))"
      by (simp add: length_concat comp_def)
    also have "\<dots> = length (concat (map (\<lambda>b. batch_rows b t) bs))" by (rule mset_eq_length [OF m])
    finally have "found (lookup_postings st2 i) ?ls" using fd batches_few(2) [OF ok, of t] few by simp
    then consider (none) "lookup_postings st2 i = Inr None" "?ls = []"
      | (sparse) dd where "lookup_postings st2 i = Inr (Some (Sparse dd))" "?ls \<noteq> []" "sorted (pd_frame_ids dd)"
        "mset (pd_rows dd) = mset (concat (map (map posting_row \<circ> pl_postings) ?ls))"
        "pd_frame_ids dd = map fst (pd_rows dd)"
      by (auto simp: found_def split: sum.splits option.splits lazy_posting_list.splits)
    then show ?thesis
    proof cases
      case none
      then show ?thesis
        using m by (intro exI [of _ "[]"])
          (simp add: index_rows_def found_row_def st2(2) lk ids [symmetric] Some lookup_postings_sparse_def)
    next
      case sparse
      then show ?thesis
        using m by (intro exI [of _ "pd_rows dd"])
          (simp add: index_rows_def found_row_def st2(2) lk ids [symmetric] Some lookup_postings_sparse_def)
    qed
  qed
  then show ?thesis using st2 by blast
qed

text \<open>The newest row of a frame for a term.\<close>
fun newest_row :: "pending_frames list \<Rightarrow> bytes \<Rightarrow> u64 \<Rightarrow> (u32 \<times> u32 \<times> u32) option" where
  "newest_row [] t f = None"
| "newest_row (b # bs) t f = (case pending_row b t f of Some r \<Rightarrow> Some r | None \<Rightarrow> newest_row bs t f)"

lemma session_live:
  assumes "text_session h ts body f st bs"
  shows "live_inv st \<and> (\<forall>b\<in>set bs. pending_ok b) \<and> (\<forall>t f. found_row st t f = newest_row bs t f)"
  using assms
proof (induction rule: text_session.induct)
  case (session_start body f)
  show ?case using default_live
    by (simp add: found_row_live) (simp add: text_space_state_default_def)
next
  case (session_flush body f st bs pending states a segs body' f' a' segs' states' st')
  from flush_text_space_state [OF session_flush.hyps(5,3)] obtain root :: text_index_root and st1 out where
    fl: "build_flush_output ts pending st (tr_term_dictionary_root root) (tr_postings_root root)
      (tr_doc_stats_root root) = (Inr out, st1)"
    and states': "states' = states(ts \<mapsto> st1)"
    unfolding session_flush.hyps(4) by blast
  then have "st1 = st'" using session_flush.hyps(6) by simp
  with fl have "live_inv st'" "found_row st' t f =
      (case pending_row pending t f of Some r \<Rightarrow> Some r | None \<Rightarrow> found_row st t f)" for t f
    using flush_live [OF _ session_flush.hyps(2)] session_flush.IH by blast+
  then show ?case using session_flush.IH session_flush.hyps(2) by (simp cong: option.case_cong)
qed simp

lemma newest_row_map:
  assumes "\<forall>b\<in>set bs. pending_ok b"
  shows "map_of (concat (map (\<lambda>b. batch_rows b t) bs)) f = newest_row bs t f"
  using assms
proof (induction bs)
  case (Cons b bs)
  then have ok: "pending_ok b" by simp
  have d: "distinct (map fst (batch_rows b t))" using batch_rows_distinct ok by (simp add: pending_ok_def)
  have "map_of (batch_rows b t) f = Some r \<longleftrightarrow> pending_row b t f = Some r" for r
    by (simp only: map_of_eq_Some_iff [OF d] batch_rows_set [OF ok])
  then have "map_of (batch_rows b t) f = pending_row b t f" by (metis not_None_eq)
  then show ?case using Cons by (simp add: map_add_def split: option.split)
qed simp

lemma frames_distinct:
  "distinct (concat (map (map fst) bs)) \<Longrightarrow> distinct (map fst (concat (map (\<lambda>b. batch_rows b t) bs)))"
proof (induction bs)
  case (Cons b bs)
  have sub: "set (map fst (concat (map (\<lambda>b. batch_rows b t) bs))) \<subseteq> set (concat (map (map fst) bs))"
  proof (induction bs)
    case (Cons c bs)
    then show ?case using map_filter_fst [of c t] unfolding list.map concat.simps map_append set_append by (rule Un_mono [rotated])
  qed simp
  have "set (map fst b) \<inter> set (concat (map (map fst) bs)) = {}" using Cons.prems by simp
  then have "set (map fst (batch_rows b t)) \<inter> set (map fst (concat (map (\<lambda>b. batch_rows b t) bs))) = {}"
    using sub map_filter_fst [of b t] by blast
  moreover have "distinct (map fst (batch_rows b t))" using Cons.prems by (intro batch_rows_distinct) simp
  moreover have "distinct (map fst (concat (map (\<lambda>b. batch_rows b t) bs)))" using Cons by simp
  ultimately show ?case by (simp only: list.map concat.simps map_append distinct_append)
qed simp

text \<open>C6: The text index survives a reopen: after any number of commits of one handle in which no
  frame is indexed twice, interleaved with whatever else is appended to the file, the rebuild at
  open succeeds and its index answers like the one the handle has in memory: the same term ids,
  for every term and frame the same frequency, collection and fields, and the same document
  statistics.\<close>
theorem text_index_survives_reopen:
  assumes "text_session h ts body f st bs" and "digest32 h" and "length f < 2 ^ 32"
    and "length (concat bs) < 2 ^ 32" and "distinct (concat (map (map fst) bs))"
  shows "\<exists>st2. rebuild_space h unz f body ts = Some (Inr st2) \<and> lookup_term st2 = lookup_term st \<and>
    (\<forall>t f. found_row st2 t f = found_row st t f) \<and> docs st2 = docs st"
proof -
  from reopened [OF assms(1-4), of unz] obtain st2 where st2: "rebuild_space h unz f body ts = Some (Inr st2)"
      "lookup_term st2 = lookup_term st" "docs st2 = docs st"
    and rows: "\<exists>rows. mset rows = mset (concat (map (\<lambda>b. batch_rows b t) bs)) \<and>
      (\<forall>f. found_row st2 t f = map_of rows f)" for t by blast
  note live = session_live [OF assms(1)]
  have "found_row st2 t f = found_row st t f" for t f
  proof -
    obtain rows where r: "mset rows = mset (concat (map (\<lambda>b. batch_rows b t) bs))" "found_row st2 t f = map_of rows f"
      using rows by blast
    have "map_of (concat (map (\<lambda>b. batch_rows b t) bs)) = map_of rows"
      by (rule map_of_mset [OF frames_distinct [OF assms(5)] r(1) [symmetric]])
    then show ?thesis using r(2) newest_row_map [of bs t f] live by simp
  qed
  then show ?thesis using st2 by blast
qed

text \<open>C7: A reopened index keeps every batch: whatever the commits of a handle indexed, the rows a
  lookup of a term yields after a reopen are those of all batches together, in frame order. A
  frame indexed by two commits is there once for each, although the handle that indexed it kept
  only the newest row.\<close>
theorem reopened_index_rows:
  assumes "text_session h ts body f st bs" and "digest32 h" and "length f < 2 ^ 32"
    and "length (concat bs) < 2 ^ 32"
  shows "\<exists>st2. rebuild_space h unz f body ts = Some (Inr st2) \<and>
    (\<forall>t. \<exists>rows. index_rows st2 t = Inr rows \<and> sorted (map fst rows) \<and>
       mset rows = mset (concat (map (\<lambda>b. batch_rows b t) bs)))"
  using reopened [OF assms, of unz] by blast

section \<open>A session of two commits\<close>

lemma ex_lists_encode:
  assumes "ref_wf r2" and "ref_wf r3"
  shows "\<exists>p. encode_postings_segment \<lparr>ps_text_space_id = 7, ps_previous_root = r2, ps_posting_lists = [ex_list]\<rparr> = Inr p \<and> length p < 1000"
    and "\<exists>s. encode_doc_stats_segment \<lparr>dg_text_space_id = 7, dg_previous_root = r3, dg_records = [ex_stats]\<rparr> = Inr s \<and> length s < 1000"
proof -
  have l: "length (write_optional_segment_ref r) < 100" if "ref_wf r" for r
    using that by (simp add: write_optional_segment_ref_def ref_wf_def split: option.splits)
  show "\<exists>p. encode_postings_segment \<lparr>ps_text_space_id = 7, ps_previous_root = r2, ps_posting_lists = [ex_list]\<rparr> = Inr p \<and> length p < 1000"
    using l [OF assms(1)]
    by (simp add: encode_postings_segment_def encode_posting_blob_def u32_try_from_def DENSE_FLAG_def VLTP_MAGIC_def
        rbind_Inr_iff varint_small drop_bit_eq_div ex_list_def DENSE_THRESHOLD_def write_dir_entry_def)
  show "\<exists>s. encode_doc_stats_segment \<lparr>dg_text_space_id = 7, dg_previous_root = r3, dg_records = [ex_stats]\<rparr> = Inr s \<and> length s < 1000"
    using l [OF assms(2)]
    by (simp add: encode_doc_stats_segment_def field_count_of_def u32_try_from_def write_run_column_def VLTS_MAGIC_def
        write_blob_def nth_fields_def write_field_column_def field_width_def write_field_def
        write_uvarint_eq varint_small ex_stats_def)
qed

lemma ex_dict_encode:
  assumes "ref_wf r1" and "d = [] \<or> d = [ex_record]"
  shows "\<exists>p. encode_term_dictionary_segment \<lparr>tg_text_space_id = 7, tg_previous_root = r1, tg_records = d\<rparr> = Inr p \<and> length p < 1000"
proof -
  have "length (write_optional_segment_ref r1) < 100"
    using assms(1) by (simp add: write_optional_segment_ref_def ref_wf_def split: option.splits)
  then show ?thesis
    using assms(2) by (auto simp: encode_term_dictionary_segment_def ex_record_def u32_try_from_def VLTD_MAGIC_def)
qed

lemma ex_text_flush:
  assumes "st = text_space_state_default \<or> lookup_term st [97] = Some 0"
    and "ref_wf r1" and "ref_wf r2" and "ref_wf r3"
  shows "\<exists>out st'. build_flush_output 7 ex_batch st r1 r2 r3 = (Inr out, st') \<and> lookup_term st' [97] = Some 0 \<and>
    length (fo_term_dict_segment out) < 1000 \<and> length (fo_postings_segment out) < 1000 \<and>
    length (fo_doc_stats_segment out) < 1000"
proof -
  obtain d st' where d: "d = [] \<or> d = [ex_record]"
    and fl: "build_flush_output 7 ex_batch st r1 r2 r3 = (encode_flush 7 r1 r2 r3 d [ex_list] [ex_stats], st')"
      "lookup_term st' [97] = Some 0"
    using assms(1) ex_batch_first [of r1 r2 r3] ex_batch_again [of st r1 r2 r3] by blast
  from ex_dict_encode [OF assms(2) d] ex_lists_encode [OF assms(3,4)]
  obtain p q s where "encode_term_dictionary_segment \<lparr>tg_text_space_id = 7, tg_previous_root = r1, tg_records = d\<rparr> = Inr p"
    "encode_postings_segment \<lparr>ps_text_space_id = 7, ps_previous_root = r2, ps_posting_lists = [ex_list]\<rparr> = Inr q"
    "encode_doc_stats_segment \<lparr>dg_text_space_id = 7, dg_previous_root = r3, dg_records = [ex_stats]\<rparr> = Inr s"
    "length p < 1000" "length q < 1000" "length s < 1000" by blast
  then show ?thesis using fl by (simp add: encode_flush_def)
qed

text \<open>Appending a short segment to a short file, and one commit of the batch.\<close>
lemma ex_append:
  fixes a :: id_allocator
  assumes h: "digest32 h" and f: "length f < 200000" and p: "length p < 1000"
    and a: "0 < unat (next_segment_id a)" "unat (next_segment_id a) < 1000"
  shows "\<exists>root f' a' segs'. append_registered_segment h f a segs ty n p = Inr (root, f', a', segs') \<and>
    length f' < length f + 2000 \<and> unat (next_segment_id a') = unat (next_segment_id a) + 1"
proof -
  let ?i = "next_segment_id a"
  have "?i \<noteq> 0" using a by auto
  then have al: "allocate_segment_id a = Inr (?i, a\<lparr>next_segment_id := ?i + 1\<rparr>)"
    using a by (simp add: allocate_segment_id_def take_id_def validate_next_def next_id_def checked_add_def)
  have "unat (?i + 1) = unat ?i + 1" using a by (subst unat_word_ariths) simp
  then show ?thesis
    using append_registered_segment_total [OF h _ _ al, of f p segs ty n] f p
    by (fastforce simp: fits_def SEGMENT_HEADER_SIZE_def)
qed

lemma ex_text_commit:
  fixes a :: id_allocator and states :: "text_space_id \<rightharpoonup> text_space_state"
  assumes ses: "text_session h 7 body f st bs" and h: "digest32 h" and f: "length f < 100000"
    and st: "(case states 7 of Some s \<Rightarrow> s | None \<Rightarrow> text_space_state_default) = st"
      "st = text_space_state_default \<or> lookup_term st [97] = Some 0"
    and a: "0 < unat (next_segment_id a)" "unat (next_segment_id a) < 900"
  shows "\<exists>body' f' (a' :: id_allocator) (states' :: text_space_id \<rightharpoonup> text_space_state) st'. text_session h 7 body' f' st' (ex_batch # bs) \<and> states' 7 = Some st' \<and>
    lookup_term st' [97] = Some 0 \<and> length f' < length f + 10000 \<and> 0 < unat (next_segment_id a') \<and>
    unat (next_segment_id a') < unat (next_segment_id a) + 10"
proof -
  define root where "root = (case text_root_of 7 body of Some r \<Rightarrow> r | None \<Rightarrow> text_index_root_new 7)"
  have "length f < 2 ^ 32" using f by simp
  then obtain hist where "session_disk h (\<lambda>_. None) 7 body f hist" using session_history [OF ses h] by blast
  from session_disk_root [OF this] have wf: "ref_wf (tr_term_dictionary_root root)" "ref_wf (tr_postings_root root)"
    "ref_wf (tr_doc_stats_root root)" by (simp_all add: root_def on_disk_def)
  from ex_text_flush [OF st(2) wf] obtain out st' where
    fl: "build_flush_output 7 ex_batch st (tr_term_dictionary_root root) (tr_postings_root root) (tr_doc_stats_root root) = (Inr out, st')"
      "lookup_term st' [97] = Some 0"
    and len: "length (fo_term_dict_segment out) < 1000" "length (fo_postings_segment out) < 1000"
      "length (fo_doc_stats_segment out) < 1000" by blast
  have "length f < 200000" "unat (next_segment_id a) < 1000" using f a by simp_all
  from ex_append [OF h this(1) len(1) a(1) this(2), of segs] obtain r1 f1 a1 s1 where
    ap1: "append_registered_segment h f a segs TermDictionary
      (fo_term_dict_record_count out) (fo_term_dict_segment out) = Inr (r1, f1, a1, s1)"
    and l1: "length f1 < length f + 2000" "unat (next_segment_id a1) = unat (next_segment_id a) + 1" by blast
  then have "length f1 < 200000" "0 < unat (next_segment_id a1)" "unat (next_segment_id a1) < 1000" using f a by simp_all
  from ex_append [OF h this(1) len(2) this(2,3), of s1] obtain r2 f2 a2 s2 where
    ap2: "append_registered_segment h f1 a1 s1 Postings
      (fo_postings_record_count out) (fo_postings_segment out) = Inr (r2, f2, a2, s2)"
    and l2: "length f2 < length f1 + 2000" "unat (next_segment_id a2) = unat (next_segment_id a1) + 1" by blast
  then have "length f2 < 200000" "0 < unat (next_segment_id a2)" "unat (next_segment_id a2) < 1000" using f a l1 by simp_all
  from ex_append [OF h this(1) len(3) this(2,3), of s2] obtain r3 f3 a3 s3 where
    ap3: "append_registered_segment h f2 a2 s2 DocStats
      (fo_doc_stats_record_count out) (fo_doc_stats_segment out) = Inr (r3, f3, a3, s3)"
    and l3: "length f3 < length f2 + 2000" "unat (next_segment_id a3) = unat (next_segment_id a2) + 1" by blast
  define upd where "upd = (\<lambda>r :: text_index_root. r\<lparr>tr_term_dictionary_root := Some r1,
      tr_postings_root := Some r2, tr_doc_stats_root := Some r3\<rparr>)"
  have mut: "text_root_of 7 (text_index_root_mut 7 id body) = Some root"
    using text_root_of_mut [of id 7 body] by (simp add: root_def)
  have ne: "ex_batch \<noteq> []" by (simp add: ex_batch_def)
  have "flush_text_space h 7 ex_batch (body, f, a, segs, states) =
      Inr (text_index_root_mut 7 upd (text_index_root_mut 7 id body), f3, a3, s3, states(7 \<mapsto> st'))"
    using ne by (simp add: flush_text_space_def mut st(1) fl(1) ap1 ap2 ap3 upd_def)
  from text_session.session_flush [OF ses ex_batch_ok(1) ne st(1) this, of st']
  have "text_session h 7 (text_index_root_mut 7 upd (text_index_root_mut 7 id body)) f3 st' (ex_batch # bs)" by simp
  moreover have "(states(7 \<mapsto> st')) 7 = Some st'" by simp
  moreover have "length f3 < length f + 10000" "0 < unat (next_segment_id a3)"
    "unat (next_segment_id a3) < unat (next_segment_id a) + 10" using l1 l2 l3 by simp_all
  ultimately show ?thesis using fl(2) by blast
qed

lemma ex_start: "text_session h 7 (toc_body_empty 1 contract_default) [] text_space_state_default []"
  by (rule session_start) (simp add: text_root_of_def toc_body_empty_def)

lemma ex_one_commit:
  assumes h: "digest32 h"
  shows "\<exists>body f (a :: id_allocator) (states :: text_space_id \<rightharpoonup> text_space_state) st. text_session h 7 body f st [ex_batch] \<and> states 7 = Some st \<and> lookup_term st [97] = Some 0 \<and>
    length f < 10000 \<and> 0 < unat (next_segment_id a) \<and> unat (next_segment_id a) < 20"
  using ex_text_commit [OF ex_start h, of Map.empty id_allocator_default] by (fastforce simp: id_allocator_default_def)

lemma text_index_survives_reopen_witness:
  "\<exists>body f st st2. text_session (\<lambda>_. replicate 32 0) 7 body f st [ex_batch] \<and>
     rebuild_space (\<lambda>_. replicate 32 0) (\<lambda>_. None) f body 7 = Some (Inr st2) \<and>
     found_row st [97] 5 = Some (2, 1, 1) \<and> found_row st2 [97] 5 = Some (2, 1, 1)"
proof -
  have h: "digest32 (\<lambda>_. replicate 32 0)" by (simp add: digest32_def)
  obtain body f st where ses: "text_session (\<lambda>_. replicate 32 0) 7 body f st [ex_batch]" and f: "length f < 10000"
    using ex_one_commit [OF h] by blast
  have "found_row st [97] 5 = Some (2, 1, 1)" using session_live [OF ses] ex_batch_ok(2) by simp
  then show ?thesis
    using text_index_survives_reopen [OF ses h, of "\<lambda>_. None"] f ses by (fastforce simp: ex_batch_def)
qed

lemma reopened_index_rows_witness:
  "\<exists>body f st st2 rows. text_session (\<lambda>_. replicate 32 0) 7 body f st [ex_batch, ex_batch] \<and>
     rebuild_space (\<lambda>_. replicate 32 0) (\<lambda>_. None) f body 7 = Some (Inr st2) \<and>
     found_row st [97] 5 = Some (2, 1, 1) \<and> index_rows st2 [97] = Inr rows \<and>
     mset rows = {#(5, 2, 1, 1), (5, 2, 1, 1)#}"
proof -
  have h: "digest32 (\<lambda>_. replicate 32 0)" by (simp add: digest32_def)
  obtain body f st and a :: id_allocator and states :: "text_space_id \<rightharpoonup> text_space_state"
    where ses: "text_session (\<lambda>_. replicate 32 0) 7 body f st [ex_batch]"
    and st: "states 7 = Some st" "lookup_term st [97] = Some 0" and f: "length f < 10000"
    and a: "0 < unat (next_segment_id a)" "unat (next_segment_id a) < 20"
    using ex_one_commit [OF h] by metis
  have c: "(case states 7 of Some s \<Rightarrow> s | None \<Rightarrow> text_space_state_default) = st" by (simp add: st(1))
  have "length f < 100000" "unat (next_segment_id a) < 900" using f a by simp_all
  from ex_text_commit [where states = states, OF ses h this(1) c disjI2 [OF st(2)] a(1) this(2)] obtain body' f' st' where
    two: "text_session (\<lambda>_. replicate 32 0) 7 body' f' st' [ex_batch, ex_batch]" and "length f' < length f + 10000"
    by blast
  then have f': "length f' < 2 ^ 32" using f by simp
  have rows: "batch_rows ex_batch [97] = [(5, 2, 1, 1)]"
    by (simp add: batch_rows_def ex_batch_def ex_batch_frame List.map_filter_simps)
  have "found_row st' [97] 5 = Some (2, 1, 1)" using session_live [OF two] ex_batch_ok(2) by simp
  moreover obtain st2 r where "rebuild_space (\<lambda>_. replicate 32 0) (\<lambda>_. None) f' body' 7 = Some (Inr st2)"
    "index_rows st2 [97] = Inr r" "mset r = mset (concat (map (\<lambda>b. batch_rows b [97]) [ex_batch, ex_batch]))"
    using reopened_index_rows [OF two h f', of "\<lambda>_. None"] by (fastforce simp: ex_batch_def)
  ultimately show ?thesis using two by (fastforce simp: rows)
qed

end
