(* ===== verification/Spec2Isabelle.thy ===== *)
theory Spec2Isabelle
  imports Varint Header Registry SegmentIo Contract Toc Recovery CatalogIo Commit CommitPhases GroupFsync TimeIndex CollectionFilter FrameStore Reopen Opening Partition CatalogTables VectorSegment TextSession
begin

text \<open>
  A verification development for Valise, a single-file store of frames (documents and chunks),
  text indexes and vectors. Paths are relative to src/ of the repository.

  \<^bold>\<open>The program.\<close> A file starts with a 4 KB header: 120 logical bytes, a coordination region
  that several processes share, and the digest of the contract the file was created with.
  Behind it segments are only ever appended. A commit appends the segments of what changed,
  appends a footer (the TOC) with the roots of all chains, publishes its offset and generation
  in the coordination region, rewrites the logical bytes of the header, and syncs. An open reads
  header, footer and roots; when the footer that the header names cannot be used, it scans the
  whole file for the newest footer whose roots load.

  \<^bold>\<open>Foundations.\<close> \<open>Prelude\<close>: machine words, errors, results, bytes. \<open>Storage\<close>: the file as a byte
  list. \<open>Cursor\<close>, \<open>Varint\<close>, \<open>Columns\<close>: the cursor, the integers and the columns that the segment
  codecs share; the locale \<open>wire_codec\<close> is their contract, interpreted on every codec of the
  program. \<open>SortedVec\<close>: vectors kept sorted by binary search; the locale \<open>keyed_table\<close> is the map
  they implement, interpreted on each of the catalog's tables.

  \<^bold>\<open>The file.\<close> \<open>Header\<close> (format/header.rs, format.rs, concurrency/coordination.rs), \<open>Segment\<close> and
  \<open>SegmentIo\<close> (format/segment.rs, file/segment_io.rs), \<open>Registry\<close> (format/registry.rs; the locale
  \<open>id_source\<close> is the contract of the eleven id counters), \<open>Contract\<close> (format/create_contract.rs,
  format/dtype.rs), \<open>Toc\<close> (format/toc.rs, file/toc_io.rs). Shown: codecs round trip, a footer with a
  changed byte is rejected, fresh ids are fresh.

  \<^bold>\<open>Opening and committing.\<close> \<open>Recovery\<close> (file/lifecycle.rs): the choice of the footer, with its
  soundness, its completeness and that it is the newest. \<open>Commit\<close> (file/commit.rs, file/lifecycle.rs):
  create, open, the write phase, crashes in it. \<open>CommitPhases\<close> (file/commit.rs,
  concurrency/locks.rs): the whole commit of one of several handles on a file; the locale
  \<open>segment_phase\<close> is what a commit expects of the phase that writes its segments, interpreted on
  the catalog phase. \<open>Opening\<close> (file/lifecycle.rs): the loading of a snapshot.
  \<open>GroupFsync\<close> (concurrency/writer_pipeline.rs): the group-commit barrier as a transition system.

  \<^bold>\<open>The catalog.\<close> \<open>Catalog\<close>, \<open>CatalogCodec\<close>, \<open>CatalogIo\<close> (format/catalog.rs, format/catalog_codec.rs,
  file/catalog_io.rs): descriptors, the delta segments of a table and their chains.
  \<open>FrameCatalog\<close>, \<open>FrameChain\<close> (format/frame_catalog_codec.rs, file/internals.rs): the columnar frame
  table and the older row format. \<open>TimeIndex\<close> (format/time_index_segment.rs, file/time_index_io.rs)
  and \<open>CollectionFilter\<close> (format/collection_filter.rs, file/filter_io.rs): derived indexes.
  \<open>CatalogTables\<close> (file/commit_writers.rs): all phases of a catalog commit. Shown: what a commit wrote
  is what the next open reads, table by table and for the whole catalog.

  \<^bold>\<open>The handle.\<close> \<open>Handle\<close> (file.rs, file/accessors.rs): state and guards; \<open>Frames\<close>, \<open>FrameStore\<close>
  (file/frame_ops.rs, file/vector_ops.rs): collections, frames, payloads and URIs against an abstract
  map; \<open>CodecParams\<close>, \<open>Registration\<close>, \<open>Session\<close>, \<open>Reopen\<close> (file/registration.rs, file/codec_io.rs,
  file/internals.rs): the schema and what an open rebuilds of it. The invariants hold along any
  run of operations.

  \<^bold>\<open>The text index.\<close> \<open>TermDictionary\<close>, \<open>Postings\<close>, \<open>DocStats\<close> (format/term_dictionary.rs,
  format/postings.rs, format/doc_stats.rs): the segments. \<open>TextIndex\<close>, \<open>TextFlush\<close>, \<open>TextReopen\<close>,
  \<open>TextHistory\<close>, \<open>TextSession\<close> (file/text_indexing.rs, file/internals.rs, file/commit_writers.rs): the index in
  memory, its flush, its rebuild at open, and the comparison of the two over any commits.

  \<^bold>\<open>Others.\<close> \<open>VectorSegment\<close> (format/vector.rs); \<open>CivilDate\<close>, \<open>Partition\<close> (db/partition.rs): time
  partitions of a collection. \<open>Instances\<close> holds concrete parameters for the witnesses.

  \<^bold>\<open>Conventions.\<close> A result is \<open>Inl\<close> of an error or \<open>Inr\<close> of a value; the text of an error
  is its constant part. \<open>Panic\<close> is an unwinding panic, which no error handling catches. An operation
  on a handle returns the new state also when it fails; \<open>None\<close> is a walk that does not return
  (a cyclic chain). Parameters stand for code outside the repository: the BLAKE3 hash, with
  32-byte digests (\<open>digest32\<close>), the bincode encoding of a type, which decodes what it encoded
  (\<open>bincode_ok\<close>), the zstd decoder, the random uuid, the clock.

  \<^bold>\<open>Bounds.\<close> Files and segments are shorter than 2^63 bytes (\<open>fits\<close>), as an \<open>off_t\<close> is. The scan for
  footers reads in chunks of \<open>SCAN_CHUNK\<close> bytes with an overlap; its recursion is bounded by the
  length of the file. The writer slot is tried 1024 times, as in the code. Chain walks are partial
  functions, not fuelled. Text-index payloads are shorter than 4 GiB. Tickets of the group-commit barrier are
  unbounded numbers where the code has \<open>u64\<close>; days and years are unbounded integers where
  it has \<open>i64\<close>; both are far beyond what a run reaches.

  \<^bold>\<open>Not modelled.\<close> I/O errors outside the write phase of a commit; durability options, timers and
  profiles; memory maps as such (a map shows what the file holds); the snapshots and caches for
  readers of one process; the pin counts of the coordination region; the vector codecs beyond
  their parameters (an instantiated codec is its family and dimension) and vector search, which is floating-point and SIMD code;
  tokenisation; scores of a retrieval; the tombstone loop of \<open>forget_before\<close>, of which only the
  selection of the partitions is here; the store layer of db/ above the handle; the command line, the
  bindings and the benchmarks.
\<close>

end
